(* ===== verification/Prelude.thy ===== *)
theory Prelude
  imports Main "HOL-Library.Word" "HOL-Library.Monad_Syntax" "HOL-Library.Multiset"
begin

unbundle bit_operations_syntax

section \<open>Shared vocabulary of the development\<close>

text \<open>
  What every component theory uses:
  \<^item> \<open>'a option\<close> is the result of code that can stop the process: \<open>None\<close> is a failed
    \<open>ENV_BUG_ON\<close> (or an \<open>ENV_BUG\<close>), \<open>Some r\<close> is a normal return. \<open>bug_on\<close> is the
    assertion itself and the do notation of \<open>Monad_Syntax\<close> sequences the statements.
  \<^item> error codes that functions return are values of \<open>ocf_error\<close>; a function that returns 0 or a
    negative code returns \<open>OCF_OK\<close> or that code.
  \<^item> counters that C keeps in 32 bits are natural numbers with the wrap-around written out by
    \<open>inc32\<close> and \<open>dec32\<close>; bit patterns are machine words.
\<close>

named_theorems ocf_simps \<open>defining equations a component's proofs unfold\<close>
named_theorems heap_simps \<open>what a heap update leaves unchanged\<close>
named_theorems word_bit_simps \<open>bits of the words the code builds\<close>

subsection \<open>Assertions and error codes\<close>

definition bug_on :: "bool \<Rightarrow> unit option" where
  "bug_on c = (if c then None else Some ())"

lemma bug_on_simps [simp]:
  "bug_on True = None" "bug_on False = Some ()"
  by (simp_all add: bug_on_def)

lemma bug_on_eq_Some [simp]: "bug_on c = Some u \<longleftrightarrow> \<not> c"
  by (simp add: bug_on_def)

lemma bind_bug_on [simp]: "(bug_on c \<bind> f) = (if c then None else f ())"
  by (simp add: bug_on_def)

lemma bind_eq_Some_iff:
  "(m \<bind> f) = Some y \<longleftrightarrow> (\<exists>x. m = Some x \<and> f x = Some y)"
  by (cases m) simp_all

datatype ocf_error = OCF_OK | OCF_ERR_INVAL | OCF_ERR_AGAIN | OCF_ERR_NO_MEM
  | OCF_ERR_NO_LOCK | OCF_ERR_NO_FREE_RAM | OCF_ERR_START_CACHE_FAIL | OCF_ERR_IO | OCF_ERR_NOT_OPEN_EXC
  | OCF_ERR_NOT_COMPOSITE_VOLUME | OCF_ERR_COMPOSITE_VOLUME_MEMBER_NOT_EXIST | OCF_ERR_COMPOSITE_INVALID_ID
  | OCF_ERR_COMPOSITE_UNINITIALISED_VOLUME | OCF_ERR_COMPOSITE_ATTACHED | OCF_ERR_COMPOSITE_DETACHED
  | OCF_ERR_COMPOSITE_INVALID_SIZE | OCF_ERR_IO_CLASS_NOT_EXIST | OCF_ERR_CACHE_STANDBY | OCF_ERR_UNKNOWN

subsection \<open>Counters of 32 bits\<close>

definition inc32 :: "nat \<Rightarrow> nat" where
  "inc32 n = (n + 1) mod 2 ^ 32"

definition dec32 :: "nat \<Rightarrow> nat" where
  "dec32 n = (n + (2 ^ 32 - 1)) mod 2 ^ 32"

text \<open>The conversion of an unsigned 32-bit value to \<open>int\<close>.\<close>

definition s32 :: "int \<Rightarrow> int" where
  "s32 x = (let y = x mod 2 ^ 32 in if y < 2 ^ 31 then y else y - 2 ^ 32)"

lemma inc32_eq: "n < 2 ^ 32 - 1 \<Longrightarrow> inc32 n = Suc n"
  by (simp add: inc32_def)

lemma dec32_eq: "0 < n \<Longrightarrow> n < 2 ^ 32 \<Longrightarrow> dec32 n = n - 1"
proof -
  assume "0 < n" "n < 2 ^ 32"
  then have "n + (2 ^ 32 - 1) = (n - 1) + 2 ^ 32" by simp
  then have "dec32 n = (n - 1) mod 2 ^ 32"
    unfolding dec32_def by (metis mod_add_self2)
  with \<open>n < 2 ^ 32\<close> show ?thesis by simp
qed

lemma dec32_Suc: "n < 2 ^ 32 - 1 \<Longrightarrow> dec32 (Suc n) = n"
  by (simp add: dec32_eq)

lemma dec32_inc32: "n < 2 ^ 32 \<Longrightarrow> dec32 (inc32 n) = n"
  by (cases "n = 2 ^ 32 - 1") (simp_all add: inc32_def dec32_def mod_simps)

lemma s32_small: "- (2 ^ 31) \<le> x \<Longrightarrow> x < 2 ^ 31 \<Longrightarrow> s32 x = x"
proof (cases "0 \<le> x")
  case True
  assume "x < 2 ^ 31"
  with True show ?thesis by (simp add: s32_def)
next
  case False
  assume lo: "- (2 ^ 31) \<le> x"
  have "x mod 2 ^ 32 = (x + 2 ^ 32) mod 2 ^ 32" by simp
  also have "\<dots> = x + 2 ^ 32" using False lo by (intro mod_pos_pos_trivial) simp_all
  finally show ?thesis using False lo by (simp add: s32_def)
qed

subsection \<open>Words and natural numbers\<close>

lemma unat_of_nat32: "n < 2 ^ 32 \<Longrightarrow> unat (of_nat n :: 32 word) = n"
  by (simp add: unat_of_nat take_bit_nat_eq_self)

lemma unat32_less: "unat (x :: 32 word) < 2 ^ 32"
  using unsigned_less [of x, where ?'a = nat] by simp

end
