(* ===== verification/Async_Lock.thy ===== *)
theory Async_Lock
  imports Prelude
begin

section \<open>Asynchronous lock\<close>

text \<open>
  Model of \<open>src/utils/utils_async_lock.c\<close>, the read-write lock of a cache whose waiters are told by a
  completion. The spinlock makes every operation atomic; an operation returns the completions it runs, in
  their order, after the new state of the lock: a callback runs after the spinlock was released. A waiter
  is known by a number. The count of readers is an unsigned 32-bit counter.
\<close>

subsection \<open>The lock\<close>

record async_waiter =
  aw_id :: nat
  write_lock :: bool

record ocf_async_lock =
  al_waiters :: "async_waiter list"
  al_rd :: nat
  al_wr :: nat
  waiter_priv_size :: nat

type_synonym completions = "(nat \<times> ocf_error) list"

fun collect_loop :: "async_waiter list \<Rightarrow> nat \<Rightarrow> nat \<Rightarrow> async_waiter list \<times> async_waiter list \<times> nat \<times> nat" where
  "collect_loop [] rd wr = ([], [], rd, wr)"
| "collect_loop (iter # ws) rd wr =
     (if \<not> write_lock iter then
        (let (moved, left, rd, wr) = collect_loop ws (inc32 rd) wr in (iter # moved, left, rd, wr))
      else if rd = 0 then ([iter], ws, rd, 1)
      else ([], iter # ws, rd, wr))"

definition ocf_async_lock_collect_waiters :: "ocf_async_lock \<Rightarrow> async_waiter list \<times> ocf_async_lock" where
  "ocf_async_lock_collect_waiters lock =
     (let (waiters, left, rd, wr) = collect_loop (al_waiters lock) (al_rd lock) (al_wr lock)
      in (waiters, lock\<lparr>al_waiters := left, al_rd := rd, al_wr := wr\<rparr>))"

definition ocf_async_lock_run_waiters :: "async_waiter list \<Rightarrow> ocf_error \<Rightarrow> completions" where
  "ocf_async_lock_run_waiters waiters status = map (\<lambda>iter. (aw_id iter, status)) waiters"

text \<open>\<open>err\<close> is the result of initialising the spinlock.\<close>

definition ocf_async_lock_init :: "ocf_error \<Rightarrow> ocf_async_lock \<Rightarrow> nat \<Rightarrow> ocf_error \<times> ocf_async_lock" where
  "ocf_async_lock_init err lock priv_size =
     (if err \<noteq> OCF_OK then (err, lock)
      else (OCF_OK, lock\<lparr>al_waiters := [], al_rd := 0, al_wr := 0, waiter_priv_size := priv_size\<rparr>))"

definition ocf_async_lock_deinit :: "ocf_async_lock \<Rightarrow> completions \<times> ocf_async_lock" where
  "ocf_async_lock_deinit lock =
     (ocf_async_lock_run_waiters (al_waiters lock) OCF_ERR_NO_LOCK, lock\<lparr>al_waiters := []\<rparr>)"

definition ocf_async_trylock_locked :: "ocf_async_lock \<Rightarrow> ocf_error \<times> ocf_async_lock" where
  "ocf_async_trylock_locked lock =
     (if al_wr lock \<noteq> 0 \<or> al_rd lock \<noteq> 0 then (OCF_ERR_NO_LOCK, lock)
      else (OCF_OK, lock\<lparr>al_wr := 1\<rparr>))"

definition ocf_async_lock_wr :: "async_waiter \<Rightarrow> ocf_async_lock \<Rightarrow> completions \<times> ocf_async_lock" where
  "ocf_async_lock_wr waiter lock =
     (let (result, lock) = ocf_async_trylock_locked lock in
      if result = OCF_OK then ([(aw_id waiter, OCF_OK)], lock)
      else ([], lock\<lparr>al_waiters := al_waiters lock @ [waiter\<lparr>write_lock := True\<rparr>]\<rparr>))"

definition ocf_async_trylock :: "ocf_async_lock \<Rightarrow> ocf_error \<times> ocf_async_lock" where
  "ocf_async_trylock lock = ocf_async_trylock_locked lock"

definition ocf_async_unlock :: "ocf_async_lock \<Rightarrow> (completions \<times> ocf_async_lock) option" where
  "ocf_async_unlock lock = do {
     bug_on (al_rd lock \<noteq> 0);
     bug_on (al_wr lock = 0);
     let lock = lock\<lparr>al_wr := 0\<rparr>;
     let (waiters, lock) = ocf_async_lock_collect_waiters lock;
     Some (ocf_async_lock_run_waiters waiters OCF_OK, lock) }"

definition ocf_async_read_trylock_locked :: "ocf_async_lock \<Rightarrow> ocf_error \<times> ocf_async_lock" where
  "ocf_async_read_trylock_locked lock =
     (if al_wr lock \<noteq> 0 \<or> al_waiters lock \<noteq> [] then (OCF_ERR_NO_LOCK, lock)
      else (OCF_OK, lock\<lparr>al_rd := inc32 (al_rd lock)\<rparr>))"

definition ocf_async_read_lock :: "async_waiter \<Rightarrow> ocf_async_lock \<Rightarrow> completions \<times> ocf_async_lock" where
  "ocf_async_read_lock waiter lock =
     (let (result, lock) = ocf_async_read_trylock_locked lock in
      if result = OCF_OK then ([(aw_id waiter, OCF_OK)], lock)
      else ([], lock\<lparr>al_waiters := al_waiters lock @ [waiter\<lparr>write_lock := False\<rparr>]\<rparr>))"

definition ocf_async_read_trylock :: "ocf_async_lock \<Rightarrow> ocf_error \<times> ocf_async_lock" where
  "ocf_async_read_trylock lock = ocf_async_read_trylock_locked lock"

definition ocf_async_read_unlock :: "ocf_async_lock \<Rightarrow> (completions \<times> ocf_async_lock) option" where
  "ocf_async_read_unlock lock = do {
     bug_on (al_rd lock = 0);
     bug_on (al_wr lock \<noteq> 0);
     let lock = lock\<lparr>al_rd := al_rd lock - 1\<rparr>;
     if al_rd lock \<noteq> 0 then Some ([], lock)
     else do {
       let (waiters, lock) = ocf_async_lock_collect_waiters lock;
       Some (ocf_async_lock_run_waiters waiters OCF_OK, lock) } }"

definition ocf_async_is_locked :: "ocf_async_lock \<Rightarrow> bool" where
  "ocf_async_is_locked lock \<longleftrightarrow> al_rd lock \<noteq> 0 \<or> al_wr lock \<noteq> 0"

subsection \<open>Its users\<close>

text \<open>
  A user owns the lock from its completion (or a successful attempt) until it unlocks. \<open>modes\<close> tells which
  users asked for the write lock; \<open>owners\<close> are the users told so and not yet done.
\<close>

datatype async_event = Lock nat | Read_lock nat | Try_lock nat | Try_read nat | Unlock nat

record async_sys =
  alk :: ocf_async_lock
  rd_owners :: "nat list"
  wr_owners :: "nat list"

definition users :: "async_sys \<Rightarrow> nat" where
  "users s = length (rd_owners s) + length (wr_owners s) + length (al_waiters (alk s))"

text \<open>The waiters of the queue \<open>ws\<close> whose numbers are completed become owners.\<close>

definition told :: "async_waiter list \<Rightarrow> completions \<Rightarrow> ocf_async_lock \<Rightarrow> async_sys \<Rightarrow> async_sys" where
  "told ws cs l s = s\<lparr>alk := l,
     rd_owners := rd_owners s @ [aw_id w. w \<leftarrow> ws, \<not> write_lock w \<and> (aw_id w, OCF_OK) \<in> set cs],
     wr_owners := wr_owners s @ [aw_id w. w \<leftarrow> ws, write_lock w \<and> (aw_id w, OCF_OK) \<in> set cs]\<rparr>"

fun async_do :: "async_event \<Rightarrow> async_sys \<Rightarrow> (completions \<times> async_sys) option" where
  "async_do (Lock i) s =
     (let w = \<lparr>aw_id = i, write_lock = True\<rparr>; (cs, l) = ocf_async_lock_wr w (alk s) in Some (cs, told [w] cs l s))"
| "async_do (Read_lock i) s =
     (let w = \<lparr>aw_id = i, write_lock = False\<rparr>; (cs, l) = ocf_async_read_lock w (alk s) in Some (cs, told [w] cs l s))"
| "async_do (Try_lock i) s =
     (let w = \<lparr>aw_id = i, write_lock = True\<rparr>; (e, l) = ocf_async_trylock (alk s)
      in Some ([], told [w] [(i, e)] l s))"
| "async_do (Try_read i) s =
     (let w = \<lparr>aw_id = i, write_lock = False\<rparr>; (e, l) = ocf_async_read_trylock (alk s)
      in Some ([], told [w] [(i, e)] l s))"
| "async_do (Unlock i) s =
     (if i \<in> set (wr_owners s) then do {
        (cs, l) \<leftarrow> ocf_async_unlock (alk s);
        Some (cs, told (al_waiters (alk s)) cs l (s\<lparr>wr_owners := remove1 i (wr_owners s)\<rparr>)) }
      else if i \<in> set (rd_owners s) then do {
        (cs, l) \<leftarrow> ocf_async_read_unlock (alk s);
        Some (cs, told (al_waiters (alk s)) cs l (s\<lparr>rd_owners := remove1 i (rd_owners s)\<rparr>)) }
      else Some ([], s))"

definition async_start :: async_sys where
  "async_start = \<lparr>alk = \<lparr>al_waiters = [], al_rd = 0, al_wr = 0, waiter_priv_size = 0\<rparr>, rd_owners = [], wr_owners = []\<rparr>"

text \<open>Numbers in use are not used again; there are fewer than \<open>2 ^ 32\<close> users.\<close>

definition in_use :: "async_sys \<Rightarrow> nat set" where
  "in_use s = set (rd_owners s) \<union> set (wr_owners s) \<union> aw_id ` set (al_waiters (alk s))"

fun new_user :: "async_event \<Rightarrow> nat option" where
  "new_user (Unlock i) = None"
| "new_user (Lock i) = Some i"
| "new_user (Read_lock i) = Some i"
| "new_user (Try_lock i) = Some i"
| "new_user (Try_read i) = Some i"

inductive async_reach :: "async_sys \<Rightarrow> bool" where
  start: "async_reach async_start"
| step: "async_reach s \<Longrightarrow> (\<And>i. new_user e = Some i \<Longrightarrow> i \<notin> in_use s \<and> users s < 2 ^ 32 - 1) \<Longrightarrow>
    async_do e s = Some (cs, s') \<Longrightarrow> async_reach s'"

subsection \<open>Collecting waiters\<close>

abbreviation readers :: "async_waiter list \<Rightarrow> async_waiter list" where
  "readers ws \<equiv> takeWhile (\<lambda>w. \<not> write_lock w) ws"

abbreviation past_readers :: "async_waiter list \<Rightarrow> async_waiter list" where
  "past_readers ws \<equiv> dropWhile (\<lambda>w. \<not> write_lock w) ws"

lemma collect_loop_eq:
  "rd + length ws < 2 ^ 32 \<Longrightarrow> collect_loop ws rd wr =
     (if rd = 0 \<and> ws \<noteq> [] \<and> write_lock (hd ws) then ([hd ws], tl ws, 0, 1)
      else (readers ws, past_readers ws, rd + length (readers ws), wr))"
proof (induction ws arbitrary: rd)
  case (Cons w ws)
  show ?case
  proof (cases "write_lock w")
    case False
    have "inc32 rd = rd + 1" using Cons.prems by (simp add: inc32_eq)
    then show ?thesis using False Cons.IH [of "rd + 1"] Cons.prems by simp
  qed simp
qed simp

text \<open>The waiters that get a free lock, and the rest of the queue.\<close>

definition grant :: "async_waiter list \<Rightarrow> async_waiter list" where
  "grant ws = (if ws \<noteq> [] \<and> write_lock (hd ws) then [hd ws] else readers ws)"

definition after_grant :: "async_waiter list \<Rightarrow> async_waiter list" where
  "after_grant ws = (if ws \<noteq> [] \<and> write_lock (hd ws) then tl ws else past_readers ws)"

lemma grant_split: "grant ws @ after_grant ws = ws"
  by (simp add: grant_def after_grant_def)

lemma grant_nonempty: "ws \<noteq> [] \<Longrightarrow> grant ws \<noteq> []"
  by (cases ws) (simp_all add: grant_def)

lemma grant_modes:
  "grant ws = [] \<or> (\<exists>w. grant ws = [w] \<and> write_lock w) \<or> (\<forall>w\<in>set (grant ws). \<not> write_lock w)"
  by (auto simp: grant_def dest: set_takeWhileD)

lemma after_grant_head:
  assumes "\<forall>w\<in>set (grant ws). \<not> write_lock w" "after_grant ws \<noteq> []"
  shows "write_lock (hd (after_grant ws))"
proof (cases "ws \<noteq> [] \<and> write_lock (hd ws)")
  case True
  then have "grant ws = [hd ws]" unfolding grant_def by (simp only: if_True simp_thms)
  then show ?thesis using assms(1) True by simp
next
  case False
  then have "after_grant ws = past_readers ws" by (simp only: after_grant_def if_False)
  then show ?thesis using assms(2) hd_dropWhile [of "\<lambda>w. \<not> write_lock w" ws] by simp
qed

definition writers_of :: "async_waiter list \<Rightarrow> async_waiter list" where
  "writers_of ws = filter write_lock ws"

definition readers_of :: "async_waiter list \<Rightarrow> async_waiter list" where
  "readers_of ws = filter (\<lambda>w. \<not> write_lock w) ws"

lemma grant_counts:
  "\<exists>w. grant ws = [w] \<and> write_lock w \<Longrightarrow> readers_of (grant ws) = [] \<and> length (writers_of (grant ws)) = 1"
  "\<forall>w\<in>set (grant ws). \<not> write_lock w \<Longrightarrow> readers_of (grant ws) = grant ws \<and> writers_of (grant ws) = []"
  by (auto simp: readers_of_def writers_of_def filter_empty_conv)

lemma filter_readers: "filter (\<lambda>w. \<not> write_lock w) (readers ws) = readers ws" "filter write_lock (readers ws) = []"
  by (induction ws) auto

lemma collect_free:
  assumes "al_rd l = 0" "al_wr l = 0" "length (al_waiters l) < 2 ^ 32"
  shows "ocf_async_lock_collect_waiters l = (grant (al_waiters l), l\<lparr>al_waiters := after_grant (al_waiters l),
    al_rd := length (readers_of (grant (al_waiters l))), al_wr := length (writers_of (grant (al_waiters l)))\<rparr>)"
  using assms collect_loop_eq [of 0 "al_waiters l" 0]
  by (simp add: ocf_async_lock_collect_waiters_def grant_def after_grant_def readers_of_def writers_of_def filter_readers)

lemma told_prefix:
  assumes "distinct (map aw_id (g @ r))"
  shows "told (g @ r) (ocf_async_lock_run_waiters g OCF_OK) l s = s\<lparr>alk := l,
    rd_owners := rd_owners s @ map aw_id (readers_of g), wr_owners := wr_owners s @ map aw_id (writers_of g)\<rparr>"
proof -
  have "(aw_id w, OCF_OK) \<in> set (ocf_async_lock_run_waiters g OCF_OK) \<longleftrightarrow> w \<in> set g" if "w \<in> set (g @ r)" for w
    using that assms inj_onD [OF distinct_map [THEN iffD1, OF assms, THEN conjunct2]]
    by (auto simp: ocf_async_lock_run_waiters_def)
  moreover have "w \<notin> set g" if "w \<in> set r" for w using that assms by auto
  ultimately have
    "[aw_id w. w \<leftarrow> g @ r, P w \<and> (aw_id w, OCF_OK) \<in> set (ocf_async_lock_run_waiters g OCF_OK)] = map aw_id (filter P g)" for P
  proof -
    have 1: "[aw_id w. w \<leftarrow> xs, Q w] = map aw_id (filter Q xs)" for xs Q by (induction xs) auto
    have "filter (\<lambda>w. P w \<and> (aw_id w, OCF_OK) \<in> set (ocf_async_lock_run_waiters g OCF_OK)) (g @ r) = filter P g"
      using \<open>\<And>w. w \<in> set (g @ r) \<Longrightarrow> _ w = _ w\<close> \<open>\<And>w. w \<in> set r \<Longrightarrow> _ w\<close> by (auto simp: filter_empty_conv cong: filter_cong)
    then show ?thesis unfolding 1 by simp
  qed
  then show ?thesis by (simp add: told_def readers_of_def writers_of_def)
qed

subsection \<open>The invariant\<close>

definition async_inv :: "async_sys \<Rightarrow> bool" where
  "async_inv s \<longleftrightarrow> al_rd (alk s) = length (rd_owners s) \<and> al_wr (alk s) = length (wr_owners s) \<and>
     length (wr_owners s) \<le> 1 \<and> (wr_owners s \<noteq> [] \<longrightarrow> rd_owners s = []) \<and>
     (al_waiters (alk s) \<noteq> [] \<longrightarrow> wr_owners s \<noteq> [] \<or> rd_owners s \<noteq> [] \<and> write_lock (hd (al_waiters (alk s)))) \<and>
     distinct (rd_owners s @ wr_owners s @ map aw_id (al_waiters (alk s))) \<and> users s < 2 ^ 32"

text \<open>The lock of owners that are all gone is given to waiters.\<close>

definition handed_on :: "async_sys \<Rightarrow> async_sys" where
  "handed_on s = (let ws = al_waiters (alk s); g = grant ws in
     s\<lparr>alk := (alk s)\<lparr>al_waiters := after_grant ws, al_rd := length (readers_of g), al_wr := length (writers_of g)\<rparr>,
       rd_owners := map aw_id (readers_of g), wr_owners := map aw_id (writers_of g)\<rparr>)"

lemma readers_writers_length: "length (readers_of g) + length (writers_of g) = length g"
  unfolding readers_of_def writers_of_def using sum_length_filter_compl [of write_lock g] by simp

lemma readers_writers_set: "set (readers_of g) \<union> set (writers_of g) = set g" "set (readers_of g) \<inter> set (writers_of g) = {}"
  by (auto simp: readers_of_def writers_of_def)

lemma distinct_modes:
  "distinct (map f (g @ r)) \<Longrightarrow> distinct (map f (filter (\<lambda>x. \<not> P x) g) @ map f (filter P g) @ map f r)"
  by (induction g) auto

lemma handed_on_inv:
  assumes d: "distinct (map aw_id (al_waiters (alk s)))" and n: "length (al_waiters (alk s)) < 2 ^ 32"
  shows "async_inv (handed_on s)"
proof -
  let ?ws = "al_waiters (alk s)"
  let ?g = "grant ?ws" and ?r = "after_grant ?ws"
  have ws: "?ws = ?g @ ?r" by (simp add: grant_split)
  have "distinct (map aw_id (?g @ ?r))" using d by (simp add: grant_split)
  then have "distinct (map aw_id (readers_of ?g) @ map aw_id (writers_of ?g) @ map aw_id ?r)"
    unfolding readers_of_def writers_of_def by (rule distinct_modes)
  moreover have "length (readers_of ?g) + length (writers_of ?g) + length ?r < 2 ^ 32"
    using n arg_cong [OF ws, of length] readers_writers_length [of ?g] by simp
  moreover have "length (writers_of ?g) \<le> 1 \<and> (writers_of ?g \<noteq> [] \<longrightarrow> readers_of ?g = [])"
  proof -
    consider (e) "?g = []" | (w) "\<exists>w. ?g = [w] \<and> write_lock w" | (r) "\<forall>w\<in>set ?g. \<not> write_lock w"
      using grant_modes [of ?ws] by blast
    then show ?thesis
    proof cases
      case e
      show ?thesis unfolding e by (simp add: writers_of_def)
    next
      case w
      show ?thesis using grant_counts(1) [OF w] by (metis order_refl)
    next
      case r
      show ?thesis using grant_counts(2) [OF r] by (metis list.size(3) zero_le)
    qed
  qed
  moreover have "writers_of ?g \<noteq> [] \<or> readers_of ?g \<noteq> [] \<and> write_lock (hd ?r)" if "?r \<noteq> []"
  proof -
    have "?ws \<noteq> []" using that ws by auto
    then have "?g \<noteq> []" by (rule grant_nonempty)
    with grant_modes [of ?ws] consider (w) "\<exists>w. ?g = [w] \<and> write_lock w" | (r) "\<forall>w\<in>set ?g. \<not> write_lock w" by blast
    then show ?thesis
    proof cases
      case w
      with grant_counts(1) [OF w] show ?thesis by (metis length_0_conv zero_neq_one)
    next
      case r
      with grant_counts(2) [OF r] after_grant_head [OF r that] \<open>?g \<noteq> []\<close> show ?thesis by metis
    qed
  qed
  ultimately show ?thesis by (auto simp: async_inv_def handed_on_def Let_def users_def)
qed

lemma unlock_eq:
  assumes inv: "async_inv s" and i: "i \<in> set (wr_owners s)"
  shows "async_do (Unlock i) s = Some (ocf_async_lock_run_waiters (grant (al_waiters (alk s))) OCF_OK, handed_on s)"
proof -
  note I = inv [unfolded async_inv_def]
  have o: "wr_owners s = [i]" using I i by (cases "wr_owners s") auto
  have r: "rd_owners s = []" using I i by auto
  let ?ws = "al_waiters (alk s)" and ?l = "(alk s)\<lparr>al_wr := 0\<rparr>"
  have c: "ocf_async_lock_collect_waiters ?l = (grant ?ws, ?l\<lparr>al_waiters := after_grant ?ws,
      al_rd := length (readers_of (grant ?ws)), al_wr := length (writers_of (grant ?ws))\<rparr>)"
    using collect_free [of ?l] I r by (simp add: users_def)
  have d: "distinct (map aw_id (grant ?ws @ after_grant ?ws))" using I by (simp add: grant_split)
  show ?thesis
    using i o r I c told_prefix [OF d] by (simp add: ocf_async_unlock_def handed_on_def Let_def grant_split)
qed

lemma read_unlock_eq:
  assumes inv: "async_inv s" and i: "i \<in> set (rd_owners s)"
  shows "async_do (Unlock i) s = Some (if length (rd_owners s) = 1
    then (ocf_async_lock_run_waiters (grant (al_waiters (alk s))) OCF_OK, handed_on s)
    else ([], s\<lparr>alk := (alk s)\<lparr>al_rd := al_rd (alk s) - 1\<rparr>, rd_owners := remove1 i (rd_owners s)\<rparr>))"
proof -
  note I = inv [unfolded async_inv_def]
  have w: "wr_owners s = []" using I i by auto
  let ?ws = "al_waiters (alk s)" and ?l = "(alk s)\<lparr>al_rd := al_rd (alk s) - 1\<rparr>"
  show ?thesis
  proof (cases "length (rd_owners s) = 1")
    case True
    then have o: "rd_owners s = [i]" using i by (cases "rd_owners s") auto
    have c: "ocf_async_lock_collect_waiters ?l = (grant ?ws, ?l\<lparr>al_waiters := after_grant ?ws,
        al_rd := length (readers_of (grant ?ws)), al_wr := length (writers_of (grant ?ws))\<rparr>)"
      using collect_free [of ?l] I w True by (simp add: users_def)
    have d: "distinct (map aw_id (grant ?ws @ after_grant ?ws))" using I by (simp add: grant_split)
    show ?thesis
      using i o w I c told_prefix [OF d] True by (simp add: ocf_async_read_unlock_def handed_on_def Let_def grant_split)
  next
    case False
    then have "Suc 0 < length (rd_owners s)" using i by (cases "rd_owners s") auto
    then show ?thesis using i w I False
      by (simp add: ocf_async_read_unlock_def told_def Let_def) (auto simp: concat_eq_Nil_conv)
  qed
qed

lemma async_start_inv: "async_inv async_start"
  by (simp add: async_inv_def async_start_def users_def)

lemma new_user_shapes:
  assumes e: "new_user e = Some i" and do: "async_do e s = Some (cs, s')"
  obtains (same) "s' = s"
  | (queue) w where "aw_id w = i" "s' = s\<lparr>alk := (alk s)\<lparr>al_waiters := al_waiters (alk s) @ [w]\<rparr>\<rparr>"
      "al_wr (alk s) \<noteq> 0 \<or> (if write_lock w then al_rd (alk s) \<noteq> 0 else al_waiters (alk s) \<noteq> [])"
  | (wr) "s' = s\<lparr>alk := (alk s)\<lparr>al_wr := 1\<rparr>, wr_owners := wr_owners s @ [i]\<rparr>" "al_wr (alk s) = 0" "al_rd (alk s) = 0"
  | (rd) "s' = s\<lparr>alk := (alk s)\<lparr>al_rd := inc32 (al_rd (alk s))\<rparr>, rd_owners := rd_owners s @ [i]\<rparr>"
      "al_wr (alk s) = 0" "al_waiters (alk s) = []"
proof -
  note D = ocf_async_lock_wr_def ocf_async_read_lock_def ocf_async_trylock_def ocf_async_read_trylock_def
    ocf_async_trylock_locked_def ocf_async_read_trylock_locked_def told_def
  show thesis
  proof (cases e)
    case (Lock j)
    then show thesis using e do wr queue [of "\<lparr>aw_id = i, write_lock = True\<rparr>"] by (simp add: D split: if_splits)
  next
    case (Read_lock j)
    then show thesis using e do rd queue [of "\<lparr>aw_id = i, write_lock = False\<rparr>"] by (simp add: D split: if_splits)
  next
    case (Try_lock j)
    then show thesis using e do wr same by (simp add: D split: if_splits)
  next
    case (Try_read j)
    then show thesis using e do rd same by (simp add: D split: if_splits)
  qed (use e in simp)
qed

lemma new_user_inv:
  assumes inv: "async_inv s" and e: "new_user e = Some i" and fresh: "i \<notin> in_use s" and n: "users s < 2 ^ 32 - 1"
    and do: "async_do e s = Some (cs, s')"
  shows "async_inv s'"
proof -
  note I = inv [unfolded async_inv_def] and F = fresh [unfolded in_use_def]
  from e do show ?thesis
  proof (cases rule: new_user_shapes)
    case same
    then show ?thesis using inv by simp
  next
    case (queue w)
    then show ?thesis using I F n unfolding async_inv_def users_def
      by (cases "al_waiters (alk s)") (simp_all split: if_splits)
  next
    case wr
    then show ?thesis using I F n unfolding async_inv_def users_def by simp
  next
    case rd
    have "inc32 (al_rd (alk s)) = Suc (length (rd_owners s))" using I n by (simp add: inc32_eq users_def)
    then show ?thesis using I F n rd unfolding async_inv_def users_def by simp
  qed
qed

lemma unlock_inv:
  assumes inv: "async_inv s" and do: "async_do (Unlock i) s = Some (cs, s')"
  shows "async_inv s'"
proof -
  note I = inv [unfolded async_inv_def]
  have h: "async_inv (handed_on s)" using I by (intro handed_on_inv) (simp_all add: users_def)
  consider "i \<in> set (wr_owners s)" | "i \<in> set (rd_owners s)" "i \<notin> set (wr_owners s)" "length (rd_owners s) = 1"
    | "i \<in> set (rd_owners s)" "i \<notin> set (wr_owners s)" "length (rd_owners s) \<noteq> 1"
    | "i \<notin> set (rd_owners s)" "i \<notin> set (wr_owners s)" by blast
  then show ?thesis
  proof cases
    case 1
    then show ?thesis using unlock_eq [OF inv 1] do h by simp
  next
    case 2
    then show ?thesis using read_unlock_eq [OF inv 2(1)] do h by simp
  next
    case 3
    then have s': "s' = s\<lparr>alk := (alk s)\<lparr>al_rd := al_rd (alk s) - 1\<rparr>, rd_owners := remove1 i (rd_owners s)\<rparr>"
      using read_unlock_eq [OF inv 3(1)] do by simp
    have "Suc 0 < length (rd_owners s)" using 3 by (cases "rd_owners s") auto
    then have "remove1 i (rd_owners s) \<noteq> []" using 3(1) by (metis length_remove1 list.size(3) less_numeral_extra(3) zero_less_diff One_nat_def)
    then show ?thesis using I 3 unfolding s' async_inv_def by (auto simp: users_def length_remove1 distinct_remove1)
  next
    case 4
    then show ?thesis using do inv by simp
  qed
qed

lemma async_reach_inv: "async_reach s \<Longrightarrow> async_inv s"
proof (induction rule: async_reach.induct)
  case (step s e cs s')
  show ?case
  proof (cases "new_user e")
    case None
    then show ?thesis using step unlock_inv by (cases e) auto
  next
    case (Some i)
    then show ?thesis using step new_user_inv by blast
  qed
qed (rule async_start_inv)

subsection \<open>Exclusion and service\<close>

text \<open>Every owner in turn releases the lock.\<close>

fun drain :: "nat \<Rightarrow> async_sys \<Rightarrow> (completions \<times> async_sys) option" where
  "drain 0 s = Some ([], s)"
| "drain (Suc n) s = (case wr_owners s @ rd_owners s of
     [] \<Rightarrow> Some ([], s)
   | i # _ \<Rightarrow> do {
       (cs, s) \<leftarrow> async_do (Unlock i) s;
       (cs', s) \<leftarrow> drain n s;
       Some (cs @ cs', s) })"

lemma users_handed_on: "users (handed_on s) = length (al_waiters (alk s))"
  using readers_writers_length [of "grant (al_waiters (alk s))"] arg_cong [OF grant_split [of "al_waiters (alk s)"], of length]
  by (simp add: users_def handed_on_def Let_def)

lemma drain_serves:
  "async_inv s \<Longrightarrow> users s = n \<Longrightarrow> \<exists>s'. drain n s = Some (map (\<lambda>w. (aw_id w, OCF_OK)) (al_waiters (alk s)), s') \<and>
     \<not> ocf_async_is_locked (alk s') \<and> al_waiters (alk s') = []"
proof (induction n arbitrary: s)
  case 0
  then show ?case by (auto simp: users_def async_inv_def ocf_async_is_locked_def)
next
  case (Suc n)
  note I = Suc.prems(1) [unfolded async_inv_def]
  have "wr_owners s @ rd_owners s \<noteq> []" using I Suc.prems(2) by (auto simp: users_def)
  then obtain i js where o: "wr_owners s @ rd_owners s = i # js" by (cases "wr_owners s @ rd_owners s") auto
  let ?ws = "al_waiters (alk s)"
  have step: "\<exists>cs s1. async_do (Unlock i) s = Some (cs, s1) \<and> users s1 = n \<and>
      cs @ map (\<lambda>w. (aw_id w, OCF_OK)) (al_waiters (alk s1)) = map (\<lambda>w. (aw_id w, OCF_OK)) ?ws"
  proof (cases "js = []")
    case True
    then have "async_do (Unlock i) s = Some (ocf_async_lock_run_waiters (grant ?ws) OCF_OK, handed_on s)"
    proof (cases "wr_owners s = []")
      case True
      then have "rd_owners s = [i]" using o \<open>js = []\<close> by simp
      then show ?thesis using read_unlock_eq [OF Suc.prems(1), of i] by simp
    next
      case False
      then have "i \<in> set (wr_owners s)" using o by (cases "wr_owners s") auto
      then show ?thesis by (rule unlock_eq [OF Suc.prems(1)])
    qed
    moreover have "users s = Suc (length ?ws)" using arg_cong [OF o, of length] True by (simp add: users_def)
    moreover have "ocf_async_lock_run_waiters (grant ?ws) OCF_OK @ map (\<lambda>w. (aw_id w, OCF_OK)) (after_grant ?ws)
        = map (\<lambda>w. (aw_id w, OCF_OK)) ?ws"
      by (metis grant_split map_append ocf_async_lock_run_waiters_def)
    ultimately show ?thesis using Suc.prems(2) users_handed_on [of s]
      by (intro exI conjI) (assumption, simp, simp add: handed_on_def Let_def)
  next
    case False
    then have w: "wr_owners s = []" using I o by (cases "wr_owners s") auto
    then have r: "rd_owners s = i # js" using o by simp
    then show ?thesis using read_unlock_eq [OF Suc.prems(1), of i] False Suc.prems(2) w by (simp add: users_def)
  qed
  then obtain cs s1 where s1: "async_do (Unlock i) s = Some (cs, s1)" "users s1 = n"
      "cs @ map (\<lambda>w. (aw_id w, OCF_OK)) (al_waiters (alk s1)) = map (\<lambda>w. (aw_id w, OCF_OK)) ?ws" by blast
  from Suc.IH [OF unlock_inv [OF Suc.prems(1) s1(1)] s1(2)] s1(1,3) show ?case unfolding drain.simps o by force
qed

text \<open>
  C31: in every reachable state the counters of the lock count its owners, a writer owns it alone, somebody
  waits only while somebody owns it, and every owner can unlock without failing an assertion.
\<close>

theorem async_lock_safe:
  assumes "async_reach s"
  shows "al_rd (alk s) = length (rd_owners s) \<and> al_wr (alk s) = length (wr_owners s) \<and>
    length (wr_owners s) \<le> 1 \<and> (wr_owners s \<noteq> [] \<longrightarrow> rd_owners s = []) \<and>
    (al_waiters (alk s) \<noteq> [] \<longrightarrow> ocf_async_is_locked (alk s)) \<and>
    (\<forall>i \<in> set (rd_owners s) \<union> set (wr_owners s). async_do (Unlock i) s \<noteq> None)"
proof -
  have inv: "async_inv s" using assms by (rule async_reach_inv)
  have "async_do (Unlock i) s \<noteq> None" if "i \<in> set (rd_owners s) \<union> set (wr_owners s)" for i
    using that unlock_eq [OF inv, of i] read_unlock_eq [OF inv, of i] by (metis Un_iff option.distinct(1))
  then show ?thesis using inv unfolding async_inv_def ocf_async_is_locked_def by auto
qed

text \<open>
  C32: when the owners of the lock release it one after the other, everybody who waits is served, in the
  order of arrival, after as many releases as there are owners and waiters, and the lock is free then.
\<close>

theorem async_lock_serves_all:
  assumes "async_reach s"
  shows "\<exists>s'. drain (users s) s = Some (map (\<lambda>w. (aw_id w, OCF_OK)) (al_waiters (alk s)), s') \<and>
     \<not> ocf_async_is_locked (alk s') \<and> al_waiters (alk s') = []"
  using drain_serves [OF async_reach_inv [OF assms] refl] .

text \<open>
  An attempt to take the lock fails with \<open>OCF_ERR_NO_LOCK\<close> and changes nothing exactly when somebody
  owns it, an attempt to read exactly when a writer owns it or somebody waits; and the end of the lock
  tells each of those who wait, in their order, that they do not get it.
\<close>

theorem async_lock_errors:
  assumes "async_reach s"
  shows "(if rd_owners s = [] \<and> wr_owners s = [] then fst (ocf_async_trylock (alk s)) = OCF_OK
      else ocf_async_trylock (alk s) = (OCF_ERR_NO_LOCK, alk s)) \<and>
    (if wr_owners s = [] \<and> al_waiters (alk s) = [] then fst (ocf_async_read_trylock (alk s)) = OCF_OK
      else ocf_async_read_trylock (alk s) = (OCF_ERR_NO_LOCK, alk s)) \<and>
    map fst (fst (ocf_async_lock_deinit (alk s))) = map aw_id (al_waiters (alk s)) \<and>
    distinct (map fst (fst (ocf_async_lock_deinit (alk s)))) \<and>
    snd ` set (fst (ocf_async_lock_deinit (alk s))) \<subseteq> {OCF_ERR_NO_LOCK}"
proof (intro conjI)
  have c: "al_rd (alk s) = length (rd_owners s)" "al_wr (alk s) = length (wr_owners s)" "distinct (map aw_id (al_waiters (alk s)))"
    using async_reach_inv [OF assms] unfolding async_inv_def by simp_all
  show "if rd_owners s = [] \<and> wr_owners s = [] then fst (ocf_async_trylock (alk s)) = OCF_OK
      else ocf_async_trylock (alk s) = (OCF_ERR_NO_LOCK, alk s)"
    using c(1,2) by (simp add: ocf_async_trylock_def ocf_async_trylock_locked_def)
  show "if wr_owners s = [] \<and> al_waiters (alk s) = [] then fst (ocf_async_read_trylock (alk s)) = OCF_OK
      else ocf_async_read_trylock (alk s) = (OCF_ERR_NO_LOCK, alk s)"
    using c(1,2) by (simp add: ocf_async_read_trylock_def ocf_async_read_trylock_locked_def)
  show m: "map fst (fst (ocf_async_lock_deinit (alk s))) = map aw_id (al_waiters (alk s))"
    by (simp add: ocf_async_lock_deinit_def ocf_async_lock_run_waiters_def comp_def)
  show "distinct (map fst (fst (ocf_async_lock_deinit (alk s))))" unfolding m by (rule c(3))
  show "snd ` set (fst (ocf_async_lock_deinit (alk s))) \<subseteq> {OCF_ERR_NO_LOCK}"
    by (auto simp: ocf_async_lock_deinit_def ocf_async_lock_run_waiters_def)
qed

subsection \<open>A run\<close>

text \<open>User 0 writes; 1 and 2 want to read, 3 to write.\<close>

definition async_demo :: async_sys where
  "async_demo = \<lparr>alk = \<lparr>al_waiters = [\<lparr>aw_id = 1, write_lock = False\<rparr>, \<lparr>aw_id = 2, write_lock = False\<rparr>, \<lparr>aw_id = 3, write_lock = True\<rparr>],
     al_rd = 0, al_wr = 1, waiter_priv_size = 0\<rparr>, rd_owners = [], wr_owners = [0]\<rparr>"

lemma async_demo_reach: "async_reach async_demo"
proof -
  have r: "async_reach s \<Longrightarrow> async_do e s = Some (cs, s') \<Longrightarrow> new_user e = Some i \<Longrightarrow> i \<notin> in_use s \<Longrightarrow> users s < 100 \<Longrightarrow> async_reach s'"
    for i s e cs s' by (rule async_reach.step [of s e cs s']) auto
  note E = async_start_def ocf_async_lock_wr_def ocf_async_read_lock_def ocf_async_trylock_locked_def
    ocf_async_read_trylock_locked_def told_def users_def in_use_def
  let ?s = "\<lambda>ws. \<lparr>alk = \<lparr>al_waiters = ws, al_rd = 0, al_wr = 1, waiter_priv_size = 0\<rparr>, rd_owners = [], wr_owners = [0]\<rparr>"
  have "async_reach (?s [])" by (rule r [OF async_reach.start, where e = "Lock 0" and i = 0 and cs = "[(0, OCF_OK)]"]) (simp_all add: E)
  then have "async_reach (?s [\<lparr>aw_id = 1, write_lock = False\<rparr>])" by (rule r [where e = "Read_lock 1" and i = 1 and cs = "[]"]) (simp_all add: E)
  then have "async_reach (?s [\<lparr>aw_id = 1, write_lock = False\<rparr>, \<lparr>aw_id = 2, write_lock = False\<rparr>])"
    by (rule r [where e = "Read_lock 2" and i = 2 and cs = "[]"]) (simp_all add: E)
  then show ?thesis unfolding async_demo_def by (rule r [where e = "Lock 3" and i = 3 and cs = "[]"]) (simp_all add: E)
qed

theorem async_lock_safe_witness:
  "al_wr (alk async_demo) = length (wr_owners async_demo) \<and> async_do (Unlock 0) async_demo \<noteq> None"
proof -
  have "0 \<in> set (wr_owners async_demo)" by (simp add: async_demo_def)
  with async_lock_safe [OF async_demo_reach] show ?thesis by blast
qed

theorem async_lock_serves_all_witness:
  "\<exists>s'. drain 4 async_demo = Some ([(1, OCF_OK), (2, OCF_OK), (3, OCF_OK)], s') \<and> \<not> ocf_async_is_locked (alk s')"
proof -
  have "users async_demo = 4" "al_waiters (alk async_demo) = [\<lparr>aw_id = 1, write_lock = False\<rparr>,
      \<lparr>aw_id = 2, write_lock = False\<rparr>, \<lparr>aw_id = 3, write_lock = True\<rparr>]"
    by (simp_all add: async_demo_def users_def)
  with async_lock_serves_all [OF async_demo_reach] show ?thesis by force
qed

theorem async_lock_errors_witness:
  "ocf_async_trylock (alk async_demo) = (OCF_ERR_NO_LOCK, alk async_demo) \<and>
   map fst (fst (ocf_async_lock_deinit (alk async_demo))) = [1, 2, 3]"
  using async_lock_errors [OF async_demo_reach] by (simp add: async_demo_def)

end
