(* ===== verification/Refcnt.thy ===== *)
theory Refcnt
  imports Prelude
begin

section \<open>Reference counters\<close>

text \<open>
  Model of \<open>env/posix/ocf_env_refcnt.c\<close>: a counter of references that can be frozen, so that no new
  reference is given, and that calls back once all references are gone. The operations are built from
  accesses to shared words and threads interleave between them: one rule of the step relation is one
  access of one thread, whose place in its operation is its program counter. The exchange of \<open>callback\<close>
  and the call that follows it, which reads \<open>cb\<close> and \<open>priv\<close>, are one rule: the header forbids a registration before
  the call was made. A failed assertion stops the process: there is no step.
  Functions and their arguments are numbered.
\<close>

record env_refcnt =
  rc_counter :: int
  rc_freeze :: int
  rc_callback :: bool
  rc_cb :: "nat option"
  rc_priv :: nat

definition env_refcnt_init :: "env_refcnt \<Rightarrow> ocf_error \<times> env_refcnt" where
  "env_refcnt_init rc = (OCF_OK, rc\<lparr>rc_counter := 0, rc_freeze := 0, rc_callback := False, rc_cb := None\<rparr>)"

definition env_refcnt_freeze :: "env_refcnt \<Rightarrow> env_refcnt" where
  "env_refcnt_freeze rc = rc\<lparr>rc_freeze := rc_freeze rc + 1\<rparr>"

definition env_refcnt_unfreeze :: "env_refcnt \<Rightarrow> env_refcnt option" where
  "env_refcnt_unfreeze rc = do {
     let val = rc_freeze rc - 1;
     bug_on (val < 0);
     Some (rc\<lparr>rc_freeze := val\<rparr>) }"

definition env_refcnt_frozen :: "env_refcnt \<Rightarrow> bool" where
  "env_refcnt_frozen rc \<longleftrightarrow> rc_freeze rc \<noteq> 0"

definition env_refcnt_zeroed :: "env_refcnt \<Rightarrow> bool" where
  "env_refcnt_zeroed rc \<longleftrightarrow> rc_counter rc = 0"

subsection \<open>Threads\<close>

text \<open>
  \<^item> \<open>Inc_add\<close>, \<open>Inc_check\<close>: in \<open>env_refcnt_inc\<close>, before the increment and before the second look at \<open>freeze\<close>
  \<^item> \<open>Held\<close>: \<open>env_refcnt_inc\<close> returned true, the thread has a reference
  \<^item> \<open>Dec_sub\<close>, \<open>Dec_cas\<close>: in \<open>env_refcnt_dec\<close>, before the decrement and, when that gave 0, before the exchange
  \<^item> \<open>Reg_frozen\<close>, \<open>Reg_check\<close>, \<open>Reg_add\<close>, \<open>Reg_cb\<close>, \<open>Reg_priv\<close>, \<open>Reg_set\<close>: in \<open>env_refcnt_register_zero_cb\<close>, before the
    two assertions, the increment and the three stores; the thread knows the function and its argument
\<close>

datatype rc_pc = Outside | Inc_add | Inc_check | Held | Dec_sub | Dec_cas
  | Reg_frozen nat nat | Reg_check nat nat | Reg_add nat nat | Reg_cb nat nat | Reg_priv nat nat | Reg_set nat nat

text \<open>\<open>calls\<close> are the calls that were made, \<open>registered\<close> the registrations that have set \<open>callback\<close>, both in their order.\<close>

record rc_sys =
  rc :: env_refcnt
  pcs :: "nat \<Rightarrow> rc_pc"
  calls :: "(nat option \<times> nat) list"
  registered :: "(nat option \<times> nat) list"

definition rc_put :: "env_refcnt \<Rightarrow> nat \<Rightarrow> rc_pc \<Rightarrow> rc_sys \<Rightarrow> rc_sys" where
  "rc_put r t p s = s\<lparr>rc := r, pcs := (pcs s)(t := p)\<rparr>"

definition rc_add :: "int \<Rightarrow> env_refcnt \<Rightarrow> env_refcnt" where
  "rc_add n r = r\<lparr>rc_counter := rc_counter r + n\<rparr>"

fun registers :: "rc_pc \<Rightarrow> bool" where
  "registers (Reg_frozen c p) = True"
| "registers (Reg_check c p) = True"
| "registers (Reg_add c p) = True"
| "registers (Reg_cb c p) = True"
| "registers (Reg_priv c p) = True"
| "registers (Reg_set c p) = True"
| "registers _ = False"

text \<open>
  With \<open>quiet\<close> the counter is frozen only while no thread is between a decrement to 0 and its exchange. With \<open>single\<close>
  a callback is registered as \<open>ocf_env_refcnt.h\<close> asks for: not before the previously registered one was called.
\<close>

inductive rc_step :: "bool \<Rightarrow> bool \<Rightarrow> rc_sys \<Rightarrow> rc_sys \<Rightarrow> bool" for quiet single where
  inc_read: "pcs s t = Outside \<Longrightarrow> \<not> env_refcnt_frozen (rc s) \<Longrightarrow> rc_step quiet single s (rc_put (rc s) t Inc_add s)"
| inc_add: "pcs s t = Inc_add \<Longrightarrow> rc_step quiet single s (rc_put (rc_add 1 (rc s)) t Inc_check s)"
| inc_ok: "pcs s t = Inc_check \<Longrightarrow> \<not> env_refcnt_frozen (rc s) \<Longrightarrow> rc_step quiet single s (rc_put (rc s) t Held s)"
| inc_undo: "pcs s t = Inc_check \<Longrightarrow> env_refcnt_frozen (rc s) \<Longrightarrow> rc_step quiet single s (rc_put (rc s) t Dec_sub s)"
| release: "pcs s t = Held \<Longrightarrow> rc_step quiet single s (rc_put (rc s) t Dec_sub s)"
| dec_sub: "pcs s t = Dec_sub \<Longrightarrow> rc_counter (rc s) - 1 \<ge> 0 \<Longrightarrow>
    rc_step quiet single s (rc_put (rc_add (- 1) (rc s)) t (if rc_counter (rc s) - 1 = 0 then Dec_cas else Outside) s)"
| dec_cas: "pcs s t = Dec_cas \<Longrightarrow> rc_step quiet single s
    ((rc_put ((rc s)\<lparr>rc_callback := False\<rparr>) t Outside s)
      \<lparr>calls := calls s @ (if rc_callback (rc s) then [(rc_cb (rc s), rc_priv (rc s))] else [])\<rparr>)"
| freeze: "pcs s t = Outside \<Longrightarrow> (quiet \<Longrightarrow> \<forall>u. pcs s u \<noteq> Dec_cas) \<Longrightarrow>
    rc_step quiet single s (rc_put (env_refcnt_freeze (rc s)) t Outside s)"
| unfreeze: "pcs s t = Outside \<Longrightarrow> env_refcnt_unfreeze (rc s) = Some r \<Longrightarrow> rc_step quiet single s (rc_put r t Outside s)"
| register: "pcs s t = Outside \<Longrightarrow> (single \<Longrightarrow> \<not> rc_callback (rc s) \<and> (\<forall>u. \<not> registers (pcs s u))) \<Longrightarrow>
    rc_step quiet single s (rc_put (rc s) t (Reg_frozen c p) s)"
| reg_frozen: "pcs s t = Reg_frozen c p \<Longrightarrow> env_refcnt_frozen (rc s) \<Longrightarrow> rc_step quiet single s (rc_put (rc s) t (Reg_check c p) s)"
| reg_check: "pcs s t = Reg_check c p \<Longrightarrow> \<not> rc_callback (rc s) \<Longrightarrow> rc_step quiet single s (rc_put (rc s) t (Reg_add c p) s)"
| reg_add: "pcs s t = Reg_add c p \<Longrightarrow> rc_step quiet single s (rc_put (rc_add 1 (rc s)) t (Reg_cb c p) s)"
| reg_cb: "pcs s t = Reg_cb c p \<Longrightarrow> rc_step quiet single s (rc_put ((rc s)\<lparr>rc_cb := Some c\<rparr>) t (Reg_priv c p) s)"
| reg_priv: "pcs s t = Reg_priv c p \<Longrightarrow> rc_step quiet single s (rc_put ((rc s)\<lparr>rc_priv := p\<rparr>) t (Reg_set c p) s)"
| reg_set: "pcs s t = Reg_set c p \<Longrightarrow> rc_step quiet single s
    ((rc_put ((rc s)\<lparr>rc_callback := True\<rparr>) t Dec_sub s)\<lparr>registered := registered s @ [(Some c, p)]\<rparr>)"

definition rc_start :: rc_sys where
  "rc_start = \<lparr>rc = \<lparr>rc_counter = 0, rc_freeze = 0, rc_callback = False, rc_cb = None, rc_priv = 0\<rparr>,
     pcs = \<lambda>_. Outside, calls = [], registered = []\<rparr>"

inductive rc_reach :: "bool \<Rightarrow> bool \<Rightarrow> rc_sys \<Rightarrow> bool" for quiet single where
  start: "rc_reach quiet single rc_start"
| step: "rc_reach quiet single s \<Longrightarrow> rc_step quiet single s s' \<Longrightarrow> rc_reach quiet single s'"

subsection \<open>What the counter counts\<close>

fun counted :: "rc_pc \<Rightarrow> bool" where
  "counted Inc_check = True"
| "counted Held = True"
| "counted Dec_sub = True"
| "counted (Reg_cb c p) = True"
| "counted (Reg_priv c p) = True"
| "counted (Reg_set c p) = True"
| "counted _ = False"

definition refs :: "rc_sys \<Rightarrow> nat set" where
  "refs s = {t. counted (pcs s t)}"

definition someone :: "rc_pc \<Rightarrow> rc_sys \<Rightarrow> bool" where
  "someone q s \<longleftrightarrow> (\<exists>t. pcs s t = q)"

definition rc_inv :: "bool \<Rightarrow> rc_sys \<Rightarrow> bool" where
  "rc_inv quiet s \<longleftrightarrow> finite (refs s) \<and> rc_counter (rc s) = int (card (refs s)) \<and> 0 \<le> rc_freeze (rc s) \<and>
     (rc_callback (rc s) \<longrightarrow> refs s \<noteq> {} \<or> someone Dec_cas s) \<and>
     (quiet \<longrightarrow> env_refcnt_frozen (rc s) \<longrightarrow> someone Dec_cas s \<longrightarrow> \<not> someone Held s)"

lemma refs_put: "refs (rc_put r t p s) = (if counted p then insert t (refs s) else refs s - {t})"
  by (auto simp: refs_def rc_put_def)

lemma refs_ghost [simp]:
  "refs (s\<lparr>calls := n\<rparr>) = refs s" "someone q (s\<lparr>calls := n\<rparr>) = someone q s"
  "refs (s\<lparr>registered := g\<rparr>) = refs s" "someone q (s\<lparr>registered := g\<rparr>) = someone q s"
  by (simp_all add: refs_def someone_def)

lemma someone_put:
  "pcs s t \<noteq> q \<Longrightarrow> someone q (rc_put r t p s) \<longleftrightarrow> p = q \<or> someone q s"
  "p \<noteq> q \<Longrightarrow> someone q (rc_put r t p s) \<Longrightarrow> someone q s"
  unfolding someone_def rc_put_def by (simp_all split: if_splits, metis+)

lemma rc_put_fields [simp]:
  "rc (rc_put r t p s) = r" "pcs (rc_put r t p s) = (pcs s)(t := p)" "calls (rc_put r t p s) = calls s"
  "registered (rc_put r t p s) = registered s"
  by (simp_all add: rc_put_def)

lemma rc_add_fields [simp]:
  "rc_counter (rc_add n r) = rc_counter r + n" "rc_freeze (rc_add n r) = rc_freeze r" "rc_callback (rc_add n r) = rc_callback r"
  "rc_cb (rc_add n r) = rc_cb r" "rc_priv (rc_add n r) = rc_priv r" "env_refcnt_frozen (rc_add n r) = env_refcnt_frozen r"
  by (simp_all add: rc_add_def env_refcnt_frozen_def)

lemma mem_refs: "t \<in> refs s \<longleftrightarrow> counted (pcs s t)"
  by (simp add: refs_def)

text \<open>A step of a thread that keeps being counted, or keeps not being counted, and leaves the words alone that matter.\<close>

lemma rc_inv_same:
  assumes "rc_inv quiet s" "counted p = counted (pcs s t)" "pcs s t \<noteq> Dec_cas" "p \<noteq> Dec_cas"
    "p = Held \<Longrightarrow> \<not> env_refcnt_frozen r" "rc_counter r = rc_counter (rc s)" "rc_freeze r = rc_freeze (rc s)"
    "rc_callback r \<Longrightarrow> rc_callback (rc s) \<or> counted p"
  shows "rc_inv quiet (rc_put r t p s)"
proof -
  have r: "refs (rc_put r t p s) = refs s" using assms(2) by (auto simp: refs_put mem_refs [symmetric])
  have d: "someone Dec_cas (rc_put r t p s) = someone Dec_cas s" using someone_put(1) [OF assms(3)] assms(4) by simp
  have h: "someone Held (rc_put r t p s) \<Longrightarrow> someone Held s \<or> p = Held" using someone_put(2) by blast
  have f: "env_refcnt_frozen r = env_refcnt_frozen (rc s)" using assms(7) by (simp add: env_refcnt_frozen_def)
  have m: "counted p \<Longrightarrow> refs s \<noteq> {}" using assms(2) mem_refs by blast
  show ?thesis
    unfolding rc_inv_def r d rc_put_fields assms(6,7) f
    using assms(1,5,8) h f m unfolding rc_inv_def by blast
qed

lemma rc_inv_more [simp]: "rc_inv quiet (s\<lparr>calls := n\<rparr>) = rc_inv quiet s" "rc_inv quiet (s\<lparr>registered := g\<rparr>) = rc_inv quiet s"
  by (simp_all add: rc_inv_def)

text \<open>A step that takes a reference.\<close>

lemma rc_inv_take:
  assumes "rc_inv quiet s" "\<not> counted (pcs s t)" "counted p" "pcs s t \<noteq> Dec_cas" "p \<noteq> Held"
  shows "rc_inv quiet (rc_put (rc_add 1 (rc s)) t p s)"
proof -
  have r: "refs (rc_put (rc_add 1 (rc s)) t p s) = insert t (refs s)" "t \<notin> refs s" using assms by (simp_all add: refs_put mem_refs)
  have "p \<noteq> Dec_cas" using assms(3) by auto
  then have d: "someone Dec_cas (rc_put (rc_add 1 (rc s)) t p s) = someone Dec_cas s" using someone_put(1) [OF assms(4)] by simp
  have h: "someone Held (rc_put (rc_add 1 (rc s)) t p s) \<Longrightarrow> someone Held s" using someone_put(2) [OF assms(5)] by blast
  show ?thesis using assms(1) h unfolding rc_inv_def r(1) d by (auto simp: r(2))
qed

lemma rc_step_inv:
  assumes "rc_step quiet single s s'" "rc_inv quiet s"
  shows "rc_inv quiet s'"
  using assms(1)
proof (cases rule: rc_step.cases)
  case (dec_sub t)
  then have t: "t \<in> refs s" by (simp add: mem_refs )
  have I: "finite (refs s)" "rc_counter (rc s) = int (card (refs s))" using assms(2) by (simp_all add: rc_inv_def)
  have c: "rc_counter (rc s) - 1 = int (card (refs s - {t}))" using I t card_Suc_Diff1 [OF I(1) t] by linarith
  let ?p = "if rc_counter (rc s) - 1 = 0 then Dec_cas else Outside"
  have s': "s' = rc_put (rc_add (- 1) (rc s)) t ?p s" "refs s' = refs s - {t}"
    using dec_sub by (auto simp: refs_put )
  have cnt: "finite (refs s')" "rc_counter (rc s') = int (card (refs s'))" "0 \<le> rc_freeze (rc s')"
    using I(1) c assms(2) unfolding s'(2) by (simp_all add: s'(1) rc_inv_def)
  show ?thesis
  proof (cases "rc_counter (rc s) - 1 = 0")
    case True
    then have e: "refs s' = {}" using c I(1) s'(2) by simp
    then have "\<not> someone Held s'" unfolding someone_def refs_def by (metis (mono_tags) counted.simps(2) empty_iff mem_Collect_eq)
    moreover have "someone Dec_cas s'" using True by (auto simp: someone_def s'(1))
    ultimately show ?thesis using cnt by (simp add: rc_inv_def)
  next
    case False
    then have "int (card (refs s')) \<noteq> 0" unfolding s'(2) c .
    then have e: "refs s' \<noteq> {}" by auto
    have "someone Dec_cas s" if "someone Dec_cas s'" using that False someone_put(2) [of Outside Dec_cas] by (simp add: s'(1))
    moreover have "someone Held s" if "someone Held s'" using that False someone_put(2) [of Outside Held] by (simp add: s'(1))
    moreover have "env_refcnt_frozen (rc s') = env_refcnt_frozen (rc s)" by (simp add: s'(1))
    ultimately show ?thesis using cnt e assms(2) by (auto simp: rc_inv_def)
  qed
next
  case (dec_cas t)
  then have "t \<notin> refs s" "someone Dec_cas s" by (auto simp: mem_refs someone_def)
  then show ?thesis using dec_cas assms(2) by (auto simp: rc_inv_def refs_put someone_put env_refcnt_frozen_def)
next
  case (freeze t)
  then have "t \<notin> refs s" "quiet \<longrightarrow> \<not> someone Dec_cas s" by (auto simp: mem_refs someone_def)
  then show ?thesis using freeze assms(2) by (auto simp: rc_inv_def refs_put someone_put env_refcnt_freeze_def)
next
  case (unfreeze t r)
  then have "r = (rc s)\<lparr>rc_freeze := rc_freeze (rc s) - 1\<rparr>" "rc_freeze (rc s) - 1 \<ge> 0"
    by (auto simp: env_refcnt_unfreeze_def Let_def split: if_splits)
  then show ?thesis using unfreeze assms(2) by (auto simp: rc_inv_def refs_put someone_put mem_refs env_refcnt_frozen_def fun_upd_idem)
qed (use assms(2) in \<open>auto intro!: rc_inv_same rc_inv_take\<close>)

lemma rc_reach_inv: "rc_reach quiet single s \<Longrightarrow> rc_inv quiet s"
proof (induction rule: rc_reach.induct)
  case start
  then show ?case by (simp add: rc_inv_def rc_start_def refs_def env_refcnt_frozen_def)
qed (rule rc_step_inv)

subsection \<open>What is called\<close>

text \<open>
  One registration at a time: while a thread registers there is no other one and no registered callback; the stores of
  the thread are what the fields hold.
\<close>

fun stored :: "env_refcnt \<Rightarrow> rc_pc \<Rightarrow> bool" where
  "stored r (Reg_priv c p) = (rc_cb r = Some c)"
| "stored r (Reg_set c p) = (rc_cb r = Some c \<and> rc_priv r = p)"
| "stored r _ = True"

definition single_inv :: "rc_sys \<Rightarrow> bool" where
  "single_inv s \<longleftrightarrow> (\<forall>t u. registers (pcs s t) \<longrightarrow> registers (pcs s u) \<longrightarrow> t = u) \<and>
     (rc_callback (rc s) \<longrightarrow> (\<forall>t. \<not> registers (pcs s t))) \<and> (\<forall>t. stored (rc s) (pcs s t)) \<and>
     registered s = calls s @ (if rc_callback (rc s) then [(rc_cb (rc s), rc_priv (rc s))] else [])"

lemma stored_other: "\<not> registers p \<Longrightarrow> stored r p"
  by (cases p) simp_all

lemma single_inv_other:
  assumes "single_inv s" "\<not> registers p" "rc_callback r = rc_callback (rc s)" "rc_cb r = rc_cb (rc s)" "rc_priv r = rc_priv (rc s)"
  shows "single_inv (rc_put r t p s)"
proof -
  have "stored r q = stored (rc s) q" for q using assms(4,5) by (cases q) simp_all
  then show ?thesis using assms stored_other by (auto simp: single_inv_def)
qed

lemma single_inv_reg:
  assumes "single_inv s" "registers (pcs s t)" "registers p" "stored r p" "rc_callback r = rc_callback (rc s)"
  shows "single_inv (rc_put r t p s)"
proof -
  have n: "\<not> rc_callback (rc s)" using assms(1,2) by (auto simp: single_inv_def)
  have "\<not> registers (pcs s u)" if "u \<noteq> t" for u using assms(1,2) that unfolding single_inv_def by blast
  then show ?thesis using assms n stored_other by (auto simp: single_inv_def)
qed

lemma single_step_inv:
  assumes "rc_step quiet True s s'" "single_inv s"
  shows "single_inv s'"
  using assms(1)
proof (cases rule: rc_step.cases)
  case (dec_cas t)
  have "stored ((rc s)\<lparr>rc_callback := False\<rparr>) q = stored (rc s) q" for q by (cases q) simp_all
  then show ?thesis using dec_cas assms(2) by (auto simp: single_inv_def)
next
  case (register t c p)
  then show ?thesis using assms(2) by (auto simp: single_inv_def)
next
  case (reg_set t c p)
  have "stored ((rc s)\<lparr>rc_callback := True\<rparr>) q = stored (rc s) q" for q by (cases q) simp_all
  moreover have "\<not> registers (pcs s u)" if "u \<noteq> t" for u
    using assms(2) that reg_set(2) unfolding single_inv_def by (metis registers.simps(6))
  moreover have "rc_cb (rc s) = Some c \<and> rc_priv (rc s) = p" "\<not> rc_callback (rc s)"
    using assms(2) reg_set(2) unfolding single_inv_def by (metis stored.simps(2), metis registers.simps(6))
  ultimately show ?thesis using reg_set assms(2) by (auto simp: single_inv_def)
next
  case (reg_priv t c p)
  have "stored (rc s) (pcs s t)" using assms(2) by (simp add: single_inv_def)
  then show ?thesis using reg_priv assms(2) by (auto intro!: single_inv_reg)
next
  case (unfreeze t r)
  then show ?thesis using assms(2) by (auto simp: env_refcnt_unfreeze_def Let_def intro!: single_inv_other split: if_splits)
qed (use assms(2) in \<open>auto simp: env_refcnt_freeze_def intro: single_inv_other single_inv_reg\<close>)

lemma rc_reach_single: "rc_reach quiet True s \<Longrightarrow> single_inv s"
proof (induction rule: rc_reach.induct)
  case start
  then show ?case by (simp add: single_inv_def rc_start_def)
qed (rule single_step_inv)

subsection \<open>Theorems\<close>

text \<open>
  C37: in every reachable state of the threads the counter is the number of threads that hold, take, drop or
  register a reference, so that no decrement takes it below 0; and while a callback is registered and no such
  thread is left, some thread is about to make the call. When callbacks are registered one after the other, as
  the header asks for, the calls that were made are the registered ones in their order, each once and with its own
  function and argument, but for the last one while it is pending.
\<close>

theorem refcnt_exact:
  assumes "rc_reach quiet single s"
  shows "rc_counter (rc s) = int (card {t. counted (pcs s t)}) \<and>
    (pcs s t = Dec_sub \<longrightarrow> rc_counter (rc s) - 1 \<ge> 0) \<and>
    (rc_callback (rc s) \<and> env_refcnt_zeroed (rc s) \<longrightarrow> (\<exists>t. pcs s t = Dec_cas)) \<and>
    (single \<longrightarrow> registered s = calls s @ (if rc_callback (rc s) then [(rc_cb (rc s), rc_priv (rc s))] else []))"
proof -
  have I: "finite (refs s)" "rc_counter (rc s) = int (card (refs s))" "rc_callback (rc s) \<longrightarrow> refs s \<noteq> {} \<or> someone Dec_cas s"
    using rc_reach_inv [OF assms] by (simp_all add: rc_inv_def)
  have "1 \<le> card (refs s)" if "pcs s t = Dec_sub"
  proof -
    have "t \<in> refs s" using that by (simp add: refs_def)
    then show ?thesis using I(1) by (metis Suc_leI card_gt_0_iff empty_iff One_nat_def)
  qed
  moreover have "\<exists>t. pcs s t = Dec_cas" if "rc_callback (rc s)" "env_refcnt_zeroed (rc s)"
    using that I by (auto simp: env_refcnt_zeroed_def someone_def)
  moreover have "registered s = calls s @ (if rc_callback (rc s) then [(rc_cb (rc s), rc_priv (rc s))] else [])" if single
    using rc_reach_single [of quiet s] assms that by (simp add: single_inv_def)
  ultimately show ?thesis using I(2) by (auto simp: refs_def)
qed

text \<open>
  C36: when the counter is frozen only while no thread is between a decrement to 0 and its exchange, the
  callback is made only when no thread holds a reference.
\<close>

theorem zero_callback_safe:
  assumes "rc_reach True single s" "pcs s t = Dec_cas" "env_refcnt_frozen (rc s)"
  shows "\<forall>u. pcs s u \<noteq> Held"
  using rc_reach_inv [OF assms(1)] assms(2,3) by (auto simp: rc_inv_def someone_def)

text \<open>
  Without that condition the callback can come too early: thread 0 drops the last reference, thread 1 takes
  one before the counter is frozen, thread 2 freezes the counter and registers the callback, and thread 0
  goes on with its exchange.
\<close>

abbreviation (input) rc_state :: "int \<Rightarrow> int \<Rightarrow> bool \<Rightarrow> nat option \<Rightarrow> nat \<Rightarrow> (nat \<Rightarrow> rc_pc) \<Rightarrow> (nat option \<times> nat) list \<Rightarrow>
  (nat option \<times> nat) list \<Rightarrow> rc_sys" where
  "rc_state n f b c p P cs rs \<equiv> \<lparr>rc = \<lparr>rc_counter = n, rc_freeze = f, rc_callback = b, rc_cb = c, rc_priv = p\<rparr>, pcs = P,
     calls = cs, registered = rs\<rparr>"

definition rc_race :: rc_sys where
  "rc_race = rc_state 1 1 True (Some 7) 9 ((\<lambda>_. Outside)(0 := Dec_cas, 1 := Held)) [] [(Some 7, 9)]"

lemma rc_reach_step:
  "rc_reach q m s \<Longrightarrow> rc_step q m s s' \<Longrightarrow> s' = s'' \<Longrightarrow> rc_reach q m s''"
  using rc_reach.step by blast

lemmas rc_eval = rc_put_def rc_add_def env_refcnt_freeze_def env_refcnt_frozen_def

lemma early_callback: "rc_reach False True rc_race \<and> pcs rc_race 0 = Dec_cas \<and> rc_callback (rc rc_race) \<and> pcs rc_race 1 = Held"
proof -
  let ?s = "\<lambda>n f P. rc_state n f False None 0 P [] []" and ?O = "\<lambda>_::nat. Outside"
  have "rc_reach False True (?s 0 0 (?O(0 := Inc_add)))"
    by (rule rc_reach_step [OF rc_reach.start rc_step.inc_read [of _ 0]]) (simp_all add: rc_start_def rc_eval)
  then have "rc_reach False True (?s 1 0 (?O(0 := Inc_check)))"
    by (rule rc_reach_step [OF _ rc_step.inc_add [of _ 0]]) (simp_all add: rc_eval)
  then have "rc_reach False True (?s 1 0 (?O(0 := Held)))"
    by (rule rc_reach_step [OF _ rc_step.inc_ok [of _ 0]]) (simp_all add: rc_eval)
  then have "rc_reach False True (?s 1 0 (?O(0 := Dec_sub)))"
    by (rule rc_reach_step [OF _ rc_step.release [of _ 0]]) (simp_all add: rc_eval)
  then have "rc_reach False True (?s 0 0 (?O(0 := Dec_cas)))"
    by (rule rc_reach_step [OF _ rc_step.dec_sub [of _ 0]]) (simp_all add: rc_eval)
  then have "rc_reach False True (?s 0 0 (?O(0 := Dec_cas, 1 := Inc_add)))"
    by (rule rc_reach_step [OF _ rc_step.inc_read [of _ 1]]) (simp_all add: rc_eval)
  then have "rc_reach False True (?s 1 0 (?O(0 := Dec_cas, 1 := Inc_check)))"
    by (rule rc_reach_step [OF _ rc_step.inc_add [of _ 1]]) (simp_all add: rc_eval)
  then have "rc_reach False True (?s 1 0 (?O(0 := Dec_cas, 1 := Held)))"
    by (rule rc_reach_step [OF _ rc_step.inc_ok [of _ 1]]) (simp_all add: rc_eval)
  then have "rc_reach False True (?s 1 1 (?O(0 := Dec_cas, 1 := Held)))"
    by (rule rc_reach_step [OF _ rc_step.freeze [of _ 2]]) (simp_all add: rc_eval fun_eq_iff)
  then have "rc_reach False True (?s 1 1 (?O(0 := Dec_cas, 1 := Held, 2 := Reg_frozen 7 9)))"
    by (rule rc_reach_step [OF _ rc_step.register [where t = 2 and c = 7 and p = 9]]) (simp_all add: rc_eval)
  then have "rc_reach False True (?s 1 1 (?O(0 := Dec_cas, 1 := Held, 2 := Reg_check 7 9)))"
    by (rule rc_reach_step [OF _ rc_step.reg_frozen [of _ 2]]) (simp_all add: rc_eval)
  then have "rc_reach False True (?s 1 1 (?O(0 := Dec_cas, 1 := Held, 2 := Reg_add 7 9)))"
    by (rule rc_reach_step [OF _ rc_step.reg_check [of _ 2]]) (simp_all add: rc_eval)
  then have "rc_reach False True (?s 2 1 (?O(0 := Dec_cas, 1 := Held, 2 := Reg_cb 7 9)))"
    by (rule rc_reach_step [OF _ rc_step.reg_add [of _ 2]]) (simp_all add: rc_eval)
  then have "rc_reach False True (rc_state 2 1 False (Some 7) 0 (?O(0 := Dec_cas, 1 := Held, 2 := Reg_priv 7 9)) [] [])"
    by (rule rc_reach_step [OF _ rc_step.reg_cb [of _ 2]]) (simp_all add: rc_eval)
  then have "rc_reach False True (rc_state 2 1 False (Some 7) 9 (?O(0 := Dec_cas, 1 := Held, 2 := Reg_set 7 9)) [] [])"
    by (rule rc_reach_step [OF _ rc_step.reg_priv [of _ 2]]) (simp_all add: rc_eval)
  then have "rc_reach False True (rc_state 2 1 True (Some 7) 9 (?O(0 := Dec_cas, 1 := Held, 2 := Dec_sub)) [] [(Some 7, 9)])"
    by (rule rc_reach_step [OF _ rc_step.reg_set [of _ 2]]) (simp_all add: rc_eval)
  then have "rc_reach False True (rc_state 1 1 True (Some 7) 9 (?O(0 := Dec_cas, 1 := Held)) [] [(Some 7, 9)])"
    by (rule rc_reach_step [OF _ rc_step.dec_sub [of _ 2]]) (simp_all add: rc_eval fun_eq_iff)
  then show ?thesis by (simp add: rc_race_def)
qed

theorem refcnt_exact_witness:
  "rc_counter (rc rc_race) = 1 \<and> card {t. counted (pcs rc_race t)} = 1 \<and> registered rc_race = calls rc_race @ [(Some 7, 9)]"
  using refcnt_exact [of False True rc_race] early_callback by (simp add: rc_race_def)

text \<open>One thread holds a reference; and a frozen counter whose only reference was just dropped.\<close>

lemma held_reach: "rc_reach q m (rc_state 1 0 False None 0 ((\<lambda>_. Outside)(0 := Dec_sub)) [] [])"
proof -
  let ?s = "\<lambda>n f P. rc_state n f False None 0 P [] []" and ?O = "\<lambda>_::nat. Outside"
  have "rc_reach q m (?s 0 0 (?O(0 := Inc_add)))"
    by (rule rc_reach_step [OF rc_reach.start rc_step.inc_read [of _ 0]]) (simp_all add: rc_start_def rc_eval)
  then have "rc_reach q m (?s 1 0 (?O(0 := Inc_check)))"
    by (rule rc_reach_step [OF _ rc_step.inc_add [of _ 0]]) (simp_all add: rc_eval)
  then have "rc_reach q m (?s 1 0 (?O(0 := Held)))"
    by (rule rc_reach_step [OF _ rc_step.inc_ok [of _ 0]]) (simp_all add: rc_eval)
  then show ?thesis by (rule rc_reach_step [OF _ rc_step.release [of _ 0]]) (simp_all add: rc_eval)
qed

theorem zero_callback_safe_witness:
  "\<exists>s. rc_reach True True s \<and> pcs s 0 = Dec_cas \<and> env_refcnt_frozen (rc s) \<and> (\<forall>u. pcs s u \<noteq> Held)"
proof -
  let ?s = "\<lambda>n. rc_state n 1 False None 0 ((\<lambda>_. Outside)(0 := if n = 1 then Dec_sub else Dec_cas)) [] []"
  have "rc_reach True True (?s 1)"
    by (rule rc_reach_step [OF held_reach rc_step.freeze [of _ 1]]) (auto simp: rc_eval fun_eq_iff)
  then have r: "rc_reach True True (?s 0)"
    by (rule rc_reach_step [OF _ rc_step.dec_sub [of _ 0]]) (simp_all add: rc_eval)
  have "pcs (?s 0) 0 = Dec_cas" "env_refcnt_frozen (rc (?s 0))" by (simp_all add: env_refcnt_frozen_def)
  with zero_callback_safe [OF r this] r show ?thesis by blast
qed

end
