(* ===== verification/Volume.thy ===== *)
theory Volume
  imports Refcnt
begin

section \<open>Volumes\<close>

text \<open>
  Model of the life of a volume in \<open>src/ocf_volume.c\<close>: initialisation, the copy of its UUID, opening,
  closing, moving and the dispatch of forwarded requests. Memory is the set of blocks that are allocated:
  an allocation fails or gives a new block, as the environment decides, and freeing a block that is not
  allocated is undefined behaviour, which stops the run like a failed assertion. The operations of a
  volume's type come from the adapter and are parameters: the results of \<open>on_init\<close> and \<open>open\<close>, the length
  and the largest request of the device that the UUID names, and which forward operations exist. The callback
  \<open>on_deinit\<close> returns nothing and changes only the private data of the type, which the state here does not contain
  (those of a composite volume are in theory Composite). The bytes
  of a UUID are its \<open>u_dev\<close>; copying the same number of bytes does not fail. Closing waits until all
  references are dropped and is modelled from that moment.
\<close>

subsection \<open>Memory\<close>

record ocf_mem =
  live :: "nat set"
  brk :: nat
  oom :: "bool list"

definition env_alloc :: "ocf_mem \<Rightarrow> nat option \<times> ocf_mem" where
  "env_alloc m = (if oom m \<noteq> [] \<and> hd (oom m) then (None, m\<lparr>oom := tl (oom m)\<rparr>)
     else (Some (brk m), m\<lparr>live := insert (brk m) (live m), brk := brk m + 1, oom := tl (oom m)\<rparr>))"

definition env_free :: "nat option \<Rightarrow> ocf_mem \<Rightarrow> ocf_mem option" where
  "env_free p m = (case p of None \<Rightarrow> Some m
     | Some a \<Rightarrow> do { bug_on (a \<notin> live m); Some (m\<lparr>live := live m - {a}\<rparr>) })"

definition mem_ok :: "ocf_mem \<Rightarrow> bool" where
  "mem_ok m \<longleftrightarrow> (\<forall>a\<in>live m. a < brk m)"

subsection \<open>Volumes and their types\<close>

datatype fwd_op = F_io | F_flush | F_discard | F_write_zeros | F_metadata | F_io_simple

record volume_type =
  volume_priv_size :: nat
  composite_caps :: bool
  forward_ops :: "fwd_op \<Rightarrow> bool"
  ops_on_init :: ocf_error
  ops_open :: "nat \<Rightarrow> nat \<Rightarrow> ocf_error"
  ops_length :: "nat \<Rightarrow> nat"
  ops_max_io_size :: "nat \<Rightarrow> nat"

record ocf_volume_uuid =
  u_size :: nat
  u_data :: "nat option"
  u_dev :: nat

record ocf_volume =
  v_type :: "volume_type option"
  v_uuid :: ocf_volume_uuid
  v_opened :: bool
  uuid_copy :: bool
  v_priv :: "nat option"
  v_refcnt :: env_refcnt

definition OCF_VOLUME_UUID_MAX_SIZE :: nat where
  "OCF_VOLUME_UUID_MAX_SIZE = 4096 - 4"

definition no_uuid :: "ocf_volume_uuid" where
  "no_uuid = \<lparr>u_size = 0, u_data = None, u_dev = 0\<rparr>"

definition free_uuid :: "ocf_volume \<Rightarrow> ocf_mem \<Rightarrow> ocf_mem option" where
  "free_uuid v m = (if uuid_copy v then env_free (u_data (v_uuid v)) m else Some m)"

text \<open>The error paths of initialisation: \<open>err3\<close>, \<open>err2\<close> and \<open>err1\<close>.\<close>

definition init_err1 :: "ocf_error \<Rightarrow> ocf_volume \<Rightarrow> ocf_mem \<Rightarrow> (ocf_error \<times> ocf_volume \<times> ocf_mem) option" where
  "init_err1 ret v m = do {
     m \<leftarrow> env_free (v_priv v) m;
     Some (ret, v\<lparr>v_priv := None\<rparr>, m) }"

definition init_err2 :: "ocf_error \<Rightarrow> ocf_volume \<Rightarrow> ocf_mem \<Rightarrow> (ocf_error \<times> ocf_volume \<times> ocf_mem) option" where
  "init_err2 ret v m = do {
     r \<leftarrow> env_refcnt_unfreeze (v_refcnt v);
     init_err1 ret (v\<lparr>v_refcnt := r\<rparr>) m }"

definition init_err3 :: "ocf_error \<Rightarrow> ocf_volume \<Rightarrow> ocf_mem \<Rightarrow> (ocf_error \<times> ocf_volume \<times> ocf_mem) option" where
  "init_err3 ret v m = do {
     m \<leftarrow> free_uuid v m;
     init_err2 ret (v\<lparr>v_uuid := (v_uuid v)\<lparr>u_data := None, u_size := 0\<rparr>\<rparr>) m }"

definition init_on_init :: "volume_type \<Rightarrow> ocf_volume \<Rightarrow> ocf_mem \<Rightarrow> (ocf_error \<times> ocf_volume \<times> ocf_mem) option" where
  "init_on_init t v m = (if ops_on_init t \<noteq> OCF_OK then init_err3 (ops_on_init t) v m else Some (OCF_OK, v, m))"

definition ocf_volume_init :: "ocf_volume \<Rightarrow> volume_type option \<Rightarrow> ocf_volume_uuid option \<Rightarrow> bool \<Rightarrow> ocf_mem \<Rightarrow>
    (ocf_error \<times> ocf_volume \<times> ocf_mem) option" where
  "ocf_volume_init v ty uuid copy m = (case ty of None \<Rightarrow> Some (OCF_ERR_INVAL, v, m) | Some t \<Rightarrow>
     if (case uuid of None \<Rightarrow> False | Some u \<Rightarrow> u_size u > OCF_VOLUME_UUID_MAX_SIZE) then Some (OCF_ERR_INVAL, v, m)
     else let (p, m) = env_alloc m; v = v\<lparr>v_priv := p\<rparr> in
       if p = None then Some (OCF_ERR_NO_MEM, v, m)
       else let
         v = v\<lparr>v_opened := False, v_type := Some t, v_uuid := no_uuid, uuid_copy := False\<rparr>;
         (ret, r) = env_refcnt_init (v_refcnt v);
         v = v\<lparr>v_refcnt := r\<rparr>
       in if ret \<noteq> OCF_OK then init_err1 ret v m
       else let v = v\<lparr>v_refcnt := env_refcnt_freeze (v_refcnt v)\<rparr> in
       (case uuid of None \<Rightarrow> init_on_init t v m
        | Some u \<Rightarrow>
          let v = v\<lparr>uuid_copy := copy\<rparr> in
          if copy then
            let (data, m) = env_alloc m in
            if data = None then init_err2 OCF_ERR_NO_MEM v m
            else init_on_init t (v\<lparr>v_uuid := \<lparr>u_size = u_size u, u_data = data, u_dev = u_dev u\<rparr>\<rparr>) m
          else init_on_init t (v\<lparr>v_uuid := u\<rparr>) m))"

definition ocf_volume_deinit :: "ocf_volume \<Rightarrow> ocf_mem \<Rightarrow> (ocf_volume \<times> ocf_mem) option" where
  "ocf_volume_deinit v m = do {
     m \<leftarrow> env_free (v_priv v) m;
     let v = v\<lparr>v_priv := None, v_type := None\<rparr>;
     if uuid_copy v \<and> u_data (v_uuid v) \<noteq> None then do {
       m \<leftarrow> env_free (u_data (v_uuid v)) m;
       Some (v\<lparr>v_uuid := (v_uuid v)\<lparr>u_data := None, u_size := 0\<rparr>\<rparr>, m) }
     else Some (v, m) }"

definition ocf_volume_move :: "ocf_volume \<Rightarrow> ocf_volume \<Rightarrow> ocf_mem \<Rightarrow> (ocf_volume \<times> ocf_volume \<times> ocf_mem) option" where
  "ocf_volume_move v from m = do {
     bug_on (\<not> env_refcnt_zeroed (v_refcnt v));
     bug_on (\<not> env_refcnt_zeroed (v_refcnt from));
     m \<leftarrow> env_free (v_priv v) m;
     m \<leftarrow> free_uuid v m;
     Some (from\<lparr>v_refcnt := v_refcnt v\<rparr>,
       from\<lparr>v_opened := False, v_priv := None, v_uuid := (v_uuid from)\<lparr>u_data := None\<rparr>, v_type := None\<rparr>, m) }"

definition ocf_volume_set_uuid :: "ocf_volume \<Rightarrow> ocf_volume_uuid \<Rightarrow> bool \<Rightarrow> ocf_mem \<Rightarrow>
    (ocf_error \<times> ocf_volume \<times> ocf_mem) option" where
  "ocf_volume_set_uuid v u copy m = do {
     m \<leftarrow> free_uuid v m;
     let v = v\<lparr>uuid_copy := copy\<rparr>;
     if copy then
       (let (data, m) = env_alloc m in
        if data = None then Some (OCF_ERR_NO_MEM, v, m)
        else Some (OCF_OK, v\<lparr>v_uuid := \<lparr>u_size = u_size u, u_data = data, u_dev = u_dev u\<rparr>\<rparr>, m))
     else Some (OCF_OK, v\<lparr>v_uuid := u\<rparr>, m) }"

definition ocf_volume_open :: "ocf_volume \<Rightarrow> nat \<Rightarrow> (ocf_error \<times> ocf_volume) option" where
  "ocf_volume_open v params =
     (if v_opened v then Some (OCF_ERR_NOT_OPEN_EXC, v)
      else do {
        t \<leftarrow> v_type v;
        let ret = ops_open t (u_dev (v_uuid v)) params;
        if ret \<noteq> OCF_OK then Some (ret, v)
        else do {
          r \<leftarrow> env_refcnt_unfreeze (v_refcnt v);
          Some (OCF_OK, v\<lparr>v_refcnt := r, v_opened := True\<rparr>) } })"

definition ocf_volume_close :: "ocf_volume \<Rightarrow> ocf_volume option" where
  "ocf_volume_close v = do {
     t \<leftarrow> v_type v;
     if \<not> v_opened v then Some v
     else Some (v\<lparr>v_refcnt := env_refcnt_freeze (v_refcnt v), v_opened := False\<rparr>) }"

definition ocf_volume_get_max_io_size :: "ocf_volume \<Rightarrow> nat option" where
  "ocf_volume_get_max_io_size v = do {
     t \<leftarrow> v_type v;
     if \<not> v_opened v then Some 0 else Some (ops_max_io_size t (u_dev (v_uuid v))) }"

definition ocf_volume_get_length :: "ocf_volume \<Rightarrow> nat option" where
  "ocf_volume_get_length v = do {
     t \<leftarrow> v_type v;
     if \<not> v_opened v then Some 0 else Some (ops_length t (u_dev (v_uuid v))) }"

text \<open>
  Forwarding a request to a volume: the call of the operation of its type, or the error with which the
  token is ended when the volume is not open.
\<close>

definition ocf_volume_forward :: "fwd_op \<Rightarrow> ocf_volume \<Rightarrow> ocf_error option" where
  "ocf_volume_forward f v = do {
     t \<leftarrow> v_type v;
     bug_on (\<not> forward_ops t f);
     if \<not> v_opened v then Some OCF_ERR_IO else Some OCF_OK }"

definition ocf_volume_forward_io_simple :: "ocf_volume \<Rightarrow> ocf_error option" where
  "ocf_volume_forward_io_simple v = do {
     t \<leftarrow> v_type v;
     if \<not> forward_ops t F_io_simple then ocf_volume_forward F_io v
     else if \<not> v_opened v then Some OCF_ERR_IO else Some OCF_OK }"

subsection \<open>Blocks that a volume owns\<close>

definition uuid_block :: "ocf_volume \<Rightarrow> nat option" where
  "uuid_block v = (if uuid_copy v then u_data (v_uuid v) else None)"

definition owned :: "ocf_volume \<Rightarrow> nat set" where
  "owned v = set_option (v_priv v) \<union> set_option (uuid_block v)"

definition vol_ok :: "ocf_volume \<Rightarrow> ocf_mem \<Rightarrow> bool" where
  "vol_ok v m \<longleftrightarrow> mem_ok m \<and> owned v \<subseteq> live m \<and> set_option (v_priv v) \<inter> set_option (uuid_block v) = {}"

lemma env_alloc_cases:
  assumes "mem_ok m"
  obtains (none) m' where "env_alloc m = (None, m')" "live m' = live m" "mem_ok m'"
  | (some) a m' where "env_alloc m = (Some a, m')" "live m' = insert a (live m)" "a \<notin> live m" "mem_ok m'"
proof (cases "oom m \<noteq> [] \<and> hd (oom m)")
  case True
  then show thesis using assms none by (simp add: env_alloc_def mem_ok_def)
next
  case False
  have "brk m \<notin> live m" using assms by (auto simp: mem_ok_def)
  then show thesis using False assms some by (auto simp: env_alloc_def mem_ok_def less_Suc_eq)
qed

lemma env_free_live:
  assumes "mem_ok m" "set_option p \<subseteq> live m"
  shows "\<exists>m'. env_free p m = Some m' \<and> live m' = live m - set_option p \<and> mem_ok m'"
  using assms by (cases p) (auto simp: env_free_def mem_ok_def)

lemma free_uuid_live:
  assumes "mem_ok m" "set_option (uuid_block v) \<subseteq> live m"
  shows "\<exists>m'. free_uuid v m = Some m' \<and> live m' = live m - set_option (uuid_block v) \<and> mem_ok m'"
  using env_free_live [of m "u_data (v_uuid v)"] assms by (auto simp: free_uuid_def uuid_block_def)

lemma deinit_frees:
  assumes "vol_ok v m"
  shows "\<exists>v' m'. ocf_volume_deinit v m = Some (v', m') \<and> live m' = live m - owned v \<and> owned v' = {} \<and> mem_ok m'"
proof -
  have p: "mem_ok m" "set_option (v_priv v) \<subseteq> live m" "set_option (uuid_block v) \<subseteq> live m"
    "set_option (v_priv v) \<inter> set_option (uuid_block v) = {}"
    using assms by (auto simp: vol_ok_def owned_def)
  obtain m1 where m1: "env_free (v_priv v) m = Some m1" "live m1 = live m - set_option (v_priv v)" "mem_ok m1"
    using env_free_live [OF p(1,2)] by blast
  show ?thesis
  proof (cases "uuid_copy v \<and> u_data (v_uuid v) \<noteq> None")
    case True
    then obtain a where a: "u_data (v_uuid v) = Some a" "uuid_block v = Some a" by (auto simp: uuid_block_def)
    obtain m2 where m2: "env_free (Some a) m1 = Some m2" "live m2 = live m1 - {a}" "mem_ok m2"
      using env_free_live [of m1 "Some a"] m1 p a by auto
    then show ?thesis using True m1 a by (auto simp: ocf_volume_deinit_def owned_def uuid_block_def)
  next
    case False
    then have u: "uuid_block v = None" by (auto simp: uuid_block_def)
    then have "owned (v\<lparr>v_priv := None, v_type := None\<rparr>) = {}" by (simp add: owned_def uuid_block_def split: if_splits)
    moreover have "ocf_volume_deinit v m = Some (v\<lparr>v_priv := None, v_type := None\<rparr>, m1)"
      using False m1(1) by (auto simp: ocf_volume_deinit_def Let_def)
    ultimately show ?thesis using u m1 by (auto simp: owned_def)
  qed
qed

text \<open>A volume whose initialisation got all its blocks.\<close>

definition init_done :: "ocf_mem \<Rightarrow> ocf_error \<times> ocf_volume \<times> ocf_mem \<Rightarrow> bool" where
  "init_done m = (\<lambda>(e, v', m'). mem_ok m' \<and>
     (if e = OCF_OK then vol_ok v' m' \<and> owned v' \<inter> live m = {} \<and> live m' = live m \<union> owned v' else live m' = live m))"

lemma init_err2_frees:
  assumes "e \<noteq> OCF_OK" "v_priv v = Some a" "live m' = insert a (live m)" "a \<notin> live m" "mem_ok m'" "rc_freeze (v_refcnt v) = 1"
  shows "\<exists>r. init_err2 e v m' = Some r \<and> init_done m r"
  using assms env_free_live [of m' "Some a"] by (auto simp: init_err2_def init_err1_def env_refcnt_unfreeze_def init_done_def)

lemma init_on_init_done:
  assumes ok: "mem_ok m'" "v_priv v = Some a" "a \<notin> live m" "rc_freeze (v_refcnt v) = 1"
    and b: "set_option (uuid_block v) \<inter> insert a (live m) = {}" "live m' = insert a (live m) \<union> set_option (uuid_block v)"
  shows "\<exists>r. init_on_init t v m' = Some r \<and> init_done m r"
proof (cases "ops_on_init t = OCF_OK")
  case True
  then show ?thesis using ok b by (auto simp: init_on_init_def init_done_def vol_ok_def owned_def)
next
  case False
  obtain m1 where m1: "free_uuid v m' = Some m1" "live m1 = live m' - set_option (uuid_block v)" "mem_ok m1"
    using free_uuid_live [OF ok(1), of v] b(2) by auto
  have l: "live m1 = insert a (live m)" using m1(2) b by auto
  let ?v = "v\<lparr>v_uuid := (v_uuid v)\<lparr>u_data := None, u_size := 0\<rparr>\<rparr>"
  have "\<exists>r. init_err2 (ops_on_init t) ?v m1 = Some r \<and> init_done m r"
    by (rule init_err2_frees) (use ok l m1(3) False in auto)
  then show ?thesis using False m1(1) by (simp add: init_on_init_def init_err3_def)
qed

lemma init_spec:
  assumes ok: "mem_ok m"
  shows "\<exists>r. ocf_volume_init v ty uuid copy m = Some r \<and> init_done m r"
proof (cases "ty = None \<or> (\<exists>u. uuid = Some u \<and> u_size u > OCF_VOLUME_UUID_MAX_SIZE)")
  case True
  then show ?thesis using ok by (cases ty; cases uuid) (auto simp: ocf_volume_init_def init_done_def)
next
  case False
  then obtain t where t: "ty = Some t" by auto
  have nu: "\<not> (case uuid of None \<Rightarrow> False | Some u \<Rightarrow> u_size u > OCF_VOLUME_UUID_MAX_SIZE)" using False by (cases uuid) auto
  note D = ocf_volume_init_def Let_def env_refcnt_init_def env_refcnt_freeze_def
  show ?thesis using ok
  proof (cases rule: env_alloc_cases)
    case (none m1)
    then show ?thesis using t nu by (simp add: D init_done_def)
  next
    case (some a m1)
    let ?v = "v\<lparr>v_priv := Some a, v_opened := False, v_type := Some t, v_uuid := no_uuid, uuid_copy := False,
       v_refcnt := (v_refcnt v)\<lparr>rc_counter := 0, rc_freeze := 1, rc_callback := False, rc_cb := None\<rparr>\<rparr>"
    have e: "ocf_volume_init v ty uuid copy m = (case uuid of None \<Rightarrow> init_on_init t ?v m1
        | Some u \<Rightarrow> if copy then (let (data, m) = env_alloc m1 in
              if data = None then init_err2 OCF_ERR_NO_MEM (?v\<lparr>uuid_copy := True\<rparr>) m
              else init_on_init t (?v\<lparr>uuid_copy := True, v_uuid := \<lparr>u_size = u_size u, u_data = data, u_dev = u_dev u\<rparr>\<rparr>) m)
          else init_on_init t (?v\<lparr>v_uuid := u\<rparr>) m1)"
      using t nu some(1) by (cases v; cases "v_refcnt v"; cases copy; cases "env_alloc m1"; cases uuid) (simp_all add: D)
    show ?thesis
    proof (cases "uuid = None \<or> \<not> copy")
      case True
      have "\<exists>r. init_on_init t (?v\<lparr>v_uuid := u\<rparr>) m1 = Some r \<and> init_done m r" for u
        by (rule init_on_init_done [where a = a]) (use some in \<open>simp_all add: uuid_block_def\<close>)
      moreover have "\<exists>r. init_on_init t ?v m1 = Some r \<and> init_done m r"
        by (rule init_on_init_done [where a = a]) (use some in \<open>simp_all add: uuid_block_def\<close>)
      ultimately show ?thesis using True unfolding e by (cases uuid; cases copy) simp_all
    next
      case False
      then obtain u where u: "uuid = Some u" "copy" by auto
      show ?thesis using some(4)
      proof (cases rule: env_alloc_cases)
        case (none m2)
        have "\<exists>r. init_err2 OCF_ERR_NO_MEM (?v\<lparr>uuid_copy := True\<rparr>) m2 = Some r \<and> init_done m r"
          by (rule init_err2_frees) (use none some in auto)
        then show ?thesis unfolding e using u none(1) by simp
      next
        case inner: (some b m2)
        have "\<exists>r. init_on_init t (?v\<lparr>uuid_copy := True, v_uuid := \<lparr>u_size = u_size u, u_data = Some b, u_dev = u_dev u\<rparr>\<rparr>) m2 = Some r \<and>
            init_done m r"
          by (rule init_on_init_done) (use inner some in \<open>auto simp: uuid_block_def\<close>)
        then show ?thesis unfolding e using u inner(1) by simp
      qed
    qed
  qed
qed


subsection \<open>Theorems\<close>

text \<open>
  C35: initialisation of a volume does not run into undefined behaviour, whichever allocations fail; when it
  fails, it leaves no block allocated, and after it succeeded, the end of the volume frees exactly the
  blocks that it allocated.
\<close>

theorem volume_init_deinit:
  assumes "mem_ok m"
  shows "\<exists>e v' m'. ocf_volume_init v ty uuid copy m = Some (e, v', m') \<and>
    (if e = OCF_OK then vol_ok v' m' \<and> (\<exists>v'' m''. ocf_volume_deinit v' m' = Some (v'', m'') \<and> live m'' = live m)
     else live m' = live m)"
proof -
  obtain e v' m' where i: "ocf_volume_init v ty uuid copy m = Some (e, v', m')" "init_done m (e, v', m')"
    using init_spec [OF assms] by (metis prod_cases3)
  show ?thesis
  proof (cases "e = OCF_OK")
    case True
    then have o: "vol_ok v' m'" "owned v' \<inter> live m = {}" "live m' = live m \<union> owned v'" using i(2) by (auto simp: init_done_def)
    obtain v'' m'' where "ocf_volume_deinit v' m' = Some (v'', m'')" "live m'' = live m' - owned v'" using deinit_frees [OF o(1)] by blast
    moreover have "live m' - owned v' = live m" using o by auto
    ultimately show ?thesis using i(1) True o(1) by auto
  next
    case False
    then show ?thesis using i by (auto simp: init_done_def)
  qed
qed

text \<open>
  Moving a volume frees the blocks of the old one and hands over those of the new one, so that the end
  of the emptied volume frees nothing.
\<close>

lemma volume_move_memory:
  assumes "vol_ok v m" "vol_ok from m" "owned v \<inter> owned from = {}"
    "env_refcnt_zeroed (v_refcnt v)" "env_refcnt_zeroed (v_refcnt from)"
  shows "\<exists>v' from' m'. ocf_volume_move v from m = Some (v', from', m') \<and> vol_ok v' m' \<and> owned v' = owned from \<and>
    v_type v' = v_type from \<and> v_opened v' = v_opened from \<and> live m' = live m - owned v \<and>
    (\<exists>w. ocf_volume_deinit from' m' = Some (w, m'))"
proof -
  have p: "mem_ok m" "set_option (v_priv v) \<subseteq> live m" "set_option (uuid_block v) \<subseteq> live m"
    "set_option (v_priv v) \<inter> set_option (uuid_block v) = {}"
    using assms(1) by (auto simp: vol_ok_def owned_def)
  obtain m1 where m1: "env_free (v_priv v) m = Some m1" "live m1 = live m - set_option (v_priv v)" "mem_ok m1"
    using env_free_live [OF p(1,2)] by blast
  obtain m2 where m2: "free_uuid v m1 = Some m2" "live m2 = live m1 - set_option (uuid_block v)" "mem_ok m2"
    using free_uuid_live [OF m1(3), of v] p(3,4) unfolding m1(2) by blast
  have l: "live m2 = live m - owned v" using m1(2) m2(2) by (auto simp: owned_def)
  let ?v = "from\<lparr>v_refcnt := v_refcnt v\<rparr>"
  let ?f = "from\<lparr>v_opened := False, v_priv := None, v_uuid := (v_uuid from)\<lparr>u_data := None\<rparr>, v_type := None\<rparr>"
  have op: "ocf_volume_move v from m = Some (?v, ?f, m2)" using assms(4,5) m1(1) m2(1) by (simp add: ocf_volume_move_def)
  have o: "owned ?v = owned from" by (simp add: owned_def uuid_block_def)
  have "uuid_block ?v = uuid_block from" by (simp add: uuid_block_def)
  then have "vol_ok ?v m2" using assms(2,3) m2(3) l o by (auto simp: vol_ok_def)
  moreover have "\<exists>w. ocf_volume_deinit ?f m2 = Some (w, m2)" by (simp add: ocf_volume_deinit_def env_free_def)
  ultimately show ?thesis using op o l by auto
qed

text \<open>
  When the allocation for a new UUID fails, the volume keeps the pointer to the freed old one, and the end
  of the volume frees it again.
\<close>

lemma set_uuid_dangling:
  assumes "vol_ok v m" "uuid_block v = Some a" "oom m = True # os"
  shows "\<exists>v' m'. ocf_volume_set_uuid v u True m = Some (OCF_ERR_NO_MEM, v', m') \<and> ocf_volume_deinit v' m' = None"
proof -
  have v: "uuid_copy v" "u_data (v_uuid v) = Some a" using assms(2) by (auto simp: uuid_block_def split: if_splits)
  have a: "a \<in> live m" "set_option (v_priv v) \<subseteq> live m" "a \<notin> set_option (v_priv v)"
    using assms(1,2) by (auto simp: vol_ok_def owned_def)
  let ?m = "m\<lparr>live := live m - {a}, oom := os\<rparr>"
  have "ocf_volume_set_uuid v u True m = Some (OCF_ERR_NO_MEM, v\<lparr>uuid_copy := True\<rparr>, ?m)"
    using v a assms(3) by (simp add: ocf_volume_set_uuid_def free_uuid_def env_free_def env_alloc_def)
  moreover have "ocf_volume_deinit (v\<lparr>uuid_copy := True\<rparr>) ?m = None"
    using v a by (cases "v_priv v") (auto simp: ocf_volume_deinit_def env_free_def)
  ultimately show ?thesis by blast
qed

lemma set_uuid_ok:
  assumes "vol_ok v m" "ocf_volume_set_uuid v u copy m = Some (OCF_OK, v', m')"
  shows "vol_ok v' m'" "v_uuid v' = (if copy then u\<lparr>u_data := u_data (v_uuid v')\<rparr> else u)"
proof -
  have p: "mem_ok m" "set_option (uuid_block v) \<subseteq> live m" "set_option (v_priv v) \<subseteq> live m"
    "set_option (v_priv v) \<inter> set_option (uuid_block v) = {}"
    using assms(1) by (auto simp: vol_ok_def owned_def)
  obtain m1 where m1: "free_uuid v m = Some m1" "live m1 = live m - set_option (uuid_block v)" "mem_ok m1"
    using free_uuid_live [OF p(1,2)] by blast
  have "vol_ok v' m' \<and> v_uuid v' = (if copy then u\<lparr>u_data := u_data (v_uuid v')\<rparr> else u)"
  proof (cases copy)
    case True
    show ?thesis using m1(3)
    proof (cases rule: env_alloc_cases)
      case (none m2)
      then show ?thesis using True assms(2) m1(1) by (simp add: ocf_volume_set_uuid_def)
    next
      case (some b m2)
      have "v' = v\<lparr>uuid_copy := True, v_uuid := \<lparr>u_size = u_size u, u_data = Some b, u_dev = u_dev u\<rparr>\<rparr>" "m' = m2"
        using True assms(2) m1(1) some(1) by (simp_all add: ocf_volume_set_uuid_def)
      then show ?thesis using True some m1 p by (auto simp: vol_ok_def owned_def uuid_block_def)
    qed
  next
    case False
    then have "v' = v\<lparr>uuid_copy := False, v_uuid := u\<rparr>" "m' = m1" using assms(2) m1(1) by (simp_all add: ocf_volume_set_uuid_def)
    then show ?thesis using False m1 p by (auto simp: vol_ok_def owned_def uuid_block_def)
  qed
  then show "vol_ok v' m'" "v_uuid v' = (if copy then u\<lparr>u_data := u_data (v_uuid v')\<rparr> else u)" by auto
qed

subsection \<open>Concrete volumes\<close>

definition demo_type :: volume_type where
  "demo_type = \<lparr>volume_priv_size = 8, composite_caps = False, forward_ops = \<lambda>f. f \<noteq> F_io_simple, ops_on_init = OCF_OK,
     ops_open = \<lambda>_ _. OCF_OK, ops_length = \<lambda>dev. 4096 * dev, ops_max_io_size = \<lambda>_. 1024\<rparr>"

definition demo_vol :: "nat \<Rightarrow> ocf_volume" where
  "demo_vol i = \<lparr>v_type = Some demo_type, v_uuid = \<lparr>u_size = 4, u_data = Some (2 * i + 1), u_dev = i\<rparr>, v_opened = False,
     uuid_copy = True, v_priv = Some (2 * i), v_refcnt = \<lparr>rc_counter = 0, rc_freeze = 1, rc_callback = False, rc_cb = None, rc_priv = 0\<rparr>\<rparr>"

definition demo_mem :: "bool list \<Rightarrow> ocf_mem" where
  "demo_mem os = \<lparr>live = {0, 1, 2, 3}, brk = 4, oom = os\<rparr>"

lemma demo_vol_ok: "i < 2 \<Longrightarrow> vol_ok (demo_vol i) (demo_mem os)"
  by (auto simp: vol_ok_def mem_ok_def demo_mem_def demo_vol_def owned_def uuid_block_def less_2_cases_iff)

theorem volume_init_deinit_witness:
  "\<exists>e v' m'. ocf_volume_init (demo_vol 0) (Some demo_type) (Some (v_uuid (demo_vol 0))) True (demo_mem [False, True]) = Some (e, v', m') \<and>
     (e \<noteq> OCF_OK \<longrightarrow> live m' = {0, 1, 2, 3})"
proof -
  have "mem_ok (demo_mem [False, True])" using demo_vol_ok [of 0] by (simp add: vol_ok_def)
  from volume_init_deinit [OF this] show ?thesis by (metis demo_mem_def ocf_mem.select_convs(1))
qed

end
