(* ===== verification/Composite.thy ===== *)
theory Composite
  imports Volume
begin

section \<open>Composite volumes\<close>

text \<open>
  Model of \<open>src/ocf_composite_volume.c\<close>: a volume whose address space is the concatenation of those of up
  to 16 member volumes. Forwarding a request gives the calls that it makes on members, in order, and the
  end of the token (\<open>Fwd_end\<close>). Addresses are unsigned 64-bit numbers. The log messages are left out.
\<close>

subsection \<open>State\<close>

definition OCF_COMPOSITE_VOLUME_MEMBERS_MAX :: nat where
  "OCF_COMPOSITE_VOLUME_MEMBERS_MAX = 16"

record composite_member =
  mb_detached :: bool
  mb_volume :: ocf_volume
  volume_params :: nat

record ocf_composite_volume =
  members_cnt :: nat
  member :: "nat \<Rightarrow> composite_member"
  end_addr :: "nat \<Rightarrow> nat"
  comp_length :: nat
  max_io_size :: nat

definition add64 :: "nat \<Rightarrow> nat \<Rightarrow> nat" where
  "add64 a b = (a + b) mod 2 ^ 64"

definition sub64 :: "nat \<Rightarrow> nat \<Rightarrow> nat" where
  "sub64 a b = (a + (2 ^ 64 - b)) mod 2 ^ 64"

definition set_member :: "nat \<Rightarrow> (composite_member \<Rightarrow> composite_member) \<Rightarrow> ocf_composite_volume \<Rightarrow> ocf_composite_volume" where
  "set_member i f c = c\<lparr>member := (member c)(i := f (member c i))\<rparr>"

abbreviation m_open :: "ocf_composite_volume \<Rightarrow> nat \<Rightarrow> bool" where
  "m_open c i \<equiv> v_opened (mb_volume (member c i))"

definition begin_addr :: "ocf_composite_volume \<Rightarrow> nat \<Rightarrow> nat" where
  "begin_addr c i = (if i > 0 then end_addr c (i - 1) else 0)"

subsection \<open>Forwarding\<close>

datatype fwd = Fwd_io nat nat nat nat nat | Fwd_flush nat | Fwd_discard nat nat nat | Fwd_write_zeros nat nat nat
  | Fwd_metadata nat nat nat nat nat | Fwd_io_simple nat nat nat nat | Fwd_end ocf_error

definition forward_member :: "fwd_op \<Rightarrow> fwd \<Rightarrow> ocf_composite_volume \<Rightarrow> nat \<Rightarrow> fwd list option" where
  "forward_member f ev c i = do {
     e \<leftarrow> ocf_volume_forward f (mb_volume (member c i));
     Some [if e = OCF_OK then ev else Fwd_end e] }"

fun seek_member :: "ocf_composite_volume \<Rightarrow> nat \<Rightarrow> nat list \<Rightarrow> nat" where
  "seek_member c addr [] = members_cnt c"
| "seek_member c addr (i # is) = (if addr \<ge> end_addr c i then seek_member c addr is else i)"

fun forward_loop :: "fwd_op \<Rightarrow> (nat \<Rightarrow> nat \<Rightarrow> nat \<Rightarrow> nat \<Rightarrow> fwd) \<Rightarrow> ocf_composite_volume \<Rightarrow> nat list \<Rightarrow>
    nat \<Rightarrow> nat \<Rightarrow> nat \<Rightarrow> nat \<Rightarrow> fwd list option" where
  "forward_loop f ev c [] addr caddr bytes offset = Some [Fwd_end OCF_OK]"
| "forward_loop f ev c (i # is) addr caddr bytes offset =
     (if bytes = 0 then Some [Fwd_end OCF_OK]
      else if \<not> m_open c i then Some [Fwd_end OCF_ERR_INVAL]
      else do {
        let member_bytes = min bytes (sub64 (end_addr c i) caddr);
        evs \<leftarrow> forward_member f (ev i addr member_bytes offset) c i;
        rest \<leftarrow> forward_loop f ev c is 0 (end_addr c i) (bytes - member_bytes) (add64 offset member_bytes);
        Some (evs @ rest) })"

definition composite_forward :: "fwd_op \<Rightarrow> (nat \<Rightarrow> nat \<Rightarrow> nat \<Rightarrow> nat \<Rightarrow> fwd) \<Rightarrow> ocf_composite_volume \<Rightarrow>
    nat \<Rightarrow> nat \<Rightarrow> nat \<Rightarrow> fwd list option" where
  "composite_forward f ev c addr bytes offset = do {
     bug_on (addr \<ge> comp_length c);
     bug_on (add64 addr bytes > comp_length c);
     let i = seek_member c addr [0..<members_cnt c];
     if i < members_cnt c \<and> \<not> m_open c i then Some [Fwd_end OCF_ERR_INVAL]
     else forward_loop f ev c [i..<members_cnt c]
       (if i < members_cnt c then sub64 addr (begin_addr c i) else addr) addr bytes offset }"

definition ocf_composite_forward_io :: "ocf_composite_volume \<Rightarrow> nat \<Rightarrow> nat \<Rightarrow> nat \<Rightarrow> nat \<Rightarrow> fwd list option" where
  "ocf_composite_forward_io c dir addr bytes offset = composite_forward F_io (\<lambda>i a b off. Fwd_io i dir a b off) c addr bytes offset"

definition ocf_composite_forward_flush :: "ocf_composite_volume \<Rightarrow> fwd list option" where
  "ocf_composite_forward_flush c = do {
     evs \<leftarrow> those (map (\<lambda>i. forward_member F_flush (Fwd_flush i) c i)
       (filter (\<lambda>i. \<not> mb_detached (member c i) \<and> m_open c i) [0..<members_cnt c]));
     Some (concat evs @ [Fwd_end OCF_OK]) }"

definition ocf_composite_forward_discard :: "ocf_composite_volume \<Rightarrow> nat \<Rightarrow> nat \<Rightarrow> fwd list option" where
  "ocf_composite_forward_discard c addr bytes = composite_forward F_discard (\<lambda>i a b off. Fwd_discard i a b) c addr bytes 0"

definition ocf_composite_forward_write_zeros :: "ocf_composite_volume \<Rightarrow> nat \<Rightarrow> nat \<Rightarrow> fwd list option" where
  "ocf_composite_forward_write_zeros c addr bytes =
     composite_forward F_write_zeros (\<lambda>i a b off. Fwd_write_zeros i a b) c addr bytes 0"

definition ocf_composite_forward_metadata :: "ocf_composite_volume \<Rightarrow> nat \<Rightarrow> nat \<Rightarrow> nat \<Rightarrow> nat \<Rightarrow> fwd list option" where
  "ocf_composite_forward_metadata c dir addr bytes offset =
     composite_forward F_metadata (\<lambda>i a b off. Fwd_metadata i dir a b off) c addr bytes offset"

definition ocf_composite_forward_io_simple :: "ocf_composite_volume \<Rightarrow> nat \<Rightarrow> nat \<Rightarrow> nat \<Rightarrow> fwd list option" where
  "ocf_composite_forward_io_simple c dir addr bytes = do {
     bug_on (addr \<ge> comp_length c);
     bug_on (add64 addr bytes > comp_length c);
     let i = seek_member c addr [0..<members_cnt c];
     bug_on (i \<ge> OCF_COMPOSITE_VOLUME_MEMBERS_MAX);
     if i < members_cnt c \<and> \<not> m_open c i then Some [Fwd_end OCF_ERR_IO]
     else if add64 addr bytes > end_addr c i then Some [Fwd_end OCF_ERR_IO]
     else do {
       e \<leftarrow> ocf_volume_forward_io_simple (mb_volume (member c i));
       Some [if e = OCF_OK then Fwd_io_simple i dir (if i < members_cnt c then sub64 addr (begin_addr c i) else addr) bytes
             else Fwd_end e, Fwd_end OCF_OK] } }"

subsection \<open>Opening and closing\<close>

definition with_volume :: "nat \<Rightarrow> ocf_volume \<Rightarrow> ocf_composite_volume \<Rightarrow> ocf_composite_volume" where
  "with_volume i v = set_member i (\<lambda>mb. mb\<lparr>mb_volume := v\<rparr>)"

fun close_members :: "nat list \<Rightarrow> ocf_composite_volume \<Rightarrow> ocf_composite_volume option" where
  "close_members [] c = Some c"
| "close_members (i # is) c = do {
     v \<leftarrow> ocf_volume_close (mb_volume (member c i));
     close_members is (with_volume i v c) }"

definition attached_ids :: "ocf_composite_volume \<Rightarrow> nat list" where
  "attached_ids c = filter (\<lambda>i. \<not> mb_detached (member c i)) [0..<members_cnt c]"

fun open_members :: "nat list \<Rightarrow> ocf_composite_volume \<Rightarrow> (ocf_error \<times> ocf_composite_volume) option" where
  "open_members [] c = Some (OCF_OK, c)"
| "open_members (i # is) c = do {
     (result, v) \<leftarrow> ocf_volume_open (mb_volume (member c i)) (volume_params (member c i));
     let c = with_volume i v c;
     if result \<noteq> OCF_OK then do {
       c \<leftarrow> close_members (filter (\<lambda>j. j < i) (attached_ids c)) c;
       Some (result, c) }
     else open_members is c }"

definition ocf_composite_volume_open :: "ocf_composite_volume \<Rightarrow> (ocf_error \<times> ocf_composite_volume) option" where
  "ocf_composite_volume_open c = open_members (attached_ids c) c"

definition ocf_composite_volume_close :: "ocf_composite_volume \<Rightarrow> ocf_composite_volume option" where
  "ocf_composite_volume_close c = close_members (filter (m_open c) (attached_ids c)) c"

subsection \<open>Members\<close>

definition get_subvolume_length :: "ocf_composite_volume \<Rightarrow> nat \<Rightarrow> nat" where
  "get_subvolume_length c i = (if i = 0 then end_addr c i else sub64 (end_addr c i) (end_addr c (i - 1)))"

definition zero_volume :: ocf_volume where
  "zero_volume = \<lparr>v_type = None, v_uuid = no_uuid, v_opened = False, uuid_copy = False, v_priv = None,
     v_refcnt = \<lparr>rc_counter = 0, rc_freeze = 0, rc_callback = False, rc_cb = None, rc_priv = 0\<rparr>\<rparr>"

text \<open>\<open>opened\<close> tells whether the composite volume itself is open.\<close>

definition composite_volume_attach_member :: "bool \<Rightarrow> ocf_composite_volume \<Rightarrow> ocf_volume_uuid \<Rightarrow> nat \<Rightarrow> volume_type option \<Rightarrow> nat \<Rightarrow>
    ocf_mem \<Rightarrow> (ocf_error \<times> ocf_composite_volume \<times> ocf_mem) option" where
  "composite_volume_attach_member opened c uuid tgt_id vol_type vol_params m =
     (if tgt_id \<ge> OCF_COMPOSITE_VOLUME_MEMBERS_MAX then Some (OCF_ERR_COMPOSITE_INVALID_ID, c, m)
      else if tgt_id \<ge> members_cnt c then Some (OCF_ERR_COMPOSITE_UNINITIALISED_VOLUME, c, m)
      else if \<not> mb_detached (member c tgt_id) then Some (OCF_ERR_COMPOSITE_ATTACHED, c, m)
      else do {
        (ret, new_vol, m) \<leftarrow> ocf_volume_init zero_volume vol_type (Some uuid) True m;
        if ret \<noteq> OCF_OK then Some (ret, c, m)
        else do {
          (ret, new_vol) \<leftarrow> ocf_volume_open new_vol vol_params;
          if ret \<noteq> OCF_OK then do { (_, m) \<leftarrow> ocf_volume_deinit new_vol m; Some (ret, c, m) }
          else do {
            new_vol_size \<leftarrow> ocf_volume_get_length new_vol;
            new_vol_max_io_size \<leftarrow> ocf_volume_get_max_io_size new_vol;
            new_vol \<leftarrow> ocf_volume_close new_vol;
            if new_vol_size \<noteq> get_subvolume_length c tgt_id then do {
              (_, m) \<leftarrow> ocf_volume_deinit new_vol m;
              Some (OCF_ERR_COMPOSITE_INVALID_SIZE, c, m) }
            else if max_io_size c > new_vol_max_io_size then do {
              (_, m) \<leftarrow> ocf_volume_deinit new_vol m;
              Some (OCF_ERR_INVAL, c, m) }
            else do {
              (v, new_vol, m) \<leftarrow> ocf_volume_move (mb_volume (member c tgt_id)) new_vol m;
              (_, m) \<leftarrow> ocf_volume_deinit new_vol m;
              (ret, v) \<leftarrow> (if opened then ocf_volume_open v vol_params else Some (OCF_OK, v));
              if ret \<noteq> OCF_OK then do {
                (v, m) \<leftarrow> ocf_volume_deinit v m;
                Some (ret, with_volume tgt_id v c, m) }
              else Some (OCF_OK, set_member tgt_id (\<lambda>mb. mb\<lparr>mb_volume := v, mb_detached := False, volume_params := vol_params\<rparr>) c, m) } } } })"

definition composite_volume_detach_member :: "ocf_composite_volume \<Rightarrow> nat \<Rightarrow> (ocf_error \<times> ocf_composite_volume) option" where
  "composite_volume_detach_member c i =
     (if i \<ge> OCF_COMPOSITE_VOLUME_MEMBERS_MAX then Some (OCF_ERR_COMPOSITE_INVALID_ID, c)
      else if i \<ge> members_cnt c then Some (OCF_ERR_COMPOSITE_UNINITIALISED_VOLUME, c)
      else if mb_detached (member c i) then Some (OCF_ERR_COMPOSITE_DETACHED, c)
      else do {
        v \<leftarrow> ocf_volume_close (mb_volume (member c i));
        Some (OCF_OK, set_member i (\<lambda>mb. mb\<lparr>mb_volume := v, mb_detached := True, volume_params := 0\<rparr>) c) })"

definition ocf_composite_volume_on_init :: "ocf_composite_volume \<Rightarrow> ocf_composite_volume" where
  "ocf_composite_volume_on_init c = c\<lparr>comp_length := 0, max_io_size := 2 ^ 32 - 1\<rparr>"

definition composite_volume_add :: "ocf_composite_volume \<Rightarrow> volume_type option \<Rightarrow> ocf_volume_uuid \<Rightarrow> nat \<Rightarrow> ocf_mem \<Rightarrow>
    (ocf_error \<times> ocf_composite_volume \<times> ocf_mem) option" where
  "composite_volume_add c ty uuid params m =
     (if members_cnt c \<ge> OCF_COMPOSITE_VOLUME_MEMBERS_MAX then Some (OCF_ERR_INVAL, c, m)
      else do {
        let n = members_cnt c;
        (result, v, m) \<leftarrow> ocf_volume_init (mb_volume (member c n)) ty (Some uuid) True m;
        if result \<noteq> OCF_OK then Some (result, with_volume n v c, m)
        else do {
          (result, v) \<leftarrow> ocf_volume_open v params;
          if result \<noteq> OCF_OK then do {
            (v, m) \<leftarrow> ocf_volume_deinit v m;
            Some (result, with_volume n v c, m) }
          else do {
            len \<leftarrow> ocf_volume_get_length v;
            io \<leftarrow> ocf_volume_get_max_io_size v;
            let total = add64 (comp_length c) len;
            let c = c\<lparr>comp_length := total, end_addr := (end_addr c)(n := total), max_io_size := min (max_io_size c) io\<rparr>;
            v \<leftarrow> ocf_volume_close v;
            Some (OCF_OK, (set_member n (\<lambda>mb. mb\<lparr>mb_volume := v, volume_params := params, mb_detached := False\<rparr>) c)
              \<lparr>members_cnt := n + 1\<rparr>, m) } } })"

fun deinit_members :: "nat list \<Rightarrow> ocf_composite_volume \<Rightarrow> ocf_mem \<Rightarrow> (ocf_composite_volume \<times> ocf_mem) option" where
  "deinit_members [] c m = Some (c, m)"
| "deinit_members (i # is) c m = do {
     (v, m) \<leftarrow> ocf_volume_deinit (mb_volume (member c i)) m;
     deinit_members is (with_volume i v c) m }"

definition ocf_composite_volume_on_deinit :: "ocf_composite_volume \<Rightarrow> ocf_mem \<Rightarrow> (ocf_composite_volume \<times> ocf_mem) option" where
  "ocf_composite_volume_on_deinit c m = deinit_members [0..<members_cnt c] c m"

definition ocf_composite_volume_get_subvolume_by_index :: "ocf_composite_volume \<Rightarrow> int \<Rightarrow> nat option" where
  "ocf_composite_volume_get_subvolume_by_index c index =
     (if index \<ge> 0 \<and> index < int (members_cnt c) then Some (nat index) else None)"

definition ocf_composite_volume_get_subvolume_addr_range :: "ocf_composite_volume \<Rightarrow> nat \<Rightarrow> ocf_error + (nat \<times> nat)" where
  "ocf_composite_volume_get_subvolume_addr_range c i =
     (if i \<ge> members_cnt c then Inl OCF_ERR_INVAL else Inr (begin_addr c i, end_addr c i))"

subsection \<open>The address space\<close>

definition comp_ok :: "ocf_composite_volume \<Rightarrow> bool" where
  "comp_ok c \<longleftrightarrow> members_cnt c \<le> OCF_COMPOSITE_VOLUME_MEMBERS_MAX \<and>
     (\<forall>i < members_cnt c. begin_addr c i \<le> end_addr c i) \<and>
     comp_length c = begin_addr c (members_cnt c) \<and> comp_length c < 2 ^ 64"

text \<open>Where an address of the composite volume is: the member and the address in it.\<close>

definition place :: "ocf_composite_volume \<Rightarrow> nat \<Rightarrow> nat \<times> nat" where
  "place c x = (let i = seek_member c x [0..<members_cnt c] in (i, x - begin_addr c i))"

lemma begin_Suc: "begin_addr c (Suc i) = end_addr c i"
  by (simp add: begin_addr_def)

lemma end_mono:
  assumes "comp_ok c" "i \<le> j" "j < members_cnt c"
  shows "end_addr c i \<le> end_addr c j"
  using assms(2,3)
proof (induction rule: dec_induct)
  case (step n)
  then show ?case using assms(1) by (force simp: comp_ok_def begin_Suc)
qed simp

lemma end_le_length:
  assumes "comp_ok c" "i < members_cnt c"
  shows "end_addr c i \<le> comp_length c"
  using end_mono [OF assms(1), of i "members_cnt c - 1"] assms by (auto simp: comp_ok_def begin_addr_def)

lemma seek_skip: "\<forall>j\<in>set js. end_addr c j \<le> x \<Longrightarrow> seek_member c x (js @ is) = seek_member c x is"
  by (induction js) auto

lemma seek_eq:
  assumes ok: "comp_ok c" and i: "i < members_cnt c" and x: "begin_addr c i \<le> x" "x < end_addr c i"
  shows "seek_member c x [0..<members_cnt c] = i"
proof -
  have sp: "[0..<members_cnt c] = [0..<i] @ [i..<members_cnt c]" using upt_add_eq_append [of 0 i "members_cnt c - i"] i by simp
  have "end_addr c j \<le> x" if "j < i" for j
  proof -
    have "end_addr c j \<le> end_addr c (i - 1)" using end_mono [OF ok, of j "i - 1"] that i by simp
    then show ?thesis using x(1) that by (simp add: begin_addr_def)
  qed
  then have "seek_member c x [0..<members_cnt c] = seek_member c x [i..<members_cnt c]"
    unfolding sp by (intro seek_skip) auto
  then show ?thesis using i x(2) by (simp add: upt_conv_Cons)
qed

lemma seek_found:
  assumes ok: "comp_ok c" and x: "x < comp_length c"
  shows "seek_member c x [0..<members_cnt c] < members_cnt c" (is "?i < _")
    "begin_addr c (seek_member c x [0..<members_cnt c]) \<le> x" "x < end_addr c (seek_member c x [0..<members_cnt c])"
proof -
  let ?P = "\<lambda>i. i < members_cnt c \<and> x < end_addr c i"
  have "0 < members_cnt c" using ok x by (cases "members_cnt c") (auto simp: comp_ok_def begin_addr_def)
  then have "?P (members_cnt c - 1)" using ok x by (auto simp: comp_ok_def begin_addr_def)
  then obtain i where i: "?P i" "\<forall>j < i. \<not> ?P j" using exists_least_iff [of ?P] by blast
  have "begin_addr c i \<le> x" using i by (cases i) (auto simp: begin_addr_def)
  then have "?i = i" using seek_eq [OF ok, of i x] i(1) by simp
  then show "?i < members_cnt c" "begin_addr c ?i \<le> x" "x < end_addr c ?i" using i(1) \<open>begin_addr c i \<le> x\<close> by auto
qed

lemma sub64_eq: "b \<le> a \<Longrightarrow> a < 2 ^ 64 \<Longrightarrow> sub64 a b = a - b"
proof -
  assume "b \<le> a" "a < 2 ^ 64"
  then have "a + (2 ^ 64 - b) = (a - b) + 2 ^ 64" by simp
  then show ?thesis using \<open>a < 2 ^ 64\<close> unfolding sub64_def by (simp only: mod_add_self2) simp
qed

lemma add64_eq: "a + b < 2 ^ 64 \<Longrightarrow> add64 a b = a + b"
  by (simp add: add64_def)

subsection \<open>The pieces of a request\<close>

type_synonym piece = "nat \<times> nat \<times> nat \<times> nat"

definition piece_bytes :: "piece \<Rightarrow> (nat \<times> nat \<times> nat) list" where
  "piece_bytes = (\<lambda>(i, a, b, off). map (\<lambda>k. (i, a + k, off + k)) [0..<b])"

definition all_open :: "fwd_op \<Rightarrow> ocf_composite_volume \<Rightarrow> bool" where
  "all_open f c \<longleftrightarrow> (\<forall>i < members_cnt c. m_open c i \<and> (\<exists>t. v_type (mb_volume (member c i)) = Some t \<and> forward_ops t f))"

lemma forward_member_open:
  "all_open f c \<Longrightarrow> i < members_cnt c \<Longrightarrow> forward_member f ev c i = Some [ev]"
  by (auto simp: all_open_def forward_member_def ocf_volume_forward_def)

lemma upt_map_shift: "map g [0..<m + n] = map g [0..<m] @ map (\<lambda>k. g (m + k)) [0..<n]"
proof -
  have "[0..<m + n] = [0..<m] @ map (\<lambda>k. m + k) [0..<n]"
    using upt_add_eq_append [of 0 m n] map_add_upt [of m n] by (simp add: add.commute)
  then show ?thesis by simp
qed

lemma forward_loop_spec:
  assumes ok: "comp_ok c" and op: "all_open f c"
  shows "i \<le> members_cnt c \<Longrightarrow> begin_addr c i \<le> x \<Longrightarrow> (i < members_cnt c \<Longrightarrow> x \<le> end_addr c i) \<Longrightarrow> x + n \<le> comp_length c \<Longrightarrow>
    off + n < 2 ^ 64 \<Longrightarrow>
    \<exists>ps. forward_loop f ev c [i..<members_cnt c] (x - begin_addr c i) x n off =
        Some (map (\<lambda>(i, a, b, off). ev i a b off) ps @ [Fwd_end OCF_OK]) \<and>
      concat (map piece_bytes ps) = map (\<lambda>k. (fst (place c (x + k)), snd (place c (x + k)), off + k)) [0..<n]"
proof (induction "members_cnt c - i" arbitrary: i x n off)
  case 0
  then have "i = members_cnt c" "n = 0" using ok by (auto simp: comp_ok_def)
  then show ?case by (intro exI [of _ "[]"]) simp
next
  case (Suc d)
  then have i: "i < members_cnt c" by simp
  let ?b = "min n (end_addr c i - x)"
  have e: "end_addr c i \<le> comp_length c" "comp_length c < 2 ^ 64" "x \<le> end_addr c i"
    using end_le_length [OF ok i] ok Suc.prems(3) i by (auto simp: comp_ok_def)
  show ?case
  proof (cases "n = 0")
    case True
    then show ?thesis using i by (intro exI [of _ "[]"]) (simp add: upt_conv_Cons)
  next
    case False
    have sb: "sub64 (end_addr c i) x = end_addr c i - x" using e by (intro sub64_eq) auto
    have ob: "add64 off ?b = off + ?b" using Suc.prems(5) by (intro add64_eq) simp
    have z: "end_addr c i - begin_addr c (Suc i) = 0" by (simp add: begin_Suc)
    have "\<exists>ps. forward_loop f ev c [Suc i..<members_cnt c] (end_addr c i - begin_addr c (Suc i)) (end_addr c i) (n - ?b) (off + ?b) =
          Some (map (\<lambda>(i, a, b, off). ev i a b off) ps @ [Fwd_end OCF_OK]) \<and>
        concat (map piece_bytes ps) =
          map (\<lambda>k. (fst (place c (end_addr c i + k)), snd (place c (end_addr c i + k)), off + ?b + k)) [0..<n - ?b]"
    proof (rule Suc.hyps(1))
      show "d = members_cnt c - Suc i" "Suc i \<le> members_cnt c" "begin_addr c (Suc i) \<le> end_addr c i"
        using Suc.hyps(2) i by (auto simp: begin_Suc)
      show "end_addr c i \<le> end_addr c (Suc i)" if "Suc i < members_cnt c" using end_mono [OF ok _ that, of i] by simp
      show "end_addr c i + (n - ?b) \<le> comp_length c" using Suc.prems(4) e by auto
      show "off + ?b + (n - ?b) < 2 ^ 64" using Suc.prems(5) by simp
    qed
    then obtain ps where ps: "forward_loop f ev c [Suc i..<members_cnt c] 0 (end_addr c i) (n - ?b) (off + ?b) =
          Some (map (\<lambda>(i, a, b, off). ev i a b off) ps @ [Fwd_end OCF_OK])"
        "concat (map piece_bytes ps) =
          map (\<lambda>k. (fst (place c (end_addr c i + k)), snd (place c (end_addr c i + k)), off + ?b + k)) [0..<n - ?b]"
      unfolding z by blast
    have opn: "m_open c i" using op i by (simp add: all_open_def)
    let ?ps = "(i, x - begin_addr c i, ?b, off) # ps"
    have eq: "forward_loop f ev c [i..<members_cnt c] (x - begin_addr c i) x n off =
        Some (map (\<lambda>(i, a, b, off). ev i a b off) ?ps @ [Fwd_end OCF_OK])"
      using False i opn ps(1) ob forward_member_open [OF op i] by (simp add: upt_conv_Cons [OF i] sb Let_def)
    have "place c (x + k) = (i, x + k - begin_addr c i)" if "k < ?b" for k
    proof -
      have "x + k < end_addr c i" "begin_addr c i \<le> x + k" using that Suc.prems(2) by (simp_all add: less_diff_conv add.commute)
      then show ?thesis using seek_eq [OF ok i, of "x + k"] by (simp add: place_def Let_def)
    qed
    then have own: "piece_bytes (i, x - begin_addr c i, ?b, off) =
        map (\<lambda>k. (fst (place c (x + k)), snd (place c (x + k)), off + k)) [0..<?b]"
      using Suc.prems(2) by (simp add: piece_bytes_def)
    have rest: "map (\<lambda>k. (fst (place c (end_addr c i + k)), snd (place c (end_addr c i + k)), off + ?b + k)) [0..<n - ?b] =
        map (\<lambda>k. (fst (place c (x + (?b + k))), snd (place c (x + (?b + k))), off + (?b + k))) [0..<n - ?b]"
    proof (cases "n \<le> end_addr c i - x")
      case False
      then have "x + ?b = end_addr c i" using e by simp
      then have "end_addr c i + k = x + (?b + k)" for k by simp
      then show ?thesis by (simp add: add.assoc)
    qed simp
    have "concat (map piece_bytes ?ps) = map (\<lambda>k. (fst (place c (x + k)), snd (place c (x + k)), off + k)) [0..<?b + (n - ?b)]"
      unfolding upt_map_shift [of _ ?b "n - ?b"] using own ps(2) rest by simp
    then show ?thesis using eq by (intro exI [of _ ?ps]) simp
  qed
qed

text \<open>The pieces \<open>ps\<close> are the bytes of the request, each once and in order, where the composite volume has them.\<close>

definition tiles :: "ocf_composite_volume \<Rightarrow> nat \<Rightarrow> nat \<Rightarrow> nat \<Rightarrow> piece list \<Rightarrow> bool" where
  "tiles c addr bytes off ps \<longleftrightarrow>
     concat (map piece_bytes ps) = map (\<lambda>k. (fst (place c (addr + k)), snd (place c (addr + k)), off + k)) [0..<bytes]"

lemma composite_forward_spec:
  assumes ok: "comp_ok c" and op: "all_open f c" and a: "addr < comp_length c" "addr + bytes \<le> comp_length c" "off + bytes < 2 ^ 64"
  shows "\<exists>ps. tiles c addr bytes off ps \<and>
    composite_forward f ev c addr bytes off = Some (map (\<lambda>(i, a, b, off). ev i a b off) ps @ [Fwd_end OCF_OK])"
proof -
  let ?i = "seek_member c addr [0..<members_cnt c]"
  note S = seek_found [OF ok a(1)]
  have l: "comp_length c < 2 ^ 64" using ok by (simp add: comp_ok_def)
  have "add64 addr bytes = addr + bytes" using a l by (intro add64_eq) simp
  moreover have "sub64 addr (begin_addr c ?i) = addr - begin_addr c ?i" using S(2) a l by (intro sub64_eq) simp_all
  moreover have "m_open c ?i" using op S(1) by (simp add: all_open_def)
  ultimately have "composite_forward f ev c addr bytes off =
      forward_loop f ev c [?i..<members_cnt c] (addr - begin_addr c ?i) addr bytes off"
    using a S(1) by (simp add: composite_forward_def Let_def)
  then show ?thesis using forward_loop_spec [OF ok op, of ?i addr bytes off ev] S a by (auto simp: less_imp_le tiles_def)
qed

text \<open>
  C33: a read, write, metadata request, discard or write of zeros that lies in a composite volume whose members
  are open is split into pieces that cover its bytes exactly, each once and in order: byte \<open>k\<close> goes to the
  member and the address in it where byte \<open>addr + k\<close> of the composite volume is, with the data offset advanced
  by \<open>k\<close>; then the token is ended without error.
\<close>

theorem composite_forward_tiles:
  assumes "comp_ok c" "\<forall>f. all_open f c" "addr < comp_length c" "addr + bytes \<le> comp_length c" "off + bytes < 2 ^ 64"
  shows "(\<exists>ps. tiles c addr bytes off ps \<and>
      ocf_composite_forward_io c dir addr bytes off = Some (map (\<lambda>(i, a, b, off). Fwd_io i dir a b off) ps @ [Fwd_end OCF_OK])) \<and>
    (\<exists>ps. tiles c addr bytes off ps \<and>
      ocf_composite_forward_metadata c dir addr bytes off = Some (map (\<lambda>(i, a, b, off). Fwd_metadata i dir a b off) ps @ [Fwd_end OCF_OK])) \<and>
    (\<exists>ps. tiles c addr bytes 0 ps \<and>
      ocf_composite_forward_discard c addr bytes = Some (map (\<lambda>(i, a, b, off). Fwd_discard i a b) ps @ [Fwd_end OCF_OK])) \<and>
    (\<exists>ps. tiles c addr bytes 0 ps \<and>
      ocf_composite_forward_write_zeros c addr bytes = Some (map (\<lambda>(i, a, b, off). Fwd_write_zeros i a b) ps @ [Fwd_end OCF_OK]))"
proof -
  have "0 + bytes < 2 ^ 64" using assms(5) by simp
  note S = composite_forward_spec [OF assms(1) spec [OF assms(2)] assms(3,4,5)]
    composite_forward_spec [OF assms(1) spec [OF assms(2)] assms(3,4) this]
  show ?thesis
    unfolding ocf_composite_forward_io_def ocf_composite_forward_metadata_def ocf_composite_forward_discard_def
      ocf_composite_forward_write_zeros_def
    by (intro conjI S)
qed

text \<open>
  C34: the address ranges that the composite volume reports for its members divide its address space: an
  address is in the member where a request for it goes, and the members' addresses map back.
\<close>

theorem composite_place_roundtrip:
  assumes ok: "comp_ok c"
  shows "(\<forall>x < comp_length c. \<exists>b e. ocf_composite_volume_get_subvolume_addr_range c (fst (place c x)) = Inr (b, e) \<and>
      b + snd (place c x) = x \<and> x < e) \<and>
    (\<forall>i b e. ocf_composite_volume_get_subvolume_addr_range c i = Inr (b, e) \<longrightarrow>
      (\<forall>a. b + a < e \<longrightarrow> b + a < comp_length c \<and> place c (b + a) = (i, a)))"
proof (intro conjI allI impI)
  fix x assume x: "x < comp_length c"
  show "\<exists>b e. ocf_composite_volume_get_subvolume_addr_range c (fst (place c x)) = Inr (b, e) \<and> b + snd (place c x) = x \<and> x < e"
    using seek_found [OF ok x] by (simp add: ocf_composite_volume_get_subvolume_addr_range_def place_def Let_def)
next
  fix i b e a assume r: "ocf_composite_volume_get_subvolume_addr_range c i = Inr (b, e)" and a: "b + a < e"
  then have i: "i < members_cnt c" "b = begin_addr c i" "e = end_addr c i"
    by (auto simp: ocf_composite_volume_get_subvolume_addr_range_def split: if_splits)
  show "b + a < comp_length c" using end_le_length [OF ok i(1)] a i(3) by simp
  show "place c (b + a) = (i, a)" using seek_eq [OF ok i(1), of "b + a"] a i by (simp add: place_def Let_def)
qed

text \<open>
  A simple request is forwarded as one piece to the member where it lies, and is ended with
  \<open>OCF_ERR_IO\<close> when it does not lie in one member or that member is not open.
\<close>

lemma composite_io_simple:
  assumes ok: "comp_ok c" and a: "addr < comp_length c" "addr + bytes \<le> comp_length c"
    and t: "\<forall>i < members_cnt c. \<exists>t. v_type (mb_volume (member c i)) = Some t \<and> (forward_ops t F_io_simple \<or> forward_ops t F_io)"
  shows "ocf_composite_forward_io_simple c dir addr bytes = Some
    (if m_open c (fst (place c addr)) \<and> addr + bytes \<le> end_addr c (fst (place c addr))
     then [Fwd_io_simple (fst (place c addr)) dir (snd (place c addr)) bytes, Fwd_end OCF_OK]
     else [Fwd_end OCF_ERR_IO])"
proof -
  let ?i = "seek_member c addr [0..<members_cnt c]"
  note S = seek_found [OF ok a(1)]
  have l: "comp_length c < 2 ^ 64" "members_cnt c \<le> OCF_COMPOSITE_VOLUME_MEMBERS_MAX" using ok by (simp_all add: comp_ok_def)
  have ab: "add64 addr bytes = addr + bytes" using a l by (intro add64_eq) simp
  have sb: "sub64 addr (begin_addr c ?i) = addr - begin_addr c ?i" using S(2) a l by (intro sub64_eq) simp_all
  have n: "\<not> ?i \<ge> OCF_COMPOSITE_VOLUME_MEMBERS_MAX" using S(1) l(2) by simp
  obtain ty where ty: "v_type (mb_volume (member c ?i)) = Some ty" "forward_ops ty F_io_simple \<or> forward_ops ty F_io"
    using t S(1) by blast
  have v: "ocf_volume_forward_io_simple (mb_volume (member c ?i)) = Some OCF_OK" if "m_open c ?i"
    using ty that by (auto simp: ocf_volume_forward_io_simple_def ocf_volume_forward_def)
  have p: "fst (place c addr) = ?i" "snd (place c addr) = addr - begin_addr c ?i" by (simp_all add: place_def Let_def)
  show ?thesis
    unfolding p ocf_composite_forward_io_simple_def Let_def ab sb using a S(1) n v by simp
qed

subsection \<open>Adding members\<close>

lemma init_fields:
  assumes "ocf_volume_init v ty (Some u) True m = Some (OCF_OK, v', m')"
  shows "\<exists>t. ty = Some t \<and> v_type v' = Some t \<and> \<not> v_opened v' \<and> u_dev (v_uuid v') = u_dev u \<and>
    rc_freeze (v_refcnt v') = 1 \<and> rc_counter (v_refcnt v') = 0"
  using assms
  by (auto simp: ocf_volume_init_def Let_def env_refcnt_init_def env_refcnt_freeze_def init_on_init_def init_err1_def init_err2_def
      init_err3_def bind_eq_Some_iff split: option.splits prod.splits if_splits)

text \<open>Opening, measuring and closing a volume that was just initialised.\<close>

lemma fresh_open:
  assumes "v_type v = Some t" "\<not> v_opened v" "rc_freeze (v_refcnt v) = 1"
  shows "ocf_volume_open v params = Some (if ops_open t (u_dev (v_uuid v)) params \<noteq> OCF_OK
      then (ops_open t (u_dev (v_uuid v)) params, v)
      else (OCF_OK, v\<lparr>v_refcnt := (v_refcnt v)\<lparr>rc_freeze := 0\<rparr>, v_opened := True\<rparr>))"
  using assms by (simp add: ocf_volume_open_def env_refcnt_unfreeze_def)

lemma comp_ok_extend:
  assumes ok: "comp_ok c" and n: "members_cnt c < OCF_COMPOSITE_VOLUME_MEMBERS_MAX" and l: "comp_length c + len < 2 ^ 64"
    and c': "members_cnt c' = members_cnt c + 1" "comp_length c' = comp_length c + len"
      "end_addr c' = (end_addr c)(members_cnt c := comp_length c + len)"
  shows "comp_ok c'" "x < comp_length c \<Longrightarrow> place c' x = place c x" "a < len \<Longrightarrow> place c' (comp_length c + a) = (members_cnt c, a)"
proof -
  have b: "begin_addr c' i = begin_addr c i" if "i \<le> members_cnt c" for i using that c'(3) by (auto simp: begin_addr_def)
  have lc: "comp_length c = begin_addr c (members_cnt c)" using ok by (simp add: comp_ok_def)
  show ok': "comp_ok c'" using ok n l c' b lc by (auto simp: comp_ok_def less_Suc_eq begin_Suc)
  show "place c' x = place c x" if x: "x < comp_length c"
  proof -
    let ?i = "seek_member c x [0..<members_cnt c]"
    note S = seek_found [OF ok x]
    have "seek_member c' x [0..<members_cnt c'] = ?i" using S c' b by (intro seek_eq [OF ok']) simp_all
    then show ?thesis using S(1) b [of ?i] by (simp add: place_def Let_def)
  qed
  show "place c' (comp_length c + a) = (members_cnt c, a)" if a: "a < len"
  proof -
    have "seek_member c' (comp_length c + a) [0..<members_cnt c'] = members_cnt c"
      using a c' b [of "members_cnt c"] lc by (intro seek_eq [OF ok']) simp_all
    then show ?thesis using b [of "members_cnt c"] lc by (simp add: place_def Let_def)
  qed
qed

lemma with_volume_fields [simp]:
  "members_cnt (with_volume i v c) = members_cnt c" "end_addr (with_volume i v c) = end_addr c"
  "comp_length (with_volume i v c) = comp_length c" "max_io_size (with_volume i v c) = max_io_size c"
  "members_cnt (set_member i f c) = members_cnt c" "end_addr (set_member i f c) = end_addr c"
  "comp_length (set_member i f c) = comp_length c" "max_io_size (set_member i f c) = max_io_size c"
  by (simp_all add: with_volume_def set_member_def)

lemma comp_ok_space:
  assumes "members_cnt c' = members_cnt c" "end_addr c' = end_addr c" "comp_length c' = comp_length c"
  shows "comp_ok c' = comp_ok c" "place c' = place c"
proof -
  have b: "begin_addr c' = begin_addr c" by (simp add: begin_addr_def assms fun_eq_iff)
  have s: "seek_member c' x is = seek_member c x is" for x "is" by (induction "is") (simp_all add: assms)
  show "comp_ok c' = comp_ok c" "place c' = place c" by (simp_all add: comp_ok_def place_def assms b s fun_eq_iff)
qed

lemma add_space:
  assumes add: "composite_volume_add c (Some t) uuid params m = Some (e, c', m')"
  shows "if e = OCF_OK then members_cnt c < OCF_COMPOSITE_VOLUME_MEMBERS_MAX \<and> members_cnt c' = members_cnt c + 1 \<and>
      comp_length c' = add64 (comp_length c) (ops_length t (u_dev uuid)) \<and> end_addr c' = (end_addr c)(members_cnt c := comp_length c')
    else members_cnt c' = members_cnt c \<and> end_addr c' = end_addr c \<and> comp_length c' = comp_length c"
proof (cases "members_cnt c \<ge> OCF_COMPOSITE_VOLUME_MEMBERS_MAX")
  case True
  then show ?thesis using add by (auto simp: composite_volume_add_def)
next
  case False
  let ?n = "members_cnt c"
  obtain r v m1 where i: "ocf_volume_init (mb_volume (member c ?n)) (Some t) (Some uuid) True m = Some (r, v, m1)"
    using add False by (auto simp: composite_volume_add_def Let_def bind_eq_Some_iff)
  show ?thesis
  proof (cases "r = OCF_OK")
    case False
    then show ?thesis using add i \<open>\<not> _ \<le> _\<close> by (auto simp: composite_volume_add_def)
  next
    case True
    then have f: "v_type v = Some t" "\<not> v_opened v" "u_dev (v_uuid v) = u_dev uuid" "rc_freeze (v_refcnt v) = 1"
      using init_fields i by (metis option.inject)+
    show ?thesis
    proof (cases "ops_open t (u_dev uuid) params = OCF_OK")
      case False
      then show ?thesis using add i True \<open>\<not> _ \<le> _\<close> fresh_open [OF f(1,2,4), of params] f(3)
        by (auto simp: composite_volume_add_def bind_eq_Some_iff)
    next
      case opened: True
      then show ?thesis using add i True \<open>\<not> _ \<le> _\<close> fresh_open [OF f(1,2,4), of params] f
        by (auto simp: composite_volume_add_def Let_def ocf_volume_get_length_def ocf_volume_get_max_io_size_def ocf_volume_close_def)
    qed
  qed
qed

text \<open>
  Adding a member either fails and leaves the address space as it is, or appends the member's address
  space to it: every address keeps its place and the new addresses are in the new member.
\<close>

theorem composite_add_extends:
  assumes ok: "comp_ok c" and l: "comp_length c + ops_length t (u_dev uuid) < 2 ^ 64"
    and add: "composite_volume_add c (Some t) uuid params m = Some (e, c', m')"
  shows "comp_ok c' \<and> (\<forall>x < comp_length c. place c' x = place c x) \<and>
    (if e = OCF_OK then comp_length c' = comp_length c + ops_length t (u_dev uuid) \<and>
       (\<forall>a < ops_length t (u_dev uuid). place c' (comp_length c + a) = (members_cnt c, a))
     else comp_length c' = comp_length c)"
proof (cases "e = OCF_OK")
  case True
  have s: "add64 (comp_length c) (ops_length t (u_dev uuid)) = comp_length c + ops_length t (u_dev uuid)" using l by (rule add64_eq)
  have f: "members_cnt c < OCF_COMPOSITE_VOLUME_MEMBERS_MAX" "members_cnt c' = members_cnt c + 1"
      "comp_length c' = comp_length c + ops_length t (u_dev uuid)"
      "end_addr c' = (end_addr c)(members_cnt c := comp_length c + ops_length t (u_dev uuid))"
    using add_space [OF add] True unfolding s by auto
  show ?thesis using True f(3) comp_ok_extend [OF ok f(1) l f(2,3,4)] by simp
next
  case False
  then have "members_cnt c' = members_cnt c" "end_addr c' = end_addr c" "comp_length c' = comp_length c"
    using add_space [OF add] by simp_all
  then show ?thesis using False ok comp_ok_space [of c' c] by simp
qed

subsection \<open>Replacing members\<close>

lemma move_fields:
  "ocf_volume_move v from m = Some (v', from', m') \<Longrightarrow> v' = from\<lparr>v_refcnt := v_refcnt v\<rparr>"
  by (auto simp: ocf_volume_move_def bind_eq_Some_iff split: if_splits)

lemma open_fields:
  "ocf_volume_open v p = Some (e, v') \<Longrightarrow> u_dev (v_uuid v') = u_dev (v_uuid v) \<and>
     (if e = OCF_OK then v_opened v' else v_opened v' = v_opened v)"
  by (auto simp: ocf_volume_open_def bind_eq_Some_iff Let_def split: if_splits dest: arg_cong [where f = v_opened])

text \<open>
  Attaching a volume to a detached member succeeds only when the volume is as long as the member was and
  takes requests as large as the composite volume's; then exactly this member is attached, to that volume,
  and open when the composite volume is. When it fails, no member becomes attached, no other member changes,
  and errors before the replacement change nothing. The address space always stays as it is.
\<close>

theorem composite_attach_member:
  assumes ok: "comp_ok c" and at: "composite_volume_attach_member opened c uuid tgt (Some t) params m = Some (e, c', m')"
  shows "comp_ok c' \<and> place c' = place c \<and> (\<forall>i. i \<noteq> tgt \<longrightarrow> member c' i = member c i) \<and>
    (if e = OCF_OK then tgt < members_cnt c \<and> mb_detached (member c tgt) \<and> \<not> mb_detached (member c' tgt) \<and>
       end_addr c tgt = begin_addr c tgt + ops_length t (u_dev uuid) \<and> max_io_size c \<le> ops_max_io_size t (u_dev uuid) \<and>
       m_open c' tgt = opened \<and> u_dev (v_uuid (mb_volume (member c' tgt))) = u_dev uuid
     else mb_detached (member c' tgt) = mb_detached (member c tgt) \<and> (\<not> opened \<longrightarrow> c' = c))"
proof (cases "OCF_COMPOSITE_VOLUME_MEMBERS_MAX \<le> tgt \<or> members_cnt c \<le> tgt \<or> \<not> mb_detached (member c tgt)")
  case True
  then have "e \<noteq> OCF_OK" "c' = c" using at by (auto simp: composite_volume_attach_member_def split: if_splits)
  then show ?thesis using ok by simp
next
  case False
  then have tgt: "tgt < members_cnt c" "mb_detached (member c tgt)" "\<not> OCF_COMPOSITE_VOLUME_MEMBERS_MAX \<le> tgt" by auto
  let ?dev = "u_dev uuid"
  obtain r v m1 where i: "ocf_volume_init zero_volume (Some t) (Some uuid) True m = Some (r, v, m1)"
    using at tgt by (auto simp: composite_volume_attach_member_def bind_eq_Some_iff)
  have same: ?thesis if "e \<noteq> OCF_OK" "c' = c" using that ok by simp
  show ?thesis
  proof (cases "r = OCF_OK \<and> ops_open t ?dev params = OCF_OK")
    case False
    show ?thesis
    proof (cases "r = OCF_OK")
      case True
      then have f: "v_type v = Some t" "\<not> v_opened v" "u_dev (v_uuid v) = ?dev" "rc_freeze (v_refcnt v) = 1"
        using init_fields i by (metis option.inject)+
      then show ?thesis using at i tgt True False fresh_open [OF f(1,2,4), of params]
        by (intro same) (auto simp: composite_volume_attach_member_def bind_eq_Some_iff)
    qed (rule same; use at i tgt in \<open>auto simp: composite_volume_attach_member_def\<close>)
  next
    case True
    then have f: "v_type v = Some t" "\<not> v_opened v" "u_dev (v_uuid v) = ?dev" "rc_freeze (v_refcnt v) = 1"
      using init_fields i by (metis option.inject)+
    define w where "w = v\<lparr>v_refcnt := env_refcnt_freeze ((v_refcnt v)\<lparr>rc_freeze := 0\<rparr>), v_opened := False\<rparr>"
    have eq: "composite_volume_attach_member opened c uuid tgt (Some t) params m = (if ops_length t ?dev \<noteq> get_subvolume_length c tgt then
          do { (_, m) \<leftarrow> ocf_volume_deinit w m1; Some (OCF_ERR_COMPOSITE_INVALID_SIZE, c, m) }
        else if max_io_size c > ops_max_io_size t ?dev then
          do { (_, m) \<leftarrow> ocf_volume_deinit w m1; Some (OCF_ERR_INVAL, c, m) }
        else do {
          (v, new_vol, m) \<leftarrow> ocf_volume_move (mb_volume (member c tgt)) w m1;
          (_, m) \<leftarrow> ocf_volume_deinit new_vol m;
          (ret, v) \<leftarrow> (if opened then ocf_volume_open v params else Some (OCF_OK, v));
          if ret \<noteq> OCF_OK then do { (v, m) \<leftarrow> ocf_volume_deinit v m; Some (ret, with_volume tgt v c, m) }
          else Some (OCF_OK, set_member tgt (\<lambda>mb. mb\<lparr>mb_volume := v, mb_detached := False, volume_params := params\<rparr>) c, m) })"
      using i tgt True f fresh_open [OF f(1,2,4), of params]
      by (simp add: composite_volume_attach_member_def ocf_volume_get_length_def ocf_volume_get_max_io_size_def
          ocf_volume_close_def w_def cong: if_cong)
    note at' = at [unfolded eq]
    show ?thesis
    proof (cases "ops_length t ?dev \<noteq> get_subvolume_length c tgt \<or> max_io_size c > ops_max_io_size t ?dev")
      case True
      then show ?thesis using at' by (intro same) (auto simp: bind_eq_Some_iff split: if_splits)
    next
      case False
      have len: "end_addr c tgt = begin_addr c tgt + ops_length t ?dev"
      proof -
        have b: "begin_addr c tgt \<le> end_addr c tgt" "end_addr c tgt < 2 ^ 64"
          using ok tgt(1) end_le_length [OF ok tgt(1)] by (auto simp: comp_ok_def)
        have "get_subvolume_length c tgt = end_addr c tgt - begin_addr c tgt"
          using b sub64_eq [of "begin_addr c tgt" "end_addr c tgt"] by (auto simp: get_subvolume_length_def begin_addr_def)
        then show ?thesis using False b by simp
      qed
      obtain x y z where mv: "ocf_volume_move (mb_volume (member c tgt)) w m1 = Some (x, y, z)"
        using at' False by (auto simp: bind_eq_Some_iff)
      have x: "x = w\<lparr>v_refcnt := v_refcnt (mb_volume (member c tgt))\<rparr>" by (rule move_fields [OF mv])
      obtain ret u where o: "(if opened then ocf_volume_open x params else Some (OCF_OK, x)) = Some (ret, u)"
        using at' False mv by (auto simp: bind_eq_Some_iff)
      have u: "u_dev (v_uuid u) = ?dev" "ret = OCF_OK \<Longrightarrow> v_opened u = opened"
        using o open_fields [of x params ret u] f(3) by (auto simp: x w_def split: if_splits)
      show ?thesis
      proof (cases "ret = OCF_OK")
        case True
        then have c': "c' = set_member tgt (\<lambda>mb. mb\<lparr>mb_volume := u, mb_detached := False, volume_params := params\<rparr>) c" "e = OCF_OK"
          using at' False mv o by (auto simp: bind_eq_Some_iff)
        then have "comp_ok c'" "place c' = place c" using ok comp_ok_space [of c' c] by simp_all
        then show ?thesis using c' tgt len u True False by (simp add: set_member_def)
      next
        case ret: False
        then obtain u' where c': "c' = with_volume tgt u' c" "e = ret"
          using at' False mv o by (auto simp: bind_eq_Some_iff)
        then have "comp_ok c'" "place c' = place c" using ok comp_ok_space [of c' c] by simp_all
        moreover have "opened" using o ret by (cases opened) auto
        ultimately show ?thesis using c' ret by (simp add: with_volume_def set_member_def)
      qed
    qed
  qed
qed

text \<open>
  Detaching a member fails with the error that says why, changing nothing, or closes and detaches exactly
  this member; requests that touch it then end with an error until a volume of the same length is attached.
\<close>

theorem composite_detach_member:
  assumes ok: "comp_ok c" and de: "composite_volume_detach_member c i = Some (e, c')"
  shows "(e = OCF_OK \<longleftrightarrow> i < members_cnt c \<and> \<not> mb_detached (member c i)) \<and>
    (if e = OCF_OK then comp_ok c' \<and> place c' = place c \<and> mb_detached (member c' i) \<and> \<not> m_open c' i \<and>
       (\<forall>j. j \<noteq> i \<longrightarrow> member c' j = member c j) \<and>
       (\<forall>addr bytes. addr < comp_length c \<and> addr + bytes \<le> comp_length c \<and> fst (place c addr) = i \<longrightarrow>
          ocf_composite_forward_io c' dir addr bytes off = Some [Fwd_end OCF_ERR_INVAL])
     else c' = c \<and> e \<in> {OCF_ERR_COMPOSITE_INVALID_ID, OCF_ERR_COMPOSITE_UNINITIALISED_VOLUME, OCF_ERR_COMPOSITE_DETACHED})"
proof -
  have m: "members_cnt c \<le> OCF_COMPOSITE_VOLUME_MEMBERS_MAX" "comp_length c < 2 ^ 64" using ok by (simp_all add: comp_ok_def)
  show ?thesis
  proof (cases "i < members_cnt c \<and> \<not> mb_detached (member c i)")
    case False
    then show ?thesis using de m by (auto simp: composite_volume_detach_member_def split: if_splits)
  next
    case True
    then obtain v where v: "ocf_volume_close (mb_volume (member c i)) = Some v"
        "c' = set_member i (\<lambda>mb. mb\<lparr>mb_volume := v, mb_detached := True, volume_params := 0\<rparr>) c" "e = OCF_OK"
      using de m by (auto simp: composite_volume_detach_member_def bind_eq_Some_iff split: if_splits)
    have o: "\<not> v_opened v" using v(1) by (auto simp: ocf_volume_close_def bind_eq_Some_iff split: if_splits)
    have sp: "members_cnt c' = members_cnt c" "end_addr c' = end_addr c" "comp_length c' = comp_length c" by (simp_all add: v(2))
    note P = comp_ok_space [OF sp]
    have "ocf_composite_forward_io c' dir addr bytes off = Some [Fwd_end OCF_ERR_INVAL]"
      if a: "addr < comp_length c" "addr + bytes \<le> comp_length c" "fst (place c addr) = i" for addr bytes
    proof -
      have "seek_member c' addr [0..<members_cnt c'] = i" using a(3) fun_cong [OF P(2), of addr] by (simp add: place_def Let_def)
      moreover have "add64 addr bytes = addr + bytes" using a m(2) by (intro add64_eq) simp
      ultimately show ?thesis using a o True sp
        by (simp add: ocf_composite_forward_io_def composite_forward_def Let_def v(2) set_member_def)
    qed
    then show ?thesis using True v P o ok by (auto simp: set_member_def)
  qed
qed

subsection \<open>A concrete composite volume\<close>

text \<open>Two members of 4096 and 8192 bytes; member 1 is detached in \<open>demo_comp False\<close>.\<close>

definition full_type :: volume_type where
  "full_type = demo_type\<lparr>forward_ops := \<lambda>_. True\<rparr>"

definition demo_member :: "nat \<Rightarrow> bool \<Rightarrow> composite_member" where
  "demo_member dev opened = \<lparr>mb_detached = \<not> opened, mb_volume = \<lparr>v_type = Some full_type,
     v_uuid = \<lparr>u_size = 4, u_data = None, u_dev = dev\<rparr>, v_opened = opened, uuid_copy = True, v_priv = None,
     v_refcnt = \<lparr>rc_counter = 0, rc_freeze = (if opened then 0 else 1), rc_callback = False, rc_cb = None, rc_priv = 0\<rparr>\<rparr>, volume_params = 0\<rparr>"

lemma demo_member_simps [simp]:
  "mb_detached (demo_member d b) = (\<not> b)" "v_opened (mb_volume (demo_member d b)) = b"
  "v_type (mb_volume (demo_member d b)) = Some full_type" "u_dev (v_uuid (mb_volume (demo_member d b))) = d"
  by (simp_all add: demo_member_def)

definition demo_comp :: "bool \<Rightarrow> ocf_composite_volume" where
  "demo_comp b = \<lparr>members_cnt = 2, member = (\<lambda>i. if i = 0 then demo_member 1 True else demo_member 2 b),
     end_addr = (\<lambda>i. if i = 0 then 4096 else 12288), comp_length = 12288, max_io_size = 512\<rparr>"

lemma demo_comp_ok: "comp_ok (demo_comp b)"
  by (auto simp: comp_ok_def demo_comp_def begin_addr_def OCF_COMPOSITE_VOLUME_MEMBERS_MAX_def less_2_cases_iff)

lemma demo_comp_simps [simp]:
  "comp_length (demo_comp b) = 12288" "members_cnt (demo_comp b) = 2" "max_io_size (demo_comp b) = 512"
  "end_addr (demo_comp b) i = (if i = 0 then 4096 else 12288)" "member (demo_comp b) i = (if i = 0 then demo_member 1 True else demo_member 2 b)"
  "begin_addr (demo_comp b) i = (if i = 0 then 0 else if i = 1 then 4096 else 12288)"
  by (simp_all add: demo_comp_def begin_addr_def)

lemma demo_seek: "seek_member (demo_comp b) x [0..<2] = (if x < 4096 then 0 else if x < 12288 then 1 else 2)"
  by (simp add: numeral_2_eq_2)

lemma demo_all_open: "\<forall>f. all_open f (demo_comp True)"
  by (auto simp: all_open_def full_type_def)

theorem composite_forward_tiles_witness:
  "\<exists>ps. tiles (demo_comp True) 4000 200 0 ps \<and>
     ocf_composite_forward_io (demo_comp True) 0 4000 200 0 = Some (map (\<lambda>(i, a, b, off). Fwd_io i 0 a b off) ps @ [Fwd_end OCF_OK])"
  using conjunct1 [OF composite_forward_tiles [OF demo_comp_ok demo_all_open, of 4000 200 0 0]] by simp

theorem composite_place_roundtrip_witness: "place (demo_comp True) 5000 = (1, 904)"
proof -
  have "ocf_composite_volume_get_subvolume_addr_range (demo_comp True) 1 = Inr (4096, 12288)"
    by (simp add: ocf_composite_volume_get_subvolume_addr_range_def)
  with conjunct2 [OF composite_place_roundtrip [OF demo_comp_ok [of True]]] have
    "\<forall>a. 4096 + a < 12288 \<longrightarrow> place (demo_comp True) (4096 + a) = (1, a)" by blast
  from spec [OF this, of 904] show ?thesis by simp
qed

lemma demo_add: "\<exists>c' m'. composite_volume_add (demo_comp True) (Some full_type) \<lparr>u_size = 4, u_data = None, u_dev = 3\<rparr> 0 (demo_mem []) =
  Some (OCF_OK, c', m')"
  by (simp add: composite_volume_add_def OCF_COMPOSITE_VOLUME_MEMBERS_MAX_def ocf_volume_init_def OCF_VOLUME_UUID_MAX_SIZE_def Let_def
      env_alloc_def demo_mem_def env_refcnt_init_def env_refcnt_freeze_def init_on_init_def full_type_def demo_type_def
      ocf_volume_open_def env_refcnt_unfreeze_def ocf_volume_get_length_def ocf_volume_get_max_io_size_def ocf_volume_close_def)

theorem composite_add_extends_witness:
  "\<exists>c' m'. composite_volume_add (demo_comp True) (Some full_type) \<lparr>u_size = 4, u_data = None, u_dev = 3\<rparr> 0 (demo_mem []) =
     Some (OCF_OK, c', m') \<and> comp_length c' = 24576 \<and> place c' 12289 = (2, 1)"
proof -
  obtain c' m' where a: "composite_volume_add (demo_comp True) (Some full_type) \<lparr>u_size = 4, u_data = None, u_dev = 3\<rparr> 0 (demo_mem []) =
      Some (OCF_OK, c', m')" using demo_add by blast
  have l: "ops_length full_type 3 = 12288" by (simp add: full_type_def demo_type_def)
  have "comp_length c' = 24576" "\<forall>a < 12288. place c' (12288 + a) = (2, a)"
    using composite_add_extends [OF demo_comp_ok _ a] l by simp_all
  moreover from spec [OF this(2), of 1] have "place c' 12289 = (2, 1)" by simp
  ultimately show ?thesis using a by blast
qed

lemma demo_attach: "\<exists>c' m'. composite_volume_attach_member True (demo_comp False) \<lparr>u_size = 4, u_data = None, u_dev = 2\<rparr> 1
  (Some full_type) 0 (demo_mem []) = Some (OCF_OK, c', m')"
  by (simp add: composite_volume_attach_member_def OCF_COMPOSITE_VOLUME_MEMBERS_MAX_def ocf_volume_init_def OCF_VOLUME_UUID_MAX_SIZE_def Let_def
      env_alloc_def demo_mem_def env_refcnt_init_def env_refcnt_freeze_def init_on_init_def full_type_def demo_type_def zero_volume_def
      ocf_volume_open_def env_refcnt_unfreeze_def ocf_volume_get_length_def ocf_volume_get_max_io_size_def ocf_volume_close_def
      get_subvolume_length_def sub64_def ocf_volume_move_def env_refcnt_zeroed_def env_free_def free_uuid_def ocf_volume_deinit_def
      demo_member_def)

theorem composite_attach_member_witness:
  "\<exists>c' m'. composite_volume_attach_member True (demo_comp False) \<lparr>u_size = 4, u_data = None, u_dev = 2\<rparr> 1
     (Some full_type) 0 (demo_mem []) = Some (OCF_OK, c', m') \<and> comp_ok c' \<and> m_open c' 1"
proof -
  obtain c' m' where a: "composite_volume_attach_member True (demo_comp False) \<lparr>u_size = 4, u_data = None, u_dev = 2\<rparr> 1
     (Some full_type) 0 (demo_mem []) = Some (OCF_OK, c', m')" using demo_attach by blast
  from composite_attach_member [OF demo_comp_ok a] show ?thesis using a by auto
qed

theorem composite_detach_member_witness:
  "\<exists>c'. composite_volume_detach_member (demo_comp True) 1 = Some (OCF_OK, c') \<and>
     ocf_composite_forward_io c' 0 5000 100 0 = Some [Fwd_end OCF_ERR_INVAL]"
proof -
  obtain c' where d: "composite_volume_detach_member (demo_comp True) 1 = Some (OCF_OK, c')"
    by (simp add: composite_volume_detach_member_def OCF_COMPOSITE_VOLUME_MEMBERS_MAX_def ocf_volume_close_def)
  have p: "fst (place (demo_comp True) 5000) = 1" by (simp add: place_def demo_seek)
  have "\<forall>addr bytes. addr < 12288 \<and> addr + bytes \<le> 12288 \<and> fst (place (demo_comp True) addr) = 1 \<longrightarrow>
      ocf_composite_forward_io c' 0 addr bytes 0 = Some [Fwd_end OCF_ERR_INVAL]"
    using composite_detach_member [OF demo_comp_ok d, of 0 0] by simp
  then have "ocf_composite_forward_io c' 0 5000 100 0 = Some [Fwd_end OCF_ERR_INVAL]" using p by simp
  with d show ?thesis by blast
qed

end
