(* ===== verification/Links.thy ===== *)
theory Links
  imports Prelude
begin

section \<open>Doubly linked lists in arrays\<close>

text \<open>
  The collision chains, the LRU lists and the other lists of the metadata are doubly linked lists
  whose links are array indices. \<open>lseg prv nxt p xs q\<close> says that the nodes \<open>xs\<close> are linked in
  this order, that the first one points back to \<open>p\<close> and the last one forward to \<open>q\<close>. The lemmas
  are the effect of the elementary link updates: they are shared by every list of the library.
\<close>

definition first :: "'a \<Rightarrow> 'a list \<Rightarrow> 'a" where
  "first d xs = (case xs of [] \<Rightarrow> d | x # _ \<Rightarrow> x)"

definition final :: "'a \<Rightarrow> 'a list \<Rightarrow> 'a" where
  "final d xs = (if xs = [] then d else last xs)"

lemma first_simps [simp]: "first d [] = d" "first d (x # xs) = x"
  by (simp_all add: first_def)

lemma final_simps [simp]: "final d [] = d" "final d (x # xs) = final x xs" "final d (xs @ [x]) = x"
  by (auto simp: final_def)

lemma first_append: "first d (xs @ ys) = first (first d ys) xs"
  by (cases xs) simp_all

lemma final_append [simp]: "final d (xs @ ys) = final (final d xs) ys"
  by (induction xs arbitrary: d) simp_all

lemma final_ne: "xs \<noteq> [] \<Longrightarrow> final d xs = last xs"
  by (simp add: final_def)

lemma first_ne: "xs \<noteq> [] \<Longrightarrow> first d xs = hd xs"
  by (cases xs) simp_all

lemma first_in: "xs \<noteq> [] \<Longrightarrow> first d xs \<in> set xs"
  by (cases xs) simp_all

lemma final_in: "xs \<noteq> [] \<Longrightarrow> final d xs \<in> set xs"
  by (simp add: final_def)

lemma first_eq_iff: "d \<notin> set xs \<Longrightarrow> first d xs = d \<longleftrightarrow> xs = []"
  by (cases xs) auto

lemma final_eq_iff: "d \<notin> set xs \<Longrightarrow> final d xs = d \<longleftrightarrow> xs = []"
  by (auto simp: final_def)

lemma remove1_split: "distinct (xs @ ys) \<Longrightarrow> remove1 c (xs @ ys) = remove1 c xs @ remove1 c ys"
proof -
  assume "distinct (xs @ ys)"
  then have "c \<in> set xs \<Longrightarrow> c \<notin> set ys" by auto
  then show ?thesis by (cases "c \<in> set xs") (simp_all add: remove1_append remove1_idem)
qed

fun lseg :: "('a \<Rightarrow> 'a) \<Rightarrow> ('a \<Rightarrow> 'a) \<Rightarrow> 'a \<Rightarrow> 'a list \<Rightarrow> 'a \<Rightarrow> bool" where
  "lseg prv nxt p [] q \<longleftrightarrow> True"
| "lseg prv nxt p (x # xs) q \<longleftrightarrow> prv x = p \<and> nxt x = first q xs \<and> lseg prv nxt x xs q"

lemma lseg_cong:
  "(\<And>x. x \<in> set xs \<Longrightarrow> prv x = prv' x \<and> nxt x = nxt' x) \<Longrightarrow>
   lseg prv nxt p xs q \<longleftrightarrow> lseg prv' nxt' p xs q"
  by (induction xs arbitrary: p) auto

lemma lseg_frame [simp]:
  "x \<notin> set xs \<Longrightarrow> lseg (prv(x := v)) nxt p xs q \<longleftrightarrow> lseg prv nxt p xs q"
  "x \<notin> set xs \<Longrightarrow> lseg prv (nxt(x := v)) p xs q \<longleftrightarrow> lseg prv nxt p xs q"
  by (auto intro!: lseg_cong)

lemma lseg_append:
  "lseg prv nxt p (xs @ ys) q \<longleftrightarrow> lseg prv nxt p xs (first q ys) \<and> lseg prv nxt (final p xs) ys q"
  by (induction xs arbitrary: p) (auto simp: first_append)

lemma lseg_split:
  "lseg prv nxt p (xs @ x # ys) q \<longleftrightarrow>
   lseg prv nxt p xs x \<and> prv x = final p xs \<and> nxt x = first q ys \<and> lseg prv nxt x ys q"
  by (simp add: lseg_append)

lemma lseg_set_first:
  "distinct xs \<Longrightarrow> xs \<noteq> [] \<Longrightarrow> lseg prv nxt p xs q \<Longrightarrow> lseg (prv(first d xs := r)) nxt r xs q"
  by (cases xs) auto

lemma lseg_set_last:
  "distinct xs \<Longrightarrow> xs \<noteq> [] \<Longrightarrow> lseg prv nxt p xs q \<Longrightarrow> lseg prv (nxt(final d xs := r)) p xs r"
proof (induction xs arbitrary: p d)
  case (Cons x xs)
  then show ?case
  proof (cases "xs = []")
    case False
    with Cons.prems have "final x xs \<noteq> x" using final_in [of xs x] by auto
    with False Cons show ?thesis by (auto simp: first_ne)
  qed simp
qed simp

text \<open>Insertion in front of a list and removal from any position.\<close>

lemma lseg_push:
  assumes "x \<notin> set xs" "distinct xs" "lseg prv nxt d xs e"
  shows "lseg ((if xs = [] then prv else prv(first c xs := x))(x := d)) (nxt(x := first e xs)) d (x # xs) e"
  using assms lseg_set_first [OF assms(2) _ assms(3), of c x] by auto

lemma lseg_unlink:
  assumes "distinct (as @ x # bs)" "lseg prv nxt d (as @ x # bs) e"
  shows "lseg (if bs = [] then prv else prv(first c bs := final d as))
    (if as = [] then nxt else nxt(final c' as := first e bs)) d (as @ bs) e"
proof -
  have as: "lseg prv nxt d as x" and bs: "lseg prv nxt x bs e" using assms(2) by (simp_all add: lseg_split)
  let ?nxt = "if as = [] then nxt else nxt(final c' as := first e bs)"
  let ?prv = "if bs = [] then prv else prv(first c bs := final d as)"
  have "lseg prv ?nxt d as (first e bs)"
    using lseg_set_last [OF _ _ as] assms(1) by auto
  moreover have "bs \<noteq> [] \<Longrightarrow> first c bs \<notin> set as" using first_in [of bs c] assms(1) by auto
  moreover have "lseg ?prv nxt (final d as) bs e"
    using lseg_set_first [OF _ _ bs] assms(1) by auto
  moreover have "as \<noteq> [] \<Longrightarrow> final c' as \<notin> set bs" using final_in [of as c'] assms(1) by auto
  ultimately show ?thesis by (auto simp: lseg_append)
qed

lemma lseg_prv_hd: "lseg prv nxt d xs e \<Longrightarrow> d \<notin> set xs \<Longrightarrow> distinct xs \<Longrightarrow> x \<in> set xs \<Longrightarrow>
  prv x = d \<longleftrightarrow> x = first d xs"
proof -
  assume l: "lseg prv nxt d xs e" and d: "d \<notin> set xs" "distinct xs" and "x \<in> set xs"
  then obtain as bs where xs: "xs = as @ x # bs" by (meson split_list)
  with l have "prv x = final d as" by (simp add: lseg_split)
  with xs d show ?thesis by (cases as) (auto simp: final_def)
qed

end
