(* ===== verification/Ocf_Lst.thy ===== *)
theory Ocf_Lst
  imports Links
begin

section \<open>Index lists (utils_list.c, utils_list.h)\<close>

text \<open>
  \<open>ocf_lst\<close> is a circular doubly linked list over an array of entries, with the entry \<open>invalid\<close> as
  its head. A getter gives access to the entries (here \<open>lst_getter\<close>, which stops the process
  outside of the indices it accepts), and \<open>ocf_lst_sort\<close> sorts the list by insertion with a
  comparator that may change the state. An entry that is on no list has \<open>invalid + 1\<close> in both links.
  The lemmas give the effect of every operation on the list of indices, and of sorting for every
  comparator that is an order.
\<close>

record ocf_lst_entry =
  e_next :: nat
  e_prev :: nat

record ocf_lst =
  lst_entries :: "nat \<Rightarrow> ocf_lst_entry"
  lst_getter_ok :: "nat \<Rightarrow> bool"
  lst_invalid :: nat

definition lst_getter :: "'z ocf_lst_scheme \<Rightarrow> nat \<Rightarrow> ocf_lst_entry option" where
  "lst_getter s idx = do { bug_on (\<not> lst_getter_ok s idx); Some (lst_entries s idx) }"

definition upd_entry :: "nat \<Rightarrow> (ocf_lst_entry \<Rightarrow> ocf_lst_entry) \<Rightarrow> 'z ocf_lst_scheme \<Rightarrow> 'z ocf_lst_scheme" where
  "upd_entry idx f s = s\<lparr>lst_entries := (lst_entries s)(idx := f (lst_entries s idx))\<rparr>"

definition OCF_LST_ENTRY_OUT :: "'z ocf_lst_scheme \<Rightarrow> nat" where
  "OCF_LST_ENTRY_OUT s = lst_invalid s + 1"

definition ocf_lst_init_entry :: "nat \<Rightarrow> 'z ocf_lst_scheme \<Rightarrow> 'z ocf_lst_scheme" where
  "ocf_lst_init_entry idx s =
     upd_entry idx (\<lambda>e. e\<lparr>e_next := OCF_LST_ENTRY_OUT s, e_prev := OCF_LST_ENTRY_OUT s\<rparr>) s"

text \<open>The answer is only logged by the callers, but an entry that is half on a list stops the process.\<close>

definition ocf_lst_is_entry :: "'z ocf_lst_scheme \<Rightarrow> nat \<Rightarrow> bool option" where
  "ocf_lst_is_entry s idx =
     (let e = lst_entries s idx; out = OCF_LST_ENTRY_OUT s in
      if e_next e = out \<and> e_prev e = out then Some False
      else if e_next e < out \<and> e_prev e < out then Some True
      else None)"

fun lst_init_entries :: "nat list \<Rightarrow> 'z ocf_lst_scheme \<Rightarrow> 'z ocf_lst_scheme option" where
  "lst_init_entries [] s = Some s"
| "lst_init_entries (idx # is) s = do {
     lst_getter s idx;
     lst_init_entries is (ocf_lst_init_entry idx s) }"

definition ocf_lst_init :: "nat \<Rightarrow> (nat \<Rightarrow> bool) \<Rightarrow> 'z ocf_lst_scheme \<Rightarrow> 'z ocf_lst_scheme option" where
  "ocf_lst_init invalid getter_ok s = do {
     let s = s\<lparr>lst_getter_ok := getter_ok\<rparr>;
     lst_getter s invalid;
     let s = upd_entry invalid (\<lambda>e. e\<lparr>e_next := invalid\<rparr>) s;
     let s = upd_entry invalid (\<lambda>e. e\<lparr>e_prev := invalid\<rparr>) s;
     let s = s\<lparr>lst_invalid := invalid\<rparr>;
     lst_init_entries [0..<invalid] s }"

definition ocf_lst_add_after :: "'z ocf_lst_scheme \<Rightarrow> nat \<Rightarrow> nat \<Rightarrow> 'z ocf_lst_scheme option" where
  "ocf_lst_add_after s at idx = do {
     after \<leftarrow> lst_getter s at;
     let nxt = e_next after;
     lst_getter s nxt;
     lst_getter s idx;
     ocf_lst_is_entry s idx;
     ocf_lst_is_entry s at;
     ocf_lst_is_entry s nxt;
     let s = upd_entry idx (\<lambda>e. e\<lparr>e_next := e_next (lst_entries s at)\<rparr>) s;
     let s = upd_entry idx (\<lambda>e. e\<lparr>e_prev := at\<rparr>) s;
     let s = upd_entry at (\<lambda>e. e\<lparr>e_next := idx\<rparr>) s;
     Some (upd_entry nxt (\<lambda>e. e\<lparr>e_prev := idx\<rparr>) s) }"

definition ocf_lst_add_before :: "'z ocf_lst_scheme \<Rightarrow> nat \<Rightarrow> nat \<Rightarrow> 'z ocf_lst_scheme option" where
  "ocf_lst_add_before s at idx = do {
     before \<leftarrow> lst_getter s at;
     let prv = e_prev before;
     lst_getter s prv;
     lst_getter s idx;
     ocf_lst_is_entry s idx;
     ocf_lst_is_entry s at;
     ocf_lst_is_entry s prv;
     let s = upd_entry idx (\<lambda>e. e\<lparr>e_next := at\<rparr>) s;
     let s = upd_entry idx (\<lambda>e. e\<lparr>e_prev := e_prev (lst_entries s at)\<rparr>) s;
     let s = upd_entry at (\<lambda>e. e\<lparr>e_prev := idx\<rparr>) s;
     Some (upd_entry prv (\<lambda>e. e\<lparr>e_next := idx\<rparr>) s) }"

definition ocf_lst_head :: "'z ocf_lst_scheme \<Rightarrow> nat" where
  "ocf_lst_head s = e_next (lst_entries s (lst_invalid s))"

definition ocf_lst_tail :: "'z ocf_lst_scheme \<Rightarrow> nat" where
  "ocf_lst_tail s = e_prev (lst_entries s (lst_invalid s))"

definition ocf_lst_empty :: "'z ocf_lst_scheme \<Rightarrow> bool" where
  "ocf_lst_empty s = (if e_next (lst_entries s (lst_invalid s)) = lst_invalid s then True else False)"

definition ocf_lst_add :: "'z ocf_lst_scheme \<Rightarrow> nat \<Rightarrow> 'z ocf_lst_scheme option" where
  "ocf_lst_add s idx = do {
     lst_getter s idx;
     let nxt = e_next (lst_entries s (lst_invalid s));
     lst_getter s nxt;
     ocf_lst_is_entry s idx;
     ocf_lst_is_entry s nxt;
     let s = upd_entry idx (\<lambda>e. e\<lparr>e_next := e_next (lst_entries s (lst_invalid s))\<rparr>) s;
     let s = upd_entry nxt (\<lambda>e. e\<lparr>e_prev := idx\<rparr>) s;
     let s = upd_entry (lst_invalid s) (\<lambda>e. e\<lparr>e_next := idx\<rparr>) s;
     Some (upd_entry idx (\<lambda>e. e\<lparr>e_prev := lst_invalid s\<rparr>) s) }"

definition ocf_lst_add_tail :: "'z ocf_lst_scheme \<Rightarrow> nat \<Rightarrow> 'z ocf_lst_scheme option" where
  "ocf_lst_add_tail s idx = do {
     lst_getter s idx;
     let prv = e_prev (lst_entries s (lst_invalid s));
     lst_getter s prv;
     ocf_lst_is_entry s idx;
     ocf_lst_is_entry s prv;
     let s = upd_entry idx (\<lambda>e. e\<lparr>e_next := lst_invalid s\<rparr>) s;
     let s = upd_entry idx (\<lambda>e. e\<lparr>e_prev := e_prev (lst_entries s (lst_invalid s))\<rparr>) s;
     let s = upd_entry prv (\<lambda>e. e\<lparr>e_next := idx\<rparr>) s;
     Some (upd_entry (lst_invalid s) (\<lambda>e. e\<lparr>e_prev := idx\<rparr>) s) }"

definition ocf_lst_del :: "'z ocf_lst_scheme \<Rightarrow> nat \<Rightarrow> 'z ocf_lst_scheme option" where
  "ocf_lst_del s idx = do {
     this_entry \<leftarrow> lst_getter s idx;
     let nxt = e_next this_entry;
     lst_getter s nxt;
     let prv = e_prev this_entry;
     lst_getter s prv;
     ocf_lst_is_entry s idx;
     ocf_lst_is_entry s nxt;
     ocf_lst_is_entry s prv;
     let s = upd_entry prv (\<lambda>e. e\<lparr>e_next := e_next (lst_entries s idx)\<rparr>) s;
     let s = upd_entry nxt (\<lambda>e. e\<lparr>e_prev := e_prev (lst_entries s idx)\<rparr>) s;
     Some (ocf_lst_init_entry idx s) }"

text \<open>
  The loop \<open>for_each_lst\<close>: the body may change the state and the local variables \<open>a\<close> of the loop, and
  break; the result is the index at the end of the loop, \<open>invalid\<close> when the loop ran through the list. A list has at most \<open>invalid\<close>
  entries, so \<open>invalid + 1\<close> tests of the loop condition are enough on a well-formed list.
\<close>

fun for_each_lst :: "nat \<Rightarrow> (nat \<Rightarrow> 'z ocf_lst_scheme \<Rightarrow> 'a \<Rightarrow> (bool \<times> 'z ocf_lst_scheme \<times> 'a) option) \<Rightarrow> nat \<Rightarrow>
    'z ocf_lst_scheme \<Rightarrow> 'a \<Rightarrow> (nat \<times> 'z ocf_lst_scheme \<times> 'a) option" where
  "for_each_lst 0 body idx s a = None"
| "for_each_lst (Suc n) body idx s a = do {
     lst_getter s idx;
     if idx = lst_invalid s then Some (idx, s, a)
     else do {
       (brk, s, a) \<leftarrow> body idx s a;
       if brk then Some (idx, s, a) else for_each_lst n body (e_next (lst_entries s idx)) s a } }"

type_synonym 'z lst_cmp = "'z ocf_lst_scheme \<Rightarrow> nat \<Rightarrow> nat \<Rightarrow> int \<times> 'z ocf_lst_scheme"

definition sort_find :: "'z lst_cmp \<Rightarrow> nat \<Rightarrow> 'z ocf_lst_scheme \<Rightarrow> (nat \<times> 'z ocf_lst_scheme) option" where
  "sort_find cmp iter s = do {
     (pos, s, _) \<leftarrow> for_each_lst (lst_invalid s + 1)
        (\<lambda>pos s a. let (r, s) = cmp s pos iter in Some (0 < r, s, a)) (ocf_lst_head s) s ();
     Some (pos, s) }"

fun sort_loop :: "nat \<Rightarrow> 'z lst_cmp \<Rightarrow> nat \<Rightarrow> nat \<Rightarrow> 'z ocf_lst_scheme \<Rightarrow> 'z ocf_lst_scheme option" where
  "sort_loop 0 cmp iter_idx next_idx s = None"
| "sort_loop (Suc n) cmp iter_idx next_idx s =
     (if iter_idx = lst_invalid s then Some s
      else do {
        let s = ocf_lst_init_entry iter_idx s;
        s \<leftarrow> (if ocf_lst_empty s then ocf_lst_add s iter_idx
             else do {
               (pos_idx, s) \<leftarrow> sort_find cmp iter_idx s;
               if lst_invalid s = pos_idx then ocf_lst_add_tail s iter_idx
               else ocf_lst_add_before s pos_idx iter_idx });
        let iter_idx = next_idx;
        iter \<leftarrow> lst_getter s iter_idx;
        sort_loop n cmp iter_idx (e_next iter) s })"

definition ocf_lst_sort :: "'z lst_cmp option \<Rightarrow> 'z ocf_lst_scheme \<Rightarrow> 'z ocf_lst_scheme option" where
  "ocf_lst_sort lst_cmp s = (case lst_cmp of None \<Rightarrow> Some s | Some cmp \<Rightarrow>
     if ocf_lst_empty s then Some s
     else do {
       let iter_idx = e_next (lst_entries s (lst_invalid s));
       iter \<leftarrow> lst_getter s iter_idx;
       let next_idx = e_next iter;
       lst_getter s next_idx;
       let s = upd_entry (lst_invalid s) (\<lambda>e. e\<lparr>e_next := lst_invalid s\<rparr>) s;
       let s = upd_entry (lst_invalid s) (\<lambda>e. e\<lparr>e_prev := lst_invalid s\<rparr>) s;
       sort_loop (lst_invalid s + 1) cmp iter_idx next_idx s })"


subsection \<open>The list of indices\<close>

abbreviation lnxt :: "'z ocf_lst_scheme \<Rightarrow> nat \<Rightarrow> nat" where
  "lnxt s \<equiv> \<lambda>i. e_next (lst_entries s i)"

abbreviation lprv :: "'z ocf_lst_scheme \<Rightarrow> nat \<Rightarrow> nat" where
  "lprv s \<equiv> \<lambda>i. e_prev (lst_entries s i)"

definition lst_links :: "'z ocf_lst_scheme \<Rightarrow> nat list \<Rightarrow> bool" where
  "lst_links s xs \<longleftrightarrow> distinct xs \<and> (\<forall>x \<in> set xs. x < lst_invalid s) \<and> (\<forall>i \<le> lst_invalid s. lst_getter_ok s i) \<and>
     lseg (lprv s) (lnxt s) (lst_invalid s) xs (lst_invalid s) \<and>
     lnxt s (lst_invalid s) = first (lst_invalid s) xs \<and> lprv s (lst_invalid s) = final (lst_invalid s) xs"

definition off_list :: "'z ocf_lst_scheme \<Rightarrow> nat \<Rightarrow> bool" where
  "off_list s i \<longleftrightarrow> lnxt s i = OCF_LST_ENTRY_OUT s \<and> lprv s i = OCF_LST_ENTRY_OUT s"

definition lst_rep :: "'z ocf_lst_scheme \<Rightarrow> nat list \<Rightarrow> bool" where
  "lst_rep s xs \<longleftrightarrow> lst_links s xs \<and> (\<forall>i < lst_invalid s. i \<notin> set xs \<longrightarrow> off_list s i)"

lemma upd_entry_simps [simp]:
  "lst_entries (upd_entry i f s) j = (if j = i then f (lst_entries s i) else lst_entries s j)"
  "lst_invalid (upd_entry i f s) = lst_invalid s" "lst_getter_ok (upd_entry i f s) = lst_getter_ok s"
  by (simp_all add: upd_entry_def)

text \<open>The effect of every insertion: \<open>x\<close> is linked between the lists \<open>as\<close> and \<open>bs\<close>.\<close>

definition linked :: "nat \<Rightarrow> nat list \<Rightarrow> nat list \<Rightarrow> 'z ocf_lst_scheme \<Rightarrow> 'z ocf_lst_scheme" where
  "linked x as bs s =
     upd_entry (first (lst_invalid s) bs) (\<lambda>e. e\<lparr>e_prev := x\<rparr>)
      (upd_entry (final (lst_invalid s) as) (\<lambda>e. e\<lparr>e_next := x\<rparr>)
        (upd_entry x (\<lambda>e. e\<lparr>e_next := first (lst_invalid s) bs, e_prev := final (lst_invalid s) as\<rparr>) s))"

lemma linked_fields [simp]:
  "lst_invalid (linked x as bs s) = lst_invalid s" "lst_getter_ok (linked x as bs s) = lst_getter_ok s"
  by (simp_all add: linked_def)

lemma lst_linksD:
  assumes "lst_links s (as @ bs)"
  shows "final (lst_invalid s) as \<le> lst_invalid s" "first (lst_invalid s) bs \<le> lst_invalid s"
    "lst_invalid s \<notin> set as" "lst_invalid s \<notin> set bs" "distinct (as @ bs)"
    "\<And>i. i \<le> lst_invalid s \<Longrightarrow> lst_getter s i = Some (lst_entries s i)"
    "lnxt s (final (lst_invalid s) as) = first (lst_invalid s) bs"
    "lprv s (first (lst_invalid s) bs) = final (lst_invalid s) as"
proof -
  let ?v = "lst_invalid s"
  have all: "\<forall>x \<in> set (as @ bs). x < ?v" and d: "distinct (as @ bs)"
    and l: "lseg (lprv s) (lnxt s) ?v (as @ bs) ?v" "lnxt s ?v = first ?v (as @ bs)" "lprv s ?v = final ?v (as @ bs)"
    using assms by (auto simp: lst_links_def)
  show "final ?v as \<le> ?v" using all final_in [of as ?v] by (cases "as = []") (simp_all add: less_imp_le)
  show "first ?v bs \<le> ?v" using all first_in [of bs ?v] by (cases "bs = []") (simp_all add: less_imp_le)
  show "?v \<notin> set as" "?v \<notin> set bs" "distinct (as @ bs)" using all d by auto
  show "\<And>i. i \<le> ?v \<Longrightarrow> lst_getter s i = Some (lst_entries s i)"
    using assms by (simp add: lst_links_def lst_getter_def)
  show "lnxt s (final ?v as) = first ?v bs"
    using l by (cases as rule: rev_cases) (auto simp: lseg_append first_append)
  show "lprv s (first ?v bs) = final ?v as"
    using l by (cases bs) (auto simp: lseg_append)
qed

lemma linked_links:
  assumes l: "lst_links s (as @ bs)" and x: "x < lst_invalid s" "x \<notin> set (as @ bs)"
  shows "lst_links (linked x as bs s) (as @ x # bs)"
    "\<And>i. i \<notin> set (as @ x # bs) \<Longrightarrow> i \<noteq> lst_invalid s \<Longrightarrow> lst_entries (linked x as bs s) i = lst_entries s i"
proof -
  let ?v = "lst_invalid s" and ?s = "linked x as bs s"
  note D = lst_linksD [OF l]
  have s: "lseg (lprv s) (lnxt s) ?v as (first ?v bs)" "lseg (lprv s) (lnxt s) (final ?v as) bs ?v"
    using l by (auto simp: lst_links_def lseg_append)
  have a: "as \<noteq> [] \<Longrightarrow> final ?v as \<notin> set bs" "as \<noteq> [] \<Longrightarrow> final ?v as \<in> set as" "final ?v as \<noteq> x"
    using final_in [of as ?v] D x by (cases "as = []"; auto)+
  have b: "bs \<noteq> [] \<Longrightarrow> first ?v bs \<notin> set as" "bs \<noteq> [] \<Longrightarrow> first ?v bs \<in> set bs" "first ?v bs \<noteq> x"
    using first_in [of bs ?v] D x by (cases bs; auto)+
  have nx: "lnxt ?s = (lnxt s)(final ?v as := x, x := first ?v bs)"
    and pv: "lprv ?s = (lprv s)(first ?v bs := x, x := final ?v as)"
    using a(3) b(3) by (auto simp: linked_def fun_eq_iff)
  have nxi: "lnxt ?s i = (if i = x then first ?v bs else if i = final ?v as then x else lnxt s i)"
    and pvi: "lprv ?s i = (if i = x then final ?v as else if i = first ?v bs then x else lprv s i)" for i
    using fun_cong [OF nx, of i] fun_cong [OF pv, of i] by simp_all
  have "lseg (lprv ?s) (lnxt ?s) ?v as x"
  proof (cases "as = []")
    case False
    have "lseg (lprv s) ((lnxt s)(final ?v as := x)) ?v as x"
      using lseg_set_last [OF _ False s(1)] D by auto
    moreover have "first ?v bs \<notin> set as" using b(1) D(3) by (cases "bs = []") auto
    ultimately show ?thesis using x a(3) unfolding nx pv by simp
  qed simp
  moreover have "lseg (lprv ?s) (lnxt ?s) x bs ?v"
  proof (cases "bs = []")
    case False
    have "lseg ((lprv s)(first ?v bs := x)) (lnxt s) x bs ?v"
      using lseg_set_first [OF _ False s(2)] D by auto
    moreover have "final ?v as \<notin> set bs" using a(1) D(4) by (cases "as = []") auto
    ultimately show ?thesis using x b(3) unfolding nx pv by simp
  qed simp
  moreover have "lprv ?s x = final ?v as" "lnxt ?s x = first ?v bs"
    by (simp_all add: nxi pvi)
  moreover have "lnxt ?s ?v = first ?v (as @ x # bs)"
    using l x(1) a D(3) unfolding nxi by (cases "as = []") (auto simp: lst_links_def first_ne)
  moreover have "lprv ?s ?v = final ?v (as @ x # bs)"
    using l x(1) b D(4) unfolding pvi by (cases "bs = []") (auto simp: lst_links_def final_ne)
  ultimately show "lst_links ?s (as @ x # bs)"
    using l x by (auto simp: lst_links_def lseg_append)
  fix i
  assume "i \<notin> set (as @ x # bs)" "i \<noteq> ?v"
  then show "lst_entries ?s i = lst_entries s i" using a b
    by (cases "as = []"; cases "bs = []") (auto simp: linked_def)
qed

lemma is_entry_off: "off_list s i \<Longrightarrow> ocf_lst_is_entry s i = Some False"
  by (simp add: off_list_def ocf_lst_is_entry_def)

lemma is_entry_on:
  assumes "lst_links s xs" "i \<in> set xs \<or> i = lst_invalid s"
  shows "ocf_lst_is_entry s i = Some True"
proof -
  have "lnxt s i \<le> lst_invalid s \<and> lprv s i \<le> lst_invalid s"
  proof (cases "i = lst_invalid s")
    case True
    show ?thesis using True lst_linksD [of s xs "[]"] lst_linksD [of s "[]" xs] assms(1)
      by (auto simp: lst_links_def)
  next
    case False
    with assms(2) obtain as bs where xs: "xs = as @ i # bs" by (meson split_list)
    then show ?thesis using lst_linksD(7) [of s "as @ [i]" bs] lst_linksD(8) [of s as "i # bs"]
        lst_linksD(1) [of s as "i # bs"] lst_linksD(2) [of s "as @ [i]" bs] assms(1) by simp
  qed
  then show ?thesis by (simp add: ocf_lst_is_entry_def OCF_LST_ENTRY_OUT_def Let_def)
qed


text \<open>Every insertion is such a link.\<close>

lemma lst_eqI: "lst_entries a = lst_entries b \<Longrightarrow> a\<lparr>lst_entries := e\<rparr> = b\<lparr>lst_entries := e\<rparr> \<Longrightarrow> a = b"
  by (cases a; cases b) simp

lemma upd_entry_base [simp]: "(upd_entry a f s)\<lparr>lst_entries := e\<rparr> = s\<lparr>lst_entries := e\<rparr>"
  by (simp add: upd_entry_def)

lemma upd_entry_eqI:
  "(\<And>i. lst_entries (upd_entry a f s) i = lst_entries (upd_entry b g t) i) \<Longrightarrow>
   s\<lparr>lst_entries := undefined\<rparr> = t\<lparr>lst_entries := undefined\<rparr> \<Longrightarrow> upd_entry a f s = upd_entry b g t"
  by (rule lst_eqI [where e = undefined]) (simp_all add: fun_eq_iff)

lemma lst_insertions:
  assumes x: "x < lst_invalid s" "x \<notin> set (as @ bs)" "off_list s x" and l: "lst_links s (as @ bs)"
  shows "as = [] \<Longrightarrow> ocf_lst_add s x = Some (linked x as bs s)"
    "bs = [] \<Longrightarrow> ocf_lst_add_tail s x = Some (linked x as bs s)"
    "bs = at # bs' \<Longrightarrow> ocf_lst_add_before s at x = Some (linked x as bs s)"
    "as = as' @ [at] \<Longrightarrow> ocf_lst_add_after s at x = Some (linked x as bs s)"
proof -
  let ?v = "lst_invalid s"
  note D = lst_linksD [OF l] and on = is_entry_on [OF l] and off = is_entry_off [OF x(3)]
  have ne: "x \<noteq> ?v" "final ?v as \<noteq> x" "first ?v bs \<noteq> x" using x D final_in [of as ?v] first_in [of bs ?v]
    by (cases "as = []"; cases "bs = []"; auto)+
  have ends: "final ?v as \<in> set (as @ bs) \<or> final ?v as = ?v" "first ?v bs \<in> set (as @ bs) \<or> first ?v bs = ?v"
    using final_in [of as ?v] first_in [of bs ?v] by (cases "as = []"; cases "bs = []"; auto)+
  note ie = on [OF ends(1)] on [OF ends(2)] on [of ?v, OF disjI2 [OF refl]] off
  have g: "lst_getter s x = Some (lst_entries s x)" "lst_getter s ?v = Some (lst_entries s ?v)"
    "lst_getter s (first ?v bs) = Some (lst_entries s (first ?v bs))"
    "lst_getter s (final ?v as) = Some (lst_entries s (final ?v as))" using D(1,2,6) x(1) by simp_all
  show "ocf_lst_add s x = Some (linked x as bs s)" if "as = []"
    using that D(7,8) ie g ne
    by (simp add: ocf_lst_add_def linked_def Let_def) (rule upd_entry_eqI; simp)
  show "ocf_lst_add_tail s x = Some (linked x as bs s)" if "bs = []"
    using that D(7,8) ie g ne
    by (simp add: ocf_lst_add_tail_def linked_def Let_def) (rule upd_entry_eqI; simp)
  show "ocf_lst_add_before s at x = Some (linked x as bs s)" if "bs = at # bs'"
    using that D(7,8) ie g ne
    by (simp add: ocf_lst_add_before_def linked_def Let_def) (rule upd_entry_eqI; simp)
  show "ocf_lst_add_after s at x = Some (linked x as bs s)" if "as = as' @ [at]"
    using that D(7,8) ie g ne
    by (simp add: ocf_lst_add_after_def linked_def Let_def) (rule upd_entry_eqI; simp)
qed

lemma linked_rep:
  assumes "lst_rep s (as @ bs)" "x < lst_invalid s" "x \<notin> set (as @ bs)"
  shows "lst_rep (linked x as bs s) (as @ x # bs)"
  using linked_links [OF _ assms(2,3)] assms(1)
  by (auto simp: lst_rep_def off_list_def OCF_LST_ENTRY_OUT_def)

lemma lst_repD:
  assumes "lst_rep s xs"
  shows "lst_links s xs" "i < lst_invalid s \<Longrightarrow> i \<notin> set xs \<Longrightarrow> off_list s i"
  using assms by (simp_all add: lst_rep_def)

definition unlinked :: "nat \<Rightarrow> nat list \<Rightarrow> nat list \<Rightarrow> 'z ocf_lst_scheme \<Rightarrow> 'z ocf_lst_scheme" where
  "unlinked x as bs s = ocf_lst_init_entry x
     (upd_entry (first (lst_invalid s) bs) (\<lambda>e. e\<lparr>e_prev := final (lst_invalid s) as\<rparr>)
      (upd_entry (final (lst_invalid s) as) (\<lambda>e. e\<lparr>e_next := first (lst_invalid s) bs\<rparr>) s))"

lemma init_entry_simps [simp]:
  "lst_entries (ocf_lst_init_entry i s) j = (if j = i
     then (lst_entries s i)\<lparr>e_next := OCF_LST_ENTRY_OUT s, e_prev := OCF_LST_ENTRY_OUT s\<rparr> else lst_entries s j)"
  "lst_invalid (ocf_lst_init_entry i s) = lst_invalid s" "lst_getter_ok (ocf_lst_init_entry i s) = lst_getter_ok s"
  by (simp_all add: ocf_lst_init_entry_def)

lemma lst_del_eq:
  assumes l: "lst_links s (as @ x # bs)"
  shows "ocf_lst_del s x = Some (unlinked x as bs s)"
proof -
  let ?v = "lst_invalid s"
  note D = lst_linksD [OF l] and D' = lst_linksD [of s "as @ [x]" bs] and on = is_entry_on [OF l]
  have nx: "lnxt s x = first ?v bs" and pv: "lprv s x = final ?v as" using D(8) D'(7) l by simp_all
  have b: "x \<le> ?v" "x \<noteq> ?v" "first ?v bs \<le> ?v" "x \<noteq> final ?v as" "x \<noteq> first ?v bs"
    using D D'(2) l final_in [of as ?v] first_in [of bs ?v] by (cases "as = []"; cases "bs = []"; auto)+
  have ends: "ocf_lst_is_entry s (final ?v as) = Some True" "ocf_lst_is_entry s (first ?v bs) = Some True"
    "ocf_lst_is_entry s x = Some True"
    using final_in [of as ?v] first_in [of bs ?v]
    by (cases "as = []"; cases "bs = []"; intro on; auto)+
  show ?thesis
    using ends D(1,6) b nx pv by (simp add: ocf_lst_del_def unlinked_def Let_def)
qed

lemma unlinked_rep:
  assumes r: "lst_rep s (as @ x # bs)"
  shows "lst_rep (unlinked x as bs s) (as @ bs)"
proof -
  let ?v = "lst_invalid s" and ?s = "unlinked x as bs s"
  have l: "lst_links s (as @ x # bs)" and off: "\<And>i. i < ?v \<Longrightarrow> i \<notin> set (as @ x # bs) \<Longrightarrow> off_list s i"
    using lst_repD [OF r] by auto
  note D = lst_linksD [OF l]
  have s: "lseg (lprv s) (lnxt s) ?v as x" "lseg (lprv s) (lnxt s) x bs ?v"
    using l by (auto simp: lst_links_def lseg_split)
  have ne: "as \<noteq> [] \<Longrightarrow> final ?v as \<in> set as" "bs \<noteq> [] \<Longrightarrow> first ?v bs \<in> set bs"
    "x \<noteq> final ?v as" "x \<noteq> first ?v bs" "x \<noteq> ?v"
    using D final_in [of as ?v] first_in [of bs ?v] by (cases "as = []"; cases "bs = []"; auto)+
  have nx: "lnxt ?s i = (if i = x then OCF_LST_ENTRY_OUT s else if i = final ?v as then first ?v bs else lnxt s i)"
    and pv: "lprv ?s i = (if i = x then OCF_LST_ENTRY_OUT s else if i = first ?v bs then final ?v as else lprv s i)" for i
    using ne(3,4) by (simp_all add: unlinked_def OCF_LST_ENTRY_OUT_def)
  have v: "lst_invalid ?s = ?v" "lst_getter_ok ?s = lst_getter_ok s" by (simp_all add: unlinked_def)
  have xs: "x \<notin> set as" "x \<notin> set bs" "first ?v bs \<notin> set as" "final ?v as \<notin> set bs"
    using D ne by (cases "as = []"; cases "bs = []"; auto)+
  have "lseg (lprv ?s) (lnxt ?s) ?v as (first ?v bs)"
  proof (cases "as = []")
    case False
    have "lseg (lprv s) ((lnxt s)(final ?v as := first ?v bs)) ?v as (first ?v bs)"
      using lseg_set_last [OF _ False s(1)] D by auto
    then show ?thesis by (rule iffD1 [OF lseg_cong, rotated]) (use xs in \<open>auto simp: nx pv\<close>)
  qed simp
  moreover have "lseg (lprv ?s) (lnxt ?s) (final ?v as) bs ?v"
  proof (cases "bs = []")
    case False
    have "lseg ((lprv s)(first ?v bs := final ?v as)) (lnxt s) (final ?v as) bs ?v"
      using lseg_set_first [OF _ False s(2)] D by auto
    then show ?thesis by (rule iffD1 [OF lseg_cong, rotated]) (use xs in \<open>auto simp: nx pv\<close>)
  qed simp
  moreover have "lnxt ?s ?v = first ?v (as @ bs)"
    using l ne D(3) unfolding nx by (cases "as = []") (auto simp: lst_links_def first_ne)
  moreover have "lprv ?s ?v = final ?v (as @ bs)"
    using l ne D(4) unfolding pv by (cases "bs = []") (auto simp: lst_links_def final_ne)
  ultimately have "lst_links ?s (as @ bs)"
    using l unfolding lst_links_def v by (auto simp: lseg_append)
  moreover have "off_list ?s i" if "i < ?v" "i \<notin> set (as @ bs)" for i
    using off [of i] that ne unfolding off_list_def nx pv OCF_LST_ENTRY_OUT_def v
    by (cases "as = []"; cases "bs = []") auto
  ultimately show ?thesis by (simp add: lst_rep_def v)
qed

lemma init_entries_spec:
  "distinct is \<Longrightarrow> (\<forall>i \<in> set is. lst_getter_ok s i) \<Longrightarrow>
   \<exists>s'. lst_init_entries is s = Some s' \<and> lst_invalid s' = lst_invalid s \<and> lst_getter_ok s' = lst_getter_ok s \<and>
     (\<forall>i. if i \<in> set is then off_list s' i else lst_entries s' i = lst_entries s i)"
proof (induction "is" arbitrary: s)
  case (Cons i "is")
  obtain s' where s': "lst_init_entries is (ocf_lst_init_entry i s) = Some s'" "lst_invalid s' = lst_invalid s"
    "lst_getter_ok s' = lst_getter_ok s"
    "\<And>j. if j \<in> set is then off_list s' j else lst_entries s' j = lst_entries (ocf_lst_init_entry i s) j"
    using Cons.IH [of "ocf_lst_init_entry i s"] Cons.prems by auto
  have "off_list s' i" using s'(4) [of i] Cons.prems s'(2) by (simp add: off_list_def OCF_LST_ENTRY_OUT_def)
  moreover have "j \<notin> set (i # is) \<Longrightarrow> lst_entries s' j = lst_entries s j" for j using s'(4) [of j] by simp
  moreover have "j \<in> set is \<Longrightarrow> off_list s' j" for j using s'(4) [of j] by simp
  ultimately show ?case using s'(1-3) Cons.prems by (auto simp: lst_getter_def)
qed simp

lemma lst_init_rep:
  assumes "\<forall>i \<le> v. ok i"
  obtains s' where "ocf_lst_init v ok s = Some s'" "lst_rep s' []" "lst_invalid s' = v"
proof -
  let ?s = "upd_entry v (\<lambda>e. e\<lparr>e_prev := v\<rparr>) (upd_entry v (\<lambda>e. e\<lparr>e_next := v\<rparr>) (s\<lparr>lst_getter_ok := ok\<rparr>))\<lparr>lst_invalid := v\<rparr>"
  obtain s' where s': "lst_init_entries [0..<v] ?s = Some s'" "lst_invalid s' = v" "lst_getter_ok s' = ok"
    "\<forall>i. if i \<in> set [0..<v] then off_list s' i else lst_entries s' i = lst_entries ?s i"
    using init_entries_spec [of "[0..<v]" ?s] assms by auto
  have "lst_entries s' v = lst_entries ?s v" "\<And>i. i < v \<Longrightarrow> off_list s' i" using s'(4) by (metis atLeastLessThan_iff less_irrefl set_upt, metis atLeastLessThan_iff le0 set_upt)
  moreover have "ocf_lst_init v ok s = Some s'" using s'(1) assms by (simp add: ocf_lst_init_def lst_getter_def Let_def)
  ultimately show ?thesis using that s'(2,3) assms by (simp add: lst_rep_def lst_links_def)
qed

subsection \<open>Sorting\<close>

text \<open>What \<open>ocf_lst_sort\<close> computes: \<open>x\<close> goes in front of the first element that is greater.\<close>

definition lst_insert :: "('a \<Rightarrow> 'a \<Rightarrow> bool) \<Rightarrow> 'a \<Rightarrow> 'a list \<Rightarrow> 'a list" where
  "lst_insert gt x ys = takeWhile (\<lambda>p. \<not> gt p x) ys @ x # dropWhile (\<lambda>p. \<not> gt p x) ys"

lemma lst_insert_split:
  obtains as bs where "\<And>d. first d (dropWhile (\<lambda>p. \<not> gt p x) ys) = first d bs" "ys = as @ bs"
    "lst_insert gt x ys = as @ x # bs" "\<forall>p \<in> set as. \<not> gt p x" "\<And>q qs. bs = q # qs \<Longrightarrow> gt q x"
proof (rule that [OF refl])
  show "ys = takeWhile (\<lambda>p. \<not> gt p x) ys @ dropWhile (\<lambda>p. \<not> gt p x) ys" by (rule takeWhile_dropWhile_id [symmetric])
  show "\<forall>p \<in> set (takeWhile (\<lambda>p. \<not> gt p x) ys). \<not> gt p x" by (auto dest: set_takeWhileD)
  show "gt q x" if "dropWhile (\<lambda>p. \<not> gt p x) ys = q # qs" for q qs
    using that by (metis (full_types) hd_dropWhile list.distinct(1) list.sel(1))
  show "lst_insert gt x ys = takeWhile (\<lambda>p. \<not> gt p x) ys @ x # dropWhile (\<lambda>p. \<not> gt p x) ys"
    by (simp add: lst_insert_def)
qed

lemma set_lst_insert [simp]: "set (lst_insert gt x ys) = insert x (set ys)"
  by (rule lst_insert_split [of gt x ys]) auto

lemma distinct_lst_insert: "distinct ys \<Longrightarrow> x \<notin> set ys \<Longrightarrow> distinct (lst_insert gt x ys)"
  by (rule lst_insert_split [of gt x ys]) auto

lemma sorted_lst_insert:
  assumes tr: "\<And>a b c. \<not> gt a b \<Longrightarrow> \<not> gt b c \<Longrightarrow> \<not> gt a c" and as: "\<And>a b. gt a b \<Longrightarrow> \<not> gt b a"
    and s: "sorted_wrt (\<lambda>a b. \<not> gt a b) ys"
  shows "sorted_wrt (\<lambda>a b. \<not> gt a b) (lst_insert gt x ys)"
proof (rule lst_insert_split [of gt x ys])
  fix as bs
  assume ys: "ys = as @ bs" and i: "lst_insert gt x ys = as @ x # bs"
    and t: "\<forall>p \<in> set as. \<not> gt p x" and d: "\<And>q qs. bs = q # qs \<Longrightarrow> gt q x"
  have "\<not> gt x p" if "p \<in> set bs" for p
  proof (cases bs)
    case (Cons q qs)
    moreover have "p = q \<or> \<not> gt q p" using that s Cons ys by (auto simp: sorted_wrt_append)
    ultimately show ?thesis using tr [of x q p] assms(2) d by blast
  qed (use that in simp)
  with s t show ?thesis unfolding i by (auto simp: sorted_wrt_append ys)
qed

text \<open>A loop whose body does not break visits the list in its order.\<close>

lemma for_each_fold:
  assumes "lst_links s (ps @ qs)" "length qs < n" "\<And>i a. i \<in> set qs \<Longrightarrow> body i s a = Some (False, s, f i a)"
  shows "for_each_lst n body (first (lst_invalid s) qs) s a = Some (lst_invalid s, s, fold f qs a)"
  using assms
proof (induction qs arbitrary: ps n a)
  case Nil
  then obtain m where "n = Suc m" by (cases n) auto
  with Nil show ?case using lst_linksD(6) [OF Nil(1)] by simp
next
  case (Cons q qs)
  then obtain m where n: "n = Suc m" "length qs < m" by (cases n) auto
  have "q \<noteq> lst_invalid s" "lst_getter s q = Some (lst_entries s q)" "lnxt s q = first (lst_invalid s) qs"
    using lst_linksD(2,4,6) [OF Cons.prems(1)] lst_linksD(7) [of s "ps @ [q]" qs] Cons.prems(1) by auto
  then show ?case using Cons.IH [of "ps @ [q]" m "f q a"] Cons.prems(1,3) n by simp
qed

lemma links_length: "lst_links s xs \<Longrightarrow> length xs \<le> lst_invalid s"
  using distinct_card [of xs] card_mono [of "{..<lst_invalid s}" "set xs"] by (auto simp: lst_links_def)

lemma set_fold_insert: "set (fold (lst_insert gt) rs ys) = set rs \<union> set ys"
  by (induction rs arbitrary: ys) auto

fun nexts :: "'z ocf_lst_scheme \<Rightarrow> nat list \<Rightarrow> bool" where
  "nexts s [] \<longleftrightarrow> True"
| "nexts s (r # rs) \<longleftrightarrow> lnxt s r = first (lst_invalid s) rs \<and> nexts s rs"

lemma nexts_cong:
  "(\<And>r. r \<in> set rs \<Longrightarrow> lst_entries s' r = lst_entries s r) \<Longrightarrow> lst_invalid s' = lst_invalid s \<Longrightarrow>
   nexts s' rs = nexts s rs"
  by (induction rs) auto

lemma lseg_nexts: "lseg (lprv s) (lnxt s) p rs (lst_invalid s) \<Longrightarrow> nexts s rs"
  by (induction rs arbitrary: p) auto

definition same_lst :: "'z ocf_lst_scheme \<Rightarrow> 'z ocf_lst_scheme \<Rightarrow> bool" where
  "same_lst s s' \<longleftrightarrow> lst_entries s' = lst_entries s \<and> lst_getter_ok s' = lst_getter_ok s \<and> lst_invalid s' = lst_invalid s"

lemma same_lst_links: "same_lst s s' \<Longrightarrow> lst_links s' xs = lst_links s xs"
  by (simp add: same_lst_def lst_links_def)

text \<open>
  The contract between the sort and a comparator: it decides an order, whatever it changed in earlier
  calls (\<open>Inv\<close>), leaves the links alone and brings the two compared elements up to date (\<open>seen\<close>).
\<close>

locale lst_order =
  fixes cmp :: "'z lst_cmp" and gt :: "nat \<Rightarrow> nat \<Rightarrow> bool"
    and Inv :: "'z ocf_lst_scheme \<Rightarrow> bool" and seen :: "nat \<Rightarrow> 'z ocf_lst_scheme \<Rightarrow> bool"
  assumes cmp_gt: "Inv s \<Longrightarrow> 0 < fst (cmp s a b) \<longleftrightarrow> gt a b"
    and cmp_Inv: "Inv s \<Longrightarrow> Inv (snd (cmp s a b))"
    and cmp_same: "same_lst s (snd (cmp s a b))"
    and cmp_seen: "seen x (snd (cmp s a b)) \<longleftrightarrow> seen x s \<or> x = a \<or> x = b"
    and Inv_links: "Inv (s\<lparr>lst_entries := e\<rparr>) \<longleftrightarrow> Inv s"
    and seen_links: "seen x (s\<lparr>lst_entries := e\<rparr>) \<longleftrightarrow> seen x s"
begin

lemma links_free [simp]:
  "Inv (upd_entry i f s) = Inv s" "seen x (upd_entry i f s) = seen x s"
  "Inv (linked y as bs s) = Inv s" "seen x (linked y as bs s) = seen x s"
  "Inv (ocf_lst_init_entry i s) = Inv s" "seen x (ocf_lst_init_entry i s) = seen x s"
  by (simp_all add: upd_entry_def linked_def ocf_lst_init_entry_def Inv_links seen_links)

lemma find_spec:
  assumes "lst_links s (ps @ qs)" "Inv s" "length qs < n"
  shows "\<exists>s'. for_each_lst n (\<lambda>pos s a. let (r, s) = cmp s pos x in Some (0 < r, s, a)) (first (lst_invalid s) qs) s () =
       Some (first (lst_invalid s) (dropWhile (\<lambda>p. \<not> gt p x) qs), s', ()) \<and>
    same_lst s s' \<and> Inv s' \<and> (\<forall>y. seen y s \<longrightarrow> seen y s') \<and> (qs \<noteq> [] \<longrightarrow> seen x s' \<and> seen (hd qs) s')"
  using assms
proof (induction qs arbitrary: ps s n)
  case Nil
  then obtain m where "n = Suc m" by (cases n) auto
  with Nil show ?case using lst_linksD(6) [OF Nil(1)] by (simp add: same_lst_def)
next
  case (Cons q qs)
  then obtain m where n: "n = Suc m" "length qs < m" by (cases n) auto
  note D = lst_linksD [OF Cons(2)]
  have q: "q \<noteq> lst_invalid s" "lst_getter s q = Some (lst_entries s q)" "lnxt s q = first (lst_invalid s) qs"
    using D(2,4,6) lst_linksD(7) [of s "ps @ [q]" qs] Cons(2) by auto
  obtain r t where c: "cmp s q x = (r, t)" by (cases "cmp s q x")
  have t: "same_lst s t" "Inv t" "0 < r \<longleftrightarrow> gt q x" "seen x t" "seen q t" "\<And>y. seen y s \<Longrightarrow> seen y t"
    using cmp_gt [OF Cons(3), of q x] cmp_Inv [OF Cons(3), of q x] cmp_same [of s q x] cmp_seen [of _ s q x] c by auto
  show ?case
  proof (cases "gt q x")
    case True
    then show ?thesis using c t q n by simp
  next
    case False
    have "lst_links t ((ps @ [q]) @ qs)" using Cons(2) same_lst_links [OF t(1)] by simp
    from Cons(1) [OF this t(2) n(2)] obtain s' where s':
      "for_each_lst m (\<lambda>pos s a. let (r, s) = cmp s pos x in Some (0 < r, s, a)) (first (lst_invalid t) qs) t () =
       Some (first (lst_invalid t) (dropWhile (\<lambda>p. \<not> gt p x) qs), s', ())"
      "same_lst t s'" "Inv s'" "\<forall>y. seen y t \<longrightarrow> seen y s'" by blast
    moreover have "lst_invalid t = lst_invalid s" "lst_entries t = lst_entries s" "same_lst s s'"
      using t(1) s'(2) by (auto simp: same_lst_def)
    ultimately show ?thesis using False c q n t by simp
  qed
qed

text \<open>One round of the sort: \<open>x\<close> goes to its place among the sorted ones.\<close>

definition rest_of :: "'z ocf_lst_scheme \<Rightarrow> nat list \<Rightarrow> 'z ocf_lst_scheme \<Rightarrow> bool" where
  "rest_of s A s' \<longleftrightarrow> Inv s' \<and> lst_invalid s' = lst_invalid s \<and> lst_getter_ok s' = lst_getter_ok s \<and>
     (\<forall>y. seen y s \<longrightarrow> seen y s') \<and>
     (\<forall>i. i \<notin> set A \<longrightarrow> i \<noteq> lst_invalid s \<longrightarrow> lst_entries s' i = lst_entries s i)"

lemma insert_spec:
  assumes l: "lst_links s ys" and i: "Inv s" and x: "x < lst_invalid s" "x \<notin> set ys" "off_list s x" and ne: "ys \<noteq> []"
    and len: "length ys \<le> lst_invalid s"
  shows "\<exists>s'. do {
      (pos_idx, s) \<leftarrow> sort_find cmp x s;
      if lst_invalid s = pos_idx then ocf_lst_add_tail s x else ocf_lst_add_before s pos_idx x } = Some s' \<and>
    lst_links s' (lst_insert gt x ys) \<and> rest_of s (x # ys) s' \<and> seen x s' \<and> seen (hd ys) s'"
proof -
  let ?v = "lst_invalid s"
  have h: "ocf_lst_head s = first ?v ys" using l by (simp add: lst_links_def ocf_lst_head_def)
  obtain t where t: "sort_find cmp x s = Some (first ?v (dropWhile (\<lambda>p. \<not> gt p x) ys), t)" "same_lst s t" "Inv t"
    "\<forall>y. seen y s \<longrightarrow> seen y t" "seen x t" "seen (hd ys) t"
    using find_spec [of s "[]" ys "?v + 1" x] l i ne len unfolding sort_find_def h by (auto simp del: for_each_lst.simps)
  obtain as bs where ab: "first ?v (dropWhile (\<lambda>p. \<not> gt p x) ys) = first ?v bs" "ys = as @ bs" "lst_insert gt x ys = as @ x # bs"
    by (rule lst_insert_split [of gt x ys]) blast
  have lt: "lst_links t (as @ bs)" and v: "lst_invalid t = ?v" and xt: "off_list t x" "x < lst_invalid t" "x \<notin> set (as @ bs)"
    using l ab same_lst_links [OF t(2)] t(2) x by (auto simp: same_lst_def off_list_def OCF_LST_ENTRY_OUT_def)
  note ins = lst_insertions [OF xt(2,3,1) lt] and D = lst_linksD [OF lt]
  have "(if lst_invalid t = first ?v bs then ocf_lst_add_tail t x else ocf_lst_add_before t (first ?v bs) x) =
    Some (linked x as bs t)"
    using ins(2,3) D(4) v by (cases bs) auto
  moreover have "lst_links (linked x as bs t) (lst_insert gt x ys)"
    using linked_links(1) [OF lt xt(2,3)] ab by simp
  moreover have "rest_of s (x # ys) (linked x as bs t)"
    using linked_links(2) [OF lt xt(2,3)] ab t v by (auto simp: rest_of_def same_lst_def)
  ultimately show ?thesis using t ab(1) by auto
qed

end

context lst_order
begin

definition all_seen :: "'z ocf_lst_scheme \<Rightarrow> nat list \<Rightarrow> bool" where
  "all_seen s ys \<longleftrightarrow> (2 \<le> length ys \<longrightarrow> (\<forall>y \<in> set ys. seen y s))"

lemma rest_of_trans:
  "rest_of s A s' \<Longrightarrow> rest_of s' B s'' \<Longrightarrow> rest_of s (A @ B) s''"
  by (simp add: rest_of_def)

lemma round_spec:
  assumes l: "lst_links s ys" and i: "Inv s" and x: "x < lst_invalid s" "x \<notin> set ys"
    and len: "length ys \<le> lst_invalid s" and a: "all_seen s ys"
  shows "\<exists>s'. (if ocf_lst_empty (ocf_lst_init_entry x s) then ocf_lst_add (ocf_lst_init_entry x s) x
      else do {
        (pos_idx, s) \<leftarrow> sort_find cmp x (ocf_lst_init_entry x s);
        if lst_invalid s = pos_idx then ocf_lst_add_tail s x else ocf_lst_add_before s pos_idx x }) = Some s' \<and>
    lst_links s' (lst_insert gt x ys) \<and> rest_of s (x # ys) s' \<and> all_seen s' (lst_insert gt x ys)"
proof -
  let ?s = "ocf_lst_init_entry x s"
  have lx: "lst_links ?s ys"
  proof -
    have "lseg (lprv ?s) (lnxt ?s) (lst_invalid s) ys (lst_invalid s)"
      using l by (auto simp: lst_links_def elim!: iffD1 [OF lseg_cong, rotated] dest: x(2) [THEN notE])
    with l x show ?thesis by (auto simp: lst_links_def)
  qed
  have off: "off_list ?s x" by (simp add: off_list_def OCF_LST_ENTRY_OUT_def)
  have e: "ocf_lst_empty ?s \<longleftrightarrow> ys = []" using lx by (cases ys) (auto simp: lst_links_def ocf_lst_empty_def)
  have r: "rest_of ?s A t \<Longrightarrow> x \<in> set A \<Longrightarrow> rest_of s A t" for A t by (auto simp: rest_of_def)
  show ?thesis
  proof (cases "ys = []")
    case True
    have "ocf_lst_add ?s x = Some (linked x [] [] ?s)"
      using lst_insertions(1) [of x ?s "[]" "[]"] lx x off True by simp
    moreover have "lst_links (linked x [] [] ?s) [x]" "rest_of s [x] (linked x [] [] ?s)"
      using linked_links [of ?s "[]" "[]" x] lx x True i r [of "[x]" "linked x [] [] ?s"] by (auto simp: rest_of_def)
    ultimately show ?thesis using True e by (auto simp: lst_insert_def all_seen_def)
  next
    case False
    obtain s' where s': "do {
        (pos_idx, s) \<leftarrow> sort_find cmp x ?s;
        if lst_invalid s = pos_idx then ocf_lst_add_tail s x else ocf_lst_add_before s pos_idx x } = Some s'"
      "lst_links s' (lst_insert gt x ys)" "rest_of ?s (x # ys) s'" "seen x s'" "seen (hd ys) s'"
      using insert_spec [of ?s ys x] lx i x off False len by auto
    have "seen y s'" if "y \<in> set ys" for y
    proof (cases ys rule: list.exhaust [case_names Nil Cons])
      case (Cons z zs)
      then show ?thesis using that a s'(3,5) by (cases zs) (auto simp: all_seen_def rest_of_def)
    qed (use False in simp)
    then have "all_seen s' (lst_insert gt x ys)" using s'(4) by (auto simp: all_seen_def)
    then show ?thesis using s' e False r [OF s'(3)] by auto
  qed
qed

lemma length_lst_insert [simp]: "length (lst_insert gt x ys) = Suc (length ys)"
  by (rule lst_insert_split [of gt x ys]) auto

lemma loop_spec:
  assumes "lst_links s ys" "Inv s" "distinct (ys @ rs)" "\<forall>r \<in> set rs. r < lst_invalid s" "nexts s (tl rs)"
    "length rs < n" "length ys + length rs \<le> lst_invalid s" "all_seen s ys"
  shows "\<exists>s'. sort_loop n cmp (first (lst_invalid s) rs) (first (lst_invalid s) (tl rs)) s = Some s' \<and>
    lst_links s' (fold (lst_insert gt) rs ys) \<and> rest_of s (ys @ rs) s' \<and> all_seen s' (fold (lst_insert gt) rs ys)"
  using assms
proof (induction rs arbitrary: ys s n)
  case Nil
  then obtain m where "n = Suc m" by (cases n) auto
  with Nil show ?case by (simp add: rest_of_def)
next
  case (Cons r rs)
  then obtain m where n: "n = Suc m" "length rs < m" by (cases n) auto
  have r: "r < lst_invalid s" "r \<notin> set ys" using Cons.prems by auto
  obtain t where t: "(if ocf_lst_empty (ocf_lst_init_entry r s) then ocf_lst_add (ocf_lst_init_entry r s) r
      else do {
        (pos_idx, s) \<leftarrow> sort_find cmp r (ocf_lst_init_entry r s);
        if lst_invalid s = pos_idx then ocf_lst_add_tail s r else ocf_lst_add_before s pos_idx r }) = Some t"
    "lst_links t (lst_insert gt r ys)" "rest_of s (r # ys) t" "all_seen t (lst_insert gt r ys)"
    using round_spec [OF Cons.prems(1,2) r] Cons.prems(7,8) by auto
  have v: "lst_invalid t = lst_invalid s" "Inv t" using t(3) by (auto simp: rest_of_def)
  have same: "lst_entries t q = lst_entries s q" if "q \<in> set rs" for q
    using that t(3) Cons.prems(3,4) by (auto simp: rest_of_def)
  have nx: "nexts t rs" using nexts_cong [OF same v(1)] Cons.prems(5) by simp
  have g: "lst_getter t (first (lst_invalid s) rs) = Some (lst_entries t (first (lst_invalid s) rs))"
    using lst_linksD(6) [of t "[]" "lst_insert gt r ys" "first (lst_invalid s) rs"] t(2) v Cons.prems(4)
    by (cases rs) auto
  have goon: "sort_loop m cmp (first (lst_invalid s) rs) (lnxt t (first (lst_invalid s) rs)) t =
    sort_loop m cmp (first (lst_invalid t) rs) (first (lst_invalid t) (tl rs)) t"
    using nx v n by (cases rs; cases m) auto
  have d: "distinct (lst_insert gt r ys @ rs)" using Cons.prems(3) distinct_lst_insert [of ys r gt] by auto
  obtain s' where s': "sort_loop m cmp (first (lst_invalid t) rs) (first (lst_invalid t) (tl rs)) t = Some s'"
    "lst_links s' (fold (lst_insert gt) rs (lst_insert gt r ys))" "rest_of t (lst_insert gt r ys @ rs) s'"
    "all_seen s' (fold (lst_insert gt) rs (lst_insert gt r ys))"
    using Cons.IH [OF t(2) v(2) d _ _ n(2) _ t(4)] Cons.prems(4,7) nx v by (cases rs) auto
  have "rest_of s (ys @ r # rs) s'" using rest_of_trans [OF t(3) s'(3)] by (auto simp: rest_of_def)
  then show ?case using s' t(1) g goon n r by (auto simp: Let_def)
qed

lemma sort_spec:
  assumes "lst_rep s xs" "Inv s"
  obtains s' where "ocf_lst_sort (Some cmp) s = Some s'" "lst_rep s' (fold (lst_insert gt) xs [])" "Inv s'"
    "all_seen s' xs" "lst_invalid s' = lst_invalid s"
proof (cases "xs = []")
  case True
  have "ocf_lst_empty s" using assms True by (simp add: lst_rep_def lst_links_def ocf_lst_empty_def)
  then show ?thesis using that [of s] assms True by (simp add: ocf_lst_sort_def all_seen_def)
next
  case False
  let ?v = "lst_invalid s"
  let ?s = "upd_entry ?v (\<lambda>e. e\<lparr>e_prev := ?v\<rparr>) (upd_entry ?v (\<lambda>e. e\<lparr>e_next := ?v\<rparr>) s)"
  have l: "lst_links s xs" using assms by (simp add: lst_rep_def)
  then have xs: "distinct xs" "\<forall>x \<in> set xs. x < ?v" "\<forall>i \<le> ?v. lst_getter_ok s i" "nexts s xs"
    "lnxt s ?v = first ?v xs" using lseg_nexts by (auto simp: lst_links_def)
  have len: "length xs \<le> ?v" by (rule links_length [OF l])
  have e: "\<not> ocf_lst_empty s" using False xs(2,5) by (cases xs) (auto simp: ocf_lst_empty_def)
  have nx: "lnxt s (first ?v xs) = first ?v (tl xs)" "first ?v xs \<le> ?v" "first ?v (tl xs) \<le> ?v"
    using xs(2,4) False by (cases xs; cases "tl xs"; auto)+
  have "nexts ?s xs = nexts s xs" by (rule nexts_cong) (use xs(2) in auto)
  then have "nexts ?s (tl xs)" using xs(4) by (cases xs) auto
  moreover have "lst_links ?s []" using xs(3) by (simp add: lst_links_def)
  ultimately obtain s' where s': "sort_loop (?v + 1) cmp (first ?v xs) (first ?v (tl xs)) ?s = Some s'"
    "lst_links s' (fold (lst_insert gt) xs [])" "rest_of ?s xs s'" "all_seen s' (fold (lst_insert gt) xs [])"
    using loop_spec [of ?s "[]" xs "?v + 1"] assms(2) xs(1,2) len by (auto simp: all_seen_def)
  have "set (fold (lst_insert gt) xs []) = set xs" "length (fold (lst_insert gt) xs ys) = length xs + length ys" for ys
    by (simp add: set_fold_insert) (induction xs arbitrary: ys; simp)
  then have "all_seen s' xs" using s'(4) by (simp add: all_seen_def)
  moreover have "ocf_lst_sort (Some cmp) s = Some s'"
    using e nx s'(1) xs(3,5) by (simp add: ocf_lst_sort_def lst_getter_def Let_def del: sort_loop.simps)
  moreover have "lst_rep s' (fold (lst_insert gt) xs [])"
    using s'(2,3) assms(1) by (auto simp: lst_rep_def rest_of_def off_list_def OCF_LST_ENTRY_OUT_def set_fold_insert)
  ultimately show ?thesis using that s'(3) by (auto simp: rest_of_def)
qed

end

end
