(* ===== verification/Metadata_Bits.thy ===== *)
theory Metadata_Bits
  imports Prelude
begin

section \<open>Valid and dirty bits of a cache line\<close>

text \<open>
  Model of \<open>src/metadata/metadata_bit.h\<close> and of the dispatch on the cache line size in
  \<open>src/metadata/metadata.c\<close>. A cache line is divided into blocks (512 bytes, or 4 KiB when the
  library is built with \<open>OCF_BLOCK_SIZE_4K\<close>) and its metadata holds one valid and one dirty bit per
  block, in a pair of words whose width depends on the line size. The macros of the source are
  parameterised by the field (\<open>what\<close>) and the word type; here the field is a value of \<open>what\<close> and the
  word type is the type variable of the definition.
\<close>

subsection \<open>Masks\<close>

definition get_mask :: "nat \<Rightarrow> nat \<Rightarrow> 64 word option" where
  "get_mask start stop = do {
     bug_on (start \<ge> 64);
     bug_on (stop \<ge> 64);
     bug_on (stop < start);
     let mask = NOT 0;
     let mask = drop_bit (start + (63 - stop)) mask;
     let mask = push_bit start mask;
     Some mask }"

definition get_mask_u128 :: "nat \<Rightarrow> nat \<Rightarrow> 128 word option" where
  "get_mask_u128 start stop = do {
     bug_on (start \<ge> 128);
     bug_on (stop \<ge> 128);
     bug_on (stop < start);
     let mask = NOT 0;
     let mask = drop_bit (start + (127 - stop)) mask;
     let mask = push_bit start mask;
     Some mask }"

text \<open>
  The macros paste the type into \<open>_get_mask_##type\<close>: the 128-bit type has a mask function of its
  own, every other type takes the 64-bit mask and truncates it.
\<close>

definition get_mask_type :: "nat \<Rightarrow> nat \<Rightarrow> 'a::len word option" where
  "get_mask_type start stop =
     (if LENGTH('a) = 128 then map_option ucast (get_mask_u128 start stop)
      else map_option ucast (get_mask start stop))"

subsection \<open>The typed status words\<close>

datatype what = Valid | Dirty

record 'w map_type =
  valid :: 'w
  dirty :: 'w

fun get_what :: "what \<Rightarrow> 'w map_type \<Rightarrow> 'w" where
  "get_what Valid m = valid m"
| "get_what Dirty m = dirty m"

fun put_what :: "what \<Rightarrow> 'w \<Rightarrow> 'w map_type \<Rightarrow> 'w map_type" where
  "put_what Valid v m = m\<lparr>valid := v\<rparr>"
| "put_what Dirty v m = m\<lparr>dirty := v\<rparr>"

definition test_type :: "what \<Rightarrow> 'a::len word map_type \<Rightarrow> nat \<Rightarrow> nat \<Rightarrow> bool \<Rightarrow> bool option" where
  "test_type what m start stop all = do {
     mask \<leftarrow> get_mask_type start stop;
     Some (if all then mask = (get_what what m AND mask)
           else (get_what what m AND mask) \<noteq> 0) }"

definition test_out_type :: "what \<Rightarrow> 'a::len word map_type \<Rightarrow> nat \<Rightarrow> nat \<Rightarrow> bool option" where
  "test_out_type what m start stop = do {
     mask \<leftarrow> get_mask_type start stop;
     Some ((get_what what m AND NOT mask) \<noteq> 0) }"

definition clear_type ::
  "what \<Rightarrow> 'a::len word map_type \<Rightarrow> nat \<Rightarrow> nat \<Rightarrow> (bool \<times> 'a word map_type) option" where
  "clear_type what m start stop = do {
     mask \<leftarrow> get_mask_type start stop;
     let m = put_what what (get_what what m AND NOT mask) m;
     Some (get_what what m \<noteq> 0, m) }"

definition set_type ::
  "what \<Rightarrow> 'a::len word map_type \<Rightarrow> nat \<Rightarrow> nat \<Rightarrow> (bool \<times> 'a word map_type) option" where
  "set_type what m start stop = do {
     mask \<leftarrow> get_mask_type start stop;
     let result = (get_what what m \<noteq> 0);
     Some (result, put_what what (get_what what m OR mask) m) }"

definition test_and_set_type ::
  "what \<Rightarrow> 'a::len word map_type \<Rightarrow> nat \<Rightarrow> nat \<Rightarrow> bool \<Rightarrow> (bool \<times> 'a word map_type) option" where
  "test_and_set_type what m start stop all = do {
     mask \<leftarrow> get_mask_type start stop;
     let test = (if all then mask = (get_what what m AND mask)
                 else (get_what what m AND mask) \<noteq> 0);
     Some (test, put_what what (get_what what m OR mask) m) }"

definition test_and_clear_type ::
  "what \<Rightarrow> 'a::len word map_type \<Rightarrow> nat \<Rightarrow> nat \<Rightarrow> bool \<Rightarrow> (bool \<times> 'a word map_type) option" where
  "test_and_clear_type what m start stop all = do {
     mask \<leftarrow> get_mask_type start stop;
     let test = (if all then mask = (get_what what m AND mask)
                 else (get_what what m AND mask) \<noteq> 0);
     Some (test, put_what what (get_what what m AND NOT mask) m) }"

definition clear_valid_if_clean_type ::
  "'a::len word map_type \<Rightarrow> nat \<Rightarrow> nat \<Rightarrow> (bool \<times> 'a word map_type) option" where
  "clear_valid_if_clean_type m start stop = do {
     mask \<leftarrow> get_mask_type start stop;
     let m = m\<lparr>valid := valid m AND ((mask AND dirty m) OR NOT mask)\<rparr>;
     Some (valid m \<noteq> 0, m) }"

definition clear_dirty_if_invalid_type ::
  "'a::len word map_type \<Rightarrow> nat \<Rightarrow> nat \<Rightarrow> 'a word map_type option" where
  "clear_dirty_if_invalid_type m start stop = do {
     mask \<leftarrow> get_mask_type start stop;
     Some (m\<lparr>dirty := dirty m AND ((mask AND valid m) OR NOT mask)\<rparr>) }"

definition check_type :: "'a::len word map_type \<Rightarrow> bool" where
  "check_type m = ((dirty m AND NOT (valid m)) = 0)"

subsection \<open>The single-bit status of 4 KiB blocks\<close>

record map_no_type =
  valid1 :: bool
  dirty1 :: bool

fun get_what1 :: "what \<Rightarrow> map_no_type \<Rightarrow> bool" where
  "get_what1 Valid m = valid1 m"
| "get_what1 Dirty m = dirty1 m"

fun put_what1 :: "what \<Rightarrow> bool \<Rightarrow> map_no_type \<Rightarrow> map_no_type" where
  "put_what1 Valid v m = m\<lparr>valid1 := v\<rparr>"
| "put_what1 Dirty v m = m\<lparr>dirty1 := v\<rparr>"

definition test_no_type :: "what \<Rightarrow> map_no_type \<Rightarrow> nat \<Rightarrow> nat \<Rightarrow> bool \<Rightarrow> bool option" where
  "test_no_type what m start stop all = do {
     bug_on (start \<noteq> stop);
     Some (get_what1 what m) }"

definition test_out_no_type :: "what \<Rightarrow> map_no_type \<Rightarrow> nat \<Rightarrow> nat \<Rightarrow> bool option" where
  "test_out_no_type what m start stop = Some False"

definition clear_no_type ::
  "what \<Rightarrow> map_no_type \<Rightarrow> nat \<Rightarrow> nat \<Rightarrow> (bool \<times> map_no_type) option" where
  "clear_no_type what m start stop = do {
     bug_on (start \<noteq> stop);
     Some (False, put_what1 what False m) }"

definition set_no_type ::
  "what \<Rightarrow> map_no_type \<Rightarrow> nat \<Rightarrow> nat \<Rightarrow> (bool \<times> map_no_type) option" where
  "set_no_type what m start stop = do {
     bug_on (start \<noteq> stop);
     let result = get_what1 what m;
     Some (result, put_what1 what True m) }"

definition test_and_set_no_type ::
  "what \<Rightarrow> map_no_type \<Rightarrow> nat \<Rightarrow> nat \<Rightarrow> bool \<Rightarrow> (bool \<times> map_no_type) option" where
  "test_and_set_no_type what m start stop all = do {
     bug_on (start \<noteq> stop);
     let test = get_what1 what m;
     Some (test, put_what1 what True m) }"

definition test_and_clear_no_type ::
  "what \<Rightarrow> map_no_type \<Rightarrow> nat \<Rightarrow> nat \<Rightarrow> bool \<Rightarrow> (bool \<times> map_no_type) option" where
  "test_and_clear_no_type what m start stop all = do {
     bug_on (start \<noteq> stop);
     let test = get_what1 what m;
     Some (test, put_what1 what False m) }"

definition clear_valid_if_clean_no_type ::
  "map_no_type \<Rightarrow> nat \<Rightarrow> nat \<Rightarrow> (bool \<times> map_no_type) option" where
  "clear_valid_if_clean_no_type m start stop = do {
     bug_on (start \<noteq> stop);
     let m = m\<lparr>valid1 := (if \<not> dirty1 m then False else valid1 m)\<rparr>;
     Some (valid1 m, m) }"

definition clear_dirty_if_invalid_no_type ::
  "map_no_type \<Rightarrow> nat \<Rightarrow> nat \<Rightarrow> map_no_type option" where
  "clear_dirty_if_invalid_no_type m start stop = do {
     bug_on (start \<noteq> stop);
     Some (m\<lparr>dirty1 := (if \<not> valid1 m then False else dirty1 m)\<rparr>) }"

definition check_no_type :: "map_no_type \<Rightarrow> bool" where
  "check_no_type m = (\<not> (dirty1 m \<and> \<not> valid1 m))"

subsection \<open>Dispatch on the cache line size\<close>

datatype ocf_cache_line_size = Size_none | Size_4 | Size_8 | Size_16 | Size_32 | Size_64

fun line_bytes :: "ocf_cache_line_size \<Rightarrow> nat" where
  "line_bytes Size_none = 0"
| "line_bytes Size_4 = 4 * 1024"
| "line_bytes Size_8 = 8 * 1024"
| "line_bytes Size_16 = 16 * 1024"
| "line_bytes Size_32 = 32 * 1024"
| "line_bytes Size_64 = 64 * 1024"

definition block_shift :: "bool \<Rightarrow> nat" where
  "block_shift block_4k = (if block_4k then 12 else 9)"

definition line_blocks :: "bool \<Rightarrow> ocf_cache_line_size \<Rightarrow> nat" where
  "line_blocks block_4k ls = line_bytes ls div 2 ^ block_shift block_4k"

text \<open>
  The \<open>status[]\<close> bytes of a metadata entry, read as one of the structures the macros declare.
\<close>

datatype map_status =
    St_no_type map_no_type
  | St_u8 "8 word map_type"
  | St_u16 "16 word map_type"
  | St_u32 "32 word map_type"
  | St_u64 "64 word map_type"
  | St_u128 "128 word map_type"

text \<open>
  The \<open>switch\<close> of \<open>_ocf_metadata_funcs_5arg\<close>, \<open>_ocf_metadata_funcs_4arg\<close> and of the functions
  after them: each case casts the entry to the structure of its type. Reading an entry that holds
  another structure has no meaning in C and is \<open>None\<close> here, like the \<open>default\<close> case.
\<close>

definition no_type_case :: "(map_no_type \<Rightarrow> 'r option) \<Rightarrow> map_status \<Rightarrow> 'r option" where
  "no_type_case f st = (case st of St_no_type m \<Rightarrow> f m | _ \<Rightarrow> None)"

definition u8_case :: "(8 word map_type \<Rightarrow> 'r option) \<Rightarrow> map_status \<Rightarrow> 'r option" where
  "u8_case f st = (case st of St_u8 m \<Rightarrow> f m | _ \<Rightarrow> None)"

definition u16_case :: "(16 word map_type \<Rightarrow> 'r option) \<Rightarrow> map_status \<Rightarrow> 'r option" where
  "u16_case f st = (case st of St_u16 m \<Rightarrow> f m | _ \<Rightarrow> None)"

definition u32_case :: "(32 word map_type \<Rightarrow> 'r option) \<Rightarrow> map_status \<Rightarrow> 'r option" where
  "u32_case f st = (case st of St_u32 m \<Rightarrow> f m | _ \<Rightarrow> None)"

definition u64_case :: "(64 word map_type \<Rightarrow> 'r option) \<Rightarrow> map_status \<Rightarrow> 'r option" where
  "u64_case f st = (case st of St_u64 m \<Rightarrow> f m | _ \<Rightarrow> None)"

definition u128_case :: "(128 word map_type \<Rightarrow> 'r option) \<Rightarrow> map_status \<Rightarrow> 'r option" where
  "u128_case f st = (case st of St_u128 m \<Rightarrow> f m | _ \<Rightarrow> None)"

definition metadata_switch ::
  "bool \<Rightarrow> ocf_cache_line_size \<Rightarrow> (map_no_type \<Rightarrow> 'r option) \<Rightarrow> (8 word map_type \<Rightarrow> 'r option)
   \<Rightarrow> (16 word map_type \<Rightarrow> 'r option) \<Rightarrow> (32 word map_type \<Rightarrow> 'r option)
   \<Rightarrow> (64 word map_type \<Rightarrow> 'r option) \<Rightarrow> (128 word map_type \<Rightarrow> 'r option)
   \<Rightarrow> map_status \<Rightarrow> 'r option" where
  "metadata_switch block_4k ls f f8 f16 f32 f64 f128 st =
     (if block_4k then
        (case ls of
           Size_4 \<Rightarrow> no_type_case f st
         | Size_8 \<Rightarrow> u8_case f8 st
         | Size_16 \<Rightarrow> u8_case f8 st
         | Size_32 \<Rightarrow> u8_case f8 st
         | Size_64 \<Rightarrow> u16_case f16 st
         | Size_none \<Rightarrow> None)
      else
        (case ls of
           Size_4 \<Rightarrow> u8_case f8 st
         | Size_8 \<Rightarrow> u16_case f16 st
         | Size_16 \<Rightarrow> u32_case f32 st
         | Size_32 \<Rightarrow> u64_case f64 st
         | Size_64 \<Rightarrow> u128_case f128 st
         | Size_none \<Rightarrow> None))"

abbreviation tag :: "('m \<Rightarrow> map_status) \<Rightarrow> ('m \<Rightarrow> (bool \<times> 'm) option)
   \<Rightarrow> 'm \<Rightarrow> (bool \<times> map_status) option" where
  "tag c f m \<equiv> map_option (map_prod id c) (f m)"

definition st_test :: "bool \<Rightarrow> ocf_cache_line_size \<Rightarrow> what \<Rightarrow> map_status
   \<Rightarrow> nat \<Rightarrow> nat \<Rightarrow> bool \<Rightarrow> bool option" where
  "st_test k4 ls what st start stop all =
     metadata_switch k4 ls
       (\<lambda>m. test_no_type what m start stop all) (\<lambda>m. test_type what m start stop all)
       (\<lambda>m. test_type what m start stop all) (\<lambda>m. test_type what m start stop all)
       (\<lambda>m. test_type what m start stop all) (\<lambda>m. test_type what m start stop all) st"

definition st_test_out :: "bool \<Rightarrow> ocf_cache_line_size \<Rightarrow> what \<Rightarrow> map_status
   \<Rightarrow> nat \<Rightarrow> nat \<Rightarrow> bool option" where
  "st_test_out k4 ls what st start stop =
     metadata_switch k4 ls
       (\<lambda>m. test_out_no_type what m start stop) (\<lambda>m. test_out_type what m start stop)
       (\<lambda>m. test_out_type what m start stop) (\<lambda>m. test_out_type what m start stop)
       (\<lambda>m. test_out_type what m start stop) (\<lambda>m. test_out_type what m start stop) st"

definition st_clear :: "bool \<Rightarrow> ocf_cache_line_size \<Rightarrow> what \<Rightarrow> map_status
   \<Rightarrow> nat \<Rightarrow> nat \<Rightarrow> (bool \<times> map_status) option" where
  "st_clear k4 ls what st start stop =
     metadata_switch k4 ls
       (tag St_no_type (\<lambda>m. clear_no_type what m start stop))
       (tag St_u8 (\<lambda>m. clear_type what m start stop))
       (tag St_u16 (\<lambda>m. clear_type what m start stop))
       (tag St_u32 (\<lambda>m. clear_type what m start stop))
       (tag St_u64 (\<lambda>m. clear_type what m start stop))
       (tag St_u128 (\<lambda>m. clear_type what m start stop)) st"

definition st_set :: "bool \<Rightarrow> ocf_cache_line_size \<Rightarrow> what \<Rightarrow> map_status
   \<Rightarrow> nat \<Rightarrow> nat \<Rightarrow> (bool \<times> map_status) option" where
  "st_set k4 ls what st start stop =
     metadata_switch k4 ls
       (tag St_no_type (\<lambda>m. set_no_type what m start stop))
       (tag St_u8 (\<lambda>m. set_type what m start stop))
       (tag St_u16 (\<lambda>m. set_type what m start stop))
       (tag St_u32 (\<lambda>m. set_type what m start stop))
       (tag St_u64 (\<lambda>m. set_type what m start stop))
       (tag St_u128 (\<lambda>m. set_type what m start stop)) st"

definition st_test_and_set :: "bool \<Rightarrow> ocf_cache_line_size \<Rightarrow> what \<Rightarrow> map_status
   \<Rightarrow> nat \<Rightarrow> nat \<Rightarrow> bool \<Rightarrow> (bool \<times> map_status) option" where
  "st_test_and_set k4 ls what st start stop all =
     metadata_switch k4 ls
       (tag St_no_type (\<lambda>m. test_and_set_no_type what m start stop all))
       (tag St_u8 (\<lambda>m. test_and_set_type what m start stop all))
       (tag St_u16 (\<lambda>m. test_and_set_type what m start stop all))
       (tag St_u32 (\<lambda>m. test_and_set_type what m start stop all))
       (tag St_u64 (\<lambda>m. test_and_set_type what m start stop all))
       (tag St_u128 (\<lambda>m. test_and_set_type what m start stop all)) st"

definition st_test_and_clear :: "bool \<Rightarrow> ocf_cache_line_size \<Rightarrow> what \<Rightarrow> map_status
   \<Rightarrow> nat \<Rightarrow> nat \<Rightarrow> bool \<Rightarrow> (bool \<times> map_status) option" where
  "st_test_and_clear k4 ls what st start stop all =
     metadata_switch k4 ls
       (tag St_no_type (\<lambda>m. test_and_clear_no_type what m start stop all))
       (tag St_u8 (\<lambda>m. test_and_clear_type what m start stop all))
       (tag St_u16 (\<lambda>m. test_and_clear_type what m start stop all))
       (tag St_u32 (\<lambda>m. test_and_clear_type what m start stop all))
       (tag St_u64 (\<lambda>m. test_and_clear_type what m start stop all))
       (tag St_u128 (\<lambda>m. test_and_clear_type what m start stop all)) st"

definition st_clear_valid_if_clean :: "bool \<Rightarrow> ocf_cache_line_size \<Rightarrow> map_status
   \<Rightarrow> nat \<Rightarrow> nat \<Rightarrow> (bool \<times> map_status) option" where
  "st_clear_valid_if_clean k4 ls st start stop =
     metadata_switch k4 ls
       (tag St_no_type (\<lambda>m. clear_valid_if_clean_no_type m start stop))
       (tag St_u8 (\<lambda>m. clear_valid_if_clean_type m start stop))
       (tag St_u16 (\<lambda>m. clear_valid_if_clean_type m start stop))
       (tag St_u32 (\<lambda>m. clear_valid_if_clean_type m start stop))
       (tag St_u64 (\<lambda>m. clear_valid_if_clean_type m start stop))
       (tag St_u128 (\<lambda>m. clear_valid_if_clean_type m start stop)) st"

definition st_clear_dirty_if_invalid :: "bool \<Rightarrow> ocf_cache_line_size \<Rightarrow> map_status
   \<Rightarrow> nat \<Rightarrow> nat \<Rightarrow> map_status option" where
  "st_clear_dirty_if_invalid k4 ls st start stop =
     metadata_switch k4 ls
       (\<lambda>m. map_option St_no_type (clear_dirty_if_invalid_no_type m start stop))
       (\<lambda>m. map_option St_u8 (clear_dirty_if_invalid_type m start stop))
       (\<lambda>m. map_option St_u16 (clear_dirty_if_invalid_type m start stop))
       (\<lambda>m. map_option St_u32 (clear_dirty_if_invalid_type m start stop))
       (\<lambda>m. map_option St_u64 (clear_dirty_if_invalid_type m start stop))
       (\<lambda>m. map_option St_u128 (clear_dirty_if_invalid_type m start stop)) st"

definition st_check :: "bool \<Rightarrow> ocf_cache_line_size \<Rightarrow> map_status \<Rightarrow> bool option" where
  "st_check k4 ls st =
     metadata_switch k4 ls
       (\<lambda>m. Some (check_no_type m)) (\<lambda>m. Some (check_type m)) (\<lambda>m. Some (check_type m))
       (\<lambda>m. Some (check_type m)) (\<lambda>m. Some (check_type m)) (\<lambda>m. Some (check_type m)) st"

subsection \<open>The bits an entry holds\<close>

fun status_bit :: "what \<Rightarrow> map_status \<Rightarrow> nat \<Rightarrow> bool" where
  "status_bit what (St_no_type m) i = (i = 0 \<and> get_what1 what m)"
| "status_bit what (St_u8 m) i = bit (get_what what m) i"
| "status_bit what (St_u16 m) i = bit (get_what what m) i"
| "status_bit what (St_u32 m) i = bit (get_what what m) i"
| "status_bit what (St_u64 m) i = bit (get_what what m) i"
| "status_bit what (St_u128 m) i = bit (get_what what m) i"

text \<open>
  An entry fits the line size when it holds the structure the dispatch expects and no bit beyond
  the last block of the line is set.
\<close>

definition status_ok :: "bool \<Rightarrow> ocf_cache_line_size \<Rightarrow> map_status \<Rightarrow> bool" where
  "status_ok k4 ls st \<longleftrightarrow>
     metadata_switch k4 ls (\<lambda>_. Some ()) (\<lambda>_. Some ()) (\<lambda>_. Some ()) (\<lambda>_. Some ()) (\<lambda>_. Some ())
       (\<lambda>_. Some ()) st \<noteq> None \<and>
     (\<forall>what i. status_bit what st i \<longrightarrow> i < line_blocks k4 ls)"

subsection \<open>Masks select exactly their range\<close>

lemma get_mask_Some:
  assumes "start \<le> stop" and "stop < 64"
  shows "\<exists>mask. get_mask start stop = Some mask \<and> (\<forall>i. bit mask i \<longleftrightarrow> start \<le> i \<and> i \<le> stop)"
proof -
  have "get_mask start stop = Some (push_bit start (drop_bit (start + (63 - stop)) (NOT 0)))"
    using assms by (simp add: get_mask_def)
  moreover have "\<forall>i. bit (push_bit start (drop_bit (start + (63 - stop)) (NOT 0 :: 64 word))) i
      \<longleftrightarrow> start \<le> i \<and> i \<le> stop"
    using assms by (auto simp: bit_simps)
  ultimately show ?thesis by blast
qed

lemma get_mask_u128_Some:
  assumes "start \<le> stop" and "stop < 128"
  shows "\<exists>mask. get_mask_u128 start stop = Some mask \<and> (\<forall>i. bit mask i \<longleftrightarrow> start \<le> i \<and> i \<le> stop)"
proof -
  have "get_mask_u128 start stop = Some (push_bit start (drop_bit (start + (127 - stop)) (NOT 0)))"
    using assms by (simp add: get_mask_u128_def)
  moreover have "\<forall>i. bit (push_bit start (drop_bit (start + (127 - stop)) (NOT 0 :: 128 word))) i
      \<longleftrightarrow> start \<le> i \<and> i \<le> stop"
    using assms by (auto simp: bit_simps)
  ultimately show ?thesis by blast
qed

lemma get_mask_type_Some:
  assumes "start \<le> stop" and "stop < LENGTH('a)" and "LENGTH('a) \<le> 64 \<or> LENGTH('a) = 128"
  shows "\<exists>mask :: 'a::len word. get_mask_type start stop = Some mask \<and>
           (\<forall>i. bit mask i \<longleftrightarrow> start \<le> i \<and> i \<le> stop)"
proof (cases "LENGTH('a) = 128")
  case True
  with assms obtain m where "get_mask_u128 start stop = Some m"
    and "\<forall>i. bit m i \<longleftrightarrow> start \<le> i \<and> i \<le> stop"
    using get_mask_u128_Some [of start stop] by auto
  with True assms show ?thesis
    by (auto simp: get_mask_type_def bit_ucast_iff)
next
  case False
  with assms obtain m where "get_mask start stop = Some m"
    and "\<forall>i. bit m i \<longleftrightarrow> start \<le> i \<and> i \<le> stop"
    using get_mask_Some [of start stop] by auto
  with False assms show ?thesis
    by (auto simp: get_mask_type_def bit_ucast_iff)
qed

subsection \<open>The typed operations, bit by bit\<close>

abbreviation fits :: "'a::len itself \<Rightarrow> nat \<Rightarrow> nat \<Rightarrow> bool" where
  "fits TYPE('a::len) start stop \<equiv>
     start \<le> stop \<and> stop < LENGTH('a) \<and> (LENGTH('a) \<le> 64 \<or> LENGTH('a) = 128)"

lemma get_mask_typeE:
  assumes "fits TYPE('a::len) start stop"
  obtains mask :: "'a::len word" where "get_mask_type start stop = Some mask"
    and "\<And>i. bit mask i \<longleftrightarrow> start \<le> i \<and> i \<le> stop"
  using get_mask_type_Some [of start stop, where 'a = 'a] assms by auto

lemma word_eq_0_iff_bit: "(w :: 'a::len word) = 0 \<longleftrightarrow> (\<forall>i. \<not> bit w i)"
  by (auto simp: bit_eq_iff dest: bit_imp_le_length)

lemma mask_eq_and_iff: "(k :: 'a::len word) = (w AND k) \<longleftrightarrow> (\<forall>i. bit k i \<longrightarrow> bit w i)"
  by (auto simp: bit_eq_iff bit_and_iff dest: bit_imp_le_length)

lemma get_put_what [simp]:
  "get_what w (put_what w v m) = v"
  "w \<noteq> w' \<Longrightarrow> get_what w (put_what w' v m) = get_what w m"
  by (cases w; cases w'; simp)+

lemma test_type_eq:
  assumes "fits TYPE('a::len) start stop"
  shows "test_type what (m :: 'a word map_type) start stop all = Some
    (if all then (\<forall>i\<in>{start..stop}. bit (get_what what m) i)
     else (\<exists>i\<in>{start..stop}. bit (get_what what m) i))"
proof -
  obtain mask :: "'a word" where "get_mask_type start stop = Some mask"
    and "\<And>i. bit mask i \<longleftrightarrow> start \<le> i \<and> i \<le> stop"
    using get_mask_typeE [OF assms] by metis
  then show ?thesis
    by (auto simp: test_type_def word_eq_0_iff_bit mask_eq_and_iff bit_and_iff)
qed

lemma test_out_type_eq:
  assumes "fits TYPE('a::len) start stop"
  shows "test_out_type what (m :: 'a word map_type) start stop = Some
    (\<exists>i. i \<notin> {start..stop} \<and> bit (get_what what m) i)"
proof -
  obtain mask :: "'a word" where "get_mask_type start stop = Some mask"
    and "\<And>i. bit mask i \<longleftrightarrow> start \<le> i \<and> i \<le> stop"
    using get_mask_typeE [OF assms] by metis
  then show ?thesis
    by (auto simp: test_out_type_def word_eq_0_iff_bit bit_and_iff bit_not_iff dest: bit_imp_le_length)
qed

lemma clear_type_eq:
  assumes "fits TYPE('a::len) start stop"
  shows "\<exists>m'. clear_type what (m :: 'a word map_type) start stop
                = Some (\<exists>i. bit (get_what what m) i \<and> i \<notin> {start..stop}, m') \<and>
    (\<forall>w i. bit (get_what w m') i \<longleftrightarrow>
        bit (get_what w m) i \<and> \<not> (w = what \<and> i \<in> {start..stop}))"
proof -
  obtain mask :: "'a word" where mask: "get_mask_type start stop = Some mask"
    and bits: "\<And>i. bit mask i \<longleftrightarrow> start \<le> i \<and> i \<le> stop"
    using get_mask_typeE [OF assms] by metis
  define m' where "m' = put_what what (get_what what m AND NOT mask) m"
  have "clear_type what m start stop = Some (\<exists>i. bit (get_what what m') i, m')"
    by (simp add: clear_type_def mask m'_def word_eq_0_iff_bit)
  moreover have eff: "\<forall>w i. bit (get_what w m') i \<longleftrightarrow>
        bit (get_what w m) i \<and> \<not> (w = what \<and> i \<in> {start..stop})"
  proof (intro allI)
    fix w i
    show "bit (get_what w m') i \<longleftrightarrow>
        bit (get_what w m) i \<and> \<not> (w = what \<and> i \<in> {start..stop})"
      by (cases "w = what")
        (auto simp: m'_def bits bit_and_iff bit_not_iff dest: bit_imp_le_length)
  qed
  moreover from eff have "(\<exists>i. bit (get_what what m') i) \<longleftrightarrow>
      (\<exists>i. bit (get_what what m) i \<and> i \<notin> {start..stop})"
    by auto
  ultimately show ?thesis by auto
qed

lemma set_type_eq:
  assumes "fits TYPE('a::len) start stop"
  shows "\<exists>m'. set_type what (m :: 'a word map_type) start stop
                = Some (\<exists>i. bit (get_what what m) i, m') \<and>
    (\<forall>w i. bit (get_what w m') i \<longleftrightarrow>
        bit (get_what w m) i \<or> (w = what \<and> i \<in> {start..stop}))"
proof -
  obtain mask :: "'a word" where mask: "get_mask_type start stop = Some mask"
    and bits: "\<And>i. bit mask i \<longleftrightarrow> start \<le> i \<and> i \<le> stop"
    using get_mask_typeE [OF assms] by metis
  define m' where "m' = put_what what (get_what what m OR mask) m"
  have "set_type what m start stop = Some (\<exists>i. bit (get_what what m) i, m')"
    by (simp add: set_type_def mask m'_def word_eq_0_iff_bit)
  moreover have "\<forall>w i. bit (get_what w m') i \<longleftrightarrow>
        bit (get_what w m) i \<or> (w = what \<and> i \<in> {start..stop})"
  proof (intro allI)
    fix w i
    show "bit (get_what w m') i \<longleftrightarrow>
        bit (get_what w m) i \<or> (w = what \<and> i \<in> {start..stop})"
      by (cases "w = what") (auto simp: m'_def bits bit_or_iff)
  qed
  ultimately show ?thesis by blast
qed

text \<open>The combined operations are the test followed by the update.\<close>

lemma test_and_set_type_eq:
  "test_and_set_type what m start stop all = do {
     t \<leftarrow> test_type what m start stop all;
     (_, m') \<leftarrow> set_type what m start stop;
     Some (t, m') }"
  by (cases "get_mask_type start stop :: 'a::len word option")
    (simp_all add: test_and_set_type_def test_type_def set_type_def)

lemma test_and_clear_type_eq:
  "test_and_clear_type what m start stop all = do {
     t \<leftarrow> test_type what m start stop all;
     (_, m') \<leftarrow> clear_type what m start stop;
     Some (t, m') }"
  by (cases "get_mask_type start stop :: 'a::len word option")
    (simp_all add: test_and_clear_type_def test_type_def clear_type_def)

lemma clear_valid_if_clean_type_eq:
  assumes "fits TYPE('a::len) start stop"
  shows "\<exists>m'. clear_valid_if_clean_type (m :: 'a word map_type) start stop
                = Some (\<exists>i. bit (valid m) i \<and> \<not> (i \<in> {start..stop} \<and> \<not> bit (dirty m) i), m') \<and>
    (\<forall>w i. bit (get_what w m') i \<longleftrightarrow> bit (get_what w m) i \<and>
        \<not> (w = Valid \<and> i \<in> {start..stop} \<and> \<not> bit (dirty m) i))"
proof -
  obtain mask :: "'a word" where mask: "get_mask_type start stop = Some mask"
    and bits: "\<And>i. bit mask i \<longleftrightarrow> start \<le> i \<and> i \<le> stop"
    using get_mask_typeE [OF assms] by metis
  define m' where "m' = m\<lparr>valid := valid m AND ((mask AND dirty m) OR NOT mask)\<rparr>"
  have "clear_valid_if_clean_type m start stop = Some (\<exists>i. bit (get_what Valid m') i, m')"
    by (simp add: clear_valid_if_clean_type_def mask m'_def word_eq_0_iff_bit Let_def)
  moreover have eff: "\<forall>w i. bit (get_what w m') i \<longleftrightarrow> bit (get_what w m) i \<and>
        \<not> (w = Valid \<and> i \<in> {start..stop} \<and> \<not> bit (dirty m) i)"
  proof (intro allI)
    fix w i
    show "bit (get_what w m') i \<longleftrightarrow> bit (get_what w m) i \<and>
        \<not> (w = Valid \<and> i \<in> {start..stop} \<and> \<not> bit (dirty m) i)"
      by (cases w) (auto simp: m'_def bits bit_and_iff bit_or_iff bit_not_iff dest: bit_imp_le_length)
  qed
  moreover have "(\<exists>i. bit (get_what Valid m') i) \<longleftrightarrow>
      (\<exists>i. bit (valid m) i \<and> \<not> (i \<in> {start..stop} \<and> \<not> bit (dirty m) i))"
    using spec [OF eff, of Valid] by auto
  ultimately show ?thesis by auto
qed

lemma clear_dirty_if_invalid_type_eq:
  assumes "fits TYPE('a::len) start stop"
  shows "\<exists>m'. clear_dirty_if_invalid_type (m :: 'a word map_type) start stop = Some m' \<and>
    (\<forall>w i. bit (get_what w m') i \<longleftrightarrow> bit (get_what w m) i \<and>
        \<not> (w = Dirty \<and> i \<in> {start..stop} \<and> \<not> bit (valid m) i))"
proof -
  obtain mask :: "'a word" where mask: "get_mask_type start stop = Some mask"
    and bits: "\<And>i. bit mask i \<longleftrightarrow> start \<le> i \<and> i \<le> stop"
    using get_mask_typeE [OF assms] by metis
  define m' where "m' = m\<lparr>dirty := dirty m AND ((mask AND valid m) OR NOT mask)\<rparr>"
  have "clear_dirty_if_invalid_type m start stop = Some m'"
    by (simp add: clear_dirty_if_invalid_type_def mask m'_def)
  moreover have "\<forall>w i. bit (get_what w m') i \<longleftrightarrow> bit (get_what w m) i \<and>
        \<not> (w = Dirty \<and> i \<in> {start..stop} \<and> \<not> bit (valid m) i)"
  proof (intro allI)
    fix w i
    show "bit (get_what w m') i \<longleftrightarrow> bit (get_what w m) i \<and>
        \<not> (w = Dirty \<and> i \<in> {start..stop} \<and> \<not> bit (valid m) i)"
      by (cases w) (auto simp: m'_def bits bit_and_iff bit_or_iff bit_not_iff dest: bit_imp_le_length)
  qed
  ultimately show ?thesis by blast
qed

lemma check_type_eq:
  "check_type (m :: 'a::len word map_type) \<longleftrightarrow> (\<forall>i. bit (dirty m) i \<longrightarrow> bit (valid m) i)"
  by (auto simp: check_type_def word_eq_0_iff_bit bit_and_iff bit_not_iff dest: bit_imp_le_length)

subsection \<open>The interface the rest of the metadata code uses\<close>

text \<open>
  The contract of the status operations: \<open>sbit\<close> is the set of marked blocks of an entry, \<open>test\<close>
  asks for any or all blocks of a range, \<open>clear\<close> and \<open>set\<close> change exactly the blocks of the range
  and report, as the callers rely on, whether any block remains marked and whether any block was
  marked before.
\<close>

locale sector_status =
  fixes ok :: "'s \<Rightarrow> bool"
    and blocks :: nat
    and sbit :: "what \<Rightarrow> 's \<Rightarrow> nat \<Rightarrow> bool"
    and test :: "what \<Rightarrow> 's \<Rightarrow> nat \<Rightarrow> nat \<Rightarrow> bool \<Rightarrow> bool option"
    and clear :: "what \<Rightarrow> 's \<Rightarrow> nat \<Rightarrow> nat \<Rightarrow> (bool \<times> 's) option"
    and mark :: "what \<Rightarrow> 's \<Rightarrow> nat \<Rightarrow> nat \<Rightarrow> (bool \<times> 's) option"
  assumes sbit_range: "ok s \<Longrightarrow> sbit w s i \<Longrightarrow> i < blocks"
    and test_law: "ok s \<Longrightarrow> a \<le> b \<Longrightarrow> b < blocks \<Longrightarrow> test w s a b all = Some
          (if all then \<forall>i\<in>{a..b}. sbit w s i else \<exists>i\<in>{a..b}. sbit w s i)"
    and clear_law: "ok s \<Longrightarrow> a \<le> b \<Longrightarrow> b < blocks \<Longrightarrow>
          \<exists>s'. clear w s a b = Some (\<exists>i. sbit w s i \<and> i \<notin> {a..b}, s') \<and> ok s' \<and>
            (\<forall>w' i. sbit w' s' i \<longleftrightarrow> sbit w' s i \<and> \<not> (w' = w \<and> i \<in> {a..b}))"
    and mark_law: "ok s \<Longrightarrow> a \<le> b \<Longrightarrow> b < blocks \<Longrightarrow>
          \<exists>s'. mark w s a b = Some (\<exists>i. sbit w s i, s') \<and> ok s' \<and>
            (\<forall>w' i. sbit w' s' i \<longleftrightarrow> sbit w' s i \<or> (w' = w \<and> i \<in> {a..b}))"
begin

lemma clearE:
  assumes "ok s" and "a \<le> b" and "b < blocks"
  obtains s' where "clear w s a b = Some (\<exists>i. sbit w s' i, s')" and "ok s'"
    and "\<And>w' i. sbit w' s' i \<longleftrightarrow> sbit w' s i \<and> \<not> (w' = w \<and> i \<in> {a..b})"
proof -
  obtain s' where s': "clear w s a b = Some (\<exists>i. sbit w s i \<and> i \<notin> {a..b}, s')" "ok s'"
    and bits: "\<forall>w' i. sbit w' s' i \<longleftrightarrow> sbit w' s i \<and> \<not> (w' = w \<and> i \<in> {a..b})"
    using clear_law [OF assms] by blast
  from bits have "(\<exists>i. sbit w s i \<and> i \<notin> {a..b}) = (\<exists>i. sbit w s' i)" by blast
  with s'(1) have "clear w s a b = Some (\<exists>i. sbit w s' i, s')" by simp
  from that [OF this s'(2)] bits show thesis by blast
qed

lemma markE:
  assumes "ok s" and "a \<le> b" and "b < blocks"
  obtains s' where "mark w s a b = Some (\<exists>i. sbit w s i, s')" and "ok s'"
    and "\<And>w' i. sbit w' s' i \<longleftrightarrow> sbit w' s i \<or> (w' = w \<and> i \<in> {a..b})"
  using mark_law [OF assms] by blast

text \<open>A test of the whole line for any mark is the test whether anything is marked.\<close>

lemma test_line_any:
  assumes "ok s" and "0 < blocks"
  shows "test w s 0 (blocks - 1) False = Some (\<exists>i. sbit w s i)"
proof -
  have "(\<exists>i\<in>{0..blocks - 1}. sbit w s i) \<longleftrightarrow> (\<exists>i. sbit w s i)"
    using sbit_range [OF assms(1)] by fastforce
  then show ?thesis using test_law [OF assms(1), of 0 "blocks - 1" w False] assms(2) by simp
qed

text \<open>What is marked is found by a test, what is cleared is not, and the other kind is untouched.\<close>

lemma mark_then_test:
  assumes "ok s" and "a \<le> b" and "b < blocks" and "mark w s a b = Some (r, s')"
  shows "test w s' a b True = Some True"
    and "w' \<noteq> w \<Longrightarrow> test w' s' a b all = test w' s a b all"
proof -
  have ok': "ok s'" and bits: "\<And>w' i. sbit w' s' i \<longleftrightarrow> sbit w' s i \<or> (w' = w \<and> i \<in> {a..b})"
    using markE [OF assms(1-3), of w] assms(4) by fastforce+
  show "test w s' a b True = Some True"
    using test_law [OF ok' assms(2,3), of w True] bits by simp
  show "w' \<noteq> w \<Longrightarrow> test w' s' a b all = test w' s a b all"
    using test_law [OF ok' assms(2,3)] test_law [OF assms(1-3)] bits by simp
qed

lemma clear_then_test:
  assumes "ok s" and "a \<le> b" and "b < blocks" and "clear w s a b = Some (r, s')"
  shows "test w s' a b False = Some False"
    and "w' \<noteq> w \<Longrightarrow> test w' s' a b all = test w' s a b all"
proof -
  have ok': "ok s'" and bits: "\<And>w' i. sbit w' s' i \<longleftrightarrow> sbit w' s i \<and> \<not> (w' = w \<and> i \<in> {a..b})"
    using clearE [OF assms(1-3), of w] assms(4) by fastforce+
  show "test w s' a b False = Some False"
    using test_law [OF ok' assms(2,3), of w False] bits by simp
  show "w' \<noteq> w \<Longrightarrow> test w' s' a b all = test w' s a b all"
    using test_law [OF ok' assms(2,3)] test_law [OF assms(1-3)] bits by simp
qed

end

subsection \<open>The dispatched operations satisfy the contract\<close>

lemmas switch_defs = metadata_switch_def no_type_case_def u8_case_def u16_case_def u32_case_def
  u64_case_def u128_case_def

lemma get_put_what1 [simp]:
  "get_what1 w (put_what1 w' v m) = (if w = w' then v else get_what1 w m)"
  by (cases w; cases w'; simp)

lemma line_blocks_simps [simp]:
  "line_blocks k4 Size_none = 0"
  "line_blocks True Size_4 = 1" "line_blocks True Size_8 = 2" "line_blocks True Size_16 = 4"
  "line_blocks True Size_32 = 8" "line_blocks True Size_64 = 16"
  "line_blocks False Size_4 = 8" "line_blocks False Size_8 = 16" "line_blocks False Size_16 = 32"
  "line_blocks False Size_32 = 64" "line_blocks False Size_64 = 128"
  by (simp_all add: line_blocks_def block_shift_def)

text \<open>The structures each build and line size can hold.\<close>

lemma status_ok_cases:
  assumes "status_ok k4 ls st"
  obtains (no_type) m where "st = St_no_type m" "k4" "ls = Size_4"
  | (u8) m where "st = St_u8 m" "line_blocks k4 ls \<le> 8"
  | (u16) m where "st = St_u16 m" "line_blocks k4 ls \<le> 16"
  | (u32) m where "st = St_u32 m" "line_blocks k4 ls \<le> 32"
  | (u64) m where "st = St_u64 m" "line_blocks k4 ls \<le> 64"
  | (u128) m where "st = St_u128 m" "line_blocks k4 ls \<le> 128"
  using assms unfolding status_ok_def switch_defs
  by (cases k4; cases ls; cases st; simp)

lemma metadata_switch_ok:
  "status_ok k4 ls (St_no_type m) \<Longrightarrow> metadata_switch k4 ls f f8 f16 f32 f64 f128 (St_no_type m') = f m'"
  "status_ok k4 ls (St_u8 m8) \<Longrightarrow> metadata_switch k4 ls f f8 f16 f32 f64 f128 (St_u8 m8') = f8 m8'"
  "status_ok k4 ls (St_u16 m16) \<Longrightarrow> metadata_switch k4 ls f f8 f16 f32 f64 f128 (St_u16 m16') = f16 m16'"
  "status_ok k4 ls (St_u32 m32) \<Longrightarrow> metadata_switch k4 ls f f8 f16 f32 f64 f128 (St_u32 m32') = f32 m32'"
  "status_ok k4 ls (St_u64 m64) \<Longrightarrow> metadata_switch k4 ls f f8 f16 f32 f64 f128 (St_u64 m64') = f64 m64'"
  "status_ok k4 ls (St_u128 m128) \<Longrightarrow>
     metadata_switch k4 ls f f8 f16 f32 f64 f128 (St_u128 m128') = f128 m128'"
  unfolding status_ok_def switch_defs by (cases k4; cases ls; simp)+

lemma status_ok_update:
  "status_ok k4 ls (St_no_type m) \<Longrightarrow> status_ok k4 ls (St_no_type m')"
  "status_ok k4 ls (St_u8 m8) \<Longrightarrow> (\<And>w i. bit (get_what w m8') i \<Longrightarrow> i < line_blocks k4 ls)
     \<Longrightarrow> status_ok k4 ls (St_u8 m8')"
  "status_ok k4 ls (St_u16 m16) \<Longrightarrow> (\<And>w i. bit (get_what w m16') i \<Longrightarrow> i < line_blocks k4 ls)
     \<Longrightarrow> status_ok k4 ls (St_u16 m16')"
  "status_ok k4 ls (St_u32 m32) \<Longrightarrow> (\<And>w i. bit (get_what w m32') i \<Longrightarrow> i < line_blocks k4 ls)
     \<Longrightarrow> status_ok k4 ls (St_u32 m32')"
  "status_ok k4 ls (St_u64 m64) \<Longrightarrow> (\<And>w i. bit (get_what w m64') i \<Longrightarrow> i < line_blocks k4 ls)
     \<Longrightarrow> status_ok k4 ls (St_u64 m64')"
  "status_ok k4 ls (St_u128 m128) \<Longrightarrow> (\<And>w i. bit (get_what w m128') i \<Longrightarrow> i < line_blocks k4 ls)
     \<Longrightarrow> status_ok k4 ls (St_u128 m128')"
  unfolding status_ok_def switch_defs by (cases k4; cases ls; simp)+

lemma status_ok_range: "status_ok k4 ls st \<Longrightarrow> status_bit w st i \<Longrightarrow> i < line_blocks k4 ls"
  by (auto simp: status_ok_def)

lemma st_test_law:
  assumes ok: "status_ok k4 ls st" and "a \<le> b" and "b < line_blocks k4 ls"
  shows "st_test k4 ls w st a b all = Some
    (if all then \<forall>i\<in>{a..b}. status_bit w st i else \<exists>i\<in>{a..b}. status_bit w st i)"
  using ok
proof (cases rule: status_ok_cases)
  case (no_type m)
  with ok assms show ?thesis by (auto simp: st_test_def metadata_switch_ok test_no_type_def)
qed (use ok assms in \<open>simp_all add: st_test_def metadata_switch_ok test_type_eq\<close>)

lemma st_test_out_law:
  assumes ok: "status_ok k4 ls st" and "a \<le> b" and "b < line_blocks k4 ls"
  shows "st_test_out k4 ls w st a b = Some (\<exists>i. i \<notin> {a..b} \<and> status_bit w st i)"
  using ok
proof (cases rule: status_ok_cases)
  case (no_type m)
  with ok assms show ?thesis by (auto simp: st_test_out_def metadata_switch_ok test_out_no_type_def)
qed (use ok assms in \<open>simp_all add: st_test_out_def metadata_switch_ok test_out_type_eq\<close>)

text \<open>
  Lifting the effect of the typed updates to the entry: \<open>flag\<close> is what the operation returns and
  \<open>Q\<close> the bits it leaves.
\<close>

lemma st_lift:
  assumes ok: "status_ok k4 ls st"
    and nt: "\<And>m. st = St_no_type m \<Longrightarrow> k4 \<Longrightarrow> ls = Size_4 \<Longrightarrow>
      \<exists>m'. f m = Some (flag, m') \<and> (\<forall>w i. status_bit w (St_no_type m') i \<longleftrightarrow> Q w i)"
    and t8: "\<And>m. st = St_u8 m \<Longrightarrow> line_blocks k4 ls \<le> 8 \<Longrightarrow>
      \<exists>m'. f8 m = Some (flag, m') \<and> (\<forall>w i. bit (get_what w m') i \<longleftrightarrow> Q w i)"
    and t16: "\<And>m. st = St_u16 m \<Longrightarrow> line_blocks k4 ls \<le> 16 \<Longrightarrow>
      \<exists>m'. f16 m = Some (flag, m') \<and> (\<forall>w i. bit (get_what w m') i \<longleftrightarrow> Q w i)"
    and t32: "\<And>m. st = St_u32 m \<Longrightarrow> line_blocks k4 ls \<le> 32 \<Longrightarrow>
      \<exists>m'. f32 m = Some (flag, m') \<and> (\<forall>w i. bit (get_what w m') i \<longleftrightarrow> Q w i)"
    and t64: "\<And>m. st = St_u64 m \<Longrightarrow> line_blocks k4 ls \<le> 64 \<Longrightarrow>
      \<exists>m'. f64 m = Some (flag, m') \<and> (\<forall>w i. bit (get_what w m') i \<longleftrightarrow> Q w i)"
    and t128: "\<And>m. st = St_u128 m \<Longrightarrow> line_blocks k4 ls \<le> 128 \<Longrightarrow>
      \<exists>m'. f128 m = Some (flag, m') \<and> (\<forall>w i. bit (get_what w m') i \<longleftrightarrow> Q w i)"
    and rng: "\<And>w i. Q w i \<Longrightarrow> i < line_blocks k4 ls"
  shows "\<exists>st'. metadata_switch k4 ls (tag St_no_type f) (tag St_u8 f8) (tag St_u16 f16)
        (tag St_u32 f32) (tag St_u64 f64) (tag St_u128 f128) st = Some (flag, st') \<and>
      status_ok k4 ls st' \<and> (\<forall>w i. status_bit w st' i \<longleftrightarrow> Q w i)"
  using ok
proof (cases rule: status_ok_cases)
  case (no_type m)
  with nt obtain m' where "f m = Some (flag, m')"
    and "\<And>w i. status_bit w (St_no_type m') i \<longleftrightarrow> Q w i" by blast
  with no_type ok show ?thesis
    by (intro exI [of _ "St_no_type m'"])
      (simp add: metadata_switch_ok(1) status_ok_update(1) del: status_bit.simps)
next
  case (u8 m)
  with t8 obtain m' where "f8 m = Some (flag, m')" "\<And>w i. bit (get_what w m') i \<longleftrightarrow> Q w i" by blast
  with u8 ok rng show ?thesis
    by (intro exI [of _ "St_u8 m'"]) (auto simp: metadata_switch_ok(2) intro: status_ok_update(2))
next
  case (u16 m)
  with t16 obtain m' where "f16 m = Some (flag, m')" "\<And>w i. bit (get_what w m') i \<longleftrightarrow> Q w i" by blast
  with u16 ok rng show ?thesis
    by (intro exI [of _ "St_u16 m'"]) (auto simp: metadata_switch_ok(3) intro: status_ok_update(3))
next
  case (u32 m)
  with t32 obtain m' where "f32 m = Some (flag, m')" "\<And>w i. bit (get_what w m') i \<longleftrightarrow> Q w i" by blast
  with u32 ok rng show ?thesis
    by (intro exI [of _ "St_u32 m'"]) (auto simp: metadata_switch_ok(4) intro: status_ok_update(4))
next
  case (u64 m)
  with t64 obtain m' where "f64 m = Some (flag, m')" "\<And>w i. bit (get_what w m') i \<longleftrightarrow> Q w i" by blast
  with u64 ok rng show ?thesis
    by (intro exI [of _ "St_u64 m'"]) (auto simp: metadata_switch_ok(5) intro: status_ok_update(5))
next
  case (u128 m)
  with t128 obtain m' where "f128 m = Some (flag, m')" "\<And>w i. bit (get_what w m') i \<longleftrightarrow> Q w i" by blast
  with u128 ok rng show ?thesis
    by (intro exI [of _ "St_u128 m'"]) (auto simp: metadata_switch_ok(6) intro: status_ok_update(6))
qed

lemma st_clear_law:
  assumes ok: "status_ok k4 ls st" and "a \<le> b" and "b < line_blocks k4 ls"
  shows "\<exists>st'. st_clear k4 ls w st a b = Some (\<exists>i. status_bit w st i \<and> i \<notin> {a..b}, st') \<and>
     status_ok k4 ls st' \<and>
     (\<forall>w' i. status_bit w' st' i \<longleftrightarrow> status_bit w' st i \<and> \<not> (w' = w \<and> i \<in> {a..b}))"
  unfolding st_clear_def
proof (rule st_lift [OF ok])
  fix m assume "st = St_no_type m" "k4" "ls = Size_4"
  with assms show "\<exists>m'. clear_no_type w m a b = Some (\<exists>i. status_bit w st i \<and> i \<notin> {a..b}, m') \<and>
      (\<forall>w' i. status_bit w' (St_no_type m') i \<longleftrightarrow> status_bit w' st i \<and> \<not> (w' = w \<and> i \<in> {a..b}))"
    by (auto simp: clear_no_type_def)
qed (simp_all only: status_bit.simps, (rule clear_type_eq, use assms in simp)+,
     use assms status_ok_range [OF ok] in auto)

lemma st_set_law:
  assumes ok: "status_ok k4 ls st" and "a \<le> b" and "b < line_blocks k4 ls"
  shows "\<exists>st'. st_set k4 ls w st a b = Some (\<exists>i. status_bit w st i, st') \<and>
     status_ok k4 ls st' \<and>
     (\<forall>w' i. status_bit w' st' i \<longleftrightarrow> status_bit w' st i \<or> (w' = w \<and> i \<in> {a..b}))"
  unfolding st_set_def
proof (rule st_lift [OF ok])
  fix m assume "st = St_no_type m" "k4" "ls = Size_4"
  with assms show "\<exists>m'. set_no_type w m a b = Some (\<exists>i. status_bit w st i, m') \<and>
      (\<forall>w' i. status_bit w' (St_no_type m') i \<longleftrightarrow> status_bit w' st i \<or> (w' = w \<and> i \<in> {a..b}))"
    by (auto simp: set_no_type_def)
qed (simp_all only: status_bit.simps, (rule set_type_eq, use assms in simp)+,
     use assms status_ok_range [OF ok] in auto)

text \<open>The combined operations test and then update, whatever the line size.\<close>

lemma map_option_bind: "map_option g (m \<bind> k) = m \<bind> (\<lambda>x. map_option g (k x))"
  by (cases m) simp_all

lemma test_and_set_no_type_eq:
  "test_and_set_no_type what m start stop all = do {
     t \<leftarrow> test_no_type what m start stop all;
     (_, m') \<leftarrow> set_no_type what m start stop;
     Some (t, m') }"
  by (simp add: test_and_set_no_type_def test_no_type_def set_no_type_def)

lemma test_and_clear_no_type_eq:
  "test_and_clear_no_type what m start stop all = do {
     t \<leftarrow> test_no_type what m start stop all;
     (_, m') \<leftarrow> clear_no_type what m start stop;
     Some (t, m') }"
  by (simp add: test_and_clear_no_type_def test_no_type_def clear_no_type_def)

lemma tag_bind:
  "map_option (map_prod id c) (t \<bind> (\<lambda>x. r \<bind> (\<lambda>(_, m'). Some (x, m'))))
   = t \<bind> (\<lambda>x. map_option (map_prod id c) r \<bind> (\<lambda>(_, m'). Some (x, m')))"
  by (cases t; cases r) auto

lemma st_test_and_set_eq:
  "st_test_and_set k4 ls w st a b all = do {
     t \<leftarrow> st_test k4 ls w st a b all;
     (_, st') \<leftarrow> st_set k4 ls w st a b;
     Some (t, st') }"
  unfolding st_test_and_set_def st_test_def st_set_def switch_defs
    test_and_set_type_eq test_and_set_no_type_eq tag_bind
  by (cases k4; cases ls; cases st; simp)

lemma st_test_and_clear_eq:
  "st_test_and_clear k4 ls w st a b all = do {
     t \<leftarrow> st_test k4 ls w st a b all;
     (_, st') \<leftarrow> st_clear k4 ls w st a b;
     Some (t, st') }"
  unfolding st_test_and_clear_def st_test_def st_clear_def switch_defs
    test_and_clear_type_eq test_and_clear_no_type_eq tag_bind
  by (cases k4; cases ls; cases st; simp)

lemma st_clear_valid_if_clean_law:
  assumes ok: "status_ok k4 ls st" and "a \<le> b" and "b < line_blocks k4 ls"
  shows "\<exists>st'. st_clear_valid_if_clean k4 ls st a b = Some
       (\<exists>i. status_bit Valid st i \<and> \<not> (i \<in> {a..b} \<and> \<not> status_bit Dirty st i), st') \<and>
     status_ok k4 ls st' \<and>
     (\<forall>w i. status_bit w st' i \<longleftrightarrow> status_bit w st i \<and>
        \<not> (w = Valid \<and> i \<in> {a..b} \<and> \<not> status_bit Dirty st i))"
  unfolding st_clear_valid_if_clean_def
proof (rule st_lift [OF ok])
  fix m assume st: "st = St_no_type m" "k4" "ls = Size_4"
  show "\<exists>m'. clear_valid_if_clean_no_type m a b = Some
       (\<exists>i. status_bit Valid st i \<and> \<not> (i \<in> {a..b} \<and> \<not> status_bit Dirty st i), m') \<and>
      (\<forall>w i. status_bit w (St_no_type m') i \<longleftrightarrow> status_bit w st i \<and>
        \<not> (w = Valid \<and> i \<in> {a..b} \<and> \<not> status_bit Dirty st i))"
  proof (intro exI conjI allI)
    fix w i
    show "status_bit w (St_no_type (m\<lparr>valid1 := (if \<not> dirty1 m then False else valid1 m)\<rparr>)) i
       \<longleftrightarrow> status_bit w st i \<and> \<not> (w = Valid \<and> i \<in> {a..b} \<and> \<not> status_bit Dirty st i)"
      using assms st by (cases w) auto
  qed (use assms st in \<open>auto simp: clear_valid_if_clean_no_type_def\<close>)
qed (simp_all only: status_bit.simps get_what.simps, (rule clear_valid_if_clean_type_eq, use assms in simp)+,
     use assms status_ok_range [OF ok] in auto)

lemma st_clear_dirty_if_invalid_law:
  assumes ok: "status_ok k4 ls st" and "a \<le> b" and "b < line_blocks k4 ls"
  shows "\<exists>st'. st_clear_dirty_if_invalid k4 ls st a b = Some st' \<and> status_ok k4 ls st' \<and>
     (\<forall>w i. status_bit w st' i \<longleftrightarrow> status_bit w st i \<and>
        \<not> (w = Dirty \<and> i \<in> {a..b} \<and> \<not> status_bit Valid st i))"
    (is "\<exists>st'. ?op = Some st' \<and> _ \<and> (\<forall>w i. _ \<longleftrightarrow> ?Q w i)")
proof -
  let ?t = "\<lambda>m. map_option (Pair True) (clear_dirty_if_invalid_type m a b)"
  let ?n = "\<lambda>m. map_option (Pair True) (clear_dirty_if_invalid_no_type m a b)"
  have typed: "\<exists>m'. map_option (Pair True) (clear_dirty_if_invalid_type m a b) = Some (True, m') \<and>
      (\<forall>w i. bit (get_what w m') i \<longleftrightarrow> bit (get_what w m) i \<and>
        \<not> (w = Dirty \<and> i \<in> {a..b} \<and> \<not> bit (get_what Valid m) i))"
    if "fits TYPE('a) a b" for m :: "'a::len word map_type"
    using clear_dirty_if_invalid_type_eq [OF that, of m] by auto
  have "\<exists>st'. metadata_switch k4 ls (tag St_no_type ?n) (tag St_u8 ?t) (tag St_u16 ?t) (tag St_u32 ?t)
      (tag St_u64 ?t) (tag St_u128 ?t) st = Some (True, st') \<and> status_ok k4 ls st' \<and>
      (\<forall>w i. status_bit w st' i \<longleftrightarrow> ?Q w i)"
  proof (rule st_lift [OF ok])
    fix m assume st: "st = St_no_type m" "k4" "ls = Size_4"
    show "\<exists>m'. ?n m = Some (True, m') \<and> (\<forall>w i. status_bit w (St_no_type m') i \<longleftrightarrow> ?Q w i)"
    proof (intro exI conjI allI)
      fix w i
      show "status_bit w (St_no_type (m\<lparr>dirty1 := (if \<not> valid1 m then False else dirty1 m)\<rparr>)) i
         \<longleftrightarrow> ?Q w i"
        using assms st by (cases w) auto
    qed (use assms st in \<open>auto simp: clear_dirty_if_invalid_no_type_def\<close>)
  qed (simp_all only: status_bit.simps, (rule typed, use assms in simp)+,
       use assms status_ok_range [OF ok] in auto)
  moreover have "?op = map_option snd (metadata_switch k4 ls (tag St_no_type ?n) (tag St_u8 ?t)
      (tag St_u16 ?t) (tag St_u32 ?t) (tag St_u64 ?t) (tag St_u128 ?t) st)"
    unfolding st_clear_dirty_if_invalid_def switch_defs
    by (cases k4; cases ls; cases st; simp add: option.map_comp comp_def)
  ultimately show ?thesis by auto
qed

lemma st_check_law:
  assumes ok: "status_ok k4 ls st"
  shows "st_check k4 ls st = Some (\<forall>i. status_bit Dirty st i \<longrightarrow> status_bit Valid st i)"
  using ok by (cases rule: status_ok_cases)
    (use ok in \<open>auto simp: st_check_def metadata_switch_ok check_type_eq check_no_type_def\<close>)

interpretation line_status: sector_status "status_ok k4 ls" "line_blocks k4 ls" status_bit
  "st_test k4 ls" "st_clear k4 ls" "st_set k4 ls"
  for k4 ls
  by unfold_locales (fact status_ok_range st_test_law st_clear_law st_set_law)+

end
