(* ===== verification/Metadata_Status.thy ===== *)
theory Metadata_Status
  imports Metadata_Bits
begin

section \<open>Status of cache lines in the collision segment\<close>

text \<open>
  The status functions as the rest of the library calls them: \<open>src/metadata/metadata_status.h\<close>, the
  functions generated by \<open>_ocf_metadata_funcs\<close> in \<open>src/metadata/metadata.c\<close> and the block
  arithmetic of \<open>src/metadata/metadata_cache_line.h\<close>. The collision segment is an array of
  \<open>ocf_metadata_map\<close> entries, indexed by cache line; an access beyond \<open>collision_table_entries\<close>
  fails the assertion in \<open>_raw_bug_on\<close>.
\<close>

record ocf_metadata_map =
  core_line :: nat
  core_id :: nat
  status :: map_status

record md_state =
  block_4k :: bool
  line_size :: ocf_cache_line_size
  collision_table_entries :: nat
  collision :: "nat \<Rightarrow> ocf_metadata_map"

definition ocf_line_blocks :: "'z md_state_scheme \<Rightarrow> nat" where
  "ocf_line_blocks s = line_blocks (block_4k s) (line_size s)"

text \<open>\<open>ocf_line_end_block\<close> is unsigned 64-bit arithmetic: it wraps when the line has no block.\<close>

definition ocf_line_end_block :: "'z md_state_scheme \<Rightarrow> nat" where
  "ocf_line_end_block s = (ocf_line_blocks s + (2 ^ 64 - 1)) mod 2 ^ 64"

abbreviation line_status :: "'z md_state_scheme \<Rightarrow> nat \<Rightarrow> map_status" where
  "line_status s line \<equiv> status (collision s line)"

definition set_status :: "nat \<Rightarrow> map_status \<Rightarrow> 'z md_state_scheme \<Rightarrow> 'z md_state_scheme" where
  "set_status line st s =
     s\<lparr>collision := (collision s)(line := (collision s line)\<lparr>status := st\<rparr>)\<rparr>"

definition raw_bug_on :: "'z md_state_scheme \<Rightarrow> nat \<Rightarrow> unit option" where
  "raw_bug_on s line = bug_on (\<not> line < collision_table_entries s)"

subsection \<open>The functions generated by the macros\<close>

definition ocf_metadata_test ::
  "what \<Rightarrow> 'z md_state_scheme \<Rightarrow> nat \<Rightarrow> nat \<Rightarrow> nat \<Rightarrow> bool \<Rightarrow> bool option" where
  "ocf_metadata_test what s line start stop all = do {
     raw_bug_on s line;
     st_test (block_4k s) (line_size s) what (line_status s line) start stop all }"

definition ocf_metadata_test_out ::
  "what \<Rightarrow> 'z md_state_scheme \<Rightarrow> nat \<Rightarrow> nat \<Rightarrow> nat \<Rightarrow> bool option" where
  "ocf_metadata_test_out what s line start stop = do {
     raw_bug_on s line;
     st_test_out (block_4k s) (line_size s) what (line_status s line) start stop }"

definition ocf_metadata_clear ::
  "what \<Rightarrow> 'z md_state_scheme \<Rightarrow> nat \<Rightarrow> nat \<Rightarrow> nat \<Rightarrow> (bool \<times> 'z md_state_scheme) option" where
  "ocf_metadata_clear what s line start stop = do {
     raw_bug_on s line;
     (r, st) \<leftarrow> st_clear (block_4k s) (line_size s) what (line_status s line) start stop;
     Some (r, set_status line st s) }"

definition ocf_metadata_set ::
  "what \<Rightarrow> 'z md_state_scheme \<Rightarrow> nat \<Rightarrow> nat \<Rightarrow> nat \<Rightarrow> (bool \<times> 'z md_state_scheme) option" where
  "ocf_metadata_set what s line start stop = do {
     raw_bug_on s line;
     (r, st) \<leftarrow> st_set (block_4k s) (line_size s) what (line_status s line) start stop;
     Some (r, set_status line st s) }"

definition ocf_metadata_test_and_set ::
  "what \<Rightarrow> 'z md_state_scheme \<Rightarrow> nat \<Rightarrow> nat \<Rightarrow> nat \<Rightarrow> bool \<Rightarrow> (bool \<times> 'z md_state_scheme) option" where
  "ocf_metadata_test_and_set what s line start stop all = do {
     raw_bug_on s line;
     (r, st) \<leftarrow> st_test_and_set (block_4k s) (line_size s) what (line_status s line) start stop all;
     Some (r, set_status line st s) }"

definition ocf_metadata_test_and_clear ::
  "what \<Rightarrow> 'z md_state_scheme \<Rightarrow> nat \<Rightarrow> nat \<Rightarrow> nat \<Rightarrow> bool \<Rightarrow> (bool \<times> 'z md_state_scheme) option" where
  "ocf_metadata_test_and_clear what s line start stop all = do {
     raw_bug_on s line;
     (r, st) \<leftarrow> st_test_and_clear (block_4k s) (line_size s) what (line_status s line) start stop all;
     Some (r, set_status line st s) }"

definition ocf_metadata_clear_valid_if_clean ::
  "'z md_state_scheme \<Rightarrow> nat \<Rightarrow> nat \<Rightarrow> nat \<Rightarrow> (bool \<times> 'z md_state_scheme) option" where
  "ocf_metadata_clear_valid_if_clean s line start stop = do {
     raw_bug_on s line;
     (r, st) \<leftarrow> st_clear_valid_if_clean (block_4k s) (line_size s) (line_status s line) start stop;
     Some (r, set_status line st s) }"

definition ocf_metadata_clear_dirty_if_invalid ::
  "'z md_state_scheme \<Rightarrow> nat \<Rightarrow> nat \<Rightarrow> nat \<Rightarrow> 'z md_state_scheme option" where
  "ocf_metadata_clear_dirty_if_invalid s line start stop = do {
     raw_bug_on s line;
     st \<leftarrow> st_clear_dirty_if_invalid (block_4k s) (line_size s) (line_status s line) start stop;
     Some (set_status line st s) }"

definition ocf_metadata_check :: "'z md_state_scheme \<Rightarrow> nat \<Rightarrow> bool option" where
  "ocf_metadata_check s line = do {
     raw_bug_on s line;
     st_check (block_4k s) (line_size s) (line_status s line) }"

subsection \<open>Dirty bits\<close>

definition metadata_init_status_bits :: "'z md_state_scheme \<Rightarrow> nat \<Rightarrow> 'z md_state_scheme option" where
  "metadata_init_status_bits s line = do {
     (_, s) \<leftarrow> ocf_metadata_clear Dirty s line 0 (ocf_line_end_block s);
     (_, s) \<leftarrow> ocf_metadata_clear Valid s line 0 (ocf_line_end_block s);
     Some s }"

definition metadata_test_dirty_all :: "'z md_state_scheme \<Rightarrow> nat \<Rightarrow> bool option" where
  "metadata_test_dirty_all s line = ocf_metadata_test Dirty s line 0 (ocf_line_end_block s) True"

definition metadata_test_dirty :: "'z md_state_scheme \<Rightarrow> nat \<Rightarrow> bool option" where
  "metadata_test_dirty s line = ocf_metadata_test Dirty s line 0 (ocf_line_end_block s) False"

definition metadata_set_dirty :: "'z md_state_scheme \<Rightarrow> nat \<Rightarrow> 'z md_state_scheme option" where
  "metadata_set_dirty s line =
     map_option snd (ocf_metadata_set Dirty s line 0 (ocf_line_end_block s))"

definition metadata_clear_dirty :: "'z md_state_scheme \<Rightarrow> nat \<Rightarrow> 'z md_state_scheme option" where
  "metadata_clear_dirty s line =
     map_option snd (ocf_metadata_clear Dirty s line 0 (ocf_line_end_block s))"

definition metadata_test_and_clear_dirty ::
  "'z md_state_scheme \<Rightarrow> nat \<Rightarrow> (bool \<times> 'z md_state_scheme) option" where
  "metadata_test_and_clear_dirty s line =
     ocf_metadata_test_and_clear Dirty s line 0 (ocf_line_end_block s) False"

definition metadata_test_and_set_dirty ::
  "'z md_state_scheme \<Rightarrow> nat \<Rightarrow> (bool \<times> 'z md_state_scheme) option" where
  "metadata_test_and_set_dirty s line =
     ocf_metadata_test_and_set Dirty s line 0 (ocf_line_end_block s) False"

definition metadata_test_dirty_sec :: "'z md_state_scheme \<Rightarrow> nat \<Rightarrow> nat \<Rightarrow> nat \<Rightarrow> bool option" where
  "metadata_test_dirty_sec s line start stop = ocf_metadata_test Dirty s line start stop False"

definition metadata_test_dirty_all_sec :: "'z md_state_scheme \<Rightarrow> nat \<Rightarrow> nat \<Rightarrow> nat \<Rightarrow> bool option" where
  "metadata_test_dirty_all_sec s line start stop = ocf_metadata_test Dirty s line start stop True"

definition metadata_test_dirty_one :: "'z md_state_scheme \<Rightarrow> nat \<Rightarrow> nat \<Rightarrow> bool option" where
  "metadata_test_dirty_one s line pos = metadata_test_dirty_sec s line pos pos"

definition metadata_test_dirty_out_sec :: "'z md_state_scheme \<Rightarrow> nat \<Rightarrow> nat \<Rightarrow> nat \<Rightarrow> bool option" where
  "metadata_test_dirty_out_sec s line start stop = ocf_metadata_test_out Dirty s line start stop"

definition metadata_set_dirty_sec ::
  "'z md_state_scheme \<Rightarrow> nat \<Rightarrow> nat \<Rightarrow> nat \<Rightarrow> 'z md_state_scheme option" where
  "metadata_set_dirty_sec s line start stop =
     map_option snd (ocf_metadata_set Dirty s line start stop)"

definition metadata_clear_dirty_sec ::
  "'z md_state_scheme \<Rightarrow> nat \<Rightarrow> nat \<Rightarrow> nat \<Rightarrow> 'z md_state_scheme option" where
  "metadata_clear_dirty_sec s line start stop =
     map_option snd (ocf_metadata_clear Dirty s line start stop)"

definition metadata_set_dirty_sec_one ::
  "'z md_state_scheme \<Rightarrow> nat \<Rightarrow> nat \<Rightarrow> 'z md_state_scheme option" where
  "metadata_set_dirty_sec_one s line pos =
     map_option snd (ocf_metadata_set Dirty s line pos pos)"

definition metadata_clear_dirty_sec_one ::
  "'z md_state_scheme \<Rightarrow> nat \<Rightarrow> nat \<Rightarrow> 'z md_state_scheme option" where
  "metadata_clear_dirty_sec_one s line pos =
     map_option snd (ocf_metadata_clear Dirty s line pos pos)"

definition metadata_test_and_clear_dirty_sec ::
  "'z md_state_scheme \<Rightarrow> nat \<Rightarrow> nat \<Rightarrow> nat \<Rightarrow> (bool \<times> 'z md_state_scheme) option" where
  "metadata_test_and_clear_dirty_sec s line start stop =
     ocf_metadata_test_and_clear Dirty s line start stop False"

text \<open>The functions with an output parameter return it beside their result.\<close>

definition metadata_clear_dirty_sec_changed ::
  "'z md_state_scheme \<Rightarrow> nat \<Rightarrow> nat \<Rightarrow> nat \<Rightarrow> (bool \<times> bool \<times> 'z md_state_scheme) option" where
  "metadata_clear_dirty_sec_changed s line start stop = do {
     sec_changed \<leftarrow> ocf_metadata_test Dirty s line start stop False;
     (r, s) \<leftarrow> ocf_metadata_clear Dirty s line start stop;
     let line_is_clean = (\<not> r);
     Some (sec_changed, line_is_clean, s) }"

definition metadata_set_dirty_sec_changed ::
  "'z md_state_scheme \<Rightarrow> nat \<Rightarrow> nat \<Rightarrow> nat \<Rightarrow> (bool \<times> bool \<times> 'z md_state_scheme) option" where
  "metadata_set_dirty_sec_changed s line start stop = do {
     t \<leftarrow> ocf_metadata_test Dirty s line start stop True;
     let sec_changed = (\<not> t);
     (line_was_dirty, s) \<leftarrow> ocf_metadata_set Dirty s line start stop;
     Some (sec_changed, line_was_dirty, s) }"

subsection \<open>Valid bits\<close>

definition metadata_test_valid_any :: "'z md_state_scheme \<Rightarrow> nat \<Rightarrow> bool option" where
  "metadata_test_valid_any s line = ocf_metadata_test Valid s line 0 (ocf_line_end_block s) False"

definition metadata_test_valid :: "'z md_state_scheme \<Rightarrow> nat \<Rightarrow> bool option" where
  "metadata_test_valid s line = ocf_metadata_test Valid s line 0 (ocf_line_end_block s) True"

definition metadata_set_valid :: "'z md_state_scheme \<Rightarrow> nat \<Rightarrow> 'z md_state_scheme option" where
  "metadata_set_valid s line =
     map_option snd (ocf_metadata_set Valid s line 0 (ocf_line_end_block s))"

definition metadata_clear_valid :: "'z md_state_scheme \<Rightarrow> nat \<Rightarrow> 'z md_state_scheme option" where
  "metadata_clear_valid s line =
     map_option snd (ocf_metadata_clear Valid s line 0 (ocf_line_end_block s))"

definition metadata_clear_valid_if_clean ::
  "'z md_state_scheme \<Rightarrow> nat \<Rightarrow> (bool \<times> 'z md_state_scheme) option" where
  "metadata_clear_valid_if_clean s line =
     ocf_metadata_clear_valid_if_clean s line 0 (ocf_line_end_block s)"

definition metadata_test_and_clear_valid ::
  "'z md_state_scheme \<Rightarrow> nat \<Rightarrow> (bool \<times> 'z md_state_scheme) option" where
  "metadata_test_and_clear_valid s line =
     ocf_metadata_test_and_clear Valid s line 0 (ocf_line_end_block s) True"

definition metadata_test_and_set_valid ::
  "'z md_state_scheme \<Rightarrow> nat \<Rightarrow> (bool \<times> 'z md_state_scheme) option" where
  "metadata_test_and_set_valid s line =
     ocf_metadata_test_and_set Valid s line 0 (ocf_line_end_block s) True"

definition metadata_clear_dirty_if_invalid ::
  "'z md_state_scheme \<Rightarrow> nat \<Rightarrow> 'z md_state_scheme option" where
  "metadata_clear_dirty_if_invalid s line =
     ocf_metadata_clear_dirty_if_invalid s line 0 (ocf_line_end_block s)"

definition metadata_test_valid_sec :: "'z md_state_scheme \<Rightarrow> nat \<Rightarrow> nat \<Rightarrow> nat \<Rightarrow> bool option" where
  "metadata_test_valid_sec s line start stop = ocf_metadata_test Valid s line start stop True"

definition metadata_test_valid_any_out_sec ::
  "'z md_state_scheme \<Rightarrow> nat \<Rightarrow> nat \<Rightarrow> nat \<Rightarrow> bool option" where
  "metadata_test_valid_any_out_sec s line start stop = ocf_metadata_test_out Valid s line start stop"

definition metadata_test_valid_one :: "'z md_state_scheme \<Rightarrow> nat \<Rightarrow> nat \<Rightarrow> bool option" where
  "metadata_test_valid_one s line pos = metadata_test_valid_sec s line pos pos"

definition metadata_set_valid_sec_changed ::
  "'z md_state_scheme \<Rightarrow> nat \<Rightarrow> nat \<Rightarrow> nat \<Rightarrow> (bool \<times> 'z md_state_scheme) option" where
  "metadata_set_valid_sec_changed s line start stop = do {
     (r, s) \<leftarrow> ocf_metadata_set Valid s line start stop;
     Some (\<not> r, s) }"

definition metadata_clear_valid_sec ::
  "'z md_state_scheme \<Rightarrow> nat \<Rightarrow> nat \<Rightarrow> nat \<Rightarrow> 'z md_state_scheme option" where
  "metadata_clear_valid_sec s line start stop =
     map_option snd (ocf_metadata_clear Valid s line start stop)"

definition metadata_clear_valid_sec_one ::
  "'z md_state_scheme \<Rightarrow> nat \<Rightarrow> nat \<Rightarrow> 'z md_state_scheme option" where
  "metadata_clear_valid_sec_one s line pos =
     map_option snd (ocf_metadata_clear Valid s line pos pos)"

definition metadata_set_valid_sec_one ::
  "'z md_state_scheme \<Rightarrow> nat \<Rightarrow> nat \<Rightarrow> 'z md_state_scheme option" where
  "metadata_set_valid_sec_one s line pos =
     map_option snd (ocf_metadata_set Valid s line pos pos)"

definition metadata_clear_valid_sec_changed ::
  "'z md_state_scheme \<Rightarrow> nat \<Rightarrow> nat \<Rightarrow> nat \<Rightarrow> (bool \<times> bool \<times> 'z md_state_scheme) option" where
  "metadata_clear_valid_sec_changed s line start stop = do {
     line_was_valid \<leftarrow> ocf_metadata_test Valid s line 0 (ocf_line_end_block s) False;
     (line_remains_valid, s) \<leftarrow> ocf_metadata_clear Valid s line start stop;
     Some (line_was_valid \<and> \<not> line_remains_valid, line_remains_valid, s) }"

subsection \<open>Sets of blocks: the abstract status of a line\<close>

definition marked :: "what \<Rightarrow> 'z md_state_scheme \<Rightarrow> nat \<Rightarrow> nat set" where
  "marked w s line = {i. status_bit w (line_status s line) i}"

definition md_ok :: "'z md_state_scheme \<Rightarrow> bool" where
  "md_ok s \<longleftrightarrow> line_size s \<noteq> Size_none \<and>
     (\<forall>line < collision_table_entries s. status_ok (block_4k s) (line_size s) (line_status s line))"

text \<open>
  \<open>remarked w line B s s'\<close>: the state \<open>s'\<close> is \<open>s\<close> with the blocks of kind \<open>w\<close> of one line set to
  \<open>B\<close>; the other kind, the other lines and every other field are those of \<open>s\<close>.
\<close>

definition remarked :: "what \<Rightarrow> nat \<Rightarrow> nat set \<Rightarrow> 'z md_state_scheme \<Rightarrow> 'z md_state_scheme \<Rightarrow> bool" where
  "remarked w line B s s' \<longleftrightarrow> md_ok s' \<and> (\<exists>st. s' = set_status line st s) \<and>
     marked w s' line = B \<and> (\<forall>w'. w' \<noteq> w \<longrightarrow> marked w' s' line = marked w' s line)"

lemma set_status_simps [simp]:
  "block_4k (set_status line st s) = block_4k s"
  "line_size (set_status line st s) = line_size s"
  "collision_table_entries (set_status line st s) = collision_table_entries s"
  "line_status (set_status line st s) line' = (if line' = line then st else line_status s line')"
  "core_id (collision (set_status line st s) line') = core_id (collision s line')"
  "core_line (collision (set_status line st s) line') = core_line (collision s line')"
  "ocf_line_blocks (set_status line st s) = ocf_line_blocks s"
  "ocf_line_end_block (set_status line st s) = ocf_line_end_block s"
  by (simp_all add: set_status_def ocf_line_blocks_def ocf_line_end_block_def)

lemma line_blocks_pos: "ls \<noteq> Size_none \<Longrightarrow> 0 < line_blocks k4 ls \<and> line_blocks k4 ls \<le> 128"
  by (cases k4; cases ls; simp)

lemma ocf_line_end_block_eq:
  "md_ok s \<Longrightarrow> ocf_line_end_block s = ocf_line_blocks s - 1"
  "md_ok s \<Longrightarrow> 0 < ocf_line_blocks s"
proof -
  assume "md_ok s"
  then have b: "0 < ocf_line_blocks s" "ocf_line_blocks s \<le> 128"
    using line_blocks_pos [of "line_size s" "block_4k s"] by (simp_all add: md_ok_def ocf_line_blocks_def)
  then have "ocf_line_blocks s + (2 ^ 64 - 1) = (ocf_line_blocks s - 1) + 2 ^ 64" by simp
  then show "ocf_line_end_block s = ocf_line_blocks s - 1"
    using b unfolding ocf_line_end_block_def by (simp only: mod_add_self2) simp
  show "0 < ocf_line_blocks s" by (fact b)
qed

lemma md_okD: "md_ok s \<Longrightarrow> line < collision_table_entries s \<Longrightarrow>
    status_ok (block_4k s) (line_size s) (line_status s line)"
  by (simp add: md_ok_def)

lemma marked_bound:
  "md_ok s \<Longrightarrow> line < collision_table_entries s \<Longrightarrow> marked w s line \<subseteq> {..<ocf_line_blocks s}"
  by (auto simp: marked_def ocf_line_blocks_def dest!: md_okD dest: status_ok_range)

lemma md_ok_set_status:
  "md_ok s \<Longrightarrow> status_ok (block_4k s) (line_size s) st \<Longrightarrow> md_ok (set_status line st s)"
  by (simp add: md_ok_def)

lemma ocf_metadata_test_eq:
  assumes "md_ok s" "line < collision_table_entries s" "a \<le> b" "b < ocf_line_blocks s"
  shows "ocf_metadata_test w s line a b all =
     Some (if all then {a..b} \<subseteq> marked w s line else {a..b} \<inter> marked w s line \<noteq> {})"
  using st_test_law [OF md_okD [OF assms(1,2)], of a b w all] assms
  by (auto simp: ocf_metadata_test_def raw_bug_on_def marked_def ocf_line_blocks_def subset_eq)

lemma ocf_metadata_test_out_eq:
  assumes "md_ok s" "line < collision_table_entries s" "a \<le> b" "b < ocf_line_blocks s"
  shows "ocf_metadata_test_out w s line a b = Some (\<not> marked w s line \<subseteq> {a..b})"
  using st_test_out_law [OF md_okD [OF assms(1,2)], of a b w] assms
  by (auto simp: ocf_metadata_test_out_def raw_bug_on_def marked_def ocf_line_blocks_def subset_eq)

lemma ocf_metadata_clear_eq:
  assumes "md_ok s" "line < collision_table_entries s" "a \<le> b" "b < ocf_line_blocks s"
  shows "\<exists>s'. ocf_metadata_clear w s line a b = Some (marked w s' line \<noteq> {}, s') \<and>
     remarked w line (marked w s line - {a..b}) s s'"
proof -
  obtain st where st: "st_clear (block_4k s) (line_size s) w (line_status s line) a b
        = Some (\<exists>i. status_bit w st i, st)" "status_ok (block_4k s) (line_size s) st"
      "\<And>w' i. status_bit w' st i \<longleftrightarrow> status_bit w' (line_status s line) i \<and> \<not> (w' = w \<and> i \<in> {a..b})"
    using line_status.clearE [OF md_okD [OF assms(1,2)] assms(3)] assms(4)
    by (metis ocf_line_blocks_def)
  then have "ocf_metadata_clear w s line a b = Some (marked w (set_status line st s) line \<noteq> {}, set_status line st s)"
    using assms by (simp add: ocf_metadata_clear_def raw_bug_on_def marked_def)
  moreover have "remarked w line (marked w s line - {a..b}) s (set_status line st s)"
    using assms st by (auto simp: remarked_def marked_def md_ok_set_status)
  ultimately show ?thesis by blast
qed

lemma ocf_metadata_set_eq:
  assumes "md_ok s" "line < collision_table_entries s" "a \<le> b" "b < ocf_line_blocks s"
  shows "\<exists>s'. ocf_metadata_set w s line a b = Some (marked w s line \<noteq> {}, s') \<and>
     remarked w line (marked w s line \<union> {a..b}) s s'"
proof -
  obtain st where st: "st_set (block_4k s) (line_size s) w (line_status s line) a b
        = Some (\<exists>i. status_bit w (line_status s line) i, st)" "status_ok (block_4k s) (line_size s) st"
      "\<And>w' i. status_bit w' st i \<longleftrightarrow> status_bit w' (line_status s line) i \<or> (w' = w \<and> i \<in> {a..b})"
    using line_status.markE [OF md_okD [OF assms(1,2)] assms(3)] assms(4)
    by (metis ocf_line_blocks_def)
  then have "ocf_metadata_set w s line a b = Some (marked w s line \<noteq> {}, set_status line st s)"
    using assms by (simp add: ocf_metadata_set_def raw_bug_on_def marked_def)
  moreover have "remarked w line (marked w s line \<union> {a..b}) s (set_status line st s)"
    using assms st by (auto simp: remarked_def marked_def md_ok_set_status)
  ultimately show ?thesis by blast
qed

lemma ocf_metadata_clear_valid_if_clean_eq:
  assumes "md_ok s" "line < collision_table_entries s" "a \<le> b" "b < ocf_line_blocks s"
  shows "\<exists>s'. ocf_metadata_clear_valid_if_clean s line a b = Some (marked Valid s' line \<noteq> {}, s') \<and>
     remarked Valid line (marked Valid s line - ({a..b} - marked Dirty s line)) s s'"
proof -
  obtain st where st: "st_clear_valid_if_clean (block_4k s) (line_size s) (line_status s line) a b
       = Some (\<exists>i. status_bit Valid (line_status s line) i \<and>
            \<not> (i \<in> {a..b} \<and> \<not> status_bit Dirty (line_status s line) i), st)"
      "status_ok (block_4k s) (line_size s) st"
      "\<And>w i. status_bit w st i \<longleftrightarrow> status_bit w (line_status s line) i \<and>
        \<not> (w = Valid \<and> i \<in> {a..b} \<and> \<not> status_bit Dirty (line_status s line) i)"
    using st_clear_valid_if_clean_law [OF md_okD [OF assms(1,2)], of a b] assms(3,4)
    by (auto simp: ocf_line_blocks_def)
  moreover have "remarked Valid line (marked Valid s line - ({a..b} - marked Dirty s line)) s
      (set_status line st s)"
    using assms st by (auto simp: remarked_def marked_def md_ok_set_status)
  ultimately show ?thesis
    using assms by (intro exI [of _ "set_status line st s"])
      (auto simp: ocf_metadata_clear_valid_if_clean_def raw_bug_on_def marked_def)
qed

lemma ocf_metadata_clear_dirty_if_invalid_eq:
  assumes "md_ok s" "line < collision_table_entries s" "a \<le> b" "b < ocf_line_blocks s"
  shows "\<exists>s'. ocf_metadata_clear_dirty_if_invalid s line a b = Some s' \<and>
     remarked Dirty line (marked Dirty s line - ({a..b} - marked Valid s line)) s s'"
proof -
  obtain st where st: "st_clear_dirty_if_invalid (block_4k s) (line_size s) (line_status s line) a b
       = Some st" "status_ok (block_4k s) (line_size s) st"
      "\<And>w i. status_bit w st i \<longleftrightarrow> status_bit w (line_status s line) i \<and>
        \<not> (w = Dirty \<and> i \<in> {a..b} \<and> \<not> status_bit Valid (line_status s line) i)"
    using st_clear_dirty_if_invalid_law [OF md_okD [OF assms(1,2)], of a b] assms(3,4)
    by (auto simp: ocf_line_blocks_def)
  moreover have "remarked Dirty line (marked Dirty s line - ({a..b} - marked Valid s line)) s
      (set_status line st s)"
    using assms st by (auto simp: remarked_def marked_def md_ok_set_status)
  ultimately show ?thesis
    using assms by (simp add: ocf_metadata_clear_dirty_if_invalid_def raw_bug_on_def)
qed

lemma ocf_metadata_check_eq:
  assumes "md_ok s" "line < collision_table_entries s"
  shows "ocf_metadata_check s line = Some (marked Dirty s line \<subseteq> marked Valid s line)"
  using st_check_law [OF md_okD [OF assms]] assms
  by (auto simp: ocf_metadata_check_def raw_bug_on_def marked_def subset_eq)

lemma ocf_metadata_test_and_set_eq:
  "ocf_metadata_test_and_set w s line a b all = do {
     t \<leftarrow> ocf_metadata_test w s line a b all;
     (_, s') \<leftarrow> ocf_metadata_set w s line a b;
     Some (t, s') }"
  by (auto simp: ocf_metadata_test_and_set_def ocf_metadata_test_def ocf_metadata_set_def raw_bug_on_def
      st_test_and_set_eq Option.bind_assoc split: prod.split intro!: Option.bind_cong)

lemma ocf_metadata_test_and_clear_eq:
  "ocf_metadata_test_and_clear w s line a b all = do {
     t \<leftarrow> ocf_metadata_test w s line a b all;
     (_, s') \<leftarrow> ocf_metadata_clear w s line a b;
     Some (t, s') }"
  by (auto simp: ocf_metadata_test_and_clear_def ocf_metadata_test_def ocf_metadata_clear_def raw_bug_on_def
      st_test_and_clear_eq Option.bind_assoc split: prod.split intro!: Option.bind_cong)

subsection \<open>What the status functions compute\<close>

lemma whole_line:
  assumes "md_ok s" "line < collision_table_entries s"
  shows "0 \<le> ocf_line_end_block s" "ocf_line_end_block s < ocf_line_blocks s"
    "{0..ocf_line_end_block s} \<inter> marked w s line = marked w s line"
    "{0..ocf_line_end_block s} \<subseteq> marked w s line \<longleftrightarrow> marked w s line = {..<ocf_line_blocks s}"
    "marked w s line - {0..ocf_line_end_block s} = {}"
    "marked w s line \<union> {0..ocf_line_end_block s} = {..<ocf_line_blocks s}"
proof -
  have rng: "{0..ocf_line_end_block s} = {..<ocf_line_blocks s}"
    using ocf_line_end_block_eq [OF assms(1)] by auto
  show "0 \<le> ocf_line_end_block s" by simp
  show "ocf_line_end_block s < ocf_line_blocks s" using ocf_line_end_block_eq [OF assms(1)] by simp
  show "{0..ocf_line_end_block s} \<inter> marked w s line = marked w s line"
    "{0..ocf_line_end_block s} \<subseteq> marked w s line \<longleftrightarrow> marked w s line = {..<ocf_line_blocks s}"
    "marked w s line - {0..ocf_line_end_block s} = {}"
    "marked w s line \<union> {0..ocf_line_end_block s} = {..<ocf_line_blocks s}"
    unfolding rng using marked_bound [OF assms, of w] by auto
qed

lemmas test_eqs = ocf_metadata_test_eq ocf_metadata_test_out_eq

lemma line_tests:
  assumes ok: "md_ok s" "line < collision_table_entries s" and rng: "a \<le> b" "b < ocf_line_blocks s"
  shows "metadata_test_dirty s line = Some (marked Dirty s line \<noteq> {}) \<and>
    metadata_test_dirty_all s line = Some (marked Dirty s line = {..<ocf_line_blocks s}) \<and>
    metadata_test_dirty_sec s line a b = Some ({a..b} \<inter> marked Dirty s line \<noteq> {}) \<and>
    metadata_test_dirty_all_sec s line a b = Some ({a..b} \<subseteq> marked Dirty s line) \<and>
    metadata_test_dirty_one s line a = Some (a \<in> marked Dirty s line) \<and>
    metadata_test_dirty_out_sec s line a b = Some (\<not> marked Dirty s line \<subseteq> {a..b}) \<and>
    metadata_test_valid_any s line = Some (marked Valid s line \<noteq> {}) \<and>
    metadata_test_valid s line = Some (marked Valid s line = {..<ocf_line_blocks s}) \<and>
    metadata_test_valid_sec s line a b = Some ({a..b} \<subseteq> marked Valid s line) \<and>
    metadata_test_valid_one s line a = Some (a \<in> marked Valid s line) \<and>
    metadata_test_valid_any_out_sec s line a b = Some (\<not> marked Valid s line \<subseteq> {a..b}) \<and>
    ocf_metadata_check s line = Some (marked Dirty s line \<subseteq> marked Valid s line)"
  using whole_line [OF ok] test_eqs [OF ok rng] test_eqs [OF ok, of a a]
    test_eqs [OF ok, of 0 "ocf_line_end_block s"] rng
  by (simp add: metadata_test_dirty_def metadata_test_dirty_all_def metadata_test_dirty_sec_def
      metadata_test_dirty_all_sec_def metadata_test_dirty_one_def metadata_test_dirty_out_sec_def
      metadata_test_valid_any_def metadata_test_valid_def metadata_test_valid_sec_def
      metadata_test_valid_one_def metadata_test_valid_any_out_sec_def ocf_metadata_check_eq ok)

text \<open>
  Every test of the status header answers about the set of marked blocks: the line tests ask
  for any or all blocks of the line, the sector tests for any, all, one or outside a range, and the
  consistency check for dirty blocks that are not valid.
\<close>

theorem line_tests_correct:
  assumes ok: "md_ok s" "line < collision_table_entries s" and rng: "a \<le> b" "b < ocf_line_blocks s"
  shows "metadata_test_dirty s line = Some (marked Dirty s line \<noteq> {}) \<and>
    metadata_test_dirty_all s line = Some (marked Dirty s line = {..<ocf_line_blocks s}) \<and>
    metadata_test_dirty_sec s line a b = Some ({a..b} \<inter> marked Dirty s line \<noteq> {}) \<and>
    metadata_test_dirty_all_sec s line a b = Some ({a..b} \<subseteq> marked Dirty s line) \<and>
    metadata_test_dirty_one s line a = Some (a \<in> marked Dirty s line) \<and>
    metadata_test_dirty_out_sec s line a b = Some (\<not> marked Dirty s line \<subseteq> {a..b}) \<and>
    metadata_test_valid_any s line = Some (marked Valid s line \<noteq> {}) \<and>
    metadata_test_valid s line = Some (marked Valid s line = {..<ocf_line_blocks s}) \<and>
    metadata_test_valid_sec s line a b = Some ({a..b} \<subseteq> marked Valid s line) \<and>
    metadata_test_valid_one s line a = Some (a \<in> marked Valid s line) \<and>
    metadata_test_valid_any_out_sec s line a b = Some (\<not> marked Valid s line \<subseteq> {a..b}) \<and>
    ocf_metadata_check s line = Some (marked Dirty s line \<subseteq> marked Valid s line)"
  using assms by (rule line_tests)

text \<open>A cache with two lines of 4 KiB, the first with valid blocks 0 to 3 and dirty block 1.\<close>

definition demo_md :: md_state where
  "demo_md = \<lparr>block_4k = False, line_size = Size_4, collision_table_entries = 2,
     collision = (\<lambda>line. \<lparr>core_line = 0, core_id = 0,
       status = St_u8 (if line = 0 then \<lparr>valid = 15, dirty = 2\<rparr> else \<lparr>valid = 0, dirty = 0\<rparr>)\<rparr>)\<rparr>"

lemma u8_status_ok: "status_ok False Size_4 (St_u8 m)"
proof -
  have "i < 8" if "status_bit w (St_u8 m) i" for w i
    using that bit_imp_le_length [of "get_what w m" i] by simp
  then show ?thesis by (simp add: status_ok_def switch_defs)
qed

lemma demo_md_ok: "md_ok demo_md"
  by (simp add: md_ok_def demo_md_def u8_status_ok)

lemma demo_md_simps:
  "collision_table_entries demo_md = 2" "ocf_line_blocks demo_md = 8"
  by (simp_all add: demo_md_def ocf_line_blocks_def)

theorem line_tests_correct_witness:
  "metadata_test_dirty_sec demo_md 0 1 2 = Some True \<and>
   metadata_test_valid_sec demo_md 0 1 2 = Some True"
proof -
  have "{1..2} \<inter> marked Dirty demo_md 0 = {1}" "{1..2} \<subseteq> marked Valid demo_md 0"
    by (auto simp: marked_def demo_md_def bit_simps numeral_eq_Suc less_Suc_eq_le le_Suc_eq)
  moreover have "metadata_test_dirty_sec demo_md 0 1 2 = Some ({1..2} \<inter> marked Dirty demo_md 0 \<noteq> {})"
      "metadata_test_valid_sec demo_md 0 1 2 = Some ({1..2} \<subseteq> marked Valid demo_md 0)"
    using line_tests_correct [OF demo_md_ok, of 0 1 2] by (simp_all add: demo_md_simps)
  ultimately show ?thesis by auto
qed

text \<open>\<open>yields op P\<close>: the operation does not fail an assertion and its result satisfies \<open>P\<close>.\<close>

definition yields :: "'r option \<Rightarrow> ('r \<Rightarrow> bool) \<Rightarrow> bool" where
  "yields op P \<longleftrightarrow> (\<exists>r. op = Some r \<and> P r)"

lemma yields_map: "yields (map_option f op) P = yields op (\<lambda>r. P (f r))"
  by (auto simp: yields_def)

lemma yields_Some [simp]: "yields (Some r) P = P r"
  by (simp add: yields_def)

text \<open>
  C21: the sector updates change exactly the blocks of their range, of one kind, in one line, and the
  \<open>_changed\<close> variants report what the callers count with: whether a block of the range was dirty and
  whether the line is clean now; whether a block of the range was not dirty and whether the line was
  dirty; whether the line had no valid block; whether the line lost its last valid block.
\<close>

theorem sector_updates_correct:
  assumes ok: "md_ok s" "line < collision_table_entries s" and rng: "a \<le> b" "b < ocf_line_blocks s"
  shows "yields (metadata_set_dirty_sec s line a b) (remarked Dirty line (marked Dirty s line \<union> {a..b}) s)
   \<and> yields (metadata_clear_dirty_sec s line a b) (remarked Dirty line (marked Dirty s line - {a..b}) s)
   \<and> yields (metadata_clear_valid_sec s line a b) (remarked Valid line (marked Valid s line - {a..b}) s)
   \<and> yields (metadata_test_and_clear_dirty_sec s line a b)
       (\<lambda>(t, s'). t = ({a..b} \<inter> marked Dirty s line \<noteq> {}) \<and>
          remarked Dirty line (marked Dirty s line - {a..b}) s s')
   \<and> yields (metadata_clear_dirty_sec_changed s line a b)
       (\<lambda>(sec_changed, line_is_clean, s'). sec_changed = ({a..b} \<inter> marked Dirty s line \<noteq> {}) \<and>
          line_is_clean = (marked Dirty s' line = {}) \<and>
          remarked Dirty line (marked Dirty s line - {a..b}) s s')
   \<and> yields (metadata_set_dirty_sec_changed s line a b)
       (\<lambda>(sec_changed, line_was_dirty, s'). sec_changed = (\<not> {a..b} \<subseteq> marked Dirty s line) \<and>
          line_was_dirty = (marked Dirty s line \<noteq> {}) \<and>
          remarked Dirty line (marked Dirty s line \<union> {a..b}) s s')
   \<and> yields (metadata_set_valid_sec_changed s line a b)
       (\<lambda>(changed, s'). changed = (marked Valid s line = {}) \<and>
          remarked Valid line (marked Valid s line \<union> {a..b}) s s')
   \<and> yields (metadata_clear_valid_sec_changed s line a b)
       (\<lambda>(changed, line_remains_valid, s'). line_remains_valid = (marked Valid s' line \<noteq> {}) \<and>
          changed = (marked Valid s line \<noteq> {} \<and> marked Valid s' line = {}) \<and>
          remarked Valid line (marked Valid s line - {a..b}) s s')"
proof -
  obtain cd where cd: "ocf_metadata_clear Dirty s line a b = Some (marked Dirty cd line \<noteq> {}, cd)"
    "remarked Dirty line (marked Dirty s line - {a..b}) s cd"
    using ocf_metadata_clear_eq [OF ok rng] by blast
  obtain cv where cv: "ocf_metadata_clear Valid s line a b = Some (marked Valid cv line \<noteq> {}, cv)"
    "remarked Valid line (marked Valid s line - {a..b}) s cv"
    using ocf_metadata_clear_eq [OF ok rng] by blast
  obtain sd where sd: "ocf_metadata_set Dirty s line a b = Some (marked Dirty s line \<noteq> {}, sd)"
    "remarked Dirty line (marked Dirty s line \<union> {a..b}) s sd"
    using ocf_metadata_set_eq [OF ok rng] by blast
  obtain sv where sv: "ocf_metadata_set Valid s line a b = Some (marked Valid s line \<noteq> {}, sv)"
    "remarked Valid line (marked Valid s line \<union> {a..b}) s sv"
    using ocf_metadata_set_eq [OF ok rng] by blast
  note tst = ocf_metadata_test_eq [OF ok rng]
    ocf_metadata_test_eq [OF ok whole_line(1,2) [OF ok]] whole_line(3) [OF ok]
  show ?thesis
    by (simp add: metadata_set_dirty_sec_def metadata_clear_dirty_sec_def metadata_clear_valid_sec_def
      metadata_test_and_clear_dirty_sec_def ocf_metadata_test_and_clear_eq
      metadata_clear_dirty_sec_changed_def metadata_set_dirty_sec_changed_def
      metadata_set_valid_sec_changed_def metadata_clear_valid_sec_changed_def tst cd sd cv sv)
qed

theorem sector_updates_correct_witness:
  "yields (metadata_clear_dirty_sec_changed demo_md 0 0 2)
     (\<lambda>(sec_changed, line_is_clean, s'). sec_changed \<and> line_is_clean \<and> md_ok s')"
proof -
  have m: "marked Dirty demo_md 0 = {1}"
    by (auto simp: marked_def demo_md_def bit_simps)
  have c: "{0..2} \<inter> {1::nat} \<noteq> {}" "{1::nat} - {0..2} = {}" by auto
  have "yields (metadata_clear_dirty_sec_changed demo_md 0 0 2)
       (\<lambda>(sec_changed, line_is_clean, s'). sec_changed = ({0..2} \<inter> {1::nat} \<noteq> {}) \<and>
          line_is_clean = (marked Dirty s' 0 = {}) \<and> remarked Dirty 0 ({1} - {0..2}) demo_md s')"
    using sector_updates_correct [OF demo_md_ok, of 0 0 2] unfolding demo_md_simps m by simp
  then show ?thesis unfolding c by (auto simp: yields_def remarked_def c)
qed

text \<open>
  The whole-line updates mark or unmark all blocks of one kind, initialisation leaves no block
  of either kind, and the conditional updates keep dirty data: \<open>metadata_clear_valid_if_clean\<close> drops
  exactly the valid blocks that are not dirty and \<open>metadata_clear_dirty_if_invalid\<close> exactly the
  dirty blocks that are not valid.
\<close>

theorem line_updates_correct:
  assumes ok: "md_ok s" "line < collision_table_entries s"
  shows "yields (metadata_set_dirty s line) (remarked Dirty line {..<ocf_line_blocks s} s)
   \<and> yields (metadata_clear_dirty s line) (remarked Dirty line {} s)
   \<and> yields (metadata_set_valid s line) (remarked Valid line {..<ocf_line_blocks s} s)
   \<and> yields (metadata_clear_valid s line) (remarked Valid line {} s)
   \<and> yields (metadata_test_and_set_dirty s line) (\<lambda>(t, s'). t = (marked Dirty s line \<noteq> {}) \<and>
       remarked Dirty line {..<ocf_line_blocks s} s s')
   \<and> yields (metadata_test_and_clear_dirty s line) (\<lambda>(t, s'). t = (marked Dirty s line \<noteq> {}) \<and>
       remarked Dirty line {} s s')
   \<and> yields (metadata_test_and_set_valid s line)
       (\<lambda>(t, s'). t = (marked Valid s line = {..<ocf_line_blocks s}) \<and>
       remarked Valid line {..<ocf_line_blocks s} s s')
   \<and> yields (metadata_test_and_clear_valid s line)
       (\<lambda>(t, s'). t = (marked Valid s line = {..<ocf_line_blocks s}) \<and> remarked Valid line {} s s')
   \<and> yields (metadata_init_status_bits s line)
       (\<lambda>s'. md_ok s' \<and> marked Dirty s' line = {} \<and> marked Valid s' line = {})
   \<and> yields (metadata_clear_valid_if_clean s line)
       (\<lambda>(r, s'). r = (marked Valid s' line \<noteq> {}) \<and>
          remarked Valid line (marked Valid s line \<inter> marked Dirty s line) s s')
   \<and> yields (metadata_clear_dirty_if_invalid s line)
       (remarked Dirty line (marked Dirty s line \<inter> marked Valid s line) s)"
proof -
  note rng = whole_line(1,2) [OF ok]
  note whole = whole_line [OF ok]
  obtain cd where cd: "ocf_metadata_clear Dirty s line 0 (ocf_line_end_block s)
      = Some (marked Dirty cd line \<noteq> {}, cd)" "remarked Dirty line {} s cd"
    using ocf_metadata_clear_eq [OF ok rng] whole(5) by metis
  obtain cv where cv: "ocf_metadata_clear Valid s line 0 (ocf_line_end_block s)
      = Some (marked Valid cv line \<noteq> {}, cv)" "remarked Valid line {} s cv"
    using ocf_metadata_clear_eq [OF ok rng] whole(5) by metis
  obtain sd where sd: "ocf_metadata_set Dirty s line 0 (ocf_line_end_block s)
      = Some (marked Dirty s line \<noteq> {}, sd)" "remarked Dirty line {..<ocf_line_blocks s} s sd"
    using ocf_metadata_set_eq [OF ok rng] whole(6) by metis
  obtain sv where sv: "ocf_metadata_set Valid s line 0 (ocf_line_end_block s)
      = Some (marked Valid s line \<noteq> {}, sv)" "remarked Valid line {..<ocf_line_blocks s} s sv"
    using ocf_metadata_set_eq [OF ok rng] whole(6) by metis
  have cut: "A - ({0..ocf_line_end_block s} - B) = A \<inter> B" if "A - {0..ocf_line_end_block s} = {}"
    for A B :: "nat set" using that by auto
  obtain vc where vc: "ocf_metadata_clear_valid_if_clean s line 0 (ocf_line_end_block s)
      = Some (marked Valid vc line \<noteq> {}, vc)"
      "remarked Valid line (marked Valid s line \<inter> marked Dirty s line) s vc"
    using ocf_metadata_clear_valid_if_clean_eq [OF ok rng] cut [OF whole(5)] by metis
  obtain di where di: "ocf_metadata_clear_dirty_if_invalid s line 0 (ocf_line_end_block s) = Some di"
      "remarked Dirty line (marked Dirty s line \<inter> marked Valid s line) s di"
    using ocf_metadata_clear_dirty_if_invalid_eq [OF ok rng] cut [OF whole(5)] by metis
  have cd': "md_ok cd" "line < collision_table_entries cd"
      "ocf_line_end_block cd = ocf_line_end_block s" "marked Dirty cd line = {}"
    using cd(2) ok by (auto simp: remarked_def)
  obtain cv' where cv': "ocf_metadata_clear Valid cd line 0 (ocf_line_end_block cd)
      = Some (marked Valid cv' line \<noteq> {}, cv')" "remarked Valid line {} cd cv'"
    using ocf_metadata_clear_eq [OF cd'(1,2) whole_line(1,2) [OF cd'(1,2)]] whole_line(5) [OF cd'(1,2)]
    by metis
  have init: "md_ok cv'" "marked Dirty cv' line = {}" "marked Valid cv' line = {}"
    using cv'(2) cd'(4) by (auto simp: remarked_def)
  note tst = ocf_metadata_test_eq [OF ok rng] whole(3,4)
  show ?thesis
    by (simp add: metadata_set_dirty_def metadata_clear_dirty_def metadata_set_valid_def
      metadata_clear_valid_def metadata_test_and_set_dirty_def metadata_test_and_clear_dirty_def
      metadata_test_and_set_valid_def metadata_test_and_clear_valid_def metadata_init_status_bits_def
      metadata_clear_valid_if_clean_def metadata_clear_dirty_if_invalid_def
      ocf_metadata_test_and_set_eq ocf_metadata_test_and_clear_eq
      tst cd sd cv sv vc di cv' init)
qed

theorem line_updates_correct_witness:
  "yields (metadata_clear_valid_if_clean demo_md 0)
     (\<lambda>(r, s'). r \<and> marked Valid s' 0 = {1})"
proof -
  have m: "marked Valid demo_md 0 \<inter> marked Dirty demo_md 0 = {1}"
    by (auto simp: marked_def demo_md_def bit_simps)
  have "yields (metadata_clear_valid_if_clean demo_md 0)
       (\<lambda>(r, s'). r = (marked Valid s' 0 \<noteq> {}) \<and> remarked Valid 0 {1} demo_md s')"
    using line_updates_correct [OF demo_md_ok, of 0] unfolding demo_md_simps m by simp
  then show ?thesis by (auto simp: yields_def remarked_def)
qed

end
