(* ===== verification/Collision.thy ===== *)
theory Collision
  imports Metadata_Status Links
begin

section \<open>The hash table and its collision chains\<close>

text \<open>
  Model of \<open>src/metadata/metadata_collision.c\<close>, \<open>src/metadata/metadata_core.c\<close>, the hash
  functions of \<open>src/metadata/metadata_misc.h\<close>, the hash table, initialisation and lookup functions
  of \<open>src/metadata/metadata.c\<close> and the lookup of \<open>src/engine/engine_common.c\<close>. The segments
  are arrays; an index beyond the segment fails the assertion of the raw access. Bit fields are
  natural numbers that are cut to the width of the field when they are written.
\<close>

subsection \<open>State\<close>

abbreviation OCF_CACHE_LINE_BITS :: nat where "OCF_CACHE_LINE_BITS \<equiv> 29"
abbreviation OCF_CORE_LINE_BITS :: nat where "OCF_CORE_LINE_BITS \<equiv> 46"
abbreviation OCF_CORE_ID_BITS :: nat where "OCF_CORE_ID_BITS \<equiv> 14"
abbreviation OCF_CORE_NUM :: nat where "OCF_CORE_NUM \<equiv> 4096"
abbreviation ULLONG_MAX :: nat where "ULLONG_MAX \<equiv> 2 ^ 64 - 1"

record ocf_metadata_list_info =
  prev_col :: nat
  next_col :: nat

text \<open>The hash entry holds the first line of the chain and the lock bits of the bucket.\<close>

record ocf_hash_entry =
  h_line :: nat
  h_rd :: nat
  h_wr :: bool

record coll_state = md_state +
  hash_table_entries :: nat
  hash_table :: "nat \<Rightarrow> ocf_hash_entry"
  list_info :: "nat \<Rightarrow> ocf_metadata_list_info"

subsection \<open>Hash function\<close>

text \<open>
  \<open>core_id * (entries / 32)\<close> is \<open>unsigned int\<close> arithmetic, the sum is 64 bits wide. The number of
  entries is the size of the hash segment and not 0; with 0 entries every access is out of range.
\<close>

definition ocf_metadata_hash_func :: "'z coll_state_scheme \<Rightarrow> nat \<Rightarrow> nat \<Rightarrow> nat" where
  "ocf_metadata_hash_func s cl cid =
     (let entries = hash_table_entries s in
      ((cl + (cid * (entries div 32)) mod 2 ^ 32) mod 2 ^ 64) mod entries)"

definition ocf_metadata_hash_next :: "'z coll_state_scheme \<Rightarrow> nat \<Rightarrow> nat" where
  "ocf_metadata_hash_next s hash =
     (let hash = inc32 hash in if hash < hash_table_entries s then hash else 0)"

subsection \<open>Accessors of the segments\<close>

definition list_info_bug_on :: "'z coll_state_scheme \<Rightarrow> nat \<Rightarrow> unit option" where
  "list_info_bug_on s l = bug_on (\<not> l < collision_table_entries s)"

definition ocf_metadata_list_info_set ::
  "ocf_metadata_list_info \<Rightarrow> nat \<Rightarrow> nat \<Rightarrow> ocf_metadata_list_info" where
  "ocf_metadata_list_info_set info nxt prv =
     \<lparr>prev_col = prv mod 2 ^ OCF_CACHE_LINE_BITS, next_col = nxt mod 2 ^ OCF_CACHE_LINE_BITS\<rparr>"

definition ocf_metadata_list_info_set_next ::
  "ocf_metadata_list_info \<Rightarrow> nat \<Rightarrow> ocf_metadata_list_info" where
  "ocf_metadata_list_info_set_next info nxt = info\<lparr>next_col := nxt mod 2 ^ OCF_CACHE_LINE_BITS\<rparr>"

definition ocf_metadata_list_info_set_prev ::
  "ocf_metadata_list_info \<Rightarrow> nat \<Rightarrow> ocf_metadata_list_info" where
  "ocf_metadata_list_info_set_prev info prv = info\<lparr>prev_col := prv mod 2 ^ OCF_CACHE_LINE_BITS\<rparr>"

definition put_list_info ::
  "nat \<Rightarrow> (ocf_metadata_list_info \<Rightarrow> ocf_metadata_list_info) \<Rightarrow> 'z coll_state_scheme \<Rightarrow> 'z coll_state_scheme" where
  "put_list_info l f s = s\<lparr>list_info := (list_info s)(l := f (list_info s l))\<rparr>"

definition ocf_metadata_set_collision_info ::
  "'z coll_state_scheme \<Rightarrow> nat \<Rightarrow> nat \<Rightarrow> nat \<Rightarrow> 'z coll_state_scheme option" where
  "ocf_metadata_set_collision_info s l nxt prv = do {
     list_info_bug_on s l;
     Some (put_list_info l (\<lambda>i. ocf_metadata_list_info_set i nxt prv) s) }"

definition ocf_metadata_set_collision_next ::
  "'z coll_state_scheme \<Rightarrow> nat \<Rightarrow> nat \<Rightarrow> 'z coll_state_scheme option" where
  "ocf_metadata_set_collision_next s l nxt = do {
     list_info_bug_on s l;
     Some (put_list_info l (\<lambda>i. ocf_metadata_list_info_set_next i nxt) s) }"

definition ocf_metadata_set_collision_prev ::
  "'z coll_state_scheme \<Rightarrow> nat \<Rightarrow> nat \<Rightarrow> 'z coll_state_scheme option" where
  "ocf_metadata_set_collision_prev s l prv = do {
     list_info_bug_on s l;
     Some (put_list_info l (\<lambda>i. ocf_metadata_list_info_set_prev i prv) s) }"

text \<open>The pair is (next, prev).\<close>

definition ocf_metadata_get_collision_info ::
  "'z coll_state_scheme \<Rightarrow> nat \<Rightarrow> (nat \<times> nat) option" where
  "ocf_metadata_get_collision_info s l = do {
     list_info_bug_on s l;
     Some (next_col (list_info s l), prev_col (list_info s l)) }"

definition ocf_metadata_get_collision_next :: "'z coll_state_scheme \<Rightarrow> nat \<Rightarrow> nat option" where
  "ocf_metadata_get_collision_next s l = map_option fst (ocf_metadata_get_collision_info s l)"

definition ocf_metadata_get_collision_prev :: "'z coll_state_scheme \<Rightarrow> nat \<Rightarrow> nat option" where
  "ocf_metadata_get_collision_prev s l = map_option snd (ocf_metadata_get_collision_info s l)"

text \<open>The pair is (core id, core line).\<close>

definition ocf_metadata_get_core_info :: "'z md_state_scheme \<Rightarrow> nat \<Rightarrow> (nat \<times> nat) option" where
  "ocf_metadata_get_core_info s l = do {
     raw_bug_on s l;
     Some (core_id (collision s l), core_line (collision s l)) }"

definition ocf_metadata_set_core_info ::
  "'z md_state_scheme \<Rightarrow> nat \<Rightarrow> nat \<Rightarrow> nat \<Rightarrow> 'z md_state_scheme option" where
  "ocf_metadata_set_core_info s l cid cl = do {
     raw_bug_on s l;
     Some (s\<lparr>collision := (collision s)(l := (collision s l)
       \<lparr>core_id := cid mod 2 ^ OCF_CORE_ID_BITS, core_line := cl mod 2 ^ OCF_CORE_LINE_BITS\<rparr>)\<rparr>) }"

definition ocf_metadata_get_core_id :: "'z md_state_scheme \<Rightarrow> nat \<Rightarrow> nat option" where
  "ocf_metadata_get_core_id s l = do { raw_bug_on s l; Some (core_id (collision s l)) }"

definition ocf_metadata_get_hash_ptr :: "'z coll_state_scheme \<Rightarrow> nat \<Rightarrow> unit option" where
  "ocf_metadata_get_hash_ptr s i = bug_on (\<not> i < hash_table_entries s)"

definition ocf_metadata_get_hash :: "'z coll_state_scheme \<Rightarrow> nat \<Rightarrow> nat option" where
  "ocf_metadata_get_hash s i = do { ocf_metadata_get_hash_ptr s i; Some (h_line (hash_table s i)) }"

definition ocf_metadata_set_hash ::
  "'z coll_state_scheme \<Rightarrow> nat \<Rightarrow> nat \<Rightarrow> 'z coll_state_scheme option" where
  "ocf_metadata_set_hash s i l = do {
     ocf_metadata_get_hash_ptr s i;
     bug_on (l > collision_table_entries s);
     Some (s\<lparr>hash_table := (hash_table s)(i := (hash_table s i)
       \<lparr>h_line := l mod 2 ^ OCF_CACHE_LINE_BITS\<rparr>)\<rparr>) }"

subsection \<open>Insertion and removal\<close>

definition ocf_metadata_add_to_collision ::
  "'z coll_state_scheme \<Rightarrow> nat \<Rightarrow> nat \<Rightarrow> nat \<Rightarrow> nat \<Rightarrow> 'z coll_state_scheme option" where
  "ocf_metadata_add_to_collision s cid cl hash cache_line = do {
     prev_cache_line \<leftarrow> ocf_metadata_get_hash s hash;
     let line_entries = collision_table_entries s;
     let hash_entries = hash_table_entries s;
     bug_on (\<not> hash < hash_entries);
     bug_on (\<not> cache_line < line_entries);
     s \<leftarrow> ocf_metadata_set_core_info s cache_line cid cl;
     s \<leftarrow> ocf_metadata_set_collision_info s cache_line prev_cache_line line_entries;
     s \<leftarrow> (if prev_cache_line \<noteq> line_entries
           then ocf_metadata_set_collision_prev s prev_cache_line cache_line else Some s);
     ocf_metadata_set_hash s hash cache_line }"

definition ocf_metadata_remove_from_collision ::
  "'z coll_state_scheme \<Rightarrow> nat \<Rightarrow> 'z coll_state_scheme option" where
  "ocf_metadata_remove_from_collision s l = do {
     let line_entries = collision_table_entries s;
     let hash_entries = hash_table_entries s;
     bug_on (\<not> l < line_entries);
     (next_line, prev_line) \<leftarrow> ocf_metadata_get_collision_info s l;
     s \<leftarrow> (if prev_line \<noteq> line_entries
           then ocf_metadata_set_collision_next s prev_line next_line else Some s);
     s \<leftarrow> (if next_line \<noteq> line_entries
           then ocf_metadata_set_collision_prev s next_line prev_line else Some s);
     (cid, cl) \<leftarrow> ocf_metadata_get_core_info s l;
     let hash_father = ocf_metadata_hash_func s cl cid;
     bug_on (\<not> hash_father < hash_entries);
     h \<leftarrow> ocf_metadata_get_hash s hash_father;
     s \<leftarrow> (if h = l then ocf_metadata_set_hash s hash_father next_line else Some s);
     s \<leftarrow> ocf_metadata_set_collision_info s l line_entries line_entries;
     ocf_metadata_set_core_info s l OCF_CORE_NUM ULLONG_MAX }"

subsection \<open>Initialisation\<close>

definition ocf_init_collision_entry ::
  "'z coll_state_scheme \<Rightarrow> nat \<Rightarrow> 'z coll_state_scheme option" where
  "ocf_init_collision_entry s idx = do {
     let invalid_idx = collision_table_entries s;
     s \<leftarrow> ocf_metadata_set_collision_info s idx invalid_idx invalid_idx;
     s \<leftarrow> ocf_metadata_set_core_info s idx OCF_CORE_NUM ULLONG_MAX;
     metadata_init_status_bits s idx }"

text \<open>
  Shard \<open>shard_id\<close> of \<open>shards_cnt\<close> handles \<open>portion\<close> consecutive entries. The index variables of
  the loops have 32 bits; entry counts have 29 bits, so that they do not wrap.
\<close>

definition shard_range :: "nat \<Rightarrow> nat \<Rightarrow> nat \<Rightarrow> nat list" where
  "shard_range n shard_id shards_cnt =
     (let portion = ((n + shards_cnt - 1) div shards_cnt) mod 2 ^ 32;
          begin = (portion * shard_id) mod 2 ^ 32;
          stop = min ((portion * ((shard_id + 1) mod 2 ^ 32)) mod 2 ^ 32) n
      in [begin..<stop])"

fun each_entry :: "('a \<Rightarrow> 's \<Rightarrow> 's option) \<Rightarrow> 'a list \<Rightarrow> 's \<Rightarrow> 's option" where
  "each_entry f [] s = Some s"
| "each_entry f (i # is) s = f i s \<bind> each_entry f is"

definition ocf_metadata_init_collision_handle ::
  "nat \<Rightarrow> nat \<Rightarrow> 'z coll_state_scheme \<Rightarrow> 'z coll_state_scheme option" where
  "ocf_metadata_init_collision_handle shard_id shards_cnt s =
     each_entry (\<lambda>i s. ocf_init_collision_entry s i)
       (shard_range (collision_table_entries s) shard_id shards_cnt) s"

definition ocf_metadata_init_hash_table_handle ::
  "nat \<Rightarrow> nat \<Rightarrow> 'z coll_state_scheme \<Rightarrow> 'z coll_state_scheme option" where
  "ocf_metadata_init_hash_table_handle shard_id shards_cnt s =
     each_entry (\<lambda>i s. ocf_metadata_set_hash s i (collision_table_entries s))
       (shard_range (hash_table_entries s) shard_id shards_cnt) s"

subsection \<open>Lookup\<close>

text \<open>
  The traversal of a chain, shared by the two lookups: the line whose core line matches, or
  \<open>None\<close> at the end of the chain. The outer option is the assertion of the accessors; a chain that
  does not end has no result.
\<close>

partial_function (option) chain_find ::
  "'z coll_state_scheme \<Rightarrow> nat \<Rightarrow> nat \<Rightarrow> nat \<Rightarrow> nat option option" where
  "chain_find s cid cl l =
     (if l \<noteq> collision_table_entries s then do {
        (curr_core_id, curr_core_line) \<leftarrow> ocf_metadata_get_core_info s l;
        if cid = curr_core_id \<and> curr_core_line = cl then Some (Some l)
        else do {
          l \<leftarrow> ocf_metadata_get_collision_next s l;
          chain_find s cid cl l } }
      else Some None)"

definition ocf_metadata_is_hit_no_lock :: "'z coll_state_scheme \<Rightarrow> nat \<Rightarrow> nat \<Rightarrow> bool option" where
  "ocf_metadata_is_hit_no_lock s cid cl = do {
     let hash = ocf_metadata_hash_func s cl cid;
     l \<leftarrow> ocf_metadata_get_hash s hash;
     r \<leftarrow> chain_find s cid cl l;
     Some (r \<noteq> None) }"

datatype lookup_status = LOOKUP_HIT | LOOKUP_MISS | LOOKUP_REMAPPED | LOOKUP_HIT_INVALID

record ocf_map_info =
  m_hash :: nat
  coll_idx :: nat
  m_core_line :: nat
  m_core_id :: nat
  m_status :: lookup_status
  m_invalid :: bool
  re_part :: bool
  m_flush :: bool
  start_flush :: nat
  stop_flush :: nat

definition ocf_engine_lookup_map_entry ::
  "'z coll_state_scheme \<Rightarrow> ocf_map_info \<Rightarrow> nat \<Rightarrow> nat \<Rightarrow> ocf_map_info option" where
  "ocf_engine_lookup_map_entry s entry cid cl = do {
     let h = ocf_metadata_hash_func s cl cid;
     let entry = entry\<lparr>m_hash := h, m_status := LOOKUP_MISS, coll_idx := collision_table_entries s,
                       m_core_line := cl, m_core_id := cid\<rparr>;
     l \<leftarrow> ocf_metadata_get_hash s h;
     r \<leftarrow> chain_find s cid cl l;
     Some (case r of Some l \<Rightarrow> entry\<lparr>coll_idx := l, m_status := LOOKUP_HIT\<rparr> | None \<Rightarrow> entry) }"

definition ocf_engine_check_map_entry ::
  "'z coll_state_scheme \<Rightarrow> ocf_map_info \<Rightarrow> nat \<Rightarrow> bool option" where
  "ocf_engine_check_map_entry s entry cid =
     (if m_status entry = LOOKUP_MISS then Some True else do {
        bug_on (coll_idx entry \<ge> collision_table_entries s);
        (cid', cl') \<leftarrow> ocf_metadata_get_core_info s (coll_idx entry);
        Some (cid = cid' \<and> cl' = m_core_line entry) })"

subsection \<open>Invariant\<close>

definition line_key :: "'z md_state_scheme \<Rightarrow> nat \<Rightarrow> nat \<times> nat" where
  "line_key s l = (core_id (collision s l), core_line (collision s l))"

definition mapped :: "'z md_state_scheme \<Rightarrow> nat \<Rightarrow> bool" where
  "mapped s l \<longleftrightarrow> l < collision_table_entries s \<and> core_id (collision s l) < OCF_CORE_NUM"

definition key_hash :: "'z coll_state_scheme \<Rightarrow> nat \<times> nat \<Rightarrow> nat" where
  "key_hash s k = ocf_metadata_hash_func s (snd k) (fst k)"

abbreviation links_at :: "'z coll_state_scheme \<Rightarrow> nat list \<Rightarrow> bool" where
  "links_at s xs \<equiv> lseg (prev_col \<circ> list_info s) (next_col \<circ> list_info s)
     (collision_table_entries s) xs (collision_table_entries s)"

definition geometry_ok :: "'z coll_state_scheme \<Rightarrow> bool" where
  "geometry_ok s \<longleftrightarrow> 0 < hash_table_entries s \<and> hash_table_entries s < 2 ^ 31 \<and>
     collision_table_entries s < 2 ^ OCF_CACHE_LINE_BITS - 1"

definition chains_ok :: "'z coll_state_scheme \<Rightarrow> (nat \<Rightarrow> nat list) \<Rightarrow> bool" where
  "chains_ok s ch \<longleftrightarrow>
     (\<forall>h < hash_table_entries s.
        h_line (hash_table s h) = first (collision_table_entries s) (ch h) \<and>
        distinct (ch h) \<and> links_at s (ch h) \<and>
        set (ch h) = {l. mapped s l \<and> key_hash s (line_key s l) = h}) \<and>
     (\<forall>l < collision_table_entries s. \<not> mapped s l \<longrightarrow> core_id (collision s l) = OCF_CORE_NUM \<and>
        prev_col (list_info s l) = collision_table_entries s \<and>
        next_col (list_info s l) = collision_table_entries s)"

definition unique_keys :: "'z md_state_scheme \<Rightarrow> bool" where
  "unique_keys s \<longleftrightarrow> (\<forall>l k. mapped s l \<longrightarrow> mapped s k \<longrightarrow> line_key s l = line_key s k \<longrightarrow> l = k)"

definition coll_inv :: "'z coll_state_scheme \<Rightarrow> bool" where
  "coll_inv s \<longleftrightarrow> geometry_ok s \<and> unique_keys s \<and> (\<exists>ch. chains_ok s ch)"

text \<open>The abstract view: which cache line holds a core line.\<close>

definition cached :: "'z md_state_scheme \<Rightarrow> nat \<times> nat \<Rightarrow> nat option" where
  "cached s k = find (\<lambda>l. mapped s l \<and> line_key s l = k) [0..<collision_table_entries s]"

definition key_ok :: "nat \<times> nat \<Rightarrow> bool" where
  "key_ok k \<longleftrightarrow> fst k < OCF_CORE_NUM \<and> snd k < 2 ^ OCF_CORE_LINE_BITS"

lemma hash_func_less: "geometry_ok s \<Longrightarrow> key_hash s k < hash_table_entries s"
  by (simp add: geometry_ok_def key_hash_def ocf_metadata_hash_func_def Let_def)

lemma cached_eq_Some:
  "unique_keys s \<Longrightarrow> cached s k = Some l \<longleftrightarrow> mapped s l \<and> line_key s l = k"
  unfolding cached_def find_Some_iff unique_keys_def
  by (auto simp: mapped_def nth_append intro!: exI [of _ l])

lemma cached_eq_None: "cached s k = None \<longleftrightarrow> (\<forall>l. mapped s l \<longrightarrow> line_key s l \<noteq> k)"
  by (auto simp: cached_def find_None_iff mapped_def)

lemma chains_okD:
  assumes "chains_ok s ch" "h < hash_table_entries s"
  shows "h_line (hash_table s h) = first (collision_table_entries s) (ch h)"
    "distinct (ch h)" "links_at s (ch h)" "collision_table_entries s \<notin> set (ch h)"
    "\<And>l. l \<in> set (ch h) \<longleftrightarrow> mapped s l \<and> key_hash s (line_key s l) = h"
  using assms by (auto simp: chains_ok_def mapped_def)

lemma chains_okI:
  assumes "\<And>h. h < hash_table_entries s \<Longrightarrow> h_line (hash_table s h) = first (collision_table_entries s) (ch h)"
    "\<And>h. h < hash_table_entries s \<Longrightarrow> distinct (ch h)"
    "\<And>h. h < hash_table_entries s \<Longrightarrow> links_at s (ch h)"
    "\<And>h. h < hash_table_entries s \<Longrightarrow> set (ch h) = {l. mapped s l \<and> key_hash s (line_key s l) = h}"
    "\<And>l. l < collision_table_entries s \<Longrightarrow> \<not> mapped s l \<Longrightarrow> core_id (collision s l) = OCF_CORE_NUM"
    "\<And>l. l < collision_table_entries s \<Longrightarrow> \<not> mapped s l \<Longrightarrow>
       prev_col (list_info s l) = collision_table_entries s \<and> next_col (list_info s l) = collision_table_entries s"
  shows "chains_ok s ch"
  using assms unfolding chains_ok_def by simp

lemma chains_ok_free:
  assumes "chains_ok s ch" "l < collision_table_entries s" "\<not> mapped s l"
  shows "core_id (collision s l) = OCF_CORE_NUM" "prev_col (list_info s l) = collision_table_entries s"
    "next_col (list_info s l) = collision_table_entries s"
  using assms by (simp_all add: chains_ok_def)

subsection \<open>Insertion keeps the invariant and adds one entry\<close>

definition added_state ::
  "nat \<Rightarrow> nat \<Rightarrow> nat \<Rightarrow> nat \<Rightarrow> nat list \<Rightarrow> 'z coll_state_scheme \<Rightarrow> 'z coll_state_scheme" where
  "added_state cid cl h l xs s =
     (let N = collision_table_entries s; p = first N xs;
          li = (list_info s)(l := \<lparr>prev_col = N, next_col = p\<rparr>);
          li = (if xs = [] then li else li(p := (li p)\<lparr>prev_col := l\<rparr>))
      in s\<lparr>collision := (collision s)(l := (collision s l)\<lparr>core_id := cid, core_line := cl\<rparr>),
           list_info := li, hash_table := (hash_table s)(h := (hash_table s h)\<lparr>h_line := l\<rparr>)\<rparr>)"

lemma add_to_collision_eq:
  assumes g: "geometry_ok s" and c: "chains_ok s ch" and k: "key_ok (cid, cl)"
    and h: "h < hash_table_entries s" and l: "l < collision_table_entries s"
  shows "ocf_metadata_add_to_collision s cid cl h l = Some (added_state cid cl h l (ch h) s)"
proof -
  note D = chains_okD [OF c h]
  have N: "collision_table_entries s < 536870911" using g by (simp add: geometry_ok_def)
  have p: "first (collision_table_entries s) (ch h) \<le> collision_table_entries s"
    using first_in [of "ch h" "collision_table_entries s"] D(5) by (cases "ch h = []") (auto simp: mapped_def)
  have e: "first (collision_table_entries s) (ch h) = collision_table_entries s \<longleftrightarrow> ch h = []"
    using first_eq_iff [OF D(4)] .
  show ?thesis
    using h l N p D(1) k e
    by (auto simp: ocf_metadata_add_to_collision_def ocf_metadata_get_hash_def ocf_metadata_get_hash_ptr_def
        ocf_metadata_set_core_info_def raw_bug_on_def ocf_metadata_set_collision_info_def list_info_bug_on_def
        ocf_metadata_set_collision_prev_def ocf_metadata_set_hash_def put_list_info_def
        ocf_metadata_list_info_set_def ocf_metadata_list_info_set_prev_def added_state_def Let_def key_ok_def
        order.strict_iff_order)
qed

lemma added_state_simps [simp]:
  "collision_table_entries (added_state cid cl h l xs s) = collision_table_entries s"
  "hash_table_entries (added_state cid cl h l xs s) = hash_table_entries s"
  "collision (added_state cid cl h l xs s) = (collision s)(l := (collision s l)\<lparr>core_id := cid, core_line := cl\<rparr>)"
  "hash_table (added_state cid cl h l xs s) = (hash_table s)(h := (hash_table s h)\<lparr>h_line := l\<rparr>)"
  "key_hash (added_state cid cl h l xs s) k = key_hash s k"
  by (simp_all add: added_state_def Let_def key_hash_def ocf_metadata_hash_func_def)

lemma added_state_links:
  assumes "l \<notin> set xs" "xs = [] \<or> first (collision_table_entries s) xs \<noteq> l"
  shows "prev_col \<circ> list_info (added_state cid cl h l xs s) =
      (let prv = prev_col \<circ> list_info s in
       (if xs = [] then prv else prv(first (collision_table_entries s) xs := l))
         (l := collision_table_entries s))"
    "next_col \<circ> list_info (added_state cid cl h l xs s) =
      (next_col \<circ> list_info s)(l := first (collision_table_entries s) xs)"
  using assms by (auto simp: added_state_def Let_def fun_eq_iff)

lemma added_mapped:
  assumes "key_ok (cid, cl)" "l < collision_table_entries s"
  shows "mapped (added_state cid cl h l xs s) x \<longleftrightarrow> x = l \<or> mapped s x"
    "line_key (added_state cid cl h l xs s) x = (if x = l then (cid, cl) else line_key s x)"
  using assms by (auto simp: mapped_def line_key_def key_ok_def)

lemma add_chains_ok:
  assumes g: "geometry_ok s" and c: "chains_ok s ch" and k: "key_ok (cid, cl)"
    and h: "h = key_hash s (cid, cl)" and l: "l < collision_table_entries s" "\<not> mapped s l"
  shows "chains_ok (added_state cid cl h l (ch h) s) (ch(h := l # ch h))"
    (is "chains_ok ?s ?ch")
proof -
  have hl: "h < hash_table_entries s" using hash_func_less [OF g] h by simp
  note D = chains_okD [OF c]
  have lnot: "l \<notin> set (ch h')" if "h' < hash_table_entries s" for h'
    using D(5) [OF that] l by simp
  have fne: "ch h = [] \<or> first (collision_table_entries s) (ch h) \<noteq> l"
    using first_in [of "ch h"] lnot [OF hl] by metis
  note L = added_state_links [OF lnot [OF hl] fne]
  note M = added_mapped [OF k l(1)]
  have other: "links_at ?s (ch h')" if h': "h' < hash_table_entries s" "h' \<noteq> h" for h'
  proof -
    have "ch h \<noteq> [] \<Longrightarrow> first (collision_table_entries s) (ch h) \<notin> set (ch h')"
      using first_in [of "ch h" "collision_table_entries s"] D(5) [OF hl] D(5) [OF h'(1)] h'(2) by simp
    then show ?thesis
      using D(3) [OF h'(1)] lnot [OF h'(1)] by (simp add: L Let_def)
  qed
  have self: "links_at ?s (l # ch h)"
    using lseg_push [OF lnot [OF hl] D(2) [OF hl] D(3) [OF hl]] by (simp only: L Let_def added_state_simps)
  have sets: "set (?ch h') = {x. mapped ?s x \<and> key_hash ?s (line_key ?s x) = h'}"
    if "h' < hash_table_entries s" for h'
    using D(5) [OF that] h lnot [OF that] by (auto simp: M)
  have free: "prev_col (list_info ?s x) = collision_table_entries s \<and> next_col (list_info ?s x) = collision_table_entries s"
    if "x < collision_table_entries s" "x \<noteq> l" "\<not> mapped s x" for x
  proof -
    have "x \<notin> set (ch h)" using D(5) [OF hl] that by simp
    then have "ch h \<noteq> [] \<Longrightarrow> x \<noteq> first (collision_table_entries s) (ch h)"
      using first_in by metis
    then show ?thesis
      using that chains_ok_free [OF c that(1,3)] L [THEN fun_cong, where x = x] by (simp add: Let_def)
  qed
  show ?thesis
  proof (rule chains_okI, unfold added_state_simps(1,2))
    fix h' assume h': "h' < hash_table_entries s"
    show "h_line (hash_table ?s h') = first (collision_table_entries s) (?ch h')"
      using D(1) [OF h'] by simp
    show "distinct (?ch h')" using D(2) [OF h'] lnot [OF h'] by auto
    show "lseg (prev_col \<circ> list_info ?s) (next_col \<circ> list_info ?s) (collision_table_entries s) (?ch h')
       (collision_table_entries s)"
      using self other [OF h'] by (cases "h' = h") simp_all
    show "set (?ch h') = {x. mapped ?s x \<and> key_hash ?s (line_key ?s x) = h'}" by (rule sets [OF h'])
  next
    fix x assume x: "x < collision_table_entries s" "\<not> mapped ?s x"
    then show "core_id (collision ?s x) = OCF_CORE_NUM" using chains_ok_free [OF c x(1)] by (simp add: M)
    show "prev_col (list_info ?s x) = collision_table_entries s \<and>
       next_col (list_info ?s x) = collision_table_entries s"
      using free x by (simp add: M)
  qed
qed


subsection \<open>Removal keeps the invariant and takes one entry out\<close>

definition unlinked_info ::
  "nat \<Rightarrow> nat list \<Rightarrow> nat list \<Rightarrow> (nat \<Rightarrow> ocf_metadata_list_info) \<Rightarrow> nat \<Rightarrow> ocf_metadata_list_info" where
  "unlinked_info N as bs li =
     (let li = (if as = [] then li else li(final N as := (li (final N as))\<lparr>next_col := first N bs\<rparr>))
      in if bs = [] then li else li(first N bs := (li (first N bs))\<lparr>prev_col := final N as\<rparr>))"

definition removed_state ::
  "nat \<Rightarrow> nat \<Rightarrow> nat list \<Rightarrow> nat list \<Rightarrow> 'z coll_state_scheme \<Rightarrow> 'z coll_state_scheme" where
  "removed_state h l as bs s =
     (let N = collision_table_entries s
      in s\<lparr>collision := (collision s)(l := (collision s l)\<lparr>core_id := OCF_CORE_NUM, core_line := 2 ^ 46 - 1\<rparr>),
           hash_table := (if as = [] then (hash_table s)(h := (hash_table s h)\<lparr>h_line := first N bs\<rparr>)
                          else hash_table s),
           list_info := (unlinked_info N as bs (list_info s))(l := \<lparr>prev_col = N, next_col = N\<rparr>)\<rparr>)"

lemma remove_from_collision_eq:
  assumes g: "geometry_ok s" and c: "chains_ok s ch" and l: "mapped s l"
    and h: "h = key_hash s (line_key s l)" and xs: "ch h = as @ l # bs"
  shows "ocf_metadata_remove_from_collision s l = Some (removed_state h l as bs s)"
proof -
  let ?N = "collision_table_entries s"
  have hl: "h < hash_table_entries s" using hash_func_less [OF g] h by simp
  note D = chains_okD [OF c hl]
  have N: "?N < 536870911" using g by (simp add: geometry_ok_def)
  have mem: "x < ?N" if "x \<in> set as \<or> x \<in> set bs" for x
    using D(5) [of x] that by (auto simp: xs mapped_def)
  have lN: "l < ?N" using l by (simp add: mapped_def)
  have links: "prev_col (list_info s l) = final ?N as" "next_col (list_info s l) = first ?N bs"
    using D(3) by (simp_all add: xs lseg_split)
  have ea: "final ?N as = ?N \<longleftrightarrow> as = []" and eb: "first ?N bs = ?N \<longleftrightarrow> bs = []"
    using mem by (auto intro!: final_eq_iff first_eq_iff)
  have la: "as \<noteq> [] \<Longrightarrow> final ?N as < ?N" and lb: "bs \<noteq> [] \<Longrightarrow> first ?N bs < ?N"
    using mem [of "final ?N as"] mem [of "first ?N bs"] final_in [of as ?N] first_in [of bs ?N] by simp_all
  have hd: "h_line (hash_table s h) = l \<longleftrightarrow> as = []"
    using D(1,2) by (cases as) (auto simp: xs)
  have hf: "ocf_metadata_hash_func s (core_line (collision s l)) (core_id (collision s l)) = h"
    by (simp add: h key_hash_def line_key_def)
  have hf': "ocf_metadata_hash_func (s\<lparr>list_info := li\<rparr>) cl cid = ocf_metadata_hash_func s cl cid" for li cl cid
    by (simp add: ocf_metadata_hash_func_def)
  have le1: "final ?N as \<le> ?N" using la by (cases "as = []") simp_all
  have le2: "first ?N bs \<le> ?N" using lb by (cases "bs = []") simp_all
  note le = le1 le2
  define li where "li = (if as = [] then list_info s
    else (list_info s)(final ?N as := (list_info s (final ?N as))\<lparr>next_col := first ?N bs\<rparr>))"
  have 1: "(if final ?N as \<noteq> ?N then ocf_metadata_set_collision_next s (final ?N as) (first ?N bs) else Some s) =
      Some (s\<lparr>list_info := li\<rparr>)"
    unfolding ea using la le N
    by (simp add: ocf_metadata_set_collision_next_def list_info_bug_on_def put_list_info_def
        ocf_metadata_list_info_set_next_def li_def)
  have 2: "(if first ?N bs \<noteq> ?N then ocf_metadata_set_collision_prev (s\<lparr>list_info := li\<rparr>) (first ?N bs) (final ?N as)
      else Some (s\<lparr>list_info := li\<rparr>)) = Some (s\<lparr>list_info := unlinked_info ?N as bs (list_info s)\<rparr>)"
    unfolding eb using lb le N
    by (simp add: ocf_metadata_set_collision_prev_def list_info_bug_on_def put_list_info_def
        ocf_metadata_list_info_set_prev_def unlinked_info_def li_def Let_def)
  have 3: "(if h_line (hash_table s h) = l then ocf_metadata_set_hash (s\<lparr>list_info := x\<rparr>) h (first ?N bs)
      else Some (s\<lparr>list_info := x\<rparr>)) = Some (s\<lparr>list_info := x, hash_table :=
        (if as = [] then (hash_table s)(h := (hash_table s h)\<lparr>h_line := first ?N bs\<rparr>) else hash_table s)\<rparr>)" for x
    unfolding hd using le N hl
    by (simp add: ocf_metadata_set_hash_def ocf_metadata_get_hash_ptr_def)
  show ?thesis
    unfolding ocf_metadata_remove_from_collision_def Let_def
    using lN hl N
    by (simp add: ocf_metadata_get_collision_info_def list_info_bug_on_def links 1 2 hf hf'
        ocf_metadata_get_core_info_def raw_bug_on_def ocf_metadata_get_hash_def ocf_metadata_get_hash_ptr_def
        3 ocf_metadata_set_collision_info_def ocf_metadata_set_core_info_def put_list_info_def
        ocf_metadata_list_info_set_def removed_state_def Let_def cong: if_cong)
qed

lemma removed_state_simps [simp]:
  "collision_table_entries (removed_state h l as bs s) = collision_table_entries s"
  "hash_table_entries (removed_state h l as bs s) = hash_table_entries s"
  "collision (removed_state h l as bs s) =
     (collision s)(l := (collision s l)\<lparr>core_id := OCF_CORE_NUM, core_line := 2 ^ 46 - 1\<rparr>)"
  "key_hash (removed_state h l as bs s) k = key_hash s k"
  by (simp_all add: removed_state_def Let_def key_hash_def ocf_metadata_hash_func_def)

lemma removed_mapped:
  "mapped (removed_state h l as bs s) x \<longleftrightarrow> x \<noteq> l \<and> mapped s x"
  "x \<noteq> l \<Longrightarrow> line_key (removed_state h l as bs s) x = line_key s x"
  by (auto simp: mapped_def line_key_def)

lemma unlinked_info_links:
  "prev_col \<circ> unlinked_info N as bs li =
     (if bs = [] then prev_col \<circ> li else (prev_col \<circ> li)(first N bs := final N as))"
  "next_col \<circ> unlinked_info N as bs li =
     (if as = [] then next_col \<circ> li else (next_col \<circ> li)(final N as := first N bs))"
  by (auto simp: unlinked_info_def Let_def fun_eq_iff)

lemma removed_state_links:
  "prev_col \<circ> list_info (removed_state h l as bs s) =
     (prev_col \<circ> unlinked_info (collision_table_entries s) as bs (list_info s))(l := collision_table_entries s)"
  "next_col \<circ> list_info (removed_state h l as bs s) =
     (next_col \<circ> unlinked_info (collision_table_entries s) as bs (list_info s))(l := collision_table_entries s)"
  by (simp_all add: removed_state_def Let_def fun_upd_comp)

lemma remove_chains_ok:
  assumes g: "geometry_ok s" and c: "chains_ok s ch" and l: "mapped s l"
    and h: "h = key_hash s (line_key s l)" and xs: "ch h = as @ l # bs"
  shows "chains_ok (removed_state h l as bs s) (ch(h := as @ bs))"
    (is "chains_ok ?s ?ch")
proof -
  let ?N = "collision_table_entries s"
  have hl: "h < hash_table_entries s" using hash_func_less [OF g] h by simp
  note D = chains_okD [OF c]
  have d: "distinct (as @ l # bs)" using D(2) [OF hl] by (simp add: xs)
  have la: "as \<noteq> [] \<Longrightarrow> final ?N as \<in> set (ch h)" and lb: "bs \<noteq> [] \<Longrightarrow> first ?N bs \<in> set (ch h)"
    by (simp_all add: xs final_in first_in)
  have self: "links_at ?s (as @ bs)"
    using lseg_unlink [OF d D(3) [OF hl, unfolded xs]] d
    by (simp add: removed_state_links unlinked_info_links)
  have other: "links_at ?s (ch h')" if h': "h' < hash_table_entries s" "h' \<noteq> h" for h'
  proof -
    have "x \<notin> set (ch h')" if "x \<in> set (ch h)" for x using that D(5) [OF hl] D(5) [OF h'(1)] h'(2) by simp
    moreover have "l \<in> set (ch h)" by (simp add: xs)
    ultimately show ?thesis
      using D(3) [OF h'(1)] la lb by (simp add: removed_state_links unlinked_info_links)
  qed
  have sets: "set (?ch h') = {x. mapped ?s x \<and> key_hash ?s (line_key ?s x) = h'}"
    if "h' < hash_table_entries s" for h'
  proof -
    have "set (?ch h') = set (ch h') - {l}"
    proof (cases "h' = h")
      case True
      with d xs show ?thesis by auto
    next
      case False
      with D(5) [OF that, of l] h show ?thesis by simp
    qed
    then have "x \<in> set (?ch h') \<longleftrightarrow> x \<noteq> l \<and> mapped s x \<and> key_hash s (line_key s x) = h'" for x
      using D(5) [OF that, of x] by (simp only: Diff_iff singleton_iff) blast
    moreover have "mapped ?s x \<and> key_hash ?s (line_key ?s x) = h' \<longleftrightarrow>
        x \<noteq> l \<and> mapped s x \<and> key_hash s (line_key s x) = h'" for x
      by (cases "x = l") (simp_all add: removed_mapped)
    ultimately show ?thesis by (intro set_eqI) (simp only: mem_Collect_eq)
  qed
  have free: "prev_col (list_info ?s x) = ?N \<and> next_col (list_info ?s x) = ?N"
    if "x < ?N" "x = l \<or> \<not> mapped s x" for x
  proof (cases "x = l")
    case False
    with that have "x \<notin> set (ch h)" using D(5) [OF hl] by simp
    with la lb have "as \<noteq> [] \<Longrightarrow> x \<noteq> final ?N as" "bs \<noteq> [] \<Longrightarrow> x \<noteq> first ?N bs" by metis+
    then show ?thesis
      using that False c removed_state_links [of h l as bs s, THEN fun_cong, of x]
        unlinked_info_links [of ?N as bs "list_info s", THEN fun_cong, of x]
      by (simp add: chains_ok_def)
  qed (simp add: removed_state_def Let_def)
  have head: "h_line (hash_table ?s h') = first ?N (?ch h')" if "h' < hash_table_entries s" for h'
    using D(1) [OF that] by (cases as) (auto simp: removed_state_def Let_def xs)
  show ?thesis
  proof (rule chains_okI, unfold removed_state_simps(1,2))
    fix h' assume h': "h' < hash_table_entries s"
    show "h_line (hash_table ?s h') = first ?N (?ch h')" by (rule head [OF h'])
    show "distinct (?ch h')" using D(2) [OF h'] d by simp
    show "lseg (prev_col \<circ> list_info ?s) (next_col \<circ> list_info ?s) ?N (?ch h') ?N"
      using self other [OF h'] by (cases "h' = h") simp_all
    show "set (?ch h') = {x. mapped ?s x \<and> key_hash ?s (line_key ?s x) = h'}" by (rule sets [OF h'])
  next
    fix x assume x: "x < ?N" "\<not> mapped ?s x"
    then show "core_id (collision ?s x) = OCF_CORE_NUM"
      using chains_ok_free [OF c x(1)] by (auto simp: removed_mapped)
    show "prev_col (list_info ?s x) = ?N \<and> next_col (list_info ?s x) = ?N"
      using free x by (simp add: removed_mapped)
  qed
qed


subsection \<open>Lookup\<close>

lemma chain_find_end [simp]: "chain_find s cid cl (collision_table_entries s) = Some None"
  by (subst chain_find.simps) simp

lemma chain_find_step:
  "l < collision_table_entries s \<Longrightarrow>
   chain_find s cid cl l = (if line_key s l = (cid, cl) then Some (Some l)
     else chain_find s cid cl (next_col (list_info s l)))"
  by (subst chain_find.simps)
    (auto simp: ocf_metadata_get_core_info_def raw_bug_on_def ocf_metadata_get_collision_next_def
      ocf_metadata_get_collision_info_def list_info_bug_on_def line_key_def)

lemma chain_find_list:
  "lseg prv (next_col \<circ> list_info s) p xs (collision_table_entries s) \<Longrightarrow>
   \<forall>x\<in>set xs. x < collision_table_entries s \<Longrightarrow>
   chain_find s cid cl (first (collision_table_entries s) xs) =
     Some (find (\<lambda>l. line_key s l = (cid, cl)) xs)"
  by (induction xs arbitrary: p) (auto simp: chain_find_step)

lemma find_in_chain:
  assumes "coll_inv s" "fst k < OCF_CORE_NUM"
  shows "ocf_metadata_get_hash s (key_hash s k) \<bind> chain_find s (fst k) (snd k) = Some (cached s k)"
proof -
  obtain ch where g: "geometry_ok s" and u: "unique_keys s" and c: "chains_ok s ch"
    using assms(1) by (auto simp: coll_inv_def)
  let ?h = "key_hash s k"
  have h: "?h < hash_table_entries s" by (rule hash_func_less [OF g])
  note D = chains_okD [OF c h]
  have "find (\<lambda>l. line_key s l = k) (ch ?h) = cached s k"
  proof (cases "cached s k")
    case None
    then have "find (\<lambda>l. line_key s l = k) (ch ?h) = None"
      using D(5) by (auto simp: find_None_iff cached_eq_None)
    with None show ?thesis by simp
  next
    case (Some l)
    then have l: "mapped s l" "line_key s l = k" by (simp_all add: cached_eq_Some [OF u])
    then have "l \<in> set (ch ?h)" using D(5) by simp
    with l have "find (\<lambda>l. line_key s l = k) (ch ?h) \<noteq> None" by (auto simp: find_None_iff)
    then obtain l' where f: "find (\<lambda>l. line_key s l = k) (ch ?h) = Some l'" by blast
    then have "l' \<in> set (ch ?h)" "line_key s l' = k" by (auto simp: find_Some_iff)
    then have "l' = l" using D(5) l u by (auto simp: unique_keys_def)
    with f Some show ?thesis by simp
  qed
  moreover have "\<forall>x\<in>set (ch ?h). x < collision_table_entries s" using D(5) by (auto simp: mapped_def)
  ultimately show ?thesis
    using D(1) h chain_find_list [OF D(3), of "fst k" "snd k"]
    by (simp add: ocf_metadata_get_hash_def ocf_metadata_get_hash_ptr_def)
qed

subsection \<open>The directory of cached core lines\<close>

lemma add_refines:
  assumes i: "coll_inv s" and k: "key_ok k" and n: "cached s k = None"
    and l: "l < collision_table_entries s" "\<not> mapped s l"
  shows "\<exists>s'. ocf_metadata_add_to_collision s (fst k) (snd k) (key_hash s k) l = Some s' \<and>
    coll_inv s' \<and> cached s' = (cached s)(k \<mapsto> l) \<and>
    collision_table_entries s' = collision_table_entries s \<and> key_hash s' = key_hash s"
proof -
  obtain ch where g: "geometry_ok s" and u: "unique_keys s" and c: "chains_ok s ch"
    using i by (auto simp: coll_inv_def)
  have k': "key_ok (fst k, snd k)" using k by simp
  let ?h = "key_hash s k"
  let ?s = "added_state (fst k) (snd k) ?h l (ch ?h) s"
  have h: "?h < hash_table_entries s" by (rule hash_func_less [OF g])
  note M = added_mapped [OF k' l(1), of ?h "ch ?h"]
  have u': "unique_keys ?s"
    using u n l(2) unfolding unique_keys_def cached_eq_None by (simp add: M) metis
  have "coll_inv ?s"
    using g u' add_chains_ok [OF g c k' _ l, of ?h] by (auto simp: coll_inv_def geometry_ok_def)
  moreover have "cached ?s k' = ((cached s)(k \<mapsto> l)) k'" for k'
  proof (cases "k' = k")
    case False
    have "cached ?s k' = Some x \<longleftrightarrow> cached s k' = Some x" for x
      using False l(2) by (auto simp: cached_eq_Some u u' M)
    with False show ?thesis by (metis fun_upd_other not_None_eq)
  qed (simp add: cached_eq_Some u' M)
  ultimately show ?thesis
    using add_to_collision_eq [OF g c k' h l(1)] by (auto simp: fun_eq_iff)
qed

lemma remove_refines:
  assumes i: "coll_inv s" and l: "mapped s l"
  shows "\<exists>s'. ocf_metadata_remove_from_collision s l = Some s' \<and> coll_inv s' \<and>
    cached s' = (cached s)(line_key s l := None) \<and> \<not> mapped s' l \<and>
    collision_table_entries s' = collision_table_entries s \<and> key_hash s' = key_hash s"
proof -
  obtain ch where g: "geometry_ok s" and u: "unique_keys s" and c: "chains_ok s ch"
    using i by (auto simp: coll_inv_def)
  let ?h = "key_hash s (line_key s l)"
  have h: "?h < hash_table_entries s" by (rule hash_func_less [OF g])
  have "l \<in> set (ch ?h)" using chains_okD(5) [OF c h] l by simp
  then obtain as bs where xs: "ch ?h = as @ l # bs" by (meson split_list)
  let ?s = "removed_state ?h l as bs s"
  have u': "unique_keys ?s"
    using u unfolding unique_keys_def removed_mapped(1) by (simp add: removed_mapped(2))
  have "coll_inv ?s"
    using g u' remove_chains_ok [OF g c l _ xs] by (auto simp: coll_inv_def geometry_ok_def)
  moreover have "cached ?s k = ((cached s)(line_key s l := None)) k" for k
  proof (cases "k = line_key s l")
    case True
    then show ?thesis
      using u l by (auto simp: cached_eq_None removed_mapped unique_keys_def)
  next
    case False
    have "cached ?s k = Some x \<longleftrightarrow> cached s k = Some x" for x
      using False by (cases "x = l") (auto simp: cached_eq_Some u u' removed_mapped)
    with False show ?thesis by (metis fun_upd_other not_None_eq)
  qed
  ultimately show ?thesis
    using remove_from_collision_eq [OF g c l _ xs] by (auto simp: fun_eq_iff removed_mapped)
qed


subsection \<open>Initialisation in parallel shards\<close>

definition entry_fresh :: "'z coll_state_scheme \<Rightarrow> nat \<Rightarrow> bool" where
  "entry_fresh s l \<longleftrightarrow> core_id (collision s l) = OCF_CORE_NUM \<and>
     prev_col (list_info s l) = collision_table_entries s \<and>
     next_col (list_info s l) = collision_table_entries s \<and>
     marked Valid s l = {} \<and> marked Dirty s l = {}"

definition same_shape :: "'z coll_state_scheme \<Rightarrow> 'z coll_state_scheme \<Rightarrow> bool" where
  "same_shape s s' \<longleftrightarrow> collision_table_entries s' = collision_table_entries s \<and>
     hash_table_entries s' = hash_table_entries s \<and> line_size s' = line_size s \<and> block_4k s' = block_4k s"

lemma same_shape_refl [simp]: "same_shape s s"
  by (simp add: same_shape_def)

lemma same_shape_trans: "same_shape s s' \<Longrightarrow> same_shape s' s'' \<Longrightarrow> same_shape s s''"
  by (simp add: same_shape_def)

lemma init_status_bits_eq:
  assumes ok: "md_ok s" "l < collision_table_entries s"
  shows "\<exists>st. metadata_init_status_bits s l = Some (set_status l st s) \<and> md_ok (set_status l st s) \<and>
    marked Valid (set_status l st s) l = {} \<and> marked Dirty (set_status l st s) l = {}"
proof -
  obtain d where d: "ocf_metadata_clear Dirty s l 0 (ocf_line_end_block s) = Some (marked Dirty d l \<noteq> {}, d)"
      "remarked Dirty l {} s d"
    using ocf_metadata_clear_eq [OF ok whole_line(1,2) [OF ok]] whole_line(5) [OF ok] by metis
  then obtain st where st: "d = set_status l st s" by (auto simp: remarked_def)
  have ok': "md_ok d" "l < collision_table_entries d" using d ok by (auto simp: remarked_def)
  obtain v where v: "ocf_metadata_clear Valid d l 0 (ocf_line_end_block d) = Some (marked Valid v l \<noteq> {}, v)"
      "remarked Valid l {} d v"
    using ocf_metadata_clear_eq [OF ok' whole_line(1,2) [OF ok']] whole_line(5) [OF ok'] by metis
  then obtain st' where "v = set_status l st' d" by (auto simp: remarked_def)
  then have "v = set_status l st' s" by (simp add: st set_status_def)
  with d v show ?thesis by (auto simp: metadata_init_status_bits_def remarked_def)
qed

lemma init_entry:
  assumes ok: "md_ok s" "geometry_ok s" "l < collision_table_entries s"
  shows "\<exists>s'. ocf_init_collision_entry s l = Some s' \<and> md_ok s' \<and> same_shape s s' \<and>
    hash_table s' = hash_table s \<and> entry_fresh s' l \<and> (\<forall>k. entry_fresh s k \<longrightarrow> entry_fresh s' k)"
proof -
  let ?N = "collision_table_entries s"
  let ?s = "s\<lparr>list_info := (list_info s)(l := \<lparr>prev_col = ?N, next_col = ?N\<rparr>),
    collision := (collision s)(l := (collision s l)\<lparr>core_id := OCF_CORE_NUM, core_line := 2 ^ 46 - 1\<rparr>)\<rparr>"
  have "md_ok ?s" "l < collision_table_entries ?s" using ok by (auto simp: md_ok_def)
  from init_status_bits_eq [OF this] obtain st
    where st: "metadata_init_status_bits ?s l = Some (set_status l st ?s)" "md_ok (set_status l st ?s)"
      "marked Valid (set_status l st ?s) l = {}" "marked Dirty (set_status l st ?s) l = {}" by blast
  have "ocf_init_collision_entry s l = Some (set_status l st ?s)"
    using ok st(1) by (simp add: ocf_init_collision_entry_def ocf_metadata_set_collision_info_def
        list_info_bug_on_def put_list_info_def ocf_metadata_list_info_set_def ocf_metadata_set_core_info_def
        raw_bug_on_def geometry_ok_def Let_def)
  moreover have "entry_fresh (set_status l st ?s) l"
    using st(3,4) by (simp add: entry_fresh_def) (simp add: set_status_def)
  moreover have "entry_fresh (set_status l st ?s) k" if "entry_fresh s k" "k \<noteq> l" for k
    using that by (simp add: entry_fresh_def marked_def set_status_def)
  ultimately show ?thesis
    using st(2) by (intro exI [of _ "set_status l st ?s"]) (auto simp: same_shape_def set_status_def)
qed

lemma init_entries:
  assumes "md_ok s" "geometry_ok s" "\<forall>l\<in>set ls. l < collision_table_entries s"
  shows "\<exists>s'. each_entry (\<lambda>i s. ocf_init_collision_entry s i) ls s = Some s' \<and> md_ok s' \<and> same_shape s s' \<and>
    hash_table s' = hash_table s \<and> (\<forall>l. l \<in> set ls \<or> entry_fresh s l \<longrightarrow> entry_fresh s' l)"
  using assms
proof (induction ls arbitrary: s)
  case (Cons l ls)
  obtain s1 where s1: "ocf_init_collision_entry s l = Some s1" "md_ok s1" "same_shape s s1"
      "hash_table s1 = hash_table s" "entry_fresh s1 l" "\<forall>k. entry_fresh s k \<longrightarrow> entry_fresh s1 k"
    using init_entry [of s l] Cons.prems by auto
  have "geometry_ok s1" "\<forall>l\<in>set ls. l < collision_table_entries s1"
    using s1(3) Cons.prems by (auto simp: same_shape_def geometry_ok_def)
  from Cons.IH [OF s1(2) this] obtain s2
    where "each_entry (\<lambda>i s. ocf_init_collision_entry s i) ls s1 = Some s2" "md_ok s2" "same_shape s1 s2"
      "hash_table s2 = hash_table s1" "\<forall>l. l \<in> set ls \<or> entry_fresh s1 l \<longrightarrow> entry_fresh s2 l" by blast
  with s1 show ?case by (auto intro: same_shape_trans)
qed simp

lemma shard_range_set:
  assumes "i < cnt" "cnt \<le> 2 ^ 31" "n < 2 ^ 31"
  shows "set (shard_range n i cnt) =
    {(n + cnt - 1) div cnt * i ..< min ((n + cnt - 1) div cnt * Suc i) n}"
proof -
  let ?p = "(n + cnt - 1) div cnt"
  have "?p * cnt \<le> n + cnt - 1" by simp
  moreover have "?p * Suc i \<le> ?p * cnt" using assms(1) by (intro mult_le_mono2) simp
  ultimately have "?p * Suc i \<le> n + cnt - 1" by (rule order_trans [rotated])
  moreover have "n + cnt - 1 < 2 ^ 32" using assms by simp
  ultimately have b: "?p * Suc i < 2 ^ 32" by (rule le_less_trans)
  have "?p \<le> n + cnt - 1" by simp
  then have "?p < 2 ^ 32" using \<open>n + cnt - 1 < 2 ^ 32\<close> by (rule le_less_trans)
  then have p: "?p mod 2 ^ 32 = ?p" by (rule mod_less)
  have "?p * i \<le> ?p * Suc i" by simp
  then have i: "?p * i mod 2 ^ 32 = ?p * i" using b by (intro mod_less) simp
  have s: "Suc i mod 2 ^ 32 = Suc i" using assms by (intro mod_less) simp
  have j: "?p * Suc i mod 2 ^ 32 = ?p * Suc i" using b by (intro mod_less) simp
  show ?thesis unfolding shard_range_def Let_def Suc_eq_plus1 [symmetric] p i s j by simp
qed

lemma shard_ranges_cover:
  assumes "0 < cnt" "cnt \<le> 2 ^ 31" "n < 2 ^ 31"
  shows "(\<Union>i<cnt. set (shard_range n i cnt)) = {..<n}"
proof -
  let ?p = "(n + cnt - 1) div cnt"
  have "x \<in> set (shard_range n (x div ?p) cnt) \<and> x div ?p < cnt" if x: "x < n" for x
  proof -
    have "n \<le> ?p * cnt"
    proof -
      have "n + cnt - 1 < ?p * cnt + cnt" using dividend_less_div_times [OF assms(1), of "n + cnt - 1"] by simp
      then show ?thesis by simp
    qed
    then have "x < cnt * ?p" using x by (simp add: mult.commute)
    then have lt: "x div ?p < cnt" by (rule less_mult_imp_div_less)
    have pos: "0 < ?p" using \<open>n \<le> ?p * cnt\<close> x by (cases "?p = 0") simp_all
    have "?p * (x div ?p) \<le> x" by simp
    moreover have "x < ?p * Suc (x div ?p)" using dividend_less_times_div [OF pos, of x] by simp
    ultimately show ?thesis unfolding shard_range_set [OF lt assms(2,3)] using lt x by simp
  qed
  moreover have "set (shard_range n i cnt) \<subseteq> {..<n}" for i by (auto simp: shard_range_def Let_def)
  ultimately show ?thesis by fastforce
qed


lemma init_collision_shards:
  assumes "md_ok s" "geometry_ok s" "\<forall>i\<in>set ids. i < cnt" "cnt \<le> 2 ^ 31"
  shows "\<exists>s'. each_entry (\<lambda>i. ocf_metadata_init_collision_handle i cnt) ids s = Some s' \<and> md_ok s' \<and>
    same_shape s s' \<and> hash_table s' = hash_table s \<and>
    (\<forall>l. entry_fresh s l \<or> (\<exists>i\<in>set ids. l \<in> set (shard_range (collision_table_entries s) i cnt)) \<longrightarrow>
       entry_fresh s' l)"
  using assms
proof (induction ids arbitrary: s)
  case (Cons i ids)
  have "\<forall>l\<in>set (shard_range (collision_table_entries s) i cnt). l < collision_table_entries s"
    by (auto simp: shard_range_def Let_def)
  from init_entries [OF Cons.prems(1,2) this] obtain s1
    where s1: "ocf_metadata_init_collision_handle i cnt s = Some s1" "md_ok s1" "same_shape s s1"
      "hash_table s1 = hash_table s"
      "\<forall>l. l \<in> set (shard_range (collision_table_entries s) i cnt) \<or> entry_fresh s l \<longrightarrow> entry_fresh s1 l"
    unfolding ocf_metadata_init_collision_handle_def by blast
  have N: "collision_table_entries s1 = collision_table_entries s" using s1(3) by (simp add: same_shape_def)
  have "geometry_ok s1" "\<forall>i\<in>set ids. i < cnt"
    using s1(3) Cons.prems by (auto simp: same_shape_def geometry_ok_def)
  from Cons.IH [OF s1(2) this Cons.prems(4)] obtain s2
    where "each_entry (\<lambda>i. ocf_metadata_init_collision_handle i cnt) ids s1 = Some s2" "md_ok s2"
      "same_shape s1 s2" "hash_table s2 = hash_table s1"
      "\<forall>l. entry_fresh s1 l \<or> (\<exists>i\<in>set ids. l \<in> set (shard_range (collision_table_entries s) i cnt)) \<longrightarrow>
         entry_fresh s2 l"
    unfolding N by blast
  with s1 show ?case by (auto intro: same_shape_trans)
qed simp

definition emptied :: "nat set \<Rightarrow> 'z coll_state_scheme \<Rightarrow> 'z coll_state_scheme" where
  "emptied H s = s\<lparr>hash_table := (\<lambda>h. if h \<in> H then (hash_table s h)\<lparr>h_line := collision_table_entries s\<rparr>
     else hash_table s h)\<rparr>"

lemma emptied_simps [simp]:
  "emptied {} s = s" "emptied A (emptied B s) = emptied (A \<union> B) s"
  "collision_table_entries (emptied H s) = collision_table_entries s"
  "hash_table_entries (emptied H s) = hash_table_entries s"
  "geometry_ok (emptied H s) = geometry_ok s"
  by (auto simp: emptied_def geometry_ok_def intro!: coll_state.equality)

lemma init_hash_entries:
  "geometry_ok s \<Longrightarrow> \<forall>h\<in>set hs. h < hash_table_entries s \<Longrightarrow>
   each_entry (\<lambda>i s. ocf_metadata_set_hash s i (collision_table_entries s)) hs s = Some (emptied (set hs) s)"
proof (induction hs arbitrary: s)
  case (Cons h hs)
  have "ocf_metadata_set_hash s h (collision_table_entries s) = Some (emptied {h} s)"
    using Cons.prems by (auto simp: ocf_metadata_set_hash_def ocf_metadata_get_hash_ptr_def geometry_ok_def
        emptied_def intro!: coll_state.equality)
  with Cons show ?case by simp
qed simp

lemma init_hash_shards:
  "geometry_ok s \<Longrightarrow> each_entry (\<lambda>i. ocf_metadata_init_hash_table_handle i cnt) ids s =
     Some (emptied (\<Union>i\<in>set ids. set (shard_range (hash_table_entries s) i cnt)) s)"
proof (induction ids arbitrary: s)
  case (Cons i ids)
  have "\<forall>h\<in>set (shard_range (hash_table_entries s) i cnt). h < hash_table_entries s"
    by (auto simp: shard_range_def Let_def)
  with Cons init_hash_entries [OF Cons.prems] show ?case
    by (simp add: ocf_metadata_init_hash_table_handle_def Un_commute)
qed simp

lemma fresh_directory:
  assumes "geometry_ok s" "\<forall>l < collision_table_entries s. entry_fresh s l"
    "\<forall>h < hash_table_entries s. h_line (hash_table s h) = collision_table_entries s"
  shows "coll_inv s \<and> cached s = Map.empty"
proof -
  have no: "\<not> mapped s l" for l using assms(2) by (auto simp: mapped_def entry_fresh_def)
  then have "chains_ok s (\<lambda>_. [])" using assms by (auto simp: chains_ok_def entry_fresh_def)
  with no assms(1) show ?thesis by (auto simp: coll_inv_def unique_keys_def cached_eq_None)
qed


subsection \<open>The directory interface\<close>

text \<open>
  What the engines rely on: a partial map from core lines to cache lines with insertion of an
  absent core line on an unused cache line, removal and lookup. A sequence of these operations is
  run on the abstract map by \<open>spec_op\<close> and on the code by \<open>code_op\<close>.
\<close>

datatype ('k, 'l) dir_op = Map_line 'k 'l | Unmap_line 'k

fun spec_op :: "('k \<Rightarrow> bool) \<Rightarrow> ('l \<Rightarrow> bool) \<Rightarrow> ('k, 'l) dir_op \<Rightarrow> ('k \<rightharpoonup> 'l) \<Rightarrow> ('k \<rightharpoonup> 'l) option" where
  "spec_op kok lok (Map_line k l) m =
     (if kok k \<and> m k = None \<and> lok l \<and> l \<notin> ran m then Some (m(k \<mapsto> l)) else None)"
| "spec_op kok lok (Unmap_line k) m = (if kok k \<and> m k \<noteq> None then Some (m(k := None)) else None)"

fun code_op :: "('s \<Rightarrow> 'k \<Rightarrow> 'l \<Rightarrow> 's option) \<Rightarrow> ('s \<Rightarrow> 'l \<Rightarrow> 's option) \<Rightarrow> ('s \<Rightarrow> 'k \<Rightarrow> 'l option option) \<Rightarrow>
    ('k, 'l) dir_op \<Rightarrow> 's \<Rightarrow> 's option" where
  "code_op add rem look (Map_line k l) s = add s k l"
| "code_op add rem look (Unmap_line k) s = do {
     r \<leftarrow> look s k;
     l \<leftarrow> r;
     rem s l }"

locale directory =
  fixes inv :: "'s \<Rightarrow> bool" and view :: "'s \<Rightarrow> 'k \<rightharpoonup> 'l" and lok :: "'s \<Rightarrow> 'l \<Rightarrow> bool" and kok :: "'k \<Rightarrow> bool"
    and add :: "'s \<Rightarrow> 'k \<Rightarrow> 'l \<Rightarrow> 's option" and rem :: "'s \<Rightarrow> 'l \<Rightarrow> 's option"
    and look :: "'s \<Rightarrow> 'k \<Rightarrow> 'l option option"
  assumes add_law: "inv s \<Longrightarrow> kok k \<Longrightarrow> view s k = None \<Longrightarrow> lok s l \<Longrightarrow> l \<notin> ran (view s) \<Longrightarrow>
      \<exists>s'. add s k l = Some s' \<and> inv s' \<and> view s' = (view s)(k \<mapsto> l) \<and> lok s' = lok s"
    and rem_law: "inv s \<Longrightarrow> view s k = Some l \<Longrightarrow>
      \<exists>s'. rem s l = Some s' \<and> inv s' \<and> view s' = (view s)(k := None) \<and> lok s' = lok s"
    and look_law: "inv s \<Longrightarrow> kok k \<Longrightarrow> look s k = Some (view s k)"
begin

lemma op_refines:
  assumes "inv s" "spec_op kok (lok s) op (view s) = Some m"
  shows "\<exists>s'. code_op add rem look op s = Some s' \<and> inv s' \<and> view s' = m \<and> lok s' = lok s"
proof (cases op)
  case (Map_line k l)
  with assms add_law [of s k l] show ?thesis by (auto split: if_splits)
next
  case (Unmap_line k)
  with assms obtain l where "kok k" "view s k = Some l" "m = (view s)(k := None)" by (auto split: if_splits)
  with assms Unmap_line rem_law [of s k l] look_law [of s k] show ?thesis by auto
qed

lemma run_refines:
  "inv s \<Longrightarrow> each_entry (spec_op kok (lok s)) ops (view s) = Some m \<Longrightarrow>
   \<exists>s'. each_entry (code_op add rem look) ops s = Some s' \<and> inv s' \<and> view s' = m \<and>
     (\<forall>k. kok k \<longrightarrow> look s' k = Some (m k))"
proof (induction ops arbitrary: s)
  case Nil
  then show ?case by (auto simp: look_law)
next
  case (Cons op ops)
  from Cons.prems(2) obtain m' where m': "spec_op kok (lok s) op (view s) = Some m'"
      "each_entry (spec_op kok (lok s)) ops m' = Some m"
    by (auto simp: bind_eq_Some_iff)
  from op_refines [OF Cons.prems(1) m'(1)] obtain s'
    where "code_op add rem look op s = Some s'" "inv s'" "view s' = m'" "lok s' = lok s" by blast
  with Cons.IH [of s'] m'(2) show ?case by simp
qed

end

definition dir_add :: "'z coll_state_scheme \<Rightarrow> nat \<times> nat \<Rightarrow> nat \<Rightarrow> 'z coll_state_scheme option" where
  "dir_add s k l = ocf_metadata_add_to_collision s (fst k) (snd k) (key_hash s k) l"

definition dir_look :: "'z coll_state_scheme \<Rightarrow> nat \<times> nat \<Rightarrow> nat option option" where
  "dir_look s k = ocf_metadata_get_hash s (key_hash s k) \<bind> chain_find s (fst k) (snd k)"

lemma ran_cached: "unique_keys s \<Longrightarrow> ran (cached s) = {l. mapped s l}"
  by (auto simp: ran_def cached_eq_Some)

interpretation lines: directory coll_inv cached "\<lambda>s l. l < collision_table_entries s" key_ok
  dir_add ocf_metadata_remove_from_collision dir_look
proof unfold_locales
  fix s :: "'z coll_state_scheme" and k l
  assume a: "coll_inv s" "key_ok k" "cached s k = None" "l < collision_table_entries s" "l \<notin> ran (cached s)"
  then have "\<not> mapped s l" by (auto simp: coll_inv_def ran_cached)
  from add_refines [OF a(1-4) this]
  show "\<exists>s'. dir_add s k l = Some s' \<and> coll_inv s' \<and> cached s' = (cached s)(k \<mapsto> l) \<and>
     (\<lambda>l. l < collision_table_entries s') = (\<lambda>l. l < collision_table_entries s)"
    by (auto simp: dir_add_def)
next
  fix s :: "'z coll_state_scheme" and k l
  assume a: "coll_inv s" "cached s k = Some l"
  then have "mapped s l" "line_key s l = k" by (auto simp: coll_inv_def cached_eq_Some)
  with remove_refines [OF a(1), of l]
  show "\<exists>s'. ocf_metadata_remove_from_collision s l = Some s' \<and> coll_inv s' \<and> cached s' = (cached s)(k := None) \<and>
     (\<lambda>l. l < collision_table_entries s') = (\<lambda>l. l < collision_table_entries s)"
    by auto
next
  fix s :: "'z coll_state_scheme" and k
  assume "coll_inv s" "key_ok k"
  then show "dir_look s k = Some (cached s k)" by (simp add: dir_look_def find_in_chain key_ok_def)
qed

subsection \<open>Properties\<close>

text \<open>Running all shards of both initialisation handlers, in any order, leaves a consistent hash
  table with no cached core line and every block of every cache line invalid and clean.\<close>

theorem init_directory:
  assumes "md_ok s" "geometry_ok s" "0 < cnt" "cnt \<le> 2 ^ 31" "set ids = {..<cnt}" "set ids' = {..<cnt}"
  shows "\<exists>s'. (each_entry (\<lambda>i. ocf_metadata_init_collision_handle i cnt) ids s \<bind>
       each_entry (\<lambda>i. ocf_metadata_init_hash_table_handle i cnt) ids') = Some s' \<and>
     coll_inv s' \<and> cached s' = Map.empty \<and>
     (\<forall>l < collision_table_entries s. marked Valid s' l = {} \<and> marked Dirty s' l = {})"
proof -
  have N: "collision_table_entries s < 2 ^ 31" and H: "hash_table_entries s < 2 ^ 31"
    using assms(2) by (simp_all add: geometry_ok_def)
  obtain s1 where s1: "each_entry (\<lambda>i. ocf_metadata_init_collision_handle i cnt) ids s = Some s1"
      "same_shape s s1" and f: "\<And>l. l \<in> (\<Union>i<cnt. set (shard_range (collision_table_entries s) i cnt)) \<Longrightarrow> entry_fresh s1 l"
    using init_collision_shards [OF assms(1,2) _ assms(4), of ids] assms(5) by auto
  have shape: "collision_table_entries s1 = collision_table_entries s" "hash_table_entries s1 = hash_table_entries s"
    and g: "geometry_ok s1"
    using s1(2) assms(2) by (auto simp: same_shape_def geometry_ok_def)
  have f1: "entry_fresh s1 l" if "l < collision_table_entries s" for l
    using f that by (simp add: shard_ranges_cover [OF assms(3,4) N])
  let ?s = "emptied {..<hash_table_entries s} s1"
  have "each_entry (\<lambda>i. ocf_metadata_init_hash_table_handle i cnt) ids' s1 = Some ?s"
    by (simp add: init_hash_shards [OF g] assms(6) shape shard_ranges_cover [OF assms(3,4) H])
  moreover have fr: "entry_fresh ?s l" if "l < collision_table_entries s" for l
    using f1 [OF that] by (simp add: entry_fresh_def emptied_def marked_def)
  moreover have "coll_inv ?s \<and> cached ?s = Map.empty"
    using g fr by (intro fresh_directory) (simp_all add: shape, simp add: emptied_def shape)
  ultimately show ?thesis using s1(1) by (auto simp: entry_fresh_def)
qed

text \<open>C17: Every sequence of insertions of absent core lines on unused cache lines and removals runs
  on the hash table without a failed assertion, keeps its invariant, and afterwards the chain
  traversal finds exactly the core lines that the same sequence leaves in an abstract map.\<close>

theorem directory_refines:
  assumes "coll_inv s" "each_entry (spec_op key_ok (\<lambda>l. l < collision_table_entries s)) ops (cached s) = Some m"
  shows "\<exists>s'. each_entry (code_op dir_add ocf_metadata_remove_from_collision dir_look) ops s = Some s' \<and>
    coll_inv s' \<and> cached s' = m \<and> (\<forall>k. key_ok k \<longrightarrow> dir_look s' k = Some (m k))"
  using assms by (rule lines.run_refines)

lemma lookup_map_entry_spec:
  assumes "coll_inv s" "cid < OCF_CORE_NUM"
  shows "ocf_engine_lookup_map_entry s e cid cl =
      Some (e\<lparr>m_hash := ocf_metadata_hash_func s cl cid, m_core_line := cl, m_core_id := cid,
        m_status := (if cached s (cid, cl) = None then LOOKUP_MISS else LOOKUP_HIT),
        coll_idx := (case cached s (cid, cl) of None \<Rightarrow> collision_table_entries s | Some l \<Rightarrow> l)\<rparr>) \<and>
    ocf_metadata_is_hit_no_lock s cid cl = Some (cached s (cid, cl) \<noteq> None) \<and>
    (\<forall>l. cached s (cid, cl) = Some l \<longleftrightarrow> l < collision_table_entries s \<and> line_key s l = (cid, cl))"
proof -
  let ?h = "ocf_metadata_hash_func s cl cid"
  have f: "ocf_metadata_get_hash s ?h \<bind> chain_find s cid cl = Some (cached s (cid, cl))"
    using find_in_chain [of s "(cid, cl)"] assms by (simp add: key_hash_def)
  then obtain l where "ocf_metadata_get_hash s ?h = Some l" "chain_find s cid cl l = Some (cached s (cid, cl))"
    by (auto simp: bind_eq_Some_iff)
  note r = this
  have "ocf_engine_lookup_map_entry s e cid cl =
      Some (e\<lparr>m_hash := ?h, m_core_line := cl, m_core_id := cid,
        m_status := (if cached s (cid, cl) = None then LOOKUP_MISS else LOOKUP_HIT),
        coll_idx := (case cached s (cid, cl) of None \<Rightarrow> collision_table_entries s | Some l \<Rightarrow> l)\<rparr>)"
    using r by (cases "cached s (cid, cl)") (simp_all add: ocf_engine_lookup_map_entry_def Let_def)
  moreover have "ocf_metadata_is_hit_no_lock s cid cl = Some (cached s (cid, cl) \<noteq> None)"
    using r by (simp add: ocf_metadata_is_hit_no_lock_def Let_def)
  moreover have "unique_keys s" using assms by (simp add: coll_inv_def)
  then have "cached s (cid, cl) = Some l \<longleftrightarrow> l < collision_table_entries s \<and> line_key s l = (cid, cl)" for l
    using assms(2) by (auto simp: cached_eq_Some mapped_def line_key_def)
  ultimately show ?thesis by simp
qed

text \<open>Consecutive core lines have consecutive hashes modulo the number of buckets, so that the
  incremental \<open>ocf_metadata_hash_next\<close> agrees with the hash function.\<close>

lemma hash_next_step:
  assumes "geometry_ok s" "cl + cid * (hash_table_entries s div 32) mod 2 ^ 32 < 2 ^ 64 - 1"
  shows "ocf_metadata_hash_next s (ocf_metadata_hash_func s cl cid) = ocf_metadata_hash_func s (Suc cl) cid \<and>
    ocf_metadata_hash_func s cl cid < hash_table_entries s"
proof -
  let ?H = "hash_table_entries s" and ?x = "cl + cid * (hash_table_entries s div 32) mod 2 ^ 32"
  have H: "0 < ?H" "?H < 2 ^ 31" using assms(1) by (simp_all add: geometry_ok_def)
  have "?x mod 2 ^ 64 = ?x" "Suc ?x mod 2 ^ 64 = Suc ?x" using assms(2) by (simp_all only: mod_less Suc_less_eq)
  then have f: "ocf_metadata_hash_func s cl cid = ?x mod ?H" "ocf_metadata_hash_func s (Suc cl) cid = Suc ?x mod ?H"
    unfolding ocf_metadata_hash_func_def Let_def add_Suc by simp_all
  have lt: "?x mod ?H < ?H" using H by simp
  moreover have "?x mod ?H < 2 ^ 32 - 1" using lt H(2) by (rule order.strict_trans [OF order.strict_trans]) simp
  then have "inc32 (?x mod ?H) = Suc (?x mod ?H)" by (rule inc32_eq)
  moreover have "Suc (?x mod ?H) < ?H \<or> Suc (?x mod ?H) = ?H" using lt by linarith
  ultimately show ?thesis
    unfolding f ocf_metadata_hash_next_def Let_def by (elim disjE) (simp_all add: mod_Suc)
qed

subsection \<open>Witnesses\<close>

text \<open>An initialised cache of two lines and two buckets.\<close>

definition demo_coll :: coll_state where
  "demo_coll = md_state.extend
     (demo_md\<lparr>collision := \<lambda>_. \<lparr>core_line = 2 ^ 46 - 1, core_id = OCF_CORE_NUM, status = St_u8 \<lparr>valid = 0, dirty = 0\<rparr>\<rparr>\<rparr>)
     (coll_state.fields 2 (\<lambda>_. \<lparr>h_line = 2, h_rd = 0, h_wr = False\<rparr>) (\<lambda>_. \<lparr>prev_col = 2, next_col = 2\<rparr>))"

lemma demo_coll_simps [simp]:
  "collision_table_entries demo_coll = 2" "hash_table_entries demo_coll = 2"
  "line_size demo_coll = Size_4" "block_4k demo_coll = False"
  by (simp_all add: demo_coll_def md_state.defs coll_state.defs demo_md_def)

lemma demo_coll_geometry: "geometry_ok demo_coll"
  by (simp add: geometry_ok_def)

lemma demo_coll_md: "md_ok demo_coll"
  by (simp add: md_ok_def) (simp add: demo_coll_def md_state.defs u8_status_ok)

lemma demo_coll_inv: "coll_inv demo_coll" "cached demo_coll = Map.empty"
  using fresh_directory [OF demo_coll_geometry]
  by (simp_all add: entry_fresh_def marked_def demo_coll_def md_state.defs coll_state.defs demo_md_def)

theorem init_directory_witness:
  "\<exists>s'. (each_entry (\<lambda>i. ocf_metadata_init_collision_handle i 2) [0, 1] demo_coll \<bind>
       each_entry (\<lambda>i. ocf_metadata_init_hash_table_handle i 2) [1, 0]) = Some s' \<and>
     coll_inv s' \<and> cached s' = Map.empty"
proof -
  have "set [0, 1] = {..<2::nat}" "set [1, 0] = {..<2::nat}" by auto
  from init_directory [OF demo_coll_md demo_coll_geometry _ _ this] show ?thesis by auto
qed

theorem directory_refines_witness:
  "\<exists>s'. each_entry (code_op dir_add ocf_metadata_remove_from_collision dir_look)
      [Map_line (0, 5) 0, Map_line (0, 7) 1, Unmap_line (0, 5)] demo_coll = Some s' \<and>
    coll_inv s' \<and> cached s' = [(0, 7) \<mapsto> 1] \<and> dir_look s' (0, 7) = Some (Some 1)"
proof -
  have "each_entry (spec_op key_ok (\<lambda>l. l < collision_table_entries demo_coll))
      [Map_line (0, 5) 0, Map_line (0, 7) 1, Unmap_line (0, 5)] (cached demo_coll) = Some [(0, 7) \<mapsto> 1]"
    by (simp add: demo_coll_inv key_ok_def fun_eq_iff)
  from directory_refines [OF demo_coll_inv(1) this] show ?thesis by (auto simp: key_ok_def)
qed

end
