(* ===== verification/Lru_List.thy ===== *)
theory Lru_List
  imports Collision
begin

section \<open>One LRU list\<close>

text \<open>
  Model of the list level of \<open>src/eviction/ocf_lru.c\<close> with \<open>src/eviction/ocf_lru_structs.h\<close> and
  \<open>ocf_metadata_get_lru\<close> of \<open>src/metadata/metadata_eviction_policy.c\<close>. A list is a record; its nodes
  are entries of the eviction metadata segment, linked by cache line numbers. The lines at the head
  of a list are hot: half of the list, when the list tracks hot lines. An operation returns the new
  state and the new list record, or \<open>None\<close> for a failed assertion.
\<close>

subsection \<open>State\<close>

datatype ocf_eviction = ocf_eviction_lru | ocf_eviction_lfu

record ocf_lru_meta =
  l_prev :: nat
  l_next :: nat
  l_hot :: bool
  partition_id :: nat

record ocf_lru_list =
  num_nodes :: nat
  head :: nat
  tail :: nat
  num_hot :: nat
  last_hot :: nat
  track_hot :: bool

text \<open>
  \<open>eviction_policy_type\<close> is the field of the configuration metadata, \<open>eviction_policy\<close> the one of
  the cache.
\<close>

record lru_state = coll_state +
  eviction_policy_type :: ocf_eviction
  eviction_policy :: ocf_eviction
  lru_meta :: "nat \<Rightarrow> ocf_lru_meta"

definition end_marker :: nat where
  "end_marker = 2 ^ OCF_CACHE_LINE_BITS - 1"

definition ocf_metadata_get_lru :: "'z lru_state_scheme \<Rightarrow> nat \<Rightarrow> ocf_lru_meta option" where
  "ocf_metadata_get_lru s l = do {
     bug_on (eviction_policy_type s \<noteq> ocf_eviction_lru);
     bug_on (\<not> l < collision_table_entries s);
     Some (lru_meta s l) }"

definition upd_lru :: "nat \<Rightarrow> (ocf_lru_meta \<Rightarrow> ocf_lru_meta) \<Rightarrow> 'z lru_state_scheme \<Rightarrow> 'z lru_state_scheme" where
  "upd_lru l f s = s\<lparr>lru_meta := (lru_meta s)(l := f (lru_meta s l))\<rparr>"

type_synonym 'z list_op = "('z lru_state_scheme \<times> ocf_lru_list) option"

subsection \<open>Balancing\<close>

definition balance_update_last_hot ::
  "'z lru_state_scheme \<Rightarrow> ocf_lru_list \<Rightarrow> int \<Rightarrow> (nat \<times> ocf_lru_list) option" where
  "balance_update_last_hot s list change = do {
     let last_hot_old = last_hot list;
     last_hot_new \<leftarrow>
       (if change > 0 then do {
          bug_on (change \<noteq> 1);
          if last_hot list = end_marker then Some (head list)
          else do {
            node \<leftarrow> ocf_metadata_get_lru s (last_hot list);
            bug_on (l_next node = end_marker);
            Some (l_next node) } }
        else if change < 0 then do {
          bug_on (change \<noteq> -1);
          bug_on (last_hot list = end_marker);
          node \<leftarrow> ocf_metadata_get_lru s (last_hot list);
          Some (l_prev node) }
        else Some (last_hot list));
     let list = list\<lparr>last_hot := last_hot_new\<rparr>;
     if change = 0 then Some (end_marker, list)
     else Some (if change > 0 then last_hot list else last_hot_old, list) }"

definition balance_lru_list :: "'z lru_state_scheme \<Rightarrow> ocf_lru_list \<Rightarrow> 'z list_op" where
  "balance_lru_list s list = do {
     let target_hot_count = num_nodes list div 2;
     let change = s32 (int target_hot_count - int (num_hot list));
     if \<not> track_hot list then Some (s, list)
     else do {
       let list = list\<lparr>num_hot := target_hot_count\<rparr>;
       (pivot, list) \<leftarrow> balance_update_last_hot s list change;
       if pivot \<noteq> end_marker then do {
         ocf_metadata_get_lru s pivot;
         Some (upd_lru pivot (\<lambda>n. n\<lparr>l_hot := (change \<ge> 0)\<rparr>) s, list) }
       else Some (s, list) } }"

subsection \<open>Adding and removing\<close>

definition add_lru_head_nobalance ::
  "'z lru_state_scheme \<Rightarrow> ocf_lru_list \<Rightarrow> nat \<Rightarrow> 'z list_op" where
  "add_lru_head_nobalance s list collision_index = do {
     bug_on (collision_index = end_marker);
     ocf_metadata_get_lru s collision_index;
     let s = upd_lru collision_index (\<lambda>n. n\<lparr>l_hot := False\<rparr>) s;
     if num_nodes list = 0 then
       Some (upd_lru collision_index (\<lambda>n. n\<lparr>l_next := end_marker, l_prev := end_marker\<rparr>) s,
         list\<lparr>head := collision_index, tail := collision_index, num_nodes := 1\<rparr>)
     else do {
       let curr_head_index = head list;
       bug_on (curr_head_index = end_marker);
       ocf_metadata_get_lru s curr_head_index;
       let s = upd_lru collision_index (\<lambda>n. n\<lparr>l_next := curr_head_index, l_prev := end_marker\<rparr>) s;
       let s = upd_lru curr_head_index (\<lambda>n. n\<lparr>l_prev := collision_index\<rparr>) s;
       let (s, list) =
         (if track_hot list then
            (let s = upd_lru collision_index (\<lambda>n. n\<lparr>l_hot := True\<rparr>) s;
                 list = (if \<not> l_hot (lru_meta s curr_head_index) then list\<lparr>last_hot := collision_index\<rparr> else list)
             in (s, list\<lparr>num_hot := inc32 (num_hot list)\<rparr>))
          else (s, list));
       let list = list\<lparr>head := collision_index\<rparr>;
       Some (s, list\<lparr>num_nodes := inc32 (num_nodes list)\<rparr>) } }"

definition add_lru_head :: "'z lru_state_scheme \<Rightarrow> ocf_lru_list \<Rightarrow> nat \<Rightarrow> 'z list_op" where
  "add_lru_head s list collision_index = do {
     (s, list) \<leftarrow> add_lru_head_nobalance s list collision_index;
     balance_lru_list s list }"

definition remove_update_ptrs :: "'z lru_state_scheme \<Rightarrow> ocf_lru_list \<Rightarrow> nat \<Rightarrow> 'z list_op" where
  "remove_update_ptrs s list collision_index = do {
     let next_lru_node = l_next (lru_meta s collision_index);
     let prev_lru_node = l_prev (lru_meta s collision_index);
     let is_head = (prev_lru_node = end_marker);
     let is_tail = (next_lru_node = end_marker);
     (s, list) \<leftarrow>
       (if is_head \<and> is_tail then Some (s, list\<lparr>head := end_marker, tail := end_marker\<rparr>)
        else if is_head then do {
          ocf_metadata_get_lru s next_lru_node;
          Some (upd_lru next_lru_node (\<lambda>n. n\<lparr>l_prev := end_marker\<rparr>) s, list\<lparr>head := next_lru_node\<rparr>) }
        else if is_tail then do {
          ocf_metadata_get_lru s prev_lru_node;
          Some (upd_lru prev_lru_node (\<lambda>n. n\<lparr>l_next := end_marker\<rparr>) s, list\<lparr>tail := prev_lru_node\<rparr>) }
        else do {
          ocf_metadata_get_lru s next_lru_node;
          ocf_metadata_get_lru s prev_lru_node;
          let s = upd_lru prev_lru_node (\<lambda>n. n\<lparr>l_next := l_next (lru_meta s collision_index)\<rparr>) s;
          let s = upd_lru next_lru_node (\<lambda>n. n\<lparr>l_prev := l_prev (lru_meta s collision_index)\<rparr>) s;
          Some (s, list) });
     if last_hot list = collision_index then Some (s, list\<lparr>last_hot := prev_lru_node\<rparr>)
     else Some (s, list) }"

definition remove_lru_list_nobalance ::
  "'z lru_state_scheme \<Rightarrow> ocf_lru_list \<Rightarrow> nat \<Rightarrow> 'z list_op" where
  "remove_lru_list_nobalance s list collision_index = do {
     bug_on (collision_index = end_marker);
     node \<leftarrow> ocf_metadata_get_lru s collision_index;
     let is_head = (head list = collision_index);
     let is_tail = (tail list = collision_index);
     bug_on (is_head = (l_prev node \<noteq> end_marker));
     bug_on (is_tail = (l_next node \<noteq> end_marker));
     (s, list) \<leftarrow> remove_update_ptrs s list collision_index;
     let list = list\<lparr>num_nodes := dec32 (num_nodes list)\<rparr>;
     let list = (if l_hot (lru_meta s collision_index) then list\<lparr>num_hot := dec32 (num_hot list)\<rparr> else list);
     Some (upd_lru collision_index
       (\<lambda>n. n\<lparr>l_next := end_marker, l_prev := end_marker, l_hot := False\<rparr>) s, list) }"

definition ocf_lru_remove_locked :: "'z lru_state_scheme \<Rightarrow> ocf_lru_list \<Rightarrow> nat \<Rightarrow> 'z list_op" where
  "ocf_lru_remove_locked s list cline = do {
     (s, list) \<leftarrow> remove_lru_list_nobalance s list cline;
     balance_lru_list s list }"

definition ocf_lru_set_hot :: "'z lru_state_scheme \<Rightarrow> ocf_lru_list \<Rightarrow> nat \<Rightarrow> 'z list_op" where
  "ocf_lru_set_hot s list cline = do {
     (s, list) \<leftarrow> remove_lru_list_nobalance s list cline;
     (s, list) \<leftarrow> add_lru_head_nobalance s list cline;
     balance_lru_list s list }"

definition ocf_lru_init_cline :: "'z lru_state_scheme \<Rightarrow> nat \<Rightarrow> 'z lru_state_scheme option" where
  "ocf_lru_init_cline s cline = do {
     ocf_metadata_get_lru s cline;
     Some (upd_lru cline (\<lambda>n. n\<lparr>l_hot := False, l_prev := end_marker, l_next := end_marker\<rparr>) s) }"

definition lru_init :: "bool \<Rightarrow> ocf_lru_list" where
  "lru_init track = \<lparr>num_nodes = 0, head = end_marker, tail = end_marker, num_hot = 0,
     last_hot = end_marker, track_hot = track\<rparr>"

subsection \<open>Representation of a list\<close>

abbreviation lru_prv :: "'z lru_state_scheme \<Rightarrow> nat \<Rightarrow> nat" where
  "lru_prv s \<equiv> l_prev \<circ> lru_meta s"

abbreviation lru_nxt :: "'z lru_state_scheme \<Rightarrow> nat \<Rightarrow> nat" where
  "lru_nxt s \<equiv> l_next \<circ> lru_meta s"

definition lru_ready :: "'z lru_state_scheme \<Rightarrow> bool" where
  "lru_ready s \<longleftrightarrow> eviction_policy_type s = ocf_eviction_lru \<and> collision_table_entries s < end_marker"

text \<open>\<open>lru_rep s L hs cs\<close>: list \<open>L\<close> holds the hot lines \<open>hs\<close> followed by the cold lines \<open>cs\<close>.\<close>

definition lru_rep :: "'z lru_state_scheme \<Rightarrow> ocf_lru_list \<Rightarrow> nat list \<Rightarrow> nat list \<Rightarrow> bool" where
  "lru_rep s L hs cs \<longleftrightarrow>
     distinct (hs @ cs) \<and> (\<forall>x\<in>set (hs @ cs). x < collision_table_entries s) \<and>
     lseg (lru_prv s) (lru_nxt s) end_marker (hs @ cs) end_marker \<and>
     (\<forall>x\<in>set hs. l_hot (lru_meta s x)) \<and> (\<forall>x\<in>set cs. \<not> l_hot (lru_meta s x)) \<and>
     (\<not> track_hot L \<longrightarrow> hs = []) \<and>
     L = \<lparr>num_nodes = length (hs @ cs), head = first end_marker (hs @ cs), tail = final end_marker (hs @ cs),
       num_hot = length hs, last_hot = final end_marker hs, track_hot = track_hot L\<rparr>"

definition lru_list :: "'z lru_state_scheme \<Rightarrow> ocf_lru_list \<Rightarrow> nat list \<Rightarrow> bool" where
  "lru_list s L xs \<longleftrightarrow> (\<exists>hs cs. xs = hs @ cs \<and> lru_rep s L hs cs \<and>
     (track_hot L \<longrightarrow> length hs = length xs div 2))"

text \<open>\<open>lru_only A s s'\<close>: only links and hot bits of the lines in \<open>A\<close> differ.\<close>

definition lru_only :: "nat set \<Rightarrow> 'z lru_state_scheme \<Rightarrow> 'z lru_state_scheme \<Rightarrow> bool" where
  "lru_only A s s' \<longleftrightarrow> (\<exists>m. s' = s\<lparr>lru_meta := m\<rparr> \<and> (\<forall>y. y \<notin> A \<longrightarrow> m y = lru_meta s y) \<and>
     (\<forall>y. partition_id (m y) = partition_id (lru_meta s y)))"

lemma lru_only_refl [simp]: "lru_only A s s"
  by (auto simp: lru_only_def intro: exI [of _ "lru_meta s"])

lemma lru_only_trans: "lru_only A s s' \<Longrightarrow> lru_only A s' s'' \<Longrightarrow> lru_only A s s''"
  unfolding lru_only_def by auto

lemma lru_only_mono: "lru_only A s s' \<Longrightarrow> A \<subseteq> B \<Longrightarrow> lru_only B s s'"
  unfolding lru_only_def by blast

lemma lru_only_upd: "l \<in> A \<Longrightarrow> (\<And>n. partition_id (f n) = partition_id n) \<Longrightarrow> lru_only A s (upd_lru l f s)"
  by (auto simp: lru_only_def upd_lru_def intro!: exI)

lemma lru_onlyD:
  assumes "lru_only A s s'"
  shows "collision_table_entries s' = collision_table_entries s"
    "eviction_policy_type s' = eviction_policy_type s" "lru_ready s' = lru_ready s"
    "y \<notin> A \<Longrightarrow> lru_meta s' y = lru_meta s y" "partition_id (lru_meta s' y) = partition_id (lru_meta s y)"
  using assms by (auto simp: lru_only_def lru_ready_def)

lemma lru_rep_frame:
  assumes "lru_only A s s'" "A \<inter> set (hs @ cs) = {}" "lru_rep s L hs cs"
  shows "lru_rep s' L hs cs"
proof -
  note D = lru_onlyD [OF assms(1)]
  have eq: "lru_meta s' x = lru_meta s x" if "x \<in> set (hs @ cs)" for x
    using D(4) assms(2) that by blast
  have "lseg (lru_prv s') (lru_nxt s') end_marker (hs @ cs) end_marker"
    using assms(3) lseg_cong [of "hs @ cs" "lru_prv s'" "lru_prv s" "lru_nxt s'" "lru_nxt s"] eq
    by (simp add: lru_rep_def)
  with assms(3) eq show ?thesis unfolding lru_rep_def D(1) by simp
qed

lemma get_lru_ok: "lru_ready s \<Longrightarrow> l < collision_table_entries s \<Longrightarrow> ocf_metadata_get_lru s l = Some (lru_meta s l)"
  by (simp add: ocf_metadata_get_lru_def lru_ready_def)

lemma upd_lru_simps [simp]:
  "lru_meta (upd_lru l f s) = (lru_meta s)(l := f (lru_meta s l))"
  "collision_table_entries (upd_lru l f s) = collision_table_entries s"
  "lru_ready (upd_lru l f s) = lru_ready s"
  by (simp_all add: upd_lru_def lru_ready_def)

lemma lru_repD:
  assumes "lru_rep s L hs cs"
  shows "num_nodes L = length (hs @ cs)" "head L = first end_marker (hs @ cs)"
    "tail L = final end_marker (hs @ cs)" "num_hot L = length hs" "last_hot L = final end_marker hs"
    "distinct (hs @ cs)" "\<forall>x\<in>set (hs @ cs). x < collision_table_entries s"
    "lseg (lru_prv s) (lru_nxt s) end_marker (hs @ cs) end_marker"
    "\<forall>x\<in>set hs. l_hot (lru_meta s x)" "\<forall>x\<in>set cs. \<not> l_hot (lru_meta s x)" "\<not> track_hot L \<Longrightarrow> hs = []"
  using assms unfolding lru_rep_def by (metis ocf_lru_list.select_convs)+

lemma lru_rep_bound:
  assumes "lru_rep s L hs cs" "lru_ready s"
  shows "length (hs @ cs) < end_marker" "end_marker \<notin> set (hs @ cs)"
proof -
  note D = lru_repD [OF assms(1)]
  have "card (set (hs @ cs)) \<le> card {..<collision_table_entries s}"
    using D(7) by (intro card_mono) auto
  then show "length (hs @ cs) < end_marker" using distinct_card [OF D(6)] assms(2) by (simp add: lru_ready_def)
  show "end_marker \<notin> set (hs @ cs)" using D(7) assms(2) unfolding lru_ready_def by (meson less_asym)
qed

lemma lru_repI:
  assumes "distinct (hs @ cs)" "\<forall>x\<in>set (hs @ cs). x < collision_table_entries s"
    "lseg (lru_prv s) (lru_nxt s) end_marker (hs @ cs) end_marker"
    "\<forall>x\<in>set hs. l_hot (lru_meta s x)" "\<forall>x\<in>set cs. \<not> l_hot (lru_meta s x)"
    "\<not> track_hot L \<longrightarrow> hs = []"
    "L = \<lparr>num_nodes = length (hs @ cs), head = first end_marker (hs @ cs), tail = final end_marker (hs @ cs),
       num_hot = length hs, last_hot = final end_marker hs, track_hot = track_hot L\<rparr>"
  shows "lru_rep s L hs cs"
  using assms unfolding lru_rep_def by blast

subsection \<open>Insertion without balancing\<close>

lemma add_nobalance:
  assumes r: "lru_ready s" and L: "lru_rep s L hs cs" and c: "c < collision_table_entries s" "c \<notin> set (hs @ cs)"
  defines "grow \<equiv> track_hot L \<and> hs @ cs \<noteq> []"
  shows "\<exists>s' L'. add_lru_head_nobalance s L c = Some (s', L') \<and> lru_only (insert c (set (hs @ cs))) s s' \<and>
    track_hot L' = track_hot L \<and>
    lru_rep s' L' (if grow then c # hs else []) (if grow then cs else c # cs)"
proof -
  note D = lru_repD [OF L]
  have cne: "c \<noteq> end_marker" using c r by (simp add: lru_ready_def)
  have b: "length (hs @ cs) < end_marker" "end_marker \<notin> set (hs @ cs)" using lru_rep_bound [OF L r] by auto
  show ?thesis
  proof (cases "hs @ cs = []")
    case True
    let ?s = "upd_lru c (\<lambda>n. n\<lparr>l_hot := False, l_next := end_marker, l_prev := end_marker\<rparr>) s"
    let ?L = "L\<lparr>head := c, tail := c, num_nodes := 1\<rparr>"
    have "add_lru_head_nobalance s L c = Some (?s, ?L)"
      using True cne c r D(1) by (simp add: add_lru_head_nobalance_def get_lru_ok upd_lru_def)
    moreover have "lru_rep ?s ?L [] [c]"
      using True c D(4,5) by (simp add: lru_rep_def)
    ultimately show ?thesis
      using True by (auto simp: grow_def intro!: lru_only_upd)
  next
    case False
    let ?h = "first end_marker (hs @ cs)"
    have hin: "?h \<in> set (hs @ cs)" by (rule first_in [OF False])
    have hN: "?h < collision_table_entries s" using D(7) hin by blast
    have hne: "?h \<noteq> c" "?h \<noteq> end_marker" using hin c(2) b(2) by (metis, metis)
    have hhot: "l_hot (lru_meta s ?h) \<longleftrightarrow> hs \<noteq> []"
      using False D(9,10) by (cases hs; cases cs) auto
    let ?m = "(lru_meta s)(c := (lru_meta s c)\<lparr>l_next := ?h, l_prev := end_marker, l_hot := track_hot L\<rparr>,
        ?h := (lru_meta s ?h)\<lparr>l_prev := c\<rparr>)"
    let ?s = "s\<lparr>lru_meta := ?m\<rparr>"
    let ?L = "L\<lparr>last_hot := (if track_hot L \<and> hs = [] then c else last_hot L),
        num_hot := (if track_hot L then Suc (length hs) else num_hot L), head := c,
        num_nodes := Suc (length (hs @ cs))\<rparr>"
    have "length hs \<le> length (hs @ cs)" by simp
    then have i: "inc32 (length hs) = Suc (length hs)" "inc32 (length (hs @ cs)) = Suc (length (hs @ cs))"
      using b(1) by (auto intro!: inc32_eq simp: end_marker_def simp del: length_append)
    have n: "num_nodes L \<noteq> 0" using D(1) False by simp
    have st: "upd_lru c f (upd_lru ?h (\<lambda>n. n\<lparr>l_prev := c\<rparr>) (upd_lru c (\<lambda>n. n\<lparr>l_next := ?h, l_prev := end_marker\<rparr>)
        (upd_lru c (\<lambda>n. n\<lparr>l_hot := False\<rparr>) s))) = ?s"
      if "f = (if track_hot L then (\<lambda>n. n\<lparr>l_hot := True\<rparr>) else (\<lambda>n. n))" for f
      using that hne(1) by (auto simp: upd_lru_def intro!: arg_cong [where f = "\<lambda>m. s\<lparr>lru_meta := m\<rparr>"] ext)
    have "add_lru_head_nobalance s L c = Some (?s, ?L)"
    proof (cases "track_hot L")
      case True
      with i n cne hne c(1) hN r hhot show ?thesis
        by (simp add: add_lru_head_nobalance_def get_lru_ok D(2,4) i(1) st D(1) i(2) Let_def del: length_append)
          (use i in \<open>auto intro!: ocf_lru_list.equality\<close>)
    next
      case nt: False
      have "upd_lru c (\<lambda>n. n) t = t" for t :: "'a lru_state_scheme" by (simp add: upd_lru_def)
      with nt st [of "\<lambda>n. n"] n cne hne c(1) hN r show ?thesis
        by (auto simp add: add_lru_head_nobalance_def get_lru_ok D(2) D(1) i(2) Let_def simp del: length_append)
    qed
    moreover have "lru_only (insert c (set (hs @ cs))) s ?s"
      using hin by (auto simp: lru_only_def intro!: exI [of _ ?m])
    moreover have prv: "lru_prv ?s = (if hs @ cs = [] then lru_prv s else (lru_prv s)(?h := c))(c := end_marker)"
      "lru_nxt ?s = (lru_nxt s)(c := ?h)"
      using False hne by (auto simp: fun_eq_iff)
    then have seg: "lseg (lru_prv ?s) (lru_nxt ?s) end_marker (c # hs @ cs) end_marker"
      using lseg_push [OF c(2) D(6,8)] by (simp only: append_assoc)
    have hot: "l_hot (lru_meta ?s x) = (if x = c then track_hot L else l_hot (lru_meta s x))" for x
      using hne(1) by simp
    have "lru_rep ?s ?L (if track_hot L then c # hs else []) (if track_hot L then cs else c # cs)"
    proof (rule lru_repI)
      show "lseg (lru_prv ?s) (lru_nxt ?s) end_marker ((if track_hot L then c # hs else []) @ (if track_hot L then cs else c # cs)) end_marker"
        using seg D(11) by (cases "track_hot L") simp_all
      show "\<forall>x\<in>set (if track_hot L then c # hs else []). l_hot (lru_meta ?s x)"
        using D(9) by (simp only: hot) auto
      show "\<forall>x\<in>set (if track_hot L then cs else c # cs). \<not> l_hot (lru_meta ?s x)"
        using D(10) c(2) by (simp only: hot) auto
      show "?L = \<lparr>num_nodes = length ((if track_hot L then c # hs else []) @ (if track_hot L then cs else c # cs)),
          head = first end_marker ((if track_hot L then c # hs else []) @ (if track_hot L then cs else c # cs)),
          tail = final end_marker ((if track_hot L then c # hs else []) @ (if track_hot L then cs else c # cs)),
          num_hot = length (if track_hot L then c # hs else []),
          last_hot = final end_marker (if track_hot L then c # hs else []), track_hot = track_hot ?L\<rparr>"
        using D(1-5,11) False by (cases "track_hot L") (auto intro!: ocf_lru_list.equality simp: final_def)
    qed (use c D(6,7,11) in auto)
    ultimately show ?thesis
      using False by (auto simp: grow_def)
  qed
qed


subsection \<open>Removal without balancing\<close>

definition unlinked_meta :: "nat list \<Rightarrow> nat list \<Rightarrow> (nat \<Rightarrow> ocf_lru_meta) \<Rightarrow> nat \<Rightarrow> ocf_lru_meta" where
  "unlinked_meta as bs m =
     (let m = (if as = [] then m else m(final end_marker as := (m (final end_marker as))\<lparr>l_next := first end_marker bs\<rparr>))
      in if bs = [] then m else m(first end_marker bs := (m (first end_marker bs))\<lparr>l_prev := final end_marker as\<rparr>))"

lemma unlinked_meta_simps:
  "l_prev \<circ> unlinked_meta as bs m =
     (if bs = [] then l_prev \<circ> m else (l_prev \<circ> m)(first end_marker bs := final end_marker as))"
  "l_next \<circ> unlinked_meta as bs m =
     (if as = [] then l_next \<circ> m else (l_next \<circ> m)(final end_marker as := first end_marker bs))"
  "l_hot (unlinked_meta as bs m x) = l_hot (m x)" "partition_id (unlinked_meta as bs m x) = partition_id (m x)"
  by (auto simp: unlinked_meta_def Let_def fun_eq_iff)

lemma unlinked_meta_other:
  "x \<notin> set as \<Longrightarrow> x \<notin> set bs \<Longrightarrow> unlinked_meta as bs m x = m x"
  using final_in [of as end_marker] first_in [of bs end_marker]
  by (auto simp: unlinked_meta_def Let_def)

lemma remove_ptrs_eq:
  assumes r: "lru_ready s" and N: "\<forall>x\<in>set (as @ c # bs). x < collision_table_entries s"
    and d: "distinct (as @ c # bs)" and seg: "lseg (lru_prv s) (lru_nxt s) end_marker (as @ c # bs) end_marker"
    and L: "head L = first end_marker (as @ c # bs)" "tail L = final end_marker (as @ c # bs)"
  shows "remove_update_ptrs s L c = Some (s\<lparr>lru_meta := unlinked_meta as bs (lru_meta s)\<rparr>,
    L\<lparr>head := first end_marker (as @ bs), tail := final end_marker (as @ bs),
      last_hot := (if last_hot L = c then final end_marker as else last_hot L)\<rparr>)"
proof -
  have "end_marker \<notin> set (as @ c # bs)" using N r unfolding lru_ready_def by (meson less_asym)
  then have ends: "end_marker \<notin> set as" "end_marker \<notin> set bs" by simp_all
  have links: "l_prev (lru_meta s c) = final end_marker as" "l_next (lru_meta s c) = first end_marker bs"
    using seg by (simp_all add: lseg_split)
  have e: "final end_marker as = end_marker \<longleftrightarrow> as = []" "first end_marker bs = end_marker \<longleftrightarrow> bs = []"
    using ends by (simp_all add: final_eq_iff first_eq_iff)
  have fa: "as \<noteq> [] \<Longrightarrow> final end_marker as < collision_table_entries s \<and> final end_marker as \<noteq> c"
    using final_in [of as end_marker] N d by auto
  have fb: "bs \<noteq> [] \<Longrightarrow> first end_marker bs < collision_table_entries s \<and> first end_marker bs \<noteq> c"
    using first_in [of bs end_marker] N d by auto
  have Leq: "L\<lparr>head := head L, tail := tail L\<rparr> = L" by simp
  show ?thesis
    unfolding remove_update_ptrs_def Let_def links e
    using fa fb r e L
    by (cases "as = []"; cases "bs = []")
      (auto simp: get_lru_ok upd_lru_def unlinked_meta_def Let_def links first_append final_def first_ne
        intro!: ocf_lru_list.equality)
qed

lemma remove_rep:
  assumes r: "lru_ready s" and L: "lru_rep s L hs cs" and xs: "hs @ cs = as @ c # bs"
    and split: "hs' @ cs' = as @ bs" "set hs' = set hs - {c}" "set cs' = set cs - {c}"
      "length hs' = length hs - (if l_hot (lru_meta s c) then 1 else 0)"
      "final end_marker hs' = (if final end_marker hs = c then final end_marker as else final end_marker hs)"
  shows "\<exists>s' L'. remove_lru_list_nobalance s L c = Some (s', L') \<and> lru_only (set (hs @ cs)) s s' \<and>
    track_hot L' = track_hot L \<and> lru_rep s' L' hs' cs'"
proof -
  note D = lru_repD [OF L]
  have d: "distinct (as @ c # bs)" using D(6) by (simp add: xs)
  have N: "\<forall>x\<in>set (as @ c # bs). x < collision_table_entries s" using D(7) by (simp add: xs)
  have seg: "lseg (lru_prv s) (lru_nxt s) end_marker (as @ c # bs) end_marker" using D(8) by (simp add: xs)
  have c: "c < collision_table_entries s" "c \<noteq> end_marker" "c \<notin> set as" "c \<notin> set bs"
    using N r d by (auto simp: lru_ready_def)
  have ends: "end_marker \<notin> set (as @ c # bs)" using N r unfolding lru_ready_def by (meson less_asym)
  have links: "l_prev (lru_meta s c) = final end_marker as" "l_next (lru_meta s c) = first end_marker bs"
    using seg by (simp_all add: lseg_split)
  have hd: "(head L = c) = (final end_marker as = end_marker)"
    using c final_eq_iff [of end_marker as] ends unfolding D(2) xs by (cases as) auto
  have tl: "(tail L = c) = (first end_marker bs = end_marker)"
    using c ends final_in [of bs end_marker] unfolding D(3) xs by (cases "bs = []") (auto simp: first_eq_iff final_ne)
  let ?m = "(unlinked_meta as bs (lru_meta s))(c := (lru_meta s c)\<lparr>l_next := end_marker, l_prev := end_marker, l_hot := False\<rparr>)"
  let ?s = "s\<lparr>lru_meta := ?m\<rparr>"
  let ?L = "\<lparr>num_nodes = length (as @ bs), head = first end_marker (as @ bs), tail = final end_marker (as @ bs),
    num_hot = length hs', last_hot = final end_marker hs', track_hot = track_hot L\<rparr>"
  have un: "unlinked_meta as bs (lru_meta s) c = lru_meta s c" using c by (simp add: unlinked_meta_other)
  have b: "length (hs @ cs) < end_marker" using lru_rep_bound [OF L r] by auto
  have "l_hot (lru_meta s c) \<Longrightarrow> 0 < length hs" using D(10) xs split(3) by (cases hs) auto
  then have dec: "l_hot (lru_meta s c) \<Longrightarrow> dec32 (length hs) = length hs'"
    using b split(4) by (simp add: dec32_eq end_marker_def)
  have dn: "dec32 (length (hs @ cs)) = length (as @ bs)"
    using b unfolding xs by (simp add: dec32_eq end_marker_def)
  have "remove_lru_list_nobalance s L c = Some (?s, ?L)"
    unfolding remove_lru_list_nobalance_def
    using c r hd tl links un dec split(4,5) dn
    by (simp add: get_lru_ok remove_ptrs_eq [OF r N d seg] D(1-5) xs Let_def upd_lru_def)
  moreover have "lru_only (set (hs @ cs)) s ?s"
    using unlinked_meta_other [of _ as bs "lru_meta s"] unfolding xs
    by (auto simp: lru_only_def unlinked_meta_simps(4) intro!: exI [of _ ?m])
  moreover have "lseg (lru_prv ?s) (lru_nxt ?s) end_marker (as @ bs) end_marker"
    using lseg_unlink [OF d seg] c(3,4) by (simp add: fun_upd_comp unlinked_meta_simps(1,2))
  then have "lru_rep ?s ?L hs' cs'"
    using d N D(9,10,11) split(1-3) by (auto simp: lru_rep_def unlinked_meta_simps(3))
  ultimately show ?thesis by auto
qed


lemma remove_nobalance:
  assumes r: "lru_ready s" and L: "lru_rep s L hs cs" and c: "c \<in> set (hs @ cs)"
  shows "\<exists>s' L'. remove_lru_list_nobalance s L c = Some (s', L') \<and> lru_only (set (hs @ cs)) s s' \<and>
    track_hot L' = track_hot L \<and> lru_rep s' L' (remove1 c hs) (remove1 c cs)"
proof -
  note D = lru_repD [OF L]
  have cne: "c \<noteq> end_marker" using lru_rep_bound(2) [OF L r] c by metis
  have d: "distinct hs" "distinct cs" "set hs \<inter> set cs = {}" using D(6) by auto
  show ?thesis
  proof (cases "c \<in> set hs")
    case True
    then obtain as hs2 where hs: "hs = as @ c # hs2" by (meson split_list)
    with d have n: "c \<notin> set as" "c \<notin> set hs2" "c \<notin> set cs" by auto
    then have rm: "remove1 c hs = as @ hs2" "remove1 c cs = cs" by (auto simp: hs remove1_append remove1_idem)
    have "final end_marker hs = c \<longleftrightarrow> hs2 = []" using n final_eq_iff [of c hs2] by (simp add: hs)
    moreover have "final c hs2 = final (final end_marker as) hs2" if "hs2 \<noteq> []" using that by (simp add: final_ne)
    ultimately show ?thesis
      using n D(9) d unfolding rm
      by (intro remove_rep [OF r L, of as c "hs2 @ cs"]) (auto simp: hs)
  next
    case False
    with c obtain cs1 cs2 where cs: "cs = cs1 @ c # cs2" by (metis Un_iff set_append split_list)
    with d False have n: "c \<notin> set cs1" "c \<notin> set cs2" by auto
    have rm: "remove1 c hs = hs" "remove1 c cs = cs1 @ cs2"
      using False n by (auto simp: cs remove1_append remove1_idem)
    have "final end_marker hs \<noteq> c" using False cne by (auto simp: final_def)
    then show ?thesis
      using n False D(10) d unfolding rm
      by (intro remove_rep [OF r L, of "hs @ cs1" c cs2]) (auto simp: cs)
  qed
qed

subsection \<open>Balancing\<close>

lemma hot_links [simp]:
  "lru_prv (upd_lru x (\<lambda>n. n\<lparr>l_hot := b\<rparr>) s) = lru_prv s" "lru_nxt (upd_lru x (\<lambda>n. n\<lparr>l_hot := b\<rparr>) s) = lru_nxt s"
  by (auto simp: fun_eq_iff)

lemma heat_rep:
  assumes "lru_rep s L hs (x # cs)" "track_hot L"
  shows "lru_rep (upd_lru x (\<lambda>n. n\<lparr>l_hot := True\<rparr>) s) (L\<lparr>num_hot := Suc (length hs), last_hot := x\<rparr>) (hs @ [x]) cs"
proof (rule lru_repI)
  note D = lru_repD [OF assms(1)]
  show "lseg (lru_prv (upd_lru x (\<lambda>n. n\<lparr>l_hot := True\<rparr>) s)) (lru_nxt (upd_lru x (\<lambda>n. n\<lparr>l_hot := True\<rparr>) s))
      end_marker ((hs @ [x]) @ cs) end_marker"
    unfolding hot_links using D(8) by simp
qed (use lru_repD [OF assms(1)] assms(2) in \<open>auto intro!: ocf_lru_list.equality\<close>)

lemma cool_rep:
  assumes "lru_rep s L (hs @ [x]) cs" "track_hot L"
  shows "lru_rep (upd_lru x (\<lambda>n. n\<lparr>l_hot := False\<rparr>) s) (L\<lparr>num_hot := length hs, last_hot := final end_marker hs\<rparr>) hs (x # cs)"
proof (rule lru_repI)
  note D = lru_repD [OF assms(1)]
  show "lseg (lru_prv (upd_lru x (\<lambda>n. n\<lparr>l_hot := False\<rparr>) s)) (lru_nxt (upd_lru x (\<lambda>n. n\<lparr>l_hot := False\<rparr>) s))
      end_marker (hs @ x # cs) end_marker"
    unfolding hot_links using D(8) by simp
qed (use lru_repD [OF assms(1)] assms(2) in \<open>auto intro!: ocf_lru_list.equality\<close>)

lemma balance_rep:
  assumes r: "lru_ready s" and L: "lru_rep s L hs cs"
    and t: "track_hot L" and near: "length hs \<le> Suc (length (hs @ cs) div 2)" "length (hs @ cs) div 2 \<le> Suc (length hs)"
  shows "\<exists>s' L' hs' cs'. balance_lru_list s L = Some (s', L') \<and> lru_only (set (hs @ cs)) s s' \<and>
    track_hot L' = track_hot L \<and> hs' @ cs' = hs @ cs \<and> length hs' = length (hs @ cs) div 2 \<and> lru_rep s' L' hs' cs'"
proof -
  note D = lru_repD [OF L]
  have b: "length (hs @ cs) < end_marker" "end_marker \<notin> set (hs @ cs)" using lru_rep_bound [OF L r] by auto
  let ?n = "length (hs @ cs)"
  have sc: "s32 (int (?n div 2) - int (length hs)) = int (?n div 2) - int (length hs)"
    using b(1) by (intro s32_small) (auto simp: end_marker_def)
  consider "?n div 2 = length hs" | "?n div 2 = Suc (length hs)" | "length hs = Suc (?n div 2)"
    using near by linarith
  then show ?thesis
  proof cases
    case 1
    then have "balance_lru_list s L = Some (s, L)"
      using t sc D(1,4,5) by (simp add: balance_lru_list_def balance_update_last_hot_def Let_def)
    with L 1 show ?thesis by force
  next
    case 2
    then obtain x cs' where cs: "cs = x # cs'" by (cases cs) auto
    let ?s = "upd_lru x (\<lambda>n. n\<lparr>l_hot := True\<rparr>) s"
    let ?L = "L\<lparr>num_hot := Suc (length hs), last_hot := x\<rparr>"
    have x: "x < collision_table_entries s" "x \<noteq> end_marker" using D(7) b by (auto simp: cs)
    have lh: "final end_marker hs = end_marker \<longleftrightarrow> hs = []" using b by (intro final_eq_iff) simp
    have nx: "l_next (lru_meta s (final end_marker hs)) = x \<and> final end_marker hs < collision_table_entries s"
      if "hs \<noteq> []"
      using that D(7,8) by (cases hs rule: rev_cases) (auto simp: cs lseg_split)
    have "balance_lru_list s L = Some (?s, ?L)"
      using t sc 2 x r nx lh
      by (cases "hs = []")
        (simp_all add: balance_lru_list_def balance_update_last_hot_def Let_def get_lru_ok D(1,2,4,5) cs)
    moreover have "lru_rep ?s ?L (hs @ [x]) cs'" using heat_rep L t by (simp add: cs)
    ultimately show ?thesis
      using 2 cs by (intro exI [of _ ?s] exI [of _ ?L] exI [of _ "hs @ [x]"] exI [of _ cs']) (auto intro!: lru_only_upd)
  next
    case 3
    then obtain hs' x where hs: "hs = hs' @ [x]" by (cases hs rule: rev_cases) auto
    let ?s = "upd_lru x (\<lambda>n. n\<lparr>l_hot := False\<rparr>) s"
    let ?L = "L\<lparr>num_hot := length hs', last_hot := final end_marker hs'\<rparr>"
    have x: "x < collision_table_entries s" "x \<noteq> end_marker" using D(7) b by (auto simp: hs)
    have pv: "l_prev (lru_meta s x) = final end_marker hs'" using D(8) by (simp add: hs lseg_split)
    have "balance_lru_list s L = Some (?s, ?L)"
      using t sc 3 x r pv
      by (simp add: balance_lru_list_def balance_update_last_hot_def Let_def get_lru_ok D(1,4,5) hs)
    moreover have "lru_rep ?s ?L hs' (x # cs)" using cool_rep L t by (simp add: hs)
    ultimately show ?thesis
      using 3 hs by (intro exI [of _ ?s] exI [of _ ?L] exI [of _ hs'] exI [of _ "x # cs"]) (auto intro!: lru_only_upd)
  qed
qed


subsection \<open>The operations on a balanced list\<close>

lemma balance_list:
  assumes "lru_ready s" "lru_rep s L hs cs" "xs = hs @ cs"
    "track_hot L \<Longrightarrow> length hs \<le> Suc (length xs div 2) \<and> length xs div 2 \<le> Suc (length hs)"
  shows "\<exists>s' L'. balance_lru_list s L = Some (s', L') \<and> lru_only (set xs) s s' \<and>
    track_hot L' = track_hot L \<and> lru_list s' L' xs"
proof (cases "track_hot L")
  case True
  with balance_rep [OF assms(1,2)] assms(3,4) obtain s' L' hs' cs'
    where "balance_lru_list s L = Some (s', L')" "lru_only (set xs) s s'" "track_hot L' = track_hot L"
      "hs' @ cs' = xs" "length hs' = length xs div 2" "lru_rep s' L' hs' cs'" by metis
  then show ?thesis by (auto simp: lru_list_def)
next
  case False
  then have "balance_lru_list s L = Some (s, L)" by (simp add: balance_lru_list_def)
  with False assms(2,3) show ?thesis by (auto simp: lru_list_def)
qed

lemma add_lru_head_spec:
  assumes r: "lru_ready s" and L: "lru_list s L xs" and c: "c < collision_table_entries s" "c \<notin> set xs"
  shows "\<exists>s' L'. add_lru_head s L c = Some (s', L') \<and> lru_only (insert c (set xs)) s s' \<and>
    track_hot L' = track_hot L \<and> lru_list s' L' (c # xs)"
proof -
  obtain hs cs where xs: "xs = hs @ cs" and rep: "lru_rep s L hs cs"
    and bal: "track_hot L \<longrightarrow> length hs = length xs div 2" using L unfolding lru_list_def by (elim exE conjE)
  let ?g = "track_hot L \<and> hs @ cs \<noteq> []"
  obtain s1 L1 where 1: "add_lru_head_nobalance s L c = Some (s1, L1)" "lru_only (insert c (set xs)) s s1"
      "track_hot L1 = track_hot L" "lru_rep s1 L1 (if ?g then c # hs else []) (if ?g then cs else c # cs)"
    using add_nobalance [OF r rep c(1)] c(2) unfolding xs by blast
  have r1: "lru_ready s1" using r lru_onlyD(3) [OF 1(2)] by simp
  have eq: "c # xs = (if ?g then c # hs else []) @ (if ?g then cs else c # cs)"
    using lru_repD(11) [OF rep] by (auto simp: xs)
  have "length (if ?g then c # hs else []) \<le> Suc (length (c # xs) div 2) \<and>
      length (c # xs) div 2 \<le> Suc (length (if ?g then c # hs else []))" if "track_hot L1"
  proof (cases "xs = []")
    case True
    then show ?thesis by (simp add: xs)
  next
    case False
    then have "length (if ?g then c # hs else []) = Suc (length xs div 2)" using that bal 1(3) by (simp add: xs)
    then show ?thesis by simp
  qed
  from balance_list [OF r1 1(4) eq this] obtain s' L'
    where 2: "balance_lru_list s1 L1 = Some (s', L')" "lru_only (set (c # xs)) s1 s'"
      "track_hot L' = track_hot L1" "lru_list s' L' (c # xs)" by blast
  with 1 lru_only_trans [of "insert c (set xs)" s s1 s'] show ?thesis by (simp add: add_lru_head_def)
qed

lemma remove_locked_spec:
  assumes r: "lru_ready s" and L: "lru_list s L xs" and c: "c \<in> set xs"
  shows "\<exists>s' L'. ocf_lru_remove_locked s L c = Some (s', L') \<and> lru_only (set xs) s s' \<and>
    track_hot L' = track_hot L \<and> lru_list s' L' (remove1 c xs)"
proof -
  obtain hs cs where xs: "xs = hs @ cs" and rep: "lru_rep s L hs cs"
    and bal: "track_hot L \<longrightarrow> length hs = length xs div 2" using L unfolding lru_list_def by (elim exE conjE)
  obtain s1 L1 where 1: "remove_lru_list_nobalance s L c = Some (s1, L1)" "lru_only (set xs) s s1"
      "track_hot L1 = track_hot L" "lru_rep s1 L1 (remove1 c hs) (remove1 c cs)"
    using remove_nobalance [OF r rep] c unfolding xs by blast
  have r1: "lru_ready s1" using r lru_onlyD(3) [OF 1(2)] by simp
  have "distinct (hs @ cs)" using lru_repD(6) [OF rep] .
  then have eq: "remove1 c xs = remove1 c hs @ remove1 c cs"
    by (simp only: xs remove1_split)
  have len: "length (remove1 c xs) = length xs - 1" using c by (simp add: length_remove1)
  have "length (remove1 c hs) = length hs \<or> length (remove1 c hs) = length hs - 1" by (simp add: length_remove1)
  then have "track_hot L1 \<Longrightarrow> length (remove1 c hs) \<le> Suc (length (remove1 c xs) div 2) \<and>
      length (remove1 c xs) div 2 \<le> Suc (length (remove1 c hs))"
    using bal 1(3) unfolding len by (elim disjE) auto
  from balance_list [OF r1 1(4) eq this] obtain s' L'
    where 2: "balance_lru_list s1 L1 = Some (s', L')" "lru_only (set (remove1 c xs)) s1 s'"
      "track_hot L' = track_hot L1" "lru_list s' L' (remove1 c xs)" by auto
  have "lru_only (set xs) s1 s'" using 2(2) by (rule lru_only_mono) (rule set_remove1_subset)
  with 1 2 lru_only_trans [of "set xs" s s1 s'] show ?thesis by (simp add: ocf_lru_remove_locked_def)
qed

lemma set_hot_spec:
  assumes r: "lru_ready s" and L: "lru_list s L xs" and c: "c \<in> set xs"
  shows "\<exists>s' L'. ocf_lru_set_hot s L c = Some (s', L') \<and> lru_only (set xs) s s' \<and>
    track_hot L' = track_hot L \<and> lru_list s' L' (c # remove1 c xs)"
proof -
  obtain hs cs where xs: "xs = hs @ cs" and rep: "lru_rep s L hs cs"
    and bal: "track_hot L \<longrightarrow> length hs = length xs div 2" using L unfolding lru_list_def by (elim exE conjE)
  obtain s1 L1 where 1: "remove_lru_list_nobalance s L c = Some (s1, L1)" "lru_only (set xs) s s1"
      "track_hot L1 = track_hot L" "lru_rep s1 L1 (remove1 c hs) (remove1 c cs)"
    using remove_nobalance [OF r rep] c unfolding xs by blast
  have r1: "lru_ready s1" using r lru_onlyD(3) [OF 1(2)] by simp
  have d: "distinct (hs @ cs)" using lru_repD(6) [OF rep] .
  then have eq: "remove1 c xs = remove1 c hs @ remove1 c cs"
    by (simp only: xs remove1_split)
  have cN: "c < collision_table_entries s1" "c \<notin> set (remove1 c hs @ remove1 c cs)"
    using lru_repD(7) [OF rep] c lru_onlyD(1) [OF 1(2)] d by (auto simp: xs)
  let ?g = "track_hot L1 \<and> remove1 c hs @ remove1 c cs \<noteq> []"
  let ?hs = "if ?g then c # remove1 c hs else []" and ?cs = "if ?g then remove1 c cs else c # remove1 c cs"
  obtain s2 L2 where 2: "add_lru_head_nobalance s1 L1 c = Some (s2, L2)"
      "lru_only (insert c (set (remove1 c hs @ remove1 c cs))) s1 s2" "track_hot L2 = track_hot L1"
      "lru_rep s2 L2 ?hs ?cs"
    using add_nobalance [OF r1 1(4) cN] by blast
  have r2: "lru_ready s2" using r1 lru_onlyD(3) [OF 2(2)] by simp
  have eq2: "c # remove1 c xs = ?hs @ ?cs"
    using lru_repD(11) [OF 1(4)] by (auto simp: eq)
  have len: "length (c # remove1 c xs) = length xs" using c by (simp add: length_remove1) (metis Suc_pred length_pos_if_in_set)
  have "length (remove1 c hs) = length hs \<or> length (remove1 c hs) = length hs - 1" by (simp add: length_remove1)
  then have "track_hot L2 \<Longrightarrow> length ?hs \<le> Suc (length (c # remove1 c xs) div 2) \<and>
      length (c # remove1 c xs) div 2 \<le> Suc (length ?hs)"
    using bal 1(3) 2(3) len eq unfolding len by (elim disjE) auto
  from balance_list [OF r2 2(4) eq2 this] obtain s' L'
    where 3: "balance_lru_list s2 L2 = Some (s', L')" "lru_only (set (c # remove1 c xs)) s2 s'"
      "track_hot L' = track_hot L2" "lru_list s' L' (c # remove1 c xs)" by auto
  have sub: "set (c # remove1 c xs) \<subseteq> set xs" using c set_remove1_subset [of c xs] by auto
  have "lru_only (set xs) s1 s2" using 2(2) sub by (auto intro: lru_only_mono simp: eq)
  moreover have "lru_only (set xs) s2 s'" using 3(2) sub by (rule lru_only_mono)
  ultimately have "lru_only (set xs) s s'" using 1(2) by (meson lru_only_trans)
  with 1 2 3 show ?thesis by (simp add: ocf_lru_set_hot_def)
qed

subsection \<open>The recency list interface\<close>

text \<open>
  What the users of a list rely on: a list of distinct lines, the most recently used first, with
  insertion in front, removal, and moving a line to the front.
\<close>

datatype 'a rec_op = Push 'a | Drop 'a | Touch 'a

fun spec_rec :: "('a \<Rightarrow> bool) \<Rightarrow> 'a rec_op \<Rightarrow> 'a list \<Rightarrow> 'a list option" where
  "spec_rec ok (Push c) xs = (if ok c \<and> c \<notin> set xs then Some (c # xs) else None)"
| "spec_rec ok (Drop c) xs = (if c \<in> set xs then Some (remove1 c xs) else None)"
| "spec_rec ok (Touch c) xs = (if c \<in> set xs then Some (c # remove1 c xs) else None)"

fun code_rec :: "('s \<Rightarrow> 'a \<Rightarrow> 's option) \<Rightarrow> ('s \<Rightarrow> 'a \<Rightarrow> 's option) \<Rightarrow> ('s \<Rightarrow> 'a \<Rightarrow> 's option) \<Rightarrow>
    'a rec_op \<Rightarrow> 's \<Rightarrow> 's option" where
  "code_rec push drp touch (Push c) s = push s c"
| "code_rec push drp touch (Drop c) s = drp s c"
| "code_rec push drp touch (Touch c) s = touch s c"

locale recency =
  fixes rep :: "'s \<Rightarrow> 'a list \<Rightarrow> bool" and ok :: "'s \<Rightarrow> 'a \<Rightarrow> bool"
    and push :: "'s \<Rightarrow> 'a \<Rightarrow> 's option" and drp :: "'s \<Rightarrow> 'a \<Rightarrow> 's option" and touch :: "'s \<Rightarrow> 'a \<Rightarrow> 's option"
  assumes push_law: "rep s xs \<Longrightarrow> ok s c \<Longrightarrow> c \<notin> set xs \<Longrightarrow> \<exists>s'. push s c = Some s' \<and> rep s' (c # xs) \<and> ok s' = ok s"
    and drop_law: "rep s xs \<Longrightarrow> c \<in> set xs \<Longrightarrow> \<exists>s'. drp s c = Some s' \<and> rep s' (remove1 c xs) \<and> ok s' = ok s"
    and touch_law: "rep s xs \<Longrightarrow> c \<in> set xs \<Longrightarrow> \<exists>s'. touch s c = Some s' \<and> rep s' (c # remove1 c xs) \<and> ok s' = ok s"
begin

lemma rec_op_refines:
  "rep s xs \<Longrightarrow> spec_rec (ok s) op xs = Some ys \<Longrightarrow>
   \<exists>s'. code_rec push drp touch op s = Some s' \<and> rep s' ys \<and> ok s' = ok s"
  using push_law drop_law touch_law by (cases op) (auto split: if_splits)

lemma rec_run_refines:
  "rep s xs \<Longrightarrow> each_entry (spec_rec (ok s)) ops xs = Some ys \<Longrightarrow>
   \<exists>s'. each_entry (code_rec push drp touch) ops s = Some s' \<and> rep s' ys"
proof (induction ops arbitrary: s xs)
  case (Cons op ops)
  then obtain zs where zs: "spec_rec (ok s) op xs = Some zs" "each_entry (spec_rec (ok s)) ops zs = Some ys"
    by (auto simp: bind_eq_Some_iff)
  from rec_op_refines [OF Cons.prems(1) zs(1)] obtain s'
    where "code_rec push drp touch op s = Some s'" "rep s' zs" "ok s' = ok s" by blast
  with Cons.IH [of s' zs] zs(2) show ?case by simp
qed auto

end

definition lru_rec :: "'z lru_state_scheme \<times> ocf_lru_list \<Rightarrow> nat list \<Rightarrow> bool" where
  "lru_rec sl xs \<longleftrightarrow> lru_ready (fst sl) \<and> lru_list (fst sl) (snd sl) xs"

definition lru_line_ok :: "'z lru_state_scheme \<times> ocf_lru_list \<Rightarrow> nat \<Rightarrow> bool" where
  "lru_line_ok sl c \<longleftrightarrow> c < collision_table_entries (fst sl)"

lemma lru_rec_step:
  "lru_ready s \<Longrightarrow> \<exists>s' L'. op = Some (s', L') \<and> lru_only A s s' \<and> track_hot L' = track_hot L \<and> lru_list s' L' ys \<Longrightarrow>
   \<exists>sl'. op = Some sl' \<and> lru_rec sl' ys \<and> lru_line_ok sl' = lru_line_ok (s, L)"
  using lru_onlyD(1,3) by (fastforce simp: lru_rec_def lru_line_ok_def fun_eq_iff)

interpretation lru: recency lru_rec lru_line_ok "\<lambda>sl. add_lru_head (fst sl) (snd sl)"
  "\<lambda>sl. ocf_lru_remove_locked (fst sl) (snd sl)" "\<lambda>sl. ocf_lru_set_hot (fst sl) (snd sl)"
proof unfold_locales
  fix sl :: "'z lru_state_scheme \<times> ocf_lru_list" and xs c
  assume r: "lru_rec sl xs"
  obtain s L where sl: "sl = (s, L)" by (cases sl)
  have s: "lru_ready s" "lru_list s L xs" using r by (simp_all add: lru_rec_def sl)
  show "\<exists>s'. add_lru_head (fst sl) (snd sl) c = Some s' \<and> lru_rec s' (c # xs) \<and> lru_line_ok s' = lru_line_ok sl"
    if "lru_line_ok sl c" "c \<notin> set xs"
    using lru_rec_step [OF s(1) add_lru_head_spec [OF s _ that(2)]] that(1) by (simp add: sl lru_line_ok_def)
  show "\<exists>s'. ocf_lru_remove_locked (fst sl) (snd sl) c = Some s' \<and> lru_rec s' (remove1 c xs) \<and> lru_line_ok s' = lru_line_ok sl"
    if "c \<in> set xs"
    using lru_rec_step [OF s(1) remove_locked_spec [OF s that]] by (simp add: sl)
  show "\<exists>s'. ocf_lru_set_hot (fst sl) (snd sl) c = Some s' \<and> lru_rec s' (c # remove1 c xs) \<and> lru_line_ok s' = lru_line_ok sl"
    if "c \<in> set xs"
    using lru_rec_step [OF s(1) set_hot_spec [OF s that]] by (simp add: sl)
qed

lemma lru_list_init: "lru_list s (lru_init t) []"
  by (auto simp: lru_list_def lru_rep_def lru_init_def)

lemma lru_list_hot:
  assumes "lru_list s L xs" "i < length xs"
  shows "l_hot (lru_meta s (xs ! i)) \<longleftrightarrow> track_hot L \<and> i < length xs div 2"
proof -
  obtain hs cs where xs: "xs = hs @ cs" and rep: "lru_rep s L hs cs"
    and bal: "track_hot L \<longrightarrow> length hs = length xs div 2"
    using assms(1) unfolding lru_list_def by (elim exE conjE)
  note D = lru_repD(9,10,11) [OF rep]
  show ?thesis
  proof (cases "track_hot L")
    case True
    with bal D(1,2) assms(2) show ?thesis by (auto simp: xs nth_append)
  next
    case False
    with D assms(2) show ?thesis by (auto simp: xs)
  qed
qed

lemma lru_list_fields:
  assumes "lru_list s L xs"
  shows "num_nodes L = length xs" "head L = first end_marker xs" "tail L = final end_marker xs" "distinct xs"
    "\<forall>x\<in>set xs. x < collision_table_entries s" "lseg (lru_prv s) (lru_nxt s) end_marker xs end_marker"
proof -
  obtain hs cs where xs: "xs = hs @ cs" and rep: "lru_rep s L hs cs"
    using assms unfolding lru_list_def by (elim exE conjE)
  show "num_nodes L = length xs" "head L = first end_marker xs" "tail L = final end_marker xs" "distinct xs"
    "\<forall>x\<in>set xs. x < collision_table_entries s" "lseg (lru_prv s) (lru_nxt s) end_marker xs end_marker"
    unfolding xs by (fact lru_repD(1) [OF rep], fact lru_repD(2) [OF rep], fact lru_repD(3) [OF rep],
      fact lru_repD(6) [OF rep], fact lru_repD(7) [OF rep], fact lru_repD(8) [OF rep])
qed

subsection \<open>Properties\<close>

text \<open>C18: Starting from an empty list, every sequence of insertions at the head, removals and moves to
  the head runs without a failed assertion and leaves the doubly linked list of exactly the lines the
  same sequence leaves in a list of most recently used lines: head, tail and counter agree, the
  first half of the lines is hot when the list tracks hot lines and no line is hot otherwise.\<close>

theorem lru_list_refines:
  assumes "lru_ready s" "each_entry (spec_rec (\<lambda>c. c < collision_table_entries s)) ops [] = Some xs"
  shows "\<exists>s' L. each_entry (code_rec (\<lambda>sl. add_lru_head (fst sl) (snd sl))
        (\<lambda>sl. ocf_lru_remove_locked (fst sl) (snd sl)) (\<lambda>sl. ocf_lru_set_hot (fst sl) (snd sl))) ops (s, lru_init t) =
      Some (s', L) \<and>
    num_nodes L = length xs \<and> head L = first end_marker xs \<and> tail L = final end_marker xs \<and>
    lseg (\<lambda>x. l_prev (lru_meta s' x)) (\<lambda>x. l_next (lru_meta s' x)) end_marker xs end_marker \<and>
    (\<forall>i < length xs. l_hot (lru_meta s' (xs ! i)) \<longleftrightarrow> track_hot L \<and> i < length xs div 2)"
proof -
  have "lru_rec (s, lru_init t) []" using assms(1) by (simp add: lru_rec_def lru_list_init)
  moreover have "lru_line_ok (s, lru_init t) = (\<lambda>c. c < collision_table_entries s)"
    by (simp add: lru_line_ok_def fun_eq_iff)
  ultimately obtain s' L
    where run: "each_entry (code_rec (\<lambda>sl. add_lru_head (fst sl) (snd sl))
        (\<lambda>sl. ocf_lru_remove_locked (fst sl) (snd sl)) (\<lambda>sl. ocf_lru_set_hot (fst sl) (snd sl))) ops (s, lru_init t) =
      Some (s', L)" and "lru_rec (s', L) xs"
    using lru.rec_run_refines [of "(s, lru_init t)" "[]" ops xs] assms(2) by auto
  then have l: "lru_list s' L xs" by (simp add: lru_rec_def)
  show ?thesis
    using run lru_list_fields [OF l] lru_list_hot [OF l] by (auto simp: comp_def)
qed

definition demo_lru :: lru_state where
  "demo_lru = coll_state.extend demo_coll (lru_state.fields ocf_eviction_lru ocf_eviction_lru
     (\<lambda>_. \<lparr>l_prev = end_marker, l_next = end_marker, l_hot = False, partition_id = 35\<rparr>))"

lemma demo_lru_simps [simp]:
  "collision_table_entries demo_lru = 2" "lru_ready demo_lru"
  by (simp_all add: demo_lru_def lru_ready_def coll_state.defs lru_state.defs demo_coll_def md_state.defs demo_md_def end_marker_def)

theorem lru_list_refines_witness:
  "\<exists>s' L. each_entry (code_rec (\<lambda>sl. add_lru_head (fst sl) (snd sl))
        (\<lambda>sl. ocf_lru_remove_locked (fst sl) (snd sl)) (\<lambda>sl. ocf_lru_set_hot (fst sl) (snd sl)))
        [Push 0, Push 1, Touch 0] (demo_lru, lru_init True) = Some (s', L) \<and> head L = 0 \<and> tail L = 1"
  using lru_list_refines [of demo_lru "[Push 0, Push 1, Touch 0]" "[0, 1]" True] by auto

end
