(* ===== verification/Alock.thy ===== *)
theory Alock
  imports Collision
begin

section \<open>Asynchronous cache line locks\<close>

text \<open>
  Model of \<open>src/utils/utils_alock.c\<close> and its client \<open>src/concurrency/ocf_cache_line_concurrency.c\<close>.
  Every cache line has an 8-bit access word: 0 is idle, 255 locked for write, any other value the
  number of readers. Requests that cannot lock a line wait in first in, first out lists that are
  shared by the lines with the same index modulo the number of lists; unlocking a line hands it to
  its waiters. The code between taking and releasing the lock of a waiters list is one step: all
  updates of an access word happen there, except for the exchange of an idle word by a trylock,
  which cannot succeed while the section holds the line or hands it over. The attempt that
  \<open>ocf_alock_lock_one_wr\<close> and \<open>ocf_alock_lock_one_rd\<close> make before they take that lock, their section under it,
  and the update of the request after it are steps of their own, between which other threads run. An access
  beyond the array is \<open>None\<close>.
\<close>

subsection \<open>State\<close>

datatype ocf_rw = OCF_READ | OCF_WRITE

abbreviation (input) OCF_CACHE_LINE_ACCESS_WR :: nat where "OCF_CACHE_LINE_ACCESS_WR \<equiv> 255"
abbreviation (input) OCF_CACHE_LINE_ACCESS_IDLE :: nat where "OCF_CACHE_LINE_ACCESS_IDLE \<equiv> 0"
abbreviation (input) OCF_CACHE_LINE_ACCESS_ONE_RD :: nat where "OCF_CACHE_LINE_ACCESS_ONE_RD \<equiv> 1"

record ocf_alock_waiter =
  w_entry :: nat
  w_idx :: nat
  w_req :: nat
  w_rw :: ocf_rw

text \<open>
  What the locks use of a request: the number of lines left to lock, the bitmap of locked indices,
  and its map. Requests are numbered.
\<close>

record alock_req =
  lock_remaining :: int
  alock_status :: "nat set"
  alock_rw :: ocf_rw
  is_deferred :: bool
  r_line_count :: nat
  r_map :: "nat \<Rightarrow> ocf_map_info"

text \<open>\<open>resumed\<close> records the calls of the completion callback.\<close>

record ocf_alock =
  num_entries :: nat
  num_waitlists :: nat
  access_of :: "nat \<Rightarrow> nat"
  waiters_lsts :: "nat \<Rightarrow> ocf_alock_waiter list"
  waiting :: int
  reqs :: "nat \<Rightarrow> alock_req"
  resumed :: "nat list"

definition WAITERS_LIST_ITEM :: "ocf_alock \<Rightarrow> nat \<Rightarrow> nat" where
  "WAITERS_LIST_ITEM al e = e mod num_waitlists al"

definition access_ptr :: "ocf_alock \<Rightarrow> nat \<Rightarrow> unit option" where
  "access_ptr al e = bug_on (\<not> e < num_entries al)"

definition set_access :: "nat \<Rightarrow> nat \<Rightarrow> ocf_alock \<Rightarrow> ocf_alock" where
  "set_access e v al = al\<lparr>access_of := (access_of al)(e := v)\<rparr>"

definition upd_req :: "nat \<Rightarrow> (alock_req \<Rightarrow> alock_req) \<Rightarrow> ocf_alock \<Rightarrow> ocf_alock" where
  "upd_req r f al = al\<lparr>reqs := (reqs al)(r := f (reqs al r))\<rparr>"

definition ocf_alock_mark_index_locked :: "nat \<Rightarrow> nat \<Rightarrow> bool \<Rightarrow> ocf_alock \<Rightarrow> ocf_alock" where
  "ocf_alock_mark_index_locked req index locked al =
     upd_req req (\<lambda>r. r\<lparr>alock_status := (if locked then insert index (alock_status r)
                                         else alock_status r - {index})\<rparr>) al"

definition ocf_alock_is_index_locked :: "ocf_alock \<Rightarrow> nat \<Rightarrow> nat \<Rightarrow> bool" where
  "ocf_alock_is_index_locked al req index \<longleftrightarrow> index \<in> alock_status (reqs al req)"

subsection \<open>The waiters lists\<close>

definition ocf_alock_waitlist_is_empty_locked :: "ocf_alock \<Rightarrow> nat \<Rightarrow> bool" where
  "ocf_alock_waitlist_is_empty_locked al e \<longleftrightarrow>
     (let lst = waiters_lsts al (WAITERS_LIST_ITEM al e)
      in if lst = [] then True else \<not> list_ex (\<lambda>w. w_entry w = e) lst)"

definition ocf_alock_waitlist_add :: "nat \<Rightarrow> ocf_alock_waiter \<Rightarrow> ocf_alock \<Rightarrow> ocf_alock" where
  "ocf_alock_waitlist_add e w al =
     (let i = WAITERS_LIST_ITEM al e
      in al\<lparr>waiters_lsts := (waiters_lsts al)(i := waiters_lsts al i @ [w])\<rparr>)"

definition ocf_alock_waitlist_is_empty :: "ocf_alock \<Rightarrow> nat \<Rightarrow> bool option" where
  "ocf_alock_waitlist_is_empty al e = do {
     bug_on (e \<ge> num_entries al);
     Some (ocf_alock_waitlist_is_empty_locked al e) }"

definition ocf_cache_line_is_used :: "ocf_alock \<Rightarrow> nat \<Rightarrow> bool option" where
  "ocf_cache_line_is_used al e = do {
     bug_on (e \<ge> num_entries al);
     if access_of al e \<noteq> 0 then Some True
     else do {
       empty \<leftarrow> ocf_alock_waitlist_is_empty al e;
       Some (\<not> empty) } }"

definition ocf_cache_line_are_waiters :: "ocf_alock \<Rightarrow> nat \<Rightarrow> bool option" where
  "ocf_cache_line_are_waiters al e = map_option Not (ocf_alock_waitlist_is_empty al e)"

subsection \<open>The access word\<close>

definition ocf_alock_trylock_entry_wr :: "nat \<Rightarrow> ocf_alock \<Rightarrow> (bool \<times> ocf_alock) option" where
  "ocf_alock_trylock_entry_wr e al = do {
     access_ptr al e;
     let prev = access_of al e;
     let al = (if prev = OCF_CACHE_LINE_ACCESS_IDLE then set_access e OCF_CACHE_LINE_ACCESS_WR al else al);
     Some (prev = OCF_CACHE_LINE_ACCESS_IDLE, al) }"

definition ocf_alock_trylock_entry_rd_idle :: "nat \<Rightarrow> ocf_alock \<Rightarrow> (bool \<times> ocf_alock) option" where
  "ocf_alock_trylock_entry_rd_idle e al = do {
     access_ptr al e;
     let prev = access_of al e;
     let al = (if prev = OCF_CACHE_LINE_ACCESS_IDLE then set_access e OCF_CACHE_LINE_ACCESS_ONE_RD al else al);
     Some (prev = OCF_CACHE_LINE_ACCESS_IDLE, al) }"

text \<open>\<open>env_atomic8_add_unless(access, 1, WR)\<close> on an 8-bit word.\<close>

definition ocf_alock_trylock_entry_rd :: "nat \<Rightarrow> ocf_alock \<Rightarrow> (bool \<times> ocf_alock) option" where
  "ocf_alock_trylock_entry_rd e al = do {
     access_ptr al e;
     if access_of al e \<noteq> OCF_CACHE_LINE_ACCESS_WR
     then Some (True, set_access e ((access_of al e + 1) mod 256) al)
     else Some (False, al) }"

definition ocf_alock_unlock_entry_wr :: "nat \<Rightarrow> ocf_alock \<Rightarrow> ocf_alock option" where
  "ocf_alock_unlock_entry_wr e al = do {
     access_ptr al e;
     bug_on (access_of al e \<noteq> OCF_CACHE_LINE_ACCESS_WR);
     Some (set_access e OCF_CACHE_LINE_ACCESS_IDLE al) }"

definition ocf_alock_unlock_entry_rd :: "nat \<Rightarrow> ocf_alock \<Rightarrow> ocf_alock option" where
  "ocf_alock_unlock_entry_rd e al = do {
     access_ptr al e;
     let v = access_of al e;
     bug_on (v = 0);
     bug_on (v = OCF_CACHE_LINE_ACCESS_WR);
     Some (set_access e (v - 1) al) }"

definition ocf_alock_trylock_entry_wr2wr :: "nat \<Rightarrow> ocf_alock \<Rightarrow> (bool \<times> ocf_alock) option" where
  "ocf_alock_trylock_entry_wr2wr e al = do {
     access_ptr al e;
     bug_on (access_of al e \<noteq> OCF_CACHE_LINE_ACCESS_WR);
     Some (True, al) }"

definition ocf_alock_trylock_entry_wr2rd :: "nat \<Rightarrow> ocf_alock \<Rightarrow> (bool \<times> ocf_alock) option" where
  "ocf_alock_trylock_entry_wr2rd e al = do {
     access_ptr al e;
     bug_on (access_of al e \<noteq> OCF_CACHE_LINE_ACCESS_WR);
     Some (True, set_access e OCF_CACHE_LINE_ACCESS_ONE_RD al) }"

definition ocf_alock_trylock_entry_rd2wr :: "nat \<Rightarrow> ocf_alock \<Rightarrow> (bool \<times> ocf_alock) option" where
  "ocf_alock_trylock_entry_rd2wr e al = do {
     access_ptr al e;
     bug_on (access_of al e = OCF_CACHE_LINE_ACCESS_IDLE);
     bug_on (access_of al e = OCF_CACHE_LINE_ACCESS_WR);
     let v = access_of al e;
     let al = (if v = OCF_CACHE_LINE_ACCESS_ONE_RD then set_access e OCF_CACHE_LINE_ACCESS_WR al else al);
     Some (v = OCF_CACHE_LINE_ACCESS_ONE_RD, al) }"

definition ocf_alock_trylock_entry_rd2rd :: "nat \<Rightarrow> ocf_alock \<Rightarrow> (bool \<times> ocf_alock) option" where
  "ocf_alock_trylock_entry_rd2rd e al = do {
     access_ptr al e;
     bug_on (access_of al e = OCF_CACHE_LINE_ACCESS_IDLE);
     bug_on (access_of al e = OCF_CACHE_LINE_ACCESS_WR);
     Some (True, al) }"

subsection \<open>Locking one line\<close>

definition ocf_alock_entry_locked :: "nat \<Rightarrow> ocf_alock \<Rightarrow> ocf_alock" where
  "ocf_alock_entry_locked req al =
     (let al = upd_req req (\<lambda>r. r\<lparr>lock_remaining := lock_remaining r - 1\<rparr>) al
      in if lock_remaining (reqs al req) = 0
         then al\<lparr>waiting := waiting al - 1, resumed := resumed al @ [req]\<rparr>
         else al)"

definition grant :: "nat \<Rightarrow> nat \<Rightarrow> ocf_alock \<Rightarrow> ocf_alock" where
  "grant req idx al = ocf_alock_entry_locked req (ocf_alock_mark_index_locked req idx True al)"

text \<open>
  The sections under the lock of the waiters list: look again whether the line can be locked, otherwise queue up.
  They return \<open>waiting\<close>.
\<close>

definition lock_one_wr_section :: "nat \<Rightarrow> nat \<Rightarrow> nat \<Rightarrow> ocf_alock \<Rightarrow> (bool \<times> ocf_alock) option" where
  "lock_one_wr_section e req idx al = do {
     (got, al) \<leftarrow> ocf_alock_trylock_entry_wr e al;
     if got then Some (False, al)
     else Some (True, ocf_alock_waitlist_add e
            \<lparr>w_entry = e, w_idx = idx, w_req = req, w_rw = OCF_WRITE\<rparr> al) }"

definition lock_one_rd_section :: "nat \<Rightarrow> nat \<Rightarrow> nat \<Rightarrow> ocf_alock \<Rightarrow> (bool \<times> ocf_alock) option" where
  "lock_one_rd_section e req idx al = do {
     (got, al) \<leftarrow> (if ocf_alock_waitlist_is_empty_locked al e
                   then ocf_alock_trylock_entry_rd e al else Some (False, al));
     if got then Some (False, al)
     else Some (True, ocf_alock_waitlist_add e
            \<lparr>w_entry = e, w_idx = idx, w_req = req, w_rw = OCF_READ\<rparr> al) }"

text \<open>
  \<open>cmpl\<close>: the callback is not null; \<open>mem\<close>: the allocation of the waiter succeeds. These are the operations when no
  other thread runs between their steps.
\<close>

definition ocf_alock_lock_one_wr ::
  "nat \<Rightarrow> bool \<Rightarrow> nat \<Rightarrow> nat \<Rightarrow> bool \<Rightarrow> ocf_alock \<Rightarrow> (bool \<times> ocf_alock) option" where
  "ocf_alock_lock_one_wr e cmpl req idx mem al = do {
     bug_on (\<not> cmpl);
     (got, al) \<leftarrow> ocf_alock_trylock_entry_wr e al;
     if got then Some (True, grant req idx al)
     else if \<not> mem then Some (False, al)
     else do {
       (waits, al) \<leftarrow> lock_one_wr_section e req idx al;
       Some (True, if \<not> waits then grant req idx al else al) } }"

definition ocf_alock_lock_one_rd ::
  "nat \<Rightarrow> bool \<Rightarrow> nat \<Rightarrow> nat \<Rightarrow> bool \<Rightarrow> ocf_alock \<Rightarrow> (bool \<times> ocf_alock) option" where
  "ocf_alock_lock_one_rd e cmpl req idx mem al = do {
     bug_on (\<not> cmpl);
     (got, al) \<leftarrow> ocf_alock_trylock_entry_rd_idle e al;
     if got then Some (True, grant req idx al)
     else if \<not> mem then Some (False, al)
     else do {
       (waits, al) \<leftarrow> lock_one_rd_section e req idx al;
       Some (True, if \<not> waits then grant req idx al else al) } }"

subsection \<open>Unlocking one line\<close>

text \<open>
  The scan of the waiters list, with the exchange functions of the kind of lock that is released. It
  returns whether no waiter was given the lock and what is left of the list.
\<close>

fun unlock_scan ::
  "(nat \<Rightarrow> ocf_alock \<Rightarrow> (bool \<times> ocf_alock) option) \<Rightarrow> (nat \<Rightarrow> ocf_alock \<Rightarrow> (bool \<times> ocf_alock) option) \<Rightarrow>
   nat \<Rightarrow> bool \<Rightarrow> ocf_alock_waiter list \<Rightarrow> ocf_alock \<Rightarrow> (bool \<times> ocf_alock_waiter list \<times> ocf_alock) option" where
  "unlock_scan to_wr to_rd e exchanged [] al = Some (exchanged, [], al)"
| "unlock_scan to_wr to_rd e exchanged (w # ws) al =
     (if w_entry w \<noteq> e then do {
        (ex, rest, al) \<leftarrow> unlock_scan to_wr to_rd e exchanged ws al;
        Some (ex, w # rest, al) }
      else do {
        (locked, al) \<leftarrow>
          (if exchanged then (case w_rw w of OCF_WRITE \<Rightarrow> to_wr e al | OCF_READ \<Rightarrow> to_rd e al)
           else (case w_rw w of OCF_WRITE \<Rightarrow> ocf_alock_trylock_entry_wr e al
                              | OCF_READ \<Rightarrow> ocf_alock_trylock_entry_rd e al));
        if locked then unlock_scan to_wr to_rd e False ws (grant (w_req w) (w_idx w) al)
        else Some (exchanged, w # ws, al) })"

definition unlock_common ::
  "(nat \<Rightarrow> ocf_alock \<Rightarrow> (bool \<times> ocf_alock) option) \<Rightarrow> (nat \<Rightarrow> ocf_alock \<Rightarrow> (bool \<times> ocf_alock) option) \<Rightarrow>
   (nat \<Rightarrow> ocf_alock \<Rightarrow> ocf_alock option) \<Rightarrow> nat \<Rightarrow> ocf_alock \<Rightarrow> ocf_alock option" where
  "unlock_common to_wr to_rd release e al = do {
     let i = WAITERS_LIST_ITEM al e;
     (exchanged, rest, al) \<leftarrow> unlock_scan to_wr to_rd e True (waiters_lsts al i) al;
     let al = al\<lparr>waiters_lsts := (waiters_lsts al)(i := rest)\<rparr>;
     if exchanged then release e al else Some al }"

definition ocf_alock_unlock_one_rd_common :: "nat \<Rightarrow> ocf_alock \<Rightarrow> ocf_alock option" where
  "ocf_alock_unlock_one_rd_common =
     unlock_common ocf_alock_trylock_entry_rd2wr ocf_alock_trylock_entry_rd2rd ocf_alock_unlock_entry_rd"

definition ocf_alock_unlock_one_wr_common :: "nat \<Rightarrow> ocf_alock \<Rightarrow> ocf_alock option" where
  "ocf_alock_unlock_one_wr_common =
     unlock_common ocf_alock_trylock_entry_wr2wr ocf_alock_trylock_entry_wr2rd ocf_alock_unlock_entry_wr"

definition ocf_alock_trylock_one_rd :: "nat \<Rightarrow> ocf_alock \<Rightarrow> (bool \<times> ocf_alock) option" where
  "ocf_alock_trylock_one_rd e al = ocf_alock_trylock_entry_rd_idle e al"

definition ocf_alock_unlock_one_rd :: "nat \<Rightarrow> ocf_alock \<Rightarrow> ocf_alock option" where
  "ocf_alock_unlock_one_rd e al = ocf_alock_unlock_one_rd_common e al"

definition ocf_alock_unlock_one_wr :: "nat \<Rightarrow> ocf_alock \<Rightarrow> ocf_alock option" where
  "ocf_alock_unlock_one_wr e al = ocf_alock_unlock_one_wr_common e al"

text \<open>Removing the first waiter of a request, whatever its line.\<close>

fun remove_waiter :: "nat \<Rightarrow> ocf_alock_waiter list \<Rightarrow> ocf_alock_waiter list" where
  "remove_waiter req [] = []"
| "remove_waiter req (w # ws) = (if w_req w = req then ws else w # remove_waiter req ws)"

definition ocf_alock_waitlist_remove_entry ::
  "nat \<Rightarrow> nat \<Rightarrow> nat \<Rightarrow> ocf_rw \<Rightarrow> ocf_alock \<Rightarrow> ocf_alock option" where
  "ocf_alock_waitlist_remove_entry req e i rw al =
     (if ocf_alock_is_index_locked al req i then do {
        al \<leftarrow> (case rw of OCF_READ \<Rightarrow> ocf_alock_unlock_one_rd_common e al
                        | OCF_WRITE \<Rightarrow> ocf_alock_unlock_one_wr_common e al);
        Some (ocf_alock_mark_index_locked req i False al) }
      else
        (let j = WAITERS_LIST_ITEM al e
         in Some (al\<lparr>waiters_lsts := (waiters_lsts al)(j := remove_waiter req (waiters_lsts al j))\<rparr>)))"

subsection \<open>Locking the lines of a request\<close>

definition ocf_cl_lock_line_needs_lock :: "ocf_alock \<Rightarrow> nat \<Rightarrow> nat \<Rightarrow> bool" where
  "ocf_cl_lock_line_needs_lock al req i \<longleftrightarrow>
     m_status (r_map (reqs al req) i) \<noteq> LOOKUP_MISS \<and> m_status (r_map (reqs al req) i) \<noteq> LOOKUP_REMAPPED"

definition ocf_cl_lock_line_is_acting :: "ocf_alock \<Rightarrow> nat \<Rightarrow> nat \<Rightarrow> bool" where
  "ocf_cl_lock_line_is_acting al req i \<longleftrightarrow> m_status (r_map (reqs al req) i) \<noteq> LOOKUP_MISS"

definition ocf_cl_lock_line_get_entry :: "ocf_alock \<Rightarrow> nat \<Rightarrow> nat \<Rightarrow> nat" where
  "ocf_cl_lock_line_get_entry al req i = coll_idx (r_map (reqs al req) i)"

text \<open>The loop of the fast path: \<open>None\<close> as second component when all lines are locked, otherwise the
  index at which it stopped.\<close>

fun cl_fast_loop :: "ocf_rw \<Rightarrow> nat \<Rightarrow> nat list \<Rightarrow> ocf_alock \<Rightarrow> (nat option \<times> ocf_alock) option" where
  "cl_fast_loop rw req [] al = Some (None, al)"
| "cl_fast_loop rw req (i # is) al =
     (if \<not> ocf_cl_lock_line_needs_lock al req i then cl_fast_loop rw req is al
      else do {
        let e = ocf_cl_lock_line_get_entry al req i;
        bug_on (ocf_alock_is_index_locked al req i);
        (got, al) \<leftarrow> (case rw of OCF_WRITE \<Rightarrow> ocf_alock_trylock_entry_wr e al
                               | OCF_READ \<Rightarrow> ocf_alock_trylock_entry_rd_idle e al);
        if got then cl_fast_loop rw req is (ocf_alock_mark_index_locked req i True al)
        else Some (Some i, al) })"

definition unlock_one :: "ocf_rw \<Rightarrow> nat \<Rightarrow> ocf_alock \<Rightarrow> ocf_alock option" where
  "unlock_one rw e al = (case rw of OCF_WRITE \<Rightarrow> ocf_alock_unlock_one_wr e al
                                  | OCF_READ \<Rightarrow> ocf_alock_unlock_one_rd e al)"

fun cl_unlock_back :: "ocf_rw \<Rightarrow> nat \<Rightarrow> nat list \<Rightarrow> ocf_alock \<Rightarrow> ocf_alock option" where
  "cl_unlock_back rw req [] al = Some al"
| "cl_unlock_back rw req (i # is) al =
     (if \<not> ocf_cl_lock_line_needs_lock al req i then cl_unlock_back rw req is al
      else do {
        let e = ocf_cl_lock_line_get_entry al req i;
        al \<leftarrow> (if ocf_alock_is_index_locked al req i then do {
                al \<leftarrow> unlock_one rw e al;
                Some (ocf_alock_mark_index_locked req i False al) }
              else Some al);
        cl_unlock_back rw req is al })"

text \<open>The result is true for \<open>OCF_LOCK_ACQUIRED\<close>.\<close>

definition ocf_cl_lock_line_fast :: "nat \<Rightarrow> ocf_rw \<Rightarrow> ocf_alock \<Rightarrow> (bool \<times> ocf_alock) option" where
  "ocf_cl_lock_line_fast req rw al = do {
     (stop, al) \<leftarrow> cl_fast_loop rw req [0..<r_line_count (reqs al req)] al;
     case stop of
       None \<Rightarrow> Some (True, al)
     | Some i \<Rightarrow> do {
         al \<leftarrow> cl_unlock_back rw req (rev [0..<Suc i]) al;
         Some (False, al) } }"

definition lock_one :: "ocf_rw \<Rightarrow> nat \<Rightarrow> bool \<Rightarrow> nat \<Rightarrow> nat \<Rightarrow> bool \<Rightarrow> ocf_alock \<Rightarrow> (bool \<times> ocf_alock) option" where
  "lock_one rw e cmpl req i mem al =
     (case rw of OCF_WRITE \<Rightarrow> ocf_alock_lock_one_wr e cmpl req i mem al
               | OCF_READ \<Rightarrow> ocf_alock_lock_one_rd e cmpl req i mem al)"

fun cl_slow_loop :: "ocf_rw \<Rightarrow> bool \<Rightarrow> (nat \<Rightarrow> bool) \<Rightarrow> nat \<Rightarrow> nat list \<Rightarrow> ocf_alock \<Rightarrow> (nat option \<times> ocf_alock) option" where
  "cl_slow_loop rw cmpl mem req [] al = Some (None, al)"
| "cl_slow_loop rw cmpl mem req (i # is) al =
     (if \<not> ocf_cl_lock_line_needs_lock al req i
      then cl_slow_loop rw cmpl mem req is (upd_req req (\<lambda>r. r\<lparr>lock_remaining := lock_remaining r - 1\<rparr>) al)
      else do {
        let e = ocf_cl_lock_line_get_entry al req i;
        bug_on (ocf_alock_is_index_locked al req i);
        (ok, al) \<leftarrow> lock_one rw e cmpl req i (mem i) al;
        if ok then cl_slow_loop rw cmpl mem req is al else Some (Some i, al) })"

fun cl_slow_undo :: "ocf_rw \<Rightarrow> nat \<Rightarrow> nat list \<Rightarrow> ocf_alock \<Rightarrow> ocf_alock option" where
  "cl_slow_undo rw req [] al = Some al"
| "cl_slow_undo rw req (i # is) al =
     (if \<not> ocf_cl_lock_line_needs_lock al req i then cl_slow_undo rw req is al
      else do {
        al \<leftarrow> ocf_alock_waitlist_remove_entry req (ocf_cl_lock_line_get_entry al req i) i rw al;
        cl_slow_undo rw req is al })"

definition ocf_cl_lock_line_slow ::
  "nat \<Rightarrow> ocf_rw \<Rightarrow> bool \<Rightarrow> (nat \<Rightarrow> bool) \<Rightarrow> ocf_alock \<Rightarrow> (ocf_error \<times> ocf_alock) option" where
  "ocf_cl_lock_line_slow req rw cmpl mem al = do {
     (stop, al) \<leftarrow> cl_slow_loop rw cmpl mem req [0..<r_line_count (reqs al req)] al;
     case stop of
       None \<Rightarrow> Some (OCF_OK, al)
     | Some i \<Rightarrow> do {
         al \<leftarrow> cl_slow_undo rw req (rev [0..<Suc i]) al;
         Some (OCF_ERR_NO_MEM, al) } }"

datatype lock_result = OCF_LOCK_ACQUIRED | OCF_LOCK_NOT_ACQUIRED | Lock_error ocf_error

definition update_deferred_flag :: "nat \<Rightarrow> lock_result \<Rightarrow> ocf_alock \<Rightarrow> ocf_alock" where
  "update_deferred_flag req lock al = upd_req req (\<lambda>r. r\<lparr>is_deferred := (lock = OCF_LOCK_NOT_ACQUIRED)\<rparr>) al"

text \<open>\<open>ocf_alock_lock_rd\<close> and \<open>ocf_alock_lock_wr\<close> differ in the kind of lock only.\<close>

definition ocf_alock_lock ::
  "ocf_rw \<Rightarrow> nat \<Rightarrow> bool \<Rightarrow> (nat \<Rightarrow> bool) \<Rightarrow> ocf_alock \<Rightarrow> (lock_result \<times> ocf_alock) option" where
  "ocf_alock_lock rw req cmpl mem al = do {
     bug_on (lock_remaining (reqs al req) \<noteq> 0);
     let al = upd_req req (\<lambda>r. r\<lparr>alock_rw := rw\<rparr>) al;
     (fast, al) \<leftarrow> ocf_cl_lock_line_fast req rw al;
     (lock, al) \<leftarrow>
       (if fast then Some (OCF_LOCK_ACQUIRED, al)
        else do {
          bug_on (lock_remaining (reqs al req) \<noteq> 0);
          bug_on (\<not> cmpl);
          let to_lock = r_line_count (reqs al req);
          let al = al\<lparr>waiting := waiting al + 1\<rparr>;
          let al = upd_req req (\<lambda>r. r\<lparr>lock_remaining := int to_lock + 1\<rparr>) al;
          (status, al) \<leftarrow> ocf_cl_lock_line_slow req rw cmpl mem al;
          if status = OCF_OK then
            (let al = upd_req req (\<lambda>r. r\<lparr>lock_remaining := lock_remaining r - 1\<rparr>) al
             in if lock_remaining (reqs al req) = 0
                then Some (OCF_LOCK_ACQUIRED, al\<lparr>waiting := waiting al - 1\<rparr>)
                else Some (OCF_LOCK_NOT_ACQUIRED, al))
          else
            (let al = upd_req req (\<lambda>r. r\<lparr>lock_remaining := 0\<rparr>) al
             in Some (Lock_error status, al\<lparr>waiting := waiting al - 1\<rparr>)) });
     Some (lock, update_deferred_flag req lock al) }"

definition ocf_alock_lock_rd ::
  "nat \<Rightarrow> bool \<Rightarrow> (nat \<Rightarrow> bool) \<Rightarrow> ocf_alock \<Rightarrow> (lock_result \<times> ocf_alock) option" where
  "ocf_alock_lock_rd = ocf_alock_lock OCF_READ"

definition ocf_alock_lock_wr ::
  "nat \<Rightarrow> bool \<Rightarrow> (nat \<Rightarrow> bool) \<Rightarrow> ocf_alock \<Rightarrow> (lock_result \<times> ocf_alock) option" where
  "ocf_alock_lock_wr = ocf_alock_lock OCF_WRITE"

fun req_unlock_loop :: "ocf_rw \<Rightarrow> nat \<Rightarrow> nat list \<Rightarrow> ocf_alock \<Rightarrow> ocf_alock option" where
  "req_unlock_loop rw req [] al = Some al"
| "req_unlock_loop rw req (i # is) al =
     (if \<not> ocf_cl_lock_line_is_acting al req i \<or> \<not> ocf_alock_is_index_locked al req i
      then req_unlock_loop rw req is al
      else do {
        al \<leftarrow> unlock_one rw (ocf_cl_lock_line_get_entry al req i) al;
        req_unlock_loop rw req is (ocf_alock_mark_index_locked req i False al) })"

definition ocf_req_unlock_rd :: "nat \<Rightarrow> ocf_alock \<Rightarrow> ocf_alock option" where
  "ocf_req_unlock_rd req al = req_unlock_loop OCF_READ req [0..<r_line_count (reqs al req)] al"

definition ocf_req_unlock_wr :: "nat \<Rightarrow> ocf_alock \<Rightarrow> ocf_alock option" where
  "ocf_req_unlock_wr req al = req_unlock_loop OCF_WRITE req [0..<r_line_count (reqs al req)] al"

definition ocf_req_unlock :: "nat \<Rightarrow> ocf_alock \<Rightarrow> ocf_alock option" where
  "ocf_req_unlock req al =
     (if alock_rw (reqs al req) = OCF_WRITE then ocf_req_unlock_wr req al else ocf_req_unlock_rd req al)"

text \<open>The interface for single lines.\<close>

definition ocf_cache_line_try_lock_rd :: "nat \<Rightarrow> ocf_alock \<Rightarrow> (bool \<times> ocf_alock) option" where
  "ocf_cache_line_try_lock_rd e al = ocf_alock_trylock_one_rd e al"

definition ocf_cache_line_unlock_rd :: "nat \<Rightarrow> ocf_alock \<Rightarrow> ocf_alock option" where
  "ocf_cache_line_unlock_rd e al = ocf_alock_unlock_one_rd e al"

definition ocf_cache_line_try_lock_wr :: "nat \<Rightarrow> ocf_alock \<Rightarrow> (bool \<times> ocf_alock) option" where
  "ocf_cache_line_try_lock_wr e al = ocf_alock_trylock_entry_wr e al"

definition ocf_cache_line_unlock_wr :: "nat \<Rightarrow> ocf_alock \<Rightarrow> ocf_alock option" where
  "ocf_cache_line_unlock_wr e al = ocf_alock_unlock_one_wr e al"

subsection \<open>What unlocking hands over\<close>

text \<open>
  The waiters of a line in their order, the waiters that a release hands the line to when \<open>k\<close> other
  owners remain, and the list without the first \<open>m\<close> waiters of a line.
\<close>

definition line_waiters :: "ocf_alock \<Rightarrow> nat \<Rightarrow> ocf_alock_waiter list" where
  "line_waiters al e = filter (\<lambda>w. w_entry w = e) (waiters_lsts al (WAITERS_LIST_ITEM al e))"

definition lead_readers :: "ocf_alock_waiter list \<Rightarrow> ocf_alock_waiter list" where
  "lead_readers ws = takeWhile (\<lambda>w. w_rw w = OCF_READ) ws"

definition handed :: "nat \<Rightarrow> ocf_alock_waiter list \<Rightarrow> ocf_alock_waiter list" where
  "handed k ws = (case ws of [] \<Rightarrow> []
     | w # _ \<Rightarrow> if w_rw w = OCF_WRITE then (if k = 0 then [w] else []) else lead_readers ws)"

fun drop_waiters :: "nat \<Rightarrow> nat \<Rightarrow> ocf_alock_waiter list \<Rightarrow> ocf_alock_waiter list" where
  "drop_waiters e 0 ws = ws"
| "drop_waiters e (Suc m) [] = []"
| "drop_waiters e (Suc m) (w # ws) = (if w_entry w = e then drop_waiters e m ws else w # drop_waiters e (Suc m) ws)"

definition grants :: "ocf_alock_waiter list \<Rightarrow> ocf_alock \<Rightarrow> ocf_alock" where
  "grants ws al = fold (\<lambda>w. grant (w_req w) (w_idx w)) ws al"

lemma grant_fields [simp]:
  "num_entries (grant r i al) = num_entries al" "num_waitlists (grant r i al) = num_waitlists al"
  "access_of (grant r i al) = access_of al" "waiters_lsts (grant r i al) = waiters_lsts al"
  by (simp_all add: grant_def ocf_alock_entry_locked_def ocf_alock_mark_index_locked_def upd_req_def Let_def)

lemma set_access_fields [simp]:
  "num_entries (set_access e v al) = num_entries al" "num_waitlists (set_access e v al) = num_waitlists al"
  "access_of (set_access e v al) = (access_of al)(e := v)" "waiters_lsts (set_access e v al) = waiters_lsts al"
  "set_access e v (set_access e u al) = set_access e v al" "set_access e (access_of al e) al = al"
  by (simp_all add: set_access_def)

lemma grant_set_access: "grant r i (set_access e v al) = set_access e v (grant r i al)"
  by (simp add: grant_def ocf_alock_entry_locked_def ocf_alock_mark_index_locked_def upd_req_def Let_def set_access_def)

lemma grants_simps [simp]:
  "grants [] al = al" "grants (w # ws) al = grants ws (grant (w_req w) (w_idx w) al)"
  by (simp_all add: grants_def)

lemma grants_fields [simp]:
  "num_entries (grants ws al) = num_entries al" "num_waitlists (grants ws al) = num_waitlists al"
  "access_of (grants ws al) = access_of al" "waiters_lsts (grants ws al) = waiters_lsts al"
  by (induction ws arbitrary: al) simp_all

lemma grants_set_access: "grants ws (set_access e v al) = set_access e v (grants ws al)"
  by (induction ws arbitrary: al) (simp_all add: grant_set_access)

lemma drop_waiters_0 [simp]: "drop_waiters e 0 ws = ws"
  by (cases ws) simp_all

lemma drop_waiters_skip:
  "w_entry w \<noteq> e \<Longrightarrow> drop_waiters e m (w # ws) = w # drop_waiters e m ws"
  by (cases m) simp_all

lemma lead_readers_simps [simp]:
  "lead_readers [] = []"
  "lead_readers (w # ws) = (if w_rw w = OCF_READ then w # lead_readers ws else [])"
  by (simp_all add: lead_readers_def)

lemma rw_neq: "rw \<noteq> OCF_READ \<longleftrightarrow> rw = OCF_WRITE" "rw \<noteq> OCF_WRITE \<longleftrightarrow> rw = OCF_READ"
  by (cases rw; simp)+

text \<open>The scan after the lock was passed on: further readers join as long as the lock is a read lock.\<close>

lemma scan_join:
  assumes "e < num_entries al" "0 < access_of al e" "access_of al e < 255"
    and "access_of al e + length (lead_readers (filter (\<lambda>w. w_entry w = e) ws)) \<le> 254"
  shows "unlock_scan tw tr e False ws al =
    (let gs = lead_readers (filter (\<lambda>w. w_entry w = e) ws)
     in Some (False, drop_waiters e (length gs) ws, set_access e (access_of al e + length gs) (grants gs al)))"
  using assms
proof (induction ws arbitrary: al)
  case (Cons w ws)
  show ?case
  proof (cases "w_entry w = e")
    case False
    with Cons show ?thesis by (simp add: Let_def drop_waiters_skip)
  next
    case e: True
    show ?thesis
    proof (cases "w_rw w")
      case OCF_READ
      let ?al = "grant (w_req w) (w_idx w) (set_access e (Suc (access_of al e)) al)"
      have "(access_of al e + 1) mod 256 = Suc (access_of al e)" using Cons.prems(3) by simp
      then have "unlock_scan tw tr e False (w # ws) al = unlock_scan tw tr e False ws ?al"
        using e OCF_READ Cons.prems by (simp add: ocf_alock_trylock_entry_rd_def access_ptr_def)
      also have "\<dots> = (let gs = lead_readers (filter (\<lambda>w. w_entry w = e) ws) in
         Some (False, drop_waiters e (length gs) ws, set_access e (Suc (access_of al e) + length gs) (grants gs ?al)))"
        using Cons.prems e OCF_READ by (subst Cons.IH) auto
      finally show ?thesis
        using e OCF_READ by (simp add: Let_def grant_set_access grants_set_access)
    next
      case OCF_WRITE
      with e Cons.prems show ?thesis
        by (simp add: ocf_alock_trylock_entry_wr_def access_ptr_def Let_def)
    qed
  qed
qed (simp add: Let_def)

lemma scan_blocked:
  "e < num_entries al \<Longrightarrow> access_of al e = 255 \<Longrightarrow> unlock_scan tw tr e False ws al = Some (False, ws, al)"
proof (induction ws)
  case (Cons w ws)
  then show ?case
    by (cases "w_rw w") (simp_all add: ocf_alock_trylock_entry_wr_def ocf_alock_trylock_entry_rd_def access_ptr_def Let_def)
qed simp

lemma scan_first:
  assumes e: "e < num_entries al"
    and wr: "tw e al = Some (k = 0, if k = 0 then set_access e 255 al else al)"
    and rd: "tr e al = Some (True, set_access e (Suc k) al)"
    and few: "k + length (filter (\<lambda>w. w_entry w = e) ws) \<le> 254"
  shows "unlock_scan tw tr e True ws al =
    (let hs = handed k (filter (\<lambda>w. w_entry w = e) ws)
     in Some (hs = [], drop_waiters e (length hs) ws,
          if hs = [] then al
          else set_access e (if w_rw (hd hs) = OCF_WRITE then 255 else k + length hs) (grants hs al)))"
  using few
proof (induction ws)
  case Nil
  then show ?case by (simp add: handed_def)
next
  case (Cons w ws)
  show ?case
  proof (cases "w_entry w = e")
    case False
    with Cons show ?thesis by (simp add: Let_def drop_waiters_skip)
  next
    case we: True
    show ?thesis
    proof (cases "w_rw w")
      case OCF_WRITE
      with we wr e show ?thesis
        by (cases "k = 0") (simp_all add: handed_def Let_def scan_blocked grant_set_access)
    next
      case OCF_READ
      let ?gs = "lead_readers (filter (\<lambda>w. w_entry w = e) ws)"
      have "length ?gs \<le> length (filter (\<lambda>w. w_entry w = e) ws)"
        unfolding lead_readers_def by (rule length_takeWhile_le)
      then have "Suc k + length ?gs \<le> 254" using Cons.prems we by simp
      then show ?thesis
        using we rd e OCF_READ
        by (simp add: handed_def Let_def scan_join grant_set_access grants_set_access)
    qed
  qed
qed

definition handed_state :: "nat \<Rightarrow> nat \<Rightarrow> ocf_alock \<Rightarrow> ocf_alock" where
  "handed_state k e al =
     (let hs = handed k (line_waiters al e); i = WAITERS_LIST_ITEM al e
      in (set_access e (if hs \<noteq> [] \<and> w_rw (hd hs) = OCF_WRITE then 255 else k + length hs) (grants hs al))
         \<lparr>waiters_lsts := (waiters_lsts al)(i := drop_waiters e (length hs) (waiters_lsts al i))\<rparr>)"

lemma unlock_wr_eq:
  assumes "e < num_entries al" "access_of al e = 255" "length (line_waiters al e) \<le> 254"
  shows "ocf_alock_unlock_one_wr e al = Some (handed_state 0 e al)"
proof -
  let ?i = "WAITERS_LIST_ITEM al e" and ?hs = "handed 0 (line_waiters al e)"
  have "unlock_scan ocf_alock_trylock_entry_wr2wr ocf_alock_trylock_entry_wr2rd e True (waiters_lsts al ?i) al =
      Some (?hs = [], drop_waiters e (length ?hs) (waiters_lsts al ?i),
        if ?hs = [] then al else set_access e (if w_rw (hd ?hs) = OCF_WRITE then 255 else length ?hs) (grants ?hs al))"
    using assms by (subst scan_first [where k = 0])
      (simp_all add: ocf_alock_trylock_entry_wr2wr_def ocf_alock_trylock_entry_wr2rd_def access_ptr_def Let_def
        line_waiters_def set_access_def fun_upd_idem)
  then show ?thesis
    using assms
    by (auto simp: ocf_alock_unlock_one_wr_def ocf_alock_unlock_one_wr_common_def unlock_common_def Let_def
        handed_state_def ocf_alock_unlock_entry_wr_def access_ptr_def set_access_def)
qed

lemma unlock_rd_eq:
  assumes "e < num_entries al" "access_of al e = Suc k" "Suc k < 255" "k + length (line_waiters al e) \<le> 254"
  shows "ocf_alock_unlock_one_rd e al = Some (handed_state k e al)"
proof -
  let ?i = "WAITERS_LIST_ITEM al e" and ?hs = "handed k (line_waiters al e)"
  have "unlock_scan ocf_alock_trylock_entry_rd2wr ocf_alock_trylock_entry_rd2rd e True (waiters_lsts al ?i) al =
      Some (?hs = [], drop_waiters e (length ?hs) (waiters_lsts al ?i),
        if ?hs = [] then al else set_access e (if w_rw (hd ?hs) = OCF_WRITE then 255 else k + length ?hs) (grants ?hs al))"
    using assms by (subst scan_first [where k = k])
      (simp_all add: ocf_alock_trylock_entry_rd2wr_def ocf_alock_trylock_entry_rd2rd_def access_ptr_def Let_def
        line_waiters_def set_access_def fun_upd_idem)
  then show ?thesis
    using assms
    by (auto simp: ocf_alock_unlock_one_rd_def ocf_alock_unlock_one_rd_common_def unlock_common_def Let_def
        handed_state_def ocf_alock_unlock_entry_rd_def access_ptr_def set_access_def)
qed

lemma handed_prefix: "\<exists>rest. ws = handed k ws @ rest"
  by (cases ws) (auto simp: handed_def lead_readers_def intro: exI [of _ "dropWhile (\<lambda>w. w_rw w = OCF_READ) (tl ws)"])

lemma filter_drop_waiters:
  "filter (\<lambda>w. w_entry w = e) (drop_waiters e m ws) = drop m (filter (\<lambda>w. w_entry w = e) ws)"
  "e' \<noteq> e \<Longrightarrow> filter (\<lambda>w. w_entry w = e') (drop_waiters e m ws) = filter (\<lambda>w. w_entry w = e') ws"
  by (induction e m ws rule: drop_waiters.induct) auto

lemma handed_state_fields:
  "num_entries (handed_state k e al) = num_entries al" "num_waitlists (handed_state k e al) = num_waitlists al"
  "access_of (handed_state k e al) = (access_of al)(e := (let hs = handed k (line_waiters al e) in
     if hs \<noteq> [] \<and> w_rw (hd hs) = OCF_WRITE then 255 else k + length hs))"
  "line_waiters (handed_state k e al) e = drop (length (handed k (line_waiters al e))) (line_waiters al e)"
  "e' \<noteq> e \<Longrightarrow> line_waiters (handed_state k e al) e' = line_waiters al e'"
  by (auto simp: handed_state_def Let_def line_waiters_def WAITERS_LIST_ITEM_def filter_drop_waiters)

subsection \<open>Ownership\<close>

text \<open>
  \<open>own e\<close> is the multiset of lock tokens (request, index, kind) of line \<open>e\<close>. The access word counts
  readers in 8 bits, of which 255 means a writer: the runs considered have at most 254 owners and
  waiters of a line at a time, which the code does not enforce. Steps of different threads interleave: a trylock, which
  is also the first attempt of a lock operation; the section of a lock operation under the lock of the waiters list, from
  any state; the update of a request whose line was locked; an unlock; and removing a waiter.
\<close>

type_synonym token = "nat \<times> nat \<times> ocf_rw"

definition token_of :: "ocf_alock_waiter \<Rightarrow> token" where
  "token_of w = (w_req w, w_idx w, w_rw w)"

definition demand :: "ocf_alock \<Rightarrow> (nat \<Rightarrow> token multiset) \<Rightarrow> nat \<Rightarrow> nat" where
  "demand al own e = size (own e) + length (line_waiters al e)"

definition line_inv :: "ocf_alock \<Rightarrow> (nat \<Rightarrow> token multiset) \<Rightarrow> nat \<Rightarrow> bool" where
  "line_inv al own e \<longleftrightarrow>
     (if access_of al e = 255 then (\<exists>r i. own e = {#(r, i, OCF_WRITE)#})
      else size (own e) = access_of al e \<and> (\<forall>t\<in>#own e. snd (snd t) = OCF_READ)) \<and>
     (line_waiters al e \<noteq> [] \<longrightarrow> access_of al e \<noteq> 0) \<and> demand al own e \<le> 254"

definition alock_inv :: "ocf_alock \<Rightarrow> (nat \<Rightarrow> token multiset) \<Rightarrow> bool" where
  "alock_inv al own \<longleftrightarrow> (\<forall>e < num_entries al. line_inv al own e)"

definition try_one :: "ocf_rw \<Rightarrow> nat \<Rightarrow> ocf_alock \<Rightarrow> (bool \<times> ocf_alock) option" where
  "try_one rw e al = (case rw of OCF_WRITE \<Rightarrow> ocf_cache_line_try_lock_wr e al
                               | OCF_READ \<Rightarrow> ocf_cache_line_try_lock_rd e al)"

definition lock_section :: "ocf_rw \<Rightarrow> nat \<Rightarrow> nat \<Rightarrow> nat \<Rightarrow> ocf_alock \<Rightarrow> (bool \<times> ocf_alock) option" where
  "lock_section rw e req i al =
     (case rw of OCF_WRITE \<Rightarrow> lock_one_wr_section e req i al | OCF_READ \<Rightarrow> lock_one_rd_section e req i al)"

inductive alock_step ::
  "ocf_alock \<times> (nat \<Rightarrow> token multiset) \<Rightarrow> ocf_alock \<times> (nat \<Rightarrow> token multiset) \<Rightarrow> bool" where
  try_step: "e < num_entries al \<Longrightarrow> demand al own e < 254 \<Longrightarrow> try_one rw e al = Some (got, al') \<Longrightarrow>
    alock_step (al, own) (al', if got then own(e := add_mset (r, i, rw) (own e)) else own)"
| section_step: "e < num_entries al \<Longrightarrow> demand al own e < 254 \<Longrightarrow> lock_section rw e r i al = Some (waits, al') \<Longrightarrow>
    alock_step (al, own) (al', if waits then own else own(e := add_mset (r, i, rw) (own e)))"
| grant_step: "alock_step (al, own) (grant r i al, own)"
| unlock_step: "e < num_entries al \<Longrightarrow> (r, i, rw) \<in># own e \<Longrightarrow> unlock_one rw e al = Some al' \<Longrightarrow>
    alock_step (al, own)
      (al', own(e := own e - {#(r, i, rw)#} + (mset (map token_of (line_waiters al e)) - mset (map token_of (line_waiters al' e)))))"
| cancel_step: "\<not> ocf_alock_is_index_locked al r i \<Longrightarrow> ocf_alock_waitlist_remove_entry r e i rw al = Some al' \<Longrightarrow>
    alock_step (al, own) (al', own)"
| req_step: "alock_step (al, own) (upd_req r f al, own)"

lemma line_inv_cong:
  "access_of al' e = access_of al e \<Longrightarrow> line_waiters al' e = line_waiters al e \<Longrightarrow> own' e = own e \<Longrightarrow>
   line_inv al' own' e = line_inv al own e"
  by (simp add: line_inv_def demand_def)

lemma line_inv_unlock:
  assumes inv: "line_inv al own e" and e: "e < num_entries al" and t: "(r, i, rw) \<in># own e"
  obtains k where "unlock_one rw e al = Some (handed_state k e al)" "size (own e) = Suc k"
    "rw = OCF_WRITE \<Longrightarrow> k = 0 \<and> access_of al e = 255" "rw = OCF_READ \<Longrightarrow> access_of al e = Suc k"
    "\<forall>t\<in>#own e - {#(r, i, rw)#}. snd (snd t) = OCF_READ" "Suc k + length (line_waiters al e) \<le> 254"
proof (cases rw)
  case OCF_WRITE
  with inv t have a: "access_of al e = 255" by (auto simp: line_inv_def split: if_splits)
  with inv t obtain r' i' where o: "own e = {#(r', i', OCF_WRITE)#}" by (auto simp: line_inv_def)
  have d: "1 + length (line_waiters al e) \<le> 254" using inv o by (simp add: line_inv_def demand_def)
  have "unlock_one rw e al = Some (handed_state 0 e al)"
    using unlock_wr_eq [OF e a] d OCF_WRITE by (simp add: unlock_one_def)
  with a o d OCF_WRITE t show thesis by (intro that [of 0]) auto
next
  case OCF_READ
  with inv t have a: "access_of al e \<noteq> 255" "size (own e) = access_of al e" "\<forall>t\<in>#own e. snd (snd t) = OCF_READ"
    by (auto simp: line_inv_def split: if_splits)
  obtain k where k: "access_of al e = Suc k" using a(2) t by (cases "own e"; cases "access_of al e") auto
  have d: "Suc k + length (line_waiters al e) \<le> 254" using inv a(2) k by (simp add: line_inv_def demand_def)
  have "unlock_one rw e al = Some (handed_state k e al)"
    using unlock_rd_eq [OF e k] d OCF_READ by (simp add: unlock_one_def)
  with a k d OCF_READ show thesis by (intro that [of k]) (auto dest: in_diffD)
qed

lemma handed_cases:
  obtains (none) "ws = []" "handed k ws = []"
  | (wr) w rest where "ws = w # rest" "w_rw w = OCF_WRITE" "k = 0" "handed k ws = [w]"
  | (busy) "ws \<noteq> []" "0 < k" "handed k ws = []"
  | (rd) "ws \<noteq> []" "handed k ws = lead_readers ws" "w_rw (hd ws) = OCF_READ"
proof (cases ws)
  case Nil
  then show thesis by (intro none) (simp_all add: handed_def)
next
  case (Cons w rest)
  show thesis
  proof (cases "w_rw w")
    case OCF_READ
    with Cons show thesis by (intro rd) (simp_all add: handed_def)
  next
    case OCF_WRITE
    then have "handed k ws = (if k = 0 then [w] else [])" by (simp add: Cons handed_def)
    with Cons OCF_WRITE show thesis by (cases "k = 0") (use wr [of w rest] busy in simp_all)
  qed
qed

lemma unlock_keeps_inv:
  assumes inv: "line_inv al own e" and e: "e < num_entries al" and t: "(r, i, rw) \<in># own e"
    and u: "unlock_one rw e al = Some al'"
  shows "line_inv al' (own(e := own e - {#(r, i, rw)#} +
      (mset (map token_of (line_waiters al e)) - mset (map token_of (line_waiters al' e))))) e"
proof -
  obtain k where k: "unlock_one rw e al = Some (handed_state k e al)" "size (own e) = Suc k"
    "\<forall>t\<in>#own e - {#(r, i, rw)#}. snd (snd t) = OCF_READ" "Suc k + length (line_waiters al e) \<le> 254"
    using line_inv_unlock [OF inv e t] by metis
  have al': "al' = handed_state k e al" using u k(1) by simp
  let ?ws = "line_waiters al e" and ?hs = "handed k (line_waiters al e)"
  obtain rest where rest: "?ws = ?hs @ rest" using handed_prefix by blast
  have w': "line_waiters al' e = rest"
    unfolding al' handed_state_fields(4) by (metis append_eq_conv_conj rest)
  have tok: "mset (map token_of ?ws) - mset (map token_of (line_waiters al' e)) = mset (map token_of ?hs)"
    unfolding w' by (subst rest) simp
  have sz: "size (own e - {#(r, i, rw)#}) = k" using k(2) t by (simp add: size_Diff_singleton)
  have acc: "access_of al' e = (if ?hs \<noteq> [] \<and> w_rw (hd ?hs) = OCF_WRITE then 255 else k + length ?hs)"
    unfolding al' handed_state_fields(3) by (simp add: Let_def)
  have len: "length ?ws = length ?hs + length rest" by (subst rest) simp
  have dem: "demand al' (own(e := own e - {#(r, i, rw)#} + mset (map token_of ?hs))) e \<le> 254"
    using k(4) sz len by (simp add: demand_def w')
  show ?thesis
  proof (cases rule: handed_cases [of ?ws k])
    case none
    with k(3,4) sz acc dem w' rest show ?thesis unfolding tok line_inv_def by simp
  next
    case wr
    have "own e - {#(r, i, rw)#} = {#}" using sz wr by simp
    with wr acc dem show ?thesis unfolding tok line_inv_def by (simp add: token_of_def)
  next
    case busy
    with k(3,4) sz acc dem show ?thesis unfolding tok line_inv_def by simp
  next
    case rd
    have r: "\<forall>w\<in>set ?hs. w_rw w = OCF_READ" unfolding rd(2) lead_readers_def by (auto dest: set_takeWhileD)
    have ne: "?hs \<noteq> []" using rd by (cases ?ws) auto
    have hd: "w_rw (hd ?hs) = OCF_READ" using r ne by simp
    have "k + length ?hs \<le> 254" using k(4) len by simp
    with hd have a: "access_of al' e = k + length ?hs" "access_of al' e \<noteq> 255" "access_of al' e \<noteq> 0"
      using acc ne by auto
    have "\<forall>t\<in>#own e - {#(r, i, rw)#} + mset (map token_of ?hs). snd (snd t) = OCF_READ"
      using k(3) r by (auto simp: token_of_def)
    with a sz dem show ?thesis unfolding tok line_inv_def by simp
  qed
qed


lemma try_one_cases:
  assumes "e < num_entries al" "try_one rw e al = Some (got, al')"
  shows "got = (access_of al e = 0) \<and>
    al' = (if access_of al e = 0 then set_access e (case rw of OCF_WRITE \<Rightarrow> 255 | OCF_READ \<Rightarrow> 1) al else al)"
  using assms
  by (cases rw) (auto simp: try_one_def ocf_cache_line_try_lock_wr_def ocf_cache_line_try_lock_rd_def ocf_alock_trylock_entry_wr_def ocf_alock_trylock_one_rd_def
      ocf_alock_trylock_entry_rd_idle_def access_ptr_def Let_def)

lemma line_waiters_simps [simp]:
  "line_waiters (set_access e v al) e' = line_waiters al e'"
  "line_waiters (grant r i al) e' = line_waiters al e'"
  "line_waiters (upd_req r f al) e' = line_waiters al e'"
  by (simp_all add: line_waiters_def WAITERS_LIST_ITEM_def upd_req_def)

lemma upd_req_fields [simp]:
  "num_entries (upd_req r f al) = num_entries al" "num_waitlists (upd_req r f al) = num_waitlists al"
  "access_of (upd_req r f al) = access_of al" "waiters_lsts (upd_req r f al) = waiters_lsts al"
  "reqs (upd_req r f al) = (reqs al)(r := f (reqs al r))"
  by (simp_all add: upd_req_def)

lemma take_idle_inv:
  assumes "line_inv al own e" "access_of al e = 0" "demand al own e < 254"
  shows "line_inv (set_access e (case rw of OCF_WRITE \<Rightarrow> 255 | OCF_READ \<Rightarrow> 1) al)
    (own(e := add_mset (r, i, rw) (own e))) e"
  using assms by (cases rw) (auto simp: line_inv_def demand_def)

lemma waitlist_empty_iff: "ocf_alock_waitlist_is_empty_locked al e \<longleftrightarrow> line_waiters al e = []"
  by (auto simp: ocf_alock_waitlist_is_empty_locked_def line_waiters_def Let_def list_ex_iff filter_empty_conv)

lemma line_waiters_add:
  "line_waiters (ocf_alock_waitlist_add e w al) e' =
     (if w_entry w = e' \<and> WAITERS_LIST_ITEM al e = WAITERS_LIST_ITEM al e' then line_waiters al e' @ [w] else line_waiters al e')"
  by (auto simp: line_waiters_def ocf_alock_waitlist_add_def WAITERS_LIST_ITEM_def Let_def)

lemma waitlist_add_fields [simp]:
  "access_of (ocf_alock_waitlist_add e w al) = access_of al"
  "num_entries (ocf_alock_waitlist_add e w al) = num_entries al"
  by (simp_all add: ocf_alock_waitlist_add_def Let_def)

lemma waitlist_add_changes: "waiters_lsts (ocf_alock_waitlist_add e w al) \<noteq> waiters_lsts al"
  by (auto simp: ocf_alock_waitlist_add_def Let_def fun_upd_idem_iff)

text \<open>What the section does: it takes an idle line, a reader joins the readers when nobody waits, and otherwise
  the request queues up.\<close>

lemma lock_section_cases:
  assumes inv: "line_inv al own e" and e: "e < num_entries al" and d: "demand al own e < 254"
  obtains (idle) "access_of al e = 0"
      "lock_section rw e r i al = Some (False, set_access e (case rw of OCF_WRITE \<Rightarrow> 255 | OCF_READ \<Rightarrow> 1) al)"
    | (join) "rw = OCF_READ" "access_of al e \<noteq> 255" "line_waiters al e = []"
      "lock_section rw e r i al = Some (False, set_access e (Suc (access_of al e)) al)"
    | (queue) "access_of al e \<noteq> 0"
      "lock_section rw e r i al = Some (True, ocf_alock_waitlist_add e \<lparr>w_entry = e, w_idx = i, w_req = r, w_rw = rw\<rparr> al)"
proof (cases rw)
  case OCF_WRITE
  then show thesis
    using e idle queue by (cases "access_of al e = 0")
      (simp_all add: lock_section_def lock_one_wr_section_def ocf_alock_trylock_entry_wr_def access_ptr_def Let_def)
next
  case OCF_READ
  have "access_of al e \<noteq> 255 \<Longrightarrow> Suc (access_of al e) mod 256 = Suc (access_of al e)"
    "line_waiters al e \<noteq> [] \<Longrightarrow> access_of al e \<noteq> 0"
    using inv d by (auto simp: line_inv_def demand_def split: if_splits)
  then show thesis
    using e OCF_READ join queue by (cases "line_waiters al e = [] \<and> access_of al e \<noteq> 255")
      (auto simp: lock_section_def lock_one_rd_section_def ocf_alock_trylock_entry_rd_def access_ptr_def Let_def
        waitlist_empty_iff)
qed

lemma section_keeps_inv:
  assumes inv: "line_inv al own e" and e: "e < num_entries al" and d: "demand al own e < 254"
    and l: "lock_section rw e r i al = Some (waits, al')"
  shows "line_inv al' (if waits then own else own(e := add_mset (r, i, rw) (own e))) e"
proof (cases rule: lock_section_cases [OF inv e d, where rw = rw and r = r and i = i])
  case 1
  then show ?thesis using l take_idle_inv [OF inv 1(1) d, of rw r i] by simp
next
  case 2
  then show ?thesis using l inv d by (auto simp: line_inv_def demand_def)
next
  case 3
  then show ?thesis using l inv d by (auto simp: line_inv_def demand_def line_waiters_add)
qed

lemma section_other:
  assumes inv: "line_inv al own e" and e: "e < num_entries al" and d: "demand al own e < 254"
    and l: "lock_section rw e r i al = Some (waits, al')" and n: "e' \<noteq> e"
  shows "access_of al' e' = access_of al e'" "line_waiters al' e' = line_waiters al e'" "num_entries al' = num_entries al"
  by (cases rule: lock_section_cases [OF inv e d, where rw = rw and r = r and i = i];
      use l n in \<open>auto simp: line_waiters_add\<close>)+

text \<open>A lock operation that no other thread interrupts is a run of these steps.\<close>

lemma lock_one_steps:
  assumes "e < num_entries al" "demand al own e < 254" "lock_one rw e True r i mem al = Some (ok, al')"
  shows "\<exists>own'. alock_step\<^sup>*\<^sup>* (al, own) (al', own')"
proof -
  define al1 where "al1 = (if access_of al e = 0 then set_access e (case rw of OCF_WRITE \<Rightarrow> 255 | OCF_READ \<Rightarrow> 1) al else al)"
  have t: "try_one rw e al = Some (access_of al e = 0, al1)"
    using assms(1) by (cases rw) (simp_all add: try_one_def ocf_cache_line_try_lock_wr_def ocf_cache_line_try_lock_rd_def
        ocf_alock_trylock_entry_wr_def ocf_alock_trylock_one_rd_def ocf_alock_trylock_entry_rd_idle_def access_ptr_def
        Let_def al1_def)
  have l: "lock_one rw e True r i mem al = do {
      (got, al) \<leftarrow> try_one rw e al;
      if got then Some (True, grant r i al) else if \<not> mem then Some (False, al)
      else do { (waits, al) \<leftarrow> lock_section rw e r i al; Some (True, if \<not> waits then grant r i al else al) } }"
    by (cases rw; hypsubst) (simp_all add: lock_one_def ocf_alock_lock_one_wr_def ocf_alock_lock_one_rd_def lock_section_def
        try_one_def ocf_cache_line_try_lock_wr_def ocf_cache_line_try_lock_rd_def ocf_alock_trylock_one_rd_def cong: if_cong)
  note g = grant_step [of _ _ r i]
  show ?thesis
  proof (cases "access_of al e = 0")
    case True
    then have "al' = grant r i al1" using l assms(3) t by simp
    then show ?thesis using try_step [OF assms(1,2) t] g by (blast intro: converse_rtranclp_into_rtranclp r_into_rtranclp)
  next
    case False
    then show ?thesis
    proof (cases mem)
      case m: True
      have "al1 = al" using False by (simp add: al1_def)
      then obtain waits al2 where s: "lock_section rw e r i al = Some (waits, al2)" "al' = (if waits then al2 else grant r i al2)"
        using l assms(3) t False m by (auto split: bind_splits if_splits)
      have "alock_step\<^sup>*\<^sup>* (al2, own') (al', own')" for own' using s(2) g by auto
      with section_step [OF assms(1,2) s(1)] show ?thesis by (blast intro: converse_rtranclp_into_rtranclp)
    qed (use l assms(3) t in \<open>auto simp: al1_def\<close>)
  qed
qed

lemma remove_waiter_filter:
  "length (filter P (remove_waiter r ws)) \<le> length (filter P ws)"
  "filter P ws = [] \<Longrightarrow> filter P (remove_waiter r ws) = []"
  by (induction ws) auto

lemma alock_step_inv:
  "alock_step (al, own) (al', own') \<Longrightarrow> alock_inv al own \<Longrightarrow> alock_inv al' own'"
proof (induction al own al' own' rule: alock_step.induct [split_format (complete)])
  case (try_step e al own rw got al' r i)
  note c = try_one_cases [OF try_step(1,3)]
  have "line_inv al' (if got then own(e := add_mset (r, i, rw) (own e)) else own) e'" if "e' < num_entries al" for e'
  proof (cases "e' = e")
    case True
    have "line_inv al own e" using try_step by (simp add: alock_inv_def)
    with c take_idle_inv [OF this _ try_step(2), of rw r i] True show ?thesis by simp
  next
    case False
    have "line_inv al own e'" using that try_step by (simp add: alock_inv_def)
    with c False show ?thesis by (subst line_inv_cong [of al' e' al _ own]) simp_all
  qed
  moreover have "num_entries al' = num_entries al" using c by simp
  ultimately show ?case unfolding alock_inv_def by simp
next
  case (section_step e al own rw r i waits al')
  have inv: "line_inv al own e" using section_step by (simp add: alock_inv_def)
  note o = section_other [OF inv section_step(1-3)]
  have n: "num_entries al' = num_entries al" using o(3) [of "Suc e"] by simp
  have "line_inv al' (if waits then own else own(e := add_mset (r, i, rw) (own e))) e'" if "e' < num_entries al" for e'
  proof (cases "e' = e")
    case True
    with section_keeps_inv [OF inv section_step(1-3)] show ?thesis by simp
  next
    case False
    have "line_inv al own e'" using that section_step by (simp add: alock_inv_def)
    with o False show ?thesis by (subst line_inv_cong [of al' e' al _ own]) simp_all
  qed
  with n show ?case by (simp add: alock_inv_def)
next
  case (grant_step al own r i)
  have "line_inv (grant r i al) own e' = line_inv al own e'" for e'
    by (rule line_inv_cong) simp_all
  with grant_step show ?case by (simp add: alock_inv_def)
next
  case (unlock_step e al r i rw own al')
  have inv: "line_inv al own e" using unlock_step by (simp add: alock_inv_def)
  obtain k where k: "al' = handed_state k e al"
    using line_inv_unlock [OF inv unlock_step(1,2)] unlock_step(3) by (metis option.inject)
  let ?own = "own(e := own e - {#(r, i, rw)#} +
      (mset (map token_of (line_waiters al e)) - mset (map token_of (line_waiters al' e))))"
  have "line_inv al' ?own e'" if "e' < num_entries al" for e'
  proof (cases "e' = e")
    case True
    with unlock_keeps_inv [OF inv unlock_step(1-3)] show ?thesis by simp
  next
    case False
    have "line_inv al own e'" using that unlock_step by (simp add: alock_inv_def)
    with False show ?thesis by (subst line_inv_cong [of al' e' al _ own]) (simp_all add: k handed_state_fields)
  qed
  moreover have "num_entries al' = num_entries al" by (simp add: k handed_state_fields(1))
  ultimately show ?case unfolding alock_inv_def by presburger
next
  case (cancel_step al r i e rw al' own)
  then have al': "al' = al\<lparr>waiters_lsts := (waiters_lsts al)(WAITERS_LIST_ITEM al e :=
      remove_waiter r (waiters_lsts al (WAITERS_LIST_ITEM al e)))\<rparr>"
    by (simp add: ocf_alock_waitlist_remove_entry_def Let_def)
  have "length (line_waiters al' e') \<le> length (line_waiters al e') \<and> (line_waiters al e' = [] \<longrightarrow> line_waiters al' e' = [])" for e'
    using remove_waiter_filter by (auto simp: al' line_waiters_def WAITERS_LIST_ITEM_def)
  moreover have "access_of al' = access_of al" "num_entries al' = num_entries al" by (simp_all add: al')
  ultimately have "line_inv al' own e'" if "line_inv al own e'" for e'
    using that le_trans [OF add_left_mono [of "length (line_waiters al' e')" "length (line_waiters al e')" "size (own e')"]]
    unfolding line_inv_def demand_def by auto
  with cancel_step(3) show ?case by (simp add: alock_inv_def al')
next
  case (req_step al own r f)
  have "line_inv (upd_req r f al) own e' = line_inv al own e'" for e'
    by (rule line_inv_cong) simp_all
  with req_step show ?case by (simp add: alock_inv_def)
qed

definition alock_idle :: "ocf_alock \<Rightarrow> bool" where
  "alock_idle al \<longleftrightarrow> (\<forall>e < num_entries al. access_of al e = 0 \<and> line_waiters al e = [])"

lemma reachable_inv:
  assumes "alock_idle al0" "alock_step\<^sup>*\<^sup>* (al0, \<lambda>_. {#}) (al, own)"
  shows "alock_inv al own"
  using assms(2)
proof (induction "(al, own)" arbitrary: al own rule: rtranclp_induct)
  case base
  with assms(1) show ?case by (simp add: alock_inv_def alock_idle_def line_inv_def demand_def)
next
  case (step y)
  obtain al1 own1 where y: "y = (al1, own1)" by (cases y)
  show ?case using step(2,3) unfolding y by (blast intro: alock_step_inv)
qed

text \<open>C26: In every state that trylocks, the sections of lock operations, unlocks, cancellations and updates of the
  requests, in any order, reach from an idle array of locks, with at most 254 owners and waiters of a line: a line locked
  for write has exactly one owner, a line with waiters has an owner (so that no wake-up is lost), and every owner can
  release its lock, without failing an assertion.\<close>

theorem alock_safe:
  assumes "alock_idle al0" "alock_step\<^sup>*\<^sup>* (al0, \<lambda>_. {#}) (al, own)" "e < num_entries al"
  shows "((r, i, OCF_WRITE) \<in># own e \<longrightarrow> own e = {#(r, i, OCF_WRITE)#}) \<and>
    (line_waiters al e \<noteq> [] \<longrightarrow> own e \<noteq> {#}) \<and>
    (t \<in># own e \<longrightarrow> (\<exists>al'. unlock_one (snd (snd t)) e al = Some al'))"
proof -
  have inv: "line_inv al own e" using reachable_inv [OF assms(1,2)] assms(3) by (simp add: alock_inv_def)
  have "(r, i, OCF_WRITE) \<in># own e \<longrightarrow> own e = {#(r, i, OCF_WRITE)#}"
    using inv by (auto simp: line_inv_def split: if_splits)
  moreover have "line_waiters al e \<noteq> [] \<longrightarrow> own e \<noteq> {#}"
    using inv by (auto simp: line_inv_def split: if_splits)
  moreover have "\<exists>al'. unlock_one (snd (snd t)) e al = Some al'" if "t \<in># own e"
    using line_inv_unlock [OF inv assms(3), of "fst t" "fst (snd t)" "snd (snd t)"] that by auto
  ultimately show ?thesis by blast
qed

text \<open>C27: Releasing a lock hands the line over in the order of the waiters: a prefix of them leaves the list
  and is granted the line, either one writer when no other owner is left, or all the readers in front;
  nobody overtakes, and when the last owner leaves somebody is granted the line if anybody waits. The access word then
  says write-locked, or counts the \<open>k\<close> owners that are left and the new ones, and is not idle while anybody waits. The
  other lines keep their access word and their waiters.\<close>

theorem unlock_hands_over:
  assumes "alock_inv al own" "e < num_entries al" "(r, i, rw) \<in># own e"
  shows "\<exists>al' k. unlock_one rw e al = Some al' \<and> size (own e) = Suc k \<and>
    line_waiters al e = handed k (line_waiters al e) @ line_waiters al' e \<and>
    (k = 0 \<and> line_waiters al e \<noteq> [] \<longrightarrow> handed k (line_waiters al e) \<noteq> []) \<and>
    access_of al' e = (let hs = handed k (line_waiters al e) in
      if hs \<noteq> [] \<and> w_rw (hd hs) = OCF_WRITE then OCF_CACHE_LINE_ACCESS_WR else k + length hs) \<and>
    (line_waiters al' e \<noteq> [] \<longrightarrow> access_of al' e \<noteq> OCF_CACHE_LINE_ACCESS_IDLE) \<and>
    reqs al' = reqs (grants (handed k (line_waiters al e)) al) \<and>
    resumed al' = resumed (grants (handed k (line_waiters al e)) al) \<and>
    (\<forall>e'. e' \<noteq> e \<longrightarrow> access_of al' e' = access_of al e' \<and> line_waiters al' e' = line_waiters al e')"
proof -
  have inv: "line_inv al own e" using assms by (simp add: alock_inv_def)
  obtain k where k: "unlock_one rw e al = Some (handed_state k e al)" "size (own e) = Suc k"
    using line_inv_unlock [OF inv assms(2,3)] by metis
  let ?hs = "handed k (line_waiters al e)"
  have "line_waiters al e = ?hs @ line_waiters (handed_state k e al) e"
    unfolding handed_state_fields(4) by (metis append_eq_conv_conj handed_prefix)
  moreover have "k = 0 \<and> line_waiters al e \<noteq> [] \<longrightarrow> ?hs \<noteq> []"
    by (cases "line_waiters al e") (auto simp: handed_def rw_neq)
  moreover have "reqs (handed_state k e al) = reqs (grants ?hs al)" "resumed (handed_state k e al) = resumed (grants ?hs al)"
    by (simp_all add: handed_state_def Let_def set_access_def)
  moreover have "line_waiters (handed_state k e al) e \<noteq> [] \<longrightarrow> access_of (handed_state k e al) e \<noteq> 0"
    using unlock_keeps_inv [OF inv assms(2,3) k(1)] by (simp add: line_inv_def)
  ultimately show ?thesis using k handed_state_fields(3) [of k e al] handed_state_fields(5) [where k = k and e = e and al = al] by (intro exI [of _ "handed_state k e al"] exI [of _ k]) auto
qed

text \<open>The 8-bit counter: one more reader turns 254 readers into a write lock.\<close>

lemma reader_count_overflow:
  assumes "e < num_entries al" "access_of al e = 254"
  shows "ocf_alock_trylock_entry_rd e al = Some (True, set_access e OCF_CACHE_LINE_ACCESS_WR al)"
  using assms by (simp add: ocf_alock_trylock_entry_rd_def access_ptr_def)

subsection \<open>The fast path\<close>

text \<open>The state in which a request has locked the given indices of its map, all of them idle.\<close>

definition rw_word :: "ocf_rw \<Rightarrow> nat" where
  "rw_word rw = (case rw of OCF_WRITE \<Rightarrow> OCF_CACHE_LINE_ACCESS_WR | OCF_READ \<Rightarrow> OCF_CACHE_LINE_ACCESS_ONE_RD)"

definition take_line :: "ocf_rw \<Rightarrow> nat \<Rightarrow> nat \<Rightarrow> ocf_alock \<Rightarrow> ocf_alock" where
  "take_line rw req i al =
     ocf_alock_mark_index_locked req i True (set_access (ocf_cl_lock_line_get_entry al req i) (rw_word rw) al)"

definition free_lines :: "ocf_alock \<Rightarrow> nat \<Rightarrow> nat list \<Rightarrow> bool" where
  "free_lines al req is \<longleftrightarrow> distinct (map (ocf_cl_lock_line_get_entry al req) is) \<and>
     (\<forall>i\<in>set is. access_of al (ocf_cl_lock_line_get_entry al req i) = 0)"

definition may_lock :: "ocf_alock \<Rightarrow> nat \<Rightarrow> nat \<Rightarrow> bool" where
  "may_lock al req i \<longleftrightarrow> ocf_cl_lock_line_get_entry al req i < num_entries al \<and> i \<notin> alock_status (reqs al req) \<and>
     (line_waiters al (ocf_cl_lock_line_get_entry al req i) \<noteq> [] \<longrightarrow>
      access_of al (ocf_cl_lock_line_get_entry al req i) \<noteq> 0)"

lemma rw_word_pos [simp]: "rw_word rw \<noteq> 0" "0 < rw_word rw"
  by (cases rw; simp add: rw_word_def)+

lemma take_line_fields [simp]:
  "num_entries (take_line rw req i al) = num_entries al"
  "access_of (take_line rw req i al) = (access_of al)(ocf_cl_lock_line_get_entry al req i := rw_word rw)"
  "alock_status (reqs (take_line rw req i al) req) = insert i (alock_status (reqs al req))"
  "r_map (reqs (take_line rw req i al) req) = r_map (reqs al req)"
  "ocf_cl_lock_line_get_entry (take_line rw req i al) req = ocf_cl_lock_line_get_entry al req"
  "ocf_cl_lock_line_needs_lock (take_line rw req i al) req = ocf_cl_lock_line_needs_lock al req"
  "line_waiters (take_line rw req i al) e = line_waiters al e"
  by (auto simp: take_line_def ocf_alock_mark_index_locked_def ocf_cl_lock_line_get_entry_def
      ocf_cl_lock_line_needs_lock_def set_access_def upd_req_def line_waiters_def WAITERS_LIST_ITEM_def fun_eq_iff)

definition fast_stop :: "ocf_rw \<Rightarrow> nat \<Rightarrow> nat list \<Rightarrow> ocf_alock \<Rightarrow> nat \<Rightarrow> ocf_alock \<Rightarrow> bool" where
  "fast_stop rw req is al j al' \<longleftrightarrow> (\<exists>pre post. is = pre @ j # post \<and>
     free_lines al req (filter (ocf_cl_lock_line_needs_lock al req) pre) \<and>
     \<not> free_lines al req (filter (ocf_cl_lock_line_needs_lock al req) (pre @ [j])) \<and>
     al' = fold (take_line rw req) (filter (ocf_cl_lock_line_needs_lock al req) pre) al)"

lemma free_lines_Cons:
  "free_lines al req (i # is) \<longleftrightarrow>
     access_of al (ocf_cl_lock_line_get_entry al req i) = 0 \<and> free_lines (take_line rw req i al) req is"
  by (auto simp: free_lines_def image_iff)

lemma fast_loop_result:
  assumes "distinct is" "\<forall>i\<in>set is. ocf_cl_lock_line_needs_lock al req i \<longrightarrow> may_lock al req i"
  shows "\<exists>stop al'. cl_fast_loop rw req is al = Some (stop, al') \<and>
    (case stop of
       None \<Rightarrow> free_lines al req (filter (ocf_cl_lock_line_needs_lock al req) is) \<and>
         al' = fold (take_line rw req) (filter (ocf_cl_lock_line_needs_lock al req) is) al
     | Some j \<Rightarrow> fast_stop rw req is al j al')"
  using assms
proof (induction "is" arbitrary: al)
  case Nil
  then show ?case by (simp add: free_lines_def)
next
  case (Cons i "is")
  let ?e = "ocf_cl_lock_line_get_entry al req i"
  show ?case
  proof (cases "ocf_cl_lock_line_needs_lock al req i")
    case False
    obtain stop al' where "cl_fast_loop rw req is al = Some (stop, al')"
      "case stop of None \<Rightarrow> free_lines al req (filter (ocf_cl_lock_line_needs_lock al req) is) \<and>
         al' = fold (take_line rw req) (filter (ocf_cl_lock_line_needs_lock al req) is) al
       | Some j \<Rightarrow> fast_stop rw req is al j al'"
      using Cons.IH [of al] Cons.prems by auto
    moreover have "fast_stop rw req is al j al' \<Longrightarrow> fast_stop rw req (i # is) al j al'" for j
      unfolding fast_stop_def using False
      by (elim exE conjE) (rule exI [of _ "i # _"], rule exI, simp)
    ultimately show ?thesis using False by (auto split: option.splits)
  next
    case True
    have m: "may_lock al req i" using Cons.prems True by simp
    have tr: "(case rw of OCF_WRITE \<Rightarrow> ocf_alock_trylock_entry_wr ?e al | OCF_READ \<Rightarrow> ocf_alock_trylock_entry_rd_idle ?e al) =
        Some (access_of al ?e = 0, if access_of al ?e = 0 then set_access ?e (rw_word rw) al else al)"
      using m by (cases rw) (auto simp: may_lock_def ocf_alock_trylock_entry_wr_def
          ocf_alock_trylock_entry_rd_idle_def access_ptr_def Let_def rw_word_def)
    have nl: "\<not> ocf_alock_is_index_locked al req i" using m by (simp add: may_lock_def ocf_alock_is_index_locked_def)
    show ?thesis
    proof (cases "access_of al ?e = 0")
      case False
      then have "cl_fast_loop rw req (i # is) al = Some (Some i, al)" using True tr nl by simp
      moreover have "fast_stop rw req (i # is) al i al"
        unfolding fast_stop_def using False True by (intro exI [of _ "[]"] exI [of _ "is"]) (simp add: free_lines_def)
      ultimately show ?thesis by auto
    next
      case idle: True
      have "cl_fast_loop rw req (i # is) al = cl_fast_loop rw req is (take_line rw req i al)"
        using True tr nl idle by (simp add: take_line_def)
      moreover have "\<forall>j\<in>set is. ocf_cl_lock_line_needs_lock (take_line rw req i al) req j \<longrightarrow> may_lock (take_line rw req i al) req j"
        using Cons.prems by (auto simp: may_lock_def)
      from Cons.IH [OF _ this] Cons.prems(1) obtain stop al' where r: "cl_fast_loop rw req is (take_line rw req i al) = Some (stop, al')"
        "case stop of None \<Rightarrow> free_lines (take_line rw req i al) req (filter (ocf_cl_lock_line_needs_lock al req) is) \<and>
           al' = fold (take_line rw req) (filter (ocf_cl_lock_line_needs_lock al req) is) (take_line rw req i al)
         | Some j \<Rightarrow> fast_stop rw req is (take_line rw req i al) j al'"
        unfolding take_line_fields distinct.simps by blast
      moreover have "fast_stop rw req (i # is) al j al'" if st: "fast_stop rw req is (take_line rw req i al) j al'" for j
      proof -
        obtain pre post where p: "is = pre @ j # post"
          "free_lines (take_line rw req i al) req (filter (ocf_cl_lock_line_needs_lock al req) pre)"
          "\<not> free_lines (take_line rw req i al) req (filter (ocf_cl_lock_line_needs_lock al req) (pre @ [j]))"
          "al' = fold (take_line rw req) (filter (ocf_cl_lock_line_needs_lock al req) pre) (take_line rw req i al)"
          using st unfolding fast_stop_def take_line_fields by blast
        show ?thesis unfolding fast_stop_def
          by (rule exI [of _ "i # pre"], rule exI [of _ post])
            (use p True idle free_lines_Cons [of al req i _ rw] in simp)
      qed
      ultimately show ?thesis using True idle free_lines_Cons [of al req i _ rw] by (auto split: option.splits)
    qed
  qed
qed

lemma unlock_uncontended:
  assumes "e < num_entries al" "access_of al e = rw_word rw" "line_waiters al e = []"
  shows "unlock_one rw e al = Some (set_access e 0 al)"
proof -
  have "handed_state 0 e al = set_access e 0 al"
    using assms(3) by (simp add: handed_state_def handed_def Let_def set_access_def)
  with assms show ?thesis
    by (cases rw) (simp_all add: unlock_one_def unlock_wr_eq unlock_rd_eq [where k = 0] rw_word_def)
qed

lemma take_line_undo:
  assumes "may_lock al req i" "access_of al (ocf_cl_lock_line_get_entry al req i) = 0"
  shows "unlock_one rw (ocf_cl_lock_line_get_entry al req i) (take_line rw req i al) =
      Some (ocf_alock_mark_index_locked req i True al)"
    "ocf_alock_mark_index_locked req i False (ocf_alock_mark_index_locked req i True al) = al"
proof -
  let ?e = "ocf_cl_lock_line_get_entry al req i"
  have w: "line_waiters al ?e = []" "?e < num_entries al" "i \<notin> alock_status (reqs al req)"
    using assms by (auto simp: may_lock_def)
  show "unlock_one rw ?e (take_line rw req i al) = Some (ocf_alock_mark_index_locked req i True al)"
  proof (subst unlock_uncontended)
    show "Some (set_access ?e 0 (take_line rw req i al)) = Some (ocf_alock_mark_index_locked req i True al)"
      using assms(2) by (simp add: take_line_def ocf_alock_mark_index_locked_def upd_req_def set_access_def fun_upd_idem)
  qed (use w in simp_all)
  show "ocf_alock_mark_index_locked req i False (ocf_alock_mark_index_locked req i True al) = al"
    using w(3) by (simp add: ocf_alock_mark_index_locked_def upd_req_def)
qed

lemma fold_take_line_fields:
  "ocf_cl_lock_line_get_entry (fold (take_line rw req) xs al) req = ocf_cl_lock_line_get_entry al req"
  "ocf_cl_lock_line_needs_lock (fold (take_line rw req) xs al) req = ocf_cl_lock_line_needs_lock al req"
  "num_entries (fold (take_line rw req) xs al) = num_entries al"
  "alock_status (reqs (fold (take_line rw req) xs al) req) = alock_status (reqs al req) \<union> set xs"
  "e \<notin> ocf_cl_lock_line_get_entry al req ` set xs \<Longrightarrow> access_of (fold (take_line rw req) xs al) e = access_of al e"
  "line_waiters (fold (take_line rw req) xs al) e = line_waiters al e"
  by (induction xs arbitrary: al) auto

text \<open>Unlocking backwards what the loop has locked restores the state.\<close>

lemma unlock_back_restores:
  assumes "distinct is" "\<forall>i\<in>set is. ocf_cl_lock_line_needs_lock al req i \<longrightarrow> may_lock al req i"
    and "free_lines al req (filter (ocf_cl_lock_line_needs_lock al req) is)"
  shows "cl_unlock_back rw req (rev is)
    (fold (take_line rw req) (filter (ocf_cl_lock_line_needs_lock al req) is) al) = Some al"
  using assms
proof (induction "is" rule: rev_induct)
  case (snoc i "is")
  let ?xs = "filter (ocf_cl_lock_line_needs_lock al req) is"
  let ?al = "fold (take_line rw req) ?xs al"
  have IH: "cl_unlock_back rw req (rev is) ?al = Some al"
    using snoc by (auto simp: free_lines_def)
  show ?case
  proof (cases "ocf_cl_lock_line_needs_lock al req i")
    case False
    with IH show ?thesis by (simp add: fold_take_line_fields)
  next
    case True
    let ?e = "ocf_cl_lock_line_get_entry al req i"
    have n: "?e \<notin> ocf_cl_lock_line_get_entry al req ` set ?xs" "access_of al ?e = 0"
      using snoc.prems(3) True by (auto simp: free_lines_def)
    have m: "may_lock al req i" using snoc.prems True by simp
    have ma: "may_lock ?al req i"
      using m n snoc.prems(1) by (auto simp: may_lock_def fold_take_line_fields)
    note u = take_line_undo(1) [OF ma, of rw] take_line_undo(2) [OF ma]
    have "ocf_alock_is_index_locked (take_line rw req i ?al) req i" by (simp add: ocf_alock_is_index_locked_def)
    with True IH n u show ?thesis by (simp add: fold_take_line_fields)
  qed
qed simp

text \<open>The fast path locks all the lines that a request needs when they are idle and distinct, and
  otherwise leaves every lock and every request as it was, because nobody can wait for an idle line.\<close>

theorem fast_path_all_or_nothing:
  fixes al req
  defines "needed \<equiv> filter (ocf_cl_lock_line_needs_lock al req) [0..<r_line_count (reqs al req)]"
  assumes inv: "alock_inv al own"
    and range: "\<forall>i\<in>set needed. ocf_cl_lock_line_get_entry al req i < num_entries al"
    and unlocked: "alock_status (reqs al req) = {}"
  shows "ocf_cl_lock_line_fast req rw al =
    (if free_lines al req needed then Some (True, fold (take_line rw req) needed al) else Some (False, al))"
proof -
  let ?is = "[0..<r_line_count (reqs al req)]"
  have may: "\<forall>i\<in>set ?is. ocf_cl_lock_line_needs_lock al req i \<longrightarrow> may_lock al req i"
    using inv range unlocked by (auto simp: may_lock_def needed_def alock_inv_def line_inv_def)
  obtain stop al' where r: "cl_fast_loop rw req ?is al = Some (stop, al')"
    "case stop of None \<Rightarrow> free_lines al req needed \<and> al' = fold (take_line rw req) needed al
     | Some j \<Rightarrow> fast_stop rw req ?is al j al'"
    using fast_loop_result [OF distinct_upt may, of rw] unfolding needed_def by blast
  show ?thesis
  proof (cases stop)
    case None
    with r show ?thesis by (simp add: ocf_cl_lock_line_fast_def)
  next
    case (Some j)
    let ?f = "filter (ocf_cl_lock_line_needs_lock al req)"
    obtain pre post where p: "?is = pre @ j # post" "free_lines al req (?f pre)"
      "\<not> free_lines al req (?f (pre @ [j]))" "al' = fold (take_line rw req) (?f pre) al"
      using r(2) Some unfolding fast_stop_def by auto
    have nf: "\<not> free_lines al req needed" using p(3) unfolding needed_def p(1) by (auto simp: free_lines_def split: if_splits)
    have len: "length pre < r_line_count (reqs al req)" using arg_cong [OF p(1), of length] by simp
    have j: "j = length pre" using arg_cong [OF p(1), of "\<lambda>xs. xs ! length pre"] len by (simp del: upt_Suc)
    have pre: "pre = [0..<j]" using arg_cong [OF p(1), of "take (length pre)"] len j by simp
    have "alock_status (reqs al' req) = set (?f pre)" by (simp add: p(4) fold_take_line_fields unlocked)
    then have nl: "\<not> ocf_alock_is_index_locked al' req j" by (simp add: ocf_alock_is_index_locked_def pre)
    have "cl_unlock_back rw req (rev [0..<Suc j]) al' = cl_unlock_back rw req (rev pre) al'"
      using nl by (simp add: pre)
    also have "\<dots> = Some al"
      unfolding p(4)
    proof (rule unlock_back_restores)
      show "distinct pre" by (simp add: pre)
      show "\<forall>i\<in>set pre. ocf_cl_lock_line_needs_lock al req i \<longrightarrow> may_lock al req i" using may p(1) by simp
    qed (rule p(2))
    finally have "ocf_cl_lock_line_fast req rw al = Some (False, al)"
      using r(1) Some by (simp add: ocf_cl_lock_line_fast_def del: upt_Suc)
    with nf show ?thesis by simp
  qed
qed

text \<open>Two lines and one waiters list; request 0 and 1 need line 0 and line 1.\<close>

definition demo_map :: "nat \<Rightarrow> ocf_map_info" where
  "demo_map i = \<lparr>m_hash = 0, coll_idx = i, m_core_line = 0, m_core_id = 0, m_status = LOOKUP_HIT,
     m_invalid = False, re_part = False, m_flush = False, start_flush = 0, stop_flush = 0\<rparr>"

definition demo_alock :: ocf_alock where
  "demo_alock = \<lparr>num_entries = 2, num_waitlists = 1, access_of = \<lambda>_. 0, waiters_lsts = \<lambda>_. [], waiting = 0,
     reqs = \<lambda>_. \<lparr>lock_remaining = 3, alock_status = {}, alock_rw = OCF_READ, is_deferred = False,
       r_line_count = 2, r_map = demo_map\<rparr>, resumed = []\<rparr>"

lemma demo_alock_idle: "alock_idle demo_alock"
  by (simp add: alock_idle_def demo_alock_def line_waiters_def)

text \<open>Request 0 writes line 0, request 1 waits to read it.\<close>

definition demo_held :: ocf_alock where
  "demo_held = grant 0 0 (set_access 0 255 demo_alock)"

definition demo_waiting :: ocf_alock where
  "demo_waiting = ocf_alock_waitlist_add 0 \<lparr>w_entry = 0, w_idx = 0, w_req = 1, w_rw = OCF_READ\<rparr> demo_held"

abbreviation demo_own :: "nat \<Rightarrow> token multiset" where
  "demo_own \<equiv> (\<lambda>_. {#})(0 := {#(0, 0, OCF_WRITE)#})"

lemma demo_step: "alock_step\<^sup>*\<^sup>* (demo_alock, \<lambda>_. {#}) (demo_held, demo_own)"
proof -
  have l0: "try_one OCF_WRITE 0 demo_alock = Some (True, set_access 0 255 demo_alock)"
    by (simp add: demo_alock_def try_one_def ocf_cache_line_try_lock_wr_def ocf_alock_trylock_entry_wr_def
        access_ptr_def Let_def)
  have "0 < num_entries demo_alock" "demand demo_alock (\<lambda>_. {#}) 0 < 254"
    by (simp_all add: demo_alock_def demand_def line_waiters_def)
  from try_step [OF this l0, of 0 0] grant_step [of "set_access 0 255 demo_alock" demo_own 0 0] show ?thesis
    unfolding demo_held_def by (simp add: converse_rtranclp_into_rtranclp)
qed

lemma demo_reach: "alock_step\<^sup>*\<^sup>* (demo_alock, \<lambda>_. {#}) (demo_waiting, demo_own)"
proof -
  have l1: "lock_section OCF_READ 0 1 0 demo_held = Some (True, demo_waiting)"
    by (simp add: demo_waiting_def demo_held_def demo_alock_def lock_section_def lock_one_rd_section_def
        ocf_alock_trylock_entry_rd_def access_ptr_def Let_def waitlist_empty_iff)
  have "0 < num_entries demo_held" "demand demo_held demo_own 0 < 254"
    by (simp_all add: demo_held_def demand_def) (simp_all add: demo_alock_def line_waiters_def)
  from section_step [OF this l1] have "alock_step (demo_held, demo_own) (demo_waiting, demo_own)" by simp
  with demo_step show ?thesis by (rule rtranclp.rtrancl_into_rtrancl)
qed

lemma demo_waiting_simps:
  "num_entries demo_waiting = 2" "access_of demo_waiting 0 = 255"
  "line_waiters demo_waiting 0 = [\<lparr>w_entry = 0, w_idx = 0, w_req = 1, w_rw = OCF_READ\<rparr>]"
  by (simp_all add: demo_waiting_def demo_held_def demo_alock_def line_waiters_add)
     (simp add: line_waiters_def)

theorem alock_safe_witness:
  "alock_idle demo_alock \<and> alock_step\<^sup>*\<^sup>* (demo_alock, \<lambda>_. {#}) (demo_waiting, demo_own) \<and>
   line_waiters demo_waiting 0 \<noteq> [] \<and> (\<exists>al'. unlock_one OCF_WRITE 0 demo_waiting = Some al')"
  using alock_safe [OF demo_alock_idle demo_reach, of 0 0 0 "(0, 0, OCF_WRITE)"] demo_reach demo_alock_idle
  by (simp add: demo_waiting_simps)

theorem unlock_hands_over_witness:
  "\<exists>al'. unlock_one OCF_WRITE 0 demo_waiting = Some al' \<and> line_waiters al' 0 = []"
proof -
  have "alock_inv demo_waiting demo_own" by (rule reachable_inv [OF demo_alock_idle demo_reach])
  from unlock_hands_over [OF this, of 0 0 0 OCF_WRITE] show ?thesis
    by (auto simp: demo_waiting_simps handed_def)
qed

theorem fast_path_all_or_nothing_witness:
  "ocf_cl_lock_line_fast 1 OCF_READ demo_held = Some (False, demo_held) \<and>
   (\<exists>al'. ocf_cl_lock_line_fast 1 OCF_READ demo_alock = Some (True, al'))"
proof -
  have h: "alock_inv demo_held demo_own" by (rule reachable_inv [OF demo_alock_idle demo_step])
  have i: "alock_inv demo_alock (\<lambda>_. {#})" by (rule reachable_inv [OF demo_alock_idle]) simp
  note d = demo_alock_def demo_map_def free_lines_def ocf_cl_lock_line_needs_lock_def ocf_cl_lock_line_get_entry_def
    demo_held_def grant_def ocf_alock_entry_locked_def ocf_alock_mark_index_locked_def upd_req_def set_access_def Let_def
    numeral_2_eq_2
  have "ocf_cl_lock_line_fast 1 OCF_READ demo_held = Some (False, demo_held)"
    using fast_path_all_or_nothing [OF h, of 1 OCF_READ] by (simp add: d)
  moreover have "\<exists>al'. ocf_cl_lock_line_fast 1 OCF_READ demo_alock = Some (True, al')"
    using fast_path_all_or_nothing [OF i, of 1 OCF_READ] by (simp add: d)
  ultimately show ?thesis by blast
qed

end
