(* ===== verification/Hash_Lock.thy ===== *)
theory Hash_Lock
  imports Collision
begin

section \<open>Hash bucket locks\<close>

text \<open>
  Model of the hash bucket part of \<open>src/concurrency/ocf_metadata_concurrency.c\<close>. The lock of a
  bucket is two bit fields of its hash entry: the number of readers, of two bits, and the writer
  bit. A thread reads the entry and replaces it by compare and exchange; reading and exchanging
  are separate steps here, so that every interleaving of threads is a run of the model. The
  iteration over the buckets of a request and the range test are the macros of that file.
\<close>

subsection \<open>The lock word\<close>

datatype lock_rw = OCF_METADATA_RD | OCF_METADATA_WR

text \<open>The new entry of a lock attempt, \<open>None\<close> for \<open>goto next\<close>; the reader field wraps at 4.\<close>

definition hash_lock_new :: "lock_rw \<Rightarrow> ocf_hash_entry \<Rightarrow> ocf_hash_entry option" where
  "hash_lock_new rw cur =
     (if h_wr cur then None
      else case rw of
        OCF_METADATA_RD \<Rightarrow> (let rd = (h_rd cur + 1) mod 4 in if rd = 0 then None else Some (cur\<lparr>h_rd := rd\<rparr>))
      | OCF_METADATA_WR \<Rightarrow> (if h_rd cur \<noteq> 0 then None else Some (cur\<lparr>h_wr := True\<rparr>)))"

definition hash_unlock_new :: "ocf_hash_entry \<Rightarrow> ocf_hash_entry" where
  "hash_unlock_new cur = (if h_wr cur then cur\<lparr>h_wr := False\<rparr> else cur\<lparr>h_rd := (h_rd cur + 3) mod 4\<rparr>)"

text \<open>
  Without a concurrent thread the compare and exchange succeeds at once: the result of a try lock is
  0 for success, 1 for failure, and a lock that is not available is waited for, which is no result.
\<close>

definition hash_lock_lock ::
  "'z coll_state_scheme \<Rightarrow> nat \<Rightarrow> bool \<Rightarrow> lock_rw \<Rightarrow> (nat \<times> 'z coll_state_scheme) option" where
  "hash_lock_lock s i try rw = do {
     ocf_metadata_get_hash_ptr s i;
     case hash_lock_new rw (hash_table s i) of
       Some e \<Rightarrow> Some (0, s\<lparr>hash_table := (hash_table s)(i := e)\<rparr>)
     | None \<Rightarrow> if try then Some (1, s) else None }"

definition hash_lock_unlock ::
  "'z coll_state_scheme \<Rightarrow> nat \<Rightarrow> lock_rw \<Rightarrow> 'z coll_state_scheme option" where
  "hash_lock_unlock s i rw = do {
     ocf_metadata_get_hash_ptr s i;
     Some (s\<lparr>hash_table := (hash_table s)(i := hash_unlock_new (hash_table s i))\<rparr>) }"

definition ocf_hb_id_naked_lock ::
  "'z coll_state_scheme \<Rightarrow> nat \<Rightarrow> lock_rw \<Rightarrow> 'z coll_state_scheme option" where
  "ocf_hb_id_naked_lock s hash rw = do {
     bug_on (hash \<ge> hash_table_entries s);
     map_option snd (hash_lock_lock s hash False rw) }"

definition ocf_hb_id_naked_unlock ::
  "'z coll_state_scheme \<Rightarrow> nat \<Rightarrow> lock_rw \<Rightarrow> 'z coll_state_scheme option" where
  "ocf_hb_id_naked_unlock s hash rw = do {
     bug_on (hash \<ge> hash_table_entries s);
     hash_lock_unlock s hash rw }"

definition ocf_hb_id_naked_trylock ::
  "'z coll_state_scheme \<Rightarrow> nat \<Rightarrow> lock_rw \<Rightarrow> (nat \<times> 'z coll_state_scheme) option" where
  "ocf_hb_id_naked_trylock s hash rw = do {
     bug_on (hash \<ge> hash_table_entries s);
     hash_lock_lock s hash True rw }"

definition ocf_hb_cline_naked_trylock ::
  "lock_rw \<Rightarrow> 'z coll_state_scheme \<Rightarrow> nat \<Rightarrow> nat \<Rightarrow> (bool \<times> 'z coll_state_scheme) option" where
  "ocf_hb_cline_naked_trylock rw s cid cl = do {
     let hash = ocf_metadata_hash_func s cl cid;
     (r, s) \<leftarrow> ocf_hb_id_naked_trylock s hash rw;
     Some (r = 0, s) }"

definition ocf_hb_cline_naked_unlock ::
  "lock_rw \<Rightarrow> 'z coll_state_scheme \<Rightarrow> nat \<Rightarrow> nat \<Rightarrow> 'z coll_state_scheme option" where
  "ocf_hb_cline_naked_unlock rw s cid cl =
     ocf_hb_id_naked_unlock s (ocf_metadata_hash_func s cl cid) rw"

subsection \<open>The steps of concurrent threads on one bucket\<close>

text \<open>
  \<open>Locking rw try cur\<close>: the thread has read \<open>cur\<close> in \<open>hash_lock_lock\<close>; \<open>Unlocking rw cur\<close>: the same in
  \<open>hash_lock_unlock\<close>; \<open>Held rw\<close>: between the two functions.
\<close>

datatype lock_pc =
  Idle
| Locking lock_rw bool ocf_hash_entry
| Held lock_rw
| Unlocking lock_rw ocf_hash_entry

record bucket =
  b_entry :: ocf_hash_entry
  b_pc :: "nat \<Rightarrow> lock_pc"

inductive bucket_step :: "bucket \<Rightarrow> bucket \<Rightarrow> bool" where
  lock_call: "b_pc b t = Idle \<Longrightarrow>
    bucket_step b (b\<lparr>b_pc := (b_pc b)(t := Locking rw try (b_entry b))\<rparr>)"
| lock_cas: "b_pc b t = Locking rw try cur \<Longrightarrow> hash_lock_new rw cur = Some new \<Longrightarrow> b_entry b = cur \<Longrightarrow>
    bucket_step b (b\<lparr>b_entry := new, b_pc := (b_pc b)(t := Held rw)\<rparr>)"
| lock_retry: "b_pc b t = Locking rw False cur \<Longrightarrow> hash_lock_new rw cur = None \<or> b_entry b \<noteq> cur \<Longrightarrow>
    bucket_step b (b\<lparr>b_pc := (b_pc b)(t := Locking rw False (b_entry b))\<rparr>)"
| lock_fail: "b_pc b t = Locking rw True cur \<Longrightarrow> hash_lock_new rw cur = None \<or> b_entry b \<noteq> cur \<Longrightarrow>
    bucket_step b (b\<lparr>b_pc := (b_pc b)(t := Idle)\<rparr>)"
| set_line: "b_pc b t = Held OCF_METADATA_WR \<Longrightarrow>
    bucket_step b (b\<lparr>b_entry := (b_entry b)\<lparr>h_line := l\<rparr>\<rparr>)"
| unlock_call: "b_pc b t = Held rw \<Longrightarrow>
    bucket_step b (b\<lparr>b_pc := (b_pc b)(t := Unlocking rw (b_entry b))\<rparr>)"
| unlock_set: "b_pc b t = Unlocking rw cur \<Longrightarrow> h_wr cur \<Longrightarrow>
    bucket_step b (b\<lparr>b_entry := hash_unlock_new cur, b_pc := (b_pc b)(t := Idle)\<rparr>)"
| unlock_cas: "b_pc b t = Unlocking rw cur \<Longrightarrow> \<not> h_wr cur \<Longrightarrow> b_entry b = cur \<Longrightarrow>
    bucket_step b (b\<lparr>b_entry := hash_unlock_new cur, b_pc := (b_pc b)(t := Idle)\<rparr>)"
| unlock_retry: "b_pc b t = Unlocking rw cur \<Longrightarrow> \<not> h_wr cur \<Longrightarrow> b_entry b \<noteq> cur \<Longrightarrow>
    bucket_step b (b\<lparr>b_pc := (b_pc b)(t := Unlocking rw (b_entry b))\<rparr>)"

fun holds :: "lock_rw \<Rightarrow> lock_pc \<Rightarrow> bool" where
  "holds rw (Held rw') \<longleftrightarrow> rw = rw'"
| "holds rw (Unlocking rw' cur) \<longleftrightarrow> rw = rw'"
| "holds rw Idle \<longleftrightarrow> False"
| "holds rw (Locking rw' try cur) \<longleftrightarrow> False"

definition bucket_free :: "bucket \<Rightarrow> bool" where
  "bucket_free b \<longleftrightarrow> h_rd (b_entry b) = 0 \<and> \<not> h_wr (b_entry b) \<and> (\<forall>t. b_pc b t = Idle)"

subsection \<open>The buckets of a request\<close>

text \<open>
  A request maps consecutive core lines; its map entries hold their hashes. The fields are 32 bits
  wide; the only sum that could wrap is the one of \<open>_IS_MONOTONIC\<close>, since hashes and their number are
  below \<open>2 ^ 31\<close>.
\<close>

record hb_req =
  num_hash_entries :: nat
  req_hash :: "nat \<Rightarrow> nat"
  req_line_count :: nat

definition IS_MONOTONIC :: "hb_req \<Rightarrow> bool" where
  "IS_MONOTONIC req \<longleftrightarrow> (req_hash req 0 + req_line_count req) mod 2 ^ 32 \<le> num_hash_entries req"

definition MIN_HASH :: "hb_req \<Rightarrow> nat" where
  "MIN_HASH req = (if IS_MONOTONIC req then req_hash req 0 else 0)"

definition MAX_HASH :: "hb_req \<Rightarrow> nat" where
  "MAX_HASH req = (if IS_MONOTONIC req then req_hash req (req_line_count req - 1) else num_hash_entries req - 1)"

definition HASH_COUNT :: "hb_req \<Rightarrow> nat" where
  "HASH_COUNT req = min (req_line_count req) (num_hash_entries req)"

definition HAS_GAP :: "hb_req \<Rightarrow> bool" where
  "HAS_GAP req \<longleftrightarrow> MAX_HASH req - MIN_HASH req + 1 > HASH_COUNT req"

definition GAP_VAL :: "hb_req \<Rightarrow> nat" where
  "GAP_VAL req = (MAX_HASH req - MIN_HASH req + 1) - HASH_COUNT req"

definition GAP_START :: "hb_req \<Rightarrow> nat" where
  "GAP_START req = req_hash req (req_line_count req - 1)"

definition HASH_NEXT :: "hb_req \<Rightarrow> nat \<Rightarrow> nat" where
  "HASH_NEXT req h = h + 1 + (if HAS_GAP req \<and> h = GAP_START req then GAP_VAL req else 0)"

function req_hash_asc_from :: "hb_req \<Rightarrow> nat \<Rightarrow> nat list" where
  "req_hash_asc_from req h =
     (if h \<le> MAX_HASH req then h # req_hash_asc_from req (HASH_NEXT req h) else [])"
  by pat_completeness auto

termination
  by (relation "measure (\<lambda>(req, h). Suc (MAX_HASH req) - h)") (auto simp: HASH_NEXT_def)

declare req_hash_asc_from.simps [simp del]

definition for_each_req_hash_asc :: "hb_req \<Rightarrow> nat list" where
  "for_each_req_hash_asc req = req_hash_asc_from req (MIN_HASH req)"

text \<open>\<open>ocf_req_hash_in_range\<close>, given the hash of the core line it is asked about.\<close>

definition ocf_req_hash_in_range :: "hb_req \<Rightarrow> 'z coll_state_scheme \<Rightarrow> nat \<Rightarrow> nat \<Rightarrow> bool" where
  "ocf_req_hash_in_range req s cid cl =
     (let hash = ocf_metadata_hash_func s cl cid in
      if \<not> HAS_GAP req then hash \<ge> MIN_HASH req \<and> hash \<le> MAX_HASH req
      else (hash \<ge> MIN_HASH req \<and> hash \<le> GAP_START req) \<or>
           (hash > GAP_START req + GAP_VAL req \<and> hash \<le> MAX_HASH req))"

definition ocf_hb_req_lock ::
  "lock_rw \<Rightarrow> hb_req \<Rightarrow> 'z coll_state_scheme \<Rightarrow> 'z coll_state_scheme option" where
  "ocf_hb_req_lock rw req s =
     each_entry (\<lambda>hash s. ocf_hb_id_naked_lock s hash rw) (for_each_req_hash_asc req) s"

definition ocf_hb_req_unlock ::
  "lock_rw \<Rightarrow> hb_req \<Rightarrow> 'z coll_state_scheme \<Rightarrow> 'z coll_state_scheme option" where
  "ocf_hb_req_unlock rw req s =
     each_entry (\<lambda>hash s. ocf_hb_id_naked_unlock s hash rw) (for_each_req_hash_asc req) s"

definition ocf_hb_req_prot_lock_upgrade ::
  "hb_req \<Rightarrow> 'z coll_state_scheme \<Rightarrow> 'z coll_state_scheme option" where
  "ocf_hb_req_prot_lock_upgrade req s = do {
     s \<leftarrow> ocf_hb_req_unlock OCF_METADATA_RD req s;
     ocf_hb_req_lock OCF_METADATA_WR req s }"

subsection \<open>Mutual exclusion on a bucket\<close>

definition holders :: "lock_rw \<Rightarrow> bucket \<Rightarrow> nat set" where
  "holders rw b = {t. holds rw (b_pc b t)}"

definition bucket_inv :: "bucket \<Rightarrow> bool" where
  "bucket_inv b \<longleftrightarrow> finite (holders OCF_METADATA_RD b) \<and>
     h_rd (b_entry b) = card (holders OCF_METADATA_RD b) \<and> h_rd (b_entry b) < 4 \<and>
     (\<exists>T. holders OCF_METADATA_WR b \<subseteq> {T}) \<and> (h_wr (b_entry b) \<longleftrightarrow> holders OCF_METADATA_WR b \<noteq> {}) \<and>
     (h_wr (b_entry b) \<longrightarrow> holders OCF_METADATA_RD b = {}) \<and>
     (\<forall>t cur. b_pc b t = Unlocking OCF_METADATA_WR cur \<longrightarrow> cur = b_entry b) \<and>
     (\<forall>t cur. b_pc b t = Unlocking OCF_METADATA_RD cur \<longrightarrow> \<not> h_wr cur)"

lemma holders_upd [simp]:
  "holders rw (b\<lparr>b_pc := (b_pc b)(t := p)\<rparr>) = (if holds rw p then insert t (holders rw b) else holders rw b - {t})"
  "holders rw (b\<lparr>b_entry := e, b_pc := (b_pc b)(t := p)\<rparr>) =
     (if holds rw p then insert t (holders rw b) else holders rw b - {t})"
  "holders rw (b\<lparr>b_entry := e\<rparr>) = holders rw b"
  by (auto simp: holders_def)

lemma holdersI: "holds rw (b_pc b t) \<Longrightarrow> t \<in> holders rw b"
  by (simp add: holders_def)

lemma holdersD: "\<not> holds rw (b_pc b t) \<Longrightarrow> t \<notin> holders rw b"
  by (simp add: holders_def)

inductive_cases bucket_stepE: "bucket_step b b'"

lemma bucket_step_inv: "bucket_step b b' \<Longrightarrow> bucket_inv b \<Longrightarrow> bucket_inv b'"
proof (induction rule: bucket_step.induct)
  case (lock_call b t rw tr)
  then have "t \<notin> holders OCF_METADATA_RD b" "t \<notin> holders OCF_METADATA_WR b" by (simp_all add: holders_def)
  with lock_call show ?case by (auto simp: bucket_inv_def)
next
  case (lock_cas b t rw tr cur new)
  then have n: "t \<notin> holders OCF_METADATA_RD b" "t \<notin> holders OCF_METADATA_WR b" by (simp_all add: holders_def)
  have nw: "\<not> h_wr cur" using lock_cas(2) by (auto simp: hash_lock_new_def split: if_splits)
  with lock_cas have W: "holders OCF_METADATA_WR b = {}" by (simp add: bucket_inv_def)
  then have noW: "b_pc b u \<noteq> Unlocking OCF_METADATA_WR c" for u c using holdersI [of OCF_METADATA_WR b u] by auto
  show ?case
  proof (cases rw)
    case OCF_METADATA_RD
    with lock_cas(2) nw have "new = cur\<lparr>h_rd := Suc (h_rd cur) mod 4\<rparr>" "Suc (h_rd cur) mod 4 \<noteq> 0"
      by (auto simp: hash_lock_new_def Let_def split: if_splits)
    moreover have "h_rd cur < 4" using lock_cas by (simp add: bucket_inv_def)
    ultimately have "new = cur\<lparr>h_rd := Suc (h_rd cur)\<rparr>" "Suc (h_rd cur) < 4"
      by (auto simp: mod_Suc split: if_splits)
    then show ?thesis using lock_cas n W nw noW OCF_METADATA_RD by (auto simp: bucket_inv_def)
  next
    case OCF_METADATA_WR
    with lock_cas(2) nw have "new = cur\<lparr>h_wr := True\<rparr>" "h_rd cur = 0"
      by (auto simp: hash_lock_new_def split: if_splits)
    then show ?thesis using lock_cas n W noW OCF_METADATA_WR by (auto simp: bucket_inv_def)
  qed
next
  case (lock_retry b t rw cur)
  then have "t \<notin> holders OCF_METADATA_RD b" "t \<notin> holders OCF_METADATA_WR b" by (simp_all add: holders_def)
  with lock_retry show ?case by (auto simp: bucket_inv_def)
next
  case (lock_fail b t rw cur)
  then have "t \<notin> holders OCF_METADATA_RD b" "t \<notin> holders OCF_METADATA_WR b" by (simp_all add: holders_def)
  with lock_fail show ?case by (auto simp: bucket_inv_def)
next
  case (set_line b t l)
  then have t: "t \<in> holders OCF_METADATA_WR b" by (simp add: holders_def)
  have "b_pc b u \<noteq> Unlocking OCF_METADATA_WR c" for u c
  proof
    assume u: "b_pc b u = Unlocking OCF_METADATA_WR c"
    then have "u \<in> holders OCF_METADATA_WR b" by (simp add: holders_def)
    with t set_line(2) have "u = t" by (auto simp: bucket_inv_def)
    with u set_line(1) show False by simp
  qed
  with set_line t show ?case by (auto simp: bucket_inv_def)
next
  case (unlock_call b t rw)
  then have t: "t \<in> holders rw b" by (simp add: holders_def)
  have "rw = OCF_METADATA_RD \<Longrightarrow> \<not> h_wr (b_entry b)" using t unlock_call(2) by (auto simp: bucket_inv_def)
  moreover have "insert t (holders rw b) = holders rw b" using t by auto
  moreover have "rw' \<noteq> rw \<Longrightarrow> t \<notin> holders rw' b" for rw' using unlock_call(1) by (simp add: holders_def)
  ultimately show ?case using unlock_call by (cases rw) (auto simp: bucket_inv_def)
next
  case (unlock_set b t rw cur)
  then have t: "t \<in> holders rw b" by (simp add: holders_def)
  from unlock_set have rw: "rw = OCF_METADATA_WR" by (cases rw) (auto simp: bucket_inv_def)
  with unlock_set have cur: "cur = b_entry b" by (auto simp: bucket_inv_def)
  have "holders OCF_METADATA_WR b = {t}" using t rw unlock_set(3) by (auto simp: bucket_inv_def)
  moreover have "b_pc b u \<noteq> Unlocking OCF_METADATA_WR c" if "u \<noteq> t" for u c
  proof
    assume "b_pc b u = Unlocking OCF_METADATA_WR c"
    then have "u \<in> holders OCF_METADATA_WR b" by (intro holdersI) simp
    with \<open>holders OCF_METADATA_WR b = {t}\<close> that show False by simp
  qed
  moreover have "t \<notin> holders OCF_METADATA_RD b" using unlock_set(1) rw by (simp add: holders_def)
  ultimately show ?case using unlock_set cur by (auto simp: bucket_inv_def hash_unlock_new_def)
next
  case (unlock_cas b t rw cur)
  then have t: "t \<in> holders rw b" by (simp add: holders_def)
  have noW: "holders OCF_METADATA_WR b = {}" using unlock_cas by (simp add: bucket_inv_def)
  with t have rw: "rw = OCF_METADATA_RD" by (cases rw) auto
  have c: "0 < card (holders OCF_METADATA_RD b)" "finite (holders OCF_METADATA_RD b)"
    using t rw unlock_cas(4) by (auto simp: bucket_inv_def card_gt_0_iff)
  have "(h_rd cur + 3) mod 4 = h_rd cur - 1"
  proof -
    have "h_rd cur = card (holders OCF_METADATA_RD b)" "h_rd cur < 4" using unlock_cas by (auto simp: bucket_inv_def)
    with c(1) have "h_rd cur = 1 \<or> h_rd cur = 2 \<or> h_rd cur = 3" by linarith
    then show ?thesis by auto
  qed
  moreover have "b_pc b u \<noteq> Unlocking OCF_METADATA_WR c" for u c
    using noW holdersI [of OCF_METADATA_WR b u] by auto
  ultimately show ?case
    using unlock_cas c t rw noW by (auto simp: bucket_inv_def hash_unlock_new_def card_Diff_singleton)
next
  case (unlock_retry b t rw cur)
  then have t: "t \<in> holders rw b" by (simp add: holders_def)
  have rw: "rw = OCF_METADATA_RD"
  proof (cases rw)
    case OCF_METADATA_WR
    with unlock_retry show ?thesis by (auto simp: bucket_inv_def)
  qed
  with t unlock_retry(4) have "\<not> h_wr (b_entry b)" by (auto simp: bucket_inv_def)
  moreover have "insert t (holders OCF_METADATA_RD b) = holders OCF_METADATA_RD b" using t rw by auto
  moreover have "t \<notin> holders OCF_METADATA_WR b" using unlock_retry(1) rw by (simp add: holders_def)
  ultimately show ?case using unlock_retry rw by (auto simp: bucket_inv_def)
qed

lemma bucket_reach_inv: "bucket_step\<^sup>*\<^sup>* b b' \<Longrightarrow> bucket_inv b \<Longrightarrow> bucket_inv b'"
  by (induction rule: rtranclp_induct) (auto intro: bucket_step_inv)

lemma bucket_free_inv: "bucket_free b \<Longrightarrow> bucket_inv b"
  by (simp add: bucket_free_def bucket_inv_def holders_def)


lemma reader_keeps_line:
  assumes "bucket_inv b" "bucket_step b b'" "holds OCF_METADATA_RD (b_pc b u)"
  shows "h_line (b_entry b') = h_line (b_entry b)"
proof -
  have "u \<in> holders OCF_METADATA_RD b" using assms(3) by (rule holdersI)
  then have nw: "\<not> h_wr (b_entry b)" "holders OCF_METADATA_WR b = {}" using assms(1) by (auto simp: bucket_inv_def)
  have no: "b_pc b t \<noteq> Held OCF_METADATA_WR" for t
    using nw(2) holdersI [of OCF_METADATA_WR b t] by auto
  have "\<not> h_wr cur" if "b_pc b t = Unlocking rw cur" for t rw cur
  proof (cases rw)
    case OCF_METADATA_RD
    with that assms(1) show ?thesis by (auto simp: bucket_inv_def)
  next
    case OCF_METADATA_WR
    with that nw(2) holdersI [of OCF_METADATA_WR b t] show ?thesis by simp
  qed
  with assms(2) no show ?thesis
    by (cases rule: bucket_stepE)
      (auto simp: hash_lock_new_def hash_unlock_new_def Let_def split: if_splits lock_rw.splits)
qed

subsection \<open>Every bucket of a request once, in ascending order\<close>

lemma asc_from_upt:
  assumes "\<And>h. x \<le> h \<Longrightarrow> h \<le> MAX_HASH req \<Longrightarrow> HASH_NEXT req h = Suc h"
  shows "req_hash_asc_from req x = [x..<Suc (MAX_HASH req)]"
  using assms
proof (induction "Suc (MAX_HASH req) - x" arbitrary: x)
  case 0
  then show ?case by (subst req_hash_asc_from.simps) simp
next
  case (Suc d)
  then have x: "x \<le> MAX_HASH req" by simp
  have "req_hash_asc_from req x = x # req_hash_asc_from req (Suc x)"
    using x Suc.prems [of x] by (subst req_hash_asc_from.simps) simp
  also have "req_hash_asc_from req (Suc x) = [Suc x..<Suc (MAX_HASH req)]"
    using Suc.hyps(2) by (intro Suc.hyps(1)) (auto intro: Suc.prems)
  finally show ?case using x by (simp add: upt_rec)
qed

lemma asc_from_gap:
  assumes "HAS_GAP req" "x \<le> GAP_START req" "GAP_START req + GAP_VAL req \<le> MAX_HASH req"
  shows "req_hash_asc_from req x =
    [x..<Suc (GAP_START req)] @ [Suc (GAP_START req + GAP_VAL req)..<Suc (MAX_HASH req)]"
  using assms(2)
proof (induction "GAP_START req - x" arbitrary: x)
  case 0
  then have x: "x = GAP_START req" by simp
  have "req_hash_asc_from req x = x # req_hash_asc_from req (Suc (GAP_START req + GAP_VAL req))"
    using x assms by (subst req_hash_asc_from.simps) (simp add: HASH_NEXT_def)
  also have "req_hash_asc_from req (Suc (GAP_START req + GAP_VAL req)) =
      [Suc (GAP_START req + GAP_VAL req)..<Suc (MAX_HASH req)]"
    by (intro asc_from_upt) (simp add: HASH_NEXT_def)
  finally show ?case using x by simp
next
  case (Suc d)
  then have x: "x < GAP_START req" by simp
  have "req_hash_asc_from req x = x # req_hash_asc_from req (Suc x)"
    using x assms(3) by (subst req_hash_asc_from.simps) (simp add: HASH_NEXT_def)
  also have "req_hash_asc_from req (Suc x) =
      [Suc x..<Suc (GAP_START req)] @ [Suc (GAP_START req + GAP_VAL req)..<Suc (MAX_HASH req)]"
    using Suc.hyps(2) x by (intro Suc.hyps(1)) simp_all
  finally show ?case using x by (simp add: upt_rec [of x])
qed

definition hb_req_ok :: "hb_req \<Rightarrow> bool" where
  "hb_req_ok req \<longleftrightarrow> 0 < req_line_count req \<and> req_line_count req < 2 ^ 31 \<and>
     0 < num_hash_entries req \<and> num_hash_entries req < 2 ^ 31 \<and> req_hash req 0 < num_hash_entries req \<and>
     (\<forall>i < req_line_count req. req_hash req i = (req_hash req 0 + i) mod num_hash_entries req)"

definition req_buckets :: "hb_req \<Rightarrow> nat set" where
  "req_buckets req = req_hash req ` {..<req_line_count req}"

lemma image_add_lessThan_offset: "(\<lambda>i. h + i) ` {..<c} = {h..<h + c :: nat}"
  by (metis add.commute image_add_atLeastLessThan lessThan_atLeast0 add_0_right)

lemma residues_image:
  fixes h n c :: nat
  assumes "h < n" "h + c \<le> 2 * n" "n < h + c" "c < n"
  shows "(\<lambda>i. (h + i) mod n) ` {..<c} = {h..<n} \<union> {..<h + c - n}"
proof (intro set_eqI iffI)
  fix x assume "x \<in> (\<lambda>i. (h + i) mod n) ` {..<c}"
  then obtain i where i: "i < c" "x = (h + i) mod n" by auto
  show "x \<in> {h..<n} \<union> {..<h + c - n}"
  proof (cases "h + i < n")
    case False
    then have "x = h + i - n" using i assms by (simp add: mod_if)
    with i False assms show ?thesis by auto
  qed (use i in auto)
next
  fix x assume "x \<in> {h..<n} \<union> {..<h + c - n}"
  then consider "h \<le> x" "x < n" | "x < h + c - n" by auto
  then show "x \<in> (\<lambda>i. (h + i) mod n) ` {..<c}"
  proof cases
    case 1
    then have "(h + (x - h)) mod n = x" "x - h < c" using assms by auto
    then show ?thesis by (metis image_eqI lessThan_iff)
  next
    case 2
    then have "(h + (x + n - h)) mod n = x" "x + n - h < c" using assms by auto
    then show ?thesis by (metis image_eqI lessThan_iff)
  qed
qed

lemma residues_all:
  fixes h n c :: nat
  assumes "0 < n" "n \<le> c"
  shows "(\<lambda>i. (h + i) mod n) ` {..<c} = {..<n}"
proof (intro set_eqI iffI)
  fix x assume x: "x \<in> {..<n}"
  let ?i = "(x + (n - h mod n)) mod n"
  have "(h + ?i) mod n = (h mod n + (x + (n - h mod n))) mod n" by (simp add: mod_add_eq mod_add_left_eq mod_add_right_eq)
  also have "h mod n + (x + (n - h mod n)) = x + n" using assms(1) mod_less_divisor [OF assms(1), of h] by simp
  finally have "(h + ?i) mod n = x" using x by simp
  moreover have "?i < c" using mod_less_divisor [OF assms(1)] assms(2) by (rule order.strict_trans2)
  ultimately show "x \<in> (\<lambda>i. (h + i) mod n) ` {..<c}" by (metis image_eqI lessThan_iff)
qed (use assms in auto)

lemma req_hash_asc_cases:
  assumes ok: "hb_req_ok req"
  obtains (plain) "\<not> HAS_GAP req" "MIN_HASH req \<le> MAX_HASH req"
      "for_each_req_hash_asc req = [MIN_HASH req..<Suc (MAX_HASH req)]"
      "req_buckets req = {MIN_HASH req..MAX_HASH req}"
  | (gap) "HAS_GAP req" "MIN_HASH req = 0" "GAP_START req + GAP_VAL req < MAX_HASH req"
      "for_each_req_hash_asc req = [0..<Suc (GAP_START req)] @ [Suc (GAP_START req + GAP_VAL req)..<Suc (MAX_HASH req)]"
      "req_buckets req = {..GAP_START req} \<union> {Suc (GAP_START req + GAP_VAL req)..MAX_HASH req}"
proof -
  let ?n = "num_hash_entries req" and ?c = "req_line_count req" and ?h = "req_hash req 0"
  have b: "0 < ?c" "?c < 2 ^ 31" "0 < ?n" "?n < 2 ^ 31" "?h < ?n"
    using ok unfolding hb_req_ok_def by blast+
  have H: "req_hash req i = (?h + i) mod ?n" if "i < ?c" for i
    using ok that unfolding hb_req_ok_def by blast
  have B: "req_buckets req = (\<lambda>i. (?h + i) mod ?n) ` {..<?c}"
    unfolding req_buckets_def by (rule image_cong [OF refl]) (rule H, simp)
  have m: "IS_MONOTONIC req \<longleftrightarrow> ?h + ?c \<le> ?n"
  proof -
    have "?h + ?c < 2 ^ 32" using b by simp
    then show ?thesis by (simp add: IS_MONOTONIC_def)
  qed
  consider "?h + ?c \<le> ?n" | "?n < ?h + ?c" "?n \<le> ?c" | "?n < ?h + ?c" "?c < ?n" by linarith
  then show thesis
  proof cases
    case 1
    have mx: "MAX_HASH req = ?h + ?c - 1" "MIN_HASH req = ?h"
      using 1 m b H [of "?c - 1"] by (auto simp: MAX_HASH_def MIN_HASH_def)
    have ng: "\<not> HAS_GAP req" using 1 b by (simp add: HAS_GAP_def HASH_COUNT_def mx)
    have "req_buckets req = {MIN_HASH req..MAX_HASH req}"
    proof -
      have "(\<lambda>i. (?h + i) mod ?n) ` {..<?c} = (\<lambda>i. ?h + i) ` {..<?c}"
        using 1 by (intro image_cong) auto
      also have "\<dots> = {?h..<?h + ?c}" by (simp add: image_add_lessThan_offset)
      finally show ?thesis using b unfolding B mx by auto
    qed
    moreover have "for_each_req_hash_asc req = [MIN_HASH req..<Suc (MAX_HASH req)]"
      unfolding for_each_req_hash_asc_def by (rule asc_from_upt) (use ng in \<open>simp add: HASH_NEXT_def\<close>)
    ultimately show ?thesis using plain ng mx b by simp
  next
    case 2
    have mx: "MAX_HASH req = ?n - 1" "MIN_HASH req = 0" using 2 m by (auto simp: MAX_HASH_def MIN_HASH_def)
    have ng: "\<not> HAS_GAP req" using 2 b by (simp add: HAS_GAP_def HASH_COUNT_def mx)
    have "req_buckets req = {MIN_HASH req..MAX_HASH req}"
      using b residues_all [OF b(3) 2(2), of ?h] unfolding B mx by auto
    moreover have "for_each_req_hash_asc req = [MIN_HASH req..<Suc (MAX_HASH req)]"
      unfolding for_each_req_hash_asc_def by (rule asc_from_upt) (use ng in \<open>simp add: HASH_NEXT_def\<close>)
    ultimately show ?thesis using plain ng mx by simp
  next
    case 3
    have mx: "MAX_HASH req = ?n - 1" "MIN_HASH req = 0" using 3 m by (auto simp: MAX_HASH_def MIN_HASH_def)
    have gp: "HAS_GAP req" "GAP_VAL req = ?n - ?c"
      using 3 b by (simp_all add: HAS_GAP_def GAP_VAL_def HASH_COUNT_def mx)
    have gs: "GAP_START req = ?h + ?c - 1 - ?n"
      using 3 b H [of "?c - 1"] by (simp add: GAP_START_def mod_if)
    have e: "Suc (GAP_START req + GAP_VAL req) = ?h" using 3 b by (simp add: gs gp)
    have "req_buckets req = {..GAP_START req} \<union> {Suc (GAP_START req + GAP_VAL req)..MAX_HASH req}"
    proof -
      have "{..GAP_START req} = {..<?h + ?c - ?n}" using 3 b by (auto simp: gs)
      moreover have "{Suc (GAP_START req + GAP_VAL req)..MAX_HASH req} = {?h..<?n}"
        unfolding e mx using b by auto
      moreover have "?h + ?c \<le> 2 * ?n" using 3 b by linarith
      ultimately show ?thesis using residues_image [OF b(5) _ 3] unfolding B by (simp add: Un_commute)
    qed
    moreover have "for_each_req_hash_asc req =
        [0..<Suc (GAP_START req)] @ [Suc (GAP_START req + GAP_VAL req)..<Suc (MAX_HASH req)]"
      unfolding for_each_req_hash_asc_def mx(2)
      by (rule asc_from_gap [OF gp(1)]) (use e b mx in auto)
    moreover have "GAP_START req + GAP_VAL req < MAX_HASH req" using e b mx by linarith
    ultimately show ?thesis using gap gp mx by simp
  qed
qed


subsection \<open>Properties\<close>

text \<open>C28: However the threads interleave, the bucket lock is exclusive for writers and shared by at
  most three readers, the reader field is the number of readers and the writer bit tells whether
  there is a writer, no update of the bucket's line is lost and the line does not change under a
  reader.\<close>

theorem bucket_mutex:
  assumes "bucket_free b" "bucket_step\<^sup>*\<^sup>* b b'"
  shows "h_rd (b_entry b') = card {t. holds OCF_METADATA_RD (b_pc b' t)} \<and> h_rd (b_entry b') \<le> 3 \<and>
    (h_wr (b_entry b') \<longleftrightarrow> (\<exists>t. holds OCF_METADATA_WR (b_pc b' t))) \<and>
    (\<forall>t u. holds OCF_METADATA_WR (b_pc b' t) \<longrightarrow> holds OCF_METADATA_WR (b_pc b' u) \<longrightarrow> t = u) \<and>
    (\<forall>t u. holds OCF_METADATA_WR (b_pc b' t) \<longrightarrow> \<not> holds OCF_METADATA_RD (b_pc b' u)) \<and>
    (\<forall>u b''. bucket_step b' b'' \<longrightarrow> holds OCF_METADATA_RD (b_pc b' u) \<longrightarrow>
       h_line (b_entry b'') = h_line (b_entry b')) \<and>
    (\<forall>t cur. b_pc b' t = Unlocking OCF_METADATA_WR cur \<longrightarrow> cur = b_entry b')"
proof -
  have inv: "bucket_inv b'" using bucket_reach_inv [OF assms(2)] bucket_free_inv [OF assms(1)] by simp
  note i = inv [unfolded bucket_inv_def]
  obtain T where T: "holders OCF_METADATA_WR b' \<subseteq> {T}" using i by (elim conjE exE)
  have w: "h_wr (b_entry b') \<longleftrightarrow> (\<exists>t. holds OCF_METADATA_WR (b_pc b' t))" using i by (auto simp: holders_def)
  have mutex: "t = u" if "holds OCF_METADATA_WR (b_pc b' t)" "holds OCF_METADATA_WR (b_pc b' u)" for t u
    using that T by (auto simp: holders_def)
  have excl: "\<not> holds OCF_METADATA_RD (b_pc b' u)" if "holds OCF_METADATA_WR (b_pc b' t)" for t u
  proof -
    have "holders OCF_METADATA_RD b' = {}" using i w that by blast
    then show ?thesis by (auto simp: holders_def)
  qed
  have cnt: "h_rd (b_entry b') = card {t. holds OCF_METADATA_RD (b_pc b' t)}" "h_rd (b_entry b') \<le> 3"
    using i by (simp_all add: holders_def)
  have cur: "cur = b_entry b'" if "b_pc b' t = Unlocking OCF_METADATA_WR cur" for t cur using i that by blast
  show ?thesis
    by (intro conjI allI impI) (fact cnt(1), fact cnt(2), fact w, (rule mutex; assumption),
      (rule excl; assumption), (rule reader_keeps_line [OF inv]; assumption), (rule cur; assumption))
qed

text \<open>C29: The iteration over a request's buckets visits exactly the hashes of its core lines, each
  once and in ascending order.\<close>

theorem req_hash_asc_correct:
  assumes "hb_req_ok req"
  shows "sorted_wrt (<) (for_each_req_hash_asc req) \<and> set (for_each_req_hash_asc req) = req_hash req ` {..<req_line_count req}"
  using assms
proof (cases rule: req_hash_asc_cases)
  case plain
  show ?thesis
    unfolding req_buckets_def [symmetric] plain(3,4)
    by (simp add: atLeastLessThanSuc_atLeastAtMost del: upt_Suc)
next
  case gap
  show ?thesis
    unfolding req_buckets_def [symmetric] gap(4,5)
    by (auto simp: sorted_wrt_append simp del: upt_Suc)
qed

text \<open>C30: \<open>ocf_req_hash_in_range\<close> holds exactly for the core lines whose bucket the request locks.\<close>

theorem req_hash_in_range_correct:
  assumes "hb_req_ok req"
  shows "ocf_req_hash_in_range req s cid cl \<longleftrightarrow>
    ocf_metadata_hash_func s cl cid \<in> set (for_each_req_hash_asc req)"
  using assms
proof (cases rule: req_hash_asc_cases)
  case plain
  then show ?thesis by (auto simp: ocf_req_hash_in_range_def Let_def)
next
  case gap
  then show ?thesis by (auto simp: ocf_req_hash_in_range_def Let_def)
qed

subsection \<open>Witnesses\<close>

definition demo_bucket :: bucket where
  "demo_bucket = \<lparr>b_entry = \<lparr>h_line = 0, h_rd = 0, h_wr = False\<rparr>, b_pc = \<lambda>_. Idle\<rparr>"

theorem bucket_mutex_witness:
  "\<exists>b. bucket_step\<^sup>*\<^sup>* demo_bucket b \<and> b_pc b 7 = Held OCF_METADATA_WR \<and> h_wr (b_entry b) \<and>
     \<not> holds OCF_METADATA_RD (b_pc b 3)"
proof -
  let ?e = "b_entry demo_bucket"
  let ?b1 = "demo_bucket\<lparr>b_pc := (b_pc demo_bucket)(7 := Locking OCF_METADATA_WR False ?e)\<rparr>"
  let ?b2 = "?b1\<lparr>b_entry := ?e\<lparr>h_wr := True\<rparr>, b_pc := (b_pc ?b1)(7 := Held OCF_METADATA_WR)\<rparr>"
  have "bucket_step demo_bucket ?b1" by (rule bucket_step.lock_call) (simp add: demo_bucket_def)
  moreover have "bucket_step ?b1 ?b2"
    by (rule bucket_step.lock_cas) (auto simp: demo_bucket_def hash_lock_new_def)
  ultimately have r: "bucket_step\<^sup>*\<^sup>* demo_bucket ?b2" by auto
  have "bucket_free demo_bucket" by (simp add: demo_bucket_def bucket_free_def)
  note m = bucket_mutex [OF this r]
  have h: "b_pc ?b2 7 = Held OCF_METADATA_WR" by simp
  then have "holds OCF_METADATA_WR (b_pc ?b2 7)" by simp
  with m h r show ?thesis by blast
qed

definition demo_hb_req :: hb_req where
  "demo_hb_req = \<lparr>num_hash_entries = 5, req_hash = (\<lambda>i. (2 + i) mod 5), req_line_count = 4\<rparr>"

lemma demo_hb_req_ok: "hb_req_ok demo_hb_req"
  by (simp add: hb_req_ok_def demo_hb_req_def)

theorem req_hash_asc_correct_witness:
  "sorted_wrt (<) (for_each_req_hash_asc demo_hb_req) \<and> set (for_each_req_hash_asc demo_hb_req) = {0, 2, 3, 4}"
proof -
  have "req_hash demo_hb_req ` {..<req_line_count demo_hb_req} = {0, 2, 3, 4}"
  proof -
    have "{..<4 :: nat} = {0, 1, 2, 3}" by auto
    then show ?thesis by (simp add: demo_hb_req_def insert_commute numeral_2_eq_2)
  qed
  with req_hash_asc_correct [OF demo_hb_req_ok] show ?thesis by simp
qed

theorem req_hash_in_range_correct_witness:
  "ocf_req_hash_in_range demo_hb_req demo_coll 0 0 \<longleftrightarrow>
    ocf_metadata_hash_func demo_coll 0 0 \<in> set (for_each_req_hash_asc demo_hb_req)"
  by (rule req_hash_in_range_correct [OF demo_hb_req_ok])

end
