(* ===== verification/Generator.thy ===== *)
theory Generator
  imports Prelude
begin

section \<open>The bisection order generator\<close>

text \<open>
  Model of \<open>src/utils/utils_generator.c\<close>: a generator that visits the numbers below a limit in
  bisection order, by reversing the bits of a counter and leaving out the values that reach the
  limit. The freelist is populated in this order.
\<close>

subsection \<open>Definitions\<close>

definition bitreverse32 :: "32 word \<Rightarrow> 32 word" where
  "bitreverse32 x =
     (let x = (drop_bit 1 (x AND 0xaaaaaaaa)) OR (push_bit 1 (x AND 0x55555555));
          x = (drop_bit 2 (x AND 0xcccccccc)) OR (push_bit 2 (x AND 0x33333333));
          x = (drop_bit 4 (x AND 0xf0f0f0f0)) OR (push_bit 4 (x AND 0x0f0f0f0f));
          x = (drop_bit 8 (x AND 0xff00ff00)) OR (push_bit 8 (x AND 0x00ff00ff))
      in (drop_bit 16 x) OR (push_bit 16 x))"

text \<open>
  \<open>__builtin_clz\<close> counts the leading zeros of a 32-bit value and is undefined at 0; undefined
  behaviour is \<open>None\<close>, like a failed assertion.
\<close>

fun leading_zeros :: "nat \<Rightarrow> 32 word \<Rightarrow> nat" where
  "leading_zeros 0 x = 0"
| "leading_zeros (Suc i) x = (if bit x i then 0 else Suc (leading_zeros i x))"

definition builtin_clz :: "32 word \<Rightarrow> nat option" where
  "builtin_clz x = (if x = 0 then None else Some (leading_zeros 32 x))"

text \<open>\<open>1 << (32 - clz)\<close> on \<open>int\<close>: defined as long as the shift is less than 32.\<close>

definition map_length :: "nat \<Rightarrow> 32 word option" where
  "map_length clz = (if clz = 0 then None else Some (push_bit (32 - clz) 1))"

record bisect_state =
  curr :: "32 word"
  limit :: "32 word"

definition ocf_generator_bisect_init :: "32 word \<Rightarrow> 32 word \<Rightarrow> bisect_state option" where
  "ocf_generator_bisect_init lim offset = do {
     clz \<leftarrow> builtin_clz (lim - 1);
     maplen \<leftarrow> map_length clz;
     Some \<lparr>curr = ucast ((ucast offset :: 64 word) * ucast maplen div ucast lim), limit = lim\<rparr> }"

partial_function (option) bisect_loop ::
  "nat \<Rightarrow> 32 word \<Rightarrow> bisect_state \<Rightarrow> (32 word \<times> bisect_state) option" where
  "bisect_loop clz maplen g =
     (let v = drop_bit clz (bitreverse32 (curr g));
          g = g\<lparr>curr := (curr g + 1) mod maplen\<rparr>
      in if v \<ge> limit g then bisect_loop clz maplen g else Some (v, g))"

definition ocf_generator_bisect_next :: "bisect_state \<Rightarrow> (32 word \<times> bisect_state) option" where
  "ocf_generator_bisect_next g = do {
     clz \<leftarrow> builtin_clz (limit g - 1);
     maplen \<leftarrow> map_length clz;
     bisect_loop clz maplen g }"

text \<open>The values of \<open>n\<close> calls in a row.\<close>

fun bisect_take :: "nat \<Rightarrow> bisect_state \<Rightarrow> (32 word list \<times> bisect_state) option" where
  "bisect_take 0 g = Some ([], g)"
| "bisect_take (Suc n) g = do {
     (v, g) \<leftarrow> ocf_generator_bisect_next g;
     (vs, g) \<leftarrow> bisect_take n g;
     Some (v # vs, g) }"

subsection \<open>Bit reversal\<close>

lemma all_below_32: "(\<forall>i<32. P i) \<longleftrightarrow> (\<forall>i\<in>set [0..<32]. P (i::nat))"
  by auto

lemma mask_bits:
  "\<forall>i<32. bit (0xaaaaaaaa :: 32 word) i \<longleftrightarrow> odd (i div 1)"
  "\<forall>i<32. bit (0x55555555 :: 32 word) i \<longleftrightarrow> even (i div 1)"
  "\<forall>i<32. bit (0xcccccccc :: 32 word) i \<longleftrightarrow> odd (i div 2)"
  "\<forall>i<32. bit (0x33333333 :: 32 word) i \<longleftrightarrow> even (i div 2)"
  "\<forall>i<32. bit (0xf0f0f0f0 :: 32 word) i \<longleftrightarrow> odd (i div 4)"
  "\<forall>i<32. bit (0x0f0f0f0f :: 32 word) i \<longleftrightarrow> even (i div 4)"
  "\<forall>i<32. bit (0xff00ff00 :: 32 word) i \<longleftrightarrow> odd (i div 8)"
  "\<forall>i<32. bit (0x00ff00ff :: 32 word) i \<longleftrightarrow> even (i div 8)"
  unfolding all_below_32 by (simp_all add: upt_rec)

text \<open>One stage exchanges neighbouring groups of \<open>s\<close> bits.\<close>

lemma stage_bits:
  fixes x :: "32 word"
  assumes hi: "\<forall>i<32. bit hi i \<longleftrightarrow> odd (i div s)" and lo: "\<forall>i<32. bit lo i \<longleftrightarrow> even (i div s)"
    and s: "0 < s" "s dvd 16" and i: "i < 32"
  shows "bit (drop_bit s (x AND hi) OR push_bit s (x AND lo)) i \<longleftrightarrow>
     bit x (if even (i div s) then i + s else i - s)"
proof -
  obtain k where k: "16 = s * k" using s(2) by (auto simp: dvd_def)
  have fit: "i + s < 32" if ev: "even (i div s)"
  proof -
    have "i < (2 * k) * s" using i k by (simp add: algebra_simps)
    then have "i div s < 2 * k" using s(1) by (simp add: div_less_iff_less_mult)
    moreover obtain q where "i div s = 2 * q" using ev by (blast elim: evenE)
    ultimately have "i div s + 1 < 2 * k" by simp
    then have "i div s + 2 \<le> 2 * k" by simp
    then have "(i div s + 2) * s \<le> 2 * k * s" by (rule mult_le_mono1)
    then have "(i div s) * s + s + s \<le> 32" using k by (simp add: algebra_simps)
    moreover have "i < (i div s) * s + s" using dividend_less_div_times [OF s(1), of i] by simp
    ultimately show ?thesis by simp
  qed
  have up: "(i + s) div s = Suc (i div s)" using s(1) by (simp only: div_add_self2 Suc_eq_plus1)
  have down: "(i - s) div s = i div s - 1" if "s \<le> i" using s(1) that by (simp add: le_div_geq)
  have small: "i div s = 0" if "i < s" using that by simp
  show ?thesis
  proof (cases "even (i div s)")
    case True
    then have "\<not> (s \<le> i \<and> bit lo (i - s))"
      using lo i s(1) down by (auto simp: le_div_geq)
    with True fit [OF True] hi up i show ?thesis by (auto simp: bit_simps add.commute [of s i])
  next
    case False
    then have "s \<le> i" using small by (cases "i < s") auto
    moreover have "\<not> bit hi (i + s)"
      using False hi up bit_imp_le_length [of hi "i + s"] by auto
    moreover have "bit lo (i - s)" using False lo i down [OF \<open>s \<le> i\<close>] by simp
    ultimately show ?thesis using False i by (auto simp: bit_simps add.commute [of s i])
  qed
qed

text \<open>Composing the five exchanges sends index \<open>i\<close> to \<open>31 - i\<close>.\<close>

definition swap_ix :: "nat \<Rightarrow> nat \<Rightarrow> nat" where
  "swap_ix s i = (if even (i div s) then i + s else i - s)"

lemma swap_ix_less:
  "\<forall>i<32. swap_ix 1 i < 32 \<and> swap_ix 2 i < 32 \<and> swap_ix 4 i < 32 \<and> swap_ix 8 i < 32 \<and> swap_ix 16 i < 32"
  unfolding all_below_32 by (simp add: upt_rec swap_ix_def)

lemma swap_ix_rev: "\<forall>i<32. swap_ix 1 (swap_ix 2 (swap_ix 4 (swap_ix 8 (swap_ix 16 i)))) = 31 - i"
  unfolding all_below_32 by (simp add: upt_rec swap_ix_def)

lemma bit_bitreverse32: "bit (bitreverse32 x) i \<longleftrightarrow> i < 32 \<and> bit x (31 - i)"
proof (cases "i < 32")
  case True
  define y1 where "y1 = drop_bit 1 (x AND 0xaaaaaaaa) OR push_bit 1 (x AND 0x55555555)"
  define y2 where "y2 = drop_bit 2 (y1 AND 0xcccccccc) OR push_bit 2 (y1 AND 0x33333333)"
  define y3 where "y3 = drop_bit 4 (y2 AND 0xf0f0f0f0) OR push_bit 4 (y2 AND 0x0f0f0f0f)"
  define y4 where "y4 = drop_bit 8 (y3 AND 0xff00ff00) OR push_bit 8 (y3 AND 0x00ff00ff)"
  have b1: "bit y1 j \<longleftrightarrow> bit x (swap_ix 1 j)" if "j < 32" for j
    unfolding y1_def swap_ix_def by (rule stage_bits [OF mask_bits(1,2) _ _ that]) simp_all
  have b2: "bit y2 j \<longleftrightarrow> bit y1 (swap_ix 2 j)" if "j < 32" for j
    unfolding y2_def swap_ix_def by (rule stage_bits [OF mask_bits(3,4) _ _ that]) simp_all
  have b3: "bit y3 j \<longleftrightarrow> bit y2 (swap_ix 4 j)" if "j < 32" for j
    unfolding y3_def swap_ix_def by (rule stage_bits [OF mask_bits(5,6) _ _ that]) simp_all
  have b4: "bit y4 j \<longleftrightarrow> bit y3 (swap_ix 8 j)" if "j < 32" for j
    unfolding y4_def swap_ix_def by (rule stage_bits [OF mask_bits(7,8) _ _ that]) simp_all
  have "bit (drop_bit 16 y4 OR push_bit 16 y4) i \<longleftrightarrow> bit y4 (swap_ix 16 i)"
  proof (cases "i < 16")
    case True
    then show ?thesis by (auto simp: bit_simps swap_ix_def add.commute)
  next
    case False
    moreover have "i div 16 = 1" using False True by auto
    moreover have "\<not> bit y4 (16 + i)" using False bit_imp_le_length [of y4 "16 + i"] by auto
    ultimately show ?thesis using True by (auto simp: bit_simps swap_ix_def)
  qed
  moreover have "bitreverse32 x = drop_bit 16 y4 OR push_bit 16 y4"
    unfolding bitreverse32_def Let_def y4_def y3_def y2_def y1_def ..
  ultimately show ?thesis using True by (simp add: b1 b2 b3 b4 swap_ix_less swap_ix_rev del: One_nat_def)
next
  case False
  then show ?thesis using bit_imp_le_length [of "bitreverse32 x" i] by auto
qed

subsection \<open>Reversal of the low bits\<close>

text \<open>With \<open>k\<close> significant bits, the value of a counter is the reversal of its low \<open>k\<close> bits.\<close>

definition rev_bits :: "nat \<Rightarrow> 32 word \<Rightarrow> 32 word" where
  "rev_bits k c = drop_bit (32 - k) (bitreverse32 c)"

lemma bit_rev_bits: "k \<le> 32 \<Longrightarrow> bit (rev_bits k c) i \<longleftrightarrow> i < k \<and> bit c (k - 1 - i)"
  by (cases "i < k") (auto simp: rev_bits_def bit_simps bit_bitreverse32 add.commute)

lemma word_less_exp_iff: "k \<le> 32 \<Longrightarrow> unat (c :: 32 word) < 2 ^ k \<longleftrightarrow> (\<forall>i. bit c i \<longrightarrow> i < k)"
proof -
  assume "k \<le> 32"
  have "unat c < 2 ^ k \<longleftrightarrow> take_bit k (unat c) = unat c"
    by (simp add: take_bit_nat_eq_self_iff)
  also have "\<dots> \<longleftrightarrow> (\<forall>i. bit (unat c) i \<longrightarrow> i < k)"
    by (auto simp: bit_eq_iff bit_take_bit_iff)
  finally show ?thesis by (simp add: bit_simps)
qed

lemma rev_bits_less: "k \<le> 32 \<Longrightarrow> unat (rev_bits k c) < 2 ^ k"
  by (simp add: word_less_exp_iff bit_rev_bits)

lemma rev_bits_rev_bits: "k \<le> 32 \<Longrightarrow> unat c < 2 ^ k \<Longrightarrow> rev_bits k (rev_bits k c) = c"
  by (rule bit_word_eqI) (auto simp: bit_rev_bits word_less_exp_iff)

text \<open>The counter value at step \<open>j\<close> and the number it stands for.\<close>

definition bisect_seq :: "nat \<Rightarrow> nat \<Rightarrow> nat" where
  "bisect_seq k j = unat (rev_bits k (of_nat (j mod 2 ^ k)))"

lemma bisect_seq_perm:
  assumes "k < 32"
  shows "bij_betw (bisect_seq k) {..<2 ^ k} {..<2 ^ k}"
proof -
  have less: "n < 2 ^ 32" if "n < 2 ^ k" for n :: nat
    using that assms power_strict_increasing [of k 32 "2::nat"] by simp
  have un: "unat (of_nat n :: 32 word) = n" if "n < 2 ^ k" for n
    using less [OF that] by (simp add: unat_of_nat take_bit_nat_eq_self)
  have inv: "bisect_seq k (bisect_seq k j) = j" if "j < 2 ^ k" for j
  proof -
    have "bisect_seq k j = unat (rev_bits k (of_nat j))" using that by (simp add: bisect_seq_def)
    moreover have "unat (rev_bits k (of_nat j)) < 2 ^ k" using assms by (simp add: rev_bits_less)
    ultimately have "bisect_seq k (bisect_seq k j) = unat (rev_bits k (rev_bits k (of_nat j)))"
      by (simp add: bisect_seq_def)
    also have "\<dots> = j" using that assms by (simp add: rev_bits_rev_bits un)
    finally show ?thesis .
  qed
  have into: "bisect_seq k j < 2 ^ k" for j
    using assms by (simp add: bisect_seq_def rev_bits_less)
  show ?thesis
    by (rule bij_betw_byWitness [where f' = "bisect_seq k"]) (use inv into in auto)
qed

lemma bisect_seq_periodic: "bisect_seq k (j + 2 ^ k) = bisect_seq k j"
  by (simp add: bisect_seq_def)

lemma bisect_seq_shift_perm:
  assumes "k < 32"
  shows "bij_betw (\<lambda>j. bisect_seq k (c + j)) {..<2 ^ k} {..<2 ^ k}"
proof -
  have m: "bij_betw (\<lambda>j. (c + j) mod 2 ^ k) {..<2 ^ k} {..<2 ^ k}"
  proof -
    have "inj_on (\<lambda>j. (c + j) mod 2 ^ k) {..<2 ^ k}"
    proof (rule inj_onI)
      fix a b assume "a \<in> {..<2 ^ k}" "b \<in> {..<2 ^ k}" "(c + a) mod 2 ^ k = (c + b) mod 2 ^ k"
      then obtain q1 q2 where "c + a + 2 ^ k * q1 = c + b + 2 ^ k * q2" "a < 2 ^ k" "b < 2 ^ k"
        by (auto simp: nat_mod_eq_iff)
      then have "(a + 2 ^ k * q1) mod 2 ^ k = (b + 2 ^ k * q2) mod 2 ^ k" by simp
      with \<open>a < 2 ^ k\<close> \<open>b < 2 ^ k\<close> show "a = b" by simp
    qed
    moreover have "(\<lambda>j. (c + j) mod 2 ^ k) ` {..<2 ^ k} \<subseteq> {..<2 ^ k}" by auto
    ultimately show ?thesis by (simp add: bij_betw_def endo_inj_surj)
  qed
  have "bisect_seq k (c + j) = bisect_seq k ((c + j) mod 2 ^ k)" for j
    by (simp add: bisect_seq_def)
  then show ?thesis using bij_betw_trans [OF m bisect_seq_perm [OF assms]] by (simp add: comp_def)
qed

subsection \<open>The counter has as many bits as the limit needs\<close>

lemma leading_zeros_spec:
  assumes "\<exists>i<n. bit x i"
  shows "leading_zeros n x < n \<and> bit x (n - 1 - leading_zeros n x) \<and>
    (\<forall>i<n. bit x i \<longrightarrow> i \<le> n - 1 - leading_zeros n x)"
  using assms
proof (induction n)
  case (Suc n)
  show ?case
  proof (cases "bit x n")
    case False
    with Suc.prems have "\<exists>i<n. bit x i" using less_Suc_eq by auto
    with Suc.IH False show ?thesis by (auto simp: less_Suc_eq)
  qed auto
qed simp

lemma word_ge_exp: "bit (x :: 32 word) i \<Longrightarrow> 2 ^ i \<le> unat x"
proof -
  assume "bit x i"
  then have "\<not> unat x < 2 ^ i"
    using word_less_exp_iff [of i x] bit_imp_le_length [of x i] by auto
  then show ?thesis by simp
qed

lemma bisect_width:
  assumes lim: "2 \<le> unat lim" "unat lim \<le> 2 ^ 31"
  obtains k where "builtin_clz (lim - 1) = Some (32 - k)" "map_length (32 - k) = Some (2 ^ k)"
    "0 < k" "k < 32" "unat lim \<le> 2 ^ k"
proof -
  have un: "unat (lim - 1) = unat lim - 1" using lim by (simp add: unat_minus_one unat_eq_zero [symmetric])
  then have nz: "lim - 1 \<noteq> 0" using lim by (metis diff_is_0_eq not_numeral_le_zero unat_0 numeral_2_eq_2 not_less_eq_eq le_zero_eq One_nat_def)
  then obtain i where "bit (lim - 1) i" by (metis bit_0_eq bit_eqI bot_apply bot_bool_def)
  then have "\<exists>i<32. bit (lim - 1) i" using bit_imp_le_length [of "lim - 1" i] by auto
  from leading_zeros_spec [OF this]
  obtain z where z: "z = leading_zeros 32 (lim - 1)" "z < 32" "bit (lim - 1) (31 - z)"
    and top: "\<And>i. i < 32 \<Longrightarrow> bit (lim - 1) i \<Longrightarrow> i \<le> 31 - z" by auto
  have "2 ^ (31 - z) \<le> unat (lim - 1)" by (rule word_ge_exp [OF z(3)])
  with un lim have "(2::nat) ^ (31 - z) < 2 ^ 31" by simp
  then have zpos: "0 < z" by (cases "z = 0") simp_all
  have "i < 32 - z" if "bit (lim - 1) i" for i
    using top [of i] that z(2) bit_imp_le_length [of "lim - 1" i] by fastforce
  then have "unat (lim - 1) < 2 ^ (32 - z)" by (simp add: word_less_exp_iff)
  with un lim have "unat lim \<le> 2 ^ (32 - z)" by simp
  moreover have "map_length (32 - (32 - z)) = Some (2 ^ (32 - z))"
    using zpos z(2) by (simp add: map_length_def push_bit_eq_mult)
  ultimately show thesis using that [of "32 - z"] z(1,2) zpos nz by (simp add: builtin_clz_def)
qed

subsection \<open>One call returns the next value in range\<close>

lemma counter_step:
  assumes "k < 32"
  shows "(of_nat (j mod 2 ^ k) + 1) mod 2 ^ k = (of_nat (Suc j mod 2 ^ k) :: 32 word)"
proof -
  have lt: "j mod 2 ^ k < 2 ^ k" by simp
  have k31: "(2::nat) ^ k \<le> 2 ^ 31" using assms by (intro power_increasing) simp_all
  have u: "unat (2 ^ k :: 32 word) = 2 ^ k"
    using unat_of_nat32 [of "2 ^ k"] k31 by simp
  have "unat (of_nat (j mod 2 ^ k) :: 32 word) = j mod 2 ^ k"
    using order.strict_trans2 [OF lt k31] by (intro unat_of_nat32) simp
  moreover have "Suc (j mod 2 ^ k) < 2 ^ 32" using order.strict_trans2 [OF lt k31] by simp
  ultimately have "unat (of_nat (j mod 2 ^ k) + 1 :: 32 word) = Suc (j mod 2 ^ k)"
    by (simp add: unat_word_ariths)
  then have "unat ((of_nat (j mod 2 ^ k) + 1) mod 2 ^ k :: 32 word) = Suc (j mod 2 ^ k) mod 2 ^ k"
    by (simp add: unat_mod_distrib u)
  also have "\<dots> = Suc j mod 2 ^ k" by (simp add: mod_Suc_eq)
  also have "\<dots> = unat (of_nat (Suc j mod 2 ^ k) :: 32 word)"
  proof -
    have "Suc j mod 2 ^ k < 2 ^ 31" using order.strict_trans2 [OF _ k31] by simp
    then show ?thesis by (simp add: unat_of_nat32)
  qed
  finally show ?thesis by (simp add: word_unat_eq_iff)
qed

lemma bisect_loop_step:
  assumes "k < 32" and "curr g = of_nat (j mod 2 ^ k)"
  shows "bisect_loop (32 - k) (2 ^ k) g =
    (let g' = g\<lparr>curr := of_nat (Suc j mod 2 ^ k)\<rparr> in
     if bisect_seq k j < unat (limit g) then Some (of_nat (bisect_seq k j), g')
     else bisect_loop (32 - k) (2 ^ k) g')"
proof -
  have "drop_bit (32 - k) (bitreverse32 (curr g)) = of_nat (bisect_seq k j)"
    using assms by (simp add: bisect_seq_def rev_bits_def)
  moreover have "limit g \<le> of_nat (bisect_seq k j) \<longleftrightarrow> \<not> bisect_seq k j < unat (limit g)"
    by (auto simp: word_le_nat_alt bisect_seq_def)
  moreover have "(curr g + 1) mod 2 ^ k = of_nat (Suc j mod 2 ^ k)"
    using counter_step [OF assms(1)] assms(2) by simp
  ultimately show ?thesis by (subst bisect_loop.simps) (simp add: Let_def)
qed

definition in_range :: "nat \<Rightarrow> nat \<Rightarrow> nat list \<Rightarrow> nat list" where
  "in_range k l js = filter (\<lambda>v. v < l) (map (bisect_seq k) js)"

lemma bisect_take_in_range:
  assumes clz: "builtin_clz (lim - 1) = Some (32 - k)" "map_length (32 - k) = Some (2 ^ k)" "k < 32"
    and "limit g = lim" "curr g = of_nat (j mod 2 ^ k)"
    and "length (in_range k (unat lim) [j..<j + m]) = n"
  shows "\<exists>g'. bisect_take n g = Some (map of_nat (in_range k (unat lim) [j..<j + m]), g')"
  using assms(4-)
proof (induction m arbitrary: j g n)
  case 0
  then show ?case by (simp add: in_range_def)
next
  case (Suc m)
  let ?g = "g\<lparr>curr := of_nat (Suc j mod 2 ^ k)\<rparr>"
  have nxt: "ocf_generator_bisect_next h = bisect_loop (32 - k) (2 ^ k) h" if "limit h = lim" for h
    using that clz by (simp add: ocf_generator_bisect_next_def)
  have upt: "[j..<j + Suc m] = j # [Suc j..<Suc j + m]" by (simp add: upt_rec)
  show ?case
  proof (cases "bisect_seq k j < unat lim")
    case True
    then obtain n' where n: "n = Suc n'" "length (in_range k (unat lim) [Suc j..<Suc j + m]) = n'"
      using Suc.prems(3) unfolding upt by (cases n) (simp_all add: in_range_def)
    obtain g' where "bisect_take n' ?g = Some (map of_nat (in_range k (unat lim) [Suc j..<Suc j + m]), g')"
      using Suc.IH [of ?g "Suc j" n'] n(2) Suc.prems(1) by auto
    moreover have "ocf_generator_bisect_next g = Some (of_nat (bisect_seq k j), ?g)"
      using True Suc.prems by (simp add: nxt bisect_loop_step [OF clz(3)])
    ultimately show ?thesis using True unfolding upt n(1) by (simp add: in_range_def)
  next
    case False
    then have same: "in_range k (unat lim) [j..<j + Suc m] = in_range k (unat lim) [Suc j..<Suc j + m]"
      unfolding upt by (simp add: in_range_def)
    have "ocf_generator_bisect_next g = ocf_generator_bisect_next ?g"
      using False Suc.prems by (simp add: nxt bisect_loop_step [OF clz(3), of g j])
    then have "\<exists>g'. bisect_take n g = Some (vs, g')" if "bisect_take n ?g = Some (vs, g'')" for vs g''
      using that by (cases n) auto
    then show ?thesis
      using Suc.IH [of ?g "Suc j" n] Suc.prems same by fastforce
  qed
qed

lemma in_range_period:
  assumes "k < 32" "l \<le> 2 ^ k"
  shows "distinct (in_range k l [j..<j + 2 ^ k])" "set (in_range k l [j..<j + 2 ^ k]) = {..<l}"
proof -
  have bij: "bij_betw (\<lambda>i. bisect_seq k (j + i)) {..<2 ^ k} {..<2 ^ k}"
    by (rule bisect_seq_shift_perm [OF assms(1)])
  have "[j..<j + 2 ^ k] = map (\<lambda>i. j + i) [0..<2 ^ k]"
    by (simp add: map_add_upt add.commute)
  then have eq: "map (bisect_seq k) [j..<j + 2 ^ k] = map (\<lambda>i. bisect_seq k (j + i)) [0..<2 ^ k]"
    by simp
  show "distinct (in_range k l [j..<j + 2 ^ k])"
    unfolding in_range_def eq
    using bij by (simp add: distinct_map bij_betw_def atLeast0LessThan)
  have "set (map (bisect_seq k) [j..<j + 2 ^ k]) = {..<2 ^ k}"
    unfolding eq using bij by (simp add: bij_betw_def atLeast0LessThan)
  then show "set (in_range k l [j..<j + 2 ^ k]) = {..<l}"
    using assms(2) by (auto simp: in_range_def)
qed

lemma bisect_start:
  fixes lim offset :: "32 word"
  assumes "k < 32" "unat lim \<le> 2 ^ 31" "offset < lim"
  shows "unat (ucast ((ucast offset :: 64 word) * ucast (2 ^ k :: 32 word) div ucast lim) :: 32 word) < 2 ^ k"
    (is "unat (ucast ?q :: 32 word) < _")
proof -
  have k31: "(2::nat) ^ k \<le> 2 ^ 31" using assms by (intro power_increasing) simp_all
  have u: "unat (2 ^ k :: 32 word) = 2 ^ k"
    using unat_of_nat32 [of "2 ^ k"] k31 by simp
  have w: "unat (ucast (x :: 32 word) :: 64 word) = unat x" for x
    using unat32_less [of x] by (simp add: unsigned_ucast_eq take_bit_nat_eq_self)
  have lt: "unat offset < unat lim" using assms(3) by (simp add: word_less_nat_alt)
  have "unat offset * 2 ^ k \<le> 2 ^ 31 * 2 ^ 31"
    using lt assms(2) k31 by (intro mult_le_mono) simp_all
  then have "unat ((ucast offset :: 64 word) * ucast (2 ^ k :: 32 word)) = unat offset * 2 ^ k"
    unfolding unat_word_ariths w u by simp
  then have "unat ?q = unat offset * 2 ^ k div unat lim"
    by (simp add: unat_div_distrib w)
  also have "\<dots> < 2 ^ k"
    using lt by (subst div_less_iff_less_mult) simp_all
  finally have q: "unat ?q < 2 ^ k" .
  have "unat (ucast ?q :: 32 word) \<le> unat ?q"
    by (simp add: unsigned_ucast_eq)
  with q show ?thesis by simp
qed

lemma bisect_take_all:
  assumes "2 \<le> unat lim" "unat lim \<le> 2 ^ 31" "offset < lim"
  shows "\<exists>g vs g'. ocf_generator_bisect_init lim offset = Some g \<and>
    bisect_take (unat lim) g = Some (vs, g') \<and> distinct vs \<and> unat ` set vs = {..<unat lim}"
proof -
  from bisect_width [OF assms(1,2)] obtain k
    where k: "builtin_clz (lim - 1) = Some (32 - k)" "map_length (32 - k) = Some (2 ^ k)"
      "0 < k" "k < 32" "unat lim \<le> 2 ^ k" .
  define c :: "32 word" where "c = ucast ((ucast offset :: 64 word) * ucast (2 ^ k :: 32 word) div ucast lim)"
  have init: "ocf_generator_bisect_init lim offset = Some \<lparr>curr = c, limit = lim\<rparr>"
    using k by (simp add: ocf_generator_bisect_init_def c_def)
  have "unat c < 2 ^ k" unfolding c_def by (rule bisect_start [OF k(4) assms(2,3)])
  then have c: "c = of_nat (unat c mod 2 ^ k)" by simp
  let ?vs = "in_range k (unat lim) [unat c..<unat c + 2 ^ k]"
  note p = in_range_period [OF k(4,5), of "unat c"]
  have "length ?vs = unat lim" using distinct_card [OF p(1)] p(2) by simp
  then obtain g' where t: "bisect_take (unat lim) \<lparr>curr = c, limit = lim\<rparr> = Some (map of_nat ?vs, g')"
    using bisect_take_in_range [OF k(1,2,4), of "\<lparr>curr = c, limit = lim\<rparr>" "unat c" "2 ^ k"] c by auto
  have un: "unat (of_nat v :: 32 word) = v" if "v < unat lim" for v
    using that unat32_less [of lim] by (simp add: unat_of_nat32)
  have "distinct (map (of_nat :: nat \<Rightarrow> 32 word) ?vs)"
    using p un by (auto simp: distinct_map intro!: inj_on_inverseI [where g = unat])
  moreover have "unat ` set (map (of_nat :: nat \<Rightarrow> 32 word) ?vs) = {..<unat lim}"
    using p(2) un by (auto simp: image_iff)
  ultimately show ?thesis using init t by blast
qed

text \<open>C22: For every limit from 2 to \<open>2 ^ 31\<close> and every starting offset below the limit, the
  generator initialises and as many calls as the limit return every number below the limit exactly
  once, each of them terminating.\<close>

theorem bisect_visits_all:
  assumes "2 \<le> unat lim" "unat lim \<le> 2 ^ 31" "offset < lim"
  shows "\<exists>g vs g'. ocf_generator_bisect_init lim offset = Some g \<and>
    bisect_take (unat lim) g = Some (vs, g') \<and> distinct vs \<and> unat ` set vs = {..<unat lim}"
  by (rule bisect_take_all [OF assms])


theorem bisect_visits_all_witness:
  "\<exists>g vs g'. ocf_generator_bisect_init 10 3 = Some g \<and>
    bisect_take 10 g = Some (vs, g') \<and> distinct vs \<and> unat ` set vs = {..<10}"
  using bisect_visits_all [of 10 3] by (simp add: word_less_nat_alt)

text \<open>With a limit of 1 the argument of \<open>__builtin_clz\<close> is 0, where it is undefined.\<close>

lemma bisect_limit_1: "ocf_generator_bisect_init 1 offset = None"
  by (simp add: ocf_generator_bisect_init_def builtin_clz_def)

end
