(* ===== verification/Lru.thy ===== *)
theory Lru
  imports Lru_List Alock Hash_Lock Generator
begin

section \<open>The LRU lists of a cache\<close>

text \<open>
  Model of the cache level of \<open>src/eviction/ocf_lru.c\<close> and of \<open>src/metadata/metadata_partition.c\<close>. A
  partition has 32 clean and 32 dirty lists; chunks of 256 neighbouring cache lines share the index of
  their list. A partition is named by its identifier: the user partitions 0 to 34, which are the
  elements of the array \<open>user_parts\<close>, the free list 35 and the detached free list 36. The spin lock of
  a list index covers each operation: it is one step. \<open>curr_size\<close> is an atomic integer, which counts
  cache lines and stays far from the bounds of its type. The eviction policy is LRU: with another one
  the operations are undefined in the model.
\<close>

subsection \<open>State\<close>

abbreviation (input) OCF_NUM_LRU_LISTS :: nat where "OCF_NUM_LRU_LISTS \<equiv> 32"
abbreviation (input) OCF_LRU_CHUNK_SIZE :: nat where "OCF_LRU_CHUNK_SIZE \<equiv> 256"
abbreviation (input) OCF_LRU_STRIPE_SIZE :: nat where "OCF_LRU_STRIPE_SIZE \<equiv> 8192"
abbreviation (input) OCF_USER_IO_CLASS_MAX :: nat where "OCF_USER_IO_CLASS_MAX \<equiv> 34"
definition PARTITION_FREELIST :: nat where "PARTITION_FREELIST = OCF_USER_IO_CLASS_MAX + 1"
definition PARTITION_FREE_DETACHED :: nat where "PARTITION_FREE_DETACHED = OCF_USER_IO_CLASS_MAX + 2"

definition OCF_LRU_GET_LIST_INDEX :: "nat \<Rightarrow> nat" where
  "OCF_LRU_GET_LIST_INDEX cline = (cline div OCF_LRU_CHUNK_SIZE) mod OCF_NUM_LRU_LISTS"

record ocf_part =
  clean_lists :: "nat \<Rightarrow> ocf_lru_list"
  dirty_lists :: "nat \<Rightarrow> ocf_lru_list"
  curr_size :: int
  evict_counter :: int

record lru_cache = lru_state +
  cparts :: "nat \<Rightarrow> ocf_part"

definition upd_part :: "nat \<Rightarrow> (ocf_part \<Rightarrow> ocf_part) \<Rightarrow> 'z lru_cache_scheme \<Rightarrow> 'z lru_cache_scheme" where
  "upd_part p f s = s\<lparr>cparts := (cparts s)(p := f (cparts s p))\<rparr>"

definition ocf_metadata_get_partition_id :: "'z lru_state_scheme \<Rightarrow> nat \<Rightarrow> nat option" where
  "ocf_metadata_get_partition_id s l = do {
     bug_on (eviction_policy s \<noteq> ocf_eviction_lru);
     bug_on (\<not> l < collision_table_entries s);
     Some (partition_id (lru_meta s l)) }"

text \<open>The identifier is a field of 8 bits.\<close>

definition ocf_metadata_set_partition_id :: "'z lru_state_scheme \<Rightarrow> nat \<Rightarrow> nat \<Rightarrow> 'z lru_state_scheme option" where
  "ocf_metadata_set_partition_id s l p = do {
     bug_on (eviction_policy s \<noteq> ocf_eviction_lru);
     bug_on (\<not> l < collision_table_entries s);
     Some (upd_lru l (\<lambda>n. n\<lparr>partition_id := p mod 256\<rparr>) s) }"

text \<open>Which list, its value, and an operation on it.\<close>

definition list_kind :: "nat \<Rightarrow> bool \<Rightarrow> bool" where
  "list_kind p clean \<longleftrightarrow> (if p = PARTITION_FREELIST then True else clean)"

definition ocf_lru_get_list :: "'z lru_cache_scheme \<Rightarrow> nat \<Rightarrow> nat \<Rightarrow> bool \<Rightarrow> ocf_lru_list" where
  "ocf_lru_get_list s p i clean =
     (if list_kind p clean then clean_lists (cparts s p) i else dirty_lists (cparts s p) i)"

definition put_list :: "nat \<Rightarrow> nat \<Rightarrow> bool \<Rightarrow> ocf_lru_list \<Rightarrow> 'z lru_cache_scheme \<Rightarrow> 'z lru_cache_scheme" where
  "put_list p i clean L =
     upd_part p (\<lambda>P. if list_kind p clean then P\<lparr>clean_lists := (clean_lists P)(i := L)\<rparr>
                     else P\<lparr>dirty_lists := (dirty_lists P)(i := L)\<rparr>)"

definition on_list ::
  "('z lru_cache_scheme \<Rightarrow> ocf_lru_list \<Rightarrow> ('z lru_cache_scheme \<times> ocf_lru_list) option) \<Rightarrow>
   nat \<Rightarrow> nat \<Rightarrow> bool \<Rightarrow> 'z lru_cache_scheme \<Rightarrow> 'z lru_cache_scheme option" where
  "on_list f p i clean s = do {
     (s', L) \<leftarrow> f s (ocf_lru_get_list s p i clean);
     Some (put_list p i clean L s') }"

definition lru_get_cline_list :: "'z lru_cache_scheme \<Rightarrow> nat \<Rightarrow> (nat \<times> nat \<times> bool) option" where
  "lru_get_cline_list s cline = do {
     let lru_list = OCF_LRU_GET_LIST_INDEX cline;
     part_id \<leftarrow> ocf_metadata_get_partition_id s cline;
     bug_on (part_id > OCF_USER_IO_CLASS_MAX);
     dirty \<leftarrow> metadata_test_dirty s cline;
     Some (part_id, lru_list, \<not> dirty) }"

subsection \<open>Operations\<close>

definition ocf_lru_add :: "'z lru_cache_scheme \<Rightarrow> nat \<Rightarrow> 'z lru_cache_scheme option" where
  "ocf_lru_add s cline = do {
     (p, i, clean) \<leftarrow> lru_get_cline_list s cline;
     on_list (\<lambda>s L. add_lru_head s L cline) p i clean s }"

definition ocf_lru_move ::
  "'z lru_cache_scheme \<Rightarrow> nat \<Rightarrow> nat \<times> nat \<times> bool \<Rightarrow> nat \<times> nat \<times> bool \<Rightarrow> 'z lru_cache_scheme option" where
  "ocf_lru_move s cline src dst = (case (src, dst) of ((p, i, c), (q, j, d)) \<Rightarrow> do {
     s \<leftarrow> on_list (\<lambda>s L. ocf_lru_remove_locked s L cline) p i c s;
     on_list (\<lambda>s L. add_lru_head s L cline) q j d s })"

definition ocf_lru_repart_locked ::
  "'z lru_cache_scheme \<Rightarrow> nat \<Rightarrow> nat \<Rightarrow> nat \<Rightarrow> 'z lru_cache_scheme option" where
  "ocf_lru_repart_locked s cline src_part dst_part = do {
     let lru_list = OCF_LRU_GET_LIST_INDEX cline;
     dirty \<leftarrow> metadata_test_dirty s cline;
     let clean = (\<not> dirty);
     s \<leftarrow> ocf_lru_move s cline (src_part, lru_list, clean) (dst_part, lru_list, clean);
     s \<leftarrow> ocf_metadata_set_partition_id s cline dst_part;
     let s = upd_part src_part (\<lambda>P. P\<lparr>curr_size := curr_size P - 1\<rparr>) s;
     Some (upd_part dst_part (\<lambda>P. P\<lparr>curr_size := curr_size P + 1\<rparr>) s) }"

definition ocf_lru_repart :: "'z lru_cache_scheme \<Rightarrow> nat \<Rightarrow> nat \<Rightarrow> nat \<Rightarrow> 'z lru_cache_scheme option" where
  "ocf_lru_repart s cline src_part dst_part = ocf_lru_repart_locked s cline src_part dst_part"

definition ocf_lru_detach :: "'z lru_cache_scheme \<Rightarrow> nat \<Rightarrow> nat \<Rightarrow> 'z lru_cache_scheme option" where
  "ocf_lru_detach s p cline = ocf_lru_repart s cline p PARTITION_FREE_DETACHED"

definition ocf_lru_reattach :: "'z lru_cache_scheme \<Rightarrow> nat \<Rightarrow> 'z lru_cache_scheme option" where
  "ocf_lru_reattach s cline = ocf_lru_repart s cline PARTITION_FREE_DETACHED PARTITION_FREELIST"

text \<open>\<open>user_parts\<close> has 35 elements.\<close>

definition ocf_lru_rm_cline :: "'z lru_cache_scheme \<Rightarrow> nat \<Rightarrow> 'z lru_cache_scheme option" where
  "ocf_lru_rm_cline s cline = do {
     part_id \<leftarrow> ocf_metadata_get_partition_id s cline;
     bug_on (part_id > OCF_USER_IO_CLASS_MAX);
     ocf_lru_repart s cline part_id PARTITION_FREELIST }"

definition ocf_lru_hot_cline :: "'z lru_cache_scheme \<Rightarrow> nat \<Rightarrow> 'z lru_cache_scheme option" where
  "ocf_lru_hot_cline s cline = do {
     let lru_list = OCF_LRU_GET_LIST_INDEX cline;
     node \<leftarrow> ocf_metadata_get_lru s cline;
     if l_hot node then Some s
     else do {
       bug_on (partition_id node > OCF_USER_IO_CLASS_MAX);
       dirty \<leftarrow> metadata_test_dirty s cline;
       let L = ocf_lru_get_list s (partition_id node) lru_list (\<not> dirty);
       bug_on (l_next node = end_marker \<and> tail L \<noteq> cline);
       bug_on (l_prev node = end_marker \<and> head L \<noteq> cline);
       on_list (\<lambda>s L. ocf_lru_set_hot s L cline) (partition_id node) lru_list (\<not> dirty) s } }"

definition ocf_lru_clean_cline :: "'z lru_cache_scheme \<Rightarrow> nat \<Rightarrow> nat \<Rightarrow> 'z lru_cache_scheme option" where
  "ocf_lru_clean_cline s p cline = do {
     let lru_list = OCF_LRU_GET_LIST_INDEX cline;
     s \<leftarrow> on_list (\<lambda>s L. ocf_lru_remove_locked s L cline) p lru_list False s;
     on_list (\<lambda>s L. add_lru_head s L cline) p lru_list True s }"

definition ocf_lru_dirty_cline :: "'z lru_cache_scheme \<Rightarrow> nat \<Rightarrow> nat \<Rightarrow> 'z lru_cache_scheme option" where
  "ocf_lru_dirty_cline s p cline = do {
     let lru_list = OCF_LRU_GET_LIST_INDEX cline;
     s \<leftarrow> on_list (\<lambda>s L. ocf_lru_remove_locked s L cline) p lru_list True s;
     on_list (\<lambda>s L. add_lru_head s L cline) p lru_list False s }"

text \<open>Initialisation of a partition: of the free list only the clean lists are touched.\<close>

definition ocf_lru_init_lists :: "nat \<Rightarrow> nat \<Rightarrow> 'z lru_cache_scheme \<Rightarrow> 'z lru_cache_scheme" where
  "ocf_lru_init_lists p i s =
     (if p = PARTITION_FREELIST then put_list p i True (lru_init False) s
      else put_list p i False (lru_init True) (put_list p i True (lru_init True) s))"

definition ocf_lru_init :: "nat \<Rightarrow> 'z lru_cache_scheme \<Rightarrow> 'z lru_cache_scheme" where
  "ocf_lru_init p s =
     upd_part p (\<lambda>P. P\<lparr>curr_size := 0, evict_counter := 0\<rparr>)
       (fold (ocf_lru_init_lists p) [0..<OCF_NUM_LRU_LISTS] s)"

definition ocf_lru_add_free :: "'z lru_cache_scheme \<Rightarrow> nat \<Rightarrow> 'z lru_cache_scheme option" where
  "ocf_lru_add_free s cline =
     on_list (\<lambda>s L. add_lru_head_nobalance s L cline) PARTITION_FREELIST (OCF_LRU_GET_LIST_INDEX cline) True s"

subsection \<open>Populating the free list\<close>

definition ocf_get_chunk_cline :: "nat \<Rightarrow> nat \<Rightarrow> nat \<Rightarrow> nat" where
  "ocf_get_chunk_cline lru_idx chunk_idx pos =
     ((chunk_idx * OCF_NUM_LRU_LISTS + lru_idx) mod 2 ^ 32 * OCF_LRU_CHUNK_SIZE + pos) mod 2 ^ 32"

definition populate_line :: "nat \<Rightarrow> nat \<Rightarrow> 'z lru_cache_scheme \<Rightarrow> 'z lru_cache_scheme option" where
  "populate_line shard cline s = do {
     bug_on (cline \<ge> collision_table_entries s);
     s \<leftarrow> ocf_metadata_set_partition_id s cline PARTITION_FREELIST;
     on_list (\<lambda>s L. add_lru_head_nobalance s L cline) PARTITION_FREELIST shard True s }"

fun populate_chunks ::
  "nat \<Rightarrow> nat \<Rightarrow> nat \<Rightarrow> nat \<Rightarrow> bisect_state \<Rightarrow> nat \<Rightarrow> 'z lru_cache_scheme \<Rightarrow> (nat \<times> 'z lru_cache_scheme) option" where
  "populate_chunks shard full partial 0 g cnt s = Some (cnt, s)"
| "populate_chunks shard full partial (Suc n) g cnt s = do {
     (chunk_idx, g) \<leftarrow> ocf_generator_bisect_next g;
     let chunk_lines = (if unat chunk_idx = full then partial else OCF_LRU_CHUNK_SIZE);
     s \<leftarrow> each_entry (\<lambda>j. populate_line shard (ocf_get_chunk_cline shard (unat chunk_idx) j)) [0..<chunk_lines] s;
     populate_chunks shard full partial n g (cnt + chunk_lines) s }"

definition partial_chunk_lines :: "nat \<Rightarrow> nat \<Rightarrow> nat" where
  "partial_chunk_lines remainder shard_id =
     (if remainder > shard_id * OCF_LRU_CHUNK_SIZE
      then min (remainder - shard_id * OCF_LRU_CHUNK_SIZE) OCF_LRU_CHUNK_SIZE else 0)"

text \<open>The result is the number of lines, which the caller adds to the size in the shared context.\<close>

definition ocf_lru_populate_handle :: "nat \<Rightarrow> 'z lru_cache_scheme \<Rightarrow> (nat \<times> 'z lru_cache_scheme) option" where
  "ocf_lru_populate_handle shard_id s = do {
     let entries = collision_table_entries s;
     let num_full_chunks = entries div OCF_LRU_STRIPE_SIZE;
     let partial = partial_chunk_lines (entries mod OCF_LRU_STRIPE_SIZE) shard_id;
     let num_chunks = num_full_chunks + (if partial > 0 then 1 else 0);
     if num_chunks = 0 then Some (0, s)
     else do {
       g \<leftarrow> ocf_generator_bisect_init (of_nat num_chunks) 0;
       populate_chunks shard_id num_full_chunks partial num_chunks g 0 s } }"

fun populate_shards :: "nat list \<Rightarrow> nat \<Rightarrow> 'z lru_cache_scheme \<Rightarrow> (nat \<times> 'z lru_cache_scheme) option" where
  "populate_shards [] amount s = Some (amount, s)"
| "populate_shards (k # ks) amount s = do {
     (cnt, s) \<leftarrow> ocf_lru_populate_handle k s;
     populate_shards ks (amount + cnt) s }"

text \<open>
  \<open>shards\<close> is the order in which the shards happen to run; at the end \<open>ocf_lru_populate_finish\<close> stores
  the sum of their counts.
\<close>

definition ocf_lru_populate :: "nat list \<Rightarrow> 'z lru_cache_scheme \<Rightarrow> 'z lru_cache_scheme option" where
  "ocf_lru_populate shards s = do {
     (amount, s) \<leftarrow> populate_shards shards 0 s;
     Some (upd_part PARTITION_FREELIST (\<lambda>P. P\<lparr>curr_size := int amount\<rparr>) s) }"

subsection \<open>Where the lines are\<close>

text \<open>
  A slot is a partition, an index and a kind of list. \<open>rep\<close> gives the lines of every slot; the home of
  a line is the slot that its partition, its number and its dirty bits name.
\<close>

type_synonym slot = "nat \<times> nat \<times> bool"

definition slots :: "slot set" where
  "slots = {(p, i, c). p \<le> PARTITION_FREE_DETACHED \<and> i < OCF_NUM_LRU_LISTS \<and> (p = PARTITION_FREELIST \<longrightarrow> c)}"

abbreviation glist :: "'z lru_cache_scheme \<Rightarrow> slot \<Rightarrow> ocf_lru_list" where
  "glist s sl \<equiv> ocf_lru_get_list s (fst sl) (fst (snd sl)) (snd (snd sl))"

abbreviation plist :: "slot \<Rightarrow> ocf_lru_list \<Rightarrow> 'z lru_cache_scheme \<Rightarrow> 'z lru_cache_scheme" where
  "plist sl \<equiv> put_list (fst sl) (fst (snd sl)) (snd (snd sl))"

definition home :: "'z lru_cache_scheme \<Rightarrow> nat \<Rightarrow> slot" where
  "home s x = (partition_id (lru_meta s x), OCF_LRU_GET_LIST_INDEX x,
     list_kind (partition_id (lru_meta s x)) (marked Dirty s x = {}))"

definition lists_ok :: "'z lru_cache_scheme \<Rightarrow> (slot \<Rightarrow> nat list) \<Rightarrow> bool" where
  "lists_ok s rep \<longleftrightarrow> lru_ready s \<and>
     (\<forall>sl\<in>slots. lru_list s (glist s sl) (rep sl) \<and> track_hot (glist s sl) = (fst sl \<noteq> PARTITION_FREELIST)) \<and>
     (\<forall>sl\<in>slots. \<forall>sl'\<in>slots. sl \<noteq> sl' \<longrightarrow> set (rep sl) \<inter> set (rep sl') = {})"

text \<open>\<open>relinked s s'\<close>: the states differ only in the links, the hot bits and the list records.\<close>

definition relinked :: "'z lru_cache_scheme \<Rightarrow> 'z lru_cache_scheme \<Rightarrow> bool" where
  "relinked s s' \<longleftrightarrow> (\<exists>m P. s' = s\<lparr>lru_meta := m, cparts := P\<rparr> \<and>
     (\<forall>y. partition_id (m y) = partition_id (lru_meta s y)) \<and>
     (\<forall>p. curr_size (P p) = curr_size (cparts s p) \<and> evict_counter (P p) = evict_counter (cparts s p)))"

lemma relinkedI:
  "s' = s\<lparr>lru_meta := m, cparts := P\<rparr> \<Longrightarrow> (\<And>y. partition_id (m y) = partition_id (lru_meta s y)) \<Longrightarrow>
   (\<And>p. curr_size (P p) = curr_size (cparts s p) \<and> evict_counter (P p) = evict_counter (cparts s p)) \<Longrightarrow> relinked s s'"
  unfolding relinked_def by blast

lemma relinked_trans: "relinked s s' \<Longrightarrow> relinked s' s'' \<Longrightarrow> relinked s s''"
  unfolding relinked_def [of s s'] relinked_def [of s' s'']
  by (elim exE conjE) (rule relinkedI [where m = "lru_meta s''" and P = "cparts s''"], auto)

lemma relinked_refl [simp]: "relinked s s"
  by (rule relinkedI [where m = "lru_meta s" and P = "cparts s"]) simp_all

lemma marked_cong: "collision s' = collision s \<Longrightarrow> marked w s' x = marked w s x"
  by (simp add: marked_def)

lemma relinkedD:
  assumes "relinked s s'"
  shows "collision s' = collision s" "collision_table_entries s' = collision_table_entries s"
    "partition_id (lru_meta s' x) = partition_id (lru_meta s x)" "curr_size (cparts s' p) = curr_size (cparts s p)"
    "eviction_policy s' = eviction_policy s" "md_ok s' = md_ok s" "marked w s' x = marked w s x"
    "home s' x = home s x" "block_4k s' = block_4k s" "line_size s' = line_size s"
    "eviction_policy_type s' = eviction_policy_type s" "evict_counter (cparts s' p) = evict_counter (cparts s p)"
  using assms unfolding relinked_def by (auto simp: md_ok_def marked_def home_def)

lemma get_put_list:
  "sl \<in> slots \<Longrightarrow> sl' \<in> slots \<Longrightarrow> glist (plist sl L s) sl' = (if sl' = sl then L else glist s sl')"
  by (cases sl; cases sl') (auto simp: ocf_lru_get_list_def put_list_def upd_part_def list_kind_def slots_def)

lemma put_list_fields [simp]:
  "lru_meta (put_list p i c L s) = lru_meta s" "collision_table_entries (put_list p i c L s) = collision_table_entries s"
  "collision (put_list p i c L s) = collision s"
  "lru_ready (put_list p i c L s) = lru_ready s" "lru_list (put_list p i c L s) = lru_list s"
  "curr_size (cparts (put_list p i c L s) q) = curr_size (cparts s q)"
  "evict_counter (cparts (put_list p i c L s) q) = evict_counter (cparts s q)"
  by (simp_all add: put_list_def upd_part_def lru_ready_def lru_list_def lru_rep_def fun_eq_iff)

lemma lru_list_frame:
  "lru_only A s s' \<Longrightarrow> A \<inter> set xs = {} \<Longrightarrow> lru_list s L xs \<Longrightarrow> lru_list s' L xs"
  unfolding lru_list_def by (elim exE conjE) (metis lru_rep_frame)

lemma lru_only_glist: "lru_only A s s' \<Longrightarrow> glist s' sl = glist s sl"
  by (auto simp: lru_only_def ocf_lru_get_list_def)

lemma lru_only_put: "lru_only A s s' \<Longrightarrow> relinked s (put_list p i c L s')"
  unfolding lru_only_def put_list_def upd_part_def
  by (elim exE conjE) (rule relinkedI [where m = "lru_meta s'" and
      P = "cparts (put_list p i c L s)"], auto simp: put_list_def upd_part_def)

text \<open>An operation on the list of one slot that keeps to its lines and to lines on no list.\<close>

lemma on_list_step:
  assumes ok: "lists_ok s rep" and sl: "sl \<in> slots"
    and f: "\<exists>s' L. f s (glist s sl) = Some (s', L) \<and> lru_only (set A \<union> set (rep sl)) s s' \<and>
      track_hot L = track_hot (glist s sl) \<and> lru_list s' L ys"
    and A: "\<forall>sl'\<in>slots. sl' \<noteq> sl \<longrightarrow> set A \<inter> set (rep sl') = {}"
    and ys: "set ys \<subseteq> set A \<union> set (rep sl)"
  shows "\<exists>s'. on_list f (fst sl) (fst (snd sl)) (snd (snd sl)) s = Some s' \<and>
    lists_ok s' (rep(sl := ys)) \<and> relinked s s'"
proof -
  obtain s1 L where f: "f s (glist s sl) = Some (s1, L)" "lru_only (set A \<union> set (rep sl)) s s1"
    "track_hot L = track_hot (glist s sl)" "lru_list s1 L ys" using f by blast
  let ?s = "plist sl L s1"
  have dis: "set (rep sl) \<inter> set (rep sl') = {}" if "sl' \<in> slots" "sl' \<noteq> sl" for sl'
    using ok sl that unfolding lists_ok_def by blast
  have "lru_list s1 (glist s1 sl') (rep sl')" if "sl' \<in> slots" "sl' \<noteq> sl" for sl'
  proof -
    have "(set A \<union> set (rep sl)) \<inter> set (rep sl') = {}" using A dis that by blast
    then show ?thesis
      using lru_list_frame [OF f(2)] ok that lru_only_glist [OF f(2), of sl'] unfolding lists_ok_def by simp
  qed
  then have "\<forall>sl'\<in>slots. lru_list ?s (glist ?s sl') ((rep(sl := ys)) sl') \<and>
      track_hot (glist ?s sl') = (fst sl' \<noteq> PARTITION_FREELIST)"
    using f(3,4) ok sl by (simp add: get_put_list lru_only_glist [OF f(2)] lists_ok_def)
  moreover have "set ((rep(sl := ys)) a) \<inter> set ((rep(sl := ys)) b) = {}"
    if "a \<in> slots" "b \<in> slots" "a \<noteq> b" for a b
  proof -
    have "set ys \<inter> set (rep c) = {}" if "c \<in> slots" "c \<noteq> sl" for c using ys A dis that by blast
    moreover have "set (rep a) \<inter> set (rep b) = {}" using ok that unfolding lists_ok_def by blast
    ultimately show ?thesis using that by (metis fun_upd_apply inf_commute)
  qed
  ultimately have "lists_ok ?s (rep(sl := ys))"
    using ok lru_onlyD(3) [OF f(2)] unfolding lists_ok_def put_list_fields by blast
  with f(1) lru_only_put [OF f(2)] show ?thesis by (auto simp: on_list_def)
qed

lemma on_list_remove:
  assumes ok: "lists_ok s rep" and sl: "sl \<in> slots" and x: "x \<in> set (rep sl)"
  shows "\<exists>s'. on_list (\<lambda>s L. ocf_lru_remove_locked s L x) (fst sl) (fst (snd sl)) (snd (snd sl)) s = Some s' \<and>
    lists_ok s' (rep(sl := remove1 x (rep sl))) \<and> relinked s s'"
proof (rule on_list_step [OF ok sl, where A = "[]"])
  show "\<exists>s' L. ocf_lru_remove_locked s (glist s sl) x = Some (s', L) \<and> lru_only (set [] \<union> set (rep sl)) s s' \<and>
      track_hot L = track_hot (glist s sl) \<and> lru_list s' L (remove1 x (rep sl))"
    using remove_locked_spec [of s "glist s sl" "rep sl" x] ok sl x unfolding lists_ok_def by simp
qed (auto dest: set_remove1_subset [THEN subsetD])

lemma on_list_hot:
  assumes ok: "lists_ok s rep" and sl: "sl \<in> slots" and x: "x \<in> set (rep sl)"
  shows "\<exists>s'. on_list (\<lambda>s L. ocf_lru_set_hot s L x) (fst sl) (fst (snd sl)) (snd (snd sl)) s = Some s' \<and>
    lists_ok s' (rep(sl := x # remove1 x (rep sl))) \<and> relinked s s'"
proof (rule on_list_step [OF ok sl, where A = "[]"])
  show "\<exists>s' L. ocf_lru_set_hot s (glist s sl) x = Some (s', L) \<and> lru_only (set [] \<union> set (rep sl)) s s' \<and>
      track_hot L = track_hot (glist s sl) \<and> lru_list s' L (x # remove1 x (rep sl))"
    using set_hot_spec [of s "glist s sl" "rep sl" x] ok sl x unfolding lists_ok_def by simp
qed (use x in \<open>auto dest: set_remove1_subset [THEN subsetD]\<close>)

lemma on_list_add:
  assumes ok: "lists_ok s rep" and sl: "sl \<in> slots"
    and x: "x < collision_table_entries s" "\<forall>sl'\<in>slots. x \<notin> set (rep sl')"
  shows "\<exists>s'. on_list (\<lambda>s L. add_lru_head s L x) (fst sl) (fst (snd sl)) (snd (snd sl)) s = Some s' \<and>
    lists_ok s' (rep(sl := x # rep sl)) \<and> relinked s s'"
proof (rule on_list_step [OF ok sl, where A = "[x]"])
  show "\<exists>s' L. add_lru_head s (glist s sl) x = Some (s', L) \<and> lru_only (set [x] \<union> set (rep sl)) s s' \<and>
      track_hot L = track_hot (glist s sl) \<and> lru_list s' L (x # rep sl)"
    using add_lru_head_spec [of s "glist s sl" "rep sl" x] ok sl x unfolding lists_ok_def by simp
qed (use x in auto)

definition part_size :: "(slot \<Rightarrow> nat list) \<Rightarrow> nat \<Rightarrow> nat" where
  "part_size rep p = (\<Sum>sl\<in>{sl \<in> slots. fst sl = p}. length (rep sl))"

text \<open>
  The invariant: every list represents the lines of its slot, every line is on the list of its home, and
  the size of a partition is the number of its lines.
\<close>

definition cache_inv :: "'z lru_cache_scheme \<Rightarrow> (slot \<Rightarrow> nat list) \<Rightarrow> bool" where
  "cache_inv s rep \<longleftrightarrow> lists_ok s rep \<and> eviction_policy s = ocf_eviction_lru \<and> md_ok s \<and>
     (\<forall>sl\<in>slots. \<forall>x\<in>set (rep sl). home s x = sl) \<and>
     (\<forall>p \<le> PARTITION_FREE_DETACHED. curr_size (cparts s p) = int (part_size rep p))"

definition moved :: "nat \<Rightarrow> slot \<Rightarrow> slot \<Rightarrow> (slot \<Rightarrow> nat list) \<Rightarrow> slot \<Rightarrow> nat list" where
  "moved x src dst rep = (let r = rep(src := remove1 x (rep src)) in r(dst := x # r dst))"

lemma finite_slots [simp]: "finite slots"
proof (rule finite_subset)
  show "slots \<subseteq> {..PARTITION_FREE_DETACHED} \<times> {..<OCF_NUM_LRU_LISTS} \<times> UNIV" by (auto simp: slots_def)
qed simp

lemma part_size_upd:
  "sl \<in> slots \<Longrightarrow> int (part_size (rep(sl := ys)) p) =
     int (part_size rep p) + (if fst sl = p then int (length ys) - int (length (rep sl)) else 0)"
proof -
  assume sl: "sl \<in> slots"
  let ?A = "{sl \<in> slots. fst sl = p}"
  show ?thesis
  proof (cases "fst sl = p")
    case True
    then have "sl \<in> ?A" using sl by simp
    then have "part_size (rep(sl := ys)) p = length ys + (\<Sum>t\<in>?A - {sl}. length ((rep(sl := ys)) t))"
      "part_size rep p = length (rep sl) + (\<Sum>t\<in>?A - {sl}. length (rep t))"
      by (simp_all add: part_size_def sum.remove)
    moreover have "(\<Sum>t\<in>?A - {sl}. length ((rep(sl := ys)) t)) = (\<Sum>t\<in>?A - {sl}. length (rep t))"
      by (rule sum.cong) auto
    ultimately show ?thesis using True by simp
  next
    case False
    then have "part_size (rep(sl := ys)) p = part_size rep p" unfolding part_size_def by (intro sum.cong) auto
    with False show ?thesis by simp
  qed
qed

lemma part_size_moved:
  assumes "src \<in> slots" "dst \<in> slots" "x \<in> set (rep src)"
  shows "int (part_size (moved x src dst rep) p) =
    int (part_size rep p) - (if fst src = p then 1 else 0) + (if fst dst = p then 1 else 0)"
proof -
  have l: "int (length (rep src)) = int (length (remove1 x (rep src))) + 1"
    using assms(3) Suc_pred [OF length_pos_if_in_set [OF assms(3)]] by (simp add: length_remove1)
  show ?thesis using assms(1,2) by (simp add: moved_def Let_def part_size_upd l)
qed

lemma lists_okD:
  assumes "lists_ok s rep" "sl \<in> slots"
  shows "lru_list s (glist s sl) (rep sl)" "distinct (rep sl)" "\<forall>x\<in>set (rep sl). x < collision_table_entries s"
    "lru_ready s" "x \<in> set (rep sl) \<Longrightarrow> sl' \<in> slots \<Longrightarrow> x \<in> set (rep sl') \<Longrightarrow> sl' = sl"
proof -
  show l: "lru_list s (glist s sl) (rep sl)" "lru_ready s" using assms unfolding lists_ok_def by blast+
  show "distinct (rep sl)" "\<forall>x\<in>set (rep sl). x < collision_table_entries s"
    using lru_list_fields(4,5) [OF l(1)] by blast+
  show "x \<in> set (rep sl) \<Longrightarrow> sl' \<in> slots \<Longrightarrow> x \<in> set (rep sl') \<Longrightarrow> sl' = sl"
    using assms unfolding lists_ok_def by blast
qed

lemma set_moved:
  assumes "lists_ok s rep" "src \<in> slots" "x \<in> set (rep src)" "sl \<in> slots"
  shows "set (moved x src dst rep sl) = (set (rep sl) - {x}) \<union> (if sl = dst then {x} else {})"
proof -
  have "x \<notin> set (rep sl)" if "sl \<noteq> src" using lists_okD(5) [OF assms(1,2,3,4)] that by blast
  then show ?thesis using lists_okD(2) [OF assms(1,2)] by (auto simp: moved_def Let_def)
qed

lemma dirty_eq:
  assumes "md_ok s" "x < collision_table_entries s"
  shows "metadata_test_dirty s x = Some (marked Dirty s x \<noteq> {})"
  unfolding metadata_test_dirty_def using ocf_metadata_test_eq [OF assms whole_line(1,2) [OF assms]] whole_line(3) [OF assms]
  by simp

lemma move_spec:
  assumes ok: "lists_ok s rep" and src: "src \<in> slots" and dst: "dst \<in> slots" and x: "x \<in> set (rep src)"
  shows "\<exists>s'. ocf_lru_move s x src dst = Some s' \<and> lists_ok s' (moved x src dst rep) \<and> relinked s s'"
proof -
  obtain s1 where s1: "on_list (\<lambda>s L. ocf_lru_remove_locked s L x) (fst src) (fst (snd src)) (snd (snd src)) s = Some s1"
    "lists_ok s1 (rep(src := remove1 x (rep src)))" "relinked s s1"
    using on_list_remove [OF ok src x] by blast
  note D = lists_okD [OF ok src]
  have "x < collision_table_entries s1" using D(3) x relinkedD(2) [OF s1(3)] by simp
  moreover have "\<forall>sl\<in>slots. x \<notin> set ((rep(src := remove1 x (rep src))) sl)"
    using D(2) D(5) [OF x] by auto
  ultimately obtain s2 where
    "on_list (\<lambda>s L. add_lru_head s L x) (fst dst) (fst (snd dst)) (snd (snd dst)) s1 = Some s2"
    "lists_ok s2 (moved x src dst rep)" "relinked s1 s2"
    using on_list_add [OF s1(2) dst, of x] unfolding moved_def Let_def by blast
  with s1 relinked_trans show ?thesis by (auto simp: ocf_lru_move_def split_beta)
qed

lemma cache_invD:
  assumes "cache_inv s rep"
  shows "lists_ok s rep" "eviction_policy s = ocf_eviction_lru" "md_ok s" "lru_ready s"
    "sl \<in> slots \<Longrightarrow> x \<in> set (rep sl) \<Longrightarrow> home s x = sl"
    "sl \<in> slots \<Longrightarrow> x \<in> set (rep sl) \<Longrightarrow> x < collision_table_entries s"
    "p \<le> PARTITION_FREE_DETACHED \<Longrightarrow> curr_size (cparts s p) = int (part_size rep p)"
  using assms lists_okD(3) unfolding cache_inv_def lists_ok_def by blast+

text \<open>The home of a line after it was given to another partition.\<close>

definition rehome :: "nat \<Rightarrow> nat \<Rightarrow> 'z lru_cache_scheme \<Rightarrow> slot" where
  "rehome dst x s = (dst, OCF_LRU_GET_LIST_INDEX x, list_kind dst (marked Dirty s x = {}))"

lemma slots_simps:
  "(p, i, c) \<in> slots \<longleftrightarrow> p \<le> PARTITION_FREE_DETACHED \<and> i < OCF_NUM_LRU_LISTS \<and> (p = PARTITION_FREELIST \<longrightarrow> c)"
  by (simp add: slots_def)

lemma index_bound [simp]: "OCF_LRU_GET_LIST_INDEX x < OCF_NUM_LRU_LISTS"
  by (simp add: OCF_LRU_GET_LIST_INDEX_def)

lemma rehome_slots: "dst \<le> PARTITION_FREE_DETACHED \<Longrightarrow> rehome dst x s \<in> slots"
  by (simp add: rehome_def slots_simps list_kind_def)

lemma list_kind_idem [simp]: "on_list f p i (list_kind p c) = on_list f p i c"
  by (auto simp: on_list_def ocf_lru_get_list_def put_list_def list_kind_def fun_eq_iff)

lemma lru_list_cong:
  assumes "lru_prv s' = lru_prv s" "lru_nxt s' = lru_nxt s" "\<And>x. l_hot (lru_meta s' x) = l_hot (lru_meta s x)"
    "collision_table_entries s' = collision_table_entries s"
  shows "lru_list s' L xs = lru_list s L xs"
  unfolding lru_list_def lru_rep_def assms ..

lemma move_kind:
  "ocf_lru_move s x (p, i, list_kind p c) (q, j, list_kind q d) = ocf_lru_move s x (p, i, c) (q, j, d)"
  by (simp add: ocf_lru_move_def)

text \<open>\<open>reparted x dst s s'\<close>: besides the links and list records only the partition of \<open>x\<close> differs.\<close>

definition reparted :: "nat \<Rightarrow> nat \<Rightarrow> 'z lru_cache_scheme \<Rightarrow> 'z lru_cache_scheme \<Rightarrow> bool" where
  "reparted x dst s s' \<longleftrightarrow> (\<exists>m P. s' = s\<lparr>lru_meta := m, cparts := P\<rparr> \<and>
     (\<forall>y. partition_id (m y) = (if y = x then dst else partition_id (lru_meta s y))))"

lemma repart_full:
  assumes inv: "cache_inv s rep" and sl: "sl \<in> slots" and x: "x \<in> set (rep sl)"
    and dst: "dst \<le> PARTITION_FREE_DETACHED"
  shows "\<exists>s'. ocf_lru_repart s x (fst sl) dst = Some s' \<and> cache_inv s' (moved x sl (rehome dst x s) rep) \<and>
    reparted x dst s s'"
proof -
  note I = cache_invD [OF inv]
  let ?dst = "rehome dst x s" and ?rep = "moved x sl (rehome dst x s) rep"
  have xN: "x < collision_table_entries s" using I(6) sl x by blast
  have h: "sl = rehome (fst sl) x s" using I(5) [OF sl x] by (cases sl) (simp add: home_def rehome_def)
  obtain s1 where s1: "ocf_lru_move s x sl ?dst = Some s1" "lists_ok s1 ?rep" "relinked s s1"
    using move_spec [OF I(1) sl rehome_slots [OF dst] x] by blast
  note R = relinkedD [OF s1(3)]
  have mv: "ocf_lru_move s x (fst sl, OCF_LRU_GET_LIST_INDEX x, marked Dirty s x = {})
      (dst, OCF_LRU_GET_LIST_INDEX x, marked Dirty s x = {}) = Some s1"
    using s1(1) h move_kind unfolding rehome_def by metis
  define s2 where "s2 = upd_lru x (\<lambda>n. n\<lparr>partition_id := dst\<rparr>) s1"
  define s3 where "s3 = upd_part dst (\<lambda>P. P\<lparr>curr_size := curr_size P + 1\<rparr>)
      (upd_part (fst sl) (\<lambda>P. P\<lparr>curr_size := curr_size P - 1\<rparr>) s2)"
  have "ocf_metadata_set_partition_id s1 x dst = Some s2"
    using dst xN I(2) R by (simp add: ocf_metadata_set_partition_id_def s2_def PARTITION_FREE_DETACHED_def)
  with mv have eq: "ocf_lru_repart s x (fst sl) dst = Some s3"
    using dirty_eq [OF I(3) xN] by (simp add: ocf_lru_repart_def ocf_lru_repart_locked_def Let_def s3_def)
  have same: "glist s3 t = glist s1 t" "lru_list s3 L xs = lru_list s1 L xs" "lru_ready s3 = lru_ready s1" for t L xs
    by (simp add: s3_def s2_def upd_part_def upd_lru_def ocf_lru_get_list_def, rule lru_list_cong)
      (simp_all add: s3_def s2_def upd_part_def upd_lru_def lru_ready_def fun_eq_iff)
  have lists: "lists_ok s3 ?rep" using s1(2) unfolding lists_ok_def same .
  have coll: "collision s3 = collision s" "collision_table_entries s3 = collision_table_entries s" "md_ok s3 = md_ok s"
    using R by (simp_all add: s3_def s2_def upd_part_def upd_lru_def md_ok_def)
  have pid: "partition_id (lru_meta s3 y) = (if y = x then dst else partition_id (lru_meta s y))" for y
    using R by (simp add: s3_def s2_def upd_part_def)
  have homes: "home s3 y = t" if t: "t \<in> slots" "y \<in> set (?rep t)" for t y
  proof (cases "y = x")
    case True
    then have "t = ?dst" using t set_moved [OF I(1) sl x t(1), of ?dst] by (auto split: if_splits)
    then show ?thesis using True pid marked_cong [OF coll(1)] by (simp add: home_def rehome_def)
  next
    case False
    then have "y \<in> set (rep t)" using t set_moved [OF I(1) sl x t(1), of ?dst] by (auto split: if_splits)
    then have "home s y = t" using I(5) t by blast
    then show ?thesis using False pid marked_cong [OF coll(1)] by (simp add: home_def)
  qed
  have "curr_size (cparts s3 p) = curr_size (cparts s p) - (if fst sl = p then 1 else 0) + (if fst ?dst = p then 1 else 0)" for p
    using R(4) by (simp add: s3_def s2_def upd_part_def upd_lru_def rehome_def)
  then have "\<forall>p \<le> PARTITION_FREE_DETACHED. curr_size (cparts s3 p) = int (part_size ?rep p)"
    using I(7) part_size_moved [where rep = rep, OF sl rehome_slots [OF dst] x] by metis
  moreover have "eviction_policy s3 = ocf_eviction_lru"
    using I(2) R by (simp add: s3_def s2_def upd_part_def upd_lru_def)
  ultimately have "cache_inv s3 ?rep" using lists homes coll(3) I(3) unfolding cache_inv_def by blast
  moreover have "s3 = s\<lparr>lru_meta := lru_meta s3, cparts := cparts s3\<rparr>"
    using s1(3) by (auto simp: relinked_def s3_def s2_def upd_part_def upd_lru_def)
  then have "reparted x dst s s3" unfolding reparted_def using pid by blast
  ultimately show ?thesis using eq by blast
qed

lemma repart_spec:
  assumes "cache_inv s rep" "sl \<in> slots" "x \<in> set (rep sl)" "dst \<le> PARTITION_FREE_DETACHED"
  shows "\<exists>s'. ocf_lru_repart s x (fst sl) dst = Some s' \<and> cache_inv s' (moved x sl (rehome dst x s) rep) \<and>
    collision s' = collision s \<and> collision_table_entries s' = collision_table_entries s \<and>
    partition_id (lru_meta s' x) = dst"
  using repart_full [OF assms] by (auto simp: reparted_def)

lemma cache_inv_relinked:
  assumes inv: "cache_inv s rep" and ok: "lists_ok s' rep'" and r: "relinked s s'"
    and sub: "\<And>sl. sl \<in> slots \<Longrightarrow> set (rep' sl) = set (rep sl) \<and> length (rep' sl) = length (rep sl)"
  shows "cache_inv s' rep'"
proof -
  note I = cache_invD [OF inv] and R = relinkedD [OF r]
  have "part_size rep' p = part_size rep p" for p
    unfolding part_size_def using sub by (intro sum.cong) auto
  then show ?thesis using ok I(2,3,5,7) sub unfolding cache_inv_def R by simp
qed

lemma list_ends:
  assumes r: "lru_ready s" and l: "lru_list s L xs" and x: "x \<in> set xs"
  shows "l_next (lru_meta s x) = end_marker \<longleftrightarrow> tail L = x" "l_prev (lru_meta s x) = end_marker \<longleftrightarrow> head L = x"
proof -
  note F = lru_list_fields [OF l]
  obtain as bs where xs: "xs = as @ x # bs" using x by (meson split_list)
  have e: "end_marker \<notin> set xs" using F(5) r unfolding lru_ready_def by (meson less_asym)
  have "final end_marker as = end_marker \<longleftrightarrow> as = []" "first end_marker bs = end_marker \<longleftrightarrow> bs = []"
    using e xs by (auto intro!: final_eq_iff first_eq_iff)
  moreover have "final x bs = x \<longleftrightarrow> bs = []" "first x as = x \<longleftrightarrow> as = []"
    using F(4) xs by (auto intro!: final_eq_iff first_eq_iff)
  ultimately show "l_next (lru_meta s x) = end_marker \<longleftrightarrow> tail L = x" "l_prev (lru_meta s x) = end_marker \<longleftrightarrow> head L = x"
    using F(2,3,6) by (simp_all add: xs lseg_split first_append)
qed

lemma hot_spec:
  assumes inv: "cache_inv s rep" and sl: "sl \<in> slots" "fst sl \<le> OCF_USER_IO_CLASS_MAX" and x: "x \<in> set (rep sl)"
  shows "\<exists>s'. ocf_lru_hot_cline s x = Some s' \<and>
    cache_inv s' (if l_hot (lru_meta s x) then rep else rep(sl := x # remove1 x (rep sl))) \<and> relinked s s'"
proof (cases "l_hot (lru_meta s x)")
  case True
  then show ?thesis
    using inv get_lru_ok [OF cache_invD(4,6) [OF inv]] sl(1) x
    by (intro exI [of _ s]) (simp add: ocf_lru_hot_cline_def Let_def)
next
  case False
  note I = cache_invD [OF inv]
  have xN: "x < collision_table_entries s" using I(6) sl(1) x by blast
  have h: "home s x = sl" using I(5) sl(1) x by blast
  obtain p i c where s: "sl = (p, i, c)" by (cases sl)
  have p: "p = partition_id (lru_meta s x)" "i = OCF_LRU_GET_LIST_INDEX x" "c = (marked Dirty s x = {})"
    using h s sl(2) by (auto simp: home_def list_kind_def PARTITION_FREELIST_def)
  let ?L = "glist s sl"
  note L = lists_okD(1,2) [OF I(1) sl(1)]
  note t = list_ends [OF I(4) L(1) x]
  obtain s' where s': "on_list (\<lambda>s L. ocf_lru_set_hot s L x) p i c s = Some s'"
      "lists_ok s' (rep(sl := x # remove1 x (rep sl)))" "relinked s s'"
    using on_list_hot [OF I(1) sl(1) x] by (auto simp: s)
  have "ocf_lru_hot_cline s x = Some s'"
    using False xN t s'(1) sl(2) by (simp add: ocf_lru_hot_cline_def get_lru_ok I(4) dirty_eq I(3) Let_def s p)
  moreover have "cache_inv s' (rep(sl := x # remove1 x (rep sl)))"
    using L(2) x length_pos_if_in_set [OF x]
    by (intro cache_inv_relinked [OF inv s'(2,3)]) (auto simp: length_remove1 insert_absorb)
  ultimately show ?thesis using False s'(3) by auto
qed

text \<open>Marking or unmarking blocks changes the home of a line; the lists are not touched by it.\<close>

lemma set_status_lru [simp]:
  "lru_meta (set_status x st s) = lru_meta s" "cparts (set_status x st (s :: 'z lru_cache_scheme)) = cparts s"
  "eviction_policy (set_status x st s) = eviction_policy s" "lru_ready (set_status x st s) = lru_ready s"
  "glist (set_status x st (s :: 'z lru_cache_scheme)) sl = glist s sl"
  "lru_list (set_status x st s) L xs = lru_list s L xs"
proof -
  show "lru_list (set_status x st s) L xs = lru_list s L xs"
    by (rule lru_list_cong) (simp_all add: set_status_def)
qed (simp_all add: set_status_def lru_ready_def ocf_lru_get_list_def)

lemma dirty_clean_spec:
  assumes inv: "cache_inv s rep" and sl: "(p, i, c) \<in> slots" "p \<noteq> PARTITION_FREELIST" and x: "x \<in> set (rep (p, i, c))"
    and re: "remarked Dirty x B s s1" and B: "B = {} \<longleftrightarrow> \<not> c"
  shows "\<exists>s'. (if c then ocf_lru_dirty_cline s1 p x else ocf_lru_clean_cline s1 p x) = Some s' \<and>
    cache_inv s' (moved x (p, i, c) (p, i, \<not> c) rep) \<and> relinked s1 s'"
proof -
  note I = cache_invD [OF inv]
  let ?src = "(p, i, c)" and ?dst = "(p, i, \<not> c)"
  obtain st where s1: "s1 = set_status x st s" "md_ok s1" "marked Dirty s1 x = B"
    using re unfolding remarked_def by blast
  have l1: "lists_ok s1 rep" using I(1) unfolding lists_ok_def s1(1) set_status_lru .
  have dst: "?dst \<in> slots" using sl by (simp add: slots_simps)
  obtain s' where s': "ocf_lru_move s1 x ?src ?dst = Some s'" "lists_ok s' (moved x ?src ?dst rep)" "relinked s1 s'"
    using move_spec [OF l1 sl(1) dst x] by blast
  have h: "home s x = ?src" using I(5) sl(1) x by blast
  then have i: "i = OCF_LRU_GET_LIST_INDEX x" by (simp add: home_def)
  have op: "(if c then ocf_lru_dirty_cline s1 p x else ocf_lru_clean_cline s1 p x) = Some s'"
    using s'(1) i by (cases c) (simp_all add: ocf_lru_move_def ocf_lru_dirty_cline_def ocf_lru_clean_cline_def Let_def)
  note R = relinkedD [OF s'(3)]
  have homes: "home s' y = t" if t: "t \<in> slots" "y \<in> set (moved x ?src ?dst rep t)" for t y
  proof (cases "y = x")
    case True
    then have "t = ?dst" using t set_moved [OF l1 sl(1) x t(1), of ?dst] by (auto split: if_splits)
    then show ?thesis using True R(7,8) s1(3) B h sl(2) by (auto simp: home_def s1(1) list_kind_def)
  next
    case False
    then have "y \<in> set (rep t)" using t set_moved [OF l1 sl(1) x t(1), of ?dst] by (auto split: if_splits)
    then have "home s y = t" using I(5) t by blast
    moreover have "marked Dirty s1 y = marked Dirty s y" using False by (simp add: s1(1) marked_def)
    ultimately have "home s1 y = t" by (simp add: home_def s1(1))
    then show ?thesis using R(8) by simp
  qed
  have "curr_size (cparts s' q) = int (part_size (moved x ?src ?dst rep) q)" if "q \<le> PARTITION_FREE_DETACHED" for q
    using that I(7) R(4) part_size_moved [where rep = rep, OF sl(1) dst x, of q] by (simp add: s1(1))
  moreover have "eviction_policy s' = ocf_eviction_lru" "md_ok s'" using R I(2) s1 by simp_all
  ultimately have "cache_inv s' (moved x ?src ?dst rep)" using s'(2) homes unfolding cache_inv_def by blast
  with op s'(3) show ?thesis by blast
qed

subsection \<open>Refinement of the placement of lines\<close>

text \<open>
  The abstract state gives every line its partition and every slot its lines, most recently used first;
  \<open>d\<close> tells which lines are dirty. A line moves to the head when it is used while cold, and to the head of
  its new home when its partition changes.
\<close>

datatype ev_op = Hot nat | Repart nat nat | Remove nat | Detach nat | Reattach nat

type_synonym placement = "(nat \<Rightarrow> nat) \<times> (slot \<Rightarrow> nat list)"

definition slot_of :: "(nat \<Rightarrow> bool) \<Rightarrow> nat \<Rightarrow> nat \<Rightarrow> slot" where
  "slot_of d p x = (p, OCF_LRU_GET_LIST_INDEX x, list_kind p (\<not> d x))"

lemma fst_slot [simp]: "fst (slot_of d p x) = p" "fst (rehome p x s) = p"
  by (simp_all add: slot_of_def rehome_def)

definition place :: "(nat \<Rightarrow> bool) \<Rightarrow> nat \<Rightarrow> nat \<Rightarrow> placement \<Rightarrow> placement option" where
  "place d x q = (\<lambda>(pt, rep).
     if pt x \<le> PARTITION_FREE_DETACHED \<and> x \<in> set (rep (slot_of d (pt x) x)) \<and> q \<le> PARTITION_FREE_DETACHED
     then Some (pt(x := q), moved x (slot_of d (pt x) x) (slot_of d q x) rep) else None)"

definition in_hot_half :: "nat \<Rightarrow> nat list \<Rightarrow> bool" where
  "in_hot_half x xs \<longleftrightarrow> x \<in> set (take (length xs div 2) xs)"

lemma in_hot_half_nth:
  "distinct xs \<Longrightarrow> i < length xs \<Longrightarrow> in_hot_half (xs ! i) xs \<longleftrightarrow> i < length xs div 2"
  by (auto simp: in_hot_half_def in_set_conv_nth nth_eq_iff_index_eq intro!: exI [of _ i])

fun spec_ev :: "(nat \<Rightarrow> bool) \<Rightarrow> ev_op \<Rightarrow> placement \<Rightarrow> placement option" where
  "spec_ev d (Hot x) (pt, rep) =
     (let sl = slot_of d (pt x) x in
      if pt x \<le> OCF_USER_IO_CLASS_MAX \<and> x \<in> set (rep sl)
      then Some (pt, if in_hot_half x (rep sl) then rep else rep(sl := x # remove1 x (rep sl))) else None)"
| "spec_ev d (Repart x q) st = place d x q st"
| "spec_ev d (Remove x) st = (if fst st x \<le> OCF_USER_IO_CLASS_MAX then place d x PARTITION_FREELIST st else None)"
| "spec_ev d (Detach x) st = place d x PARTITION_FREE_DETACHED st"
| "spec_ev d (Reattach x) st =
     (if fst st x = PARTITION_FREE_DETACHED then place d x PARTITION_FREELIST st else None)"

text \<open>The callers name the partition that the metadata of the line holds.\<close>

fun code_ev :: "ev_op \<Rightarrow> 'z lru_cache_scheme \<Rightarrow> 'z lru_cache_scheme option" where
  "code_ev (Hot x) s = ocf_lru_hot_cline s x"
| "code_ev (Repart x q) s = do { p \<leftarrow> ocf_metadata_get_partition_id s x; ocf_lru_repart s x p q }"
| "code_ev (Remove x) s = ocf_lru_rm_cline s x"
| "code_ev (Detach x) s = do { p \<leftarrow> ocf_metadata_get_partition_id s x; ocf_lru_detach s p x }"
| "code_ev (Reattach x) s = ocf_lru_reattach s x"

definition placed :: "(nat \<Rightarrow> bool) \<Rightarrow> 'z lru_cache_scheme \<Rightarrow> placement \<Rightarrow> bool" where
  "placed d s st \<longleftrightarrow> cache_inv s (snd st) \<and> (\<forall>x < collision_table_entries s. d x = (marked Dirty s x \<noteq> {})) \<and>
     (\<forall>sl\<in>slots. \<forall>x\<in>set (snd st sl). fst st x = fst sl)"

lemma placed_slot:
  assumes "placed d s (pt, rep)" "p \<le> PARTITION_FREE_DETACHED" "x \<in> set (rep (slot_of d p x))"
  shows "slot_of d p x \<in> slots" "slot_of d p x = home s x" "x < collision_table_entries s" "partition_id (lru_meta s x) = p"
    "slot_of d q x = rehome q x s"
proof -
  have I: "cache_inv s rep" using assms by (simp add: placed_def)
  show sl: "slot_of d p x \<in> slots" using assms(2) by (simp add: slot_of_def slots_simps list_kind_def)
  show h: "slot_of d p x = home s x" using cache_invD(5) [OF I sl assms(3)] by simp
  show n: "x < collision_table_entries s" using cache_invD(6) [OF I sl assms(3)] .
  show "partition_id (lru_meta s x) = p" using h by (simp add: slot_of_def home_def)
  have "d x = (marked Dirty s x \<noteq> {})" using assms(1) n by (simp add: placed_def)
  then show "slot_of d q x = rehome q x s" by (simp add: slot_of_def rehome_def)
qed

lemma place_refines:
  assumes pl: "placed d s st" and spec: "place d x q st = Some st'"
  shows "\<exists>s'. ocf_lru_repart s x (fst st x) q = Some s' \<and> placed d s' st'"
    "ocf_metadata_get_partition_id s x = Some (fst st x)"
proof -
  obtain pt rep where st: "st = (pt, rep)" by (cases st)
  have g: "pt x \<le> PARTITION_FREE_DETACHED" "x \<in> set (rep (slot_of d (pt x) x))" "q \<le> PARTITION_FREE_DETACHED"
    and st': "st' = (pt(x := q), moved x (slot_of d (pt x) x) (slot_of d q x) rep)"
    using spec by (auto simp: st place_def split: if_splits)
  have pl': "placed d s (pt, rep)" using pl st by simp
  note P = placed_slot [OF pl' g(1,2)]
  have I: "cache_inv s rep" using pl' by (simp add: placed_def)
  show "ocf_metadata_get_partition_id s x = Some (fst st x)"
    using P(3,4) cache_invD(2) [OF I] by (simp add: ocf_metadata_get_partition_id_def st)
  obtain s' where s': "ocf_lru_repart s x (pt x) q = Some s'"
      "cache_inv s' (moved x (slot_of d (pt x) x) (slot_of d q x) rep)"
      "collision s' = collision s" "collision_table_entries s' = collision_table_entries s"
    using repart_spec [OF I P(1) g(2,3)] unfolding P(5) by auto
  have "(pt(x := q)) y = fst sl" if "sl \<in> slots" "y \<in> set (moved x (slot_of d (pt x) x) (slot_of d q x) rep sl)" for sl y
    using that set_moved [OF cache_invD(1) [OF I] P(1) g(2) that(1), of "slot_of d q x"] pl'
    by (auto simp: placed_def slot_of_def split: if_splits)
  then have "placed d s' st'"
    using s' pl' by (simp add: placed_def st' marked_cong [OF s'(3)])
  then show "\<exists>s'. ocf_lru_repart s x (fst st x) q = Some s' \<and> placed d s' st'" using s'(1) st by auto
qed

lemma hot_refines:
  assumes pl: "placed d s st" and spec: "spec_ev d (Hot x) st = Some st'"
  shows "\<exists>s'. ocf_lru_hot_cline s x = Some s' \<and> placed d s' st'"
proof -
  obtain pt rep where st: "st = (pt, rep)" by (cases st)
  let ?sl = "slot_of d (pt x) x"
  have g: "pt x \<le> OCF_USER_IO_CLASS_MAX" "x \<in> set (rep ?sl)"
    and st': "st' = (pt, if in_hot_half x (rep ?sl) then rep else rep(?sl := x # remove1 x (rep ?sl)))"
    using spec by (auto simp: st Let_def split: if_splits)
  have pl': "placed d s (pt, rep)" using pl st by simp
  have p: "pt x \<le> PARTITION_FREE_DETACHED" using g(1) by (simp add: PARTITION_FREE_DETACHED_def)
  note P = placed_slot [OF pl' p g(2)]
  have I: "cache_inv s rep" using pl' by (simp add: placed_def)
  have L: "lru_list s (glist s ?sl) (rep ?sl)" using lists_okD(1) [OF cache_invD(1) [OF I] P(1)] .
  have "track_hot (glist s ?sl) = (fst ?sl \<noteq> PARTITION_FREELIST)"
    using cache_invD(1) [OF I] P(1) unfolding lists_ok_def by blast
  then have "track_hot (glist s ?sl)" using g(1) by (simp add: PARTITION_FREELIST_def)
  then have hot: "l_hot (lru_meta s x) \<longleftrightarrow> in_hot_half x (rep ?sl)"
    using lru_list_hot [OF L] g(2) in_hot_half_nth [OF lists_okD(2) [OF cache_invD(1) [OF I] P(1)]]
    by (metis in_set_conv_nth)
  have f: "fst ?sl \<le> OCF_USER_IO_CLASS_MAX" using g(1) by (simp add: slot_of_def)
  obtain s' where s': "ocf_lru_hot_cline s x = Some s'" "cache_inv s' (snd st')" "relinked s s'"
    using hot_spec [OF I P(1) f g(2)] hot by (auto simp: st')
  have "placed d s' st'"
  proof -
    have "set (snd st' sl) = set (rep sl)" for sl
      using lists_okD(2) [OF cache_invD(1) [OF I] P(1)] g(2) by (auto simp: st')
    moreover have "fst st' = pt" by (simp add: st')
    ultimately show ?thesis using s'(2) relinkedD(2,7) [OF s'(3)] pl' unfolding placed_def by simp
  qed
  with s'(1) show ?thesis by blast
qed

text \<open>The interface between a policy and its callers: each operation simulates its abstract counterpart.\<close>

locale simulation =
  fixes rel :: "'s \<Rightarrow> 'a \<Rightarrow> bool" and spec :: "'op \<Rightarrow> 'a \<Rightarrow> 'a option" and code :: "'op \<Rightarrow> 's \<Rightarrow> 's option"
  assumes step_law: "rel s a \<Longrightarrow> spec op a = Some a' \<Longrightarrow> \<exists>s'. code op s = Some s' \<and> rel s' a'"
begin

lemma run_refines:
  "rel s a \<Longrightarrow> each_entry spec ops a = Some a' \<Longrightarrow> \<exists>s'. each_entry code ops s = Some s' \<and> rel s' a'"
proof (induction ops arbitrary: s a)
  case (Cons op ops)
  then obtain b where b: "spec op a = Some b" "each_entry spec ops b = Some a'" by (auto simp: bind_eq_Some_iff)
  from step_law [OF Cons.prems(1) b(1)] obtain t where "code op s = Some t" "rel t b" by blast
  with Cons.IH [of t b] b(2) show ?case by simp
qed simp

end

interpretation policy: simulation "placed d" "spec_ev d" code_ev
proof unfold_locales
  fix s :: "'z lru_cache_scheme" and st op st'
  assume pl: "placed d s st" and spec: "spec_ev d op st = Some st'"
  show "\<exists>s'. code_ev op s = Some s' \<and> placed d s' st'"
  proof (cases op)
    case (Hot x)
    with hot_refines [OF pl] spec show ?thesis by simp
  next
    case (Repart x q)
    with place_refines [OF pl, of x q st'] spec show ?thesis by simp
  next
    case (Remove x)
    with place_refines [OF pl, of x PARTITION_FREELIST st'] spec show ?thesis
      by (simp add: ocf_lru_rm_cline_def split: if_splits)
  next
    case (Detach x)
    with place_refines [OF pl, of x PARTITION_FREE_DETACHED st'] spec show ?thesis by (simp add: ocf_lru_detach_def)
  next
    case (Reattach x)
    with place_refines [OF pl, of x PARTITION_FREELIST st'] spec show ?thesis
      by (simp add: ocf_lru_reattach_def split: if_splits)
  qed
qed

text \<open>C19: Every sequence of uses, changes of partition, removals, detachments and reattachments of lines is
  executed without failing an assertion and leaves every line on the list that the abstract sequence gives
  it: the lists have the lines of their slots in the order of use, linked both ways, each line is on the one
  list that its partition, its number and its dirty bits name, and the size of every partition is the number
  of its lines.\<close>

theorem lru_cache_refines:
  assumes "placed d s st" "each_entry (spec_ev d) ops st = Some (pt, rep)"
  shows "\<exists>s'. each_entry code_ev ops s = Some s' \<and>
    (\<forall>p i c. (p, i, c) \<in> slots \<longrightarrow> lru_list s' (ocf_lru_get_list s' p i c) (rep (p, i, c)) \<and>
      (\<forall>x\<in>set (rep (p, i, c)). partition_id (lru_meta s' x) = p \<and> pt x = p \<and> OCF_LRU_GET_LIST_INDEX x = i \<and>
         (p \<noteq> PARTITION_FREELIST \<longrightarrow> c = (\<not> d x)))) \<and>
    (\<forall>p \<le> PARTITION_FREE_DETACHED. curr_size (cparts s' p) = int (part_size rep p))"
proof -
  obtain s' where s': "each_entry code_ev ops s = Some s'" "placed d s' (pt, rep)"
    using policy.run_refines [OF assms] by blast
  have I: "cache_inv s' rep" using s'(2) by (simp add: placed_def)
  have "lru_list s' (ocf_lru_get_list s' p i c) (rep (p, i, c))" if "(p, i, c) \<in> slots" for p i c
    using lists_okD(1) [OF cache_invD(1) [OF I] that] by simp
  moreover have "partition_id (lru_meta s' x) = p \<and> pt x = p \<and> OCF_LRU_GET_LIST_INDEX x = i \<and>
      (p \<noteq> PARTITION_FREELIST \<longrightarrow> c = (\<not> d x))" if "(p, i, c) \<in> slots" "x \<in> set (rep (p, i, c))" for p i c x
  proof -
    have "home s' x = (p, i, c)" "x < collision_table_entries s'" using cache_invD(5,6) [OF I that] by auto
    moreover have "pt x = p" using s'(2) that by (auto simp: placed_def)
    moreover have "d x = (marked Dirty s' x \<noteq> {})" using s'(2) calculation(2) by (simp add: placed_def)
    ultimately show ?thesis by (auto simp: home_def list_kind_def)
  qed
  ultimately show ?thesis using s'(1) cache_invD(7) [OF I] by blast
qed

subsection \<open>Initial lists\<close>

lemma upd_part_fields [simp]:
  "lru_meta (upd_part p f s) = lru_meta s" "collision (upd_part p f s) = collision s"
  "collision_table_entries (upd_part p f s) = collision_table_entries s" "lru_ready (upd_part p f s) = lru_ready s"
  "eviction_policy (upd_part p f s) = eviction_policy s" "md_ok (upd_part p f s) = md_ok s"
  "lru_list (upd_part p f s) = lru_list s" "cparts (upd_part p f s) q = (if q = p then f (cparts s p) else cparts s q)"
  by (simp_all add: upd_part_def lru_ready_def md_ok_def lru_list_def lru_rep_def fun_eq_iff)

text \<open>Everything that the initialisation of lists leaves alone.\<close>

definition same_lines :: "'z lru_cache_scheme \<Rightarrow> 'z lru_cache_scheme \<Rightarrow> bool" where
  "same_lines s s' \<longleftrightarrow> lru_meta s' = lru_meta s \<and> collision s' = collision s \<and>
     collision_table_entries s' = collision_table_entries s \<and> lru_ready s' = lru_ready s \<and>
     eviction_policy s' = eviction_policy s \<and> md_ok s' = md_ok s \<and> lru_list s' = lru_list s"

lemma same_lines_put [simp]: "same_lines s (put_list p i c L s') = same_lines s s'"
  "same_lines s (upd_part p f s') = same_lines s s'"
  by (simp_all add: same_lines_def put_list_def)

lemma same_lines_init_lists: "same_lines s (fold (ocf_lru_init_lists p) is s') = same_lines s s'"
  by (induction "is" arbitrary: s') (simp_all add: ocf_lru_init_lists_def)

lemma get_init_lists:
  assumes "(q, j, c) \<in> slots" "\<forall>i\<in>set is. i < OCF_NUM_LRU_LISTS" "p \<le> PARTITION_FREE_DETACHED"
  shows "ocf_lru_get_list (fold (ocf_lru_init_lists p) is s) q j c =
    (if q = p \<and> j \<in> set is then lru_init (p \<noteq> PARTITION_FREELIST) else ocf_lru_get_list s q j c)"
  using assms(2)
proof (induction "is" arbitrary: s)
  case (Cons i "is")
  have "ocf_lru_get_list (ocf_lru_init_lists p i s) q j c =
      (if q = p \<and> j = i then lru_init (p \<noteq> PARTITION_FREELIST) else ocf_lru_get_list s q j c)"
    using assms(1) by (auto simp: ocf_lru_init_lists_def ocf_lru_get_list_def put_list_def upd_part_def list_kind_def slots_simps)
  with Cons show ?case by auto
qed simp

lemma get_upd_size [simp]:
  "ocf_lru_get_list (upd_part p (\<lambda>P. P\<lparr>curr_size := a P, evict_counter := b P\<rparr>) s) q i c = ocf_lru_get_list s q i c"
  "ocf_lru_get_list (upd_part p (\<lambda>P. P\<lparr>curr_size := a P\<rparr>) s) q i c = ocf_lru_get_list s q i c"
  by (simp_all add: ocf_lru_get_list_def)

text \<open>Initialisation of all partitions.\<close>

definition init_parts :: "'z lru_cache_scheme \<Rightarrow> 'z lru_cache_scheme" where
  "init_parts s = fold ocf_lru_init [0..<Suc PARTITION_FREE_DETACHED] s"

lemma init_one:
  assumes "p \<le> PARTITION_FREE_DETACHED"
  shows "same_lines s (ocf_lru_init p s') = same_lines s s'"
    "(q, j, c) \<in> slots \<Longrightarrow> ocf_lru_get_list (ocf_lru_init p s) q j c =
       (if q = p then lru_init (q \<noteq> PARTITION_FREELIST) else ocf_lru_get_list s q j c)"
    "curr_size (cparts (ocf_lru_init p s) p) = 0"
proof -
  show "same_lines s (ocf_lru_init p s') = same_lines s s'" by (simp add: ocf_lru_init_def same_lines_init_lists del: upt_Suc)
  show "(q, j, c) \<in> slots \<Longrightarrow> ocf_lru_get_list (ocf_lru_init p s) q j c =
       (if q = p then lru_init (q \<noteq> PARTITION_FREELIST) else ocf_lru_get_list s q j c)"
    unfolding ocf_lru_init_def get_upd_size
    using get_init_lists [of q j c "[0..<OCF_NUM_LRU_LISTS]" p s] assms
    by (simp add: slots_simps del: upt_Suc)
  show "curr_size (cparts (ocf_lru_init p s) p) = 0" by (simp add: ocf_lru_init_def)
qed

lemma init_other_size: "q \<noteq> p \<Longrightarrow> curr_size (cparts (ocf_lru_init p s) q) = curr_size (cparts s q)"
proof -
  assume q: "q \<noteq> p"
  have "cparts (fold (ocf_lru_init_lists p) is s) q = cparts s q" for "is" and s :: "'a lru_cache_scheme"
    using q by (induction "is" arbitrary: s) (simp_all add: ocf_lru_init_lists_def put_list_def)
  then show ?thesis using q by (simp add: ocf_lru_init_def del: upt_Suc)
qed

lemma init_parts_spec:
  assumes "\<forall>p\<in>set ps. p \<le> PARTITION_FREE_DETACHED"
  shows "same_lines s (fold ocf_lru_init ps s)"
    "\<And>q j c. (q, j, c) \<in> slots \<Longrightarrow> q \<in> set ps \<Longrightarrow>
       ocf_lru_get_list (fold ocf_lru_init ps s) q j c = lru_init (q \<noteq> PARTITION_FREELIST)"
    "\<And>q. q \<in> set ps \<Longrightarrow> curr_size (cparts (fold ocf_lru_init ps s) q) = 0"
proof -
  have "same_lines s (fold ocf_lru_init ps s) \<and> (\<forall>q j c. (q, j, c) \<in> slots \<longrightarrow> q \<in> set ps \<longrightarrow>
       ocf_lru_get_list (fold ocf_lru_init ps s) q j c = lru_init (q \<noteq> PARTITION_FREELIST)) \<and>
     (\<forall>q\<in>set ps. curr_size (cparts (fold ocf_lru_init ps s) q) = 0)"
    using assms
  proof (induction ps rule: rev_induct)
    case (snoc p ps)
    then have p: "p \<le> PARTITION_FREE_DETACHED" by simp
    have "curr_size (cparts (ocf_lru_init p (fold ocf_lru_init ps s)) q) = 0" if "q \<in> set (ps @ [p])" for q
      using snoc that by (cases "q = p") (auto simp: init_one(3) [OF p] init_other_size)
    then show ?case using snoc by (simp add: init_one(1,2) [OF p])
  qed (simp add: same_lines_def)
  then show "same_lines s (fold ocf_lru_init ps s)"
    "\<And>q j c. (q, j, c) \<in> slots \<Longrightarrow> q \<in> set ps \<Longrightarrow>
       ocf_lru_get_list (fold ocf_lru_init ps s) q j c = lru_init (q \<noteq> PARTITION_FREELIST)"
    "\<And>q. q \<in> set ps \<Longrightarrow> curr_size (cparts (fold ocf_lru_init ps s) q) = 0" by blast+
qed

lemma init_parts_inv:
  assumes "lru_ready s" "eviction_policy s = ocf_eviction_lru" "md_ok s"
  shows "cache_inv (init_parts s) (\<lambda>_. [])" "collision_table_entries (init_parts s) = collision_table_entries s"
    "collision (init_parts s) = collision s"
proof -
  have "\<forall>p\<in>set [0..<Suc PARTITION_FREE_DETACHED]. p \<le> PARTITION_FREE_DETACHED" by auto
  note I = init_parts_spec [OF this, where s = s, folded init_parts_def]
  have "glist (init_parts s) sl = lru_init (fst sl \<noteq> PARTITION_FREELIST)" if "sl \<in> slots" for sl
    using I(2) [of "fst sl" "fst (snd sl)" "snd (snd sl)"] that by (cases sl) (auto simp: slots_simps simp del: upt_Suc)
  then have "lists_ok (init_parts s) (\<lambda>_. [])"
    using I(1) assms(1) by (simp add: lists_ok_def lru_list_init same_lines_def) (simp add: lru_init_def)
  then show "cache_inv (init_parts s) (\<lambda>_. [])"
    using I(1,3) assms(2,3) by (auto simp: cache_inv_def same_lines_def part_size_def le_less)
  show "collision_table_entries (init_parts s) = collision_table_entries s" "collision (init_parts s) = collision s"
    using I(1) by (simp_all add: same_lines_def)
qed

subsection \<open>The populated free list\<close>

lemma add_nobalance_free:
  assumes r: "lru_ready s" and L: "lru_list s L xs" "\<not> track_hot L" and c: "c < collision_table_entries s" "c \<notin> set xs"
  shows "\<exists>s' L'. add_lru_head_nobalance s L c = Some (s', L') \<and> lru_only (insert c (set xs)) s s' \<and>
    track_hot L' = track_hot L \<and> lru_list s' L' (c # xs)"
proof -
  obtain hs cs where xs: "xs = hs @ cs" "lru_rep s L hs cs" using L unfolding lru_list_def by (elim exE conjE)
  have hs: "hs = []" using lru_repD(11) [OF xs(2) L(2)] .
  obtain s' L' where a: "add_lru_head_nobalance s L c = Some (s', L')" "lru_only (insert c (set xs)) s s'"
    "track_hot L' = track_hot L" "lru_rep s' L' [] (c # xs)"
    using add_nobalance [OF r xs(2), of c] c L(2) xs(1) hs by auto
  have "lru_list s' L' (c # xs)" unfolding lru_list_def using a(3,4) L(2) by (metis append_Nil)
  with a show ?thesis by blast
qed

text \<open>The lines of a shard in the order of a list of chunks.\<close>

definition chunk_lines :: "nat \<Rightarrow> nat \<Rightarrow> nat \<Rightarrow> nat \<Rightarrow> nat list" where
  "chunk_lines shard full partial ci =
     map (ocf_get_chunk_cline shard ci) [0..<if ci = full then partial else OCF_LRU_CHUNK_SIZE]"

lemma each_entry_append: "each_entry f (xs @ ys) s = each_entry f xs s \<bind> each_entry f ys"
  by (induction xs arbitrary: s) (auto split: Option.bind_splits)

lemma each_entry_map: "each_entry f (map g xs) s = each_entry (\<lambda>x. f (g x)) xs s"
  by (induction xs arbitrary: s) (auto split: Option.bind_splits)

lemma populate_chunks_eq:
  "bisect_take n g = Some (vs, g') \<Longrightarrow>
   populate_chunks shard full partial n g cnt s =
     map_option (Pair (cnt + length (concat (map (\<lambda>v. chunk_lines shard full partial (unat v)) vs))))
       (each_entry (populate_line shard) (concat (map (\<lambda>v. chunk_lines shard full partial (unat v)) vs)) s)"
proof (induction n arbitrary: g vs cnt s)
  case (Suc n)
  then obtain v g1 ws where v: "ocf_generator_bisect_next g = Some (v, g1)" "bisect_take n g1 = Some (ws, g')"
    "vs = v # ws" by (auto simp: bind_eq_Some_iff)
  let ?cl = "chunk_lines shard full partial (unat v)"
  have "populate_chunks shard full partial (Suc n) g cnt s =
      each_entry (populate_line shard) ?cl s \<bind> populate_chunks shard full partial n g1 (cnt + length ?cl)"
    by (simp add: v(1) chunk_lines_def each_entry_map Let_def)
  then show ?case
    using Suc.IH [OF v(2)]
    by (cases "each_entry (populate_line shard) ?cl s") (simp_all add: v(3) each_entry_append add.assoc)
qed simp

definition shard_chunks :: "nat \<Rightarrow> nat \<Rightarrow> nat" where
  "shard_chunks N k = N div OCF_LRU_STRIPE_SIZE + (if partial_chunk_lines (N mod OCF_LRU_STRIPE_SIZE) k > 0 then 1 else 0)"

lemma chunk_cline:
  assumes "k < 32" "j < 256" "(ci * 32 + k) * 256 + j < 2 ^ 32"
  shows "ocf_get_chunk_cline k ci j = (ci * 32 + k) * 256 + j"
  using assms by (simp add: ocf_get_chunk_cline_def)

lemma stripe_div: "x div 8192 = x div 256 div 32" for x :: nat
  by (simp add: div_mult2_eq [symmetric])

lemma chunk_cline_parts:
  assumes "k < 32" "j < 256" "x = (ci * 32 + k) * 256 + j"
  shows "OCF_LRU_GET_LIST_INDEX x = k" "x div 8192 = ci" "x mod 256 = j"
proof -
  define q where "q = ci * 32 + k"
  have "x = q * 256 + j" using assms(3) by (simp add: q_def)
  then have x: "x div 256 = q" "x mod 256 = j" using assms(2) by simp_all
  have q: "q div 32 = ci" "q mod 32 = k" using assms(1) by (simp_all add: q_def)
  show "OCF_LRU_GET_LIST_INDEX x = k" "x mod 256 = j" "x div 8192 = ci"
    by (simp_all only: OCF_LRU_GET_LIST_INDEX_def stripe_div x q)
qed

lemma line_decomp: "x = (x div 8192 * 32 + OCF_LRU_GET_LIST_INDEX x) * 256 + x mod 256"
  unfolding OCF_LRU_GET_LIST_INDEX_def stripe_div div_mult_mod_eq ..

text \<open>The chunks of a shard hold exactly the lines of its index.\<close>

lemma chunk_bound:
  assumes "k < 32" "j < 256"
  shows "(ci * 32 + k) * 256 + j < N \<longleftrightarrow>
    ci < shard_chunks N k \<and> j < (if ci = N div 8192 then partial_chunk_lines (N mod 8192) k else 256)"
proof -
  obtain d r where N: "N = d * 8192 + r" "r < 8192" by (metis div_mult_mod_eq mod_less_divisor zero_less_numeral)
  then have dr: "N div 8192 = d" "N mod 8192 = r" by simp_all
  have k: "k * 256 + j < 8192" using assms by simp
  consider "ci < d" | "ci = d" | "ci > d" by linarith
  then show ?thesis
  proof cases
    case 1
    then show ?thesis using k assms N by (auto simp: shard_chunks_def dr)
  next
    case 2
    then show ?thesis using k assms N by (auto simp: shard_chunks_def dr partial_chunk_lines_def)
  next
    case 3
    then show ?thesis using N by (auto simp: shard_chunks_def dr)
  qed
qed

text \<open>The lines of shard \<open>k\<close> in the order of the chunks \<open>vs\<close>.\<close>

definition shard_lines :: "nat \<Rightarrow> nat \<Rightarrow> nat list \<Rightarrow> nat list" where
  "shard_lines N k vs = concat (map (chunk_lines k (N div 8192) (partial_chunk_lines (N mod 8192) k)) vs)"

lemma chunk_lines_set:
  assumes "k < 32" "N < 2 ^ 32" "ci < shard_chunks N k"
  shows "set (chunk_lines k (N div 8192) (partial_chunk_lines (N mod 8192) k) ci) =
      {x. x < N \<and> OCF_LRU_GET_LIST_INDEX x = k \<and> x div 8192 = ci}"
    "distinct (chunk_lines k (N div 8192) (partial_chunk_lines (N mod 8192) k) ci)"
proof -
  let ?n = "if ci = N div 8192 then partial_chunk_lines (N mod 8192) k else 256"
  have n: "?n \<le> 256" by (simp add: partial_chunk_lines_def)
  have val: "ocf_get_chunk_cline k ci j = (ci * 32 + k) * 256 + j \<and> (ci * 32 + k) * 256 + j < N" if "j < ?n" for j
    using that n chunk_bound [of k j ci N] assms chunk_cline [of k j ci] by (simp del: add_mult_distrib)
  have j: "j < 256" if "j < ?n" for j using that n by linarith
  show "set (chunk_lines k (N div 8192) (partial_chunk_lines (N mod 8192) k) ci) =
      {x. x < N \<and> OCF_LRU_GET_LIST_INDEX x = k \<and> x div 8192 = ci}"
  proof (intro set_eqI iffI)
    fix x assume "x \<in> set (chunk_lines k (N div 8192) (partial_chunk_lines (N mod 8192) k) ci)"
    then obtain i where i: "i < ?n" "x = ocf_get_chunk_cline k ci i" unfolding chunk_lines_def by auto
    then show "x \<in> {x. x < N \<and> OCF_LRU_GET_LIST_INDEX x = k \<and> x div 8192 = ci}"
      using val [OF i(1)] chunk_cline_parts [OF assms(1) j [OF i(1)], of x ci] by auto
  next
    fix x assume "x \<in> {x. x < N \<and> OCF_LRU_GET_LIST_INDEX x = k \<and> x div 8192 = ci}"
    then have x: "x < N" "x = (ci * 32 + k) * 256 + x mod 256" using line_decomp [of x] by auto
    then have m: "x mod 256 < ?n" using chunk_bound [OF assms(1), of "x mod 256" ci N] by auto
    then have "ocf_get_chunk_cline k ci (x mod 256) = x" using val [OF m] x(2) by simp
    with m show "x \<in> set (chunk_lines k (N div 8192) (partial_chunk_lines (N mod 8192) k) ci)"
      unfolding chunk_lines_def set_map set_upt by (intro image_eqI [of _ _ "x mod 256"]) auto
  qed
  have "inj_on (ocf_get_chunk_cline k ci) {..<?n}" using val by (intro inj_onI) (metis add_left_cancel lessThan_iff)
  then show "distinct (chunk_lines k (N div 8192) (partial_chunk_lines (N mod 8192) k) ci)"
    by (simp add: chunk_lines_def distinct_map atLeast0LessThan)
qed

lemma shard_lines_all:
  assumes "k < 32" "N < 2 ^ 32" "distinct vs" "set vs = {..<shard_chunks N k}"
  shows "set (shard_lines N k vs) = {x. x < N \<and> OCF_LRU_GET_LIST_INDEX x = k}" "distinct (shard_lines N k vs)"
proof -
  let ?cl = "chunk_lines k (N div 8192) (partial_chunk_lines (N mod 8192) k)"
  have "x div 8192 < shard_chunks N k" if "x < N" "OCF_LRU_GET_LIST_INDEX x = k" for x
    using that line_decomp [of x] chunk_bound [OF assms(1), of "x mod 256" "x div 8192" N] by auto
  then show "set (shard_lines N k vs) = {x. x < N \<and> OCF_LRU_GET_LIST_INDEX x = k}"
    using chunk_lines_set(1) [OF assms(1,2)] assms(4) by (auto simp: shard_lines_def)
  have "set (?cl a) \<inter> set (?cl b) = {}" if "a \<in> set vs" "b \<in> set vs" "a \<noteq> b" for a b
    using that chunk_lines_set(1) [OF assms(1,2)] assms(4) by auto
  moreover have "distinct (?cl a)" if "a \<in> set vs" for a
    using that chunk_lines_set(2) [OF assms(1,2)] assms(4) by auto
  ultimately show "distinct (shard_lines N k vs)"
    using assms(3) unfolding shard_lines_def
    by (induction vs) (auto simp: disjoint_iff)
qed

definition free_slot :: "nat \<Rightarrow> slot" where
  "free_slot k = (PARTITION_FREELIST, k, True)"

text \<open>\<open>freed A s s'\<close>: the lines of \<open>A\<close> belong to the free list, nothing else but links and lists differs.\<close>

definition freed :: "nat set \<Rightarrow> 'z lru_cache_scheme \<Rightarrow> 'z lru_cache_scheme \<Rightarrow> bool" where
  "freed A s s' \<longleftrightarrow> collision s' = collision s \<and> collision_table_entries s' = collision_table_entries s \<and>
     eviction_policy s' = eviction_policy s \<and> md_ok s' = md_ok s \<and>
     (\<forall>p. curr_size (cparts s' p) = curr_size (cparts s p)) \<and>
     (\<forall>y. partition_id (lru_meta s' y) = (if y \<in> A then PARTITION_FREELIST else partition_id (lru_meta s y)))"

lemma freed_trans: "freed A s s' \<Longrightarrow> freed B s' s'' \<Longrightarrow> freed (A \<union> B) s s''"
  by (simp add: freed_def)

lemma lists_ok_part_id:
  "lists_ok s rep \<Longrightarrow> lists_ok (upd_lru x (\<lambda>n. n\<lparr>partition_id := p\<rparr>) s) rep"
proof -
  let ?s = "upd_lru x (\<lambda>n. n\<lparr>partition_id := p\<rparr>) s"
  have "lru_list ?s L xs = lru_list s L xs" for L xs by (rule lru_list_cong) (auto simp: fun_eq_iff)
  moreover have "glist ?s sl = glist s sl" for sl by (simp add: ocf_lru_get_list_def upd_lru_def)
  ultimately show "lists_ok s rep \<Longrightarrow> ?thesis" unfolding lists_ok_def by simp
qed

lemma populate_line_spec:
  assumes ok: "lists_ok s rep" "eviction_policy s = ocf_eviction_lru" and k: "k < 32"
    and x: "x < collision_table_entries s" "\<forall>sl\<in>slots. x \<notin> set (rep sl)"
  shows "\<exists>s'. populate_line k x s = Some s' \<and> lists_ok s' (rep(free_slot k := x # rep (free_slot k))) \<and> freed {x} s s'"
proof -
  let ?s = "upd_lru x (\<lambda>n. n\<lparr>partition_id := PARTITION_FREELIST\<rparr>) s"
  have sl: "free_slot k \<in> slots"
    using k by (simp add: free_slot_def slots_simps PARTITION_FREELIST_def PARTITION_FREE_DETACHED_def)
  have ok1: "lists_ok ?s rep" using ok(1) by (rule lists_ok_part_id)
  have "track_hot (glist ?s (free_slot k)) = (fst (free_slot k) \<noteq> PARTITION_FREELIST)"
    using ok1 sl unfolding lists_ok_def by blast
  then have "\<not> track_hot (glist ?s (free_slot k))" by (simp add: free_slot_def)
  note add = add_nobalance_free [OF lists_okD(4,1) [OF ok1 sl] this, of x]
  have "\<exists>s'. on_list (\<lambda>s L. add_lru_head_nobalance s L x) (fst (free_slot k)) (fst (snd (free_slot k)))
      (snd (snd (free_slot k))) ?s = Some s' \<and> lists_ok s' (rep(free_slot k := x # rep (free_slot k))) \<and> relinked ?s s'"
    by (rule on_list_step [OF ok1 sl, where A = "[x]"]) (use add x sl in auto)
  then obtain s' where s': "on_list (\<lambda>s L. add_lru_head_nobalance s L x) PARTITION_FREELIST k True ?s = Some s'"
    "lists_ok s' (rep(free_slot k := x # rep (free_slot k)))" "relinked ?s s'" by (auto simp: free_slot_def)
  have "ocf_metadata_set_partition_id s x PARTITION_FREELIST = Some ?s"
    using x(1) ok(2) by (simp add: ocf_metadata_set_partition_id_def PARTITION_FREELIST_def)
  then have "populate_line k x s = Some s'" using x(1) s'(1) by (simp add: populate_line_def)
  moreover have "freed {x} s s'"
    using relinkedD [OF s'(3)] by (simp add: freed_def) (simp add: upd_lru_def md_ok_def)
  ultimately show ?thesis using s'(2) by blast
qed

lemma populate_lines_spec:
  assumes "lists_ok s rep" "eviction_policy s = ocf_eviction_lru" "k < 32" "distinct xs"
    "\<forall>x\<in>set xs. x < collision_table_entries s \<and> (\<forall>sl\<in>slots. x \<notin> set (rep sl))"
  shows "\<exists>s'. each_entry (populate_line k) xs s = Some s' \<and>
    lists_ok s' (rep(free_slot k := rev xs @ rep (free_slot k))) \<and> freed (set xs) s s'"
  using assms
proof (induction xs arbitrary: s rep)
  case Nil
  then show ?case by (simp add: freed_def)
next
  case (Cons x xs)
  obtain s1 where s1: "populate_line k x s = Some s1" "lists_ok s1 (rep(free_slot k := x # rep (free_slot k)))" "freed {x} s s1"
    using populate_line_spec [OF Cons.prems(1-3), of x] Cons.prems(5) by auto
  have p: "eviction_policy s1 = ocf_eviction_lru" "collision_table_entries s1 = collision_table_entries s"
    using s1(3) Cons.prems(2) by (auto simp: freed_def)
  let ?r = "rep(free_slot k := x # rep (free_slot k))"
  have pre: "\<forall>y\<in>set xs. y < collision_table_entries s1 \<and> (\<forall>sl\<in>slots. y \<notin> set (?r sl))"
    using Cons.prems(4,5) p(2) by auto
  have "distinct xs" using Cons.prems(4) by simp
  from Cons.IH [OF s1(2) p(1) Cons.prems(3) this pre] obtain s' where s': "each_entry (populate_line k) xs s1 = Some s'"
      "lists_ok s' (rep(free_slot k := rev xs @ x # rep (free_slot k)))" "freed (set xs) s1 s'"
    unfolding fun_upd_upd fun_upd_same by blast
  moreover have "rev (x # xs) @ rep (free_slot k) = rev xs @ x # rep (free_slot k)" "set (x # xs) = {x} \<union> set xs" by simp_all
  moreover have "each_entry (populate_line k) (x # xs) s = Some s'" using s1(1) s'(1) by simp
  ultimately show ?case using freed_trans [OF s1(3) s'(3)] by metis
qed

lemma populate_handle_spec:
  assumes ok: "lists_ok s rep" "eviction_policy s = ocf_eviction_lru" and k: "k < 32"
    and new: "\<forall>x. OCF_LRU_GET_LIST_INDEX x = k \<longrightarrow> (\<forall>sl\<in>slots. x \<notin> set (rep sl))"
    and c: "shard_chunks (collision_table_entries s) k \<noteq> 1"
  shows "\<exists>s' xs. ocf_lru_populate_handle k s = Some (length xs, s') \<and> distinct xs \<and>
    set xs = {x. x < collision_table_entries s \<and> OCF_LRU_GET_LIST_INDEX x = k} \<and>
    lists_ok s' (rep(free_slot k := xs @ rep (free_slot k))) \<and> freed (set xs) s s'"
proof -
  let ?N = "collision_table_entries s" and ?c = "shard_chunks (collision_table_entries s) k"
  have N: "?N < 2 ^ 32" using lists_okD(4) [OF ok(1), of "free_slot k"] k
    by (simp add: lru_ready_def end_marker_def free_slot_def slots_simps PARTITION_FREELIST_def PARTITION_FREE_DETACHED_def)
  have h: "ocf_lru_populate_handle k s = (if ?c = 0 then Some (0, s) else do {
      g \<leftarrow> ocf_generator_bisect_init (of_nat ?c) 0;
      populate_chunks k (?N div 8192) (partial_chunk_lines (?N mod 8192) k) ?c g 0 s })"
    by (simp add: ocf_lru_populate_handle_def shard_chunks_def Let_def)
  show ?thesis
  proof (cases "?c = 0")
    case True
    have "set (shard_lines ?N k []) = {x. x < ?N \<and> OCF_LRU_GET_LIST_INDEX x = k}"
      using True by (intro shard_lines_all(1) [OF k N]) auto
    then have "{x. x < ?N \<and> OCF_LRU_GET_LIST_INDEX x = k} = {}" by (simp add: shard_lines_def)
    with True h ok(1) show ?thesis by (intro exI [of _ s] exI [of _ "[]"]) (auto simp: freed_def)
  next
    case False
    with c have two: "2 \<le> ?c" by simp
    have "?N div 8192 \<le> 2 ^ 32 div 8192" using N by (intro div_le_mono) simp
    then have le: "?c \<le> 2 ^ 20" by (simp add: shard_chunks_def)
    then have u: "unat (of_nat ?c :: 32 word) = ?c" by (simp add: unat_of_nat32)
    have "(0 :: 32 word) < of_nat ?c" using two u by (simp add: word_less_nat_alt)
    then obtain g vs g' where g: "ocf_generator_bisect_init (of_nat ?c) 0 = Some g" "bisect_take ?c g = Some (vs, g')"
      "distinct vs" "unat ` set vs = {..<?c}"
      using bisect_take_all [of "of_nat ?c" 0] two le unfolding u by auto
    define xs where "xs = shard_lines ?N k (map unat vs)"
    have "distinct (map unat vs)" using g(3) by (auto simp: distinct_map inj_on_def word_unat_eq_iff)
    then have xs: "set xs = {x. x < ?N \<and> OCF_LRU_GET_LIST_INDEX x = k}" "distinct xs"
      using shard_lines_all [OF k N, of "map unat vs"] g(4) by (simp_all add: xs_def)
    have "ocf_lru_populate_handle k s = map_option (Pair (length xs)) (each_entry (populate_line k) xs s)"
      using False g(1) by (simp add: h populate_chunks_eq [OF g(2)] xs_def shard_lines_def comp_def)
    moreover obtain s' where s': "each_entry (populate_line k) xs s = Some s'"
        "lists_ok s' (rep(free_slot k := rev xs @ rep (free_slot k)))" "freed (set xs) s s'"
      using populate_lines_spec [OF ok k xs(2)] xs(1) new by auto
    ultimately show ?thesis using xs by (intro exI [of _ s'] exI [of _ "rev xs"]) simp
  qed
qed

lemma populate_shards_spec:
  assumes "lists_ok s rep" "eviction_policy s = ocf_eviction_lru" "distinct ks" "\<forall>k\<in>set ks. k < 32"
    "\<forall>x. OCF_LRU_GET_LIST_INDEX x \<in> set ks \<longrightarrow> (\<forall>sl\<in>slots. x \<notin> set (rep sl))"
    "\<forall>k\<in>set ks. shard_chunks (collision_table_entries s) k \<noteq> 1"
  shows "\<exists>s' L. populate_shards ks n s = Some (n + (\<Sum>k\<leftarrow>ks. length (L k)), s') \<and>
    (\<forall>k\<in>set ks. distinct (L k) \<and> set (L k) = {x. x < collision_table_entries s \<and> OCF_LRU_GET_LIST_INDEX x = k}) \<and>
    lists_ok s' (\<lambda>sl. if sl \<in> free_slot ` set ks then L (fst (snd sl)) @ rep sl else rep sl) \<and>
    freed {x. x < collision_table_entries s \<and> OCF_LRU_GET_LIST_INDEX x \<in> set ks} s s'"
  using assms
proof (induction ks arbitrary: s rep n)
  case Nil
  then show ?case by (simp add: freed_def)
next
  case (Cons k ks)
  let ?N = "collision_table_entries s"
  obtain s1 xs where s1: "ocf_lru_populate_handle k s = Some (length xs, s1)" "distinct xs"
    "set xs = {x. x < ?N \<and> OCF_LRU_GET_LIST_INDEX x = k}"
    "lists_ok s1 (rep(free_slot k := xs @ rep (free_slot k)))" "freed (set xs) s s1"
    using populate_handle_spec [OF Cons.prems(1,2), of k] Cons.prems(4,5,6) by auto
  have p: "eviction_policy s1 = ocf_eviction_lru" "collision_table_entries s1 = ?N"
    using s1(5) Cons.prems(2) by (auto simp: freed_def)
  let ?rep = "rep(free_slot k := xs @ rep (free_slot k))"
  have new: "\<forall>x. OCF_LRU_GET_LIST_INDEX x \<in> set ks \<longrightarrow> (\<forall>sl\<in>slots. x \<notin> set (?rep sl))"
    using Cons.prems(3,5) s1(3) by auto
  obtain s' L where s': "populate_shards ks (n + length xs) s1 = Some (n + length xs + (\<Sum>k\<leftarrow>ks. length (L k)), s')"
    "\<forall>k\<in>set ks. distinct (L k) \<and> set (L k) = {x. x < ?N \<and> OCF_LRU_GET_LIST_INDEX x = k}"
    "lists_ok s' (\<lambda>sl. if sl \<in> free_slot ` set ks then L (fst (snd sl)) @ ?rep sl else ?rep sl)"
    "freed {x. x < ?N \<and> OCF_LRU_GET_LIST_INDEX x \<in> set ks} s1 s'"
    using Cons.IH [OF s1(4) p(1) _ _ new, of "n + length xs"] Cons.prems(3,4,6) unfolding p(2) by auto
  let ?L = "L(k := xs)"
  have k: "k \<notin> set ks" using Cons.prems(3) by simp
  have sum: "(\<Sum>j\<leftarrow>ks. length (?L j)) = (\<Sum>j\<leftarrow>ks. length (L j))" using k by (intro arg_cong [where f = sum_list] map_cong) auto
  have reps: "(\<lambda>sl. if sl \<in> free_slot ` set ks then L (fst (snd sl)) @ ?rep sl else ?rep sl) =
      (\<lambda>sl. if sl \<in> free_slot ` set (k # ks) then ?L (fst (snd sl)) @ rep sl else rep sl)"
    using k by (auto simp: fun_eq_iff free_slot_def)
  have fr: "freed {x. x < ?N \<and> OCF_LRU_GET_LIST_INDEX x \<in> set (k # ks)} s s'"
  proof -
    have "set xs \<union> {x. x < ?N \<and> OCF_LRU_GET_LIST_INDEX x \<in> set ks} = {x. x < ?N \<and> OCF_LRU_GET_LIST_INDEX x \<in> set (k # ks)}"
      using s1(3) by auto
    then show ?thesis using freed_trans [OF s1(5) s'(4)] by simp
  qed
  have "populate_shards (k # ks) n s = Some (n + (\<Sum>j\<leftarrow>k # ks. length (?L j)), s')"
    using s1(1) s'(1) sum by (simp add: add.assoc)
  moreover have "\<forall>j\<in>set (k # ks). distinct (?L j) \<and> set (?L j) = {x. x < ?N \<and> OCF_LRU_GET_LIST_INDEX x = j}"
    using s'(2) s1(2,3) by auto
  ultimately show ?case using s'(3) fr unfolding reps by blast
qed

lemma card_shards: "(\<Sum>k<32. card {x. x < N \<and> OCF_LRU_GET_LIST_INDEX x = k}) = N"
proof -
  have "card (\<Union>k\<in>{..<32}. {x. x < N \<and> OCF_LRU_GET_LIST_INDEX x = k}) =
      (\<Sum>k<32. card {x. x < N \<and> OCF_LRU_GET_LIST_INDEX x = k})"
    by (rule card_UN_disjoint) auto
  moreover have "(\<Union>k\<in>{..<32}. {x. x < N \<and> OCF_LRU_GET_LIST_INDEX x = k}) = {..<N}"
    using index_bound by auto
  ultimately show ?thesis by simp
qed

lemma populate_spec:
  assumes "lru_ready s" "eviction_policy s = ocf_eviction_lru" "md_ok s"
    and "distinct shards" "set shards = {..<OCF_NUM_LRU_LISTS}"
    and "\<forall>k < OCF_NUM_LRU_LISTS. shard_chunks (collision_table_entries s) k \<noteq> 1"
  shows "\<exists>s' rep. ocf_lru_populate shards (init_parts s) = Some s' \<and> cache_inv s' rep \<and>
    (\<forall>k < OCF_NUM_LRU_LISTS. distinct (rep (PARTITION_FREELIST, k, True)) \<and>
       set (rep (PARTITION_FREELIST, k, True)) = {x. x < collision_table_entries s \<and> OCF_LRU_GET_LIST_INDEX x = k}) \<and>
    (\<forall>sl\<in>slots. fst sl \<noteq> PARTITION_FREELIST \<longrightarrow> rep sl = []) \<and>
    curr_size (cparts s' PARTITION_FREELIST) = int (collision_table_entries s) \<and>
    collision s' = collision s \<and> collision_table_entries s' = collision_table_entries s"
proof -
  let ?s = "init_parts s" and ?N = "collision_table_entries s"
  note I = init_parts_inv [OF assms(1-3)]
  note C = cache_invD [OF I(1)]
  have chunks: "\<forall>k\<in>set shards. shard_chunks (collision_table_entries ?s) k \<noteq> 1" using assms(5,6) I(2) by simp
  have new: "\<forall>x. OCF_LRU_GET_LIST_INDEX x \<in> set shards \<longrightarrow> (\<forall>sl\<in>slots. x \<notin> set [])" by simp
  have bd: "\<forall>k\<in>set shards. k < 32" using assms(5) by simp
  obtain s1 L where s1: "populate_shards shards 0 ?s = Some (0 + (\<Sum>k\<leftarrow>shards. length (L k)), s1)"
    "\<forall>k\<in>set shards. distinct (L k) \<and> set (L k) = {x. x < ?N \<and> OCF_LRU_GET_LIST_INDEX x = k}"
    "lists_ok s1 (\<lambda>sl. if sl \<in> free_slot ` set shards then L (fst (snd sl)) @ [] else [])"
    "freed {x. x < ?N \<and> OCF_LRU_GET_LIST_INDEX x \<in> set shards} ?s s1"
    using populate_shards_spec [OF C(1,2) assms(4) bd new chunks, of 0] unfolding I(2) by blast
  define rep :: "slot \<Rightarrow> nat list"
    where "rep = (\<lambda>sl. if sl \<in> free_slot ` set shards then L (fst (snd sl)) @ [] else [])"
  have sum: "(\<Sum>k\<leftarrow>shards. length (L k)) = ?N"
  proof -
    have "(\<Sum>k\<leftarrow>shards. length (L k)) = (\<Sum>k<32. length (L k))"
      using sum_list_distinct_conv_sum_set [OF assms(4)] assms(5) by simp
    also have "\<dots> = (\<Sum>k<32. card {x. x < ?N \<and> OCF_LRU_GET_LIST_INDEX x = k})"
      using s1(2) assms(5) by (intro sum.cong) (auto simp: distinct_card [symmetric])
    finally show ?thesis using card_shards by simp
  qed
  let ?s2 = "upd_part PARTITION_FREELIST (\<lambda>P. P\<lparr>curr_size := int ?N\<rparr>) s1"
  have pop: "ocf_lru_populate shards ?s = Some ?s2" using s1(1) sum by (simp add: ocf_lru_populate_def)
  have fr: "rep (PARTITION_FREELIST, k, True) = L k" if "k < 32" for k
    using that assms(5) by (auto simp: rep_def free_slot_def)
  have em: "rep sl = []" if "sl \<in> slots" "fst sl \<noteq> PARTITION_FREELIST" for sl
    using that by (auto simp: rep_def free_slot_def)
  have lists: "lists_ok ?s2 rep"
    using s1(3) unfolding lists_ok_def rep_def by (simp add: get_upd_size(2))
  have homes: "home ?s2 x = sl" if "sl \<in> slots" "x \<in> set (rep sl)" for sl x
  proof -
    have "sl \<in> free_slot ` set shards" using that by (auto simp: rep_def split: if_splits)
    then obtain k where k: "sl = free_slot k" "k \<in> set shards" by blast
    then have "x < ?N" "OCF_LRU_GET_LIST_INDEX x = k" using that s1(2) by (auto simp: rep_def free_slot_def)
    then show ?thesis using k s1(4) by (simp add: home_def freed_def free_slot_def list_kind_def)
  qed
  have size: "part_size rep p = (if p = PARTITION_FREELIST then ?N else 0)" for p
  proof (cases "p = PARTITION_FREELIST")
    case False
    then have "part_size rep p = 0" unfolding part_size_def using em by (intro sum.neutral) auto
    with False show ?thesis by simp
  next
    case True
    have "{sl \<in> slots. fst sl = PARTITION_FREELIST} = free_slot ` set shards"
    proof (intro set_eqI iffI)
      fix sl assume "sl \<in> {sl \<in> slots. fst sl = PARTITION_FREELIST}"
      then have "sl = free_slot (fst (snd sl))" "fst (snd sl) < 32" by (auto simp: slots_def free_slot_def)
      then show "sl \<in> free_slot ` set shards" unfolding assms(5) by blast
    next
      fix sl assume "sl \<in> free_slot ` set shards"
      then show "sl \<in> {sl \<in> slots. fst sl = PARTITION_FREELIST}"
        unfolding assms(5) by (auto simp: slots_simps free_slot_def) (simp add: PARTITION_FREELIST_def PARTITION_FREE_DETACHED_def)
    qed
    then have "part_size rep p = (\<Sum>sl\<in>free_slot ` set shards. length (rep sl))" by (simp add: part_size_def True)
    also have "\<dots> = (\<Sum>k\<in>set shards. length (rep (free_slot k)))"
      by (subst sum.reindex) (auto simp: inj_on_def free_slot_def)
    also have "\<dots> = (\<Sum>k\<leftarrow>shards. length (L k))"
      using sum_list_distinct_conv_sum_set [OF assms(4), of "\<lambda>k. length (L k)"] fr assms(5) by (simp add: free_slot_def)
    finally show ?thesis using sum True by simp
  qed
  have "curr_size (cparts ?s2 p) = int (part_size rep p)" if "p \<le> PARTITION_FREE_DETACHED" for p
    using that size s1(4) C(7) [OF that] by (simp add: freed_def) (simp add: part_size_def)
  then have "cache_inv ?s2 rep"
    using lists homes s1(4) C(2,3) unfolding cache_inv_def by (simp add: freed_def)
  with pop fr em s1(2,4) I(2,3) assms(5) show ?thesis
    by (intro exI [of _ ?s2] exI [of _ rep]) (simp add: freed_def)
qed

text \<open>C20: Initialising the lists of all partitions and populating, with the 32 shards in any order, succeeds
  for every size for which no shard has exactly one chunk, and leaves a consistent set of lists, where every
  cache line is on the list of the free partition for its index exactly once, all other lists are empty, and
  the size of the free partition is the number of cache lines.\<close>

theorem populate_frees_all:
  assumes "lru_ready s" "eviction_policy s = ocf_eviction_lru" "md_ok s"
    and "distinct shards" "set shards = {..<OCF_NUM_LRU_LISTS}"
    and "\<forall>k < OCF_NUM_LRU_LISTS. shard_chunks (collision_table_entries s) k \<noteq> 1"
  shows "\<exists>s' rep. ocf_lru_populate shards (init_parts s) = Some s' \<and> cache_inv s' rep \<and>
    (\<forall>k < OCF_NUM_LRU_LISTS. distinct (rep (PARTITION_FREELIST, k, True)) \<and>
       set (rep (PARTITION_FREELIST, k, True)) = {x. x < collision_table_entries s \<and> OCF_LRU_GET_LIST_INDEX x = k}) \<and>
    (\<forall>sl\<in>slots. fst sl \<noteq> PARTITION_FREELIST \<longrightarrow> rep sl = []) \<and>
    curr_size (cparts s' PARTITION_FREELIST) = int (collision_table_entries s)"
  using populate_spec [OF assms] by blast

text \<open>With one chunk the generator is started with a limit of 1, where the code is undefined.\<close>

lemma populate_one_chunk: "shard_chunks (collision_table_entries s) k = 1 \<Longrightarrow> ocf_lru_populate_handle k s = None"
  using bisect_limit_1 [of 0] by (auto simp: ocf_lru_populate_handle_def shard_chunks_def Let_def split: if_splits)

text \<open>A cache of 20000 lines.\<close>

definition demo_cache :: lru_cache where
  "demo_cache = lru_state.extend (demo_lru\<lparr>collision_table_entries := 20000, line_size := Size_4, block_4k := False,
       collision := \<lambda>_. \<lparr>core_line = 0, core_id = 0, status = St_u8 \<lparr>valid = 0, dirty = 0\<rparr>\<rparr>\<rparr>)
     (lru_cache.fields (\<lambda>_. \<lparr>clean_lists = \<lambda>_. lru_init False, dirty_lists = \<lambda>_. lru_init False,
        curr_size = 0, evict_counter = 0\<rparr>))"

lemma demo_cache_ok:
  "lru_ready demo_cache" "eviction_policy demo_cache = ocf_eviction_lru" "md_ok demo_cache"
  "collision_table_entries demo_cache = 20000"
  by (simp_all add: demo_cache_def demo_lru_def lru_ready_def coll_state.defs lru_state.defs lru_cache.defs demo_coll_def
      md_state.defs demo_md_def end_marker_def md_ok_def u8_status_ok)

lemma demo_chunks: "\<forall>k < OCF_NUM_LRU_LISTS. shard_chunks (collision_table_entries demo_cache) k \<noteq> 1"
  by (simp add: demo_cache_ok shard_chunks_def)

lemma demo_shards: "set [0..<32] = {..<32::nat}"
  by auto

theorem populate_frees_all_witness:
  "\<exists>s' rep. ocf_lru_populate [0..<32] (init_parts demo_cache) = Some s' \<and> cache_inv s' rep \<and>
     curr_size (cparts s' PARTITION_FREELIST) = 20000"
  using populate_frees_all [OF demo_cache_ok(1-3) distinct_upt demo_shards demo_chunks]
  unfolding demo_cache_ok(4) of_nat_numeral by blast

text \<open>Line 0 is given to partition 3, used, and removed.\<close>

lemma demo_placed:
  "\<exists>s rep. ocf_lru_populate [0..<32] (init_parts demo_cache) = Some s \<and>
     placed (\<lambda>_. False) s (\<lambda>_. PARTITION_FREELIST, rep) \<and> 0 \<in> set (rep (PARTITION_FREELIST, 0, True))"
proof -
  obtain s rep where s: "ocf_lru_populate [0..<32] (init_parts demo_cache) = Some s" "cache_inv s rep"
    "\<forall>k < 32. set (rep (PARTITION_FREELIST, k, True)) = {x. x < 20000 \<and> OCF_LRU_GET_LIST_INDEX x = k}"
    "\<forall>sl\<in>slots. fst sl \<noteq> PARTITION_FREELIST \<longrightarrow> rep sl = []"
    "collision s = collision demo_cache" "collision_table_entries s = 20000"
    using populate_spec [OF demo_cache_ok(1-3) distinct_upt demo_shards demo_chunks] unfolding demo_cache_ok(4) by blast
  have "placed (\<lambda>_. False) s (\<lambda>_. PARTITION_FREELIST, rep)"
    using s(2,4,5) unfolding placed_def
    by (auto simp: marked_def demo_cache_def lru_state.defs)
  moreover have "0 \<in> set (rep (PARTITION_FREELIST, 0, True))" using s(3) by (simp add: OCF_LRU_GET_LIST_INDEX_def)
  ultimately show ?thesis using s(1) by blast
qed

theorem lru_cache_refines_witness:
  "\<exists>s s'. ocf_lru_populate [0..<32] (init_parts demo_cache) = Some s \<and>
     each_entry code_ev [Repart 0 3, Hot 0, Remove 0] s = Some s' \<and>
     partition_id (lru_meta s' 0) = PARTITION_FREELIST"
proof -
  obtain s rep where s: "ocf_lru_populate [0..<32] (init_parts demo_cache) = Some s"
    "placed (\<lambda>_. False) s (\<lambda>_. PARTITION_FREELIST, rep)" "0 \<in> set (rep (PARTITION_FREELIST, 0, True))"
    using demo_placed by blast
  have i: "OCF_LRU_GET_LIST_INDEX 0 = 0" by (simp add: OCF_LRU_GET_LIST_INDEX_def)
  obtain pt' rep' where r: "each_entry (spec_ev (\<lambda>_. False)) [Repart 0 3, Hot 0, Remove 0] (\<lambda>_. PARTITION_FREELIST, rep) =
      Some (pt', rep')" "0 \<in> set (rep' (PARTITION_FREELIST, 0, True))"
    using s(3) by (auto simp: place_def slot_of_def i moved_def list_kind_def Let_def PARTITION_FREELIST_def
        PARTITION_FREE_DETACHED_def)
  have sl: "(PARTITION_FREELIST, 0, True) \<in> slots"
    by (simp add: slots_simps) (simp add: PARTITION_FREELIST_def PARTITION_FREE_DETACHED_def)
  from lru_cache_refines [OF s(2) r(1)] obtain s' where
    "each_entry code_ev [Repart 0 3, Hot 0, Remove 0] s = Some s'" "partition_id (lru_meta s' 0) = PARTITION_FREELIST"
    using sl r(2) by blast
  with s(1) show ?thesis by blast
qed

end
