(* ===== verification/Cache_Line.thy ===== *)
theory Cache_Line
  imports Lru
begin

section \<open>State changes of a cache line\<close>

text \<open>
  Model of \<open>src/utils/utils_cache_line.c\<close>, of the functions of \<open>src/utils/utils_cache_line.h\<close> that apply
  them to the lines of a request, of \<open>src/metadata/metadata_misc.c\<close> and of \<open>ocf_user_part_move\<close> of
  \<open>src/utils/utils_user_part.c\<close>. These operations keep the status bits, the LRU lists, the hash table and
  the counters of the cores consistent with each other. The collision segment is kept in RAM, so that
  marking a line for flushing sets the flags of the request (\<open>_raw_ram_flush_mark\<close>). The cleaning policy
  is told about lines that become clean or are written: its calls are recorded in order. The shared
  access to the collision page of a line spans each operation. The counters of a core count cache lines
  and stay far from the bounds of their type; the array of counters by partition has 34 elements.
\<close>

subsection \<open>State\<close>

record core_counters =
  cached_clines :: int
  dirty_clines :: int
  dirty_since :: nat
  part_cached :: "nat \<Rightarrow> int"
  part_dirty :: "nat \<Rightarrow> int"

datatype cleaning_call = Purge_block nat | Set_hot nat | Init_block nat

record cl_state = lru_cache +
  core_rt :: "nat \<Rightarrow> core_counters"
  cl_locks :: ocf_alock
  cleaning_calls :: "cleaning_call list"

record cl_req =
  rq_core :: nat
  rq_part :: nat
  rq_addr :: nat
  rq_bytes :: nat
  rq_count :: nat
  rq_map :: "nat \<Rightarrow> ocf_map_info"
  flush_metadata :: bool

definition upd_core :: "nat \<Rightarrow> (core_counters \<Rightarrow> core_counters) \<Rightarrow> 'z cl_state_scheme \<Rightarrow> 'z cl_state_scheme" where
  "upd_core c f s = s\<lparr>core_rt := (core_rt s)(c := f (core_rt s c))\<rparr>"

definition part_index :: "nat \<Rightarrow> unit option" where
  "part_index p = bug_on (\<not> p < OCF_USER_IO_CLASS_MAX)"

definition add_cached :: "int \<Rightarrow> nat \<Rightarrow> nat \<Rightarrow> 'z cl_state_scheme \<Rightarrow> 'z cl_state_scheme option" where
  "add_cached n c p s = do {
     part_index p;
     Some (upd_core c (\<lambda>r. r\<lparr>cached_clines := cached_clines r + n,
       part_cached := (part_cached r)(p := part_cached r p + n)\<rparr>) s) }"

definition cleaning_call :: "cleaning_call \<Rightarrow> 'z cl_state_scheme \<Rightarrow> 'z cl_state_scheme" where
  "cleaning_call e s = s\<lparr>cleaning_calls := cleaning_calls s @ [e]\<rparr>"

definition ocf_metadata_flush_mark :: "nat \<Rightarrow> cl_req \<Rightarrow> cl_req" where
  "ocf_metadata_flush_mark i req =
     req\<lparr>rq_map := (rq_map req)(i := (rq_map req i)\<lparr>m_flush := True\<rparr>), flush_metadata := True\<rparr>"

definition ocf_metadata_get_core_and_part_id :: "'z lru_state_scheme \<Rightarrow> nat \<Rightarrow> (nat \<times> nat) option" where
  "ocf_metadata_get_core_and_part_id s l = do {
     raw_bug_on s l;
     p \<leftarrow> ocf_metadata_get_partition_id s l;
     Some (core_id (collision s l), p) }"

definition ocf_metadata_remove_cache_line :: "'z lru_state_scheme \<Rightarrow> nat \<Rightarrow> 'z lru_state_scheme option" where
  "ocf_metadata_remove_cache_line s l = do {
     ocf_metadata_get_partition_id s l;
     ocf_metadata_remove_from_collision s l }"

subsection \<open>Making blocks invalid\<close>

definition set_cache_line_invalid_sub ::
  "'z cl_state_scheme \<Rightarrow> nat \<Rightarrow> nat \<Rightarrow> nat \<Rightarrow> nat \<Rightarrow> nat \<Rightarrow> 'z cl_state_scheme option" where
  "set_cache_line_invalid_sub s start_bit end_bit line cid part_id = do {
     bug_on (cid \<ge> OCF_CORE_NUM);
     (line_became_invalid, line_remains_valid, s) \<leftarrow> metadata_clear_valid_sec_changed s line start_bit end_bit;
     if line_remains_valid then do {
       bug_on line_became_invalid;
       Some s }
     else do {
       s \<leftarrow> (if line_became_invalid then add_cached (-1) cid part_id s else Some s);
       waiters \<leftarrow> ocf_cache_line_are_waiters (cl_locks s) line;
       if waiters then Some s
       else do {
         s \<leftarrow> ocf_lru_rm_cline s line;
         ocf_metadata_remove_cache_line s line } } }"

text \<open>
  To a request the state change of \<open>INVALID\<close> marks nothing in the RAM segment.
\<close>

definition set_cache_line_invalid ::
  "'z cl_state_scheme \<Rightarrow> nat \<Rightarrow> nat \<Rightarrow> cl_req \<Rightarrow> nat \<Rightarrow> (cl_req \<times> 'z cl_state_scheme) option" where
  "set_cache_line_invalid s start_bit end_bit req map_idx = do {
     let line = coll_idx (rq_map req map_idx);
     part_id \<leftarrow> ocf_metadata_get_partition_id s line;
     s \<leftarrow> set_cache_line_invalid_sub s start_bit end_bit line (rq_core req) part_id;
     Some (req, s) }"

definition set_cache_line_invalid_no_flush ::
  "'z cl_state_scheme \<Rightarrow> nat \<Rightarrow> nat \<Rightarrow> nat \<Rightarrow> 'z cl_state_scheme option" where
  "set_cache_line_invalid_no_flush s start_bit end_bit line = do {
     (cid, part_id) \<leftarrow> ocf_metadata_get_core_and_part_id s line;
     set_cache_line_invalid_sub s start_bit end_bit line cid part_id }"

definition detach_cache_line ::
  "'z cl_state_scheme \<Rightarrow> nat \<Rightarrow> nat \<Rightarrow> nat \<Rightarrow> nat \<Rightarrow> nat \<Rightarrow> 'z cl_state_scheme option" where
  "detach_cache_line s start_bit end_bit line cid part_id = do {
     bug_on (part_id = PARTITION_FREELIST \<and> cid \<noteq> OCF_CORE_NUM);
     bug_on (part_id \<noteq> PARTITION_FREELIST \<and> cid = OCF_CORE_NUM);
     bug_on (part_id \<noteq> PARTITION_FREELIST \<and> part_id > OCF_USER_IO_CLASS_MAX);
     s \<leftarrow> (if cid = OCF_CORE_NUM then Some s
           else do {
             (changed, is_valid, s) \<leftarrow> metadata_clear_valid_sec_changed s line start_bit end_bit;
             s \<leftarrow> (if changed then add_cached (-1) cid part_id s else Some s);
             waiters \<leftarrow> ocf_cache_line_are_waiters (cl_locks s) line;
             bug_on waiters;
             if \<not> is_valid then ocf_metadata_remove_cache_line s line else Some s });
     ocf_lru_detach s part_id line }"

definition set_cache_line_available :: "'z cl_state_scheme \<Rightarrow> nat \<Rightarrow> 'z cl_state_scheme option" where
  "set_cache_line_available s line = ocf_lru_reattach s line"

definition set_cache_line_unavailable ::
  "'z cl_state_scheme \<Rightarrow> nat \<Rightarrow> nat \<Rightarrow> nat \<Rightarrow> 'z cl_state_scheme option" where
  "set_cache_line_unavailable s start_bit end_bit line = do {
     (cid, part_id) \<leftarrow> ocf_metadata_get_core_and_part_id s line;
     detach_cache_line s start_bit end_bit line cid part_id }"

subsection \<open>Valid, clean and dirty blocks\<close>

definition set_cache_line_valid ::
  "'z cl_state_scheme \<Rightarrow> nat \<Rightarrow> nat \<Rightarrow> cl_req \<Rightarrow> nat \<Rightarrow> (cl_req \<times> 'z cl_state_scheme) option" where
  "set_cache_line_valid s start_bit end_bit req map_idx = do {
     let line = coll_idx (rq_map req map_idx);
     part_id \<leftarrow> ocf_metadata_get_partition_id s line;
     (changed, s) \<leftarrow> metadata_set_valid_sec_changed s line start_bit end_bit;
     s \<leftarrow> (if changed then add_cached 1 (rq_core req) part_id s else Some s);
     Some (req, s) }"

definition dirty_counters :: "int \<Rightarrow> (nat \<Rightarrow> nat) \<Rightarrow> nat \<Rightarrow> nat \<Rightarrow> 'z cl_state_scheme \<Rightarrow> 'z cl_state_scheme option" where
  "dirty_counters n since c p s = do {
     part_index p;
     Some (upd_core c (\<lambda>r. r\<lparr>dirty_clines := dirty_clines r + n, dirty_since := since (dirty_since r),
       part_dirty := (part_dirty r)(p := part_dirty r p + n)\<rparr>) s) }"

definition set_cache_line_clean ::
  "'z cl_state_scheme \<Rightarrow> nat \<Rightarrow> nat \<Rightarrow> cl_req \<Rightarrow> nat \<Rightarrow> (cl_req \<times> 'z cl_state_scheme) option" where
  "set_cache_line_clean s start_bit end_bit req map_idx = do {
     let line = coll_idx (rq_map req map_idx);
     part_id \<leftarrow> ocf_metadata_get_partition_id s line;
     bug_on (part_id > OCF_USER_IO_CLASS_MAX);
     (changed, line_is_clean, s) \<leftarrow> metadata_clear_dirty_sec_changed s line start_bit end_bit;
     if \<not> changed then Some (req, s)
     else do {
       let req = ocf_metadata_flush_mark map_idx req;
       if \<not> line_is_clean then Some (req, s)
       else do {
         let last = (dirty_clines (core_rt s (rq_core req)) - 1 = 0);
         s \<leftarrow> dirty_counters (-1) (\<lambda>t. if last then 0 else t) (rq_core req) part_id s;
         s \<leftarrow> ocf_lru_clean_cline s part_id line;
         Some (req, cleaning_call (Purge_block line) s) } } }"

text \<open>\<open>now\<close> is the current time in seconds.\<close>

definition set_cache_line_dirty ::
  "nat \<Rightarrow> 'z cl_state_scheme \<Rightarrow> nat \<Rightarrow> nat \<Rightarrow> cl_req \<Rightarrow> nat \<Rightarrow> (cl_req \<times> 'z cl_state_scheme) option" where
  "set_cache_line_dirty now s start_bit end_bit req map_idx = do {
     let line = coll_idx (rq_map req map_idx);
     part_id \<leftarrow> ocf_metadata_get_partition_id s line;
     bug_on (part_id > OCF_USER_IO_CLASS_MAX);
     (changed, line_was_dirty, s) \<leftarrow> metadata_set_dirty_sec_changed s line start_bit end_bit;
     (req, s) \<leftarrow>
       (if \<not> changed then Some (req, s)
        else do {
          let req = ocf_metadata_flush_mark map_idx req;
          if line_was_dirty then Some (req, s)
          else do {
            s \<leftarrow> dirty_counters 1 (\<lambda>t. if t = 0 then now else t) (rq_core req) part_id s;
            s \<leftarrow> ocf_lru_dirty_cline s part_id line;
            Some (req, s) } });
     Some (req, cleaning_call (Set_hot line) s) }"

subsection \<open>The lines of a request\<close>

definition BYTES_TO_BLOCKS_ROUND_DOWN :: "'z md_state_scheme \<Rightarrow> nat \<Rightarrow> nat" where
  "BYTES_TO_BLOCKS_ROUND_DOWN s x = x div 2 ^ block_shift (block_4k s)"

definition ocf_map_line_start_block :: "'z md_state_scheme \<Rightarrow> 'y cl_req_scheme \<Rightarrow> nat \<Rightarrow> nat" where
  "ocf_map_line_start_block s req i =
     (if i = 0 then BYTES_TO_BLOCKS_ROUND_DOWN s (rq_addr req) mod ocf_line_blocks s else 0)"

definition ocf_map_line_end_block :: "'z md_state_scheme \<Rightarrow> 'y cl_req_scheme \<Rightarrow> nat \<Rightarrow> nat" where
  "ocf_map_line_end_block s req i =
     (if i = rq_count req - 1
      then BYTES_TO_BLOCKS_ROUND_DOWN s (rq_addr req + rq_bytes req - 1) mod ocf_line_blocks s
      else ocf_line_end_block s)"

fun each_map :: "(nat \<Rightarrow> cl_req \<Rightarrow> 's \<Rightarrow> (cl_req \<times> 's) option) \<Rightarrow> nat list \<Rightarrow> cl_req \<Rightarrow> 's \<Rightarrow> (cl_req \<times> 's) option" where
  "each_map f [] req s = Some (req, s)"
| "each_map f (i # is) req s = do {
     (req, s) \<leftarrow> f i req s;
     each_map f is req s }"

definition ocf_purge_cache_line_sec ::
  "'z cl_state_scheme \<Rightarrow> nat \<Rightarrow> nat \<Rightarrow> cl_req \<Rightarrow> nat \<Rightarrow> (cl_req \<times> 'z cl_state_scheme) option" where
  "ocf_purge_cache_line_sec s start stop req map_idx = do {
     (req, s) \<leftarrow> set_cache_line_clean s start stop req map_idx;
     set_cache_line_invalid s start stop req map_idx }"

definition ocf_purge_map_info :: "cl_req \<Rightarrow> 'z cl_state_scheme \<Rightarrow> (cl_req \<times> 'z cl_state_scheme) option" where
  "ocf_purge_map_info req s = each_map (\<lambda>i req s.
     if m_status (rq_map req i) = LOOKUP_MISS then Some (req, s)
     else ocf_purge_cache_line_sec s (ocf_map_line_start_block s req i) (ocf_map_line_end_block s req i) req i)
     [0..<rq_count req] req s"

definition ocf_set_valid_map_info :: "cl_req \<Rightarrow> 'z cl_state_scheme \<Rightarrow> (cl_req \<times> 'z cl_state_scheme) option" where
  "ocf_set_valid_map_info req s = each_map (\<lambda>i req s. do {
     bug_on (m_status (rq_map req i) = LOOKUP_MISS);
     set_cache_line_valid s (ocf_map_line_start_block s req i) (ocf_map_line_end_block s req i) req i })
     [0..<rq_count req] req s"

definition ocf_set_dirty_map_info :: "nat \<Rightarrow> cl_req \<Rightarrow> 'z cl_state_scheme \<Rightarrow> (cl_req \<times> 'z cl_state_scheme) option" where
  "ocf_set_dirty_map_info now req s = each_map (\<lambda>i req s.
     set_cache_line_dirty now s (ocf_map_line_start_block s req i) (ocf_map_line_end_block s req i) req i)
     [0..<rq_count req] req s"

definition ocf_set_clean_map_info :: "cl_req \<Rightarrow> 'z cl_state_scheme \<Rightarrow> (cl_req \<times> 'z cl_state_scheme) option" where
  "ocf_set_clean_map_info req s = each_map (\<lambda>i req s.
     set_cache_line_clean s (ocf_map_line_start_block s req i) (ocf_map_line_end_block s req i) req i)
     [0..<rq_count req] req s"

subsection \<open>Removing ranges of lines\<close>

definition ocf_metadata_sparse_cache_line :: "'z cl_state_scheme \<Rightarrow> nat \<Rightarrow> 'z cl_state_scheme option" where
  "ocf_metadata_sparse_cache_line s l = do {
     s \<leftarrow> set_cache_line_invalid_no_flush s 0 (ocf_line_end_block s) l;
     metadata_clear_dirty s l }"

definition ocf_metadata_detach_cline_range ::
  "'z cl_state_scheme \<Rightarrow> nat \<Rightarrow> nat \<Rightarrow> (ocf_error \<times> 'z cl_state_scheme) option" where
  "ocf_metadata_detach_cline_range s a b =
     (if a > b \<or> b > collision_table_entries s then Some (OCF_ERR_INVAL, s)
      else do {
        s \<leftarrow> each_entry (\<lambda>l s. do {
               used \<leftarrow> ocf_cache_line_is_used (cl_locks s) l;
               bug_on used;
               s \<leftarrow> set_cache_line_unavailable s 0 (ocf_line_end_block s) l;
               metadata_clear_dirty s l }) [a..<b] s;
        Some (OCF_OK, s) })"

definition ocf_metadata_restore_cline_range ::
  "'z cl_state_scheme \<Rightarrow> nat \<Rightarrow> nat \<Rightarrow> (ocf_error \<times> 'z cl_state_scheme) option" where
  "ocf_metadata_restore_cline_range s a b =
     (if a > b \<or> b > collision_table_entries s then Some (OCF_ERR_INVAL, s)
      else do {
        s \<leftarrow> each_entry (\<lambda>l s. set_cache_line_available s l) [a..<b] s;
        Some (OCF_OK, s) })"

subsection \<open>Moving lines between partitions\<close>

definition user_part_move_line :: "nat \<Rightarrow> cl_req \<Rightarrow> 'z cl_state_scheme \<Rightarrow> (cl_req \<times> 'z cl_state_scheme) option" where
  "user_part_move_line i req s =
     (let entry = rq_map req i in
      if \<not> re_part entry then Some (req, s)
      else do {
        let l = coll_idx entry;
        id_old \<leftarrow> ocf_metadata_get_partition_id s l;
        let id_new = rq_part req;
        bug_on (id_old \<ge> OCF_USER_IO_CLASS_MAX \<or> id_new \<ge> OCF_USER_IO_CLASS_MAX);
        bug_on (m_status entry = LOOKUP_MISS);
        if id_old = id_new then Some (req, s)
        else do {
          is_dirty \<leftarrow> metadata_test_dirty s l;
          let s = (if is_dirty then cleaning_call (Purge_block l) s else s);
          s \<leftarrow> ocf_lru_repart s l id_old id_new;
          is_dirty \<leftarrow> metadata_test_dirty s l;
          let s = (if is_dirty then
              upd_core (rq_core req) (\<lambda>r. r\<lparr>part_dirty := (part_dirty r)(id_new := part_dirty r id_new + 1,
                  id_old := part_dirty r id_old - 1)\<rparr>) (cleaning_call (Set_hot l) s)
            else s);
          Some (req, upd_core (rq_core req) (\<lambda>r. r\<lparr>part_cached := (part_cached r)(id_new := part_cached r id_new + 1,
                  id_old := part_cached r id_old - 1)\<rparr>) s) } })"

definition ocf_user_part_move :: "cl_req \<Rightarrow> 'z cl_state_scheme \<Rightarrow> (cl_req \<times> 'z cl_state_scheme) option" where
  "ocf_user_part_move req s = each_map user_part_move_line [0..<rq_count req] req s"

subsection \<open>The counters\<close>

definition tally :: "what \<Rightarrow> 'z lru_state_scheme \<Rightarrow> nat \<Rightarrow> (nat \<Rightarrow> bool) \<Rightarrow> nat" where
  "tally w s c P = card {x. x < collision_table_entries s \<and> core_id (collision s x) = c \<and>
     P (partition_id (lru_meta s x)) \<and> marked w s x \<noteq> {}}"

definition counters_ok :: "'z cl_state_scheme \<Rightarrow> bool" where
  "counters_ok s \<longleftrightarrow> (\<forall>c. cached_clines (core_rt s c) = int (tally Valid s c (\<lambda>_. True)) \<and>
     dirty_clines (core_rt s c) = int (tally Dirty s c (\<lambda>_. True)) \<and>
     (\<forall>p. part_cached (core_rt s c) p = int (tally Valid s c ((=) p))) \<and>
     (\<forall>p. part_dirty (core_rt s c) p = int (tally Dirty s c ((=) p))))"

definition counts :: "what \<Rightarrow> 'z lru_state_scheme \<Rightarrow> nat \<Rightarrow> (nat \<Rightarrow> bool) \<Rightarrow> nat \<Rightarrow> bool" where
  "counts w s c P x \<longleftrightarrow> core_id (collision s x) = c \<and> P (partition_id (lru_meta s x)) \<and> marked w s x \<noteq> {}"

text \<open>A change of one line changes a tally by that line.\<close>

lemma tally_change:
  fixes s s' :: "'z lru_state_scheme"
  assumes N: "collision_table_entries s' = collision_table_entries s" and x: "x < collision_table_entries s"
    and same: "\<And>y. y \<noteq> x \<Longrightarrow> counts w s' c P y = counts w s c P y"
  shows "int (tally w s' c P) = int (tally w s c P) - (if counts w s c P x then 1 else 0) + (if counts w s' c P x then 1 else 0)"
proof -
  let ?n = "collision_table_entries s"
  let ?R = "{y. y < ?n \<and> y \<noteq> x \<and> counts w s c P y}"
  have R: "finite ?R" "x \<notin> ?R" by auto
  have one: "card {y. y < ?n \<and> counts w t c P y} = card ?R + (if counts w t c P x then 1 else 0)"
    if "\<And>y. y \<noteq> x \<Longrightarrow> counts w t c P y = counts w s c P y" for t :: "'z lru_state_scheme"
  proof -
    have "{y. y < ?n \<and> counts w t c P y} = (if counts w t c P x then insert x ?R else ?R)"
      using x that by (cases "counts w t c P x") (auto, metis+)
    then show ?thesis using R by simp
  qed
  have "tally w t c P = card {y. y < ?n \<and> counts w t c P y}" if "collision_table_entries t = ?n" for t :: "'z lru_state_scheme"
    by (simp add: tally_def counts_def that)
  then show ?thesis using one [of s] one [OF same] N by simp
qed

lemma tally_same:
  assumes "collision_table_entries s' = collision_table_entries s"
    "\<And>y. y < collision_table_entries s \<Longrightarrow> counts w s' c P y = counts w s c P y"
  shows "tally w s' c P = tally w s c P"
  using assms unfolding tally_def counts_def by (intro arg_cong [where f = card]) auto

subsection \<open>What updates of the counters leave alone\<close>

lemma upd_core_fields [simp]:
  "collision (upd_core c f s) = collision s" "collision_table_entries (upd_core c f s) = collision_table_entries s"
  "lru_meta (upd_core c f s) = lru_meta s" "cparts (upd_core c f s) = cparts s" "cl_locks (upd_core c f s) = cl_locks s"
  "lru_ready (upd_core c f s) = lru_ready s" "eviction_policy (upd_core c f s) = eviction_policy s"
  "md_ok (upd_core c f s) = md_ok s" "lru_list (upd_core c f s) = lru_list s"
  "core_rt (upd_core c f s) = (core_rt s)(c := f (core_rt s c))" "marked w (upd_core c f s) = marked w s"
  "home (upd_core c f s) = home s" "ocf_lru_get_list (upd_core c f s) = ocf_lru_get_list s"
  "tally w (upd_core c f s) = tally w s" "ocf_line_blocks (upd_core c f s) = ocf_line_blocks s"
  "ocf_line_end_block (upd_core c f s) = ocf_line_end_block s" "block_4k (upd_core c f s) = block_4k s"
  "line_size (upd_core c f s) = line_size s"
  by (simp_all add: upd_core_def lru_ready_def md_ok_def lru_list_def lru_rep_def marked_def home_def
      ocf_lru_get_list_def tally_def ocf_line_blocks_def ocf_line_end_block_def fun_eq_iff)

lemma cleaning_call_fields [simp]:
  "collision (cleaning_call e s) = collision s" "collision_table_entries (cleaning_call e s) = collision_table_entries s"
  "lru_meta (cleaning_call e s) = lru_meta s" "cparts (cleaning_call e s) = cparts s" "cl_locks (cleaning_call e s) = cl_locks s"
  "lru_ready (cleaning_call e s) = lru_ready s" "eviction_policy (cleaning_call e s) = eviction_policy s"
  "md_ok (cleaning_call e s) = md_ok s" "lru_list (cleaning_call e s) = lru_list s" "core_rt (cleaning_call e s) = core_rt s"
  "marked w (cleaning_call e s) = marked w s" "home (cleaning_call e s) = home s"
  "ocf_lru_get_list (cleaning_call e s) = ocf_lru_get_list s" "tally w (cleaning_call e s) = tally w s"
  "ocf_line_blocks (cleaning_call e s) = ocf_line_blocks s" "ocf_line_end_block (cleaning_call e s) = ocf_line_end_block s"
  "block_4k (cleaning_call e s) = block_4k s" "line_size (cleaning_call e s) = line_size s"
  by (simp_all add: cleaning_call_def lru_ready_def md_ok_def lru_list_def lru_rep_def marked_def home_def
      ocf_lru_get_list_def tally_def ocf_line_blocks_def ocf_line_end_block_def fun_eq_iff)

lemma cache_inv_upd [simp]:
  "cache_inv (upd_core c f s) rep = cache_inv s rep" "cache_inv (cleaning_call e s) rep = cache_inv s rep"
  "counters_ok (cleaning_call e s) = counters_ok s"
  by (simp_all add: cache_inv_def lists_ok_def counters_ok_def)

lemma remarked_upd_core: "remarked w x B s s' \<Longrightarrow> remarked w x B (upd_core c f s) (upd_core c f s')"
proof -
  assume "remarked w x B s s'"
  then obtain st where "s' = set_status x st s" "md_ok s'" "marked w s' x = B"
    "\<forall>w'. w' \<noteq> w \<longrightarrow> marked w' s' x = marked w' s x" unfolding remarked_def by blast
  moreover have "upd_core c f (set_status x st s) = set_status x st (upd_core c f s)"
    by (simp add: upd_core_def set_status_def)
  ultimately show ?thesis unfolding remarked_def upd_core_fields by metis
qed

text \<open>\<open>bumped w n p r r'\<close>: the counters of kind \<open>w\<close>, altogether and for partition \<open>p\<close>, differ by \<open>n\<close>.\<close>

definition bumped :: "what \<Rightarrow> int \<Rightarrow> nat \<Rightarrow> core_counters \<Rightarrow> core_counters \<Rightarrow> bool" where
  "bumped w n p r r' \<longleftrightarrow>
     cached_clines r' = cached_clines r + (if w = Valid then n else 0) \<and>
     dirty_clines r' = dirty_clines r + (if w = Dirty then n else 0) \<and>
     part_cached r' = (if w = Valid then (part_cached r)(p := part_cached r p + n) else part_cached r) \<and>
     part_dirty r' = (if w = Dirty then (part_dirty r)(p := part_dirty r p + n) else part_dirty r)"

lemma counters_remark:
  fixes s s' :: "'z cl_state_scheme"
  assumes ok: "counters_ok s" and x: "x < collision_table_entries s"
    and N: "collision_table_entries s' = collision_table_entries s"
    and core: "\<And>y. core_id (collision s' y) = core_id (collision s y)"
    and part: "\<And>y. partition_id (lru_meta s' y) = partition_id (lru_meta s y)"
    and mark: "\<And>w' y. w' \<noteq> w \<or> y \<noteq> x \<Longrightarrow> marked w' s' y = marked w' s y"
    and rt: "core_rt s' = (core_rt s)(core_id (collision s x) := r)"
      "bumped w ((if marked w s' x \<noteq> {} then 1 else 0) - (if marked w s x \<noteq> {} then 1 else 0))
        (partition_id (lru_meta s x)) (core_rt s (core_id (collision s x))) r"
  shows "counters_ok s'"
proof -
  let ?c = "core_id (collision s x)" and ?p = "partition_id (lru_meta s x)"
  let ?n = "(if marked w s' x \<noteq> {} then 1 else 0) - (if marked w s x \<noteq> {} then 1 else 0) :: int"
  have other: "tally w' s' c P = tally w' s c P" if "w' \<noteq> w \<or> c \<noteq> ?c \<or> \<not> P ?p" for w' c P
  proof (rule tally_same [OF N])
    show "counts w' s' c P y = counts w' s c P y" for y
      using that mark [of w' y] by (cases "w' = w \<and> y = x") (auto simp: counts_def core part)
  qed
  have own: "int (tally w s' ?c P) = int (tally w s ?c P) + ?n" if "P ?p" for P
    using that mark by (subst tally_change [OF N x]) (auto simp: counts_def core part)
  show ?thesis
    unfolding counters_ok_def
  proof (intro allI conjI)
    fix c p
    note O = ok [unfolded counters_ok_def, rule_format, of c]
    show "cached_clines (core_rt s' c) = int (tally Valid s' c (\<lambda>_. True))"
      using O rt other [of Valid c] own by (cases "c = ?c"; cases w) (auto simp: bumped_def)
    show "dirty_clines (core_rt s' c) = int (tally Dirty s' c (\<lambda>_. True))"
      using O rt other [of Dirty c] own by (cases "c = ?c"; cases w) (auto simp: bumped_def)
    show "part_cached (core_rt s' c) p = int (tally Valid s' c ((=) p))"
      using O rt other [of Valid c] own by (cases "c = ?c"; cases "p = ?p"; cases w) (auto simp: bumped_def)
    show "part_dirty (core_rt s' c) p = int (tally Dirty s' c ((=) p))"
      using O rt other [of Dirty c] own by (cases "c = ?c"; cases "p = ?p"; cases w) (auto simp: bumped_def)
  qed
qed

definition cl_inv :: "'z cl_state_scheme \<Rightarrow> (slot \<Rightarrow> nat list) \<Rightarrow> bool" where
  "cl_inv s rep \<longleftrightarrow> cache_inv s rep \<and> counters_ok s"

text \<open>A line is homed when it is on the list where its partition and its dirty blocks say it is.\<close>

definition homed :: "'z lru_cache_scheme \<Rightarrow> (slot \<Rightarrow> nat list) \<Rightarrow> nat \<Rightarrow> bool" where
  "homed s rep x \<longleftrightarrow> home s x \<in> slots \<and> x \<in> set (rep (home s x))"

text \<open>A line of the map of a request, on the list of a user partition, that belongs to the request's core.\<close>

definition line_of :: "'z cl_state_scheme \<Rightarrow> (slot \<Rightarrow> nat list) \<Rightarrow> cl_req \<Rightarrow> nat \<Rightarrow> bool" where
  "line_of s rep req i \<longleftrightarrow> (let x = coll_idx (rq_map req i) in
     homed s rep x \<and> partition_id (lru_meta s x) < OCF_USER_IO_CLASS_MAX \<and>
     core_id (collision s x) = rq_core req)"

lemma line_of_invD:
  assumes I: "cache_inv s rep" and "line_of s rep req i" "x = coll_idx (rq_map req i)"
  shows "x < collision_table_entries s" "partition_id (lru_meta s x) < 34"
    "ocf_metadata_get_partition_id s x = Some (partition_id (lru_meta s x))"
    "home s x = (partition_id (lru_meta s x), OCF_LRU_GET_LIST_INDEX x, marked Dirty s x = {})"
    "home s x \<in> slots" "x \<in> set (rep (home s x))" "core_id (collision s x) = rq_core req"
proof -
  have l: "home s x \<in> slots" "x \<in> set (rep (home s x))" "partition_id (lru_meta s x) < 34" "core_id (collision s x) = rq_core req"
    using assms by (auto simp: line_of_def Let_def homed_def)
  show "home s x \<in> slots" "x \<in> set (rep (home s x))" "core_id (collision s x) = rq_core req" by (fact l)+
  show N: "x < collision_table_entries s" using cache_invD(6) [OF I l(1,2)] .
  show p: "partition_id (lru_meta s x) < 34" by (fact l)
  then show "home s x = (partition_id (lru_meta s x), OCF_LRU_GET_LIST_INDEX x, marked Dirty s x = {})"
    by (simp add: home_def list_kind_def PARTITION_FREELIST_def)
  show "ocf_metadata_get_partition_id s x = Some (partition_id (lru_meta s x))"
    using N cache_invD(2) [OF I] by (simp add: ocf_metadata_get_partition_id_def)
qed

lemmas line_ofD = line_of_invD [OF conjunct1 [OF cl_inv_def [THEN iffD1]]]

lemma relinked_core: "relinked s s' \<Longrightarrow> core_rt s' = core_rt s" "relinked s s' \<Longrightarrow> cl_locks s' = cl_locks s"
  by (auto simp: relinked_def)

text \<open>\<open>same_dir s s'\<close>: the hash table, the collision chains and the core lines are the same.\<close>

definition same_dir :: "'z coll_state_scheme \<Rightarrow> 'z coll_state_scheme \<Rightarrow> bool" where
  "same_dir s s' \<longleftrightarrow> collision_table_entries s' = collision_table_entries s \<and> hash_table_entries s' = hash_table_entries s \<and>
     hash_table s' = hash_table s \<and> list_info s' = list_info s \<and>
     (\<forall>y. core_id (collision s' y) = core_id (collision s y) \<and> core_line (collision s' y) = core_line (collision s y))"

lemma same_dirD:
  assumes "same_dir s s'"
  shows "coll_inv s' = coll_inv s" "cached s' = cached s" "mapped s' = mapped s" "line_key s' = line_key s"
    "collision_table_entries s' = collision_table_entries s" "core_id (collision s' y) = core_id (collision s y)"
proof -
  note S = assms [unfolded same_dir_def]
  show m: "mapped s' = mapped s" "line_key s' = line_key s" using S by (auto simp: mapped_def line_key_def fun_eq_iff)
  have k: "key_hash s' = key_hash s" using S by (simp add: key_hash_def ocf_metadata_hash_func_def fun_eq_iff)
  show "coll_inv s' = coll_inv s" using S unfolding coll_inv_def geometry_ok_def unique_keys_def chains_ok_def m k by simp
  show "cached s' = cached s" using S by (simp add: cached_def m fun_eq_iff)
  show "collision_table_entries s' = collision_table_entries s" "core_id (collision s' y) = core_id (collision s y)" using S by auto
qed

lemma same_dir_refl [simp]: "same_dir s s"
  by (simp add: same_dir_def)

lemma same_dir_trans: "same_dir a b \<Longrightarrow> same_dir b c \<Longrightarrow> same_dir a c"
  by (simp add: same_dir_def)

lemma same_dir_upd_core [simp]: "same_dir s (upd_core c f s')  = same_dir s s'" "same_dir (upd_core c f s) s'  = same_dir s s'"
  by (simp_all add: same_dir_def upd_core_def)

lemma same_dir_cleaning_call [simp]: "same_dir s (cleaning_call e s') = same_dir s s'"
  by (simp add: same_dir_def cleaning_call_def)

lemma same_dir_relinked: "relinked s s' \<Longrightarrow> same_dir s s'"
  by (auto simp: relinked_def same_dir_def)

lemma same_dir_remarked:
  fixes s :: "'z coll_state_scheme"
  shows "remarked w x B s s' \<Longrightarrow> same_dir s s'"
  by (auto simp: remarked_def same_dir_def set_status_def)

lemma remarkedD:
  assumes "remarked w x B s s'"
  shows "md_ok s'" "marked w s' x = B" "w' \<noteq> w \<or> y \<noteq> x \<Longrightarrow> marked w' s' y = marked w' s y"
    "collision_table_entries s' = collision_table_entries s" "core_id (collision s' y) = core_id (collision s y)"
    "line_size s' = line_size s" "block_4k s' = block_4k s"
proof -
  obtain st where st: "s' = set_status x st s" "md_ok s'" "marked w s' x = B" "\<forall>w'. w' \<noteq> w \<longrightarrow> marked w' s' x = marked w' s x"
    using assms unfolding remarked_def by blast
  show "md_ok s'" "marked w s' x = B" by (fact st)+
  show "collision_table_entries s' = collision_table_entries s" "core_id (collision s' y) = core_id (collision s y)"
    "line_size s' = line_size s" "block_4k s' = block_4k s"
    using st(1) by simp_all
  show "w' \<noteq> w \<or> y \<noteq> x \<Longrightarrow> marked w' s' y = marked w' s y"
    using st by (cases "y = x") (auto simp: marked_def)
qed

lemma remarked_lru:
  fixes s :: "'z lru_cache_scheme"
  assumes "remarked w x B s s'"
  shows "lru_meta s' = lru_meta s" "cparts s' = cparts s" "eviction_policy s' = eviction_policy s"
    "lists_ok s' rep = lists_ok s rep"
proof -
  obtain st where st: "s' = set_status x st s" using assms unfolding remarked_def by blast
  show "lru_meta s' = lru_meta s" "cparts s' = cparts s" "eviction_policy s' = eviction_policy s"
    "lists_ok s' rep = lists_ok s rep"
    unfolding st lists_ok_def by (simp_all add: st)
qed

lemma remarked_core:
  fixes s :: "'z cl_state_scheme"
  assumes "remarked w x B s s'"
  shows "core_rt s' = core_rt s" "cl_locks s' = cl_locks s"
proof -
  obtain st where st: "s' = set_status x st s" using assms unfolding remarked_def by blast
  show "core_rt s' = core_rt s" "cl_locks s' = cl_locks s" unfolding st by (simp_all add: set_status_def)
qed

text \<open>Marking that leaves a line as clean or as dirty as it was keeps the placement.\<close>

lemma remarked_cache_inv:
  assumes inv: "cache_inv s rep" and re: "remarked w x B s s'" and same: "w = Dirty \<Longrightarrow> (B = {}) = (marked Dirty s x = {})"
  shows "cache_inv s' rep"
proof -
  note R = remarkedD [OF re] and L = remarked_lru [OF re]
  have "(marked Dirty s' y = {}) = (marked Dirty s y = {})" for y
    using R(2) R(3) [of Dirty y] same by (cases "w = Dirty \<and> y = x") auto
  then have "home s' y = home s y" for y by (simp add: home_def L)
  then show ?thesis using inv R(1) by (simp add: cache_inv_def L)
qed

text \<open>The counters after blocks of one line were marked and the lists were relinked.\<close>

lemma counters_after:
  fixes s s1 s' :: "'z cl_state_scheme"
  assumes ok: "counters_ok s" and re: "remarked w x B s s1" and x: "x < collision_table_entries s"
    and rel: "relinked s2 s'" and s2: "s2 = upd_core (core_id (collision s x)) f s1"
    and b: "bumped w ((if B \<noteq> {} then 1 else 0) - (if marked w s x \<noteq> {} then 1 else 0))
      (partition_id (lru_meta s x)) (core_rt s (core_id (collision s x))) (f (core_rt s (core_id (collision s x))))"
  shows "counters_ok s'"
proof -
  note R = remarkedD [OF re] and L = remarked_lru [OF re] and C = remarked_core [OF re] and K = relinkedD [OF rel]
  have rt: "core_rt s' = (core_rt s)(core_id (collision s x) := f (core_rt s (core_id (collision s x))))"
    using relinked_core(1) [OF rel] C by (simp add: s2)
  show ?thesis
  proof (rule counters_remark [OF ok x _ _ _ _ rt, of w])
    show "collision_table_entries s' = collision_table_entries s" using K(2) R(4) by (simp add: s2)
    show "core_id (collision s' y) = core_id (collision s y)" for y using K(1) R(5) by (simp add: s2)
    show "partition_id (lru_meta s' y) = partition_id (lru_meta s y)" for y using K(3) L by (simp add: s2)
    show "marked w' s' y = marked w' s y" if "w' \<noteq> w \<or> y \<noteq> x" for w' y
      using K(7) R(3) that by (simp add: s2)
    show "bumped w ((if marked w s' x \<noteq> {} then 1 else 0) - (if marked w s x \<noteq> {} then 1 else 0))
        (partition_id (lru_meta s x)) (core_rt s (core_id (collision s x))) (f (core_rt s (core_id (collision s x))))"
      using b K(7) R(2) by (simp add: s2)
  qed
qed

lemma bumped_0: "bumped w 0 p r r"
  by (auto simp: bumped_def)

lemma upd_core_id: "upd_core c (\<lambda>r. r) s = s"
  by (simp add: upd_core_def)

text \<open>What an operation on blocks of a line of a request does: \<open>B\<close> are the marked blocks of kind \<open>w\<close> afterwards.\<close>

definition line_marked :: "what \<Rightarrow> nat \<Rightarrow> nat set \<Rightarrow> 'z cl_state_scheme \<Rightarrow> 'z cl_state_scheme \<Rightarrow> bool" where
  "line_marked w x B s s' \<longleftrightarrow> marked w s' x = B \<and> (\<forall>w' y. w' \<noteq> w \<or> y \<noteq> x \<longrightarrow> marked w' s' y = marked w' s y) \<and>
     same_dir s s' \<and> (\<forall>y. partition_id (lru_meta s' y) = partition_id (lru_meta s y)) \<and>
     line_size s' = line_size s \<and> block_4k s' = block_4k s \<and> cl_locks s' = cl_locks s"

definition line_changed ::
  "what \<Rightarrow> nat \<Rightarrow> nat set \<Rightarrow> 'z cl_state_scheme \<Rightarrow> (slot \<Rightarrow> nat list) \<Rightarrow> 'z cl_state_scheme \<Rightarrow> (slot \<Rightarrow> nat list) \<Rightarrow> bool" where
  "line_changed w x B s rep s' rep' \<longleftrightarrow> cl_inv s' rep' \<and> line_marked w x B s s' \<and> (\<forall>y. homed s rep y \<longrightarrow> homed s' rep' y)"

lemma cleaning_call_changed [simp]:
  "line_changed w x B s rep (cleaning_call e s') rep' = line_changed w x B s rep s' rep'"
  by (simp add: line_changed_def cl_inv_def line_marked_def homed_def)

text \<open>Marking blocks and keeping the line on its list.\<close>

lemma stay_spec:
  assumes inv: "cl_inv s rep" and x: "x < collision_table_entries s" and re: "remarked w x B s s1"
    and same: "w = Dirty \<Longrightarrow> (B = {}) = (marked Dirty s x = {})"
    and b: "bumped w ((if B \<noteq> {} then 1 else 0) - (if marked w s x \<noteq> {} then 1 else 0))
      (partition_id (lru_meta s x)) (core_rt s (core_id (collision s x))) (f (core_rt s (core_id (collision s x))))"
  shows "line_changed w x B s rep (upd_core (core_id (collision s x)) f s1) rep"
proof -
  have I: "cache_inv s rep" "counters_ok s" using inv by (simp_all add: cl_inv_def)
  note R = remarkedD [OF re] and L = remarked_lru [OF re] and C = remarked_core [OF re]
  have "(marked Dirty s1 y = {}) = (marked Dirty s y = {})" for y
    using R(2) R(3) [of Dirty y] same by (cases "w = Dirty \<and> y = x") auto
  then have h: "home s1 y = home s y" for y by (simp add: home_def L)
  have "line_marked w x B s (upd_core (core_id (collision s x)) f s1)"
    using R C L same_dir_remarked [OF re] by (simp add: line_marked_def)
  moreover have "counters_ok (upd_core (core_id (collision s x)) f s1)"
    by (rule counters_after [where s = s and f = f, OF I(2) re x relinked_refl refl b])
  ultimately show ?thesis
    using remarked_cache_inv [OF I(1) re same]
    by (simp add: line_changed_def cl_inv_def homed_def h)
qed

text \<open>Marking that makes a clean line dirty or a dirty line clean, and moving the line to the other list.\<close>

lemma flip_spec:
  assumes inv: "cl_inv s rep" and pl: "homed s rep x" "partition_id (lru_meta s x) < OCF_USER_IO_CLASS_MAX"
    and re: "remarked Dirty x B s s1" and flip: "(B = {}) \<noteq> (marked Dirty s x = {})"
    and b: "bumped Dirty (if B = {} then -1 else 1) (partition_id (lru_meta s x))
      (core_rt s (core_id (collision s x))) (f (core_rt s (core_id (collision s x))))"
  shows "\<exists>s' rep'. (if B = {} then ocf_lru_clean_cline else ocf_lru_dirty_cline)
      (upd_core (core_id (collision s x)) f s1) (partition_id (lru_meta s x)) x = Some s' \<and> line_changed Dirty x B s rep s' rep'"
proof -
  let ?c = "core_id (collision s x)" and ?p = "partition_id (lru_meta s x)" and ?i = "OCF_LRU_GET_LIST_INDEX x"
  let ?k = "marked Dirty s x = {}"
  let ?rep = "moved x (?p, ?i, ?k) (?p, ?i, \<not> ?k) rep"
  have I: "cache_inv s rep" "counters_ok s" using inv by (simp_all add: cl_inv_def)
  note R = remarkedD [OF re] and L = remarked_lru [OF re] and C = remarked_core [OF re]
  have nf: "?p \<noteq> PARTITION_FREELIST" using pl(2) by (simp add: PARTITION_FREELIST_def)
  then have h: "home s x = (?p, ?i, ?k)" by (simp add: home_def list_kind_def)
  have sl: "(?p, ?i, ?k) \<in> slots" "x \<in> set (rep (?p, ?i, ?k))" using pl(1) unfolding homed_def h by blast+
  have xN: "x < collision_table_entries s" using cache_invD(6) [OF I(1) sl] .
  have k: "?k = (B \<noteq> {})" using flip by blast
  obtain s' where s': "(if ?k then ocf_lru_dirty_cline (upd_core ?c f s1) ?p x else ocf_lru_clean_cline (upd_core ?c f s1) ?p x) = Some s'"
      "cache_inv s' ?rep" "relinked (upd_core ?c f s1) s'"
    using dirty_clean_spec [where rep = rep and c = ?k, OF _ sl(1) nf sl(2) remarked_upd_core [OF re, of ?c f]] I(1) k by auto
  note K = relinkedD [OF s'(3)]
  have ok: "counters_ok s'"
    by (rule counters_after [OF I(2) re xN s'(3) refl]) (use b k in \<open>simp split: if_splits\<close>)
  have lm: "line_marked Dirty x B s s'"
    using R L C K relinked_core [OF s'(3)] same_dir_trans [OF same_dir_remarked [OF re]] same_dir_relinked [OF s'(3)]
    by (simp add: line_marked_def)
  have "homed s' ?rep y" if "homed s rep y" for y
  proof -
    have l: "lists_ok s rep" using cache_invD(1) [OF I(1)] .
    have hy: "home s' y = (if y = x then (?p, ?i, \<not> ?k) else home s y)"
      using K R L k nf by (simp add: home_def list_kind_def)
    have sx: "(?p, ?i, \<not> ?k) \<in> slots" using sl(1) nf by (simp add: slots_simps)
    show ?thesis
    proof (cases "y = x")
      case True
      then have "home s' y = (?p, ?i, \<not> ?k)" using hy by presburger
      then show ?thesis using sx True unfolding homed_def moved_def Let_def by simp
    next
      case False
      then show ?thesis using that set_moved [OF l sl, of "home s y"] by (auto simp: homed_def hy split: if_splits)
    qed
  qed
  then have "line_changed Dirty x B s rep s' ?rep" using s'(2) ok lm by (simp add: line_changed_def cl_inv_def)
  then show ?thesis using s'(1) k by (cases ?k) auto
qed

text \<open>Only flush flags of a request are set.\<close>

definition flush_only :: "cl_req \<Rightarrow> cl_req \<Rightarrow> bool" where
  "flush_only req req' \<longleftrightarrow> (\<exists>F b. req' = req\<lparr>rq_map := (\<lambda>i. (rq_map req i)\<lparr>m_flush := F i\<rparr>), flush_metadata := b\<rparr> \<and>
     (\<forall>i. m_flush (rq_map req i) \<longrightarrow> F i) \<and> (flush_metadata req \<longrightarrow> b))"

lemma flush_only_refl: "flush_only req req"
  unfolding flush_only_def by (rule exI [of _ "\<lambda>i. m_flush (rq_map req i)"], rule exI [of _ "flush_metadata req"]) simp

lemma flush_only_trans: "flush_only a b \<Longrightarrow> flush_only b c \<Longrightarrow> flush_only a c"
  unfolding flush_only_def by (elim exE conjE) (rule exI, rule exI, auto)

lemma flush_only_mark: "flush_only req (ocf_metadata_flush_mark i req)"
  unfolding flush_only_def ocf_metadata_flush_mark_def
  by (rule exI [of _ "\<lambda>j. j = i \<or> m_flush (rq_map req j)"], rule exI [of _ True]) (auto simp: fun_eq_iff)

lemma flush_onlyD:
  assumes "flush_only req req'"
  shows "rq_core req' = rq_core req" "rq_part req' = rq_part req" "rq_addr req' = rq_addr req" "rq_bytes req' = rq_bytes req"
    "rq_count req' = rq_count req" "coll_idx (rq_map req' i) = coll_idx (rq_map req i)"
    "m_status (rq_map req' i) = m_status (rq_map req i)" "m_flush (rq_map req i) \<Longrightarrow> m_flush (rq_map req' i)"
    "flush_metadata req \<Longrightarrow> flush_metadata req'"
  using assms by (auto simp: flush_only_def)

lemma line_of_changed:
  assumes "line_changed w x B s rep s' rep'" "flush_only req req'" "line_of s rep req j"
  shows "line_of s' rep' req' j"
  using assms flush_onlyD [OF assms(2)] by (simp add: line_of_def Let_def line_changed_def line_marked_def same_dir_def)

subsection \<open>Operations on the blocks of one line\<close>

text \<open>The request and the blocks an operation is applied to.\<close>

definition applies :: "'z cl_state_scheme \<Rightarrow> (slot \<Rightarrow> nat list) \<Rightarrow> cl_req \<Rightarrow> nat \<Rightarrow> nat \<Rightarrow> nat \<Rightarrow> bool" where
  "applies s rep req i a b \<longleftrightarrow> cl_inv s rep \<and> line_of s rep req i \<and> a \<le> b \<and> b < ocf_line_blocks s"

lemma appliesD:
  assumes "applies s rep req i a b" "x = coll_idx (rq_map req i)"
  shows "cl_inv s rep" "md_ok s" "x < collision_table_entries s" "a \<le> b" "b < ocf_line_blocks s" "homed s rep x"
    "partition_id (lru_meta s x) < OCF_USER_IO_CLASS_MAX" "core_id (collision s x) = rq_core req"
    "ocf_metadata_get_partition_id s x = Some (partition_id (lru_meta s x))"
    "part_index (partition_id (lru_meta s x)) = Some ()" "bug_on (partition_id (lru_meta s x) > OCF_USER_IO_CLASS_MAX) = Some ()"
proof -
  have A: "cl_inv s rep" "line_of s rep req i" "a \<le> b" "b < ocf_line_blocks s" using assms by (auto simp: applies_def)
  note L = line_ofD [OF A(1,2) assms(2)]
  show "cl_inv s rep" "a \<le> b" "b < ocf_line_blocks s" "x < collision_table_entries s" "core_id (collision s x) = rq_core req"
    "ocf_metadata_get_partition_id s x = Some (partition_id (lru_meta s x))" by (fact A L)+
  show "md_ok s" using A(1) cache_invD(3) by (auto simp: cl_inv_def)
  show "homed s rep x" using L(5,6) by (simp add: homed_def)
  show "partition_id (lru_meta s x) < OCF_USER_IO_CLASS_MAX" using L(2) by simp
  then show "part_index (partition_id (lru_meta s x)) = Some ()"
    "bug_on (partition_id (lru_meta s x) > OCF_USER_IO_CLASS_MAX) = Some ()" by (simp_all add: part_index_def bug_on_def)
qed

lemma set_valid_spec:
  assumes ap: "applies s rep req i a b" and x: "x = coll_idx (rq_map req i)"
  shows "\<exists>s'. set_cache_line_valid s a b req i = Some (req, s') \<and>
    line_changed Valid x (marked Valid s x \<union> {a..b}) s rep s' rep"
proof -
  note A = appliesD [OF ap x]
  let ?B = "marked Valid s x \<union> {a..b}" and ?p = "partition_id (lru_meta s x)" and ?c = "rq_core req"
  obtain s1 where s1: "ocf_metadata_set Valid s x a b = Some (marked Valid s x \<noteq> {}, s1)" "remarked Valid x ?B s s1"
    using ocf_metadata_set_eq [OF A(2-5)] by blast
  let ?f = "\<lambda>r. if marked Valid s x = {} then r\<lparr>cached_clines := cached_clines r + 1,
       part_cached := (part_cached r)(?p := part_cached r ?p + 1)\<rparr> else r"
  have ne: "?B \<noteq> {}" using A(4) by auto
  have "line_changed Valid x ?B s rep (upd_core (core_id (collision s x)) ?f s1) rep"
    by (rule stay_spec [OF A(1,3) s1(2)]) (use ne in \<open>auto simp: bumped_def\<close>)
  moreover have "set_cache_line_valid s a b req i = Some (req, upd_core ?c ?f s1)"
    using s1(1) A(9,10) by (cases "marked Valid s x = {}")
      (simp_all add: set_cache_line_valid_def metadata_set_valid_sec_changed_def add_cached_def x [symmetric] upd_core_id)
  ultimately show ?thesis using A(8) by auto
qed

lemma set_dirty_spec:
  assumes ap: "applies s rep req i a b" and x: "x = coll_idx (rq_map req i)"
  shows "\<exists>s' rep'. set_cache_line_dirty now s a b req i =
      Some (if {a..b} \<subseteq> marked Dirty s x then req else ocf_metadata_flush_mark i req, s') \<and>
    line_changed Dirty x (marked Dirty s x \<union> {a..b}) s rep s' rep'"
proof -
  note A = appliesD [OF ap x]
  let ?B = "marked Dirty s x \<union> {a..b}" and ?p = "partition_id (lru_meta s x)" and ?c = "rq_core req"
  obtain s1 where s1: "ocf_metadata_set Dirty s x a b = Some (marked Dirty s x \<noteq> {}, s1)" "remarked Dirty x ?B s s1"
    using ocf_metadata_set_eq [OF A(2-5)] by blast
  have t: "ocf_metadata_test Dirty s x a b True = Some ({a..b} \<subseteq> marked Dirty s x)"
    using ocf_metadata_test_eq [OF A(2-5), of Dirty True] by simp
  have ne: "?B \<noteq> {}" "{a..b} \<noteq> {}" using A(4) by auto
  note op = set_cache_line_dirty_def metadata_set_dirty_sec_changed_def dirty_counters_def x [symmetric] Let_def
  show ?thesis
  proof (cases "marked Dirty s x = {}")
    case True
    let ?f = "\<lambda>r. r\<lparr>dirty_clines := dirty_clines r + 1, dirty_since := (if dirty_since r = 0 then now else dirty_since r),
       part_dirty := (part_dirty r)(?p := part_dirty r ?p + 1)\<rparr>"
    obtain s' rep' where "ocf_lru_dirty_cline (upd_core ?c ?f s1) ?p x = Some s'" "line_changed Dirty x ?B s rep s' rep'"
      using flip_spec [OF A(1,6,7) s1(2), of ?f] True ne(1) A(8) by (auto simp: bumped_def)
    then show ?thesis using s1(1) t A(9,10,11) True ne(2)
      by (intro exI [of _ "cleaning_call (Set_hot x) s'"] exI [of _ rep'])
        (simp add: op ocf_metadata_flush_mark_def)
  next
    case False
    have "line_changed Dirty x ?B s rep (upd_core (core_id (collision s x)) (\<lambda>r. r) s1) rep"
      by (rule stay_spec [OF A(1,3) s1(2)]) (use ne False in \<open>auto simp: bumped_def\<close>)
    then show ?thesis using s1(1) t A(9,11) False
      by (intro exI [of _ "cleaning_call (Set_hot x) s1"] exI [of _ rep]) (simp add: op upd_core_id)
  qed
qed

lemma set_clean_spec:
  assumes ap: "applies s rep req i a b" and x: "x = coll_idx (rq_map req i)"
  shows "\<exists>s' rep'. set_cache_line_clean s a b req i =
      Some (if {a..b} \<inter> marked Dirty s x = {} then req else ocf_metadata_flush_mark i req, s') \<and>
    line_changed Dirty x (marked Dirty s x - {a..b}) s rep s' rep'"
proof -
  note A = appliesD [OF ap x]
  let ?B = "marked Dirty s x - {a..b}" and ?p = "partition_id (lru_meta s x)" and ?c = "rq_core req"
  obtain s1 where s1: "ocf_metadata_clear Dirty s x a b = Some (marked Dirty s1 x \<noteq> {}, s1)" "remarked Dirty x ?B s s1"
    using ocf_metadata_clear_eq [OF A(2-5)] by blast
  have t: "ocf_metadata_test Dirty s x a b False = Some ({a..b} \<inter> marked Dirty s x \<noteq> {})"
    using ocf_metadata_test_eq [OF A(2-5), of Dirty False] by simp
  have B: "marked Dirty s1 x = ?B" using remarkedD(2) [OF s1(2)] .
  note op = set_cache_line_clean_def metadata_clear_dirty_sec_changed_def dirty_counters_def x [symmetric] Let_def
  show ?thesis
  proof (cases "marked Dirty s x \<noteq> {} \<and> ?B = {}")
    case True
    then have ch: "{a..b} \<inter> marked Dirty s x \<noteq> {}" by auto
    let ?l = "dirty_clines (core_rt s1 ?c) - 1 = 0"
    let ?f = "\<lambda>r. r\<lparr>dirty_clines := dirty_clines r + - 1, dirty_since := (if ?l then 0 else dirty_since r),
       part_dirty := (part_dirty r)(?p := part_dirty r ?p + - 1)\<rparr>"
    obtain s' rep' where s': "ocf_lru_clean_cline (upd_core ?c ?f s1) ?p x = Some s'" "line_changed Dirty x ?B s rep s' rep'"
      using flip_spec [OF A(1,6,7) s1(2), of ?f] True A(8) by (auto simp: bumped_def)
    have m1: "marked Dirty s1 x = {}" using B True by simp
    show ?thesis
    proof (intro exI conjI)
      show "set_cache_line_clean s a b req i = Some (if {a..b} \<inter> marked Dirty s x = {} then req else ocf_metadata_flush_mark i req,
          cleaning_call (Purge_block x) s')"
        using s1(1) t A(9,10,11) ch m1 s'(1) by (simp add: op ocf_metadata_flush_mark_def)
      show "line_changed Dirty x ?B s rep (cleaning_call (Purge_block x) s') rep'" using s'(2) by simp
    qed
  next
    case False
    have "line_changed Dirty x ?B s rep (upd_core (core_id (collision s x)) (\<lambda>r. r) s1) rep"
      by (rule stay_spec [OF A(1,3) s1(2)]) (use False in \<open>auto simp: bumped_def\<close>)
    moreover have "{a..b} \<inter> marked Dirty s x = {} \<or> ?B \<noteq> {}" using False by auto
    ultimately show ?thesis using s1(1) t A(9,11) B
      by (intro exI [of _ s1] exI [of _ rep]) (auto simp add: op upd_core_id)
  qed
qed

subsection \<open>The blocks of a request\<close>

abbreviation block_bytes :: "'z md_state_scheme \<Rightarrow> nat" where
  "block_bytes s \<equiv> 2 ^ block_shift (block_4k s)"

definition req_shape :: "'z md_state_scheme \<Rightarrow> 'y cl_req_scheme \<Rightarrow> bool" where
  "req_shape s req \<longleftrightarrow> line_size s \<noteq> Size_none \<and> 0 < rq_bytes req \<and> rq_count req =
     (rq_addr req + rq_bytes req - 1) div line_bytes (line_size s) - rq_addr req div line_bytes (line_size s) + 1"

definition req_blocks :: "'z md_state_scheme \<Rightarrow> 'y cl_req_scheme \<Rightarrow> nat \<Rightarrow> nat set" where
  "req_blocks s req i = {ocf_map_line_start_block s req i..ocf_map_line_end_block s req i}"

lemma line_geometry:
  assumes "line_size s \<noteq> Size_none"
  shows "0 < ocf_line_blocks s" "ocf_line_end_block s = ocf_line_blocks s - 1"
    "line_bytes (line_size s) = block_bytes s * ocf_line_blocks s"
proof -
  have b: "0 < ocf_line_blocks s" "ocf_line_blocks s \<le> 128"
    using line_blocks_pos [OF assms, of "block_4k s"] by (simp_all add: ocf_line_blocks_def)
  then have "ocf_line_blocks s + (2 ^ 64 - 1) = (ocf_line_blocks s - 1) + 2 ^ 64" by simp
  then show "ocf_line_end_block s = ocf_line_blocks s - 1"
    using b unfolding ocf_line_end_block_def by (simp only: mod_add_self2) simp
  show "0 < ocf_line_blocks s" by (fact b)
  show "line_bytes (line_size s) = block_bytes s * ocf_line_blocks s"
    using assms by (cases "line_size s"; cases "block_4k s") (simp_all add: ocf_line_blocks_def block_shift_def)
qed

lemma req_geometry:
  fixes s :: "'z md_state_scheme"
  defines "n \<equiv> ocf_line_blocks s"
  assumes "req_shape s req"
  shows "0 < n" "ocf_line_end_block s = n - 1"
    "rq_count req = (rq_addr req + rq_bytes req - 1) div block_bytes s div n - rq_addr req div block_bytes s div n + 1"
    "rq_addr req div block_bytes s \<le> (rq_addr req + rq_bytes req - 1) div block_bytes s"
    "rq_addr req div block_bytes s div n \<le> (rq_addr req + rq_bytes req - 1) div block_bytes s div n"
    "rq_addr req div line_bytes (line_size s) = rq_addr req div block_bytes s div n"
proof -
  have S: "line_size s \<noteq> Size_none" "0 < rq_bytes req" using assms(2) by (auto simp: req_shape_def)
  note G = line_geometry [OF S(1)]
  show "0 < n" "ocf_line_end_block s = n - 1" using G by (simp_all add: n_def)
  show "rq_count req = (rq_addr req + rq_bytes req - 1) div block_bytes s div n - rq_addr req div block_bytes s div n + 1"
    "rq_addr req div line_bytes (line_size s) = rq_addr req div block_bytes s div n"
    using assms(2) G(3) by (auto simp: req_shape_def n_def div_mult2_eq)
  show "rq_addr req div block_bytes s \<le> (rq_addr req + rq_bytes req - 1) div block_bytes s"
    using S(2) by (intro div_le_mono) simp
  then show "rq_addr req div block_bytes s div n \<le> (rq_addr req + rq_bytes req - 1) div block_bytes s div n"
    by (rule div_le_mono)
qed

lemma req_blocks_cover:
  assumes "req_shape s req" "i < rq_count req" "k < ocf_line_blocks s"
  shows "k \<in> req_blocks s req i \<longleftrightarrow>
    (let b = (rq_addr req div line_bytes (line_size s) + i) * ocf_line_blocks s + k in
     rq_addr req div block_bytes s \<le> b \<and> b \<le> (rq_addr req + rq_bytes req - 1) div block_bytes s)"
proof -
  let ?n = "ocf_line_blocks s" and ?A = "rq_addr req div block_bytes s"
  let ?E = "(rq_addr req + rq_bytes req - 1) div block_bytes s"
  note G = req_geometry [OF assms(1)]
  have A: "?A = ?A div ?n * ?n + ?A mod ?n" "?A mod ?n < ?n" using G(1) by simp_all
  have E: "?E = ?E div ?n * ?n + ?E mod ?n" "?E mod ?n < ?n" using G(1) by simp_all
  let ?b = "(?A div ?n + i) * ?n + k"
  have lo: "?A \<le> ?b \<longleftrightarrow> (i = 0 \<longrightarrow> ?A mod ?n \<le> k)"
  proof (cases i)
    case 0
    then have "?b = ?A div ?n * ?n + k" by simp
    then show ?thesis using A 0 by linarith
  next
    case (Suc j)
    then have "?b = ?A div ?n * ?n + ?n + j * ?n + k" by (simp add: algebra_simps)
    then show ?thesis using A Suc by linarith
  qed
  have hi: "?b \<le> ?E \<longleftrightarrow> (i = rq_count req - 1 \<longrightarrow> k \<le> ?E mod ?n)"
  proof (cases "i = rq_count req - 1")
    case True
    then have "?A div ?n + i = ?E div ?n" using G(3,5) by simp
    then have "?b = ?E div ?n * ?n + k" by presburger
    then show ?thesis using E(1) True by linarith
  next
    case False
    then have "?A div ?n + i < ?E div ?n" using assms(2) G(3,5) by simp
    then obtain d where "?E div ?n = ?A div ?n + i + Suc d" using less_imp_Suc_add by fastforce
    then have "?E div ?n * ?n = (?A div ?n + i) * ?n + ?n + d * ?n" by (simp add: algebra_simps)
    then show ?thesis using E(1) False assms(3) by linarith
  qed
  have "k \<in> req_blocks s req i \<longleftrightarrow> (i = 0 \<longrightarrow> ?A mod ?n \<le> k) \<and> (i = rq_count req - 1 \<longrightarrow> k \<le> ?E mod ?n)"
    using assms(3) by (auto simp: req_blocks_def ocf_map_line_start_block_def ocf_map_line_end_block_def
        BYTES_TO_BLOCKS_ROUND_DOWN_def G(2))
  then show ?thesis using lo hi by (simp add: Let_def G(6))
qed

lemma req_blocks_range:
  assumes "req_shape s req" "i < rq_count req"
  shows "ocf_map_line_start_block s req i \<le> ocf_map_line_end_block s req i"
    "ocf_map_line_end_block s req i < ocf_line_blocks s"
proof -
  let ?n = "ocf_line_blocks s" and ?A = "rq_addr req div block_bytes s"
  let ?E = "(rq_addr req + rq_bytes req - 1) div block_bytes s"
  note G = req_geometry [OF assms(1)]
  show "ocf_map_line_end_block s req i < ?n"
    using G(1,2) by (simp add: ocf_map_line_end_block_def BYTES_TO_BLOCKS_ROUND_DOWN_def)
  have "?A mod ?n \<le> ?E mod ?n" if "rq_count req = 1"
  proof -
    have "?A div ?n = ?E div ?n" using that G(3,5) by simp
    then show ?thesis using G(4) by (metis add_le_cancel_left div_mult_mod_eq)
  qed
  moreover have "?A mod ?n \<le> ?n - 1" using mod_less_divisor [OF G(1), of ?A] by simp
  ultimately show "ocf_map_line_start_block s req i \<le> ocf_map_line_end_block s req i"
    using assms(2) G(2) by (auto simp: ocf_map_line_start_block_def ocf_map_line_end_block_def BYTES_TO_BLOCKS_ROUND_DOWN_def)
qed

subsection \<open>Operations on the lines of a request\<close>

text \<open>
  Marking, line by line, the blocks of a request: \<open>U B i\<close> are the marked blocks of the line of map entry \<open>i\<close>
  after the operation when they were \<open>B\<close> before.
\<close>

definition after_lines :: "(nat set \<Rightarrow> nat \<Rightarrow> nat set) \<Rightarrow> cl_req \<Rightarrow> nat \<Rightarrow> nat list \<Rightarrow> nat set \<Rightarrow> nat set" where
  "after_lines U req y is B = fold (\<lambda>i B. if coll_idx (rq_map req i) = y then U B i else B) is B"

definition flushed :: "cl_req \<Rightarrow> nat list \<Rightarrow> nat \<Rightarrow> bool" where
  "flushed req is y \<longleftrightarrow> flush_metadata req \<and> (\<exists>j\<in>set is. coll_idx (rq_map req j) = y \<and> m_flush (rq_map req j))"

definition lines_marked ::
  "what \<Rightarrow> (nat set \<Rightarrow> nat \<Rightarrow> nat set) \<Rightarrow> bool \<Rightarrow> nat list \<Rightarrow> cl_req \<Rightarrow> 'z cl_state_scheme \<Rightarrow> (slot \<Rightarrow> nat list) \<Rightarrow>
   cl_req \<Rightarrow> 'z cl_state_scheme \<Rightarrow> (slot \<Rightarrow> nat list) \<Rightarrow> bool" where
  "lines_marked w U fl is req s rep req' s' rep' \<longleftrightarrow> cl_inv s' rep' \<and> flush_only req req' \<and> same_dir s s' \<and>
     (\<forall>y. marked w s' y = after_lines U req y is (marked w s y)) \<and>
     (\<forall>w' y. w' \<noteq> w \<longrightarrow> marked w' s' y = marked w' s y) \<and>
     (\<forall>y. homed s rep y \<longrightarrow> homed s' rep' y) \<and>
     (\<forall>y. partition_id (lru_meta s' y) = partition_id (lru_meta s y)) \<and> line_size s' = line_size s \<and> block_4k s' = block_4k s \<and>
     (\<forall>y. fl \<longrightarrow> marked w s' y \<noteq> marked w s y \<longrightarrow> flushed req' is y)"

lemma lines_markedI:
  fixes f :: "nat \<Rightarrow> cl_req \<Rightarrow> 'z cl_state_scheme \<Rightarrow> (cl_req \<times> 'z cl_state_scheme) option"
  assumes step: "\<And>i req (s :: 'z cl_state_scheme) rep. cl_inv s rep \<Longrightarrow> line_of s rep req i \<Longrightarrow> G i req s \<Longrightarrow>
      \<exists>req' s' rep' B. f i req s = Some (req', s') \<and> B = U (marked w s (coll_idx (rq_map req i))) i \<and>
        line_changed w (coll_idx (rq_map req i)) B s rep s' rep' \<and>
        (req' = ocf_metadata_flush_mark i req \<or> req' = req \<and> (fl \<longrightarrow> B = marked w s (coll_idx (rq_map req i))))"
    and G: "\<And>i j x B req req' (s :: 'z cl_state_scheme) s' rep rep'. G i req s \<Longrightarrow> flush_only req req' \<Longrightarrow>
      line_changed w x B s rep s' rep' \<Longrightarrow> G i req' s'"
  shows "cl_inv s rep \<Longrightarrow> \<forall>i\<in>set is. line_of s rep req i \<and> G i req s \<Longrightarrow>
    \<exists>req' s' rep'. each_map f is req s = Some (req', s') \<and> lines_marked w U fl is req s rep req' s' rep'"
proof (induction "is" arbitrary: req s rep)
  case Nil
  then show ?case by (auto simp: lines_marked_def after_lines_def flush_only_refl same_dir_def intro!: exI [of _ rep])
next
  case (Cons i "is")
  let ?x = "coll_idx (rq_map req i)"
  let ?B = "U (marked w s ?x) i"
  obtain req1 s1 rep1 where one: "f i req s = Some (req1, s1)" "line_changed w ?x ?B s rep s1 rep1"
      "req1 = ocf_metadata_flush_mark i req \<or> req1 = req \<and> (fl \<longrightarrow> ?B = marked w s ?x)"
    using step [of s rep req i] Cons.prems by auto
  have fo1: "flush_only req req1" using one(3) flush_only_mark flush_only_refl by blast
  have C: "cl_inv s1 rep1" "\<And>y. homed s rep y \<Longrightarrow> homed s1 rep1 y" "marked w s1 ?x = ?B"
      "\<And>w' y. w' \<noteq> w \<or> y \<noteq> ?x \<Longrightarrow> marked w' s1 y = marked w' s y"
      "\<And>y. partition_id (lru_meta s1 y) = partition_id (lru_meta s y)" "line_size s1 = line_size s" "block_4k s1 = block_4k s"
    using one(2) by (auto simp: line_changed_def line_marked_def)
  have "\<forall>j\<in>set is. line_of s1 rep1 req1 j \<and> G j req1 s1"
    using Cons.prems(2) line_of_changed [OF one(2) fo1] G [OF _ fo1 one(2)] by auto
  then obtain req' s' rep' where rest: "each_map f is req1 s1 = Some (req', s')" "lines_marked w U fl is req1 s1 rep1 req' s' rep'"
    using Cons.IH [OF C(1)] by blast
  have sd: "same_dir s s1" using one(2) by (simp add: line_changed_def line_marked_def)
  have R: "cl_inv s' rep'" "flush_only req1 req'" "\<And>y. marked w s' y = after_lines U req1 y is (marked w s1 y)"
      "\<And>w' y. w' \<noteq> w \<Longrightarrow> marked w' s' y = marked w' s1 y" "\<And>y. homed s1 rep1 y \<Longrightarrow> homed s' rep' y"
      "\<And>y. fl \<Longrightarrow> marked w s' y \<noteq> marked w s1 y \<Longrightarrow> flushed req' is y" "same_dir s1 s'"
      "\<And>y. partition_id (lru_meta s' y) = partition_id (lru_meta s1 y)" "line_size s' = line_size s1" "block_4k s' = block_4k s1"
    using rest(2) unfolding lines_marked_def by blast+
  have fo: "flush_only req req'" using flush_only_trans [OF fo1 R(2)] .
  have same: "after_lines U req1 y is B = after_lines U req y is B" for y B
    using flush_onlyD(6) [OF fo1] by (simp add: after_lines_def)
  have m: "marked w s' y = after_lines U req y (i # is) (marked w s y)" for y
    using R(3) [of y] C(3) C(4) [of w y] unfolding same by (cases "y = ?x") (auto simp: after_lines_def)
  have fl: "flushed req' (i # is) y" if "fl" "marked w s' y \<noteq> marked w s y" for y
  proof (cases "marked w s' y = marked w s1 y")
    case False
    then show ?thesis using R(6) [OF that(1)] by (auto simp: flushed_def)
  next
    case True
    then have y: "y = ?x" "?B \<noteq> marked w s ?x" using that(2) C(3) C(4) [of w y] by auto
    then have "req1 = ocf_metadata_flush_mark i req" using one(3) that(1) by blast
    then have "m_flush (rq_map req1 i)" "flush_metadata req1" by (simp_all add: ocf_metadata_flush_mark_def)
    then show ?thesis using flush_onlyD(8,9) [OF R(2)] flush_onlyD(6) [OF fo] y by (auto simp: flushed_def)
  qed
  have "lines_marked w U fl (i # is) req s rep req' s' rep'"
    unfolding lines_marked_def using R(1,4,5,8-10) C(2,4-7) fo m fl same_dir_trans [OF sd R(7)] by simp
  then show ?case using one(1) rest(1) by auto
qed


text \<open>The blocks of line \<open>y\<close> that a request covers.\<close>

definition covered :: "'z md_state_scheme \<Rightarrow> cl_req \<Rightarrow> nat \<Rightarrow> nat set" where
  "covered s req y = (\<Union>i \<in> {i. i < rq_count req \<and> coll_idx (rq_map req i) = y}. req_blocks s req i)"

lemma after_lines_union:
  "after_lines (\<lambda>B i. B \<union> R i) req y is B = B \<union> (\<Union>i \<in> {i \<in> set is. coll_idx (rq_map req i) = y}. R i)"
  by (induction "is" arbitrary: B) (auto simp: after_lines_def)

lemma after_lines_diff:
  "after_lines (\<lambda>B i. B - R i) req y is B = B - (\<Union>i \<in> {i \<in> set is. coll_idx (rq_map req i) = y}. R i)"
  by (induction "is" arbitrary: B) (auto simp: after_lines_def)

definition in_req :: "'z cl_state_scheme \<Rightarrow> cl_req \<Rightarrow> nat \<Rightarrow> cl_req \<Rightarrow> 'z cl_state_scheme \<Rightarrow> bool" where
  "in_req s0 req0 i req s \<longleftrightarrow> req_shape s req \<and> i < rq_count req \<and> req_blocks s req i = req_blocks s0 req0 i"

lemma in_req_changed:
  assumes "in_req s0 req0 i req s" "flush_only req req'" "line_changed w x B s rep s' rep'"
  shows "in_req s0 req0 i req' s'"
proof -
  have "line_size s' = line_size s" "block_4k s' = block_4k s" using assms(3) by (auto simp: line_changed_def line_marked_def)
  moreover from this have "ocf_line_blocks s' = ocf_line_blocks s" "ocf_line_end_block s' = ocf_line_end_block s"
    by (simp_all add: ocf_line_blocks_def ocf_line_end_block_def)
  ultimately have "req_shape s' req' = req_shape s req" "req_blocks s' req' i = req_blocks s req i"
    using flush_onlyD [OF assms(2)]
    by (simp_all add: req_shape_def req_blocks_def ocf_map_line_start_block_def ocf_map_line_end_block_def
        BYTES_TO_BLOCKS_ROUND_DOWN_def)
  then show ?thesis using assms(1) flush_onlyD(5) [OF assms(2)] by (simp add: in_req_def)
qed

lemma in_req_applies:
  assumes "in_req s0 req0 i req s" "cl_inv s rep" "line_of s rep req i"
  shows "applies s rep req i (ocf_map_line_start_block s req i) (ocf_map_line_end_block s req i)"
  using assms req_blocks_range [of s req i] by (simp add: in_req_def applies_def)

definition request_ok :: "'z cl_state_scheme \<Rightarrow> (slot \<Rightarrow> nat list) \<Rightarrow> cl_req \<Rightarrow> bool" where
  "request_ok s rep req \<longleftrightarrow> cl_inv s rep \<and> req_shape s req \<and> (\<forall>i < rq_count req. line_of s rep req i)"

lemma request_okD:
  assumes "request_ok s rep req"
  shows "cl_inv s rep" "\<forall>i\<in>set [0..<rq_count req]. line_of s rep req i \<and> in_req s req i req s"
  using assms by (auto simp: request_ok_def in_req_def)

lemma set_dirty_map_spec:
  assumes ok: "request_ok s rep req"
  shows "\<exists>req' s' rep'. ocf_set_dirty_map_info now req s = Some (req', s') \<and>
    lines_marked Dirty (\<lambda>B i. B \<union> req_blocks s req i) True [0..<rq_count req] req s rep req' s' rep'"
  unfolding ocf_set_dirty_map_info_def
proof (rule lines_markedI [where G = "in_req s req", OF _ _ request_okD [OF ok]])
  fix t r q i assume t: "cl_inv t r" "line_of t r q i" "in_req s req i q t"
  from t(3) have "req_blocks s req i = {ocf_map_line_start_block t q i..ocf_map_line_end_block t q i}"
    unfolding in_req_def req_blocks_def by metis
  then show "\<exists>req' s' rep' B. set_cache_line_dirty now t (ocf_map_line_start_block t q i) (ocf_map_line_end_block t q i) q i
        = Some (req', s') \<and> B = marked Dirty t (coll_idx (rq_map q i)) \<union> req_blocks s req i \<and>
      line_changed Dirty (coll_idx (rq_map q i)) B t r s' rep' \<and>
      (req' = ocf_metadata_flush_mark i q \<or> req' = q \<and> (True \<longrightarrow> B = marked Dirty t (coll_idx (rq_map q i))))"
    using set_dirty_spec [OF in_req_applies [OF t(3,1,2)] refl, of now] by (auto split: if_splits)
qed (rule in_req_changed)

lemma set_clean_map_spec:
  assumes ok: "request_ok s rep req"
  shows "\<exists>req' s' rep'. ocf_set_clean_map_info req s = Some (req', s') \<and>
    lines_marked Dirty (\<lambda>B i. B - req_blocks s req i) True [0..<rq_count req] req s rep req' s' rep'"
  unfolding ocf_set_clean_map_info_def
proof (rule lines_markedI [where G = "in_req s req", OF _ _ request_okD [OF ok]])
  fix t r q i assume t: "cl_inv t r" "line_of t r q i" "in_req s req i q t"
  from t(3) have "req_blocks s req i = {ocf_map_line_start_block t q i..ocf_map_line_end_block t q i}"
    unfolding in_req_def req_blocks_def by metis
  then show "\<exists>req' s' rep' B. set_cache_line_clean t (ocf_map_line_start_block t q i) (ocf_map_line_end_block t q i) q i
        = Some (req', s') \<and> B = marked Dirty t (coll_idx (rq_map q i)) - req_blocks s req i \<and>
      line_changed Dirty (coll_idx (rq_map q i)) B t r s' rep' \<and>
      (req' = ocf_metadata_flush_mark i q \<or> req' = q \<and> (True \<longrightarrow> B = marked Dirty t (coll_idx (rq_map q i))))"
    using set_clean_spec [OF in_req_applies [OF t(3,1,2)] refl] by (auto split: if_splits)
qed (rule in_req_changed)

lemma set_valid_map_spec:
  assumes ok: "request_ok s rep req" and hit: "\<forall>i < rq_count req. m_status (rq_map req i) \<noteq> LOOKUP_MISS"
  shows "\<exists>req' s' rep'. ocf_set_valid_map_info req s = Some (req', s') \<and>
    lines_marked Valid (\<lambda>B i. B \<union> req_blocks s req i) False [0..<rq_count req] req s rep req' s' rep'"
  unfolding ocf_set_valid_map_info_def
proof (rule lines_markedI [where G = "\<lambda>i q t. in_req s req i q t \<and> m_status (rq_map q i) \<noteq> LOOKUP_MISS"])
  fix t r q i assume t: "cl_inv t r" "line_of t r q i" and "in_req s req i q t \<and> m_status (rq_map q i) \<noteq> LOOKUP_MISS"
  then have q: "in_req s req i q t" "m_status (rq_map q i) \<noteq> LOOKUP_MISS" by blast+
  from q(1) have "req_blocks s req i = {ocf_map_line_start_block t q i..ocf_map_line_end_block t q i}"
    unfolding in_req_def req_blocks_def by metis
  then show "\<exists>req' s' rep' B. do { bug_on (m_status (rq_map q i) = LOOKUP_MISS);
       set_cache_line_valid t (ocf_map_line_start_block t q i) (ocf_map_line_end_block t q i) q i }
        = Some (req', s') \<and> B = marked Valid t (coll_idx (rq_map q i)) \<union> req_blocks s req i \<and>
      line_changed Valid (coll_idx (rq_map q i)) B t r s' rep' \<and>
      (req' = ocf_metadata_flush_mark i q \<or> req' = q \<and> (False \<longrightarrow> B = marked Valid t (coll_idx (rq_map q i))))"
    using set_valid_spec [OF in_req_applies [OF q(1) t] refl] q(2) by (auto simp: bug_on_def)
qed (use request_okD [OF ok] hit in_req_changed flush_onlyD(7) in auto)

lemma each_map_same_req:
  assumes "\<And>i q t q' t'. f i q t = Some (q', t') \<Longrightarrow> q' = q"
  shows "each_map f is q t = Some (q', t') \<Longrightarrow> q' = q"
proof (induction "is" arbitrary: q t)
  case (Cons i "is")
  then obtain q1 t1 where "f i q t = Some (q1, t1)" "each_map f is q1 t1 = Some (q', t')" by (auto split: bind_splits)
  then show ?case using assms Cons.IH by metis
qed simp

lemma set_valid_same_req: "ocf_set_valid_map_info req s = Some (req', s') \<Longrightarrow> req' = req"
  unfolding ocf_set_valid_map_info_def
  by (rule each_map_same_req) (auto simp: set_cache_line_valid_def Let_def split: bind_splits if_splits)

subsection \<open>Invalidation\<close>

text \<open>A line without marks is given back: it goes to the free list and leaves the hash table.\<close>

definition given_back :: "nat \<Rightarrow> 'z cl_state_scheme \<Rightarrow> 'z cl_state_scheme \<Rightarrow> (slot \<Rightarrow> nat list) \<Rightarrow> bool" where
  "given_back x s s' rep' \<longleftrightarrow> cl_inv s' rep' \<and> coll_inv s' \<and> x \<in> set (rep' (PARTITION_FREELIST, OCF_LRU_GET_LIST_INDEX x, True)) \<and>
     cached s' = (cached s)(line_key s x := None) \<and> \<not> mapped s' x \<and>
     collision_table_entries s' = collision_table_entries s \<and> (\<forall>w y. marked w s' y = marked w s y)"

lemma removed_state_lru [simp]:
  fixes s :: "'z lru_state_scheme"
  shows "lru_meta (removed_state h l as bs s) = lru_meta s" "eviction_policy (removed_state h l as bs s) = eviction_policy s"
    "lru_list (removed_state h l as bs s) = lru_list s" "lru_ready (removed_state h l as bs s) = lru_ready s"
  by (simp_all add: removed_state_def Let_def lru_ready_def lru_list_def lru_rep_def fun_eq_iff)

lemma removed_state_cache [simp]:
  fixes s :: "'z cl_state_scheme"
  shows "cparts (removed_state h l as bs s) = cparts s" "core_rt (removed_state h l as bs s) = core_rt s"
    "ocf_lru_get_list (removed_state h l as bs s) = ocf_lru_get_list s" "marked w (removed_state h l as bs s) = marked w s"
    "md_ok (removed_state h l as bs s) = md_ok s" "home (removed_state h l as bs s) = home s"
    "cl_locks (removed_state h l as bs s) = cl_locks s"
    "core_id (collision (removed_state h l as bs s) y) = (if y = l then OCF_CORE_NUM else core_id (collision s y))"
  by (simp_all add: removed_state_def Let_def ocf_lru_get_list_def marked_def md_ok_def home_def list_kind_def fun_eq_iff) metis

lemma remove_eq:
  assumes i: "coll_inv s" and l: "mapped s l"
  shows "\<exists>h as bs. ocf_metadata_remove_from_collision s l = Some (removed_state h l as bs s)"
proof -
  obtain ch where g: "geometry_ok s" and c: "chains_ok s ch" using i by (auto simp: coll_inv_def)
  let ?h = "key_hash s (line_key s l)"
  have "l \<in> set (ch ?h)" using chains_okD(5) [OF c hash_func_less [OF g]] l by simp
  then obtain as bs where "ch ?h = as @ l # bs" by (meson split_list)
  then show ?thesis using remove_from_collision_eq [OF g c l refl] by blast
qed

lemma give_back_spec:
  assumes inv: "cl_inv s rep" and dir: "coll_inv s" "mapped s x" and h: "homed s rep x"
    and p: "partition_id (lru_meta s x) < OCF_USER_IO_CLASS_MAX" and un: "\<And>w. marked w s x = {}"
  shows "\<exists>s'. (ocf_lru_rm_cline s x \<bind> (\<lambda>s. ocf_metadata_remove_cache_line s x)) = Some s' \<and>
    given_back x s s' (moved x (home s x) (PARTITION_FREELIST, OCF_LRU_GET_LIST_INDEX x, True) rep)"
proof -
  have I: "cache_inv s rep" "counters_ok s" using inv by (simp_all add: cl_inv_def)
  have sl: "home s x \<in> slots" "x \<in> set (rep (home s x))" using h by (simp_all add: homed_def)
  have xN: "x < collision_table_entries s" using cache_invD(6) [OF I(1) sl] .
  let ?F = "(PARTITION_FREELIST, OCF_LRU_GET_LIST_INDEX x, True)"
  let ?rep = "moved x (home s x) ?F rep"
  have F: "rehome PARTITION_FREELIST x s = ?F" by (simp add: rehome_def list_kind_def)
  obtain s1 where s1: "ocf_lru_repart s x (fst (home s x)) PARTITION_FREELIST = Some s1" "cache_inv s1 ?rep"
      "reparted x PARTITION_FREELIST s s1"
    using repart_full [OF I(1) sl, of PARTITION_FREELIST] unfolding F
    by (auto simp: PARTITION_FREELIST_def PARTITION_FREE_DETACHED_def)
  obtain m P where m: "s1 = s\<lparr>lru_meta := m, cparts := P\<rparr>"
      "\<And>y. partition_id (m y) = (if y = x then PARTITION_FREELIST else partition_id (lru_meta s y))"
    using s1(3) by (auto simp: reparted_def)
  have sd: "same_dir s s1" by (simp add: m(1) same_dir_def)
  note D = same_dirD [OF sd]
  have "coll_inv s1" "mapped s1 x" using dir D by simp_all
  then obtain hh as bs where r: "ocf_metadata_remove_from_collision s1 x = Some (removed_state hh x as bs s1)"
    using remove_eq by blast
  let ?s = "removed_state hh x as bs s1"
  have op: "(ocf_lru_rm_cline s x \<bind> (\<lambda>s. ocf_metadata_remove_cache_line s x)) = Some ?s"
    using s1(1) p r xN cache_invD(2) [OF I(1)] m(1)
    by (simp add: ocf_lru_rm_cline_def ocf_metadata_remove_cache_line_def ocf_metadata_get_partition_id_def home_def)
  have mk: "marked w ?s y = marked w s y" for w y by (simp add: m(1) marked_def)
  have "cache_inv ?s ?rep" using s1(2) by (simp add: cache_inv_def lists_ok_def)
  moreover have "counters_ok ?s"
  proof -
    have "tally w ?s c Q = tally w s c Q" for w c Q
    proof (rule tally_same)
      show "counts w ?s c Q y = counts w s c Q y" for y
        using un [of w] m mk by (cases "y = x") (auto simp: counts_def)
    qed (simp add: m(1))
    then show ?thesis using I(2) by (simp add: counters_ok_def m(1))
  qed
  moreover have "x \<in> set (?rep ?F)" by (simp add: moved_def Let_def)
  moreover have "coll_inv ?s" "cached ?s = (cached s)(line_key s x := None)" "\<not> mapped ?s x"
      "collision_table_entries ?s = collision_table_entries s"
    using remove_refines [of s1 x] \<open>coll_inv s1\<close> \<open>mapped s1 x\<close> r D by auto
  ultimately show ?thesis using op mk unfolding given_back_def cl_inv_def by blast
qed

text \<open>The state in which blocks of a line may be purged: dirty blocks are valid and the line is in the hash table.\<close>

definition purgeable :: "'z cl_state_scheme \<Rightarrow> nat \<Rightarrow> bool" where
  "purgeable s x \<longleftrightarrow> coll_inv s \<and> mapped s x \<and> x < num_entries (cl_locks s) \<and> marked Dirty s x \<subseteq> marked Valid s x"

lemma invalid_spec:
  assumes ap: "applies s rep req i a b" and x: "x = coll_idx (rq_map req i)"
    and pu: "coll_inv s" "mapped s x" "x < num_entries (cl_locks s)"
    and cl: "marked Valid s x \<subseteq> {a..b} \<Longrightarrow> marked Dirty s x = {}"
  shows "\<exists>s' rep'. set_cache_line_invalid s a b req i = Some (req, s') \<and>
    (if marked Valid s x \<subseteq> {a..b} \<and> ocf_alock_waitlist_is_empty_locked (cl_locks s) x
     then \<exists>s1. line_changed Valid x {} s rep s1 rep \<and> given_back x s1 s' rep'
     else line_changed Valid x (marked Valid s x - {a..b}) s rep s' rep')"
proof -
  note A = appliesD [OF ap x]
  let ?B = "marked Valid s x - {a..b}" and ?p = "partition_id (lru_meta s x)" and ?c = "rq_core req"
  obtain s1 where s1: "ocf_metadata_clear Valid s x a b = Some (marked Valid s1 x \<noteq> {}, s1)" "remarked Valid x ?B s s1"
    using ocf_metadata_clear_eq [OF A(2-5)] by blast
  note R = remarkedD [OF s1(2)] and C = remarked_core [OF s1(2)]
  have t: "ocf_metadata_test Valid s x 0 (ocf_line_end_block s) False = Some (marked Valid s x \<noteq> {})"
    using ocf_metadata_test_eq [OF A(2,3) whole_line(1,2) [OF A(2,3)], of Valid False] whole_line(3) [OF A(2,3), of Valid]
    by simp
  let ?f = "\<lambda>r. if marked Valid s x \<noteq> {} \<and> ?B = {} then r\<lparr>cached_clines := cached_clines r + - 1,
       part_cached := (part_cached r)(?p := part_cached r ?p + - 1)\<rparr> else r"
  let ?s = "upd_core (core_id (collision s x)) ?f s1"
  have ch: "line_changed Valid x ?B s rep ?s rep"
    by (rule stay_spec [OF A(1,3) s1(2)]) (auto simp: bumped_def)
  have lt: "?c < OCF_CORE_NUM" using pu(2) A(8) by (simp add: mapped_def)
  have W: "ocf_cache_line_are_waiters (cl_locks s) x = Some (\<not> ocf_alock_waitlist_is_empty_locked (cl_locks s) x)"
    using pu(3) by (simp add: ocf_cache_line_are_waiters_def ocf_alock_waitlist_is_empty_def)
  note op = set_cache_line_invalid_def set_cache_line_invalid_sub_def metadata_clear_valid_sec_changed_def add_cached_def
    x [symmetric] Let_def
  show ?thesis
  proof (cases "?B = {}")
    case False
    then have "set_cache_line_invalid s a b req i = Some (req, ?s)"
      using s1(1) t A(9) lt R(2) by (simp add: op upd_core_id)
    then show ?thesis using ch False by auto
  next
    case True
    have op: "set_cache_line_invalid s a b req i = (if ocf_alock_waitlist_is_empty_locked (cl_locks s) x
        then map_option (Pair req) (ocf_lru_rm_cline ?s x \<bind> (\<lambda>s. ocf_metadata_remove_cache_line s x)) else Some (req, ?s))"
      using s1(1) t A(8,9,10) lt R(2) C(2) W True
      by (cases "marked Valid s x = {}"; cases "ocf_lru_rm_cline ?s x")
        (auto simp add: op upd_core_id map_option_case split: option.splits)
    have B: "marked Valid s x \<subseteq> {a..b}" "line_changed Valid x {} s rep ?s rep" using ch True by auto
    have L: "cl_inv ?s rep" "line_marked Valid x ?B s ?s" "homed ?s rep x" using ch A(6) by (auto simp: line_changed_def)
    have D: "same_dir s ?s" "partition_id (lru_meta ?s x) = ?p" using L(2) unfolding line_marked_def by blast+
    have d: "coll_inv ?s" "mapped ?s x" using pu same_dirD [OF D(1)] by simp_all
    have p: "partition_id (lru_meta ?s x) < OCF_USER_IO_CLASS_MAX" using D(2) A(7) by simp
    have "marked w ?s x = {}" for w using L(2) True cl by (cases w) (auto simp: line_marked_def)
    from give_back_spec [OF L(1) d L(3) p this] obtain s' rep' where gb:
      "(ocf_lru_rm_cline ?s x \<bind> (\<lambda>s. ocf_metadata_remove_cache_line s x)) = Some s'" "given_back x ?s s' rep'" by blast
    show ?thesis
    proof (cases "ocf_alock_waitlist_is_empty_locked (cl_locks s) x")
      case True
      then have "set_cache_line_invalid s a b req i = Some (req, s')" using op gb(1) by simp
      then show ?thesis using gb(2) B True by (metis (no_types, lifting))
    next
      case False
      then have "set_cache_line_invalid s a b req i = Some (req, ?s)" using op by simp
      then show ?thesis using ch False by (metis (no_types, lifting))
    qed
  qed
qed

lemma purge_spec:
  assumes ap: "applies s rep req i a b" and x: "x = coll_idx (rq_map req i)" and pu: "purgeable s x"
  shows "\<exists>req' s' rep'. ocf_purge_cache_line_sec s a b req i = Some (req', s') \<and> flush_only req req' \<and>
    cl_inv s' rep' \<and> coll_inv s' \<and>
    marked Dirty s' x = marked Dirty s x - {a..b} \<and> marked Valid s' x = marked Valid s x - {a..b} \<and>
    (\<forall>w y. y \<noteq> x \<longrightarrow> marked w s' y = marked w s y) \<and>
    (if marked Valid s x \<subseteq> {a..b} \<and> ocf_alock_waitlist_is_empty_locked (cl_locks s) x
     then x \<in> set (rep' (PARTITION_FREELIST, OCF_LRU_GET_LIST_INDEX x, True)) \<and> cached s' = (cached s)(line_key s x := None)
     else line_of s' rep' req' i \<and> cached s' = cached s)"
proof -
  note P = pu [unfolded purgeable_def]
  let ?free = "ocf_alock_waitlist_is_empty_locked (cl_locks s) x"
  obtain req1 s1 rep1 where one: "set_cache_line_clean s a b req i = Some (req1, s1)" "flush_only req req1"
      "line_changed Dirty x (marked Dirty s x - {a..b}) s rep s1 rep1"
    using set_clean_spec [OF ap x] flush_only_refl [of req] flush_only_mark [of req i] by (auto split: if_splits)
  have M: "marked Dirty s1 x = marked Dirty s x - {a..b}" "\<And>w y. w \<noteq> Dirty \<or> y \<noteq> x \<Longrightarrow> marked w s1 y = marked w s y"
      "same_dir s s1" "cl_locks s1 = cl_locks s" "ocf_line_blocks s1 = ocf_line_blocks s" "cl_inv s1 rep1"
    using one(3) by (auto simp: line_changed_def line_marked_def ocf_line_blocks_def)
  have V: "marked Valid s1 x = marked Valid s x" using M(2) by simp
  note D = same_dirD [OF M(3)]
  have lo: "line_of s1 rep1 req1 i" using line_of_changed [OF one(3,2)] ap by (simp add: applies_def)
  have ap1: "applies s1 rep1 req1 i a b" using ap lo M(5,6) by (simp add: applies_def)
  have x1: "x = coll_idx (rq_map req1 i)" using x flush_onlyD(6) [OF one(2)] by simp
  have cl: "marked Valid s1 x \<subseteq> {a..b} \<Longrightarrow> marked Dirty s1 x = {}" using P V M(1) by auto
  have pu1: "coll_inv s1" "mapped s1 x" "x < num_entries (cl_locks s1)" using P D M(4) by simp_all
  obtain s' rep' where two: "set_cache_line_invalid s1 a b req1 i = Some (req1, s')"
      "if marked Valid s1 x \<subseteq> {a..b} \<and> ocf_alock_waitlist_is_empty_locked (cl_locks s1) x
       then \<exists>s2. line_changed Valid x {} s1 rep1 s2 rep1 \<and> given_back x s2 s' rep'
       else line_changed Valid x (marked Valid s1 x - {a..b}) s1 rep1 s' rep'"
    using invalid_spec [OF ap1 x1 pu1 cl] by blast
  have op: "ocf_purge_cache_line_sec s a b req i = Some (req1, s')" using one(1) two(1) by (simp add: ocf_purge_cache_line_sec_def)
  show ?thesis
  proof (cases "marked Valid s x \<subseteq> {a..b} \<and> ?free")
    case True
    then obtain s2 where s2: "line_changed Valid x {} s1 rep1 s2 rep1" "given_back x s2 s' rep'"
      using two(2) V M(4) by auto
    have M2: "marked Valid s2 x = {}" "\<And>w y. w \<noteq> Valid \<or> y \<noteq> x \<Longrightarrow> marked w s2 y = marked w s1 y" "same_dir s1 s2"
      using s2(1) by (auto simp: line_changed_def line_marked_def)
    note D2 = same_dirD [OF M2(3)]
    have G: "cl_inv s' rep'" "coll_inv s'" "x \<in> set (rep' (PARTITION_FREELIST, OCF_LRU_GET_LIST_INDEX x, True))"
        "cached s' = (cached s)(line_key s x := None)" "\<And>w y. marked w s' y = marked w s2 y"
      using s2(2) D2 D unfolding given_back_def by auto
    have "marked Dirty s' x = marked Dirty s x - {a..b}" "marked Valid s' x = marked Valid s x - {a..b}"
        "\<forall>w y. y \<noteq> x \<longrightarrow> marked w s' y = marked w s y"
      using G(5) M2 M(1,2) True by auto
    then show ?thesis using op one(2) G True by (intro exI [of _ req1] exI [of _ s'] exI [of _ rep']) simp
  next
    case False
    then have L: "line_changed Valid x (marked Valid s x - {a..b}) s1 rep1 s' rep'" using two(2) V M(4) by metis
    have M2: "marked Valid s' x = marked Valid s x - {a..b}" "\<And>w y. w \<noteq> Valid \<or> y \<noteq> x \<Longrightarrow> marked w s' y = marked w s1 y"
        "same_dir s1 s'" "cl_inv s' rep'"
      using L by (auto simp: line_changed_def line_marked_def)
    note D2 = same_dirD [OF M2(3)]
    have "marked Dirty s' x = marked Dirty s x - {a..b}" "\<forall>w y. y \<noteq> x \<longrightarrow> marked w s' y = marked w s y"
      using M2 M(1,2) by auto
    moreover have "line_of s' rep' req1 i" by (rule line_of_changed [OF L flush_only_refl lo])
    moreover have "coll_inv s'" "cached s' = cached s" using D2 D P by simp_all
    ultimately show ?thesis using op one(2) M2(1,4) False
      by (intro exI [of _ req1] exI [of _ s'] exI [of _ rep']) auto
  qed
qed

subsection \<open>Moving lines between partitions\<close>

lemma counters_move:
  fixes s s' :: "'z cl_state_scheme"
  assumes ok: "counters_ok s" and x: "x < collision_table_entries s" and N: "collision_table_entries s' = collision_table_entries s"
    and coll: "\<And>y. core_id (collision s' y) = core_id (collision s y)" "\<And>w y. marked w s' y = marked w s y"
    and part: "\<And>y. partition_id (lru_meta s' y) = (if y = x then q else partition_id (lru_meta s y))"
    and pq: "partition_id (lru_meta s x) = p" "p \<noteq> q"
    and rt: "core_rt s' = (core_rt s)(c := r)" "core_id (collision s x) = c"
      "cached_clines r = cached_clines (core_rt s c)" "dirty_clines r = dirty_clines (core_rt s c)"
      "\<And>t. part_cached r t = part_cached (core_rt s c) t +
        (if marked Valid s x = {} then 0 else if t = q then 1 else if t = p then -1 else 0)"
      "\<And>t. part_dirty r t = part_dirty (core_rt s c) t +
        (if marked Dirty s x = {} then 0 else if t = q then 1 else if t = p then -1 else 0)"
  shows "counters_ok s'"
proof -
  have T: "int (tally w s' c' P) = int (tally w s c' P) +
      (if marked w s x = {} \<or> c' \<noteq> c then 0 else (if P q then 1 else 0) - (if P p then 1 else 0))" for w c' P
  proof -
    have "counts w s' c' P y = counts w s c' P y" if "y \<noteq> x" for y using that by (simp add: counts_def coll part)
    from tally_change [OF N x this] show ?thesis using pq(1) rt(2) by (auto simp: counts_def coll part)
  qed
  show ?thesis
    unfolding counters_ok_def
  proof (intro allI conjI)
    fix c' t
    note O = ok [unfolded counters_ok_def, rule_format, of c']
    show "cached_clines (core_rt s' c') = int (tally Valid s' c' (\<lambda>_. True))"
      "dirty_clines (core_rt s' c') = int (tally Dirty s' c' (\<lambda>_. True))"
      using O T [of _ c' "\<lambda>_. True"] rt(1,3,4) by (cases "c' = c"; simp)+
    show "part_cached (core_rt s' c') t = int (tally Valid s' c' ((=) t))"
      "part_dirty (core_rt s' c') t = int (tally Dirty s' c' ((=) t))"
      using O T [of _ c' "(=) t"] rt(1,5,6) pq(2) by (cases "c' = c"; auto)+
  qed
qed

lemma move_line_spec:
  assumes I: "cache_inv s rep" and lo: "line_of s rep req i" and x: "x = coll_idx (rq_map req i)"
    and mv: "re_part (rq_map req i)" "m_status (rq_map req i) \<noteq> LOOKUP_MISS" "rq_part req < OCF_USER_IO_CLASS_MAX"
  shows "\<exists>s' rep'. user_part_move_line i req s = Some (req, s') \<and> cache_inv s' rep' \<and> same_dir s s' \<and>
    (counters_ok s \<and> (partition_id (lru_meta s x) = rq_part req \<or> marked Valid s x \<noteq> {}) \<longrightarrow> counters_ok s') \<and>
    (\<forall>y. partition_id (lru_meta s' y) = (if y = x then rq_part req else partition_id (lru_meta s y))) \<and>
    (\<forall>w y. marked w s' y = marked w s y) \<and> (\<forall>y. homed s rep y \<longrightarrow> homed s' rep' y)"
proof (cases "partition_id (lru_meta s x) = rq_part req")
  case True
  note L = line_of_invD [OF I lo x]
  have "user_part_move_line i req s = Some (req, s)" using L(2,3) True mv by (simp add: user_part_move_line_def x [symmetric] Let_def)
  then show ?thesis using I True by (intro exI [of _ s] exI [of _ rep]) (auto simp: same_dir_def)
next
  case False
  note L = line_of_invD [OF I lo x]
  let ?p = "partition_id (lru_meta s x)" and ?q = "rq_part req" and ?c = "rq_core req"
  have q: "?q \<le> PARTITION_FREE_DETACHED" "?q \<noteq> PARTITION_FREELIST"
    using mv(3) by (simp_all add: PARTITION_FREE_DETACHED_def PARTITION_FREELIST_def)
  define d where "d = (marked Dirty s x \<noteq> {})"
  define s0 where "s0 = (if d then cleaning_call (Purge_block x) s else s)"
  have s0: "cache_inv s0 rep" "marked w s0 = marked w s" "lru_meta s0 = lru_meta s" "collision_table_entries s0 = collision_table_entries s"
    "core_rt s0 = core_rt s" "md_ok s0" "home s0 = home s" "same_dir s s0" for w
    using I cache_invD(3) [OF I] by (simp_all add: s0_def)
  obtain s1 where s1: "ocf_lru_repart s0 x (fst (home s x)) ?q = Some s1"
      "cache_inv s1 (moved x (home s x) (rehome ?q x s0) rep)" "reparted x ?q s0 s1"
    using repart_full [OF s0(1) L(5,6) q(1)] by blast
  obtain m P where m: "s1 = s0\<lparr>lru_meta := m, cparts := P\<rparr>"
      "\<And>y. partition_id (m y) = (if y = x then ?q else partition_id (lru_meta s y))"
    using s1(3) s0(3) by (auto simp: reparted_def)
  have mk: "marked w s1 = marked w s0" for w by (simp add: m(1) marked_def fun_eq_iff)
  have s1': "marked w s1 y = marked w s y" "collision_table_entries s1 = collision_table_entries s" "md_ok s1"
      "core_rt s1 = core_rt s" "same_dir s s1" for w y
    using s0 mk by (simp_all add: m(1) md_ok_def same_dir_def)
  have t: "metadata_test_dirty s x = Some d" "metadata_test_dirty s1 x = Some d"
    using dirty_eq [OF cache_invD(3) [OF I] L(1)] dirty_eq [OF s1'(3), of x] L(1) s1'(1,2) by (simp_all add: d_def)
  let ?s2 = "if d then upd_core ?c (\<lambda>r. r\<lparr>part_dirty := (part_dirty r)(?q := part_dirty r ?q + 1, ?p := part_dirty r ?p - 1)\<rparr>)
      (cleaning_call (Set_hot x) s1) else s1"
  let ?s3 = "upd_core ?c (\<lambda>r. r\<lparr>part_cached := (part_cached r)(?q := part_cached r ?q + 1, ?p := part_cached r ?p - 1)\<rparr>) ?s2"
  have op: "user_part_move_line i req s = Some (req, ?s3)"
    using L(2,3,4) False mv t s1(1) by (simp add: user_part_move_line_def x [symmetric] Let_def s0_def)
  have same: "marked w ?s3 y = marked w s y" "same_dir s ?s3"
      "partition_id (lru_meta ?s3 y) = (if y = x then ?q else partition_id (lru_meta s y))" for w y
    using s1'(1,5) m by simp_all
  have ci: "cache_inv ?s3 (moved x (home s x) (rehome ?q x s0) rep)" using s1(2) by simp
  have "counters_ok ?s3" if ok: "counters_ok s" and v: "marked Valid s x \<noteq> {}"
  proof (rule counters_move [where r = "core_rt ?s3 ?c" and c = ?c, OF ok L(1) same_dirD(5,6) [OF same(2)] same(1,3) refl False _ L(7)])
    show "core_rt ?s3 = (core_rt s)(?c := core_rt ?s3 ?c)" using s1'(4) by simp
    show "cached_clines (core_rt ?s3 ?c) = cached_clines (core_rt s ?c)" "dirty_clines (core_rt ?s3 ?c) = dirty_clines (core_rt s ?c)"
      using s1'(4) by simp_all
    show "part_cached (core_rt ?s3 ?c) t = part_cached (core_rt s ?c) t +
        (if marked Valid s x = {} then 0 else if t = ?q then 1 else if t = ?p then -1 else 0)" for t
      using s1'(4) v False by auto
    show "part_dirty (core_rt ?s3 ?c) t = part_dirty (core_rt s ?c) t +
        (if marked Dirty s x = {} then 0 else if t = ?q then 1 else if t = ?p then -1 else 0)" for t
      using s1'(4) False by (auto simp: d_def)
  qed
  moreover have "homed ?s3 (moved x (home s x) (rehome ?q x s0) rep) y" if "homed s rep y" for y
  proof -
    have hy: "home ?s3 y = (if y = x then rehome ?q x s0 else home s y)"
      using same s0(2) by (simp add: home_def rehome_def)
    show ?thesis
    proof (cases "y = x")
      case True
      then show ?thesis using hy rehome_slots [OF q(1)] by (simp add: homed_def moved_def Let_def)
    next
      case False
      then show ?thesis using hy that set_moved [OF cache_invD(1) [OF I] L(5,6), of "home s y"]
        by (auto simp: homed_def split: if_splits)
    qed
  qed
  ultimately show ?thesis using op ci same False by blast
qed

lemma move_lines_spec:
  fixes s :: "'z cl_state_scheme"
  assumes "rq_part req < OCF_USER_IO_CLASS_MAX"
  shows "cache_inv s rep \<Longrightarrow> \<forall>i\<in>set is. re_part (rq_map req i) \<longrightarrow> line_of s rep req i \<and> m_status (rq_map req i) \<noteq> LOOKUP_MISS \<Longrightarrow>
    \<exists>s' rep'. each_map user_part_move_line is req s = Some (req, s') \<and> cache_inv s' rep' \<and> same_dir s s' \<and>
      (counters_ok s \<and> (\<forall>i\<in>set is. re_part (rq_map req i) \<longrightarrow> partition_id (lru_meta s (coll_idx (rq_map req i))) = rq_part req \<or>
         marked Valid s (coll_idx (rq_map req i)) \<noteq> {}) \<longrightarrow> counters_ok s') \<and>
      (\<forall>y. partition_id (lru_meta s' y) =
         (if \<exists>i\<in>set is. re_part (rq_map req i) \<and> coll_idx (rq_map req i) = y then rq_part req else partition_id (lru_meta s y))) \<and>
      (\<forall>w y. marked w s' y = marked w s y)"
proof (induction "is" arbitrary: s rep)
  case Nil
  then show ?case by auto
next
  case (Cons i "is")
  let ?x = "\<lambda>i. coll_idx (rq_map req i)"
  have "\<exists>s1 rep1. user_part_move_line i req s = Some (req, s1) \<and> cache_inv s1 rep1 \<and> same_dir s s1 \<and>
      (counters_ok s \<and> (re_part (rq_map req i) \<longrightarrow> partition_id (lru_meta s (?x i)) = rq_part req \<or> marked Valid s (?x i) \<noteq> {}) \<longrightarrow>
        counters_ok s1) \<and>
      (\<forall>y. partition_id (lru_meta s1 y) = (if re_part (rq_map req i) \<and> ?x i = y then rq_part req else partition_id (lru_meta s y))) \<and>
      (\<forall>w y. marked w s1 y = marked w s y) \<and> (\<forall>y. homed s rep y \<longrightarrow> homed s1 rep1 y)"
  proof (cases "re_part (rq_map req i)")
    case True
    then have L: "line_of s rep req i" "m_status (rq_map req i) \<noteq> LOOKUP_MISS" using Cons.prems(2) by simp_all
    from move_line_spec [OF Cons.prems(1) L(1) refl True L(2) assms] True show ?thesis by metis
  next
    case False
    then show ?thesis using Cons.prems(1) by (intro exI [of _ s] exI [of _ rep]) (simp add: user_part_move_line_def)
  qed
  then obtain s1 rep1 where s1: "user_part_move_line i req s = Some (req, s1)" "cache_inv s1 rep1" "same_dir s s1"
      "\<And>y. partition_id (lru_meta s1 y) = (if re_part (rq_map req i) \<and> ?x i = y then rq_part req else partition_id (lru_meta s y))"
      "\<And>w y. marked w s1 y = marked w s y" "\<And>y. homed s rep y \<Longrightarrow> homed s1 rep1 y"
      "counters_ok s \<Longrightarrow> re_part (rq_map req i) \<longrightarrow> partition_id (lru_meta s (?x i)) = rq_part req \<or> marked Valid s (?x i) \<noteq> {} \<Longrightarrow>
        counters_ok s1"
    by blast
  have lo: "line_of s1 rep1 req j" if "line_of s rep req j" for j
    using that s1(4,6) assms same_dirD(6) [OF s1(3)] by (auto simp: line_of_def Let_def)
  have "\<forall>j\<in>set is. re_part (rq_map req j) \<longrightarrow> line_of s1 rep1 req j \<and> m_status (rq_map req j) \<noteq> LOOKUP_MISS"
    using Cons.prems(2) lo by simp
  from Cons.IH [OF s1(2) this] obtain s' rep' where r: "each_map user_part_move_line is req s1 = Some (req, s')" "cache_inv s' rep'"
      "same_dir s1 s'" "\<And>y. partition_id (lru_meta s' y) =
         (if \<exists>i\<in>set is. re_part (rq_map req i) \<and> coll_idx (rq_map req i) = y then rq_part req else partition_id (lru_meta s1 y))"
      "\<And>w y. marked w s' y = marked w s1 y"
      "counters_ok s1 \<Longrightarrow> \<forall>i\<in>set is. re_part (rq_map req i) \<longrightarrow> partition_id (lru_meta s1 (?x i)) = rq_part req \<or>
         marked Valid s1 (?x i) \<noteq> {} \<Longrightarrow> counters_ok s'"
    by blast
  have "counters_ok s'" if c: "counters_ok s" "\<forall>j\<in>set (i # is). re_part (rq_map req j) \<longrightarrow>
      partition_id (lru_meta s (?x j)) = rq_part req \<or> marked Valid s (?x j) \<noteq> {}"
    using r(6) [OF s1(7) [OF c(1)]] c(2) s1(4,5) by auto
  then show ?case using s1 r same_dir_trans [OF s1(3) r(3)] by (intro exI [of _ s'] exI [of _ rep']) auto
qed

lemma request_ok_marked:
  assumes "request_ok s rep req" "lines_marked w U fl is req s rep req' s' rep'"
  shows "request_ok s' rep' req'" "\<And>i. req_blocks s' req' i = req_blocks s req i" "flush_only req req'"
    "\<And>y. covered s' req' y = covered s req y"
proof -
  have L: "cl_inv s' rep'" "flush_only req req'" "same_dir s s'" "\<And>y. homed s rep y \<Longrightarrow> homed s' rep' y"
    "\<And>y. partition_id (lru_meta s' y) = partition_id (lru_meta s y)" "line_size s' = line_size s" "block_4k s' = block_4k s"
    using assms(2) by (auto simp: lines_marked_def)
  note F = flush_onlyD [OF L(2)]
  have g: "ocf_line_blocks s' = ocf_line_blocks s" "ocf_line_end_block s' = ocf_line_end_block s"
    using L(6,7) by (simp_all add: ocf_line_blocks_def ocf_line_end_block_def)
  show b: "req_blocks s' req' i = req_blocks s req i" for i
    using F g L(7) by (simp add: req_blocks_def ocf_map_line_start_block_def ocf_map_line_end_block_def BYTES_TO_BLOCKS_ROUND_DOWN_def)
  show "flush_only req req'" by (fact L(2))
  have "line_of s' rep' req' i" if "line_of s rep req i" for i
    using that L(4,5) F same_dirD(6) [OF L(3)] by (auto simp: line_of_def Let_def)
  moreover have "req_shape s' req'" using assms(1) F L(6) by (simp add: request_ok_def req_shape_def)
  ultimately show "request_ok s' rep' req'" using assms(1) L(1) F by (simp add: request_ok_def)
  show "covered s' req' y = covered s req y" for y using F by (simp add: covered_def b)
qed

lemma lines_marked_covered:
  assumes "lines_marked w U fl [0..<rq_count req] req s rep req' s' rep'"
  shows "cl_inv s' rep'" "same_dir s s'" "w' \<noteq> w \<Longrightarrow> marked w' s' y = marked w' s y"
    "fl \<Longrightarrow> marked w s' y \<noteq> marked w s y \<Longrightarrow> flushed req' [0..<rq_count req] y"
    "U = (\<lambda>B i. B \<union> req_blocks s req i) \<Longrightarrow> marked w s' y = marked w s y \<union> covered s req y"
    "U = (\<lambda>B i. B - req_blocks s req i) \<Longrightarrow> marked w s' y = marked w s y - covered s req y"
proof -
  have c: "covered s req y = (\<Union>i \<in> {i \<in> set [0..<rq_count req]. coll_idx (rq_map req i) = y}. req_blocks s req i)"
    by (auto simp: covered_def)
  note L = assms [unfolded lines_marked_def]
  show "cl_inv s' rep'" "same_dir s s'" "w' \<noteq> w \<Longrightarrow> marked w' s' y = marked w' s y"
    "fl \<Longrightarrow> marked w s' y \<noteq> marked w s y \<Longrightarrow> flushed req' [0..<rq_count req] y" using L by simp_all
  show "U = (\<lambda>B i. B \<union> req_blocks s req i) \<Longrightarrow> marked w s' y = marked w s y \<union> covered s req y"
    "U = (\<lambda>B i. B - req_blocks s req i) \<Longrightarrow> marked w s' y = marked w s y - covered s req y"
    using L unfolding c by (simp_all only: after_lines_union after_lines_diff)
qed

lemma coveredD:
  assumes "lines_marked w U fl [0..<rq_count req] req s rep req' s' rep'"
  shows "U = (\<lambda>B i. B \<union> req_blocks s req i) \<Longrightarrow> cl_inv s' rep' \<and> same_dir s s' \<and>
      (\<forall>y. marked w s' y = marked w s y \<union> covered s req y) \<and> (\<forall>w'. w' \<noteq> w \<longrightarrow> (\<forall>y. marked w' s' y = marked w' s y)) \<and>
      (fl \<longrightarrow> (\<forall>y. marked w s' y \<noteq> marked w s y \<longrightarrow> flushed req' [0..<rq_count req] y))"
    "U = (\<lambda>B i. B - req_blocks s req i) \<Longrightarrow> cl_inv s' rep' \<and> same_dir s s' \<and>
      (\<forall>y. marked w s' y = marked w s y - covered s req y) \<and> (\<forall>w'. w' \<noteq> w \<longrightarrow> (\<forall>y. marked w' s' y = marked w' s y)) \<and>
      (fl \<longrightarrow> (\<forall>y. marked w s' y \<noteq> marked w s y \<longrightarrow> flushed req' [0..<rq_count req] y))"
  using lines_marked_covered(1-4) [OF assms] lines_marked_covered(5,6) [OF assms] by (intro conjI allI impI; simp; fail)+

lemmas dirty_coveredD = coveredD(1) [where w = Dirty and fl = True, OF _ refl]
lemmas clean_coveredD = coveredD(2) [where w = Dirty and fl = True, OF _ refl]
lemmas valid_coveredD = coveredD(1) [where w = Valid and fl = False, OF _ refl]

subsection \<open>What the operations on a request do\<close>

text \<open>
  C4: the blocks that the map entry of the \<open>i\<close>-th line of a request covers are exactly the blocks of
  that line between the first and the last byte of the request.
\<close>

theorem request_blocks_exact:
  assumes "req_shape s req" "i < rq_count req" "k < ocf_line_blocks s"
  shows "ocf_map_line_start_block s req i \<le> k \<and> k \<le> ocf_map_line_end_block s req i \<longleftrightarrow>
    (let b = (rq_addr req div line_bytes (line_size s) + i) * ocf_line_blocks s + k in
     rq_addr req div block_bytes s \<le> b \<and> b \<le> (rq_addr req + rq_bytes req - 1) div block_bytes s)"
  using req_blocks_cover [OF assms] by (simp add: req_blocks_def)

text \<open>
  C1: marking the lines of a request dirty, clean or valid changes exactly the blocks that the request
  covers and nothing of the other kind of mark; the line lists, the partition sizes and the counters of
  the cores agree with the marks afterwards. Every line whose dirty blocks changed is marked for the
  flush of its metadata; making blocks valid marks no line for flush and leaves the request as it is.
\<close>

theorem request_marks_correct:
  fixes s :: "'z cl_state_scheme"
  assumes ok: "request_ok s rep req" and hit: "\<forall>i < rq_count req. m_status (rq_map req i) \<noteq> LOOKUP_MISS"
  shows "(\<exists>req' s' rep'. ocf_set_dirty_map_info now req s = Some (req', s') \<and> cl_inv s' rep' \<and> same_dir s s' \<and>
      (\<forall>y. marked Dirty s' y = marked Dirty s y \<union> covered s req y \<and> marked Valid s' y = marked Valid s y) \<and>
      (\<forall>y. marked Dirty s' y \<noteq> marked Dirty s y \<longrightarrow> flushed req' [0..<rq_count req] y)) \<and>
    (\<exists>req' s' rep'. ocf_set_clean_map_info req s = Some (req', s') \<and> cl_inv s' rep' \<and> same_dir s s' \<and>
      (\<forall>y. marked Dirty s' y = marked Dirty s y - covered s req y \<and> marked Valid s' y = marked Valid s y) \<and>
      (\<forall>y. marked Dirty s' y \<noteq> marked Dirty s y \<longrightarrow> flushed req' [0..<rq_count req] y)) \<and>
    (\<exists>s' rep'. ocf_set_valid_map_info req s = Some (req, s') \<and> cl_inv s' rep' \<and> same_dir s s' \<and>
      (\<forall>y. marked Valid s' y = marked Valid s y \<union> covered s req y \<and> marked Dirty s' y = marked Dirty s y))"
proof (intro conjI)
  have w: "Valid \<noteq> Dirty" "Dirty \<noteq> Valid" by simp_all
  from set_dirty_map_spec [OF ok, of now] show "\<exists>req' s' rep'. ocf_set_dirty_map_info now req s = Some (req', s') \<and>
      cl_inv s' rep' \<and> same_dir s s' \<and>
      (\<forall>y. marked Dirty s' y = marked Dirty s y \<union> covered s req y \<and> marked Valid s' y = marked Valid s y) \<and>
      (\<forall>y. marked Dirty s' y \<noteq> marked Dirty s y \<longrightarrow> flushed req' [0..<rq_count req] y)"
    by (elim ex_forward conj_forward) (assumption, drule dirty_coveredD, simp)
  from set_clean_map_spec [OF ok] show "\<exists>req' s' rep'. ocf_set_clean_map_info req s = Some (req', s') \<and>
      cl_inv s' rep' \<and> same_dir s s' \<and>
      (\<forall>y. marked Dirty s' y = marked Dirty s y - covered s req y \<and> marked Valid s' y = marked Valid s y) \<and>
      (\<forall>y. marked Dirty s' y \<noteq> marked Dirty s y \<longrightarrow> flushed req' [0..<rq_count req] y)"
    by (elim ex_forward conj_forward) (assumption, drule clean_coveredD, simp)
  from set_valid_map_spec [OF ok hit] have "\<exists>req' s' rep'. ocf_set_valid_map_info req s = Some (req', s') \<and>
      cl_inv s' rep' \<and> same_dir s s' \<and>
      (\<forall>y. marked Valid s' y = marked Valid s y \<union> covered s req y \<and> marked Dirty s' y = marked Dirty s y)"
    by (elim ex_forward conj_forward) (assumption, drule valid_coveredD, simp)
  then show "\<exists>s' rep'. ocf_set_valid_map_info req s = Some (req, s') \<and> cl_inv s' rep' \<and> same_dir s s' \<and>
      (\<forall>y. marked Valid s' y = marked Valid s y \<union> covered s req y \<and> marked Dirty s' y = marked Dirty s y)"
    using set_valid_same_req [of req s] by blast
qed

text \<open>
  C2: purging blocks of a line takes exactly these blocks out of its valid and its dirty blocks. When no
  valid block is left and nobody waits for the line, the line is on the free list and out of the hash
  table, where every other line stays; otherwise it stays where it is. The lists, the hash table and the
  counters stay consistent.
\<close>

theorem purge_line_correct:
  assumes "applies s rep req i a b" and "x = coll_idx (rq_map req i)" and "purgeable s x"
  shows "\<exists>req' s' rep'. ocf_purge_cache_line_sec s a b req i = Some (req', s') \<and> flush_only req req' \<and>
    cl_inv s' rep' \<and> coll_inv s' \<and>
    marked Dirty s' x = marked Dirty s x - {a..b} \<and> marked Valid s' x = marked Valid s x - {a..b} \<and>
    (\<forall>w y. y \<noteq> x \<longrightarrow> marked w s' y = marked w s y) \<and>
    (if marked Valid s x \<subseteq> {a..b} \<and> ocf_alock_waitlist_is_empty_locked (cl_locks s) x
     then x \<in> set (rep' (PARTITION_FREELIST, OCF_LRU_GET_LIST_INDEX x, True)) \<and> cached s' = (cached s)(line_key s x := None)
     else line_of s' rep' req' i \<and> cached s' = cached s)"
  using assms by (rule purge_spec)

text \<open>
  C3: moving a request to its partition gives that partition to every line whose map entry asks for it and
  to no other, keeps all marks and the hash table, and leaves the lists and the sizes of the partitions exact. The
  counters of cores and partitions stay exact when every line that changes its partition has a valid block: the code
  counts a moved line as cached whether it has one or not. Entries that do not ask for a move may be missing.
\<close>

theorem part_move_correct:
  fixes s :: "'z cl_state_scheme"
  assumes "cache_inv s rep" "rq_part req < OCF_USER_IO_CLASS_MAX"
    "\<forall>i < rq_count req. re_part (rq_map req i) \<longrightarrow> line_of s rep req i \<and> m_status (rq_map req i) \<noteq> LOOKUP_MISS"
  shows "\<exists>s' rep'. ocf_user_part_move req s = Some (req, s') \<and> cache_inv s' rep' \<and> same_dir s s' \<and>
    (counters_ok s \<and> (\<forall>i < rq_count req. re_part (rq_map req i) \<longrightarrow> partition_id (lru_meta s (coll_idx (rq_map req i))) = rq_part req \<or>
       marked Valid s (coll_idx (rq_map req i)) \<noteq> {}) \<longrightarrow> counters_ok s') \<and>
    (\<forall>y. partition_id (lru_meta s' y) = (if \<exists>i < rq_count req. re_part (rq_map req i) \<and> coll_idx (rq_map req i) = y
       then rq_part req else partition_id (lru_meta s y))) \<and>
    (\<forall>w y. marked w s' y = marked w s y)"
proof -
  have "(\<exists>i\<in>set [0..<rq_count req]. P i) = (\<exists>i < rq_count req. P i)" "(\<forall>i\<in>set [0..<rq_count req]. P i) = (\<forall>i < rq_count req. P i)" for P
    by auto
  with move_lines_spec [OF assms(2,1), of "[0..<rq_count req]"] assms(3) show ?thesis
    unfolding ocf_user_part_move_def by simp
qed

subsection \<open>A concrete cache\<close>

text \<open>Line 0 of a cache of 20000 lines holds core line 5 of core 0, all of it valid; it is in partition 0.\<close>

definition demo_collision :: "nat \<Rightarrow> ocf_metadata_map" where
  "demo_collision l = (if l = 0 then \<lparr>core_line = 5, core_id = 0, status = St_u8 \<lparr>valid = 255, dirty = 0\<rparr>\<rparr>
     else \<lparr>core_line = 2 ^ 46 - 1, core_id = OCF_CORE_NUM, status = St_u8 \<lparr>valid = 0, dirty = 0\<rparr>\<rparr>)"

definition demo_counters :: "nat \<Rightarrow> core_counters" where
  "demo_counters c = \<lparr>cached_clines = of_bool (c = 0), dirty_clines = 0, dirty_since = 0,
     part_cached = \<lambda>p. of_bool (c = 0 \<and> p = 0), part_dirty = \<lambda>_. 0\<rparr>"

definition demo_put :: "'z cl_state_scheme \<Rightarrow> 'z cl_state_scheme" where
  "demo_put s = s\<lparr>block_4k := False, line_size := Size_4, collision := demo_collision, hash_table_entries := 1,
     hash_table := \<lambda>_. \<lparr>h_line = 0, h_rd = 0, h_wr = False\<rparr>, list_info := \<lambda>_. \<lparr>prev_col = 20000, next_col = 20000\<rparr>,
     core_rt := demo_counters, cl_locks := demo_alock\<rparr>"

definition demo_cl_cache :: cl_state where
  "demo_cl_cache = lru_cache.extend demo_cache (cl_state.fields demo_counters demo_alock [])"

definition demo_cl_req :: cl_req where
  "demo_cl_req = \<lparr>rq_core = 0, rq_part = 3, rq_addr = 20480, rq_bytes = 4096, rq_count = 1,
     rq_map = \<lambda>_. \<lparr>m_hash = 0, coll_idx = 0, m_core_line = 5, m_core_id = 0, m_status = LOOKUP_HIT, m_invalid = False,
       re_part = True, m_flush = False, start_flush = 0, stop_flush = 0\<rparr>, flush_metadata = False\<rparr>"

lemma demo_marks:
  "marked Dirty (demo_put s) x = {}" "marked Valid (demo_put s) x = (if x = 0 then {0..7} else {})"
proof -
  have m: "(255 :: 8 word) = - 1" by simp
  have "{i. bit (255 :: 8 word) i} = {0..7}" unfolding m by (auto simp del: minus_1_eq_mask)
  then show "marked Dirty (demo_put s) x = {}" "marked Valid (demo_put s) x = (if x = 0 then {0..7} else {})"
    by (simp_all add: marked_def demo_put_def demo_collision_def)
qed

lemma demo_put_fields [simp]:
  "collision (demo_put s) = demo_collision"
  "lru_meta (demo_put s) = lru_meta s" "collision_table_entries (demo_put s) = collision_table_entries s"
  "cparts (demo_put s) = cparts s" "lru_ready (demo_put s) = lru_ready s" "lru_list (demo_put s) = lru_list s"
  "ocf_lru_get_list (demo_put s) = ocf_lru_get_list s" "eviction_policy (demo_put s) = eviction_policy s"
  by (simp_all add: demo_put_def lru_ready_def lru_list_def lru_rep_def ocf_lru_get_list_def fun_eq_iff)

lemma demo_put_inv:
  assumes s: "cache_inv s rep" "\<And>x. marked Dirty s x = {}" "collision_table_entries s = 20000"
    and p: "partition_id (lru_meta s 0) = 0"
  shows "cl_inv (demo_put s) rep"
proof -
  have "home (demo_put s) x = home s x" for x by (simp add: home_def demo_marks s(2))
  moreover have "md_ok (demo_put s)" by (simp add: md_ok_def demo_put_def demo_collision_def u8_status_ok)
  ultimately have "cache_inv (demo_put s) rep" using s(1) by (simp add: cache_inv_def lists_ok_def)
  moreover have "counters_ok (demo_put s)"
  proof -
    have "{x. x < 20000 \<and> core_id (demo_collision x) = c \<and> P (partition_id (lru_meta s x)) \<and> x = 0} =
        (if c = 0 \<and> P 0 then {0::nat} else {})" for c P
      using p by (auto simp: demo_collision_def)
    moreover have "tally Valid (demo_put s) c P =
        card {x. x < 20000 \<and> core_id (demo_collision x) = c \<and> P (partition_id (lru_meta s x)) \<and> x = 0}" for c P
      unfolding tally_def by (rule arg_cong [where f = card]) (auto simp: demo_marks s(3))
    ultimately have "tally Valid (demo_put s) c P = of_bool (c = 0 \<and> P 0)" for c P by simp
    moreover have "tally Dirty (demo_put s) c P = 0" for c P by (simp add: tally_def demo_marks)
    ultimately show ?thesis by (auto simp: counters_ok_def demo_put_def demo_counters_def)
  qed
  ultimately show ?thesis by (simp add: cl_inv_def)
qed

lemma demo_put_dir:
  assumes N: "collision_table_entries s = 20000"
  shows "coll_inv (demo_put s)" "mapped (demo_put s) 0"
proof -
  have m: "mapped (demo_put s) x \<longleftrightarrow> x = 0" for x
    using N by (auto simp: mapped_def demo_collision_def split: if_splits)
  show "mapped (demo_put s) 0" by (simp add: m)
  have g: "geometry_ok (demo_put s)" by (simp add: geometry_ok_def N) (simp add: demo_put_def)
  have k: "key_hash (demo_put s) x = 0" for x using hash_func_less [OF g, of x] by (simp add: demo_put_def)
  have "chains_ok (demo_put s) (\<lambda>_. [0])"
    by (rule chains_okI) (auto simp: m k N, auto simp: demo_put_def demo_collision_def)
  then show "coll_inv (demo_put s)" using g by (auto simp: coll_inv_def unique_keys_def m)
qed

lemma demo_full:
  "\<exists>(s :: cl_state) rep. cl_inv (demo_put s) rep \<and> collision_table_entries s = 20000 \<and>
     (\<forall>x < 20000. homed (demo_put s) rep x \<and> partition_id (lru_meta s x) = (if x = 0 then 0 else PARTITION_FREELIST))"
proof -
  have ok: "lru_ready demo_cl_cache" "eviction_policy demo_cl_cache = ocf_eviction_lru" "md_ok demo_cl_cache"
    "collision_table_entries demo_cl_cache = 20000" "marked Dirty demo_cl_cache x = {}" for x
    using demo_cache_ok by (simp_all add: demo_cl_cache_def lru_cache.defs demo_cache_def lru_ready_def md_ok_def marked_def lru_state.defs)
  have ch: "\<forall>k < OCF_NUM_LRU_LISTS. shard_chunks (collision_table_entries demo_cl_cache) k \<noteq> 1"
    using demo_chunks by (simp add: ok(4) demo_cache_ok(4))
  obtain s1 :: cl_state and rep1 where s1: "cache_inv s1 rep1"
    "\<forall>k < 32. set (rep1 (PARTITION_FREELIST, k, True)) = {x. x < 20000 \<and> OCF_LRU_GET_LIST_INDEX x = k}"
    "collision s1 = collision demo_cl_cache" "collision_table_entries s1 = 20000"
    using populate_spec [OF ok(1-3) distinct_upt demo_shards ch] unfolding ok(4) by blast
  have d1: "marked Dirty s1 x = {}" for x using ok(5) [of x] s1(3) by (simp add: marked_def)
  have sl: "(PARTITION_FREELIST, OCF_LRU_GET_LIST_INDEX x, True) \<in> slots" for x
    by (simp add: slots_simps) (simp add: PARTITION_FREELIST_def PARTITION_FREE_DETACHED_def)
  have m1: "x \<in> set (rep1 (PARTITION_FREELIST, OCF_LRU_GET_LIST_INDEX x, True))" if "x < 20000" for x using s1(2) that by simp
  have h1: "home s1 x = (PARTITION_FREELIST, OCF_LRU_GET_LIST_INDEX x, True)" if "x < 20000" for x
    using cache_invD(5) [OF s1(1) sl m1 [OF that]] .
  obtain s2 :: cl_state and rep2 where s2: "cache_inv s2 rep2" "reparted 0 0 s1 s2"
      "rep2 = moved 0 (PARTITION_FREELIST, OCF_LRU_GET_LIST_INDEX 0, True) (rehome 0 0 s1) rep1"
    using repart_full [OF s1(1) sl m1, of 0 0] by auto
  have f: "collision s2 = collision s1" "collision_table_entries s2 = 20000"
      "\<And>x. partition_id (lru_meta s2 x) = (if x = 0 then 0 else partition_id (lru_meta s1 x))"
    using s2(2) s1(4) by (auto simp: reparted_def)
  have d2: "marked Dirty s2 x = {}" for x using d1 [of x] f(1) by (simp add: marked_def)
  have p: "partition_id (lru_meta s2 x) = (if x = 0 then 0 else PARTITION_FREELIST)" if "x < 20000" for x
    using h1 [OF that] f(3) [of x] by (simp add: home_def)
  have "homed (demo_put s2) rep2 x" if x: "x < 20000" for x
  proof -
    have r: "rehome 0 0 s1 = (0, OCF_LRU_GET_LIST_INDEX 0, True)" by (simp add: rehome_def list_kind_def d1)
    have h: "home (demo_put s2) x = (if x = 0 then rehome 0 0 s1 else home s1 x)"
      using p [OF x] h1 [OF x] by (simp add: home_def r list_kind_def demo_marks)
    have "rehome 0 0 s1 \<in> slots" by (simp add: r slots_simps)
    then show ?thesis
      using h h1 [OF x] sl [of x] m1 [OF x] set_moved [OF cache_invD(1) [OF s1(1)] sl m1, of 0 "home (demo_put s2) x" "rehome 0 0 s1"]
      by (cases "x = 0") (simp_all add: homed_def s2(3))
  qed
  then show ?thesis using demo_put_inv [OF s2(1) d2 f(2)] f(2,3) p by (intro exI [of _ s2] exI [of _ rep2]) simp
qed

lemma demo_state:
  "\<exists>(s :: cl_state) rep. request_ok s rep demo_cl_req \<and> purgeable s 0 \<and> marked Valid s 0 = {0..7} \<and> marked Dirty s 0 = {} \<and>
     ocf_line_blocks s = 8 \<and> ocf_alock_waitlist_is_empty_locked (cl_locks s) 0 \<and> line_of s rep demo_cl_req 0 \<and>
     line_size s = Size_4 \<and> block_4k s = False \<and> coll_inv s \<and> mapped s 0 \<and> line_key s 0 = (0, 5) \<and> partition_id (lru_meta s 0) = 0"
proof -
  obtain s2 :: cl_state and rep2 where s2: "cl_inv (demo_put s2) rep2" "collision_table_entries s2 = 20000"
      "homed (demo_put s2) rep2 0" "partition_id (lru_meta s2 0) = 0"
    using demo_full by fastforce
  let ?s = "demo_put s2"
  have lo: "line_of ?s rep2 demo_cl_req i" for i
    using s2(3,4) by (simp add: line_of_def Let_def demo_cl_req_def demo_collision_def)
  have g: "line_size ?s = Size_4" "block_4k ?s = False" "cl_locks ?s = demo_alock" by (simp_all add: demo_put_def)
  have "req_shape ?s demo_cl_req" by (simp add: req_shape_def g demo_cl_req_def)
  then have "request_ok ?s rep2 demo_cl_req" using s2(1) lo by (simp add: request_ok_def)
  moreover have "purgeable ?s 0" using demo_put_dir [OF s2(2)] by (simp add: purgeable_def demo_marks g demo_alock_def)
  moreover have "ocf_line_blocks ?s = 8" by (simp add: ocf_line_blocks_def g)
  moreover have "ocf_alock_waitlist_is_empty_locked (cl_locks ?s) 0"
    by (simp add: g demo_alock_def ocf_alock_waitlist_is_empty_locked_def Let_def)
  moreover have "line_key ?s 0 = (0, 5)" by (simp add: line_key_def demo_collision_def)
  ultimately show ?thesis using lo g demo_put_dir [OF s2(2)] s2(4) by (intro exI [of _ ?s] exI [of _ rep2]) (simp add: demo_marks)
qed

theorem request_blocks_exact_witness:
  "\<exists>s :: cl_state. ocf_map_line_start_block s demo_cl_req 0 \<le> 3 \<and> 3 \<le> ocf_map_line_end_block s demo_cl_req 0"
proof -
  obtain s :: cl_state and rep where s: "request_ok s rep demo_cl_req" "ocf_line_blocks s = 8" "line_size s = Size_4" "block_4k s = False"
    using demo_state by blast
  have "req_shape s demo_cl_req" using s(1) by (simp add: request_ok_def)
  from request_blocks_exact [OF this, of 0 3] s show ?thesis
    by (auto simp: demo_cl_req_def block_shift_def Let_def intro!: exI [of _ s])
qed

theorem request_marks_correct_witness:
  "\<exists>(s :: cl_state) req' s'. ocf_set_dirty_map_info 7 demo_cl_req s = Some (req', s') \<and>
     marked Dirty s 0 = {} \<and> marked Dirty s' 0 = {0..7} \<and> flushed req' [0] 0"
proof -
  obtain s :: cl_state and rep where s: "request_ok s rep demo_cl_req" "ocf_line_blocks s = 8" "line_size s = Size_4" "block_4k s = False"
    "marked Dirty s 0 = {}"
    using demo_state by blast
  have c: "rq_count demo_cl_req = 1" "\<forall>i < rq_count demo_cl_req. m_status (rq_map demo_cl_req i) \<noteq> LOOKUP_MISS"
    by (simp_all add: demo_cl_req_def)
  have e: "ocf_line_end_block s = 7" using s(2) by (simp add: ocf_line_end_block_def)
  have "covered s demo_cl_req 0 = {0..7}"
    using s(2-4) e by (auto simp: covered_def req_blocks_def demo_cl_req_def ocf_map_line_start_block_def
        ocf_map_line_end_block_def BYTES_TO_BLOCKS_ROUND_DOWN_def block_shift_def)
  with conjunct1 [OF request_marks_correct [OF s(1) c(2), of 7]] s(5) obtain req' s' where
    "ocf_set_dirty_map_info 7 demo_cl_req s = Some (req', s')" "marked Dirty s' 0 = {0..7}" "flushed req' [0] 0"
    unfolding c(1) by auto
  with s(5) show ?thesis by blast
qed

theorem purge_line_correct_witness:
  "\<exists>(s :: cl_state) req' s' rep'. ocf_purge_cache_line_sec s 0 7 demo_cl_req 0 = Some (req', s') \<and> marked Valid s 0 = {0..7} \<and>
     marked Valid s' 0 = {} \<and> 0 \<in> set (rep' (PARTITION_FREELIST, OCF_LRU_GET_LIST_INDEX 0, True)) \<and> cl_inv s' rep'"
proof -
  obtain s :: cl_state and rep where s: "request_ok s rep demo_cl_req" "purgeable s 0" "marked Valid s 0 = {0..7}"
    "ocf_line_blocks s = 8" "ocf_alock_waitlist_is_empty_locked (cl_locks s) 0" "line_of s rep demo_cl_req 0"
    using demo_state by blast
  have ap: "applies s rep demo_cl_req 0 0 7" using s(1,4,6) by (simp add: applies_def request_ok_def)
  have x: "0 = coll_idx (rq_map demo_cl_req 0)" by (simp add: demo_cl_req_def)
  from purge_line_correct [OF ap x s(2)] s(3,5) show ?thesis
    by (auto intro!: exI [of _ s])
qed

theorem part_move_correct_witness:
  "\<exists>(s :: cl_state) s' rep'. ocf_user_part_move demo_cl_req s = Some (demo_cl_req, s') \<and> cl_inv s' rep' \<and>
     partition_id (lru_meta s' 0) = 3"
proof -
  obtain s :: cl_state and rep where s: "request_ok s rep demo_cl_req" "marked Valid s 0 = {0..7}" using demo_state by blast
  have q: "rq_part demo_cl_req < OCF_USER_IO_CLASS_MAX" "coll_idx (rq_map demo_cl_req i) = 0" "re_part (rq_map demo_cl_req i)"
    "m_status (rq_map demo_cl_req i) \<noteq> LOOKUP_MISS" "rq_count demo_cl_req = 1" "rq_part demo_cl_req = 3" for i
    by (simp_all add: demo_cl_req_def)
  have "\<forall>i < rq_count demo_cl_req. re_part (rq_map demo_cl_req i) \<longrightarrow> line_of s rep demo_cl_req i \<and>
      m_status (rq_map demo_cl_req i) \<noteq> LOOKUP_MISS"
    using s q(4) by (simp add: request_ok_def)
  moreover have c: "cache_inv s rep" "counters_ok s" using s(1) by (simp_all add: request_ok_def cl_inv_def)
  ultimately obtain s' rep' where "ocf_user_part_move demo_cl_req s = Some (demo_cl_req, s')" "cache_inv s' rep'"
    "counters_ok s \<and> (\<forall>i < rq_count demo_cl_req. re_part (rq_map demo_cl_req i) \<longrightarrow>
       partition_id (lru_meta s (coll_idx (rq_map demo_cl_req i))) = rq_part demo_cl_req \<or>
       marked Valid s (coll_idx (rq_map demo_cl_req i)) \<noteq> {}) \<longrightarrow> counters_ok s'"
    "\<forall>y. partition_id (lru_meta s' y) = (if \<exists>i < rq_count demo_cl_req. re_part (rq_map demo_cl_req i) \<and>
        coll_idx (rq_map demo_cl_req i) = y then rq_part demo_cl_req else partition_id (lru_meta s y))"
    using part_move_correct [OF _ q(1), of s rep] by blast
  moreover from this(3) have "counters_ok s'" using c(2) s(2) q(2) by simp
  ultimately show ?thesis using q by (intro exI [of _ s] exI [of _ s'] exI [of _ rep']) (simp add: cl_inv_def)
qed

end
