(* ===== verification/User_Part.thy ===== *)
theory User_Part
  imports Ocf_Lst Cache_Line
begin

section \<open>User partitions and io classes (utils_user_part.c, utils_user_part.h, ocf_mngt_io_class.c, ocf_io_class.c)\<close>

text \<open>
  A cache has 34 user partitions, one for each io class, on a list that is sorted by the priority
  with which they are evicted. \<open>user_cache\<close> has the list, the configuration of every partition
  (\<open>cache->user_parts[i].config\<close>, which points into the metadata) and the state of the cache lines
  in \<open>cl\<close>, whose \<open>cparts\<close> are the runtime parts of the partitions. Names are C strings without their
  terminating zero. The number of lines of the cache is \<open>collision_table_entries\<close>. Copying and comparing of names is that of the posix environment.
\<close>

abbreviation (input) OCF_IO_CLASS_UNCLASSIFIED :: nat where "OCF_IO_CLASS_UNCLASSIFIED \<equiv> 0"
abbreviation (input) OCF_IO_CLASS_PREFETCH :: nat where "OCF_IO_CLASS_PREFETCH \<equiv> 33"
abbreviation (input) OCF_IO_CLASS_NAME_MAX :: nat where "OCF_IO_CLASS_NAME_MAX \<equiv> 1024"
abbreviation (input) OCF_IO_CLASS_PRIO_PINNED :: int where "OCF_IO_CLASS_PRIO_PINNED \<equiv> -1"
abbreviation (input) OCF_IO_CLASS_PRIO_LOWEST :: int where "OCF_IO_CLASS_PRIO_LOWEST \<equiv> 255"
abbreviation (input) PARTITION_SIZE_MAX :: nat where "PARTITION_SIZE_MAX \<equiv> 100"
abbreviation (input) ocf_cache_mode_max :: int where "ocf_cache_mode_max \<equiv> 6"
abbreviation (input) ocf_cache_mode_none :: int where "ocf_cache_mode_none \<equiv> -1"

record ocf_user_part_config =
  cfg_name :: string
  min_size :: nat
  max_size :: nat
  f_valid :: bool
  f_added :: bool
  f_eviction :: bool
  priority :: int
  cache_mode :: int

record user_cache = ocf_lst +
  user_parts :: "nat \<Rightarrow> ocf_user_part_config"
  part_ids :: "nat \<Rightarrow> nat"
  valid_parts_no :: nat
  has_device :: bool
  is_standby :: bool
  cl :: cl_state

definition upd_config ::
    "nat \<Rightarrow> (ocf_user_part_config \<Rightarrow> ocf_user_part_config) \<Rightarrow> 'z user_cache_scheme \<Rightarrow> 'z user_cache_scheme" where
  "upd_config p f s = s\<lparr>user_parts := (user_parts s)(p := f (user_parts s p))\<rparr>"

definition ocf_part_get_occupancy :: "'z user_cache_scheme \<Rightarrow> nat \<Rightarrow> nat" where
  "ocf_part_get_occupancy s p = nat (curr_size (cparts (cl s) p) mod 2 ^ 32)"

text \<open>The comparator of the list also decides from which partitions lines may be evicted.\<close>

definition cmp_size :: "'z user_cache_scheme \<Rightarrow> nat \<Rightarrow> int" where
  "cmp_size s p = (if has_device s then curr_size (cparts (cl s) p) else 0)"

definition cmp_eviction :: "nat \<Rightarrow> 'z user_cache_scheme \<Rightarrow> 'z user_cache_scheme" where
  "cmp_eviction p s =
     (if priority (user_parts s p) = OCF_IO_CLASS_PRIO_PINNED then upd_config p (\<lambda>c. c\<lparr>f_eviction := False\<rparr>) s
      else upd_config p (\<lambda>c. c\<lparr>f_eviction := True\<rparr>) s)"

definition cmp_invalid :: "nat \<Rightarrow> int \<Rightarrow> int \<Rightarrow> 'z user_cache_scheme \<Rightarrow> int \<times> 'z user_cache_scheme" where
  "cmp_invalid p sz v s =
     (if \<not> f_valid (user_parts s p) then
        (if sz \<noteq> 0 then (32767, upd_config p (\<lambda>c. c\<lparr>f_eviction := True\<rparr>) s)
         else (-32768, upd_config p (\<lambda>c. c\<lparr>f_eviction := False\<rparr>) s))
      else (v, s))"

definition ocf_user_part_lst_cmp_valid ::
    "'z user_cache_scheme \<Rightarrow> nat \<Rightarrow> nat \<Rightarrow> int \<times> 'z user_cache_scheme" where
  "ocf_user_part_lst_cmp_valid s p1 p2 =
     (let p1_size = cmp_size s p1; p2_size = cmp_size s p2;
          v1 = priority (user_parts s p1); v2 = priority (user_parts s p2);
          s = cmp_eviction p1 s; s = cmp_eviction p2 s;
          (v1, s) = cmp_invalid p1 p1_size v1 s;
          (v2, s) = cmp_invalid p2 p2_size v2 s;
          (v1, v2) = (if v1 = v2 then (int p1, int p2) else (v1, v2))
      in (v2 - v1, s))"

definition ocf_user_part_lst_getter_valid :: "nat \<Rightarrow> bool" where
  "ocf_user_part_lst_getter_valid idx \<longleftrightarrow> \<not> idx > OCF_USER_IO_CLASS_MAX"

definition ocf_user_part_init :: "'z user_cache_scheme \<Rightarrow> 'z user_cache_scheme option" where
  "ocf_user_part_init s = do {
     s \<leftarrow> ocf_lst_init OCF_USER_IO_CLASS_MAX ocf_user_part_lst_getter_valid s;
     Some (s\<lparr>part_ids := fold (\<lambda>i ids. ids(i := i)) [0..<OCF_USER_IO_CLASS_MAX + 1] (part_ids s)\<rparr>) }"

definition ocf_user_part_sort :: "'z user_cache_scheme \<Rightarrow> 'z user_cache_scheme option" where
  "ocf_user_part_sort s = ocf_lst_sort (Some ocf_user_part_lst_cmp_valid) s"

definition ocf_user_part_set_valid :: "'z user_cache_scheme \<Rightarrow> nat \<Rightarrow> bool \<Rightarrow> 'z user_cache_scheme" where
  "ocf_user_part_set_valid s p vld =
     (if vld \<noteq> f_valid (user_parts s p) then
        if vld then (upd_config p (\<lambda>c. c\<lparr>f_valid := True\<rparr>) s)\<lparr>valid_parts_no := inc32 (valid_parts_no s)\<rparr>
        else (upd_config p (\<lambda>c. c\<lparr>f_valid := False, priority := OCF_IO_CLASS_PRIO_LOWEST, min_size := 0,
               max_size := PARTITION_SIZE_MAX, cfg_name := ''Inactive''\<rparr>) s)\<lparr>valid_parts_no := dec32 (valid_parts_no s)\<rparr>
      else s)"

definition ocf_user_part_set_prio :: "'z user_cache_scheme \<Rightarrow> nat \<Rightarrow> int \<Rightarrow> 'z user_cache_scheme" where
  "ocf_user_part_set_prio s p prio =
     (if priority (user_parts s p) \<noteq> prio then upd_config p (\<lambda>c. c\<lparr>priority := prio\<rparr>) s else s)"

definition ocf_user_part_get_prio :: "'z user_cache_scheme \<Rightarrow> nat \<Rightarrow> int" where
  "ocf_user_part_get_prio s p =
     (if p < OCF_USER_IO_CLASS_MAX then priority (user_parts s p) else OCF_IO_CLASS_PRIO_LOWEST)"

definition ocf_user_part_class2id :: "'z user_cache_scheme \<Rightarrow> nat \<Rightarrow> nat" where
  "ocf_user_part_class2id s class_id =
     (if class_id < OCF_USER_IO_CLASS_MAX \<and> f_valid (user_parts s class_id) then class_id else OCF_IO_CLASS_UNCLASSIFIED)"

definition ocf_user_part_get_cache_mode :: "'z user_cache_scheme \<Rightarrow> nat \<Rightarrow> int" where
  "ocf_user_part_get_cache_mode s p =
     (if p < OCF_USER_IO_CLASS_MAX then cache_mode (user_parts s p) else ocf_cache_mode_none)"

definition ocf_user_part_is_enabled :: "'z user_cache_scheme \<Rightarrow> nat \<Rightarrow> bool" where
  "ocf_user_part_is_enabled s p \<longleftrightarrow> max_size (user_parts s p) \<noteq> 0"

text \<open>Sizes are in percent of the lines of the cache; products have 64 bits, results 32.\<close>

definition ocf_user_part_get_min_size :: "'z user_cache_scheme \<Rightarrow> nat \<Rightarrow> nat" where
  "ocf_user_part_get_min_size s p =
     (let ioclass_size = (min_size (user_parts s p) * collision_table_entries (cl s)) mod 2 ^ 64
      in ioclass_size div 100 mod 2 ^ 32)"

definition ocf_user_part_get_max_size :: "'z user_cache_scheme \<Rightarrow> nat \<Rightarrow> nat" where
  "ocf_user_part_get_max_size s p =
     (let ioclass_size = (max_size (user_parts s p) * collision_table_entries (cl s)) mod 2 ^ 64;
          ioclass_size = (ioclass_size + 99) mod 2 ^ 64 div 100
      in ioclass_size mod 2 ^ 32)"

definition ocf_user_part_overflow_size :: "'z user_cache_scheme \<Rightarrow> nat \<Rightarrow> nat" where
  "ocf_user_part_overflow_size s p =
     (let part_occupancy = ocf_part_get_occupancy s p; part_occupancy_limit = ocf_user_part_get_max_size s p
      in if part_occupancy > part_occupancy_limit then part_occupancy - part_occupancy_limit else 0)"

definition ocf_user_part_is_prio_valid :: "int \<Rightarrow> bool" where
  "ocf_user_part_is_prio_valid prio \<longleftrightarrow>
     (if 0 \<le> prio \<and> prio \<le> OCF_IO_CLASS_PRIO_LOWEST then True else if prio = OCF_IO_CLASS_PRIO_PINNED then True else False)"

fun name_valid_loop :: "string \<Rightarrow> nat \<Rightarrow> bool" where
  "name_valid_loop [] len = True"
| "name_valid_loop (c # cs) len =
     (if (of_char c :: nat) < 32 \<or> (of_char c :: nat) > 126 then False
      else if c = CHR '','' \<or> c = CHR 0x22 then False
      else if len + 1 \<ge> OCF_IO_CLASS_NAME_MAX then False
      else name_valid_loop cs (len + 1))"

definition ocf_user_part_is_name_valid :: "string \<Rightarrow> bool" where
  "ocf_user_part_is_name_valid name = name_valid_loop name 0"

definition env_strncpy :: "nat \<Rightarrow> string \<Rightarrow> nat \<Rightarrow> string" where
  "env_strncpy dmax src slen = take (min (dmax - 1) slen) src"

subsection \<open>Management of io classes\<close>

record ocf_mngt_io_class_config =
  c_class_id :: nat
  c_max_size :: nat
  c_name :: "string option"
  c_cache_mode :: int
  c_prio :: int

definition ocf_mngt_count_user_parts_min_size :: "'z user_cache_scheme \<Rightarrow> nat option" where
  "ocf_mngt_count_user_parts_min_size s = do {
     (_, _, count) \<leftarrow> for_each_lst (lst_invalid s + 1)
        (\<lambda>part_id s count. Some (False, s,
           if f_valid (user_parts s part_id) then (count + min_size (user_parts s part_id)) mod 2 ^ 64 else count))
        (ocf_lst_head s) s 0;
     Some count }"

definition part_on_list :: "nat \<Rightarrow> 'z user_cache_scheme \<Rightarrow> bool option" where
  "part_on_list part_id s = do {
     (_, _, found) \<leftarrow> for_each_lst (lst_invalid s + 1)
        (\<lambda>iter_id s found. if iter_id = part_id then Some (True, s, True) else Some (False, s, found))
        (ocf_lst_head s) s False;
     Some found }"

definition ocf_mngt_add_partition_to_cache ::
    "'z user_cache_scheme \<Rightarrow> nat \<Rightarrow> string option \<Rightarrow> nat \<Rightarrow> nat \<Rightarrow> nat \<Rightarrow> bool \<Rightarrow>
     (ocf_error \<times> 'z user_cache_scheme) option" where
  "ocf_mngt_add_partition_to_cache s part_id name minimum maximum prio vld =
     (case name of None \<Rightarrow> Some (OCF_ERR_INVAL, s) | Some name \<Rightarrow>
      if part_id \<ge> OCF_USER_IO_CLASS_MAX then Some (OCF_ERR_INVAL, s)
      else if f_valid (user_parts s part_id) then Some (OCF_ERR_INVAL, s)
      else if minimum > maximum then Some (OCF_ERR_INVAL, s)
      else if maximum > PARTITION_SIZE_MAX then Some (OCF_ERR_INVAL, s)
      else if length name \<ge> OCF_IO_CLASS_NAME_MAX then Some (OCF_ERR_INVAL, s)
      else do {
        found \<leftarrow> part_on_list part_id s;
        if found then Some (OCF_ERR_INVAL, s)
        else do {
          let s = upd_config part_id (\<lambda>c. c\<lparr>cfg_name := env_strncpy OCF_IO_CLASS_NAME_MAX name OCF_IO_CLASS_NAME_MAX, min_size := minimum,
                    max_size := maximum, priority := int (prio mod 256), cache_mode := ocf_cache_mode_max\<rparr>) s;
          let s = ocf_user_part_set_valid s part_id vld;
          s \<leftarrow> ocf_lst_add s part_id;
          s \<leftarrow> ocf_user_part_sort s;
          Some (OCF_OK, upd_config part_id (\<lambda>c. c\<lparr>f_added := True\<rparr>) s) } })"

definition ocf_mngt_set_partition_size ::
    "'z user_cache_scheme \<Rightarrow> nat \<Rightarrow> nat \<Rightarrow> nat \<Rightarrow> (ocf_error \<times> 'z user_cache_scheme) option" where
  "ocf_mngt_set_partition_size s part_id minimum maximum =
     (if minimum > maximum then Some (OCF_ERR_INVAL, s)
      else do {
        count \<leftarrow> ocf_mngt_count_user_parts_min_size s;
        if (count + minimum) mod 2 ^ 64 > PARTITION_SIZE_MAX then Some (OCF_ERR_INVAL, s)
        else do {
          let maximum = (if maximum > PARTITION_SIZE_MAX then PARTITION_SIZE_MAX else maximum);
          Some (OCF_OK, upd_config part_id (\<lambda>c. c\<lparr>min_size := minimum, max_size := maximum\<rparr>) s) } })"

definition ocf_mngt_io_class_configure ::
    "'z user_cache_scheme \<Rightarrow> ocf_mngt_io_class_config \<Rightarrow> string \<Rightarrow> (ocf_error \<times> 'z user_cache_scheme) option" where
  "ocf_mngt_io_class_configure s cfg name = do {
     let part_id = c_class_id cfg;
     let prio = c_prio cfg;
     let minimum = 0;
     let maximum = c_max_size cfg;
     bug_on (\<not> has_device s);
     if \<not> f_added (user_parts s part_id) then Some (OCF_ERR_INVAL, s)
     else if name = [] then Some (OCF_ERR_INVAL, s)
     else if part_id = OCF_IO_CLASS_UNCLASSIFIED \<or> part_id = OCF_IO_CLASS_PREFETCH then
       if take OCF_IO_CLASS_NAME_MAX name \<noteq> take OCF_IO_CLASS_NAME_MAX (cfg_name (user_parts s part_id))
       then Some (OCF_ERR_INVAL, s)
       else do {
         (result, s) \<leftarrow> ocf_mngt_set_partition_size s part_id minimum maximum;
         if result \<noteq> OCF_OK then Some (OCF_ERR_INVAL, s)
         else do {
           let s = ocf_user_part_set_prio s part_id prio;
           Some (OCF_OK, upd_config part_id (\<lambda>c. c\<lparr>cache_mode := c_cache_mode cfg\<rparr>) s) } }
     else do {
       let s = upd_config part_id (\<lambda>c. c\<lparr>cfg_name := env_strncpy OCF_IO_CLASS_NAME_MAX name OCF_IO_CLASS_NAME_MAX\<rparr>) s;
       (result, s) \<leftarrow> ocf_mngt_set_partition_size s part_id minimum maximum;
       if result \<noteq> OCF_OK then Some (OCF_ERR_INVAL, s)
       else do {
         let s = (if f_valid (user_parts s part_id) then s else ocf_user_part_set_valid s part_id True);
         let s = ocf_user_part_set_prio s part_id prio;
         Some (OCF_OK, upd_config part_id (\<lambda>c. c\<lparr>cache_mode := c_cache_mode cfg\<rparr>) s) } } }"

definition ocf_mngt_io_class_remove ::
    "'z user_cache_scheme \<Rightarrow> ocf_mngt_io_class_config \<Rightarrow> 'z user_cache_scheme option" where
  "ocf_mngt_io_class_remove s cfg = do {
     let part_id = c_class_id cfg;
     bug_on (\<not> has_device s);
     if part_id = OCF_IO_CLASS_UNCLASSIFIED then Some s
     else if \<not> f_valid (user_parts s part_id) then Some s
     else Some (ocf_user_part_set_valid s part_id False) }"

definition ocf_mngt_io_class_edit ::
    "'z user_cache_scheme \<Rightarrow> ocf_mngt_io_class_config \<Rightarrow> (ocf_error \<times> 'z user_cache_scheme) option" where
  "ocf_mngt_io_class_edit s cfg = (case c_name cfg of
     Some name \<Rightarrow> ocf_mngt_io_class_configure s cfg name
   | None \<Rightarrow> do { s \<leftarrow> ocf_mngt_io_class_remove s cfg; Some (OCF_OK, s) })"

definition ocf_mngt_io_class_validate_cfg :: "ocf_mngt_io_class_config \<Rightarrow> ocf_error" where
  "ocf_mngt_io_class_validate_cfg cfg =
     (if c_class_id cfg \<ge> OCF_USER_IO_CLASS_MAX then OCF_ERR_INVAL
      else case c_name cfg of None \<Rightarrow> OCF_OK | Some name \<Rightarrow>
        if c_cache_mode cfg < ocf_cache_mode_none \<or> c_cache_mode cfg > ocf_cache_mode_max then OCF_ERR_INVAL
        else if \<not> ocf_user_part_is_name_valid name then OCF_ERR_INVAL
        else if \<not> ocf_user_part_is_prio_valid (c_prio cfg) then OCF_ERR_INVAL
        else if c_max_size cfg > PARTITION_SIZE_MAX then OCF_ERR_INVAL
        else OCF_OK)"

fun validate_loop :: "ocf_mngt_io_class_config list \<Rightarrow> ocf_error" where
  "validate_loop [] = OCF_OK"
| "validate_loop (c # cs) =
     (let result = ocf_mngt_io_class_validate_cfg c in if result \<noteq> OCF_OK then result else validate_loop cs)"

fun edit_loop ::
    "ocf_mngt_io_class_config list \<Rightarrow> 'z user_cache_scheme \<Rightarrow> (ocf_error \<times> 'z user_cache_scheme) option" where
  "edit_loop [] s = Some (OCF_OK, s)"
| "edit_loop (c # cs) s = do {
     (result, s) \<leftarrow> ocf_mngt_io_class_edit s c;
     if result \<noteq> OCF_OK then Some (result, s) else edit_loop cs s }"

text \<open>
  The array \<open>cache->user_parts\<close>, which is saved and restored, has the links of the list and the
  identifiers, but only pointers to the configurations. \<open>mem\<close> says whether the copy can be allocated.
\<close>

definition ocf_mngt_cache_io_classes_configure ::
    "bool \<Rightarrow> 'z user_cache_scheme \<Rightarrow> ocf_mngt_io_class_config list \<Rightarrow> (ocf_error \<times> 'z user_cache_scheme) option" where
  "ocf_mngt_cache_io_classes_configure mem s cfg =
     (if is_standby s then Some (OCF_ERR_CACHE_STANDBY, s)
      else let result = validate_loop cfg in if result \<noteq> OCF_OK then Some (result, s)
      else if \<not> mem then Some (OCF_ERR_NO_MEM, s)
      else do {
        let old_config = (lst_entries s, part_ids s);
        (result, s) \<leftarrow> edit_loop cfg s;
        if result = OCF_OK then do { s \<leftarrow> ocf_user_part_sort s; Some (OCF_OK, s) }
        else Some (result, s\<lparr>lst_entries := fst old_config, part_ids := snd old_config\<rparr>) })"

fun add_inactive :: "nat list \<Rightarrow> 'z user_cache_scheme \<Rightarrow> 'z user_cache_scheme option" where
  "add_inactive [] s = Some s"
| "add_inactive (i # is) s =
     (if i = OCF_IO_CLASS_UNCLASSIFIED \<or> i = OCF_IO_CLASS_PREFETCH then add_inactive is s
      else do {
        (r, s) \<leftarrow> ocf_mngt_add_partition_to_cache s i (Some ''Inactive'') 0 PARTITION_SIZE_MAX 255 False;
        bug_on (r \<noteq> OCF_OK);
        add_inactive is s })"

definition init_partitions :: "'z user_cache_scheme \<Rightarrow> 'z user_cache_scheme option" where
  "init_partitions s = do {
     (r, s) \<leftarrow> ocf_mngt_add_partition_to_cache s OCF_IO_CLASS_UNCLASSIFIED (Some ''unclassified'') 0 PARTITION_SIZE_MAX 255 True;
     bug_on (r \<noteq> OCF_OK);
     (r, s) \<leftarrow> ocf_mngt_add_partition_to_cache s OCF_IO_CLASS_PREFETCH (Some ''prefetch'') 0 PARTITION_SIZE_MAX 255 True;
     bug_on (r \<noteq> OCF_OK);
     add_inactive [0..<OCF_USER_IO_CLASS_MAX] s }"

record ocf_io_class_info =
  i_name :: string
  i_priority :: int
  i_curr_size :: nat
  i_min_size :: nat
  i_max_size :: nat
  i_cache_mode :: int

text \<open>The name is copied into an array of 1023 characters; the cleaning policy is not part of this state.\<close>

definition ocf_cache_io_class_get_info :: "'z user_cache_scheme \<Rightarrow> nat \<Rightarrow> ocf_error + ocf_io_class_info" where
  "ocf_cache_io_class_get_info s io_class =
     (let part_id = io_class mod 2 ^ 16 in
      if is_standby s then Inl OCF_ERR_CACHE_STANDBY
      else if io_class \<ge> OCF_USER_IO_CLASS_MAX then Inl OCF_ERR_INVAL
      else if \<not> f_valid (user_parts s part_id) then Inl OCF_ERR_IO_CLASS_NOT_EXIST
      else Inr \<lparr>i_name = env_strncpy (OCF_IO_CLASS_NAME_MAX - 1) (cfg_name (user_parts s part_id)) OCF_IO_CLASS_NAME_MAX,
        i_priority = priority (user_parts s part_id),
        i_curr_size = (if has_device s then nat (curr_size (cparts (cl s) part_id) mod 2 ^ 32) else 0),
        i_min_size = min_size (user_parts s part_id), i_max_size = max_size (user_parts s part_id),
        i_cache_mode = cache_mode (user_parts s part_id)\<rparr>)"

definition ocf_io_class_visit ::
    "(nat \<Rightarrow> 'v \<Rightarrow> int \<times> 'v) \<Rightarrow> 'z user_cache_scheme \<Rightarrow> 'v \<Rightarrow> (ocf_error + (int \<times> 'v)) option" where
  "ocf_io_class_visit visitor s ctx =
     (if is_standby s then Some (Inl OCF_ERR_CACHE_STANDBY)
      else do {
        (_, _, result, ctx) \<leftarrow> for_each_lst (lst_invalid s + 1)
          (\<lambda>part_id s (result, ctx).
             if \<not> f_valid (user_parts s part_id) then Some (False, s, result, ctx)
             else let (result, ctx) = visitor part_id ctx in Some (result \<noteq> 0, s, result, ctx))
          (ocf_lst_head s) s (0, ctx);
        Some (Inr (result, ctx)) })"

subsection \<open>The order of the partitions\<close>

text \<open>Partitions with a greater value are evicted first, among equal ones the greater identifier.\<close>

definition evict_value :: "'z user_cache_scheme \<Rightarrow> nat \<Rightarrow> int" where
  "evict_value s p = (if f_valid (user_parts s p) then priority (user_parts s p)
     else if cmp_size s p \<noteq> 0 then 32767 else -32768)"

definition evictable :: "'z user_cache_scheme \<Rightarrow> nat \<Rightarrow> bool" where
  "evictable s p \<longleftrightarrow> (if f_valid (user_parts s p) then priority (user_parts s p) \<noteq> OCF_IO_CLASS_PRIO_PINNED
     else cmp_size s p \<noteq> 0)"

definition evict_after :: "'z user_cache_scheme \<Rightarrow> nat \<Rightarrow> nat \<Rightarrow> bool" where
  "evict_after s a b \<longleftrightarrow> evict_value s a < evict_value s b \<or> evict_value s a = evict_value s b \<and> a < b"

definition set_flag :: "nat \<Rightarrow> bool \<Rightarrow> 'z user_cache_scheme \<Rightarrow> 'z user_cache_scheme" where
  "set_flag p v = upd_config p (\<lambda>c. c\<lparr>f_eviction := v\<rparr>)"

lemma upd_config_simps [simp]:
  "user_parts (upd_config p f s) q = (if q = p then f (user_parts s p) else user_parts s q)"
  "lst_entries (upd_config p f s) = lst_entries s" "lst_getter_ok (upd_config p f s) = lst_getter_ok s"
  "lst_invalid (upd_config p f s) = lst_invalid s" "part_ids (upd_config p f s) = part_ids s"
  "valid_parts_no (upd_config p f s) = valid_parts_no s" "has_device (upd_config p f s) = has_device s"
  "is_standby (upd_config p f s) = is_standby s" "cl (upd_config p f s) = cl s"
  "ocf_lst_head (upd_config p f s) = ocf_lst_head s" "cmp_size (upd_config p f s) = cmp_size s"
  "user_cache.more (upd_config p f s) = user_cache.more s"
  by (simp_all add: upd_config_def ocf_lst_head_def cmp_size_def fun_eq_iff)

lemma upd_config_twice [simp]: "upd_config p g (upd_config p f s) = upd_config p (\<lambda>c. g (f c)) s"
  by (simp add: upd_config_def)

lemma cmp_one:
  "cmp_eviction p s = set_flag p (priority (user_parts s p) \<noteq> OCF_IO_CLASS_PRIO_PINNED) s"
  by (simp add: cmp_eviction_def set_flag_def)

lemma set_flag_simps [simp]:
  "user_parts (set_flag p v s) q = (if q = p then (user_parts s p)\<lparr>f_eviction := v\<rparr> else user_parts s q)"
  "cmp_size (set_flag p v s) = cmp_size s" "set_flag p w (set_flag p v s) = set_flag p w s"
  by (simp_all add: set_flag_def upd_config_def cmp_size_def fun_eq_iff)

lemma set_flag_commute: "p \<noteq> q \<Longrightarrow> set_flag p v (set_flag q w s) = set_flag q w (set_flag p v s)"
  by (simp add: set_flag_def upd_config_def fun_upd_twist)

lemma cmp_two:
  "cmp_invalid p (cmp_size s p) v s = (if f_valid (user_parts s p) then (v, s)
     else (if cmp_size s p \<noteq> 0 then 32767 else -32768, set_flag p (cmp_size s p \<noteq> 0) s))"
  by (simp add: cmp_invalid_def set_flag_def)

lemma user_part_cmp_eq:
  "ocf_user_part_lst_cmp_valid s a b =
    (if evict_value s a = evict_value s b then int b - int a else evict_value s b - evict_value s a,
     set_flag b (evictable s b) (set_flag a (evictable s a) s))"
proof (cases "a = b")
  case True
  then show ?thesis
    by (simp add: ocf_user_part_lst_cmp_valid_def cmp_one cmp_invalid_def evict_value_def evictable_def Let_def
       set_flag_def [symmetric])
next
  case False
  then show ?thesis
    by (simp add: ocf_user_part_lst_cmp_valid_def cmp_one cmp_invalid_def evict_value_def evictable_def Let_def
       set_flag_def [symmetric] set_flag_commute [of a b])
qed

definition upto_flags :: "'z user_cache_scheme \<Rightarrow> 'z user_cache_scheme \<Rightarrow> bool" where
  "upto_flags s s' \<longleftrightarrow> (\<forall>p. (user_parts s' p)\<lparr>f_eviction := False\<rparr> = (user_parts s p)\<lparr>f_eviction := False\<rparr>) \<and>
     part_ids s' = part_ids s \<and> valid_parts_no s' = valid_parts_no s \<and> has_device s' = has_device s \<and>
     is_standby s' = is_standby s \<and> cl s' = cl s \<and> user_cache.more s' = user_cache.more s"

lemma upto_flagsD:
  assumes "upto_flags s s'"
  shows "evict_value s' p = evict_value s p" "evictable s' p = evictable s p" "evict_after s' = evict_after s"
proof -
  have *: "f_valid (user_parts s' p) = f_valid (user_parts s p)" "priority (user_parts s' p) = priority (user_parts s p)" for p
  proof -
    have e: "(user_parts s' p)\<lparr>f_eviction := False\<rparr> = (user_parts s p)\<lparr>f_eviction := False\<rparr>"
      using assms by (simp add: upto_flags_def)
    show "f_valid (user_parts s' p) = f_valid (user_parts s p)" "priority (user_parts s' p) = priority (user_parts s p)"
      using arg_cong [OF e, of f_valid] arg_cong [OF e, of priority] by simp_all
  qed
  have "cmp_size s' p = cmp_size s p" for p using assms by (simp add: upto_flags_def cmp_size_def)
  then show "evict_value s' p = evict_value s p" "evictable s' p = evictable s p" "evict_after s' = evict_after s"
    using * by (simp_all add: evict_value_def evictable_def evict_after_def fun_eq_iff)
qed

lemma upto_flags_refl [simp]: "upto_flags s s"
  by (simp add: upto_flags_def)

interpretation part_order: lst_order ocf_user_part_lst_cmp_valid "evict_after s0" "upto_flags s0"
  "\<lambda>p s. f_eviction (user_parts s p) = evictable s p" for s0 :: "'z user_cache_scheme"
proof
  fix s :: "'z user_cache_scheme" and a b x e
  assume i: "upto_flags s0 s"
  show "0 < fst (ocf_user_part_lst_cmp_valid s a b) \<longleftrightarrow> evict_after s0 a b"
    unfolding user_part_cmp_eq upto_flagsD(3) [OF i, symmetric] by (auto simp: evict_after_def)
  show "upto_flags s0 (snd (ocf_user_part_lst_cmp_valid s a b))"
    using i by (auto simp: user_part_cmp_eq upto_flags_def set_flag_def)
next
  fix s :: "'z user_cache_scheme" and a b x e
  show "same_lst s (snd (ocf_user_part_lst_cmp_valid s a b))"
    by (simp add: user_part_cmp_eq same_lst_def set_flag_def)
  show "f_eviction (user_parts (snd (ocf_user_part_lst_cmp_valid s a b)) x) =
     evictable (snd (ocf_user_part_lst_cmp_valid s a b)) x \<longleftrightarrow>
     f_eviction (user_parts s x) = evictable s x \<or> x = a \<or> x = b"
    by (auto simp: user_part_cmp_eq evictable_def)
  show "upto_flags s0 (s\<lparr>lst_entries := e\<rparr>) = upto_flags s0 s" by (simp add: upto_flags_def)
  show "f_eviction (user_parts (s\<lparr>lst_entries := e\<rparr>) x) = evictable (s\<lparr>lst_entries := e\<rparr>) x \<longleftrightarrow>
    f_eviction (user_parts s x) = evictable s x" by (simp add: evictable_def cmp_size_def)
qed

lemma mset_lst_insert: "mset (lst_insert gt x ys) = add_mset x (mset ys)"
  by (rule lst_insert_split [of gt x ys]) auto

lemma fold_insert_sorted:
  assumes "\<And>a b c. \<not> gt a b \<Longrightarrow> \<not> gt b c \<Longrightarrow> \<not> gt a c" "\<And>a b. gt a b \<Longrightarrow> \<not> gt b a"
    "sorted_wrt (\<lambda>a b. \<not> gt a b) ys"
  shows "sorted_wrt (\<lambda>a b. \<not> gt a b) (fold (lst_insert gt) xs ys)" "mset (fold (lst_insert gt) xs ys) = mset xs + mset ys"
  using assms(3) sorted_lst_insert [of gt, OF assms(1,2)]
  by (induction xs arbitrary: ys) (simp_all add: mset_lst_insert)

lemma sorted_wrt_distinct:
  "sorted_wrt P xs \<Longrightarrow> distinct xs \<Longrightarrow> (\<And>a b. a \<noteq> b \<Longrightarrow> P a b \<Longrightarrow> Q a b) \<Longrightarrow> sorted_wrt Q xs"
proof (induction xs)
  case (Cons a xs)
  have "Q a b" if "b \<in> set xs" for b using Cons.prems(1,2) that by (intro Cons.prems(3)) auto
  with Cons show ?case by auto
qed simp

lemma user_part_sort_spec:
  assumes "lst_rep s xs"
  obtains s' ys where "ocf_user_part_sort s = Some s'" "lst_rep s' ys" "mset ys = mset xs"
    "sorted_wrt (\<lambda>a b. evict_after s b a) ys" "upto_flags s s'" "lst_invalid s' = lst_invalid s"
    "2 \<le> length xs \<longrightarrow> (\<forall>p \<in> set xs. f_eviction (user_parts s' p) = evictable s p)"
proof -
  let ?ys = "fold (lst_insert (evict_after s)) xs []"
  have trans_after: "\<not> evict_after s a b \<Longrightarrow> \<not> evict_after s b c \<Longrightarrow> \<not> evict_after s a c"
    and asym_after: "evict_after s a b \<Longrightarrow> \<not> evict_after s b a" for a b c
    unfolding evict_after_def by linarith+
  obtain s' where s': "ocf_lst_sort (Some ocf_user_part_lst_cmp_valid) s = Some s'" "lst_rep s' ?ys" "upto_flags s s'"
    "part_order.all_seen s' xs" "lst_invalid s' = lst_invalid s"
    by (rule part_order.sort_spec [OF assms, of s]) auto
  have srt: "sorted_wrt (\<lambda>a b. \<not> evict_after s a b) ?ys" "mset ?ys = mset xs"
    using fold_insert_sorted [of "evict_after s" "[]" xs, OF trans_after asym_after] by simp_all
  have "distinct ?ys" using s'(2) by (simp add: lst_rep_def lst_links_def)
  then have "sorted_wrt (\<lambda>a b. evict_after s b a) ?ys"
    by (rule sorted_wrt_distinct [OF srt(1)]) (auto simp: evict_after_def)
  with s' srt show ?thesis using that [of s' ?ys] upto_flagsD(2) [OF s'(3)]
    by (auto simp: ocf_user_part_sort_def part_order.all_seen_def)
qed

subsection \<open>Well-formed configurations\<close>

definition config_ok :: "ocf_user_part_config \<Rightarrow> bool" where
  "config_ok c \<longleftrightarrow> min_size c = 0 \<and> max_size c \<le> PARTITION_SIZE_MAX \<and>
     OCF_IO_CLASS_PRIO_PINNED \<le> priority c \<and> priority c \<le> OCF_IO_CLASS_PRIO_LOWEST \<and>
     length (cfg_name c) < OCF_IO_CLASS_NAME_MAX \<and> ocf_cache_mode_none \<le> cache_mode c \<and> cache_mode c \<le> ocf_cache_mode_max"

definition valid_parts :: "(nat \<Rightarrow> ocf_user_part_config) \<Rightarrow> nat set" where
  "valid_parts conf = {p. p < OCF_USER_IO_CLASS_MAX \<and> f_valid (conf p)}"

definition parts_on :: "nat set \<Rightarrow> 'z user_cache_scheme \<Rightarrow> bool" where
  "parts_on A s \<longleftrightarrow> lst_invalid s = OCF_USER_IO_CLASS_MAX \<and> (\<exists>xs. lst_rep s xs \<and> set xs = A) \<and>
     (\<forall>p \<in> A. config_ok (user_parts s p) \<and> f_added (user_parts s p)) \<and>
     valid_parts_no s = card (valid_parts (user_parts s)) \<and> valid_parts (user_parts s) \<subseteq> A"

definition parts_ok :: "'z user_cache_scheme \<Rightarrow> bool" where
  "parts_ok s \<longleftrightarrow> parts_on {..<OCF_USER_IO_CLASS_MAX} s \<and>
     f_valid (user_parts s OCF_IO_CLASS_UNCLASSIFIED) \<and> cfg_name (user_parts s OCF_IO_CLASS_UNCLASSIFIED) = ''unclassified''"

lemma parts_ok_device [simp]: "parts_ok (s\<lparr>has_device := b\<rparr>) = parts_ok s"
  by (simp add: parts_ok_def parts_on_def lst_rep_def lst_links_def off_list_def OCF_LST_ENTRY_OUT_def)

text \<open>When a requested configuration is valid, and what one entry of it does to the configurations.\<close>

definition name_char :: "char \<Rightarrow> bool" where
  "name_char x \<longleftrightarrow> 32 \<le> (of_char x :: nat) \<and> (of_char x :: nat) \<le> 126 \<and> x \<noteq> CHR '','' \<and> x \<noteq> CHR 0x22"

definition cfg_valid :: "ocf_mngt_io_class_config \<Rightarrow> bool" where
  "cfg_valid c \<longleftrightarrow> c_class_id c < OCF_USER_IO_CLASS_MAX \<and> (\<forall>n. c_name c = Some n \<longrightarrow>
     ocf_cache_mode_none \<le> c_cache_mode c \<and> c_cache_mode c \<le> ocf_cache_mode_max \<and> length n < OCF_IO_CLASS_NAME_MAX \<and>
     (\<forall>x \<in> set n. name_char x) \<and>
     OCF_IO_CLASS_PRIO_PINNED \<le> c_prio c \<and> c_prio c \<le> OCF_IO_CLASS_PRIO_LOWEST \<and> c_max_size c \<le> PARTITION_SIZE_MAX)"

definition inactive :: "ocf_user_part_config \<Rightarrow> ocf_user_part_config" where
  "inactive c = c\<lparr>f_valid := False, priority := OCF_IO_CLASS_PRIO_LOWEST, min_size := 0,
     max_size := PARTITION_SIZE_MAX, cfg_name := ''Inactive''\<rparr>"

definition spec_edit ::
    "ocf_mngt_io_class_config \<Rightarrow> (nat \<Rightarrow> ocf_user_part_config) \<Rightarrow> (nat \<Rightarrow> ocf_user_part_config) option" where
  "spec_edit c conf = (let p = c_class_id c in case c_name c of
     None \<Rightarrow> Some (if p = OCF_IO_CLASS_UNCLASSIFIED \<or> \<not> f_valid (conf p) then conf else conf(p := inactive (conf p)))
   | Some n \<Rightarrow>
       if n = [] \<or> p \<in> {OCF_IO_CLASS_UNCLASSIFIED, OCF_IO_CLASS_PREFETCH} \<and> n \<noteq> cfg_name (conf p) then None
       else Some (conf(p := (conf p)\<lparr>cfg_name := n, min_size := 0, max_size := c_max_size c,
         f_valid := (if p \<in> {OCF_IO_CLASS_UNCLASSIFIED, OCF_IO_CLASS_PREFETCH} then f_valid (conf p) else True),
         priority := c_prio c, cache_mode := c_cache_mode c\<rparr>)))"

lemma name_valid_loop_eq:
  "name_valid_loop n k \<longleftrightarrow> (n \<noteq> [] \<longrightarrow> k + length n < OCF_IO_CLASS_NAME_MAX) \<and>
    (\<forall>x \<in> set n. name_char x)"
proof (induction n arbitrary: k)
  case (Cons c n)
  have "name_valid_loop (c # n) k \<longleftrightarrow> name_char c \<and> k + 1 < OCF_IO_CLASS_NAME_MAX \<and> name_valid_loop n (k + 1)"
    unfolding name_valid_loop.simps name_char_def by (simp only: linorder_not_less [symmetric] if_bool_eq_conj) blast
  with Cons show ?case by (cases n) auto
qed simp

lemma validate_cfg_eq:
  "ocf_mngt_io_class_validate_cfg c = (if cfg_valid c then OCF_OK else OCF_ERR_INVAL)"
proof (cases "c_name c")
  case None
  then show ?thesis by (simp add: ocf_mngt_io_class_validate_cfg_def cfg_valid_def)
next
  case (Some n)
  have "ocf_user_part_is_name_valid n \<longleftrightarrow> length n < OCF_IO_CLASS_NAME_MAX \<and>
    (\<forall>x \<in> set n. name_char x)"
    unfolding ocf_user_part_is_name_valid_def name_valid_loop_eq by (cases n) auto
  moreover have "ocf_user_part_is_prio_valid (c_prio c) \<longleftrightarrow> -1 \<le> c_prio c \<and> c_prio c \<le> 255"
    by (auto simp: ocf_user_part_is_prio_valid_def)
  ultimately show ?thesis using Some
    by (simp add: ocf_mngt_io_class_validate_cfg_def cfg_valid_def)
qed

lemma validate_loop_eq: "validate_loop cs = (if \<forall>c \<in> set cs. cfg_valid c then OCF_OK else OCF_ERR_INVAL)"
  by (induction cs) (simp_all add: validate_cfg_eq Let_def)

text \<open>Changes of one configuration keep the invariant.\<close>

lemma lst_rep_more [simp]:
  "lst_rep (s\<lparr>user_parts := u\<rparr>) xs = lst_rep s xs" "lst_rep (s\<lparr>valid_parts_no := n\<rparr>) xs = lst_rep s xs"
  "lst_rep (upd_config p f s) xs = lst_rep s xs" "lst_rep (s\<lparr>has_device := b\<rparr>) xs = lst_rep s xs"
  "lst_rep (s\<lparr>part_ids := is\<rparr>) xs = lst_rep s xs"
  by (simp_all add: lst_rep_def lst_links_def off_list_def OCF_LST_ENTRY_OUT_def)

definition reconfigured :: "(nat \<Rightarrow> ocf_user_part_config) \<Rightarrow> 'z user_cache_scheme \<Rightarrow> 'z user_cache_scheme" where
  "reconfigured conf s = s\<lparr>user_parts := conf, valid_parts_no := card (valid_parts conf)\<rparr>"

lemma card_valid_parts:
  fixes p :: nat
  shows "p < OCF_USER_IO_CLASS_MAX \<Longrightarrow> \<not> f_valid (conf p) \<Longrightarrow> f_valid c \<Longrightarrow>
     inc32 (card (valid_parts conf)) = card (valid_parts (conf(p := c)))"
  "p < OCF_USER_IO_CLASS_MAX \<Longrightarrow> f_valid (conf p) \<Longrightarrow> \<not> f_valid c \<Longrightarrow>
     dec32 (card (valid_parts conf)) = card (valid_parts (conf(p := c)))"
  "p = p \<Longrightarrow> f_valid (conf p) = f_valid c \<Longrightarrow> valid_parts (conf(p := c)) = valid_parts conf"
proof -
  have fin: "finite (valid_parts conf)" and le: "card (valid_parts conf) \<le> 34" for conf
    using card_mono [of "{..<34}" "valid_parts conf"] finite_subset [of "valid_parts conf" "{..<34}"]
    by (auto simp: valid_parts_def)
  {
    assume "p < 34" "\<not> f_valid (conf p)" "f_valid c"
    then have "valid_parts (conf(p := c)) = insert p (valid_parts conf)" "p \<notin> valid_parts conf"
      by (auto simp: valid_parts_def)
    then show "inc32 (card (valid_parts conf)) = card (valid_parts (conf(p := c)))"
      using fin [of conf] le [of conf] by (simp add: inc32_eq)
  }
  {
    assume "p < 34" "f_valid (conf p)" "\<not> f_valid c"
    then have "valid_parts conf = insert p (valid_parts (conf(p := c)))" "p \<notin> valid_parts (conf(p := c))"
      by (auto simp: valid_parts_def)
    then show "dec32 (card (valid_parts conf)) = card (valid_parts (conf(p := c)))"
      using fin [of "conf(p := c)"] le [of conf] by (simp add: dec32_Suc)
  }
  show "p = p \<Longrightarrow> f_valid (conf p) = f_valid c \<Longrightarrow> valid_parts (conf(p := c)) = valid_parts conf"
    by (auto simp: valid_parts_def)
qed

lemma set_valid_eq:
  assumes "p < OCF_USER_IO_CLASS_MAX" "valid_parts_no s = card (valid_parts (user_parts s))"
  shows "\<not> f_valid (user_parts s p) \<Longrightarrow>
     ocf_user_part_set_valid s p True = reconfigured ((user_parts s)(p := (user_parts s p)\<lparr>f_valid := True\<rparr>)) s"
    "f_valid (user_parts s p) \<Longrightarrow>
     ocf_user_part_set_valid s p False = reconfigured ((user_parts s)(p := inactive (user_parts s p))) s"
  using assms card_valid_parts [of p "user_parts s" "(user_parts s p)\<lparr>f_valid := True\<rparr>"]
    card_valid_parts [of p "user_parts s" "inactive (user_parts s p)"]
  by (auto simp: ocf_user_part_set_valid_def reconfigured_def upd_config_def inactive_def)

lemma parts_onD:
  assumes "parts_on A s"
  obtains xs where "lst_rep s xs" "lst_links s xs" "set xs = A" "distinct xs" "length xs \<le> lst_invalid s"
    "ocf_lst_head s = first (lst_invalid s) xs" "lst_invalid s = OCF_USER_IO_CLASS_MAX"
proof -
  obtain xs where xs: "lst_rep s xs" "set xs = A" and v: "lst_invalid s = OCF_USER_IO_CLASS_MAX"
    using assms unfolding parts_on_def by blast
  then have l: "lst_links s xs" by (simp add: lst_rep_def)
  show ?thesis
    by (rule that [OF xs(1) l xs(2) _ links_length [OF l] _ v])
       (use l in \<open>auto simp: lst_links_def ocf_lst_head_def\<close>)
qed

lemma count_min_size:
  assumes "parts_on A s"
  shows "ocf_mngt_count_user_parts_min_size s = Some 0"
proof -
  obtain xs where xs: "lst_links s xs" "set xs = A" "length xs \<le> lst_invalid s" "ocf_lst_head s = first (lst_invalid s) xs"
    using assms by (rule parts_onD)
  let ?f = "\<lambda>p count. if f_valid (user_parts s p) then (count + min_size (user_parts s p)) mod 2 ^ 64 else count"
  have "fold ?f ys 0 = 0" if "set ys \<subseteq> A" for ys
    using that assms by (induction ys) (auto simp: parts_on_def config_ok_def)
  with for_each_fold [of s "[]" xs "lst_invalid s + 1" _ ?f 0] xs show ?thesis
    by (simp add: ocf_mngt_count_user_parts_min_size_def del: for_each_lst.simps)
qed

lemma reconfigured_simps [simp]:
  "user_parts (reconfigured conf s) = conf" "lst_entries (reconfigured conf s) = lst_entries s"
  "lst_invalid (reconfigured conf s) = lst_invalid s" "cl (reconfigured conf s) = cl s"
  "has_device (reconfigured conf s) = has_device s" "is_standby (reconfigured conf s) = is_standby s"
  "part_ids (reconfigured conf s) = part_ids s" "valid_parts_no (reconfigured conf s) = card (valid_parts conf)"
  "lst_rep (reconfigured conf s) xs = lst_rep s xs" "reconfigured conf (reconfigured conf' s) = reconfigured conf s"
  by (simp_all add: reconfigured_def)

lemma reconfigured_id: "valid_parts_no s = card (valid_parts (user_parts s)) \<Longrightarrow> reconfigured (user_parts s) s = s"
  by (simp add: reconfigured_def)

lemma valid_parts_upd:
  "(\<And>c. f_valid (f c) = f_valid c) \<Longrightarrow> valid_parts (user_parts (upd_config p f s)) = valid_parts (user_parts s)"
  by (auto simp: valid_parts_def)

lemma upd_reconfigured:
  assumes "valid_parts_no s = card (valid_parts (user_parts s))" "\<And>c. f_valid (f c) = f_valid c"
  shows "upd_config p f s = reconfigured ((user_parts s)(p := f (user_parts s p))) s"
proof -
  have "valid_parts ((user_parts s)(p := f (user_parts s p))) = valid_parts (user_parts s)"
    using assms(2) by (auto simp: valid_parts_def)
  then show ?thesis using assms(1) by (simp add: upd_config_def reconfigured_def)
qed

lemma parts_ok_reconfigured:
  assumes "parts_ok s" "\<forall>p < OCF_USER_IO_CLASS_MAX. config_ok (conf p) \<and> f_added (conf p)"
    "f_valid (conf 0)" "cfg_name (conf 0) = ''unclassified''"
  shows "parts_ok (reconfigured conf s)"
  using assms by (auto simp: parts_ok_def parts_on_def valid_parts_def)

lemma spec_edit_ok:
  assumes ok: "parts_ok s" "cfg_valid c" and e: "spec_edit c (user_parts s) = Some conf"
  shows "parts_ok (reconfigured conf s)"
proof (rule parts_ok_reconfigured [OF ok(1)])
  let ?p = "c_class_id c"
  have co: "\<And>p. p < 34 \<Longrightarrow> config_ok (user_parts s p) \<and> f_added (user_parts s p)"
    and z: "f_valid (user_parts s 0)" "cfg_name (user_parts s 0) = ''unclassified''"
    using ok(1) by (auto simp: parts_ok_def parts_on_def)
  have cv: "c_name c = Some n \<Longrightarrow> -1 \<le> c_cache_mode c \<and> c_cache_mode c \<le> 6 \<and> length n < 1024 \<and> -1 \<le> c_prio c \<and>
      c_prio c \<le> 255 \<and> c_max_size c \<le> 100" for n
    using ok(2) by (auto simp: cfg_valid_def)
  show "\<forall>p < 34. config_ok (conf p) \<and> f_added (conf p)"
    using e co cv by (auto simp: spec_edit_def Let_def inactive_def config_ok_def split: option.splits if_splits)
  show "f_valid (conf 0)" "cfg_name (conf 0) = ''unclassified''"
    using e z by (auto simp: spec_edit_def Let_def inactive_def split: option.splits if_splits)
qed

lemma set_size_eq:
  assumes "parts_on A s" "m \<le> PARTITION_SIZE_MAX"
  shows "ocf_mngt_set_partition_size s p 0 m = Some (OCF_OK, upd_config p (\<lambda>c. c\<lparr>min_size := 0, max_size := m\<rparr>) s)"
  using count_min_size [OF assms(1)] assms(2) by (simp add: ocf_mngt_set_partition_size_def)

lemma set_prio_eq: "ocf_user_part_set_prio s p v = upd_config p (\<lambda>c. c\<lparr>priority := v\<rparr>) s"
proof (cases "priority (user_parts s p) = v")
  case True
  show ?thesis unfolding True [symmetric] by (simp add: ocf_user_part_set_prio_def upd_config_def)
qed (simp add: ocf_user_part_set_prio_def)

lemma edit_spec:
  assumes ok: "parts_ok s" "has_device s" "cfg_valid c"
  shows "ocf_mngt_io_class_edit s c = (case spec_edit c (user_parts s) of
     None \<Rightarrow> Some (OCF_ERR_INVAL, s) | Some conf \<Rightarrow> Some (OCF_OK, reconfigured conf s))"
proof (cases "c_name c")
  case None
  have p: "c_class_id c < 34" using ok(3) by (simp add: cfg_valid_def)
  have n: "valid_parts_no s = card (valid_parts (user_parts s))" using ok(1) by (simp add: parts_ok_def parts_on_def)
  show ?thesis using None set_valid_eq(2) [OF p n] reconfigured_id [OF n] ok(2)
    by (simp add: ocf_mngt_io_class_edit_def spec_edit_def ocf_mngt_io_class_remove_def Let_def)
next
  case (Some nm)
  let ?p = "c_class_id c"
  let ?m = "\<lambda>c'. c'\<lparr>min_size := 0, max_size := c_max_size c\<rparr>"
  let ?fin = "\<lambda>t. upd_config ?p (\<lambda>c'. c'\<lparr>cache_mode := c_cache_mode c\<rparr>) (ocf_user_part_set_prio t ?p (c_prio c))"
  have p: "?p < 34" "length nm < 1024" "c_max_size c \<le> 100" using ok(3) Some by (auto simp: cfg_valid_def)
  have on: "parts_on {..<34} s" using ok(1) by (simp add: parts_ok_def)
  have n: "valid_parts_no s = card (valid_parts (user_parts s))" and a: "f_added (user_parts s ?p)"
    "length (cfg_name (user_parts s ?p)) < 1024"
    using on p by (auto simp: parts_on_def config_ok_def)
  have fin: "?fin t = upd_config ?p (\<lambda>c'. c'\<lparr>priority := c_prio c, cache_mode := c_cache_mode c\<rparr>) t"
    for t :: "'a user_cache_scheme"
    by (simp add: set_prio_eq)
  show ?thesis
  proof (cases "nm = [] \<or> ?p \<in> {0, 33}")
    case True
    have cp: "upd_config ?p (\<lambda>c'. c'\<lparr>priority := c_prio c, cache_mode := c_cache_mode c\<rparr>) (upd_config ?p ?m s) =
       reconfigured ((user_parts s)(?p := ((user_parts s ?p)\<lparr>cfg_name := cfg_name (user_parts s ?p), min_size := 0,
         max_size := c_max_size c, f_valid := f_valid (user_parts s ?p), priority := c_prio c, cache_mode := c_cache_mode c\<rparr>))) s"
      unfolding upd_config_twice by (subst upd_reconfigured [OF n]) simp_all
    show ?thesis
      using True Some a p ok(2) fin cp set_size_eq [OF on p(3), of ?p]
      by (auto simp: ocf_mngt_io_class_edit_def ocf_mngt_io_class_configure_def spec_edit_def Let_def)
  next
    case False
    let ?s = "upd_config ?p (\<lambda>c'. c'\<lparr>cfg_name := nm\<rparr>) s"
    have "parts_on {..<34} ?s"
      using on p valid_parts_upd [of "\<lambda>c'. c'\<lparr>cfg_name := nm\<rparr>" ?p s] by (auto simp: parts_on_def config_ok_def)
    note sz = set_size_eq [OF this p(3), of ?p]
    let ?t = "upd_config ?p (\<lambda>c'. c'\<lparr>cfg_name := nm, min_size := 0, max_size := c_max_size c\<rparr>) s"
    have nt: "valid_parts_no ?t = card (valid_parts (user_parts ?t))"
      using n valid_parts_upd [of "\<lambda>c'. c'\<lparr>cfg_name := nm, min_size := 0, max_size := c_max_size c\<rparr>" ?p s] by simp
    let ?u = "if f_valid (user_parts ?t ?p) then ?t else ocf_user_part_set_valid ?t ?p True"
    have fv: "f_valid (user_parts s ?p) \<Longrightarrow> (user_parts s ?p)\<lparr>cfg_name := nm, min_size := 0, max_size := c_max_size c,
         f_valid := True\<rparr> = (user_parts s ?p)\<lparr>cfg_name := nm, min_size := 0, max_size := c_max_size c\<rparr>"
      by (cases "user_parts s ?p") simp
    have u: "?u = reconfigured ((user_parts s)(?p := (user_parts s ?p)\<lparr>cfg_name := nm, min_size := 0,
         max_size := c_max_size c, f_valid := True\<rparr>)) s"
    proof (cases "f_valid (user_parts s ?p)")
      case True
      show ?thesis unfolding fv [OF True]
        using True upd_reconfigured [OF n, of "\<lambda>c'. c'\<lparr>cfg_name := nm, min_size := 0, max_size := c_max_size c\<rparr>" ?p] by simp
    next
      case False
      then show ?thesis using set_valid_eq(1) [OF p(1) nt]
          upd_reconfigured [OF n, of "\<lambda>c'. c'\<lparr>cfg_name := nm, min_size := 0, max_size := c_max_size c\<rparr>" ?p] by simp
    qed
    have "valid_parts_no ?u = card (valid_parts (user_parts ?u))" unfolding u by simp
    note fu = upd_reconfigured [OF this, of "\<lambda>c'. c'\<lparr>priority := c_prio c, cache_mode := c_cache_mode c\<rparr>" ?p]
    have "?fin ?u = reconfigured ((user_parts s)(?p := (user_parts s ?p)\<lparr>cfg_name := nm, min_size := 0,
         max_size := c_max_size c, f_valid := True, priority := c_prio c, cache_mode := c_cache_mode c\<rparr>)) s"
      unfolding fin by (subst fu, simp) (unfold u, simp)
    then show ?thesis
      using False Some a p ok(2) sz
      by (simp add: ocf_mngt_io_class_edit_def ocf_mngt_io_class_configure_def spec_edit_def Let_def env_strncpy_def)
  qed
qed

subsection \<open>Configuring the io classes\<close>

fun spec_edits :: "ocf_mngt_io_class_config list \<Rightarrow> (nat \<Rightarrow> ocf_user_part_config) \<Rightarrow> (nat \<Rightarrow> ocf_user_part_config) \<times> bool" where
  "spec_edits [] conf = (conf, True)"
| "spec_edits (c # cs) conf = (case spec_edit c conf of None \<Rightarrow> (conf, False) | Some conf \<Rightarrow> spec_edits cs conf)"

definition parts_sorted :: "'z user_cache_scheme \<Rightarrow> bool" where
  "parts_sorted s \<longleftrightarrow> (\<exists>xs. lst_rep s xs \<and> set xs = {..<OCF_USER_IO_CLASS_MAX} \<and> sorted_wrt (\<lambda>a b. evict_after s b a) xs) \<and>
     (\<forall>p < OCF_USER_IO_CLASS_MAX. f_eviction (user_parts s p) = evictable s p)"

lemma upto_flags_config:
  assumes "upto_flags s s'"
  shows "config_ok (user_parts s' p) = config_ok (user_parts s p)" "f_added (user_parts s' p) = f_added (user_parts s p)"
    "f_valid (user_parts s' p) = f_valid (user_parts s p)" "cfg_name (user_parts s' p) = cfg_name (user_parts s p)"
    "valid_parts (user_parts s') = valid_parts (user_parts s)"
proof -
  have e: "(user_parts s' p)\<lparr>f_eviction := False\<rparr> = (user_parts s p)\<lparr>f_eviction := False\<rparr>" for p
    using assms by (simp add: upto_flags_def)
  show "config_ok (user_parts s' p) = config_ok (user_parts s p)"
    using arg_cong [OF e [of p], of config_ok] by (simp add: config_ok_def)
  show "f_added (user_parts s' p) = f_added (user_parts s p)" "cfg_name (user_parts s' p) = cfg_name (user_parts s p)"
    using arg_cong [OF e [of p], of f_added] arg_cong [OF e [of p], of cfg_name] by simp_all
  have v: "f_valid (user_parts s' p) = f_valid (user_parts s p)" for p
    using arg_cong [OF e [of p], of f_valid] by simp
  then show "f_valid (user_parts s' p) = f_valid (user_parts s p)" "valid_parts (user_parts s') = valid_parts (user_parts s)"
    by (simp_all add: valid_parts_def)
qed

lemma sort_parts_on:
  assumes "parts_on A s"
  obtains s' ys where "ocf_user_part_sort s = Some s'" "parts_on A s'" "upto_flags s s'" "lst_rep s' ys" "set ys = A"
    "sorted_wrt (\<lambda>a b. evict_after s' b a) ys"
    "2 \<le> card A \<longrightarrow> (\<forall>p \<in> A. f_eviction (user_parts s' p) = evictable s' p)"
proof -
  obtain xs where xs: "lst_rep s xs" "set xs = A" "distinct xs" using assms by (rule parts_onD)
  obtain s' ys where s': "ocf_user_part_sort s = Some s'" "lst_rep s' ys" "mset ys = mset xs"
    "sorted_wrt (\<lambda>a b. evict_after s b a) ys" "upto_flags s s'" "lst_invalid s' = lst_invalid s"
    "2 \<le> length xs \<longrightarrow> (\<forall>p \<in> set xs. f_eviction (user_parts s' p) = evictable s p)"
    using xs(1) by (rule user_part_sort_spec)
  have ys: "set ys = A" using s'(3) xs(2) by (metis set_mset_mset)
  have "parts_on A s'"
    using assms s'(2,6) ys upto_flags_config [OF s'(5)] s'(5)
    unfolding parts_on_def by (auto simp: upto_flags_def)
  with s' ys xs show ?thesis using that [of s' ys] upto_flagsD [OF s'(5)] distinct_card [OF xs(3)] by simp
qed

lemma edit_loop_spec:
  assumes "parts_ok s" "has_device s" "\<forall>c \<in> set cs. cfg_valid c" "spec_edits cs (user_parts s) = (conf, fin)"
  shows "edit_loop cs s = Some (if fin then OCF_OK else OCF_ERR_INVAL, reconfigured conf s) \<and> parts_ok (reconfigured conf s)"
  using assms
proof (induction cs arbitrary: s)
  case Nil
  then show ?case using reconfigured_id [of s] by (auto simp: parts_ok_def parts_on_def)
next
  case (Cons c cs)
  have n: "valid_parts_no s = card (valid_parts (user_parts s))" using Cons.prems(1) by (simp add: parts_ok_def parts_on_def)
  note e = edit_spec [OF Cons.prems(1,2), of c]
  show ?case
  proof (cases "spec_edit c (user_parts s)")
    case None
    then show ?thesis using e Cons.prems reconfigured_id [OF n] by auto
  next
    case (Some conf')
    then show ?thesis
      using e Cons.prems Cons.IH [of "reconfigured conf' s"] spec_edit_ok [OF Cons.prems(1), of c conf'] by simp
  qed
qed

lemma reconfigured_restore:
  "(reconfigured conf s)\<lparr>lst_entries := lst_entries s, part_ids := part_ids s\<rparr> = reconfigured conf s"
  by (simp add: reconfigured_def)

lemma configure_spec:
  assumes ok: "parts_ok s" "has_device s" and e: "spec_edits cfg (user_parts s) = (conf, fin)"
  shows "\<exists>r s'. ocf_mngt_cache_io_classes_configure mem s cfg = Some (r, s') \<and> parts_ok s' \<and>
    r = (if is_standby s then OCF_ERR_CACHE_STANDBY else if \<not> (\<forall>c \<in> set cfg. cfg_valid c) then OCF_ERR_INVAL
         else if \<not> mem then OCF_ERR_NO_MEM else if \<not> fin then OCF_ERR_INVAL else OCF_OK) \<and>
    (if r = OCF_OK then upto_flags (reconfigured conf s) s' \<and> parts_sorted s'
     else if \<not> is_standby s \<and> (\<forall>c \<in> set cfg. cfg_valid c) \<and> mem then s' = reconfigured conf s
     else s' = s)"
proof (cases "\<not> is_standby s \<and> (\<forall>c \<in> set cfg. cfg_valid c) \<and> mem")
  case True
  note l = edit_loop_spec [OF ok _ e]
  show ?thesis
  proof (cases fin)
    case fin: True
    have "parts_on {..<34} (reconfigured conf s)" using l True by (simp add: parts_ok_def)
    then obtain s' ys where s': "ocf_user_part_sort (reconfigured conf s) = Some s'" "parts_on {..<34} s'"
      "upto_flags (reconfigured conf s) s'" "lst_rep s' ys" "set ys = {..<34}"
      "sorted_wrt (\<lambda>a b. evict_after s' b a) ys" "\<forall>p \<in> {..<34}. f_eviction (user_parts s' p) = evictable s' p"
      by (rule sort_parts_on) auto
    have "parts_ok s'" using s'(2) upto_flags_config(3,4) [OF s'(3), of 0] l True by (simp add: parts_ok_def)
    moreover have "parts_sorted s'" using s' by (auto simp: parts_sorted_def)
    ultimately show ?thesis using s' fin l True
      by (simp add: ocf_mngt_cache_io_classes_configure_def validate_loop_eq Let_def)
  next
    case False
    then show ?thesis using l True
      by (simp add: ocf_mngt_cache_io_classes_configure_def validate_loop_eq Let_def reconfigured_restore)
  qed
next
  case False
  then show ?thesis using ok
    by (auto simp: ocf_mngt_cache_io_classes_configure_def validate_loop_eq Let_def)
qed

subsection \<open>Initialisation\<close>

lemma linked_user [simp]:
  "user_parts (linked x as bs s) = user_parts s" "valid_parts_no (linked x as bs s) = valid_parts_no s"
  "has_device (linked x as bs s) = has_device s" "is_standby (linked x as bs s) = is_standby s" "cl (linked x as bs s) = cl s"
  by (simp_all add: linked_def upd_entry_def)

definition kept :: "nat set \<Rightarrow> 'z user_cache_scheme \<Rightarrow> 'z user_cache_scheme \<Rightarrow> bool" where
  "kept A s s' \<longleftrightarrow> (\<forall>q. q \<notin> A \<longrightarrow> (user_parts s' q)\<lparr>f_eviction := False\<rparr> = (user_parts s q)\<lparr>f_eviction := False\<rparr>) \<and>
     has_device s' = has_device s \<and> is_standby s' = is_standby s \<and> cl s' = cl s"

lemma keptD: "kept A s s' \<Longrightarrow> q \<notin> A \<Longrightarrow> f_valid (user_parts s' q) = f_valid (user_parts s q) \<and>
   cfg_name (user_parts s' q) = cfg_name (user_parts s q)"
proof -
  assume "kept A s s'" "q \<notin> A"
  then have e: "(user_parts s' q)\<lparr>f_eviction := False\<rparr> = (user_parts s q)\<lparr>f_eviction := False\<rparr>" by (simp add: kept_def)
  show ?thesis using arg_cong [OF e, of f_valid] arg_cong [OF e, of cfg_name] by simp
qed

lemma kept_trans: "kept A s s' \<Longrightarrow> kept B s' s'' \<Longrightarrow> kept (A \<union> B) s s''"
  by (simp add: kept_def)

lemma part_on_list_no: "parts_on A s \<Longrightarrow> p \<notin> A \<Longrightarrow> part_on_list p s = Some False"
proof -
  assume a: "parts_on A s" "p \<notin> A"
  obtain xs where xs: "lst_links s xs" "set xs = A" "length xs \<le> lst_invalid s" "ocf_lst_head s = first (lst_invalid s) xs"
    using a(1) by (rule parts_onD)
  have "for_each_lst (lst_invalid s + 1)
        (\<lambda>iter_id s found. if iter_id = p then Some (True, s, True) else Some (False, s, found))
        (first (lst_invalid s) xs) s False = Some (lst_invalid s, s, fold (\<lambda>_ a. a) xs False)"
    by (rule for_each_fold [of s "[]"]) (use xs a(2) in auto)
  moreover have "fold (\<lambda>_ a. a) xs False = False" by (induction xs) auto
  ultimately show ?thesis using xs(4) by (simp add: part_on_list_def del: for_each_lst.simps)
qed

lemma add_partition_spec:
  assumes on: "parts_on A s" and p: "p < OCF_USER_IO_CLASS_MAX" "p \<notin> A" and m: "m \<le> PARTITION_SIZE_MAX"
    and nm: "length nm < OCF_IO_CLASS_NAME_MAX" and prio: "prio < 256"
  shows "\<exists>s'. ocf_mngt_add_partition_to_cache s p (Some nm) 0 m prio vld = Some (OCF_OK, s') \<and> parts_on (insert p A) s' \<and>
    kept {p} s s' \<and> f_valid (user_parts s' p) = vld \<and> cfg_name (user_parts s' p) = nm"
proof -
  let ?f = "\<lambda>c. c\<lparr>cfg_name := nm, min_size := 0, max_size := m, priority := int prio, cache_mode := 6\<rparr>"
  have v: "\<not> f_valid (user_parts s p)" and n: "valid_parts_no s = card (valid_parts (user_parts s))"
    and inv: "lst_invalid s = 34" using on p by (auto simp: parts_on_def valid_parts_def)
  obtain xs where xs: "lst_rep s xs" "set xs = A" using on by (rule parts_onD)
  let ?s1 = "upd_config p ?f s"
  have n1: "valid_parts_no ?s1 = card (valid_parts (user_parts ?s1))" "\<not> f_valid (user_parts ?s1 p)"
    using n v valid_parts_upd [of ?f p s] by simp_all
  let ?s2 = "ocf_user_part_set_valid ?s1 p vld"
  have s2: "user_parts ?s2 = (user_parts s)(p := (?f (user_parts s p))\<lparr>f_valid := vld\<rparr>)"
    "valid_parts_no ?s2 = card (valid_parts (user_parts ?s2))" "lst_rep ?s2 xs" "lst_invalid ?s2 = 34" "cl ?s2 = cl s"
    "has_device ?s2 = has_device s" "is_standby ?s2 = is_standby s"
    using set_valid_eq(1) [OF p(1) n1(1)] n1 v xs inv
    by (cases vld; auto simp: fun_eq_iff ocf_user_part_set_valid_def)+
  let ?s3 = "linked p [] xs ?s2"
  have "off_list ?s2 p" using lst_repD(2) [OF s2(3), of p] p xs s2(4) by simp
  then have add: "ocf_lst_add ?s2 p = Some ?s3" and r3: "lst_rep ?s3 (p # xs)"
    using lst_insertions(1) [of p ?s2 "[]" xs] linked_rep [of ?s2 "[]" xs p] lst_repD(1) [OF s2(3)] s2(3,4) p xs by simp_all
  obtain s4 ys where s4: "ocf_user_part_sort ?s3 = Some s4" "lst_rep s4 ys" "mset ys = mset (p # xs)" "upto_flags ?s3 s4"
    "lst_invalid s4 = lst_invalid ?s3"
    using r3 by (rule user_part_sort_spec)
  let ?s5 = "upd_config p (\<lambda>c. c\<lparr>f_added := True\<rparr>) s4"
  note U = upto_flags_config [OF s4(4)]
  have ys: "set ys = insert p A" using s4(3) xs(2) by (metis list.simps(15) set_mset_mset)
  have c: "config_ok (user_parts s4 q) \<and> (q \<noteq> p \<longrightarrow> f_added (user_parts s4 q))" if "q \<in> insert p A" for q
  proof (cases "q = p")
    case True
    then show ?thesis unfolding U(1,2) using m nm prio by (simp add: s2(1) config_ok_def)
  next
    case False
    then show ?thesis unfolding U(1,2) using that on by (simp add: s2(1) parts_on_def)
  qed
  have vp: "valid_parts (user_parts ?s5) = valid_parts (user_parts ?s2)"
    using valid_parts_upd [of "\<lambda>c. c\<lparr>f_added := True\<rparr>" p s4] U(5) by simp
  have "parts_on (insert p A) ?s5"
    unfolding parts_on_def
  proof (intro conjI)
    show "lst_invalid ?s5 = 34" "\<exists>xs. lst_rep ?s5 xs \<and> set xs = insert p A" using s4 s2(4) ys by auto
    show "\<forall>q \<in> insert p A. config_ok (user_parts ?s5 q) \<and> f_added (user_parts ?s5 q)"
      using c by (auto simp: config_ok_def)
    show "valid_parts_no ?s5 = card (valid_parts (user_parts ?s5))"
      unfolding vp using s2(2) s4(4) by (simp add: upto_flags_def)
    show "valid_parts (user_parts ?s5) \<subseteq> insert p A"
      unfolding vp s2(1) using on by (auto simp: parts_on_def valid_parts_def)
  qed
  moreover have "kept {p} s ?s5"
    using s4(4) s2 by (simp add: kept_def upto_flags_def)
  moreover have "f_valid (user_parts ?s5 p) = vld" "cfg_name (user_parts ?s5 p) = nm"
    using U(3,4) [of p] s2(1) by simp_all
  moreover have "ocf_mngt_add_partition_to_cache s p (Some nm) 0 m prio vld = Some (OCF_OK, ?s5)"
    using part_on_list_no [OF on p(2)] p v m nm prio add s4(1)
    by (simp add: ocf_mngt_add_partition_to_cache_def env_strncpy_def Let_def)
  ultimately show ?thesis by blast
qed

lemma add_inactive_spec:
  assumes "parts_on A s" "distinct is" "\<forall>i \<in> set is. i < OCF_USER_IO_CLASS_MAX \<and> (i \<in> A \<longrightarrow> i \<in> {0, 33})"
    "{0, 33} \<subseteq> A"
  shows "\<exists>s'. add_inactive is s = Some s' \<and> parts_on (A \<union> set is) s' \<and> kept (set is - {0, 33}) s s' \<and>
    (\<forall>i \<in> set is - {0, 33}. \<not> f_valid (user_parts s' i))"
  using assms
proof (induction "is" arbitrary: A s)
  case (Cons i "is")
  show ?case
  proof (cases "i = 0 \<or> i = 33")
    case True
    then have "A \<union> set (i # is) = A \<union> set is" "set (i # is) - {0, 33} = set is - {0, 33}" using Cons.prems(4) by auto
    then show ?thesis using Cons.IH [OF Cons.prems(1)] Cons.prems True by simp
  next
    case False
    then have i: "i < 34" "i \<notin> A" using Cons.prems(3) by auto
    obtain t where t: "ocf_mngt_add_partition_to_cache s i (Some ''Inactive'') 0 100 255 False = Some (OCF_OK, t)"
      "parts_on (insert i A) t" "kept {i} s t" "\<not> f_valid (user_parts t i)"
      using add_partition_spec [OF Cons.prems(1) i, of 100 "''Inactive''" 255 False] by auto
    obtain s' where s': "add_inactive is t = Some s'" "parts_on (insert i A \<union> set is) s'" "kept (set is - {0, 33}) t s'"
      "\<forall>j \<in> set is - {0, 33}. \<not> f_valid (user_parts s' j)"
      using Cons.IH [OF t(2)] Cons.prems False by auto
    have "\<not> f_valid (user_parts s' i)" using keptD [OF s'(3), of i] t(4) Cons.prems(2) by auto
    moreover have "kept (set (i # is) - {0, 33}) s s'" using kept_trans [OF t(3) s'(3)] False
      by (simp add: insert_Diff_if)
    ultimately show ?thesis using t(1) s' False by auto
  qed
qed (simp add: kept_def)

lemma init_partitions_spec:
  assumes "lst_rep s []" "lst_invalid s = OCF_USER_IO_CLASS_MAX" "valid_parts_no s = 0"
    "\<forall>p < OCF_USER_IO_CLASS_MAX. \<not> f_valid (user_parts s p)"
  shows "\<exists>s'. init_partitions s = Some s' \<and> parts_ok s' \<and> valid_parts (user_parts s') = {0, 33} \<and> kept {..<34} s s'"
proof -
  have "parts_on {} s" using assms by (auto simp: parts_on_def valid_parts_def)
  from add_partition_spec [OF this, of 0 100 "''unclassified''" 255 True] obtain a where a:
    "ocf_mngt_add_partition_to_cache s 0 (Some ''unclassified'') 0 100 255 True = Some (OCF_OK, a)"
    "parts_on {0} a" "kept {0} s a" "f_valid (user_parts a 0)" "cfg_name (user_parts a 0) = ''unclassified''" by auto
  from add_partition_spec [OF a(2), of 33 100 "''prefetch''" 255 True] obtain b where b:
    "ocf_mngt_add_partition_to_cache a 33 (Some ''prefetch'') 0 100 255 True = Some (OCF_OK, b)"
    "parts_on {33, 0} b" "kept {33} a b" "f_valid (user_parts b 33)" by auto
  have "\<exists>s'. add_inactive [0..<34] b = Some s' \<and> parts_on ({33, 0} \<union> set [0..<34]) s' \<and> kept (set [0..<34] - {0, 33}) b s' \<and>
    (\<forall>i \<in> set [0..<34] - {0, 33}. \<not> f_valid (user_parts s' i))"
    by (rule add_inactive_spec [OF b(2)]) auto
  then obtain s' where s': "add_inactive [0..<34] b = Some s'" "parts_on ({33, 0} \<union> {..<34}) s'"
    "kept ({..<34} - {0, 33}) b s'" "\<forall>i \<in> {..<34} - {0, 33}. \<not> f_valid (user_parts s' i)"
    unfolding set_upt atLeast0LessThan by blast
  have "{33, 0} \<union> {..<34} = {..<34::nat}" by auto
  with s' have "parts_on {..<34} s'" by simp
  moreover have "f_valid (user_parts s' 0)" "f_valid (user_parts s' 33)" "cfg_name (user_parts s' 0) = ''unclassified''"
    using keptD [OF s'(3), of 0] keptD [OF s'(3), of 33] keptD [OF b(3), of 0] a b by simp_all
  moreover have "kept {..<34} s s'"
    using kept_trans [OF kept_trans [OF a(3) b(3)] s'(3)] by (auto simp: kept_def)
  ultimately show ?thesis using a(1) b(1) s'(1,4) by (auto simp: init_partitions_def parts_ok_def valid_parts_def)
qed

lemma init_entries_other: "lst_init_entries is s = Some s' \<Longrightarrow> \<exists>e. s' = s\<lparr>lst_entries := e\<rparr>"
proof (induction "is" arbitrary: s)
  case (Cons i "is")
  then obtain e where "s' = (ocf_lst_init_entry i s)\<lparr>lst_entries := e\<rparr>" by (auto simp: bind_eq_Some_iff)
  then show ?case by (auto simp: ocf_lst_init_entry_def upd_entry_def)
qed (auto intro!: exI [of _ "lst_entries s'"])

lemma user_part_init_spec:
  obtains s' where "ocf_user_part_init s = Some s'" "lst_rep s' []" "lst_invalid s' = OCF_USER_IO_CLASS_MAX"
    "user_parts s' = user_parts s" "valid_parts_no s' = valid_parts_no s" "cl s' = cl s"
    "has_device s' = has_device s" "is_standby s' = is_standby s"
proof -
  obtain t where t: "ocf_lst_init 34 ocf_user_part_lst_getter_valid s = Some t" "lst_rep t []" "lst_invalid t = 34"
    by (rule lst_init_rep [of 34 ocf_user_part_lst_getter_valid s]) (auto simp: ocf_user_part_lst_getter_valid_def)
  from t(1) obtain e where "t = s\<lparr>lst_getter_ok := ocf_user_part_lst_getter_valid, lst_invalid := 34, lst_entries := e\<rparr>"
    by (auto simp: ocf_lst_init_def bind_eq_Some_iff Let_def upd_entry_def dest!: init_entries_other)
  then show ?thesis using that [OF _ _ _ _ _ _ _ _] t by (simp add: ocf_user_part_init_def)
qed

subsection \<open>Properties\<close>

text \<open>C40: Sorting the list of partitions returns, keeps its partitions and puts them in the order of eviction: invalid
  partitions that still have lines first, then by falling priority value, invalid empty ones last, equal ones by
  falling identifier. It changes nothing else but the eviction flags, which are right for every partition as soon as
  there are two of them: an invalid partition can be evicted exactly when it has lines, a valid one exactly when it is
  not pinned.\<close>

theorem user_part_sort_correct:
  assumes "lst_rep s xs"
  shows "\<exists>s' ys. ocf_user_part_sort s = Some s' \<and> lst_rep s' ys \<and> mset ys = mset xs \<and>
    sorted_wrt (\<lambda>a b. evict_after s b a) ys \<and> upto_flags s s' \<and>
    (2 \<le> length xs \<longrightarrow> (\<forall>p \<in> set xs. f_eviction (user_parts s' p) = evictable s p))"
  using assms by (rule user_part_sort_spec) blast

text \<open>C38: Configuring the io classes always returns with a well-formed state. Standby caches, invalid entries and a
  failed allocation are reported before anything is changed. Otherwise the entries are applied in their order: when all are
  accepted, the partitions have the resulting configuration, are sorted and have the right eviction flags; when an entry is
  rejected (an empty name, or a new name for one of the two default classes), the call fails with an error although
  the configurations of the entries before it have been changed and stay changed.\<close>

theorem io_classes_configure_correct:
  assumes "parts_ok s" "has_device s" "spec_edits cfg (user_parts s) = (conf, fin)"
  shows "\<exists>r s'. ocf_mngt_cache_io_classes_configure mem s cfg = Some (r, s') \<and> parts_ok s' \<and>
    r = (if is_standby s then OCF_ERR_CACHE_STANDBY else if \<not> (\<forall>c \<in> set cfg. cfg_valid c) then OCF_ERR_INVAL
         else if \<not> mem then OCF_ERR_NO_MEM else if \<not> fin then OCF_ERR_INVAL else OCF_OK) \<and>
    (if r = OCF_OK then upto_flags (reconfigured conf s) s' \<and> parts_sorted s'
     else if \<not> is_standby s \<and> (\<forall>c \<in> set cfg. cfg_valid c) \<and> mem then s' = reconfigured conf s
     else s' = s)"
  using assms by (rule configure_spec)

text \<open>Any number of configurations, with or without memory for the copy.\<close>

fun configure_all :: "(bool \<times> ocf_mngt_io_class_config list) list \<Rightarrow> 'z user_cache_scheme \<Rightarrow> 'z user_cache_scheme option" where
  "configure_all [] s = Some s"
| "configure_all (r # rs) s = do {
     (_, s) \<leftarrow> ocf_mngt_cache_io_classes_configure (fst r) s (snd r);
     configure_all rs s }"

lemma configure_keeps:
  assumes "parts_ok s" "has_device s"
  obtains r s' where "ocf_mngt_cache_io_classes_configure mem s cfg = Some (r, s')" "parts_ok s'" "has_device s'" "cl s' = cl s"
proof -
  obtain conf fin where e: "spec_edits cfg (user_parts s) = (conf, fin)" by fastforce
  show ?thesis using configure_spec [OF assms e, of mem] assms that by (auto simp: upto_flags_def split: if_splits)
qed

lemma configure_all_ok:
  "parts_ok s \<Longrightarrow> has_device s \<Longrightarrow> \<exists>s'. configure_all rs s = Some s' \<and> parts_ok s' \<and> cl s' = cl s"
proof (induction rs arbitrary: s)
  case (Cons r rs)
  obtain x t where t: "ocf_mngt_cache_io_classes_configure (fst r) s (snd r) = Some (x, t)" "parts_ok t" "has_device t" "cl t = cl s"
    using Cons.prems by (rule configure_keeps)
  then show ?case using Cons.IH [of t] by simp
qed simp

lemma part_sizes:
  assumes "parts_ok s" "p < OCF_USER_IO_CLASS_MAX" "collision_table_entries (cl s) < 2 ^ 32"
  shows "ocf_user_part_get_min_size s p = 0"
    "ocf_user_part_get_max_size s p = (max_size (user_parts s p) * collision_table_entries (cl s) + 99) div 100"
    "ocf_user_part_get_max_size s p \<le> collision_table_entries (cl s)"
proof -
  let ?n = "collision_table_entries (cl s)" and ?m = "max_size (user_parts s p)"
  have c: "min_size (user_parts s p) = 0" "?m \<le> 100" using assms(1,2) by (auto simp: parts_ok_def parts_on_def config_ok_def)
  then show "ocf_user_part_get_min_size s p = 0" by (simp add: ocf_user_part_get_min_size_def)
  have le: "?m * ?n \<le> 100 * ?n" using c(2) by simp
  moreover have "(2 :: nat) ^ 64 = 18446744073709551616" "(2 :: nat) ^ 32 = 4294967296" by simp_all
  ultimately have "?m * ?n + 99 < 2 ^ 64" using assms(3) by linarith
  moreover have q: "(?m * ?n + 99) div 100 \<le> ?n" using div_le_mono [of "?m * ?n + 99" "100 * ?n + 99" 100] le by simp
  ultimately show "ocf_user_part_get_max_size s p = (?m * ?n + 99) div 100" "ocf_user_part_get_max_size s p \<le> ?n"
    using assms(3) by (simp_all add: ocf_user_part_get_max_size_def Let_def)
qed

text \<open>C39: The partitions of a new cache are initialised without a failed assertion, and stay well-formed under every
  sequence of configurations: all 34 are on the list once, with sizes in percent, priorities, names and cache modes
  in their ranges and with the exact number of valid partitions. Every io class of a request is mapped to a
  valid partition, and the sizes in lines do not overflow and do not exceed the cache.\<close>

theorem io_classes_wf:
  assumes "valid_parts_no s = 0" "\<forall>p < OCF_USER_IO_CLASS_MAX. \<not> f_valid (user_parts s p)"
    "collision_table_entries (cl s) < 2 ^ 32"
  shows "\<exists>s1 s2. ocf_user_part_init s = Some s1 \<and> init_partitions s1 = Some s2 \<and> valid_parts (user_parts s2) = {0, 33} \<and>
    (\<forall>rs. \<exists>s'. configure_all rs (s2\<lparr>has_device := True\<rparr>) = Some s' \<and> parts_ok s' \<and>
      (\<forall>k. ocf_user_part_class2id s' k \<in> valid_parts (user_parts s')) \<and>
      (\<forall>p < OCF_USER_IO_CLASS_MAX. ocf_user_part_get_min_size s' p = 0 \<and>
         ocf_user_part_get_max_size s' p = (max_size (user_parts s' p) * collision_table_entries (cl s) + 99) div 100 \<and>
         ocf_user_part_get_max_size s' p \<le> collision_table_entries (cl s)))"
proof -
  obtain s1 where s1: "ocf_user_part_init s = Some s1" "lst_rep s1 []" "lst_invalid s1 = 34"
    "user_parts s1 = user_parts s" "valid_parts_no s1 = valid_parts_no s" "cl s1 = cl s"
    by (rule user_part_init_spec)
  obtain s2 where s2: "init_partitions s1 = Some s2" "parts_ok s2" "valid_parts (user_parts s2) = {0, 33}" "kept {..<34} s1 s2"
    using init_partitions_spec [of s1] s1 assms by auto
  have dev: "parts_ok (s2\<lparr>has_device := True\<rparr>)" using s2(2) by simp
  have "\<exists>s'. configure_all rs (s2\<lparr>has_device := True\<rparr>) = Some s' \<and> parts_ok s' \<and>
      (\<forall>k. ocf_user_part_class2id s' k \<in> valid_parts (user_parts s')) \<and>
      (\<forall>p < 34. ocf_user_part_get_min_size s' p = 0 \<and>
         ocf_user_part_get_max_size s' p = (max_size (user_parts s' p) * collision_table_entries (cl s) + 99) div 100 \<and>
         ocf_user_part_get_max_size s' p \<le> collision_table_entries (cl s))" for rs
  proof -
    obtain s' where s': "configure_all rs (s2\<lparr>has_device := True\<rparr>) = Some s'" "parts_ok s'" "cl s' = cl s2"
      using configure_all_ok [OF dev, of rs] by auto
    have "ocf_user_part_class2id s' k \<in> valid_parts (user_parts s')" for k
      using s'(2) by (auto simp: ocf_user_part_class2id_def valid_parts_def parts_ok_def)
    moreover have "cl s' = cl s" using s'(3) s2(4) s1(6) by (simp add: kept_def)
    ultimately show ?thesis using s' part_sizes [OF s'(2)] assms(3) by auto
  qed
  with s1(1) s2 show ?thesis by blast
qed

subsection \<open>Witnesses\<close>

definition demo_fresh :: user_cache where
  "demo_fresh = \<lparr>lst_entries = (\<lambda>_. \<lparr>e_next = 0, e_prev = 0\<rparr>), lst_getter_ok = (\<lambda>_. False), lst_invalid = 0,
     user_parts = (\<lambda>_. \<lparr>cfg_name = [], min_size = 0, max_size = 0, f_valid = False, f_added = False, f_eviction = False,
       priority = 0, cache_mode = 0\<rparr>),
     part_ids = (\<lambda>_. 0), valid_parts_no = 0, has_device = False, is_standby = False, cl = demo_cl_cache\<rparr>"

definition demo_parts :: user_cache where
  "demo_parts = (the (ocf_user_part_init demo_fresh \<bind> init_partitions))\<lparr>has_device := True\<rparr>"

definition demo_edits :: "ocf_mngt_io_class_config list" where
  "demo_edits = [\<lparr>c_class_id = 1, c_max_size = 50, c_name = Some ''a'', c_cache_mode = 0, c_prio = 3\<rparr>,
     \<lparr>c_class_id = 2, c_max_size = 50, c_name = Some [], c_cache_mode = 0, c_prio = 3\<rparr>]"

lemma demo_parts_ok: "parts_ok demo_parts" "has_device demo_parts" "\<not> is_standby demo_parts"
  "valid_parts (user_parts demo_parts) = {0, 33}"
proof -
  obtain s1 where s1: "ocf_user_part_init demo_fresh = Some s1" "lst_rep s1 []" "lst_invalid s1 = 34"
    "user_parts s1 = user_parts demo_fresh" "valid_parts_no s1 = valid_parts_no demo_fresh"
    "is_standby s1 = is_standby demo_fresh"
    by (rule user_part_init_spec)
  obtain s2 where s2: "init_partitions s1 = Some s2" "parts_ok s2" "valid_parts (user_parts s2) = {0, 33}" "kept {..<34} s1 s2"
    using init_partitions_spec [of s1] s1 by (auto simp: demo_fresh_def)
  have d: "demo_parts = s2\<lparr>has_device := True\<rparr>" using s1(1) s2(1) by (simp add: demo_parts_def)
  show "parts_ok demo_parts" "has_device demo_parts" "valid_parts (user_parts demo_parts) = {0, 33}" "\<not> is_standby demo_parts"
    using s2 s1(6) unfolding d by (simp_all add: kept_def demo_fresh_def)
qed

theorem user_part_sort_correct_witness:
  "\<exists>xs s' ys. lst_rep demo_parts xs \<and> length xs = 34 \<and> ocf_user_part_sort demo_parts = Some s' \<and> lst_rep s' ys \<and>
    mset ys = mset xs \<and> sorted_wrt (\<lambda>a b. evict_after demo_parts b a) ys"
proof -
  have "parts_on {..<34} demo_parts" using demo_parts_ok(1) by (simp add: parts_ok_def)
  then obtain xs where xs: "lst_rep demo_parts xs" "set xs = {..<34}" "distinct xs" by (rule parts_onD)
  then have "length xs = 34" using distinct_card [OF xs(3)] by simp
  with user_part_sort_correct [OF xs(1)] xs(1) show ?thesis by blast
qed

theorem io_classes_configure_correct_witness:
  "\<exists>s'. ocf_mngt_cache_io_classes_configure True demo_parts demo_edits = Some (OCF_ERR_INVAL, s') \<and> parts_ok s' \<and>
    \<not> f_valid (user_parts demo_parts 1) \<and> f_valid (user_parts s' 1) \<and> max_size (user_parts s' 1) = 50"
proof -
  have e: "spec_edits demo_edits (user_parts demo_parts) = ((user_parts demo_parts)(1 := (user_parts demo_parts 1)\<lparr>cfg_name := ''a'',
      min_size := 0, max_size := 50, f_valid := True, priority := 3, cache_mode := 0\<rparr>), False)"
    by (simp add: demo_edits_def spec_edit_def)
  have "1 \<notin> valid_parts (user_parts demo_parts)" using demo_parts_ok(4) by simp
  then have "\<not> f_valid (user_parts demo_parts 1)" by (simp add: valid_parts_def)
  moreover have "\<forall>c \<in> set demo_edits. cfg_valid c" by (simp add: demo_edits_def cfg_valid_def name_char_def)
  ultimately show ?thesis
    using io_classes_configure_correct [OF demo_parts_ok(1,2) e, of True] demo_parts_ok(3) by auto
qed

theorem io_classes_wf_witness:
  "\<exists>s1 s2. ocf_user_part_init demo_fresh = Some s1 \<and> init_partitions s1 = Some s2 \<and> valid_parts (user_parts s2) = {0, 33} \<and>
    (\<exists>s'. configure_all [(True, demo_edits)] (s2\<lparr>has_device := True\<rparr>) = Some s' \<and> parts_ok s')"
proof -
  have "collision_table_entries (cl demo_fresh) < 2 ^ 32"
    by (simp add: demo_fresh_def demo_cl_cache_def demo_cache_def lru_cache.defs lru_state.defs)
  moreover have "valid_parts_no demo_fresh = 0" "\<forall>p < 34. \<not> f_valid (user_parts demo_fresh p)"
    by (simp_all add: demo_fresh_def)
  ultimately obtain s1 s2 where "ocf_user_part_init demo_fresh = Some s1" "init_partitions s1 = Some s2"
    "valid_parts (user_parts s2) = {0, 33}"
    "\<exists>s'. configure_all [(True, demo_edits)] (s2\<lparr>has_device := True\<rparr>) = Some s' \<and> parts_ok s'"
    using io_classes_wf [of demo_fresh] by blast
  then show ?thesis by blast
qed

end
