(* ===== verification/Engine.thy ===== *)
theory Engine
  imports Cache_Line
begin

section \<open>Requests in the engines (engine_common.c, engine_common.h)\<close>

text \<open>
  The part of \<open>engine_common.c\<close> that relates a request to the cache: looking up its core lines, checking the result
  again when the request is resumed after it had to wait for a lock, and marking its lines as used. A request is the
  record of \<open>Cache_Line\<close> extended by the range of its core lines and \<open>req->info\<close>; the bit
  \<open>info.flush_metadata\<close> is \<open>flush_metadata\<close> of that record. Counters of \<open>info\<close> have 32 bits; its bits for input and
  output errors and for internal requests are not used here. On top of it are the decisions of the read, pass-through,
  write-back and write-through engines and the resumption of a request that waited.
\<close>

record ocf_req_info =
  hit_no :: nat
  invalid_no :: nat
  re_part_no :: nat
  seq_no :: nat
  insert_no :: nat
  dirty_all :: nat
  dirty_any :: nat
  mapping_error :: bool
  cleaning_required :: bool

record eng_req = cl_req +
  line_first :: nat
  line_last :: nat
  rinfo :: ocf_req_info

definition put_entry :: "nat \<Rightarrow> (ocf_map_info \<Rightarrow> ocf_map_info) \<Rightarrow> 'y cl_req_scheme \<Rightarrow> 'y cl_req_scheme" where
  "put_entry i f req = req\<lparr>rq_map := (rq_map req)(i := f (rq_map req i))\<rparr>"

definition put_info :: "(ocf_req_info \<Rightarrow> ocf_req_info) \<Rightarrow> 'y eng_req_scheme \<Rightarrow> 'y eng_req_scheme" where
  "put_info f req = req\<lparr>rinfo := f (rinfo req)\<rparr>"

definition clear_info :: ocf_req_info where
  "clear_info = \<lparr>hit_no = 0, invalid_no = 0, re_part_no = 0, seq_no = 0, insert_no = 0, dirty_all = 0, dirty_any = 0,
     mapping_error = False, cleaning_required = False\<rparr>"

definition ocf_req_clear_info :: "'y eng_req_scheme \<Rightarrow> 'y eng_req_scheme" where
  "ocf_req_clear_info req = req\<lparr>rinfo := clear_info, flush_metadata := False\<rparr>"

text \<open>The hash of the first core line is computed, the others follow from their predecessor.\<close>

fun req_hash_loop :: "'z coll_state_scheme \<Rightarrow> nat list \<Rightarrow> nat \<Rightarrow> 'y cl_req_scheme \<Rightarrow> 'y cl_req_scheme" where
  "req_hash_loop s [] hash req = req"
| "req_hash_loop s (i # is) hash req =
     (let hash = ocf_metadata_hash_next s hash in req_hash_loop s is hash (put_entry i (\<lambda>e. e\<lparr>m_hash := hash\<rparr>) req))"

definition ocf_req_hash :: "'z coll_state_scheme \<Rightarrow> 'y eng_req_scheme \<Rightarrow> 'y eng_req_scheme" where
  "ocf_req_hash s req =
     (if rq_count req = 0 then req
      else let hash = ocf_metadata_hash_func s (line_first req) (rq_core req)
           in req_hash_loop s [1..<rq_count req] hash (put_entry 0 (\<lambda>e. e\<lparr>m_hash := hash\<rparr>) req))"

definition ocf_engine_is_hit :: "'y eng_req_scheme \<Rightarrow> bool" where
  "ocf_engine_is_hit req \<longleftrightarrow> hit_no (rinfo req) = rq_count req"

definition ocf_engine_is_mapped :: "'y eng_req_scheme \<Rightarrow> bool" where
  "ocf_engine_is_mapped req \<longleftrightarrow> (hit_no (rinfo req) + invalid_no (rinfo req)) mod 2 ^ 32 = rq_count req"

definition ocf_engine_is_dirty_all :: "'y eng_req_scheme \<Rightarrow> bool" where
  "ocf_engine_is_dirty_all req \<longleftrightarrow> dirty_all (rinfo req) = rq_count req"

definition ocf_engine_needs_repart :: "'y eng_req_scheme \<Rightarrow> bool" where
  "ocf_engine_needs_repart req \<longleftrightarrow> re_part_no (rinfo req) > 0"

definition ocf_engine_unmapped_count :: "'y eng_req_scheme \<Rightarrow> nat" where
  "ocf_engine_unmapped_count req =
     nat ((int (rq_count req) - int (hit_no (rinfo req) + invalid_no (rinfo req) + insert_no (rinfo req))) mod 2 ^ 32)"

definition ocf_engine_repart_count :: "'y eng_req_scheme \<Rightarrow> nat" where
  "ocf_engine_repart_count req = re_part_no (rinfo req)"

definition ocf_engine_is_sequential :: "'y eng_req_scheme \<Rightarrow> bool" where
  "ocf_engine_is_sequential req \<longleftrightarrow> (hit_no (rinfo req) + insert_no (rinfo req)) mod 2 ^ 32 = rq_count req \<and>
     seq_no (rinfo req) = (rq_count req + (2 ^ 32 - 1)) mod 2 ^ 32"

definition ocf_engine_io_count :: "'y eng_req_scheme \<Rightarrow> nat" where
  "ocf_engine_io_count req = (if ocf_engine_is_sequential req then 1 else rq_count req)"

definition ocf_engine_clines_phys_cont :: "'y cl_req_scheme \<Rightarrow> nat \<Rightarrow> bool" where
  "ocf_engine_clines_phys_cont req entry =
     (let entry1 = rq_map req entry; entry2 = rq_map req (entry + 1) in
      if m_status entry1 = LOOKUP_MISS \<or> m_status entry2 = LOOKUP_MISS then False
      else coll_idx entry1 < coll_idx entry2 \<and> (coll_idx entry1 + 1) mod 2 ^ 32 = coll_idx entry2)"

definition ocf_engine_patch_req_info :: "nat \<Rightarrow> 'y eng_req_scheme \<Rightarrow> 'y eng_req_scheme option" where
  "ocf_engine_patch_req_info idx req = do {
     bug_on (m_status (rq_map req idx) \<noteq> LOOKUP_REMAPPED);
     let req = put_info (\<lambda>f. f\<lparr>insert_no := inc32 (insert_no f)\<rparr>) req;
     let req = (if idx > 0 \<and> ocf_engine_clines_phys_cont req (idx - 1)
                then put_info (\<lambda>f. f\<lparr>seq_no := inc32 (seq_no f)\<rparr>) req else req);
     Some (if idx + 1 < rq_count req \<and> ocf_engine_clines_phys_cont req idx
           then put_info (\<lambda>f. f\<lparr>seq_no := inc32 (seq_no f)\<rparr>) req else req) }"

definition update_hit_info :: "'z lru_state_scheme \<Rightarrow> 'y eng_req_scheme \<Rightarrow> nat \<Rightarrow> 'y eng_req_scheme option" where
  "update_hit_info s req idx = do {
     let start_block = ocf_map_line_start_block s req idx;
     let end_block = ocf_map_line_end_block s req idx;
     let line = coll_idx (rq_map req idx);
     vld \<leftarrow> metadata_test_valid_sec s line start_block end_block;
     let req = (if vld then put_info (\<lambda>f. f\<lparr>hit_no := inc32 (hit_no f)\<rparr>) req
                else put_entry idx (\<lambda>e. e\<lparr>m_status := LOOKUP_HIT_INVALID\<rparr>)
                       (put_info (\<lambda>f. f\<lparr>invalid_no := inc32 (invalid_no f)\<rparr>) req));
     dirty \<leftarrow> metadata_test_dirty s line;
     if dirty then do {
       let req = put_info (\<lambda>f. f\<lparr>dirty_any := inc32 (dirty_any f)\<rparr>) req;
       full \<leftarrow> metadata_test_dirty_all_sec s line start_block end_block;
       Some (if full then put_info (\<lambda>f. f\<lparr>dirty_all := inc32 (dirty_all f)\<rparr>) req else req) }
     else Some req }"

definition ocf_engine_update_req_info :: "'z lru_state_scheme \<Rightarrow> 'y eng_req_scheme \<Rightarrow> nat \<Rightarrow> 'y eng_req_scheme option" where
  "ocf_engine_update_req_info s req idx = do {
     req \<leftarrow> (if m_status (rq_map req idx) = LOOKUP_HIT then update_hit_info s req idx else Some req);
     req \<leftarrow> (if m_status (rq_map req idx) \<in> {LOOKUP_HIT, LOOKUP_HIT_INVALID, LOOKUP_REMAPPED} then do {
          part_id \<leftarrow> ocf_metadata_get_partition_id s (coll_idx (rq_map req idx));
          Some (if rq_part req \<noteq> part_id
                then put_info (\<lambda>f. f\<lparr>re_part_no := inc32 (re_part_no f)\<rparr>) (put_entry idx (\<lambda>e. e\<lparr>re_part := True\<rparr>) req)
                else req) }
        else Some req);
     let req = (if m_status (rq_map req idx) = LOOKUP_REMAPPED
                then put_info (\<lambda>f. f\<lparr>insert_no := inc32 (insert_no f)\<rparr>) req else req);
     Some (if idx > 0 \<and> ocf_engine_clines_phys_cont req (idx - 1)
           then put_info (\<lambda>f. f\<lparr>seq_no := inc32 (seq_no f)\<rparr>) req else req) }"

fun lookup_loop :: "'z lru_state_scheme \<Rightarrow> nat list \<Rightarrow> nat \<Rightarrow> 'y eng_req_scheme \<Rightarrow> 'y eng_req_scheme option" where
  "lookup_loop s [] i req = Some req"
| "lookup_loop s (cl # rest) i req = do {
     entry \<leftarrow> ocf_engine_lookup_map_entry s (rq_map req i) (rq_core req) cl;
     let req = put_entry i (\<lambda>_. entry\<lparr>re_part := False\<rparr>) req;
     req \<leftarrow> (if m_status (rq_map req i) \<noteq> LOOKUP_HIT then Some req else ocf_engine_update_req_info s req i);
     lookup_loop s rest (i + 1) req }"

definition ocf_engine_lookup :: "'z lru_state_scheme \<Rightarrow> 'y eng_req_scheme \<Rightarrow> 'y eng_req_scheme option" where
  "ocf_engine_lookup s req = lookup_loop s [line_first req..<line_last req + 1] 0 (ocf_req_clear_info req)"

text \<open>The result is \<open>True\<close> for 0, every mapped entry still has its core line.\<close>

fun check_loop ::
    "'z lru_state_scheme \<Rightarrow> nat list \<Rightarrow> nat \<Rightarrow> bool \<Rightarrow> 'y eng_req_scheme \<Rightarrow> (bool \<times> 'y eng_req_scheme) option" where
  "check_loop s [] i result req = Some (result, req)"
| "check_loop s (cl # rest) i result req = do {
     let req = put_entry i (\<lambda>e. e\<lparr>re_part := False\<rparr>) req;
     if m_status (rq_map req i) = LOOKUP_MISS then check_loop s rest (i + 1) result req
     else do {
       ok \<leftarrow> ocf_engine_check_map_entry s (rq_map req i) (rq_core req);
       if \<not> ok then check_loop s rest (i + 1) False (put_entry i (\<lambda>e. e\<lparr>m_invalid := True\<rparr>) req)
       else do {
         req \<leftarrow> ocf_engine_update_req_info s (put_entry i (\<lambda>e. e\<lparr>m_invalid := False\<rparr>) req) i;
         check_loop s rest (i + 1) result req } } }"

definition ocf_engine_check :: "'z lru_state_scheme \<Rightarrow> 'y eng_req_scheme \<Rightarrow> (bool \<times> 'y eng_req_scheme) option" where
  "ocf_engine_check s req = check_loop s [line_first req..<line_last req + 1] 0 True (ocf_req_clear_info req)"

fun set_hot_loop :: "nat list \<Rightarrow> 'y eng_req_scheme \<Rightarrow> 'z lru_cache_scheme \<Rightarrow> 'z lru_cache_scheme option" where
  "set_hot_loop [] req s = Some s"
| "set_hot_loop (i # is) req s = do {
     s \<leftarrow> (if m_status (rq_map req i) \<in> {LOOKUP_HIT, LOOKUP_HIT_INVALID}
          then ocf_lru_hot_cline s (coll_idx (rq_map req i)) else Some s);
     set_hot_loop is req s }"

definition ocf_engine_set_hot :: "'y eng_req_scheme \<Rightarrow> 'z lru_cache_scheme \<Rightarrow> 'z lru_cache_scheme option" where
  "ocf_engine_set_hot req s =
     (if hit_no (rinfo req) = 0 \<and> invalid_no (rinfo req) = 0 then Some s else set_hot_loop [0..<rq_count req] req s)"

definition ocf_engine_traverse ::
    "'y eng_req_scheme \<Rightarrow> 'z lru_cache_scheme \<Rightarrow> ('y eng_req_scheme \<times> 'z lru_cache_scheme) option" where
  "ocf_engine_traverse req s = do {
     req \<leftarrow> ocf_engine_lookup s req;
     s \<leftarrow> ocf_engine_set_hot req s;
     Some (req, s) }"

definition ocf_engine_map_all_sec_dirty :: "'z md_state_scheme \<Rightarrow> 'y eng_req_scheme \<Rightarrow> nat \<Rightarrow> bool option" where
  "ocf_engine_map_all_sec_dirty s req line =
     (if m_status (rq_map req line) \<noteq> LOOKUP_HIT then Some False
      else metadata_test_dirty_all_sec s (coll_idx (rq_map req line))
        (ocf_map_line_start_block s req line) (ocf_map_line_end_block s req line))"

definition ocf_engine_map_all_sec_clean :: "'z md_state_scheme \<Rightarrow> 'y eng_req_scheme \<Rightarrow> nat \<Rightarrow> bool option" where
  "ocf_engine_map_all_sec_clean s req line =
     (if m_status (rq_map req line) \<noteq> LOOKUP_HIT then Some False
      else do {
        vld \<leftarrow> metadata_test_valid_sec s (coll_idx (rq_map req line))
          (ocf_map_line_start_block s req line) (ocf_map_line_end_block s req line);
        if \<not> vld then Some False
        else map_option Not (metadata_test_dirty_sec s (coll_idx (rq_map req line))
          (ocf_map_line_start_block s req line) (ocf_map_line_end_block s req line)) })"

definition ocf_engine_map_all_sec_valid :: "'z md_state_scheme \<Rightarrow> 'y eng_req_scheme \<Rightarrow> nat \<Rightarrow> bool option" where
  "ocf_engine_map_all_sec_valid s req line =
     (if m_status (rq_map req line) \<noteq> LOOKUP_HIT then Some False
      else metadata_test_valid_sec s (coll_idx (rq_map req line))
        (ocf_map_line_start_block s req line) (ocf_map_line_end_block s req line))"

definition ocf_engine_clean_getter :: "'z md_state_scheme \<Rightarrow> 'y eng_req_scheme \<Rightarrow> nat \<Rightarrow> nat option option" where
  "ocf_engine_clean_getter s req item =
     (if item \<ge> rq_count req then Some None
      else if m_status (rq_map req item) \<noteq> LOOKUP_HIT \<and> m_status (rq_map req item) \<noteq> LOOKUP_HIT_INVALID then Some None
      else do {
        dirty \<leftarrow> metadata_test_dirty s (coll_idx (rq_map req item));
        Some (if \<not> dirty then None else Some (coll_idx (rq_map req item))) })"

subsection \<open>The engines\<close>

text \<open>
  The decisions of the engines and what they do to the metadata once the lines of a request are locked. The result of a
  read is where the data comes from: the core after the sectors of the request were cleaned, the core, or the cache.
  The operations of \<open>Cache_Line\<close> work on the part of the request that they use.
\<close>

definition ocf_engine_is_miss :: "'y eng_req_scheme \<Rightarrow> bool" where
  "ocf_engine_is_miss req \<longleftrightarrow> \<not> ocf_engine_is_hit req"

definition on_map ::
    "(cl_req \<Rightarrow> 's \<Rightarrow> (cl_req \<times> 's) option) \<Rightarrow> 'y eng_req_scheme \<Rightarrow> 's \<Rightarrow> ('y eng_req_scheme \<times> 's) option" where
  "on_map f req s = do {
     (q, s) \<leftarrow> f (cl_req.truncate req) s;
     Some (cl_req.extend q (cl_req.more req), s) }"

datatype read_action = Read_clean | Read_core | Read_cache

definition ocf_read_pt_do ::
    "'y eng_req_scheme \<Rightarrow> 'z cl_state_scheme \<Rightarrow> (read_action \<times> 'y eng_req_scheme \<times> 'z cl_state_scheme) option" where
  "ocf_read_pt_do req s =
     (if dirty_any (rinfo req) \<noteq> 0 then Some (Read_clean, req, s)
      else do {
        (req, s) \<leftarrow> (if ocf_engine_needs_repart req then on_map ocf_user_part_move req s else Some (req, s));
        Some (Read_core, req, s) })"

text \<open>\<open>alock_rd\<close> says that the lines are locked for reading only (\<open>req->alock_rw == OCF_READ\<close>).\<close>

definition ocf_read_generic_do ::
    "bool \<Rightarrow> 'y eng_req_scheme \<Rightarrow> 'z cl_state_scheme \<Rightarrow> (read_action \<times> 'y eng_req_scheme \<times> 'z cl_state_scheme) option" where
  "ocf_read_generic_do alock_rd req s =
     (if ocf_engine_is_miss req \<and> alock_rd then ocf_read_pt_do req s
      else if ocf_engine_is_miss req \<and> dirty_any (rinfo req) \<noteq> 0 then Some (Read_clean, req, s)
      else do {
        (req, s) \<leftarrow> (if ocf_engine_needs_repart req then on_map ocf_user_part_move req s else Some (req, s));
        Some (if ocf_engine_is_hit req then Read_cache else Read_core, req, s) })"

text \<open>A request that waited for its lines is checked before its engine continues, \<open>handler\<close>.\<close>

definition ocf_engine_refresh ::
    "('y eng_req_scheme \<Rightarrow> 'z cl_state_scheme \<Rightarrow> 'a option) \<Rightarrow> 'y eng_req_scheme \<Rightarrow> 'z cl_state_scheme \<Rightarrow> (ocf_error + 'a) option" where
  "ocf_engine_refresh handler req s = do {
     (ok, req) \<leftarrow> ocf_engine_check s req;
     if ok then map_option Inr (handler req s) else Some (Inl OCF_ERR_INVAL) }"

definition ocf_req_set_cleaning_hot :: "'y cl_req_scheme \<Rightarrow> 'z cl_state_scheme \<Rightarrow> 'z cl_state_scheme" where
  "ocf_req_set_cleaning_hot req s =
     fold (\<lambda>map_idx. cleaning_call (Set_hot (coll_idx (rq_map req map_idx)))) [0..<rq_count req] s"

definition ocf_write_wb_update_bits ::
    "nat \<Rightarrow> 'y eng_req_scheme \<Rightarrow> 'z cl_state_scheme \<Rightarrow> ('y eng_req_scheme \<times> 'z cl_state_scheme) option" where
  "ocf_write_wb_update_bits now req s =
     (let miss = ocf_engine_is_miss req; clean_any = (\<not> ocf_engine_is_dirty_all req) in
      if \<not> miss \<and> \<not> clean_any then Some (req, ocf_req_set_cleaning_hot req s)
      else do {
        (req, s) \<leftarrow> (if miss then on_map ocf_set_valid_map_info req s else Some (req, s));
        (req, s) \<leftarrow> (if clean_any then on_map (ocf_set_dirty_map_info now) req s else Some (req, s));
        Some (req, ocf_req_set_cleaning_hot req s) })"

definition ocf_write_wt_update_bits ::
    "'y eng_req_scheme \<Rightarrow> 'z cl_state_scheme \<Rightarrow> ('y eng_req_scheme \<times> 'z cl_state_scheme) option" where
  "ocf_write_wt_update_bits req s =
     (let miss = ocf_engine_is_miss req; dirty = (dirty_any (rinfo req) \<noteq> 0); repart = ocf_engine_needs_repart req in
      if \<not> miss \<and> \<not> dirty \<and> \<not> repart then Some (req, s)
      else do {
        (req, s) \<leftarrow> (if miss then on_map ocf_set_valid_map_info req s else Some (req, s));
        (req, s) \<leftarrow> (if dirty then on_map ocf_set_clean_map_info req s else Some (req, s));
        if repart then on_map ocf_user_part_move req s else Some (req, s) })"

text \<open>The lines of a request whose input or output failed are invalidated.\<close>

definition ocf_invalidate_do ::
    "'y eng_req_scheme \<Rightarrow> 'z cl_state_scheme \<Rightarrow> ('y eng_req_scheme \<times> 'z cl_state_scheme) option" where
  "ocf_invalidate_do req s = on_map ocf_purge_map_info req s"

subsection \<open>What a lookup finds\<close>

definition line_at :: "'z md_state_scheme \<Rightarrow> 'y eng_req_scheme \<Rightarrow> nat \<Rightarrow> nat option" where
  "line_at s req i = cached s (rq_core req, line_first req + i)"

definition found_status :: "'z md_state_scheme \<Rightarrow> 'y eng_req_scheme \<Rightarrow> nat \<Rightarrow> lookup_status" where
  "found_status s req i = (case line_at s req i of None \<Rightarrow> LOOKUP_MISS
     | Some l \<Rightarrow> if req_blocks s req i \<subseteq> marked Valid s l then LOOKUP_HIT else LOOKUP_HIT_INVALID)"

definition on_line :: "'z md_state_scheme \<Rightarrow> 'y eng_req_scheme \<Rightarrow> (nat \<Rightarrow> nat \<Rightarrow> bool) \<Rightarrow> nat \<Rightarrow> bool" where
  "on_line s req P i \<longleftrightarrow> (case line_at s req i of None \<Rightarrow> False | Some l \<Rightarrow> P i l)"

definition count_upto :: "nat \<Rightarrow> (nat \<Rightarrow> bool) \<Rightarrow> nat" where
  "count_upto k P = card {i. i < k \<and> P i}"

lemma count_upto_0 [simp]: "count_upto 0 P = 0"
  by (simp add: count_upto_def)

lemma count_upto_Suc: "count_upto (Suc k) P = count_upto k P + of_bool (P k)"
proof -
  have "{i. i < Suc k \<and> P i} = (if P k then insert k {i. i < k \<and> P i} else {i. i < k \<and> P i})"
    by (auto simp: less_Suc_eq)
  then show ?thesis by (simp add: count_upto_def)
qed

lemma count_upto_le: "count_upto k P \<le> k"
  by (induction k) (auto simp: count_upto_Suc)

definition follows :: "'z md_state_scheme \<Rightarrow> 'y eng_req_scheme \<Rightarrow> nat \<Rightarrow> bool" where
  "follows s req i \<longleftrightarrow> (\<exists>l. line_at s req i = Some (Suc l) \<and> 0 < i \<and> line_at s req (i - 1) = Some l)"

text \<open>The information about the first \<open>k\<close> core lines of a request.\<close>

definition found_info :: "'z lru_state_scheme \<Rightarrow> 'y eng_req_scheme \<Rightarrow> nat \<Rightarrow> ocf_req_info" where
  "found_info s req k = \<lparr>
     hit_no = count_upto k (\<lambda>i. found_status s req i = LOOKUP_HIT),
     invalid_no = count_upto k (\<lambda>i. found_status s req i = LOOKUP_HIT_INVALID),
     re_part_no = count_upto k (on_line s req (\<lambda>i l. partition_id (lru_meta s l) \<noteq> rq_part req)),
     seq_no = count_upto k (follows s req),
     insert_no = 0,
     dirty_all = count_upto k (on_line s req (\<lambda>i l. req_blocks s req i \<subseteq> marked Dirty s l)),
     dirty_any = count_upto k (on_line s req (\<lambda>i l. marked Dirty s l \<noteq> {})),
     mapping_error = False, cleaning_required = False\<rparr>"

definition found_entry :: "'z lru_state_scheme \<Rightarrow> 'y eng_req_scheme \<Rightarrow> nat \<Rightarrow> ocf_map_info \<Rightarrow> ocf_map_info" where
  "found_entry s req i e = e\<lparr>m_hash := ocf_metadata_hash_func s (line_first req + i) (rq_core req),
     coll_idx := (case line_at s req i of None \<Rightarrow> collision_table_entries s | Some l \<Rightarrow> l),
     m_core_line := line_first req + i, m_core_id := rq_core req, m_status := found_status s req i,
     re_part := on_line s req (\<lambda>i l. partition_id (lru_meta s l) \<noteq> rq_part req) i\<rparr>"

text \<open>The request after the lookup of its first \<open>k\<close> core lines.\<close>

definition looked_up :: "'z lru_state_scheme \<Rightarrow> nat \<Rightarrow> 'y eng_req_scheme \<Rightarrow> 'y eng_req_scheme" where
  "looked_up s k req = req\<lparr>rq_map := (\<lambda>i. if i < k then found_entry s req i (rq_map req i) else rq_map req i),
     rinfo := found_info s req k, flush_metadata := False\<rparr>"

definition lookup_ready :: "'z lru_state_scheme \<Rightarrow> 'y eng_req_scheme \<Rightarrow> bool" where
  "lookup_ready s req \<longleftrightarrow> coll_inv s \<and> md_ok s \<and> eviction_policy s = ocf_eviction_lru \<and> req_shape s req \<and>
     rq_core req < OCF_CORE_NUM \<and> rq_count req < 2 ^ 32 \<and> line_first req + rq_count req = line_last req + 1"

lemma looked_up_simps [simp]:
  "rq_core (looked_up s k req) = rq_core req" "rq_part (looked_up s k req) = rq_part req" "rq_count (looked_up s k req) = rq_count req"
  "rq_addr (looked_up s k req) = rq_addr req" "rq_bytes (looked_up s k req) = rq_bytes req"
  "line_first (looked_up s k req) = line_first req" "line_last (looked_up s k req) = line_last req"
  "rinfo (looked_up s k req) = found_info s req k"
  "rq_map (looked_up s k req) i = (if i < k then found_entry s req i (rq_map req i) else rq_map req i)"
  by (simp_all add: looked_up_def)

lemma put_simps [simp]:
  "rq_core (put_entry i f req) = rq_core req" "rq_part (put_entry i f req) = rq_part req" "rq_count (put_entry i f req) = rq_count req"
  "rq_addr (put_entry i f req) = rq_addr req" "rq_bytes (put_entry i f req) = rq_bytes req"
  "rq_map (put_entry i f req) j = (if j = i then f (rq_map req i) else rq_map req j)"
  "rq_core (put_info g rq) = rq_core rq" "rq_part (put_info g rq) = rq_part rq" "rq_count (put_info g rq) = rq_count rq"
  "rq_map (put_info g rq) = rq_map rq" "rinfo (put_info g rq) = g (rinfo rq)" "rinfo (put_entry i f rq) = rinfo rq"
  "rq_addr (put_info g rq) = rq_addr rq" "rq_bytes (put_info g rq) = rq_bytes rq"
  "put_entry i h (put_entry i f req) = put_entry i (\<lambda>e. h (f e)) req"
  "put_info g' (put_info g rq) = put_info (\<lambda>e. g' (g e)) rq"
  "put_entry i f (put_info g rq) = put_info g (put_entry i f rq)"
  by (simp_all add: put_entry_def put_info_def)

lemma block_range_put [simp]:
  "ocf_map_line_start_block s (put_entry i f req) = ocf_map_line_start_block s req"
  "ocf_map_line_end_block s (put_entry i f req) = ocf_map_line_end_block s req"
  "ocf_map_line_start_block s (looked_up t k rq) = ocf_map_line_start_block s rq"
  "ocf_map_line_end_block s (looked_up t k rq) = ocf_map_line_end_block s rq"
  by (simp_all add: fun_eq_iff ocf_map_line_start_block_def ocf_map_line_end_block_def)

lemma line_at_bound: "coll_inv s \<Longrightarrow> line_at s req i = Some l \<Longrightarrow> l < collision_table_entries s \<and> line_key s l = (rq_core req, line_first req + i)"
  by (auto simp: line_at_def cached_eq_Some coll_inv_def mapped_def)

lemma looked_up_Suc:
  "put_info (\<lambda>_. found_info s req (Suc k)) (put_entry k (\<lambda>_. found_entry s req k (rq_map req k)) (looked_up s k req)) =
   looked_up s (Suc k) req"
  by (simp add: looked_up_def put_info_def put_entry_def fun_eq_iff less_Suc_eq)

lemma put_info_value: "put_info g req = put_info (\<lambda>_. g (rinfo req)) req"
  by (simp add: put_info_def)

lemma put_info_cong: "g (rinfo req) = h (rinfo req) \<Longrightarrow> put_info g req = put_info h req"
  by (simp add: put_info_def)

lemma put_entry_value: "put_entry i f req = put_entry i (\<lambda>_. f (rq_map req i)) req"
  by (simp add: put_entry_def)

lemma inc32_count: "k < 2 ^ 32 - 1 \<Longrightarrow> inc32 (count_upto k P) = Suc (count_upto k P)"
  using count_upto_le [of k P] by (simp add: inc32_eq)

text \<open>One step of the lookup loop.\<close>

lemma lookup_miss_step:
  fixes req :: "'y eng_req_scheme"
  assumes "line_at s req k = None"
  shows "put_entry k (\<lambda>_. found_entry s req k (rq_map req k)) (looked_up s k req) = looked_up s (Suc k) req"
proof -
  have "found_info s req (Suc k) = found_info s req k"
    using assms by (simp add: found_info_def count_upto_Suc on_line_def found_status_def follows_def)
  then have "put_info (\<lambda>_. found_info s req (Suc k)) X = X" if "rinfo X = found_info s req k" for X :: "'y eng_req_scheme"
    using that by (simp add: put_info_def)
  then show ?thesis using looked_up_Suc [of s req k] by simp
qed

lemma update_req_info_steps:
  assumes "(if m_status (rq_map r k) = LOOKUP_HIT then update_hit_info s r k else Some r) = Some r1"
    and "m_status (rq_map r1 k) \<noteq> LOOKUP_MISS"
    and "ocf_metadata_get_partition_id s (coll_idx (rq_map r1 k)) = Some p"
    and "(if rq_part r1 \<noteq> p
      then put_info (\<lambda>f. f\<lparr>re_part_no := inc32 (re_part_no f)\<rparr>) (put_entry k (\<lambda>e. e\<lparr>re_part := True\<rparr>) r1) else r1) = r2"
    and "(if m_status (rq_map r2 k) = LOOKUP_REMAPPED then put_info (\<lambda>f. f\<lparr>insert_no := inc32 (insert_no f)\<rparr>) r2 else r2) = r3"
    and "(if k > 0 \<and> ocf_engine_clines_phys_cont r3 (k - 1) then put_info (\<lambda>f. f\<lparr>seq_no := inc32 (seq_no f)\<rparr>) r3 else r3) = r4"
  shows "ocf_engine_update_req_info s r k = Some r4"
proof -
  have "m_status (rq_map r1 k) \<in> {LOOKUP_HIT, LOOKUP_HIT_INVALID, LOOKUP_REMAPPED}"
    using assms(2) by (cases "m_status (rq_map r1 k)") auto
  then show ?thesis
    using assms(3) unfolding ocf_engine_update_req_info_def assms(1) bind.bind_lunit
      assms(6) [symmetric] assms(5) [symmetric] assms(4) [symmetric]
    by (simp add: Let_def)
qed

lemma lookup_hit_step:
  fixes s :: "'z lru_state_scheme" and req :: "'y eng_req_scheme"
  assumes r: "lookup_ready s req" "k < rq_count req" and l: "line_at s req k = Some l"
    and e: "e = (rq_map req k)\<lparr>m_hash := ocf_metadata_hash_func s (line_first req + k) (rq_core req), m_core_line := line_first req + k,
      m_core_id := rq_core req, m_status := LOOKUP_HIT, coll_idx := l, re_part := False\<rparr>"
  shows "ocf_engine_update_req_info s (put_entry k (\<lambda>_. e) (looked_up s k req)) k = Some (looked_up s (Suc k) req)"
proof -
  let ?a = "ocf_map_line_start_block s req k" and ?b = "ocf_map_line_end_block s req k"
  let ?r = "put_entry k (\<lambda>_. e) (looked_up s k req)"
  have R: "coll_inv s" "md_ok s" "eviction_policy s = ocf_eviction_lru" "req_shape s req" "rq_count req < 2 ^ 32"
    using r(1) by (auto simp: lookup_ready_def)
  have b: "l < collision_table_entries s" using line_at_bound [OF R(1) l] by simp
  have k: "k < 2 ^ 32 - 1" using r(2) R(5) by simp
  note T = line_tests [OF R(2) b req_blocks_range [OF R(4) r(2)]]
  have t: "metadata_test_valid_sec s l ?a ?b = Some (req_blocks s req k \<subseteq> marked Valid s l)"
    "metadata_test_dirty s l = Some (marked Dirty s l \<noteq> {})"
    "metadata_test_dirty_all_sec s l ?a ?b = Some (req_blocks s req k \<subseteq> marked Dirty s l)"
    using T by (simp_all add: req_blocks_def)
  have p: "ocf_metadata_get_partition_id s l = Some (partition_id (lru_meta s l))"
    using R(3) b by (simp add: ocf_metadata_get_partition_id_def)
  have ne: "req_blocks s req k \<noteq> {}" using req_blocks_range(1) [OF R(4) r(2)] by (simp add: req_blocks_def)
  let ?st = "found_status s req k" and ?X = "put_entry k (\<lambda>_. e\<lparr>m_status := found_status s req k\<rparr>) (looked_up s k req)"
  have st: "?st = (if req_blocks s req k \<subseteq> marked Valid s l then LOOKUP_HIT else LOOKUP_HIT_INVALID)"
    using l by (simp add: found_status_def)
  let ?I1 = "(found_info s req k)\<lparr>hit_no := hit_no (found_info s req (Suc k)), invalid_no := invalid_no (found_info s req (Suc k)),
    dirty_any := dirty_any (found_info s req (Suc k)), dirty_all := dirty_all (found_info s req (Suc k))\<rparr>"
  have hi: "update_hit_info s ?r k = Some (put_info (\<lambda>_. ?I1) ?X)"
  proof -
    have v: "e\<lparr>m_status := LOOKUP_HIT\<rparr> = e" using e by (cases "rq_map req k") simp
    have em: "m_status e = LOOKUP_HIT" "coll_idx e = l" using e by simp_all
    note C = found_info_def count_upto_Suc on_line_def l inc32_count [OF k] st
    show ?thesis
      using ne
      by (cases "req_blocks s req k \<subseteq> marked Valid s l"; cases "marked Dirty s l = {}"; cases "req_blocks s req k \<subseteq> marked Dirty s l")
         (auto simp: update_hit_info_def em t C v Let_def intro!: put_info_cong)
  qed
  have g: "l + 1 < 2 ^ 32" using b R(1) by (simp add: coll_inv_def geometry_ok_def)
  have seq: "0 < k \<and> ocf_engine_clines_phys_cont Y (k - 1) \<longleftrightarrow> follows s req k"
    if "rq_map Y k = e\<lparr>m_status := ?st, re_part := rp\<rparr>" "\<And>j. j < k \<Longrightarrow> rq_map Y j = found_entry s req j (rq_map req j)"
    for Y :: "'y eng_req_scheme" and rp
  proof (cases "0 < k")
    case True
    then have Y: "rq_map Y (k - 1) = found_entry s req (k - 1) (rq_map req (k - 1))" using that(2) by simp
    show ?thesis
    proof (cases "line_at s req (k - 1)")
      case None
      then show ?thesis using Y that(1) True l
        by (simp add: ocf_engine_clines_phys_cont_def follows_def found_entry_def found_status_def)
    next
      case (Some l')
      have "l' + 1 < 2 ^ 32" using line_at_bound [OF R(1) Some] R(1) by (simp add: coll_inv_def geometry_ok_def)
      then show ?thesis using Some Y that(1) True l e
        by (auto simp: ocf_engine_clines_phys_cont_def follows_def found_entry_def found_status_def Let_def)
    qed
  qed (simp add: follows_def)
  have fe: "found_entry s req k (rq_map req k) = e\<lparr>m_status := ?st, re_part := partition_id (lru_meta s l) \<noteq> rq_part req\<rparr>"
    using l e by (simp add: found_entry_def on_line_def)
  let ?Z = "put_entry k (\<lambda>_. found_entry s req k (rq_map req k)) (looked_up s k req)"
  let ?I2 = "?I1\<lparr>re_part_no := re_part_no (found_info s req (Suc k))\<rparr>"
  have rp: "(if rq_part (put_info (\<lambda>_. ?I1) ?X) \<noteq> partition_id (lru_meta s l)
      then put_info (\<lambda>f. f\<lparr>re_part_no := inc32 (re_part_no f)\<rparr>) (put_entry k (\<lambda>e. e\<lparr>re_part := True\<rparr>) (put_info (\<lambda>_. ?I1) ?X))
      else put_info (\<lambda>_. ?I1) ?X) = put_info (\<lambda>_. ?I2) ?Z"
  proof (cases "rq_part req = partition_id (lru_meta s l)")
    case True
    moreover have "e\<lparr>m_status := ?st, re_part := False\<rparr> = e\<lparr>m_status := ?st\<rparr>"
      unfolding e by simp
    moreover have "re_part_no (found_info s req (Suc k)) = re_part_no (found_info s req k)"
      using True by (simp add: found_info_def count_upto_Suc on_line_def l)
    ultimately show ?thesis by (simp add: fe)
  next
    case False
    moreover have "re_part_no (found_info s req (Suc k)) = inc32 (re_part_no (found_info s req k))"
      using False by (simp add: found_info_def count_upto_Suc on_line_def l inc32_count [OF k])
    ultimately show ?thesis by (simp add: fe)
  qed
  have sq: "(if k > 0 \<and> ocf_engine_clines_phys_cont (put_info (\<lambda>_. ?I2) ?Z) (k - 1)
      then put_info (\<lambda>f. f\<lparr>seq_no := inc32 (seq_no f)\<rparr>) (put_info (\<lambda>_. ?I2) ?Z) else put_info (\<lambda>_. ?I2) ?Z) =
      put_info (\<lambda>_. found_info s req (Suc k)) ?Z"
  proof -
    have c: "0 < k \<and> ocf_engine_clines_phys_cont (put_info (\<lambda>_. ?I2) ?Z) (k - 1) \<longleftrightarrow> follows s req k"
      by (rule seq [of "put_info (\<lambda>_. ?I2) ?Z" "partition_id (lru_meta s l) \<noteq> rq_part req"]) (simp_all add: fe)
    show ?thesis
      unfolding c by (cases "follows s req k") (simp_all add: found_info_def count_upto_Suc inc32_count [OF k])
  qed
  show ?thesis
    unfolding looked_up_Suc [symmetric]
  proof (rule update_req_info_steps [OF _ _ _ rp _ sq])
    show "(if m_status (rq_map ?r k) = LOOKUP_HIT then update_hit_info s ?r k else Some ?r) = Some (put_info (\<lambda>_. ?I1) ?X)"
      using hi e by simp
    show "m_status (rq_map (put_info (\<lambda>_. ?I1) ?X) k) \<noteq> LOOKUP_MISS" using st by simp
    show "ocf_metadata_get_partition_id s (coll_idx (rq_map (put_info (\<lambda>_. ?I1) ?X) k)) = Some (partition_id (lru_meta s l))"
      using p e by simp
    have "m_status (rq_map (put_info (\<lambda>_. ?I2) ?Z) k) \<noteq> LOOKUP_REMAPPED" using st by (simp add: found_entry_def)
    then show "(if m_status (rq_map (put_info (\<lambda>_. ?I2) ?Z) k) = LOOKUP_REMAPPED
        then put_info (\<lambda>f. f\<lparr>insert_no := inc32 (insert_no f)\<rparr>) (put_info (\<lambda>_. ?I2) ?Z) else put_info (\<lambda>_. ?I2) ?Z) =
        put_info (\<lambda>_. ?I2) ?Z"
      by (rule if_not_P)
  qed
qed

lemma ready_bounds:
  assumes "lookup_ready s req"
  shows "coll_inv s" "md_ok s" "rq_core req < OCF_CORE_NUM" "rq_count req < 2 ^ 32" "0 < rq_count req"
    "[line_first req..<line_last req + 1] = [line_first req..<line_first req + rq_count req]"
  using assms by (auto simp: lookup_ready_def req_shape_def)

lemma lookup_loop_spec:
  fixes s :: "'z lru_state_scheme" and req :: "'y eng_req_scheme"
  assumes "lookup_ready s req" "k + length cls = rq_count req" "cls = [line_first req + k..<line_first req + rq_count req]"
  shows "lookup_loop s cls k (looked_up s k req) = Some (looked_up s (rq_count req) req)"
  using assms(2,3)
proof (induction cls arbitrary: k)
  case Nil
  then show ?case by simp
next
  case (Cons c cls)
  note R = ready_bounds [OF assms(1)]
  have k: "k < rq_count req" using Cons.prems(1) by simp
  then have c: "c = line_first req + k" "cls = [line_first req + Suc k..<line_first req + rq_count req]"
    using Cons.prems(2) by (simp_all add: upt_conv_Cons)
  let ?e = "(rq_map req k)\<lparr>m_hash := ocf_metadata_hash_func s c (rq_core req), m_core_line := c, m_core_id := rq_core req,
      m_status := (if line_at s req k = None then LOOKUP_MISS else LOOKUP_HIT),
      coll_idx := (case line_at s req k of None \<Rightarrow> collision_table_entries s | Some l \<Rightarrow> l)\<rparr>"
  have e: "ocf_engine_lookup_map_entry s (rq_map (looked_up s k req) k) (rq_core (looked_up s k req)) c = Some ?e"
    using lookup_map_entry_spec [OF R(1,3)] c by (simp add: line_at_def)
  have u: "(if m_status (rq_map (put_entry k (\<lambda>_. ?e\<lparr>re_part := False\<rparr>) (looked_up s k req)) k) \<noteq> LOOKUP_HIT
      then Some (put_entry k (\<lambda>_. ?e\<lparr>re_part := False\<rparr>) (looked_up s k req))
      else ocf_engine_update_req_info s (put_entry k (\<lambda>_. ?e\<lparr>re_part := False\<rparr>) (looked_up s k req)) k) =
      Some (looked_up s (Suc k) req)"
  proof (cases "line_at s req k")
    case None
    then have "?e\<lparr>re_part := False\<rparr> = found_entry s req k (rq_map req k)"
      using c by (simp add: found_entry_def found_status_def on_line_def)
    then show ?thesis using lookup_miss_step [OF None] None by (simp add: found_entry_def found_status_def)
  next
    case (Some l)
    then show ?thesis using lookup_hit_step [OF assms(1) k Some, of "?e\<lparr>re_part := False\<rparr>"] c by simp
  qed
  have "lookup_loop s (c # cls) k (looked_up s k req) = lookup_loop s cls (Suc k) (looked_up s (Suc k) req)"
    unfolding lookup_loop.simps Let_def e bind.bind_lunit u by simp
  then show ?case using Cons.IH [of "Suc k"] Cons.prems(1) c by simp
qed

lemma lookup_spec:
  assumes "lookup_ready s req"
  shows "ocf_engine_lookup s req = Some (looked_up s (rq_count req) req)"
proof -
  have "ocf_req_clear_info req = looked_up s 0 req"
    by (simp add: ocf_req_clear_info_def looked_up_def found_info_def clear_info_def)
  then show ?thesis
    using lookup_loop_spec [OF assms, of 0] ready_bounds(6) [OF assms] by (simp add: ocf_engine_lookup_def)
qed

subsection \<open>Counting\<close>

lemma count_upto_full: "count_upto n P = n \<longleftrightarrow> (\<forall>i < n. P i)"
proof (induction n)
  case (Suc n)
  have "count_upto (Suc n) P = Suc n \<longleftrightarrow> count_upto n P = n \<and> P n"
    using count_upto_le [of n P] by (simp add: count_upto_Suc)
  then show ?case by (simp add: Suc.IH All_less_Suc conj_commute)
qed simp

lemma count_upto_disj:
  "(\<And>i. \<not> (P i \<and> Q i)) \<Longrightarrow> count_upto n P + count_upto n Q = count_upto n (\<lambda>i. P i \<or> Q i)"
  by (induction n) (auto simp: count_upto_Suc)

lemma count_upto_not: "count_upto n P + count_upto n (\<lambda>i. \<not> P i) = n"
  by (induction n) (auto simp: count_upto_Suc)

lemma count_upto_tail:
  assumes "\<not> P 0"
  shows "count_upto (Suc m) P \<le> m \<and> (count_upto (Suc m) P = m \<longleftrightarrow> (\<forall>i < m. P (Suc i)))"
proof (induction m)
  case 0
  show ?case using assms by (simp add: count_upto_Suc)
next
  case (Suc m)
  have "count_upto (Suc (Suc m)) P = count_upto (Suc m) P + of_bool (P (Suc m))" by (rule count_upto_Suc)
  then show ?case using Suc.IH by (auto simp: All_less_Suc)
qed

lemma found_status_iff:
  "found_status s req i = LOOKUP_HIT \<longleftrightarrow> (\<exists>l. line_at s req i = Some l \<and> req_blocks s req i \<subseteq> marked Valid s l)"
  "found_status s req i = LOOKUP_HIT \<or> found_status s req i = LOOKUP_HIT_INVALID \<longleftrightarrow> line_at s req i \<noteq> None"
  "on_line s req P i \<longleftrightarrow> (\<exists>l. line_at s req i = Some l \<and> P i l)"
  by (auto simp: found_status_def on_line_def split: option.splits)

lemma found_mapped:
  "hit_no (found_info s req n) + invalid_no (found_info s req n) = count_upto n (\<lambda>i. line_at s req i \<noteq> None)"
proof -
  have "count_upto n (\<lambda>i. found_status s req i = LOOKUP_HIT) + count_upto n (\<lambda>i. found_status s req i = LOOKUP_HIT_INVALID) =
      count_upto n (\<lambda>i. found_status s req i = LOOKUP_HIT \<or> found_status s req i = LOOKUP_HIT_INVALID)"
    by (rule count_upto_disj) simp
  then show ?thesis unfolding found_status_iff(2) by (simp add: found_info_def)
qed

lemma follows_all:
  "(\<forall>i < n. line_at s req i \<noteq> None) \<and> (\<forall>i. Suc i < n \<longrightarrow> follows s req (Suc i)) \<longleftrightarrow>
   n = 0 \<or> (\<exists>l. \<forall>i < n. line_at s req i = Some (l + i))" (is "?L \<longleftrightarrow> ?R")
proof
  assume L: ?L
  show ?R
  proof (cases n)
    case (Suc m)
    then obtain l where l: "line_at s req 0 = Some l" using L by fastforce
    have "line_at s req i = Some (l + i)" if "i < n" for i
      using that
    proof (induction i)
      case (Suc i)
      then have "follows s req (Suc i)" "line_at s req i = Some (l + i)" using L by simp_all
      then show ?case by (auto simp: follows_def)
    qed (use l in simp)
    then show ?thesis by blast
  qed simp
next
  assume ?R
  then show ?L by (auto simp: follows_def)
qed

lemma found_sequential:
  assumes "0 < n" "n < 2 ^ 32"
  shows "seq_no (found_info s req n) = (n + (2 ^ 32 - 1)) mod 2 ^ 32 \<longleftrightarrow> (\<forall>i. Suc i < n \<longrightarrow> follows s req (Suc i))"
proof -
  obtain m where m: "n = Suc m" using assms(1) by (cases n) auto
  have "(n + (2 ^ 32 - 1)) mod 2 ^ 32 = m"
  proof -
    have "n + (2 ^ 32 - 1) = m + 2 ^ 32" using m by simp
    then show ?thesis using assms(2) m by simp
  qed
  then show ?thesis
    using count_upto_tail [of "follows s req" m] m by (simp add: found_info_def follows_def)
qed

text \<open>
  C5: A lookup of a request's core lines is exact. It succeeds, every entry of the map names the cache line that holds the
  core line (or the value past the last line, for a miss) with the status of the request's sectors in it, and the counters
  of the request are those of the cache: the request is a hit exactly when all its sectors are valid in the cache, mapped
  when each of its core lines has a cache line, all dirty when its sectors are, sequential when it is a hit in consecutive
  cache lines, in need of a move to another partition when one of its lines is in another, and the number of lines it
  still needs is the number of core lines without a cache line.
\<close>

theorem engine_lookup_correct:
  assumes "lookup_ready s req"
  shows "\<exists>r. ocf_engine_lookup s req = Some r \<and>
    (\<forall>i < rq_count req. rq_map r i = found_entry s req i (rq_map req i)) \<and> rinfo r = found_info s req (rq_count req) \<and>
    (ocf_engine_is_hit r \<longleftrightarrow>
      (\<forall>i < rq_count req. \<exists>l. line_at s req i = Some l \<and> req_blocks s req i \<subseteq> marked Valid s l)) \<and>
    (ocf_engine_is_mapped r \<longleftrightarrow> (\<forall>i < rq_count req. line_at s req i \<noteq> None)) \<and>
    (ocf_engine_is_dirty_all r \<longleftrightarrow>
      (\<forall>i < rq_count req. \<exists>l. line_at s req i = Some l \<and> req_blocks s req i \<subseteq> marked Dirty s l)) \<and>
    (ocf_engine_is_sequential r \<longleftrightarrow> ocf_engine_is_hit r \<and> (\<exists>l. \<forall>i < rq_count req. line_at s req i = Some (l + i))) \<and>
    (ocf_engine_needs_repart r \<longleftrightarrow>
      (\<exists>i < rq_count req. \<exists>l. line_at s req i = Some l \<and> partition_id (lru_meta s l) \<noteq> rq_part req)) \<and>
    ocf_engine_unmapped_count r = card {i. i < rq_count req \<and> line_at s req i = None}"
proof -
  let ?n = "rq_count req" and ?r = "looked_up s (rq_count req) req" and ?f = "found_info s req (rq_count req)"
  note R = ready_bounds [OF assms]
  have hit: "ocf_engine_is_hit ?r \<longleftrightarrow>
      (\<forall>i < ?n. \<exists>l. line_at s req i = Some l \<and> req_blocks s req i \<subseteq> marked Valid s l)"
    unfolding found_status_iff(1) [symmetric]
    by (simp add: ocf_engine_is_hit_def found_info_def count_upto_full)
  have lt: "count_upto ?n P < 2 ^ 32" for P using count_upto_le [of ?n P] R(4) by simp
  have mapd: "ocf_engine_is_mapped ?r \<longleftrightarrow> (\<forall>i < ?n. line_at s req i \<noteq> None)"
    using lt by (simp add: ocf_engine_is_mapped_def found_mapped count_upto_full)
  have dirt: "ocf_engine_is_dirty_all ?r \<longleftrightarrow>
      (\<forall>i < ?n. \<exists>l. line_at s req i = Some l \<and> req_blocks s req i \<subseteq> marked Dirty s l)"
    by (simp add: ocf_engine_is_dirty_all_def found_info_def count_upto_full found_status_iff(3))
  have rep: "ocf_engine_needs_repart ?r \<longleftrightarrow>
      (\<exists>i < ?n. \<exists>l. line_at s req i = Some l \<and> partition_id (lru_meta s l) \<noteq> rq_part req)"
    by (auto simp: ocf_engine_needs_repart_def found_info_def count_upto_def card_gt_0_iff found_status_iff(3))
  have unm: "ocf_engine_unmapped_count ?r = card {i. i < ?n \<and> line_at s req i = None}"
  proof -
    have "count_upto ?n (\<lambda>i. line_at s req i \<noteq> None) + card {i. i < ?n \<and> line_at s req i = None} = ?n"
      using count_upto_not [of ?n "\<lambda>i. line_at s req i \<noteq> None"] by (simp add: count_upto_def)
    moreover have "hit_no ?f + invalid_no ?f + insert_no ?f = count_upto ?n (\<lambda>i. line_at s req i \<noteq> None)"
      using found_mapped [of s req ?n] by (simp add: found_info_def)
    ultimately show ?thesis using R(4) by (simp add: ocf_engine_unmapped_count_def)
  qed
  have sq: "ocf_engine_is_sequential ?r \<longleftrightarrow> ocf_engine_is_hit ?r \<and> (\<exists>l. \<forall>i < ?n. line_at s req i = Some (l + i))"
  proof -
    have h: "(hit_no ?f + insert_no ?f) mod 2 ^ 32 = ?n \<longleftrightarrow> ocf_engine_is_hit ?r"
      using lt by (simp add: ocf_engine_is_hit_def found_info_def)
    have "ocf_engine_is_hit ?r \<longrightarrow> (\<forall>i < ?n. line_at s req i \<noteq> None)" using hit by auto
    then show ?thesis
      using follows_all [of ?n s req] found_sequential [OF R(5,4)] h R(5)
      by (auto simp: ocf_engine_is_sequential_def)
  qed
  show ?thesis
    using lookup_spec [OF assms] hit mapd dirt rep unm sq by simp
qed

subsection \<open>The hashes of a request\<close>

lemma req_hash_loop_spec:
  fixes s :: "'z coll_state_scheme" and req :: "'y eng_req_scheme"
  assumes g: "geometry_ok s" and lt: "line_first req + n + rq_core req * (hash_table_entries s div 32) mod 2 ^ 32 < 2 ^ 64"
  shows "0 < k \<Longrightarrow> k \<le> n \<Longrightarrow> rq_core r = rq_core req \<Longrightarrow>
    \<exists>M. req_hash_loop s [k..<n] (ocf_metadata_hash_func s (line_first req + k - 1) (rq_core req)) r = r\<lparr>rq_map := M\<rparr> \<and>
      (\<forall>i. M i = (if k \<le> i \<and> i < n then (rq_map r i)\<lparr>m_hash := ocf_metadata_hash_func s (line_first req + i) (rq_core req)\<rparr>
                else rq_map r i))"
proof (induction "n - k" arbitrary: k r)
  case 0
  then show ?case by (intro exI [of _ "rq_map r"]) simp
next
  case (Suc d)
  then have k: "k < n" "d = n - Suc k" by simp_all
  have "line_first req + k - 1 + rq_core req * (hash_table_entries s div 32) mod 2 ^ 32 < 2 ^ 64 - 1"
    using lt k Suc.prems(1) by simp
  from hash_next_step [OF g this] have h: "ocf_metadata_hash_next s (ocf_metadata_hash_func s (line_first req + k - 1) (rq_core req)) =
      ocf_metadata_hash_func s (line_first req + k) (rq_core req)" using Suc.prems(1) by simp
  let ?r = "put_entry k (\<lambda>e. e\<lparr>m_hash := ocf_metadata_hash_func s (line_first req + k) (rq_core req)\<rparr>) r"
  obtain M where M: "req_hash_loop s [Suc k..<n] (ocf_metadata_hash_func s (line_first req + Suc k - 1) (rq_core req)) ?r = ?r\<lparr>rq_map := M\<rparr>"
    "\<forall>i. M i = (if Suc k \<le> i \<and> i < n then (rq_map ?r i)\<lparr>m_hash := ocf_metadata_hash_func s (line_first req + i) (rq_core req)\<rparr>
      else rq_map ?r i)"
    using Suc.hyps(1) [of "Suc k" ?r] k Suc.prems(3) by auto
  have "req_hash_loop s [k..<n] (ocf_metadata_hash_func s (line_first req + k - 1) (rq_core req)) r = r\<lparr>rq_map := M\<rparr>"
    using M(1) h k by (simp add: upt_conv_Cons Let_def) (simp add: put_entry_def)
  then show ?case using M(2) k by (intro exI [of _ M]) (auto simp: le_Suc_eq)
qed

text \<open>
  The hashes of a request are computed from its first core line by repeated incrementing with wrap-around at the
  number of buckets; every map entry gets the value that the hash function has on its core line, and nothing else of
  the request changes.
\<close>

theorem req_hash_correct:
  assumes "geometry_ok s" "line_first req + rq_count req + rq_core req * (hash_table_entries s div 32) mod 2 ^ 32 < 2 ^ 64"
  shows "ocf_req_hash s req = req\<lparr>rq_map := (\<lambda>i. if i < rq_count req
      then (rq_map req i)\<lparr>m_hash := ocf_metadata_hash_func s (line_first req + i) (rq_core req)\<rparr> else rq_map req i)\<rparr>"
proof (cases "rq_count req")
  case 0
  then show ?thesis by (simp add: ocf_req_hash_def)
next
  case (Suc n)
  let ?r = "put_entry 0 (\<lambda>e. e\<lparr>m_hash := ocf_metadata_hash_func s (line_first req) (rq_core req)\<rparr>) req"
  obtain M where M: "req_hash_loop s [1..<rq_count req] (ocf_metadata_hash_func s (line_first req) (rq_core req)) ?r = ?r\<lparr>rq_map := M\<rparr>"
    "\<forall>i. M i = (if 1 \<le> i \<and> i < rq_count req then (rq_map ?r i)\<lparr>m_hash := ocf_metadata_hash_func s (line_first req + i) (rq_core req)\<rparr>
      else rq_map ?r i)"
    using req_hash_loop_spec [OF assms, of 1 ?r] Suc by auto
  have "M = (\<lambda>i. if i < rq_count req
      then (rq_map req i)\<lparr>m_hash := ocf_metadata_hash_func s (line_first req + i) (rq_core req)\<rparr> else rq_map req i)"
  proof
    fix i
    show "M i = (if i < rq_count req
        then (rq_map req i)\<lparr>m_hash := ocf_metadata_hash_func s (line_first req + i) (rq_core req)\<rparr> else rq_map req i)"
      using M(2) Suc by (cases i) simp_all
  qed
  then show ?thesis using M(1) Suc by (simp add: ocf_req_hash_def Let_def) (simp add: put_entry_def)
qed

subsection \<open>Checking a request that waited for its locks\<close>

text \<open>
  What the check of entry \<open>i\<close> counts. Sectors are examined only in an entry that the lookup left as a hit: one that it
  found without all of the sectors valid, \<open>LOOKUP_HIT_INVALID\<close>, is counted neither as invalid nor as dirty.
\<close>

definition entry_mapped :: "'y eng_req_scheme \<Rightarrow> nat \<Rightarrow> bool" where
  "entry_mapped req i \<longleftrightarrow> m_status (rq_map req i) \<noteq> LOOKUP_MISS"

definition entry_held :: "'z md_state_scheme \<Rightarrow> 'y eng_req_scheme \<Rightarrow> nat \<Rightarrow> bool" where
  "entry_held s req i \<longleftrightarrow> entry_mapped req i \<and>
     line_key s (coll_idx (rq_map req i)) = (rq_core req, m_core_line (rq_map req i))"

definition entry_sectors :: "what \<Rightarrow> 'z md_state_scheme \<Rightarrow> 'y eng_req_scheme \<Rightarrow> nat \<Rightarrow> bool" where
  "entry_sectors w s req i \<longleftrightarrow> req_blocks s req i \<subseteq> marked w s (coll_idx (rq_map req i))"

definition entry_misplaced :: "'z lru_state_scheme \<Rightarrow> 'y eng_req_scheme \<Rightarrow> nat \<Rightarrow> bool" where
  "entry_misplaced s req i \<longleftrightarrow> partition_id (lru_meta s (coll_idx (rq_map req i))) \<noteq> rq_part req"

definition entry_follows :: "'y eng_req_scheme \<Rightarrow> nat \<Rightarrow> bool" where
  "entry_follows req i \<longleftrightarrow> 0 < i \<and> entry_mapped req (i - 1) \<and> coll_idx (rq_map req i) = Suc (coll_idx (rq_map req (i - 1)))"

definition held_with :: "'z md_state_scheme \<Rightarrow> 'y eng_req_scheme \<Rightarrow> lookup_status \<Rightarrow> nat \<Rightarrow> bool" where
  "held_with s req st i \<longleftrightarrow> entry_held s req i \<and> m_status (rq_map req i) = st"

definition checked_info :: "'z lru_state_scheme \<Rightarrow> 'y eng_req_scheme \<Rightarrow> nat \<Rightarrow> ocf_req_info" where
  "checked_info s req k = \<lparr>
     hit_no = count_upto k (\<lambda>i. held_with s req LOOKUP_HIT i \<and> entry_sectors Valid s req i),
     invalid_no = count_upto k (\<lambda>i. held_with s req LOOKUP_HIT i \<and> \<not> entry_sectors Valid s req i),
     re_part_no = count_upto k (\<lambda>i. entry_held s req i \<and> entry_misplaced s req i),
     seq_no = count_upto k (\<lambda>i. entry_held s req i \<and> entry_follows req i),
     insert_no = count_upto k (held_with s req LOOKUP_REMAPPED),
     dirty_all = count_upto k (\<lambda>i. held_with s req LOOKUP_HIT i \<and> entry_sectors Dirty s req i),
     dirty_any = count_upto k (\<lambda>i. held_with s req LOOKUP_HIT i \<and> marked Dirty s (coll_idx (rq_map req i)) \<noteq> {}),
     mapping_error = False, cleaning_required = False\<rparr>"

definition updated_entry :: "'z lru_state_scheme \<Rightarrow> 'y eng_req_scheme \<Rightarrow> nat \<Rightarrow> ocf_map_info" where
  "updated_entry s req i = (rq_map req i)\<lparr>
     m_status := (if m_status (rq_map req i) = LOOKUP_HIT \<and> \<not> entry_sectors Valid s req i then LOOKUP_HIT_INVALID
                  else m_status (rq_map req i)),
     re_part := re_part (rq_map req i) \<or> entry_misplaced s req i\<rparr>"

definition checked_entry :: "'z lru_state_scheme \<Rightarrow> 'y eng_req_scheme \<Rightarrow> nat \<Rightarrow> ocf_map_info" where
  "checked_entry s req i =
     (if \<not> entry_mapped req i then (rq_map req i)\<lparr>re_part := False\<rparr>
      else if \<not> entry_held s req i then (rq_map req i)\<lparr>re_part := False, m_invalid := True\<rparr>
      else (rq_map req i)\<lparr>m_invalid := False,
        m_status := (if m_status (rq_map req i) = LOOKUP_HIT \<and> \<not> entry_sectors Valid s req i then LOOKUP_HIT_INVALID
                     else m_status (rq_map req i)),
        re_part := entry_misplaced s req i\<rparr>)"

definition checked :: "'z lru_state_scheme \<Rightarrow> nat \<Rightarrow> 'y eng_req_scheme \<Rightarrow> 'y eng_req_scheme" where
  "checked s k req = req\<lparr>rq_map := (\<lambda>i. if i < k then checked_entry s req i else rq_map req i),
     rinfo := checked_info s req k, flush_metadata := False\<rparr>"

definition bump :: "bool \<Rightarrow> nat \<Rightarrow> nat" where
  "bump c x = (if c then inc32 x else x)"

lemma bump_simps [simp]: "bump True x = inc32 x" "bump False x = x"
  by (simp_all add: bump_def)

definition updated_info :: "'z lru_state_scheme \<Rightarrow> 'y eng_req_scheme \<Rightarrow> nat \<Rightarrow> ocf_req_info \<Rightarrow> ocf_req_info" where
  "updated_info s req i f =
     (let st = m_status (rq_map req i); h = (st = LOOKUP_HIT) in
      f\<lparr>hit_no := bump (h \<and> entry_sectors Valid s req i) (hit_no f),
        invalid_no := bump (h \<and> \<not> entry_sectors Valid s req i) (invalid_no f),
        dirty_any := bump (h \<and> marked Dirty s (coll_idx (rq_map req i)) \<noteq> {}) (dirty_any f),
        dirty_all := bump (h \<and> entry_sectors Dirty s req i) (dirty_all f),
        re_part_no := bump (entry_misplaced s req i) (re_part_no f),
        insert_no := bump (st = LOOKUP_REMAPPED) (insert_no f),
        seq_no := bump (entry_follows req i) (seq_no f)\<rparr>)"

lemma phys_cont_iff:
  assumes "0 < k" "coll_idx (rq_map req k) < 2 ^ 32" "m_status (rq_map req k) \<noteq> LOOKUP_MISS"
  shows "ocf_engine_clines_phys_cont req (k - 1) \<longleftrightarrow> entry_follows req k"
  using assms by (auto simp: ocf_engine_clines_phys_cont_def entry_follows_def entry_mapped_def Let_def)

lemma update_hit_effect:
  assumes "md_ok s" "req_shape s req" "k < rq_count req" "coll_idx (rq_map req k) < collision_table_entries s"
    and h: "m_status (rq_map req k) = LOOKUP_HIT"
  shows "update_hit_info s req k = Some (put_info (\<lambda>f. f\<lparr>hit_no := bump (entry_sectors Valid s req k) (hit_no f),
        invalid_no := bump (\<not> entry_sectors Valid s req k) (invalid_no f),
        dirty_any := bump (marked Dirty s (coll_idx (rq_map req k)) \<noteq> {}) (dirty_any f),
        dirty_all := bump (entry_sectors Dirty s req k) (dirty_all f)\<rparr>)
      (put_entry k (\<lambda>e. e\<lparr>m_status := if entry_sectors Valid s req k then LOOKUP_HIT else LOOKUP_HIT_INVALID\<rparr>) req))"
proof -
  let ?a = "ocf_map_line_start_block s req k" and ?b = "ocf_map_line_end_block s req k" and ?l = "coll_idx (rq_map req k)"
  note T = line_tests [OF assms(1,4) req_blocks_range [OF assms(2,3)]]
  have t: "metadata_test_valid_sec s ?l ?a ?b = Some (entry_sectors Valid s req k)"
    "metadata_test_dirty s ?l = Some (marked Dirty s ?l \<noteq> {})"
    "metadata_test_dirty_all_sec s ?l ?a ?b = Some (entry_sectors Dirty s req k)"
    using T by (simp_all add: req_blocks_def entry_sectors_def)
  have ne: "\<not> entry_sectors Dirty s req k" if "marked Dirty s ?l = {}"
    using that req_blocks_range(1) [OF assms(2,3)] by (auto simp: req_blocks_def entry_sectors_def)
  have v: "put_entry k (\<lambda>e. e\<lparr>m_status := LOOKUP_HIT\<rparr>) req = req"
  proof -
    have "(rq_map req k)\<lparr>m_status := LOOKUP_HIT\<rparr> = rq_map req k" using h by (cases "rq_map req k") simp
    then show ?thesis by (simp add: put_entry_def)
  qed
  let ?V = "entry_sectors Valid s req k" and ?D = "marked Dirty s ?l \<noteq> {}" and ?A = "entry_sectors Dirty s req k"
  consider "?V" "?D" "?A" | "?V" "?D" "\<not> ?A" | "?V" "\<not> ?D" "\<not> ?A" |
    "\<not> ?V" "?D" "?A" | "\<not> ?V" "?D" "\<not> ?A" | "\<not> ?V" "\<not> ?D" "\<not> ?A"
    using ne by blast
  then show ?thesis
    by cases (simp_all add: update_hit_info_def t bump_def v Let_def)
qed


lemma entry_follows_put:
  "coll_idx u = coll_idx (rq_map req k) \<Longrightarrow> entry_follows (put_info g (put_entry k (\<lambda>_. u) req)) k \<longleftrightarrow> entry_follows req k"
  by (cases k) (simp_all add: entry_follows_def entry_mapped_def)

lemma update_effect:
  assumes "md_ok s" "eviction_policy s = ocf_eviction_lru" "req_shape s req" "k < rq_count req"
    and b: "coll_idx (rq_map req k) < collision_table_entries s" "collision_table_entries s \<le> 2 ^ 32"
    and m: "entry_mapped req k"
  shows "ocf_engine_update_req_info s req k =
    Some (put_info (updated_info s req k) (put_entry k (\<lambda>_. updated_entry s req k) req))"
proof -
  let ?h = "m_status (rq_map req k) = LOOKUP_HIT" and ?l = "coll_idx (rq_map req k)"
  let ?V = "entry_sectors Valid s req k" and ?P = "entry_misplaced s req k" and ?R = "m_status (rq_map req k) = LOOKUP_REMAPPED"
  let ?e1 = "(rq_map req k)\<lparr>m_status := if ?h \<and> \<not> ?V then LOOKUP_HIT_INVALID else m_status (rq_map req k)\<rparr>"
  let ?i1 = "(rinfo req)\<lparr>hit_no := bump (?h \<and> ?V) (hit_no (rinfo req)), invalid_no := bump (?h \<and> \<not> ?V) (invalid_no (rinfo req)),
      dirty_any := bump (?h \<and> marked Dirty s ?l \<noteq> {}) (dirty_any (rinfo req)),
      dirty_all := bump (?h \<and> entry_sectors Dirty s req k) (dirty_all (rinfo req))\<rparr>"
  have 1: "(if ?h then update_hit_info s req k else Some req) = Some (put_info (\<lambda>_. ?i1) (put_entry k (\<lambda>_. ?e1) req))"
  proof (cases ?h)
    case True
    then show ?thesis
      using update_hit_effect [OF assms(1,3,4) b(1) True]
      by (simp add: put_info_def put_entry_def)
  next
    case False
    then show ?thesis by (simp add: bump_def put_info_def put_entry_def)
  qed
  have st: "m_status ?e1 \<noteq> LOOKUP_MISS" "m_status ?e1 = LOOKUP_REMAPPED \<longleftrightarrow> ?R"
    using m by (auto simp: entry_mapped_def)
  have p: "ocf_metadata_get_partition_id s ?l = Some (partition_id (lru_meta s ?l))"
    using assms(2) b by (simp add: ocf_metadata_get_partition_id_def)
  let ?u = "updated_entry s req k" and ?i2 = "?i1\<lparr>re_part_no := bump ?P (re_part_no (rinfo req))\<rparr>"
  have 2: "(if rq_part (put_info (\<lambda>_. ?i1) (put_entry k (\<lambda>_. ?e1) req)) \<noteq> partition_id (lru_meta s ?l)
      then put_info (\<lambda>f. f\<lparr>re_part_no := inc32 (re_part_no f)\<rparr>)
        (put_entry k (\<lambda>e. e\<lparr>re_part := True\<rparr>) (put_info (\<lambda>_. ?i1) (put_entry k (\<lambda>_. ?e1) req)))
      else put_info (\<lambda>_. ?i1) (put_entry k (\<lambda>_. ?e1) req)) = put_info (\<lambda>_. ?i2) (put_entry k (\<lambda>_. ?u) req)"
  proof (cases ?P)
    case True
    then show ?thesis by (simp add: bump_def updated_entry_def entry_misplaced_def)
  next
    case False
    then have "?u = ?e1" by (simp add: updated_entry_def)
    then show ?thesis using False by (simp add: bump_def entry_misplaced_def)
  qed
  let ?i3 = "?i2\<lparr>insert_no := bump ?R (insert_no (rinfo req))\<rparr>"
  have su: "m_status ?u = LOOKUP_REMAPPED \<longleftrightarrow> ?R" "coll_idx ?u = ?l" by (simp_all add: updated_entry_def)
  have 3: "(if m_status (rq_map (put_info (\<lambda>_. ?i2) (put_entry k (\<lambda>_. ?u) req)) k) = LOOKUP_REMAPPED
      then put_info (\<lambda>f. f\<lparr>insert_no := inc32 (insert_no f)\<rparr>) (put_info (\<lambda>_. ?i2) (put_entry k (\<lambda>_. ?u) req))
      else put_info (\<lambda>_. ?i2) (put_entry k (\<lambda>_. ?u) req)) = put_info (\<lambda>_. ?i3) (put_entry k (\<lambda>_. ?u) req)"
    using su(1) by (cases ?R) simp_all
  let ?Y = "put_info (\<lambda>_. ?i3) (put_entry k (\<lambda>_. ?u) req)"
  have 4: "(if 0 < k \<and> ocf_engine_clines_phys_cont ?Y (k - 1) then put_info (\<lambda>f. f\<lparr>seq_no := inc32 (seq_no f)\<rparr>) ?Y else ?Y) =
      put_info (updated_info s req k) (put_entry k (\<lambda>_. ?u) req)"
  proof -
    have "m_status (rq_map ?Y k) \<noteq> LOOKUP_MISS" "coll_idx (rq_map ?Y k) < 2 ^ 32"
      unfolding put_simps using su b m by (simp_all add: updated_entry_def entry_mapped_def)
    then have c: "0 < k \<and> ocf_engine_clines_phys_cont ?Y (k - 1) \<longleftrightarrow> entry_follows req k"
      using phys_cont_iff [of k ?Y] entry_follows_put [OF su(2)] by (cases "k = 0") (simp_all add: entry_follows_def [of req 0])
    have i: "(if entry_follows req k then ?i3\<lparr>seq_no := inc32 (seq_no ?i3)\<rparr> else ?i3) = updated_info s req k (rinfo req)"
      by (cases "entry_follows req k") (simp_all add: updated_info_def Let_def)
    show ?thesis
    proof (cases "entry_follows req k")
      case True
      show ?thesis unfolding c if_P [OF True] put_simps
        by (rule put_info_cong) (use i True in simp)
    next
      case False
      show ?thesis unfolding c if_not_P [OF False]
        by (rule put_info_cong) (use i False in simp)
    qed
  qed
  show ?thesis
    by (rule update_req_info_steps [OF 1 _ _ 2 3 4]) (use st(1) p in simp_all)
qed

definition check_ready :: "'z lru_state_scheme \<Rightarrow> 'y eng_req_scheme \<Rightarrow> bool" where
  "check_ready s req \<longleftrightarrow> md_ok s \<and> eviction_policy s = ocf_eviction_lru \<and> req_shape s req \<and> rq_count req < 2 ^ 32 \<and>
     collision_table_entries s \<le> 2 ^ 32 \<and> line_first req + rq_count req = line_last req + 1 \<and>
     (\<forall>i < rq_count req. entry_mapped req i \<longrightarrow> coll_idx (rq_map req i) < collision_table_entries s)"

lemma checked_simps [simp]:
  "rq_core (checked s k req) = rq_core req" "rq_part (checked s k req) = rq_part req" "rq_count (checked s k req) = rq_count req"
  "rq_addr (checked s k req) = rq_addr req" "rq_bytes (checked s k req) = rq_bytes req"
  "rinfo (checked s k req) = checked_info s req k"
  "rq_map (checked s k req) i = (if i < k then checked_entry s req i else rq_map req i)"
  by (simp_all add: checked_def)

lemma block_range_checked [simp]:
  "ocf_map_line_start_block s (checked t k rq) = ocf_map_line_start_block s rq"
  "ocf_map_line_end_block s (checked t k rq) = ocf_map_line_end_block s rq"
  by (simp_all add: fun_eq_iff ocf_map_line_start_block_def ocf_map_line_end_block_def)

lemma req_shape_cong:
  "rq_addr r = rq_addr req \<Longrightarrow> rq_bytes r = rq_bytes req \<Longrightarrow> rq_count r = rq_count req \<Longrightarrow> req_shape s r = req_shape s req"
  by (simp add: req_shape_def)

lemma checked_entry_simps [simp]:
  "coll_idx (checked_entry s req i) = coll_idx (rq_map req i)"
  "m_status (checked_entry s req i) = LOOKUP_MISS \<longleftrightarrow> m_status (rq_map req i) = LOOKUP_MISS"
  by (simp_all add: checked_entry_def entry_mapped_def)

lemma checked_Suc:
  "put_info (\<lambda>_. checked_info s req (Suc k)) (put_entry k (\<lambda>_. checked_entry s req k) (checked s k req)) = checked s (Suc k) req"
  by (simp add: checked_def put_info_def put_entry_def fun_eq_iff less_Suc_eq)

lemma check_skip_step:
  fixes req :: "'y eng_req_scheme"
  assumes "\<not> entry_held s req k" "checked_entry s req k = e"
  shows "put_entry k (\<lambda>_. e) (checked s k req) = checked s (Suc k) req"
proof -
  have "checked_info s req (Suc k) = checked_info s req k"
    using assms(1) by (simp add: checked_info_def count_upto_Suc held_with_def)
  then have "put_info (\<lambda>_. checked_info s req (Suc k)) X = X" if "rinfo X = checked_info s req k" for X :: "'y eng_req_scheme"
    using that by (simp add: put_info_def)
  then show ?thesis using checked_Suc [of s req k] assms(2) by simp
qed

lemma bump_count: "k < 2 ^ 32 - 1 \<Longrightarrow> bump c (count_upto k P) = count_upto k P + of_bool c"
  by (cases c) (simp_all add: inc32_count)

lemma check_hit_step:
  fixes s :: "'z lru_state_scheme" and req :: "'y eng_req_scheme"
  assumes r: "check_ready s req" "k < rq_count req" and h: "entry_held s req k"
    and e: "e = (rq_map req k)\<lparr>re_part := False, m_invalid := False\<rparr>"
  shows "ocf_engine_update_req_info s (put_entry k (\<lambda>_. e) (checked s k req)) k = Some (checked s (Suc k) req)"
proof -
  let ?r = "put_entry k (\<lambda>_. e) (checked s k req)"
  have R: "md_ok s" "eviction_policy s = ocf_eviction_lru" "req_shape s req" "rq_count req < 2 ^ 32" "collision_table_entries s \<le> 2 ^ 32"
    "coll_idx (rq_map req k) < collision_table_entries s" "entry_mapped req k"
    using assms by (auto simp: check_ready_def entry_held_def)
  have sh: "req_shape s ?r" using R(3) by (simp add: req_shape_def)
  have same: "entry_sectors w s ?r k = entry_sectors w s req k" "entry_misplaced s ?r k = entry_misplaced s req k"
    "entry_follows ?r k = entry_follows req k" "m_status (rq_map ?r k) = m_status (rq_map req k)"
    "coll_idx (rq_map ?r k) = coll_idx (rq_map req k)" for w
    using e by (auto simp: entry_sectors_def entry_misplaced_def entry_follows_def entry_mapped_def req_blocks_def)
  have k: "k < 2 ^ 32 - 1" using r(2) R(4) by simp
  have i: "updated_info s ?r k (checked_info s req k) = checked_info s req (Suc k)"
    using h unfolding updated_info_def Let_def same
    by (simp add: checked_info_def count_upto_Suc held_with_def bump_count [OF k])
  have en: "updated_entry s ?r k = checked_entry s req k"
    using h R(7) unfolding updated_entry_def same by (simp add: checked_entry_def e)
  have "ocf_engine_update_req_info s ?r k = Some (put_info (updated_info s ?r k) (put_entry k (\<lambda>_. updated_entry s ?r k) ?r))"
    using R r(2) e by (intro update_effect sh) (simp_all add: entry_mapped_def)
  also have "put_info (updated_info s ?r k) (put_entry k (\<lambda>_. updated_entry s ?r k) ?r) =
      put_info (\<lambda>_. checked_info s req (Suc k)) (put_entry k (\<lambda>_. checked_entry s req k) (checked s k req))"
    unfolding en put_simps by (rule put_info_cong) (simp add: i)
  finally show ?thesis by (simp add: checked_Suc)
qed

lemma check_loop_spec:
  fixes s :: "'z lru_state_scheme" and req :: "'y eng_req_scheme"
  assumes "check_ready s req" "k + length cls = rq_count req"
  shows "check_loop s cls k res (checked s k req) =
    Some (res \<and> (\<forall>i \<in> {k..<rq_count req}. entry_mapped req i \<longrightarrow> entry_held s req i), checked s (rq_count req) req)"
  using assms(2)
proof (induction cls arbitrary: k res)
  case Nil
  then show ?case by simp
next
  case (Cons c cls)
  then have k: "k < rq_count req" and IH: "check_loop s cls (Suc k) b (checked s (Suc k) req) =
      Some (b \<and> (\<forall>i \<in> {Suc k..<rq_count req}. entry_mapped req i \<longrightarrow> entry_held s req i), checked s (rq_count req) req)" for b
    by auto
  have sp: "{k..<rq_count req} = insert k {Suc k..<rq_count req}" using k by auto
  let ?e = "(rq_map req k)\<lparr>re_part := False\<rparr>"
  have p: "put_entry k (\<lambda>e. e\<lparr>re_part := False\<rparr>) (checked s k req) = put_entry k (\<lambda>_. ?e) (checked s k req)"
    by (simp add: put_entry_def)
  have c: "ocf_engine_check_map_entry s ?e (rq_core req) = Some (entry_held s req k)" if "entry_mapped req k"
    using that assms(1) k
    by (auto simp: ocf_engine_check_map_entry_def ocf_metadata_get_core_info_def check_ready_def entry_mapped_def
        entry_held_def line_key_def bug_on_def raw_bug_on_def)
  consider "\<not> entry_mapped req k" | "entry_mapped req k" "\<not> entry_held s req k" | "entry_held s req k" "entry_mapped req k"
    by (auto simp: entry_held_def)
  then show ?case
  proof cases
    case 1
    then have "\<not> entry_held s req k" "checked_entry s req k = ?e" "m_status (rq_map req k) = LOOKUP_MISS"
      by (simp_all add: entry_held_def checked_entry_def entry_mapped_def)
    then show ?thesis using 1 check_skip_step [of s req k ?e] IH by (simp add: p sp)
  next
    case 2
    then have "checked_entry s req k = ?e\<lparr>m_invalid := True\<rparr>" "m_status (rq_map req k) \<noteq> LOOKUP_MISS"
      by (simp_all add: checked_entry_def entry_mapped_def)
    then show ?thesis using 2 c check_skip_step [of s req k "?e\<lparr>m_invalid := True\<rparr>"] IH by (simp add: p sp)
  next
    case 3
    then have "m_status (rq_map req k) \<noteq> LOOKUP_MISS" by (simp add: entry_mapped_def)
    then show ?thesis using 3 c check_hit_step [OF assms(1) k 3(1) refl] IH by (simp add: p sp)
  qed
qed

lemma check_spec:
  assumes "check_ready s req"
  shows "ocf_engine_check s req =
    Some (\<forall>i < rq_count req. entry_mapped req i \<longrightarrow> entry_held s req i, checked s (rq_count req) req)"
proof -
  have "ocf_req_clear_info req = checked s 0 req"
    by (simp add: ocf_req_clear_info_def checked_def checked_info_def clear_info_def)
  moreover have "length [line_first req..<line_last req + 1] = rq_count req"
    using assms by (auto simp: check_ready_def)
  ultimately show ?thesis
    using check_loop_spec [OF assms, of 0] by (auto simp: ocf_engine_check_def)
qed

lemma extend_truncate_simps [simp]:
  "cl_req.extend (cl_req.truncate r) (cl_req.more r) = r"
  "cl_req.truncate (cl_req.extend q m) = q" "cl_req.more (cl_req.extend q m) = m"
  "rinfo (cl_req.extend q (cl_req.more r)) = rinfo r" "rq_count (cl_req.extend q m) = rq_count q"
  by (cases r; cases q; simp add: cl_req.extend_def cl_req.truncate_def)+

lemma truncate_simps [simp]:
  "rq_map (cl_req.truncate r) = rq_map r" "rq_count (cl_req.truncate r) = rq_count r" "rq_core (cl_req.truncate r) = rq_core r"
  "rq_part (cl_req.truncate r) = rq_part r"
  "rq_addr (cl_req.truncate r) = rq_addr r" "rq_bytes (cl_req.truncate r) = rq_bytes r"
  "req_blocks s (cl_req.truncate r) = req_blocks s r"
  by (simp_all add: cl_req.truncate_def fun_eq_iff req_blocks_def ocf_map_line_start_block_def ocf_map_line_end_block_def)

text \<open>One step of the update of the marks of a request.\<close>

definition stepped ::
    "what \<Rightarrow> (nat \<Rightarrow> nat set) \<Rightarrow> cl_req \<Rightarrow> 'z cl_state_scheme \<Rightarrow> cl_req \<Rightarrow> 'z cl_state_scheme \<Rightarrow> (slot \<Rightarrow> nat list) \<Rightarrow> bool" where
  "stepped w V q s q' s' rep' \<longleftrightarrow> request_ok s' rep' q' \<and> flush_only q q' \<and> same_dir s s' \<and>
     (\<forall>y. covered s' q' y = covered s q y) \<and> (\<forall>y. marked w s' y = V y) \<and> (\<forall>w' y. w' \<noteq> w \<longrightarrow> marked w' s' y = marked w' s y)"

lemma stepped_marked:
  assumes "request_ok s rep q" "lines_marked w U fl [0..<rq_count q] q s rep q' s' rep'"
  shows "U = (\<lambda>B i. B \<union> req_blocks s q i) \<Longrightarrow> stepped w (\<lambda>y. marked w s y \<union> covered s q y) q s q' s' rep'"
    "U = (\<lambda>B i. B - req_blocks s q i) \<Longrightarrow> stepped w (\<lambda>y. marked w s y - covered s q y) q s q' s' rep'"
  using request_ok_marked [OF assms] lines_marked_covered [OF assms(2)] by (auto simp: stepped_def)

lemma stepped_refl:
  assumes "request_ok s rep q" "\<forall>y. V y = marked w s y"
  shows "stepped w V q s q s rep"
  using assms by (simp add: stepped_def flush_only_refl same_dir_def)

lemma step_if:
  assumes "\<exists>q' s' rep'. f q s = Some (q', s') \<and> lines_marked w U fl [0..<rq_count q] q s rep q' s' rep'"
    and "\<And>q' s' rep'. lines_marked w U fl [0..<rq_count q] q s rep q' s' rep' \<Longrightarrow> stepped w V q s q' s' rep'"
    and "request_ok s rep q" "\<not> c \<longrightarrow> (\<forall>y. V y = marked w s y)"
  shows "\<exists>q' s' rep'. (if c then f q s else Some (q, s)) = Some (q', s') \<and> stepped w V q s q' s' rep'"
proof (cases c)
  case True
  obtain q' s' rep' where "f q s = Some (q', s')" "lines_marked w U fl [0..<rq_count q] q s rep q' s' rep'"
    using assms(1) by blast
  then show ?thesis using True assms(2) by (intro exI [of _ q'] exI [of _ s'] exI [of _ rep']) simp
next
  case False
  then show ?thesis using stepped_refl [OF assms(3)] assms(4) by (intro exI [of _ q] exI [of _ s] exI [of _ rep]) simp
qed

lemma mark_steps:
  fixes s :: "'z cl_state_scheme"
  assumes ok: "request_ok s rep q"
  shows "\<forall>i < rq_count q. m_status (rq_map q i) \<noteq> LOOKUP_MISS \<Longrightarrow> \<not> c \<longrightarrow> (\<forall>y. covered s q y \<subseteq> marked Valid s y) \<Longrightarrow>
      \<exists>q' s' rep'. (if c then ocf_set_valid_map_info q s else Some (q, s)) = Some (q', s') \<and>
        stepped Valid (\<lambda>y. marked Valid s y \<union> covered s q y) q s q' s' rep'"
    "\<not> c \<longrightarrow> (\<forall>y. covered s q y \<subseteq> marked Dirty s y) \<Longrightarrow>
      \<exists>q' s' rep'. (if c then ocf_set_dirty_map_info now q s else Some (q, s)) = Some (q', s') \<and>
        stepped Dirty (\<lambda>y. marked Dirty s y \<union> covered s q y) q s q' s' rep'"
    "\<not> c \<longrightarrow> (\<forall>y. covered s q y \<inter> marked Dirty s y = {}) \<Longrightarrow>
      \<exists>q' s' rep'. (if c then ocf_set_clean_map_info q s else Some (q, s)) = Some (q', s') \<and>
        stepped Dirty (\<lambda>y. marked Dirty s y - covered s q y) q s q' s' rep'"
proof -
  assume "\<forall>i < rq_count q. m_status (rq_map q i) \<noteq> LOOKUP_MISS" "\<not> c \<longrightarrow> (\<forall>y. covered s q y \<subseteq> marked Valid s y)"
  then show "\<exists>q' s' rep'. (if c then ocf_set_valid_map_info q s else Some (q, s)) = Some (q', s') \<and>
      stepped Valid (\<lambda>y. marked Valid s y \<union> covered s q y) q s q' s' rep'"
    by (intro step_if [where f = "ocf_set_valid_map_info" and q = q and s = s, OF set_valid_map_spec [OF ok] stepped_marked(1) [OF ok _ refl] ok]) auto
next
  assume "\<not> c \<longrightarrow> (\<forall>y. covered s q y \<subseteq> marked Dirty s y)"
  then show "\<exists>q' s' rep'. (if c then ocf_set_dirty_map_info now q s else Some (q, s)) = Some (q', s') \<and>
      stepped Dirty (\<lambda>y. marked Dirty s y \<union> covered s q y) q s q' s' rep'"
    by (intro step_if [where f = "ocf_set_dirty_map_info now" and q = q and s = s, OF set_dirty_map_spec [OF ok] stepped_marked(1) [OF ok _ refl] ok]) auto
next
  assume "\<not> c \<longrightarrow> (\<forall>y. covered s q y \<inter> marked Dirty s y = {})"
  then show "\<exists>q' s' rep'. (if c then ocf_set_clean_map_info q s else Some (q, s)) = Some (q', s') \<and>
      stepped Dirty (\<lambda>y. marked Dirty s y - covered s q y) q s q' s' rep'"
    by (intro step_if [where f = "ocf_set_clean_map_info" and q = q and s = s, OF set_clean_map_spec [OF ok] stepped_marked(2) [OF ok _ refl] ok]) auto
qed

lemma on_map_step:
  assumes "(if c then f q s else Some (q, s)) = Some (q', s')"
  shows "(if c then on_map f (cl_req.extend q m) s else Some (cl_req.extend q m, s)) = Some (cl_req.extend q' m, s')"
  using assms by (auto simp: on_map_def split: if_splits)

lemma on_map_step_req:
  assumes "(if c then f (cl_req.truncate r) s else Some (cl_req.truncate r, s)) = Some (q', s')"
  shows "(if c then on_map f r s else Some (r, s)) = Some (cl_req.extend q' (cl_req.more r), s')"
  using on_map_step [where f = f and m = "cl_req.more r", OF assms] unfolding extend_truncate_simps .

lemma cleaning_hot_simps [simp]:
  fixes s :: "'z cl_state_scheme"
  shows "cl_inv (ocf_req_set_cleaning_hot r s) rep = cl_inv s rep" "marked w (ocf_req_set_cleaning_hot r s) = marked w s"
  "same_dir t (ocf_req_set_cleaning_hot r s) = same_dir t s"
proof -
  have d: "same_dir t (cleaning_call e s) = same_dir t s" for e and s :: "'z cl_state_scheme"
    by (simp add: same_dir_def cleaning_call_def)
  have "cl_inv (fold (\<lambda>i. cleaning_call (f i)) xs s) rep = cl_inv s rep \<and> marked w (fold (\<lambda>i. cleaning_call (f i)) xs s) = marked w s \<and>
      same_dir t (fold (\<lambda>i. cleaning_call (f i)) xs s) = same_dir t s" for f and xs :: "nat list" and s :: "'z cl_state_scheme"
    by (induction xs arbitrary: s) (simp_all add: cl_inv_def d)
  then show "cl_inv (ocf_req_set_cleaning_hot r s) rep = cl_inv s rep" "marked w (ocf_req_set_cleaning_hot r s) = marked w s"
    "same_dir t (ocf_req_set_cleaning_hot r s) = same_dir t s"
    by (simp_all add: ocf_req_set_cleaning_hot_def)
qed

text \<open>The sectors of cache line \<open>y\<close> that a request reads or writes.\<close>

definition wanted :: "'z md_state_scheme \<Rightarrow> 'y eng_req_scheme \<Rightarrow> nat \<Rightarrow> nat set" where
  "wanted s req y = (\<Union>i \<in> {i. i < rq_count req \<and> line_at s req i = Some y}. req_blocks s req i)"

text \<open>
  \<open>lines_in\<close>: the cached lines of a request are on the lists where they belong, in user partitions. \<open>valid_or_placed\<close>: those of
  them that have no valid block are in the partition of the request already, so that no line without valid blocks is moved.
\<close>

definition lines_in :: "'z cl_state_scheme \<Rightarrow> (slot \<Rightarrow> nat list) \<Rightarrow> 'y eng_req_scheme \<Rightarrow> bool" where
  "lines_in s rep req \<longleftrightarrow> cl_inv s rep \<and> rq_part req < OCF_USER_IO_CLASS_MAX \<and> (\<forall>i < rq_count req. \<forall>l. line_at s req i = Some l \<longrightarrow>
     homed s rep l \<and> partition_id (lru_meta s l) < OCF_USER_IO_CLASS_MAX)"

definition valid_or_placed :: "'z lru_state_scheme \<Rightarrow> 'y eng_req_scheme \<Rightarrow> bool" where
  "valid_or_placed s req \<longleftrightarrow> (\<forall>i < rq_count req. \<forall>l. line_at s req i = Some l \<longrightarrow>
     marked Valid s l \<noteq> {} \<or> partition_id (lru_meta s l) = rq_part req)"

lemma looked_up_fields:
  "rq_part (cl_req.truncate (looked_up s k req)) = rq_part req"
  "req_blocks s (looked_up s k req) = req_blocks s req"
  "i < k \<Longrightarrow> line_at s req i = Some l \<Longrightarrow> coll_idx (rq_map (looked_up s k req) i) = l"
  "i < k \<Longrightarrow> m_status (rq_map (looked_up s k req) i) = LOOKUP_MISS \<longleftrightarrow> line_at s req i = None"
  "i < k \<Longrightarrow> re_part (rq_map (looked_up s k req) i) \<longleftrightarrow> on_line s req (\<lambda>i l. partition_id (lru_meta s l) \<noteq> rq_part req) i"
  by (auto simp: found_entry_def found_status_def fun_eq_iff req_blocks_def split: option.splits)

lemma looked_up_line_of:
  assumes "lookup_ready s req" "lines_in s rep req" "i < rq_count req" "line_at s req i = Some l"
  shows "line_of s rep (cl_req.truncate (looked_up s (rq_count req) req)) i"
  using assms line_at_bound [OF ready_bounds(1) [OF assms(1)] assms(4)] looked_up_fields(3) [OF assms(3,4)]
  by (auto simp: line_of_def lines_in_def line_key_def)

lemma looked_up_mapped:
  fixes s :: "'z cl_state_scheme"
  assumes r: "lookup_ready s req" and l: "lines_in s rep req" and m: "\<forall>i < rq_count req. line_at s req i \<noteq> None"
  defines "q \<equiv> cl_req.truncate (looked_up s (rq_count req) req)"
  shows "request_ok s rep q" "\<forall>i < rq_count q. m_status (rq_map q i) \<noteq> LOOKUP_MISS" "covered s q y = wanted s req y"
proof -
  have "line_of s rep q i" if "i < rq_count req" for i
    using m that looked_up_line_of [OF r l that] by (auto simp: q_def)
  moreover have "req_shape s q" using r by (simp add: lookup_ready_def q_def req_shape_def)
  ultimately show "request_ok s rep q" using l by (simp add: request_ok_def lines_in_def q_def)
  show "\<forall>i < rq_count q. m_status (rq_map q i) \<noteq> LOOKUP_MISS"
    using m looked_up_fields(4) [of _ "rq_count req" s req] by (auto simp: q_def)
  have "i < rq_count req \<Longrightarrow> coll_idx (rq_map q i) = y \<longleftrightarrow> line_at s req i = Some y" for i
    using m looked_up_fields(3) [of i "rq_count req" s req] by (auto simp: q_def)
  then show "covered s q y = wanted s req y"
    using looked_up_fields(2) [of s "rq_count req" req] by (auto simp: covered_def wanted_def q_def)
qed

text \<open>What the counters of a lookup say of the sectors.\<close>

lemma looked_up_info:
  fixes s :: "'z lru_state_scheme"
  assumes "lookup_ready s req"
  defines "r \<equiv> looked_up s (rq_count req) req"
  shows "\<not> ocf_engine_is_miss r \<Longrightarrow> wanted s req y \<subseteq> marked Valid s y"
    "ocf_engine_is_dirty_all r \<Longrightarrow> wanted s req y \<subseteq> marked Dirty s y"
    "dirty_any (rinfo r) = 0 \<Longrightarrow> i < rq_count req \<Longrightarrow> line_at s req i = Some l \<Longrightarrow> marked Dirty s l = {}"
    "ocf_engine_needs_repart r \<longleftrightarrow> (\<exists>i < rq_count req. re_part (rq_map r i))"
proof -
  have all: "count_upto (rq_count req) (on_line s req P) = rq_count req \<Longrightarrow> i < rq_count req \<Longrightarrow> line_at s req i = Some l \<Longrightarrow> P i l"
    for P i l
    unfolding count_upto_full by (auto simp: on_line_def)
  show "wanted s req y \<subseteq> marked Valid s y" if "\<not> ocf_engine_is_miss r"
  proof -
    have "\<forall>i < rq_count req. found_status s req i = LOOKUP_HIT"
      using that by (simp add: ocf_engine_is_miss_def ocf_engine_is_hit_def r_def found_info_def count_upto_full)
    then show ?thesis by (auto simp: wanted_def found_status_def split: option.splits if_splits)
  qed
  show "wanted s req y \<subseteq> marked Dirty s y" if "ocf_engine_is_dirty_all r"
    using all [of "\<lambda>i l. req_blocks s req i \<subseteq> marked Dirty s l"] that
    by (auto simp: ocf_engine_is_dirty_all_def r_def found_info_def wanted_def)
  show "marked Dirty s l = {}" if "dirty_any (rinfo r) = 0" "i < rq_count req" "line_at s req i = Some l"
  proof -
    have "{i. i < rq_count req \<and> on_line s req (\<lambda>i l. marked Dirty s l \<noteq> {}) i} = {}"
      using that(1) by (simp add: r_def found_info_def count_upto_def)
    then show ?thesis using that(2,3) by (auto simp: on_line_def)
  qed
  show "ocf_engine_needs_repart r \<longleftrightarrow> (\<exists>i < rq_count req. re_part (rq_map r i))"
    using looked_up_fields(5) [of _ "rq_count req" s req]
    by (auto simp: ocf_engine_needs_repart_def r_def found_info_def count_upto_def card_gt_0_iff)
qed

subsection \<open>Reading and writing\<close>

lemma read_repart:
  fixes s :: "'z cl_state_scheme"
  assumes r: "lookup_ready s req" and l: "lines_in s rep req"
  defines "r \<equiv> looked_up s (rq_count req) req"
  shows "\<exists>s' rep'. (if ocf_engine_needs_repart r then on_map ocf_user_part_move r s else Some (r, s)) = Some (r, s') \<and>
    cache_inv s' rep' \<and> (valid_or_placed s req \<longrightarrow> counters_ok s') \<and> same_dir s s' \<and> (\<forall>w y. marked w s' y = marked w s y)"
proof (cases "ocf_engine_needs_repart r")
  case True
  let ?q = "cl_req.truncate r"
  have x: "\<exists>x. line_at s req i = Some x \<and> line_of s rep ?q i \<and> m_status (rq_map ?q i) \<noteq> LOOKUP_MISS \<and> coll_idx (rq_map ?q i) = x"
    if i: "i < rq_count req" "re_part (rq_map ?q i)" for i
  proof -
    obtain x where x: "line_at s req i = Some x"
      using i looked_up_fields(5) [of i "rq_count req" s req] by (auto simp: r_def on_line_def split: option.splits)
    then show ?thesis
      using looked_up_line_of [OF r l i(1) x] looked_up_fields(3,4) [of i "rq_count req" s req] i by (auto simp: r_def)
  qed
  have "rq_part ?q < OCF_USER_IO_CLASS_MAX" "cache_inv s rep" "counters_ok s" using l by (simp_all add: lines_in_def cl_inv_def r_def)
  moreover have "\<forall>i\<in>set [0..<rq_count ?q]. re_part (rq_map ?q i) \<longrightarrow> line_of s rep ?q i \<and> m_status (rq_map ?q i) \<noteq> LOOKUP_MISS"
    using x by (auto simp: r_def)
  ultimately obtain s' rep' where m: "ocf_user_part_move ?q s = Some (?q, s')" "cache_inv s' rep'" "same_dir s s'"
      "\<And>w y. marked w s' y = marked w s y"
      "\<forall>i\<in>set [0..<rq_count ?q]. re_part (rq_map ?q i) \<longrightarrow> partition_id (lru_meta s (coll_idx (rq_map ?q i))) = rq_part ?q \<or>
         marked Valid s (coll_idx (rq_map ?q i)) \<noteq> {} \<Longrightarrow> counters_ok s'"
    using move_lines_spec [of ?q s rep "[0..<rq_count ?q]"] unfolding ocf_user_part_move_def by blast
  have "counters_ok s'" if "valid_or_placed s req"
  proof (rule m(5), intro ballI impI)
    fix i assume i: "i \<in> set [0..<rq_count ?q]" "re_part (rq_map ?q i)"
    then have "i < rq_count req" by (simp add: r_def)
    with x [OF this i(2)] that show "partition_id (lru_meta s (coll_idx (rq_map ?q i))) = rq_part ?q \<or>
        marked Valid s (coll_idx (rq_map ?q i)) \<noteq> {}"
      by (auto simp: valid_or_placed_def r_def)
  qed
  then show ?thesis using m True by (auto simp: on_map_def)
next
  case False
  then show ?thesis using l by (auto simp: lines_in_def cl_inv_def same_dir_def)
qed

text \<open>
  C6: where a read takes its data from. After the lookup of a request whose lines are locked, the read engine (and the
  pass-through engine it falls back to) always reaches a decision: it reads from the cache only when every sector of the
  request is valid there, and from the core only when no line of the request holds a dirty sector, so that data which is
  only in the cache is never passed over; otherwise the lines are cleaned first. The lists stay exact, the counters too
  unless a line without valid blocks has to change its partition, and neither valid nor dirty marks change.
\<close>

theorem engine_read_source:
  fixes s :: "'z cl_state_scheme"
  assumes "lookup_ready s req" "lines_in s rep req"
  shows "\<exists>r a r' s' rep'. ocf_engine_lookup s req = Some r \<and> ocf_read_generic_do alock_rd r s = Some (a, r', s') \<and>
    cache_inv s' rep' \<and> (valid_or_placed s req \<longrightarrow> counters_ok s') \<and> same_dir s s' \<and> (\<forall>w y. marked w s' y = marked w s y) \<and>
    (case a of
       Read_cache \<Rightarrow> (\<forall>i < rq_count req. \<exists>l. line_at s req i = Some l \<and> req_blocks s req i \<subseteq> marked Valid s l)
     | Read_core \<Rightarrow> (\<forall>i < rq_count req. \<forall>l. line_at s req i = Some l \<longrightarrow> marked Dirty s l = {})
     | Read_clean \<Rightarrow> (\<exists>i < rq_count req. \<exists>l. line_at s req i = Some l \<and> marked Dirty s l \<noteq> {}))"
proof -
  let ?r = "looked_up s (rq_count req) req"
  obtain s' rep' where m: "(if ocf_engine_needs_repart ?r then on_map ocf_user_part_move ?r s else Some (?r, s)) = Some (?r, s')"
    "cache_inv s' rep'" "valid_or_placed s req \<longrightarrow> counters_ok s'" "same_dir s s'" "\<forall>w y. marked w s' y = marked w s y"
    using read_repart [OF assms] by blast
  have clean: "\<forall>i < rq_count req. \<forall>l. line_at s req i = Some l \<longrightarrow> marked Dirty s l = {}" if "dirty_any (rinfo ?r) = 0"
    using looked_up_info(3) [OF assms(1)] that by blast
  have dirt: "\<exists>i < rq_count req. \<exists>l. line_at s req i = Some l \<and> marked Dirty s l \<noteq> {}" if "dirty_any (rinfo ?r) \<noteq> 0"
    using that by (auto simp: found_info_def count_upto_def on_line_def split: option.splits)
  have hit: "\<forall>i < rq_count req. \<exists>l. line_at s req i = Some l \<and> req_blocks s req i \<subseteq> marked Valid s l" if "ocf_engine_is_hit ?r"
    using that found_status_iff(1) [of s req] by (simp add: ocf_engine_is_hit_def found_info_def count_upto_full)
  consider "ocf_engine_is_hit ?r" | "\<not> ocf_engine_is_hit ?r" "dirty_any (rinfo ?r) = 0" | "\<not> ocf_engine_is_hit ?r" "dirty_any (rinfo ?r) \<noteq> 0"
    by blast
  then show ?thesis
  proof cases
    case 1
    then have "ocf_read_generic_do alock_rd ?r s = Some (Read_cache, ?r, s')"
      unfolding ocf_read_generic_do_def m by (simp add: ocf_engine_is_miss_def)
    then show ?thesis using lookup_spec [OF assms(1)] m hit [OF 1]
      by (intro exI [of _ ?r] exI [of _ Read_cache] exI [of _ s'] exI [of _ rep']) simp
  next
    case 2
    then have "ocf_read_generic_do alock_rd ?r s = Some (Read_core, ?r, s')"
      unfolding ocf_read_generic_do_def ocf_read_pt_do_def m by (simp add: ocf_engine_is_miss_def)
    then show ?thesis using lookup_spec [OF assms(1)] m clean [OF 2(2)]
      by (intro exI [of _ ?r] exI [of _ Read_core] exI [of _ s'] exI [of _ rep']) simp
  next
    case 3
    then have "ocf_read_generic_do alock_rd ?r s = Some (Read_clean, ?r, s)"
      unfolding ocf_read_generic_do_def ocf_read_pt_do_def by (simp add: ocf_engine_is_miss_def)
    then show ?thesis using lookup_spec [OF assms(1)] dirt [OF 3(2)] assms(2)
      by (intro exI [of _ ?r] exI [of _ Read_clean] exI [of _ s] exI [of _ rep]) (simp add: lines_in_def cl_inv_def same_dir_def)
  qed
qed

lemma steppedD:
  assumes "stepped w V q s q' s' rep'"
  shows "request_ok s' rep' q'" "flush_only q q'" "same_dir s s'" "covered s' q' y = covered s q y" "marked w s' y = V y"
    "w' \<noteq> w \<Longrightarrow> marked w' s' y = marked w' s y"
  using assms by (simp_all add: stepped_def)

lemma flush_only_re_part: "flush_only q q' \<Longrightarrow> re_part (rq_map q' i) = re_part (rq_map q i)"
  by (auto simp: flush_only_def)

text \<open>
  A request that is ready for the update of its metadata: every entry has a line, and its counters say hit, all dirty or
  none dirty only when that is so.
\<close>

definition write_ok :: "'z cl_state_scheme \<Rightarrow> (slot \<Rightarrow> nat list) \<Rightarrow> 'y eng_req_scheme \<Rightarrow> bool" where
  "write_ok s rep r \<longleftrightarrow> (let q = cl_req.truncate r in request_ok s rep q \<and> rq_part r < OCF_USER_IO_CLASS_MAX \<and>
     (\<forall>i < rq_count q. m_status (rq_map q i) \<noteq> LOOKUP_MISS) \<and>
     (\<not> ocf_engine_is_miss r \<longrightarrow> (\<forall>y. covered s q y \<subseteq> marked Valid s y)) \<and>
     (ocf_engine_is_dirty_all r \<longrightarrow> (\<forall>y. covered s q y \<subseteq> marked Dirty s y)) \<and>
     (dirty_any (rinfo r) = 0 \<longrightarrow> (\<forall>y. covered s q y \<inter> marked Dirty s y = {})))"

lemma write_okD:
  assumes "write_ok s rep r"
  shows "request_ok s rep (cl_req.truncate r)" "rq_part r < OCF_USER_IO_CLASS_MAX"
    "\<forall>i < rq_count (cl_req.truncate r). m_status (rq_map (cl_req.truncate r) i) \<noteq> LOOKUP_MISS"
    "\<not> ocf_engine_is_miss r \<longrightarrow> (\<forall>y. covered s (cl_req.truncate r) y \<subseteq> marked Valid s y)"
    "ocf_engine_is_dirty_all r \<Longrightarrow> covered s (cl_req.truncate r) y \<subseteq> marked Dirty s y"
    "dirty_any (rinfo r) = 0 \<Longrightarrow> covered s (cl_req.truncate r) y \<inter> marked Dirty s y = {}"
  using assms by (simp_all add: write_ok_def Let_def)

lemma write_back_spec:
  fixes s :: "'z cl_state_scheme"
  assumes ok: "write_ok s rep r"
  shows "\<exists>r' s' rep'. ocf_write_wb_update_bits now r s = Some (r', s') \<and> cl_inv s' rep' \<and> same_dir s s' \<and>
    (\<forall>y. marked Valid s' y = marked Valid s y \<union> covered s (cl_req.truncate r) y \<and>
      marked Dirty s' y = marked Dirty s y \<union> covered s (cl_req.truncate r) y)"
proof -
  let ?q = "cl_req.truncate r" and ?miss = "ocf_engine_is_miss r" and ?clean = "\<not> ocf_engine_is_dirty_all r"
  note M = write_okD [OF ok]
  from mark_steps(1) [OF M(1,3,4)] obtain q1 s1 rep1 where v:
      "(if ?miss then ocf_set_valid_map_info ?q s else Some (?q, s)) = Some (q1, s1)"
      "stepped Valid (\<lambda>y. marked Valid s y \<union> covered s ?q y) ?q s q1 s1 rep1" by blast
  note V = steppedD [OF v(2)]
  have "\<not> ?clean \<longrightarrow> (\<forall>y. covered s1 q1 y \<subseteq> marked Dirty s1 y)"
    using M(5) V(6) [of Dirty] unfolding V(4) by auto
  from mark_steps(2) [OF V(1) this] obtain q2 s2 rep2 where d:
      "(if ?clean then ocf_set_dirty_map_info now q1 s1 else Some (q1, s1)) = Some (q2, s2)"
      "stepped Dirty (\<lambda>y. marked Dirty s1 y \<union> covered s1 q1 y) q1 s1 q2 s2 rep2" by blast
  note D = steppedD [OF d(2)]
  let ?x = "cl_req.extend q2 (cl_req.more r)"
  have "ocf_write_wb_update_bits now r s = Some (?x, ocf_req_set_cleaning_hot ?x s2)"
    using on_map_step_req [where f = ocf_set_valid_map_info, OF v(1)]
      on_map_step [where f = "ocf_set_dirty_map_info now" and m = "cl_req.more r", OF d(1)]
    unfolding ocf_write_wb_update_bits_def Let_def by (auto split: if_splits)
  moreover have "cl_inv s2 rep2" using D(1) by (simp add: request_ok_def)
  moreover have "same_dir s s2" using same_dir_trans [OF V(3) D(3)] .
  moreover have "marked Valid s2 y = marked Valid s y \<union> covered s ?q y" "marked Dirty s2 y = marked Dirty s y \<union> covered s ?q y" for y
    using D(5) [of y] D(6) [of Valid y] V(4) [of y] V(5) [of y] V(6) [of Dirty y] by auto
  ultimately show ?thesis by (intro exI [of _ ?x] exI [of _ "ocf_req_set_cleaning_hot ?x s2"] exI [of _ rep2]) simp
qed

text \<open>After the marking every line of the request has a valid block, so that the lines that move are counted correctly.\<close>

lemma move_marked:
  fixes s :: "'z cl_state_scheme"
  assumes ok: "request_ok s rep q" "rq_part q < OCF_USER_IO_CLASS_MAX" "\<forall>i < rq_count q. m_status (rq_map q i) \<noteq> LOOKUP_MISS"
    and v: "\<forall>i < rq_count q. marked Valid s (coll_idx (rq_map q i)) \<noteq> {}"
  shows "\<exists>s' rep'. (if c then ocf_user_part_move q s else Some (q, s)) = Some (q, s') \<and> cl_inv s' rep' \<and>
    same_dir s s' \<and> (\<forall>w y. marked w s' y = marked w s y)"
proof (cases c)
  case True
  have "cache_inv s rep" "counters_ok s" using ok(1) by (simp_all add: request_ok_def cl_inv_def)
  moreover have "\<forall>i\<in>set [0..<rq_count q]. re_part (rq_map q i) \<longrightarrow> line_of s rep q i \<and> m_status (rq_map q i) \<noteq> LOOKUP_MISS"
    using ok(1,3) by (simp add: request_ok_def)
  moreover have "\<forall>i\<in>set [0..<rq_count q]. re_part (rq_map q i) \<longrightarrow> partition_id (lru_meta s (coll_idx (rq_map q i))) = rq_part q \<or>
      marked Valid s (coll_idx (rq_map q i)) \<noteq> {}" using v by simp
  ultimately obtain s' rep' where "ocf_user_part_move q s = Some (q, s')" "cache_inv s' rep'" "counters_ok s'" "same_dir s s'"
      "\<And>w y. marked w s' y = marked w s y"
    using move_lines_spec [OF ok(2), of s rep "[0..<rq_count q]"] unfolding ocf_user_part_move_def by blast
  then show ?thesis using True by (auto simp: cl_inv_def)
next
  case False
  then show ?thesis using ok(1) by (auto simp: request_ok_def same_dir_def)
qed

lemma write_through_spec:
  fixes s :: "'z cl_state_scheme"
  assumes ok: "write_ok s rep r"
  shows "\<exists>r' s' rep'. ocf_write_wt_update_bits r s = Some (r', s') \<and> cl_inv s' rep' \<and> same_dir s s' \<and>
    (\<forall>y. marked Valid s' y = marked Valid s y \<union> covered s (cl_req.truncate r) y \<and>
      marked Dirty s' y = marked Dirty s y - covered s (cl_req.truncate r) y)"
proof -
  let ?q = "cl_req.truncate r" and ?miss = "ocf_engine_is_miss r" and ?dirty = "dirty_any (rinfo r) \<noteq> 0"
    and ?rep = "ocf_engine_needs_repart r" and ?more = "cl_req.more r"
  note M = write_okD [OF ok]
  from mark_steps(1) [OF M(1,3,4)] obtain q1 s1 rep1 where v:
      "(if ?miss then ocf_set_valid_map_info ?q s else Some (?q, s)) = Some (q1, s1)"
      "stepped Valid (\<lambda>y. marked Valid s y \<union> covered s ?q y) ?q s q1 s1 rep1" by blast
  note V = steppedD [OF v(2)]
  have "\<not> ?dirty \<longrightarrow> (\<forall>y. covered s1 q1 y \<inter> marked Dirty s1 y = {})"
    using M(6) V(6) [of Dirty] unfolding V(4) by auto
  from mark_steps(3) [OF V(1) this] obtain q2 s2 rep2 where d:
      "(if ?dirty then ocf_set_clean_map_info q1 s1 else Some (q1, s1)) = Some (q2, s2)"
      "stepped Dirty (\<lambda>y. marked Dirty s1 y - covered s1 q1 y) q1 s1 q2 s2 rep2" by blast
  note D = steppedD [OF d(2)]
  have mk: "marked Valid s2 y = marked Valid s y \<union> covered s ?q y" "marked Dirty s2 y = marked Dirty s y - covered s ?q y" for y
    using D(5) [of y] D(6) [of Valid y] V(4) [of y] V(5) [of y] V(6) [of Dirty y] by auto
  note F = flush_onlyD [OF flush_only_trans [OF V(2) D(2)]]
  have "marked Valid s2 (coll_idx (rq_map q2 i)) \<noteq> {}" if "i < rq_count q2" for i
  proof -
    have i: "i < rq_count ?q" "coll_idx (rq_map q2 i) = coll_idx (rq_map ?q i)" using that F(5,6) by simp_all
    have "req_shape s ?q" using M(1) by (simp only: request_ok_def)
    from req_blocks_range(1) [OF this i(1)] have "req_blocks s ?q i \<noteq> {}" unfolding req_blocks_def atLeastatMost_empty_iff by linarith
    moreover have "req_blocks s ?q i \<subseteq> covered s ?q (coll_idx (rq_map ?q i))" using i(1) by (auto simp: covered_def)
    ultimately show ?thesis using mk(1) i(2) by auto
  qed
  moreover have "rq_part q2 < OCF_USER_IO_CLASS_MAX" "\<forall>i < rq_count q2. m_status (rq_map q2 i) \<noteq> LOOKUP_MISS"
    using M(2,3) F(2,5,7) by simp_all
  ultimately obtain s3 rep3 where m3: "(if ?rep then ocf_user_part_move q2 s2 else Some (q2, s2)) = Some (q2, s3)" "cl_inv s3 rep3"
      "same_dir s2 s3" "\<And>w y. marked w s3 y = marked w s2 y"
    using move_marked [OF D(1), of ?rep] by blast
  have "ocf_write_wt_update_bits r s = Some (cl_req.extend q2 ?more, s3)"
    using on_map_step_req [where f = ocf_set_valid_map_info, OF v(1)]
      on_map_step [where f = ocf_set_clean_map_info and m = ?more, OF d(1)]
      on_map_step [where f = ocf_user_part_move and m = ?more, OF m3(1)]
    unfolding ocf_write_wt_update_bits_def Let_def by (auto split: if_splits)
  then show ?thesis
    using m3 mk same_dir_trans [OF same_dir_trans [OF V(3) D(3)] m3(3)]
    by (intro exI [of _ "cl_req.extend q2 ?more"] exI [of _ s3] exI [of _ rep3]) simp
qed

lemma looked_up_write_ok:
  fixes s :: "'z cl_state_scheme"
  assumes "lookup_ready s req" "lines_in s rep req" "\<forall>i < rq_count req. line_at s req i \<noteq> None"
  shows "write_ok s rep (looked_up s (rq_count req) req)"
proof -
  note M = looked_up_mapped [OF assms] and I = looked_up_info [OF assms(1)]
  have "covered s (cl_req.truncate (looked_up s (rq_count req) req)) y \<inter> marked Dirty s y = {}"
    if "dirty_any (rinfo (looked_up s (rq_count req) req)) = 0" for y
    using I(3) [OF that] unfolding M(3) by (fastforce simp: wanted_def)
  then show ?thesis using M I(1,2) assms(2) by (simp add: write_ok_def Let_def lines_in_def)
qed

text \<open>
  C7: the marks a write leaves. When the lookup finds every core line of a written request in a cache line, with whatever
  valid or dirty sectors or none at all, the update of the metadata by
  the write-back engine makes exactly the sectors of the request valid and dirty, and by the write-through engine valid
  and clean; all other marks stay, the hash table does not change and
  the line lists and counters are exact. In particular the shortcuts the engines take when the lookup counted only hits,
  only dirty sectors or no dirty lines lose nothing.
\<close>

theorem engine_write_marks:
  fixes s :: "'z cl_state_scheme"
  assumes "lookup_ready s req" "lines_in s rep req" "\<forall>i < rq_count req. line_at s req i \<noteq> None"
  shows "\<exists>r. ocf_engine_lookup s req = Some r \<and>
    (\<exists>r' s' rep'. ocf_write_wb_update_bits now r s = Some (r', s') \<and> cl_inv s' rep' \<and> same_dir s s' \<and>
      (\<forall>y. marked Valid s' y = marked Valid s y \<union> wanted s req y \<and> marked Dirty s' y = marked Dirty s y \<union> wanted s req y)) \<and>
    (\<exists>r' s' rep'. ocf_write_wt_update_bits r s = Some (r', s') \<and> cl_inv s' rep' \<and> same_dir s s' \<and>
      (\<forall>y. marked Valid s' y = marked Valid s y \<union> wanted s req y \<and> marked Dirty s' y = marked Dirty s y - wanted s req y))"
  using write_back_spec [OF looked_up_write_ok [OF assms], of now] write_through_spec [OF looked_up_write_ok [OF assms]]
  by (intro exI [of _ "looked_up s (rq_count req) req"])
     (simp only: lookup_spec [OF assms(1)] looked_up_mapped(3) [OF assms] simp_thms)

text \<open>
  C8: resuming a request that had to wait for its lines. The check succeeds in the metadata it is given: it answers that
  the request may continue exactly when every line the request was mapped to still holds its core line, marks the others
  as invalid, and counts anew; a request that counts as a hit has all its sectors valid. Lines that the lookup found
  without all the sectors valid and lines that were mapped for the request are not examined again.
\<close>

theorem engine_check_correct:
  assumes "check_ready s req"
  shows "\<exists>r. ocf_engine_check s req = Some (\<forall>i < rq_count req. entry_mapped req i \<longrightarrow> entry_held s req i, r) \<and>
    (\<forall>i < rq_count req. rq_map r i = checked_entry s req i) \<and> rinfo r = checked_info s req (rq_count req) \<and>
    (ocf_engine_is_hit r \<longleftrightarrow> (\<forall>i < rq_count req. held_with s req LOOKUP_HIT i \<and> entry_sectors Valid s req i)) \<and>
    (ocf_engine_is_mapped r \<longleftrightarrow> (\<forall>i < rq_count req. held_with s req LOOKUP_HIT i))"
proof -
  let ?n = "rq_count req" and ?f = "checked_info s req (rq_count req)"
  have n: "?n < 2 ^ 32" using assms by (simp add: check_ready_def)
  have "hit_no ?f + invalid_no ?f = count_upto ?n (\<lambda>i. held_with s req LOOKUP_HIT i \<and> entry_sectors Valid s req i \<or>
      held_with s req LOOKUP_HIT i \<and> \<not> entry_sectors Valid s req i)"
    unfolding checked_info_def ocf_req_info.simps by (rule count_upto_disj) simp
  also have "(\<lambda>i. held_with s req LOOKUP_HIT i \<and> entry_sectors Valid s req i \<or>
      held_with s req LOOKUP_HIT i \<and> \<not> entry_sectors Valid s req i) = held_with s req LOOKUP_HIT"
    by blast
  finally have m: "(hit_no ?f + invalid_no ?f) mod 2 ^ 32 = count_upto ?n (held_with s req LOOKUP_HIT)"
    using count_upto_le [of ?n "held_with s req LOOKUP_HIT"] n by simp
  then show ?thesis using check_spec [OF assms]
    by (simp add: ocf_engine_is_hit_def ocf_engine_is_mapped_def count_upto_full) (simp add: checked_info_def count_upto_full)
qed

lemma check_ready_looked_up:
  fixes s :: "'z lru_state_scheme"
  assumes "lookup_ready s req"
  defines "r \<equiv> looked_up s (rq_count req) req"
  shows "check_ready s r" "\<And>i. i < rq_count req \<Longrightarrow> entry_mapped r i \<longleftrightarrow> line_at s req i \<noteq> None"
    "\<And>i. i < rq_count req \<Longrightarrow> entry_mapped r i \<Longrightarrow> entry_held s r i"
proof -
  note R = ready_bounds [OF assms(1)]
  show m: "entry_mapped r i \<longleftrightarrow> line_at s req i \<noteq> None" if "i < rq_count req" for i
    unfolding entry_mapped_def r_def by (rule arg_cong [of _ _ Not, OF looked_up_fields(4) [OF that]])
  have b: "coll_idx (rq_map r i) = l" "l < collision_table_entries s" "line_key s l = (rq_core req, line_first req + i)"
    if "i < rq_count req" "line_at s req i = Some l" for i l
    using looked_up_fields(3) [OF that] line_at_bound [OF R(1) that(2)] by (simp_all add: r_def)
  show "entry_held s r i" if a: "i < rq_count req" "entry_mapped r i" for i
  proof -
    obtain l where l: "line_at s req i = Some l" using m a by auto
    then show ?thesis using b [OF a(1) l] a by (simp add: entry_held_def r_def found_entry_def)
  qed
  have "req_shape s r" using assms(1) by (simp add: lookup_ready_def req_shape_def r_def)
  moreover have "collision_table_entries s \<le> 2 ^ 32" using R(1) by (simp add: coll_inv_def geometry_ok_def)
  ultimately show "check_ready s r" using assms(1) m b by (auto simp: check_ready_def lookup_ready_def r_def)
qed

text \<open>
  C9: the counters of a resumed request hide dirty data. Take a read whose lines are all cached with some of the sectors
  it wants invalid, and one of them holding dirty data. Without a wait the read engine and the pass-through engine
  clean the lines first. If the request had to wait for a lock, nothing else changed, and it is resumed, the check counts
  no dirty line, and both engines read the sectors from the core, where the newer data of the cache is not.
\<close>

theorem resumed_read_misses_dirty:
  fixes s :: "'z cl_state_scheme"
  assumes r: "lookup_ready s req" and inv: "\<forall>i < rq_count req. found_status s req i = LOOKUP_HIT_INVALID"
    and p: "\<forall>i < rq_count req. \<forall>l. line_at s req i = Some l \<longrightarrow> partition_id (lru_meta s l) = rq_part req"
    and d: "\<exists>i < rq_count req. \<exists>l. line_at s req i = Some l \<and> marked Dirty s l \<noteq> {}"
  shows "\<exists>r. ocf_engine_lookup s req = Some r \<and>
    ocf_read_generic_do rd r s = Some (Read_clean, r, s) \<and> ocf_read_pt_do r s = Some (Read_clean, r, s) \<and>
    (\<exists>r'. ocf_engine_refresh (ocf_read_generic_do rd) r s = Some (Inr (Read_core, r', s)) \<and>
          ocf_engine_refresh ocf_read_pt_do r s = Some (Inr (Read_core, r', s)))"
proof -
  let ?n = "rq_count req" and ?r = "looked_up s (rq_count req) req"
  let ?c = "checked s (rq_count req) ?r"
  note C = check_ready_looked_up [OF r] and R = ready_bounds [OF r]
  have nh: "\<not> held_with s ?r LOOKUP_HIT i" if "i < ?n" for i
    using inv that by (simp add: held_with_def found_entry_def)
  have c0: "count_upto ?n (\<lambda>i. held_with s ?r LOOKUP_HIT i \<and> P i) = 0" for P
    using nh by (auto simp: count_upto_def)
  have pl: "\<not> entry_misplaced s ?r i" if a: "i < ?n" for i
  proof -
    obtain l where l: "line_at s req i = Some l"
      using inv [rule_format, OF a] found_status_iff(2) [of s req i] by auto
    then show ?thesis using p a looked_up_fields(3) [OF a l] by (simp add: entry_misplaced_def)
  qed
  have rp: "count_upto ?n (\<lambda>i. entry_held s ?r i \<and> entry_misplaced s ?r i) = 0"
    using pl by (auto simp: count_upto_def)
  have chk: "ocf_engine_check s ?r = Some (True, ?c)" using check_spec [OF C(1)] C(3) by simp
  have ci: "hit_no (rinfo ?c) = 0" "dirty_any (rinfo ?c) = 0" "re_part_no (rinfo ?c) = 0"
    using c0 rp by (simp_all add: checked_info_def)
  have "ocf_engine_is_miss ?c" using ci(1) R(5) by (simp add: ocf_engine_is_miss_def ocf_engine_is_hit_def)
  then have after: "ocf_read_generic_do rd ?c s = Some (Read_core, ?c, s)" "ocf_read_pt_do ?c s = Some (Read_core, ?c, s)"
    using ci by (simp_all add: ocf_read_generic_do_def ocf_read_pt_do_def ocf_engine_needs_repart_def ocf_engine_is_miss_def)
  have "dirty_any (rinfo ?r) \<noteq> 0" using looked_up_info(3) [OF r] d by blast
  moreover have "ocf_engine_is_miss ?r"
  proof -
    have "\<not> (\<forall>i < ?n. found_status s req i = LOOKUP_HIT)" using inv R(5) by auto
    then show ?thesis by (simp add: ocf_engine_is_miss_def ocf_engine_is_hit_def found_info_def count_upto_full)
  qed
  ultimately have "ocf_read_generic_do rd ?r s = Some (Read_clean, ?r, s)" "ocf_read_pt_do ?r s = Some (Read_clean, ?r, s)"
    by (simp_all add: ocf_read_generic_do_def ocf_read_pt_do_def)
  then show ?thesis using lookup_spec [OF r] chk after
    by (intro exI [of _ ?r] exI [of _ ?c] conjI) (simp_all add: ocf_engine_refresh_def)
qed

subsection \<open>A concrete request\<close>

definition demo_eng_req :: "nat \<Rightarrow> eng_req" where
  "demo_eng_req p = cl_req.extend (demo_cl_req\<lparr>rq_part := p\<rparr>) (eng_req.fields 5 5 clear_info)"

lemma demo_eng_req_simps [simp]:
  "rq_core (demo_eng_req p) = 0" "rq_part (demo_eng_req p) = p" "rq_addr (demo_eng_req p) = 20480" "rq_bytes (demo_eng_req p) = 4096"
  "rq_count (demo_eng_req p) = 1" "line_first (demo_eng_req p) = 5" "line_last (demo_eng_req p) = 5"
  by (simp_all add: demo_eng_req_def demo_cl_req_def cl_req.defs eng_req.defs)

theorem req_hash_correct_witness:
  "m_hash (rq_map (ocf_req_hash demo_coll (demo_eng_req 3)) 0) = ocf_metadata_hash_func demo_coll 5 0"
  using req_hash_correct [OF demo_coll_geometry, of "demo_eng_req 3"] by simp

lemma demo_ready:
  assumes "coll_inv s" "md_ok s" "eviction_policy s = ocf_eviction_lru" "line_size s = Size_4" "mapped s 0" "line_key s 0 = (0, 5)"
  shows "lookup_ready s (demo_eng_req p)" "line_at s (demo_eng_req p) 0 = Some 0"
  using assms by (simp_all add: lookup_ready_def req_shape_def line_at_def cached_eq_Some coll_inv_def)

lemma demo_blocks:
  assumes "line_size s = Size_4" "block_4k s = False"
  shows "req_blocks s (demo_eng_req p) 0 = {0..7}"
  using assms by (auto simp: req_blocks_def ocf_map_line_start_block_def ocf_map_line_end_block_def ocf_line_blocks_def
      BYTES_TO_BLOCKS_ROUND_DOWN_def block_shift_def)

lemma demo_engine:
  "\<exists>(s :: cl_state) rep. lookup_ready s (demo_eng_req 3) \<and> lines_in s rep (demo_eng_req 3) \<and> line_at s (demo_eng_req 3) 0 = Some 0 \<and>
     req_blocks s (demo_eng_req 3) 0 = {0..7} \<and> marked Valid s 0 = {0..7} \<and> marked Dirty s 0 = {}"
proof -
  obtain s :: cl_state and rep where s: "request_ok s rep demo_cl_req" "marked Valid s 0 = {0..7}" "marked Dirty s 0 = {}"
    "line_of s rep demo_cl_req 0" "line_size s = Size_4" "block_4k s = False" "coll_inv s" "mapped s 0" "line_key s 0 = (0, 5)"
    "partition_id (lru_meta s 0) = 0"
    using demo_state by blast
  have c: "cl_inv s rep" using s(1) by (simp add: request_ok_def)
  then have m: "md_ok s" "eviction_policy s = ocf_eviction_lru" by (simp_all add: cl_inv_def cache_inv_def)
  note R = demo_ready [OF s(7) m s(5,8,9)]
  have "homed s rep 0" using s(4) by (simp add: line_of_def demo_cl_req_def Let_def)
  then have "lines_in s rep (demo_eng_req 3)" using c R(2) s by (simp add: lines_in_def)
  then show ?thesis using R s demo_blocks [OF s(5,6)] by (intro exI [of _ s] exI [of _ rep]) simp
qed

theorem engine_lookup_correct_witness:
  "\<exists>(s :: cl_state) r. ocf_engine_lookup s (demo_eng_req 3) = Some r \<and> ocf_engine_is_hit r \<and> ocf_engine_unmapped_count r = 0"
proof -
  obtain s :: cl_state where s: "lookup_ready s (demo_eng_req 3)" "line_at s (demo_eng_req 3) 0 = Some 0"
    "req_blocks s (demo_eng_req 3) 0 = {0..7}" "marked Valid s 0 = {0..7}"
    using demo_engine by blast
  from engine_lookup_correct [OF s(1)] s(2-4) show ?thesis
    by (intro exI [of _ s]) (auto simp: less_Suc_eq)
qed

theorem engine_read_source_witness:
  "\<exists>(s :: cl_state) r a r' s'. ocf_engine_lookup s (demo_eng_req 3) = Some r \<and> ocf_read_generic_do True r s = Some (a, r', s') \<and>
     a \<noteq> Read_clean"
proof -
  obtain s :: cl_state and rep where s: "lookup_ready s (demo_eng_req 3)" "lines_in s rep (demo_eng_req 3)"
    "line_at s (demo_eng_req 3) 0 = Some 0" "marked Dirty s 0 = {}"
    using demo_engine by blast
  from engine_read_source [OF s(1,2), of True] obtain r a r' s' where
    "ocf_engine_lookup s (demo_eng_req 3) = Some r" "ocf_read_generic_do True r s = Some (a, r', s')"
    "case a of
       Read_cache \<Rightarrow> (\<forall>i < rq_count (demo_eng_req 3). \<exists>l. line_at s (demo_eng_req 3) i = Some l \<and>
         req_blocks s (demo_eng_req 3) i \<subseteq> marked Valid s l)
     | Read_core \<Rightarrow> (\<forall>i < rq_count (demo_eng_req 3). \<forall>l. line_at s (demo_eng_req 3) i = Some l \<longrightarrow> marked Dirty s l = {})
     | Read_clean \<Rightarrow> (\<exists>i < rq_count (demo_eng_req 3). \<exists>l. line_at s (demo_eng_req 3) i = Some l \<and> marked Dirty s l \<noteq> {})"
    by blast
  with s(3,4) show ?thesis
    by (intro exI [of _ s] exI [of _ r] exI [of _ a] exI [of _ r'] exI [of _ s']) (cases a; simp)
qed

theorem engine_write_marks_witness:
  "\<exists>(s :: cl_state) r r' s'. ocf_engine_lookup s (demo_eng_req 3) = Some r \<and> ocf_write_wb_update_bits 7 r s = Some (r', s') \<and>
     marked Dirty s 0 = {} \<and> marked Dirty s' 0 = {0..7}"
proof -
  obtain s :: cl_state and rep where s: "lookup_ready s (demo_eng_req 3)" "lines_in s rep (demo_eng_req 3)"
    "line_at s (demo_eng_req 3) 0 = Some 0" "marked Dirty s 0 = {}" "req_blocks s (demo_eng_req 3) 0 = {0..7}"
    using demo_engine by blast
  have "wanted s (demo_eng_req 3) 0 = {0..7}" using s(3,5) by (auto simp: wanted_def)
  with engine_write_marks [OF s(1,2), of 7] s(3,4) obtain r r' s' where
    "ocf_engine_lookup s (demo_eng_req 3) = Some r" "ocf_write_wb_update_bits 7 r s = Some (r', s')" "marked Dirty s' 0 = {0..7}"
    by auto
  with s(4) show ?thesis by blast
qed

theorem engine_check_correct_witness:
  "\<exists>(s :: cl_state) r r'. ocf_engine_lookup s (demo_eng_req 3) = Some r \<and> ocf_engine_check s r = Some (True, r')"
proof -
  obtain s :: cl_state where s: "lookup_ready s (demo_eng_req 3)" using demo_engine by blast
  note C = check_ready_looked_up [OF s]
  from engine_check_correct [OF C(1)] C(3) lookup_spec [OF s] show ?thesis by auto
qed

text \<open>The first half of the sectors of line 0 is valid and dirty, the other half is not cached.\<close>

theorem resumed_read_misses_dirty_witness:
  "\<exists>(s :: cl_state) r r'. marked Dirty s 0 = {0..3} \<and> marked Valid s 0 = {0..3} \<and> ocf_engine_lookup s (demo_eng_req 0) = Some r \<and>
     ocf_read_generic_do False r s = Some (Read_clean, r, s) \<and>
     ocf_engine_refresh (ocf_read_generic_do False) r s = Some (Inr (Read_core, r', s))"
proof -
  obtain t :: cl_state and rep where t: "request_ok t rep demo_cl_req" "line_size t = Size_4" "block_4k t = False" "coll_inv t"
    "mapped t 0" "line_key t 0 = (0, 5)" "partition_id (lru_meta t 0) = 0"
    using demo_state by blast
  define s where "s = set_status 0 (St_u8 \<lparr>valid = 15, dirty = 15\<rparr>) t"
  have "cl_inv t rep" using t(1) by (simp add: request_ok_def)
  then have m: "md_ok t" "eviction_policy t = ocf_eviction_lru" by (simp_all add: cl_inv_def cache_inv_def)
  have b: "{i. bit (15 :: 8 word) i} = {0..3}"
  proof -
    have "(15 :: 8 word) = mask 4" by (simp add: mask_eq_exp_minus_1)
    then show ?thesis by (simp only: bit_mask_iff) auto
  qed
  have f: "line_size s = Size_4" "block_4k s = False" "eviction_policy s = ocf_eviction_lru" "partition_id (lru_meta s 0) = 0"
    "marked Dirty s 0 = {0..3}" "marked Valid s 0 = {0..3}" "md_ok s"
    using t m b by (simp_all add: s_def set_status_def marked_def md_ok_def u8_status_ok)
  have "same_dir t s" by (simp add: s_def set_status_def same_dir_def)
  then have k: "coll_inv s" "mapped s 0" "line_key s 0 = (0, 5)" using t(4-6) by (simp_all add: same_dirD)
  note R = demo_ready [OF k(1) f(7,3,1) k(2,3), of 0]
  have "found_status s (demo_eng_req 0) 0 = LOOKUP_HIT_INVALID"
    using R(2) demo_blocks [OF f(1,2)] f(6) by (auto simp: found_status_def)
  from resumed_read_misses_dirty [OF R(1), of False] this R(2) f(4,5) obtain r r' where
    "ocf_engine_lookup s (demo_eng_req 0) = Some r" "ocf_read_generic_do False r s = Some (Read_clean, r, s)"
    "ocf_engine_refresh (ocf_read_generic_do False) r s = Some (Inr (Read_core, r', s))"
    by auto
  then show ?thesis using f(5,6) by blast
qed

end
