(* ===== verification/Evict.thy ===== *)
theory Evict
  imports Engine User_Part
begin

section \<open>Assigning cache lines to a request (eviction/ocf_lru.c)\<close>

text \<open>
  The core lines of a request that are not cached are given cache lines: from the free list, or from a partition, whose
  least recently used clean lines are evicted. The request holds the locks of its own hash buckets. A line is taken by
  trying its lock and the lock of the bucket of the core line it holds; both attempts may fail, because other
  requests hold them. \<open>rq_id\<close> is the number of the request in the lock tables and \<open>rq_lru_idx\<close> the counter \<open>lru_idx\<close> of
  its queue. The configuration of the partitions, \<open>cfg\<close>, is read. The lock of a list covers the operations on
  it, and access to a page of the collision table is not modelled.
\<close>

record sp_req = eng_req +
  rq_id :: nat
  part_evict :: bool
  rq_lru_idx :: nat

record ocf_lru_iter =
  it_part :: nat
  lru_idx :: nat
  num_avail_lrus :: nat
  next_avail_lru :: "64 word"
  lru_element_idx :: nat

abbreviation (input) OCF_LRU_MAX_LRU_ELEMENT_IDX :: nat where "OCF_LRU_MAX_LRU_ELEMENT_IDX \<equiv> 256"

unbundle bit_operations_syntax

definition ocf_rotate_right :: "64 word \<Rightarrow> nat \<Rightarrow> nat \<Rightarrow> 64 word" where
  "ocf_rotate_right bits shift width =
     (drop_bit shift bits OR push_bit (width - shift) bits) AND (push_bit width 1 - 1)"

text \<open>\<open>__builtin_ffsll\<close>: one more than the index of the lowest bit, 0 for 0.\<close>

definition builtin_ffsll :: "64 word \<Rightarrow> nat" where
  "builtin_ffsll w = (case find (bit w) [0..<64] of None \<Rightarrow> 0 | Some j \<Rightarrow> j + 1)"

definition lru_iter_init :: "nat \<Rightarrow> nat \<Rightarrow> ocf_lru_iter" where
  "lru_iter_init part start_lru = \<lparr>it_part = part, lru_idx = (start_lru + OCF_NUM_LRU_LISTS - 1) mod OCF_NUM_LRU_LISTS,
     num_avail_lrus = OCF_NUM_LRU_LISTS, next_avail_lru = push_bit OCF_NUM_LRU_LISTS 1 - 1, lru_element_idx = 0\<rparr>"

definition lru_iter_advance_list :: "ocf_lru_iter \<Rightarrow> ocf_lru_iter" where
  "lru_iter_advance_list iter =
     (let increment = builtin_ffsll (next_avail_lru iter) in
      iter\<lparr>next_avail_lru := ocf_rotate_right (next_avail_lru iter) increment OCF_NUM_LRU_LISTS,
           lru_idx := (lru_idx iter + increment) mod OCF_NUM_LRU_LISTS\<rparr>)"

definition lru_lru_is_empty :: "ocf_lru_iter \<Rightarrow> bool" where
  "lru_lru_is_empty iter \<longleftrightarrow> next_avail_lru iter AND push_bit (OCF_NUM_LRU_LISTS - 1) 1 = 0"

definition lru_iter_advance :: "ocf_lru_iter \<Rightarrow> ocf_lru_iter" where
  "lru_iter_advance iter =
     (let iter = iter\<lparr>lru_element_idx := lru_element_idx iter + 1\<rparr> in
      if lru_element_idx iter \<ge> OCF_LRU_MAX_LRU_ELEMENT_IDX \<or> lru_lru_is_empty iter
      then (lru_iter_advance_list iter)\<lparr>lru_element_idx := 0\<rparr> else iter)"

definition lru_lru_set_empty :: "ocf_lru_iter \<Rightarrow> ocf_lru_iter" where
  "lru_lru_set_empty iter = iter\<lparr>next_avail_lru := next_avail_lru iter AND NOT (push_bit (OCF_NUM_LRU_LISTS - 1) 1),
     num_avail_lrus := dec32 (num_avail_lrus iter)\<rparr>"

definition lru_lru_all_empty :: "ocf_lru_iter \<Rightarrow> bool" where
  "lru_lru_all_empty iter \<longleftrightarrow> num_avail_lrus iter = 0"

subsection \<open>Locking a candidate\<close>

definition line_trylock :: "nat \<Rightarrow> 'z cl_state_scheme \<Rightarrow> (bool \<times> 'z cl_state_scheme) option" where
  "line_trylock x s = do {
     (got, al) \<leftarrow> ocf_cache_line_try_lock_wr x (cl_locks s);
     Some (got, s\<lparr>cl_locks := al\<rparr>) }"

definition line_unlock :: "nat \<Rightarrow> 'z cl_state_scheme \<Rightarrow> 'z cl_state_scheme option" where
  "line_unlock x s = do {
     al \<leftarrow> ocf_cache_line_unlock_wr x (cl_locks s);
     Some (s\<lparr>cl_locks := al\<rparr>) }"

definition hb_of :: "'z coll_state_scheme \<Rightarrow> 'y eng_req_scheme \<Rightarrow> hb_req" where
  "hb_of s req = \<lparr>num_hash_entries = hash_table_entries s, req_hash = (\<lambda>i. m_hash (rq_map req i)), req_line_count = rq_count req\<rparr>"

definition lru_trylock_hash ::
    "'y eng_req_scheme \<Rightarrow> 'z coll_state_scheme \<Rightarrow> nat \<Rightarrow> nat \<Rightarrow> (bool \<times> 'z coll_state_scheme) option" where
  "lru_trylock_hash req s cid cln =
     (if ocf_req_hash_in_range (hb_of s req) s cid cln then Some (True, s)
      else ocf_hb_cline_naked_trylock OCF_METADATA_WR s cid cln)"

definition lru_unlock_hash :: "'y eng_req_scheme \<Rightarrow> 'z coll_state_scheme \<Rightarrow> nat \<Rightarrow> nat \<Rightarrow> 'z coll_state_scheme option" where
  "lru_unlock_hash req s cid cln =
     (if ocf_req_hash_in_range (hb_of s req) s cid cln then Some s
      else ocf_hb_cline_naked_unlock OCF_METADATA_WR s cid cln)"

definition in_request :: "'y eng_req_scheme \<Rightarrow> nat \<Rightarrow> nat \<Rightarrow> bool" where
  "in_request req cid cln \<longleftrightarrow> cid = rq_core req \<and> cln \<ge> line_first req \<and> cln \<le> line_last req"

definition lru_iter_eviction_lock ::
    "'y eng_req_scheme \<Rightarrow> nat \<Rightarrow> 'z cl_state_scheme \<Rightarrow> ((nat \<times> nat) option \<times> 'z cl_state_scheme) option" where
  "lru_iter_eviction_lock req cline s = do {
     (got, s) \<leftarrow> line_trylock cline s;
     if \<not> got then Some (None, s)
     else do {
       (cid, cln) \<leftarrow> ocf_metadata_get_core_info s cline;
       if in_request req cid cln then do { s \<leftarrow> line_unlock cline s; Some (None, s) }
       else do {
         (got, s) \<leftarrow> lru_trylock_hash req s cid cln;
         if \<not> got then do { s \<leftarrow> line_unlock cline s; Some (None, s) }
         else do {
           waiters \<leftarrow> ocf_cache_line_are_waiters (cl_locks s) cline;
           if waiters then do {
             s \<leftarrow> lru_unlock_hash req s cid cln;
             s \<leftarrow> line_unlock cline s;
             Some (None, s) }
           else Some (Some (cid, cln), s) } } } }"

text \<open>The loops along a list; \<open>n\<close> bounds the length of the list.\<close>

fun eviction_scan ::
    "'y eng_req_scheme \<Rightarrow> nat \<Rightarrow> nat \<Rightarrow> 'z cl_state_scheme \<Rightarrow> ((nat \<times> nat \<times> nat) option \<times> 'z cl_state_scheme) option" where
  "eviction_scan req n cline s =
     (if cline = end_marker then Some (None, s)
      else case n of 0 \<Rightarrow> None | Suc n \<Rightarrow> do {
        (key, s) \<leftarrow> lru_iter_eviction_lock req cline s;
        case key of Some k \<Rightarrow> Some (Some (cline, k), s)
        | None \<Rightarrow> do {
            node \<leftarrow> ocf_metadata_get_lru s cline;
            eviction_scan req n (l_prev node) s } })"

fun free_scan :: "nat \<Rightarrow> nat \<Rightarrow> 'z cl_state_scheme \<Rightarrow> (nat option \<times> 'z cl_state_scheme) option" where
  "free_scan n cline s =
     (if cline = end_marker then Some (None, s)
      else case n of 0 \<Rightarrow> None | Suc n \<Rightarrow> do {
        (got, s) \<leftarrow> line_trylock cline s;
        if got then Some (Some cline, s)
        else do {
          node \<leftarrow> ocf_metadata_get_lru s cline;
          free_scan n (l_prev node) s } })"

subsection \<open>The next line\<close>

text \<open>\<open>n\<close> is the number of lists left to visit.\<close>

fun lru_iter_eviction_next ::
    "'y eng_req_scheme \<Rightarrow> nat \<Rightarrow> nat \<Rightarrow> ocf_lru_iter \<Rightarrow> 'z cl_state_scheme \<Rightarrow>
     ((nat \<times> nat \<times> nat) option \<times> ocf_lru_iter \<times> 'z cl_state_scheme) option" where
  "lru_iter_eviction_next req dst_part 0 iter s = None"
| "lru_iter_eviction_next req dst_part (Suc n) iter s = do {
     let iter = lru_iter_advance iter;
     let curr_lru = lru_idx iter;
     let list = ocf_lru_get_list s (it_part iter) curr_lru True;
     (found, s) \<leftarrow> eviction_scan req (collision_table_entries s) (tail list) s;
     case found of Some (cline, key) \<Rightarrow> do {
         s \<leftarrow> (if dst_part \<noteq> it_part iter then ocf_lru_repart_locked s cline (it_part iter) dst_part
              else on_list (\<lambda>s L. ocf_lru_set_hot s L cline) (it_part iter) curr_lru True s);
         Some (Some (cline, key), iter, s) }
     | None \<Rightarrow> do {
         let iter = (if lru_lru_is_empty iter then iter else lru_lru_set_empty iter);
         if lru_lru_all_empty iter then Some (None, iter, s)
         else lru_iter_eviction_next req dst_part n iter s } }"

fun lru_iter_free_next ::
    "nat \<Rightarrow> nat \<Rightarrow> ocf_lru_iter \<Rightarrow> 'z cl_state_scheme \<Rightarrow> (nat option \<times> ocf_lru_iter \<times> 'z cl_state_scheme) option" where
  "lru_iter_free_next dst_part 0 iter s = None"
| "lru_iter_free_next dst_part (Suc n) iter s = do {
     bug_on (dst_part = it_part iter);
     let iter = lru_iter_advance iter;
     let curr_lru = lru_idx iter;
     let list = ocf_lru_get_list s (it_part iter) curr_lru True;
     (found, s) \<leftarrow> free_scan (collision_table_entries s) (tail list) s;
     case found of Some cline \<Rightarrow> do {
         s \<leftarrow> ocf_lru_repart_locked s cline (it_part iter) dst_part;
         Some (Some cline, iter, s) }
     | None \<Rightarrow> do {
         let iter = (if lru_lru_is_empty iter then iter else lru_lru_set_empty iter);
         if lru_lru_all_empty iter then Some (None, iter, s)
         else lru_iter_free_next dst_part n iter s } }"

text \<open>The line after the last one taken; \<open>user_parts\<close> has 35 elements. The result has the partition of the line.\<close>

definition lru_req_next_cline ::
    "(nat \<Rightarrow> ocf_user_part_config) \<Rightarrow> 'y eng_req_scheme \<Rightarrow> nat \<Rightarrow> ocf_lru_iter \<Rightarrow> nat \<Rightarrow> 'z cl_state_scheme \<Rightarrow>
     ((nat \<times> nat \<times> nat) option \<times> ocf_lru_iter \<times> 'z cl_state_scheme) option" where
  "lru_req_next_cline cfg req dst_part iter cline s = do {
     tmp_part_id \<leftarrow> ocf_metadata_get_partition_id s cline;
     if tmp_part_id = PARTITION_FREELIST then Some (None, iter, s)
     else do {
       bug_on (tmp_part_id > OCF_USER_IO_CLASS_MAX);
       if \<not> f_eviction (cfg tmp_part_id) then Some (None, iter, s)
       else do {
         (got, s) \<leftarrow> line_trylock cline s;
         if \<not> got then Some (None, iter, s)
         else do {
           (t_core_id, t_core_line) \<leftarrow> ocf_metadata_get_core_info s cline;
           node \<leftarrow> ocf_metadata_get_lru s cline;
           dirty \<leftarrow> metadata_test_dirty s cline;
           if in_request req t_core_id t_core_line \<or> l_hot node \<or> dirty
           then do { s \<leftarrow> line_unlock cline s; Some (None, iter, s) }
           else do {
             (got, s) \<leftarrow> lru_trylock_hash req s t_core_id t_core_line;
             if \<not> got then do { s \<leftarrow> line_unlock cline s; Some (None, iter, s) }
             else do {
               s \<leftarrow> (if dst_part \<noteq> tmp_part_id then ocf_lru_repart_locked s cline tmp_part_id dst_part
                    else do {
                      (p, i, clean) \<leftarrow> lru_get_cline_list s cline;
                      on_list (\<lambda>s L. ocf_lru_set_hot s L cline) p i clean s });
               Some (Some (tmp_part_id, t_core_id, t_core_line), lru_iter_advance iter, s) } } } } } }"

subsection \<open>Mapping lines to the request\<close>

definition ocf_lru_invalidate :: "'z cl_state_scheme \<Rightarrow> nat \<Rightarrow> nat \<Rightarrow> nat \<Rightarrow> 'z cl_state_scheme option" where
  "ocf_lru_invalidate s cline cid part_id = do {
     s \<leftarrow> metadata_clear_valid_sec s cline 0 (ocf_line_end_block s);
     s \<leftarrow> ocf_metadata_remove_from_collision s cline;
     add_cached (-1) cid part_id s }"

definition ocf_map_cache_line ::
    "'y eng_req_scheme \<Rightarrow> nat \<Rightarrow> nat \<Rightarrow> 'z cl_state_scheme \<Rightarrow> ('y eng_req_scheme \<times> 'z cl_state_scheme) option" where
  "ocf_map_cache_line req idx cache_line s = do {
     s \<leftarrow> ocf_metadata_add_to_collision s (rq_core req) (line_first req + idx) (m_hash (rq_map req idx)) cache_line;
     Some (put_entry idx (\<lambda>e. e\<lparr>coll_idx := cache_line\<rparr>) req, cleaning_call (Init_block cache_line) s) }"

fun next_miss :: "nat \<Rightarrow> 'y cl_req_scheme \<Rightarrow> nat \<Rightarrow> nat" where
  "next_miss 0 req req_idx = req_idx"
| "next_miss (Suc n) req req_idx =
     (if req_idx + 1 < rq_count req \<and> m_status (rq_map req req_idx) \<noteq> LOOKUP_MISS
      then next_miss n req (req_idx + 1) else req_idx)"

definition give_line ::
    "'y sp_req_scheme \<Rightarrow> nat \<Rightarrow> nat \<Rightarrow> nat \<Rightarrow> nat \<times> nat \<Rightarrow> 'z cl_state_scheme \<Rightarrow>
     (nat \<times> 'y sp_req_scheme \<times> 'z cl_state_scheme) option" where
  "give_line req req_idx cline src key s = do {
     used \<leftarrow> ocf_cache_line_is_used (cl_locks s) cline;
     bug_on (\<not> used);
     dirty \<leftarrow> metadata_test_dirty s cline;
     bug_on dirty;
     let req_idx = next_miss (rq_count req) req req_idx;
     bug_on (m_status (rq_map req req_idx) \<noteq> LOOKUP_MISS);
     s \<leftarrow> (if src \<noteq> PARTITION_FREELIST then do {
            s \<leftarrow> ocf_lru_invalidate s cline (fst key) src;
            lru_unlock_hash req s (fst key) (snd key) }
          else Some s);
     (req, s) \<leftarrow> ocf_map_cache_line req req_idx cline s;
     let req = put_entry req_idx (\<lambda>e. e\<lparr>m_status := LOOKUP_REMAPPED\<rparr>) req;
     req \<leftarrow> ocf_engine_patch_req_info req_idx req;
     let al = ocf_alock_mark_index_locked (rq_id req) req_idx True (cl_locks s);
     let al = upd_req (rq_id req) (\<lambda>r. r\<lparr>alock_rw := OCF_WRITE\<rparr>) al;
     Some (req_idx + 1, req, s\<lparr>cl_locks := al\<rparr>) }"

text \<open>
  One turn of the loop up to \<open>got_cline\<close>: the line, the partition it comes from, and the core line it held. \<open>lists\<close> is one
  more than the number of lists, enough for the search to end.
\<close>

definition pick_line ::
    "(nat \<Rightarrow> ocf_user_part_config) \<Rightarrow> 'y sp_req_scheme \<Rightarrow> nat \<Rightarrow> ocf_lru_iter \<Rightarrow> 'z cl_state_scheme \<Rightarrow>
     ((nat \<times> nat \<times> nat \<times> nat) option \<times> ocf_lru_iter \<times> 'z cl_state_scheme) option" where
  "pick_line cfg req cline iter s =
     (if it_part iter \<noteq> PARTITION_FREELIST then do {
        (found, iter, s) \<leftarrow>
          (if cline < collision_table_entries s - 1 then lru_req_next_cline cfg req (rq_part req) iter (cline + 1) s
           else Some (None, iter, s));
        case found of Some (part, key) \<Rightarrow> Some (Some (cline + 1, part, key), iter, s)
        | None \<Rightarrow> do {
            (found, iter, s) \<leftarrow> lru_iter_eviction_next req (rq_part req) (OCF_NUM_LRU_LISTS + 1) iter s;
            Some (map_option (\<lambda>(cline, key). (cline, it_part iter, key)) found, iter, s) } }
      else do {
        (found, iter, s) \<leftarrow> lru_iter_free_next (rq_part req) (OCF_NUM_LRU_LISTS + 1) iter s;
        Some (map_option (\<lambda>cline. (cline, it_part iter, 0, 0)) found, iter, s) })"

fun req_clines_loop ::
    "(nat \<Rightarrow> ocf_user_part_config) \<Rightarrow> nat \<Rightarrow> nat \<Rightarrow> nat \<Rightarrow> nat \<Rightarrow> nat \<Rightarrow> ocf_lru_iter \<Rightarrow> 'y sp_req_scheme \<Rightarrow> 'z cl_state_scheme \<Rightarrow>
     (nat \<times> 'y sp_req_scheme \<times> 'z cl_state_scheme) option" where
  "req_clines_loop cfg dst_max_size 0 i req_idx cline iter req s = Some (i, req, s)"
| "req_clines_loop cfg dst_max_size (Suc n) i req_idx cline iter req s = do {
     (found, iter, s) \<leftarrow> pick_line cfg req cline iter s;
     case found of None \<Rightarrow> Some (i, req, s)
     | Some (cline, src, key) \<Rightarrow> do {
         (req_idx, req, s) \<leftarrow> give_line req req_idx cline src key s;
         if src \<noteq> rq_part req \<and> nat (curr_size (cparts s (rq_part req)) mod 2 ^ 32) \<ge> dst_max_size then Some (i + 1, req, s)
         else do {
           bug_on (req_idx = rq_count req \<and> n \<noteq> 0);
           req_clines_loop cfg dst_max_size n (i + 1) req_idx cline iter req s } } }"

definition ocf_lru_req_clines ::
    "'y sp_req_scheme \<Rightarrow> nat \<Rightarrow> nat \<Rightarrow> user_cache \<Rightarrow> (nat \<times> 'y sp_req_scheme \<times> user_cache) option" where
  "ocf_lru_req_clines req src_part cline_no u =
     (if cline_no = 0 then Some (0, req, u)
      else do {
        let dst_max_size = ocf_user_part_get_max_size u (rq_part req);
        bug_on (ocf_engine_unmapped_count req < cline_no);
        bug_on (rq_part req = PARTITION_FREELIST);
        let start = rq_lru_idx req mod OCF_NUM_LRU_LISTS;
        let req = req\<lparr>rq_lru_idx := inc32 (rq_lru_idx req)\<rparr>;
        (n, req, s) \<leftarrow> req_clines_loop (user_parts u) dst_max_size cline_no 0 0 end_marker (lru_iter_init src_part start) req (cl u);
        Some (n, req, u\<lparr>cl := s\<rparr>) })"

subsection \<open>The iteration over the lists ends\<close>

definition avail :: "ocf_lru_iter \<Rightarrow> nat set" where
  "avail iter = {j. bit (next_avail_lru iter) j}"

definition iter_ok :: "ocf_lru_iter \<Rightarrow> bool" where
  "iter_ok iter \<longleftrightarrow> avail iter \<subseteq> {..<32} \<and> num_avail_lrus iter = card (avail iter) \<and> lru_idx iter < 32"

lemma mask_32_bit: "bit ((push_bit 32 1 - 1) :: 64 word) j \<longleftrightarrow> j < 32"
proof -
  have "(push_bit 32 1 - 1 :: 64 word) = mask 32" by (simp only: push_bit_of_1 mask_eq_exp_minus_1)
  then show ?thesis by (simp only: bit_mask_iff) auto
qed

lemma top_bit: "bit ((push_bit (OCF_NUM_LRU_LISTS - 1) 1) :: 64 word) j \<longleftrightarrow> j = 31"
  by (simp only: bit_push_bit_iff bit_1_iff) auto

lemma empty_iff: "lru_lru_is_empty iter \<longleftrightarrow> 31 \<notin> avail iter"
proof -
  let ?w = "next_avail_lru iter AND push_bit (OCF_NUM_LRU_LISTS - 1) 1"
  have b: "bit ?w j \<longleftrightarrow> bit (next_avail_lru iter) 31 \<and> j = 31" for j
    by (simp only: bit_and_iff top_bit) auto
  have "?w = 0 \<longleftrightarrow> \<not> bit (next_avail_lru iter) 31"
  proof
    assume "?w = 0"
    then show "\<not> bit (next_avail_lru iter) 31" using b [of 31] by (metis bit_0_eq bot_apply bot_bool_def)
  next
    assume "\<not> bit (next_avail_lru iter) 31"
    then show "?w = 0" using b by (intro bit_eqI) (simp only: bit_0_eq bot_apply bot_bool_def simp_thms)
  qed
  then show ?thesis unfolding lru_lru_is_empty_def avail_def by simp
qed

lemma iter_init_ok: "iter_ok (lru_iter_init part start)" "it_part (lru_iter_init part start) = part"
  "num_avail_lrus (lru_iter_init part start) = 32"
proof -
  have "avail (lru_iter_init part start) = {..<32}"
    unfolding avail_def lru_iter_init_def ocf_lru_iter.simps mask_32_bit by auto
  then show "iter_ok (lru_iter_init part start)" by (simp add: iter_ok_def lru_iter_init_def)
qed (simp_all add: lru_iter_init_def)

lemma rotate_bit:
  assumes "{j. bit w j} \<subseteq> {..<32}" "sh \<le> 32"
  shows "bit (ocf_rotate_right w sh 32) j \<longleftrightarrow> j < 32 \<and> bit w ((j + sh) mod 32)"
proof -
  have lt: "bit w i \<Longrightarrow> i < 32" for i using assms(1) by auto
  have "bit (ocf_rotate_right w sh 32) j \<longleftrightarrow> j < 32 \<and> (bit w (j + sh) \<or> 32 - sh \<le> j \<and> bit w (j - (32 - sh)))"
    unfolding ocf_rotate_right_def
    by (auto simp only: bit_and_iff bit_or_iff bit_drop_bit_eq bit_push_bit_iff mask_32_bit o_apply) (auto simp: add.commute)
  also have "\<dots> \<longleftrightarrow> j < 32 \<and> bit w ((j + sh) mod 32)"
  proof (cases "j < 32")
    case True
    show ?thesis
    proof (cases "j + sh < 32")
      case True
      then show ?thesis by auto
    next
      case False
      have "j + sh - 32 < 32" using \<open>j < 32\<close> assms(2) by simp
      then have "(j + sh) mod 32 = j + sh - 32" using False by (simp add: mod_if)
      moreover have "j - (32 - sh) = j + sh - 32" using assms(2) False by simp
      ultimately show ?thesis using \<open>j < 32\<close> False lt [of "j + sh"] by auto
    qed
  qed simp
  finally show ?thesis .
qed

lemma ffs_range:
  assumes "{j. bit w j} \<subseteq> {..<32}"
  shows "builtin_ffsll w \<le> 32" "w \<noteq> 0 \<Longrightarrow> 0 < builtin_ffsll w \<and> bit w (builtin_ffsll w - 1)"
proof -
  have lt: "bit w i \<Longrightarrow> i < 32" for i using assms by auto
  show "builtin_ffsll w \<le> 32"
  proof (cases "find (bit w) [0..<64]")
    case (Some j)
    then have "bit w j" by (metis find_Some_iff)
    then show ?thesis using Some lt [of j] by (simp add: builtin_ffsll_def)
  qed (simp add: builtin_ffsll_def)
  assume "w \<noteq> 0"
  then obtain i where i: "bit w i" by (metis bit_eqI bit_0_eq bot_apply bot_bool_def)
  then have "i < 64" using lt by fastforce
  then obtain j where j: "find (bit w) [0..<64] = Some j" using i
    by (cases "find (bit w) [0..<64]") (auto simp: find_None_iff)
  then have "bit w j" by (metis find_Some_iff)
  then show "0 < builtin_ffsll w \<and> bit w (builtin_ffsll w - 1)" using j by (simp add: builtin_ffsll_def)
qed

lemma rotate_bij:
  fixes sh :: nat
  assumes "A \<subseteq> {..<32}"
  shows "bij_betw (\<lambda>j. (j + sh) mod 32) {j. j < 32 \<and> (j + sh) mod 32 \<in> A} A"
proof -
  have l: "sh mod 32 < 32" by simp
  have m: "(z + sh) mod 32 = (if z + sh mod 32 < 32 then z + sh mod 32 else z + sh mod 32 - 32)" if "z < 32" for z
  proof -
    have "(z + sh) mod 32 = (z + sh mod 32) mod 32" by (simp only: mod_add_right_eq)
    also have "\<dots> = (if z + sh mod 32 < 32 then z + sh mod 32 else z + sh mod 32 - 32)"
    proof (cases "z + sh mod 32 < 32")
      case False
      then have "z + sh mod 32 = (z + sh mod 32 - 32) + 32" by simp
      then have "(z + sh mod 32) mod 32 = (z + sh mod 32 - 32) mod 32" by (metis mod_add_self2)
      moreover have "z + sh mod 32 - 32 < 32" using that l by linarith
      ultimately show ?thesis using False by simp
    qed simp
    finally show ?thesis .
  qed
  show ?thesis
  proof (rule bij_betwI')
    fix x y :: nat
    assume "x \<in> {j. j < 32 \<and> (j + sh) mod 32 \<in> A}" "y \<in> {j. j < 32 \<and> (j + sh) mod 32 \<in> A}"
    then have "x < 32" "y < 32" by simp_all
    then show "((x + sh) mod 32 = (y + sh) mod 32) = (x = y)"
      unfolding m [OF \<open>x < 32\<close>] m [OF \<open>y < 32\<close>] using l by auto
  next
    fix y assume y: "y \<in> A"
    then have "y < 32" using assms by auto
    let ?x = "(y + (32 - sh mod 32)) mod 32"
    have "(?x + sh) mod 32 = (y + (32 - sh mod 32) + sh) mod 32" by (simp add: mod_add_left_eq)
    also have "\<dots> = (y + ((32 - sh mod 32) + sh mod 32)) mod 32" by (metis add.assoc mod_add_right_eq)
    also have "\<dots> = y" using \<open>y < 32\<close> by simp
    finally show "\<exists>x\<in>{j. j < 32 \<and> (j + sh) mod 32 \<in> A}. y = (x + sh) mod 32"
      using y by (intro bexI [of _ ?x]) simp_all
  qed auto
qed

lemma advance_list_ok:
  assumes "iter_ok iter"
  shows "iter_ok (lru_iter_advance_list iter)" "it_part (lru_iter_advance_list iter) = it_part iter"
    "num_avail_lrus (lru_iter_advance_list iter) = num_avail_lrus iter"
    "0 < num_avail_lrus iter \<Longrightarrow> \<not> lru_lru_is_empty (lru_iter_advance_list iter)"
proof -
  let ?w = "next_avail_lru iter" and ?i = "builtin_ffsll (next_avail_lru iter)"
  have A: "{j. bit ?w j} \<subseteq> {..<32}" "num_avail_lrus iter = card {j. bit ?w j}" using assms by (auto simp: iter_ok_def avail_def)
  have b: "bit (ocf_rotate_right ?w ?i 32) j \<longleftrightarrow> j < 32 \<and> bit ?w ((j + ?i) mod 32)" for j
    by (rule rotate_bit [OF A(1) ffs_range(1) [OF A(1)]])
  have "avail (lru_iter_advance_list iter) = {j. j < 32 \<and> (j + ?i) mod 32 \<in> {j. bit ?w j}}"
    by (auto simp: avail_def lru_iter_advance_list_def Let_def b)
  then show "iter_ok (lru_iter_advance_list iter)"
    using bij_betw_same_card [OF rotate_bij [OF A(1), of ?i]] A(2) by (auto simp: iter_ok_def lru_iter_advance_list_def Let_def)
  show "it_part (lru_iter_advance_list iter) = it_part iter" "num_avail_lrus (lru_iter_advance_list iter) = num_avail_lrus iter"
    by (simp_all add: lru_iter_advance_list_def Let_def)
  assume "0 < num_avail_lrus iter"
  then have "?w \<noteq> 0" using A(2) by (auto simp: card_gt_0_iff)
  note F = ffs_range(2) [OF A(1) this] ffs_range(1) [OF A(1)]
  have "(31 + i) mod 32 = i - 1" if "0 < i" "i \<le> 32" for i :: nat
  proof -
    have "31 + i = (i - 1) + 32" using that by simp
    then have "(31 + i) mod 32 = (i - 1) mod 32" by (simp only: mod_add_self2)
    then show ?thesis using that by simp
  qed
  then have "(31 + ?i) mod 32 = ?i - 1" using F by blast
  then have "bit (ocf_rotate_right ?w ?i 32) 31" using b [of 31] F(1) by simp
  then show "\<not> lru_lru_is_empty (lru_iter_advance_list iter)"
    unfolding empty_iff by (simp add: avail_def lru_iter_advance_list_def Let_def)
qed

lemma advance_ok:
  assumes "iter_ok iter"
  shows "iter_ok (lru_iter_advance iter)" "it_part (lru_iter_advance iter) = it_part iter"
    "num_avail_lrus (lru_iter_advance iter) = num_avail_lrus iter"
    "0 < num_avail_lrus iter \<Longrightarrow> \<not> lru_lru_is_empty (lru_iter_advance iter)"
proof -
  let ?j = "iter\<lparr>lru_element_idx := lru_element_idx iter + 1\<rparr>"
  have j: "iter_ok ?j" "it_part ?j = it_part iter" "num_avail_lrus ?j = num_avail_lrus iter"
    using assms by (simp_all add: iter_ok_def avail_def)
  have e: "iter_ok (x\<lparr>lru_element_idx := 0\<rparr>) = iter_ok x" "lru_lru_is_empty (x\<lparr>lru_element_idx := 0\<rparr>) = lru_lru_is_empty x" for x
    by (simp_all add: iter_ok_def avail_def empty_iff)
  note A = advance_list_ok [OF j(1)]
  show "iter_ok (lru_iter_advance iter)" "it_part (lru_iter_advance iter) = it_part iter"
    "num_avail_lrus (lru_iter_advance iter) = num_avail_lrus iter"
    using A j e by (simp_all add: lru_iter_advance_def Let_def)
  assume "0 < num_avail_lrus iter"
  then show "\<not> lru_lru_is_empty (lru_iter_advance iter)"
    using A(4) j e by (auto simp: lru_iter_advance_def Let_def)
qed

text \<open>The lists that are left to search.\<close>

definition live :: "ocf_lru_iter \<Rightarrow> nat set" where
  "live iter = (\<lambda>j. (lru_idx iter + j + 1) mod 32) ` avail iter"

lemma image_minus_one: "(\<And>j. j \<in> A \<Longrightarrow> j \<noteq> a \<Longrightarrow> f j \<noteq> f a) \<Longrightarrow> f ` (A - {a}) = f ` A - {f a}"
  by auto

lemma live_advance_list:
  assumes "iter_ok iter"
  shows "live (lru_iter_advance_list iter) = live iter"
proof -
  let ?i = "builtin_ffsll (next_avail_lru iter)"
  let ?A = "{j. j < 32 \<and> (j + ?i) mod 32 \<in> avail iter}"
  have A: "{j. bit (next_avail_lru iter) j} \<subseteq> {..<32}" using assms by (auto simp: iter_ok_def avail_def)
  have "avail (lru_iter_advance_list iter) = ?A"
    using rotate_bit [OF A ffs_range(1) [OF A]] by (auto simp: avail_def lru_iter_advance_list_def Let_def)
  then have "live (lru_iter_advance_list iter) = (\<lambda>j. ((lru_idx iter + ?i) mod 32 + j + 1) mod 32) ` ?A"
    by (simp add: live_def lru_iter_advance_list_def Let_def)
  also have "(\<lambda>j. ((lru_idx iter + ?i) mod 32 + j + 1) mod 32) = (\<lambda>j. (lru_idx iter + j + 1) mod 32) \<circ> (\<lambda>j. (j + ?i) mod 32)"
  proof (rule ext)
    fix j
    have "((lru_idx iter + ?i) mod 32 + j + 1) mod 32 = (lru_idx iter + ?i + (j + 1)) mod 32"
      by (metis add.assoc mod_add_left_eq)
    also have "\<dots> = (lru_idx iter + 1 + (j + ?i)) mod 32" by (rule arg_cong [where f = "\<lambda>n. n mod 32"]) simp
    also have "\<dots> = (lru_idx iter + 1 + (j + ?i) mod 32) mod 32" by (metis mod_add_right_eq)
    finally show "((lru_idx iter + ?i) mod 32 + j + 1) mod 32 = ((\<lambda>j. (lru_idx iter + j + 1) mod 32) \<circ> (\<lambda>j. (j + ?i) mod 32)) j"
      by (simp add: ac_simps)
  qed
  also have "\<dots> ` ?A = (\<lambda>j. (lru_idx iter + j + 1) mod 32) ` avail iter"
  proof -
    have "(\<lambda>j. (j + ?i) mod 32) ` ?A = avail iter"
      using bij_betw_imp_surj_on [OF rotate_bij, of "avail iter" ?i] A by (simp add: avail_def)
    then show ?thesis by (simp only: image_comp [symmetric])
  qed
  finally show ?thesis by (simp add: live_def)
qed

lemma live_advance:
  assumes "iter_ok iter"
  shows "live (lru_iter_advance iter) = live iter"
proof -
  let ?j = "iter\<lparr>lru_element_idx := lru_element_idx iter + 1\<rparr>"
  have j: "iter_ok ?j" "live ?j = live iter" using assms by (simp_all add: iter_ok_def avail_def live_def)
  have "live (x\<lparr>lru_element_idx := 0\<rparr>) = live x" for x by (simp add: live_def avail_def)
  then show ?thesis using live_advance_list [OF j(1)] j(2) by (simp add: lru_iter_advance_def Let_def)
qed

lemma live_idx:
  assumes "iter_ok iter"
  shows "live iter \<subseteq> {..<32}" "\<not> lru_lru_is_empty iter \<Longrightarrow> lru_idx iter \<in> live iter" "num_avail_lrus iter = 0 \<longleftrightarrow> live iter = {}"
proof -
  show "live iter \<subseteq> {..<32}" by (auto simp: live_def)
  have top: "(lru_idx iter + 31 + 1) mod 32 = lru_idx iter" using assms by (simp add: iter_ok_def)
  show "lru_idx iter \<in> live iter" if "\<not> lru_lru_is_empty iter" 
    unfolding live_def by (rule image_eqI [where x = 31]) (use that empty_iff top in simp_all)
  have "finite (avail iter)" using assms finite_subset [of "avail iter" "{..<32}"] by (auto simp: iter_ok_def)
  then show "num_avail_lrus iter = 0 \<longleftrightarrow> live iter = {}" using assms by (simp add: iter_ok_def live_def)
qed

lemma live_init: "live (lru_iter_init part start) = {..<32}"
proof -
  let ?k = "(start + 32 - 1) mod 32"
  have a: "avail (lru_iter_init part start) = {..<32}"
    unfolding avail_def lru_iter_init_def ocf_lru_iter.simps mask_32_bit by auto
  have "live (lru_iter_init part start) = (\<lambda>j. (j + (?k + 1)) mod 32) ` {j. j < 32 \<and> (j + (?k + 1)) mod 32 \<in> {..<32}}"
  proof -
    have "{j. j < 32 \<and> (j + (?k + 1)) mod 32 \<in> {..<32}} = {..<32}" by auto
    moreover have "(\<lambda>j. (lru_idx (lru_iter_init part start) + j + 1) mod 32) = (\<lambda>j. (j + (?k + 1)) mod 32)"
    proof (rule ext)
      fix j
      have "lru_idx (lru_iter_init part start) + j + 1 = j + (?k + 1)" by (simp add: lru_iter_init_def)
      then show "(lru_idx (lru_iter_init part start) + j + 1) mod 32 = (j + (?k + 1)) mod 32" by (simp only:)
    qed
    ultimately show ?thesis unfolding live_def a by (simp only:)
  qed
  then show ?thesis using bij_betw_imp_surj_on [OF rotate_bij [of "{..<32}" "?k + 1"]] by simp
qed

lemma set_empty_ok:
  assumes "iter_ok iter" "\<not> lru_lru_is_empty iter"
  shows "iter_ok (lru_lru_set_empty iter)" "it_part (lru_lru_set_empty iter) = it_part iter"
    "num_avail_lrus (lru_lru_set_empty iter) = num_avail_lrus iter - 1"
    "live (lru_lru_set_empty iter) = live iter - {lru_idx iter}"
proof -
  have A: "avail iter \<subseteq> {..<32}" "num_avail_lrus iter = card (avail iter)" "31 \<in> avail iter"
    using assms by (auto simp: iter_ok_def empty_iff)
  have f: "finite (avail iter)" using A(1) finite_subset by blast
  have "card (avail iter) \<le> card {..<32::nat}" by (rule card_mono [OF _ A(1)]) simp
  then have n: "num_avail_lrus iter \<le> 32" "0 < num_avail_lrus iter" using A(2,3) f by (auto simp: card_gt_0_iff)
  have d: "dec32 (num_avail_lrus iter) = num_avail_lrus iter - 1" using n by (intro dec32_eq) auto
  have av: "avail (lru_lru_set_empty iter) = avail iter - {31}"
  proof (rule set_eqI)
    fix j
    have n: "next_avail_lru (lru_lru_set_empty iter) = next_avail_lru iter AND NOT (push_bit (OCF_NUM_LRU_LISTS - 1) 1)"
      by (simp add: lru_lru_set_empty_def)
    have "j \<in> avail (lru_lru_set_empty iter) \<longleftrightarrow> bit (next_avail_lru iter) j \<and> possible_bit TYPE(64 word) j \<and> j \<noteq> 31"
      unfolding avail_def n mem_Collect_eq bit_and_iff bit_not_iff top_bit ..
    then show "j \<in> avail (lru_lru_set_empty iter) \<longleftrightarrow> j \<in> avail iter - {31}"
      using bit_imp_possible_bit [of "next_avail_lru iter" j] by (auto simp: avail_def)
  qed
  have lt: "lru_idx iter < 32" using assms(1) by (simp add: iter_ok_def)
  then have top: "(lru_idx iter + 31 + 1) mod 32 = lru_idx iter" by simp
  have inj: "j = 31" if "j < 32" "(lru_idx iter + j + 1) mod 32 = lru_idx iter" for j
  proof (cases "lru_idx iter + j + 1 < 32")
    case False
    then have "(lru_idx iter + j + 1) mod 32 = lru_idx iter + j + 1 - 32" using that(1) lt by (simp add: le_mod_geq)
    then show ?thesis using that False by simp
  qed (use that in simp)
  have ne: "(lru_idx iter + j + 1) mod 32 \<noteq> (lru_idx iter + 31 + 1) mod 32" if "j \<in> avail iter" "j \<noteq> 31" for j
    unfolding top using inj [of j] A(1) that by auto
  have "live (lru_lru_set_empty iter) = (\<lambda>j. (lru_idx iter + j + 1) mod 32) ` (avail iter - {31})"
    unfolding live_def av by (simp add: lru_lru_set_empty_def)
  also have "\<dots> = live iter - {lru_idx iter}"
    unfolding live_def using image_minus_one [where f = "\<lambda>j. (lru_idx iter + j + 1) mod 32", OF ne] top by simp
  finally show "live (lru_lru_set_empty iter) = live iter - {lru_idx iter}" .
  from av show "iter_ok (lru_lru_set_empty iter)" "it_part (lru_lru_set_empty iter) = it_part iter"
    "num_avail_lrus (lru_lru_set_empty iter) = num_avail_lrus iter - 1"
    using A assms(1) d f by (auto simp: iter_ok_def lru_lru_set_empty_def)
qed

subsection \<open>Taking and giving back locks\<close>

definition locks_quiet :: "'z cl_state_scheme \<Rightarrow> bool" where
  "locks_quiet s \<longleftrightarrow> num_entries (cl_locks s) = collision_table_entries s \<and>
     (\<forall>x. access_of (cl_locks s) x = 0 \<longrightarrow> ocf_alock_waitlist_is_empty_locked (cl_locks s) x)"

definition locked :: "nat \<Rightarrow> 'z cl_state_scheme \<Rightarrow> 'z cl_state_scheme" where
  "locked x s = s\<lparr>cl_locks := set_access x OCF_CACHE_LINE_ACCESS_WR (cl_locks s)\<rparr>"

definition bucket_put :: "nat \<Rightarrow> bool \<Rightarrow> 'z coll_state_scheme \<Rightarrow> 'z coll_state_scheme" where
  "bucket_put h b s = s\<lparr>hash_table := (hash_table s)(h := (hash_table s h)\<lparr>h_wr := b\<rparr>)\<rparr>"

text \<open>The bucket of the core line that a line holds, unless it is one of the request's.\<close>

definition hash_held :: "'y eng_req_scheme \<Rightarrow> nat \<times> nat \<Rightarrow> 'z coll_state_scheme \<Rightarrow> 'z coll_state_scheme" where
  "hash_held req k s = (if ocf_req_hash_in_range (hb_of s req) s (fst k) (snd k) then s else bucket_put (key_hash s k) True s)"

definition hash_free :: "'y eng_req_scheme \<Rightarrow> nat \<times> nat \<Rightarrow> 'z coll_state_scheme \<Rightarrow> bool" where
  "hash_free req k s \<longleftrightarrow> ocf_req_hash_in_range (hb_of s req) s (fst k) (snd k) \<or>
     \<not> h_wr (hash_table s (key_hash s k)) \<and> h_rd (hash_table s (key_hash s k)) = 0"

definition grabbed :: "'y eng_req_scheme \<Rightarrow> nat \<Rightarrow> 'z cl_state_scheme \<Rightarrow> 'z cl_state_scheme" where
  "grabbed req x s = hash_held req (line_key s x) (locked x s)"

lemma trylock_eq:
  assumes "locks_quiet s" "x < collision_table_entries s"
  shows "line_trylock x s = Some (access_of (cl_locks s) x = 0, if access_of (cl_locks s) x = 0 then locked x s else s)"
  using assms by (simp add: line_trylock_def ocf_cache_line_try_lock_wr_def ocf_alock_trylock_entry_wr_def access_ptr_def
      locks_quiet_def locked_def)

lemma unlock_scan_none:
  "\<not> list_ex (\<lambda>w. w_entry w = e) ws \<Longrightarrow> unlock_scan f g e ex ws al = Some (ex, ws, al)"
  by (induction ws) auto

lemma line_unlock_eq:
  assumes "locks_quiet s" "x < collision_table_entries s" "access_of (cl_locks s) x = 0"
    and "cl_locks s' = cl_locks (locked x s)"
  shows "line_unlock x s' = Some (s'\<lparr>cl_locks := cl_locks s\<rparr>)"
proof -
  let ?al = "set_access x OCF_CACHE_LINE_ACCESS_WR (cl_locks s)"
  have w: "\<not> list_ex (\<lambda>w. w_entry w = x) (waiters_lsts (cl_locks s) (WAITERS_LIST_ITEM (cl_locks s) x))"
  proof -
    have "ocf_alock_waitlist_is_empty_locked (cl_locks s) x" using assms(1,3) unfolding locks_quiet_def by blast
    then show ?thesis
      by (cases "waiters_lsts (cl_locks s) (WAITERS_LIST_ITEM (cl_locks s) x)")
        (simp_all add: ocf_alock_waitlist_is_empty_locked_def Let_def)
  qed
  have i: "WAITERS_LIST_ITEM ?al x = WAITERS_LIST_ITEM (cl_locks s) x" "waiters_lsts ?al = waiters_lsts (cl_locks s)"
    by (simp_all add: WAITERS_LIST_ITEM_def set_access_def)
  have "ocf_cache_line_unlock_wr x ?al = Some (cl_locks s)"
    using assms(1-3) unlock_scan_none [OF w]
    by (simp add: ocf_cache_line_unlock_wr_def ocf_alock_unlock_one_wr_def ocf_alock_unlock_one_wr_common_def unlock_common_def i
        ocf_alock_unlock_entry_wr_def access_ptr_def locks_quiet_def) (simp add: set_access_def fun_upd_idem)
  then show ?thesis using assms(4) by (simp add: line_unlock_def locked_def)
qed

lemma hash_simps [simp]:
  "hash_table_entries (bucket_put h b s) = hash_table_entries s" "ocf_metadata_hash_func (bucket_put h b s) = ocf_metadata_hash_func s"
  "collision_table_entries (bucket_put h b s) = collision_table_entries s" "collision (bucket_put h b s) = collision s"
  "list_info (bucket_put h b s) = list_info s" "h_line (hash_table (bucket_put h b s) j) = h_line (hash_table s j)"
  "hb_of (bucket_put h b s) req = hb_of s req"
  by (simp_all add: bucket_put_def fun_eq_iff ocf_metadata_hash_func_def hb_of_def)

lemma locked_simps [simp]:
  "hash_table_entries (locked x s) = hash_table_entries s" "ocf_metadata_hash_func (locked x s) = ocf_metadata_hash_func s"
  "collision_table_entries (locked x s) = collision_table_entries s" "collision (locked x s) = collision s"
  "list_info (locked x s) = list_info s" "hash_table (locked x s) = hash_table s" "hb_of (locked x s) req = hb_of s req"
  "lru_meta (locked x s) = lru_meta s" "cparts (locked x s) = cparts s" "line_key (locked x s) = line_key s"
  by (simp_all add: locked_def fun_eq_iff ocf_metadata_hash_func_def hb_of_def line_key_def)

lemma in_range_cong [simp]:
  "ocf_req_hash_in_range r (bucket_put h b s) = ocf_req_hash_in_range r s" "ocf_req_hash_in_range r (locked x s') = ocf_req_hash_in_range r s'"
  by (simp_all add: fun_eq_iff ocf_req_hash_in_range_def)

lemma key_hash_cong [simp]: "key_hash (locked x s') = key_hash s'" "key_hash (bucket_put h b s) = key_hash s"
  by (simp_all add: fun_eq_iff key_hash_def)

lemma trylock_hash_eq:
  assumes "geometry_ok s"
  shows "lru_trylock_hash req s (fst k) (snd k) = Some (hash_free req k s, if hash_free req k s then hash_held req k s else s)"
proof -
  have lt: "key_hash s k < hash_table_entries s" using hash_func_less [OF assms] .
  have h: "ocf_metadata_hash_func s (snd k) (fst k) = key_hash s k" by (simp add: key_hash_def)
  let ?e = "hash_table s (key_hash s k)"
  show ?thesis
  proof (cases "ocf_req_hash_in_range (hb_of s req) s (fst k) (snd k)")
    case True
    then show ?thesis by (simp add: lru_trylock_hash_def hash_free_def hash_held_def)
  next
    case False
    have t: "lru_trylock_hash req s (fst k) (snd k) = ocf_hb_cline_naked_trylock OCF_METADATA_WR s (fst k) (snd k)"
      "hash_free req k s \<longleftrightarrow> \<not> h_wr ?e \<and> h_rd ?e = 0" "hash_held req k s = bucket_put (key_hash s k) True s"
      using False by (simp_all add: lru_trylock_hash_def hash_free_def hash_held_def)
    have n: "hash_lock_new OCF_METADATA_WR ?e = (if \<not> h_wr ?e \<and> h_rd ?e = 0 then Some (?e\<lparr>h_wr := True\<rparr>) else None)"
      by (simp add: hash_lock_new_def)
    show ?thesis unfolding t using lt
      by (simp add: ocf_hb_cline_naked_trylock_def ocf_hb_id_naked_trylock_def hash_lock_lock_def ocf_metadata_get_hash_ptr_def h n
          Let_def bucket_put_def)
  qed
qed

lemma unlock_hash_eq:
  assumes "geometry_ok s" "hash_free req k s" "h_wr (hash_table s' (key_hash s k)) = h_wr (hash_table (hash_held req k s) (key_hash s k))"
    and "hash_table_entries s' = hash_table_entries s" "ocf_metadata_hash_func s' = ocf_metadata_hash_func s"
    and "ocf_req_hash_in_range (hb_of s' req') s' = ocf_req_hash_in_range (hb_of s req) s"
  shows "lru_unlock_hash req' s' (fst k) (snd k) =
    Some (if ocf_req_hash_in_range (hb_of s req) s (fst k) (snd k) then s' else bucket_put (key_hash s k) False s')"
proof -
  have lt: "key_hash s k < hash_table_entries s" using hash_func_less [OF assms(1)] .
  have h: "ocf_metadata_hash_func s (snd k) (fst k) = key_hash s k" by (simp add: key_hash_def)
  show ?thesis
  proof (cases "ocf_req_hash_in_range (hb_of s req) s (fst k) (snd k)")
    case True
    then show ?thesis using assms(6) by (simp add: lru_unlock_hash_def)
  next
    case False
    then have "h_wr (hash_table s' (key_hash s k))" using assms(3) by (simp add: hash_held_def bucket_put_def)
    then show ?thesis using False assms(4-6) lt
      by (simp add: lru_unlock_hash_def ocf_hb_cline_naked_unlock_def ocf_hb_id_naked_unlock_def hash_lock_unlock_def
          ocf_metadata_get_hash_ptr_def h hash_unlock_new_def bucket_put_def)
  qed
qed

subsection \<open>Searching a list\<close>

text \<open>
  A line can be grabbed when nobody uses it, when it holds no core line of the request, and when the bucket of the
  core line it holds is the request's own or free.
\<close>

declare eviction_scan.simps [simp del] free_scan.simps [simp del]

definition grabbable :: "'y eng_req_scheme \<Rightarrow> 'z cl_state_scheme \<Rightarrow> nat \<Rightarrow> bool" where
  "grabbable req s x \<longleftrightarrow> access_of (cl_locks s) x = 0 \<and> \<not> in_request req (fst (line_key s x)) (snd (line_key s x)) \<and>
     hash_free req (line_key s x) s"

lemma core_info_eq: "x < collision_table_entries s \<Longrightarrow> ocf_metadata_get_core_info s x = Some (line_key s x)"
  by (simp add: ocf_metadata_get_core_info_def raw_bug_on_def line_key_def)

lemma hash_free_locked [simp]: "hash_free req k (locked x s) = hash_free req k s"
  by (simp add: hash_free_def)

lemma geometry_locked [simp]: "geometry_ok (locked x s) = geometry_ok s"
  by (simp add: geometry_ok_def)

lemma hash_held_locks [simp]:
  fixes s :: "'z cl_state_scheme"
  shows "cl_locks (hash_held req k s) = cl_locks s"
  by (simp add: hash_held_def bucket_put_def)

lemma no_waiters:
  assumes "locks_quiet s" "x < collision_table_entries s" "access_of (cl_locks s) x = 0"
  shows "ocf_cache_line_are_waiters (cl_locks (locked x s)) x = Some False"
  using assms
  by (simp add: ocf_cache_line_are_waiters_def ocf_alock_waitlist_is_empty_def locks_quiet_def locked_def set_access_def
      ocf_alock_waitlist_is_empty_locked_def WAITERS_LIST_ITEM_def)

lemma relock_id [simp]: "(locked x s)\<lparr>cl_locks := cl_locks s\<rparr> = s"
  by (simp add: locked_def)

lemma eviction_lock_eq:
  assumes q: "locks_quiet s" and x: "x < collision_table_entries s" and g: "geometry_ok s"
  shows "lru_iter_eviction_lock req x s =
    Some (if grabbable req s x then (Some (line_key s x), grabbed req x s) else (None, s))"
proof (cases "access_of (cl_locks s) x = 0")
  case False
  then show ?thesis using trylock_eq [OF q x] by (simp add: lru_iter_eviction_lock_def grabbable_def)
next
  case True
  have tr: "line_trylock x s = Some (True, locked x s)" using trylock_eq [OF q x] True by simp
  have ci: "ocf_metadata_get_core_info (locked x s) x = Some (line_key s x)" using core_info_eq [of x "locked x s"] x by simp
  have ul: "line_unlock x (locked x s) = Some s" using line_unlock_eq [OF q x True refl] by simp
  have gl: "geometry_ok (locked x s)" using g by simp
  note ht = trylock_hash_eq [OF gl, of req "line_key s x"]
  note wt = no_waiters [OF q x True]
  obtain c l where k: "line_key s x = (c, l)" by (cases "line_key s x")
  show ?thesis
  proof (cases "in_request req c l")
    case True
    then show ?thesis using tr ci ul by (simp add: lru_iter_eviction_lock_def grabbable_def k)
  next
    case False
    then show ?thesis using tr ci ul ht wt True
      by (simp add: lru_iter_eviction_lock_def grabbable_def grabbed_def k)
  qed
qed

lemma eviction_scan_eq:
  assumes q: "locks_quiet s" and g: "geometry_ok s" and r: "lru_ready s"
    and l: "lseg (lru_prv s) (lru_nxt s) end_marker xs end_marker" and N: "\<forall>x\<in>set xs. x < collision_table_entries s"
  shows "xs = as @ bs \<Longrightarrow> length as \<le> n \<Longrightarrow> eviction_scan req n (final end_marker as) s =
    Some (case find (grabbable req s) (rev as) of None \<Rightarrow> (None, s) | Some x \<Rightarrow> (Some (x, line_key s x), grabbed req x s))"
proof (induction as arbitrary: n bs rule: rev_induct)
  case (snoc y as)
  then obtain m where n: "n = Suc m" "length as \<le> m" by (cases n) auto
  have y: "y < collision_table_entries s" using N snoc.prems(1) by simp
  then have e: "y \<noteq> end_marker" using r by (simp add: lru_ready_def)
  have p: "l_prev (lru_meta s y) = final end_marker as" using l snoc.prems(1) by (simp add: lseg_split)
  have IH: "eviction_scan req m (final end_marker as) s =
      Some (case find (grabbable req s) (rev as) of None \<Rightarrow> (None, s) | Some x \<Rightarrow> (Some (x, line_key s x), grabbed req x s))"
    using snoc.IH [of "y # bs" m] snoc.prems(1) n(2) by simp
  show ?case
    using eviction_lock_eq [OF q y g, of req] get_lru_ok [OF r y] e p IH by (subst eviction_scan.simps) (simp add: n(1))
qed (simp add: eviction_scan.simps)

lemma free_scan_eq:
  assumes q: "locks_quiet s" and r: "lru_ready s"
    and l: "lseg (lru_prv s) (lru_nxt s) end_marker xs end_marker" and N: "\<forall>x\<in>set xs. x < collision_table_entries s"
  shows "xs = as @ bs \<Longrightarrow> length as \<le> n \<Longrightarrow> free_scan n (final end_marker as) s =
    Some (case find (\<lambda>x. access_of (cl_locks s) x = 0) (rev as) of None \<Rightarrow> (None, s) | Some x \<Rightarrow> (Some x, locked x s))"
proof (induction as arbitrary: n bs rule: rev_induct)
  case (snoc y as)
  then obtain m where n: "n = Suc m" "length as \<le> m" by (cases n) auto
  have y: "y < collision_table_entries s" using N snoc.prems(1) by simp
  then have e: "y \<noteq> end_marker" using r by (simp add: lru_ready_def)
  have p: "l_prev (lru_meta s y) = final end_marker as" using l snoc.prems(1) by (simp add: lseg_split)
  have IH: "free_scan m (final end_marker as) s =
      Some (case find (\<lambda>x. access_of (cl_locks s) x = 0) (rev as) of None \<Rightarrow> (None, s) | Some x \<Rightarrow> (Some x, locked x s))"
    using snoc.IH [of "y # bs" m] snoc.prems(1) n(2) by simp
  show ?case
    using trylock_eq [OF q y] get_lru_ok [OF r y] e p IH by (subst free_scan.simps) (simp add: n(1))
qed (simp add: free_scan.simps)

subsection \<open>The next line of a partition\<close>

lemma held_lru [simp]:
  fixes s :: "'z lru_cache_scheme"
  shows "cache_inv (bucket_put h b s) rep = cache_inv s rep" "homed (bucket_put h b s) rep = homed s rep"
    "marked w (bucket_put h b s) x = marked w s x" "lru_meta (bucket_put h b s) = lru_meta s" "cparts (bucket_put h b s) = cparts s"
    "md_ok (bucket_put h b s) = md_ok s" "home (bucket_put h b s) = home s"
  by (simp_all add: bucket_put_def cache_inv_def lists_ok_def lru_ready_def lru_list_def lru_rep_def md_ok_def home_def marked_def
      homed_def ocf_lru_get_list_def list_kind_def fun_eq_iff)

lemma locked_lru [simp]:
  "cache_inv (locked x s) rep = cache_inv s rep" "homed (locked x s) rep = homed s rep" "marked w (locked x s) y = marked w s y"
  "md_ok (locked x s) = md_ok s" "home (locked x s) = home s"
  by (simp_all add: locked_def cache_inv_def lists_ok_def lru_ready_def lru_list_def lru_rep_def md_ok_def home_def marked_def
      homed_def ocf_lru_get_list_def list_kind_def fun_eq_iff)

lemma hash_held_lru [simp]:
  fixes s :: "'z lru_cache_scheme"
  shows "cache_inv (hash_held req k s) rep = cache_inv s rep" "homed (hash_held req k s) rep = homed s rep"
    "marked w (hash_held req k s) x = marked w s x" "lru_meta (hash_held req k s) = lru_meta s"
    "collision_table_entries (hash_held req k s) = collision_table_entries s"
  by (simp_all add: hash_held_def)

lemma grabbed_lru [simp]:
  "cache_inv (grabbed req x s) rep = cache_inv s rep" "homed (grabbed req x s) rep = homed s rep"
  "marked w (grabbed req x s) y = marked w s y" "lru_meta (grabbed req x s) = lru_meta s"
  by (simp_all add: grabbed_def)

definition placed_in :: "nat \<Rightarrow> nat \<Rightarrow> 'z cl_state_scheme \<Rightarrow> (slot \<Rightarrow> nat list) \<Rightarrow> 'z cl_state_scheme \<Rightarrow> bool" where
  "placed_in x dst t rep s' \<longleftrightarrow> reparted x dst t s' \<and> (\<exists>rep'. cache_inv s' rep' \<and> (\<forall>y. homed t rep y \<longrightarrow> homed s' rep' y))"

lemma place_spec:
  assumes inv: "cache_inv t rep" and sl: "sl \<in> slots" and x: "x \<in> set (rep sl)" and dst: "dst \<le> PARTITION_FREE_DETACHED"
  shows "\<exists>s'. (if dst \<noteq> fst sl then ocf_lru_repart_locked t x (fst sl) dst
      else on_list (\<lambda>s L. ocf_lru_set_hot s L x) (fst sl) (fst (snd sl)) (snd (snd sl)) t) = Some s' \<and> placed_in x dst t rep s'"
proof (cases "dst = fst sl")
  case False
  note I = cache_invD [OF inv]
  let ?r = "moved x sl (rehome dst x t) rep"
  obtain s' where s': "ocf_lru_repart t x (fst sl) dst = Some s'" "cache_inv s' ?r" "reparted x dst t s'"
    using repart_full [OF inv sl x dst] by blast
  obtain m P where m: "s' = t\<lparr>lru_meta := m, cparts := P\<rparr>" "\<And>y. partition_id (m y) = (if y = x then dst else partition_id (lru_meta t y))"
    using s'(3) unfolding reparted_def by blast
  have h: "home s' y = (if y = x then rehome dst x t else home t y)" for y
    using m(2) by (simp add: m(1) home_def rehome_def marked_def)
  have "homed s' ?r y" if y: "homed t rep y" for y
  proof (cases "y = x")
    case True
    then show ?thesis 
      using rehome_slots [OF dst, of x t] set_moved [OF I(1) sl x rehome_slots [OF dst, of x t], of "rehome dst x t"] by (simp add: homed_def h)
  next
    case False
    then show ?thesis using y set_moved [OF I(1) sl x, of "home t y"] by (simp add: homed_def h)
  qed
  then show ?thesis using False s' unfolding placed_in_def ocf_lru_repart_def by auto
next
  case True
  note I = cache_invD [OF inv]
  let ?r = "rep(sl := x # remove1 x (rep sl))"
  obtain s' where s': "on_list (\<lambda>s L. ocf_lru_set_hot s L x) (fst sl) (fst (snd sl)) (snd (snd sl)) t = Some s'"
      "lists_ok s' ?r" "relinked t s'"
    using on_list_hot [OF I(1) sl x] by blast
  have set: "set (?r a) = set (rep a) \<and> length (?r a) = length (rep a)" for a
    using lists_okD(2) [OF I(1) sl] x length_pos_if_in_set [OF x] by (auto simp: length_remove1 insert_absorb)
  have ci: "cache_inv s' ?r" using cache_inv_relinked [OF inv s'(2,3)] set by blast
  have "partition_id (lru_meta t x) = dst" using I(5) [OF sl x] True by (auto simp: home_def)
  then have rp: "reparted x dst t s'" using s'(3) unfolding relinked_def reparted_def by auto
  have "homed s' ?r y" if "homed t rep y" for y
    using that set relinkedD(8) [OF s'(3)] by (auto simp: homed_def)
  then show ?thesis using True s'(1) rp ci unfolding placed_in_def by auto
qed

lemma rep_length:
  assumes "cache_inv s rep" "sl \<in> slots"
  shows "length (rep sl) \<le> collision_table_entries s"
proof -
  note L = lists_okD(2,3) [OF cache_invD(1) [OF assms(1)] assms(2)]
  have "card (set (rep sl)) \<le> card {..<collision_table_entries s}" using L(2) by (intro card_mono) auto
  then show ?thesis using distinct_card [OF L(1)] by simp
qed

lemma scan_list:
  assumes inv: "cache_inv s rep" and q: "locks_quiet s" and sl: "(p, i, True) \<in> slots"
  shows "geometry_ok s \<Longrightarrow> eviction_scan req (collision_table_entries s) (tail (ocf_lru_get_list s p i True)) s =
      Some (case find (grabbable req s) (rev (rep (p, i, True))) of None \<Rightarrow> (None, s) | Some x \<Rightarrow> (Some (x, line_key s x), grabbed req x s))"
    "free_scan (collision_table_entries s) (tail (ocf_lru_get_list s p i True)) s =
      Some (case find (\<lambda>x. access_of (cl_locks s) x = 0) (rev (rep (p, i, True))) of None \<Rightarrow> (None, s) | Some x \<Rightarrow> (Some x, locked x s))"
proof -
  note L = lists_okD(1,4) [OF cache_invD(1) [OF inv] sl]
  note F = lru_list_fields [OF L(1)]
  have n: "length (rep (p, i, True)) \<le> collision_table_entries s" by (rule rep_length [OF inv sl])
  have t: "tail (ocf_lru_get_list s p i True) = final end_marker (rep (p, i, True))" using F(3) by simp
  show "geometry_ok s \<Longrightarrow> eviction_scan req (collision_table_entries s) (tail (ocf_lru_get_list s p i True)) s =
      Some (case find (grabbable req s) (rev (rep (p, i, True))) of None \<Rightarrow> (None, s) | Some x \<Rightarrow> (Some (x, line_key s x), grabbed req x s))"
    unfolding t using eviction_scan_eq [OF q _ L(2) F(6,5), where as = "rep (p, i, True)" and bs = "[]" and req = req] n by simp
  show "free_scan (collision_table_entries s) (tail (ocf_lru_get_list s p i True)) s =
      Some (case find (\<lambda>x. access_of (cl_locks s) x = 0) (rev (rep (p, i, True))) of None \<Rightarrow> (None, s) | Some x \<Rightarrow> (Some x, locked x s))"
    unfolding t using free_scan_eq [OF q L(2) F(6,5), where as = "rep (p, i, True)" and bs = "[]"] n by simp
qed

text \<open>
  The outcome of a search through the clean lists of partition \<open>p\<close>: lists are given up only when they have no line
  that meets \<open>G\<close>, and what is found is the least recently used such line of its list.
\<close>

definition searched ::
    "(nat \<Rightarrow> bool) \<Rightarrow> nat \<Rightarrow> (slot \<Rightarrow> nat list) \<Rightarrow> ocf_lru_iter \<Rightarrow> nat option \<Rightarrow> ocf_lru_iter \<Rightarrow> bool" where
  "searched G p rep iter found iter' \<longleftrightarrow> iter_ok iter' \<and> it_part iter' = it_part iter \<and> live iter' \<subseteq> live iter \<and>
     (\<forall>i\<in>live iter - live iter'. \<forall>x\<in>set (rep (p, i, True)). \<not> G x) \<and>
     (case found of None \<Rightarrow> live iter' = {} | Some x \<Rightarrow> \<exists>i\<in>live iter'. find G (rev (rep (p, i, True))) = Some x)"

lemma find_rev_None: "find P (rev xs) = None \<longleftrightarrow> (\<forall>x\<in>set xs. \<not> P x)"
  by (auto simp: find_None_iff)

lemma search_step:
  assumes ok: "iter_ok iter" and n: "0 < num_avail_lrus iter" and it: "it = lru_iter_advance iter"
  shows "iter_ok it" "it_part it = it_part iter" "lru_idx it < OCF_NUM_LRU_LISTS"
    "find G (rev (rep (p, lru_idx it, True))) = Some x \<Longrightarrow> searched G p rep iter (Some x) it"
    "\<not> lru_lru_is_empty it" "iter_ok (lru_lru_set_empty it)" "it_part (lru_lru_set_empty it) = it_part iter"
    "num_avail_lrus (lru_lru_set_empty it) = num_avail_lrus iter - 1"
    "find G (rev (rep (p, lru_idx it, True))) = None \<Longrightarrow> searched G p rep (lru_lru_set_empty it) f it' \<Longrightarrow> searched G p rep iter f it'"
    "find G (rev (rep (p, lru_idx it, True))) = None \<Longrightarrow> lru_lru_all_empty (lru_lru_set_empty it) \<Longrightarrow>
       searched G p rep iter None (lru_lru_set_empty it)"
proof -
  note A = advance_ok [OF ok, folded it]
  show ok': "iter_ok it" "it_part it = it_part iter" and ne: "\<not> lru_lru_is_empty it" using A n by simp_all
  note L = live_idx [OF ok'(1)] and S = set_empty_ok [OF ok'(1) ne]
  have l: "live it = live iter" using live_advance [OF ok] it by simp
  show "lru_idx it < OCF_NUM_LRU_LISTS" using ok'(1) by (simp add: iter_ok_def)
  show "iter_ok (lru_lru_set_empty it)" "it_part (lru_lru_set_empty it) = it_part iter"
    "num_avail_lrus (lru_lru_set_empty it) = num_avail_lrus iter - 1" using S A by simp_all
  show "searched G p rep iter (Some x) it" if "find G (rev (rep (p, lru_idx it, True))) = Some x"
    using that L(2) [OF ne] l ok' by (auto simp: searched_def)
  show "searched G p rep iter f it'" if "find G (rev (rep (p, lru_idx it, True))) = None" "searched G p rep (lru_lru_set_empty it) f it'"
    using that S(2,4) l ok'(2) unfolding searched_def find_rev_None by (auto split: option.splits)
  show "searched G p rep iter None (lru_lru_set_empty it)"
    if "find G (rev (rep (p, lru_idx it, True))) = None" "lru_lru_all_empty (lru_lru_set_empty it)"
    using that S l ok'(2) live_idx(3) [OF S(1)] unfolding searched_def find_rev_None lru_lru_all_empty_def by auto
qed

lemma found_on_list:
  assumes "find G (rev (rep sl)) = Some x"
  shows "x \<in> set (rep sl)" "G x"
  using assms by (auto simp: find_Some_iff) (metis length_rev nth_mem set_rev)

lemma eviction_next_spec:
  assumes inv: "cache_inv s rep" and q: "locks_quiet s" and g: "geometry_ok s"
    and p: "it_part iter \<le> PARTITION_FREE_DETACHED" and dst: "dst \<le> PARTITION_FREE_DETACHED"
  shows "iter_ok iter \<Longrightarrow> 0 < num_avail_lrus iter \<Longrightarrow> num_avail_lrus iter \<le> n \<Longrightarrow>
    \<exists>x it s'. lru_iter_eviction_next req dst n iter s = Some (map_option (\<lambda>x. (x, line_key s x)) x, it, s') \<and>
      searched (grabbable req s) (it_part iter) rep iter x it \<and>
      (case x of None \<Rightarrow> s' = s | Some x \<Rightarrow> placed_in x dst (grabbed req x s) rep s')"
  using p
proof (induction n arbitrary: iter)
  case (Suc n)
  let ?it = "lru_iter_advance iter" and ?G = "grabbable req s" and ?p = "it_part iter"
  let ?sl = "(?p, lru_idx ?it, True)"
  note T = search_step [OF Suc.prems(1,2) refl]
  have sl: "?sl \<in> slots" using T(3) Suc.prems(4) by (simp add: slots_simps)
  note S = scan_list(1) [OF inv q sl g, of req]
  show ?case
  proof (cases "find ?G (rev (rep ?sl))")
    case None
    show ?thesis
    proof (cases "lru_lru_all_empty (lru_lru_set_empty ?it)")
      case True
      then have "lru_iter_eviction_next req dst (Suc n) iter s = Some (None, lru_lru_set_empty ?it, s)"
        using S None T(2,5) by (simp add: Let_def)
      then show ?thesis using T(10) [where G = ?G and p = ?p and rep = rep, OF None True] by (intro exI [of _ None]) simp
    next
      case False
      then have "0 < num_avail_lrus (lru_lru_set_empty ?it)" by (simp add: lru_lru_all_empty_def)
      moreover have "num_avail_lrus (lru_lru_set_empty ?it) \<le> n" using T(8) Suc.prems(3) by simp
      ultimately obtain x it s' where R: "lru_iter_eviction_next req dst n (lru_lru_set_empty ?it) s = Some (map_option (\<lambda>x. (x, line_key s x)) x, it, s')"
        "searched ?G ?p rep (lru_lru_set_empty ?it) x it"
        "case x of None \<Rightarrow> s' = s | Some x \<Rightarrow> placed_in x dst (grabbed req x s) rep s'"
        using Suc.IH [OF T(6)] T(7) Suc.prems(4) by auto
      have "lru_iter_eviction_next req dst (Suc n) iter s = Some (map_option (\<lambda>x. (x, line_key s x)) x, it, s')"
        using S None T(2,5) False R(1) by (simp add: Let_def)
      then show ?thesis using T(9) [where G = ?G and p = ?p and rep = rep, OF None R(2)] R(3) by blast
    qed
  next
    case (Some x)
    note F = found_on_list [where rep = rep, OF Some]
    have "cache_inv (grabbed req x s) rep" using inv by simp
    from place_spec [OF this sl F(1) dst, unfolded fst_conv snd_conv] obtain s' where s': "(if dst \<noteq> ?p then ocf_lru_repart_locked (grabbed req x s) x ?p dst
        else on_list (\<lambda>s L. ocf_lru_set_hot s L x) ?p (lru_idx ?it) True (grabbed req x s)) = Some s'"
      "placed_in x dst (grabbed req x s) rep s'" by blast
    have "lru_iter_eviction_next req dst (Suc n) iter s = Some (Some (x, line_key s x), ?it, s')"
      using S Some T(2) s'(1) by (simp add: Let_def cong: if_cong)
    then show ?thesis using T(4) [where G = ?G and p = ?p and rep = rep, OF Some] s'(2) by (intro exI [of _ "Some x"]) auto
  qed
qed simp

lemma free_next_spec:
  assumes inv: "cache_inv s rep" and q: "locks_quiet s"
    and p: "it_part iter \<le> PARTITION_FREE_DETACHED" and dst: "dst \<le> PARTITION_FREE_DETACHED" "dst \<noteq> it_part iter"
  shows "iter_ok iter \<Longrightarrow> 0 < num_avail_lrus iter \<Longrightarrow> num_avail_lrus iter \<le> n \<Longrightarrow>
    \<exists>x it s'. lru_iter_free_next dst n iter s = Some (x, it, s') \<and>
      searched (\<lambda>x. access_of (cl_locks s) x = 0) (it_part iter) rep iter x it \<and>
      (case x of None \<Rightarrow> s' = s | Some x \<Rightarrow> placed_in x dst (locked x s) rep s')"
  using p dst(2)
proof (induction n arbitrary: iter)
  case (Suc n)
  let ?it = "lru_iter_advance iter" and ?G = "\<lambda>x. access_of (cl_locks s) x = 0" and ?p = "it_part iter"
  let ?sl = "(?p, lru_idx ?it, True)"
  note T = search_step [OF Suc.prems(1,2) refl]
  have sl: "?sl \<in> slots" using T(3) Suc.prems(4) by (simp add: slots_simps)
  note S = scan_list(2) [OF inv q sl]
  have b: "bug_on (dst = ?p) = Some ()" using Suc.prems(5) by simp
  show ?case
  proof (cases "find ?G (rev (rep ?sl))")
    case None
    show ?thesis
    proof (cases "lru_lru_all_empty (lru_lru_set_empty ?it)")
      case True
      then have "lru_iter_free_next dst (Suc n) iter s = Some (None, lru_lru_set_empty ?it, s)"
        using S None T(2,5) b by (simp add: Let_def)
      then show ?thesis using T(10) [where G = ?G and p = ?p and rep = rep, OF None True] by (intro exI [of _ None]) simp
    next
      case False
      then have "0 < num_avail_lrus (lru_lru_set_empty ?it)" by (simp add: lru_lru_all_empty_def)
      moreover have "num_avail_lrus (lru_lru_set_empty ?it) \<le> n" using T(8) Suc.prems(3) by simp
      ultimately obtain x it s' where R: "lru_iter_free_next dst n (lru_lru_set_empty ?it) s = Some (x, it, s')"
        "searched ?G ?p rep (lru_lru_set_empty ?it) x it"
        "case x of None \<Rightarrow> s' = s | Some x \<Rightarrow> placed_in x dst (locked x s) rep s'"
        using Suc.IH [OF T(6)] T(7) Suc.prems(4,5) by auto
      have "lru_iter_free_next dst (Suc n) iter s = Some (x, it, s')"
        using S None T(2,5) False R(1) b by (simp add: Let_def)
      then show ?thesis using T(9) [where G = ?G and p = ?p and rep = rep, OF None R(2)] R(3) by blast
    qed
  next
    case (Some x)
    note F = found_on_list [where rep = rep, OF Some]
    have "cache_inv (locked x s) rep" using inv by simp
    from place_spec [OF this sl F(1) dst(1)] Suc.prems(5) obtain s' where s': "ocf_lru_repart_locked (locked x s) x ?p dst = Some s'"
      "placed_in x dst (locked x s) rep s'" by auto
    have "lru_iter_free_next dst (Suc n) iter s = Some (Some x, ?it, s')"
      using S Some T(2) s'(1) b by (simp add: Let_def)
    then show ?thesis using T(4) [where G = ?G and p = ?p and rep = rep, OF Some] s'(2) by (intro exI [of _ "Some x"]) auto
  qed
qed simp

subsection \<open>The line a request is given\<close>

text \<open>
  The state of the cache between requests: every line is on its list; free lines hold nothing; a line of a user
  partition that nobody uses holds a core line and valid data.
\<close>

definition line_ok :: "'z cl_state_scheme \<Rightarrow> nat \<Rightarrow> bool" where
  "line_ok s x \<longleftrightarrow> (if partition_id (lru_meta s x) = PARTITION_FREELIST
     then \<not> mapped s x \<and> marked Valid s x = {} \<and> marked Dirty s x = {}
     else partition_id (lru_meta s x) < OCF_USER_IO_CLASS_MAX \<and>
       (access_of (cl_locks s) x = 0 \<longrightarrow> mapped s x \<and> marked Valid s x \<noteq> {}))"

definition lines_ok :: "'z cl_state_scheme \<Rightarrow> (slot \<Rightarrow> nat list) \<Rightarrow> bool" where
  "lines_ok s rep \<longleftrightarrow> cl_inv s rep \<and> coll_inv s \<and> locks_quiet s \<and>
     (\<forall>x < collision_table_entries s. homed s rep x \<and> line_ok s x)"

lemma lines_okD:
  assumes "lines_ok s rep"
  shows "cache_inv s rep" "counters_ok s" "coll_inv s" "geometry_ok s" "locks_quiet s" "md_ok s" "lru_ready s"
    "x < collision_table_entries s \<Longrightarrow> homed s rep x" "x < collision_table_entries s \<Longrightarrow> line_ok s x"
    "eviction_policy s = ocf_eviction_lru"
  using assms cache_invD(2,3,4) [of s rep] by (auto simp: lines_ok_def cl_inv_def coll_inv_def)

definition takeable :: "'y eng_req_scheme \<Rightarrow> nat \<Rightarrow> 'z cl_state_scheme \<Rightarrow> nat \<Rightarrow> bool" where
  "takeable req p s x \<longleftrightarrow> (if p = PARTITION_FREELIST then access_of (cl_locks s) x = 0 else grabbable req s x)"

definition held :: "'y eng_req_scheme \<Rightarrow> nat \<Rightarrow> nat \<Rightarrow> 'z cl_state_scheme \<Rightarrow> 'z cl_state_scheme" where
  "held req p x s = (if p = PARTITION_FREELIST then locked x s else grabbed req x s)"

definition picked ::
    "'y eng_req_scheme \<Rightarrow> nat \<Rightarrow> 'z cl_state_scheme \<Rightarrow> (slot \<Rightarrow> nat list) \<Rightarrow> nat \<times> nat \<times> nat \<times> nat \<Rightarrow> 'z cl_state_scheme \<Rightarrow> bool" where
  "picked req dst s rep f s' \<longleftrightarrow> (case f of (x, src, key) \<Rightarrow> x < collision_table_entries s \<and> marked Dirty s x = {} \<and>
     src = partition_id (lru_meta s x) \<and> takeable req src s x \<and> (src \<noteq> PARTITION_FREELIST \<longrightarrow> key = line_key s x) \<and>
     placed_in x dst (held req src x s) rep s')"

lemma req_next_spec:
  assumes ok: "lines_ok s rep" and x: "x < collision_table_entries s" and dst: "dst \<le> PARTITION_FREE_DETACHED"
  shows "\<exists>r it s'. lru_req_next_cline cfg req dst iter x s = Some (r, it, s') \<and>
    (case r of None \<Rightarrow> it = iter \<and> s' = s | Some (p, k) \<Rightarrow> it = lru_iter_advance iter \<and> picked req dst s rep (x, p, k) s')"
proof -
  note D = lines_okD [OF ok]
  let ?p = "partition_id (lru_meta s x)"
  have pid: "ocf_metadata_get_partition_id t x = Some ?p" if "t = s \<or> t = grabbed req x s" for t
    using that x D(10) by (auto simp: ocf_metadata_get_partition_id_def grabbed_def hash_held_def bucket_put_def locked_def)
  have dirty: "metadata_test_dirty t x = Some (marked Dirty s x \<noteq> {})" if "t = locked x s \<or> t = grabbed req x s" for t
    using that dirty_eq [of t x] D(6) x by (auto simp: grabbed_def hash_held_def)
  show ?thesis
  proof (cases "?p = PARTITION_FREELIST \<or> \<not> f_eviction (cfg ?p) \<or> access_of (cl_locks s) x \<noteq> 0")
    case True
    have "?p \<noteq> PARTITION_FREELIST \<Longrightarrow> \<not> ?p > OCF_USER_IO_CLASS_MAX" using D(9) [OF x] by (simp add: line_ok_def)
    then have "lru_req_next_cline cfg req dst iter x s = Some (None, iter, s)"
      using True pid [of s] trylock_eq [OF D(5) x] by (auto simp: lru_req_next_cline_def)
    then show ?thesis by (intro exI [of _ None]) simp
  next
    case False
    then have p: "?p \<noteq> PARTITION_FREELIST" "f_eviction (cfg ?p)" "access_of (cl_locks s) x = 0" by auto
    then have lt: "?p < 34" using D(9) [OF x] by (simp add: line_ok_def)
    have tr: "line_trylock x s = Some (True, locked x s)" using trylock_eq [OF D(5) x] p(3) by simp
    have ci: "ocf_metadata_get_core_info (locked x s) x = Some (line_key s x)" using core_info_eq [of x "locked x s"] x by simp
    have ul: "line_unlock x (locked x s) = Some s" using line_unlock_eq [OF D(5) x p(3) refl] by simp
    have nd: "ocf_metadata_get_lru (locked x s) x = Some (lru_meta s x)"
      using get_lru_ok [OF D(7) x] by (simp add: ocf_metadata_get_lru_def locked_def)
    have gl: "geometry_ok (locked x s)" using D(4) by simp
    note th = trylock_hash_eq [OF gl, of req "line_key s x"]
    obtain c l where k: "line_key s x = (c, l)" by (cases "line_key s x")
    have start: "lru_req_next_cline cfg req dst iter x s =
        (if in_request req c l \<or> l_hot (lru_meta s x) \<or> marked Dirty s x \<noteq> {} \<or> \<not> hash_free req (c, l) s then Some (None, iter, s)
         else do {
           s \<leftarrow> (if dst \<noteq> ?p then ocf_lru_repart_locked (grabbed req x s) x ?p dst
             else do { (p, i, clean) \<leftarrow> lru_get_cline_list (grabbed req x s) x;
               on_list (\<lambda>s L. ocf_lru_set_hot s L x) p i clean (grabbed req x s) });
           Some (Some (?p, c, l), lru_iter_advance iter, s) })"
      using p lt pid [of s] tr ci ul nd dirty [of "locked x s"] th
      by (simp add: lru_req_next_cline_def k grabbed_def)
    show ?thesis
    proof (cases "in_request req c l \<or> l_hot (lru_meta s x) \<or> marked Dirty s x \<noteq> {} \<or> \<not> hash_free req (c, l) s")
      case True
      then show ?thesis unfolding start by (intro exI [of _ None]) simp
    next
      case False
      have h: "home s x = (?p, OCF_LRU_GET_LIST_INDEX x, True)" using False p(1) by (simp add: home_def list_kind_def)
      have sl: "(?p, OCF_LRU_GET_LIST_INDEX x, True) \<in> slots" "x \<in> set (rep (?p, OCF_LRU_GET_LIST_INDEX x, True))"
        using D(8) [OF x] by (simp_all add: homed_def h)
      have gc: "lru_get_cline_list (grabbed req x s) x = Some (?p, OCF_LRU_GET_LIST_INDEX x, True)"
        using pid [of "grabbed req x s"] lt dirty [of "grabbed req x s"] False by (simp add: lru_get_cline_list_def Let_def)
      have "cache_inv (grabbed req x s) rep" using D(1) by simp
      from place_spec [OF this sl dst, unfolded fst_conv snd_conv] obtain s' where
        s': "(if dst \<noteq> ?p then ocf_lru_repart_locked (grabbed req x s) x ?p dst
          else on_list (\<lambda>s L. ocf_lru_set_hot s L x) ?p (OCF_LRU_GET_LIST_INDEX x) True (grabbed req x s)) = Some s'"
          "placed_in x dst (grabbed req x s) rep s'" by blast
      have "lru_req_next_cline cfg req dst iter x s = Some (Some (?p, c, l), lru_iter_advance iter, s')"
        unfolding start using False s'(1) gc by (simp cong: if_cong)
      moreover have "picked req dst s rep (x, ?p, c, l) s'"
        using x False p s'(2) by (simp add: picked_def takeable_def grabbable_def held_def k)
      ultimately show ?thesis by (intro exI [of _ "Some (?p, c, l)"]) auto
    qed
  qed
qed

definition pick_outcome ::
    "'y eng_req_scheme \<Rightarrow> nat \<Rightarrow> 'z cl_state_scheme \<Rightarrow> (slot \<Rightarrow> nat list) \<Rightarrow> ocf_lru_iter \<Rightarrow>
     (nat \<times> nat \<times> nat \<times> nat) option \<Rightarrow> ocf_lru_iter \<Rightarrow> 'z cl_state_scheme \<Rightarrow> bool" where
  "pick_outcome req dst s rep iter f it s' \<longleftrightarrow> iter_ok it \<and> it_part it = it_part iter \<and>
     (\<forall>i\<in>live iter - live it. \<forall>x\<in>set (rep (it_part iter, i, True)). \<not> takeable req (it_part iter) s x) \<and> live it \<subseteq> live iter \<and>
     (case f of None \<Rightarrow> s' = s \<and> live it = {} | Some f \<Rightarrow> picked req dst s rep f s' \<and> live it \<noteq> {})"

lemma searched_picked:
  assumes ok: "lines_ok s rep" and it: "iter_ok iter" "it_part iter \<le> PARTITION_FREE_DETACHED"
    and se: "searched (takeable req (it_part iter) s) (it_part iter) rep iter x it"
    and s': "case x of None \<Rightarrow> s' = s | Some x \<Rightarrow> placed_in x dst (held req (it_part iter) x s) rep s'"
    and key: "\<And>x. it_part iter \<noteq> PARTITION_FREELIST \<Longrightarrow> key x = line_key s x"
  shows "pick_outcome req dst s rep iter (map_option (\<lambda>x. (x, it_part it, key x)) x) it s'"
proof (cases x)
  case None
  then show ?thesis using se s' by (simp add: pick_outcome_def searched_def)
next
  case (Some y)
  note D = lines_okD [OF ok]
  let ?p = "it_part iter"
  obtain i where i: "i \<in> live it" "find (takeable req ?p s) (rev (rep (?p, i, True))) = Some y" "live it \<subseteq> live iter" "it_part it = ?p"
    using se Some by (auto simp: searched_def)
  note F = found_on_list [where rep = rep, OF i(2)]
  have "i < 32" using i(1,3) live_idx(1) [OF it(1)] by auto
  then have sl: "(?p, i, True) \<in> slots" using it(2) by (simp add: slots_simps)
  have h: "home s y = (?p, i, True)" "y < collision_table_entries s" using cache_invD(5,6) [OF D(1) sl F(1)] by auto
  then have p: "partition_id (lru_meta s y) = ?p" "?p \<noteq> PARTITION_FREELIST \<Longrightarrow> marked Dirty s y = {}"
    by (auto simp: home_def list_kind_def)
  have "marked Dirty s y = {}" using p D(9) [OF h(2)] by (cases "?p = PARTITION_FREELIST") (simp_all add: line_ok_def)
  then have "picked req dst s rep (y, ?p, key y) s'" using h(2) p(1) F(2) s' Some key by (simp add: picked_def)
  then show ?thesis using se i(1,4) Some by (auto simp: pick_outcome_def searched_def)
qed

lemma pick_spec:
  assumes ok: "lines_ok s rep" and it: "iter_ok iter" "live iter \<noteq> {}" "it_part iter \<le> PARTITION_FREE_DETACHED"
    and dst: "rq_part req \<le> PARTITION_FREE_DETACHED" "rq_part req \<noteq> PARTITION_FREELIST"
  shows "\<exists>f it s'. pick_line cfg req cline iter s = Some (f, it, s') \<and> pick_outcome req (rq_part req) s rep iter f it s'"
proof -
  note D = lines_okD [OF ok]
  let ?p = "it_part iter"
  have n: "0 < num_avail_lrus iter" using live_idx(3) [OF it(1)] it(2) by simp
  have n33: "num_avail_lrus iter \<le> OCF_NUM_LRU_LISTS + 1"
  proof -
    have "card (avail iter) \<le> card {..<32::nat}" using it(1) by (intro card_mono) (auto simp: iter_ok_def)
    then show ?thesis using it(1) by (simp add: iter_ok_def)
  qed
  show ?thesis
  proof (cases "?p = PARTITION_FREELIST")
    case True
    have ne: "rq_part req \<noteq> ?p" using True dst(2) by simp
    obtain x it' s' where R: "lru_iter_free_next (rq_part req) (OCF_NUM_LRU_LISTS + 1) iter s = Some (x, it', s')"
      "searched (\<lambda>x. access_of (cl_locks s) x = 0) ?p rep iter x it'"
      "case x of None \<Rightarrow> s' = s | Some x \<Rightarrow> placed_in x (rq_part req) (locked x s) rep s'"
      using free_next_spec [OF D(1,5) it(3) dst(1) ne it(1) n n33] by blast
    have "takeable req ?p s = (\<lambda>x. access_of (cl_locks s) x = 0)" using True by (simp add: takeable_def fun_eq_iff)
    then have "pick_outcome req (rq_part req) s rep iter (map_option (\<lambda>x. (x, it_part it', (0, 0))) x) it' s'"
      using R(2,3) True by (intro searched_picked [OF ok it(1,3)]) (simp_all add: held_def split: option.splits)
    moreover have "pick_line cfg req cline iter s = Some (map_option (\<lambda>x. (x, it_part it', 0, 0)) x, it', s')"
      using True R(1) by (simp add: pick_line_def del: lru_iter_free_next.simps)
    ultimately show ?thesis by blast
  next
    case False
    obtain x it' s' where R: "lru_iter_eviction_next req (rq_part req) (OCF_NUM_LRU_LISTS + 1) iter s =
        Some (map_option (\<lambda>x. (x, line_key s x)) x, it', s')"
      "searched (grabbable req s) ?p rep iter x it'"
      "case x of None \<Rightarrow> s' = s | Some x \<Rightarrow> placed_in x (rq_part req) (grabbed req x s) rep s'"
      using eviction_next_spec [OF D(1,5,4) it(3) dst(1) it(1) n n33] by blast
    have "takeable req ?p s = grabbable req s" using False by (simp add: takeable_def fun_eq_iff)
    then have out: "pick_outcome req (rq_part req) s rep iter (map_option (\<lambda>x. (x, it_part it', line_key s x)) x) it' s'"
      using R(2,3) False by (intro searched_picked [OF ok it(1,3)]) (simp_all add: held_def split: option.splits)
    show ?thesis
    proof (cases "cline < collision_table_entries s - 1")
      case small: True
      then have x1: "cline + 1 < collision_table_entries s" by simp
      obtain r it1 s1 where Q: "lru_req_next_cline cfg req (rq_part req) iter (cline + 1) s = Some (r, it1, s1)"
        "case r of None \<Rightarrow> it1 = iter \<and> s1 = s | Some (p, k) \<Rightarrow> it1 = lru_iter_advance iter \<and> picked req (rq_part req) s rep (cline + 1, p, k) s1"
        using req_next_spec [OF ok x1 dst(1)] by blast
      show ?thesis
      proof (cases r)
        case None
        then have "pick_line cfg req cline iter s = Some (map_option (\<lambda>x. (x, it_part it', line_key s x)) x, it', s')"
          using False small Q R(1) by (simp add: pick_line_def option.map_comp o_def del: lru_iter_eviction_next.simps)
        then show ?thesis using out by blast
      next
        case (Some pk)
        obtain p k where pk: "pk = (p, k)" by (cases pk)
        then have "pick_line cfg req cline iter s = Some (Some (cline + 1, p, k), it1, s1)"
          using False small Q Some by (simp add: pick_line_def)
        moreover have "pick_outcome req (rq_part req) s rep iter (Some (cline + 1, p, k)) it1 s1"
          using Q(2) Some pk advance_ok [OF it(1)] live_advance [OF it(1)] it(2) by (simp add: pick_outcome_def)
        ultimately show ?thesis by blast
      qed
    next
      case big: False
      then have "pick_line cfg req cline iter s = Some (map_option (\<lambda>x. (x, it_part it', line_key s x)) x, it', s')"
        using False R(1) by (simp add: pick_line_def option.map_comp o_def del: lru_iter_eviction_next.simps)
      then show ?thesis using out by blast
    qed
  qed
qed

end
