(* ===== verification/Remap.thy ===== *)
theory Remap
  imports Evict
begin

section \<open>The lines a request is given\<close>

text \<open>
  The properties of \<open>ocf_lru_req_clines\<close>: what a line that is given to a request goes through, and the sequence of lines.
  \<open>assigned\<close> is the abstract view of the operation, a list of pairs of an entry of the request and a cache line.
\<close>

subsection \<open>What giving a line to a request keeps\<close>

text \<open>\<open>line_kept x t t'\<close>: the lists, the geometry, the dirty blocks and the other lines are the same.\<close>

definition line_kept :: "nat \<Rightarrow> 'z cl_state_scheme \<Rightarrow> 'z cl_state_scheme \<Rightarrow> bool" where
  "line_kept x t t' \<longleftrightarrow> lru_meta t' = lru_meta t \<and> cparts t' = cparts t \<and>
     collision_table_entries t' = collision_table_entries t \<and> hash_table_entries t' = hash_table_entries t \<and>
     md_ok t' = md_ok t \<and> line_size t' = line_size t \<and> block_4k t' = block_4k t \<and>
     eviction_policy t' = eviction_policy t \<and> eviction_policy_type t' = eviction_policy_type t \<and>
     (\<forall>y. marked Dirty t' y = marked Dirty t y) \<and>
     (\<forall>y. y \<noteq> x \<longrightarrow> marked Valid t' y = marked Valid t y \<and> line_key t' y = line_key t y)"

lemma line_kept_refl [simp]: "line_kept x t t"
  by (simp add: line_kept_def)

lemma line_kept_trans: "line_kept x t t' \<Longrightarrow> line_kept x t' t'' \<Longrightarrow> line_kept x t t''"
  by (simp add: line_kept_def)

lemma line_kept_upd [simp]:
  "line_kept x t (upd_core c f t') = line_kept x t t'" "line_kept x t (cleaning_call e t') = line_kept x t t'"
  "line_kept x t (bucket_put h b t') = line_kept x t t'" "line_kept x t (t'\<lparr>cl_locks := al\<rparr>) = line_kept x t t'"
  by (simp_all add: line_kept_def upd_core_def cleaning_call_def bucket_put_def marked_def md_ok_def line_key_def)

lemma line_keptD:
  assumes "line_kept x t t'"
  shows "cache_inv t' rep = cache_inv t rep" "homed t' rep = homed t rep" "home t' = home t" "key_hash t' = key_hash t"
    "geometry_ok t' = geometry_ok t" "ocf_metadata_hash_func t' = ocf_metadata_hash_func t" "lru_meta t' = lru_meta t" "cparts t' = cparts t"
    "collision_table_entries t' = collision_table_entries t" "marked Dirty t' = marked Dirty t" "md_ok t' = md_ok t"
    "y \<noteq> x \<Longrightarrow> line_key t' y = line_key t y" "y \<noteq> x \<Longrightarrow> marked Valid t' y = marked Valid t y"
    "hash_table_entries t' = hash_table_entries t"
proof -
  note K = assms [unfolded line_kept_def]
  show h: "home t' = home t" using K by (simp add: home_def fun_eq_iff)
  have "lru_list t' L xs = lru_list t L xs" for L xs using K by (intro lru_list_cong) auto
  moreover have "lru_ready t' = lru_ready t" using K by (simp add: lru_ready_def)
  moreover have "ocf_lru_get_list t' = ocf_lru_get_list t" using K by (simp add: ocf_lru_get_list_def fun_eq_iff)
  ultimately show "cache_inv t' rep = cache_inv t rep" using K h by (simp add: cache_inv_def lists_ok_def)
  show "homed t' rep = homed t rep" using h by (simp add: homed_def fun_eq_iff)
  show "ocf_metadata_hash_func t' = ocf_metadata_hash_func t" using K by (simp add: ocf_metadata_hash_func_def fun_eq_iff)
  then show "key_hash t' = key_hash t" by (simp add: key_hash_def fun_eq_iff)
qed (use assms in \<open>auto simp: line_kept_def geometry_ok_def\<close>)

text \<open>\<open>same_map s s'\<close>: the collision chains are the same; the locks of the buckets may differ.\<close>

definition same_map :: "'z coll_state_scheme \<Rightarrow> 'z coll_state_scheme \<Rightarrow> bool" where
  "same_map s s' \<longleftrightarrow> collision_table_entries s' = collision_table_entries s \<and> hash_table_entries s' = hash_table_entries s \<and>
     (\<forall>h. h_line (hash_table s' h) = h_line (hash_table s h)) \<and> list_info s' = list_info s \<and> line_key s' = line_key s"

lemma same_mapD:
  assumes "same_map s s'"
  shows "coll_inv s' = coll_inv s" "cached s' = cached s" "mapped s' = mapped s" "line_key s' = line_key s" "key_hash s' = key_hash s"
proof -
  note S = assms [unfolded same_map_def]
  have c: "core_id (collision s' y) = core_id (collision s y)" for y
    using S by (auto simp: line_key_def fun_eq_iff)
  show m: "mapped s' = mapped s" "line_key s' = line_key s" using S c by (auto simp: mapped_def fun_eq_iff)
  show k: "key_hash s' = key_hash s" using S by (simp add: key_hash_def ocf_metadata_hash_func_def fun_eq_iff)
  show "coll_inv s' = coll_inv s" using S c unfolding coll_inv_def geometry_ok_def unique_keys_def chains_ok_def m k by simp
  show "cached s' = cached s" using S by (simp add: cached_def m fun_eq_iff)
qed

definition same_locks :: "'z coll_state_scheme \<Rightarrow> 'z coll_state_scheme \<Rightarrow> bool" where
  "same_locks s s' \<longleftrightarrow> (\<forall>h. h_wr (hash_table s' h) = h_wr (hash_table s h) \<and> h_rd (hash_table s' h) = h_rd (hash_table s h))"

text \<open>A line enters or leaves the hash table.\<close>

definition dir_changed :: "nat \<Rightarrow> nat \<times> nat \<Rightarrow> 'z cl_state_scheme \<Rightarrow> 'z cl_state_scheme \<Rightarrow> bool" where
  "dir_changed x k s s' \<longleftrightarrow> line_kept x s s' \<and> same_locks s s' \<and> (\<forall>w. marked w s' x = marked w s x) \<and> line_key s' x = k \<and>
     core_rt s' = core_rt s \<and> cl_locks s' = cl_locks s"

lemma removed_changed:
  fixes s :: "'z cl_state_scheme"
  shows "dir_changed x (OCF_CORE_NUM, 2 ^ 46 - 1) s (removed_state h x as bs s)"
  by (auto simp: dir_changed_def line_kept_def same_locks_def removed_state_def Let_def marked_def md_ok_def line_key_def)

lemma added_changed:
  fixes s :: "'z cl_state_scheme"
  shows "dir_changed x (cid, cln) s (added_state cid cln h x xs s)"
  by (auto simp: dir_changed_def line_kept_def same_locks_def added_state_def Let_def marked_def md_ok_def line_key_def)

lemma remove_full:
  fixes s :: "'z cl_state_scheme"
  assumes "coll_inv s" "mapped s x"
  shows "\<exists>s'. ocf_metadata_remove_from_collision s x = Some s' \<and> coll_inv s' \<and> cached s' = (cached s)(line_key s x := None) \<and>
    \<not> mapped s' x \<and> dir_changed x (OCF_CORE_NUM, 2 ^ 46 - 1) s s'"
  using remove_refines [OF assms] remove_eq [OF assms] removed_changed by fastforce

lemma add_full:
  fixes s :: "'z cl_state_scheme"
  assumes "coll_inv s" "key_ok k" "cached s k = None" "x < collision_table_entries s" "\<not> mapped s x"
  shows "\<exists>s'. ocf_metadata_add_to_collision s (fst k) (snd k) (key_hash s k) x = Some s' \<and> coll_inv s' \<and>
    cached s' = (cached s)(k \<mapsto> x) \<and> dir_changed x k s s'"
proof -
  obtain ch where g: "geometry_ok s" and c: "chains_ok s ch" using assms(1) by (auto simp: coll_inv_def)
  have k: "key_ok (fst k, snd k)" using assms(2) by simp
  have "ocf_metadata_add_to_collision s (fst k) (snd k) (key_hash s k) x =
      Some (added_state (fst k) (snd k) (key_hash s k) x (ch (key_hash s k)) s)"
    by (rule add_to_collision_eq [OF g c k hash_func_less [OF g] assms(4)])
  then show ?thesis
    using add_refines [OF assms] added_changed [of x "fst k" "snd k" s] by (metis (full_types) option.inject prod.collapse)
qed

lemma clear_full:
  fixes s :: "'z cl_state_scheme"
  assumes "md_ok s" "x < collision_table_entries s"
  shows "\<exists>s'. ocf_metadata_clear Valid s x 0 (ocf_line_end_block s) = Some (False, s') \<and> line_kept x s s' \<and> marked Valid s' x = {} \<and>
    same_map s s' \<and> hash_table s' = hash_table s \<and> core_rt s' = core_rt s \<and> cl_locks s' = cl_locks s"
proof -
  note W = whole_line [OF assms]
  obtain s' where s': "ocf_metadata_clear Valid s x 0 (ocf_line_end_block s) = Some (marked Valid s' x \<noteq> {}, s')" "remarked Valid x {} s s'"
    using ocf_metadata_clear_eq [OF assms W(1,2), of Valid] W(5) [of Valid] by auto
  obtain st where st: "s' = set_status x st s" using s'(2) unfolding remarked_def by blast
  note R = remarkedD [OF s'(2)]
  have k: "line_key s' = line_key s" by (simp add: st line_key_def set_status_def fun_eq_iff)
  have "line_kept x s s'"
    using R(1) R(3) assms(1) k by (auto simp: line_kept_def st) (simp_all add: set_status_def)
  moreover have "same_map s s'" using k by (simp add: same_map_def st set_status_def)
  moreover have "hash_table s' = hash_table s" "core_rt s' = core_rt s" "cl_locks s' = cl_locks s" by (simp_all add: st set_status_def)
  ultimately show ?thesis using s'(1) R(2) by simp
qed

lemma clear_valid_full:
  fixes s :: "'z cl_state_scheme"
  assumes "md_ok s" "x < collision_table_entries s"
  shows "\<exists>s'. metadata_clear_valid_sec s x 0 (ocf_line_end_block s) = Some s' \<and> line_kept x s s' \<and> marked Valid s' x = {} \<and>
    same_map s s' \<and> hash_table s' = hash_table s \<and> core_rt s' = core_rt s \<and> cl_locks s' = cl_locks s"
  using clear_full [OF assms] by (auto simp: metadata_clear_valid_sec_def)

text \<open>The counters after an unused line lost its data.\<close>

lemma counters_evicted:
  fixes s s' :: "'z cl_state_scheme"
  assumes ok: "counters_ok s" and x: "x < collision_table_entries s" "marked Dirty s x = {}"
    and N: "collision_table_entries s' = collision_table_entries s"
    and part: "\<And>y. y \<noteq> x \<Longrightarrow> partition_id (lru_meta s' y) = partition_id (lru_meta s y)"
    and key: "\<And>y. y \<noteq> x \<Longrightarrow> line_key s' y = line_key s y"
    and d: "marked Dirty s' = marked Dirty s" and v: "\<And>y. marked Valid s' y = (if y = x then {} else marked Valid s y)"
    and rt: "core_rt s' = (core_rt s)(core_id (collision s x) := r)"
      "bumped Valid (if marked Valid s x = {} then 0 else -1) (partition_id (lru_meta s x)) (core_rt s (core_id (collision s x))) r"
  shows "counters_ok s'"
proof -
  let ?c = "core_id (collision s x)" and ?p = "partition_id (lru_meta s x)"
  have id: "core_id (collision s' y) = core_id (collision s y)" if "y \<noteq> x" for y using key [OF that] by (simp add: line_key_def)
  have same: "counts w s' c P y = counts w s c P y" if "y \<noteq> x" for w c P y
    using that id part d v by (cases w) (simp_all add: counts_def)
  have un: "\<not> counts w s' c P x" for w c P using d v x(2) by (cases w) (auto simp: counts_def)
  have t: "int (tally w s' c P) = int (tally w s c P) - (if counts w s c P x then 1 else 0)" for w c P
    using tally_change [OF N x(1) same] un by simp
  have dx: "\<not> counts Dirty s c P x" for c P using x(2) by (simp add: counts_def)
  show ?thesis
    unfolding counters_ok_def
  proof (intro allI conjI)
    fix c p
    note O = ok [unfolded counters_ok_def, rule_format, of c]
    show "cached_clines (core_rt s' c) = int (tally Valid s' c (\<lambda>_. True))"
      using O rt t by (cases "c = ?c") (auto simp: bumped_def counts_def)
    show "dirty_clines (core_rt s' c) = int (tally Dirty s' c (\<lambda>_. True))"
      using O rt t dx by (cases "c = ?c") (auto simp: bumped_def)
    show "part_cached (core_rt s' c) p = int (tally Valid s' c ((=) p))"
      using O rt t by (cases "c = ?c"; cases "p = ?p") (auto simp: bumped_def counts_def)
    show "part_dirty (core_rt s' c) p = int (tally Dirty s' c ((=) p))"
      using O rt t dx by (cases "c = ?c") (auto simp: bumped_def)
  qed
qed

subsection \<open>Giving a line to a request\<close>

lemma held_fields:
  "cl_locks (held req p x s) = set_access x OCF_CACHE_LINE_ACCESS_WR (cl_locks s)" "core_rt (held req p x s) = core_rt s"
  "collision (held req p x s) = collision s" "list_info (held req p x s) = list_info s"
  "collision_table_entries (held req p x s) = collision_table_entries s" "hash_table_entries (held req p x s) = hash_table_entries s"
  "h_line (hash_table (held req p x s) h) = h_line (hash_table s h)" "lru_meta (held req p x s) = lru_meta s"
  "cache_inv (held req p x s) rep = cache_inv s rep" "homed (held req p x s) rep = homed s rep"
  "line_size (held req p x s) = line_size s" "block_4k (held req p x s) = block_4k s"
  "eviction_policy (held req p x s) = eviction_policy s" "eviction_policy_type (held req p x s) = eviction_policy_type s"
  by (simp_all add: held_def grabbed_def hash_held_def) (simp_all add: locked_def bucket_put_def)

definition placing :: "nat \<Rightarrow> nat \<Rightarrow> 'y eng_req_scheme \<Rightarrow> nat \<Rightarrow> 'z cl_state_scheme \<Rightarrow> 'z cl_state_scheme \<Rightarrow> bool" where
  "placing x dst req src s t \<longleftrightarrow> (\<exists>m P. t = (held req src x s)\<lparr>lru_meta := m, cparts := P\<rparr> \<and>
     (\<forall>y. partition_id (m y) = (if y = x then dst else partition_id (lru_meta s y))))"

lemma placed_inD:
  assumes "placed_in x dst (held req src x s) rep t"
  shows "placing x dst req src s t" "\<exists>rep'. cache_inv t rep' \<and> (\<forall>y. homed s rep y \<longrightarrow> homed t rep' y)"
  using assms unfolding placed_in_def reparted_def placing_def held_fields by blast+

lemma placingD:
  assumes "placing x dst req src s t"
  shows "same_map s t" "marked w t y = marked w s y" "partition_id (lru_meta t y) = (if y = x then dst else partition_id (lru_meta s y))"
    "cl_locks t = set_access x OCF_CACHE_LINE_ACCESS_WR (cl_locks s)" "core_rt t = core_rt s" "md_ok t = md_ok s"
    "hash_table t = hash_table (held req src x s)" "line_key t = line_key s" "hash_table_entries t = hash_table_entries s"
    "collision_table_entries t = collision_table_entries s" "line_size t = line_size s" "block_4k t = block_4k s"
    "collision t = collision s" "ocf_metadata_hash_func t = ocf_metadata_hash_func s" "eviction_policy_type t = eviction_policy_type s"
proof -
  obtain m P where t: "t = (held req src x s)\<lparr>lru_meta := m, cparts := P\<rparr>"
    "\<And>y. partition_id (m y) = (if y = x then dst else partition_id (lru_meta s y))"
    using assms unfolding placing_def by blast
  show c: "collision t = collision s" "collision_table_entries t = collision_table_entries s" "line_size t = line_size s" "block_4k t = block_4k s"
    "hash_table_entries t = hash_table_entries s" "core_rt t = core_rt s" "hash_table t = hash_table (held req src x s)"
    "cl_locks t = set_access x OCF_CACHE_LINE_ACCESS_WR (cl_locks s)" "eviction_policy_type t = eviction_policy_type s"
    "partition_id (lru_meta t y) = (if y = x then dst else partition_id (lru_meta s y))"
    using t(2) by (simp_all add: t(1) held_fields)
  show "line_key t = line_key s" using c by (simp add: line_key_def fun_eq_iff)
  then show "same_map s t" using c by (simp add: same_map_def held_fields) (simp add: t(1) held_fields)
  show "marked w t y = marked w s y" "md_ok t = md_ok s" using c by (simp_all add: marked_def md_ok_def)
  show "ocf_metadata_hash_func t = ocf_metadata_hash_func s" using c by (simp add: ocf_metadata_hash_func_def fun_eq_iff)
qed

lemma in_range_hash:
  "ocf_metadata_hash_func s' = ocf_metadata_hash_func s \<Longrightarrow> hash_table_entries s' = hash_table_entries s \<Longrightarrow>
   ocf_req_hash_in_range (hb_of s' req) s' = ocf_req_hash_in_range (hb_of s req) s"
  by (simp add: ocf_req_hash_in_range_def hb_of_def fun_eq_iff)

lemma same_locks_trans: "same_locks a b \<Longrightarrow> same_locks b c \<Longrightarrow> same_locks a c"
  by (simp add: same_locks_def)

lemma same_locks_upd [simp]:
  "same_locks a (upd_core c f b) = same_locks a b" "same_locks a (cleaning_call e b) = same_locks a b" "same_locks a (b\<lparr>cl_locks := al\<rparr>) = same_locks a b"
  by (simp_all add: same_locks_def upd_core_def cleaning_call_def)

text \<open>The old contents of the line leave the cache.\<close>

definition emptied_line :: "nat \<Rightarrow> nat \<Rightarrow> 'z cl_state_scheme \<Rightarrow> 'z cl_state_scheme \<Rightarrow> 'z cl_state_scheme \<Rightarrow> bool" where
  "emptied_line x src s t t' \<longleftrightarrow> coll_inv t' \<and> \<not> mapped t' x \<and> line_kept x t t' \<and> marked Valid t' x = {} \<and> same_locks s t' \<and>
     cached t' = (if src = PARTITION_FREELIST then cached s else (cached s)(line_key s x := None)) \<and>
     cl_locks t' = cl_locks t \<and> (\<exists>r. core_rt t' = (core_rt s)(core_id (collision s x) := r) \<and>
       bumped Valid (if marked Valid s x = {} then 0 else -1) (partition_id (lru_meta s x)) (core_rt s (core_id (collision s x))) r)"

lemma empty_user_line:
  assumes ok: "coll_inv s" "md_ok s" and x: "x < collision_table_entries s" "mapped s x" "marked Valid s x \<noteq> {}"
    and src: "src = partition_id (lru_meta s x)" "src < OCF_USER_IO_CLASS_MAX" and gr: "hash_free req (line_key s x) s"
    and pl: "placing x dst req src s t" and h: "\<And>i. m_hash (rq_map req' i) = m_hash (rq_map req i)" "rq_count req' = rq_count req"
  shows "\<exists>t'. (ocf_lru_invalidate t x (fst (line_key s x)) src \<bind> (\<lambda>t. lru_unlock_hash req' t (fst (line_key s x)) (snd (line_key s x)))) =
      Some t' \<and> emptied_line x src s t t'"
proof -
  note P = placingD [OF pl] and M = same_mapD [OF placingD(1) [OF pl]]
  let ?k = "line_key s x" and ?H = "key_hash s (line_key s x)"
  have nf: "src \<noteq> PARTITION_FREELIST" using src(2) by (simp add: PARTITION_FREELIST_def)
  have ht: "hash_table t = hash_table (hash_held req ?k s)"
    unfolding P(7) using nf by (simp add: held_def grabbed_def hash_held_def) (simp add: locked_def bucket_put_def)
  obtain t1 where t1: "metadata_clear_valid_sec t x 0 (ocf_line_end_block t) = Some t1" "line_kept x t t1" "marked Valid t1 x = {}"
      "same_map t t1" "hash_table t1 = hash_table t" "core_rt t1 = core_rt t" "cl_locks t1 = cl_locks t"
    using clear_valid_full [of t x] ok(2) x(1) P(6,10) by auto
  note M1 = same_mapD [OF t1(4)]
  obtain t2 where t2: "ocf_metadata_remove_from_collision t1 x = Some t2" "coll_inv t2" "cached t2 = (cached s)(?k := None)" "\<not> mapped t2 x"
      "dir_changed x (OCF_CORE_NUM, 2 ^ 46 - 1) t1 t2"
    using remove_full [of t1 x] ok(1) x(2) M M1 by auto
  have D: "line_kept x t1 t2" "same_locks t1 t2" "marked Valid t2 x = {}" "core_rt t2 = core_rt s" "cl_locks t2 = cl_locks t"
    using t2(5) t1(3,6,7) P(5) by (simp_all add: dir_changed_def)
  let ?f = "\<lambda>r. r\<lparr>cached_clines := cached_clines r + -1, part_cached := (part_cached r)(src := part_cached r src + -1)\<rparr>"
  let ?t3 = "upd_core (fst ?k) ?f t2"
  have K: "line_kept x t ?t3" using line_kept_trans [OF t1(2) D(1)] by simp
  have inv: "ocf_lru_invalidate t x (fst ?k) src = Some ?t3"
    using t1(1) t2(1) src(2) by (simp add: ocf_lru_invalidate_def add_cached_def part_index_def)
  have l3: "same_locks (hash_held req ?k s) ?t3"
    using D(2) t1(5) ht by (simp add: same_locks_def upd_core_def)
  have fn: "ocf_metadata_hash_func ?t3 = ocf_metadata_hash_func s" "hash_table_entries ?t3 = hash_table_entries s"
    using line_keptD(6,14) [OF K] P(9,14) by simp_all
  have hb: "hb_of ?t3 req' = hb_of ?t3 req" using h by (simp add: hb_of_def fun_eq_iff)
  have ir: "ocf_req_hash_in_range (hb_of ?t3 req') ?t3 = ocf_req_hash_in_range (hb_of s req) s"
    unfolding hb by (rule in_range_hash [OF fn])
  have g: "geometry_ok s" using ok(1) by (simp add: coll_inv_def)
  let ?t4 = "if ocf_req_hash_in_range (hb_of s req) s (fst ?k) (snd ?k) then ?t3 else bucket_put ?H False ?t3"
  have ul: "lru_unlock_hash req' ?t3 (fst ?k) (snd ?k) = Some ?t4"
    using l3 by (intro unlock_hash_eq [OF g gr _ fn(2,1) ir]) (simp add: same_locks_def)
  have sl: "same_locks s ?t4"
    using l3 gr by (auto simp: same_locks_def hash_held_def hash_free_def bucket_put_def upd_core_def)
  have m4: "same_map ?t3 ?t4" by (simp add: same_map_def line_key_def fun_eq_iff)
  have m3: "same_map t2 ?t3" by (simp add: same_map_def line_key_def fun_eq_iff upd_core_def)
  note M4 = same_mapD [OF m4] same_mapD [OF m3]
  have "marked Valid ?t4 x = {}" using D(3) by simp
  moreover have "line_kept x t ?t4" using K by simp
  moreover have "core_rt ?t4 = (core_rt s)(core_id (collision s x) := ?f (core_rt s (core_id (collision s x))))"
    using D(4) by (simp add: line_key_def) (simp add: bucket_put_def)
  moreover have "cl_locks ?t4 = cl_locks t" using D(5) by simp (simp add: bucket_put_def)
  moreover have "bumped Valid (if marked Valid s x = {} then 0 else -1) (partition_id (lru_meta s x)) (core_rt s (core_id (collision s x)))
      (?f (core_rt s (core_id (collision s x))))" using x(3) src(1) by (simp add: bumped_def)
  ultimately have "emptied_line x src s t ?t4"
    using sl M4 t2 nf unfolding emptied_line_def by metis
  then show ?thesis using inv ul by auto
qed

lemma empty_free_line:
  assumes "coll_inv s" "line_ok s x" "partition_id (lru_meta s x) = PARTITION_FREELIST" "placing x dst req PARTITION_FREELIST s t"
  shows "emptied_line x PARTITION_FREELIST s t t"
proof -
  note P = placingD [OF assms(4)] and M = same_mapD [OF placingD(1) [OF assms(4)]]
  have "hash_table t = hash_table s" using P(7) by (simp add: held_def)
  moreover have "\<exists>r. core_rt t = (core_rt s)(core_id (collision s x) := r) \<and>
      bumped Valid 0 PARTITION_FREELIST (core_rt s (core_id (collision s x))) r"
    using P(5) bumped_0 by (intro exI [of _ "core_rt s (core_id (collision s x))"]) auto
  ultimately show ?thesis using assms M P(2) by (simp add: emptied_line_def line_ok_def same_locks_def)
qed

text \<open>Entry \<open>j\<close> of the request is given line \<open>x\<close>.\<close>

definition same_counts :: "ocf_req_info \<Rightarrow> ocf_req_info \<Rightarrow> bool" where
  "same_counts f g \<longleftrightarrow> dirty_any g = dirty_any f \<and> dirty_all g = dirty_all f \<and> re_part_no g = re_part_no f"

text \<open>\<open>carried\<close>: the range of the request, what it counted of dirty and misplaced lines, and the geometry of the cache are as before.\<close>

definition carried :: "'y eng_req_scheme \<Rightarrow> 'z md_state_scheme \<Rightarrow> 'y eng_req_scheme \<Rightarrow> 'z md_state_scheme \<Rightarrow> bool" where
  "carried req s req' s' \<longleftrightarrow> rq_addr req' = rq_addr req \<and> rq_bytes req' = rq_bytes req \<and> same_counts (rinfo req) (rinfo req') \<and>
     line_size s' = line_size s \<and> block_4k s' = block_4k s"

lemma carried_trans: "carried req s req1 s1 \<Longrightarrow> carried req1 s1 req2 s2 \<Longrightarrow> carried req s req2 s2"
  by (simp add: carried_def same_counts_def)

definition took_req :: "nat \<Rightarrow> nat \<Rightarrow> 'y eng_req_scheme \<Rightarrow> 'y eng_req_scheme \<Rightarrow> bool" where
  "took_req x j req req' \<longleftrightarrow> (\<exists>f. req' = put_info (\<lambda>_. f) (put_entry j (\<lambda>e. e\<lparr>coll_idx := x, m_status := LOOKUP_REMAPPED\<rparr>) req) \<and>
     hit_no f = hit_no (rinfo req) \<and> invalid_no f = invalid_no (rinfo req) \<and> insert_no f = inc32 (insert_no (rinfo req)) \<and>
     mapping_error f = mapping_error (rinfo req) \<and> same_counts (rinfo req) f)"

definition given :: "nat \<Rightarrow> nat \<Rightarrow> 'y sp_req_scheme \<Rightarrow> 'z cl_state_scheme \<Rightarrow> 'z cl_state_scheme \<Rightarrow> bool" where
  "given x j req s s' \<longleftrightarrow> collision_table_entries s' = collision_table_entries s \<and> hash_table_entries s' = hash_table_entries s \<and>
     line_size s' = line_size s \<and> block_4k s' = block_4k s \<and> same_locks s s' \<and>
     (\<forall>y. marked Dirty s' y = marked Dirty s y) \<and> (\<forall>y. marked Valid s' y = (if y = x then {} else marked Valid s y)) \<and>
     (\<forall>y. partition_id (lru_meta s' y) = (if y = x then rq_part req else partition_id (lru_meta s y))) \<and>
     (\<forall>y. line_key s' y = (if y = x then (rq_core req, line_first req + j) else line_key s y)) \<and>
     cached s' = (cached s)(line_key s x := None, (rq_core req, line_first req + j) \<mapsto> x) \<and>
     cl_locks s' = upd_req (rq_id req) (\<lambda>r. r\<lparr>alock_rw := OCF_WRITE\<rparr>)
       (ocf_alock_mark_index_locked (rq_id req) j True (set_access x OCF_CACHE_LINE_ACCESS_WR (cl_locks s)))"

lemma patch_spec:
  assumes "m_status (rq_map req j) = LOOKUP_REMAPPED"
  shows "\<exists>f. ocf_engine_patch_req_info j req = Some (put_info (\<lambda>_. f) req) \<and>
    hit_no f = hit_no (rinfo req) \<and> invalid_no f = invalid_no (rinfo req) \<and> insert_no f = inc32 (insert_no (rinfo req)) \<and>
    mapping_error f = mapping_error (rinfo req) \<and> same_counts (rinfo req) f"
proof -
  have "ocf_engine_clines_phys_cont (put_info f q) i = ocf_engine_clines_phys_cont q i" for f i and q :: "'a eng_req_scheme"
    by (simp add: ocf_engine_clines_phys_cont_def put_info_def)
  then show ?thesis using assms by (auto simp: ocf_engine_patch_req_info_def Let_def put_info_def same_counts_def)
qed

lemma cached_unmapped:
  assumes "coll_inv s" "x < collision_table_entries s" "\<not> mapped s x"
  shows "(cached s)(line_key s x := None) = cached s"
proof -
  obtain ch where "chains_ok s ch" using assms(1) by (auto simp: coll_inv_def)
  from chains_ok_free(1) [OF this assms(2,3)] have "fst (line_key s x) = OCF_CORE_NUM" by (simp add: line_key_def)
  then have "cached s (line_key s x) = None" unfolding cached_eq_None by (metis fst_conv less_irrefl line_key_def mapped_def)
  then show ?thesis by (simp add: fun_upd_idem)
qed

lemma quiet_given:
  assumes "locks_quiet s" "collision_table_entries s' = collision_table_entries s"
    "cl_locks s' = upd_req r F (ocf_alock_mark_index_locked r j True (set_access x OCF_CACHE_LINE_ACCESS_WR (cl_locks s)))"
  shows "locks_quiet s'" "access_of (cl_locks s') y = (if y = x then OCF_CACHE_LINE_ACCESS_WR else access_of (cl_locks s) y)"
proof -
  show a: "access_of (cl_locks s') y = (if y = x then OCF_CACHE_LINE_ACCESS_WR else access_of (cl_locks s) y)" for y
    by (simp add: assms(3) upd_req_def ocf_alock_mark_index_locked_def set_access_def)
  have "ocf_alock_waitlist_is_empty_locked (cl_locks s') y = ocf_alock_waitlist_is_empty_locked (cl_locks s) y" for y
    by (simp add: assms(3) upd_req_def ocf_alock_mark_index_locked_def set_access_def ocf_alock_waitlist_is_empty_locked_def WAITERS_LIST_ITEM_def)
  moreover have "num_entries (cl_locks s') = num_entries (cl_locks s)"
    by (simp add: assms(3) upd_req_def ocf_alock_mark_index_locked_def set_access_def)
  ultimately show "locks_quiet s'" using assms(1,2) a by (auto simp: locks_quiet_def split: if_splits)
qed

lemma take_spec:
  fixes s :: "'z cl_state_scheme" and req :: "'y sp_req_scheme"
  assumes ok: "lines_ok s rep" and pk: "picked req (rq_part req) s rep (x, src, key) t"
    and dst: "rq_part req < OCF_USER_IO_CLASS_MAX"
    and j: "j = next_miss (rq_count req) req i" "m_status (rq_map req j) = LOOKUP_MISS"
    and k: "k = (rq_core req, line_first req + j)" "key_ok k" "cached s k = None" "m_hash (rq_map req j) = key_hash s k"
  shows "\<exists>req' s' rep'. give_line req i x src key t = Some (j + 1, req', s') \<and> took_req x j req req' \<and> given x j req s s' \<and> lines_ok s' rep'"
proof -
  note D = lines_okD [OF ok]
  have p: "x < collision_table_entries s" "marked Dirty s x = {}" "src = partition_id (lru_meta s x)" "takeable req src s x"
      "src \<noteq> PARTITION_FREELIST \<Longrightarrow> key = line_key s x" "placed_in x (rq_part req) (held req src x s) rep t"
    using pk by (auto simp: picked_def)
  obtain rep' where pl: "placing x (rq_part req) req src s t" and rep': "cache_inv t rep'" "\<And>y. homed s rep y \<Longrightarrow> homed t rep' y"
    using placed_inD [OF p(6)] by blast
  note P = placingD [OF pl] and L = D(9) [OF p(1)]
  have a0: "access_of (cl_locks s) x = 0" using p(4) by (auto simp: takeable_def grabbable_def split: if_splits)
  have "\<exists>t'. (if src \<noteq> PARTITION_FREELIST then do {
            t \<leftarrow> ocf_lru_invalidate t x (fst key) src;
            lru_unlock_hash req t (fst key) (snd key) }
          else Some t) = Some t' \<and> emptied_line x src s t t'"
  proof (cases "src = PARTITION_FREELIST")
    case True
    then show ?thesis using empty_free_line [OF D(3) L _ pl [unfolded True]] p(3) by simp
  next
    case False
    then have u: "src < 34" "mapped s x" "marked Valid s x \<noteq> {}" "hash_free req (line_key s x) s"
      using L p(3,4) a0 by (auto simp: line_ok_def takeable_def grabbable_def)
    show ?thesis using empty_user_line [OF D(3,6) p(1) u(2,3) p(3) u(1,4) pl refl refl] False p(5) by simp
  qed
  then obtain t' where t': "(if src \<noteq> PARTITION_FREELIST then do {
            t \<leftarrow> ocf_lru_invalidate t x (fst key) src;
            lru_unlock_hash req t (fst key) (snd key) }
          else Some t) = Some t'" "emptied_line x src s t t'" by blast
  obtain r where E: "coll_inv t'" "\<not> mapped t' x" "line_kept x t t'" "marked Valid t' x = {}" "same_locks s t'" "cl_locks t' = cl_locks t"
      "cached t' = (if src = PARTITION_FREELIST then cached s else (cached s)(line_key s x := None))"
      "core_rt t' = (core_rt s)(core_id (collision s x) := r)"
      "bumped Valid (if marked Valid s x = {} then 0 else -1) (partition_id (lru_meta s x)) (core_rt s (core_id (collision s x))) r"
    using t'(2) unfolding emptied_line_def by blast
  note K = line_keptD [OF E(3)]
  have cd: "cached t' = (cached s)(line_key s x := None)"
    using E(7) L p(3) cached_unmapped [OF D(3) p(1)] by (auto simp: line_ok_def)
  have kh: "key_hash t' = key_hash s" using K(4) same_mapD(5) [OF P(1)] by simp
  have no: "cached t' k = None" using cd k(3) by simp
  have xt: "x < collision_table_entries t'" using p(1) K(9) P(10) by simp
  obtain t2 where t2: "ocf_metadata_add_to_collision t' (rq_core req) (line_first req + j) (m_hash (rq_map req j)) x = Some t2"
      "coll_inv t2" "cached t2 = (cached t')(k \<mapsto> x)" "dir_changed x k t' t2"
    using add_full [OF E(1) k(2) no xt E(2)] k(1,4) kh by auto
  have G: "line_kept x t' t2" "same_locks t' t2" "\<And>w. marked w t2 x = marked w t' x" "line_key t2 x = k" "core_rt t2 = core_rt t'" "cl_locks t2 = cl_locks t'"
    using t2(4) by (auto simp: dir_changed_def)
  let ?req1 = "put_entry j (\<lambda>e. e\<lparr>m_status := LOOKUP_REMAPPED\<rparr>) (put_entry j (\<lambda>e. e\<lparr>coll_idx := x\<rparr>) req)"
  have r1: "?req1 = put_entry j (\<lambda>e. e\<lparr>coll_idx := x, m_status := LOOKUP_REMAPPED\<rparr>) req" by (simp add: put_entry_def)
  obtain f where f: "ocf_engine_patch_req_info j ?req1 = Some (put_info (\<lambda>_. f) ?req1)" "hit_no f = hit_no (rinfo req)"
      "invalid_no f = invalid_no (rinfo req)" "insert_no f = inc32 (insert_no (rinfo req))" "mapping_error f = mapping_error (rinfo req)"
      "same_counts (rinfo req) f"
    using patch_spec [of ?req1 j] by (auto simp: put_entry_def)
  let ?req' = "put_info (\<lambda>_. f) ?req1"
  have id: "rq_id ?req' = rq_id req" by (simp add: put_info_def put_entry_def)
  let ?al = "upd_req (rq_id req) (\<lambda>r. r\<lparr>alock_rw := OCF_WRITE\<rparr>)
       (ocf_alock_mark_index_locked (rq_id req) j True (set_access x OCF_CACHE_LINE_ACCESS_WR (cl_locks s)))"
  define s' where "s' = (cleaning_call (Init_block x) t2)\<lparr>cl_locks := ?al\<rparr>"
  have used: "ocf_cache_line_is_used (cl_locks t) x = Some True"
    using p(1) D(5) by (simp add: P(4) ocf_cache_line_is_used_def set_access_def locks_quiet_def)
  have nd: "metadata_test_dirty t x = Some False" using dirty_eq [of t x] P(2,6,10) D(6) p(1,2) by simp
  have op: "give_line req i x src key t = Some (j + 1, ?req', s')"
    unfolding give_line_def used nd j(1) [symmetric] bind.bind_lunit Let_def t'(1)
    using j(2) f(1) t2(1) G(6) E(6) P(4) id by (simp add: ocf_map_cache_line_def s'_def)
  have kp: "line_kept x t s'" using line_kept_trans [OF E(3) G(1)] by (simp add: s'_def)
  note S = line_keptD [OF kp]
  have mp: "same_map t2 s'" by (simp add: s'_def same_map_def cleaning_call_def line_key_def fun_eq_iff)
  note M = same_mapD [OF mp]
  have ms: "marked w s' y = marked w t2 y" for w y by (simp add: s'_def marked_def)
  have lk: "line_key s' y = (if y = x then k else line_key s y)" for y
    using S(12) [of y] P(8) G(4) M(4) by auto
  have vd: "marked Valid s' y = (if y = x then {} else marked Valid s y)" for y
    using S(13) [of y] P(2) G(3) E(4) ms by auto
  have dd: "marked Dirty s' = marked Dirty s" using S(10) P(2) by (simp add: fun_eq_iff)
  have pt: "partition_id (lru_meta s' y) = (if y = x then rq_part req else partition_id (lru_meta s y))" for y
    using S(7) P(3) by simp
  have N: "collision_table_entries s' = collision_table_entries s" using S(9) P(10) by simp
  have sl: "same_locks s s'" using same_locks_trans [OF E(5) G(2)] by (simp add: s'_def)
  have gv: "given x j req s s'"
  proof -
    have "line_size s' = line_size s" "block_4k s' = block_4k s" using kp P(11,12) by (simp_all add: line_kept_def)
    moreover have "cached s' = (cached s)(line_key s x := None, (rq_core req, line_first req + j) \<mapsto> x)"
      using cd t2(3) M(2) k(1) by simp
    moreover have "cl_locks s' = ?al" by (simp add: s'_def)
    ultimately show ?thesis unfolding given_def using N S(14) P(9) sl dd vd pt lk k(1) by simp
  qed
  have rt: "core_rt s' = (core_rt s)(core_id (collision s x) := r)" using E(8) G(5) by (simp add: s'_def)
  have cnt: "counters_ok s'"
    by (rule counters_evicted [OF D(2) p(1,2) N _ _ dd vd rt E(9)]) (use pt lk in auto)
  have cl: "cl_locks s' = ?al" by (simp add: s'_def)
  note Q = quiet_given [OF D(5) N cl]
  have ac: "access_of (cl_locks s') y = (if y = x then OCF_CACHE_LINE_ACCESS_WR else access_of (cl_locks s) y)" for y
    using Q(2) by simp
  have lo: "line_ok s' y" if y: "y < collision_table_entries s" for y
  proof (cases "y = x")
    case True
    then show ?thesis using pt [of x] ac [of x] dst by (simp add: line_ok_def PARTITION_FREELIST_def)
  next
    case False
    have "mapped s' y = mapped s y" using lk [of y] False N by (auto simp: mapped_def line_key_def)
    then show ?thesis using D(9) [OF y] False pt [of y] ac [of y] vd [of y] dd unfolding line_ok_def by simp
  qed
  have hm: "homed s' rep' y" if "y < collision_table_entries s" for y using S(2) rep'(2) [OF D(8) [OF that]] by simp
  have "cache_inv s' rep'" using rep'(1) S(1) by simp
  moreover have "coll_inv s'" using M(1) t2(2) by simp
  moreover have "locks_quiet s'" using Q(1) by simp
  ultimately have "lines_ok s' rep'" using cnt lo hm N unfolding lines_ok_def cl_inv_def by simp
  moreover have "took_req x j req ?req'" unfolding took_req_def r1 using f(2-6) by blast
  ultimately show ?thesis using op gv by blast
qed

subsection \<open>The lines given to a request\<close>

definition misses :: "'y cl_req_scheme \<Rightarrow> nat \<Rightarrow> nat list" where
  "misses req a = filter (\<lambda>j. m_status (rq_map req j) = LOOKUP_MISS) [a..<rq_count req]"

lemma next_miss_eq:
  assumes "i \<le> m" "m < rq_count req" "m_status (rq_map req m) = LOOKUP_MISS" "\<forall>k. i \<le> k \<and> k < m \<longrightarrow> m_status (rq_map req k) \<noteq> LOOKUP_MISS"
    and "m - i \<le> n"
  shows "next_miss n req i = m"
  using assms
proof (induction n arbitrary: i)
  case (Suc n)
  then show ?case by (cases "i = m") auto
qed simp

lemma misses_next:
  assumes "misses req i = j # js"
  shows "next_miss (rq_count req) req i = j" "m_status (rq_map req j) = LOOKUP_MISS" "j < rq_count req" "i \<le> j" "misses req (j + 1) = js"
proof -
  obtain us vs where f: "[i..<rq_count req] = us @ j # vs" "\<forall>u\<in>set us. m_status (rq_map req u) \<noteq> LOOKUP_MISS"
      "m_status (rq_map req j) = LOOKUP_MISS" "js = filter (\<lambda>j. m_status (rq_map req j) = LOOKUP_MISS) vs"
    using assms unfolding misses_def filter_eq_Cons_iff by auto
  have "j \<in> set [i..<rq_count req]" using f(1) by simp
  then show j: "j < rq_count req" "i \<le> j" by simp_all
  have us: "us = [i..<j] \<and> vs = [j + 1..<rq_count req]"
  proof -
    have "us @ j # vs = [i..<j] @ j # [j + 1..<rq_count req]"
      using f(1) j upt_conv_Cons [OF j(1)] upt_add_eq_append [OF j(2), of "rq_count req - j"] by simp
    moreover have "distinct (us @ j # vs)" using f(1) by (metis distinct_upt)
    then have "j \<notin> set us" "j \<notin> set vs" by auto
    ultimately show ?thesis by (auto simp: append_Cons_eq_iff)
  qed
  show "m_status (rq_map req j) = LOOKUP_MISS" by (fact f)
  show "next_miss (rq_count req) req i = j"
    using f(2) us j by (intro next_miss_eq [OF j(2,1) f(3)]) auto
  show "misses req (j + 1) = js" using f(4) us by (simp add: misses_def)
qed

text \<open>The entries of the request are hashed, and what they miss is not cached.\<close>

definition req_ready :: "'y eng_req_scheme \<Rightarrow> 'z coll_state_scheme \<Rightarrow> bool" where
  "req_ready req s \<longleftrightarrow> rq_part req < OCF_USER_IO_CLASS_MAX \<and> (\<forall>i < rq_count req.
     key_ok (rq_core req, line_first req + i) \<and> m_hash (rq_map req i) = key_hash s (rq_core req, line_first req + i) \<and>
     (m_status (rq_map req i) = LOOKUP_MISS \<longrightarrow> cached s (rq_core req, line_first req + i) = None))"

lemma took_reqD:
  assumes "took_req x j req req'"
  shows "rq_core req' = rq_core req" "rq_part req' = rq_part req" "rq_count req' = rq_count req" "line_first req' = line_first req"
    "line_last req' = line_last req" "rq_map req' = (rq_map req)(j := (rq_map req j)\<lparr>coll_idx := x, m_status := LOOKUP_REMAPPED\<rparr>)"
    "hit_no (rinfo req') = hit_no (rinfo req)" "invalid_no (rinfo req') = invalid_no (rinfo req)"
    "insert_no (rinfo req') = inc32 (insert_no (rinfo req))"
  using assms by (auto simp: took_req_def put_info_def put_entry_def)

lemma took_sp:
  fixes req :: "'y sp_req_scheme"
  assumes "took_req x j req req'"
  shows "rq_id req' = rq_id req" "part_evict req' = part_evict req" "rq_lru_idx req' = rq_lru_idx req"
    "mapping_error (rinfo req') = mapping_error (rinfo req)"
  using assms by (auto simp: took_req_def put_info_def put_entry_def)

lemma took_carried:
  assumes "took_req x j req req'" "given x j (req :: 'y sp_req_scheme) s s'"
  shows "carried req s req' s'"
  using assms by (auto simp: took_req_def put_info_def put_entry_def given_def carried_def)

lemma misses_took:
  assumes "took_req x j req req'" "j < a"
  shows "misses req' a = misses req a"
  using assms took_reqD [OF assms(1)] unfolding misses_def by (auto intro: filter_cong)

lemma givenD:
  assumes "given x j req s s'"
  shows "collision_table_entries s' = collision_table_entries s" "key_hash s' = key_hash s"
    "access_of (cl_locks s') y = (if y = x then OCF_CACHE_LINE_ACCESS_WR else access_of (cl_locks s) y)"
    "alock_status (reqs (cl_locks s') (rq_id req)) = insert j (alock_status (reqs (cl_locks s) (rq_id req)))"
    "cached s' = (cached s)(line_key s x := None, (rq_core req, line_first req + j) \<mapsto> x)"
    "line_key s' y = (if y = x then (rq_core req, line_first req + j) else line_key s y)"
    "marked Dirty s' y = marked Dirty s y" "marked Valid s' y = (if y = x then {} else marked Valid s y)"
    "partition_id (lru_meta s' y) = (if y = x then rq_part req else partition_id (lru_meta s y))" "same_locks s s'"
    "hash_table_entries s' = hash_table_entries s" "ocf_metadata_hash_func s' = ocf_metadata_hash_func s"
    "waiters_lsts (cl_locks s') = waiters_lsts (cl_locks s)" "num_waitlists (cl_locks s') = num_waitlists (cl_locks s)"
  using assms
  by (auto simp: given_def key_hash_def ocf_metadata_hash_func_def upd_req_def ocf_alock_mark_index_locked_def set_access_def fun_eq_iff)

lemma req_ready_given:
  assumes "req_ready req s" "took_req x j req req'" "given x j req s s'"
  shows "req_ready req' s'"
proof -
  note T = took_reqD [OF assms(2)] and G = givenD [OF assms(3)]
  have "cached s' (rq_core req, line_first req + i) = None" if "i \<noteq> j" "cached s (rq_core req, line_first req + i) = None" for i
    using that G(5) by simp
  then show ?thesis using assms(1) unfolding req_ready_def T G(2) by auto
qed

lemma grabbable_given:
  assumes "took_req x j req req'" "given x j (req :: 'y sp_req_scheme) s s'"
  shows "grabbable req' s' y = (y \<noteq> x \<and> grabbable req s y)" "takeable req' p s' y = (y \<noteq> x \<and> takeable req p s y)"
proof -
  note T = took_reqD [OF assms(1)] and G = givenD [OF assms(2)]
  have hb: "hb_of s' req' = hb_of s req" using T G(11) by (auto simp: hb_of_def fun_eq_iff)
  have ir: "ocf_req_hash_in_range (hb_of s' req') s' = ocf_req_hash_in_range (hb_of s req) s"
    unfolding hb by (simp add: ocf_req_hash_in_range_def G(12) fun_eq_iff)
  have "hash_free req' k s' = hash_free req k s" for k
    using G(10) unfolding hash_free_def ir G(2) same_locks_def by simp
  moreover have "in_request req' = in_request req" by (simp add: in_request_def T fun_eq_iff)
  ultimately show "grabbable req' s' y = (y \<noteq> x \<and> grabbable req s y)"
    using G(3,6) by (simp add: grabbable_def)
  then show "takeable req' p s' y = (y \<noteq> x \<and> takeable req p s y)" using G(3) by (simp add: takeable_def)
qed

text \<open>\<open>assigned ts req s req' s'\<close>: the pairs \<open>ts\<close> of an entry and a line were assigned one after the other.\<close>

definition assigned ::
    "(nat \<times> nat) list \<Rightarrow> 'y sp_req_scheme \<Rightarrow> 'z cl_state_scheme \<Rightarrow> 'y sp_req_scheme \<Rightarrow> 'z cl_state_scheme \<Rightarrow> bool" where
  "assigned ts req s req' s' \<longleftrightarrow> distinct (map fst ts) \<and> distinct (map snd ts) \<and>
     (\<forall>(j, x)\<in>set ts. x < collision_table_entries s \<and> marked Dirty s x = {} \<and> takeable req (partition_id (lru_meta s x)) s x) \<and>
     rq_core req' = rq_core req \<and> rq_part req' = rq_part req \<and> rq_count req' = rq_count req \<and> line_first req' = line_first req \<and>
     line_last req' = line_last req \<and> rq_id req' = rq_id req \<and>
     (\<forall>j. rq_map req' j = (case map_of ts j of None \<Rightarrow> rq_map req j | Some x \<Rightarrow> (rq_map req j)\<lparr>coll_idx := x, m_status := LOOKUP_REMAPPED\<rparr>)) \<and>
     hit_no (rinfo req') = hit_no (rinfo req) \<and> invalid_no (rinfo req') = invalid_no (rinfo req) \<and>
     insert_no (rinfo req') = (inc32 ^^ length ts) (insert_no (rinfo req)) \<and> mapping_error (rinfo req') = mapping_error (rinfo req) \<and>
     collision_table_entries s' = collision_table_entries s \<and> hash_table_entries s' = hash_table_entries s \<and> same_locks s s' \<and>
     waiters_lsts (cl_locks s') = waiters_lsts (cl_locks s) \<and> num_waitlists (cl_locks s') = num_waitlists (cl_locks s) \<and>
     (\<forall>y. marked Dirty s' y = marked Dirty s y \<and>
       marked Valid s' y = (if y \<in> snd ` set ts then {} else marked Valid s y) \<and>
       partition_id (lru_meta s' y) = (if y \<in> snd ` set ts then rq_part req else partition_id (lru_meta s y)) \<and>
       access_of (cl_locks s') y = (if y \<in> snd ` set ts then OCF_CACHE_LINE_ACCESS_WR else access_of (cl_locks s) y) \<and>
       (y \<notin> snd ` set ts \<longrightarrow> line_key s' y = line_key s y)) \<and>
     (\<forall>(j, x)\<in>set ts. line_key s' x = (rq_core req, line_first req + j)) \<and>
     alock_status (reqs (cl_locks s') (rq_id req)) = fst ` set ts \<union> alock_status (reqs (cl_locks s) (rq_id req)) \<and>
     carried req s req' s'"

lemma assigned_Nil: "assigned [] req s req s"
  by (simp add: assigned_def same_locks_def carried_def same_counts_def)

lemma assigned_Cons:
  fixes req :: "'y sp_req_scheme"
  assumes t: "took_req x j req req1" and g: "given x j req s s1"
    and x: "x < collision_table_entries s" "marked Dirty s x = {}" "takeable req (partition_id (lru_meta s x)) s x"
    and a: "assigned ts req1 s1 req' s'" and j: "j \<notin> fst ` set ts"
  shows "assigned ((j, x) # ts) req s req' s'"
proof -
  note T = took_reqD [OF t] took_sp [OF t] and G = givenD [OF g]
  have D: "distinct (map fst ts)" "distinct (map snd ts)" using a by (simp_all add: assigned_def)
  have Q: "rq_core req' = rq_core req1 \<and> rq_part req' = rq_part req1 \<and> rq_count req' = rq_count req1 \<and> line_first req' = line_first req1 \<and>
     line_last req' = line_last req1 \<and> rq_id req' = rq_id req1" using a by (simp add: assigned_def)
  have M: "rq_map req' j = (case map_of ts j of None \<Rightarrow> rq_map req1 j | Some x \<Rightarrow> (rq_map req1 j)\<lparr>coll_idx := x, m_status := LOOKUP_REMAPPED\<rparr>)" for j
    using a by (simp add: assigned_def)
  have R: "hit_no (rinfo req') = hit_no (rinfo req1) \<and> invalid_no (rinfo req') = invalid_no (rinfo req1) \<and>
     insert_no (rinfo req') = (inc32 ^^ length ts) (insert_no (rinfo req1)) \<and> mapping_error (rinfo req') = mapping_error (rinfo req1)" using a by (simp add: assigned_def)
  have N: "collision_table_entries s' = collision_table_entries s1" "same_locks s1 s'" "hash_table_entries s' = hash_table_entries s1"
      "waiters_lsts (cl_locks s') = waiters_lsts (cl_locks s1)" "num_waitlists (cl_locks s') = num_waitlists (cl_locks s1)"
    using a by (simp_all add: assigned_def)
  have Y: "marked Dirty s' y = marked Dirty s1 y \<and>
       marked Valid s' y = (if y \<in> snd ` set ts then {} else marked Valid s1 y) \<and>
       partition_id (lru_meta s' y) = (if y \<in> snd ` set ts then rq_part req1 else partition_id (lru_meta s1 y)) \<and>
       access_of (cl_locks s') y = (if y \<in> snd ` set ts then OCF_CACHE_LINE_ACCESS_WR else access_of (cl_locks s1) y) \<and>
       (y \<notin> snd ` set ts \<longrightarrow> line_key s' y = line_key s1 y)" for y
    using a unfolding assigned_def by blast
  have K: "\<forall>(i, y)\<in>set ts. line_key s' y = (rq_core req1, line_first req1 + i)" using a unfolding assigned_def by blast
  have L: "alock_status (reqs (cl_locks s') (rq_id req1)) = fst ` set ts \<union> alock_status (reqs (cl_locks s1) (rq_id req1))"
    using a unfolding assigned_def by blast
  have E: "takeable req1 (partition_id (lru_meta s1 y)) s1 y" "y < collision_table_entries s1" "marked Dirty s1 y = {}"
    if "(i, y) \<in> set ts" for i y using a that unfolding assigned_def by blast+
  have nx: "x \<notin> snd ` set ts"
  proof
    assume "x \<in> snd ` set ts"
    then obtain i where "(i, x) \<in> set ts" by auto
    with E(1) grabbable_given(2) [OF t g] show False by blast
  qed
  have e: "\<forall>(i, y)\<in>set ((j, x) # ts). y < collision_table_entries s \<and> marked Dirty s y = {} \<and> takeable req (partition_id (lru_meta s y)) s y"
  proof -
    have "y < collision_table_entries s \<and> marked Dirty s y = {} \<and> takeable req (partition_id (lru_meta s y)) s y" if "(i, y) \<in> set ts" for i y
      using E [OF that] G(1,7,9) grabbable_given(2) [OF t g] by (auto split: if_splits)
    then show ?thesis using x by auto
  qed
  have m: "rq_map req' i = (case map_of ((j, x) # ts) i of None \<Rightarrow> rq_map req i | Some x \<Rightarrow> (rq_map req i)\<lparr>coll_idx := x, m_status := LOOKUP_REMAPPED\<rparr>)" for i
  proof (cases "i = j")
    case True
    have "map_of ts j = None" using j by (simp add: map_of_eq_None_iff)
    then show ?thesis using True M T(6) by simp
  next
    case False
    then show ?thesis using M [of i] T(6) by (auto split: option.splits)
  qed
  have y: "marked Dirty s' y = marked Dirty s y \<and>
       marked Valid s' y = (if y \<in> snd ` set ((j, x) # ts) then {} else marked Valid s y) \<and>
       partition_id (lru_meta s' y) = (if y \<in> snd ` set ((j, x) # ts) then rq_part req else partition_id (lru_meta s y)) \<and>
       access_of (cl_locks s') y = (if y \<in> snd ` set ((j, x) # ts) then OCF_CACHE_LINE_ACCESS_WR else access_of (cl_locks s) y) \<and>
       (y \<notin> snd ` set ((j, x) # ts) \<longrightarrow> line_key s' y = line_key s y)" for y
    using Y [of y] G(3,6-9) [of y] T(2) nx by (cases "y = x") simp_all
  have k: "\<forall>(i, y)\<in>set ((j, x) # ts). line_key s' y = (rq_core req, line_first req + i)"
    using K Y [of x] nx G(6) [of x] T(1,4) by auto
  show ?thesis
    unfolding assigned_def
  proof (intro conjI)
    show "\<forall>y. marked Dirty s' y = marked Dirty s y \<and>
       marked Valid s' y = (if y \<in> snd ` set ((j, x) # ts) then {} else marked Valid s y) \<and>
       partition_id (lru_meta s' y) = (if y \<in> snd ` set ((j, x) # ts) then rq_part req else partition_id (lru_meta s y)) \<and>
       access_of (cl_locks s') y = (if y \<in> snd ` set ((j, x) # ts) then OCF_CACHE_LINE_ACCESS_WR else access_of (cl_locks s) y) \<and>
       (y \<notin> snd ` set ((j, x) # ts) \<longrightarrow> line_key s' y = line_key s y)" using y by blast
    show "same_locks s s'" using N(2) G(10) same_locks_trans by blast
    have "carried req1 s1 req' s'" using a by (simp add: assigned_def)
    then show "carried req s req' s'" by (rule carried_trans [OF took_carried [OF t g]])
    show "insert_no (rinfo req') = (inc32 ^^ length ((j, x) # ts)) (insert_no (rinfo req))" using R T(9) by (simp add: funpow_swap1)
    show "alock_status (reqs (cl_locks s') (rq_id req)) = fst ` set ((j, x) # ts) \<union> alock_status (reqs (cl_locks s) (rq_id req))"
      using L G(4) T(10) by auto
  qed (use e m k D j nx Q R T N G(1,11,13,14) in simp_all)
qed

definition exhausted :: "'y eng_req_scheme \<Rightarrow> nat \<Rightarrow> 'z cl_state_scheme \<Rightarrow> nat set \<Rightarrow> bool" where
  "exhausted req p s is \<longleftrightarrow> (\<forall>x < collision_table_entries s. partition_id (lru_meta s x) = p \<and> marked Dirty s x = {} \<and>
     OCF_LRU_GET_LIST_INDEX x \<notin> is \<longrightarrow> \<not> takeable req p s x)"

lemma exhausted_pick:
  assumes ok: "lines_ok s rep" and ex: "exhausted req (it_part iter) s (live iter)" and pk: "pick_outcome req dst s rep iter f it s'"
  shows "exhausted req (it_part iter) s (live it)"
proof -
  let ?p = "it_part iter"
  have "\<not> takeable req ?p s x" if x: "x < collision_table_entries s" "partition_id (lru_meta s x) = ?p" "marked Dirty s x = {}"
      "OCF_LRU_GET_LIST_INDEX x \<notin> live it" for x
  proof (cases "OCF_LRU_GET_LIST_INDEX x \<in> live iter")
    case True
    have "home s x = (?p, OCF_LRU_GET_LIST_INDEX x, True)" using x(2,3) by (simp add: home_def list_kind_def)
    then have "x \<in> set (rep (?p, OCF_LRU_GET_LIST_INDEX x, True))" using lines_okD(8) [OF ok x(1)] by (simp add: homed_def)
    then show ?thesis using pk True x(4) by (auto simp: pick_outcome_def)
  qed (use ex x in \<open>auto simp: exhausted_def\<close>)
  then show ?thesis by (auto simp: exhausted_def)
qed

lemma exhausted_given:
  assumes "exhausted req p s is" "took_req x j req req'" "given x j (req :: 'y sp_req_scheme) s s'"
  shows "exhausted req' p s' is"
  using assms(1) givenD(1,7,9) [OF assms(3)] grabbable_given(2) [OF assms(2,3)] by (auto simp: exhausted_def split: if_splits)

definition part_full :: "'z lru_cache_scheme \<Rightarrow> nat \<Rightarrow> nat \<Rightarrow> bool" where
  "part_full s p mx \<longleftrightarrow> nat (curr_size (cparts s p) mod 2 ^ 32) \<ge> mx"

lemma clines_loop_spec:
  fixes req :: "'y sp_req_scheme" and s :: "'z cl_state_scheme"
  assumes "lines_ok s rep" "req_ready req s" "iter_ok iter" "live iter \<noteq> {}" "it_part iter = p" "p \<le> PARTITION_FREE_DETACHED"
    "n \<le> length (misses req a)" "exhausted req p s (live iter)"
  shows "\<exists>ts req' s' rep'. req_clines_loop cfg mx n i a cline iter req s = Some (i + length ts, req', s') \<and> length ts \<le> n \<and>
    assigned ts req s req' s' \<and> lines_ok s' rep' \<and> map fst ts = take (length ts) (misses req a) \<and>
    (length ts = n \<or> part_full s' (rq_part req) mx \<or> exhausted req' p s' {})"
  using assms
proof (induction n arbitrary: i a cline iter req s rep)
  case 0
  then show ?case by (intro exI [of _ "[]"]) (auto simp: assigned_Nil)
next
  case (Suc n)
  note ok = Suc.prems(1) and rr = Suc.prems(2)
  have dst: "rq_part req < 34" using rr by (simp add: req_ready_def)
  then have dst': "rq_part req \<le> PARTITION_FREE_DETACHED" "rq_part req \<noteq> PARTITION_FREELIST"
    by (simp_all add: PARTITION_FREE_DETACHED_def PARTITION_FREELIST_def)
  have ip: "it_part iter \<le> PARTITION_FREE_DETACHED" using Suc.prems(5,6) by simp
  obtain f it s1 where P: "pick_line cfg req cline iter s = Some (f, it, s1)" "pick_outcome req (rq_part req) s rep iter f it s1"
    using pick_spec [OF ok Suc.prems(3,4) ip dst'] by blast
  have it: "iter_ok it" "it_part it = p" using P(2) Suc.prems(5) by (simp_all add: pick_outcome_def)
  have ex: "exhausted req p s (live it)" using exhausted_pick [OF ok _ P(2)] Suc.prems(5,8) by simp
  show ?case
  proof (cases f)
    case None
    then have "s1 = s" "live it = {}" using P(2) by (simp_all add: pick_outcome_def)
    then show ?thesis using P(1) None ok ex by (intro exI [of _ "[]"]) (auto simp: assigned_Nil)
  next
    case (Some ff)
    obtain x src key where ff: "ff = (x, src, key)" by (cases ff) auto
    have pk: "picked req (rq_part req) s rep (x, src, key) s1" "live it \<noteq> {}" using P(2) Some ff by (simp_all add: pick_outcome_def)
    obtain j js where mj: "misses req a = j # js" "n \<le> length js" using Suc.prems(7) by (cases "misses req a") auto
    note J = misses_next [OF mj(1)]
    have K: "key_ok (rq_core req, line_first req + j)" "cached s (rq_core req, line_first req + j) = None"
        "m_hash (rq_map req j) = key_hash s (rq_core req, line_first req + j)"
      using rr J(2,3) by (auto simp: req_ready_def)
    obtain req1 s2 rep2 where T: "give_line req a x src key s1 = Some (j + 1, req1, s2)" "took_req x j req req1" "given x j req s s2"
        "lines_ok s2 rep2"
      using take_spec [OF ok pk(1) dst J(1) [symmetric] J(2) refl K] by blast
    note R = took_reqD [OF T(2)]
    have xx: "x < collision_table_entries s" "marked Dirty s x = {}" "takeable req (partition_id (lru_meta s x)) s x"
      using pk(1) by (auto simp: picked_def)
    let ?full = "src \<noteq> rq_part req1 \<and> nat (curr_size (cparts s2 (rq_part req1)) mod 2 ^ 32) \<ge> mx"
    show ?thesis
    proof (cases ?full)
      case True
      have "assigned [(j, x)] req s req1 s2" by (rule assigned_Cons [OF T(2,3) xx assigned_Nil]) simp
      then show ?thesis using P(1) Some ff T(1,4) True mj R(2)
        by (intro exI [of _ "[(j, x)]"] exI [of _ req1] exI [of _ s2]) (auto simp: part_full_def)
    next
      case False
      have ms: "misses req1 (j + 1) = js" using misses_took [OF T(2), of "j + 1"] J(5) by simp
      have nb: "\<not> (j + 1 = rq_count req1 \<and> n \<noteq> 0)"
        using mj(2) J(5) by (auto simp: misses_def R(3))
      have mjs: "n \<le> length (misses req1 (j + 1))" using mj(2) ms by simp
      obtain ts req' s' rep' where L: "req_clines_loop cfg mx n (i + 1) (j + 1) x it req1 s2 = Some (i + 1 + length ts, req', s')" "length ts \<le> n"
          "assigned ts req1 s2 req' s'" "lines_ok s' rep'" "map fst ts = take (length ts) js"
          "length ts = n \<or> part_full s' (rq_part req1) mx \<or> exhausted req' p s' {}"
        using Suc.IH [OF T(4) req_ready_given [OF rr T(2,3)] it(1) pk(2) it(2) Suc.prems(6) mjs exhausted_given [OF ex T(2,3)],
            where i = "i + 1" and cline = x] unfolding ms by blast
      have "j \<notin> set js" using J(5) by (auto simp: misses_def)
      then have "j \<notin> fst ` set ts" using L(5) by (metis in_set_takeD list.set_map)
      then have A: "assigned ((j, x) # ts) req s req' s'" using assigned_Cons [OF T(2,3) xx L(3)] by blast
      have "req_clines_loop cfg mx (Suc n) i a cline iter req s = Some (i + length ((j, x) # ts), req', s')"
        using P(1) Some ff T(1) False nb L(1) by (auto simp: bug_on_def)
      moreover have "map fst ((j, x) # ts) = take (length ((j, x) # ts)) (misses req a)" using L(5) mj(1) by simp
      moreover have "length ((j, x) # ts) = Suc n \<or> part_full s' (rq_part req) mx \<or> exhausted req' p s' {}" using L(6) R(2) by simp
      moreover have "length ((j, x) # ts) \<le> Suc n" using L(2) by simp
      ultimately show ?thesis using A L(4) by blast
    qed
  qed
qed

lemma req_clines_spec:
  fixes req :: "'y sp_req_scheme"
  assumes ok: "lines_ok (cl u) rep" and rr: "req_ready req (cl u)" and p: "src \<le> PARTITION_FREE_DETACHED"
    and n: "no \<le> length (misses req 0)" "no \<le> ocf_engine_unmapped_count req"
  shows "\<exists>ts req' s' rep'. ocf_lru_req_clines req src no u = Some (length ts, req', u\<lparr>cl := s'\<rparr>) \<and> length ts \<le> no \<and>
    assigned ts req (cl u) req' s' \<and> lines_ok s' rep' \<and> map fst ts = take (length ts) (misses req 0) \<and>
    (length ts < no \<longrightarrow> part_full s' (rq_part req) (ocf_user_part_get_max_size u (rq_part req)) \<or> exhausted req' src s' {})"
proof (cases "no = 0")
  case True
  then show ?thesis using ok by (intro exI [of _ "[]"] exI [of _ req] exI [of _ "cl u"]) (auto simp: ocf_lru_req_clines_def assigned_Nil)
next
  case False
  let ?req = "req\<lparr>rq_lru_idx := inc32 (rq_lru_idx req)\<rparr>"
  let ?it = "lru_iter_init src (rq_lru_idx req mod OCF_NUM_LRU_LISTS)"
  let ?mx = "ocf_user_part_get_max_size u (rq_part req)"
  have q: "req_ready ?req (cl u)" "misses ?req 0 = misses req 0" using rr by (simp_all add: req_ready_def misses_def)
  have ex: "exhausted ?req src (cl u) (live ?it)" by (simp add: exhausted_def live_init)
  have ne: "live ?it \<noteq> {}" by (simp add: live_init lessThan_empty_iff)
  obtain ts req' s' rep' where L: "req_clines_loop (user_parts u) ?mx no 0 0 end_marker ?it ?req (cl u) = Some (0 + length ts, req', s')"
      "length ts \<le> no" "assigned ts ?req (cl u) req' s'" "lines_ok s' rep'" "map fst ts = take (length ts) (misses req 0)"
      "length ts = no \<or> part_full s' (rq_part req) ?mx \<or> exhausted req' src s' {}"
    using clines_loop_spec [where cfg = "user_parts u" and mx = ?mx and i = 0 and cline = end_marker, OF ok q(1) iter_init_ok(1) ne
        iter_init_ok(2) p n(1) [folded q(2)] ex] unfolding q(2) by auto
  have hb: "hb_of s ?req = hb_of s req" for s :: cl_state by (simp add: hb_of_def)
  have t: "takeable ?req p s x = takeable req p s x" for p x and s :: cl_state
    by (simp add: takeable_def grabbable_def in_request_def hash_free_def hb)
  have e: "rq_map ?req = rq_map req" "rq_part ?req = rq_part req" "rq_core ?req = rq_core req" "rq_count ?req = rq_count req"
    "line_first ?req = line_first req" "line_last ?req = line_last req" "rq_id ?req = rq_id req" "rinfo ?req = rinfo req" by simp_all
  have c: "carried ?req s r' s' = carried req s r' s'" for r' and s s' :: cl_state by (simp add: carried_def)
  have "assigned ts req (cl u) req' s'" using L(3) unfolding assigned_def t e c .
  moreover have "rq_part req \<noteq> PARTITION_FREELIST" using rr by (simp add: req_ready_def PARTITION_FREELIST_def)
  then have "ocf_lru_req_clines req src no u = Some (length ts, req', u\<lparr>cl := s'\<rparr>)"
    using False L(1) n(2) by (simp add: ocf_lru_req_clines_def Let_def)
  ultimately show ?thesis using L by blast
qed

lemma assigned_cached:
  fixes req :: "'y sp_req_scheme"
  assumes ok: "lines_ok s rep" "lines_ok s' rep'" and rr: "req_ready req s" and a: "assigned ts req s req' s'"
    and f: "fst ` set ts \<subseteq> {..<rq_count req}"
  shows "(j, x) \<in> set ts \<Longrightarrow> cached s' (rq_core req, line_first req + j) = Some x"
    "cached s k = Some y \<Longrightarrow> y \<notin> snd ` set ts \<Longrightarrow> cached s' k = Some y"
    "(j, x) \<in> set ts \<Longrightarrow> cached s k = Some x \<Longrightarrow> \<not> in_request req (fst k) (snd k)"
proof -
  have u: "unique_keys s" "unique_keys s'" using lines_okD(3) [OF ok(1)] lines_okD(3) [OF ok(2)] by (simp_all add: coll_inv_def)
  have N: "collision_table_entries s' = collision_table_entries s" using a by (simp add: assigned_def)
  show "cached s' (rq_core req, line_first req + j) = Some x" if "(j, x) \<in> set ts"
  proof -
    have "j < rq_count req" using f that by force
    then have "rq_core req < OCF_CORE_NUM" using rr by (auto simp: req_ready_def key_ok_def)
    moreover have "line_key s' x = (rq_core req, line_first req + j)" "x < collision_table_entries s"
      using a that unfolding assigned_def by blast+
    ultimately show ?thesis using N by (auto simp: cached_eq_Some [OF u(2)] mapped_def line_key_def)
  qed
  show "cached s' k = Some y" if "cached s k = Some y" "y \<notin> snd ` set ts"
  proof -
    have "line_key s' y = line_key s y" using a that(2) unfolding assigned_def by blast
    then show ?thesis using that(1) N by (auto simp: cached_eq_Some [OF u(1)] cached_eq_Some [OF u(2)] mapped_def line_key_def)
  qed
  show "\<not> in_request req (fst k) (snd k)" if "(j, x) \<in> set ts" "cached s k = Some x"
  proof -
    have m: "mapped s x" "line_key s x = k" using that(2) by (simp_all add: cached_eq_Some [OF u(1)])
    then have "partition_id (lru_meta s x) \<noteq> PARTITION_FREELIST" using lines_okD(9) [OF ok(1), of x] by (auto simp: line_ok_def mapped_def)
    moreover have "takeable req (partition_id (lru_meta s x)) s x" using a that(1) unfolding assigned_def by blast
    ultimately show ?thesis using m(2) by (simp add: takeable_def grabbable_def)
  qed
qed

text \<open>What the assignments say about the lines, the directory and the entries of the request.\<close>

lemma assigned_effect:
  fixes req :: "'y sp_req_scheme" and s :: "'z cl_state_scheme"
  assumes ok: "lines_ok s rep" "lines_ok s' rep'" and rr: "req_ready req s" and a: "assigned ts req s req' s'"
    and f: "map fst ts = take (length ts) (misses req 0)"
  shows "(j, x) \<in> set ts \<Longrightarrow> access_of (cl_locks s) x = 0 \<and> marked Dirty s x = {} \<and>
       (\<forall>k. cached s k = Some x \<longrightarrow> \<not> in_request req (fst k) (snd k)) \<and>
       coll_idx (rq_map req' j) = x \<and> m_status (rq_map req' j) = LOOKUP_REMAPPED \<and>
       cached s' (rq_core req, line_first req + j) = Some x \<and> marked Valid s' x = {} \<and>
       partition_id (lru_meta s' x) = rq_part req \<and> access_of (cl_locks s') x = OCF_CACHE_LINE_ACCESS_WR"
    "cached s k = Some x \<Longrightarrow> x \<notin> snd ` set ts \<Longrightarrow> cached s' k = Some x \<and> marked Valid s' x = marked Valid s x"
    "marked Dirty s' x = marked Dirty s x" "j \<notin> fst ` set ts \<Longrightarrow> rq_map req' j = rq_map req j"
    "distinct (map snd ts)" "same_locks s s'"
    "x \<notin> snd ` set ts \<Longrightarrow> access_of (cl_locks s') x = access_of (cl_locks s) x \<and>
       partition_id (lru_meta s' x) = partition_id (lru_meta s x) \<and> marked Valid s' x = marked Valid s x \<and> line_key s' x = line_key s x"
    "waiters_lsts (cl_locks s') = waiters_lsts (cl_locks s)"
    "alock_status (reqs (cl_locks s') (rq_id req)) = fst ` set ts \<union> alock_status (reqs (cl_locks s) (rq_id req))"
proof -
  have d: "distinct (map fst ts)" "distinct (map snd ts)" "same_locks s s'" using a by (simp_all add: assigned_def)
  show "waiters_lsts (cl_locks s') = waiters_lsts (cl_locks s)"
    "alock_status (reqs (cl_locks s') (rq_id req)) = fst ` set ts \<union> alock_status (reqs (cl_locks s) (rq_id req))"
    using a by (simp_all add: assigned_def)
  show "access_of (cl_locks s') x = access_of (cl_locks s) x \<and> partition_id (lru_meta s' x) = partition_id (lru_meta s x) \<and>
      marked Valid s' x = marked Valid s x \<and> line_key s' x = line_key s x" if "x \<notin> snd ` set ts"
    using a that unfolding assigned_def by presburger
  have "fst ` set ts = set (map fst ts)" by simp
  also have "\<dots> \<subseteq> set (misses req 0)" unfolding f by (rule set_take_subset)
  finally have f': "fst ` set ts \<subseteq> {..<rq_count req}" by (auto simp: misses_def)
  note C = assigned_cached [OF ok rr a f']
  have m: "rq_map req' j = (case map_of ts j of None \<Rightarrow> rq_map req j | Some x \<Rightarrow> (rq_map req j)\<lparr>coll_idx := x, m_status := LOOKUP_REMAPPED\<rparr>)" for j
    using a by (simp add: assigned_def)
  have y: "marked Dirty s' y = marked Dirty s y" "marked Valid s' y = (if y \<in> snd ` set ts then {} else marked Valid s y)"
      "partition_id (lru_meta s' y) = (if y \<in> snd ` set ts then rq_part req else partition_id (lru_meta s y))"
      "access_of (cl_locks s') y = (if y \<in> snd ` set ts then OCF_CACHE_LINE_ACCESS_WR else access_of (cl_locks s) y)" for y
    using a unfolding assigned_def by blast+
  show "marked Dirty s' x = marked Dirty s x" "distinct (map snd ts)" "same_locks s s'" by (fact y(1) d(2,3))+
  show "rq_map req' j = rq_map req j" if "j \<notin> fst ` set ts"
    using m [of j] that by (simp add: map_of_eq_None_iff [THEN iffD2])
  show "cached s' k = Some x \<and> marked Valid s' x = marked Valid s x" if "cached s k = Some x" "x \<notin> snd ` set ts"
    using C(2) [OF that] y(2) [of x] that(2) by simp
  assume jx: "(j, x) \<in> set ts"
  have i: "x \<in> snd ` set ts" using jx by force
  have "map_of ts j = Some x" using d(1) jx by simp
  moreover have "takeable req (partition_id (lru_meta s x)) s x" "marked Dirty s x = {}"
    using a jx unfolding assigned_def by blast+
  ultimately show "access_of (cl_locks s) x = 0 \<and> marked Dirty s x = {} \<and>
       (\<forall>k. cached s k = Some x \<longrightarrow> \<not> in_request req (fst k) (snd k)) \<and>
       coll_idx (rq_map req' j) = x \<and> m_status (rq_map req' j) = LOOKUP_REMAPPED \<and>
       cached s' (rq_core req, line_first req + j) = Some x \<and> marked Valid s' x = {} \<and>
       partition_id (lru_meta s' x) = rq_part req \<and> access_of (cl_locks s') x = OCF_CACHE_LINE_ACCESS_WR"
    using m [of j] y(2-4) [of x] i C(1,3) [OF jx] by (auto simp: takeable_def grabbable_def split: if_splits)
qed

text \<open>C10: A request that needs cache lines gets at most the number it asks for, for its first missing core lines in
  order. Each of them is a different line that nobody used and that had no dirty block, and is free or held a core line
  that is not of the request; it is now in the partition of the request, locked for writing by the request, holds the missing
  core line and has no valid block. Every other line keeps its access word, its partition, its valid blocks and its core
  line, every other cached core line stays in its line, no waiter is added or removed, the other entries of the request, the
  dirty blocks and the locks of the hash buckets are as before, and the lists, counters and hash chains stay consistent. The
  unused lines of the user partitions are taken to hold a core line with a valid block, and nobody waits for an unlocked line
  (\<open>lines_ok\<close>).\<close>

theorem eviction_safe:
  fixes req :: "'y sp_req_scheme"
  assumes "lines_ok (cl u) rep" "req_ready req (cl u)" "src \<le> PARTITION_FREE_DETACHED"
    and "no \<le> length (misses req 0)" "no \<le> ocf_engine_unmapped_count req"
  shows "\<exists>ts req' u' rep'. ocf_lru_req_clines req src no u = Some (length ts, req', u') \<and> length ts \<le> no \<and>
    map fst ts = take (length ts) (misses req 0) \<and> distinct (map snd ts) \<and> lines_ok (cl u') rep' \<and> same_locks (cl u) (cl u') \<and>
    (\<forall>(j, x)\<in>set ts. access_of (cl_locks (cl u)) x = 0 \<and> marked Dirty (cl u) x = {} \<and>
       (\<forall>k. cached (cl u) k = Some x \<longrightarrow> \<not> in_request req (fst k) (snd k)) \<and>
       coll_idx (rq_map req' j) = x \<and> m_status (rq_map req' j) = LOOKUP_REMAPPED \<and>
       cached (cl u') (rq_core req, line_first req + j) = Some x \<and> marked Valid (cl u') x = {} \<and>
       partition_id (lru_meta (cl u') x) = rq_part req \<and> access_of (cl_locks (cl u')) x = OCF_CACHE_LINE_ACCESS_WR) \<and>
    (\<forall>x. x \<notin> snd ` set ts \<longrightarrow> access_of (cl_locks (cl u')) x = access_of (cl_locks (cl u)) x \<and>
       partition_id (lru_meta (cl u') x) = partition_id (lru_meta (cl u) x) \<and> marked Valid (cl u') x = marked Valid (cl u) x \<and>
       line_key (cl u') x = line_key (cl u) x) \<and>
    (\<forall>k x. cached (cl u) k = Some x \<longrightarrow> x \<notin> snd ` set ts \<longrightarrow> cached (cl u') k = Some x) \<and>
    waiters_lsts (cl_locks (cl u')) = waiters_lsts (cl_locks (cl u)) \<and>
    alock_status (reqs (cl_locks (cl u')) (rq_id req)) = fst ` set ts \<union> alock_status (reqs (cl_locks (cl u)) (rq_id req)) \<and>
    (\<forall>x. marked Dirty (cl u') x = marked Dirty (cl u) x) \<and> (\<forall>j. j \<notin> fst ` set ts \<longrightarrow> rq_map req' j = rq_map req j)"
proof -
  obtain ts req' s' rep' where R: "ocf_lru_req_clines req src no u = Some (length ts, req', u\<lparr>cl := s'\<rparr>)" "length ts \<le> no"
    "assigned ts req (cl u) req' s'" "lines_ok s' rep'" "map fst ts = take (length ts) (misses req 0)"
    using req_clines_spec [OF assms] by blast
  note E = assigned_effect [OF assms(1) R(4) assms(2) R(3,5)]
  show ?thesis
    by (intro exI [of _ ts] exI [of _ req'] exI [of _ "u\<lparr>cl := s'\<rparr>"] exI [of _ rep'])
      (use R(1,2,4,5) E in auto)
qed

text \<open>C11: A request gets fewer cache lines than it asks for only when its partition has reached its size limit, or when
  afterwards no line of the partition that lines are taken from can be taken: every clean line of it is in use, holds a
  core line of the request or a core line whose hash bucket another request holds.\<close>

theorem eviction_complete:
  fixes req :: "'y sp_req_scheme"
  assumes "lines_ok (cl u) rep" "req_ready req (cl u)" "src \<le> PARTITION_FREE_DETACHED"
    and "no \<le> length (misses req 0)" "no \<le> ocf_engine_unmapped_count req"
  shows "\<exists>n req' u'. ocf_lru_req_clines req src no u = Some (n, req', u') \<and> (n < no \<longrightarrow>
     nat (curr_size (cparts (cl u') (rq_part req)) mod 2 ^ 32) \<ge> ocf_user_part_get_max_size u (rq_part req) \<or>
     (\<forall>x < collision_table_entries (cl u). partition_id (lru_meta (cl u') x) = src \<and> marked Dirty (cl u') x = {} \<longrightarrow>
        access_of (cl_locks (cl u')) x \<noteq> 0 \<or> src \<noteq> PARTITION_FREELIST \<and>
          (case line_key (cl u') x of k \<Rightarrow> in_request req (fst k) (snd k) \<or> \<not> hash_free req' k (cl u'))))"
proof -
  obtain ts req' s' where R: "ocf_lru_req_clines req src no u = Some (length ts, req', u\<lparr>cl := s'\<rparr>)"
    "assigned ts req (cl u) req' s'"
    "length ts < no \<longrightarrow> part_full s' (rq_part req) (ocf_user_part_get_max_size u (rq_part req)) \<or> exhausted req' src s' {}"
    using req_clines_spec [OF assms] by blast
  have q: "in_request req' = in_request req" "collision_table_entries s' = collision_table_entries (cl u)"
    using R(2) by (simp_all add: assigned_def in_request_def fun_eq_iff)
  have "\<forall>x < collision_table_entries (cl u). partition_id (lru_meta s' x) = src \<and> marked Dirty s' x = {} \<longrightarrow>
        access_of (cl_locks s') x \<noteq> 0 \<or> src \<noteq> PARTITION_FREELIST \<and>
          (case line_key s' x of k \<Rightarrow> in_request req (fst k) (snd k) \<or> \<not> hash_free req' k s')" if "exhausted req' src s' {}"
    using that q by (auto simp: exhausted_def takeable_def grabbable_def split: if_splits)
  then have "length ts < no \<longrightarrow> nat (curr_size (cparts s' (rq_part req)) mod 2 ^ 32) \<ge> ocf_user_part_get_max_size u (rq_part req) \<or>
     (\<forall>x < collision_table_entries (cl u). partition_id (lru_meta s' x) = src \<and> marked Dirty s' x = {} \<longrightarrow>
        access_of (cl_locks s') x \<noteq> 0 \<or> src \<noteq> PARTITION_FREELIST \<and>
          (case line_key s' x of k \<Rightarrow> in_request req (fst k) (snd k) \<or> \<not> hash_free req' k s'))"
    using R(3) unfolding part_full_def by blast
  then show ?thesis using R(1)
    by (intro exI [of _ "length ts"] exI [of _ req'] exI [of _ "u\<lparr>cl := s'\<rparr>"] conjI) simp_all
qed

text \<open>C12: The search for a line to evict ends, and it finds the least recently used clean line that can be taken of one of
  the 32 lists of the partition; it finds none only when no list has such a line. The line moves to the partition of
  the request, where it is at the head of its list, and is locked.\<close>

theorem eviction_next_lru:
  assumes "lines_ok s rep" "p < OCF_USER_IO_CLASS_MAX" "dst < OCF_USER_IO_CLASS_MAX"
  shows "\<exists>found it s'. lru_iter_eviction_next req dst (OCF_NUM_LRU_LISTS + 1) (lru_iter_init p start) s = Some (found, it, s') \<and>
    (case found of
       None \<Rightarrow> s' = s \<and> (\<forall>i < OCF_NUM_LRU_LISTS. \<forall>x\<in>set (rep (p, i, True)). \<not> grabbable req s x)
     | Some (x, key) \<Rightarrow> key = line_key s x \<and> (\<exists>i < OCF_NUM_LRU_LISTS. find (grabbable req s) (rev (rep (p, i, True))) = Some x) \<and>
         partition_id (lru_meta s' x) = dst \<and> access_of (cl_locks s') x = OCF_CACHE_LINE_ACCESS_WR)"
proof -
  note D = lines_okD [OF assms(1)]
  let ?it = "lru_iter_init p start"
  have b: "it_part ?it \<le> PARTITION_FREE_DETACHED" "dst \<le> PARTITION_FREE_DETACHED" "0 < num_avail_lrus ?it"
      "num_avail_lrus ?it \<le> OCF_NUM_LRU_LISTS + 1"
    using assms(2,3) by (simp_all add: iter_init_ok PARTITION_FREE_DETACHED_def)
  obtain x it s' where R: "lru_iter_eviction_next req dst (OCF_NUM_LRU_LISTS + 1) ?it s = Some (map_option (\<lambda>x. (x, line_key s x)) x, it, s')"
      "searched (grabbable req s) (it_part ?it) rep ?it x it"
      "case x of None \<Rightarrow> s' = s | Some x \<Rightarrow> placed_in x dst (grabbed req x s) rep s'"
    using eviction_next_spec [OF D(1,5,4) b(1,2) iter_init_ok(1) b(3,4)] by blast
  show ?thesis
  proof (cases x)
    case None
    have "\<forall>i < OCF_NUM_LRU_LISTS. \<forall>x\<in>set (rep (p, i, True)). \<not> grabbable req s x"
      using R(2) None by (auto simp: searched_def live_init iter_init_ok)
    then show ?thesis using R(1,3) None by (intro exI [of _ None] exI [of _ it] exI [of _ s]) simp
  next
    case (Some y)
    have "\<exists>i < OCF_NUM_LRU_LISTS. find (grabbable req s) (rev (rep (p, i, True))) = Some y"
      using R(2) Some by (auto simp: searched_def live_init iter_init_ok)
    moreover have "partition_id (lru_meta s' y) = dst" "access_of (cl_locks s') y = OCF_CACHE_LINE_ACCESS_WR"
      using R(3) Some by (auto simp: placed_in_def reparted_def grabbed_def locked_def set_access_def)
    ultimately show ?thesis using R(1) Some by (intro exI [of _ "Some (y, line_key s y)"] exI [of _ it] exI [of _ s']) simp
  qed
qed

subsection \<open>A request for one line\<close>

text \<open>In the cache of 20000 lines whose line 0 holds core line 5, a request misses core line 7; nothing is locked.\<close>

definition demo_sp_req :: sp_req where
  "demo_sp_req = eng_req.extend (cl_req.extend (demo_cl_req\<lparr>rq_map := \<lambda>_. \<lparr>m_hash = 0, coll_idx = 20000, m_core_line = 7, m_core_id = 0,
       m_status = LOOKUP_MISS, m_invalid = False, re_part = False, m_flush = False, start_flush = 0, stop_flush = 0\<rparr>\<rparr>)
     (eng_req.fields 7 7 clear_info)) (sp_req.fields 1 False 0)"

lemma demo_sp_req_simps [simp]:
  "rq_core demo_sp_req = 0" "rq_part demo_sp_req = 3" "rq_count demo_sp_req = 1" "line_first demo_sp_req = 7" "line_last demo_sp_req = 7"
  "m_hash (rq_map demo_sp_req i) = 0" "m_status (rq_map demo_sp_req i) = LOOKUP_MISS" "rinfo demo_sp_req = clear_info"
  by (simp_all add: demo_sp_req_def demo_cl_req_def cl_req.defs eng_req.defs sp_req.defs)

definition demo_evict :: "cl_state \<Rightarrow> cl_state" where
  "demo_evict s = (demo_put s)\<lparr>cl_locks := demo_alock\<lparr>num_entries := 20000\<rparr>\<rparr>"

lemma relock_fields:
  "cl_inv (s\<lparr>cl_locks := al\<rparr>) rep = cl_inv s rep" "coll_inv (s\<lparr>cl_locks := al\<rparr>) = coll_inv s" "homed (s\<lparr>cl_locks := al\<rparr>) rep = homed s rep"
  "mapped (s\<lparr>cl_locks := al\<rparr>) = mapped s" "marked w (s\<lparr>cl_locks := al\<rparr>) = marked w s" "line_key (s\<lparr>cl_locks := al\<rparr>) = line_key s"
  "hash_table (s\<lparr>cl_locks := al\<rparr>) = hash_table s" "key_hash (s\<lparr>cl_locks := al\<rparr>) = key_hash s" "cached (s\<lparr>cl_locks := al\<rparr>) = cached s"
proof -
  have k: "line_kept 0 s (s\<lparr>cl_locks := al\<rparr>)" and m: "same_map s (s\<lparr>cl_locks := al\<rparr>)"
    by (simp_all add: same_map_def line_key_def fun_eq_iff)
  show "marked w (s\<lparr>cl_locks := al\<rparr>) = marked w s" for w by (simp add: marked_def fun_eq_iff)
  then have "tally w (s\<lparr>cl_locks := al\<rparr>) = tally w s" for w by (simp add: tally_def fun_eq_iff)
  then show "cl_inv (s\<lparr>cl_locks := al\<rparr>) rep = cl_inv s rep" using line_keptD(1) [OF k] by (simp add: cl_inv_def counters_ok_def)
qed (use same_mapD [of s "s\<lparr>cl_locks := al\<rparr>"] line_keptD(2) [of 0 s "s\<lparr>cl_locks := al\<rparr>"] in
  \<open>simp_all add: same_map_def line_key_def fun_eq_iff\<close>)

lemma demo_lines:
  "\<exists>s rep. lines_ok (demo_evict s) rep \<and> req_ready demo_sp_req (demo_evict s) \<and> grabbable demo_sp_req (demo_evict s) 0 \<and>
     partition_id (lru_meta (demo_evict s) 0) = 0 \<and> (\<forall>x < 20000. partition_id (lru_meta (demo_evict s) x) = 0 \<longrightarrow> x = 0) \<and>
     collision_table_entries (demo_evict s) = 20000 \<and> cached (demo_evict s) (0, 5) = Some 0 \<and> marked Dirty (demo_evict s) 0 = {}"
proof -
  obtain s :: cl_state and rep where s: "cl_inv (demo_put s) rep" "collision_table_entries s = 20000"
      "\<And>x. x < 20000 \<Longrightarrow> homed (demo_put s) rep x"
      "\<And>x. x < 20000 \<Longrightarrow> partition_id (lru_meta s x) = (if x = 0 then 0 else PARTITION_FREELIST)"
    using demo_full by blast
  note E = demo_evict_def relock_fields
  note D = demo_put_dir [OF s(2)]
  have m: "mapped (demo_put s) x \<longleftrightarrow> x = 0" for x using s(2) by (auto simp: mapped_def demo_collision_def split: if_splits)
  have u: "unique_keys (demo_put s)" and g: "geometry_ok (demo_put s)" using D(1) by (simp_all add: coll_inv_def)
  have k0: "line_key (demo_put s) 0 = (0, 5)" by (simp add: line_key_def demo_collision_def)
  have h: "key_hash (demo_put s) k = 0" for k using hash_func_less [OF g, of k] by (simp add: demo_put_def)
  have c: "cached (demo_put s) (0, 7) = None" "cached (demo_put s) (0, 5) = Some 0"
    using k0 m by (auto simp: cached_eq_None cached_eq_Some [OF u])
  have fl: "PARTITION_FREELIST \<noteq> 0" by (simp add: PARTITION_FREELIST_def)
  have q: "locks_quiet (demo_evict s)"
    by (simp add: locks_quiet_def E s(2) demo_alock_def ocf_alock_waitlist_is_empty_locked_def Let_def)
  have "line_ok (demo_evict s) x" if "x < 20000" for x
    using s(4) [OF that] m [of x] fl by (auto simp: line_ok_def E demo_marks PARTITION_FREELIST_def)
  then have "lines_ok (demo_evict s) rep" using s(1-3) D(1) q by (simp add: lines_ok_def E)
  moreover have "req_ready demo_sp_req (demo_evict s)" using c(1) h by (simp add: req_ready_def E key_ok_def)
  moreover have "grabbable demo_sp_req (demo_evict s) 0"
    by (simp add: grabbable_def E k0 in_request_def hash_free_def h) (simp add: demo_alock_def demo_put_def)
  ultimately show ?thesis using s(2,4) c(2) fl
    by (intro exI [of _ s] exI [of _ rep]) (auto simp: E demo_marks split: if_splits)
qed

definition demo_user :: "cl_state \<Rightarrow> user_cache" where
  "demo_user s = demo_parts\<lparr>cl := demo_evict s\<rparr>"

lemma demo_need: "1 \<le> length (misses demo_sp_req 0)" "1 \<le> ocf_engine_unmapped_count demo_sp_req" "0 \<le> PARTITION_FREE_DETACHED"
  by (simp_all add: misses_def ocf_engine_unmapped_count_def clear_info_def)

theorem eviction_safe_witness:
  "\<exists>s n req' u'. ocf_lru_req_clines demo_sp_req 0 1 (demo_user s) = Some (n, req', u') \<and> n \<le> 1 \<and> cached (demo_evict s) (0, 5) = Some 0 \<and>
     (n = 1 \<longrightarrow> cached (cl u') (0, 7) \<noteq> None)"
proof -
  obtain s rep where s: "lines_ok (demo_evict s) rep" "req_ready demo_sp_req (demo_evict s)" "cached (demo_evict s) (0, 5) = Some 0"
    using demo_lines by blast
  have u: "cl (demo_user s) = demo_evict s" by (simp add: demo_user_def)
  have ms: "misses demo_sp_req 0 = [0]" by (simp add: misses_def)
  obtain ts req' u' where T: "ocf_lru_req_clines demo_sp_req 0 1 (demo_user s) = Some (length ts, req', u')" "length ts \<le> 1"
      "map fst ts = take (length ts) [0]" "\<forall>(j, x)\<in>set ts. cached (cl u') (0, 7 + j) = Some x"
    using eviction_safe [where u = "demo_user s" and req = demo_sp_req, unfolded u, OF s(1,2) demo_need(3,1,2)] unfolding ms by fastforce
  have "cached (cl u') (0, 7) \<noteq> None" if "length ts = 1"
    using that T(3,4) by (cases ts) auto
  then show ?thesis using T s(3) by blast
qed

theorem eviction_complete_witness:
  "\<exists>s n req' u'. ocf_lru_req_clines demo_sp_req PARTITION_FREELIST 1 (demo_user s) = Some (n, req', u') \<and> (n < 1 \<longrightarrow>
     nat (curr_size (cparts (cl u') 3) mod 2 ^ 32) \<ge> ocf_user_part_get_max_size (demo_user s) 3 \<or>
     (\<forall>x < 20000. partition_id (lru_meta (cl u') x) = PARTITION_FREELIST \<and> marked Dirty (cl u') x = {} \<longrightarrow> access_of (cl_locks (cl u')) x \<noteq> 0))"
proof -
  obtain s rep where s: "lines_ok (demo_evict s) rep" "req_ready demo_sp_req (demo_evict s)" "collision_table_entries (demo_evict s) = 20000"
    using demo_lines by blast
  have u: "cl (demo_user s) = demo_evict s" by (simp add: demo_user_def)
  have p: "PARTITION_FREELIST \<le> PARTITION_FREE_DETACHED" by (simp add: PARTITION_FREELIST_def PARTITION_FREE_DETACHED_def)
  obtain n req' u' where R: "ocf_lru_req_clines demo_sp_req PARTITION_FREELIST 1 (demo_user s) = Some (n, req', u')"
      "n < 1 \<longrightarrow> nat (curr_size (cparts (cl u') 3) mod 2 ^ 32) \<ge> ocf_user_part_get_max_size (demo_user s) 3 \<or>
     (\<forall>x < 20000. partition_id (lru_meta (cl u') x) = PARTITION_FREELIST \<and> marked Dirty (cl u') x = {} \<longrightarrow>
        access_of (cl_locks (cl u')) x \<noteq> 0 \<or> PARTITION_FREELIST \<noteq> PARTITION_FREELIST \<and>
          (case line_key (cl u') x of k \<Rightarrow> in_request demo_sp_req (fst k) (snd k) \<or> \<not> hash_free req' k (cl u')))"
    using eviction_complete [where u = "demo_user s" and req = demo_sp_req, unfolded u, OF s(1,2) p demo_need(1,2)]
    unfolding s(3) demo_sp_req_simps by blast
  then show ?thesis unfolding simp_thms by blast
qed

theorem eviction_next_lru_witness:
  "\<exists>s key it s'. lru_iter_eviction_next demo_sp_req 3 33 (lru_iter_init 0 5) (demo_evict s) = Some (Some (0, key), it, s') \<and>
     partition_id (lru_meta (demo_evict s) 0) = 0 \<and> partition_id (lru_meta s' 0) = 3"
proof -
  obtain s rep where s: "lines_ok (demo_evict s) rep" "grabbable demo_sp_req (demo_evict s) 0" "partition_id (lru_meta (demo_evict s) 0) = 0"
      "\<And>x. x < 20000 \<Longrightarrow> partition_id (lru_meta (demo_evict s) x) = 0 \<Longrightarrow> x = 0" "collision_table_entries (demo_evict s) = 20000"
      "marked Dirty (demo_evict s) 0 = {}"
    using demo_lines by blast
  let ?s = "demo_evict s"
  have b: "0 < OCF_USER_IO_CLASS_MAX" "3 < OCF_USER_IO_CLASS_MAX" by simp_all
  obtain found it s' where R: "lru_iter_eviction_next demo_sp_req 3 33 (lru_iter_init 0 5) ?s = Some (found, it, s')"
    "case found of None \<Rightarrow> s' = ?s \<and> (\<forall>i < 32. \<forall>x\<in>set (rep (0, i, True)). \<not> grabbable demo_sp_req ?s x)
     | Some (x, key) \<Rightarrow> key = line_key ?s x \<and> (\<exists>i < 32. find (grabbable demo_sp_req ?s) (rev (rep (0, i, True))) = Some x) \<and>
         partition_id (lru_meta s' x) = 3 \<and> access_of (cl_locks s') x = OCF_CACHE_LINE_ACCESS_WR"
    using eviction_next_lru [OF s(1) b, of demo_sp_req 5] by auto
  have "homed ?s rep 0" using lines_okD(8) [OF s(1)] s(5) by simp
  moreover have "home ?s 0 = (0, 0, True)"
    using s(3,6) by (simp add: home_def list_kind_def OCF_LRU_GET_LIST_INDEX_def)
  ultimately have "0 \<in> set (rep (0, 0, True))" by (simp add: homed_def)
  moreover have "\<forall>x\<in>set (rep (0, 0, True)). \<not> grabbable demo_sp_req ?s x" if "found = None"
    using R(2) that by (auto dest: spec [of _ 0])
  ultimately obtain x key where f: "found = Some (x, key)" using s(2) by (cases found) auto
  then obtain i where i: "i < 32" "find (grabbable demo_sp_req ?s) (rev (rep (0, i, True))) = Some x" "partition_id (lru_meta s' x) = 3"
    using R(2) by auto
  have sl: "(0, i, True) \<in> slots" using i(1) by (simp add: slots_simps)
  note I = cache_invD(5,6) [OF lines_okD(1) [OF s(1)] sl found_on_list(1) [where rep = rep, OF i(2)]]
  have "x = 0" using s(4) [of x] I s(5) by (simp add: home_def)
  then show ?thesis using R(1) f i(3) s(3) by blast
qed

end
