(* ===== verification/Space.thy ===== *)
theory Space
  imports Remap
begin

section \<open>Space management (ocf_space.c)\<close>

text \<open>
  When a request misses core lines, cache lines are taken from the free list, then from partitions that exceed their
  maximal size, then from the partitions in the order of their eviction list, within quotas that the eviction counters
  hold. \<open>rc\<close> is the operation \<open>req_clines\<close> of the eviction policy (\<open>struct eviction_policy_ops\<close>): the lemmas about the
  decisions rest on its interface \<open>line_source\<close>, and the LRU policy implements it. Counters are of type \<open>int32_t\<close>.
\<close>

type_synonym 'y req_clines = "'y sp_req_scheme \<Rightarrow> nat \<Rightarrow> nat \<Rightarrow> user_cache \<Rightarrow> (nat \<times> 'y sp_req_scheme \<times> user_cache) option"

abbreviation (input) EVICT_RETRY :: nat where "EVICT_RETRY \<equiv> 2"
abbreviation (input) MIN_EVICT_QUOTA :: nat where "MIN_EVICT_QUOTA \<equiv> 256"

definition s32 :: "int \<Rightarrow> int" where
  "s32 i = (i + 2 ^ 31) mod 2 ^ 32 - 2 ^ 31"

text \<open>The dispatch on the policy of the cache; the operation of the LFU policy is an argument.\<close>

definition ocf_eviction_req_clines :: "'y req_clines \<Rightarrow> 'y req_clines" where
  "ocf_eviction_req_clines ocf_lfu_req_clines req src_part cline_no u =
     (case eviction_policy (cl u) of ocf_eviction_lru \<Rightarrow> ocf_lru_req_clines req src_part cline_no u
      | ocf_eviction_lfu \<Rightarrow> ocf_lfu_req_clines req src_part cline_no u)"

definition ocf_eviction_num_free :: "user_cache \<Rightarrow> nat" where
  "ocf_eviction_num_free u = nat (curr_size (cparts (cl u) PARTITION_FREELIST) mod 2 ^ 32)"

definition evict_counter_of :: "user_cache \<Rightarrow> nat \<Rightarrow> int" where
  "evict_counter_of u p = evict_counter (cparts (cl u) p)"

definition add_evict_counter :: "nat \<Rightarrow> int \<Rightarrow> user_cache \<Rightarrow> user_cache" where
  "add_evict_counter p d u = u\<lparr>cl := upd_part p (\<lambda>P. P\<lparr>evict_counter := s32 (evict_counter P + d)\<rparr>) (cl u)\<rparr>"

definition ocf_evict_counters_inc :: "user_cache \<Rightarrow> nat \<Rightarrow> int \<Rightarrow> int \<times> user_cache" where
  "ocf_evict_counters_inc u part_id delta =
     (let u = add_evict_counter part_id (s32 delta) u in (evict_counter_of u part_id, u))"

text \<open>
  The counters of the partitions are raised in proportion to their sizes. \<open>prio\<close> is a \<open>uint16_t\<close>, compared with the
  \<open>int16_t\<close> of the configuration; the first loop collects the sizes, the second adds the quotas.
\<close>

definition update_sizes :: "nat \<Rightarrow> user_cache \<Rightarrow> (nat \<times> nat list) option" where
  "update_sizes prio u = do {
     (_, _, least, sizes) \<leftarrow> for_each_lst (lst_invalid u + 1) (\<lambda>part_id u (least, sizes).
        if int prio > priority (user_parts u part_id) then Some (True, u, least, sizes)
        else do {
          bug_on (length sizes \<ge> OCF_USER_IO_CLASS_MAX);
          let part_size = ocf_part_get_occupancy u part_id;
          Some (False, u, if part_size = 0 then least else min least part_size, sizes @ [part_size]) })
        (ocf_lst_head u) u (collision_table_entries (cl u), []);
     Some (least, sizes) }"

definition ocf_evict_counters_update :: "user_cache \<Rightarrow> nat \<Rightarrow> user_cache option" where
  "ocf_evict_counters_update u prio = do {
     (least_part_size, part_sizes) \<leftarrow> update_sizes prio u;
     let least_part_size = max least_part_size MIN_EVICT_QUOTA;
     (_, u, _) \<leftarrow> for_each_lst (lst_invalid u + 1) (\<lambda>part_id u i.
        if int prio > priority (user_parts u part_id) then Some (True, u, i)
        else do {
          bug_on (i \<ge> length part_sizes);
          let part_size = part_sizes ! i;
          Some (False, if part_size = 0 then u
                       else add_evict_counter part_id (s32 (int (part_size * MIN_EVICT_QUOTA mod 2 ^ 64 div least_part_size))) u, i + 1) })
        (ocf_lst_head u) u 0;
     Some u }"

definition ocf_evict_calculate :: "user_cache \<Rightarrow> nat \<Rightarrow> nat \<Rightarrow> nat" where
  "ocf_evict_calculate u part to_evict =
     (let curr_part_size = ocf_part_get_occupancy u part; min_part_size = ocf_user_part_get_min_size u part in
      if curr_part_size \<le> min_part_size then 0 else min to_evict (curr_part_size - min_part_size))"

definition ocf_evict_part_do ::
    "'y req_clines \<Rightarrow> 'y sp_req_scheme \<Rightarrow> nat \<Rightarrow> user_cache \<Rightarrow> (nat \<times> 'y sp_req_scheme \<times> user_cache) option" where
  "ocf_evict_part_do rc req part u =
     (let unmapped = ocf_engine_unmapped_count req; to_evict = ocf_evict_calculate u part unmapped in
      if to_evict < unmapped then Some (0, req, u) else rc req part to_evict u)"

text \<open>One partition of the loop; the local variables are \<open>req\<close>, \<open>evicted\<close>, \<open>counter\<close> and \<open>no_more_counters\<close>.\<close>

definition evict_one ::
    "'y req_clines \<Rightarrow> nat \<Rightarrow> bool \<Rightarrow> int \<Rightarrow> nat \<Rightarrow> user_cache \<Rightarrow> 'y sp_req_scheme \<times> nat \<times> int \<times> bool \<Rightarrow>
     (bool \<times> user_cache \<times> 'y sp_req_scheme \<times> nat \<times> int \<times> bool) option" where
  "evict_one rc evict_cline_no overflown_only max_priority part_id u a = (case a of (req, evicted, counter, no_more) \<Rightarrow>
     if max_priority > priority (user_parts u part_id) then Some (True, u, a)
     else if \<not> overflown_only \<and> \<not> f_eviction (user_parts u part_id) then Some (True, u, a)
     else let overflow_size = ocf_user_part_overflow_size u part_id in
     if overflown_only \<and> overflow_size = 0 then Some (False, u, a)
     else let to_evict = ocf_evict_calculate u part_id (evict_cline_no - evicted) in
     if to_evict = 0 then Some (False, u, a)
     else do {
       let to_evict = (if overflown_only then min to_evict overflow_size else to_evict);
       let (counter, u) = (if overflown_only then (counter, u) else ocf_evict_counters_inc u part_id (- s32 (int to_evict)));
       (req, evicted, counter, u) \<leftarrow>
         (if \<not> overflown_only \<and> counter \<le> - s32 (int to_evict)
          then Some (req, evicted, s32 (counter + int to_evict), snd (ocf_evict_counters_inc u part_id (int to_evict)))
          else do {
            (evicted_now, req, u) \<leftarrow> rc req part_id to_evict u;
            let evicted = evicted + evicted_now;
            Some (if \<not> overflown_only \<and> evicted_now < to_evict
                  then (req, evicted, s32 (counter + int (to_evict - evicted_now)),
                        snd (ocf_evict_counters_inc u part_id (int (to_evict - evicted_now))))
                  else (req, evicted, counter, u)) });
       let no_more = (if counter > 0 then False else no_more);
       Some (evicted \<ge> evict_cline_no, u, req, evicted, counter, no_more) })"

definition ocf_evict_user_partitions_once ::
    "'y req_clines \<Rightarrow> 'y sp_req_scheme \<Rightarrow> nat \<Rightarrow> bool \<Rightarrow> int \<Rightarrow> user_cache \<Rightarrow> (nat \<times> bool \<times> 'y sp_req_scheme \<times> user_cache) option" where
  "ocf_evict_user_partitions_once rc req evict_cline_no overflown_only max_priority u = do {
     (_, u, req, evicted, _, no_more_counters) \<leftarrow> for_each_lst (lst_invalid u + 1)
        (evict_one rc evict_cline_no overflown_only max_priority) (ocf_lst_head u) u (req, 0, 0, True);
     Some (evicted, no_more_counters, req, u) }"

fun evict_tries ::
    "'y req_clines \<Rightarrow> nat \<Rightarrow> nat \<Rightarrow> bool \<Rightarrow> int \<Rightarrow> nat \<Rightarrow> 'y sp_req_scheme \<Rightarrow> user_cache \<Rightarrow> (nat \<times> 'y sp_req_scheme \<times> user_cache) option" where
  "evict_tries rc 0 evict_cline_no overflown_only max_priority evicted req u = Some (evicted, req, u)"
| "evict_tries rc (Suc n) evict_cline_no overflown_only max_priority evicted req u = do {
     (now, no_more_counters, req, u) \<leftarrow>
        ocf_evict_user_partitions_once rc req (evict_cline_no - evicted) overflown_only max_priority u;
     let evicted = evicted + now;
     if evicted \<ge> evict_cline_no then Some (evicted, req, u)
     else if overflown_only then Some (evicted, req, u)
     else do {
       u \<leftarrow> (if no_more_counters then ocf_evict_counters_update u (nat (max_priority mod 2 ^ 16)) else Some u);
       evict_tries rc n evict_cline_no overflown_only max_priority evicted req u } }"

definition ocf_evict_user_partitions ::
    "'y req_clines \<Rightarrow> 'y sp_req_scheme \<Rightarrow> nat \<Rightarrow> bool \<Rightarrow> int \<Rightarrow> user_cache \<Rightarrow> (nat \<times> 'y sp_req_scheme \<times> user_cache) option" where
  "ocf_evict_user_partitions rc req evict_cline_no overflown_only max_priority u =
     evict_tries rc EVICT_RETRY evict_cline_no overflown_only max_priority 0 req u"

definition ocf_remap_do :: "'y req_clines \<Rightarrow> 'y sp_req_scheme \<Rightarrow> user_cache \<Rightarrow> (nat \<times> 'y sp_req_scheme \<times> user_cache) option" where
  "ocf_remap_do rc req u = do {
     let remap_cline_no = ocf_engine_unmapped_count req;
     let target_part = rq_part req;
     (remapped, req, u) \<leftarrow>
       (if ocf_eviction_num_free u > 0 then rc req PARTITION_FREELIST remap_cline_no u else Some (0, req, u));
     if remapped \<ge> remap_cline_no then Some (remapped, req, u)
     else do {
       (n, req, u) \<leftarrow> ocf_evict_user_partitions rc req (remap_cline_no - remapped) True OCF_IO_CLASS_PRIO_PINNED u;
       let remapped = remapped + n;
       if remapped \<ge> remap_cline_no then Some (remapped, req, u)
       else do {
         (n, req, u) \<leftarrow> ocf_evict_user_partitions rc req (remap_cline_no - remapped) False
           (priority (user_parts u target_part)) u;
         Some (remapped + n, req, u) } } }"

definition ocf_space_managment_remap_do ::
    "'y req_clines \<Rightarrow> 'y sp_req_scheme \<Rightarrow> user_cache \<Rightarrow> (lookup_status \<times> 'y sp_req_scheme \<times> user_cache) option" where
  "ocf_space_managment_remap_do rc req u = do {
     let needed = ocf_engine_unmapped_count req;
     (remapped, req, u) \<leftarrow> (if part_evict req then ocf_evict_part_do rc req (rq_part req) u else ocf_remap_do rc req u);
     Some (if needed \<le> remapped then LOOKUP_REMAPPED else LOOKUP_MISS, req, u) }"

text \<open>\<open>ocf_user_part_has_space\<close> of utils_user_part.h.\<close>

definition ocf_user_part_has_space :: "'y sp_req_scheme \<Rightarrow> user_cache \<Rightarrow> bool" where
  "ocf_user_part_has_space req u \<longleftrightarrow>
     ocf_part_get_occupancy u (rq_part req) + (ocf_engine_repart_count req + ocf_engine_unmapped_count req) mod 2 ^ 32 \<le>
       ocf_user_part_get_max_size u (rq_part req)"

subsection \<open>Loops over the list of partitions\<close>

lemma same_lst_refl [simp]: "same_lst s s"
  by (simp add: same_lst_def)

lemma same_lst_cl [simp]: "same_lst s (u\<lparr>cl := t\<rparr>) = same_lst s u"
  by (simp add: same_lst_def)

text \<open>A loop whose body keeps the list ends. \<open>I vs\<close> holds after the partitions \<open>vs\<close>, \<open>R\<close> at the end.\<close>

lemma for_each_inv:
  assumes "lst_links s (ps @ qs)" "length qs < n" "same_lst s t" "I ps t a"
    and step: "\<And>vs i ws t a. ps @ qs = vs @ i # ws \<Longrightarrow> same_lst s t \<Longrightarrow> I vs t a \<Longrightarrow>
      \<exists>brk t' a'. body i t a = Some (brk, t', a') \<and> same_lst s t' \<and> (if brk then R t' a' else I (vs @ [i]) t' a')"
    and fin: "\<And>t a. same_lst s t \<Longrightarrow> I (ps @ qs) t a \<Longrightarrow> R t a"
  shows "\<exists>idx t' a'. for_each_lst n body (first (lst_invalid s) qs) t a = Some (idx, t', a') \<and> same_lst s t' \<and> R t' a'"
  using assms
proof (induction qs arbitrary: ps n t a)
  case Nil
  then obtain m where "n = Suc m" by (cases n) auto
  moreover have "lst_getter t (lst_invalid s) \<noteq> None" "lst_invalid t = lst_invalid s"
    using lst_linksD(6) [OF Nil(1)] Nil.prems(3) by (auto simp: same_lst_def lst_getter_def)
  ultimately show ?case using Nil by auto
next
  case (Cons q qs)
  then obtain m where n: "n = Suc m" "length qs < m" by (cases n) auto
  have "q < lst_invalid s" using Cons.prems(1) by (auto simp: lst_links_def)
  then have q: "q \<noteq> lst_invalid t" "lst_getter t q \<noteq> None"
    using lst_linksD(6) [OF Cons.prems(1), of q] Cons.prems(3) by (auto simp: same_lst_def lst_getter_def)
  obtain brk t1 a1 where b: "body q t a = Some (brk, t1, a1)" "same_lst s t1" "if brk then R t1 a1 else I (ps @ [q]) t1 a1"
    using Cons.prems(5) [OF refl Cons.prems(3,4)] by auto
  show ?case
  proof (cases brk)
    case True
    then show ?thesis using n q b by auto
  next
    case False
    have "lnxt t1 q = first (lst_invalid s) qs"
      using lst_linksD(7) [of s "ps @ [q]" qs] Cons.prems(1) b(2) by (auto simp: same_lst_def)
    moreover have "\<exists>idx t' a'. for_each_lst m body (first (lst_invalid s) qs) t1 a1 = Some (idx, t', a') \<and> same_lst s t' \<and> R t' a'"
      by (rule Cons.IH [of "ps @ [q]"]) (use Cons.prems n b False in auto)
    ultimately show ?thesis using n q b(1) False by auto
  qed
qed

declare for_each_lst.simps [simp del]

definition parts_list :: "'z user_cache_scheme \<Rightarrow> nat list \<Rightarrow> bool" where
  "parts_list u xs \<longleftrightarrow> lst_links u xs \<and> lst_invalid u = OCF_USER_IO_CLASS_MAX"

lemma parts_listD:
  assumes "parts_list u xs"
  shows "lst_links u xs" "lst_invalid u = OCF_USER_IO_CLASS_MAX" "length xs \<le> OCF_USER_IO_CLASS_MAX" "distinct xs"
    "\<And>p. p \<in> set xs \<Longrightarrow> p < OCF_USER_IO_CLASS_MAX" "ocf_lst_head u = first (lst_invalid u) xs"
  using assms links_length [of u xs] by (auto simp: parts_list_def lst_links_def ocf_lst_head_def)

lemma parts_list_same: "same_lst u u' \<Longrightarrow> parts_list u' xs = parts_list u xs"
  using same_lst_links by (auto simp: parts_list_def same_lst_def)

lemma parts_list_ok:
  assumes "parts_ok u"
  obtains xs where "parts_list u xs" "set xs = {..<OCF_USER_IO_CLASS_MAX}"
  using assms by (auto simp: parts_ok_def parts_list_def elim!: parts_onD)

lemma for_each_user_part:
  assumes "parts_list u xs" "I [] u a"
    and "\<And>vs i ws t a. xs = vs @ i # ws \<Longrightarrow> same_lst u t \<Longrightarrow> I vs t a \<Longrightarrow>
      \<exists>brk t' a'. body i t a = Some (brk, t', a') \<and> same_lst u t' \<and> (if brk then R t' a' else I (vs @ [i]) t' a')"
    and "\<And>t a. same_lst u t \<Longrightarrow> I xs t a \<Longrightarrow> R t a"
  shows "\<exists>idx t' a'. for_each_lst (lst_invalid u + 1) body (ocf_lst_head u) u a = Some (idx, t', a') \<and> same_lst u t' \<and> R t' a'"
  unfolding parts_listD(6) [OF assms(1)]
  by (rule for_each_inv [of u "[]", where I = I]) (use assms parts_listD(1,2,3) [OF assms(1)] in auto)

subsection \<open>Quotas\<close>

lemma add_evict_counter_simps [simp]:
  "same_lst s (add_evict_counter p d u) = same_lst s u" "user_parts (add_evict_counter p d u) = user_parts u"
  "evict_counter_of (add_evict_counter p d u) q = (if q = p then s32 (evict_counter_of u p + d) else evict_counter_of u q)"
  "ocf_part_get_occupancy (add_evict_counter p d u) q = ocf_part_get_occupancy u q"
  by (simp_all add: add_evict_counter_def evict_counter_of_def upd_part_def ocf_part_get_occupancy_def)

definition quota_parts :: "nat \<Rightarrow> user_cache \<Rightarrow> nat list \<Rightarrow> nat list" where
  "quota_parts prio u xs = takeWhile (\<lambda>p. int prio \<le> priority (user_parts u p)) xs"

lemma quota_parts_prefix:
  assumes "xs = vs @ i # ws" "\<forall>p\<in>set vs. int prio \<le> priority (user_parts u p)"
  shows "int prio \<le> priority (user_parts u i) \<Longrightarrow> length vs < length (quota_parts prio u xs)"
    "\<not> int prio \<le> priority (user_parts u i) \<Longrightarrow> quota_parts prio u xs = vs"
  using assms by (auto simp: quota_parts_def takeWhile_append)

lemma update_sizes_spec:
  assumes "parts_list u xs"
  shows "\<exists>least sizes. update_sizes prio u = Some (least, sizes) \<and> length sizes = length (quota_parts prio u xs)"
proof -
  let ?I = "\<lambda>vs t (least :: nat, sizes :: nat list). t = u \<and> length sizes = length vs \<and> (\<forall>p\<in>set vs. int prio \<le> priority (user_parts u p))"
  let ?R = "\<lambda>t (least :: nat, sizes :: nat list). t = u \<and> length sizes = length (quota_parts prio u xs)"
  have L: "length xs \<le> 34" by (rule parts_listD [OF assms])
  have "\<exists>idx t' a'. for_each_lst (lst_invalid u + 1) (\<lambda>part_id u (least, sizes).
        if int prio > priority (user_parts u part_id) then Some (True, u, least, sizes)
        else do {
          bug_on (length sizes \<ge> OCF_USER_IO_CLASS_MAX);
          let part_size = ocf_part_get_occupancy u part_id;
          Some (False, u, if part_size = 0 then least else min least part_size, sizes @ [part_size]) })
        (ocf_lst_head u) u (collision_table_entries (cl u), []) = Some (idx, t', a') \<and> same_lst u t' \<and> ?R t' a'"
  proof (rule for_each_user_part [OF assms, where I = ?I])
    fix vs i ws t a
    assume A: "xs = vs @ i # ws" "same_lst u t" "?I vs t a"
    note Q = quota_parts_prefix [OF A(1), of prio u]
    show "\<exists>brk t' a'. (case a of (least, sizes) \<Rightarrow> if int prio > priority (user_parts t i) then Some (True, t, least, sizes)
        else do {
          bug_on (length sizes \<ge> OCF_USER_IO_CLASS_MAX);
          let part_size = ocf_part_get_occupancy t i;
          Some (False, t, if part_size = 0 then least else min least part_size, sizes @ [part_size]) }) = Some (brk, t', a') \<and>
        same_lst u t' \<and> (if brk then ?R t' a' else ?I (vs @ [i]) t' a')"
      using A L Q(2) by (cases a) (auto simp: bug_on_def Let_def)
  qed (auto simp: quota_parts_def takeWhile_eq_all_conv [THEN iffD2])
  then show ?thesis unfolding update_sizes_def by auto
qed

text \<open>An update of the quotas keeps what every change of a quota keeps.\<close>

lemma counters_update_spec:
  assumes l: "parts_list u xs" and P: "P u" "\<And>p d t. P t \<Longrightarrow> P (add_evict_counter p d t)"
  shows "\<exists>u'. ocf_evict_counters_update u prio = Some u' \<and> P u' \<and> same_lst u u' \<and> user_parts u' = user_parts u"
proof -
  obtain least sizes where S: "update_sizes prio u = Some (least, sizes)" "length sizes = length (quota_parts prio u xs)"
    using update_sizes_spec [OF l] by blast
  let ?R = "\<lambda>t (i :: nat). P t \<and> user_parts t = user_parts u"
  let ?I = "\<lambda>vs t i. ?R t i \<and> i = length vs \<and> (\<forall>p\<in>set vs. int prio \<le> priority (user_parts u p))"
  define body where "body = (\<lambda>part_id u i.
        if int prio > priority (user_parts u part_id) then Some (True, u, i)
        else do {
          bug_on (i \<ge> length sizes);
          let part_size = sizes ! i;
          Some (False, if part_size = 0 then u
                       else add_evict_counter part_id (s32 (int (part_size * MIN_EVICT_QUOTA mod 2 ^ 64 div max least MIN_EVICT_QUOTA))) u, i + 1) })"
  have "\<exists>idx t' a'. for_each_lst (lst_invalid u + 1) body (ocf_lst_head u) u 0 = Some (idx, t', a') \<and> same_lst u t' \<and> ?R t' a'"
  proof (rule for_each_user_part [OF l, where I = ?I])
    fix vs i ws t k
    assume A: "xs = vs @ i # ws" "same_lst u t" "?I vs t k"
    note Q = quota_parts_prefix [OF A(1), of prio u]
    show "\<exists>brk t' a'. body i t k = Some (brk, t', a') \<and> same_lst u t' \<and> (if brk then ?R t' a' else ?I (vs @ [i]) t' a')"
    proof (cases "int prio \<le> priority (user_parts u i)")
      case True
      then have "k < length sizes" using Q(1) S(2) A(3) by simp
      with True show ?thesis using A P(2) by (auto simp: body_def bug_on_def Let_def)
    qed (use A in \<open>auto simp: body_def\<close>)
  qed (use P in auto)
  then show ?thesis unfolding ocf_evict_counters_update_def S(1) by (auto simp: Let_def body_def)
qed

subsection \<open>What space management relies on\<close>

text \<open>
  The interface of an eviction policy: \<open>ok\<close> says that request and cache are ready, \<open>took k\<close> that \<open>k\<close> lines were given to
  the request. The policy gives at most the lines it is asked for, changes the cache only below the configuration,
  counts them in the request, and does not depend on the quotas.
\<close>

locale line_source =
  fixes rc :: "'y req_clines"
    and ok :: "'y sp_req_scheme \<Rightarrow> user_cache \<Rightarrow> bool"
    and took :: "nat \<Rightarrow> 'y sp_req_scheme \<Rightarrow> user_cache \<Rightarrow> 'y sp_req_scheme \<Rightarrow> user_cache \<Rightarrow> bool"
  assumes gives: "ok req u \<Longrightarrow> p \<le> PARTITION_FREE_DETACHED \<Longrightarrow> n \<le> ocf_engine_unmapped_count req \<Longrightarrow>
      \<exists>k req' u'. rc req p n u = Some (k, req', u') \<and> k \<le> n \<and> took k req u req' u'"
    and took_ok: "took k req u req' u' \<Longrightarrow> ok req u \<Longrightarrow> ok req' u'"
    and took_count: "took k req u req' u' \<Longrightarrow> ok req u \<Longrightarrow> ocf_engine_unmapped_count req = ocf_engine_unmapped_count req' + k"
    and took_frame: "took k req u req' u' \<Longrightarrow> same_lst u u' \<and> user_parts u' = user_parts u \<and> rq_part req' = rq_part req"
    and took_none: "ok req u \<Longrightarrow> took 0 req u req u"
    and took_quota: "ok req u \<Longrightarrow> took 0 req u req (add_evict_counter p d u)"
    and took_trans: "took k req u req1 u1 \<Longrightarrow> took l req1 u1 req2 u2 \<Longrightarrow> ok req u \<Longrightarrow> took (k + l) req u req2 u2"
begin

lemma quota_after: "took k req u req' u' \<Longrightarrow> ok req u \<Longrightarrow> took k req u req' (add_evict_counter p d u')"
  using took_trans [of k req u req' u' 0 req' "add_evict_counter p d u'"] took_quota [OF took_ok] by simp

lemma calculate_le: "ocf_evict_calculate u p n \<le> n"
  by (simp add: ocf_evict_calculate_def Let_def)

text \<open>One partition: whatever the quotas decide, the request gets at most what is still missing.\<close>

lemma evict_one_spec:
  assumes ok: "ok req u" and t: "took e req u req1 u1" and m: "e \<le> m" "m \<le> ocf_engine_unmapped_count req"
    and p: "p \<le> PARTITION_FREE_DETACHED"
  shows "\<exists>brk u' req' e' c' nm'. evict_one rc m ov prio p u1 (req1, e, c, nm) = Some (brk, u', req', e', c', nm') \<and>
    took e' req u req' u' \<and> e' \<le> m"
proof -
  define n where "n = ocf_evict_calculate u1 p (m - e)"
  define n' where "n' = (if ov then min n (ocf_user_part_overflow_size u1 p) else n)"
  define v where "v = (if ov then (c, u1) else ocf_evict_counters_inc u1 p (- s32 (int n')))"
  have v: "took e req u req1 (snd v)" "ok req1 (snd v)"
    using t quota_after [OF t ok] took_ok [OF quota_after [OF t ok] ok] took_ok [OF t ok]
    by (simp_all add: v_def ocf_evict_counters_inc_def Let_def)
  have "n \<le> m - e" by (simp add: n_def calculate_le)
  then have le: "n' \<le> m - e" by (auto simp: n'_def min.coboundedI1)
  then have "n' \<le> ocf_engine_unmapped_count req1" using took_count [OF t ok] m by simp
  then obtain k req2 u2 where r: "rc req1 p n' (snd v) = Some (k, req2, u2)" "k \<le> n'" "took k req1 (snd v) req2 u2"
    using gives [OF v(2) p] by blast
  have t2: "took (e + k) req u req2 u2" by (rule took_trans [OF v(1) r(3) ok])
  have "e + k \<le> m" using r(2) le m(1) by simp
  then show ?thesis
    unfolding evict_one_def Let_def prod.case n_def [symmetric] n'_def [symmetric] v_def [symmetric]
    using t m(1) v(1) r(1) t2 quota_after [OF v(1) ok] quota_after [OF t2 ok]
    by (auto simp: split_beta ocf_evict_counters_inc_def Let_def)
qed

lemma once_spec:
  assumes l: "parts_list u xs" and ok: "ok req u" and m: "m \<le> ocf_engine_unmapped_count req"
  shows "\<exists>k nm req' u'. ocf_evict_user_partitions_once rc req m ov prio u = Some (k, nm, req', u') \<and> took k req u req' u' \<and> k \<le> m"
proof -
  let ?R = "\<lambda>u' (req', e, c :: int, nm :: bool). took e req u req' u' \<and> e \<le> m"
  have "\<exists>idx t' a'. for_each_lst (lst_invalid u + 1) (evict_one rc m ov prio) (ocf_lst_head u) u (req, 0, 0, True) = Some (idx, t', a') \<and>
      same_lst u t' \<and> ?R t' a'"
  proof (rule for_each_user_part [OF l, where I = "\<lambda>vs. ?R"])
    fix vs p ws t a
    assume A: "xs = vs @ p # ws" "same_lst u t" "?R t a"
    obtain req1 e c nm where a: "a = (req1, e, c, nm)" by (cases a) auto
    have "p \<le> PARTITION_FREE_DETACHED" using parts_listD(5) [OF l, of p] A(1) by (simp add: PARTITION_FREE_DETACHED_def)
    then show "\<exists>brk t' a'. evict_one rc m ov prio p t a = Some (brk, t', a') \<and> same_lst u t' \<and> (if brk then ?R t' a' else ?R t' a')"
      using evict_one_spec [OF ok, of e req1 t m p ov prio c nm] A(3) m took_frame by (fastforce simp: a)
  qed (use took_none [OF ok] in auto)
  then show ?thesis unfolding ocf_evict_user_partitions_once_def by fastforce
qed

lemma tries_spec:
  assumes "parts_list u xs" "ok req u" "took e req u req1 u1" "e \<le> m" "m \<le> ocf_engine_unmapped_count req"
  shows "\<exists>k req' u'. evict_tries rc n m ov prio e req1 u1 = Some (k, req', u') \<and> took k req u req' u' \<and> k \<le> m"
  using assms(3,4)
proof (induction n arbitrary: e req1 u1)
  case (Suc n)
  have l: "parts_list u1 xs" using took_frame [OF Suc.prems(1)] assms(1) parts_list_same by blast
  have o: "ok req1 u1" using took_ok [OF Suc.prems(1) assms(2)] .
  have "m - e \<le> ocf_engine_unmapped_count req1" using took_count [OF Suc.prems(1) assms(2)] assms(5) by simp
  then obtain k nm req2 u2 where K: "ocf_evict_user_partitions_once rc req1 (m - e) ov prio u1 = Some (k, nm, req2, u2)"
      "took k req1 u1 req2 u2" "k \<le> m - e"
    using once_spec [OF l o] by blast
  have t: "took (e + k) req u req2 u2" "e + k \<le> m" using took_trans [OF Suc.prems(1) K(2) assms(2)] K(3) Suc.prems(2) by simp_all
  have l2: "parts_list u2 xs" using took_frame [OF K(2)] l parts_list_same by blast
  obtain u3 where U: "ocf_evict_counters_update u2 (nat (prio mod 2 ^ 16)) = Some u3" "took (e + k) req u req2 u3"
    using counters_update_spec [OF l2, of "took (e + k) req u req2" "nat (prio mod 2 ^ 16)"] t(1) quota_after [OF _ assms(2)] by blast
  show ?case using K(1) U(1) t Suc.IH [OF t] Suc.IH [OF U(2) t(2)] by (auto simp: Let_def)
qed auto

lemma partitions_spec:
  assumes "parts_list u xs" "ok req u" "m \<le> ocf_engine_unmapped_count req"
  shows "\<exists>k req' u'. ocf_evict_user_partitions rc req m ov prio u = Some (k, req', u') \<and> took k req u req' u' \<and> k \<le> m"
  using tries_spec [OF assms(1,2) took_none [OF assms(2)] _ assms(3)] by (simp add: ocf_evict_user_partitions_def)

lemma remap_spec:
  assumes l: "parts_list u xs" and ok: "ok req u"
  shows "\<exists>k req' u'. ocf_remap_do rc req u = Some (k, req', u') \<and> took k req u req' u' \<and> k \<le> ocf_engine_unmapped_count req"
proof -
  define n where "n = ocf_engine_unmapped_count req"
  have fl: "PARTITION_FREELIST \<le> PARTITION_FREE_DETACHED" by (simp add: PARTITION_FREELIST_def PARTITION_FREE_DETACHED_def)
  obtain k1 req1 u1 where A: "(if ocf_eviction_num_free u > 0 then rc req PARTITION_FREELIST n u else Some (0, req, u)) = Some (k1, req1, u1)"
      "took k1 req u req1 u1" "k1 \<le> n"
    using gives [OF ok fl, of n] took_none [OF ok] by (cases "ocf_eviction_num_free u > 0") (auto simp: n_def)
  note ok1 = took_ok [OF A(2) ok]
  have l1: "parts_list u1 xs" using took_frame [OF A(2)] l parts_list_same by blast
  have "n - k1 \<le> ocf_engine_unmapped_count req1" using took_count [OF A(2) ok] by (simp add: n_def)
  then obtain k2 req2 u2 where B: "ocf_evict_user_partitions rc req1 (n - k1) True OCF_IO_CLASS_PRIO_PINNED u1 = Some (k2, req2, u2)"
      "took k2 req1 u1 req2 u2" "k2 \<le> n - k1"
    using partitions_spec [OF l1 ok1] by blast
  have t2: "took (k1 + k2) req u req2 u2" by (rule took_trans [OF A(2) B(2) ok])
  have l2: "parts_list u2 xs" using took_frame [OF B(2)] l1 parts_list_same by blast
  have "n - (k1 + k2) \<le> ocf_engine_unmapped_count req2" using took_count [OF t2 ok] by (simp add: n_def)
  then obtain k3 req3 u3 where C: "ocf_evict_user_partitions rc req2 (n - (k1 + k2)) False (priority (user_parts u2 (rq_part req))) u2 =
        Some (k3, req3, u3)" "took k3 req2 u2 req3 u3" "k3 \<le> n - (k1 + k2)"
    using partitions_spec [OF l2 took_ok [OF t2 ok]] by blast
  have t3: "took (k1 + k2 + k3) req u req3 u3" by (rule took_trans [OF t2 C(2) ok])
  have "k1 + k2 \<le> n" "k1 + k2 + k3 \<le> n" using A(3) B(3) C(3) by simp_all
  then show ?thesis unfolding ocf_remap_do_def n_def [symmetric] Let_def A(1) using A(2,3) B(1) t2 C(1) t3 by auto
qed

text \<open>The result says whether the request has all its lines.\<close>

lemma managment_spec:
  assumes l: "parts_list u xs" and ok: "ok req u" and p: "rq_part req \<le> PARTITION_FREE_DETACHED"
  shows "\<exists>k req' u'. ocf_space_managment_remap_do rc req u =
      Some (if ocf_engine_unmapped_count req' = 0 then LOOKUP_REMAPPED else LOOKUP_MISS, req', u') \<and>
    took k req u req' u' \<and> k \<le> ocf_engine_unmapped_count req"
proof -
  let ?n = "ocf_engine_unmapped_count req"
  have "\<exists>k req' u'. ocf_evict_part_do rc req (rq_part req) u = Some (k, req', u') \<and> took k req u req' u' \<and> k \<le> ?n"
    using gives [OF ok p calculate_le [of u "rq_part req"]] took_none [OF ok] calculate_le [of u "rq_part req" ?n]
    by (fastforce simp: ocf_evict_part_do_def Let_def)
  then obtain k req' u' where K: "(if part_evict req then ocf_evict_part_do rc req (rq_part req) u else ocf_remap_do rc req u) =
      Some (k, req', u')" "took k req u req' u'" "k \<le> ?n"
    using remap_spec [OF l ok] by (cases "part_evict req") auto
  have "?n \<le> k \<longleftrightarrow> ocf_engine_unmapped_count req' = 0" using took_count [OF K(2) ok] K(3) by auto
  then show ?thesis unfolding ocf_space_managment_remap_do_def Let_def K(1) using K(2,3) by auto
qed

end

subsection \<open>The LRU policy gives lines\<close>

text \<open>The counters of the request account for all its entries.\<close>

definition counted :: "'y eng_req_scheme \<Rightarrow> bool" where
  "counted req \<longleftrightarrow> hit_no (rinfo req) + invalid_no (rinfo req) + insert_no (rinfo req) + length (misses req 0) = rq_count req \<and>
     rq_count req < 2 ^ 32"

definition space_ok :: "'y sp_req_scheme \<Rightarrow> user_cache \<Rightarrow> bool" where
  "space_ok req u \<longleftrightarrow> (\<exists>rep. lines_ok (cl u) rep) \<and> req_ready req (cl u) \<and> counted req"

definition space_took :: "nat \<Rightarrow> 'y sp_req_scheme \<Rightarrow> user_cache \<Rightarrow> 'y sp_req_scheme \<Rightarrow> user_cache \<Rightarrow> bool" where
  "space_took k req u req' u' \<longleftrightarrow> (\<exists>ts. length ts = k \<and> assigned ts req (cl u) req' (cl u') \<and> map fst ts = take k (misses req 0)) \<and>
     (\<exists>rep'. lines_ok (cl u') rep') \<and> (\<exists>s'. u' = u\<lparr>cl := s'\<rparr>)"

lemma counted_unmapped: "counted req \<Longrightarrow> ocf_engine_unmapped_count req = length (misses req 0)"
  by (auto simp: counted_def ocf_engine_unmapped_count_def)

lemma filter_drop:
  assumes "distinct xs"
  shows "filter (\<lambda>x. x \<notin> set (take k xs)) xs = drop k xs"
proof -
  let ?P = "\<lambda>x. x \<notin> set (take k xs)"
  have "filter ?P (take k xs) = []" "filter ?P (drop k xs) = drop k xs"
    using set_take_disj_set_drop_if_distinct [OF assms, of k k] by (auto simp: filter_empty_conv filter_id_conv)
  then show ?thesis using filter_append [of ?P "take k xs" "drop k xs"] by (simp add: del: filter_append)
qed

lemma misses_assigned:
  assumes "assigned ts req s req' s'" "map fst ts = take (length ts) (misses req 0)"
  shows "misses req' 0 = drop (length ts) (misses req 0)"
proof -
  have m: "rq_map req' j = (case map_of ts j of None \<Rightarrow> rq_map req j | Some x \<Rightarrow> (rq_map req j)\<lparr>coll_idx := x, m_status := LOOKUP_REMAPPED\<rparr>)" for j
    using assms(1) by (simp add: assigned_def)
  have k: "fst ` set ts = set (take (length ts) (misses req 0))" using assms(2) by (metis list.set_map)
  have "m_status (rq_map req' j) = LOOKUP_MISS \<longleftrightarrow> m_status (rq_map req j) = LOOKUP_MISS \<and> j \<notin> set (take (length ts) (misses req 0))" for j
    using m [of j] unfolding k [symmetric] by (auto split: option.splits simp: map_of_eq_None_iff dest: map_of_SomeD) (force dest: map_of_SomeD)+
  moreover have "rq_count req' = rq_count req" using assms(1) by (simp add: assigned_def)
  moreover have "distinct (misses req 0)" by (simp add: misses_def)
  ultimately show ?thesis using filter_drop [of "misses req 0" "length ts"] by (simp add: misses_def)
qed

lemma inc32_funpow: "n + k < 2 ^ 32 \<Longrightarrow> (inc32 ^^ k) n = n + k"
  by (induction k) (simp_all add: inc32_def)

lemma counted_assigned:
  assumes "counted req" "assigned ts req s req' s'" "map fst ts = take (length ts) (misses req 0)" "length ts \<le> length (misses req 0)"
  shows "counted req'" "length (misses req 0) = length (misses req' 0) + length ts"
proof -
  have i: "hit_no (rinfo req') = hit_no (rinfo req) \<and> invalid_no (rinfo req') = invalid_no (rinfo req) \<and>
      insert_no (rinfo req') = (inc32 ^^ length ts) (insert_no (rinfo req)) \<and> rq_count req' = rq_count req"
    using assms(2) by (simp add: assigned_def)
  show l: "length (misses req 0) = length (misses req' 0) + length ts" using misses_assigned [OF assms(2,3)] assms(4) by simp
  have "insert_no (rinfo req) + length ts < 2 ^ 32" using assms(1,4) by (auto simp: counted_def)
  then show "counted req'" using i l assms(1) by (simp add: counted_def inc32_funpow)
qed

lemma req_ready_assigned:
  fixes req :: "'y sp_req_scheme" and s :: "'z cl_state_scheme"
  assumes ok: "lines_ok s rep" "lines_ok s' rep'" and rr: "req_ready req s" and a: "assigned ts req s req' s'"
  shows "req_ready req' s'"
proof -
  have u: "unique_keys s" "unique_keys s'" using lines_okD(3) [OF ok(1)] lines_okD(3) [OF ok(2)] by (simp_all add: coll_inv_def)
  have e: "rq_core req' = rq_core req" "rq_part req' = rq_part req" "rq_count req' = rq_count req" "line_first req' = line_first req"
      "collision_table_entries s' = collision_table_entries s" "hash_table_entries s' = hash_table_entries s"
    using a by (simp_all add: assigned_def)
  have m: "rq_map req' j = (case map_of ts j of None \<Rightarrow> rq_map req j | Some x \<Rightarrow> (rq_map req j)\<lparr>coll_idx := x, m_status := LOOKUP_REMAPPED\<rparr>)" for j
    using a by (simp add: assigned_def)
  have h: "key_hash s' = key_hash s" using e by (simp add: key_hash_def ocf_metadata_hash_func_def fun_eq_iff)
  have k: "line_key s' y = line_key s y" if "y \<notin> snd ` set ts" for y using a that unfolding assigned_def by blast
  have t: "line_key s' y = (rq_core req, line_first req + j)" if "(j, y) \<in> set ts" for j y using a that unfolding assigned_def by blast
  have "cached s' (rq_core req, line_first req + i) = None"
    if i: "cached s (rq_core req, line_first req + i) = None" "map_of ts i = None" for i
  proof (rule ccontr)
    assume "cached s' (rq_core req, line_first req + i) \<noteq> None"
    then obtain y where y: "mapped s' y" "line_key s' y = (rq_core req, line_first req + i)" by (auto simp: cached_eq_Some [OF u(2)])
    show False
    proof (cases "y \<in> snd ` set ts")
      case True
      then obtain j where "(j, y) \<in> set ts" by auto
      with t [of j y] y(2) i(2) show False by (force simp: map_of_eq_None_iff)
    next
      case False
      then have "mapped s y \<and> line_key s y = (rq_core req, line_first req + i)" using y k [of y] e(5) by (auto simp: mapped_def line_key_def)
      then show False using i(1) by (auto simp: cached_eq_None)
    qed
  qed
  then show ?thesis using rr m unfolding req_ready_def e h by (auto split: option.splits)
qed

lemma assigned_append:
  fixes req :: "'y sp_req_scheme" and s :: "'z cl_state_scheme"
  assumes a: "assigned ts req s req1 s1" and b: "assigned us req1 s1 req' s'" and d: "fst ` set ts \<inter> fst ` set us = {}"
  shows "assigned (ts @ us) req s req' s'"
proof -
  note A = a [unfolded assigned_def] and B = b [unfolded assigned_def]
  have q: "rq_core req1 = rq_core req" "rq_part req1 = rq_part req" "rq_count req1 = rq_count req" "line_first req1 = line_first req"
      "line_last req1 = line_last req" "rq_id req1 = rq_id req" "hash_table_entries s1 = hash_table_entries s" "same_locks s s1"
      "collision_table_entries s1 = collision_table_entries s"
    using A by simp_all
  have y: "marked Dirty s1 y = marked Dirty s y" "marked Valid s1 y = (if y \<in> snd ` set ts then {} else marked Valid s y)"
      "partition_id (lru_meta s1 y) = (if y \<in> snd ` set ts then rq_part req else partition_id (lru_meta s y))"
      "access_of (cl_locks s1) y = (if y \<in> snd ` set ts then OCF_CACHE_LINE_ACCESS_WR else access_of (cl_locks s) y)"
      "y \<notin> snd ` set ts \<Longrightarrow> line_key s1 y = line_key s y" for y
    using A by blast+
  have z: "marked Dirty s' y = marked Dirty s1 y" "marked Valid s' y = (if y \<in> snd ` set us then {} else marked Valid s1 y)"
      "partition_id (lru_meta s' y) = (if y \<in> snd ` set us then rq_part req1 else partition_id (lru_meta s1 y))"
      "access_of (cl_locks s') y = (if y \<in> snd ` set us then OCF_CACHE_LINE_ACCESS_WR else access_of (cl_locks s1) y)"
      "y \<notin> snd ` set us \<Longrightarrow> line_key s' y = line_key s1 y" for y
    using B by blast+
  have "m_hash (rq_map req1 i) = m_hash (rq_map req i)" for i using A by (simp split: option.splits)
  then have hb: "hb_of s1 req1 = hb_of s req" using q by (auto simp: hb_of_def fun_eq_iff)
  have hf: "ocf_metadata_hash_func s1 = ocf_metadata_hash_func s" "key_hash s1 = key_hash s"
    using q by (simp_all add: ocf_metadata_hash_func_def key_hash_def fun_eq_iff)
  have "hash_free req1 k s1 = hash_free req k s" for k
    using q(8) unfolding hash_free_def hb same_locks_def by (simp add: hf ocf_req_hash_in_range_def)
  moreover have "in_request req1 = in_request req" by (simp add: in_request_def q fun_eq_iff)
  ultimately have tk: "x \<notin> snd ` set ts \<and> takeable req (partition_id (lru_meta s x)) s x" if "takeable req1 (partition_id (lru_meta s1 x)) s1 x" for x
    using that y(3-5) [of x] by (auto simp: takeable_def grabbable_def split: if_splits)
  have U: "takeable req1 (partition_id (lru_meta s1 x)) s1 x" "x < collision_table_entries s" "marked Dirty s x = {}"
    if "(j, x) \<in> set us" for j x using B that y(1) q(9) by auto
  have "x \<notin> snd ` set ts" if "(j, x) \<in> set us" for j x using tk [OF U(1) [OF that]] by simp
  then have ds: "snd ` set ts \<inter> snd ` set us = {}" by (force simp: disjoint_iff)
  have V: "x < collision_table_entries s \<and> marked Dirty s x = {} \<and> takeable req (partition_id (lru_meta s x)) s x"
    if "(j, x) \<in> set ts" for j x using A that by blast
  have "x < collision_table_entries s \<and> marked Dirty s x = {} \<and> takeable req (partition_id (lru_meta s x)) s x"
    if "(j, x) \<in> set us" for j x using U [OF that] tk [OF U(1) [OF that]] by blast
  with V have e: "\<forall>(j, x)\<in>set (ts @ us). x < collision_table_entries s \<and> marked Dirty s x = {} \<and> takeable req (partition_id (lru_meta s x)) s x"
    by fastforce
  have m: "rq_map req' i = (case map_of (ts @ us) i of None \<Rightarrow> rq_map req i | Some x \<Rightarrow> (rq_map req i)\<lparr>coll_idx := x, m_status := LOOKUP_REMAPPED\<rparr>)" for i
  proof -
    have "rq_map req' i = (case map_of us i of None \<Rightarrow> rq_map req1 i | Some x \<Rightarrow> (rq_map req1 i)\<lparr>coll_idx := x, m_status := LOOKUP_REMAPPED\<rparr>)"
      "rq_map req1 i = (case map_of ts i of None \<Rightarrow> rq_map req i | Some x \<Rightarrow> (rq_map req i)\<lparr>coll_idx := x, m_status := LOOKUP_REMAPPED\<rparr>)"
      using A B by simp_all
    moreover have "map_of ts i = None \<or> map_of us i = None" using d by (auto simp: map_of_eq_None_iff)
    ultimately show ?thesis by (auto simp: map_add_def split: option.splits)
  qed
  have w: "marked Dirty s' y = marked Dirty s y \<and>
       marked Valid s' y = (if y \<in> snd ` set (ts @ us) then {} else marked Valid s y) \<and>
       partition_id (lru_meta s' y) = (if y \<in> snd ` set (ts @ us) then rq_part req else partition_id (lru_meta s y)) \<and>
       access_of (cl_locks s') y = (if y \<in> snd ` set (ts @ us) then OCF_CACHE_LINE_ACCESS_WR else access_of (cl_locks s) y) \<and>
       (y \<notin> snd ` set (ts @ us) \<longrightarrow> line_key s' y = line_key s y)" for y
    using y [of y] z [of y] q(2) by (simp add: image_Un)
  have k: "\<forall>(j, x)\<in>set (ts @ us). line_key s' x = (rq_core req, line_first req + j)"
  proof -
    have "line_key s' x = (rq_core req, line_first req + j)" if "(j, x) \<in> set ts" for j x
    proof -
      have "x \<notin> snd ` set us" using that ds by force
      then show ?thesis using that z(5) [of x] A by auto
    qed
    moreover have "line_key s' x = (rq_core req, line_first req + j)" if "(j, x) \<in> set us" for j x
      using that B q(1,4) by auto
    ultimately show ?thesis by auto
  qed
  have l: "alock_status (reqs (cl_locks s') (rq_id req)) = fst ` set (ts @ us) \<union> alock_status (reqs (cl_locks s) (rq_id req))"
    using A B q(6) by (auto simp: image_Un)
  have n: "same_locks s s'" "insert_no (rinfo req') = (inc32 ^^ length (ts @ us)) (insert_no (rinfo req))"
    using A B same_locks_trans [of s s1 s'] by (simp_all add: funpow_add add.commute [of "length ts"])
  have o: "rq_core req' = rq_core req" "rq_part req' = rq_part req" "rq_count req' = rq_count req" "line_first req' = line_first req"
      "line_last req' = line_last req" "rq_id req' = rq_id req" "hit_no (rinfo req') = hit_no (rinfo req)"
      "invalid_no (rinfo req') = invalid_no (rinfo req)" "collision_table_entries s' = collision_table_entries s"
      "mapping_error (rinfo req') = mapping_error (rinfo req)" "waiters_lsts (cl_locks s') = waiters_lsts (cl_locks s)" "num_waitlists (cl_locks s') = num_waitlists (cl_locks s)"
      "hash_table_entries s' = hash_table_entries s" "distinct (map fst (ts @ us))" "distinct (map snd (ts @ us))"
      "carried req s req' s'"
    using A B q d ds carried_trans [of req s req1 s1 req' s'] by simp_all
  show ?thesis unfolding assigned_def by (intro conjI) (fact o e n k l | rule allI, rule m | rule allI, rule w)+
qed

text \<open>The quotas are no part of what the policy relies on.\<close>

lemma quota_fields:
  fixes s :: "'z cl_state_scheme"
  assumes s'_def: "s' = upd_part p (\<lambda>P. P\<lparr>evict_counter := f P\<rparr>) s"
  shows "lines_ok s' rep = lines_ok s rep" "req_ready req s' = req_ready req s" "assigned [] req s req s'"
proof -
  have e: "lru_meta s' = lru_meta s" "collision s' = collision s" "hash_table s' = hash_table s" "list_info s' = list_info s"
      "collision_table_entries s' = collision_table_entries s" "hash_table_entries s' = hash_table_entries s" "cl_locks s' = cl_locks s"
      "core_rt s' = core_rt s" "eviction_policy s' = eviction_policy s" "eviction_policy_type s' = eviction_policy_type s"
      "line_size s' = line_size s" "block_4k s' = block_4k s" "md_ok s' = md_ok s" "\<And>w. marked w s' = marked w s"
    by (simp_all add: s'_def upd_part_def md_ok_def marked_def fun_eq_iff)
  have c: "curr_size (cparts s' q) = curr_size (cparts s q)" for q by (simp add: s'_def upd_part_def)
  have m: "same_map s s'" using e by (simp add: same_map_def line_key_def fun_eq_iff)
  have h: "home s' = home s" using e by (simp add: home_def fun_eq_iff)
  have g: "ocf_lru_get_list s' q i cl = ocf_lru_get_list s q i cl" for q i cl
    by (simp add: s'_def upd_part_def ocf_lru_get_list_def list_kind_def)
  have "lru_list s' L xs = lru_list s L xs" for L xs using e by (intro lru_list_cong) auto
  then have "cache_inv s' rep = cache_inv s rep" using e c h g by (simp add: cache_inv_def lists_ok_def lru_ready_def)
  moreover have "counters_ok s' = counters_ok s" using e by (simp add: counters_ok_def tally_def)
  moreover have "mapped s' x = mapped s x" for x using same_mapD(3) [OF m] by simp
  ultimately show "lines_ok s' rep = lines_ok s rep" using e h same_mapD(1) [OF m]
    by (simp add: lines_ok_def cl_inv_def locks_quiet_def homed_def line_ok_def)
  show "req_ready req s' = req_ready req s" using same_mapD(2,5) [OF m] by (simp add: req_ready_def)
  show "assigned [] req s req s'" using e same_mapD(4) [OF m] by (simp add: assigned_def same_locks_def carried_def same_counts_def)
qed

lemma space_took_quota: "space_ok req u \<Longrightarrow> space_took 0 req u req (add_evict_counter p d u)"
  by (auto simp: space_ok_def space_took_def add_evict_counter_def quota_fields [OF refl])

lemma space_took_ok: "space_took k req u req' u' \<Longrightarrow> space_ok req u \<Longrightarrow> space_ok req' u' \<and> length (misses req 0) = length (misses req' 0) + k"
proof -
  assume t: "space_took k req u req' u'" and ok: "space_ok req u"
  then obtain ts rep rep' where T: "length ts = k" "assigned ts req (cl u) req' (cl u')" "map fst ts = take (length ts) (misses req 0)"
      "lines_ok (cl u') rep'" "lines_ok (cl u) rep" by (auto simp: space_took_def space_ok_def)
  have "length ts \<le> length (misses req 0)" using arg_cong [OF T(3), of length] by simp
  then show ?thesis using counted_assigned [OF _ T(2,3)] req_ready_assigned [OF T(5,4) _ T(2)] ok T(1,4) by (auto simp: space_ok_def)
qed

lemma space_took_trans:
  assumes a: "space_took k req u req1 u1" and b: "space_took l req1 u1 req2 u2"
  shows "space_took (k + l) req u req2 u2"
proof -
  obtain ts us where T: "length ts = k" "assigned ts req (cl u) req1 (cl u1)" "map fst ts = take k (misses req 0)"
      "length us = l" "assigned us req1 (cl u1) req2 (cl u2)" "map fst us = take l (misses req1 0)"
    using a b by (auto simp: space_took_def)
  have m: "misses req1 0 = drop k (misses req 0)" using misses_assigned [OF T(2)] T(1,3) by simp
  have f: "map fst (ts @ us) = take (k + l) (misses req 0)" using T(3,6) m by (simp add: take_add)
  moreover have "distinct (take (k + l) (misses req 0))" by (simp add: misses_def)
  ultimately have "distinct (map fst (ts @ us))" by simp
  then have "assigned (ts @ us) req (cl u) req2 (cl u2)" by (intro assigned_append [OF T(2,5)]) auto
  moreover have "length (ts @ us) = k + l" using T(1,4) by simp
  moreover have "(\<exists>rep'. lines_ok (cl u2) rep') \<and> (\<exists>s'. u2 = u\<lparr>cl := s'\<rparr>)" using a b by (auto simp: space_took_def)
  ultimately show ?thesis using f unfolding space_took_def by blast
qed

interpretation lru_source: line_source "ocf_eviction_req_clines lfu" space_ok space_took for lfu :: "'y req_clines"
proof
  fix req :: "'y sp_req_scheme" and u p n
  assume ok: "space_ok req u" and p: "p \<le> PARTITION_FREE_DETACHED" and n: "n \<le> ocf_engine_unmapped_count req"
  obtain rep where L: "lines_ok (cl u) rep" "req_ready req (cl u)" "counted req" using ok by (auto simp: space_ok_def)
  have n': "n \<le> length (misses req 0)" using n counted_unmapped [OF L(3)] by simp
  obtain ts req' s' rep' where R: "ocf_lru_req_clines req p n u = Some (length ts, req', u\<lparr>cl := s'\<rparr>)" "length ts \<le> n"
    "assigned ts req (cl u) req' s'" "lines_ok s' rep'" "map fst ts = take (length ts) (misses req 0)"
    using req_clines_spec [OF L(1,2) p n' n] by blast
  then have "space_took (length ts) req u req' (u\<lparr>cl := s'\<rparr>)" by (auto simp: space_took_def)
  then show "\<exists>k req' u'. ocf_eviction_req_clines lfu req p n u = Some (k, req', u') \<and> k \<le> n \<and> space_took k req u req' u'"
    using R(1,2) lines_okD(10) [OF L(1)] by (auto simp: ocf_eviction_req_clines_def)
next
  fix k req u req' u'
  assume t: "space_took k req u req' u'"
  then show "same_lst u u' \<and> user_parts u' = user_parts u \<and> rq_part req' = rq_part req"
    by (auto simp: space_took_def assigned_def)
  assume ok: "space_ok req u"
  show o: "space_ok req' u'" using space_took_ok [OF t ok] by simp
  show "ocf_engine_unmapped_count req = ocf_engine_unmapped_count req' + k"
    using space_took_ok [OF t ok] ok o by (simp add: space_ok_def counted_unmapped)
next
  show "space_ok req u \<Longrightarrow> space_took 0 req u req u" for req :: "'y sp_req_scheme" and u
    by (auto simp: space_ok_def space_took_def assigned_Nil intro!: exI [of _ "cl u"])
qed (auto intro: space_took_quota space_took_trans)

subsection \<open>Properties\<close>

text \<open>C15: Finding space for a request never fails an assertion. The result is \<open>LOOKUP_REMAPPED\<close> exactly when the request has
  no missing core line left. Lines were given to its first missing core lines, in order: lines that nobody used, without a
  dirty block and without a core line of the request, which now hold the missing core lines, locked by the request, in its
  partition and without valid blocks. Every other line keeps its access word, its partition, its valid blocks and its core
  line, and every other core line stays cached where it was; the
  dirty blocks, the waiters, the locks of the hash buckets and the other entries of the request are as before, and the
  structures of the cache and the counters of the request stay consistent. What else may change are the order and the sizes
  of the line lists, the eviction quotas of the partitions and the counters of cores and partitions, which stay exact.\<close>

theorem remap_do_correct:
  fixes req :: "'y sp_req_scheme"
  assumes "parts_ok u" "lines_ok (cl u) rep" "req_ready req (cl u)" "counted req"
  shows "\<exists>ts req' u' rep'. ocf_space_managment_remap_do (ocf_eviction_req_clines lfu) req u =
      Some (if misses req' 0 = [] then LOOKUP_REMAPPED else LOOKUP_MISS, req', u') \<and>
    map fst ts = take (length ts) (misses req 0) \<and> distinct (map snd ts) \<and> lines_ok (cl u') rep' \<and> counted req' \<and>
    misses req' 0 = drop (length ts) (misses req 0) \<and> same_locks (cl u) (cl u') \<and>
    (\<forall>(j, x)\<in>set ts. access_of (cl_locks (cl u)) x = 0 \<and> marked Dirty (cl u) x = {} \<and>
       (\<forall>k. cached (cl u) k = Some x \<longrightarrow> \<not> in_request req (fst k) (snd k)) \<and>
       coll_idx (rq_map req' j) = x \<and> m_status (rq_map req' j) = LOOKUP_REMAPPED \<and>
       cached (cl u') (rq_core req, line_first req + j) = Some x \<and> marked Valid (cl u') x = {} \<and>
       partition_id (lru_meta (cl u') x) = rq_part req \<and> access_of (cl_locks (cl u')) x = OCF_CACHE_LINE_ACCESS_WR) \<and>
    (\<forall>x. x \<notin> snd ` set ts \<longrightarrow> access_of (cl_locks (cl u')) x = access_of (cl_locks (cl u)) x \<and>
       partition_id (lru_meta (cl u') x) = partition_id (lru_meta (cl u) x) \<and> marked Valid (cl u') x = marked Valid (cl u) x \<and>
       line_key (cl u') x = line_key (cl u) x) \<and>
    (\<forall>k x. cached (cl u) k = Some x \<longrightarrow> x \<notin> snd ` set ts \<longrightarrow> cached (cl u') k = Some x) \<and>
    waiters_lsts (cl_locks (cl u')) = waiters_lsts (cl_locks (cl u)) \<and>
    alock_status (reqs (cl_locks (cl u')) (rq_id req)) = fst ` set ts \<union> alock_status (reqs (cl_locks (cl u)) (rq_id req)) \<and>
    (\<forall>x. marked Dirty (cl u') x = marked Dirty (cl u) x) \<and> (\<forall>j. j \<notin> fst ` set ts \<longrightarrow> rq_map req' j = rq_map req j)"
proof -
  obtain xs where l: "parts_list u xs" using assms(1) by (rule parts_list_ok)
  have ok: "space_ok req u" using assms(2-4) by (auto simp: space_ok_def)
  have p: "rq_part req \<le> PARTITION_FREE_DETACHED" using assms(3) by (simp add: req_ready_def PARTITION_FREE_DETACHED_def)
  obtain k req' u' where R: "ocf_space_managment_remap_do (ocf_eviction_req_clines lfu) req u =
      Some (if ocf_engine_unmapped_count req' = 0 then LOOKUP_REMAPPED else LOOKUP_MISS, req', u')" "space_took k req u req' u'"
    using lru_source.managment_spec [OF l ok p] by blast
  obtain ts rep' where T: "length ts = k" "assigned ts req (cl u) req' (cl u')" "map fst ts = take (length ts) (misses req 0)" "lines_ok (cl u') rep'"
    using R(2) by (auto simp: space_took_def)
  have c: "counted req'" using space_took_ok [OF R(2) ok] by (simp add: space_ok_def)
  note E = assigned_effect [OF assms(2) T(4) assms(3) T(2,3)]
  show ?thesis
    by (intro exI [of _ ts] exI [of _ req'] exI [of _ u'] exI [of _ rep'])
      (use R(1) T E c misses_assigned [OF T(2,3)] counted_unmapped [OF c] in auto)
qed

lemma s32_id: "- (2 ^ 31) \<le> i \<Longrightarrow> i < 2 ^ 31 \<Longrightarrow> s32 i = i"
  by (simp add: s32_def)

lemma add_evict_counter_back:
  assumes "- (2 ^ 31) \<le> evict_counter_of u p + d" "evict_counter_of u p + d < 2 ^ 31" "- (2 ^ 31) \<le> evict_counter_of u p" "evict_counter_of u p < 2 ^ 31"
  shows "add_evict_counter p (- d) (add_evict_counter p d u) = u"
  using assms by (simp add: add_evict_counter_def upd_part_def evict_counter_of_def s32_id)

text \<open>The quotas of a request of a pinned class: the priority \<open>-1\<close> becomes 65535.\<close>

lemma pinned_update:
  assumes "parts_ok u"
  shows "ocf_evict_counters_update u (nat (OCF_IO_CLASS_PRIO_PINNED mod 2 ^ 16)) = Some u"
proof -
  obtain xs where xs: "parts_list u xs" "set xs = {..<34}" using assms by (rule parts_list_ok)
  have p: "priority (user_parts u p) \<le> 255" if "p < 34" for p using assms that by (simp add: parts_ok_def parts_on_def config_ok_def)
  have "priority (user_parts u (hd xs)) \<le> 255" if "xs \<noteq> []" using p [of "hd xs"] xs(2) hd_in_set [OF that] by auto
  then have "quota_parts 65535 u xs = []" by (cases xs) (auto simp: quota_parts_def)
  then obtain least where S: "update_sizes 65535 u = Some (least, [])" using update_sizes_spec [OF xs(1), of 65535] by auto
  define body where "body = (\<lambda>part_id u i.
        if int 65535 > priority (user_parts u part_id) then Some (True, u, i)
        else do {
          bug_on (i \<ge> length ([] :: nat list));
          let part_size = [] ! i;
          Some (False, if part_size = 0 then u
                       else add_evict_counter part_id (s32 (int (part_size * MIN_EVICT_QUOTA mod 2 ^ 64 div max least MIN_EVICT_QUOTA))) u, i + 1) })"
  have b: "body i u k = Some (True, u, k)" if "i \<in> set xs" for i k using p [of i] xs(2) that by (simp add: body_def)
  have "\<exists>idx t' a'. for_each_lst (lst_invalid u + 1) body (ocf_lst_head u) u 0 = Some (idx, t', a') \<and> same_lst u t' \<and> t' = u"
    by (rule for_each_user_part [OF xs(1), where I = "\<lambda>vs t a. t = u"]) (auto simp: b)
  then show ?thesis by (auto simp: ocf_evict_counters_update_def S Let_def body_def)
qed

lemma spent_once:
  assumes l: "parts_list u xs" and e: "\<And>p. p < OCF_USER_IO_CLASS_MAX \<Longrightarrow> - (2 ^ 31) + int m \<le> evict_counter_of u p \<and> evict_counter_of u p \<le> 0"
    and m: "m < 2 ^ 31"
  shows "ocf_evict_user_partitions_once rc req m False prio u = Some (0, True, req, u)"
proof -
  let ?R = "\<lambda>t (req', e' :: nat, c :: int, nm). t = u \<and> req' = req \<and> e' = 0 \<and> nm \<and> c \<le> 0"
  have "\<exists>idx t' a'. for_each_lst (lst_invalid u + 1) (evict_one rc m False prio) (ocf_lst_head u) u (req, 0, 0, True) = Some (idx, t', a') \<and>
      same_lst u t' \<and> ?R t' a'"
  proof (rule for_each_user_part [OF l, where I = "\<lambda>vs. ?R"])
    fix vs p ws t a
    assume A: "xs = vs @ p # ws" "?R t a"
    obtain c where a: "a = (req, 0, c, True)" "t = u" "c \<le> 0" using A(2) by (cases a) auto
    have p: "- (2 ^ 31) + int m \<le> evict_counter_of u p" "evict_counter_of u p \<le> 0"
      using e [of p] parts_listD(5) [OF l, of p] A(1) by auto
    define n where "n = ocf_evict_calculate u p m"
    have n: "int n \<le> int m" "int n < 2 ^ 31" using m by (auto simp: n_def ocf_evict_calculate_def Let_def)
    have s: "s32 (int n) = int n" "s32 (- int n) = - int n" "s32 (evict_counter_of u p - int n) = evict_counter_of u p - int n"
        "s32 (evict_counter_of u p) = evict_counter_of u p"
      using n p m by (simp_all add: s32_id)
    have b: "add_evict_counter p (int n) (add_evict_counter p (- int n) u) = u"
      using add_evict_counter_back [of u p "- int n"] n p m by simp
    show "\<exists>brk t' a'. evict_one rc m False prio p t a = Some (brk, t', a') \<and> same_lst u t' \<and> (if brk then ?R t' a' else ?R t' a')"
      using s b p(2) a by (auto simp: evict_one_def n_def [symmetric] Let_def ocf_evict_counters_inc_def)
  qed auto
  then show ?thesis unfolding ocf_evict_user_partitions_once_def by auto
qed

lemma no_overflow_once:
  assumes l: "parts_list u xs" and o: "\<And>p. p < OCF_USER_IO_CLASS_MAX \<Longrightarrow> ocf_user_part_overflow_size u p = 0"
  shows "ocf_evict_user_partitions_once rc req m True prio u = Some (0, True, req, u)"
proof -
  let ?R = "\<lambda>t a. t = u \<and> a = (req, 0 :: nat, 0 :: int, True)"
  have "\<exists>idx t' a'. for_each_lst (lst_invalid u + 1) (evict_one rc m True prio) (ocf_lst_head u) u (req, 0, 0, True) = Some (idx, t', a') \<and>
      same_lst u t' \<and> ?R t' a'"
    by (rule for_each_user_part [OF l, where I = "\<lambda>vs. ?R"]) (use o parts_listD(5) [OF l] in \<open>auto simp: evict_one_def\<close>)
  then show ?thesis unfolding ocf_evict_user_partitions_once_def by auto
qed

text \<open>C16: When the eviction quotas of all partitions are spent, there is no free line and no partition exceeds its size, a request of
  a pinned io class gets no cache line, whatever the other partitions hold and whatever the eviction policy is: the quotas are not
  renewed, since the priority \<open>-1\<close> of the class is passed as the unsigned number 65535, which exceeds every priority.\<close>

theorem pinned_request_starves:
  assumes "parts_ok u" "\<not> part_evict req" "priority (user_parts u (rq_part req)) = OCF_IO_CLASS_PRIO_PINNED"
    and "ocf_engine_unmapped_count req = m" "0 < m" "m < 2 ^ 31"
    and "ocf_eviction_num_free u = 0" "\<forall>p < OCF_USER_IO_CLASS_MAX. ocf_user_part_overflow_size u p = 0"
    and "\<forall>p < OCF_USER_IO_CLASS_MAX. - (2 ^ 31) + int m \<le> evict_counter_of u p \<and> evict_counter_of u p \<le> 0"
  shows "ocf_space_managment_remap_do rc req u = Some (LOOKUP_MISS, req, u)"
proof -
  obtain xs where l: "parts_list u xs" using assms(1) by (rule parts_list_ok)
  note O = no_overflow_once [OF l, of rc req m] and S = spent_once [OF l, of m rc req]
  have "ocf_evict_user_partitions rc req m True OCF_IO_CLASS_PRIO_PINNED u = Some (0, req, u)"
    using O assms(5,8) by (simp add: ocf_evict_user_partitions_def numeral_2_eq_2)
  moreover have "ocf_evict_user_partitions rc req m False OCF_IO_CLASS_PRIO_PINNED u = Some (0, req, u)"
    using S assms(6,9) pinned_update [OF assms(1)] by (simp add: ocf_evict_user_partitions_def numeral_2_eq_2)
  ultimately show ?thesis
    using assms(2-5,7) by (simp add: ocf_space_managment_remap_do_def ocf_remap_do_def Let_def)
qed

subsection \<open>Witnesses\<close>

lemma parts_ok_cl [simp]: "parts_ok (u\<lparr>cl := s\<rparr>) = parts_ok u"
  by (simp add: parts_ok_def parts_on_def lst_rep_def lst_links_def off_list_def OCF_LST_ENTRY_OUT_def)

theorem remap_do_correct_witness:
  "\<exists>s req' u'. ocf_space_managment_remap_do (ocf_eviction_req_clines (\<lambda>_ _ _ _. None)) demo_sp_req (demo_user s) =
      Some (if misses req' 0 = [] then LOOKUP_REMAPPED else LOOKUP_MISS, req', u') \<and> misses demo_sp_req 0 = [0] \<and> counted req'"
proof -
  obtain s rep where s: "lines_ok (demo_evict s) rep" "req_ready demo_sp_req (demo_evict s)" using demo_lines by blast
  have u: "cl (demo_user s) = demo_evict s" "parts_ok (demo_user s)" using demo_parts_ok(1) by (simp_all add: demo_user_def)
  have c: "misses demo_sp_req 0 = [0]" "counted demo_sp_req" by (simp_all add: misses_def counted_def clear_info_def)
  obtain req' u' where "ocf_space_managment_remap_do (ocf_eviction_req_clines (\<lambda>_ _ _ _. None)) demo_sp_req (demo_user s) =
      Some (if misses req' 0 = [] then LOOKUP_REMAPPED else LOOKUP_MISS, req', u')" "counted req'"
    using remap_do_correct [where u = "demo_user s" and rep = rep and lfu = "\<lambda>_ _ _ _. None", OF u(2) s [folded u(1)] c(2)]
    by (elim exE conjE) (rule that)
  then show ?thesis using c(1) by blast
qed

definition demo_pinned :: user_cache where
  "demo_pinned = upd_config 0 (\<lambda>c. c\<lparr>max_size := 100\<rparr>) (upd_config 3 (\<lambda>c. c\<lparr>priority := OCF_IO_CLASS_PRIO_PINNED\<rparr>)
     (demo_parts\<lparr>cl := (cl demo_parts)\<lparr>collision_table_entries := 1000,
        cparts := \<lambda>p. (cparts (cl demo_parts) p)\<lparr>curr_size := if p = 0 then 1000 else 0, evict_counter := 0\<rparr>\<rparr>\<rparr>))"

lemma demo_pinned_ok: "parts_ok demo_pinned"
proof -
  have "valid_parts (user_parts demo_pinned) = valid_parts (user_parts demo_parts)"
    by (auto simp: valid_parts_def demo_pinned_def upd_config_def)
  moreover have "parts_ok demo_parts" by (rule demo_parts_ok)
  moreover have "lst_rep demo_pinned xs = lst_rep demo_parts xs" for xs
    by (simp add: demo_pinned_def upd_config_def lst_rep_def lst_links_def off_list_def OCF_LST_ENTRY_OUT_def)
  moreover have "config_ok (user_parts demo_pinned p) \<and> f_added (user_parts demo_pinned p)"
    if "config_ok (user_parts demo_parts p) \<and> f_added (user_parts demo_parts p)" for p
    using that by (cases "p = 3"; cases "p = 0") (simp_all add: demo_pinned_def upd_config_def config_ok_def)
  moreover have "lst_invalid demo_pinned = lst_invalid demo_parts" "valid_parts_no demo_pinned = valid_parts_no demo_parts"
      "f_valid (user_parts demo_pinned 0) = f_valid (user_parts demo_parts 0)" "cfg_name (user_parts demo_pinned 0) = cfg_name (user_parts demo_parts 0)"
    by (simp_all add: demo_pinned_def upd_config_def)
  ultimately show ?thesis unfolding parts_ok_def parts_on_def by simp
qed

theorem pinned_request_starves_witness:
  "parts_ok demo_pinned \<and> ocf_part_get_occupancy demo_pinned 0 = 1000 \<and>
   (\<forall>rc :: unit req_clines. ocf_space_managment_remap_do rc demo_sp_req demo_pinned = Some (LOOKUP_MISS, demo_sp_req, demo_pinned))"
proof -
  have m: "ocf_engine_unmapped_count demo_sp_req = 1" by (simp add: ocf_engine_unmapped_count_def clear_info_def)
  have e: "\<not> part_evict demo_sp_req" by (simp add: demo_sp_req_def eng_req.defs cl_req.defs sp_req.defs)
  have f: "priority (user_parts demo_pinned 3) = -1" "curr_size (cparts (cl demo_pinned) p) = (if p = 0 then 1000 else 0)"
      "evict_counter (cparts (cl demo_pinned) p) = 0" "collision_table_entries (cl demo_pinned) = 1000" "max_size (user_parts demo_pinned 0) = 100" for p
    by (simp_all add: demo_pinned_def upd_config_def)
  have z: "ocf_eviction_num_free demo_pinned = 0" "evict_counter_of demo_pinned p = 0" "ocf_part_get_occupancy demo_pinned p = (if p = 0 then 1000 else 0)" for p
    by (simp_all add: ocf_eviction_num_free_def evict_counter_of_def ocf_part_get_occupancy_def f PARTITION_FREELIST_def)
  have o: "ocf_user_part_overflow_size demo_pinned p = 0" for p
  proof (cases "p = 0")
    case True
    have "ocf_user_part_get_max_size demo_pinned 0 = 1000" by (simp add: ocf_user_part_get_max_size_def f)
    with True show ?thesis by (simp add: ocf_user_part_overflow_size_def z(3))
  qed (simp add: ocf_user_part_overflow_size_def z(3))
  have "ocf_space_managment_remap_do rc demo_sp_req demo_pinned = Some (LOOKUP_MISS, demo_sp_req, demo_pinned)" for rc :: "unit req_clines"
    by (rule pinned_request_starves [OF demo_pinned_ok e _ m _ _ z(1)]) (simp_all add: f(1) z(2) o)
  then show ?thesis using z(3) [of 0] demo_pinned_ok by simp
qed

end
