(* ===== verification/Prepare.thy ===== *)
theory Prepare
  imports Space
begin

section \<open>Mapping the missing lines of a request (engine/engine_common.c)\<close>

text \<open>
  \<open>ocf_prepare_clines_miss\<close> decides whether the request may take lines from other partitions, looks for space, and takes
  everything back when there is not enough of it. The lock tables see the request's map through \<open>see_map\<close>: in the
  code it is the same object. The result of \<open>ocf_prepare_clines_miss\<close> says whether the promotion policy is told to
  forget the request.
\<close>

definition see_map :: "'y sp_req_scheme \<Rightarrow> ocf_alock \<Rightarrow> ocf_alock" where
  "see_map req al = upd_req (rq_id req) (\<lambda>r. r\<lparr>r_line_count := rq_count req, r_map := rq_map req\<rparr>) al"

definition cancel_entry :: "nat \<Rightarrow> 'y sp_req_scheme \<Rightarrow> 'z cl_state_scheme \<Rightarrow> ('y sp_req_scheme \<times> 'z cl_state_scheme) option" where
  "cancel_entry i req s =
     (case m_status (rq_map req i) of
       LOOKUP_REMAPPED \<Rightarrow> do {
         let req = put_entry i (\<lambda>e. e\<lparr>m_status := LOOKUP_MISS\<rparr>) req;
         let line = coll_idx (rq_map req i);
         s \<leftarrow> set_cache_line_invalid_no_flush s 0 (ocf_line_end_block s) line;
         let s = s\<lparr>cl_locks := ocf_alock_mark_index_locked (rq_id req) i False (cl_locks s)\<rparr>;
         s \<leftarrow> line_unlock line s;
         Some (req, s) }
     | _ \<Rightarrow> Some (req, s))"

fun cancel_loop :: "nat list \<Rightarrow> 'y sp_req_scheme \<Rightarrow> 'z cl_state_scheme \<Rightarrow> ('y sp_req_scheme \<times> 'z cl_state_scheme) option" where
  "cancel_loop [] req s = Some (req, s)"
| "cancel_loop (i # is) req s = do {
     (req, s) \<leftarrow> cancel_entry i req s;
     cancel_loop is req s }"

definition ocf_engine_map_hndl_error ::
    "'y sp_req_scheme \<Rightarrow> 'z cl_state_scheme \<Rightarrow> ('y sp_req_scheme \<times> 'z cl_state_scheme) option" where
  "ocf_engine_map_hndl_error req s = cancel_loop [0..<rq_count req] req s"

definition ocf_engine_remap :: "'y req_clines \<Rightarrow> 'y sp_req_scheme \<Rightarrow> user_cache \<Rightarrow> ('y sp_req_scheme \<times> user_cache) option" where
  "ocf_engine_remap rc req u = do {
     (status, req, u) \<leftarrow> ocf_space_managment_remap_do rc req u;
     if status = LOOKUP_MISS then do {
       let req = put_info (\<lambda>f. f\<lparr>mapping_error := True, cleaning_required := True\<rparr>) req;
       (req, s) \<leftarrow> ocf_engine_map_hndl_error req (cl u);
       al \<leftarrow> ocf_req_unlock (rq_id req) (see_map req (cl_locks s));
       Some (req, u\<lparr>cl := s\<lparr>cl_locks := al\<rparr>\<rparr>) }
     else Some (req, u) }"

definition ocf_prepare_clines_miss ::
    "'y req_clines \<Rightarrow> 'y sp_req_scheme \<Rightarrow> user_cache \<Rightarrow> (bool \<times> 'y sp_req_scheme \<times> user_cache) option" where
  "ocf_prepare_clines_miss rc req u = do {
     let req = req\<lparr>part_evict := \<not> ocf_user_part_has_space req u\<rparr>;
     (req, u) \<leftarrow> ocf_engine_remap rc req u;
     Some (\<not> mapping_error (rinfo req), req, u) }"

subsection \<open>Giving a line back\<close>

text \<open>\<open>canceled x s s'\<close>: line \<open>x\<close> is free again.\<close>

definition canceled :: "nat \<Rightarrow> 'z cl_state_scheme \<Rightarrow> 'z cl_state_scheme \<Rightarrow> bool" where
  "canceled x s s' \<longleftrightarrow> collision_table_entries s' = collision_table_entries s \<and> same_locks s s' \<and>
     cached s' = (cached s)(line_key s x := None) \<and> (\<forall>w y. marked w s' y = marked w s y) \<and>
     (\<forall>y. partition_id (lru_meta s' y) = (if y = x then PARTITION_FREELIST else partition_id (lru_meta s y))) \<and>
     (\<forall>y. y \<noteq> x \<longrightarrow> line_key s' y = line_key s y) \<and> \<not> mapped s' x \<and>
     (\<forall>y. access_of (cl_locks s') y = (if y = x then OCF_CACHE_LINE_ACCESS_IDLE else access_of (cl_locks s) y)) \<and>
     waiters_lsts (cl_locks s') = waiters_lsts (cl_locks s) \<and> num_waitlists (cl_locks s') = num_waitlists (cl_locks s)"

text \<open>A line that was given to the request: locked, empty, in the hash table, with no other request waiting for it.\<close>

definition pending :: "'z cl_state_scheme \<Rightarrow> nat \<Rightarrow> bool" where
  "pending s x \<longleftrightarrow> x < collision_table_entries s \<and> mapped s x \<and> partition_id (lru_meta s x) < OCF_USER_IO_CLASS_MAX \<and>
     (\<forall>w. marked w s x = {}) \<and> access_of (cl_locks s) x = OCF_CACHE_LINE_ACCESS_WR \<and>
     ocf_alock_waitlist_is_empty_locked (cl_locks s) x"

lemma invalid_empty_line:
  fixes s :: "'z cl_state_scheme"
  assumes ok: "lines_ok s rep" and p: "pending s x"
  shows "\<exists>t rep'. set_cache_line_invalid_no_flush s 0 (ocf_line_end_block s) x = Some t \<and> cl_locks t = cl_locks s \<and>
    core_rt t = core_rt s \<and> cache_inv t rep' \<and> (\<forall>y. homed s rep y \<longrightarrow> homed t rep' y) \<and> coll_inv t \<and>
    collision_table_entries t = collision_table_entries s \<and> same_locks s t \<and>
    cached t = (cached s)(line_key s x := None) \<and> (\<forall>w y. marked w t y = marked w s y) \<and> \<not> mapped t x \<and>
    (\<forall>y. partition_id (lru_meta t y) = (if y = x then PARTITION_FREELIST else partition_id (lru_meta s y))) \<and>
    (\<forall>y. y \<noteq> x \<longrightarrow> line_key t y = line_key s y)"
proof -
  note D = lines_okD [OF ok]
  have P: "x < collision_table_entries s" "mapped s x" "partition_id (lru_meta s x) < 34" "\<And>w. marked w s x = {}"
      "ocf_alock_waitlist_is_empty_locked (cl_locks s) x"
    using p by (simp_all add: pending_def)
  note W = whole_line [OF D(6) P(1)]
  let ?p = "partition_id (lru_meta s x)"
  obtain s1 where s1: "ocf_metadata_clear Valid s x 0 (ocf_line_end_block s) = Some (False, s1)" "line_kept x s s1" "marked Valid s1 x = {}"
      "same_map s s1" "hash_table s1 = hash_table s" "core_rt s1 = core_rt s" "cl_locks s1 = cl_locks s"
    using clear_full [OF D(6) P(1)] by blast
  note K1 = line_keptD [OF s1(2)] and M1 = same_mapD [OF s1(4)]
  have m1: "marked w s1 y = marked w s y" for w y
    using K1(10,13) s1(3) P(4) by (cases "y = x"; cases w) (auto simp: fun_eq_iff)
  have hx: "homed s1 rep x" "cache_inv s1 rep" using D(1,8) P(1) K1(1,2) by simp_all
  have nf: "PARTITION_FREELIST \<noteq> ?p" "PARTITION_FREELIST \<le> PARTITION_FREE_DETACHED" "?p \<le> 34"
    using P(3) by (simp_all add: PARTITION_FREELIST_def PARTITION_FREE_DETACHED_def)
  have fst: "fst (home s1 x) = ?p" using K1(7) by (simp add: home_def)
  obtain s2 where s2: "ocf_lru_repart_locked s1 x ?p PARTITION_FREELIST = Some s2" "placed_in x PARTITION_FREELIST s1 rep s2"
    using place_spec [OF hx(2) _ _ nf(2), of "home s1 x" x] hx(1) nf(1) by (auto simp: homed_def fst)
  obtain m Q rep' where m: "s2 = s1\<lparr>lru_meta := m, cparts := Q\<rparr>"
      "\<And>y. partition_id (m y) = (if y = x then PARTITION_FREELIST else partition_id (lru_meta s1 y))"
      "cache_inv s2 rep'" "\<And>y. homed s1 rep y \<Longrightarrow> homed s2 rep' y"
    using s2(2) unfolding placed_in_def reparted_def by blast
  have m2: "same_map s1 s2" "marked w s2 = marked w s1" for w
    by (simp_all add: m(1) same_map_def line_key_def marked_def fun_eq_iff)
  note M2 = same_mapD [OF m2(1)]
  have mp: "coll_inv s2" "mapped s2 x" "line_key s2 = line_key s" "cached s2 = cached s" using D(3) P(2) M1 M2 by simp_all
  obtain t where t: "ocf_metadata_remove_from_collision s2 x = Some t" "coll_inv t" "cached t = (cached s)(line_key s x := None)"
      "\<not> mapped t x" "dir_changed x (OCF_CORE_NUM, 2 ^ 46 - 1) s2 t"
    using remove_full [OF mp(1,2)] mp(3,4) by auto
  have T: "line_kept x s2 t" "same_locks s2 t" "\<And>w. marked w t x = marked w s2 x" "core_rt t = core_rt s2" "cl_locks t = cl_locks s2"
    using t(5) by (auto simp: dir_changed_def)
  note K = line_keptD [OF T(1)]
  have mk: "marked w t y = marked w s y" for w y
    using K(10,13) T(3) m2(2) m1 by (cases "y = x"; cases w) (auto simp: fun_eq_iff)
  have W: "ocf_cache_line_are_waiters (cl_locks s) x = Some False"
    using P(1,5) D(5) by (simp add: ocf_cache_line_are_waiters_def ocf_alock_waitlist_is_empty_def locks_quiet_def)
  have te: "ocf_metadata_test Valid s x 0 (ocf_line_end_block s) False = Some False"
    using ocf_metadata_test_eq [OF D(6) P(1) whole_line(1,2) [OF D(6) P(1)], of Valid False] P(4) by simp
  have pid: "ocf_metadata_get_partition_id s x = Some ?p" "ocf_metadata_get_partition_id s1 x = Some ?p" "core_id (collision s x) < OCF_CORE_NUM"
    using D(10) P(1,2) K1(7,9) s1(2) by (simp_all add: ocf_metadata_get_partition_id_def line_kept_def mapped_def)
  have pid2: "ocf_metadata_get_partition_id s2 x \<noteq> None"
    using D(10) P(1) K1(9) s1(2) by (simp add: m(1) ocf_metadata_get_partition_id_def line_kept_def)
  have op: "set_cache_line_invalid_no_flush s 0 (ocf_line_end_block s) x = Some t"
    using pid te s1(1,7) W s2(1) t(1) P(1) nf(3) pid2
    by (auto simp: set_cache_line_invalid_no_flush_def ocf_metadata_get_core_and_part_id_def raw_bug_on_def set_cache_line_invalid_sub_def
        metadata_clear_valid_sec_changed_def ocf_lru_rm_cline_def ocf_lru_repart_def ocf_metadata_remove_cache_line_def)
  have "cl_locks t = cl_locks s" "core_rt t = core_rt s" "collision_table_entries t = collision_table_entries s"
    using T(4,5) s1(6,7) K(9) K1(9) by (simp_all add: m(1))
  moreover have "cache_inv t rep'" "\<And>y. homed s rep y \<Longrightarrow> homed t rep' y" using m(3,4) K(1,2) K1(2) by simp_all
  moreover have "same_locks s t" using T(2) s1(5) by (simp add: m(1) same_locks_def)
  moreover have "partition_id (lru_meta t y) = (if y = x then PARTITION_FREELIST else partition_id (lru_meta s y))" for y
    using m(2) [of y] K(7) K1(7) by (simp add: m(1))
  moreover have "line_key t y = line_key s y" if "y \<noteq> x" for y using K(12) [OF that] mp(3) by simp
  ultimately show ?thesis using op t(2-4) mk by (intro exI [of _ t] exI [of _ rep']) simp
qed

lemma cancel_spec:
  fixes s :: "'z cl_state_scheme" and req :: "'y sp_req_scheme"
  assumes ok: "lines_ok s rep" and p: "pending s x" and i: "m_status (rq_map req i) = LOOKUP_REMAPPED" "coll_idx (rq_map req i) = x"
  shows "\<exists>s' rep'. cancel_entry i req s = Some (put_entry i (\<lambda>e. e\<lparr>m_status := LOOKUP_MISS\<rparr>) req, s') \<and> canceled x s s' \<and> lines_ok s' rep' \<and>
    alock_status (reqs (cl_locks s') (rq_id req)) = alock_status (reqs (cl_locks s) (rq_id req)) - {i}"
proof -
  note D = lines_okD [OF ok]
  have P: "x < collision_table_entries s" "access_of (cl_locks s) x = 255" "ocf_alock_waitlist_is_empty_locked (cl_locks s) x" "\<And>w. marked w s x = {}"
    using p by (simp_all add: pending_def)
  obtain t rep' where T: "set_cache_line_invalid_no_flush s 0 (ocf_line_end_block s) x = Some t" "cl_locks t = cl_locks s"
      "core_rt t = core_rt s" "cache_inv t rep'" "\<And>y. homed s rep y \<Longrightarrow> homed t rep' y" "coll_inv t"
      "collision_table_entries t = collision_table_entries s" "same_locks s t"
      "cached t = (cached s)(line_key s x := None)" "\<And>w y. marked w t y = marked w s y" "\<not> mapped t x"
      "\<And>y. partition_id (lru_meta t y) = (if y = x then PARTITION_FREELIST else partition_id (lru_meta s y))"
      "\<And>y. y \<noteq> x \<Longrightarrow> line_key t y = line_key s y"
    using invalid_empty_line [OF ok p] by blast
  define al where "al = ocf_alock_mark_index_locked (rq_id req) i False (cl_locks s)"
  define al0 where "al0 = set_access x 0 al"
  define t1 where "t1 = t\<lparr>cl_locks := al\<rparr>"
  define s' where "s' = t\<lparr>cl_locks := al0\<rparr>"
  have A: "access_of al = access_of (cl_locks s)" "waiters_lsts al = waiters_lsts (cl_locks s)" "num_waitlists al = num_waitlists (cl_locks s)"
      "num_entries al = num_entries (cl_locks s)"
    by (simp_all add: al_def ocf_alock_mark_index_locked_def upd_req_def)
  have A0: "access_of al0 y = (if y = x then 0 else access_of (cl_locks s) y)" "waiters_lsts al0 = waiters_lsts (cl_locks s)"
      "num_waitlists al0 = num_waitlists (cl_locks s)" "num_entries al0 = num_entries (cl_locks s)" for y
    using A by (simp_all add: al0_def set_access_def)
  have wl: "ocf_alock_waitlist_is_empty_locked al0 y = ocf_alock_waitlist_is_empty_locked (cl_locks s) y" for y
    by (simp add: ocf_alock_waitlist_is_empty_locked_def WAITERS_LIST_ITEM_def A0)
  have q: "locks_quiet s'" using D(5) P(3) wl A0 T(7) by (auto simp: locks_quiet_def s'_def split: if_splits)
  have "set_access x 255 al0 = al" using P(2) A(1) by (simp add: al0_def set_access_def fun_upd_idem)
  then have lk: "cl_locks t1 = cl_locks (locked x s')" by (simp add: t1_def s'_def locked_def)
  have un: "line_unlock x t1 = Some s'"
    using line_unlock_eq [OF q _ _ lk] P(1) T(7) A0(1) by (simp add: s'_def t1_def)
  have op: "cancel_entry i req s = Some (put_entry i (\<lambda>e. e\<lparr>m_status := LOOKUP_MISS\<rparr>) req, s')"
    using T(1,2) i un by (simp add: cancel_entry_def put_entry_def Let_def al_def t1_def)
  note F = relock_fields [where s = t and al = al0, folded s'_def]
  have g: "partition_id (lru_meta s' y) = partition_id (lru_meta t y)" "collision_table_entries s' = collision_table_entries s" "hash_table s' = hash_table t" for y
    using T(7) by (simp_all add: s'_def)
  have can: "canceled x s s'"
    unfolding canceled_def using T(8-13) F A0 g by (simp add: same_locks_def) (simp add: s'_def A0)
  have mp: "mapped t y = mapped s y" if "y \<noteq> x" for y using T(7) T(13) [OF that] by (auto simp: mapped_def line_key_def)
  have "tally w t c Q = tally w s c Q" for w c Q
  proof (rule tally_same)
    fix y
    show "counts w t c Q y = counts w s c Q y"
    proof (cases "y = x")
      case False
      then show ?thesis using T(10,12) T(13) [of y] by (simp add: counts_def line_key_def)
    qed (use P(4) T(10) in \<open>simp add: counts_def\<close>)
  qed (use T(7) in simp)
  then have "counters_ok t" using D(2) T(3) by (simp add: counters_ok_def)
  then have ci: "cl_inv s' rep'" using T(4) F(1) by (simp add: cl_inv_def)
  have lo: "line_ok s' y" if y: "y < collision_table_entries s" for y
  proof (cases "y = x")
    case True
    then show ?thesis using T(10,11,12) P(4) F(4,5) g(1) by (simp add: line_ok_def)
  next
    case False
    then show ?thesis using D(9) [OF y] T(10,12) mp [OF False] F(4,5) g(1) A0(1) unfolding line_ok_def by (simp add: s'_def)
  qed
  have "lines_ok s' rep'" unfolding lines_ok_def using ci T(6) F(2,3) q lo D(8) T(5) g(2) by simp
  moreover have "alock_status (reqs (cl_locks s') (rq_id req)) = alock_status (reqs (cl_locks s) (rq_id req)) - {i}"
    by (simp add: s'_def al0_def al_def set_access_def ocf_alock_mark_index_locked_def upd_req_def)
  ultimately show ?thesis using op can by blast
qed

subsection \<open>Giving all lines back\<close>

definition canceled_all :: "nat set \<Rightarrow> 'z cl_state_scheme \<Rightarrow> 'z cl_state_scheme \<Rightarrow> bool" where
  "canceled_all X s s' \<longleftrightarrow> collision_table_entries s' = collision_table_entries s \<and> same_locks s s' \<and>
     (\<forall>k. cached s' k = (if k \<in> line_key s ` X then None else cached s k)) \<and> (\<forall>w y. marked w s' y = marked w s y) \<and>
     (\<forall>y. partition_id (lru_meta s' y) = (if y \<in> X then PARTITION_FREELIST else partition_id (lru_meta s y))) \<and>
     (\<forall>y. y \<notin> X \<longrightarrow> line_key s' y = line_key s y) \<and> (\<forall>y \<in> X. \<not> mapped s' y) \<and>
     (\<forall>y. access_of (cl_locks s') y = (if y \<in> X then OCF_CACHE_LINE_ACCESS_IDLE else access_of (cl_locks s) y)) \<and>
     waiters_lsts (cl_locks s') = waiters_lsts (cl_locks s) \<and> num_waitlists (cl_locks s') = num_waitlists (cl_locks s)"

lemma canceled_all_empty: "canceled_all {} s s"
  by (simp add: canceled_all_def same_locks_def)

lemma canceled_all_insert:
  assumes a: "canceled x s s1" and b: "canceled_all X s1 s'" and x: "x \<notin> X"
  shows "canceled_all (insert x X) s s'"
proof -
  note A = a [unfolded canceled_def] and B = b [unfolded canceled_all_def]
  have k: "line_key s1 y = line_key s y" if "y \<noteq> x" for y using A that by blast
  then have "line_key s1 ` X = line_key s ` X" using x by (intro image_cong refl k) auto
  moreover have "cached s1 = (cached s)(line_key s x := None)" using A by blast
  moreover have "cached s' k = (if k \<in> line_key s1 ` X then None else cached s1 k)" for k using B by blast
  ultimately have "cached s' k = (if k \<in> line_key s ` insert x X then None else cached s k)" for k by simp
  moreover have "line_key s' x = line_key s1 x" "collision_table_entries s' = collision_table_entries s1" using B x by auto
  then have "\<not> mapped s' x" using A by (simp add: mapped_def line_key_def)
  moreover have "same_locks s s'" using A B same_locks_trans by blast
  ultimately show ?thesis unfolding canceled_all_def using A B k by auto
qed

lemma pending_canceled:
  assumes "canceled x s s'" "pending s y" "y \<noteq> x"
  shows "pending s' y"
proof -
  note A = assms(1) [unfolded canceled_def]
  have "line_key s' y = line_key s y" "collision_table_entries s' = collision_table_entries s" using A assms(3) by auto
  then have "mapped s' y = mapped s y" by (auto simp: mapped_def line_key_def)
  moreover have "ocf_alock_waitlist_is_empty_locked (cl_locks s') y = ocf_alock_waitlist_is_empty_locked (cl_locks s) y"
    using A by (simp add: ocf_alock_waitlist_is_empty_locked_def WAITERS_LIST_ITEM_def)
  ultimately show ?thesis using A assms(2,3) by (simp add: pending_def)
qed

abbreviation entry_remapped :: "'y cl_req_scheme \<Rightarrow> nat \<Rightarrow> bool" where
  "entry_remapped req i \<equiv> m_status (rq_map req i) = LOOKUP_REMAPPED"

abbreviation entry_line :: "'y cl_req_scheme \<Rightarrow> nat \<Rightarrow> nat" where
  "entry_line req i \<equiv> coll_idx (rq_map req i)"

lemma cancel_loop_spec:
  fixes s :: "'z cl_state_scheme" and req :: "'y sp_req_scheme"
  assumes "lines_ok s rep" "distinct is" "inj_on (entry_line req) {i \<in> set is. entry_remapped req i}"
    "\<And>i. i \<in> set is \<Longrightarrow> entry_remapped req i \<Longrightarrow> pending s (entry_line req i)"
  shows "\<exists>m s' rep'. cancel_loop is req s = Some (req\<lparr>rq_map := m\<rparr>, s') \<and> lines_ok s' rep' \<and>
    canceled_all (entry_line req ` {i \<in> set is. entry_remapped req i}) s s' \<and>
    (\<forall>i. m i = (if i \<in> set is \<and> entry_remapped req i then (rq_map req i)\<lparr>m_status := LOOKUP_MISS\<rparr> else rq_map req i)) \<and>
    alock_status (reqs (cl_locks s') (rq_id req)) = alock_status (reqs (cl_locks s) (rq_id req)) - {i \<in> set is. entry_remapped req i}"
  using assms
proof (induction "is" arbitrary: req s rep)
  case Nil
  then show ?case by (intro exI [of _ "rq_map req"] exI [of _ s]) (auto simp: canceled_all_empty)
next
  case (Cons i "is")
  show ?case
  proof (cases "entry_remapped req i")
    case False
    then have e: "{j \<in> set (i # is). entry_remapped req j} = {j \<in> set is. entry_remapped req j}" by auto
    have op: "cancel_entry i req s = Some (req, s)" using False by (simp add: cancel_entry_def split: lookup_status.splits)
    obtain m s' rep' where R: "cancel_loop is req s = Some (req\<lparr>rq_map := m\<rparr>, s')" "lines_ok s' rep'"
        "canceled_all (entry_line req ` {j \<in> set is. entry_remapped req j}) s s'"
        "\<forall>j. m j = (if j \<in> set is \<and> entry_remapped req j then (rq_map req j)\<lparr>m_status := LOOKUP_MISS\<rparr> else rq_map req j)"
        "alock_status (reqs (cl_locks s') (rq_id req)) = alock_status (reqs (cl_locks s) (rq_id req)) - {j \<in> set is. entry_remapped req j}"
      using Cons.IH [OF Cons.prems(1), of req] Cons.prems(2-4) unfolding e by auto
    have "cancel_loop (i # is) req s = Some (req\<lparr>rq_map := m\<rparr>, s')" using op R(1) by simp
    moreover have "\<forall>j. m j = (if j \<in> set (i # is) \<and> entry_remapped req j then (rq_map req j)\<lparr>m_status := LOOKUP_MISS\<rparr> else rq_map req j)"
      using R(4) False by auto
    ultimately show ?thesis unfolding e using R(2,3,5) by blast
  next
    case True
    let ?x = "entry_line req i" and ?req = "put_entry i (\<lambda>e. e\<lparr>m_status := LOOKUP_MISS\<rparr>) req"
    let ?I = "{j \<in> set is. entry_remapped req j}"
    obtain s1 rep1 where C: "cancel_entry i req s = Some (?req, s1)" "canceled ?x s s1" "lines_ok s1 rep1"
        "alock_status (reqs (cl_locks s1) (rq_id req)) = alock_status (reqs (cl_locks s) (rq_id req)) - {i}"
      using cancel_spec [OF Cons.prems(1) Cons.prems(4) [OF _ True] True refl] by auto
    have i: "i \<notin> set is" "distinct is" using Cons.prems(2) by auto
    have m: "rq_map ?req j = (if j = i then (rq_map req i)\<lparr>m_status := LOOKUP_MISS\<rparr> else rq_map req j)" for j by (simp add: put_entry_def)
    have I: "{j \<in> set is. entry_remapped ?req j} = ?I" using i m by auto
    have L: "entry_line ?req ` ?I = entry_line req ` ?I" using i m by (intro image_cong) auto
    have all: "{j \<in> set (i # is). entry_remapped req j} = insert i ?I" using True by auto
    have nx: "?x \<notin> entry_line req ` ?I" using Cons.prems(3) i(1) unfolding all by (auto simp: inj_on_def)
    have el: "entry_line ?req j = entry_line req j" for j using m [of j] by simp
    have inj: "inj_on (entry_line ?req) {j \<in> set is. entry_remapped ?req j}"
      unfolding I el using Cons.prems(3) unfolding all by simp
    have pend: "pending s1 (entry_line ?req j)" if "j \<in> set is" "entry_remapped ?req j" for j
    proof -
      have j: "j \<in> ?I" using that I by blast
      then have "entry_line req j \<noteq> ?x" using nx by (metis (no_types, lifting) imageI)
      moreover have "pending s (entry_line req j)" using Cons.prems(4) [of j] j by simp
      ultimately show ?thesis using pending_canceled [OF C(2)] unfolding el by simp
    qed
    obtain f s' rep' where R: "cancel_loop is ?req s1 = Some (?req\<lparr>rq_map := f\<rparr>, s')" "lines_ok s' rep'"
        "canceled_all (entry_line req ` ?I) s1 s'"
        "\<forall>j. f j = (if j \<in> set is \<and> entry_remapped ?req j then (rq_map ?req j)\<lparr>m_status := LOOKUP_MISS\<rparr> else rq_map ?req j)"
        "alock_status (reqs (cl_locks s') (rq_id req)) = alock_status (reqs (cl_locks s1) (rq_id req)) - ?I"
      using Cons.IH [OF C(3) i(2) inj pend] unfolding I L by (auto simp: put_entry_def)
    have "cancel_loop (i # is) req s = Some (req\<lparr>rq_map := f\<rparr>, s')" using C(1) R(1) by (simp add: put_entry_def)
    moreover have "f j = (if j \<in> set (i # is) \<and> entry_remapped req j then (rq_map req j)\<lparr>m_status := LOOKUP_MISS\<rparr> else rq_map req j)" for j
      using R(4) m [of j] True i(1) by auto
    moreover have "canceled_all (entry_line req ` {j \<in> set (i # is). entry_remapped req j}) s s'"
      unfolding all using canceled_all_insert [OF C(2) R(3) nx] by simp
    moreover have "alock_status (reqs (cl_locks s') (rq_id req)) = alock_status (reqs (cl_locks s) (rq_id req)) - {j \<in> set (i # is). entry_remapped req j}"
      unfolding all using R(5) C(4) by auto
    ultimately show ?thesis using R(2) by blast
  qed
qed

subsection \<open>Properties\<close>

text \<open>The lines that finding space gave to the request can be taken back.\<close>

lemma assigned_pending:
  fixes req :: "'y sp_req_scheme" and s :: "'z cl_state_scheme"
  assumes ok: "lines_ok s rep" "lines_ok s' rep'" and rr: "req_ready req s" and a: "assigned ts req s req' s'"
    and f: "map fst ts = take (length ts) (misses req 0)" and jx: "(j, x) \<in> set ts"
  shows "pending s' x"
proof -
  note E = assigned_effect(1) [OF ok rr a f jx]
  have "j \<in> set (misses req 0)" using jx f by (metis fst_conv image_eqI in_set_takeD list.set_map)
  then have "rq_core req < OCF_CORE_NUM" using rr by (auto simp: misses_def req_ready_def key_ok_def)
  moreover have k: "x < collision_table_entries s" "line_key s' x = (rq_core req, line_first req + j)" "collision_table_entries s' = collision_table_entries s"
      "waiters_lsts (cl_locks s') = waiters_lsts (cl_locks s)" "num_waitlists (cl_locks s') = num_waitlists (cl_locks s)"
    using a jx unfolding assigned_def by blast+
  moreover have "ocf_alock_waitlist_is_empty_locked (cl_locks s) x" using E lines_okD(5) [OF ok(1)] unfolding locks_quiet_def by blast
  moreover have "marked w s' x = {}" for w using E assigned_effect(3) [OF ok rr a f, of x] by (cases w) auto
  moreover have "rq_part req < 34" using rr by (simp add: req_ready_def)
  ultimately show ?thesis using E
    by (simp add: pending_def mapped_def line_key_def ocf_alock_waitlist_is_empty_locked_def WAITERS_LIST_ITEM_def)
qed

lemma unlock_nothing:
  assumes "alock_status (reqs al r) = {}"
  shows "ocf_req_unlock r al = Some al"
proof -
  have "req_unlock_loop rw r is al = Some al" for rw "is"
    using assms by (induction "is") (simp_all add: ocf_alock_is_index_locked_def)
  then show ?thesis by (simp add: ocf_req_unlock_def ocf_req_unlock_rd_def ocf_req_unlock_wr_def)
qed

lemma rollback_spec:
  fixes req :: "'y sp_req_scheme"
  assumes "parts_ok u" "lines_ok (cl u) rep" "req_ready req (cl u)" "counted req"
    "\<And>i. i < rq_count req \<Longrightarrow> \<not> entry_remapped req i" "alock_status (reqs (cl_locks (cl u)) (rq_id req)) = {}"
  shows "\<exists>ts req1 u1 rep1. ocf_space_managment_remap_do (ocf_eviction_req_clines lfu) req u =
      Some (if misses req1 0 = [] then LOOKUP_REMAPPED else LOOKUP_MISS, req1, u1) \<and> lines_ok (cl u1) rep1 \<and>
    assigned ts req (cl u) req1 (cl u1) \<and> map fst ts = take (length ts) (misses req 0) \<and>
    (\<exists>m s' rep'. cancel_loop [0..<rq_count req] (put_info g req1) (cl u1) = Some ((put_info g req1)\<lparr>rq_map := m\<rparr>, s') \<and> lines_ok s' rep' \<and>
      canceled_all (snd ` set ts) (cl u1) s' \<and> (\<forall>i. m_status (m i) = m_status (rq_map req i)) \<and>
      alock_status (reqs (cl_locks s') (rq_id req)) = {})"
proof -
  obtain xs where l: "parts_list u xs" using assms(1) by (rule parts_list_ok)
  have ok: "space_ok req u" using assms(2-4) by (auto simp: space_ok_def)
  have p: "rq_part req \<le> PARTITION_FREE_DETACHED" using assms(3) by (simp add: req_ready_def PARTITION_FREE_DETACHED_def)
  obtain k req1 u1 where R: "ocf_space_managment_remap_do (ocf_eviction_req_clines lfu) req u =
      Some (if ocf_engine_unmapped_count req1 = 0 then LOOKUP_REMAPPED else LOOKUP_MISS, req1, u1)" "space_took k req u req1 u1"
    using lru_source.managment_spec [OF l ok p] by blast
  obtain ts rep1 where T: "length ts = k" "assigned ts req (cl u) req1 (cl u1)" "map fst ts = take (length ts) (misses req 0)" "lines_ok (cl u1) rep1"
    using R(2) by (auto simp: space_took_def)
  have c: "counted req1" using space_took_ok [OF R(2) ok] by (simp add: space_ok_def)
  have d: "distinct (map fst ts)" "distinct (map snd ts)" "rq_id req1 = rq_id req" "rq_count req1 = rq_count req"
      "alock_status (reqs (cl_locks (cl u1)) (rq_id req)) = fst ` set ts" using T(2) assms(6) by (simp_all add: assigned_def)
  have m: "rq_map req1 j = (case map_of ts j of None \<Rightarrow> rq_map req j | Some x \<Rightarrow> (rq_map req j)\<lparr>coll_idx := x, m_status := LOOKUP_REMAPPED\<rparr>)" for j
    using T(2) by (simp add: assigned_def)
  have ms: "j < rq_count req \<and> m_status (rq_map req j) = LOOKUP_MISS" if "j \<in> fst ` set ts" for j
  proof -
    have "j \<in> set (take (length ts) (misses req 0))" using that T(3) by (metis list.set_map)
    then have "j \<in> set (misses req 0)" by (rule in_set_takeD)
    then show ?thesis by (simp add: misses_def)
  qed
  have rm: "{i \<in> set [0..<rq_count req]. entry_remapped req1 i} = fst ` set ts"
    using ms assms(5) m by (auto simp: map_of_eq_None_iff split: option.splits)
  have ln: "entry_line req1 (fst jx) = snd jx" if "jx \<in> set ts" for jx
    using m [of "fst jx"] map_of_is_SomeI [OF d(1), of "fst jx" "snd jx"] that by simp
  have li: "entry_line req1 ` fst ` set ts = snd ` set ts" using ln by (force simp: image_image)
  have inj: "inj_on (entry_line req1) {i \<in> set [0..<rq_count req]. entry_remapped req1 i}"
    unfolding rm using d(2) ln by (auto simp: inj_on_def distinct_map)
  have pend: "pending (cl u1) (entry_line req1 i)" if i: "i \<in> set [0..<rq_count req]" "entry_remapped req1 i" for i
  proof -
    have "i \<in> fst ` set ts" using rm i by blast
    then obtain x where x: "(i, x) \<in> set ts" by auto
    show ?thesis using assigned_pending [OF assms(2) T(4) assms(3) T(2,3) x] ln [OF x] by simp
  qed
  have pi: "rq_map (put_info g req1) = rq_map req1" "rq_id (put_info g req1) = rq_id req1" by (simp_all add: put_info_def)
  obtain f s' rep' where C: "cancel_loop [0..<rq_count req] (put_info g req1) (cl u1) = Some ((put_info g req1)\<lparr>rq_map := f\<rparr>, s')" "lines_ok s' rep'"
      "canceled_all (snd ` set ts) (cl u1) s'"
      "\<And>i. f i = (if i \<in> set [0..<rq_count req] \<and> entry_remapped req1 i then (rq_map req1 i)\<lparr>m_status := LOOKUP_MISS\<rparr> else rq_map req1 i)"
      "alock_status (reqs (cl_locks s') (rq_id req)) = {}"
    using cancel_loop_spec [OF T(4) distinct_upt inj [folded pi(1)] pend [folded pi(1)], unfolded pi rm li d(3,5) Diff_cancel] by blast
  have st: "m_status (f i) = m_status (rq_map req i)" for i
  proof (cases "i \<in> fst ` set ts")
    case True
    then have "entry_remapped req1 i" "i < rq_count req" using rm by auto
    then show ?thesis using C(4) [of i] ms [OF True] by simp
  next
    case False
    then have "map_of ts i = None" by (simp add: map_of_eq_None_iff)
    moreover have "\<not> (i \<in> set [0..<rq_count req] \<and> entry_remapped req1 i)" using False rm by blast
    ultimately show ?thesis using C(4) [of i] m [of i] by simp
  qed
  have "ocf_space_managment_remap_do (ocf_eviction_req_clines lfu) req u =
      Some (if misses req1 0 = [] then LOOKUP_REMAPPED else LOOKUP_MISS, req1, u1)" using R(1) counted_unmapped [OF c] by simp
  then show ?thesis using T(2-4) C(1-3,5) st by blast
qed

lemma lines_ok_relock:
  fixes s :: "'z cl_state_scheme"
  assumes "access_of al = access_of (cl_locks s)" "waiters_lsts al = waiters_lsts (cl_locks s)" "num_waitlists al = num_waitlists (cl_locks s)"
    "num_entries al = num_entries (cl_locks s)"
  shows "lines_ok (s\<lparr>cl_locks := al\<rparr>) rep = lines_ok s rep"
  using assms relock_fields [where s = s and al = al]
  by (simp add: lines_ok_def locks_quiet_def line_ok_def ocf_alock_waitlist_is_empty_locked_def WAITERS_LIST_ITEM_def)

lemma see_map_simps [simp]:
  "access_of (see_map req al) = access_of al" "waiters_lsts (see_map req al) = waiters_lsts al" "num_waitlists (see_map req al) = num_waitlists al"
  "num_entries (see_map req al) = num_entries al" "alock_status (reqs (see_map req al) r) = alock_status (reqs al r)"
  by (simp_all add: see_map_def upd_req_def)

lemma assigned_idle:
  assumes "assigned ts req s req' s'" "x \<in> snd ` set ts"
  shows "access_of (cl_locks s) x = 0 \<and> marked Dirty s x = {}"
proof -
  obtain j where "(j, x) \<in> set ts" using assms(2) by auto
  then have "takeable req (partition_id (lru_meta s x)) s x" "marked Dirty s x = {}" using assms(1) unfolding assigned_def by blast+
  then show ?thesis by (simp add: takeable_def grabbable_def split: if_splits)
qed

text \<open>After the lines were given and taken back the cache has lost at most core lines of clean, unused lines.\<close>

lemma rollback_effect:
  fixes req :: "'y sp_req_scheme" and s :: "'z cl_state_scheme"
  assumes ok: "lines_ok s rep" "lines_ok s1 rep1" and rr: "req_ready req s" and a: "assigned ts req s req1 s1"
    and f: "map fst ts = take (length ts) (misses req 0)" and c: "canceled_all (snd ` set ts) s1 s'"
  shows "access_of (cl_locks s') x = access_of (cl_locks s) x" "marked Dirty s' x = marked Dirty s x" "same_locks s s'"
    "cached s' k = Some x \<Longrightarrow> cached s k = Some x \<and> marked Valid s' x = marked Valid s x"
    "cached s k = Some x \<Longrightarrow> access_of (cl_locks s) x \<noteq> 0 \<or> marked Dirty s x \<noteq> {} \<Longrightarrow>
       cached s' k = Some x \<and> marked Valid s' x = marked Valid s x"
proof -
  let ?X = "snd ` set ts"
  note E = assigned_effect [OF ok rr a f]
  have K: "access_of (cl_locks s') x = (if x \<in> ?X then 0 else access_of (cl_locks s1) x)" "same_locks s1 s'" "marked w s' x = marked w s1 x"
      "cached s' k = (if k \<in> line_key s1 ` ?X then None else cached s1 k)" for x k w
    using c unfolding canceled_all_def by blast+
  note x0 = assigned_idle [OF a]
  show "access_of (cl_locks s') x = access_of (cl_locks s) x"
  proof -
    have "access_of (cl_locks s1) x = (if x \<in> ?X then 255 else access_of (cl_locks s) x)" using a unfolding assigned_def by blast
    then show ?thesis using x0 [of x] K(1) [of x] by simp
  qed
  show "same_locks s s'" by (rule same_locks_trans [OF E(6) K(2)])
  show "marked Dirty s' x = marked Dirty s x" using K(3) E(3) by simp
  have uq: "unique_keys s" "unique_keys s1" using lines_okD(3) [OF ok(1)] lines_okD(3) [OF ok(2)] by (simp_all add: coll_inv_def)
  have "marked Valid s1 x = (if x \<in> ?X then {} else marked Valid s x)" for x using a unfolding assigned_def by blast
  then have mv: "marked Valid s' x = marked Valid s x" if "x \<notin> ?X" for x using K(3) that by simp
  show "cached s k = Some x \<and> marked Valid s' x = marked Valid s x" if "cached s' k = Some x"
  proof -
    have c1: "cached s1 k = Some x" "k \<notin> line_key s1 ` ?X" using that K(4) [of k] by (auto split: if_splits)
    then have k1: "mapped s1 x" "line_key s1 x = k" by (simp_all add: cached_eq_Some [OF uq(2)])
    then have nx: "x \<notin> ?X" using c1(2) by blast
    then have "line_key s1 x = line_key s x" using a unfolding assigned_def by blast
    moreover have "collision_table_entries s1 = collision_table_entries s" using a by (simp add: assigned_def)
    ultimately show ?thesis using k1 mv [OF nx] by (auto simp: cached_eq_Some [OF uq(1)] mapped_def line_key_def)
  qed
  show "cached s' k = Some x \<and> marked Valid s' x = marked Valid s x"
    if "cached s k = Some x" "access_of (cl_locks s) x \<noteq> 0 \<or> marked Dirty s x \<noteq> {}"
  proof -
    have nx: "x \<notin> ?X"
    proof
      assume "x \<in> ?X"
      from x0 [OF this] that(2) show False by simp
    qed
    have c1: "cached s1 k = Some x" using E(2) [OF that(1) nx] by simp
    have "k \<notin> line_key s1 ` ?X"
    proof
      assume "k \<in> line_key s1 ` ?X"
      then obtain j y where y: "(j, y) \<in> set ts" "line_key s1 y = k" by auto
      have "line_key s1 y = (rq_core req, line_first req + j)" using a y(1) unfolding assigned_def by blast
      then have "cached s1 k = Some y" using E(1) [OF y(1)] y(2) by simp
      then have "x = y" using c1 by simp
      then show False using nx imageI [OF y(1), of snd] by simp
    qed
    then show ?thesis using K(4) [of k] c1 mv [OF nx] by simp
  qed
qed

text \<open>C13: Mapping the missing core lines of a request never fails an assertion, and the cache stays consistent. Without a mapping error
  every missing core line is in the line of its entry, which the request has locked. With a mapping error everything is given
  back: the entries of the request are missing as before, no line stays locked, cleaning is requested, and the cache has
  no core line that it did not have before. In both cases lines that are dirty or in use keep their core lines and data.\<close>

theorem prepare_miss_correct:
  fixes req :: "'y sp_req_scheme"
  assumes "parts_ok u" "lines_ok (cl u) rep" "req_ready req (cl u)" "counted req" "\<not> mapping_error (rinfo req)"
    "\<forall>i < rq_count req. m_status (rq_map req i) \<noteq> LOOKUP_REMAPPED" "alock_status (reqs (cl_locks (cl u)) (rq_id req)) = {}"
  shows "\<exists>req' u' rep'. ocf_prepare_clines_miss (ocf_eviction_req_clines lfu) req u = Some (\<not> mapping_error (rinfo req'), req', u') \<and>
    lines_ok (cl u') rep' \<and> same_locks (cl u) (cl u') \<and> (\<forall>x. marked Dirty (cl u') x = marked Dirty (cl u) x) \<and>
    (\<forall>k x. cached (cl u) k = Some x \<longrightarrow> access_of (cl_locks (cl u)) x \<noteq> 0 \<or> marked Dirty (cl u) x \<noteq> {} \<longrightarrow>
       cached (cl u') k = Some x \<and> marked Valid (cl u') x = marked Valid (cl u) x) \<and>
    (if mapping_error (rinfo req')
     then cleaning_required (rinfo req') \<and> (\<forall>i. m_status (rq_map req' i) = m_status (rq_map req i)) \<and>
       (\<forall>x. access_of (cl_locks (cl u')) x = access_of (cl_locks (cl u)) x) \<and> alock_status (reqs (cl_locks (cl u')) (rq_id req)) = {} \<and>
       (\<forall>k x. cached (cl u') k = Some x \<longrightarrow> cached (cl u) k = Some x \<and> marked Valid (cl u') x = marked Valid (cl u) x)
     else \<forall>i < rq_count req. m_status (rq_map req i) = LOOKUP_MISS \<longrightarrow>
       cached (cl u') (rq_core req, line_first req + i) = Some (coll_idx (rq_map req' i)) \<and>
       access_of (cl_locks (cl u')) (coll_idx (rq_map req' i)) = OCF_CACHE_LINE_ACCESS_WR \<and>
       i \<in> alock_status (reqs (cl_locks (cl u')) (rq_id req)))"
proof -
  define q where "q = req\<lparr>part_evict := \<not> ocf_user_part_has_space req u\<rparr>"
  have F: "rq_map q = rq_map req" "rq_count q = rq_count req" "rq_id q = rq_id req" "rq_core q = rq_core req" "line_first q = line_first req"
      "rinfo q = rinfo req" "misses q 0 = misses req 0" "req_ready q (cl u)" "counted q"
    using assms(3,4) by (simp_all add: q_def misses_def req_ready_def counted_def)
  define g where "g = (\<lambda>f :: ocf_req_info. f\<lparr>mapping_error := True, cleaning_required := True\<rparr>)"
  obtain ts req1 u1 rep1 m s' rep' where R: "ocf_space_managment_remap_do (ocf_eviction_req_clines lfu) q u =
      Some (if misses req1 0 = [] then LOOKUP_REMAPPED else LOOKUP_MISS, req1, u1)" "lines_ok (cl u1) rep1"
    "assigned ts q (cl u) req1 (cl u1)" "map fst ts = take (length ts) (misses q 0)"
    "cancel_loop [0..<rq_count q] (put_info g req1) (cl u1) = Some ((put_info g req1)\<lparr>rq_map := m\<rparr>, s')" "lines_ok s' rep'"
    "canceled_all (snd ` set ts) (cl u1) s'" "\<forall>i. m_status (m i) = m_status (rq_map q i)" "alock_status (reqs (cl_locks s') (rq_id q)) = {}"
    using rollback_spec [where req = q and lfu = lfu and g = g, OF assms(1,2) F(8,9)] assms(6,7) F(1-3) by auto
  note E = assigned_effect [OF assms(2) R(2) F(8) R(3,4)]
  have G: "mapping_error (rinfo req1) = mapping_error (rinfo req)" "rq_id req1 = rq_id req" "rq_count req1 = rq_count req"
      "alock_status (reqs (cl_locks (cl u1)) (rq_id req)) = fst ` set ts"
    using R(3) F assms(7) by (simp_all add: assigned_def)
  show ?thesis
  proof (cases "misses req1 0 = []")
    case True
    have fs: "fst ` set ts = set (misses req 0)"
      using True misses_assigned [OF R(3,4)] R(4) F(7) by (metis append_Nil2 append_take_drop_id list.set_map)
    have e: "\<exists>x. (i, x) \<in> set ts" if "i < rq_count req" "m_status (rq_map req i) = LOOKUP_MISS" for i
    proof -
      have "i \<in> fst ` set ts" unfolding fs using that by (simp add: misses_def)
      then show ?thesis by auto
    qed
    have "ocf_prepare_clines_miss (ocf_eviction_req_clines lfu) req u = Some (\<not> mapping_error (rinfo req1), req1, u1)"
      using R(1) True by (simp add: ocf_prepare_clines_miss_def ocf_engine_remap_def q_def Let_def)
    moreover have "cached (cl u1) (rq_core req, line_first req + i) = Some (coll_idx (rq_map req1 i)) \<and>
       access_of (cl_locks (cl u1)) (coll_idx (rq_map req1 i)) = 255 \<and> i \<in> alock_status (reqs (cl_locks (cl u1)) (rq_id req))"
      if i: "i < rq_count req" "m_status (rq_map req i) = LOOKUP_MISS" for i
    proof -
      obtain x where x: "(i, x) \<in> set ts" using e [OF i] by blast
      then have "i \<in> fst ` set ts" using imageI [OF x, of fst] by simp
      then show ?thesis using E(1) [OF x] G(4) F(4,5) by simp
    qed
    moreover have "cached (cl u1) k = Some x \<and> marked Valid (cl u1) x = marked Valid (cl u) x"
      if "cached (cl u) k = Some x" "access_of (cl_locks (cl u)) x \<noteq> 0 \<or> marked Dirty (cl u) x \<noteq> {}" for k x
    proof (rule E(2) [OF that(1)])
      show "x \<notin> snd ` set ts" using assigned_idle [OF R(3), of x] that(2) by metis
    qed
    ultimately show ?thesis
      unfolding G(1) if_not_P [OF assms(5)] using R(2) E(3,6) G(1)
      by (intro exI [of _ req1] exI [of _ u1] exI [of _ rep1] conjI allI impI) (simp_all add: if_not_P [OF assms(5)])
  next
    case False
    define req' where "req' = (put_info g req1)\<lparr>rq_map := m\<rparr>"
    define al where "al = see_map req' (cl_locks s')"
    have i: "rq_id req' = rq_id req" "rq_count req' = rq_count req" "rq_map req' = m" "mapping_error (rinfo req')" "cleaning_required (rinfo req')"
      using G(2,3) by (simp_all add: req'_def put_info_def g_def)
    have a: "access_of al = access_of (cl_locks s')" "waiters_lsts al = waiters_lsts (cl_locks s')" "num_waitlists al = num_waitlists (cl_locks s')"
        "num_entries al = num_entries (cl_locks s')" "alock_status (reqs al (rq_id req)) = {}"
      using R(9) F(3) by (simp_all add: al_def)
    have op: "ocf_prepare_clines_miss (ocf_eviction_req_clines lfu) req u = Some (\<not> mapping_error (rinfo req'), req', u1\<lparr>cl := s'\<lparr>cl_locks := al\<rparr>\<rparr>)"
    proof -
      have "rq_count (put_info g req1) = rq_count req" using G(3) by (simp add: put_info_def)
      then have "ocf_engine_map_hndl_error (put_info g req1) (cl u1) = Some (req', s')" using R(5) F(2) by (simp add: ocf_engine_map_hndl_error_def req'_def)
      moreover have "ocf_req_unlock (rq_id req') (see_map req' (cl_locks s')) = Some al"
        using unlock_nothing [OF a(5)] i(1) by (simp add: al_def)
      ultimately show ?thesis
        using R(1) False by (simp add: ocf_prepare_clines_miss_def ocf_engine_remap_def q_def [symmetric] g_def [symmetric] Let_def)
    qed
    note Z = relock_fields [where s = s' and al = al]
    note B = rollback_effect [OF assms(2) R(2) F(8) R(3,4,7)]
    have lo: "lines_ok (s'\<lparr>cl_locks := al\<rparr>) rep'" using R(6) lines_ok_relock [OF a(1-4)] by simp
    define u' where "u' = u1\<lparr>cl := s'\<lparr>cl_locks := al\<rparr>\<rparr>"
    have U: "cl u' = s'\<lparr>cl_locks := al\<rparr>" "cached (cl u') = cached s'" "marked w (cl u') = marked w s'" "cl_locks (cl u') = al" for w
      using Z by (simp_all add: u'_def)
    show ?thesis
    proof (intro exI conjI)
      show "ocf_prepare_clines_miss (ocf_eviction_req_clines lfu) req u = Some (\<not> mapping_error (rinfo req'), req', u')" using op by (simp add: u'_def)
      show "lines_ok (cl u') rep'" using lo by (simp add: U(1))
      show "same_locks (cl u) (cl u')" using B(3) by (simp add: U(1) same_locks_def)
      show "\<forall>x. marked Dirty (cl u') x = marked Dirty (cl u) x" using B(2) U(3) by simp
      show "\<forall>k x. cached (cl u) k = Some x \<longrightarrow> access_of (cl_locks (cl u)) x \<noteq> 0 \<or> marked Dirty (cl u) x \<noteq> {} \<longrightarrow>
          cached (cl u') k = Some x \<and> marked Valid (cl u') x = marked Valid (cl u) x" unfolding U(2,3) using B(5) by blast
      have "\<forall>k x. cached (cl u') k = Some x \<longrightarrow> cached (cl u) k = Some x \<and> marked Valid (cl u') x = marked Valid (cl u) x"
        unfolding U(2,3) using B(4) by blast
      moreover have "\<forall>x. access_of (cl_locks (cl u')) x = access_of (cl_locks (cl u)) x" using B(1) a(1) U(4) by simp
      moreover have "alock_status (reqs (cl_locks (cl u')) (rq_id req)) = {}" "\<forall>j. m_status (rq_map req' j) = m_status (rq_map req j)"
        using a(5) U(4) R(8) i(3) F(1) by simp_all
      ultimately show "if mapping_error (rinfo req')
     then cleaning_required (rinfo req') \<and> (\<forall>i. m_status (rq_map req' i) = m_status (rq_map req i)) \<and>
       (\<forall>x. access_of (cl_locks (cl u')) x = access_of (cl_locks (cl u)) x) \<and> alock_status (reqs (cl_locks (cl u')) (rq_id req)) = {} \<and>
       (\<forall>k x. cached (cl u') k = Some x \<longrightarrow> cached (cl u) k = Some x \<and> marked Valid (cl u') x = marked Valid (cl u) x)
     else \<forall>i < rq_count req. m_status (rq_map req i) = LOOKUP_MISS \<longrightarrow>
       cached (cl u') (rq_core req, line_first req + i) = Some (coll_idx (rq_map req' i)) \<and>
       access_of (cl_locks (cl u')) (coll_idx (rq_map req' i)) = OCF_CACHE_LINE_ACCESS_WR \<and>
       i \<in> alock_status (reqs (cl_locks (cl u')) (rq_id req))" unfolding if_P [OF i(4)] using i(5) by blast
    qed
  qed
qed

theorem prepare_miss_correct_witness:
  "\<exists>s req' u' rep'. ocf_prepare_clines_miss (ocf_eviction_req_clines (\<lambda>_ _ _ _. None)) demo_sp_req (demo_user s) =
      Some (\<not> mapping_error (rinfo req'), req', u') \<and> lines_ok (cl u') rep' \<and> cached (cl (demo_user s)) (0, 5) = Some 0"
proof -
  obtain s rep where s: "lines_ok (demo_evict s) rep" "req_ready demo_sp_req (demo_evict s)" "cached (demo_evict s) (0, 5) = Some 0"
    using demo_lines by blast
  have u: "cl (demo_user s) = demo_evict s" "parts_ok (demo_user s)" using demo_parts_ok(1) by (simp_all add: demo_user_def)
  have c: "counted demo_sp_req" "\<not> mapping_error (rinfo demo_sp_req)" "\<forall>i < rq_count demo_sp_req. m_status (rq_map demo_sp_req i) \<noteq> LOOKUP_REMAPPED"
    by (simp_all add: misses_def counted_def clear_info_def)
  have a: "alock_status (reqs (cl_locks (demo_evict s)) (rq_id demo_sp_req)) = {}" by (simp add: demo_evict_def demo_alock_def)
  obtain req' u' rep' where "ocf_prepare_clines_miss (ocf_eviction_req_clines (\<lambda>_ _ _ _. None)) demo_sp_req (demo_user s) =
      Some (\<not> mapping_error (rinfo req'), req', u')" "lines_ok (cl u') rep'"
    using prepare_miss_correct [where u = "demo_user s" and lfu = "\<lambda>_ _ _ _. None", OF u(2), unfolded u(1), OF s(1,2) c a]
    by (elim exE conjE)
  moreover have "cached (cl (demo_user s)) (0, 5) = Some 0" using s(3) u(1) by simp
  ultimately show ?thesis by (intro exI conjI)
qed

subsection \<open>Writing to freshly mapped lines\<close>

lemma prepare_mapped:
  fixes req :: "'y sp_req_scheme"
  assumes "parts_ok u" "lines_ok (cl u) rep" "req_ready req (cl u)" "counted req"
    "\<forall>i < rq_count req. m_status (rq_map req i) \<noteq> LOOKUP_REMAPPED" "alock_status (reqs (cl_locks (cl u)) (rq_id req)) = {}"
  shows "\<exists>req' u'. ocf_prepare_clines_miss (ocf_eviction_req_clines lfu) req u = Some (\<not> mapping_error (rinfo req'), req', u') \<and>
    (mapping_error (rinfo req') \<or> (\<exists>ts rep' b. assigned ts (req\<lparr>part_evict := b\<rparr>) (cl u) req' (cl u') \<and>
      map fst ts = take (length ts) (misses req 0) \<and> misses req' 0 = [] \<and> lines_ok (cl u') rep'))"
proof -
  define q where "q = req\<lparr>part_evict := \<not> ocf_user_part_has_space req u\<rparr>"
  define g where "g = (\<lambda>f :: ocf_req_info. f\<lparr>mapping_error := True, cleaning_required := True\<rparr>)"
  have F: "rq_map q = rq_map req" "rq_count q = rq_count req" "rq_id q = rq_id req" "misses q 0 = misses req 0" "req_ready q (cl u)" "counted q"
    using assms(3,4) by (simp_all add: q_def misses_def req_ready_def counted_def)
  obtain ts req1 u1 rep1 m s' where R: "ocf_space_managment_remap_do (ocf_eviction_req_clines lfu) q u =
      Some (if misses req1 0 = [] then LOOKUP_REMAPPED else LOOKUP_MISS, req1, u1)" "lines_ok (cl u1) rep1"
    "assigned ts q (cl u) req1 (cl u1)" "map fst ts = take (length ts) (misses req 0)"
    "cancel_loop [0..<rq_count q] (put_info g req1) (cl u1) = Some ((put_info g req1)\<lparr>rq_map := m\<rparr>, s')"
    "alock_status (reqs (cl_locks s') (rq_id q)) = {}"
    using rollback_spec [where req = q and lfu = lfu and g = g, OF assms(1,2) F(5,6)] assms(5,6) F(1-4) by auto
  note prep = ocf_prepare_clines_miss_def ocf_engine_remap_def q_def [symmetric] g_def [symmetric] Let_def
  show ?thesis
  proof (cases "misses req1 0 = []")
    case True
    then have "ocf_prepare_clines_miss (ocf_eviction_req_clines lfu) req u = Some (\<not> mapping_error (rinfo req1), req1, u1)"
      using R(1) by (simp add: prep)
    with True R(2-4) show ?thesis unfolding q_def by blast
  next
    case False
    define req' where "req' = (put_info g req1)\<lparr>rq_map := m\<rparr>"
    have c: "rq_count (put_info g req1) = rq_count q" "rq_id req' = rq_id q" "mapping_error (rinfo req')"
      using R(3) by (simp_all add: assigned_def put_info_def req'_def g_def)
    have "ocf_engine_map_hndl_error (put_info g req1) (cl u1) = Some (req', s')"
      using R(5) c(1) by (simp add: ocf_engine_map_hndl_error_def req'_def)
    moreover have "ocf_req_unlock (rq_id req') (see_map req' (cl_locks s')) = Some (see_map req' (cl_locks s'))"
      using c(2) R(6) by (intro unlock_nothing) simp
    ultimately have "ocf_prepare_clines_miss (ocf_eviction_req_clines lfu) req u =
        Some (\<not> mapping_error (rinfo req'), req', u1\<lparr>cl := s'\<lparr>cl_locks := see_map req' (cl_locks s')\<rparr>\<rparr>)"
      using R(1) False by (simp add: prep)
    with c(3) show ?thesis by blast
  qed
qed

lemma ok_line_of:
  assumes "lines_ok s rep" "cached s (rq_core q, k) = Some (coll_idx (rq_map q i))"
  shows "line_of s rep q i"
proof -
  let ?x = "coll_idx (rq_map q i)"
  note D = lines_okD [OF assms(1)]
  have m: "mapped s ?x" "line_key s ?x = (rq_core q, k)" using assms(2) D(3) by (auto simp: cached_eq_Some coll_inv_def)
  then have x: "?x < collision_table_entries s" by (simp add: mapped_def)
  have "partition_id (lru_meta s ?x) < OCF_USER_IO_CLASS_MAX" using D(9) [OF x] m(1) by (auto simp: line_ok_def split: if_splits)
  then show ?thesis using D(8) [OF x] m(2) by (simp add: line_of_def Let_def line_key_def)
qed

lemma looked_up_prepare:
  fixes s :: "'z cl_state_scheme" and req :: "'y sp_req_scheme"
  assumes "lookup_ready s req" "rq_part req < OCF_USER_IO_CLASS_MAX" "line_last req < 2 ^ OCF_CORE_LINE_BITS"
  defines "r \<equiv> looked_up s (rq_count req) req"
  shows "req_ready r s" "counted r" "\<not> mapping_error (rinfo r)" "\<forall>i < rq_count r. m_status (rq_map r i) \<noteq> LOOKUP_REMAPPED"
    "i < rq_count req \<Longrightarrow> m_status (rq_map r i) = LOOKUP_MISS \<longleftrightarrow> line_at s req i = None"
proof -
  note R = ready_bounds [OF assms(1)]
  show m: "m_status (rq_map r i) = LOOKUP_MISS \<longleftrightarrow> line_at s req i = None" if "i < rq_count req" for i
    unfolding r_def by (rule looked_up_fields(4) [OF that])
  show "\<forall>i < rq_count r. m_status (rq_map r i) \<noteq> LOOKUP_REMAPPED"
    by (auto simp: r_def found_entry_def found_status_def split: option.splits)
  show "\<not> mapping_error (rinfo r)" by (simp add: r_def found_info_def)
  have "line_first req + i < 2 ^ OCF_CORE_LINE_BITS" if "i < rq_count req" for i
    using that assms(1,3) by (simp add: lookup_ready_def)
  then show "req_ready r s" using assms(2) R(3) m
    by (auto simp: req_ready_def key_ok_def r_def found_entry_def line_at_def key_hash_def)
  have n: "rq_count r = rq_count req" by (simp add: r_def)
  have "length (misses r 0) = count_upto (rq_count req) (\<lambda>i. line_at s req i = None)"
    unfolding misses_def length_filter_conv_card count_upto_def n using m by (auto intro: arg_cong [where f = card])
  then show "counted r" using R(4) n found_mapped [of s req "rq_count req"] count_upto_not [of "rq_count req" "\<lambda>i. line_at s req i \<noteq> None"]
    by (simp add: counted_def r_def found_info_def)
qed

text \<open>Where the core lines of a request are after the mapping: the missing ones in the lines that were given to it, the others
  where the lookup found them.\<close>

lemma assigned_lines:
  fixes req :: "'y sp_req_scheme"
  assumes r: "lookup_ready s req" "rq_part req < OCF_USER_IO_CLASS_MAX" "line_last req < 2 ^ OCF_CORE_LINE_BITS"
    and ok: "lines_ok s rep" "lines_ok s' rep'"
    and a: "assigned ts ((looked_up s (rq_count req) req)\<lparr>part_evict := b\<rparr>) s req' s'"
    and f: "map fst ts = take (length ts) (misses (looked_up s (rq_count req) req) 0)" "misses req' 0 = []"
  shows "i < rq_count req \<Longrightarrow> line_at s' req i = Some (coll_idx (rq_map req' i))"
    "i < rq_count req \<Longrightarrow> line_at s req i = None \<Longrightarrow> marked Dirty s (coll_idx (rq_map req' i)) = {}"
    "i < rq_count req \<Longrightarrow> line_at s req i = Some l \<Longrightarrow> coll_idx (rq_map req' i) = l \<and> marked Valid s' l = marked Valid s l"
    "marked Dirty s' y = marked Dirty s y"
proof -
  define q where "q = (looked_up s (rq_count req) req)\<lparr>part_evict := b\<rparr>"
  note P = looked_up_prepare [OF r]
  have Q: "rq_map q = rq_map (looked_up s (rq_count req) req)" "misses q 0 = misses (looked_up s (rq_count req) req) 0"
      "rq_core q = rq_core req" "line_first q = line_first req" "rq_part q = rq_part req" "rq_count q = rq_count req" "req_ready q s"
    using P(1) by (simp_all add: q_def misses_def req_ready_def)
  note a' = a [folded q_def] and f' = f(1) [folded Q(2)]
  have C: "rq_count req' = rq_count req" using a' Q(6) by (simp add: assigned_def)
  note E = assigned_effect [OF ok Q(7) a' f']
  have st: "m_status (rq_map q i) = LOOKUP_MISS \<longleftrightarrow> line_at s req i = None" if "i < rq_count req" for i
    using P(5) [OF that] Q(1) by simp
  have fs: "i < rq_count req \<and> line_at s req i = None" if "i \<in> fst ` set ts" for i
  proof -
    have "i \<in> set (misses q 0)" using that set_take_subset [of "length ts" "misses q 0"] unfolding f' [symmetric] by auto
    then show ?thesis using st Q(6) by (auto simp: misses_def)
  qed
  have new: "(i, coll_idx (rq_map req' i)) \<in> set ts \<and> m_status (rq_map req' i) \<noteq> LOOKUP_MISS \<and> line_at s' req i = Some (coll_idx (rq_map req' i))"
    if i: "i < rq_count req" "line_at s req i = None" for i
  proof -
    have n: "m_status (rq_map req' i) \<noteq> LOOKUP_MISS" using f(2) i(1) C by (auto simp: misses_def filter_empty_conv)
    then have "i \<in> fst ` set ts" using E(4) [of i] st [OF i(1)] i(2) by metis
    then obtain x where "(i, x) \<in> set ts" by auto
    then show ?thesis using E(1) [of i x] n Q(3,4) by (auto simp: line_at_def)
  qed
  have old: "l \<notin> snd ` set ts \<and> rq_map req' i = rq_map q i \<and> coll_idx (rq_map req' i) = l \<and> line_at s' req i = Some l"
    if i: "i < rq_count req" "line_at s req i = Some l" for i l
  proof -
    have "i \<notin> fst ` set ts" using fs [of i] i(2) by auto
    then have m: "rq_map req' i = rq_map q i" by (rule E(4))
    moreover have "coll_idx (rq_map q i) = l" using i Q(1) by (simp add: found_entry_def)
    moreover have "in_request q (rq_core req) (line_first req + i)"
      using i(1) r(1) by (simp add: in_request_def q_def lookup_ready_def)
    then have l: "l \<notin> snd ` set ts" using E(1) i(2) by (auto simp: line_at_def)
    ultimately show ?thesis using E(2) [OF i(2) [unfolded line_at_def] l] by (simp add: line_at_def)
  qed
  show "marked Dirty s' y = marked Dirty s y" by (rule E(3))
  show "line_at s' req i = Some (coll_idx (rq_map req' i))" if "i < rq_count req" using new [OF that] old [OF that] by (metis option.exhaust)
  show "marked Dirty s (coll_idx (rq_map req' i)) = {}" if "i < rq_count req" "line_at s req i = None" using new [OF that] E(1) by blast
  show "coll_idx (rq_map req' i) = l \<and> marked Valid s' l = marked Valid s l" if "i < rq_count req" "line_at s req i = Some l"
    using old [OF that] E(7) by blast
qed

lemma assigned_write_ok:
  fixes req :: "'y sp_req_scheme"
  assumes r: "lookup_ready s req" "rq_part req < OCF_USER_IO_CLASS_MAX" "line_last req < 2 ^ OCF_CORE_LINE_BITS"
    and ok: "lines_ok s rep" "lines_ok s' rep'"
    and a: "assigned ts ((looked_up s (rq_count req) req)\<lparr>part_evict := b\<rparr>) s req' s'"
    and f: "map fst ts = take (length ts) (misses (looked_up s (rq_count req) req) 0)" "misses req' 0 = []"
  shows "write_ok s' rep' req'" "covered s' (cl_req.truncate req') y = wanted s' req y" "\<forall>i < rq_count req. line_at s' req i = Some (coll_idx (rq_map req' i))"
proof -
  note A = assigned_lines [OF r ok a f]
  define L where "L = looked_up s (rq_count req) req"
  have C: "rq_core req' = rq_core req" "rq_part req' = rq_part req" "rq_count req' = rq_count req" "rq_addr req' = rq_addr req"
      "rq_bytes req' = rq_bytes req" "hit_no (rinfo req') = hit_no (rinfo L)" "dirty_any (rinfo req') = dirty_any (rinfo L)"
      "dirty_all (rinfo req') = dirty_all (rinfo L)" "line_size s' = line_size s" "block_4k s' = block_4k s"
    using a by (simp_all add: assigned_def carried_def same_counts_def L_def)
  have g: "req_blocks s' (cl_req.truncate req') i = req_blocks s req i" "req_blocks s' req i = req_blocks s req i" for i
    using C(3-5,9,10) by (simp_all add: req_blocks_def ocf_map_line_start_block_def ocf_map_line_end_block_def ocf_line_end_block_def
        ocf_line_blocks_def BYTES_TO_BLOCKS_ROUND_DOWN_def block_shift_def)
  show "\<forall>i < rq_count req. line_at s' req i = Some (coll_idx (rq_map req' i))" using A(1) by blast
  have cov: "covered s' (cl_req.truncate req') y = wanted s' req y" for y
    using A(1) g C(3) by (auto simp: covered_def wanted_def)
  then show "covered s' (cl_req.truncate req') y = wanted s' req y" .
  have inf: "ocf_engine_is_miss req' = ocf_engine_is_miss L" "ocf_engine_is_dirty_all req' = ocf_engine_is_dirty_all L"
    using C(3,6,8) by (simp_all add: ocf_engine_is_miss_def ocf_engine_is_hit_def ocf_engine_is_dirty_all_def L_def)
  have W: "\<exists>i. i < rq_count req \<and> k \<in> req_blocks s req i \<and> coll_idx (rq_map req' i) = y" if "k \<in> wanted s' req y" for k y
    using that A(1) g(2) by (auto simp: wanted_def)
  have full: "wanted s' req y \<subseteq> X y" if c: "\<And>i. i < rq_count req \<Longrightarrow> \<exists>l. line_at s req i = Some l \<and> req_blocks s req i \<subseteq> X l" for X y
  proof
    fix k assume "k \<in> wanted s' req y"
    then obtain i where i: "i < rq_count req" "k \<in> req_blocks s req i" "coll_idx (rq_map req' i) = y" using W by blast
    then show "k \<in> X y" using c [OF i(1)] A(3) [OF i(1)] by auto
  qed
  show "write_ok s' rep' req'"
    unfolding write_ok_def Let_def cov inf C(7)
  proof (intro conjI allI impI)
    have "req_shape s' (cl_req.truncate req')" using r(1) C by (simp add: lookup_ready_def req_shape_def)
    moreover have "line_of s' rep' (cl_req.truncate req') i" if "i < rq_count req" for i
      using ok_line_of [OF ok(2), of "cl_req.truncate req'" "line_first req + i" i] A(1) [OF that] C(1) by (simp add: line_at_def)
    ultimately show "request_ok s' rep' (cl_req.truncate req')" using ok(2) C(3) by (simp add: request_ok_def lines_ok_def)
    show "rq_part req' < OCF_USER_IO_CLASS_MAX" using C(2) r(2) by simp
    show "m_status (rq_map (cl_req.truncate req') i) \<noteq> LOOKUP_MISS" if "i < rq_count (cl_req.truncate req')" for i
      using f(2) that by (auto simp: misses_def filter_empty_conv)
    show "wanted s' req y \<subseteq> marked Valid s' y" if m: "\<not> ocf_engine_is_miss L" for y
    proof (rule full)
      fix i assume i: "i < rq_count req"
      then have "found_status s req i = LOOKUP_HIT"
        using m by (simp add: ocf_engine_is_miss_def ocf_engine_is_hit_def L_def found_info_def count_upto_full)
      then show "\<exists>l. line_at s req i = Some l \<and> req_blocks s req i \<subseteq> marked Valid s' l"
        using A(3) [OF i] unfolding found_status_iff(1) by auto
    qed
    show "wanted s' req y \<subseteq> marked Dirty s' y" if d: "ocf_engine_is_dirty_all L" for y
    proof (rule full)
      fix i assume "i < rq_count req"
      then have "on_line s req (\<lambda>i l. req_blocks s req i \<subseteq> marked Dirty s l) i"
        using d by (simp add: ocf_engine_is_dirty_all_def L_def found_info_def count_upto_full)
      then show "\<exists>l. line_at s req i = Some l \<and> req_blocks s req i \<subseteq> marked Dirty s' l" unfolding found_status_iff(3) A(4) .
    qed
    show "wanted s' req y \<inter> marked Dirty s' y = {}" if z: "dirty_any (rinfo L) = 0" for y
    proof (rule ccontr)
      assume "\<not> ?thesis"
      then obtain k i where k: "k \<in> marked Dirty s y" "i < rq_count req" "coll_idx (rq_map req' i) = y" using W A(4) by blast
      then show False using A(2,3) [OF k(2)] looked_up_info(3) [OF r(1) z [unfolded L_def] k(2)]
        by (cases "line_at s req i") auto
    qed
  qed
qed

text \<open>
  C14: the marks a write leaves in lines that were mapped for it. A request is looked up, the core lines that are not cached get
  cache lines, and the metadata is updated. Unless there was no space (\<open>mapping_error\<close>), every core line of the request then has
  a line, the one of its map entry; the write-back engine makes exactly the sectors of the request valid and dirty in these lines,
  the write-through engine valid and clean; all other marks, the hash table, the lists and the counters are as after the mapping
  and exact. The counters of the request, taken before the mapping, never let the engines skip an update that is needed.
\<close>

theorem miss_write_marks:
  fixes req :: "'y sp_req_scheme"
  assumes "parts_ok u" "lines_ok (cl u) rep" "lookup_ready (cl u) req" "rq_part req < OCF_USER_IO_CLASS_MAX"
    "line_last req < 2 ^ OCF_CORE_LINE_BITS" "alock_status (reqs (cl_locks (cl u)) (rq_id req)) = {}"
  shows "\<exists>r r1 u1. ocf_engine_lookup (cl u) req = Some r \<and>
    ocf_prepare_clines_miss (ocf_eviction_req_clines lfu) r u = Some (\<not> mapping_error (rinfo r1), r1, u1) \<and>
    (\<not> mapping_error (rinfo r1) \<longrightarrow> (\<forall>i < rq_count req. line_at (cl u1) req i = Some (coll_idx (rq_map r1 i))) \<and>
      (\<exists>r' s' rep'. ocf_write_wb_update_bits now r1 (cl u1) = Some (r', s') \<and> cl_inv s' rep' \<and> same_dir (cl u1) s' \<and>
        (\<forall>y. marked Valid s' y = marked Valid (cl u1) y \<union> wanted (cl u1) req y \<and>
          marked Dirty s' y = marked Dirty (cl u1) y \<union> wanted (cl u1) req y)) \<and>
      (\<exists>r' s' rep'. ocf_write_wt_update_bits r1 (cl u1) = Some (r', s') \<and> cl_inv s' rep' \<and> same_dir (cl u1) s' \<and>
        (\<forall>y. marked Valid s' y = marked Valid (cl u1) y \<union> wanted (cl u1) req y \<and>
          marked Dirty s' y = marked Dirty (cl u1) y - wanted (cl u1) req y)))"
proof -
  let ?r = "looked_up (cl u) (rq_count req) req"
  note P = looked_up_prepare [OF assms(3-5)]
  have i: "alock_status (reqs (cl_locks (cl u)) (rq_id ?r)) = {}" using assms(6) by (simp add: looked_up_def)
  obtain r1 u1 where R: "ocf_prepare_clines_miss (ocf_eviction_req_clines lfu) ?r u = Some (\<not> mapping_error (rinfo r1), r1, u1)"
      "mapping_error (rinfo r1) \<or> (\<exists>ts rep' b. assigned ts (?r\<lparr>part_evict := b\<rparr>) (cl u) r1 (cl u1) \<and>
        map fst ts = take (length ts) (misses ?r 0) \<and> misses r1 0 = [] \<and> lines_ok (cl u1) rep')"
    using prepare_mapped [OF assms(1,2) P(1,2,4) i, of lfu] by blast
  show ?thesis
  proof (cases "mapping_error (rinfo r1)")
    case True
    then show ?thesis using R(1) lookup_spec [OF assms(3)] by (intro exI [of _ ?r] exI [of _ r1] exI [of _ u1]) simp
  next
    case False
    then obtain ts rep' b where A: "assigned ts (?r\<lparr>part_evict := b\<rparr>) (cl u) r1 (cl u1)"
      "map fst ts = take (length ts) (misses ?r 0)" "misses r1 0 = []" "lines_ok (cl u1) rep'" using R(2) by blast
    note W = assigned_write_ok [OF assms(3-5,2) A(4,1-3)]
    show ?thesis
      by (intro exI [of _ ?r] exI [of _ r1] exI [of _ u1] conjI impI lookup_spec [OF assms(3)] R(1) W(3)
          write_back_spec [OF W(1), unfolded W(2)] write_through_spec [OF W(1), unfolded W(2)])
  qed
qed

theorem miss_write_marks_witness:
  "\<exists>s r r1 u1. ocf_engine_lookup (cl (demo_user s)) demo_sp_req = Some r \<and>
    ocf_prepare_clines_miss (ocf_eviction_req_clines (\<lambda>_ _ _ _. None)) r (demo_user s) = Some (\<not> mapping_error (rinfo r1), r1, u1) \<and>
    (mapping_error (rinfo r1) \<or> (\<exists>x r' s'. cached (cl u1) (0, 7) = Some x \<and> ocf_write_wb_update_bits 9 r1 (cl u1) = Some (r', s') \<and>
       req_blocks (cl u1) demo_sp_req 0 \<subseteq> marked Dirty s' x))"
proof -
  obtain s rep where s: "lines_ok (demo_evict s) rep" "req_ready demo_sp_req (demo_evict s)" using demo_lines by blast
  let ?lfu = "\<lambda>_ _ _ _. None"
  have u: "cl (demo_user s) = demo_evict s" "parts_ok (demo_user s)" using demo_parts_ok(1) by (simp_all add: demo_user_def)
  note D = lines_okD [OF s(1)]
  have sh: "req_shape (demo_evict s) demo_sp_req"
    by (simp add: req_shape_def demo_evict_def demo_put_def demo_sp_req_def demo_cl_req_def cl_req.defs eng_req.defs sp_req.defs)
  have r: "lookup_ready (cl (demo_user s)) demo_sp_req" using D(3,6,10) sh by (simp add: lookup_ready_def u(1))
  have a: "alock_status (reqs (cl_locks (cl (demo_user s))) (rq_id demo_sp_req)) = {}" by (simp add: u(1) demo_evict_def demo_alock_def)
  have b: "rq_part demo_sp_req < OCF_USER_IO_CLASS_MAX" "line_last demo_sp_req < 2 ^ OCF_CORE_LINE_BITS" by simp_all
  from miss_write_marks [where u = "demo_user s" and lfu = ?lfu and now = 9 and rep = rep, OF u(2) s(1) [folded u(1)] r b a]
  show ?thesis
  proof (elim exE conjE, goal_cases)
    case (1 r r1 u1)
    have "\<exists>x r' s'. cached (cl u1) (0, 7) = Some x \<and> ocf_write_wb_update_bits 9 r1 (cl u1) = Some (r', s') \<and>
        req_blocks (cl u1) demo_sp_req 0 \<subseteq> marked Dirty s' x" if "\<not> mapping_error (rinfo r1)"
    proof -
      note M = 1(3) [THEN mp, OF that]
      have l: "line_at (cl u1) demo_sp_req 0 = Some (coll_idx (rq_map r1 0))" using conjunct1 [OF M] by simp
      then have "req_blocks (cl u1) demo_sp_req 0 \<subseteq> wanted (cl u1) demo_sp_req (coll_idx (rq_map r1 0))" by (auto simp: wanted_def)
      moreover obtain r' s' where "ocf_write_wb_update_bits 9 r1 (cl u1) = Some (r', s')"
          "\<forall>y. marked Dirty s' y = marked Dirty (cl u1) y \<union> wanted (cl u1) demo_sp_req y"
        using conjunct1 [OF conjunct2 [OF M]] by blast
      ultimately show ?thesis using l by (auto simp: line_at_def)
    qed
    then show ?case using 1(1,2) by (intro exI [of _ s] exI [of _ r] exI [of _ r1] exI [of _ u1]) blast
  qed
qed

end
