(* ===== verification/Nhit_Hash.thy ===== *)
theory Nhit_Hash
  imports Collision
begin

section \<open>The table of recently missed core lines\<close>

text \<open>
  Model of \<open>src/promotion/nhit/nhit_hash.c\<close>: a ring buffer of core lines with hash chains through it. The arrays
  are functions; an index outside of them has no result (\<open>None\<close>). \<open>rb_entries\<close> has 64 bits, the links and the hash
  map have 32 bits: values are cut when they are stored there. Each bucket has a reader-writer semaphore. Taking one
  that is not free has no result in the operations, which run alone; theory Nhit_Threads runs the same statements as
  the program of a thread, which waits there, and interleaves any number of threads.
\<close>

subsection \<open>State\<close>

abbreviation (input) HASH_PRIME :: nat where "HASH_PRIME \<equiv> 4099"
abbreviation (input) OCF_CORE_ID_INVALID :: nat where "OCF_CORE_ID_INVALID \<equiv> OCF_CORE_NUM"

record nhit_list_elem =
  e_core_lba :: nat
  e_counter :: int
  coll_prev :: nat
  coll_next :: nat
  e_core_id :: nat
  e_valid :: bool

record env_rwsem =
  sem_readers :: nat
  sem_writer :: bool

record nhit_hash =
  hash_entries :: nat
  rb_entries :: nat
  hash_map :: "nat \<Rightarrow> nat"
  hash_locks :: "nat \<Rightarrow> env_rwsem"
  ring_buffer :: "nat \<Rightarrow> nhit_list_elem"
  rb_pointer :: nat

definition upd_elem :: "nat \<Rightarrow> (nhit_list_elem \<Rightarrow> nhit_list_elem) \<Rightarrow> nhit_hash \<Rightarrow> nhit_hash" where
  "upd_elem i f ctx = ctx\<lparr>ring_buffer := (ring_buffer ctx)(i := f (ring_buffer ctx i))\<rparr>"

definition upd_sem :: "nat \<Rightarrow> (env_rwsem \<Rightarrow> env_rwsem) \<Rightarrow> nhit_hash \<Rightarrow> nhit_hash" where
  "upd_sem b f ctx = ctx\<lparr>hash_locks := (hash_locks ctx)(b := f (hash_locks ctx b))\<rparr>"

definition rb_index :: "nhit_hash \<Rightarrow> nat \<Rightarrow> unit option" where
  "rb_index ctx i = bug_on (\<not> i < rb_entries ctx)"

definition bucket_index :: "nhit_hash \<Rightarrow> nat \<Rightarrow> unit option" where
  "bucket_index ctx b = bug_on (\<not> b < hash_entries ctx)"

subsection \<open>Semaphores of the buckets\<close>

definition env_rwsem_down_write :: "nhit_hash \<Rightarrow> nat \<Rightarrow> nhit_hash option" where
  "env_rwsem_down_write ctx b = do {
     bucket_index ctx b;
     if sem_readers (hash_locks ctx b) = 0 \<and> \<not> sem_writer (hash_locks ctx b)
     then Some (upd_sem b (\<lambda>m. m\<lparr>sem_writer := True\<rparr>) ctx) else None }"

definition env_rwsem_up_write :: "nhit_hash \<Rightarrow> nat \<Rightarrow> nhit_hash option" where
  "env_rwsem_up_write ctx b = do {
     bucket_index ctx b;
     Some (upd_sem b (\<lambda>m. m\<lparr>sem_writer := False\<rparr>) ctx) }"

definition env_rwsem_down_read :: "nhit_hash \<Rightarrow> nat \<Rightarrow> nhit_hash option" where
  "env_rwsem_down_read ctx b = do {
     bucket_index ctx b;
     if \<not> sem_writer (hash_locks ctx b)
     then Some (upd_sem b (\<lambda>m. m\<lparr>sem_readers := Suc (sem_readers m)\<rparr>) ctx) else None }"

definition env_rwsem_up_read :: "nhit_hash \<Rightarrow> nat \<Rightarrow> nhit_hash option" where
  "env_rwsem_up_read ctx b = do {
     bucket_index ctx b;
     Some (upd_sem b (\<lambda>m. m\<lparr>sem_readers := sem_readers m - 1\<rparr>) ctx) }"

subsection \<open>Creation\<close>

text \<open>
  What an environment can refuse: an allocation, a semaphore, the spin lock. The result of the creation is the error
  code, what stays allocated, and the table. \<open>hash_size / 4\<close> of less than four entries is 0 and the number of
  buckets wraps around.
\<close>

datatype nhit_res = Res_ctx | Res_hash_map | Res_hash_locks | Res_rwsem nat | Res_ring_buffer | Res_spinlock

record nhit_env =
  vzalloc_ok :: "nhit_res \<Rightarrow> bool"
  rwsem_init_ok :: "nat \<Rightarrow> bool"
  spinlock_init :: ocf_error

definition calculate_hash_buckets :: "nat \<Rightarrow> nat" where
  "calculate_hash_buckets hash_size =
     (((hash_size div 4 + (HASH_PRIME - 1)) mod 2 ^ 64 div HASH_PRIME) * HASH_PRIME + (2 ^ 64 - 1)) mod 2 ^ 64"

definition nhit_hash_sizeof :: "nat \<Rightarrow> nat \<Rightarrow> nat \<Rightarrow> nat" where
  "nhit_hash_sizeof sizeof_ctx sizeof_rwsem hash_size =
     (let n_buckets = calculate_hash_buckets hash_size in
      (sizeof_ctx + n_buckets * 4 + n_buckets * sizeof_rwsem + hash_size * 24) mod 2 ^ 64)"

text \<open>The semaphores are initialised in order; the result is the index reached.\<close>

fun rwsem_init_loop :: "(nat \<Rightarrow> bool) \<Rightarrow> nat list \<Rightarrow> nhit_res set \<Rightarrow> bool \<times> nat \<times> nhit_res set" where
  "rwsem_init_loop ok [] live = (True, 0, live)"
| "rwsem_init_loop ok (i # is) live =
     (if ok i then let (r, n, live) = rwsem_init_loop ok is (insert (Res_rwsem i) live) in (r, Suc n, live)
      else (False, 0, live))"

fun rwsem_destroy_loop :: "nat \<Rightarrow> nhit_res set \<Rightarrow> nhit_res set" where
  "rwsem_destroy_loop 0 live = live"
| "rwsem_destroy_loop (Suc i) live = rwsem_destroy_loop i (live - {Res_rwsem i})"

definition new_elem :: nhit_list_elem where
  "new_elem = \<lparr>e_core_lba = 0, e_counter = 0, coll_prev = 0, coll_next = 0, e_core_id = OCF_CORE_ID_INVALID, e_valid = True\<rparr>"

definition new_table :: "nat \<Rightarrow> nhit_hash" where
  "new_table hash_size = \<lparr>hash_entries = calculate_hash_buckets hash_size mod 2 ^ 32, rb_entries = hash_size,
     hash_map = (\<lambda>_. hash_size mod 2 ^ 32), hash_locks = (\<lambda>_. \<lparr>sem_readers = 0, sem_writer = False\<rparr>),
     ring_buffer = (\<lambda>_. new_elem), rb_pointer = 0\<rparr>"

definition nhit_hash_init :: "nhit_env \<Rightarrow> nat \<Rightarrow> ocf_error \<times> nhit_res set \<times> nhit_hash option" where
  "nhit_hash_init env hash_size =
     (let n = calculate_hash_buckets hash_size mod 2 ^ 32;
          dealloc_ctx = (\<lambda>live. live - {Res_ctx});
          dealloc_hash = (\<lambda>live. dealloc_ctx (live - {Res_hash_map}));
          dealloc_locks = (\<lambda>i live. dealloc_hash (rwsem_destroy_loop i live - {Res_hash_locks}))
      in if \<not> vzalloc_ok env Res_ctx then (OCF_ERR_NO_MEM, {}, None)
      else if \<not> vzalloc_ok env Res_hash_map then (OCF_ERR_NO_MEM, dealloc_ctx {Res_ctx}, None)
      else if \<not> vzalloc_ok env Res_hash_locks then (OCF_ERR_NO_MEM, dealloc_hash {Res_ctx, Res_hash_map}, None)
      else let (ok, i_locks, live) = rwsem_init_loop (rwsem_init_ok env) [0..<n] {Res_ctx, Res_hash_map, Res_hash_locks}
      in if \<not> ok then (OCF_ERR_UNKNOWN, dealloc_locks i_locks live, None)
      else if \<not> vzalloc_ok env Res_ring_buffer then (OCF_ERR_NO_MEM, dealloc_locks i_locks live, None)
      else let live = insert Res_ring_buffer live; result = spinlock_init env
      in if result \<noteq> OCF_OK then (result, dealloc_locks i_locks live, None)
      else (OCF_OK, insert Res_spinlock live, Some (new_table hash_size)))"

definition nhit_hash_deinit :: "nhit_hash \<Rightarrow> nhit_res set \<Rightarrow> nhit_res set" where
  "nhit_hash_deinit ctx live =
     rwsem_destroy_loop (hash_entries ctx) (live - {Res_spinlock}) - {Res_ring_buffer} - {Res_hash_locks} - {Res_hash_map} - {Res_ctx}"

subsection \<open>Lookup\<close>

definition hash_function :: "nat \<Rightarrow> nat \<Rightarrow> nat \<Rightarrow> nat" where
  "hash_function cid core_lba limit =
     (if cid = OCF_CORE_ID_INVALID then limit
      else (((core_lba * HASH_PRIME + cid) mod 2 ^ 64) mod limit) mod 2 ^ 32)"

definition rb_match :: "nhit_hash \<Rightarrow> nat \<Rightarrow> nat \<Rightarrow> nat \<Rightarrow> bool" where
  "rb_match ctx cid core_lba cur \<longleftrightarrow>
     e_core_lba (ring_buffer ctx cur) = core_lba \<and> e_core_id (ring_buffer ctx cur) = cid"

partial_function (option) rb_lookup_loop :: "nhit_hash \<Rightarrow> nat \<Rightarrow> nat \<Rightarrow> nat \<Rightarrow> nat option" where
  "rb_lookup_loop ctx cid core_lba cur =
     (if cur \<noteq> rb_entries ctx then do {
        rb_index ctx cur;
        if rb_match ctx cid core_lba cur then Some cur
        else rb_lookup_loop ctx cid core_lba (coll_next (ring_buffer ctx cur)) }
      else Some (rb_entries ctx mod 2 ^ 32))"

definition core_line_lookup :: "nhit_hash \<Rightarrow> nat \<Rightarrow> nat \<Rightarrow> nat option" where
  "core_line_lookup ctx cid core_lba = do {
     let hash = hash_function cid core_lba (hash_entries ctx);
     bucket_index ctx hash;
     rb_lookup_loop ctx cid core_lba (hash_map ctx hash) }"

subsection \<open>Slots of the ring buffer\<close>

definition get_rb_slot :: "nhit_hash \<Rightarrow> (bool \<times> nat \<times> nhit_hash) option" where
  "get_rb_slot ctx = do {
     let slot = rb_pointer ctx;
     rb_index ctx slot;
     let result = e_valid (ring_buffer ctx slot);
     let ctx = upd_elem slot (\<lambda>e. e\<lparr>e_valid := False\<rparr>) ctx;
     Some (result, slot, ctx\<lparr>rb_pointer := (slot + 1) mod rb_entries ctx\<rparr>) }"

definition commit_rb_slot :: "nhit_hash \<Rightarrow> nat \<Rightarrow> nhit_hash option" where
  "commit_rb_slot ctx slot = do {
     rb_index ctx slot;
     Some (upd_elem slot (\<lambda>e. e\<lparr>e_valid := True\<rparr>) ctx) }"

definition collision_remove :: "nhit_hash \<Rightarrow> nat \<Rightarrow> nhit_hash option" where
  "collision_remove ctx slot_id = do {
     rb_index ctx slot_id;
     let slot = ring_buffer ctx slot_id;
     let hash = hash_function (e_core_id slot) (e_core_lba slot) (hash_entries ctx);
     if e_core_id slot = OCF_CORE_ID_INVALID then Some ctx
     else do {
       let ctx = upd_elem slot_id (\<lambda>e. e\<lparr>e_core_id := OCF_CORE_ID_INVALID\<rparr>) ctx;
       ctx \<leftarrow> (let slot = ring_buffer ctx slot_id in
         if coll_prev slot \<noteq> rb_entries ctx
         then do { rb_index ctx (coll_prev slot); Some (upd_elem (coll_prev slot) (\<lambda>e. e\<lparr>coll_next := coll_next slot\<rparr>) ctx) }
         else Some ctx);
       ctx \<leftarrow> (let slot = ring_buffer ctx slot_id in
         if coll_next slot \<noteq> rb_entries ctx
         then do { rb_index ctx (coll_next slot); Some (upd_elem (coll_next slot) (\<lambda>e. e\<lparr>coll_prev := coll_prev slot\<rparr>) ctx) }
         else Some ctx);
       bucket_index ctx hash;
       Some (if hash_map ctx hash = slot_id
             then ctx\<lparr>hash_map := (hash_map ctx)(hash := coll_next (ring_buffer ctx slot_id))\<rparr> else ctx) } }"

definition collision_insert_new :: "nhit_hash \<Rightarrow> nat \<Rightarrow> nat \<Rightarrow> nat \<Rightarrow> nhit_hash option" where
  "collision_insert_new ctx slot_id cid core_lba = do {
     let hash = hash_function cid core_lba (hash_entries ctx);
     rb_index ctx slot_id;
     bucket_index ctx hash;
     let ctx = upd_elem slot_id (\<lambda>e. e\<lparr>e_core_id := cid, e_core_lba := core_lba, coll_next := hash_map ctx hash,
       coll_prev := rb_entries ctx mod 2 ^ 32, e_counter := 1\<rparr>) ctx;
     ctx \<leftarrow> (if hash_map ctx hash \<noteq> rb_entries ctx
       then do { rb_index ctx (hash_map ctx hash);
                 Some (upd_elem (hash_map ctx hash) (\<lambda>e. e\<lparr>coll_prev := slot_id mod 2 ^ 32\<rparr>) ctx) }
       else Some ctx);
     Some (ctx\<lparr>hash_map := (hash_map ctx)(hash := slot_id mod 2 ^ 32)\<rparr>) }"

subsection \<open>Locking of the two buckets of an insertion\<close>

definition lock_order :: "nhit_hash \<Rightarrow> nat \<Rightarrow> nat \<Rightarrow> nat \<Rightarrow> nat \<Rightarrow> nat \<times> nat" where
  "lock_order ctx cid1 lba1 cid2 lba2 =
     (let hash1 = hash_function cid1 lba1 (hash_entries ctx); hash2 = hash_function cid2 lba2 (hash_entries ctx)
      in (min hash1 hash2, max hash1 hash2))"

definition write_lock_fst :: "nhit_hash \<Rightarrow> nat \<times> nat \<Rightarrow> nhit_hash option" where
  "write_lock_fst ctx ord = (if fst ord \<noteq> hash_entries ctx then env_rwsem_down_write ctx (fst ord) else Some ctx)"

definition write_lock_snd :: "nhit_hash \<Rightarrow> nat \<times> nat \<Rightarrow> nhit_hash option" where
  "write_lock_snd ctx ord =
     (if snd ord \<noteq> hash_entries ctx \<and> fst ord \<noteq> snd ord then env_rwsem_down_write ctx (snd ord) else Some ctx)"

definition write_lock_hashes :: "nhit_hash \<Rightarrow> nat \<Rightarrow> nat \<Rightarrow> nat \<Rightarrow> nat \<Rightarrow> nhit_hash option" where
  "write_lock_hashes ctx cid1 lba1 cid2 lba2 = do {
     let ord = lock_order ctx cid1 lba1 cid2 lba2;
     ctx \<leftarrow> write_lock_fst ctx ord;
     write_lock_snd ctx ord }"

definition write_unlock_fst :: "nhit_hash \<Rightarrow> nat \<Rightarrow> nhit_hash option" where
  "write_unlock_fst ctx hash1 = (if hash1 \<noteq> hash_entries ctx then env_rwsem_up_write ctx hash1 else Some ctx)"

definition write_unlock_snd :: "nhit_hash \<Rightarrow> nat \<Rightarrow> nat \<Rightarrow> nhit_hash option" where
  "write_unlock_snd ctx hash1 hash2 =
     (if hash2 \<noteq> hash_entries ctx \<and> hash1 \<noteq> hash2 then env_rwsem_up_write ctx hash2 else Some ctx)"

definition write_unlock_hashes :: "nhit_hash \<Rightarrow> nat \<Rightarrow> nat \<Rightarrow> nat \<Rightarrow> nat \<Rightarrow> nhit_hash option" where
  "write_unlock_hashes ctx cid1 lba1 cid2 lba2 = do {
     let hash1 = hash_function cid1 lba1 (hash_entries ctx);
     let hash2 = hash_function cid2 lba2 (hash_entries ctx);
     ctx \<leftarrow> write_unlock_fst ctx hash1;
     write_unlock_snd ctx hash1 hash2 }"

subsection \<open>Operations\<close>

definition nhit_hash_insert :: "nhit_hash \<Rightarrow> nat \<Rightarrow> nat \<Rightarrow> nhit_hash option" where
  "nhit_hash_insert ctx cid core_lba = do {
     (ok, slot_id, ctx) \<leftarrow> get_rb_slot ctx;
     if \<not> ok then Some ctx
     else do {
       let slot_core_id = e_core_id (ring_buffer ctx slot_id);
       let slot_core_lba = e_core_lba (ring_buffer ctx slot_id);
       ctx \<leftarrow> write_lock_hashes ctx cid core_lba slot_core_id slot_core_lba;
       ctx \<leftarrow> collision_remove ctx slot_id;
       ctx \<leftarrow> collision_insert_new ctx slot_id cid core_lba;
       ctx \<leftarrow> write_unlock_hashes ctx cid core_lba slot_core_id slot_core_lba;
       commit_rb_slot ctx slot_id } }"

text \<open>The counter is a signed integer of 32 bits; the result is the value for the caller, if there is one.\<close>

definition env_atomic_inc_counter :: "nhit_hash \<Rightarrow> nat \<Rightarrow> int \<times> nhit_hash" where
  "env_atomic_inc_counter ctx i =
     (let v = s32 (e_counter (ring_buffer ctx i) + 1) in (v, upd_elem i (\<lambda>e. e\<lparr>e_counter := v\<rparr>) ctx))"

definition nhit_hash_query :: "nhit_hash \<Rightarrow> nat \<Rightarrow> nat \<Rightarrow> (int option \<times> nhit_hash) option" where
  "nhit_hash_query ctx cid core_lba = do {
     let hash = hash_function cid core_lba (hash_entries ctx);
     ctx \<leftarrow> env_rwsem_down_read ctx hash;
     rb_idx \<leftarrow> core_line_lookup ctx cid core_lba;
     if rb_idx = rb_entries ctx then do {
       ctx \<leftarrow> env_rwsem_up_read ctx hash;
       Some (None, ctx) }
     else do {
       let (counter, ctx) = env_atomic_inc_counter ctx rb_idx;
       ctx \<leftarrow> env_rwsem_up_read ctx hash;
       Some (Some counter, ctx) } }"

definition nhit_hash_set_occurences :: "nhit_hash \<Rightarrow> nat \<Rightarrow> nat \<Rightarrow> int \<Rightarrow> nhit_hash option" where
  "nhit_hash_set_occurences ctx cid core_lba occurences = do {
     let hash = hash_function cid core_lba (hash_entries ctx);
     ctx \<leftarrow> env_rwsem_down_read ctx hash;
     rb_idx \<leftarrow> core_line_lookup ctx cid core_lba;
     if rb_idx = rb_entries ctx then env_rwsem_up_read ctx hash
     else env_rwsem_up_read (upd_elem rb_idx (\<lambda>e. e\<lparr>e_counter := occurences\<rparr>) ctx) hash }"

subsection \<open>Invariant of the table\<close>

definition nhit_geom :: "nhit_hash \<Rightarrow> bool" where
  "nhit_geom ctx \<longleftrightarrow> 0 < rb_entries ctx \<and> rb_entries ctx < 2 ^ 32 \<and> 0 < hash_entries ctx \<and> hash_entries ctx < 2 ^ 32 \<and>
     rb_pointer ctx < rb_entries ctx"

definition elem_key :: "nhit_hash \<Rightarrow> nat \<Rightarrow> nat \<times> nat" where
  "elem_key ctx i = (e_core_id (ring_buffer ctx i), e_core_lba (ring_buffer ctx i))"

definition tracked :: "nhit_hash \<Rightarrow> nat \<Rightarrow> bool" where
  "tracked ctx i \<longleftrightarrow> i < rb_entries ctx \<and> fst (elem_key ctx i) \<noteq> OCF_CORE_ID_INVALID"

definition bucket :: "nat \<Rightarrow> nat \<times> nat \<Rightarrow> nat" where
  "bucket limit k = hash_function (fst k) (snd k) limit"

abbreviation (input) elem_links :: "nhit_hash \<Rightarrow> nat list \<Rightarrow> bool" where
  "elem_links ctx xs \<equiv> lseg (coll_prev \<circ> ring_buffer ctx) (coll_next \<circ> ring_buffer ctx) (rb_entries ctx) xs (rb_entries ctx)"

definition nhit_chains :: "nhit_hash \<Rightarrow> (nat \<Rightarrow> nat list) \<Rightarrow> bool" where
  "nhit_chains ctx ch \<longleftrightarrow> (\<forall>b < hash_entries ctx. hash_map ctx b = first (rb_entries ctx) (ch b) \<and>
     distinct (ch b) \<and> elem_links ctx (ch b) \<and> set (ch b) = {i. tracked ctx i \<and> bucket (hash_entries ctx) (elem_key ctx i) = b})"

definition valid_line :: "nat \<times> nat \<Rightarrow> bool" where
  "valid_line k \<longleftrightarrow> fst k < OCF_CORE_NUM"

lemma valid_line_id: "valid_line k \<Longrightarrow> fst k \<noteq> OCF_CORE_ID_INVALID"
  by (simp add: valid_line_def)

lemma bucket_less: "0 < limit \<Longrightarrow> fst k \<noteq> OCF_CORE_ID_INVALID \<Longrightarrow> limit < 2 ^ 32 \<Longrightarrow> bucket limit k < limit"
  using le_less_trans [OF mod_less_eq_dividend mod_less_divisor] by (simp add: bucket_def hash_function_def)

lemma bucket_invalid: "fst k = OCF_CORE_ID_INVALID \<Longrightarrow> bucket limit k = limit"
  by (simp add: bucket_def hash_function_def)

lemma nhit_chainsD:
  assumes "nhit_chains ctx ch" "b < hash_entries ctx"
  shows "hash_map ctx b = first (rb_entries ctx) (ch b)" "distinct (ch b)" "elem_links ctx (ch b)"
    "rb_entries ctx \<notin> set (ch b)"
    "\<And>i. i \<in> set (ch b) \<longleftrightarrow> tracked ctx i \<and> bucket (hash_entries ctx) (elem_key ctx i) = b"
  using assms by (auto simp: nhit_chains_def tracked_def)

lemma tracked_bucket: "nhit_geom ctx \<Longrightarrow> tracked ctx i \<Longrightarrow> bucket (hash_entries ctx) (elem_key ctx i) < hash_entries ctx"
  unfolding nhit_geom_def tracked_def by (intro bucket_less) simp_all

lemma new_table_chains: "0 < n \<Longrightarrow> n < 2 ^ 32 \<Longrightarrow> nhit_chains (new_table n) (\<lambda>_. [])"
  by (simp add: nhit_chains_def new_table_def tracked_def elem_key_def new_elem_def)

text \<open>What an operation may do to the fields that the chains do not depend on.\<close>

lemma nhit_chains_cong:
  assumes "nhit_chains ctx ch" "hash_entries ctx' = hash_entries ctx" "rb_entries ctx' = rb_entries ctx"
    "hash_map ctx' = hash_map ctx"
    "\<And>i. coll_prev (ring_buffer ctx' i) = coll_prev (ring_buffer ctx i)"
    "\<And>i. coll_next (ring_buffer ctx' i) = coll_next (ring_buffer ctx i)"
    "\<And>i. elem_key ctx' i = elem_key ctx i"
  shows "nhit_chains ctx' ch"
proof -
  have "coll_prev \<circ> ring_buffer ctx' = coll_prev \<circ> ring_buffer ctx" "coll_next \<circ> ring_buffer ctx' = coll_next \<circ> ring_buffer ctx"
    "elem_key ctx' = elem_key ctx"
    using assms(5-7) by auto
  with assms(1-4) show ?thesis by (simp add: nhit_chains_def tracked_def)
qed

subsection \<open>Unlinking and linking a slot\<close>

text \<open>What a call leaves alone: the geometry, the semaphores, the pointer, and of every other slot all but its links.\<close>

definition same_but :: "nat set \<Rightarrow> nhit_hash \<Rightarrow> nhit_hash \<Rightarrow> bool" where
  "same_but X ctx ctx' \<longleftrightarrow> hash_entries ctx' = hash_entries ctx \<and> rb_entries ctx' = rb_entries ctx \<and>
     rb_pointer ctx' = rb_pointer ctx \<and> hash_locks ctx' = hash_locks ctx \<and>
     (\<forall>i. e_valid (ring_buffer ctx' i) = e_valid (ring_buffer ctx i)) \<and>
     (\<forall>i. i \<notin> X \<longrightarrow> elem_key ctx' i = elem_key ctx i \<and> e_counter (ring_buffer ctx' i) = e_counter (ring_buffer ctx i))"

lemma collision_remove_invalid:
  "i < rb_entries ctx \<Longrightarrow> \<not> tracked ctx i \<Longrightarrow> collision_remove ctx i = Some ctx"
  by (simp add: collision_remove_def rb_index_def tracked_def elem_key_def Let_def)

definition unlink_elem :: "nat \<Rightarrow> nat \<Rightarrow> nat list \<Rightarrow> nat list \<Rightarrow> nhit_hash \<Rightarrow> nhit_hash" where
  "unlink_elem b i as bs ctx =
     (let N = rb_entries ctx;
          ctx = upd_elem i (\<lambda>e. e\<lparr>e_core_id := OCF_CORE_ID_INVALID\<rparr>) ctx;
          ctx = (if as = [] then ctx else upd_elem (final N as) (\<lambda>e. e\<lparr>coll_next := first N bs\<rparr>) ctx);
          ctx = (if bs = [] then ctx else upd_elem (first N bs) (\<lambda>e. e\<lparr>coll_prev := final N as\<rparr>) ctx)
      in if as = [] then ctx\<lparr>hash_map := (hash_map ctx)(b := first N bs)\<rparr> else ctx)"

lemma upd_elem_simps [simp]:
  "hash_entries (upd_elem i f ctx) = hash_entries ctx" "rb_entries (upd_elem i f ctx) = rb_entries ctx"
  "hash_map (upd_elem i f ctx) = hash_map ctx" "hash_locks (upd_elem i f ctx) = hash_locks ctx"
  "rb_pointer (upd_elem i f ctx) = rb_pointer ctx"
  "ring_buffer (upd_elem i f ctx) j = (if j = i then f (ring_buffer ctx i) else ring_buffer ctx j)"
  by (simp_all add: upd_elem_def)

lemma collision_remove_eq:
  assumes g: "nhit_geom ctx" and c: "nhit_chains ctx ch" and t: "tracked ctx i"
    and b: "b = bucket (hash_entries ctx) (elem_key ctx i)" and xs: "ch b = as @ i # bs"
  shows "collision_remove ctx i = Some (unlink_elem b i as bs ctx)"
proof -
  let ?N = "rb_entries ctx"
  have bl: "b < hash_entries ctx" using tracked_bucket [OF g t] b by simp
  note D = nhit_chainsD [OF c bl]
  have mem: "x < ?N \<and> x \<noteq> i" if "x \<in> set as \<or> x \<in> set bs" for x
    using D(2) D(5) [of x] that by (auto simp: xs tracked_def)
  have iN: "i < ?N" "e_core_id (ring_buffer ctx i) \<noteq> OCF_CORE_ID_INVALID" using t by (simp_all add: tracked_def elem_key_def)
  have links: "coll_prev (ring_buffer ctx i) = final ?N as" "coll_next (ring_buffer ctx i) = first ?N bs"
    using D(3) by (simp_all add: xs lseg_split)
  have ea: "final ?N as = ?N \<longleftrightarrow> as = []" and eb: "first ?N bs = ?N \<longleftrightarrow> bs = []"
    using mem by (auto intro!: final_eq_iff first_eq_iff)
  have la: "as \<noteq> [] \<Longrightarrow> final ?N as < ?N \<and> final ?N as \<noteq> i" and lb: "bs \<noteq> [] \<Longrightarrow> first ?N bs < ?N \<and> first ?N bs \<noteq> i"
    using mem [of "final ?N as"] mem [of "first ?N bs"] final_in [of as ?N] first_in [of bs ?N] by simp_all
  have hd: "hash_map ctx b = i \<longleftrightarrow> as = []"
    using D(1,2) by (cases as) (auto simp: xs)
  have h: "hash_function (e_core_id (ring_buffer ctx i)) (e_core_lba (ring_buffer ctx i)) (hash_entries ctx) = b"
    by (simp add: b bucket_def elem_key_def)
  show ?thesis
    using iN links ea eb la lb hd bl
    by (cases "as = []"; cases "bs = []")
      (simp_all add: collision_remove_def unlink_elem_def rb_index_def bucket_index_def Let_def h)
qed

lemma unlink_same:
  assumes "i \<noteq> final (rb_entries ctx) as \<or> as = []" "i \<noteq> first (rb_entries ctx) bs \<or> bs = []"
  shows "same_but {i} ctx (unlink_elem b i as bs ctx)"
  using assms by (auto simp: same_but_def unlink_elem_def Let_def elem_key_def)

lemma unlink_chains:
  assumes g: "nhit_geom ctx" and c: "nhit_chains ctx ch" and t: "tracked ctx i"
    and b: "b = bucket (hash_entries ctx) (elem_key ctx i)" and xs: "ch b = as @ i # bs"
  shows "nhit_chains (unlink_elem b i as bs ctx) (ch(b := as @ bs))" (is "nhit_chains ?c ?ch")
proof -
  let ?N = "rb_entries ctx"
  have bl: "b < hash_entries ctx" using tracked_bucket [OF g t] b by simp
  note D = nhit_chainsD [OF c]
  have dist: "distinct (as @ i # bs)" using D(2) [OF bl] xs by simp
  have na: "as \<noteq> [] \<Longrightarrow> final ?N as \<in> set (ch b)" "bs \<noteq> [] \<Longrightarrow> first ?N bs \<in> set (ch b)"
    using final_in [of as ?N] first_in [of bs ?N] xs by auto
  have ne: "as \<noteq> [] \<Longrightarrow> final ?N as \<noteq> i" "bs \<noteq> [] \<Longrightarrow> first ?N bs \<noteq> i"
    "as \<noteq> [] \<Longrightarrow> bs \<noteq> [] \<Longrightarrow> final ?N as \<noteq> first ?N bs"
    using final_in [of as ?N] first_in [of bs ?N] dist by auto
  have prv: "coll_prev \<circ> ring_buffer ?c =
      (if bs = [] then coll_prev \<circ> ring_buffer ctx else (coll_prev \<circ> ring_buffer ctx)(first ?N bs := final ?N as))"
    and nxt: "coll_next \<circ> ring_buffer ?c =
      (if as = [] then coll_next \<circ> ring_buffer ctx else (coll_next \<circ> ring_buffer ctx)(final ?N as := first ?N bs))"
    using ne by (auto simp: unlink_elem_def Let_def fun_eq_iff)
  have key: "elem_key ?c x = (if x = i then (OCF_CORE_ID_INVALID, snd (elem_key ctx i)) else elem_key ctx x)" for x
    using ne by (auto simp: unlink_elem_def Let_def elem_key_def)
  have geo: "hash_entries ?c = hash_entries ctx" "rb_entries ?c = ?N"
    "hash_map ?c = (if as = [] then (hash_map ctx)(b := first ?N bs) else hash_map ctx)"
    by (simp_all add: unlink_elem_def Let_def)
  have tr: "tracked ?c x \<longleftrightarrow> tracked ctx x \<and> x \<noteq> i" for x by (simp add: tracked_def key geo)
  have self: "elem_links ?c (as @ bs)"
    using lseg_unlink [OF dist, of "coll_prev \<circ> ring_buffer ctx" "coll_next \<circ> ring_buffer ctx" ?N ?N ?N ?N] D(3) [OF bl] xs
    by (simp only: prv nxt geo)
  have other: "elem_links ?c (ch b')" if "b' < hash_entries ctx" "b' \<noteq> b" for b'
  proof -
    have "x \<notin> set (ch b')" if "x \<in> set (ch b)" for x
      using that D(5) [OF bl] D(5) [OF \<open>b' < hash_entries ctx\<close>] \<open>b' \<noteq> b\<close> by simp
    then show ?thesis using na D(3) [OF that(1)] by (auto simp: prv nxt geo)
  qed
  show ?thesis
    unfolding nhit_chains_def geo(1,2)
  proof (intro allI impI conjI)
    fix b' assume b': "b' < hash_entries ctx"
    show "hash_map ?c b' = first ?N (?ch b')" using D(1) [OF b'] xs by (auto simp: geo first_append first_ne)
    show "distinct (?ch b')" using D(2) [OF b'] dist by auto
    show "lseg (coll_prev \<circ> ring_buffer ?c) (coll_next \<circ> ring_buffer ?c) ?N (?ch b') ?N"
      using self other [OF b'] by (cases "b' = b") (simp_all add: geo)
    show "set (?ch b') = {x. tracked ?c x \<and> bucket (hash_entries ctx) (elem_key ?c x) = b'}"
      using D(5) [OF b'] dist xs by (cases "b' = b") (auto simp: tr key b [symmetric])
  qed
qed

text \<open>The removal of a tracked slot and what it does.\<close>

lemma collision_remove_ok:
  assumes g: "nhit_geom ctx" and c: "nhit_chains ctx ch" and i: "i < rb_entries ctx"
  obtains ctx' ch' where "collision_remove ctx i = Some ctx'" "nhit_chains ctx' ch'" "same_but {i} ctx ctx'"
    "\<not> tracked ctx' i" "snd (elem_key ctx' i) = snd (elem_key ctx i)"
    "\<And>b'. b' \<noteq> bucket (hash_entries ctx) (elem_key ctx i) \<Longrightarrow> ch' b' = ch b'"
proof (cases "tracked ctx i")
  case False
  show thesis
    by (rule that [OF collision_remove_invalid [OF i False] c _ False]) (simp_all add: same_but_def)
next
  case True
  define b where "b = bucket (hash_entries ctx) (elem_key ctx i)"
  have bl: "b < hash_entries ctx" using tracked_bucket [OF g True] b_def by simp
  note D = nhit_chainsD [OF c bl]
  have "i \<in> set (ch b)" using D(5) True by (simp add: b_def)
  then obtain as bs where xs: "ch b = as @ i # bs" by (meson split_list)
  have ne: "i \<noteq> final (rb_entries ctx) as \<or> as = []" "i \<noteq> first (rb_entries ctx) bs \<or> bs = []"
    using final_in [of as "rb_entries ctx"] first_in [of bs "rb_entries ctx"] D(2) xs by auto
  have un: "\<not> tracked (unlink_elem b i as bs ctx) i" "snd (elem_key (unlink_elem b i as bs ctx) i) = snd (elem_key ctx i)"
    using ne by (auto simp: tracked_def elem_key_def unlink_elem_def Let_def)
  show thesis
    by (rule that [OF collision_remove_eq [OF g c True b_def xs] unlink_chains [OF g c True b_def xs] unlink_same [OF ne] un])
      (simp add: b_def)
qed

definition link_elem :: "nat \<Rightarrow> nat \<Rightarrow> nat \<times> nat \<Rightarrow> nat list \<Rightarrow> nhit_hash \<Rightarrow> nhit_hash" where
  "link_elem b i k xs ctx =
     (let N = rb_entries ctx;
          ctx = upd_elem i (\<lambda>e. e\<lparr>e_core_id := fst k, e_core_lba := snd k, coll_next := first N xs, coll_prev := N, e_counter := 1\<rparr>) ctx;
          ctx = (if xs = [] then ctx else upd_elem (first N xs) (\<lambda>e. e\<lparr>coll_prev := i\<rparr>) ctx)
      in ctx\<lparr>hash_map := (hash_map ctx)(b := i)\<rparr>)"

lemma collision_insert_new_eq:
  assumes g: "nhit_geom ctx" and c: "nhit_chains ctx ch" and i: "i < rb_entries ctx" "\<not> tracked ctx i" and k: "valid_line k"
    and b: "b = bucket (hash_entries ctx) k"
  shows "collision_insert_new ctx i (fst k) (snd k) = Some (link_elem b i k (ch b) ctx)"
proof -
  let ?N = "rb_entries ctx"
  have N: "?N < 2 ^ 32" and bl: "b < hash_entries ctx"
    using g bucket_less [OF _ valid_line_id [OF k]] by (auto simp: nhit_geom_def b)
  note D = nhit_chainsD [OF c bl]
  have mem: "x < ?N \<and> x \<noteq> i" if "x \<in> set (ch b)" for x using D(5) [of x] that i(2) by (auto simp: tracked_def)
  have e: "first ?N (ch b) = ?N \<longleftrightarrow> ch b = []" using first_eq_iff [OF D(4)] .
  have l: "ch b \<noteq> [] \<Longrightarrow> first ?N (ch b) < ?N \<and> first ?N (ch b) \<noteq> i" using mem [OF first_in] by blast
  have h: "hash_function (fst k) (snd k) (hash_entries ctx) = b" by (simp add: b bucket_def)
  show ?thesis
    using i(1) N bl D(1) e l
    by (cases "ch b = []") (simp_all add: collision_insert_new_def link_elem_def rb_index_def bucket_index_def Let_def h)
qed

lemma link_chains:
  assumes g: "nhit_geom ctx" and c: "nhit_chains ctx ch" and i: "i < rb_entries ctx" "\<not> tracked ctx i" and k: "valid_line k"
    and b: "b = bucket (hash_entries ctx) k"
  shows "nhit_chains (link_elem b i k (ch b) ctx) (ch(b := i # ch b))" (is "nhit_chains ?c ?ch")
proof -
  let ?N = "rb_entries ctx"
  have bl: "b < hash_entries ctx" using g bucket_less [OF _ valid_line_id [OF k]] by (auto simp: nhit_geom_def b)
  note D = nhit_chainsD [OF c]
  have inot: "i \<notin> set (ch b')" if "b' < hash_entries ctx" for b' using D(5) [OF that] i by simp
  have fi: "ch b \<noteq> [] \<Longrightarrow> first ?N (ch b) \<in> set (ch b)" by (rule first_in)
  have fne: "ch b \<noteq> [] \<Longrightarrow> first ?N (ch b) \<noteq> i" using fi inot [OF bl] by metis
  have prv: "coll_prev \<circ> ring_buffer ?c = (if ch b = [] then coll_prev \<circ> ring_buffer ctx
      else (coll_prev \<circ> ring_buffer ctx)(first ?N (ch b) := i))(i := ?N)"
    and nxt: "coll_next \<circ> ring_buffer ?c = (coll_next \<circ> ring_buffer ctx)(i := first ?N (ch b))"
    using fne by (auto simp: link_elem_def Let_def fun_eq_iff)
  have key: "elem_key ?c x = (if x = i then k else elem_key ctx x)" for x
    using fne by (auto simp: link_elem_def Let_def elem_key_def)
  have geo: "hash_entries ?c = hash_entries ctx" "rb_entries ?c = ?N" "hash_map ?c = (hash_map ctx)(b := i)"
    by (simp_all add: link_elem_def Let_def)
  have tr: "tracked ?c x \<longleftrightarrow> tracked ctx x \<or> x = i" for x
    using i valid_line_id [OF k] by (auto simp: tracked_def key geo)
  have self: "elem_links ?c (i # ch b)"
    using lseg_push [OF inot [OF bl] D(2) [OF bl] D(3) [OF bl], of ?N] by (simp only: prv nxt geo)
  have other: "elem_links ?c (ch b')" if "b' < hash_entries ctx" "b' \<noteq> b" for b'
  proof -
    have "ch b \<noteq> [] \<Longrightarrow> first ?N (ch b) \<notin> set (ch b')"
      using fi D(5) [OF bl] D(5) [OF that(1)] that(2) by simp
    then show ?thesis using inot [OF that(1)] D(3) [OF that(1)] by (auto simp: prv nxt geo)
  qed
  show ?thesis
    unfolding nhit_chains_def geo(1,2)
  proof (intro allI impI conjI)
    fix b' assume b': "b' < hash_entries ctx"
    show "hash_map ?c b' = first ?N (?ch b')" using D(1) [OF b'] by (auto simp: geo)
    show "distinct (?ch b')" using D(2) [OF b'] inot [OF b'] by auto
    show "lseg (coll_prev \<circ> ring_buffer ?c) (coll_next \<circ> ring_buffer ?c) ?N (?ch b') ?N"
      using self other [OF b'] by (cases "b' = b") (simp_all add: geo)
    show "set (?ch b') = {x. tracked ?c x \<and> bucket (hash_entries ctx) (elem_key ?c x) = b'}"
      using D(5) [OF b'] inot [OF b'] i(2) by (cases "b' = b") (auto simp: tr key b [symmetric])
  qed
qed

lemma collision_insert_ok:
  assumes g: "nhit_geom ctx" and c: "nhit_chains ctx ch" and i: "i < rb_entries ctx" "\<not> tracked ctx i" and k: "valid_line k"
  obtains ctx' ch' where "collision_insert_new ctx i (fst k) (snd k) = Some ctx'" "nhit_chains ctx' ch'" "same_but {i} ctx ctx'"
    "elem_key ctx' i = k" "e_counter (ring_buffer ctx' i) = 1"
    "\<And>b'. b' \<noteq> bucket (hash_entries ctx) k \<Longrightarrow> ch' b' = ch b'"
proof -
  define b where "b = bucket (hash_entries ctx) k"
  have bl: "b < hash_entries ctx" using g bucket_less [OF _ valid_line_id [OF k]] by (auto simp: nhit_geom_def b_def)
  have ne: "ch b = [] \<or> first (rb_entries ctx) (ch b) \<noteq> i"
    using first_in [of "ch b" "rb_entries ctx"] nhit_chainsD(5) [OF c bl, of i] i(2) by auto
  have same: "same_but {i} ctx (link_elem b i k (ch b) ctx)" "elem_key (link_elem b i k (ch b) ctx) i = k"
    "e_counter (ring_buffer (link_elem b i k (ch b) ctx) i) = 1"
    using ne by (auto simp: same_but_def link_elem_def Let_def elem_key_def)
  show thesis
    by (rule that [OF collision_insert_new_eq [OF g c i k b_def] link_chains [OF g c i k b_def] same]) (simp add: b_def)
qed

subsection \<open>Lookup finds the line\<close>

lemma rb_lookup_loop_chain:
  assumes "elem_links ctx xs'" "xs' = as @ xs" "\<forall>x \<in> set xs. x < rb_entries ctx"
  shows "rb_lookup_loop ctx cid lba (first (rb_entries ctx) xs) =
    Some (case find (rb_match ctx cid lba) xs of Some i \<Rightarrow> i | None \<Rightarrow> rb_entries ctx mod 2 ^ 32)"
  using assms
proof (induction xs arbitrary: as)
  case Nil
  show ?case by (subst rb_lookup_loop.simps) simp
next
  case (Cons x xs)
  have "coll_next (ring_buffer ctx x) = first (rb_entries ctx) xs" using Cons.prems(1,2) by (simp add: lseg_split)
  with Cons.IH [of "as @ [x]"] Cons.prems show ?case
    by (subst rb_lookup_loop.simps) (auto simp: rb_index_def)
qed

lemma core_line_lookup_chain:
  assumes g: "nhit_geom ctx" and c: "nhit_chains ctx ch" and k: "valid_line (cid, lba)"
  shows "core_line_lookup ctx cid lba =
    Some (case find (rb_match ctx cid lba) (ch (bucket (hash_entries ctx) (cid, lba))) of Some i \<Rightarrow> i | None \<Rightarrow> rb_entries ctx)"
proof -
  define b where "b = bucket (hash_entries ctx) (cid, lba)"
  have bl: "b < hash_entries ctx" using g bucket_less [OF _ valid_line_id [OF k]] by (auto simp: nhit_geom_def b_def)
  note D = nhit_chainsD [OF c bl]
  have "\<forall>x \<in> set (ch b). x < rb_entries ctx" using D(5) by (simp add: tracked_def)
  from rb_lookup_loop_chain [OF D(3) _ this, of "[]" cid lba] show ?thesis
    using bl D(1) g by (simp add: core_line_lookup_def bucket_index_def nhit_geom_def b_def bucket_def Let_def split: option.split)
qed

text \<open>A slot that is found holds the line; when none is found the line has no slot.\<close>

lemma core_line_lookup_ok:
  assumes g: "nhit_geom ctx" and c: "nhit_chains ctx ch" and k: "valid_line k"
  obtains i where "core_line_lookup ctx (fst k) (snd k) = Some i"
    "(i = rb_entries ctx \<and> (\<forall>j. tracked ctx j \<longrightarrow> elem_key ctx j \<noteq> k)) \<or> (tracked ctx i \<and> elem_key ctx i = k)"
proof -
  define b where "b = bucket (hash_entries ctx) k"
  have bl: "b < hash_entries ctx" using g bucket_less [OF _ valid_line_id [OF k]] by (auto simp: nhit_geom_def b_def)
  note D = nhit_chainsD [OF c bl]
  have m: "rb_match ctx (fst k) (snd k) x \<longleftrightarrow> elem_key ctx x = k" for x
    by (auto simp: rb_match_def elem_key_def prod_eq_iff)
  have eq: "core_line_lookup ctx (fst k) (snd k) = Some (case find (rb_match ctx (fst k) (snd k)) (ch b) of Some i \<Rightarrow> i | None \<Rightarrow> rb_entries ctx)"
    using core_line_lookup_chain [OF g c, of "fst k" "snd k"] k by (simp add: b_def)
  show thesis
  proof (cases "find (rb_match ctx (fst k) (snd k)) (ch b)")
    case None
    then have "\<forall>j. tracked ctx j \<longrightarrow> elem_key ctx j \<noteq> k" using D(5) by (auto simp: find_None_iff m b_def)
    with eq None show thesis by (intro that) auto
  next
    case (Some i)
    then have "i \<in> set (ch b)" "elem_key ctx i = k" by (auto simp: find_Some_iff m)
    with eq Some D(5) show thesis by (intro that) auto
  qed
qed

subsection \<open>The operations of a single thread\<close>

definition free_sem :: env_rwsem where
  "free_sem = \<lparr>sem_readers = 0, sem_writer = False\<rparr>"

definition nhit_quiet :: "nhit_hash \<Rightarrow> bool" where
  "nhit_quiet ctx \<longleftrightarrow> nhit_geom ctx \<and> (\<exists>ch. nhit_chains ctx ch) \<and> (\<forall>b < hash_entries ctx. hash_locks ctx b = free_sem) \<and>
     (\<forall>i < rb_entries ctx. e_valid (ring_buffer ctx i))"

lemma locks_keep [simp]:
  "nhit_geom (ctx\<lparr>hash_locks := m\<rparr>) = nhit_geom ctx" "elem_key (ctx\<lparr>hash_locks := m\<rparr>) = elem_key ctx"
  "tracked (ctx\<lparr>hash_locks := m\<rparr>) = tracked ctx" "nhit_chains (ctx\<lparr>hash_locks := m\<rparr>) = nhit_chains ctx"
  by (simp_all add: nhit_geom_def tracked_def elem_key_def nhit_chains_def fun_eq_iff)

text \<open>The two write locks are taken when the semaphores are free, and giving them back frees all semaphores.\<close>

lemma write_lock_hashes_free:
  assumes "\<forall>b < hash_entries ctx. hash_locks ctx b = free_sem"
    and "bucket (hash_entries ctx) k1 \<le> hash_entries ctx" "bucket (hash_entries ctx) k2 \<le> hash_entries ctx"
  obtains m where "write_lock_hashes ctx (fst k1) (snd k1) (fst k2) (snd k2) = Some (ctx\<lparr>hash_locks := m\<rparr>)"
    "\<And>b. b < hash_entries ctx \<Longrightarrow> m b = (if b = bucket (hash_entries ctx) k1 \<or> b = bucket (hash_entries ctx) k2
       then free_sem\<lparr>sem_writer := True\<rparr> else free_sem)"
proof -
  define h1 where "h1 = bucket (hash_entries ctx) k1"
  define h2 where "h2 = bucket (hash_entries ctx) k2"
  define m where "m b = (if b < hash_entries ctx \<and> (b = h1 \<or> b = h2) then (hash_locks ctx b)\<lparr>sem_writer := True\<rparr> else hash_locks ctx b)" for b
  have h: "hash_function (fst k1) (snd k1) (hash_entries ctx) = h1" "hash_function (fst k2) (snd k2) (hash_entries ctx) = h2"
    by (simp_all add: h1_def h2_def bucket_def)
  have ord: "lock_order ctx (fst k1) (snd k1) (fst k2) (snd k2) = (min h1 h2, max h1 h2)" by (simp add: lock_order_def h)
  have le: "h1 \<le> hash_entries ctx" "h2 \<le> hash_entries ctx" using assms(2,3) by (simp_all add: h1_def h2_def)
  have free: "b < hash_entries ctx \<Longrightarrow> sem_readers (hash_locks ctx b) = 0 \<and> \<not> sem_writer (hash_locks ctx b)" for b
    using assms(1) by (simp add: free_sem_def)
  have "write_lock_hashes ctx (fst k1) (snd k1) (fst k2) (snd k2) = Some (ctx\<lparr>hash_locks := m\<rparr>)"
    using le free
    by (auto simp: write_lock_hashes_def ord write_lock_fst_def write_lock_snd_def env_rwsem_down_write_def bucket_index_def
        upd_sem_def min_def max_def m_def fun_eq_iff intro!: arg_cong [where f = "\<lambda>m. ctx\<lparr>hash_locks := m\<rparr>"])
  then show thesis
    by (rule that) (use assms(1) in \<open>auto simp: m_def h1_def h2_def\<close>)
qed

lemma write_unlock_hashes_free:
  assumes "\<And>b. b < hash_entries ctx \<Longrightarrow> hash_locks ctx b = (if b = bucket (hash_entries ctx) k1 \<or> b = bucket (hash_entries ctx) k2
       then free_sem\<lparr>sem_writer := True\<rparr> else free_sem)"
    and "bucket (hash_entries ctx) k1 \<le> hash_entries ctx" "bucket (hash_entries ctx) k2 \<le> hash_entries ctx"
  obtains m where "write_unlock_hashes ctx (fst k1) (snd k1) (fst k2) (snd k2) = Some (ctx\<lparr>hash_locks := m\<rparr>)"
    "\<And>b. b < hash_entries ctx \<Longrightarrow> m b = free_sem"
proof -
  define h1 where "h1 = bucket (hash_entries ctx) k1"
  define h2 where "h2 = bucket (hash_entries ctx) k2"
  define m where "m b = (if b < hash_entries ctx \<and> (b = h1 \<or> b = h2) then (hash_locks ctx b)\<lparr>sem_writer := False\<rparr> else hash_locks ctx b)" for b
  have h: "hash_function (fst k1) (snd k1) (hash_entries ctx) = h1" "hash_function (fst k2) (snd k2) (hash_entries ctx) = h2"
    by (simp_all add: h1_def h2_def bucket_def)
  have le: "h1 \<le> hash_entries ctx" "h2 \<le> hash_entries ctx" using assms(2,3) by (simp_all add: h1_def h2_def)
  have "write_unlock_hashes ctx (fst k1) (snd k1) (fst k2) (snd k2) = Some (ctx\<lparr>hash_locks := m\<rparr>)"
    using le
    by (auto simp: write_unlock_hashes_def h write_unlock_fst_def write_unlock_snd_def env_rwsem_up_write_def bucket_index_def
        upd_sem_def m_def fun_eq_iff Let_def intro!: arg_cong [where f = "\<lambda>m. ctx\<lparr>hash_locks := m\<rparr>"])
  then show thesis
    by (rule that) (use assms(1) in \<open>auto simp: m_def h1_def h2_def free_sem_def\<close>)
qed

text \<open>The abstract view: the ring of lines and counters from the oldest to the newest slot.\<close>

type_synonym line_ring = "((nat \<times> nat) \<times> int) option list"

definition slot_view :: "nhit_hash \<Rightarrow> nat \<Rightarrow> ((nat \<times> nat) \<times> int) option" where
  "slot_view ctx i = (if tracked ctx i then Some (elem_key ctx i, e_counter (ring_buffer ctx i)) else None)"

definition ring :: "nhit_hash \<Rightarrow> line_ring" where
  "ring ctx = map (slot_view ctx) (rotate (rb_pointer ctx) [0..<rb_entries ctx])"

definition ring_push :: "nat \<times> nat \<Rightarrow> line_ring \<Rightarrow> line_ring" where
  "ring_push k r = tl r @ [Some (k, 1)]"

definition ring_lines :: "line_ring \<Rightarrow> (nat \<times> nat) list" where
  "ring_lines r = map fst (List.map_filter id r)"

definition ring_put :: "nat \<times> nat \<Rightarrow> int \<Rightarrow> line_ring \<Rightarrow> line_ring" where
  "ring_put k v r = map (map_option (\<lambda>(k', c). (k', if k' = k then v else c))) r"

definition ring_counter :: "line_ring \<Rightarrow> nat \<times> nat \<Rightarrow> int option" where
  "ring_counter r k = map_of (List.map_filter id r) k"

lemma ring_push_step:
  assumes p: "rb_pointer ctx < rb_entries ctx" and N: "rb_entries ctx' = rb_entries ctx"
    "rb_pointer ctx' = (rb_pointer ctx + 1) mod rb_entries ctx"
    and v: "\<And>i. i < rb_entries ctx \<Longrightarrow> i \<noteq> rb_pointer ctx \<Longrightarrow> slot_view ctx' i = slot_view ctx i"
    "slot_view ctx' (rb_pointer ctx) = Some (k, 1)"
  shows "ring ctx' = ring_push k (ring ctx)"
proof -
  define L where "L = rotate (rb_pointer ctx) [0..<rb_entries ctx]"
  have L: "L = rb_pointer ctx # tl L"
    using p upt_conv_Cons [OF p] unfolding L_def by (simp add: rotate_drop_take)
  have d: "distinct L" "set L = {0..<rb_entries ctx}" by (simp_all add: L_def)
  have "rotate (rb_pointer ctx') [0..<rb_entries ctx'] = rotate (Suc (rb_pointer ctx)) [0..<rb_entries ctx]"
    using rotate_conv_mod [of "Suc (rb_pointer ctx)" "[0..<rb_entries ctx]"] by (simp add: N)
  also have "\<dots> = tl L @ [rb_pointer ctx]" using L by (simp add: L_def rotate1_hd_tl) (metis list.sel(1) list.distinct(1) rotate1_hd_tl)
  finally have "ring ctx' = map (slot_view ctx') (tl L) @ [Some (k, 1)]" by (simp add: ring_def v(2))
  moreover have "map (slot_view ctx') (tl L) = map (slot_view ctx) (tl L)"
    using d L v(1) by (intro map_cong refl) (metis atLeastLessThan_iff distinct.simps(2) list.set_intros(2))
  ultimately show ?thesis by (simp add: ring_push_def ring_def L_def map_tl)
qed

lemma nhit_hash_insert_ok:
  assumes q: "nhit_quiet ctx" and k: "valid_line k"
  obtains ctx' where "nhit_hash_insert ctx (fst k) (snd k) = Some ctx'" "nhit_quiet ctx'" "ring ctx' = ring_push k (ring ctx)"
    "rb_entries ctx' = rb_entries ctx" "hash_entries ctx' = hash_entries ctx"
proof -
  define p where "p = rb_pointer ctx"
  define c0 where "c0 = (upd_elem p (\<lambda>e. e\<lparr>e_valid := False\<rparr>) ctx)\<lparr>rb_pointer := (p + 1) mod rb_entries ctx\<rparr>"
  obtain ch where g: "nhit_geom ctx" and c: "nhit_chains ctx ch" and fr: "\<forall>b < hash_entries ctx. hash_locks ctx b = free_sem"
    and vl: "\<forall>i < rb_entries ctx. e_valid (ring_buffer ctx i)" using q unfolding nhit_quiet_def by blast
  have p: "p < rb_entries ctx" using g by (simp add: nhit_geom_def p_def)
  have geo0: "hash_entries c0 = hash_entries ctx" "rb_entries c0 = rb_entries ctx" "hash_locks c0 = hash_locks ctx"
    "rb_pointer c0 = (p + 1) mod rb_entries ctx" "elem_key c0 = elem_key ctx"
    by (simp_all add: c0_def elem_key_def fun_eq_iff)
  have rb0: "ring_buffer c0 i = (if i = p then (ring_buffer ctx p)\<lparr>e_valid := False\<rparr> else ring_buffer ctx i)" for i
    by (simp add: c0_def)
  have g0: "nhit_geom c0" using g by (simp add: nhit_geom_def geo0)
  have ch0: "nhit_chains c0 ch" by (rule nhit_chains_cong [OF c]) (simp_all add: c0_def elem_key_def)
  have slot: "get_rb_slot ctx = Some (True, p, c0)" using p vl by (simp add: get_rb_slot_def rb_index_def Let_def p_def c0_def)
  define old where "old = elem_key ctx p"
  have old: "e_core_id (ring_buffer c0 p) = fst old" "e_core_lba (ring_buffer c0 p) = snd old"
    by (simp_all add: old_def elem_key_def rb0)
  have hk: "bucket (hash_entries c0) k \<le> hash_entries c0" using bucket_less [OF _ valid_line_id [OF k]] g0 by (simp add: nhit_geom_def less_imp_le)
  have ho: "bucket (hash_entries c0) old \<le> hash_entries c0"
    using bucket_less [of "hash_entries c0" old] bucket_invalid [of old "hash_entries c0"] g0 by (cases "fst old = OCF_CORE_ID_INVALID") (simp_all add: nhit_geom_def)
  obtain m where lk: "write_lock_hashes c0 (fst k) (snd k) (fst old) (snd old) = Some (c0\<lparr>hash_locks := m\<rparr>)"
    and m: "\<And>b. b < hash_entries c0 \<Longrightarrow> m b = (if b = bucket (hash_entries c0) k \<or> b = bucket (hash_entries c0) old
       then free_sem\<lparr>sem_writer := True\<rparr> else free_sem)"
    using write_lock_hashes_free [OF _ hk ho] fr by (simp only: geo0) blast
  define c1 where "c1 = c0\<lparr>hash_locks := m\<rparr>"
  have g1: "nhit_geom c1" "nhit_chains c1 ch" "p < rb_entries c1" using g0 ch0 p by (simp_all add: c1_def geo0)
  obtain c2 ch2 where rm: "collision_remove c1 p = Some c2" and ch2: "nhit_chains c2 ch2" and s2: "same_but {p} c1 c2" and nt: "\<not> tracked c2 p"
    using collision_remove_ok [OF g1] by metis
  have g2: "nhit_geom c2" "p < rb_entries c2" using g1 s2 by (simp_all add: nhit_geom_def same_but_def)
  obtain c3 ch3 where ins: "collision_insert_new c2 p (fst k) (snd k) = Some c3" and ch3: "nhit_chains c3 ch3" and s3: "same_but {p} c2 c3"
    and k3: "elem_key c3 p = k" "e_counter (ring_buffer c3 p) = 1"
    using collision_insert_ok [OF g2(1) ch2 g2(2) nt k] by metis
  have geo3: "hash_entries c3 = hash_entries c0" "rb_entries c3 = rb_entries c0" "hash_locks c3 = m" "rb_pointer c3 = rb_pointer c0"
    using s2 s3 by (simp_all add: same_but_def c1_def)
  have g3: "nhit_geom c3" using g0 by (simp add: nhit_geom_def geo3)
  obtain m' where ul: "write_unlock_hashes c3 (fst k) (snd k) (fst old) (snd old) = Some (c3\<lparr>hash_locks := m'\<rparr>)"
    and m': "\<And>b. b < hash_entries c3 \<Longrightarrow> m' b = free_sem"
    using write_unlock_hashes_free [of c3 k old] m hk ho by (simp only: geo3) blast
  define c4 where "c4 = upd_elem p (\<lambda>e. e\<lparr>e_valid := True\<rparr>) (c3\<lparr>hash_locks := m'\<rparr>)"
  have run: "nhit_hash_insert ctx (fst k) (snd k) = Some c4"
    using p by (simp add: nhit_hash_insert_def slot old lk c1_def [symmetric] rm ins ul commit_rb_slot_def rb_index_def geo3 geo0 c4_def)
  have geo4: "hash_entries c4 = hash_entries ctx" "rb_entries c4 = rb_entries ctx" "rb_pointer c4 = (p + 1) mod rb_entries ctx"
    "elem_key c4 = elem_key c3" "\<And>i. e_counter (ring_buffer c4 i) = e_counter (ring_buffer c3 i)"
    by (simp_all add: c4_def geo3 geo0 elem_key_def fun_eq_iff)
  have "nhit_chains c4 ch3" by (rule nhit_chains_cong [OF ch3]) (simp_all add: c4_def elem_key_def)
  moreover have "nhit_geom c4" using g3 by (simp add: nhit_geom_def c4_def)
  moreover have "e_valid (ring_buffer c4 i)" if "i < rb_entries c4" for i
    using s2 s3 vl that by (auto simp: c4_def same_but_def c1_def rb0 geo3 geo0)
  ultimately have q4: "nhit_quiet c4" using m' unfolding nhit_quiet_def by (auto simp: c4_def geo3)
  have key4: "elem_key c4 i = (if i = p then k else elem_key ctx i)"
    "i \<noteq> p \<Longrightarrow> e_counter (ring_buffer c4 i) = e_counter (ring_buffer ctx i)" for i
    using s2 s3 k3 by (auto simp: geo4 same_but_def c1_def geo0 rb0)
  have "ring c4 = ring_push k (ring ctx)"
  proof (rule ring_push_step)
    show "rb_pointer ctx < rb_entries ctx" "rb_entries c4 = rb_entries ctx" "rb_pointer c4 = (rb_pointer ctx + 1) mod rb_entries ctx"
      using p by (simp_all add: geo4 p_def)
    show "slot_view c4 i = slot_view ctx i" if "i < rb_entries ctx" "i \<noteq> rb_pointer ctx" for i
      using that key4 [of i] by (simp add: slot_view_def tracked_def geo4(2) p_def)
    show "slot_view c4 (rb_pointer ctx) = Some (k, 1)"
      using p k3 valid_line_id [OF k] by (simp add: slot_view_def tracked_def geo4 p_def)
  qed
  with run q4 geo4 show thesis by (intro that)
qed

text \<open>The lines of the ring and their counters, in terms of the slots.\<close>

definition line_slots :: "nhit_hash \<Rightarrow> nat list" where
  "line_slots ctx = filter (tracked ctx) (rotate (rb_pointer ctx) [0..<rb_entries ctx])"

lemma line_slots_iff [simp]: "i \<in> set (line_slots ctx) \<longleftrightarrow> tracked ctx i"
  by (auto simp: line_slots_def tracked_def)

lemma ring_filter: "List.map_filter id (ring ctx) = map (\<lambda>i. (elem_key ctx i, e_counter (ring_buffer ctx i))) (line_slots ctx)"
proof -
  have "List.map_filter id (map (slot_view ctx) xs) =
      map (\<lambda>i. (elem_key ctx i, e_counter (ring_buffer ctx i))) (filter (tracked ctx) xs)" for xs
    by (induction xs) (simp_all add: slot_view_def List.map_filter_def)
  then show ?thesis by (simp add: ring_def line_slots_def)
qed

lemma ring_lines_slots: "ring_lines (ring ctx) = map (elem_key ctx) (line_slots ctx)"
  by (simp add: ring_lines_def ring_filter comp_def)

lemma ring_counter_None: "ring_counter (ring ctx) k = None \<longleftrightarrow> (\<forall>i. tracked ctx i \<longrightarrow> elem_key ctx i \<noteq> k)"
  by (auto simp: ring_counter_def ring_filter map_of_eq_None_iff image_iff)

lemma ring_unique_slot:
  "distinct (ring_lines (ring ctx)) \<Longrightarrow> tracked ctx i \<Longrightarrow> tracked ctx j \<Longrightarrow> elem_key ctx i = elem_key ctx j \<Longrightarrow> i = j"
  by (simp add: ring_lines_slots distinct_map inj_on_def)

lemma ring_counter_Some:
  assumes "distinct (ring_lines (ring ctx))" "tracked ctx i"
  shows "ring_counter (ring ctx) (elem_key ctx i) = Some (e_counter (ring_buffer ctx i))"
proof -
  have "distinct (map fst (map (\<lambda>i. (elem_key ctx i, e_counter (ring_buffer ctx i))) (line_slots ctx)))"
    using assms(1) by (simp add: ring_lines_slots comp_def)
  then show ?thesis
    unfolding ring_counter_def ring_filter by (rule map_of_is_SomeI) (use assms(2) in auto)
qed

lemma ring_put_absent: "ring_counter r k = None \<Longrightarrow> ring_put k v r = r"
proof (induction r)
  case (Cons a r)
  then show ?case by (cases a) (auto simp: ring_put_def ring_counter_def List.map_filter_def split: if_splits)
qed (simp add: ring_put_def)

lemma ring_put_slot:
  assumes u: "distinct (ring_lines (ring ctx))" and t: "tracked ctx i"
  shows "ring (upd_elem i (\<lambda>e. e\<lparr>e_counter := v\<rparr>) ctx) = ring_put (elem_key ctx i) v (ring ctx)"
proof -
  let ?c = "upd_elem i (\<lambda>e. e\<lparr>e_counter := v\<rparr>) ctx"
  have k: "elem_key ?c j = elem_key ctx j" "tracked ?c j = tracked ctx j" for j by (simp_all add: elem_key_def tracked_def)
  have "slot_view ?c j = map_option (\<lambda>(k', c). (k', if k' = elem_key ctx i then v else c)) (slot_view ctx j)" for j
    using ring_unique_slot [OF u t, of j] by (auto simp: slot_view_def k)
  then show ?thesis by (simp add: ring_def ring_put_def)
qed

lemma counter_keeps:
  assumes "nhit_chains ctx ch"
  shows "nhit_chains (upd_elem i (\<lambda>e. e\<lparr>e_counter := v\<rparr>) ctx) ch"
  by (rule nhit_chains_cong [OF assms]) (simp_all add: elem_key_def)

lemma locks_ring [simp]: "ring (ctx\<lparr>hash_locks := m\<rparr>) = ring ctx"
  by (simp add: ring_def slot_view_def fun_eq_iff)

text \<open>Taking and giving back the semaphore of a line as a reader.\<close>

lemma read_lock_ok:
  assumes "nhit_quiet ctx" "valid_line k"
  defines "b \<equiv> hash_function (fst k) (snd k) (hash_entries ctx)"
  shows "env_rwsem_down_read ctx b = Some (upd_sem b (\<lambda>_. \<lparr>sem_readers = 1, sem_writer = False\<rparr>) ctx)"
    "hash_entries ctx' = hash_entries ctx \<Longrightarrow> hash_locks ctx' b = \<lparr>sem_readers = 1, sem_writer = False\<rparr> \<Longrightarrow>
     env_rwsem_up_read ctx' b = Some (upd_sem b (\<lambda>_. free_sem) ctx')"
proof -
  have "b < hash_entries ctx"
    using assms(1) bucket_less [OF _ valid_line_id [OF assms(2)], of "hash_entries ctx"]
    by (simp add: nhit_quiet_def nhit_geom_def b_def bucket_def)
  then show "env_rwsem_down_read ctx b = Some (upd_sem b (\<lambda>_. \<lparr>sem_readers = 1, sem_writer = False\<rparr>) ctx)"
    "hash_entries ctx' = hash_entries ctx \<Longrightarrow> hash_locks ctx' b = \<lparr>sem_readers = 1, sem_writer = False\<rparr> \<Longrightarrow>
     env_rwsem_up_read ctx' b = Some (upd_sem b (\<lambda>_. free_sem) ctx')"
    using assms(1) by (simp_all add: env_rwsem_down_read_def env_rwsem_up_read_def bucket_index_def upd_sem_def nhit_quiet_def free_sem_def)
qed

lemma nhit_quiet_after_read:
  assumes q: "nhit_quiet ctx" and c: "nhit_chains ctx' ch" "hash_entries ctx' = hash_entries ctx" "rb_entries ctx' = rb_entries ctx"
    "rb_pointer ctx' = rb_pointer ctx" "\<And>i. e_valid (ring_buffer ctx' i) = e_valid (ring_buffer ctx i)"
    "hash_locks ctx' = (hash_locks ctx)(b := m)"
  shows "nhit_quiet (upd_sem b (\<lambda>_. free_sem) ctx')"
  using assms by (auto simp: nhit_quiet_def nhit_geom_def upd_sem_def)

text \<open>The lookup under the semaphore, and what giving it back leaves when a counter was written before.\<close>

lemma read_locked_lookup:
  assumes q: "nhit_quiet ctx" and u: "distinct (ring_lines (ring ctx))" and k: "valid_line k"
  defines "b \<equiv> hash_function (fst k) (snd k) (hash_entries ctx)"
  obtains i c1 where "env_rwsem_down_read ctx b = Some c1" "core_line_lookup c1 (fst k) (snd k) = Some i"
    "rb_entries c1 = rb_entries ctx" "ring_buffer c1 = ring_buffer ctx"
    "i = rb_entries ctx \<Longrightarrow> ring_counter (ring ctx) k = None \<and>
       (\<exists>c2. env_rwsem_up_read c1 b = Some c2 \<and> nhit_quiet c2 \<and> ring c2 = ring ctx \<and> rb_entries c2 = rb_entries ctx)"
    "\<forall>v. i \<noteq> rb_entries ctx \<longrightarrow> ring_counter (ring ctx) k = Some (e_counter (ring_buffer ctx i)) \<and>
       (\<exists>c2. env_rwsem_up_read (upd_elem i (\<lambda>e. e\<lparr>e_counter := v\<rparr>) c1) b = Some c2 \<and> nhit_quiet c2 \<and>
          ring c2 = ring_put k v (ring ctx) \<and> rb_entries c2 = rb_entries ctx)"
proof -
  define c1 where "c1 = upd_sem b (\<lambda>_. \<lparr>sem_readers = 1, sem_writer = False\<rparr>) ctx"
  note lk = read_lock_ok [OF q k, folded b_def, folded c1_def]
  obtain ch where g: "nhit_geom ctx" "nhit_chains ctx ch" using q by (auto simp: nhit_quiet_def)
  then have g1: "nhit_geom c1" "nhit_chains c1 ch" by (simp_all add: c1_def upd_sem_def)
  have v: "elem_key c1 i = elem_key ctx i" "tracked c1 i = tracked ctx i" "ring_buffer c1 = ring_buffer ctx"
    "rb_entries c1 = rb_entries ctx" "hash_entries c1 = hash_entries ctx" "ring c1 = ring ctx" "rb_pointer c1 = rb_pointer ctx" for i
    by (simp_all add: c1_def upd_sem_def)
  have s1: "hash_locks c1 = (hash_locks ctx)(b := \<lparr>sem_readers = 1, sem_writer = False\<rparr>)" by (simp add: c1_def upd_sem_def)
  obtain i where i: "core_line_lookup c1 (fst k) (snd k) = Some i"
    "(i = rb_entries ctx \<and> (\<forall>j. tracked ctx j \<longrightarrow> elem_key ctx j \<noteq> k)) \<or> (tracked ctx i \<and> elem_key ctx i = k)"
    using core_line_lookup_ok [OF g1 k] unfolding v by blast
  show thesis
  proof (rule that [OF lk(1) i(1) v(4,3)])
    assume n: "i = rb_entries ctx"
    then have "ring_counter (ring ctx) k = None" using i(2) by (auto simp: ring_counter_None tracked_def)
    moreover have "nhit_quiet (upd_sem b (\<lambda>_. free_sem) c1)" by (rule nhit_quiet_after_read [OF q g1(2)]) (simp_all add: v s1)
    ultimately show "ring_counter (ring ctx) k = None \<and>
       (\<exists>c2. env_rwsem_up_read c1 b = Some c2 \<and> nhit_quiet c2 \<and> ring c2 = ring ctx \<and> rb_entries c2 = rb_entries ctx)"
      using lk(2) [of c1] s1 by (simp add: v) (simp add: upd_sem_def v)
  next
    show "\<forall>w. i \<noteq> rb_entries ctx \<longrightarrow> ring_counter (ring ctx) k = Some (e_counter (ring_buffer ctx i)) \<and>
       (\<exists>c2. env_rwsem_up_read (upd_elem i (\<lambda>e. e\<lparr>e_counter := w\<rparr>) c1) b = Some c2 \<and> nhit_quiet c2 \<and>
          ring c2 = ring_put k w (ring ctx) \<and> rb_entries c2 = rb_entries ctx)"
    proof (intro allI impI)
      fix w assume "i \<noteq> rb_entries ctx"
      then have t: "tracked ctx i" "elem_key ctx i = k" using i(2) by auto
      define c2 where "c2 = upd_elem i (\<lambda>e. e\<lparr>e_counter := w\<rparr>) c1"
      have "ring_counter (ring ctx) k = Some (e_counter (ring_buffer ctx i))"
        using ring_counter_Some [OF u t(1)] t by simp
      moreover have "nhit_quiet (upd_sem b (\<lambda>_. free_sem) c2)"
        by (rule nhit_quiet_after_read [OF q counter_keeps [OF g1(2), of i w, folded c2_def]]) (simp_all add: v s1 c2_def)
      moreover have "ring (upd_sem b (\<lambda>_. free_sem) c2) = ring_put k w (ring ctx)"
        using ring_put_slot [of c1 i w] u t by (simp add: upd_sem_def v c2_def)
      ultimately show "ring_counter (ring ctx) k = Some (e_counter (ring_buffer ctx i)) \<and>
         (\<exists>c2. env_rwsem_up_read (upd_elem i (\<lambda>e. e\<lparr>e_counter := w\<rparr>) c1) b = Some c2 \<and> nhit_quiet c2 \<and>
            ring c2 = ring_put k w (ring ctx) \<and> rb_entries c2 = rb_entries ctx)"
        using lk(2) [of c2] s1 by (simp add: c2_def [symmetric] v) (simp add: c2_def upd_sem_def v)
    qed
  qed
qed

lemma nhit_hash_query_ok:
  assumes q: "nhit_quiet ctx" and u: "distinct (ring_lines (ring ctx))" and k: "valid_line k"
  obtains ctx' where "nhit_hash_query ctx (fst k) (snd k) = Some (map_option (\<lambda>c. s32 (c + 1)) (ring_counter (ring ctx) k), ctx')"
    "nhit_quiet ctx'" "rb_entries ctx' = rb_entries ctx"
    "ring ctx' = (case ring_counter (ring ctx) k of None \<Rightarrow> ring ctx | Some c \<Rightarrow> ring_put k (s32 (c + 1)) (ring ctx))"
proof (rule read_locked_lookup [OF assms], goal_cases)
  case (1 i c1)
  show ?case
    using 1(2-6) 1(7) [THEN spec, of "s32 (e_counter (ring_buffer ctx i) + 1)"] that
    by (cases "i = rb_entries ctx") (auto simp: nhit_hash_query_def env_atomic_inc_counter_def Let_def)
qed

lemma nhit_hash_set_ok:
  assumes q: "nhit_quiet ctx" and u: "distinct (ring_lines (ring ctx))" and k: "valid_line k"
  obtains ctx' where "nhit_hash_set_occurences ctx (fst k) (snd k) v = Some ctx'" "nhit_quiet ctx'"
    "rb_entries ctx' = rb_entries ctx" "ring ctx' = ring_put k v (ring ctx)"
proof (rule read_locked_lookup [OF assms], goal_cases)
  case (1 i c1)
  show ?case
    using 1(2-6) 1(7) [THEN spec, of v] that
    by (cases "i = rb_entries ctx") (auto simp: nhit_hash_set_occurences_def ring_put_absent Let_def)
qed

lemma new_table_geom:
  assumes "4 \<le> n" "n < 2 ^ 32"
  shows "nhit_geom (new_table n)"
proof -
  define q where "q = (n div 4 + 4098) div 4099"
  have "n div 4 + 4098 < 2 ^ 64" using assms by simp
  then have c: "calculate_hash_buckets n = (q * 4099 + (2 ^ 64 - 1)) mod 2 ^ 64"
    by (simp add: calculate_hash_buckets_def q_def)
  have q: "0 < q" "q * 4099 \<le> n div 4 + 4098" using assms by (simp_all add: q_def div_greater_zero_iff)
  then have "q * 4099 + (2 ^ 64 - 1) = (q * 4099 - 1) + 2 ^ 64" by simp
  then have "calculate_hash_buckets n = (q * 4099 - 1) mod 2 ^ 64" unfolding c by (metis mod_add_self2)
  also have "\<dots> = q * 4099 - 1" using q assms by simp
  finally show ?thesis using q assms by (simp add: nhit_geom_def new_table_def)
qed

subsection \<open>Creation and its failures\<close>

lemma rwsem_init_loop_eq:
  "rwsem_init_loop ok [i..<i + n] live = (\<forall>j \<in> {i..<i + n}. ok j, length (takeWhile ok [i..<i + n]),
     live \<union> Res_rwsem ` set (takeWhile ok [i..<i + n]))"
proof (induction n arbitrary: i live)
  case (Suc n)
  have c: "[i..<i + Suc n] = i # [Suc i..<Suc i + n]" by (simp add: upt_conv_Cons)
  have s: "{i..<i + Suc n} = insert i {Suc i..<Suc i + n}" by auto
  show ?case unfolding c s using Suc.IH [of "Suc i"] by (auto simp: Let_def)
qed simp

lemma rwsem_init_all:
  "rwsem_init_loop ok [0..<n] live = (\<forall>j < n. ok j, length (takeWhile ok [0..<n]), live \<union> Res_rwsem ` {..<length (takeWhile ok [0..<n])})"
proof -
  have "set (takeWhile ok [0..<n]) = {..<length (takeWhile ok [0..<n])}"
  proof -
    have "takeWhile ok [0..<n] = [0..<length (takeWhile ok [0..<n])]"
      by (metis add_0 length_takeWhile_le length_upt minus_nat.diff_0 take_upt takeWhile_eq_take)
    then show ?thesis by (metis atLeast0LessThan set_upt)
  qed
  then show ?thesis using rwsem_init_loop_eq [of ok 0 n live] by auto
qed

lemma rwsem_destroy_loop_eq: "rwsem_destroy_loop n live = live - Res_rwsem ` {..<n}"
  by (induction n arbitrary: live) (auto simp: lessThan_Suc)

definition all_but_spinlock :: "nhit_env \<Rightarrow> nat \<Rightarrow> bool" where
  "all_but_spinlock env n \<longleftrightarrow> vzalloc_ok env Res_ctx \<and> vzalloc_ok env Res_hash_map \<and> vzalloc_ok env Res_hash_locks \<and>
     (\<forall>j < calculate_hash_buckets n mod 2 ^ 32. rwsem_init_ok env j) \<and> vzalloc_ok env Res_ring_buffer"

lemma nhit_hash_init_ok:
  assumes "all_but_spinlock env n" "spinlock_init env = OCF_OK"
  shows "nhit_hash_init env n = (OCF_OK, insert Res_spinlock (insert Res_ring_buffer ({Res_ctx, Res_hash_map, Res_hash_locks} \<union>
    Res_rwsem ` {..<hash_entries (new_table n)})), Some (new_table n))"
proof -
  have l: "length (takeWhile (rwsem_init_ok env) [0..<hash_entries (new_table n)]) = hash_entries (new_table n)"
    using assms(1) by (simp add: all_but_spinlock_def new_table_def takeWhile_eq_all_conv [THEN iffD2])
  have h: "calculate_hash_buckets n mod 2 ^ 32 = hash_entries (new_table n)" by (simp add: new_table_def)
  show ?thesis using assms unfolding nhit_hash_init_def all_but_spinlock_def rwsem_init_all Let_def h by (simp add: l)
qed

lemma nhit_hash_init_fail:
  assumes "\<not> (all_but_spinlock env n \<and> spinlock_init env = OCF_OK)"
  obtains r where "nhit_hash_init env n = (r, if all_but_spinlock env n then {Res_ring_buffer} else {}, None)" "r \<noteq> OCF_OK"
proof
  show "nhit_hash_init env n = (fst (nhit_hash_init env n), if all_but_spinlock env n then {Res_ring_buffer} else {}, None)"
    "fst (nhit_hash_init env n) \<noteq> OCF_OK"
    using assms by (auto simp: nhit_hash_init_def all_but_spinlock_def rwsem_init_all rwsem_destroy_loop_eq Let_def)
qed

lemma nhit_hash_deinit_all:
  "nhit_hash_deinit ctx (insert Res_spinlock (insert Res_ring_buffer ({Res_ctx, Res_hash_map, Res_hash_locks} \<union>
     Res_rwsem ` {..<hash_entries ctx}))) = {}"
  by (auto simp: nhit_hash_deinit_def rwsem_destroy_loop_eq)

text \<open>
  Creation of the table succeeds exactly when the environment gives everything, its end then frees everything that
  creation allocated, and a creation that fails frees what it has allocated, but for one case: when the initialisation of
  the spin lock fails, the ring buffer stays allocated.
\<close>

theorem nhit_hash_init_cleans_up:
  shows "case nhit_hash_init env n of (r, res, ctx) \<Rightarrow>
    (r = OCF_OK \<longleftrightarrow> all_but_spinlock env n \<and> spinlock_init env = OCF_OK) \<and>
    (r = OCF_OK \<longrightarrow> ctx = Some (new_table n) \<and> nhit_hash_deinit (new_table n) res = {}) \<and>
    (r \<noteq> OCF_OK \<longrightarrow> ctx = None \<and> res = (if all_but_spinlock env n then {Res_ring_buffer} else {}))"
proof (cases "all_but_spinlock env n \<and> spinlock_init env = OCF_OK")
  case True
  then show ?thesis by (simp only: nhit_hash_init_ok prod.case nhit_hash_deinit_all) simp
next
  case False
  then show ?thesis by (rule nhit_hash_init_fail) (use False in auto)
qed

definition demo_nhit_env :: nhit_env where
  "demo_nhit_env = \<lparr>vzalloc_ok = \<lambda>_. True, rwsem_init_ok = \<lambda>_. True, spinlock_init = OCF_OK\<rparr>"

theorem nhit_hash_init_cleans_up_witness:
  "\<exists>r. nhit_hash_init (demo_nhit_env\<lparr>spinlock_init := OCF_ERR_UNKNOWN\<rparr>) 8 = (r, {Res_ring_buffer}, None) \<and> r \<noteq> OCF_OK"
proof -
  have "all_but_spinlock (demo_nhit_env\<lparr>spinlock_init := OCF_ERR_UNKNOWN\<rparr>) 8" by (simp add: all_but_spinlock_def demo_nhit_env_def)
  then show ?thesis using nhit_hash_init_cleans_up [of "demo_nhit_env\<lparr>spinlock_init := OCF_ERR_UNKNOWN\<rparr>" 8]
    by (auto split: prod.splits)
qed

end
