(* ===== verification/Nhit_Threads.thy ===== *)
theory Nhit_Threads
  imports Nhit_Hash
begin

section \<open>Threads on the table of recently missed core lines\<close>

text \<open>
  The operations of theory Nhit_Hash run by any number of threads that interleave between their accesses of the shared table. The
  theory shows that the locks keep the chains consistent and that every operation ends.
\<close>

subsection \<open>Threads\<close>

text \<open>
  The program of a thread that runs one of the three operations. A line of the program is the code between two accesses
  of the shared state that other threads can separate: the section under the spin lock, the copy of the slot's line, each
  semaphore operation, the two updates of the chains under the write locks, each element of a traversal, the access to
  the counter.
\<close>

datatype nhit_access = Query | Set_occurences int

datatype nhit_pc =
    Idle
  | I_Slot "nat \<times> nat"
  | I_Read "nat \<times> nat" nat
  | I_Lock1 "nat \<times> nat" nat "nat \<times> nat"
  | I_Lock2 "nat \<times> nat" nat "nat \<times> nat"
  | I_Remove "nat \<times> nat" nat "nat \<times> nat"
  | I_Insert "nat \<times> nat" nat "nat \<times> nat"
  | I_Unlock1 "nat \<times> nat" nat "nat \<times> nat"
  | I_Unlock2 "nat \<times> nat" nat "nat \<times> nat"
  | I_Commit nat
  | R_Lock "nat \<times> nat" nhit_access
  | R_Walk "nat \<times> nat" nhit_access nat
  | R_Update "nat \<times> nat" nhit_access nat
  | R_Unlock "nat \<times> nat"

fun thread_step :: "nhit_hash \<Rightarrow> nhit_pc \<Rightarrow> (nhit_hash \<times> nhit_pc) option" where
  "thread_step ctx Idle = None"
| "thread_step ctx (I_Slot k) = do {
     (ok, slot, ctx) \<leftarrow> get_rb_slot ctx;
     Some (ctx, if ok then I_Read k slot else Idle) }"
| "thread_step ctx (I_Read k slot) =
     Some (ctx, I_Lock1 k slot (e_core_id (ring_buffer ctx slot), e_core_lba (ring_buffer ctx slot)))"
| "thread_step ctx (I_Lock1 k slot old) = do {
     ctx \<leftarrow> write_lock_fst ctx (lock_order ctx (fst k) (snd k) (fst old) (snd old));
     Some (ctx, I_Lock2 k slot old) }"
| "thread_step ctx (I_Lock2 k slot old) = do {
     ctx \<leftarrow> write_lock_snd ctx (lock_order ctx (fst k) (snd k) (fst old) (snd old));
     Some (ctx, I_Remove k slot old) }"
| "thread_step ctx (I_Remove k slot old) = do {
     ctx \<leftarrow> collision_remove ctx slot;
     Some (ctx, I_Insert k slot old) }"
| "thread_step ctx (I_Insert k slot old) = do {
     ctx \<leftarrow> collision_insert_new ctx slot (fst k) (snd k);
     Some (ctx, I_Unlock1 k slot old) }"
| "thread_step ctx (I_Unlock1 k slot old) = do {
     ctx \<leftarrow> write_unlock_fst ctx (hash_function (fst k) (snd k) (hash_entries ctx));
     Some (ctx, I_Unlock2 k slot old) }"
| "thread_step ctx (I_Unlock2 k slot old) = do {
     ctx \<leftarrow> write_unlock_snd ctx (hash_function (fst k) (snd k) (hash_entries ctx)) (hash_function (fst old) (snd old) (hash_entries ctx));
     Some (ctx, I_Commit slot) }"
| "thread_step ctx (I_Commit slot) = do {
     ctx \<leftarrow> commit_rb_slot ctx slot;
     Some (ctx, Idle) }"
| "thread_step ctx (R_Lock k a) = do {
     let hash = hash_function (fst k) (snd k) (hash_entries ctx);
     ctx \<leftarrow> env_rwsem_down_read ctx hash;
     bucket_index ctx hash;
     Some (ctx, R_Walk k a (hash_map ctx hash)) }"
| "thread_step ctx (R_Walk k a cur) =
     (if cur \<noteq> rb_entries ctx then do {
        rb_index ctx cur;
        Some (ctx, if rb_match ctx (fst k) (snd k) cur then R_Update k a cur
                   else R_Walk k a (coll_next (ring_buffer ctx cur))) }
      else Some (ctx, R_Unlock k))"
| "thread_step ctx (R_Update k a i) = do {
     rb_index ctx i;
     Some (case a of Query \<Rightarrow> snd (env_atomic_inc_counter ctx i)
           | Set_occurences v \<Rightarrow> upd_elem i (\<lambda>e. e\<lparr>e_counter := v\<rparr>) ctx, R_Unlock k) }"
| "thread_step ctx (R_Unlock k) = do {
     ctx \<leftarrow> env_rwsem_up_read ctx (hash_function (fst k) (snd k) (hash_entries ctx));
     Some (ctx, Idle) }"

record nhit_sys =
  table :: nhit_hash
  threads :: "nhit_pc list"

fun first_line :: "nhit_pc \<Rightarrow> bool" where
  "first_line (I_Slot k) = valid_line k"
| "first_line (R_Lock k a) = valid_line k"
| "first_line _ = False"

inductive nhit_step :: "nhit_sys \<Rightarrow> nhit_sys \<Rightarrow> bool" where
  call: "t < length (threads s) \<Longrightarrow> threads s ! t = Idle \<Longrightarrow> first_line pc \<Longrightarrow>
    nhit_step s (s\<lparr>threads := (threads s)[t := pc]\<rparr>)"
| run: "t < length (threads s) \<Longrightarrow> thread_step (table s) (threads s ! t) = Some (ctx, pc) \<Longrightarrow>
    nhit_step s (s\<lparr>table := ctx, threads := (threads s)[t := pc]\<rparr>)"

inductive nhit_reach :: "nhit_sys \<Rightarrow> bool" where
  init: "nhit_hash_init env n = (OCF_OK, live, Some ctx) \<Longrightarrow> 4 \<le> n \<Longrightarrow> n < 2 ^ 32 \<Longrightarrow> set pcs \<subseteq> {Idle} \<Longrightarrow>
    nhit_reach \<lparr>table = ctx, threads = pcs\<rparr>"
| step: "nhit_reach s \<Longrightarrow> nhit_step s s' \<Longrightarrow> nhit_reach s'"

inductive_cases nhit_stepE: "nhit_step s s'"

text \<open>A thread that runs alone does what the operation does.\<close>

fun run_thread :: "nat \<Rightarrow> nhit_hash \<Rightarrow> nhit_pc \<Rightarrow> nhit_hash option" where
  "run_thread 0 ctx pc = (if pc = Idle then Some ctx else None)"
| "run_thread (Suc n) ctx pc = (if pc = Idle then Some ctx else do {
     (ctx, pc) \<leftarrow> thread_step ctx pc;
     run_thread n ctx pc })"

lemma run_thread_Idle [simp]: "run_thread n ctx Idle = Some ctx"
  by (cases n) simp_all

lemma keeps_hash_entries:
  "write_lock_fst ctx p = Some c \<Longrightarrow> hash_entries c = hash_entries ctx"
  "write_lock_snd ctx p = Some c \<Longrightarrow> hash_entries c = hash_entries ctx"
  "collision_remove ctx i = Some c \<Longrightarrow> hash_entries c = hash_entries ctx"
  "collision_insert_new ctx i x y = Some c \<Longrightarrow> hash_entries c = hash_entries ctx"
  "write_unlock_fst ctx h = Some c \<Longrightarrow> hash_entries c = hash_entries ctx"
  by (auto simp: write_lock_fst_def write_lock_snd_def write_unlock_fst_def env_rwsem_down_write_def env_rwsem_up_write_def
      collision_remove_def collision_insert_new_def upd_sem_def Let_def bind_eq_Some_iff split: if_splits)

lemma lock_order_cong: "hash_entries c = hash_entries ctx \<Longrightarrow> lock_order c = lock_order ctx"
  by (simp add: lock_order_def fun_eq_iff)

lemma bind_cong_Some: "(\<And>x. m = Some x \<Longrightarrow> f x = g x) \<Longrightarrow> (m \<bind> f) = (m \<bind> g)"
  by (cases m) simp_all

lemma thread_run_insert: "run_thread 9 ctx (I_Slot k) = nhit_hash_insert ctx (fst k) (snd k)"
proof -
  have n: "(9::nat) = Suc (Suc (Suc (Suc (Suc (Suc (Suc (Suc (Suc 0))))))))" by simp
  show ?thesis
    unfolding n nhit_hash_insert_def write_lock_hashes_def write_unlock_hashes_def
    by (auto simp: Let_def bind_assoc lock_order_cong [OF keeps_hash_entries(1)] keeps_hash_entries(5) intro!: bind_cong_Some)
qed

lemma thread_run_walk:
  assumes "elem_links ctx (as @ xs)" "\<forall>x \<in> set xs. x < rb_entries ctx"
  shows "\<exists>n. \<forall>m. run_thread (n + m) ctx (R_Walk k a (first (rb_entries ctx) xs)) =
    run_thread m ctx (case find (rb_match ctx (fst k) (snd k)) xs of Some i \<Rightarrow> R_Update k a i | None \<Rightarrow> R_Unlock k)"
  using assms
proof (induction xs arbitrary: as)
  case Nil
  then show ?case by (intro exI [of _ 1]) simp
next
  case (Cons x xs)
  then obtain n where n: "\<forall>m. run_thread (n + m) ctx (R_Walk k a (first (rb_entries ctx) xs)) =
    run_thread m ctx (case find (rb_match ctx (fst k) (snd k)) xs of Some i \<Rightarrow> R_Update k a i | None \<Rightarrow> R_Unlock k)"
    using Cons.IH [of "as @ [x]"] by auto
  have "coll_next (ring_buffer ctx x) = first (rb_entries ctx) xs" using Cons.prems(1) by (simp add: lseg_split)
  with n Cons.prems(2) show ?case
    by (intro exI [of _ "if rb_match ctx (fst k) (snd k) x then 1 else Suc n"]) (simp add: rb_index_def)
qed

lemma thread_run_query:
  assumes "nhit_geom ctx" "nhit_chains ctx ch" "valid_line k" "nhit_hash_query ctx (fst k) (snd k) = Some (r, ctx')"
  shows "\<exists>n. run_thread n ctx (R_Lock k Query) = Some ctx'"
proof -
  define h where "h = bucket (hash_entries ctx) k"
  have h: "hash_function (fst k) (snd k) (hash_entries ctx) = h" by (simp add: h_def bucket_def)
  obtain c1 where c1: "env_rwsem_down_read ctx h = Some c1" using assms(4) by (auto simp: nhit_hash_query_def h bind_eq_Some_iff Let_def)
  then have hl: "h < hash_entries ctx" and c1': "\<exists>m. c1 = ctx\<lparr>hash_locks := m\<rparr>"
    by (auto simp: env_rwsem_down_read_def upd_sem_def bucket_index_def split: if_splits)
  then have g1: "nhit_geom c1" "nhit_chains c1 ch" "hash_entries c1 = hash_entries ctx" using assms(1,2) by auto
  note D = nhit_chainsD [OF g1(2), unfolded g1(3), OF hl]
  have less: "\<forall>x \<in> set (ch h). x < rb_entries c1" using D(5) by (simp add: tracked_def)
  have lk: "core_line_lookup c1 (fst k) (snd k) = Some (case find (rb_match c1 (fst k) (snd k)) (ch h) of Some i \<Rightarrow> i | None \<Rightarrow> rb_entries c1)"
    using core_line_lookup_chain [OF g1(1,2), of "fst k" "snd k"] assms(3) by (simp add: g1(3) h_def)
  obtain n where n: "\<And>m. run_thread (n + m) c1 (R_Walk k Query (hash_map c1 h)) =
      run_thread m c1 (case find (rb_match c1 (fst k) (snd k)) (ch h) of Some i \<Rightarrow> R_Update k Query i | None \<Rightarrow> R_Unlock k)"
    using thread_run_walk [of c1 "[]" "ch h" k Query] D(1,3) less by (auto simp: D(1))
  have i: "find (rb_match c1 (fst k) (snd k)) (ch h) = Some i \<Longrightarrow> i < rb_entries c1" for i
    using less by (auto simp: find_Some_iff)
  have run: "run_thread (Suc (n + 2)) ctx (R_Lock k Query) =
      run_thread 2 c1 (case find (rb_match c1 (fst k) (snd k)) (ch h) of Some i \<Rightarrow> R_Update k Query i | None \<Rightarrow> R_Unlock k)"
    using c1 hl n [of 2] by (simp add: h g1(3) bucket_index_def Let_def)
  have h1: "hash_function (fst k) (snd k) (hash_entries c1) = h" by (simp add: h g1(3))
  have "run_thread (Suc (n + 2)) ctx (R_Lock k Query) = Some ctx'"
  proof (cases "find (rb_match c1 (fst k) (snd k)) (ch h)")
    case None
    show ?thesis unfolding run None
      using assms(4) c1 lk None by (simp add: numeral_2_eq_2 nhit_hash_query_def h h1 Let_def bind_eq_Some_iff)
  next
    case (Some i)
    have il: "i < rb_entries c1" "i \<noteq> rb_entries c1" using i [OF Some] by simp_all
    show ?thesis unfolding run Some
      using assms(4) c1 lk Some il
      by (simp add: numeral_2_eq_2 nhit_hash_query_def h h1 rb_index_def env_atomic_inc_counter_def Let_def bind_eq_Some_iff)
  qed
  then show ?thesis ..
qed

subsection \<open>What a thread holds\<close>

fun write_held :: "nat \<Rightarrow> nhit_pc \<Rightarrow> nat \<Rightarrow> bool" where
  "write_held E (I_Lock2 k i old) b = (b = min (bucket E k) (bucket E old))"
| "write_held E (I_Remove k i old) b = (b = bucket E k \<or> b = bucket E old)"
| "write_held E (I_Insert k i old) b = (b = bucket E k \<or> b = bucket E old)"
| "write_held E (I_Unlock1 k i old) b = (b = bucket E k \<or> b = bucket E old)"
| "write_held E (I_Unlock2 k i old) b = (b = bucket E old \<and> b \<noteq> bucket E k)"
| "write_held E _ b = False"

fun read_held :: "nat \<Rightarrow> nhit_pc \<Rightarrow> nat \<Rightarrow> bool" where
  "read_held E (R_Walk k a cur) b = (b = bucket E k)"
| "read_held E (R_Update k a i) b = (b = bucket E k)"
| "read_held E (R_Unlock k) b = (b = bucket E k)"
| "read_held E _ b = False"

fun owns :: "nhit_pc \<Rightarrow> nat \<Rightarrow> bool" where
  "owns (I_Read k i) j = (j = i)"
| "owns (I_Lock1 k i old) j = (j = i)"
| "owns (I_Lock2 k i old) j = (j = i)"
| "owns (I_Remove k i old) j = (j = i)"
| "owns (I_Insert k i old) j = (j = i)"
| "owns (I_Unlock1 k i old) j = (j = i)"
| "owns (I_Unlock2 k i old) j = (j = i)"
| "owns (I_Commit i) j = (j = i)"
| "owns _ j = False"

text \<open>What a thread knows about the table where its program stands.\<close>

fun pc_ok :: "nhit_hash \<Rightarrow> nhit_pc \<Rightarrow> bool" where
  "pc_ok ctx Idle = True"
| "pc_ok ctx (I_Slot k) = valid_line k"
| "pc_ok ctx (I_Read k i) = (valid_line k \<and> i < rb_entries ctx)"
| "pc_ok ctx (I_Lock1 k i old) = (valid_line k \<and> i < rb_entries ctx \<and> elem_key ctx i = old)"
| "pc_ok ctx (I_Lock2 k i old) = (valid_line k \<and> i < rb_entries ctx \<and> elem_key ctx i = old)"
| "pc_ok ctx (I_Remove k i old) = (valid_line k \<and> i < rb_entries ctx \<and> elem_key ctx i = old)"
| "pc_ok ctx (I_Insert k i old) = (valid_line k \<and> i < rb_entries ctx \<and> \<not> tracked ctx i)"
| "pc_ok ctx (I_Unlock1 k i old) = (valid_line k \<and> i < rb_entries ctx \<and> elem_key ctx i = k)"
| "pc_ok ctx (I_Unlock2 k i old) = (valid_line k \<and> i < rb_entries ctx \<and> elem_key ctx i = k)"
| "pc_ok ctx (I_Commit i) = (i < rb_entries ctx)"
| "pc_ok ctx (R_Lock k a) = valid_line k"
| "pc_ok ctx (R_Walk k a cur) = (valid_line k \<and> (cur = rb_entries ctx \<or>
     tracked ctx cur \<and> bucket (hash_entries ctx) (elem_key ctx cur) = bucket (hash_entries ctx) k))"
| "pc_ok ctx (R_Update k a i) = (valid_line k \<and> tracked ctx i \<and> elem_key ctx i = k)"
| "pc_ok ctx (R_Unlock k) = valid_line k"

text \<open>How many lines a thread has left, at most; \<open>N\<close> and \<open>E\<close> are the numbers of slots and buckets.\<close>

fun lines_left :: "nat \<Rightarrow> nat \<Rightarrow> (nat \<Rightarrow> nat list) \<Rightarrow> nhit_pc \<Rightarrow> nat" where
  "lines_left N E ch Idle = 0"
| "lines_left N E ch (I_Slot k) = 9"
| "lines_left N E ch (I_Read k i) = 8"
| "lines_left N E ch (I_Lock1 k i old) = 7"
| "lines_left N E ch (I_Lock2 k i old) = 6"
| "lines_left N E ch (I_Remove k i old) = 5"
| "lines_left N E ch (I_Insert k i old) = 4"
| "lines_left N E ch (I_Unlock1 k i old) = 3"
| "lines_left N E ch (I_Unlock2 k i old) = 2"
| "lines_left N E ch (I_Commit i) = 1"
| "lines_left N E ch (R_Lock k a) = N + 3"
| "lines_left N E ch (R_Walk k a cur) = length (dropWhile (\<lambda>x. x \<noteq> cur) (ch (bucket E k))) + 2"
| "lines_left N E ch (R_Update k a i) = 2"
| "lines_left N E ch (R_Unlock k) = 1"

definition how_many :: "('a \<Rightarrow> bool) \<Rightarrow> 'a list \<Rightarrow> nat" where
  "how_many P xs = length (filter P xs)"

lemma how_many_update:
  "t < length xs \<Longrightarrow> how_many P (xs[t := y]) + of_bool (P (xs ! t)) = how_many P xs + of_bool (P y)"
proof (induction xs arbitrary: t)
  case (Cons x xs)
  then show ?case by (cases t) (auto simp: how_many_def)
qed simp

lemma how_many_pos: "t < length xs \<Longrightarrow> P (xs ! t) \<Longrightarrow> 0 < how_many P xs"
  by (auto simp: how_many_def filter_empty_conv)

lemma how_many_two:
  assumes "t < length xs" "u < length xs" "t \<noteq> u" "P (xs ! t)" "P (xs ! u)"
  shows "2 \<le> how_many P xs"
proof -
  have "card {t, u} \<le> card {i. i < length xs \<and> P (xs ! i)}" using assms by (intro card_mono) auto
  with assms(3) show ?thesis by (simp add: how_many_def length_filter_conv_card)
qed

lemma how_many_exists: "0 < how_many P xs \<Longrightarrow> \<exists>t < length xs. P (xs ! t)"
  by (auto simp: how_many_def filter_empty_conv in_set_conv_nth)

definition sys_inv :: "(nat \<Rightarrow> nat list) \<Rightarrow> nhit_sys \<Rightarrow> bool" where
  "sys_inv ch s \<longleftrightarrow> nhit_geom (table s) \<and> nhit_chains (table s) ch \<and> (\<forall>pc \<in> set (threads s). pc_ok (table s) pc) \<and>
     (\<forall>b < hash_entries (table s).
        sem_readers (hash_locks (table s) b) = how_many (\<lambda>pc. read_held (hash_entries (table s)) pc b) (threads s) \<and>
        of_bool (sem_writer (hash_locks (table s) b)) = how_many (\<lambda>pc. write_held (hash_entries (table s)) pc b) (threads s) \<and>
        (sem_writer (hash_locks (table s) b) \<longrightarrow> sem_readers (hash_locks (table s) b) = 0)) \<and>
     (\<forall>i < rb_entries (table s). of_bool (\<not> e_valid (ring_buffer (table s) i)) = how_many (\<lambda>pc. owns pc i) (threads s))"

lemma sys_invD:
  assumes "sys_inv ch s"
  shows "nhit_geom (table s)" "nhit_chains (table s) ch"
    "\<And>t. t < length (threads s) \<Longrightarrow> pc_ok (table s) (threads s ! t)"
    "\<And>b. b < hash_entries (table s) \<Longrightarrow>
       sem_readers (hash_locks (table s) b) = how_many (\<lambda>pc. read_held (hash_entries (table s)) pc b) (threads s)"
    "\<And>b. b < hash_entries (table s) \<Longrightarrow>
       how_many (\<lambda>pc. write_held (hash_entries (table s)) pc b) (threads s) = of_bool (sem_writer (hash_locks (table s) b))"
    "\<And>b. b < hash_entries (table s) \<Longrightarrow> sem_writer (hash_locks (table s) b) \<Longrightarrow> sem_readers (hash_locks (table s) b) = 0"
    "\<And>i. i < rb_entries (table s) \<Longrightarrow>
       how_many (\<lambda>pc. owns pc i) (threads s) = of_bool (\<not> e_valid (ring_buffer (table s) i))"
  using assms unfolding sys_inv_def by (simp_all only: nth_mem) (metis nth_mem)+

text \<open>The effect of one line of a thread on what it holds and on the lines in the slots.\<close>

definition line_effect ::
  "(nat \<Rightarrow> nat list) \<Rightarrow> nhit_hash \<Rightarrow> nhit_pc \<Rightarrow> (nat \<Rightarrow> nat list) \<Rightarrow> nhit_hash \<Rightarrow> nhit_pc \<Rightarrow> bool" where
  "line_effect ch ctx pc ch' ctx' pc' \<longleftrightarrow>
     nhit_geom ctx' \<and> nhit_chains ctx' ch' \<and> pc_ok ctx' pc' \<and>
     (\<forall>b < hash_entries ctx. \<not> write_held (hash_entries ctx) pc b \<longrightarrow> ch' b = ch b) \<and>
     lines_left (rb_entries ctx) (hash_entries ctx) ch' pc' < lines_left (rb_entries ctx) (hash_entries ctx) ch pc \<and>
     hash_entries ctx' = hash_entries ctx \<and> rb_entries ctx' = rb_entries ctx \<and>
     (\<forall>b < hash_entries ctx.
        sem_readers (hash_locks ctx' b) + of_bool (read_held (hash_entries ctx) pc b) =
          sem_readers (hash_locks ctx b) + of_bool (read_held (hash_entries ctx) pc' b) \<and>
        of_bool (sem_writer (hash_locks ctx' b)) + (of_bool (write_held (hash_entries ctx) pc b) :: nat) =
          of_bool (sem_writer (hash_locks ctx b)) + of_bool (write_held (hash_entries ctx) pc' b) \<and>
        (sem_writer (hash_locks ctx' b) \<longrightarrow> sem_readers (hash_locks ctx' b) = 0)) \<and>
     (\<forall>i < rb_entries ctx. of_bool (\<not> e_valid (ring_buffer ctx' i)) + (of_bool (owns pc i) :: nat) =
        of_bool (\<not> e_valid (ring_buffer ctx i)) + of_bool (owns pc' i)) \<and>
     (\<forall>i. elem_key ctx' i \<noteq> elem_key ctx i \<longrightarrow> owns pc i \<and>
        (tracked ctx i \<longrightarrow> write_held (hash_entries ctx) pc (bucket (hash_entries ctx) (elem_key ctx i))))"

definition line_pre :: "(nat \<Rightarrow> nat list) \<Rightarrow> nhit_hash \<Rightarrow> nhit_pc \<Rightarrow> bool" where
  "line_pre ch ctx pc \<longleftrightarrow> nhit_geom ctx \<and> nhit_chains ctx ch \<and> pc_ok ctx pc \<and>
     (\<forall>b < hash_entries ctx. (sem_writer (hash_locks ctx b) \<longrightarrow> sem_readers (hash_locks ctx b) = 0) \<and>
        (read_held (hash_entries ctx) pc b \<longrightarrow> 0 < sem_readers (hash_locks ctx b)) \<and>
        (write_held (hash_entries ctx) pc b \<longrightarrow> sem_writer (hash_locks ctx b))) \<and>
     (\<forall>i < rb_entries ctx. owns pc i \<longrightarrow> \<not> e_valid (ring_buffer ctx i))"

lemma sys_inv_pre:
  assumes "sys_inv ch s" "t < length (threads s)"
  shows "line_pre ch (table s) (threads s ! t)"
proof -
  let ?E = "hash_entries (table s)" and ?p = "threads s ! t"
  have p: "P ?p \<Longrightarrow> 0 < how_many P (threads s)" for P by (rule how_many_pos [OF assms(2)])
  have "0 < sem_readers (hash_locks (table s) b)" if "b < ?E" "read_held ?E ?p b" for b
    using p [of "\<lambda>pc. read_held ?E pc b"] that sys_invD(4) [OF assms(1)] by simp
  moreover have "sem_writer (hash_locks (table s) b)" if "b < ?E" "write_held ?E ?p b" for b
    using p [of "\<lambda>pc. write_held ?E pc b"] that sys_invD(5) [OF assms(1)] by simp
  moreover have "\<not> e_valid (ring_buffer (table s) i)" if "i < rb_entries (table s)" "owns ?p i" for i
    using p [of "\<lambda>pc. owns pc i"] that sys_invD(7) [OF assms(1)] by simp
  ultimately show ?thesis using sys_invD(1-3,6) [OF assms(1)] assms(2) unfolding line_pre_def by blast
qed

lemma pc_ok_stable:
  assumes "pc_ok ctx pc" "hash_entries ctx' = hash_entries ctx" "rb_entries ctx' = rb_entries ctx"
    "\<And>i. owns pc i \<Longrightarrow> elem_key ctx' i = elem_key ctx i"
    "\<And>i. tracked ctx i \<Longrightarrow> read_held (hash_entries ctx) pc (bucket (hash_entries ctx) (elem_key ctx i)) \<Longrightarrow> elem_key ctx' i = elem_key ctx i"
  shows "pc_ok ctx' pc"
proof (cases pc)
  case (R_Walk k a cur)
  then show ?thesis using assms by (auto simp: tracked_def)
next
  case (R_Update k a i)
  then show ?thesis using assms by (auto simp: tracked_def)
qed (use assms in \<open>auto simp: tracked_def\<close>)

text \<open>The line of one thread leaves what the other threads know.\<close>

lemma other_pc_ok:
  assumes inv: "sys_inv ch s" and t: "t < length (threads s)" and eff: "line_effect ch (table s) (threads s ! t) ch' ctx pc"
    and u: "u < length (threads s)" "u \<noteq> t"
  shows "pc_ok ctx (threads s ! u)"
proof -
  let ?E = "hash_entries (table s)" and ?N = "rb_entries (table s)" and ?p = "threads s ! t"
  have geo: "hash_entries ctx = ?E" "rb_entries ctx = ?N" using eff by (simp_all add: line_effect_def)
  have keys: "elem_key ctx i \<noteq> elem_key (table s) i \<Longrightarrow> owns ?p i \<and>
        (tracked (table s) i \<longrightarrow> write_held ?E ?p (bucket ?E (elem_key (table s) i)))" for i
    using eff unfolding line_effect_def by blast
  show ?thesis
  proof (rule pc_ok_stable [OF _ geo])
    show "pc_ok (table s) (threads s ! u)" using inv u(1) by (simp add: sys_inv_def)
  next
    fix i assume o: "owns (threads s ! u) i"
    show "elem_key ctx i = elem_key (table s) i"
    proof (rule ccontr)
      assume ne: "elem_key ctx i \<noteq> elem_key (table s) i"
      have o': "owns ?p i" using keys [OF ne] by blast
      have "2 \<le> how_many (\<lambda>pc. owns pc i) (threads s)" by (rule how_many_two [OF t u(1)]) (use u(2) o o' in auto)
      moreover have "i < ?N" using o sys_inv_pre [OF inv u(1)] by (cases "threads s ! u") (auto simp: line_pre_def)
      ultimately show False using sys_invD(7) [OF inv, of i] by (cases "e_valid (ring_buffer (table s) i)") simp_all
    qed
  next
    fix i assume tr: "tracked (table s) i" and r: "read_held ?E (threads s ! u) (bucket ?E (elem_key (table s) i))"
    define b where "b = bucket ?E (elem_key (table s) i)"
    have b: "b < ?E" using tracked_bucket [OF _ tr] inv by (simp add: b_def sys_inv_def)
    show "elem_key ctx i = elem_key (table s) i"
    proof (rule ccontr)
      assume "elem_key ctx i \<noteq> elem_key (table s) i"
      then have "write_held ?E ?p b" using keys tr by (simp add: b_def)
      then have "sem_writer (hash_locks (table s) b)" using sys_inv_pre [OF inv t] b by (simp add: line_pre_def)
      moreover have "0 < sem_readers (hash_locks (table s) b)" using sys_inv_pre [OF inv u(1)] b r by (simp add: line_pre_def b_def)
      ultimately show False using sys_invD(6) [OF inv b] by simp
    qed
  qed
qed

lemma sys_inv_run:
  assumes inv: "sys_inv ch s" and t: "t < length (threads s)" and eff: "line_effect ch (table s) (threads s ! t) ch' ctx pc"
  shows "sys_inv ch' (s\<lparr>table := ctx, threads := (threads s)[t := pc]\<rparr>)"
proof -
  let ?E = "hash_entries (table s)" and ?N = "rb_entries (table s)" and ?T = "(threads s)[t := pc]" and ?p = "threads s ! t"
  have geo: "hash_entries ctx = ?E" "rb_entries ctx = ?N" using eff by (simp_all add: line_effect_def)
  have pcs: "pc_ok ctx q" if q: "q \<in> set ?T" for q
  proof -
    obtain u where "u < length (threads s)" "q = ?T ! u" using q by (auto simp: in_set_conv_nth)
    then show ?thesis using other_pc_ok [OF inv t eff] eff by (cases "u = t") (auto simp: line_effect_def)
  qed
  have locks: "sem_readers (hash_locks ctx b) = how_many (\<lambda>pc. read_held ?E pc b) ?T \<and>
        of_bool (sem_writer (hash_locks ctx b)) = how_many (\<lambda>pc. write_held ?E pc b) ?T \<and>
        (sem_writer (hash_locks ctx b) \<longrightarrow> sem_readers (hash_locks ctx b) = 0)" if b: "b < ?E" for b
  proof -
    note r = how_many_update [OF t, of "\<lambda>pc. read_held ?E pc b" pc] and w = how_many_update [OF t, of "\<lambda>pc. write_held ?E pc b" pc]
    have "sem_readers (hash_locks ctx b) + of_bool (read_held ?E ?p b) = sem_readers (hash_locks (table s) b) + of_bool (read_held ?E pc b)"
      "of_bool (sem_writer (hash_locks ctx b)) + (of_bool (write_held ?E ?p b) :: nat) = of_bool (sem_writer (hash_locks (table s) b)) + of_bool (write_held ?E pc b)"
      "sem_writer (hash_locks ctx b) \<longrightarrow> sem_readers (hash_locks ctx b) = 0"
      using eff b unfolding line_effect_def by blast+
    then show ?thesis using r w sys_invD(4,5) [OF inv b] by linarith
  qed
  have slots: "of_bool (\<not> e_valid (ring_buffer ctx i)) = how_many (\<lambda>pc. owns pc i) ?T" if i: "i < ?N" for i
  proof -
    have "of_bool (\<not> e_valid (ring_buffer ctx i)) + (of_bool (owns ?p i) :: nat) = of_bool (\<not> e_valid (ring_buffer (table s) i)) + of_bool (owns pc i)"
      using eff i unfolding line_effect_def by blast
    then show ?thesis using how_many_update [OF t, of "\<lambda>pc. owns pc i" pc] sys_invD(7) [OF inv i] by linarith
  qed
  show ?thesis
    using eff pcs locks slots by (simp add: sys_inv_def geo line_effect_def)
qed

lemma pc_ok_locks [simp]: "pc_ok (ctx\<lparr>hash_locks := m\<rparr>) pc = pc_ok ctx pc"
  by (cases pc) simp_all

lemma effect_locks:
  assumes "line_pre ch ctx pc" "pc_ok ctx pc'" "lines_left (rb_entries ctx) (hash_entries ctx) ch pc' < lines_left (rb_entries ctx) (hash_entries ctx) ch pc" "owns pc' = owns pc"
    "\<And>b. b < hash_entries ctx \<Longrightarrow> sem_readers (m b) + of_bool (read_held (hash_entries ctx) pc b) =
       sem_readers (hash_locks ctx b) + of_bool (read_held (hash_entries ctx) pc' b)"
    "\<And>b. b < hash_entries ctx \<Longrightarrow> of_bool (sem_writer (m b)) + (of_bool (write_held (hash_entries ctx) pc b) :: nat) =
       of_bool (sem_writer (hash_locks ctx b)) + of_bool (write_held (hash_entries ctx) pc' b)"
    "\<And>b. b < hash_entries ctx \<Longrightarrow> sem_writer (m b) \<Longrightarrow> sem_readers (m b) = 0"
  shows "line_effect ch ctx pc ch (ctx\<lparr>hash_locks := m\<rparr>) pc'"
  using assms unfolding line_effect_def line_pre_def by simp

lemma effect_table:
  assumes "line_pre ch ctx pc" "nhit_chains ctx' ch'" "pc_ok ctx' pc'"
    "\<And>b. b < hash_entries ctx \<Longrightarrow> \<not> write_held (hash_entries ctx) pc b \<Longrightarrow> ch' b = ch b"
    "lines_left (rb_entries ctx) (hash_entries ctx) ch' pc' < lines_left (rb_entries ctx) (hash_entries ctx) ch pc" "hash_entries ctx' = hash_entries ctx"
    "rb_entries ctx' = rb_entries ctx" "rb_pointer ctx' < rb_entries ctx" "hash_locks ctx' = hash_locks ctx"
    "read_held (hash_entries ctx) pc' = read_held (hash_entries ctx) pc" "write_held (hash_entries ctx) pc' = write_held (hash_entries ctx) pc"
    "\<And>i. i < rb_entries ctx \<Longrightarrow> of_bool (\<not> e_valid (ring_buffer ctx' i)) + (of_bool (owns pc i) :: nat) =
       of_bool (\<not> e_valid (ring_buffer ctx i)) + of_bool (owns pc' i)"
    "\<And>i. elem_key ctx' i \<noteq> elem_key ctx i \<Longrightarrow> owns pc i \<and>
       (tracked ctx i \<longrightarrow> write_held (hash_entries ctx) pc (bucket (hash_entries ctx) (elem_key ctx i)))"
  shows "line_effect ch ctx pc ch' ctx' pc'"
  using assms unfolding line_effect_def line_pre_def nhit_geom_def by auto

lemma line_preD:
  assumes "line_pre ch ctx pc"
  shows "nhit_geom ctx" "nhit_chains ctx ch" "pc_ok ctx pc" "0 < hash_entries ctx" "hash_entries ctx < 2 ^ 32"
    "rb_pointer ctx < rb_entries ctx"
    "\<And>b. b < hash_entries ctx \<Longrightarrow> sem_writer (hash_locks ctx b) \<Longrightarrow> sem_readers (hash_locks ctx b) = 0"
    "\<And>b. b < hash_entries ctx \<Longrightarrow> read_held (hash_entries ctx) pc b \<Longrightarrow> 0 < sem_readers (hash_locks ctx b)"
    "\<And>b. b < hash_entries ctx \<Longrightarrow> write_held (hash_entries ctx) pc b \<Longrightarrow> sem_writer (hash_locks ctx b)"
    "\<And>i. i < rb_entries ctx \<Longrightarrow> owns pc i \<Longrightarrow> \<not> e_valid (ring_buffer ctx i)"
  using assms unfolding line_pre_def nhit_geom_def by simp_all

lemma line_bucket: "line_pre ch ctx pc \<Longrightarrow> valid_line k \<Longrightarrow> bucket (hash_entries ctx) k < hash_entries ctx"
  using bucket_less [OF _ valid_line_id] line_preD(4,5) by blast

lemma bucket_le: "0 < E \<Longrightarrow> E < 2 ^ 32 \<Longrightarrow> bucket E k \<le> E"
  using bucket_less [of E k] bucket_invalid [of k E] by (cases "fst k = OCF_CORE_ID_INVALID") simp_all

lemma chain_length: "nhit_chains ctx ch \<Longrightarrow> b < hash_entries ctx \<Longrightarrow> length (ch b) \<le> rb_entries ctx"
proof -
  assume c: "nhit_chains ctx ch" and b: "b < hash_entries ctx"
  have "set (ch b) \<subseteq> {..<rb_entries ctx}" using nhit_chainsD(5) [OF c b] by (auto simp: tracked_def)
  from card_mono [OF finite_lessThan this] show ?thesis using distinct_card [OF nhit_chainsD(2) [OF c b]] by simp
qed

text \<open>The lines of an insertion.\<close>

lemma effect_slot:
  assumes p: "line_pre ch ctx (I_Slot k)" and s: "thread_step ctx (I_Slot k) = Some (ctx', pc')"
  shows "\<exists>ch'. line_effect ch ctx (I_Slot k) ch' ctx' pc'"
proof -
  note c = line_preD(2) [OF p]
  let ?i = "rb_pointer ctx"
  let ?c = "(upd_elem ?i (\<lambda>e. e\<lparr>e_valid := False\<rparr>) ctx)\<lparr>rb_pointer := (?i + 1) mod rb_entries ctx\<rparr>"
  have i: "?i < rb_entries ctx" by (rule line_preD(6) [OF p])
  have s': "ctx' = ?c" "pc' = (if e_valid (ring_buffer ctx ?i) then I_Read k ?i else Idle)"
    using s i by (auto simp: get_rb_slot_def rb_index_def Let_def)
  have keys: "elem_key ?c j = elem_key ctx j" for j by (simp add: elem_key_def)
  have c': "nhit_chains ?c ch" by (rule nhit_chains_cong [OF c]) (simp_all add: elem_key_def)
  show ?thesis
    unfolding s' by (rule exI, rule effect_table [OF p c']) (use line_preD(3) [OF p] i keys in \<open>auto simp: fun_eq_iff\<close>)
qed

lemma effect_read:
  assumes p: "line_pre ch ctx (I_Read k i)" and s: "thread_step ctx (I_Read k i) = Some (ctx', pc')"
  shows "\<exists>ch'. line_effect ch ctx (I_Read k i) ch' ctx' pc'"
proof -
  note c = line_preD(2) [OF p]
  have s': "ctx' = ctx" "pc' = I_Lock1 k i (elem_key ctx i)" using s by (auto simp: elem_key_def)
  show ?thesis
    unfolding s' by (rule exI, rule effect_table [OF p c]) (use line_preD(3,6) [OF p] in \<open>auto simp: fun_eq_iff\<close>)
qed

lemma key_lock_order: "lock_order ctx (fst k) (snd k) (fst old) (snd old) =
  (min (bucket (hash_entries ctx) k) (bucket (hash_entries ctx) old), max (bucket (hash_entries ctx) k) (bucket (hash_entries ctx) old))"
  by (simp add: lock_order_def bucket_def Let_def)

lemma down_write_Some:
  "env_rwsem_down_write ctx b = Some ctx' \<longleftrightarrow> b < hash_entries ctx \<and> sem_readers (hash_locks ctx b) = 0 \<and> \<not> sem_writer (hash_locks ctx b) \<and>
     ctx' = ctx\<lparr>hash_locks := (hash_locks ctx)(b := (hash_locks ctx b)\<lparr>sem_writer := True\<rparr>)\<rparr>"
  by (auto simp: env_rwsem_down_write_def bucket_index_def upd_sem_def)

lemma up_write_Some:
  "env_rwsem_up_write ctx b = Some ctx' \<longleftrightarrow> b < hash_entries ctx \<and>
     ctx' = ctx\<lparr>hash_locks := (hash_locks ctx)(b := (hash_locks ctx b)\<lparr>sem_writer := False\<rparr>)\<rparr>"
  by (auto simp: env_rwsem_up_write_def bucket_index_def upd_sem_def)

lemma effect_lock1:
  assumes p: "line_pre ch ctx (I_Lock1 k i old)" and s: "thread_step ctx (I_Lock1 k i old) = Some (ctx', pc')"
  shows "\<exists>ch'. line_effect ch ctx (I_Lock1 k i old) ch' ctx' pc'"
proof -
  define b where "b = min (bucket (hash_entries ctx) k) (bucket (hash_entries ctx) old)"
  have b: "b < hash_entries ctx" using line_bucket [OF p, of k] line_preD(3) [OF p] by (simp add: b_def)
  have s': "env_rwsem_down_write ctx b = Some ctx'" "pc' = I_Lock2 k i old"
    using s b by (auto simp: key_lock_order write_lock_fst_def b_def bind_eq_Some_iff split: if_splits)
  note c = s'(1) [unfolded down_write_Some]
  have eq: "ctx' = ctx\<lparr>hash_locks := (hash_locks ctx)(b := (hash_locks ctx b)\<lparr>sem_writer := True\<rparr>)\<rparr>" using c by blast
  show ?thesis
    unfolding eq s'(2) by (rule exI, rule effect_locks [OF p]) (use line_preD(3,7) [OF p] c in \<open>auto simp: fun_eq_iff b_def [symmetric]\<close>)
qed

lemma effect_lock2:
  assumes p: "line_pre ch ctx (I_Lock2 k i old)" and s: "thread_step ctx (I_Lock2 k i old) = Some (ctx', pc')"
  shows "\<exists>ch'. line_effect ch ctx (I_Lock2 k i old) ch' ctx' pc'"
proof -
  define h1 h2 where "h1 = bucket (hash_entries ctx) k" and "h2 = bucket (hash_entries ctx) old"
  have h1: "h1 < hash_entries ctx" using line_bucket [OF p, of k] line_preD(3) [OF p] by (simp add: h1_def)
  have h2: "h2 \<le> hash_entries ctx" using bucket_le line_preD(4,5) [OF p] by (simp add: h2_def)
  have pc: "pc' = I_Remove k i old" using s by (auto simp: bind_eq_Some_iff)
  have held: "write_held (hash_entries ctx) (I_Lock2 k i old) b \<longleftrightarrow> b = min h1 h2"
    "write_held (hash_entries ctx) (I_Remove k i old) b \<longleftrightarrow> b = h1 \<or> b = h2" for b by (auto simp: h1_def h2_def)
  show ?thesis
  proof (cases "max h1 h2 \<noteq> hash_entries ctx \<and> h1 \<noteq> h2")
    case True
    then have s': "env_rwsem_down_write ctx (max h1 h2) = Some ctx'"
      using s by (auto simp: key_lock_order write_lock_snd_def h1_def h2_def bind_eq_Some_iff min_def max_def split: if_splits)
    note c = s' [unfolded down_write_Some]
    have eq: "ctx' = ctx\<lparr>hash_locks := (hash_locks ctx)(max h1 h2 := (hash_locks ctx (max h1 h2))\<lparr>sem_writer := True\<rparr>)\<rparr>" using c by blast
    show ?thesis unfolding eq pc
    proof (rule exI, rule effect_locks [OF p])
      fix b assume "b < hash_entries ctx"
      show "of_bool (sem_writer (((hash_locks ctx)(max h1 h2 := (hash_locks ctx (max h1 h2))\<lparr>sem_writer := True\<rparr>)) b)) +
          (of_bool (write_held (hash_entries ctx) (I_Lock2 k i old) b) :: nat) =
         of_bool (sem_writer (hash_locks ctx b)) + of_bool (write_held (hash_entries ctx) (I_Remove k i old) b)"
        unfolding held using c True by (auto simp: max_def min_def)
    qed (use line_preD(3,7) [OF p] c in \<open>auto simp: fun_eq_iff\<close>)
  next
    case False
    then have eq: "ctx' = ctx\<lparr>hash_locks := hash_locks ctx\<rparr>"
      using s by (auto simp: key_lock_order write_lock_snd_def h1_def h2_def bind_eq_Some_iff min_def max_def split: if_splits)
    show ?thesis unfolding eq pc
    proof (rule exI, rule effect_locks [OF p])
      fix b assume "b < hash_entries ctx"
      then have "b = min h1 h2 \<longleftrightarrow> b = h1 \<or> b = h2" using False h1 h2 by (auto simp: max_def min_def split: if_splits)
      then show "of_bool (sem_writer (hash_locks ctx b)) + (of_bool (write_held (hash_entries ctx) (I_Lock2 k i old) b) :: nat) =
         of_bool (sem_writer (hash_locks ctx b)) + of_bool (write_held (hash_entries ctx) (I_Remove k i old) b)"
        unfolding held by simp
    qed (use line_preD(3,7) [OF p] in \<open>auto simp: fun_eq_iff\<close>)
  qed
qed

lemma effect_remove:
  assumes p: "line_pre ch ctx (I_Remove k i old)" and s: "thread_step ctx (I_Remove k i old) = Some (ctx', pc')"
  shows "\<exists>ch'. line_effect ch ctx (I_Remove k i old) ch' ctx' pc'"
proof -
  note c = line_preD(2) [OF p]
  have i: "i < rb_entries ctx" "valid_line k" "elem_key ctx i = old" using line_preD(3) [OF p] by simp_all
  obtain ch' where s': "pc' = I_Insert k i old" "nhit_chains ctx' ch'" "same_but {i} ctx ctx'" "\<not> tracked ctx' i"
    "\<And>b. b \<noteq> bucket (hash_entries ctx) old \<Longrightarrow> ch' b = ch b"
    using collision_remove_ok [OF line_preD(1) [OF p] c i(1)] s i(3) by (auto simp: bind_eq_Some_iff)
  have keys: "elem_key ctx' j \<noteq> elem_key ctx j \<Longrightarrow> j = i" for j using s'(3) by (auto simp: same_but_def)
  show ?thesis
    unfolding s'(1) by (rule exI, rule effect_table [OF p s'(2)])
      (use s'(3-5) i line_preD(6) [OF p] in \<open>auto simp: same_but_def fun_eq_iff dest!: keys\<close>)
qed

lemma effect_insert:
  assumes p: "line_pre ch ctx (I_Insert k i old)" and s: "thread_step ctx (I_Insert k i old) = Some (ctx', pc')"
  shows "\<exists>ch'. line_effect ch ctx (I_Insert k i old) ch' ctx' pc'"
proof -
  note c = line_preD(2) [OF p]
  have i: "i < rb_entries ctx" "\<not> tracked ctx i" "valid_line k" using line_preD(3) [OF p] by simp_all
  obtain ch' where s': "pc' = I_Unlock1 k i old" "nhit_chains ctx' ch'" "same_but {i} ctx ctx'" "elem_key ctx' i = k"
    "\<And>b. b \<noteq> bucket (hash_entries ctx) k \<Longrightarrow> ch' b = ch b"
    using collision_insert_ok [OF line_preD(1) [OF p] c i] s by (auto simp: bind_eq_Some_iff)
  have keys: "elem_key ctx' j \<noteq> elem_key ctx j \<Longrightarrow> j = i" for j using s'(3) by (auto simp: same_but_def)
  show ?thesis
    unfolding s'(1) by (rule exI, rule effect_table [OF p s'(2)])
      (use s'(3-5) i line_preD(6) [OF p] in \<open>auto simp: same_but_def fun_eq_iff dest!: keys\<close>)
qed

lemma effect_unlock1:
  assumes p: "line_pre ch ctx (I_Unlock1 k i old)" and s: "thread_step ctx (I_Unlock1 k i old) = Some (ctx', pc')"
  shows "\<exists>ch'. line_effect ch ctx (I_Unlock1 k i old) ch' ctx' pc'"
proof -
  define b where "b = bucket (hash_entries ctx) k"
  have b: "b < hash_entries ctx" using line_bucket [OF p, of k] line_preD(3) [OF p] by (simp add: b_def)
  have s': "env_rwsem_up_write ctx b = Some ctx'" "pc' = I_Unlock2 k i old"
    using s b by (auto simp: write_unlock_fst_def b_def bucket_def bind_eq_Some_iff split: if_splits)
  have eq: "ctx' = ctx\<lparr>hash_locks := (hash_locks ctx)(b := (hash_locks ctx b)\<lparr>sem_writer := False\<rparr>)\<rparr>" using s'(1) [unfolded up_write_Some] by blast
  show ?thesis
    unfolding eq s'(2) by (rule exI, rule effect_locks [OF p]) (use line_preD(3,7) [OF p] line_preD(9) [OF p b] in \<open>auto simp: fun_eq_iff b_def [symmetric]\<close>)
qed

lemma effect_unlock2:
  assumes p: "line_pre ch ctx (I_Unlock2 k i old)" and s: "thread_step ctx (I_Unlock2 k i old) = Some (ctx', pc')"
  shows "\<exists>ch'. line_effect ch ctx (I_Unlock2 k i old) ch' ctx' pc'"
proof -
  define h1 h2 where "h1 = bucket (hash_entries ctx) k" and "h2 = bucket (hash_entries ctx) old"
  have pc: "pc' = I_Commit i" using s by (auto simp: bind_eq_Some_iff)
  have held: "write_held (hash_entries ctx) (I_Unlock2 k i old) b \<longleftrightarrow> b = h2 \<and> b \<noteq> h1" for b by (simp add: h1_def h2_def)
  show ?thesis
  proof (cases "h2 \<noteq> hash_entries ctx \<and> h1 \<noteq> h2")
    case True
    then have s': "env_rwsem_up_write ctx h2 = Some ctx'"
      using s by (auto simp: write_unlock_snd_def h1_def h2_def bucket_def bind_eq_Some_iff split: if_splits)
    then have h2: "h2 < hash_entries ctx" and eq: "ctx' = ctx\<lparr>hash_locks := (hash_locks ctx)(h2 := (hash_locks ctx h2)\<lparr>sem_writer := False\<rparr>)\<rparr>"
      unfolding up_write_Some by blast+
    show ?thesis unfolding eq pc
      by (rule exI, rule effect_locks [OF p]) (use True line_preD(3,7) [OF p] line_preD(9) [OF p h2] in \<open>auto simp: fun_eq_iff held simp del: write_held.simps(5)\<close>)
  next
    case False
    then have eq: "ctx' = ctx\<lparr>hash_locks := hash_locks ctx\<rparr>"
      using s by (auto simp: write_unlock_snd_def h1_def h2_def bucket_def bind_eq_Some_iff split: if_splits)
    show ?thesis unfolding eq pc
      by (rule exI, rule effect_locks [OF p]) (use False line_preD(3,7) [OF p] in \<open>auto simp: fun_eq_iff held simp del: write_held.simps(5)\<close>)
  qed
qed

lemma effect_commit:
  assumes p: "line_pre ch ctx (I_Commit i)" and s: "thread_step ctx (I_Commit i) = Some (ctx', pc')"
  shows "\<exists>ch'. line_effect ch ctx (I_Commit i) ch' ctx' pc'"
proof -
  note c = line_preD(2) [OF p]
  have s': "ctx' = upd_elem i (\<lambda>e. e\<lparr>e_valid := True\<rparr>) ctx" "pc' = Idle" using s by (auto simp: commit_rb_slot_def bind_eq_Some_iff)
  have c': "nhit_chains (upd_elem i (\<lambda>e. e\<lparr>e_valid := True\<rparr>) ctx) ch" by (rule nhit_chains_cong [OF c]) (simp_all add: elem_key_def)
  show ?thesis
    unfolding s' by (rule exI, rule effect_table [OF p c']) (use line_preD(3,6) [OF p] line_preD(10) [OF p] in \<open>auto simp: fun_eq_iff elem_key_def split: if_splits\<close>)
qed

text \<open>The lines of a reader.\<close>

lemma effect_rlock:
  assumes p: "line_pre ch ctx (R_Lock k a)" and s: "thread_step ctx (R_Lock k a) = Some (ctx', pc')"
  shows "\<exists>ch'. line_effect ch ctx (R_Lock k a) ch' ctx' pc'"
proof -
  define b where "b = bucket (hash_entries ctx) k"
  have b: "b < hash_entries ctx" using line_bucket [OF p, of k] line_preD(3) [OF p] by (simp add: b_def)
  define m where "m = (hash_locks ctx)(b := (hash_locks ctx b)\<lparr>sem_readers := Suc (sem_readers (hash_locks ctx b))\<rparr>)"
  have s': "ctx' = ctx\<lparr>hash_locks := m\<rparr>" "pc' = R_Walk k a (hash_map ctx b)" "\<not> sem_writer (hash_locks ctx b)"
    using s b by (auto simp: env_rwsem_down_read_def bucket_index_def upd_sem_def m_def b_def bucket_def Let_def bind_eq_Some_iff split: if_splits)
  note c = line_preD(2) [OF p]
  note D = nhit_chainsD [OF c b]
  have "hash_map ctx b = rb_entries ctx \<or> hash_map ctx b \<in> set (ch b)"
    using D(1) first_in [of "ch b" "rb_entries ctx"] by (cases "ch b = []") simp_all
  then have pc: "pc_ok ctx (R_Walk k a (hash_map ctx b))" using D(5) line_preD(3) [OF p] by (auto simp: b_def)
  have len: "length (dropWhile (\<lambda>x. x \<noteq> hash_map ctx b) (ch b)) \<le> rb_entries ctx"
    using chain_length [OF c b] length_dropWhile_le [of "\<lambda>x. x \<noteq> hash_map ctx b" "ch b"] by simp
  show ?thesis
    unfolding s' by (rule exI, rule effect_locks [OF p pc]) (use len line_preD(7) [OF p] s'(3) in \<open>auto simp: m_def b_def fun_eq_iff\<close>)
qed

lemma effect_walk:
  assumes p: "line_pre ch ctx (R_Walk k a cur)" and s: "thread_step ctx (R_Walk k a cur) = Some (ctx', pc')"
  shows "\<exists>ch'. line_effect ch ctx (R_Walk k a cur) ch' ctx' pc'"
proof -
  define b where "b = bucket (hash_entries ctx) k"
  have k: "valid_line k" using line_preD(3) [OF p] by simp
  have b: "b < hash_entries ctx" using line_bucket [OF p k] by (simp add: b_def)
  note c = line_preD(2) [OF p]
  note D = nhit_chainsD [OF c b]
  have mem: "cur \<in> set (ch b)" if "cur \<noteq> rb_entries ctx" using line_preD(3) [OF p] that D(5) by (simp add: b_def)
  have nx: "(coll_next (ring_buffer ctx cur) = rb_entries ctx \<or> coll_next (ring_buffer ctx cur) \<in> set (ch b)) \<and>
      length (dropWhile (\<lambda>x. x \<noteq> coll_next (ring_buffer ctx cur)) (ch b)) < length (dropWhile (\<lambda>x. x \<noteq> cur) (ch b))"
    if cur: "cur \<noteq> rb_entries ctx"
  proof -
    obtain as bs where xs: "ch b = as @ cur # bs" using mem [OF cur] by (meson split_list)
    have n: "coll_next (ring_buffer ctx cur) = first (rb_entries ctx) bs" using D(3) by (simp add: xs lseg_split)
    have away: "first (rb_entries ctx) bs \<noteq> x" if "x \<in> set (as @ [cur])" for x
      using that D(2,4) first_in [of bs "rb_entries ctx"] by (cases "bs = []") (auto simp: xs)
    have "dropWhile (\<lambda>x. x \<noteq> first (rb_entries ctx) bs) (ch b) = dropWhile (\<lambda>x. x \<noteq> first (rb_entries ctx) bs) bs"
      using dropWhile_append2 [of "as @ [cur]" "\<lambda>x. x \<noteq> first (rb_entries ctx) bs" bs, OF away [symmetric]] by (simp add: xs)
    moreover have "dropWhile (\<lambda>x. x \<noteq> cur) (ch b) = cur # bs"
      using D(2) by (subst xs, subst dropWhile_append2) (auto simp: xs)
    ultimately show ?thesis
      using n first_in [of bs "rb_entries ctx"] length_dropWhile_le [of "\<lambda>x. x \<noteq> first (rb_entries ctx) bs" bs]
      by (cases "bs = []") (auto simp: xs)
  qed
  have s': "ctx' = ctx" and pc: "read_held (hash_entries ctx) pc' = read_held (hash_entries ctx) (R_Walk k a cur)"
    "\<And>i. \<not> owns pc' i" "\<And>b. \<not> write_held (hash_entries ctx) pc' b"
    using s by (auto simp: bind_eq_Some_iff fun_eq_iff split: if_splits)
  have ok: "pc_ok ctx pc'"
    using s line_preD(3) [OF p] nx D(5) by (auto simp: bind_eq_Some_iff rb_match_def elem_key_def b_def prod_eq_iff split: if_splits)
  have left: "lines_left (rb_entries ctx) (hash_entries ctx) ch pc' < lines_left (rb_entries ctx) (hash_entries ctx) ch (R_Walk k a cur)"
    using s nx mem by (auto simp: bind_eq_Some_iff b_def split: if_splits)
  show ?thesis
    unfolding s' by (rule exI, rule effect_table [OF p c ok _ left]) (use pc line_preD(6) [OF p] in \<open>auto simp: fun_eq_iff\<close>)
qed

lemma effect_update:
  assumes p: "line_pre ch ctx (R_Update k a i)" and s: "thread_step ctx (R_Update k a i) = Some (ctx', pc')"
  shows "\<exists>ch'. line_effect ch ctx (R_Update k a i) ch' ctx' pc'"
proof -
  note c = line_preD(2) [OF p]
  obtain v where s': "ctx' = upd_elem i (\<lambda>e. e\<lparr>e_counter := v\<rparr>) ctx" "pc' = R_Unlock k"
    using s by (auto simp: bind_eq_Some_iff env_atomic_inc_counter_def Let_def split: nhit_access.splits)
  show ?thesis
    unfolding s' by (rule exI, rule effect_table [OF p counter_keeps [OF c]])
      (use line_preD(3,6) [OF p] in \<open>auto simp: fun_eq_iff elem_key_def split: if_splits\<close>)
qed

lemma effect_runlock:
  assumes p: "line_pre ch ctx (R_Unlock k)" and s: "thread_step ctx (R_Unlock k) = Some (ctx', pc')"
  shows "\<exists>ch'. line_effect ch ctx (R_Unlock k) ch' ctx' pc'"
proof -
  define b where "b = bucket (hash_entries ctx) k"
  have b: "b < hash_entries ctx" using line_bucket [OF p, of k] line_preD(3) [OF p] by (simp add: b_def)
  define m where "m = (hash_locks ctx)(b := (hash_locks ctx b)\<lparr>sem_readers := sem_readers (hash_locks ctx b) - 1\<rparr>)"
  have s': "ctx' = ctx\<lparr>hash_locks := m\<rparr>" "pc' = Idle"
    using s b by (auto simp: env_rwsem_up_read_def bucket_index_def upd_sem_def m_def b_def bucket_def bind_eq_Some_iff split: if_splits)
  show ?thesis
    unfolding s' by (rule exI, rule effect_locks [OF p])
      (use line_preD(7) [OF p] line_preD(8) [OF p b] in \<open>auto simp: m_def b_def fun_eq_iff\<close>)
qed

lemmas line_effects = effect_slot effect_read effect_lock1 effect_lock2 effect_remove effect_insert effect_unlock1 effect_unlock2
  effect_commit effect_rlock effect_walk effect_update effect_runlock

lemma thread_line_effect: "line_pre ch ctx pc \<Longrightarrow> thread_step ctx pc = Some (ctx', pc') \<Longrightarrow> \<exists>ch'. line_effect ch ctx pc ch' ctx' pc'"
  by (cases pc) (simp, (simp only: line_effects)+)

subsection \<open>Every interleaving is safe\<close>

lemma nhit_hash_init_OK: "nhit_hash_init env n = (OCF_OK, live, Some ctx) \<Longrightarrow> ctx = new_table n"
  by (auto simp: nhit_hash_init_def Let_def split: if_splits prod.splits)

lemma sys_inv_new:
  assumes "4 \<le> n" "n < 2 ^ 32" "set pcs \<subseteq> {Idle}"
  shows "sys_inv (\<lambda>_. []) \<lparr>table = new_table n, threads = pcs\<rparr>"
proof -
  have "how_many P pcs = 0" if "\<not> P Idle" for P using assms(3) that by (auto simp: how_many_def filter_empty_conv)
  with assms show ?thesis
    unfolding sys_inv_def using new_table_geom [OF assms(1,2)] new_table_chains [of n]
    by (auto simp: new_table_def new_elem_def)
qed

lemma sys_inv_call:
  assumes "sys_inv ch s" "t < length (threads s)" "threads s ! t = Idle" "first_line pc"
  shows "sys_inv ch (s\<lparr>threads := (threads s)[t := pc]\<rparr>)"
proof -
  have free: "\<not> read_held E pc b" "\<not> write_held E pc b" "\<not> owns pc i" "pc_ok (table s) pc" for E b i
    using assms(4) by (cases pc; simp)+
  have "how_many P ((threads s)[t := pc]) = how_many P (threads s)" if "\<not> P pc" "\<not> P Idle" for P
    using how_many_update [OF assms(2), of P pc] assms(3) that by simp
  with assms(1) free show ?thesis
    by (auto simp: sys_inv_def dest!: set_update_subset_insert [THEN subsetD])
qed

lemma reach_inv: "nhit_reach s \<Longrightarrow> \<exists>ch. sys_inv ch s"
proof (induction rule: nhit_reach.induct)
  case (init env n live ctx pcs)
  then show ?case using sys_inv_new nhit_hash_init_OK by blast
next
  case (step s s')
  then obtain ch where inv: "sys_inv ch s" by blast
  from step(2) show ?case
  proof (cases rule: nhit_step.cases)
    case (call t pc)
    then show ?thesis using sys_inv_call [OF inv] by blast
  next
    case (run t ctx pc)
    then show ?thesis using thread_line_effect [OF sys_inv_pre [OF inv run(2)] run(3)] sys_inv_run [OF inv run(2)] by blast
  qed
qed

lemma sys_inv_exclusive:
  assumes inv: "sys_inv ch s" and tu: "t < length (threads s)" "u < length (threads s)" "t \<noteq> u"
  shows "b < hash_entries (table s) \<Longrightarrow> write_held (hash_entries (table s)) (threads s ! t) b \<Longrightarrow>
      \<not> write_held (hash_entries (table s)) (threads s ! u) b \<and> \<not> read_held (hash_entries (table s)) (threads s ! u) b"
    "owns (threads s ! t) i \<Longrightarrow> \<not> owns (threads s ! u) i"
proof -
  let ?E = "hash_entries (table s)"
  assume b: "b < ?E" and w: "write_held ?E (threads s ! t) b"
  have sw: "sem_writer (hash_locks (table s) b)" using line_preD(9) [OF sys_inv_pre [OF inv tu(1)] b w] .
  have "\<not> write_held ?E (threads s ! u) b"
    using how_many_two [OF tu, of "\<lambda>pc. write_held ?E pc b"] w sys_invD(5) [OF inv b] sw by auto
  moreover have "\<not> read_held ?E (threads s ! u) b"
    using line_preD(8) [OF sys_inv_pre [OF inv tu(2)] b] sys_invD(6) [OF inv b sw] by auto
  ultimately show "\<not> write_held ?E (threads s ! u) b \<and> \<not> read_held ?E (threads s ! u) b" ..
next
  assume o: "owns (threads s ! t) i"
  have "i < rb_entries (table s)" using o sys_invD(3) [OF inv tu(1)] by (cases "threads s ! t") auto
  then show "\<not> owns (threads s ! u) i"
    using how_many_two [OF tu, of "\<lambda>pc. owns pc i"] o sys_invD(7) [OF inv, of i] by (cases "e_valid (ring_buffer (table s) i)") auto
qed

text \<open>
  C23: in every state that threads reach from a new table of at least four elements when they insert, query and set counters
  at the same time, the chains of the table are
  well-formed, a bucket that a thread has locked for writing is not locked by another one, no two threads fill the same
  slot, a thread that is about to unlink a slot has locked the bucket of the slot's line, and a counter is written in the
  slot of the line the thread asked for.
\<close>

theorem nhit_threads_safe:
  assumes "nhit_reach s"
  shows "(\<exists>ch. nhit_chains (table s) ch) \<and>
    (\<forall>t < length (threads s). \<forall>u < length (threads s). t \<noteq> u \<longrightarrow>
       (\<forall>b < hash_entries (table s). write_held (hash_entries (table s)) (threads s ! t) b \<longrightarrow>
          \<not> write_held (hash_entries (table s)) (threads s ! u) b \<and> \<not> read_held (hash_entries (table s)) (threads s ! u) b) \<and>
       (\<forall>i. owns (threads s ! t) i \<longrightarrow> \<not> owns (threads s ! u) i)) \<and>
    (\<forall>t < length (threads s). \<forall>k i old. threads s ! t = I_Remove k i old \<longrightarrow>
       write_held (hash_entries (table s)) (threads s ! t) (bucket (hash_entries (table s)) (elem_key (table s) i))) \<and>
    (\<forall>t < length (threads s). \<forall>k a i. threads s ! t = R_Update k a i \<longrightarrow> tracked (table s) i \<and> elem_key (table s) i = k)"
proof -
  obtain ch where inv: "sys_inv ch s" using reach_inv [OF assms] by blast
  note ok = sys_invD(3) [OF inv]
  show ?thesis
  proof (intro conjI allI impI)
    show "\<exists>ch. nhit_chains (table s) ch" using sys_invD(2) [OF inv] by blast
  next
    fix t k i old assume "t < length (threads s)" "threads s ! t = I_Remove k i old"
    with ok [of t] show "write_held (hash_entries (table s)) (threads s ! t) (bucket (hash_entries (table s)) (elem_key (table s) i))"
      by simp
  next
    fix t k a i assume "t < length (threads s)" "threads s ! t = R_Update k a i"
    with ok [of t] show "tracked (table s) i" "elem_key (table s) i = k" by simp_all
  qed (use sys_inv_exclusive [OF inv] in blast)+
qed

subsection \<open>Every operation ends\<close>

text \<open>A thread that cannot go on waits for a bucket above all buckets it has locked, and somebody has locked that one.\<close>

lemma stuck_waits:
  assumes p: "line_pre ch ctx pc" and s: "thread_step ctx pc = None" "pc \<noteq> Idle"
  obtains b where "b < hash_entries ctx" "sem_writer (hash_locks ctx b) \<or> 0 < sem_readers (hash_locks ctx b)"
    "\<And>h. write_held (hash_entries ctx) pc h \<Longrightarrow> h < b" "\<And>h. \<not> read_held (hash_entries ctx) pc h"
proof (cases pc)
  case (I_Lock1 k i old)
  define b where "b = min (bucket (hash_entries ctx) k) (bucket (hash_entries ctx) old)"
  have b: "b < hash_entries ctx" using line_bucket [OF p, of k] line_preD(3) [OF p] by (simp add: b_def I_Lock1)
  have "env_rwsem_down_write ctx b = None"
    using s b I_Lock1 by (auto simp: key_lock_order write_lock_fst_def b_def Option.bind_eq_None_conv split: if_splits)
  with b show thesis by (intro that [OF b]) (auto simp: env_rwsem_down_write_def bucket_index_def I_Lock1 split: if_splits)
next
  case (I_Lock2 k i old)
  define h1 h2 where "h1 = bucket (hash_entries ctx) k" and "h2 = bucket (hash_entries ctx) old"
  have h1: "h1 < hash_entries ctx" using line_bucket [OF p, of k] line_preD(3) [OF p] by (simp add: h1_def I_Lock2)
  have h2: "h2 \<le> hash_entries ctx" using bucket_le line_preD(4,5) [OF p] by (simp add: h2_def)
  have n: "env_rwsem_down_write ctx (max h1 h2) = None" "max h1 h2 \<noteq> hash_entries ctx" "h1 \<noteq> h2"
    using s I_Lock2 by (auto simp: key_lock_order write_lock_snd_def h1_def h2_def Option.bind_eq_None_conv split: if_splits)
  have b: "max h1 h2 < hash_entries ctx" using n(2) h1 h2 by (simp add: max_def split: if_splits)
  have "min h1 h2 < max h1 h2" using n(3) by (simp add: min_def max_def)
  with n(1) b show thesis
    by (intro that [OF b]) (auto simp: env_rwsem_down_write_def bucket_index_def I_Lock2 h1_def h2_def split: if_splits)
next
  case (R_Lock k a)
  define b where "b = bucket (hash_entries ctx) k"
  have b: "b < hash_entries ctx" using line_bucket [OF p, of k] line_preD(3) [OF p] by (simp add: b_def R_Lock)
  have "sem_writer (hash_locks ctx b)"
    using s b R_Lock by (auto simp: env_rwsem_down_read_def bucket_index_def upd_sem_def b_def bucket_def Let_def split: if_splits)
  with b show thesis by (intro that [OF b]) (auto simp: R_Lock)
next
  case (I_Remove k i old)
  then show thesis using collision_remove_ok [OF line_preD(1,2) [OF p], of i] line_preD(3) [OF p] s by fastforce
next
  case (I_Insert k i old)
  then show thesis using collision_insert_ok [OF line_preD(1,2) [OF p], of i k] line_preD(3) [OF p] s by fastforce
next
  case (R_Walk k a cur)
  then show thesis using s line_preD(3) [OF p] by (auto simp: rb_index_def tracked_def split: if_splits)
next
  case (R_Update k a i)
  then show thesis using s line_preD(3) [OF p] by (auto simp: rb_index_def tracked_def)
next
  case (I_Unlock2 k i old)
  have "bucket (hash_entries ctx) old \<le> hash_entries ctx" using bucket_le line_preD(4,5) [OF p] by simp
  then show thesis using s I_Unlock2
    by (auto simp: write_unlock_snd_def env_rwsem_up_write_def bucket_index_def bucket_def split: if_splits)
next
  case (I_Unlock1 k i old)
  then show thesis using s line_bucket [OF p, of k] line_preD(3) [OF p]
    by (auto simp: write_unlock_fst_def env_rwsem_up_write_def bucket_index_def bucket_def split: if_splits)
next
  case (R_Unlock k)
  then show thesis using s line_bucket [OF p, of k] line_preD(3) [OF p]
    by (auto simp: env_rwsem_up_read_def bucket_index_def bucket_def split: if_splits)
qed (use s line_preD(3,6) [OF p] in \<open>auto simp: get_rb_slot_def commit_rb_slot_def rb_index_def Let_def\<close>)

text \<open>Steps of the threads that have work to do, without new calls.\<close>

definition nhit_run :: "nhit_sys \<Rightarrow> nhit_sys \<Rightarrow> bool" where
  "nhit_run s s' \<longleftrightarrow> (\<exists>t ctx pc. t < length (threads s) \<and> thread_step (table s) (threads s ! t) = Some (ctx, pc) \<and>
     s' = s\<lparr>table := ctx, threads := (threads s)[t := pc]\<rparr>)"

lemma nhit_runI: "t < length (threads s) \<Longrightarrow> thread_step (table s) (threads s ! t) = Some (ctx, pc) \<Longrightarrow>
  nhit_run s (s\<lparr>table := ctx, threads := (threads s)[t := pc]\<rparr>)"
  unfolding nhit_run_def by blast

definition total_left :: "(nat \<Rightarrow> nat list) \<Rightarrow> nhit_sys \<Rightarrow> nat" where
  "total_left ch s = sum_list (map (lines_left (rb_entries (table s)) (hash_entries (table s)) ch) (threads s))"

lemma lines_left_other:
  assumes inv: "sys_inv ch s" and t: "t < length (threads s)" and eff: "line_effect ch (table s) (threads s ! t) ch' ctx pc"
    and u: "u < length (threads s)" "u \<noteq> t"
  shows "lines_left N (hash_entries (table s)) ch' (threads s ! u) = lines_left N (hash_entries (table s)) ch (threads s ! u)"
proof (cases "threads s ! u")
  case (R_Walk k a cur)
  define b where "b = bucket (hash_entries (table s)) k"
  have r: "read_held (hash_entries (table s)) (threads s ! u) b" by (simp add: R_Walk b_def)
  have b: "b < hash_entries (table s)" using line_bucket [OF sys_inv_pre [OF inv u(1)], of k] sys_invD(3) [OF inv u(1)] by (simp add: R_Walk b_def)
  have "\<not> write_held (hash_entries (table s)) (threads s ! t) b" using sys_inv_exclusive(1) [OF inv t u(1) u(2) [symmetric] b] r by blast
  with eff b have "ch' b = ch b" by (simp add: line_effect_def)
  then show ?thesis by (simp add: R_Walk b_def)
qed simp_all

lemma run_decreases:
  assumes inv: "sys_inv ch s" and r: "nhit_run s s'"
  obtains ch' where "sys_inv ch' s'" "total_left ch' s' < total_left ch s"
proof -
  obtain t ctx pc where t: "t < length (threads s)" and st: "thread_step (table s) (threads s ! t) = Some (ctx, pc)"
    and s': "s' = s\<lparr>table := ctx, threads := (threads s)[t := pc]\<rparr>" using r by (auto simp: nhit_run_def)
  obtain ch' where eff: "line_effect ch (table s) (threads s ! t) ch' ctx pc"
    using thread_line_effect [OF sys_inv_pre [OF inv t] st] by blast
  let ?f = "lines_left (rb_entries (table s)) (hash_entries (table s))"
  have geo: "hash_entries ctx = hash_entries (table s)" "rb_entries ctx = rb_entries (table s)"
    and less: "?f ch' pc < ?f ch (threads s ! t)" using eff by (simp_all add: line_effect_def)
  have eq: "map (?f ch') ((threads s)[t := pc]) = (map (?f ch) (threads s))[t := ?f ch' pc]"
  proof (rule nth_equalityI)
    fix u assume "u < length (map (?f ch') ((threads s)[t := pc]))"
    then show "map (?f ch') ((threads s)[t := pc]) ! u = (map (?f ch) (threads s))[t := ?f ch' pc] ! u"
      using lines_left_other [OF inv t eff] by (cases "u = t") simp_all
  qed simp
  have "?f ch (threads s ! t) \<le> sum_list (map (?f ch) (threads s))"
    using elem_le_sum_list [of t "map (?f ch) (threads s)"] t by simp
  then have "total_left ch' s' < total_left ch s"
    unfolding s' total_left_def using t less by (simp add: geo eq sum_list_update)
  moreover have "sys_inv ch' s'" unfolding s' by (rule sys_inv_run [OF inv t eff])
  ultimately show thesis by (intro that)
qed

lemma taken_bucket_runs:
  assumes inv: "sys_inv ch s" and "b < hash_entries (table s)"
    "sem_writer (hash_locks (table s) b) \<or> 0 < sem_readers (hash_locks (table s) b)"
  shows "\<exists>s'. nhit_run s s'"
  using assms(2,3)
proof (induction "hash_entries (table s) - b" arbitrary: b rule: less_induct)
  case less
  let ?E = "hash_entries (table s)"
  obtain t where t: "t < length (threads s)" "write_held ?E (threads s ! t) b \<or> read_held ?E (threads s ! t) b"
    using less.prems(2) sys_invD(4,5) [OF inv less.prems(1)] how_many_exists [of "\<lambda>pc. write_held ?E pc b" "threads s"]
      how_many_exists [of "\<lambda>pc. read_held ?E pc b" "threads s"] by (cases "sem_writer (hash_locks (table s) b)") auto
  note p = sys_inv_pre [OF inv t(1)]
  show ?case
  proof (cases "thread_step (table s) (threads s ! t)")
    case None
    have "threads s ! t \<noteq> Idle" using t(2) by auto
    from stuck_waits [OF p None this] obtain b' where b': "b' < ?E" "sem_writer (hash_locks (table s) b') \<or> 0 < sem_readers (hash_locks (table s) b')"
      "\<And>h. write_held ?E (threads s ! t) h \<Longrightarrow> h < b'" "\<And>h. \<not> read_held ?E (threads s ! t) h" by metis
    then have "b < b'" using t(2) by blast
    then show ?thesis using less.hyps [of b'] b'(1,2) less.prems(1) by simp
  next
    case (Some x)
    then show ?thesis using nhit_runI [OF t(1)] by (cases x) blast
  qed
qed

lemma busy_runs:
  assumes inv: "sys_inv ch s" and t: "t < length (threads s)" "threads s ! t \<noteq> Idle"
  shows "\<exists>s'. nhit_run s s'"
proof (cases "thread_step (table s) (threads s ! t)")
  case None
  show ?thesis using stuck_waits [OF sys_inv_pre [OF inv t(1)] None t(2)] taken_bucket_runs [OF inv] by metis
next
  case (Some x)
  then show ?thesis using nhit_runI [OF t(1)] by (cases x) blast
qed

lemma runs_bounded:
  assumes "sys_inv ch s" "(nhit_run ^^ m) s s'"
  shows "\<exists>ch'. sys_inv ch' s' \<and> m + total_left ch' s' \<le> total_left ch s"
  using assms(2)
proof (induction m arbitrary: s')
  case 0
  then show ?case using assms(1) by auto
next
  case (Suc m)
  then obtain s1 where s1: "(nhit_run ^^ m) s s1" "nhit_run s1 s'" by auto
  obtain c1 where c1: "sys_inv c1 s1" "m + total_left c1 s1 \<le> total_left ch s" using Suc.IH [OF s1(1)] by blast
  obtain c2 where "sys_inv c2 s'" "total_left c2 s' < total_left c1 s1" using run_decreases [OF c1(1) s1(2)] by metis
  with c1 show ?case by (intro exI [of _ c2]) simp
qed

text \<open>
  C24: the threads never wait for each other in a cycle and every traversal ends: from a reachable state the number of
  lines they can run without new calls is bounded, and when none of them can go on, all have finished.
\<close>

theorem nhit_threads_finish:
  assumes "nhit_reach s"
  shows "\<exists>n. \<forall>m s'. (nhit_run ^^ m) s s' \<longrightarrow>
    m \<le> n \<and> ((\<forall>s''. \<not> nhit_run s' s'') \<longrightarrow> (\<forall>pc \<in> set (threads s'). pc = Idle))"
proof -
  obtain ch where inv: "sys_inv ch s" using reach_inv [OF assms] by blast
  have "m \<le> total_left ch s \<and> ((\<forall>s''. \<not> nhit_run s' s'') \<longrightarrow> (\<forall>pc \<in> set (threads s'). pc = Idle))"
    if "(nhit_run ^^ m) s s'" for m s'
  proof -
    obtain ch' where "sys_inv ch' s'" "m + total_left ch' s' \<le> total_left ch s" using runs_bounded [OF inv \<open>(nhit_run ^^ m) s s'\<close>] by blast
    then show ?thesis using busy_runs by (metis add_leD1 in_set_conv_nth)
  qed
  then show ?thesis by blast
qed

text \<open>A table of eight elements, one thread that inserts a core line and one that asks for it.\<close>

definition demo_nhit :: nhit_sys where
  "demo_nhit = \<lparr>table = new_table 8, threads = [I_Slot (1, 7), R_Lock (1, 7) Query]\<rparr>"

lemma demo_nhit_reach: "nhit_reach demo_nhit"
proof -
  have e: "all_but_spinlock demo_nhit_env 8" "spinlock_init demo_nhit_env = OCF_OK" by (simp_all add: all_but_spinlock_def demo_nhit_env_def)
  let ?s = "\<lambda>ts. \<lparr>table = new_table 8, threads = ts\<rparr>"
  have "nhit_reach (?s [Idle, Idle])" by (rule nhit_reach.init [OF nhit_hash_init_ok [OF e]]) simp_all
  then have "nhit_reach ((?s [Idle, Idle])\<lparr>threads := [Idle, Idle][0 := I_Slot (1, 7)]\<rparr>)"
    by (rule nhit_reach.step) (use nhit_step.call [of 0 "?s [Idle, Idle]" "I_Slot (1, 7)"] in \<open>simp add: valid_line_def\<close>)
  then have "nhit_reach (?s [I_Slot (1, 7), Idle])" by simp
  then show ?thesis unfolding demo_nhit_def
    by (rule nhit_reach.step) (use nhit_step.call [of 1 "?s [I_Slot (1, 7), Idle]" "R_Lock (1, 7) Query"] in \<open>simp add: valid_line_def\<close>)
qed

theorem nhit_threads_safe_witness: "nhit_reach demo_nhit \<and> (\<exists>ch. nhit_chains (table demo_nhit) ch)"
  using nhit_threads_safe [OF demo_nhit_reach] demo_nhit_reach by blast

theorem nhit_threads_finish_witness:
  "nhit_reach demo_nhit \<and> (\<exists>s. nhit_run demo_nhit s) \<and> (\<exists>n. \<forall>s. \<not> (nhit_run ^^ Suc n) demo_nhit s)"
proof -
  obtain n where n: "\<forall>m s'. (nhit_run ^^ m) demo_nhit s' \<longrightarrow> m \<le> n \<and> ((\<forall>s''. \<not> nhit_run s' s'') \<longrightarrow> (\<forall>pc \<in> set (threads s'). pc = Idle))"
    using nhit_threads_finish [OF demo_nhit_reach] by blast
  have "\<not> (nhit_run ^^ Suc n) demo_nhit s" for s using n by (metis Suc_n_not_le_n)
  moreover have "\<exists>s. nhit_run demo_nhit s"
  proof (rule ccontr)
    assume "\<not> ?thesis"
    then have "\<forall>pc \<in> set (threads demo_nhit). pc = Idle" using n [rule_format, of 0 demo_nhit] by simp
    then show False by (simp add: demo_nhit_def)
  qed
  ultimately show ?thesis using demo_nhit_reach by blast
qed

end
