(* ===== verification/Promotion.thy ===== *)
theory Promotion
  imports Nhit_Hash Space
begin

section \<open>Promotion policies\<close>

text \<open>
  Model of \<open>src/promotion/nhit/nhit.c\<close> and \<open>src/promotion/promotion.c\<close>. The policy of a cache decides whether a request
  that misses core lines may take cache lines. The policy \<open>nhit\<close> counts in the table of \<open>Nhit_Hash\<close> how often a core
  line was asked for and admits it from a number of accesses on, once the cache is filled to a given percentage. The
  numbers of lines and the free memory are arguments where the code asks the metadata or the environment for them.
\<close>

subsection \<open>The nhit policy\<close>

record nhit_promotion_policy_config =
  insertion_threshold :: nat
  trigger_threshold :: nat

abbreviation (input) OCF_NHIT_MIN_THRESHOLD :: nat where "OCF_NHIT_MIN_THRESHOLD \<equiv> 2"
abbreviation (input) OCF_NHIT_MAX_THRESHOLD :: nat where "OCF_NHIT_MAX_THRESHOLD \<equiv> 1000"
abbreviation (input) OCF_NHIT_THRESHOLD_DEFAULT :: nat where "OCF_NHIT_THRESHOLD_DEFAULT \<equiv> 3"
abbreviation (input) OCF_NHIT_MIN_TRIGGER :: nat where "OCF_NHIT_MIN_TRIGGER \<equiv> 0"
abbreviation (input) OCF_NHIT_MAX_TRIGGER :: nat where "OCF_NHIT_MAX_TRIGGER \<equiv> 100"
abbreviation (input) OCF_NHIT_TRIGGER_DEFAULT :: nat where "OCF_NHIT_TRIGGER_DEFAULT \<equiv> 80"
abbreviation (input) NHIT_MAPPING_RATIO :: nat where "NHIT_MAPPING_RATIO \<equiv> 2"

abbreviation (input) ocf_nhit_insertion_threshold :: nat where "ocf_nhit_insertion_threshold \<equiv> 0"
abbreviation (input) ocf_nhit_trigger_threshold :: nat where "ocf_nhit_trigger_threshold \<equiv> 1"

text \<open>
  \<open>conf_type\<close> and \<open>nhit_config\<close> are in the superblock, \<open>pp_type\<close> and \<open>pp_ctx\<close> are fields of the policy object, which is
  absent when \<open>pp_present\<close> is false. \<open>ctx_allocated\<close> and \<open>table_allocated\<close> are what the nhit policy has allocated.
\<close>

record promotion_state =
  conf_type :: nat
  nhit_config :: nhit_promotion_policy_config
  pp_present :: bool
  pp_type :: nat
  pp_ctx :: "nhit_hash option"
  ctx_allocated :: bool
  table_allocated :: "nhit_res set"

record promotion_env = nhit_env +
  policy_alloc_ok :: bool
  nhit_ctx_alloc_ok :: bool
  free_memory :: nat
  sizeof_nhit_ctx :: nat
  sizeof_nhit_hash :: nat
  sizeof_rwsem :: nat

definition nhit_setup :: "promotion_state \<Rightarrow> promotion_state" where
  "nhit_setup p = p\<lparr>nhit_config :=
     \<lparr>insertion_threshold = OCF_NHIT_THRESHOLD_DEFAULT, trigger_threshold = OCF_NHIT_TRIGGER_DEFAULT\<rparr>\<rparr>"

text \<open>The product with the ratio is \<open>uint32_t\<close> arithmetic.\<close>

definition nhit_sizeof :: "'e promotion_env_scheme \<Rightarrow> nat \<Rightarrow> nat" where
  "nhit_sizeof env cachelines =
     (sizeof_nhit_ctx env + nhit_hash_sizeof (sizeof_nhit_hash env) (sizeof_rwsem env) ((cachelines * NHIT_MAPPING_RATIO) mod 2 ^ 32)) mod 2 ^ 64"

definition nhit_init :: "promotion_env \<Rightarrow> nat \<Rightarrow> promotion_state \<Rightarrow> ocf_error \<times> promotion_state" where
  "nhit_init env cachelines p =
     (if nhit_sizeof env cachelines \<ge> free_memory env then (OCF_ERR_NO_FREE_RAM, p)
      else if \<not> nhit_ctx_alloc_ok env then (OCF_ERR_NO_MEM, p)
      else case nhit_hash_init (nhit_env.truncate env) ((cachelines * NHIT_MAPPING_RATIO) mod 2 ^ 32) of
        (result, res, tab) \<Rightarrow>
          if result \<noteq> OCF_OK then (result, p\<lparr>table_allocated := table_allocated p \<union> res\<rparr>)
          else (OCF_OK, p\<lparr>pp_ctx := tab, ctx_allocated := True, table_allocated := table_allocated p \<union> res\<rparr>))"

text \<open>Without a context the code would follow a null pointer.\<close>

definition nhit_deinit :: "promotion_state \<Rightarrow> promotion_state option" where
  "nhit_deinit p = do {
     ctx \<leftarrow> pp_ctx p;
     Some (p\<lparr>pp_ctx := None, ctx_allocated := False, table_allocated := nhit_hash_deinit ctx (table_allocated p)\<rparr>) }"

definition nhit_set_param :: "nat \<Rightarrow> nat \<Rightarrow> promotion_state \<Rightarrow> ocf_error \<times> promotion_state" where
  "nhit_set_param param_id param_value p =
     (if param_id = ocf_nhit_insertion_threshold then
        if param_value \<ge> OCF_NHIT_MIN_THRESHOLD \<and> param_value \<le> OCF_NHIT_MAX_THRESHOLD
        then (OCF_OK, p\<lparr>nhit_config := (nhit_config p)\<lparr>insertion_threshold := param_value\<rparr>\<rparr>)
        else (OCF_ERR_INVAL, p)
      else if param_id = ocf_nhit_trigger_threshold then
        if param_value \<ge> OCF_NHIT_MIN_TRIGGER \<and> param_value \<le> OCF_NHIT_MAX_TRIGGER
        then (OCF_OK, p\<lparr>nhit_config := (nhit_config p)\<lparr>trigger_threshold := param_value\<rparr>\<rparr>)
        else (OCF_ERR_INVAL, p)
      else (OCF_ERR_INVAL, p))"

definition nhit_get_param :: "nat \<Rightarrow> promotion_state \<Rightarrow> ocf_error + nat" where
  "nhit_get_param param_id p =
     (if param_id = ocf_nhit_insertion_threshold then Inr (insertion_threshold (nhit_config p))
      else if param_id = ocf_nhit_trigger_threshold then Inr (trigger_threshold (nhit_config p))
      else Inl OCF_ERR_INVAL)"

definition core_line_purge :: "nhit_hash \<Rightarrow> nat \<Rightarrow> nat \<Rightarrow> nhit_hash option" where
  "core_line_purge ctx cid core_lba = nhit_hash_set_occurences ctx cid core_lba 0"

text \<open>The entries of the map for the core lines of the request, in order.\<close>

definition entry_line :: "'y eng_req_scheme \<Rightarrow> nat \<Rightarrow> nat \<times> nat" where
  "entry_line req i = (m_core_id (rq_map req i), m_core_line (rq_map req i))"

definition req_entries :: "'y eng_req_scheme \<Rightarrow> nat list" where
  "req_entries req = [0..<Suc (line_last req) - line_first req]"

fun purge_loop :: "(nat \<times> nat) list \<Rightarrow> nhit_hash \<Rightarrow> nhit_hash option" where
  "purge_loop [] ctx = Some ctx"
| "purge_loop (k # ks) ctx = do { ctx \<leftarrow> core_line_purge ctx (fst k) (snd k); purge_loop ks ctx }"

definition nhit_req_purge :: "'y eng_req_scheme \<Rightarrow> nhit_hash \<Rightarrow> nhit_hash option" where
  "nhit_req_purge req ctx = purge_loop (map (entry_line req) (req_entries req)) ctx"

text \<open>The comparison of the unsigned threshold with the signed counter converts the counter.\<close>

definition core_line_should_promote :: "nhit_promotion_policy_config \<Rightarrow> nhit_hash \<Rightarrow> nat \<Rightarrow> nat \<Rightarrow> (bool \<times> nhit_hash) option" where
  "core_line_should_promote cfg ctx cid core_lba = do {
     (hit, ctx) \<leftarrow> nhit_hash_query ctx cid core_lba;
     case hit of
       Some counter \<Rightarrow> Some (int (insertion_threshold cfg) \<le> counter mod 2 ^ 32, ctx)
     | None \<Rightarrow> do {
         ctx \<leftarrow> nhit_hash_insert ctx cid core_lba;
         Some (False, ctx) } }"

fun promote_loop :: "nhit_promotion_policy_config \<Rightarrow> (nat \<times> nat) list \<Rightarrow> bool \<Rightarrow> nhit_hash \<Rightarrow> (bool \<times> nhit_hash) option" where
  "promote_loop cfg [] result ctx = Some (result, ctx)"
| "promote_loop cfg (k # ks) result ctx = do {
     (promote, ctx) \<leftarrow> core_line_should_promote cfg ctx (fst k) (snd k);
     promote_loop cfg ks (if \<not> promote then False else result) ctx }"

definition ocf_engine_mapped_count :: "'y eng_req_scheme \<Rightarrow> nat" where
  "ocf_engine_mapped_count req = (hit_no (rinfo req) + invalid_no (rinfo req)) mod 2 ^ 32"

definition occupied_cachelines :: "user_cache \<Rightarrow> nat" where
  "occupied_cachelines u = nat ((int (collision_table_entries (cl u)) - int (ocf_eviction_num_free u)) mod 2 ^ 32)"

definition below_trigger :: "nhit_promotion_policy_config \<Rightarrow> nat \<Rightarrow> user_cache \<Rightarrow> bool" where
  "below_trigger cfg cachelines u \<longleftrightarrow> occupied_cachelines u < (trigger_threshold cfg * cachelines + 100 - 1) div 100"

definition nhit_req_should_promote ::
  "nhit_promotion_policy_config \<Rightarrow> nat \<Rightarrow> user_cache \<Rightarrow> 'y eng_req_scheme \<Rightarrow> nhit_hash \<Rightarrow> (bool \<times> nhit_hash) option" where
  "nhit_req_should_promote cfg cachelines u req ctx =
     (if below_trigger cfg cachelines u then Some (True, ctx)
      else do {
        (result, ctx) \<leftarrow> promote_loop cfg (map (entry_line req) (req_entries req)) True ctx;
        Some (result \<or> ocf_engine_mapped_count req \<noteq> 0, ctx) })"

subsection \<open>Dispatch\<close>

abbreviation (input) ocf_promotion_always :: nat where "ocf_promotion_always \<equiv> 0"
abbreviation (input) ocf_promotion_nhit :: nat where "ocf_promotion_nhit \<equiv> 1"
abbreviation (input) ocf_promotion_max :: nat where "ocf_promotion_max \<equiv> 2"

definition policy_init :: "promotion_env \<Rightarrow> nat \<Rightarrow> nat \<Rightarrow> promotion_state \<Rightarrow> ocf_error \<times> promotion_state" where
  "policy_init env cachelines ty p = (if ty = ocf_promotion_nhit then nhit_init env cachelines p else (OCF_OK, p))"

definition policy_deinit :: "nat \<Rightarrow> promotion_state \<Rightarrow> promotion_state option" where
  "policy_deinit ty p = (if ty = ocf_promotion_nhit then nhit_deinit p else Some p)"

definition ocf_promotion_init :: "promotion_env \<Rightarrow> nat \<Rightarrow> nat \<Rightarrow> promotion_state \<Rightarrow> (ocf_error \<times> promotion_state) option" where
  "ocf_promotion_init env cachelines ty p = do {
     bug_on (ty \<ge> ocf_promotion_max);
     if \<not> policy_alloc_ok env then Some (OCF_ERR_NO_MEM, p)
     else do {
       let p = p\<lparr>pp_present := True, pp_type := ty\<rparr>;
       let (result, p) = policy_init env cachelines ty p;
       Some (result, if result \<noteq> OCF_OK then p\<lparr>pp_present := False\<rparr> else p) } }"

definition ocf_promotion_deinit :: "promotion_state \<Rightarrow> promotion_state option" where
  "ocf_promotion_deinit p = do {
     bug_on (pp_type p \<ge> ocf_promotion_max);
     p \<leftarrow> policy_deinit (pp_type p) p;
     Some (p\<lparr>pp_present := False\<rparr>) }"

definition ocf_promotion_set_policy ::
  "promotion_env \<Rightarrow> nat \<Rightarrow> nat \<Rightarrow> promotion_state \<Rightarrow> (ocf_error \<times> promotion_state) option" where
  "ocf_promotion_set_policy env cachelines ty p =
     (if ty \<ge> ocf_promotion_max then Some (OCF_ERR_INVAL, p)
      else let prev_policy = conf_type p in
        if ty = prev_policy then Some (OCF_OK, p)
        else do {
          p \<leftarrow> policy_deinit prev_policy p;
          let p = p\<lparr>conf_type := ty, pp_type := ty\<rparr>;
          let (result, p) = policy_init env cachelines ty p;
          Some (result, if result \<noteq> OCF_OK
            then p\<lparr>conf_type := ocf_promotion_always, pp_type := ocf_promotion_always\<rparr> else p) })"

definition ocf_promotion_set_param :: "nat \<Rightarrow> nat \<Rightarrow> nat \<Rightarrow> promotion_state \<Rightarrow> (ocf_error \<times> promotion_state) option" where
  "ocf_promotion_set_param ty param_id param_value p = do {
     bug_on (ty \<ge> ocf_promotion_max);
     Some (if ty = ocf_promotion_nhit then nhit_set_param param_id param_value p else (OCF_ERR_INVAL, p)) }"

definition ocf_promotion_get_param :: "nat \<Rightarrow> nat \<Rightarrow> promotion_state \<Rightarrow> (ocf_error + nat) option" where
  "ocf_promotion_get_param ty param_id p = do {
     bug_on (ty \<ge> ocf_promotion_max);
     Some (if ty = ocf_promotion_nhit then nhit_get_param param_id p else Inl OCF_ERR_INVAL) }"

text \<open>The table of the policy is part of the state; a missing one is the dereference of a null pointer.\<close>

definition ocf_promotion_req_purge :: "'y eng_req_scheme \<Rightarrow> promotion_state \<Rightarrow> promotion_state option" where
  "ocf_promotion_req_purge req p = do {
     bug_on (pp_type p \<ge> ocf_promotion_max);
     if pp_type p = ocf_promotion_nhit then do {
       ctx \<leftarrow> pp_ctx p;
       ctx \<leftarrow> nhit_req_purge req ctx;
       Some (p\<lparr>pp_ctx := Some ctx\<rparr>) }
     else Some p }"

definition ocf_promotion_req_should_promote ::
  "nat \<Rightarrow> user_cache \<Rightarrow> 'y eng_req_scheme \<Rightarrow> promotion_state \<Rightarrow> (bool \<times> promotion_state) option" where
  "ocf_promotion_req_should_promote cachelines u req p = do {
     bug_on (pp_type p \<ge> ocf_promotion_max);
     if pp_type p = ocf_promotion_nhit then do {
       ctx \<leftarrow> pp_ctx p;
       (result, ctx) \<leftarrow> nhit_req_should_promote (nhit_config p) cachelines u req ctx;
       Some (result, p\<lparr>pp_ctx := Some ctx\<rparr>) }
     else Some (True, p) }"

subsection \<open>The policy counts accesses\<close>

definition ring_access :: "nat \<Rightarrow> nat \<times> nat \<Rightarrow> line_ring \<Rightarrow> bool \<times> line_ring" where
  "ring_access thr k r = (case ring_counter r k of
     Some c \<Rightarrow> (int thr \<le> Prelude.s32 (c + 1) mod 2 ^ 32, ring_put k (Prelude.s32 (c + 1)) r)
   | None \<Rightarrow> (False, ring_push k r))"

definition nhit_ok :: "nhit_hash \<Rightarrow> bool" where
  "nhit_ok ctx \<longleftrightarrow> nhit_quiet ctx \<and> distinct (ring_lines (ring ctx))"

lemma ring_lines_put [simp]: "ring_lines (ring_put k v r) = ring_lines r"
proof (induction r)
  case (Cons a r)
  then show ?case by (cases a) (auto simp: ring_lines_def ring_put_def List.map_filter_def split: prod.splits)
qed (simp add: ring_lines_def ring_put_def)

lemma ring_lines_push:
  assumes "distinct (ring_lines r)" "ring_counter r k = None"
  shows "distinct (ring_lines (ring_push k r))"
proof -
  have "ring_lines (ring_push k r) = ring_lines (tl r) @ [k]" by (simp add: ring_lines_def ring_push_def List.map_filter_def)
  moreover have "set (ring_lines (tl r)) \<subseteq> set (ring_lines r)" "distinct (ring_lines (tl r))"
    using assms(1) by (cases r; auto simp: ring_lines_def List.map_filter_def split: if_splits option.splits)+
  moreover have "k \<notin> set (ring_lines r)" using assms(2) by (simp add: ring_counter_def ring_lines_def map_of_eq_None_iff)
  ultimately show ?thesis by auto
qed

lemma should_promote_refines:
  assumes "nhit_ok ctx" "valid_line k"
  obtains ctx' where "core_line_should_promote cfg ctx (fst k) (snd k) = Some (fst (ring_access (insertion_threshold cfg) k (ring ctx)), ctx')"
    "nhit_ok ctx'" "ring ctx' = snd (ring_access (insertion_threshold cfg) k (ring ctx))"
proof -
  have q: "nhit_quiet ctx" and u: "distinct (ring_lines (ring ctx))" using assms(1) by (simp_all add: nhit_ok_def)
  obtain c1 where c1: "nhit_hash_query ctx (fst k) (snd k) = Some (map_option (\<lambda>c. Prelude.s32 (c + 1)) (ring_counter (ring ctx) k), c1)"
    "nhit_quiet c1" "ring c1 = (case ring_counter (ring ctx) k of None \<Rightarrow> ring ctx | Some c \<Rightarrow> ring_put k (Prelude.s32 (c + 1)) (ring ctx))"
    using nhit_hash_query_ok [OF q u assms(2)] by metis
  show thesis
  proof (cases "ring_counter (ring ctx) k")
    case None
    obtain c2 where c2: "nhit_hash_insert c1 (fst k) (snd k) = Some c2" "nhit_quiet c2" "ring c2 = ring_push k (ring c1)"
      using nhit_hash_insert_ok [OF c1(2) assms(2)] by metis
    show thesis
      by (rule that [of c2]) (use None c1 c2 ring_lines_push [OF u None] in
        \<open>simp_all add: core_line_should_promote_def ring_access_def nhit_ok_def\<close>)
  next
    case (Some c)
    show thesis
      by (rule that [of c1]) (use Some c1 u in \<open>simp_all add: core_line_should_promote_def ring_access_def nhit_ok_def\<close>)
  qed
qed

lemma purge_refines:
  assumes "nhit_ok ctx" "valid_line k"
  obtains ctx' where "core_line_purge ctx (fst k) (snd k) = Some ctx'" "nhit_ok ctx'" "ring ctx' = ring_put k 0 (ring ctx)"
proof -
  have q: "nhit_quiet ctx" and u: "distinct (ring_lines (ring ctx))" using assms(1) by (simp_all add: nhit_ok_def)
  obtain ctx' where "nhit_hash_set_occurences ctx (fst k) (snd k) 0 = Some ctx'" "nhit_quiet ctx'" "ring ctx' = ring_put k 0 (ring ctx)"
    using nhit_hash_set_ok [OF q u assms(2)] by metis
  then show thesis using u by (intro that [of ctx']) (simp_all add: core_line_purge_def nhit_ok_def)
qed

text \<open>Sequences of accesses and of calls to forget a line.\<close>

datatype nhit_call = Access "nat \<times> nat" | Purge "nat \<times> nat"

fun call_line :: "nhit_call \<Rightarrow> nat \<times> nat" where
  "call_line (Access k) = k"
| "call_line (Purge k) = k"

fun run_calls :: "nhit_promotion_policy_config \<Rightarrow> nhit_call list \<Rightarrow> nhit_hash \<Rightarrow> (bool list \<times> nhit_hash) option" where
  "run_calls cfg [] ctx = Some ([], ctx)"
| "run_calls cfg (Access k # cs) ctx = do {
     (r, ctx) \<leftarrow> core_line_should_promote cfg ctx (fst k) (snd k);
     (rs, ctx) \<leftarrow> run_calls cfg cs ctx;
     Some (r # rs, ctx) }"
| "run_calls cfg (Purge k # cs) ctx = do {
     ctx \<leftarrow> core_line_purge ctx (fst k) (snd k);
     run_calls cfg cs ctx }"

text \<open>The specification: how often the line was asked for since it was forgotten last; the history has the latest call first.\<close>

fun asked :: "nhit_call list \<Rightarrow> nat \<times> nat \<Rightarrow> nat" where
  "asked [] k = 0"
| "asked (Access k' # h) k = (if k' = k then Suc (asked h k) else asked h k)"
| "asked (Purge k' # h) k = (if k' = k then 0 else asked h k)"

fun answers :: "nat \<Rightarrow> nhit_call list \<Rightarrow> nhit_call list \<Rightarrow> bool list" where
  "answers thr h [] = []"
| "answers thr h (Access k # cs) = (thr \<le> asked (Access k # h) k) # answers thr (Access k # h) cs"
| "answers thr h (Purge k # cs) = answers thr (Purge k # h) cs"

definition accessed :: "nhit_call list \<Rightarrow> (nat \<times> nat) set" where
  "accessed h = {k. Access k \<in> set h}"

definition ring_counts :: "nat \<Rightarrow> nhit_call list \<Rightarrow> line_ring \<Rightarrow> bool" where
  "ring_counts N h r \<longleftrightarrow> (\<exists>q. r = replicate (N - length q) None @ map Some q \<and> length q \<le> N \<and> distinct (map fst q) \<and>
     set (map fst q) = accessed h \<and> (\<forall>(k, c) \<in> set q. c = int (asked h k)))"

lemma asked_le: "asked h k \<le> length h"
proof (induction h)
  case (Cons c h)
  then show ?case by (cases c) auto
qed simp

lemma asked_never: "k \<notin> accessed h \<Longrightarrow> asked h k = 0"
proof (induction h)
  case (Cons c h)
  then show ?case by (cases c) (auto simp: accessed_def)
qed simp

lemma accessed_Cons [simp]: "accessed (Access k # h) = insert k (accessed h)" "accessed (Purge k # h) = accessed h"
  by (auto simp: accessed_def)

lemma ring_filter_form: "List.map_filter id (replicate m None @ map Some q) = q"
  by (induction m; induction q) (auto simp: List.map_filter_def comp_def)

lemma ring_put_form: "ring_put k v (replicate m None @ map Some q) = replicate m None @ map Some (map (\<lambda>(k', c). (k', if k' = k then v else c)) q)"
  by (simp add: ring_put_def comp_def)

lemma counts_counter:
  assumes "ring_counts N h r"
  shows "ring_counter r k = (if k \<in> accessed h then Some (int (asked h k)) else None)"
proof -
  obtain q where q: "r = replicate (N - length q) None @ map Some q" "distinct (map fst q)" "set (map fst q) = accessed h"
    "\<forall>(k, c) \<in> set q. c = int (asked h k)" using assms unfolding ring_counts_def by blast
  have rc: "ring_counter r k = map_of q k" by (simp add: ring_counter_def q(1) ring_filter_form)
  show ?thesis
  proof (cases "k \<in> accessed h")
    case True
    then have "k \<in> fst ` set q" using q(3) by simp
    then obtain c where "(k, c) \<in> set q" by force
    with q(2,4) True show ?thesis unfolding rc by (auto intro: map_of_is_SomeI)
  next
    case False
    then show ?thesis using q(3) by (simp add: rc map_of_eq_None_iff)
  qed
qed

lemma counts_put:
  assumes "ring_counts N h r" "accessed (c # h) = accessed h" "\<And>k'. asked (c # h) k' = (if k' = k then v else asked h k')"
  shows "ring_counts N (c # h) (ring_put k (int v) r)"
proof -
  obtain q where q: "r = replicate (N - length q) None @ map Some q" "length q \<le> N" "distinct (map fst q)" "set (map fst q) = accessed h"
    "\<forall>(k, c) \<in> set q. c = int (asked h k)" using assms(1) unfolding ring_counts_def by blast
  let ?q = "map (\<lambda>(k', c). (k', if k' = k then int v else c)) q"
  have m: "map fst ?q = map fst q" by (simp add: comp_def case_prod_unfold)
  have "\<forall>(k', c') \<in> set ?q. c' = int (asked (c # h) k')" using q(5) assms(3) by auto
  then show ?thesis
    unfolding ring_counts_def assms(2) using q(1-4) by (intro exI [of _ ?q] conjI; (simp only: m)?) (simp_all add: ring_put_form)
qed

lemma counts_push:
  assumes c: "ring_counts N h r" and k: "k \<notin> accessed h" and N: "card (accessed (Access k # h)) \<le> N"
  shows "ring_counts N (Access k # h) (ring_push k r)"
proof -
  obtain q where q: "r = replicate (N - length q) None @ map Some q" "length q \<le> N" "distinct (map fst q)" "set (map fst q) = accessed h"
    "\<forall>(k, c) \<in> set q. c = int (asked h k)" using c unfolding ring_counts_def by blast
  have "card (accessed h) = length q" using distinct_card [OF q(3)] q(4) by simp
  moreover have "finite (accessed h)" using q(4) by (metis List.finite_set)
  ultimately have l: "length q < N" using N k by simp
  then have "N - length q = Suc (N - length (q @ [(k, 1)]))" by simp
  then have "ring_push k r = replicate (N - length (q @ [(k, 1)])) None @ map Some (q @ [(k, 1)])"
    by (simp add: q(1) ring_push_def)
  moreover have "\<forall>(k', c') \<in> set (q @ [(k, 1)]). c' = int (asked (Access k # h) k')"
    using q(4,5) k asked_never [OF k] by force
  ultimately show ?thesis
    unfolding ring_counts_def using l q k by (intro exI [of _ "q @ [(k, 1)]"]) auto
qed

lemma s32_count: "n < 2 ^ 31 - 1 \<Longrightarrow> Prelude.s32 (int n + 1) = int (Suc n)"
  by (subst s32_small) auto

lemma run_calls_counts:
  assumes "nhit_ok ctx" "ring_counts N h (ring ctx)" "\<forall>c \<in> set cs. valid_line (call_line c)" "card (accessed (rev cs @ h)) \<le> N"
    "length cs + length h < 2 ^ 31" "2 \<le> insertion_threshold cfg"
  shows "\<exists>ctx'. run_calls cfg cs ctx = Some (answers (insertion_threshold cfg) h cs, ctx') \<and> nhit_ok ctx' \<and> ring_counts N (rev cs @ h) (ring ctx')"
  using assms
proof (induction cs arbitrary: ctx h)
  case Nil
  then show ?case by auto
next
  case (Cons c cs)
  show ?case
  proof (cases c)
    case (Purge k)
    obtain c1 where c1: "core_line_purge ctx (fst k) (snd k) = Some c1" "nhit_ok c1" "ring c1 = ring_put k 0 (ring ctx)"
      using purge_refines [OF Cons.prems(1), of k] Cons.prems(3) Purge by auto
    have "ring_counts N (Purge k # h) (ring c1)" unfolding c1(3) using counts_put [OF Cons.prems(2), of "Purge k" k 0] by simp
    with Cons.IH [OF c1(2), of "Purge k # h"] Cons.prems c1 show ?thesis by (simp add: Purge)
  next
    case (Access k)
    let ?thr = "insertion_threshold cfg"
    obtain c1 where c1: "core_line_should_promote cfg ctx (fst k) (snd k) = Some (fst (ring_access ?thr k (ring ctx)), c1)"
      "nhit_ok c1" "ring c1 = snd (ring_access ?thr k (ring ctx))"
      using should_promote_refines [OF Cons.prems(1), of k cfg] Cons.prems(3) Access by auto
    have small: "asked h k < 2 ^ 31 - 1" using asked_le [of h k] Cons.prems(5) by simp
    have "finite (accessed (rev cs @ Access k # h))"
      by (rule finite_subset [of _ "call_line ` set (rev cs @ Access k # h)"]) (force simp: accessed_def image_iff)+
    then have card: "card (accessed (Access k # h)) \<le> N"
      using card_mono [of "accessed (rev cs @ Access k # h)" "accessed (Access k # h)"] Cons.prems(4) Access by (simp add: accessed_def subset_iff)
    have "fst (ring_access ?thr k (ring ctx)) = (?thr \<le> asked (Access k # h) k) \<and> ring_counts N (Access k # h) (ring c1)"
    proof (cases "k \<in> accessed h")
      case True
      have "ring_counter (ring ctx) k = Some (int (asked h k))" using counts_counter [OF Cons.prems(2)] True by simp
      moreover have "ring_counts N (Access k # h) (ring_put k (int (Suc (asked h k))) (ring ctx))"
        by (rule counts_put [OF Cons.prems(2)]) (use True in auto)
      ultimately show ?thesis using small by (simp add: c1(3) ring_access_def s32_count) linarith
    next
      case False
      then have "ring_counter (ring ctx) k = None" using counts_counter [OF Cons.prems(2)] by simp
      then show ?thesis
        using counts_push [OF Cons.prems(2) False card] asked_never [OF False] Cons.prems(6) by (simp add: c1(3) ring_access_def)
    qed
    with Cons.IH [OF c1(2), of "Access k # h"] Cons.prems c1 show ?thesis by (auto simp: Access)
  qed
qed

lemma new_table_ok:
  assumes "4 \<le> n" "n < 2 ^ 32"
  shows "nhit_ok (new_table n)" "ring (new_table n) = replicate n None"
proof -
  have "nhit_geom (new_table n)" by (rule new_table_geom [OF assms])
  moreover have "nhit_chains (new_table n) (\<lambda>_. [])" using assms by (intro new_table_chains) simp_all
  ultimately have "nhit_quiet (new_table n)" unfolding nhit_quiet_def by (auto simp: new_table_def new_elem_def free_sem_def)
  moreover have "slot_view (new_table n) = (\<lambda>_. None)" by (simp add: fun_eq_iff slot_view_def tracked_def elem_key_def new_table_def new_elem_def)
  then show r: "ring (new_table n) = replicate n None" by (simp add: ring_def new_table_def map_replicate_const)
  ultimately show "nhit_ok (new_table n)" by (simp add: nhit_ok_def ring_lines_def List.map_filter_def)
qed

text \<open>
  C25: on a new table with room for the core lines that are asked for, every sequence of accesses and of calls to forget a
  line runs without error, and an access is answered with yes exactly when it is at least the threshold-th access to its
  core line since the line was forgotten last.
\<close>

theorem nhit_promotes_from_threshold:
  assumes "4 \<le> n" "n < 2 ^ 32" "\<forall>c \<in> set cs. valid_line (call_line c)" "card (accessed cs) \<le> n" "length cs < 2 ^ 31"
    "OCF_NHIT_MIN_THRESHOLD \<le> insertion_threshold cfg"
  shows "\<exists>ctx. run_calls cfg cs (new_table n) = Some (answers (insertion_threshold cfg) [] cs, ctx)"
proof -
  have "ring_counts n [] (ring (new_table n))"
    unfolding new_table_ok(2) [OF assms(1,2)] ring_counts_def by (intro exI [of _ "[]"]) (simp add: accessed_def)
  moreover have "accessed (rev cs @ []) = accessed cs" by (simp add: accessed_def)
  ultimately show ?thesis
    using run_calls_counts [OF new_table_ok(1) [OF assms(1,2)], of n "[]" cs cfg] assms(3-6) by auto
qed

theorem nhit_promotes_from_threshold_witness:
  "\<exists>ctx. run_calls \<lparr>insertion_threshold = 2, trigger_threshold = 80\<rparr>
     [Access (1, 7), Access (1, 7), Access (2, 7), Purge (1, 7), Access (1, 7), Access (1, 7)] (new_table 8) =
   Some ([False, True, False, False, True], ctx)"
proof -
  have "accessed [Access (1, 7), Access (1, 7), Access (2, 7), Purge (1, 7), Access (1, 7), Access (1, 7)] = {(1, 7), (2, 7)}"
    by (auto simp: accessed_def)
  then show ?thesis
    using nhit_promotes_from_threshold [of 8 "[Access (1, 7), Access (1, 7), Access (2, 7), Purge (1, 7), Access (1, 7), Access (1, 7)]"
      "\<lparr>insertion_threshold = 2, trigger_threshold = 80\<rparr>"] by (simp add: valid_line_def)
qed

subsection \<open>The decision for a request\<close>

fun ring_accesses :: "nat \<Rightarrow> (nat \<times> nat) list \<Rightarrow> line_ring \<Rightarrow> bool list \<times> line_ring" where
  "ring_accesses thr [] r = ([], r)"
| "ring_accesses thr (k # ks) r =
     (let (p, r) = ring_access thr k r; (ps, r) = ring_accesses thr ks r in (p # ps, r))"

lemma promote_loop_refines:
  assumes "nhit_ok ctx" "\<forall>k \<in> set ks. valid_line k"
  shows "\<exists>ctx'. promote_loop cfg ks b ctx = Some (b \<and> list_all id (fst (ring_accesses (insertion_threshold cfg) ks (ring ctx))), ctx') \<and>
    nhit_ok ctx' \<and> ring ctx' = snd (ring_accesses (insertion_threshold cfg) ks (ring ctx))"
  using assms
proof (induction ks arbitrary: ctx b)
  case (Cons k ks)
  obtain c1 where c1: "core_line_should_promote cfg ctx (fst k) (snd k) = Some (fst (ring_access (insertion_threshold cfg) k (ring ctx)), c1)"
    "nhit_ok c1" "ring c1 = snd (ring_access (insertion_threshold cfg) k (ring ctx))"
    using should_promote_refines [OF Cons.prems(1), of k cfg] Cons.prems(2) by auto
  show ?case using Cons.IH [OF c1(2), of False] Cons.IH [OF c1(2), of b] Cons.prems(2) c1
    by (auto simp: case_prod_unfold Let_def)
qed simp

lemma purge_loop_refines:
  assumes "nhit_ok ctx" "\<forall>k \<in> set ks. valid_line k"
  shows "\<exists>ctx'. purge_loop ks ctx = Some ctx' \<and> nhit_ok ctx' \<and> ring ctx' = fold (\<lambda>k. ring_put k 0) ks (ring ctx)"
  using assms
proof (induction ks arbitrary: ctx)
  case (Cons k ks)
  obtain c1 where "core_line_purge ctx (fst k) (snd k) = Some c1" "nhit_ok c1" "ring c1 = ring_put k 0 (ring ctx)"
    using purge_refines [OF Cons.prems(1), of k] Cons.prems(2) by auto
  with Cons.IH [of c1] Cons.prems(2) show ?case by auto
qed simp

lemma ring_counter_put: "ring_counter (ring_put k v r) k' = (if k' = k then map_option (\<lambda>_. v) (ring_counter r k') else ring_counter r k')"
proof (induction r)
  case (Cons a r)
  then show ?case by (cases a) (auto simp: ring_counter_def ring_put_def map_filter_simps)
qed (simp add: ring_counter_def ring_put_def map_filter_simps)

lemma ring_counter_puts:
  "ring_counter (fold (\<lambda>k. ring_put k 0) ks r) k = (if k \<in> set ks then map_option (\<lambda>_. 0) (ring_counter r k) else ring_counter r k)"
  by (induction ks arbitrary: r) (auto simp: ring_counter_put option.map_comp comp_def)

definition req_lines :: "'y eng_req_scheme \<Rightarrow> (nat \<times> nat) list" where
  "req_lines req = map (entry_line req) (req_entries req)"

text \<open>
  A request is admitted when the cache is filled below the trigger, and then nothing is counted. Otherwise an access to
  each of its core lines is counted in order, also after one was refused, and the request is admitted exactly when all of
  them have reached the threshold or the request has a mapped core line. Forgetting the request afterwards sets the counters
  of its lines to 0 and changes no other one.
\<close>

theorem nhit_request_decision:
  assumes "nhit_ok ctx" "\<forall>k \<in> set (req_lines req). valid_line k"
  shows "\<exists>ctx1 ctx2. nhit_req_should_promote cfg cachelines u req ctx =
      Some (below_trigger cfg cachelines u \<or> ocf_engine_mapped_count req \<noteq> 0 \<or>
        list_all id (fst (ring_accesses (insertion_threshold cfg) (req_lines req) (ring ctx))), ctx1) \<and> nhit_ok ctx1 \<and>
    ring ctx1 = (if below_trigger cfg cachelines u then ring ctx
      else snd (ring_accesses (insertion_threshold cfg) (req_lines req) (ring ctx))) \<and>
    nhit_req_purge req ctx1 = Some ctx2 \<and> nhit_ok ctx2 \<and>
    (\<forall>k. ring_counter (ring ctx2) k =
       (if k \<in> set (req_lines req) then map_option (\<lambda>_. 0) (ring_counter (ring ctx1) k) else ring_counter (ring ctx1) k))"
proof -
  obtain c1 where c1: "nhit_req_should_promote cfg cachelines u req ctx =
      Some (below_trigger cfg cachelines u \<or> ocf_engine_mapped_count req \<noteq> 0 \<or>
        list_all id (fst (ring_accesses (insertion_threshold cfg) (req_lines req) (ring ctx))), c1)" "nhit_ok c1"
    "ring c1 = (if below_trigger cfg cachelines u then ring ctx
      else snd (ring_accesses (insertion_threshold cfg) (req_lines req) (ring ctx)))"
  proof (cases "below_trigger cfg cachelines u")
    case True
    then show thesis using assms(1) by (intro that [of ctx]) (simp_all add: nhit_req_should_promote_def)
  next
    case False
    obtain c1 where "promote_loop cfg (req_lines req) True ctx =
        Some (True \<and> list_all id (fst (ring_accesses (insertion_threshold cfg) (req_lines req) (ring ctx))), c1)" "nhit_ok c1"
      "ring c1 = snd (ring_accesses (insertion_threshold cfg) (req_lines req) (ring ctx))"
      using promote_loop_refines [OF assms, of cfg True] by blast
    then show thesis using False by (intro that [of c1]) (auto simp: nhit_req_should_promote_def req_lines_def [symmetric])
  qed
  obtain c2 where "nhit_req_purge req c1 = Some c2" "nhit_ok c2" "ring c2 = fold (\<lambda>k. ring_put k 0) (req_lines req) (ring c1)"
    using purge_loop_refines [OF c1(2) assms(2)] by (auto simp: nhit_req_purge_def req_lines_def [symmetric])
  with c1 show ?thesis by (intro exI [of _ c1] exI [of _ c2]) (simp add: ring_counter_puts)
qed

subsection \<open>Changing the policy\<close>

definition promotion_ok :: "promotion_state \<Rightarrow> bool" where
  "promotion_ok p \<longleftrightarrow> pp_present p \<and> pp_type p = conf_type p \<and> conf_type p < ocf_promotion_max \<and>
     (if conf_type p = ocf_promotion_nhit
      then ctx_allocated p \<and> (\<exists>ctx. pp_ctx p = Some ctx \<and> nhit_hash_deinit ctx (table_allocated p) = {})
      else pp_ctx p = None \<and> \<not> ctx_allocated p \<and> table_allocated p = {})"

lemma policy_deinit_ok:
  assumes "promotion_ok p"
  obtains p' where "policy_deinit (conf_type p) p = Some p'" "pp_ctx p' = None" "\<not> ctx_allocated p'" "table_allocated p' = {}"
    "pp_present p'" "nhit_config p' = nhit_config p"
  using assms that by (auto simp: promotion_ok_def policy_deinit_def nhit_deinit_def split: if_splits)

lemma policy_init_ok:
  assumes "pp_ctx p = None" "\<not> ctx_allocated p" "table_allocated p = {}" "pp_present p" "conf_type p = ty" "pp_type p = ty"
    "ty < ocf_promotion_max" "spinlock_init env = OCF_OK"
  obtains r p' where "policy_init env n ty p = (r, p')" "nhit_config p' = nhit_config p"
    "r = OCF_OK \<Longrightarrow> promotion_ok p' \<and> conf_type p' = ty" "r \<noteq> OCF_OK \<Longrightarrow> p' = p"
proof -
  let ?env = "nhit_env.truncate env" and ?m = "(n * NHIT_MAPPING_RATIO) mod 2 ^ 32"
  have sp: "spinlock_init ?env = OCF_OK" using assms(8) by (simp add: nhit_env.truncate_def)
  show thesis
  proof (cases "ty = ocf_promotion_nhit")
    case False
    then show thesis using assms by (intro that [of OCF_OK p]) (simp_all add: policy_init_def promotion_ok_def)
  next
    case ty: True
    show thesis
    proof (cases "nhit_sizeof env n \<ge> free_memory env \<or> \<not> nhit_ctx_alloc_ok env")
      case True
      let ?r = "if nhit_sizeof env n \<ge> free_memory env then OCF_ERR_NO_FREE_RAM else OCF_ERR_NO_MEM"
      have "policy_init env n ty p = (?r, p)" using True ty by (auto simp: policy_init_def nhit_init_def)
      then show thesis by (rule that) (simp_all split: if_splits)
    next
      case mem: False
      show thesis
      proof (cases "all_but_spinlock ?env ?m")
        case True
        let ?R = "insert Res_spinlock (insert Res_ring_buffer ({Res_ctx, Res_hash_map, Res_hash_locks} \<union>
          Res_rwsem ` {..<hash_entries (new_table ?m)}))"
        note I = nhit_hash_init_ok [OF True sp]
        have op: "policy_init env n ty p = (OCF_OK, p\<lparr>pp_ctx := Some (new_table ?m), ctx_allocated := True,
            table_allocated := ?R\<rparr>)"
          using I mem ty assms(3) by (simp add: policy_init_def nhit_init_def)
        show thesis by (rule that [OF op]) (use assms ty nhit_hash_deinit_all [of "new_table ?m"] in \<open>simp_all add: promotion_ok_def\<close>)
      next
        case False
        then obtain r where r: "nhit_hash_init ?env ?m = (r, {}, None)" "r \<noteq> OCF_OK"
          using nhit_hash_init_fail [of ?env ?m] by auto
        then have "policy_init env n ty p = (r, p)" using mem ty by (simp add: policy_init_def nhit_init_def)
        then show thesis by (rule that) (use r(2) in simp_all)
      qed
    qed
  qed
qed

text \<open>
  Changing the promotion policy never follows a null pointer and leaves a working policy in every case: the one that
  was asked for, the old one when the request is invalid, or the policy that admits everything when the new one could
  not be initialised; nothing of the old or of the failed policy stays allocated and the parameters are kept.
\<close>

theorem promotion_switch_correct:
  assumes "promotion_ok p" "spinlock_init env = OCF_OK"
  shows "\<exists>r p'. ocf_promotion_set_policy env n ty p = Some (r, p') \<and> promotion_ok p' \<and> nhit_config p' = nhit_config p \<and>
    (r = OCF_OK \<longrightarrow> conf_type p' = ty) \<and>
    (r \<noteq> OCF_OK \<longrightarrow> (if ty \<ge> ocf_promotion_max then r = OCF_ERR_INVAL \<and> p' = p else conf_type p' = ocf_promotion_always))"
proof -
  consider "ty \<ge> ocf_promotion_max" | "ty = conf_type p" | "ty < ocf_promotion_max" "ty \<noteq> conf_type p" by linarith
  then show ?thesis
  proof cases
    case 3
    obtain p1 where p1: "policy_deinit (conf_type p) p = Some p1" "pp_ctx p1 = None" "\<not> ctx_allocated p1" "table_allocated p1 = {}"
      "pp_present p1" "nhit_config p1 = nhit_config p" using policy_deinit_ok [OF assms(1)] by metis
    obtain r p' where p': "policy_init env n ty (p1\<lparr>conf_type := ty, pp_type := ty\<rparr>) = (r, p')" "nhit_config p' = nhit_config p1"
      "r = OCF_OK \<Longrightarrow> promotion_ok p' \<and> conf_type p' = ty" "r \<noteq> OCF_OK \<Longrightarrow> p' = p1\<lparr>conf_type := ty, pp_type := ty\<rparr>"
      using policy_init_ok [of "p1\<lparr>conf_type := ty, pp_type := ty\<rparr>" ty env n] p1 3(1) assms(2) by auto
    show ?thesis
    proof (cases "r = OCF_OK")
      case True
      then show ?thesis using p' p1 3 by (simp add: ocf_promotion_set_policy_def)
    next
      case False
      then show ?thesis using p' p1 3 by (auto simp: ocf_promotion_set_policy_def promotion_ok_def)
    qed
  qed (use assms in \<open>auto simp: ocf_promotion_set_policy_def promotion_ok_def\<close>)
qed

subsection \<open>Witnesses\<close>

text \<open>The trigger is 0 percent, so that a first access is refused.\<close>

theorem nhit_request_decision_witness:
  "\<exists>ctx1 ctx2. nhit_req_should_promote \<lparr>insertion_threshold = 3, trigger_threshold = 0\<rparr> 100 demo_parts (demo_eng_req 3) (new_table 8) =
     Some (False, ctx1) \<and> nhit_req_purge (demo_eng_req 3) ctx1 = Some ctx2"
proof -
  have l: "req_lines (demo_eng_req 3) = [entry_line (demo_eng_req 3) 0]" by (simp add: req_lines_def req_entries_def)
  have v: "\<forall>k \<in> set (req_lines (demo_eng_req 3)). valid_line k"
    unfolding l by (simp add: valid_line_def entry_line_def demo_eng_req_def demo_cl_req_def cl_req.defs eng_req.defs)
  have n: "nhit_ok (new_table 8)" "ring (new_table 8) = replicate 8 None" using new_table_ok [of 8] by simp_all
  have "fst (ring_accesses 3 (req_lines (demo_eng_req 3)) (ring (new_table 8))) = [False]"
    by (simp add: l n(2) ring_access_def ring_counter_def List.map_filter_def)
  moreover have "ocf_engine_mapped_count (demo_eng_req 3) = 0" by (simp add: ocf_engine_mapped_count_def demo_eng_req_def cl_req.defs eng_req.defs clear_info_def)
  ultimately show ?thesis
    using nhit_request_decision [OF n(1) v, of "\<lparr>insertion_threshold = 3, trigger_threshold = 0\<rparr>" 100 demo_parts]
    by (auto simp: below_trigger_def)
qed

definition demo_promotion :: promotion_state where
  "demo_promotion = \<lparr>conf_type = ocf_promotion_always, nhit_config = \<lparr>insertion_threshold = 3, trigger_threshold = 80\<rparr>,
     pp_present = True, pp_type = ocf_promotion_always, pp_ctx = None, ctx_allocated = False, table_allocated = {}\<rparr>"

definition demo_promotion_env :: promotion_env where
  "demo_promotion_env = \<lparr>vzalloc_ok = \<lambda>_. True, rwsem_init_ok = \<lambda>_. True, spinlock_init = OCF_OK, policy_alloc_ok = True,
     nhit_ctx_alloc_ok = True, free_memory = 2 ^ 30, sizeof_nhit_ctx = 8, sizeof_nhit_hash = 56, sizeof_rwsem = 56\<rparr>"

theorem promotion_switch_correct_witness:
  "\<exists>r p. ocf_promotion_set_policy demo_promotion_env 100 ocf_promotion_nhit demo_promotion = Some (r, p) \<and> promotion_ok p"
proof -
  have "promotion_ok demo_promotion" "spinlock_init demo_promotion_env = OCF_OK"
    by (simp_all add: promotion_ok_def demo_promotion_def demo_promotion_env_def)
  from promotion_switch_correct [OF this, of 100 ocf_promotion_nhit] show ?thesis by blast
qed

end
