(* ===== verification/Spec2Isabelle.thy ===== *)
theory Spec2Isabelle
  imports Async_Lock Composite User_Part Engine Prepare Nhit_Threads Promotion Metadata_Status Generator Collision Lru_List Lru
begin

text \<open>
  \<^bold>\<open>A verification of the Open CAS Framework (OCF)\<close>

  OCF is a block cache library. A cache keeps \<^emph>\<open>cache lines\<close> of the data of \<^emph>\<open>cores\<close> on a cache volume. Its
  metadata says for each line which core line it holds and which of its sectors are valid or dirty, links the
  lines into hash chains for lookup, and puts each line on an eviction list of a partition. Requests take locks on hash
  buckets and on cache lines, look their lines up, and change the state of the lines; management operations
  run under an asynchronous lock, count references and assemble volumes.

  The development is a shallow embedding of the C code. Functions that can hit an \<open>ENV_BUG_ON\<close> return \<open>'a option\<close> with \<open>None\<close> for
  the stopped process; error codes are values of \<open>ocf_error\<close>; structs are records and enums are
  datatypes; shared state is passed explicitly; a 32-bit counter is a number with its wrap-around
  written out and a bit map is a machine word; atomic operations of concurrent code are steps of an inductive
  relation. The theories, in the order in which they build on each other:

  \<^item> \<open>Prelude\<close>: assertions, error codes, 32-bit counters and the lemma collections of the library.
  \<^item> \<open>Metadata_Bits\<close> (metadata/metadata_bit.h, the dispatch in metadata/metadata.c) and \<open>Metadata_Status\<close>
    (metadata/metadata_status.h): the valid and dirty bit maps of a cache line, for both sector sizes and all line
    sizes. Every function is proved to test, set or clear exactly the sectors of its range and to report
    the change it claims to report.
  \<^item> \<open>Generator\<close> (utils/utils_generator.c): the bisect generator returns every number below its limit exactly once.
  \<^item> \<open>Links\<close>: doubly linked lists in arrays, shared by all list components.
  \<^item> \<open>Collision\<close> (metadata/metadata_collision.c, metadata_core.c, metadata_misc.h, the lookup of
    engine/engine_common.c): the hash table. Insertions and removals refine updates of a partial map from core lines to
    cache lines, lookup finds exactly its entries, initialisation by parallel shards gives the empty map.
  \<^item> \<open>Lru_List\<close> and \<open>Lru\<close> (eviction/ocf_lru.c, metadata/metadata_partition.c): one eviction list with its hot half,
    and the lists of all partitions with their sizes. The operations refine recency lists and a placement of
    lines; populating puts every line on its free list once. The contracts are the locales \<open>recency\<close> and \<open>simulation\<close>.
  \<^item> \<open>Hash_Lock\<close> (concurrency/ocf_metadata_concurrency.c): mutual exclusion of the bucket locks under every
    interleaving of their compare-and-exchange loops, and the buckets a request locks: exactly those of its core lines, in ascending order.
  \<^item> \<open>Alock\<close> (utils/utils_alock.c, concurrency/ocf_cache_line_concurrency.c): cache line locks with their waiters lists.
    The first attempt of a lock operation, its section under the lock of the waiters list, unlocks and cancellations are steps that
    interleave. Every state they reach has exclusive writers and no waiter without an owner to wait for, as long as a line has at most
    254 owners and waiters; unlocking hands the line over in the order of the waiters.
  \<^item> \<open>Cache_Line\<close> (utils/utils_cache_line.c, utils_cache_line.h, metadata/metadata_misc.c, ocf_user_part_move): the state changes of
    lines over all of the above at once. Marking a request's lines valid, dirty or clean, purging and moving
    them keeps bit maps, lists, hash table and the counters of cores and partitions consistent; for moves the counters are exact
    when the moved lines have a valid block (\<open>ocf_user_part_move\<close> counts them all).
  \<^item> \<open>Engine\<close> (engine/engine_common.c, engine_common.h, engine_rd.c, engine_pt.c, engine_wb.c, engine_wt.c, engine_inv.c, ocf_req_hash and
    ocf_req_clear_info of ocf_request.c): requests in the engines. The lookup of a request is exact, reads never pass over data
    that only the cache has unless they had to wait (a defect, proved as such), and the metadata updates of writes
    mark exactly the sectors written, also in lines that have no valid sector yet.
  \<^item> \<open>Ocf_Lst\<close> (utils/utils_list.c, utils_list.h): index lists and their insertion sort, for every comparator that
    meets the contract \<open>lst_order\<close>.
  \<^item> \<open>User_Part\<close> (utils/utils_user_part.c, utils_user_part.h, mngt/ocf_mngt_io_class.c, ocf_io_class.c, the initialisation of partitions in
    mngt/ocf_mngt_cache.c): the eviction order of partitions, and the configuration of io classes with all its errors.
  \<^item> \<open>Evict\<close> and \<open>Remap\<close> (the iterators and ocf_lru_req_clines of eviction/ocf_lru.c, ocf_map_cache_line of engine/engine_common.c,
    ocf_rotate_right): finding cache lines for the core lines that a request misses, on the free list or by eviction,
    with attempts to lock the line and its hash bucket that may fail. Only clean lines that nobody uses are taken, each is
    the least recently used one of its list that can be taken, the search gives up only when there is none or the partition is full, and all
    structures of the cache stay consistent.
  \<^item> \<open>Space\<close> (ocf_space.c, ocf_eviction_req_clines and ocf_eviction_num_free of eviction/ocf_eviction.c, ocf_user_part_has_space): where
    the lines for a request come from: the free list, partitions above their size, partitions by priority within quotas. The operation of the
    eviction policy is a parameter whose contract is the locale \<open>line_source\<close>, interpreted by the LRU policy. The request gets only clean, unused
    lines and the result tells whether it has them all; requests of pinned classes do not renew the quotas (a defect, proved as such).
  \<^item> \<open>Prepare\<close> (ocf_prepare_clines_miss, ocf_engine_remap and ocf_engine_map_hndl_error of engine/engine_common.c): mapping the missing lines of a
    request, all of them or none: after a failure lines, locks and entries are given back. A write then marks exactly its sectors, in lines it
    found and in lines mapped for it.
  \<^item> \<open>Nhit_Hash\<close> and \<open>Nhit_Threads\<close> (promotion/nhit/nhit_hash.c): the table that counts accesses to core lines that are not cached, with its
    creation and end. Any number of threads that interleave between their accesses of the table keep its chains well-formed, exclude each
    other from buckets and slots, never wait in a cycle and finish.
  \<^item> \<open>Promotion\<close> (promotion/nhit/nhit.c, promotion/promotion.c): the policies on top of it. A core line is admitted from the threshold-th
    access on, a request when the cache is filled below the trigger, all its lines are admitted or one is mapped; changing the policy leaves a
    working one in every case.
  \<^item> \<open>Async_Lock\<close> (utils/utils_async_lock.c): the asynchronous read-write lock of a cache: safety, service of all
    waiters in order, errors.
  \<^item> \<open>Refcnt\<close> (env/posix/ocf_env_refcnt.c): reference counters with their callback, as atomic steps of any number of threads. The counter is
    exact, and callbacks that are registered one after the other are made once each, in order.
  \<^item> \<open>Volume\<close> (ocf_volume.c) and \<open>Composite\<close> (ocf_composite_volume.c): the life cycle of a volume with its allocations, and
    volumes composed of members: requests are split without gaps and overlaps, members are added, attached and
    detached with their error codes.

  \<^bold>\<open>Bounds and fuel.\<close> Traversals of linked lists take as fuel the number of array elements, which bounds the
  length of every well-formed list; the theorems prove that the traversals return. Other loops
  recurse over explicit lists or have a termination proof. Retry loops around compare-and-exchange are single steps of
  a transition relation, so an interleaving may repeat them.

  \<^bold>\<open>Assumptions that the theorems name.\<close> Eviction and mapping start from caches in which every unused line of a user partition holds
  a core line with a valid block and nobody waits for an unlocked line (\<open>lines_ok\<close>). A purge can leave a line mapped without valid
  blocks while somebody waits for it; such lines are covered by the theorems on purging, moving, reading and writing, not by those on eviction.
  The eviction policy is the LRU policy; the operation of the LFU policy is a parameter that these theorems do not use.

  \<^bold>\<open>Not modelled.\<close> The asynchronous input and output of data and metadata, the engines other than read, pass-through, write-back,
  write-through and invalidation, the management pipelines of caches and cores, flushing, the cleaning policies (calls to them
  are recorded), the LFU policy, prefetch and sequential detection, allocation of requests, queues, statistics and logging. Much of
  this is glue between callbacks whose order is decided by the environment. Marking metadata for flush is modelled for segments
  in memory. The calls of the promotion policy by the engines are recorded in \<open>Prepare\<close> and not composed with \<open>Promotion\<close>; the callback
  \<open>on_deinit\<close> of volume types is left out. LFU, the cleaning policies, sequential detection and pipelines are the next parts of the plan.
\<close>

end
